(* ===== verification/Snolc_Prelude.thy ===== *)
theory Snolc_Prelude
  imports Main "HOL-Library.Word" "HOL-Library.Code_Target_Nat"
begin

text \<open>
  Shared vocabulary of the development: the machine types of the Rust sources, the
  \<open>Result\<close> and \<open>Poll\<close> types, checked \<open>usize\<close> arithmetic, big-endian integers,
  UTF-8 validity, byte classes and string splitting, with the generic lemmas the component
  theories rely on.
\<close>

named_theorems result_simps \<open>elimination of the question mark operator on results\<close>
named_theorems be_simps \<open>big-endian encoding and decoding\<close>

section \<open>Machine types\<close>

type_synonym byte = "8 word"
type_synonym u16 = "16 word"
type_synonym u32 = "32 word"
type_synonym u64 = "64 word"
type_synonym bytes = "byte list"

datatype ip_address = IpV4 "32 word" | IpV6 "128 word"

text \<open>
  \<open>usize\<close> is a natural number; the sources target 64-bit machines, and every place where an
  addition or multiplication can leave the type is written with the checked operations below.
\<close>

type_synonym usize = nat

definition usize_max :: nat where
  "usize_max = 2 ^ 64 - 1"

definition u64_max :: nat where
  "u64_max = 2 ^ 64 - 1"

definition checked_add :: "nat \<Rightarrow> nat \<Rightarrow> nat option" where
  "checked_add a b = (if a + b \<le> usize_max then Some (a + b) else None)"

definition checked_mul :: "nat \<Rightarrow> nat \<Rightarrow> nat option" where
  "checked_mul a b = (if a * b \<le> usize_max then Some (a * b) else None)"

definition saturating_add :: "nat \<Rightarrow> nat \<Rightarrow> nat" where
  "saturating_add a b = min (a + b) usize_max"

definition saturating_mul :: "nat \<Rightarrow> nat \<Rightarrow> nat" where
  "saturating_mul a b = min (a * b) usize_max"

definition div_ceil :: "nat \<Rightarrow> nat \<Rightarrow> nat" where
  "div_ceil a b = (if a mod b = 0 then a div b else a div b + 1)"

lemma checked_add_Some_iff [simp]:
  "checked_add a b = Some c \<longleftrightarrow> c = a + b \<and> a + b \<le> usize_max"
  by (auto simp: checked_add_def)

lemma checked_mul_Some_iff [simp]:
  "checked_mul a b = Some c \<longleftrightarrow> c = a * b \<and> a * b \<le> usize_max"
  by (auto simp: checked_mul_def)

lemma checked_add_eq_Some [simp]: "a + b \<le> usize_max \<Longrightarrow> checked_add a b = Some (a + b)"
  by simp

lemma checked_add_None_iff [simp]: "checked_add a b = None \<longleftrightarrow> usize_max < a + b"
  by (auto simp: checked_add_def)

lemma checked_mul_None_iff [simp]: "checked_mul a b = None \<longleftrightarrow> usize_max < a * b"
  by (auto simp: checked_mul_def)

lemma div_ceil_bounds:
  assumes "0 < b"
  shows "a \<le> b * div_ceil a b" and "b * div_ceil a b < a + b"
proof -
  define q where "q = b * (a div b)"
  define r where "r = a mod b"
  have e: "a = q + r" by (simp add: q_def r_def)
  have m: "r < b" using assms by (simp add: r_def)
  have d: "b * div_ceil a b = (if r = 0 then q else q + b)"
    by (simp add: div_ceil_def q_def r_def)
  show "a \<le> b * div_ceil a b" unfolding d using e m by simp
  show "b * div_ceil a b < a + b" unfolding d using e m assms by simp
qed

section \<open>Results and polls\<close>

text \<open>
  \<open>Result<T, E>\<close> is \<open>'e + 'a\<close> with \<open>Inl\<close> the error; \<open>rbind\<close> is the question mark
  operator. \<open>Poll<T>\<close> gets a third value for a call that panics instead of returning.
\<close>

definition rbind :: "'e + 'a \<Rightarrow> ('a \<Rightarrow> 'e + 'b) \<Rightarrow> 'e + 'b" where
  "rbind m f = (case m of Inl e \<Rightarrow> Inl e | Inr a \<Rightarrow> f a)"

definition ok_or :: "'e \<Rightarrow> 'a option \<Rightarrow> 'e + 'a" where
  "ok_or e m = (case m of None \<Rightarrow> Inl e | Some a \<Rightarrow> Inr a)"

definition map_err :: "('e \<Rightarrow> 'f) \<Rightarrow> 'e + 'a \<Rightarrow> 'f + 'a" where
  "map_err f m = (case m of Inl e \<Rightarrow> Inl (f e) | Inr a \<Rightarrow> Inr a)"

datatype 'a poll = Pending | Ready 'a | Panicked

lemma rbind_simps [simp]: "rbind (Inl e) f = Inl e" "rbind (Inr a) f = f a"
  by (simp_all add: rbind_def)

lemma rbind_Inr_iff [result_simps]:
  "rbind m f = Inr b \<longleftrightarrow> (\<exists>a. m = Inr a \<and> f a = Inr b)"
  by (cases m) auto

lemma rbind_Inl_iff [result_simps]:
  "rbind m f = Inl e \<longleftrightarrow> m = Inl e \<or> (\<exists>a. m = Inr a \<and> f a = Inl e)"
  by (cases m) auto

lemma guard_Inr_iff [result_simps]: "(if b then Inl e else m) = Inr a \<longleftrightarrow> \<not> b \<and> m = Inr a"
  by simp

lemma rbindE:
  assumes "rbind m f = Inr b"
  obtains a where "m = Inr a" and "f a = Inr b"
  using assms by (cases m) auto

lemma rbind_pairE:
  assumes "rbind m f = Inr b"
  obtains x y where "m = Inr (x, y)" and "f (x, y) = Inr b"
  using assms by (cases m) auto

lemma ok_or_Inr_iff [result_simps]: "ok_or e m = Inr a \<longleftrightarrow> m = Some a"
  by (cases m) (auto simp: ok_or_def)

lemma ok_or_Inl_iff [result_simps]: "ok_or e m = Inl e' \<longleftrightarrow> m = None \<and> e' = e"
  by (cases m) (auto simp: ok_or_def)

lemma ok_or_simps [simp]: "ok_or e None = Inl e" "ok_or e (Some a) = Inr a"
  by (simp_all add: ok_or_def)

lemma map_err_Inr_iff [result_simps]: "map_err f m = Inr a \<longleftrightarrow> m = Inr a"
  by (cases m) (auto simp: map_err_def)

lemma map_err_simps [simp]: "map_err f (Inl e) = Inl (f e)" "map_err f (Inr a) = Inr a"
  by (simp_all add: map_err_def)

section \<open>Slices\<close>

text \<open>\<open>slice.get(a..b)\<close>: \<open>None\<close> when the range is reversed or leaves the slice.\<close>

definition slice_get :: "'a list \<Rightarrow> nat \<Rightarrow> nat \<Rightarrow> 'a list option" where
  "slice_get xs a b = (if a \<le> b \<and> b \<le> length xs then Some (take (b - a) (drop a xs)) else None)"

definition slice :: "'a list \<Rightarrow> nat \<Rightarrow> nat \<Rightarrow> 'a list" where
  "slice xs a b = take (b - a) (drop a xs)"

text \<open>\<open>copy_from_slice\<close> into \<open>xs[at .. at + length ys]\<close>.\<close>

definition splice :: "'a list \<Rightarrow> nat \<Rightarrow> 'a list \<Rightarrow> 'a list" where
  "splice xs at ys = take at xs @ ys @ drop (at + length ys) xs"

lemma slice_get_Some_iff:
  "slice_get xs a b = Some ys \<longleftrightarrow> a \<le> b \<and> b \<le> length xs \<and> ys = slice xs a b"
  by (auto simp: slice_get_def slice_def)

lemma length_slice [simp]: "length (slice xs a b) = min (b - a) (length xs - a)"
  by (simp add: slice_def)

lemma length_splice [simp]:
  "at + length ys \<le> length xs \<Longrightarrow> length (splice xs at ys) = length xs"
  by (simp add: splice_def)

lemma nth_splice:
  assumes "at + length ys \<le> length xs" and "i < length xs"
  shows "splice xs at ys ! i = (if at \<le> i \<and> i < at + length ys then ys ! (i - at) else xs ! i)"
  using assms by (auto simp: splice_def nth_append min_def)

lemma slice_append_left [simp]: "b \<le> length xs \<Longrightarrow> slice (xs @ ys) a b = slice xs a b"
  by (simp add: slice_def)

lemma slice_take [simp]: "b \<le> n \<Longrightarrow> slice (take n xs) a b = slice xs a b"
  by (simp add: slice_def drop_take min_def)

lemma slice_split:
  assumes "a \<le> m" and "m \<le> b"
  shows "slice xs a b = slice xs a m @ slice xs m b"
proof -
  have "b - a = (m - a) + (b - m)" "(m - a) + a = m" using assms by auto
  then show ?thesis by (simp only: slice_def take_add drop_drop)
qed

lemma take_slice: "take n (slice xs a b) = slice xs a (min b (a + n))"
proof -
  have "min b (a + n) - a = min n (b - a)" by auto
  then show ?thesis by (simp add: slice_def)
qed

lemma slice_same [simp]: "slice xs a a = []"
  by (simp add: slice_def)

section \<open>Big-endian integers\<close>

text \<open>
  \<open>to_be k n\<close> are the last \<open>k\<close> base-256 digits of \<open>n\<close>, most significant first, so that
  \<open>(n as u16).to_be_bytes()\<close> is \<open>to_be 2 n\<close> with the truncation of the cast included.
\<close>

fun to_be :: "nat \<Rightarrow> nat \<Rightarrow> bytes" where
  "to_be 0 n = []"
| "to_be (Suc k) n = to_be k (n div 256) @ [of_nat (n mod 256)]"

definition from_be :: "bytes \<Rightarrow> nat" where
  "from_be bs = foldl (\<lambda>acc b. acc * 256 + unat b) 0 bs"

lemma length_to_be [simp]: "length (to_be k n) = k"
  by (induction k arbitrary: n) auto

lemma unat_byte_lt [simp]: "unat (b :: byte) < 256"
  using unsigned_less [of b, where 'a = nat] by simp

lemma unat_of_nat_byte [simp]: "unat (of_nat n :: byte) = n mod 256"
  by (simp add: unat_of_nat)

lemma of_nat_unat_byte [simp]: "of_nat (unat b) = (b :: byte)"
  by simp

lemma from_be_Nil [simp]: "from_be [] = 0"
  by (simp add: from_be_def)

lemma from_be_snoc [simp]: "from_be (bs @ [b]) = from_be bs * 256 + unat b"
  by (simp add: from_be_def)

lemma from_be_to_be [be_simps]: "from_be (to_be k n) = n mod 256 ^ k"
proof (induction k arbitrary: n)
  case 0
  then show ?case by simp
next
  case (Suc k)
  have "n mod (256 * 256 ^ k) = 256 * (n div 256 mod 256 ^ k) + n mod 256"
    by (rule mod_mult2_eq)
  with Suc show ?case by simp
qed

lemma from_be_less: "from_be bs < 256 ^ length bs"
proof (induction bs rule: rev_induct)
  case Nil
  then show ?case by simp
next
  case (snoc b bs)
  have "unat b < 256" by (rule unat_byte_lt)
  with snoc show ?case by (simp, linarith)
qed

lemma to_be_from_be [be_simps]: "k = length bs \<Longrightarrow> to_be k (from_be bs) = bs"
  by (induction bs arbitrary: k rule: rev_induct) auto

text \<open>The fixed-width readers \<open>u16::from_be_bytes\<close> and \<open>u32::from_be_bytes\<close>.\<close>

definition u16_from_be :: "bytes \<Rightarrow> u16" where
  "u16_from_be bs = of_nat (from_be bs)"

definition u32_from_be :: "bytes \<Rightarrow> u32" where
  "u32_from_be bs = of_nat (from_be bs)"

lemma unat_u16_from_be [be_simps]: "length bs = 2 \<Longrightarrow> unat (u16_from_be bs) = from_be bs"
  using from_be_less [of bs] by (simp add: u16_from_be_def unat_of_nat)

lemma unat_u32_from_be [be_simps]: "length bs = 4 \<Longrightarrow> unat (u32_from_be bs) = from_be bs"
  using from_be_less [of bs] by (simp add: u32_from_be_def unat_of_nat)

lemma u16_from_be_to_be [be_simps]: "u16_from_be (to_be 2 (unat w)) = w"
  using unsigned_less [of w, where 'a = nat] by (simp add: u16_from_be_def from_be_to_be)

lemma u32_from_be_to_be [be_simps]: "u32_from_be (to_be 4 (unat w)) = w"
  using unsigned_less [of w, where 'a = nat] by (simp add: u32_from_be_def from_be_to_be)

lemma to_be_u16_from_be [be_simps]: "length bs = 2 \<Longrightarrow> to_be 2 (unat (u16_from_be bs)) = bs"
  by (simp add: unat_u16_from_be to_be_from_be)

lemma to_be_u32_from_be [be_simps]: "length bs = 4 \<Longrightarrow> to_be 4 (unat (u32_from_be bs)) = bs"
  by (simp add: unat_u32_from_be to_be_from_be)

section \<open>Text\<close>

text \<open>
  A Rust \<open>String\<close> or \<open>&str\<close> is its UTF-8 byte sequence. \<open>utf8_valid\<close> decides what
  \<open>std::str::from_utf8\<close> accepts: no overlong form, no surrogate, nothing above U+10FFFF.
\<close>

definition in_range :: "byte \<Rightarrow> nat \<Rightarrow> nat \<Rightarrow> bool" where
  "in_range b lo hi \<longleftrightarrow> lo \<le> unat b \<and> unat b \<le> hi"

definition utf8_cont :: "byte \<Rightarrow> bool" where
  "utf8_cont b \<longleftrightarrow> in_range b 128 191"

fun utf8_valid :: "bytes \<Rightarrow> bool" where
  "utf8_valid [] = True"
| "utf8_valid (a # r) =
     (if unat a < 128 then utf8_valid r
      else if in_range a 194 223 then
        (case r of b # r' \<Rightarrow> utf8_cont b \<and> utf8_valid r' | _ \<Rightarrow> False)
      else if in_range a 224 239 then
        (case r of b # c # r' \<Rightarrow>
           in_range b (if a = 224 then 160 else 128) (if a = 237 then 159 else 191)
             \<and> utf8_cont c \<and> utf8_valid r'
         | _ \<Rightarrow> False)
      else if in_range a 240 244 then
        (case r of b # c # d # r' \<Rightarrow>
           in_range b (if a = 240 then 144 else 128) (if a = 244 then 143 else 191)
             \<and> utf8_cont c \<and> utf8_cont d \<and> utf8_valid r'
         | _ \<Rightarrow> False)
      else False)"

definition is_ascii :: "bytes \<Rightarrow> bool" where
  "is_ascii bs \<longleftrightarrow> list_all (\<lambda>b. unat b < 128) bs"

definition is_ascii_digit :: "byte \<Rightarrow> bool" where
  "is_ascii_digit b \<longleftrightarrow> in_range b 48 57"

definition is_ascii_alphanumeric :: "byte \<Rightarrow> bool" where
  "is_ascii_alphanumeric b \<longleftrightarrow> in_range b 48 57 \<or> in_range b 65 90 \<or> in_range b 97 122"

definition to_ascii_lowercase :: "byte \<Rightarrow> byte" where
  "to_ascii_lowercase b = (if in_range b 65 90 then b + 32 else b)"

lemma ascii_utf8_valid: "list_all (\<lambda>b. unat b < 128) bs \<Longrightarrow> utf8_valid bs"
  by (induction bs) auto

lemma alphanumeric_ascii: "is_ascii_alphanumeric b \<Longrightarrow> unat b < 128"
  by (auto simp: is_ascii_alphanumeric_def in_range_def)

text \<open>Byte literals, so that \<open>b''...''\<close> can be written as an Isabelle string.\<close>

definition b_str :: "string \<Rightarrow> bytes" where
  "b_str s = map (\<lambda>c. of_nat (of_char c)) s"

text \<open>Decimal formatting of an unsigned number.\<close>

fun dec_string :: "nat \<Rightarrow> string" where
  "dec_string n = (if n < 10 then [char_of (48 + n)] else dec_string (n div 10) @ [char_of (48 + n mod 10)])"

declare dec_string.simps [simp del]

text \<open>\<open>str::split\<close> on one character always yields at least one piece.\<close>

fun split_on :: "'a \<Rightarrow> 'a list \<Rightarrow> 'a list list" where
  "split_on d [] = [[]]"
| "split_on d (x # xs) =
     (if x = d then [] # split_on d xs
      else (case split_on d xs of [] \<Rightarrow> [[x]] | p # ps \<Rightarrow> (x # p) # ps))"

lemma split_on_neq_Nil [simp]: "split_on d xs \<noteq> []"
  by (induction xs) (auto split: list.splits)

lemma split_on_single: "d \<notin> set xs \<Longrightarrow> split_on d xs = [xs]"
  by (induction xs) auto

lemma split_on_append: "d \<notin> set xs \<Longrightarrow> split_on d (xs @ d # ys) = xs # split_on d ys"
  by (induction xs) auto

fun join_with :: "'a \<Rightarrow> 'a list list \<Rightarrow> 'a list" where
  "join_with d [] = []"
| "join_with d [p] = p"
| "join_with d (p # q # ps) = p @ d # join_with d (q # ps)"

lemma join_split [simp]: "join_with d (split_on d xs) = xs"
proof (induction xs)
  case Nil
  then show ?case by simp
next
  case (Cons x xs)
  obtain p ps where "split_on d xs = p # ps"
    using split_on_neq_Nil [of d xs] by (cases "split_on d xs") blast+
  with Cons show ?case by (cases ps) auto
qed

lemma split_on_no_delim: "d \<notin> set xs \<Longrightarrow> split_on d xs = [xs]"
  by (induction xs) auto

lemma split_on_pieces: "p \<in> set (split_on d xs) \<Longrightarrow> d \<notin> set p \<and> set p \<subseteq> set xs"
  by (induction xs arbitrary: p) (auto split: if_splits list.splits, blast+)

text \<open>\<open>str::is_char_boundary\<close> on valid UTF-8: the end, or a byte that is no continuation.\<close>

definition is_char_boundary :: "bytes \<Rightarrow> nat \<Rightarrow> bool" where
  "is_char_boundary s i \<longleftrightarrow>
     i = 0 \<or> i = length s \<or> i < length s \<and> \<not> utf8_cont (s ! i)"

end
