(* ===== verification/Codec_Spec.thy ===== *)
theory Codec_Spec
  imports Snolc_Prelude "HOL-Library.Sublist"
begin

text \<open>
  The contract of a framed codec: an encoder and a parser that invert each other on the valid
  values, and a parser that answers a strict prefix of a frame with one fixed error, so that a
  reader can wait for more bytes. The clients' facts (injectivity, canonical frames, no frame
  is a strict prefix of another) are proved once from the laws.
\<close>

locale codec =
  fixes encode :: "'a \<Rightarrow> 'e + bytes"
    and decode :: "bytes \<Rightarrow> 'e + 'a"
    and valid :: "'a \<Rightarrow> bool"
  assumes round_trip: "valid a \<Longrightarrow> \<exists>bs. encode a = Inr bs \<and> decode bs = Inr a"
    and decode_sound: "decode bs = Inr a \<Longrightarrow> valid a \<and> encode a = Inr bs"
begin

lemma decode_encode: "valid a \<Longrightarrow> encode a = Inr bs \<Longrightarrow> decode bs = Inr a"
  using round_trip by fastforce

lemma encode_inj:
  "valid a \<Longrightarrow> valid b \<Longrightarrow> encode a = Inr bs \<Longrightarrow> encode b = Inr bs \<Longrightarrow> a = b"
  by (metis decode_encode sum.inject(2))

lemma decode_inj: "decode xs = Inr a \<Longrightarrow> decode ys = Inr a \<Longrightarrow> xs = ys"
  by (metis decode_sound sum.inject(2))

lemma accepted_iff: "(\<exists>a. decode bs = Inr a) \<longleftrightarrow> (\<exists>a. valid a \<and> encode a = Inr bs)"
  using decode_encode decode_sound by blast

end

locale prefix_codec = codec encode decode valid
  for encode :: "'a \<Rightarrow> 'e + bytes" and decode :: "bytes \<Rightarrow> 'e + 'a" and valid :: "'a \<Rightarrow> bool" +
  fixes incomplete :: 'e
  assumes decode_prefix:
    "valid a \<Longrightarrow> encode a = Inr bs \<Longrightarrow> strict_prefix p bs \<Longrightarrow> decode p = Inl incomplete"
begin

lemma prefix_free:
  assumes "valid a" and "valid b" and "encode a = Inr xs" and "encode b = Inr ys"
    and "prefix xs ys"
  shows "a = b"
proof (cases "xs = ys")
  case True
  with assms show ?thesis by (blast intro: encode_inj)
next
  case False
  with assms(5) have "strict_prefix xs ys" by (simp add: strict_prefix_def)
  with assms(2,4) have "decode xs = Inl incomplete" by (rule decode_prefix)
  with decode_encode [OF assms(1,3)] show ?thesis by simp
qed

text \<open>Two frames laid end to end have one reading: the first frame is determined.\<close>

lemma first_frame_unique:
  assumes "valid a" and "valid b" and "encode a = Inr xs" and "encode b = Inr ys"
    and "xs @ r = ys @ r'"
  shows "a = b \<and> r = r'"
proof -
  from assms(5) have "prefix xs ys \<or> prefix ys xs"
    by (metis append_eq_append_conv2 prefixI)
  with assms(1-4) have "a = b" by (auto dest: prefix_free)
  with assms(3-5) show ?thesis by simp
qed

end

end
