(* ===== verification/Wire.thy ===== *)
theory Wire
  imports Snolc_Prelude Codec_Spec
begin

text \<open>
  Wire version 1, after \<open>crates/snolc/src/wire.rs\<close>: the stream header, the policy greeting,
  the flow OPEN request and response, and the UDP record. Encoders and parsers are
  translated branch by branch; the properties are round trips in both directions, the
  rejection of every strict prefix, and the bounds of accepted frames.
\<close>

section \<open>Constants and data\<close>

definition MAGIC :: bytes where
  "MAGIC = b_str ''SNOL''"

definition HEADER_LENGTH :: nat where "HEADER_LENGTH = 12"
definition MAX_POLICY_FAMILY :: nat where "MAX_POLICY_FAMILY = 64"
definition MAX_OPEN_BODY :: nat where "MAX_OPEN_BODY = 4096"
definition MAX_METADATA :: nat where "MAX_METADATA = 1024"
definition MAX_REASON :: nat where "MAX_REASON = 256"
definition MAX_UDP_PAYLOAD :: nat where "MAX_UDP_PAYLOAD = 65507"
definition WIRE_VERSION :: u32 where "WIRE_VERSION = 1"

lemmas wire_limits = HEADER_LENGTH_def MAX_POLICY_FAMILY_def MAX_OPEN_BODY_def
  MAX_METADATA_def MAX_REASON_def MAX_UDP_PAYLOAD_def

datatype stream_kind = Policy | Tcp | Udp

datatype open_status =
  StatusOk | Denied | ConnectFailed | Unsupported | ResourceLimit | ProtocolError | InternalError

datatype destination = Ipv4 "32 word" | Ipv6 "128 word" | Domain bytes

record open_request =
  req_kind :: stream_kind
  req_destination :: destination
  req_port :: u16
  req_metadata :: bytes

record open_response =
  resp_status :: open_status
  resp_reason :: bytes

datatype wire_error =
    Incomplete | InvalidMagic | Version u32 | UnknownKind byte | InvalidKind | Reserved
  | TrailingBytes | Length | AddressType byte | BadDomain | PolicyFamily | Port | Utf8
  | UnknownStatus byte

type_synonym 'a wire_result = "wire_error + 'a"

fun kind_u8 :: "stream_kind \<Rightarrow> byte" where
  "kind_u8 Policy = 1" | "kind_u8 Tcp = 2" | "kind_u8 Udp = 3"

definition kind_try_from :: "byte \<Rightarrow> stream_kind wire_result" where
  "kind_try_from v = (if v = 1 then Inr Policy else if v = 2 then Inr Tcp
     else if v = 3 then Inr Udp else Inl (UnknownKind v))"

fun status_u8 :: "open_status \<Rightarrow> byte" where
  "status_u8 StatusOk = 0" | "status_u8 Denied = 1" | "status_u8 ConnectFailed = 2"
| "status_u8 Unsupported = 3" | "status_u8 ResourceLimit = 4" | "status_u8 ProtocolError = 5"
| "status_u8 InternalError = 6"

definition status_try_from :: "byte \<Rightarrow> open_status wire_result" where
  "status_try_from v = (if v = 0 then Inr StatusOk else if v = 1 then Inr Denied
     else if v = 2 then Inr ConnectFailed else if v = 3 then Inr Unsupported
     else if v = 4 then Inr ResourceLimit else if v = 5 then Inr ProtocolError
     else if v = 6 then Inr InternalError else Inl (UnknownStatus v))"

section \<open>Cursor\<close>

record cursor =
  cur_input :: bytes
  cur_position :: nat

definition cursor_new :: "bytes \<Rightarrow> nat \<Rightarrow> cursor" where
  "cursor_new input position = \<lparr>cur_input = input, cur_position = position\<rparr>"

definition cursor_remaining :: "cursor \<Rightarrow> nat" where
  "cursor_remaining c = length (cur_input c) - cur_position c"

definition cursor_bytes :: "nat \<Rightarrow> cursor \<Rightarrow> (bytes \<times> cursor) wire_result" where
  "cursor_bytes n c =
     rbind (ok_or Length (checked_add (cur_position c) n)) (\<lambda>stop.
     rbind (ok_or Incomplete (slice_get (cur_input c) (cur_position c) stop)) (\<lambda>bs.
     Inr (bs, c\<lparr>cur_position := stop\<rparr>)))"

definition cursor_u8 :: "cursor \<Rightarrow> (byte \<times> cursor) wire_result" where
  "cursor_u8 c = rbind (cursor_bytes 1 c) (\<lambda>(bs, c'). Inr (bs ! 0, c'))"

definition cursor_u16 :: "cursor \<Rightarrow> (u16 \<times> cursor) wire_result" where
  "cursor_u16 c = rbind (cursor_bytes 2 c) (\<lambda>(bs, c'). Inr (u16_from_be bs, c'))"

section \<open>Validation of names\<close>

definition family_byte :: "byte \<Rightarrow> bool" where
  "family_byte b \<longleftrightarrow> is_ascii_alphanumeric b \<or> b \<in> set (b_str ''-_.'')"

definition validate_family :: "bytes \<Rightarrow> unit wire_result" where
  "validate_family family =
     (if family = [] \<or> length family > MAX_POLICY_FAMILY \<or> \<not> list_all family_byte family
      then Inl PolicyFamily else Inr ())"

definition hyphen :: byte where "hyphen = 45"
definition dot :: byte where "dot = 46"

definition label_ok :: "bytes \<Rightarrow> bool" where
  "label_ok label \<longleftrightarrow>
     \<not> (label = [] \<or> length label > 63 \<or> hd label = hyphen \<or> last label = hyphen
        \<or> \<not> list_all (\<lambda>b. is_ascii_alphanumeric b \<or> b = hyphen) label)"

definition validate_domain :: "bytes \<Rightarrow> unit wire_result" where
  "validate_domain domain =
     (if domain = [] \<or> length domain > 253 \<or> \<not> is_ascii domain then Inl BadDomain
      else if list_all label_ok (split_on dot domain) then Inr () else Inl BadDomain)"

section \<open>Encoders and parsers\<close>

definition encode_header :: "stream_kind \<Rightarrow> bytes \<Rightarrow> bytes" where
  "encode_header kind output =
     output @ MAGIC @ to_be 4 (unat WIRE_VERSION) @ [kind_u8 kind] @ [0, 0, 0]"

definition parse_header :: "bytes \<Rightarrow> stream_kind wire_result" where
  "parse_header input =
     rbind (ok_or Incomplete (slice_get input 0 HEADER_LENGTH)) (\<lambda>header.
     if slice header 0 4 \<noteq> MAGIC then Inl InvalidMagic
     else let version = u32_from_be (slice header 4 8) in
     if version \<noteq> WIRE_VERSION then Inl (Version version)
     else if slice header 9 12 \<noteq> [0, 0, 0] then Inl Reserved
     else kind_try_from (header ! 8))"

definition encode_policy :: "bytes \<Rightarrow> bytes wire_result" where
  "encode_policy family =
     rbind (validate_family family) (\<lambda>_.
     Inr (encode_header Policy [] @ to_be 2 (length family) @ family))"

definition parse_policy :: "bytes \<Rightarrow> bytes wire_result" where
  "parse_policy input =
     rbind (parse_header input) (\<lambda>kind.
     if kind \<noteq> Policy then Inl InvalidKind
     else rbind (cursor_u16 (cursor_new input HEADER_LENGTH)) (\<lambda>(len, c).
     if \<not> (1 \<le> unat len \<and> unat len \<le> MAX_POLICY_FAMILY) then Inl Length
     else rbind (cursor_bytes (unat len) c) (\<lambda>(family, c).
     if \<not> utf8_valid family then Inl Utf8
     else if cursor_remaining c \<noteq> 0 then Inl TrailingBytes
     else rbind (validate_family family) (\<lambda>_. Inr family))))"

fun encode_destination :: "destination \<Rightarrow> bytes wire_result" where
  "encode_destination (Ipv4 a) = Inr (1 # to_be 4 (unat a))"
| "encode_destination (Ipv6 a) = Inr (2 # to_be 16 (unat a))"
| "encode_destination (Domain d) =
     rbind (validate_domain d) (\<lambda>_. Inr (3 # to_be 2 (length d) @ d))"

definition encode_open :: "open_request \<Rightarrow> bytes wire_result" where
  "encode_open r =
     (if req_kind r = Policy then Inl InvalidKind
      else if req_port r = 0 then Inl Port
      else if length (req_metadata r) > MAX_METADATA then Inl Length
      else rbind (encode_destination (req_destination r)) (\<lambda>address.
      let body = address @ to_be 2 (unat (req_port r))
                   @ to_be 2 (length (req_metadata r)) @ req_metadata r in
      if length body > MAX_OPEN_BODY then Inl Length
      else Inr (encode_header (req_kind r) [] @ to_be 2 (length body) @ body)))"

definition parse_destination :: "cursor \<Rightarrow> (destination \<times> cursor) wire_result" where
  "parse_destination c =
     rbind (cursor_u8 c) (\<lambda>(tag, c).
     if tag = 1 then
       rbind (cursor_bytes 4 c) (\<lambda>(bs, c). Inr (Ipv4 (of_nat (from_be bs)), c))
     else if tag = 2 then
       rbind (cursor_bytes 16 c) (\<lambda>(bs, c). Inr (Ipv6 (of_nat (from_be bs)), c))
     else if tag = 3 then
       rbind (cursor_u16 c) (\<lambda>(len, c).
       rbind (cursor_bytes (unat len) c) (\<lambda>(domain, c).
       if \<not> utf8_valid domain then Inl Utf8
       else rbind (validate_domain domain) (\<lambda>_. Inr (Domain domain, c))))
     else Inl (AddressType tag))"

definition parse_open :: "bytes \<Rightarrow> open_request wire_result" where
  "parse_open input =
     rbind (parse_header input) (\<lambda>kind.
     if kind = Policy then Inl InvalidKind
     else rbind (cursor_u16 (cursor_new input HEADER_LENGTH)) (\<lambda>(body_length, c).
     if unat body_length > MAX_OPEN_BODY then Inl Length
     else if cursor_remaining c < unat body_length then Inl Incomplete
     else if cursor_remaining c > unat body_length then Inl TrailingBytes
     else let body_end = cur_position c + unat body_length in
     rbind (parse_destination c) (\<lambda>(destination, c).
     rbind (cursor_u16 c) (\<lambda>(port, c).
     if port = 0 then Inl Port
     else rbind (cursor_u16 c) (\<lambda>(metadata_length, c).
     if unat metadata_length > MAX_METADATA then Inl Length
     else rbind (cursor_bytes (unat metadata_length) c) (\<lambda>(metadata, c).
     if cur_position c \<noteq> body_end then Inl TrailingBytes
     else Inr \<lparr>req_kind = kind, req_destination = destination, req_port = port,
               req_metadata = metadata\<rparr>))))))"

definition encode_open_response :: "open_response \<Rightarrow> bytes wire_result" where
  "encode_open_response r =
     (if length (resp_reason r) > MAX_REASON then Inl Length
      else Inr (status_u8 (resp_status r) # to_be 2 (length (resp_reason r)) @ resp_reason r))"

definition parse_open_response :: "bytes \<Rightarrow> open_response wire_result" where
  "parse_open_response input =
     rbind (cursor_u8 (cursor_new input 0)) (\<lambda>(v, c).
     rbind (status_try_from v) (\<lambda>status.
     rbind (cursor_u16 c) (\<lambda>(len, c).
     if unat len > MAX_REASON then Inl Length
     else rbind (cursor_bytes (unat len) c) (\<lambda>(reason, c).
     if \<not> utf8_valid reason then Inl Utf8
     else if cursor_remaining c \<noteq> 0 then Inl TrailingBytes
     else Inr \<lparr>resp_status = status, resp_reason = reason\<rparr>))))"

definition encode_udp :: "bytes \<Rightarrow> bytes wire_result" where
  "encode_udp payload =
     (if length payload > MAX_UDP_PAYLOAD then Inl Length
      else Inr (to_be 2 (length payload) @ payload))"

definition parse_udp :: "bytes \<Rightarrow> bytes wire_result" where
  "parse_udp input =
     rbind (cursor_u16 (cursor_new input 0)) (\<lambda>(len, c).
     if unat len > MAX_UDP_PAYLOAD then Inl Length
     else rbind (cursor_bytes (unat len) c) (\<lambda>(payload, c).
     if cursor_remaining c \<noteq> 0 then Inl TrailingBytes else Inr payload))"

section \<open>Laws of the cursor\<close>

text \<open>What the cursor has still to read; the laws describe one read as a split of it.\<close>

definition cursor_rest :: "cursor \<Rightarrow> bytes" where
  "cursor_rest c = drop (cur_position c) (cur_input c)"

definition cursor_wf :: "cursor \<Rightarrow> bool" where
  "cursor_wf c \<longleftrightarrow> cur_position c \<le> length (cur_input c)"

definition advance :: "nat \<Rightarrow> cursor \<Rightarrow> cursor" where
  "advance n c = c\<lparr>cur_position := cur_position c + n\<rparr>"

lemma advance_simps [simp]:
  "cur_input (advance n c) = cur_input c"
  "cur_position (advance n c) = cur_position c + n"
  "cursor_rest (advance n c) = drop n (cursor_rest c)"
  by (simp_all add: advance_def cursor_rest_def add.commute)

lemma advance_advance [simp]: "advance m (advance n c) = advance (n + m) c"
  by (simp add: advance_def add.assoc)

lemma cursor_remaining_rest: "cursor_remaining c = length (cursor_rest c)"
  by (simp add: cursor_remaining_def cursor_rest_def)

lemma cursor_bytes_Inr_iff [result_simps]:
  "cursor_bytes n c = Inr (bs, c') \<longleftrightarrow>
     cur_position c + n \<le> length (cur_input c) \<and> cur_position c + n \<le> usize_max
     \<and> bs = take n (cursor_rest c) \<and> c' = advance n c"
  by (auto simp: cursor_bytes_def result_simps slice_get_def advance_def cursor_rest_def)

lemma cursor_bytes_ok:
  assumes "cursor_rest c = bs @ r" and "length bs = n" and "cursor_wf c"
    and "cur_position c + n \<le> usize_max"
  shows "cursor_bytes n c = Inr (bs, advance n c)"
proof -
  have "length (cur_input c) - cur_position c = n + length r"
    using assms(1,2) by (metis cursor_rest_def length_append length_drop)
  with assms show ?thesis by (auto simp: cursor_bytes_Inr_iff cursor_wf_def)
qed

lemma cursor_bytes_short:
  assumes "length (cursor_rest c) < n" and "cur_position c + n \<le> usize_max" and "cursor_wf c"
  shows "cursor_bytes n c = Inl Incomplete"
  using assms
  by (auto simp: cursor_bytes_def checked_add_def slice_get_def cursor_rest_def cursor_wf_def)

lemma cursor_u16_Inr_iff [result_simps]:
  "cursor_u16 c = Inr (w, c') \<longleftrightarrow>
     cur_position c + 2 \<le> length (cur_input c) \<and> cur_position c + 2 \<le> usize_max
     \<and> w = u16_from_be (take 2 (cursor_rest c)) \<and> c' = advance 2 c"
  by (auto simp: cursor_u16_def result_simps)

lemma cursor_u8_Inr_iff [result_simps]:
  "cursor_u8 c = Inr (b, c') \<longleftrightarrow>
     cur_position c + 1 \<le> length (cur_input c) \<and> cur_position c + 1 \<le> usize_max
     \<and> b = cursor_rest c ! 0 \<and> c' = advance 1 c"
  by (auto simp: cursor_u8_def result_simps)

lemma cursor_u16_ok:
  assumes "cursor_rest c = to_be 2 (unat w) @ r" and "cursor_wf c"
    and "cur_position c + 2 \<le> usize_max"
  shows "cursor_u16 c = Inr (w, advance 2 c)"
  using cursor_bytes_ok [OF assms(1) _ assms(2), of 2] assms(3)
  by (simp add: cursor_u16_def u16_from_be_to_be)

lemma cursor_u16_nat_ok:
  assumes "cursor_rest c = to_be 2 n @ r" and "n < 65536" and "cursor_wf c"
    and "cur_position c + 2 \<le> usize_max"
  shows "cursor_u16 c = Inr (of_nat n, advance 2 c)"
  using cursor_u16_ok [of c "of_nat n" r] assms by (simp add: unat_of_nat)

lemma cursor_u8_ok:
  assumes "cursor_rest c = b # r" and "cursor_wf c" and "cur_position c + 1 \<le> usize_max"
  shows "cursor_u8 c = Inr (b, advance 1 c)"
  using cursor_bytes_ok [of c "[b]" r 1] assms by (simp add: cursor_u8_def)

text \<open>A successful read splits the rest into what was read and the new rest.\<close>

lemma cursor_bytesD:
  "cursor_bytes n c = Inr (bs, c') \<Longrightarrow>
     cursor_rest c = bs @ cursor_rest c' \<and> length bs = n
     \<and> cur_position c' = cur_position c + n"
  by (auto simp: cursor_bytes_Inr_iff) (simp add: cursor_rest_def)

lemma cursor_u8D:
  assumes "cursor_u8 c = Inr (b, c')"
  shows "cursor_rest c = b # cursor_rest c' \<and> cur_position c' = cur_position c + 1"
proof -
  from assms obtain bs where "cursor_bytes 1 c = Inr (bs, c')" and "b = bs ! 0"
    by (auto simp: cursor_u8_def rbind_Inr_iff)
  then show ?thesis by (auto dest!: cursor_bytesD simp: length_Suc_conv)
qed

lemma cursor_u16D:
  assumes "cursor_u16 c = Inr (w, c')"
  shows "cursor_rest c = to_be 2 (unat w) @ cursor_rest c' \<and> cur_position c' = cur_position c + 2"
proof -
  from assms obtain bs where "cursor_bytes 2 c = Inr (bs, c')" and "w = u16_from_be bs"
    by (auto simp: cursor_u16_def rbind_Inr_iff)
  then show ?thesis by (auto dest!: cursor_bytesD simp: to_be_u16_from_be)
qed

lemmas cursorD = cursor_bytesD cursor_u8D cursor_u16D

lemma cursor_u16_short:
  assumes "length (cursor_rest c) < 2" and "cur_position c + 2 \<le> usize_max" and "cursor_wf c"
  shows "cursor_u16 c = Inl Incomplete"
  using cursor_bytes_short [OF assms] by (simp add: cursor_u16_def)

lemma cursor_wf_advance:
  "n \<le> length (cursor_rest c) \<Longrightarrow> cursor_wf c \<Longrightarrow> cursor_wf (advance n c)"
  by (auto simp: cursor_wf_def cursor_rest_def)

lemma cursor_new_simps [simp]:
  "cur_input (cursor_new i p) = i" "cur_position (cursor_new i p) = p"
  "cursor_rest (cursor_new i p) = drop p i" "cursor_wf (cursor_new i p) \<longleftrightarrow> p \<le> length i"
  by (simp_all add: cursor_new_def cursor_rest_def cursor_wf_def)

section \<open>Headers\<close>

lemma kind_try_from_u8 [simp]: "kind_try_from (kind_u8 k) = Inr k"
  by (cases k) (simp_all add: kind_try_from_def)

lemma kind_try_from_Inr: "kind_try_from v = Inr k \<longleftrightarrow> v = kind_u8 k"
  by (cases k) (auto simp: kind_try_from_def split: if_splits)

lemma status_try_from_u8 [simp]: "status_try_from (status_u8 s) = Inr s"
  by (cases s) (simp_all add: status_try_from_def)

lemma status_try_from_Inr: "status_try_from v = Inr s \<longleftrightarrow> v = status_u8 s"
  by (cases s) (auto simp: status_try_from_def split: if_splits)

lemma MAGIC_bytes: "MAGIC = [83, 78, 79, 76]"
  by (simp add: MAGIC_def b_str_def)

lemma header_bytes:
  "encode_header k [] = [83, 78, 79, 76, 0, 0, 0, 1, kind_u8 k, 0, 0, 0]"
proof -
  have "to_be 4 1 = [0, 0, 0, 1]" by code_simp
  then show ?thesis by (simp add: encode_header_def MAGIC_bytes WIRE_VERSION_def)
qed

lemma length_encode_header [simp]: "length (encode_header k []) = 12"
  by (simp add: header_bytes)

lemma parse_header_append [simp]: "parse_header (encode_header k [] @ r) = Inr k"
  by (simp add: header_bytes parse_header_def slice_get_def HEADER_LENGTH_def slice_def
      MAGIC_bytes u32_from_be_def from_be_def WIRE_VERSION_def)

lemma take_12_parts:
  assumes "12 \<le> length xs"
  shows "take 12 xs = take 4 xs @ take 4 (drop 4 xs) @ [xs ! 8] @ take 3 (drop 9 xs)"
proof -
  have one: "take 1 (drop 8 xs) = [xs ! 8]"
    using assms by (simp add: take_Suc hd_drop_conv_nth)
  have "take (4 + (4 + (1 + 3))) xs
      = take 4 xs @ take 4 (drop 4 xs) @ take 1 (drop 8 xs) @ take 3 (drop 9 xs)"
    by (simp only: take_add drop_drop) simp
  then show ?thesis unfolding one by simp
qed

lemma parse_header_Inr: "parse_header input = Inr k \<longleftrightarrow> (\<exists>r. input = encode_header k [] @ r)"
proof
  assume h: "parse_header input = Inr k"
  then have len: "12 \<le> length input" and m: "take 4 input = MAGIC"
    and v: "u32_from_be (take 4 (drop 4 input)) = WIRE_VERSION"
    and z: "take 3 (drop 9 input) = [0, 0, 0]" and kd: "input ! 8 = kind_u8 k"
    by (auto simp: parse_header_def result_simps slice_get_def HEADER_LENGTH_def
        Let_def kind_try_from_Inr slice_def [of input] split: if_splits)
  have "take 4 (drop 4 input) = to_be 4 (unat (u32_from_be (take 4 (drop 4 input))))"
    using len by (simp add: to_be_u32_from_be)
  then have "take 4 (drop 4 input) = to_be 4 (unat WIRE_VERSION)" by (simp only: v)
  then have "take 12 input = encode_header k []"
    unfolding take_12_parts [OF len] encode_header_def m z kd by simp
  then show "\<exists>r. input = encode_header k [] @ r"
    by (metis append_take_drop_id)
qed auto

lemma parse_header_short: "length input < 12 \<Longrightarrow> parse_header input = Inl Incomplete"
  by (simp add: parse_header_def slice_get_def HEADER_LENGTH_def)

section \<open>The policy greeting\<close>

lemma usize_max_ge: "n \<le> 18446744073709551615 \<Longrightarrow> n \<le> usize_max"
  by (simp add: usize_max_def)

definition family_valid :: "bytes \<Rightarrow> bool" where
  "family_valid family \<longleftrightarrow>
     family \<noteq> [] \<and> length family \<le> MAX_POLICY_FAMILY \<and> list_all family_byte family"

lemma validate_family_Inr [simp]: "validate_family f = Inr u \<longleftrightarrow> family_valid f"
  by (auto simp: validate_family_def family_valid_def)

lemma family_utf8: "family_valid f \<Longrightarrow> utf8_valid f"
proof -
  have "family_byte b \<Longrightarrow> unat b < 128" for b
    by (auto simp: family_byte_def b_str_def dest: alphanumeric_ascii)
  then show "family_valid f \<Longrightarrow> utf8_valid f"
    by (auto simp: family_valid_def list_all_iff intro!: ascii_utf8_valid)
qed

lemma encode_policy_Inr:
  "encode_policy f = Inr bs \<longleftrightarrow>
     family_valid f \<and> bs = encode_header Policy [] @ to_be 2 (length f) @ f"
  by (auto simp: encode_policy_def result_simps)

lemma parse_policy_frame:
  assumes "family_valid f"
  shows "parse_policy (encode_header Policy [] @ to_be 2 (length f) @ f) = Inr f"
proof -
  let ?c = "cursor_new (encode_header Policy [] @ to_be 2 (length f) @ f) 12"
  from assms have len: "1 \<le> length f" "length f \<le> 64"
    by (cases f; simp add: family_valid_def MAX_POLICY_FAMILY_def)+
  have 1: "cursor_u16 ?c = Inr (of_nat (length f), advance 2 ?c)"
    by (rule cursor_u16_nat_ok [where r = f]) (use len in \<open>simp_all add: usize_max_ge\<close>)
  have 2: "cursor_bytes (length f) (advance 2 ?c) = Inr (f, advance (length f) (advance 2 ?c))"
    by (rule cursor_bytes_ok [where r = "[]"]) (use len in \<open>simp_all add: cursor_wf_def usize_max_ge\<close>)
  have 3: "unat (of_nat (length f) :: u16) = length f"
    using len by (simp add: unat_of_nat)
  show ?thesis
    using assms len
    by (simp add: parse_policy_def HEADER_LENGTH_def MAX_POLICY_FAMILY_def 1 2 3 family_utf8
        cursor_remaining_rest validate_family_def family_valid_def)
qed

lemma cursor_12 [simp]: "cursor_rest (cursor_new (encode_header k [] @ r) 12) = r"
  by simp

lemma parse_policy_sound:
  assumes "parse_policy input = Inr f"
  shows "family_valid f \<and> input = encode_header Policy [] @ to_be 2 (length f) @ f"
proof -
  from assms have "parse_header input = Inr Policy"
    by (auto simp: parse_policy_def rbind_Inr_iff split: if_splits)
  then obtain r where input: "input = encode_header Policy [] @ r"
    by (auto simp: parse_header_Inr)
  have "\<exists>w c1 c2. cursor_u16 (cursor_new input 12) = Inr (w, c1)
      \<and> cursor_bytes (unat w) c1 = Inr (f, c2) \<and> cursor_remaining c2 = 0 \<and> family_valid f"
    using assms by (auto simp: parse_policy_def HEADER_LENGTH_def rbind_Inr_iff split: if_splits)
  then obtain w c1 c2 where 1: "cursor_u16 (cursor_new input 12) = Inr (w, c1)"
    and 2: "cursor_bytes (unat w) c1 = Inr (f, c2)" and 3: "cursor_remaining c2 = 0"
    and v: "family_valid f" by blast
  from 3 have "cursor_rest c2 = []" by (simp add: cursor_remaining_rest)
  with cursor_u16D [OF 1] cursor_bytesD [OF 2] input v show ?thesis by simp
qed

text \<open>
  A strict prefix of a frame made of a header, a two-byte length and a payload of that length
  ends in the header, in the length, or in the payload.
\<close>

lemma strict_prefix_frame_cases:
  assumes "strict_prefix p (h @ l @ b)"
  obtains (header) "length p < length h"
  | (length_field) q where "p = h @ q" and "length q < length l"
  | (payload) q where "p = h @ l @ q" and "strict_prefix q b"
proof -
  from assms have "prefix p (h @ l @ b)" and ne: "p \<noteq> h @ l @ b"
    by (auto simp: strict_prefix_def)
  then consider (1) "prefix p h" | (2) q where "p = h @ q" "prefix q l"
    | (3) q where "p = h @ l @ q" "prefix q b"
    by (auto simp: prefix_append)
  then show thesis
  proof cases
    case 1
    then show thesis
    proof (cases "p = h")
      case True
      then show thesis
        using length_field [of "[]"] payload [of b] ne header
        by (cases l) (use payload [of "[]"] in \<open>auto simp: strict_prefix_def\<close>)
    next
      case False
      with 1 have "length p < length h" by (intro prefix_length_less) (simp add: strict_prefix_def)
      then show thesis by (rule header)
    qed
  next
    case (2 q)
    show thesis
    proof (cases "q = l")
      case True
      with 2 show thesis using payload [of "[]"] ne by (simp add: strict_prefix_def)
    next
      case False
      with 2 have "length q < length l" by (intro prefix_length_less) (simp add: strict_prefix_def)
      with 2 show thesis using length_field [of q] by blast
    qed
  next
    case (3 q)
    then show thesis using payload [of q] ne by (auto simp: strict_prefix_def)
  qed
qed

lemma parse_policy_prefix:
  assumes "family_valid f" and p: "strict_prefix p (encode_header Policy [] @ to_be 2 (length f) @ f)"
  shows "parse_policy p = Inl Incomplete"
  using p
proof (cases rule: strict_prefix_frame_cases)
  case header
  then show ?thesis by (simp add: parse_policy_def parse_header_short)
next
  case (length_field q)
  then have "cursor_u16 (cursor_new p 12) = Inl Incomplete"
    by (intro cursor_u16_short) (simp_all add: usize_max_ge)
  with length_field show ?thesis by (simp add: parse_policy_def HEADER_LENGTH_def)
next
  case (payload q)
  let ?c = "cursor_new p 12"
  from assms(1) have len: "1 \<le> length f" "length f \<le> 64"
    by (cases f; simp add: family_valid_def MAX_POLICY_FAMILY_def)+
  have q: "length q < length f" using payload by (simp add: prefix_length_less)
  have 1: "cursor_u16 ?c = Inr (of_nat (length f), advance 2 ?c)"
    by (rule cursor_u16_nat_ok [where r = q]) (use len payload in \<open>simp_all add: usize_max_ge\<close>)
  have 2: "cursor_bytes (length f) (advance 2 ?c) = Inl Incomplete"
    by (rule cursor_bytes_short) (use len q payload in \<open>simp_all add: cursor_wf_def usize_max_ge\<close>)
  have 3: "unat (of_nat (length f) :: u16) = length f"
    using len by (simp add: unat_of_nat)
  have 4: "parse_header p = Inr Policy" using payload by simp
  show ?thesis
    using len by (simp add: parse_policy_def HEADER_LENGTH_def MAX_POLICY_FAMILY_def 1 2 3 4)
qed

interpretation policy_codec: prefix_codec encode_policy parse_policy family_valid Incomplete
  by unfold_locales
    (auto simp: encode_policy_Inr parse_policy_frame parse_policy_prefix dest: parse_policy_sound)

section \<open>The OPEN request\<close>

definition destination_valid :: "destination \<Rightarrow> bool" where
  "destination_valid d = (case d of Domain s \<Rightarrow> validate_domain s = Inr () | _ \<Rightarrow> True)"

definition request_valid :: "open_request \<Rightarrow> bool" where
  "request_valid r \<longleftrightarrow> req_kind r \<noteq> Policy \<and> req_port r \<noteq> 0
     \<and> length (req_metadata r) \<le> MAX_METADATA \<and> destination_valid (req_destination r)"

text \<open>The bytes of an address, of a body and of a whole frame.\<close>

fun address_bytes :: "destination \<Rightarrow> bytes" where
  "address_bytes (Ipv4 a) = 1 # to_be 4 (unat a)"
| "address_bytes (Ipv6 a) = 2 # to_be 16 (unat a)"
| "address_bytes (Domain d) = 3 # to_be 2 (length d) @ d"

definition body_bytes :: "open_request \<Rightarrow> bytes" where
  "body_bytes r = address_bytes (req_destination r) @ to_be 2 (unat (req_port r))
     @ to_be 2 (length (req_metadata r)) @ req_metadata r"

definition frame_bytes :: "open_request \<Rightarrow> bytes" where
  "frame_bytes r = encode_header (req_kind r) [] @ to_be 2 (length (body_bytes r)) @ body_bytes r"

lemma validate_domain_length: "validate_domain d = Inr () \<Longrightarrow> length d \<le> 253"
  by (auto simp: validate_domain_def split: if_splits)

lemma validate_domain_utf8: "validate_domain d = Inr () \<Longrightarrow> utf8_valid d"
  by (auto simp: validate_domain_def is_ascii_def intro: ascii_utf8_valid split: if_splits)

lemma address_length:
  "destination_valid d \<Longrightarrow> length (address_bytes d) \<le> 256"
  by (cases d) (auto simp: destination_valid_def dest: validate_domain_length)

lemma body_length: "request_valid r \<Longrightarrow> length (body_bytes r) \<le> 1284"
  using address_length [of "req_destination r"]
  by (simp add: body_bytes_def request_valid_def MAX_METADATA_def)

lemma encode_destination_Inr:
  "encode_destination d = Inr bs \<longleftrightarrow> destination_valid d \<and> bs = address_bytes d"
  by (cases d) (auto simp: result_simps destination_valid_def)

lemma encode_open_Inr:
  "encode_open r = Inr bs \<longleftrightarrow> request_valid r \<and> bs = frame_bytes r"
proof
  assume e: "encode_open r = Inr bs"
  then show "request_valid r \<and> bs = frame_bytes r"
    by (auto simp: encode_open_def result_simps encode_destination_Inr request_valid_def
        frame_bytes_def body_bytes_def Let_def split: if_splits)
next
  assume v: "request_valid r \<and> bs = frame_bytes r"
  then have d: "encode_destination (req_destination r) = Inr (address_bytes (req_destination r))"
    by (simp add: encode_destination_Inr request_valid_def)
  from v have "length (body_bytes r) \<le> 4096" using body_length by fastforce
  then have l: "\<not> length (body_bytes r) > MAX_OPEN_BODY" by (simp add: MAX_OPEN_BODY_def)
  have m: "\<not> length (req_metadata r) > MAX_METADATA" using v by (simp add: request_valid_def)
  show "encode_open r = Inr bs"
    unfolding encode_open_def d rbind_simps body_bytes_def [symmetric] Let_def
    using v l m by (simp add: frame_bytes_def request_valid_def)
qed

lemma of_nat_from_be_32: "(of_nat (from_be (to_be 4 (unat a))) :: 32 word) = a"
  using unsigned_less [of a, where 'a = nat] by (simp add: from_be_to_be)

lemma of_nat_from_be_128: "(of_nat (from_be (to_be 16 (unat a))) :: 128 word) = a"
  using unsigned_less [of a, where 'a = nat] by (simp add: from_be_to_be)

text \<open>Reading an address consumes exactly the bytes that encode it.\<close>

lemma parse_destination_ok:
  assumes "cursor_rest c = address_bytes d @ r" and "destination_valid d" and "cursor_wf c"
    and "cur_position c \<le> 10000"
  shows "parse_destination c = Inr (d, advance (length (address_bytes d)) c)"
proof (cases d)
  case (Ipv4 a)
  have 1: "cursor_u8 c = Inr (1, advance 1 c)"
    by (rule cursor_u8_ok [where r = "to_be 4 (unat a) @ r"])
      (use assms Ipv4 in \<open>simp_all add: usize_max_ge\<close>)
  have 2: "cursor_bytes 4 (advance 1 c) = Inr (to_be 4 (unat a), advance 5 c)"
    using cursor_bytes_ok [of "advance 1 c" "to_be 4 (unat a)" r 4] assms Ipv4
    by (simp add: usize_max_ge cursor_wf_advance)
  show ?thesis
    using Ipv4 by (simp add: parse_destination_def 1 2 of_nat_from_be_32 del: One_nat_def)
next
  case (Ipv6 a)
  have 1: "cursor_u8 c = Inr (2, advance 1 c)"
    by (rule cursor_u8_ok [where r = "to_be 16 (unat a) @ r"])
      (use assms Ipv6 in \<open>simp_all add: usize_max_ge\<close>)
  have 2: "cursor_bytes 16 (advance 1 c) = Inr (to_be 16 (unat a), advance 17 c)"
    using cursor_bytes_ok [of "advance 1 c" "to_be 16 (unat a)" r 16] assms Ipv6
    by (simp add: usize_max_ge cursor_wf_advance)
  show ?thesis
    using Ipv6 by (simp add: parse_destination_def 1 2 of_nat_from_be_128 del: One_nat_def)
next
  case (Domain s)
  then have v: "validate_domain s = Inr ()" using assms(2) by (simp add: destination_valid_def)
  then have len: "length s \<le> 253" by (rule validate_domain_length)
  have 1: "cursor_u8 c = Inr (3, advance 1 c)"
    by (rule cursor_u8_ok [where r = "to_be 2 (length s) @ s @ r"])
      (use assms Domain in \<open>simp_all add: usize_max_ge\<close>)
  have 2: "cursor_u16 (advance 1 c) = Inr (of_nat (length s), advance 3 c)"
    using cursor_u16_nat_ok [of "advance 1 c" "length s" "s @ r"] assms Domain len
    by (simp add: usize_max_ge cursor_wf_advance)
  have 3: "cursor_bytes (length s) (advance 3 c) = Inr (s, advance (3 + length s) c)"
    using cursor_bytes_ok [of "advance 3 c" s r] assms Domain len
    by (simp add: usize_max_ge cursor_wf_advance)
  have 4: "unat (of_nat (length s) :: u16) = length s" using len by (simp add: unat_of_nat)
  show ?thesis
    using Domain v
    by (simp add: parse_destination_def 1 2 3 4 validate_domain_utf8 del: One_nat_def)
qed

lemma to_be_of_nat_from_be_32: "length bs = 4 \<Longrightarrow> to_be 4 (unat (of_nat (from_be bs) :: 32 word)) = bs"
  using from_be_less [of bs] by (simp add: unat_of_nat to_be_from_be)

lemma to_be_of_nat_from_be_128:
  "length bs = 16 \<Longrightarrow> to_be 16 (unat (of_nat (from_be bs) :: 128 word)) = bs"
  using from_be_less [of bs] by (simp add: unat_of_nat to_be_from_be)

lemma parse_destination_sound:
  assumes "parse_destination c = Inr (d, c')"
  shows "destination_valid d \<and> cursor_rest c = address_bytes d @ cursor_rest c'
    \<and> cur_position c' = cur_position c + length (address_bytes d)"
proof -
  from assms obtain tag c1 where 1: "cursor_u8 c = Inr (tag, c1)"
    by (auto simp: parse_destination_def rbind_Inr_iff)
  note r1 = cursor_u8D [OF 1]
  consider (v4) "tag = 1" | (v6) "tag = 2" | (name) "tag = 3" | (other) "tag \<notin> {1, 2, 3}"
    by auto
  then show ?thesis
  proof cases
    case v4
    with assms 1 have "\<exists>bs. cursor_bytes 4 c1 = Inr (bs, c') \<and> d = Ipv4 (of_nat (from_be bs))"
      by (auto simp: parse_destination_def rbind_Inr_iff)
    then obtain bs where 2: "cursor_bytes 4 c1 = Inr (bs, c')"
      and d: "d = Ipv4 (of_nat (from_be bs))" by blast
    from cursor_bytesD [OF 2] r1 d v4 show ?thesis
      by (auto simp: destination_valid_def to_be_of_nat_from_be_32)
  next
    case v6
    with assms 1 have "\<exists>bs. cursor_bytes 16 c1 = Inr (bs, c') \<and> d = Ipv6 (of_nat (from_be bs))"
      by (auto simp: parse_destination_def rbind_Inr_iff)
    then obtain bs where 2: "cursor_bytes 16 c1 = Inr (bs, c')"
      and d: "d = Ipv6 (of_nat (from_be bs))" by blast
    from cursor_bytesD [OF 2] r1 d v6 show ?thesis
      by (auto simp: destination_valid_def to_be_of_nat_from_be_128)
  next
    case name
    with assms 1 have "\<exists>w c2 s. cursor_u16 c1 = Inr (w, c2) \<and> cursor_bytes (unat w) c2 = Inr (s, c')
        \<and> validate_domain s = Inr () \<and> d = Domain s"
      by (auto simp: parse_destination_def rbind_Inr_iff split: if_splits)
    then obtain w c2 s where 2: "cursor_u16 c1 = Inr (w, c2)"
      and 3: "cursor_bytes (unat w) c2 = Inr (s, c')"
      and v: "validate_domain s = Inr ()" and d: "d = Domain s" by blast
    from cursor_u16D [OF 2] cursor_bytesD [OF 3] r1 d v name show ?thesis
      by (auto simp: destination_valid_def)
  next
    case other
    with assms 1 show ?thesis by (simp add: parse_destination_def)
  qed
qed

lemma parse_open_frame:
  assumes v: "request_valid r"
  shows "parse_open (frame_bytes r) = Inr r"
proof -
  let ?b = "body_bytes r" and ?a = "address_bytes (req_destination r)" and ?m = "req_metadata r"
  let ?c = "cursor_new (frame_bytes r) 12"
  have lb: "length ?b \<le> 1284" using v by (rule body_length)
  have lm: "length ?m \<le> 1024" using v by (simp add: request_valid_def MAX_METADATA_def)
  have la: "length ?a + 4 + length ?m = length ?b" by (simp add: body_bytes_def)
  have dv: "destination_valid (req_destination r)" using v by (simp add: request_valid_def)
  have h: "parse_header (frame_bytes r) = Inr (req_kind r)" by (simp add: frame_bytes_def)
  have fl: "length (frame_bytes r) = 14 + length ?b" by (simp add: frame_bytes_def)
  have rest: "cursor_rest ?c = to_be 2 (length ?b) @ ?b" by (simp add: frame_bytes_def)
  have wf: "cursor_wf (advance n ?c)" if "n \<le> length ?b + 2" for n
    using that by (simp add: cursor_wf_def fl)
  have 1: "cursor_u16 ?c = Inr (of_nat (length ?b), advance 2 ?c)"
    by (rule cursor_u16_nat_ok [OF rest]) (use lb in \<open>simp_all add: usize_max_ge fl\<close>)
  have ub: "unat (of_nat (length ?b) :: u16) = length ?b" using lb by (simp add: unat_of_nat)
  have r2: "cursor_rest (advance 2 ?c) = ?a @ to_be 2 (unat (req_port r)) @ to_be 2 (length ?m) @ ?m"
    using rest by (simp add: body_bytes_def)
  have 2: "parse_destination (advance 2 ?c)
      = Inr (req_destination r, advance (2 + length ?a) ?c)"
    using parse_destination_ok [OF r2 dv] wf [of 2] by simp
  have r3: "cursor_rest (advance (2 + length ?a) ?c) = to_be 2 (unat (req_port r)) @ to_be 2 (length ?m) @ ?m"
    using rest by (simp add: body_bytes_def)
  have 3: "cursor_u16 (advance (Suc (Suc (length ?a))) ?c) = Inr (req_port r, advance (4 + length ?a) ?c)"
    using cursor_u16_ok [OF r3] wf [of "2 + length ?a"] la lb by (simp add: usize_max_ge)
  have r4: "cursor_rest (advance (4 + length ?a) ?c) = to_be 2 (length ?m) @ ?m"
    using rest by (simp add: body_bytes_def)
  have 4: "cursor_u16 (advance (4 + length ?a) ?c)
      = Inr (of_nat (length ?m), advance (6 + length ?a) ?c)"
    using cursor_u16_nat_ok [OF r4] wf [of "4 + length ?a"] la lb lm by (simp add: usize_max_ge)
  have um: "unat (of_nat (length ?m) :: u16) = length ?m" using lm by (simp add: unat_of_nat)
  have r5: "cursor_rest (advance (6 + length ?a) ?c) = ?m @ []"
    using rest by (simp add: body_bytes_def)
  have 5: "cursor_bytes (length ?m) (advance (6 + length ?a) ?c)
      = Inr (?m, advance (6 + length ?a + length ?m) ?c)"
    using cursor_bytes_ok [OF r5 refl] wf [of "6 + length ?a"] la lb lm by (simp add: usize_max_ge)
  have rem: "cursor_remaining (advance 2 ?c) = length ?b"
    by (simp add: cursor_remaining_def fl)
  show ?thesis
    using v lb lm la
    by (simp add: parse_open_def h HEADER_LENGTH_def 1 ub rem MAX_OPEN_BODY_def 2 3 4 um 5
        MAX_METADATA_def request_valid_def Let_def del: advance_simps(3))
qed

lemma parse_open_sound:
  assumes "parse_open input = Inr r"
  shows "request_valid r \<and> input = frame_bytes r"
proof -
  from assms obtain k where k: "parse_header input = Inr k" and kP: "k \<noteq> Policy"
    by (auto simp: parse_open_def rbind_Inr_iff split: if_splits)
  then obtain rr where input: "input = encode_header k [] @ rr" by (auto simp: parse_header_Inr)
  have "\<exists>w c1 d c2 p c3 ml c4 m c5. cursor_u16 (cursor_new input 12) = Inr (w, c1)
      \<and> cursor_remaining c1 = unat w \<and> parse_destination c1 = Inr (d, c2)
      \<and> cursor_u16 c2 = Inr (p, c3) \<and> p \<noteq> 0 \<and> cursor_u16 c3 = Inr (ml, c4)
      \<and> unat ml \<le> MAX_METADATA \<and> cursor_bytes (unat ml) c4 = Inr (m, c5)
      \<and> cur_position c5 = cur_position c1 + unat w
      \<and> r = \<lparr>req_kind = k, req_destination = d, req_port = p, req_metadata = m\<rparr>"
    using assms k kP
    by (fastforce simp: parse_open_def HEADER_LENGTH_def rbind_Inr_iff Let_def split: if_splits)
  then obtain w c1 d c2 p c3 ml c4 m c5 where
    1: "cursor_u16 (cursor_new input 12) = Inr (w, c1)" and
    rem: "cursor_remaining c1 = unat w" and
    2: "parse_destination c1 = Inr (d, c2)" and
    3: "cursor_u16 c2 = Inr (p, c3)" and p: "p \<noteq> 0" and
    4: "cursor_u16 c3 = Inr (ml, c4)" and ml: "unat ml \<le> MAX_METADATA" and
    5: "cursor_bytes (unat ml) c4 = Inr (m, c5)" and
    pos: "cur_position c5 = cur_position c1 + unat w" and
    r: "r = \<lparr>req_kind = k, req_destination = d, req_port = p, req_metadata = m\<rparr>" by blast
  note s1 = cursor_u16D [OF 1] and s2 = parse_destination_sound [OF 2] and s3 = cursor_u16D [OF 3]
    and s4 = cursor_u16D [OF 4] and s5 = cursor_bytesD [OF 5]
  have body: "cursor_rest c1 = body_bytes r @ cursor_rest c5"
    using s2 s3 s4 s5 r by (simp add: body_bytes_def)
  have len: "length (body_bytes r) = unat w"
    using s2 s3 s4 s5 r pos by (simp add: body_bytes_def)
  have "cursor_rest c5 = []"
    using body len rem by (simp add: cursor_remaining_rest)
  then have "input = encode_header k [] @ to_be 2 (length (body_bytes r)) @ body_bytes r"
    using s1 body len input by simp
  then show ?thesis
    using s2 s5 ml p kP r by (simp add: request_valid_def frame_bytes_def)
qed

lemma parse_open_prefix:
  assumes v: "request_valid r" and p: "strict_prefix p (frame_bytes r)"
  shows "parse_open p = Inl Incomplete"
  using p unfolding frame_bytes_def
proof (cases rule: strict_prefix_frame_cases)
  case header
  then show ?thesis by (simp add: parse_open_def parse_header_short)
next
  case (length_field q)
  then have "cursor_u16 (cursor_new p 12) = Inl Incomplete"
    by (intro cursor_u16_short) (simp_all add: usize_max_ge)
  with length_field v show ?thesis by (simp add: parse_open_def HEADER_LENGTH_def request_valid_def)
next
  case (payload q)
  let ?c = "cursor_new p 12" and ?b = "body_bytes r"
  have len: "length ?b \<le> 1284" using v by (rule body_length)
  have q: "length q < length ?b" using payload by (simp add: prefix_length_less)
  have 1: "cursor_u16 ?c = Inr (of_nat (length ?b), advance 2 ?c)"
    by (rule cursor_u16_nat_ok [where r = q]) (use len payload in \<open>simp_all add: usize_max_ge\<close>)
  have 2: "unat (of_nat (length ?b) :: u16) = length ?b" using len by (simp add: unat_of_nat)
  have 3: "cursor_remaining (advance 2 ?c) = length q"
    using payload by (simp add: cursor_remaining_def)
  have 4: "parse_header p = Inr (req_kind r)" using payload by simp
  show ?thesis
    using len q v
    by (simp add: parse_open_def HEADER_LENGTH_def MAX_OPEN_BODY_def 1 2 3 4 request_valid_def)
qed

interpretation open_codec: prefix_codec encode_open parse_open request_valid Incomplete
  by unfold_locales
    (auto simp: encode_open_Inr parse_open_frame parse_open_prefix dest: parse_open_sound)

section \<open>The OPEN response\<close>

definition response_valid :: "open_response \<Rightarrow> bool" where
  "response_valid r \<longleftrightarrow> length (resp_reason r) \<le> MAX_REASON \<and> utf8_valid (resp_reason r)"

definition response_bytes :: "open_response \<Rightarrow> bytes" where
  "response_bytes r = [status_u8 (resp_status r)] @ to_be 2 (length (resp_reason r)) @ resp_reason r"

lemma parse_response_frame:
  assumes "response_valid r"
  shows "parse_open_response (response_bytes r) = Inr r"
proof -
  let ?c = "cursor_new (response_bytes r) 0" and ?n = "length (resp_reason r)"
  from assms have len: "?n \<le> 256" by (simp add: response_valid_def MAX_REASON_def)
  have fl: "length (response_bytes r) = 3 + ?n" by (simp add: response_bytes_def)
  have 1: "cursor_u8 ?c = Inr (status_u8 (resp_status r), advance 1 ?c)"
    by (rule cursor_u8_ok) (simp_all add: response_bytes_def usize_max_ge)
  have 2: "cursor_u16 (advance 1 ?c) = Inr (of_nat ?n, advance 3 ?c)"
    using cursor_u16_nat_ok [of "advance 1 ?c" ?n "resp_reason r"] len fl
    by (simp add: response_bytes_def usize_max_ge cursor_wf_def)
  have 3: "cursor_bytes ?n (advance 3 ?c) = Inr (resp_reason r, advance (3 + ?n) ?c)"
    using cursor_bytes_ok [of "advance 3 ?c" "resp_reason r" "[]"] len fl
    by (simp add: response_bytes_def usize_max_ge cursor_wf_def)
  have 4: "unat (of_nat ?n :: u16) = ?n" using len by (simp add: unat_of_nat)
  have 5: "cursor_remaining (advance (3 + ?n) ?c) = 0" by (simp add: cursor_remaining_def fl)
  show ?thesis
    using assms len
    by (simp add: parse_open_response_def 1 2 3 4 5 response_valid_def MAX_REASON_def
        del: One_nat_def)
qed

lemma parse_response_sound:
  assumes "parse_open_response input = Inr r"
  shows "response_valid r \<and> input = response_bytes r"
proof -
  have "\<exists>s c1 w c2 reason c3. cursor_u8 (cursor_new input 0) = Inr (status_u8 s, c1)
      \<and> cursor_u16 c1 = Inr (w, c2) \<and> unat w \<le> MAX_REASON
      \<and> cursor_bytes (unat w) c2 = Inr (reason, c3) \<and> utf8_valid reason
      \<and> cursor_remaining c3 = 0 \<and> r = \<lparr>resp_status = s, resp_reason = reason\<rparr>"
    using assms
    by (fastforce simp: parse_open_response_def rbind_Inr_iff status_try_from_Inr split: if_splits)
  then obtain s c1 w c2 reason c3 where
    1: "cursor_u8 (cursor_new input 0) = Inr (status_u8 s, c1)" and
    2: "cursor_u16 c1 = Inr (w, c2)" and w: "unat w \<le> MAX_REASON" and
    3: "cursor_bytes (unat w) c2 = Inr (reason, c3)" and u: "utf8_valid reason" and
    rem: "cursor_remaining c3 = 0" and r: "r = \<lparr>resp_status = s, resp_reason = reason\<rparr>" by blast
  from rem have "cursor_rest c3 = []" by (simp add: cursor_remaining_rest)
  with cursor_u8D [OF 1] cursor_u16D [OF 2] cursor_bytesD [OF 3] w u r show ?thesis
    by (simp add: response_valid_def response_bytes_def)
qed

lemma parse_response_prefix:
  assumes v: "response_valid r" and p: "strict_prefix p (response_bytes r)"
  shows "parse_open_response p = Inl Incomplete"
  using p unfolding response_bytes_def
proof (cases rule: strict_prefix_frame_cases)
  case header
  then have "cursor_bytes 1 (cursor_new p 0) = Inl Incomplete"
    by (intro cursor_bytes_short) (simp_all add: usize_max_ge)
  then show ?thesis by (simp add: parse_open_response_def cursor_u8_def)
next
  case (length_field q)
  let ?c = "cursor_new p 0"
  have 1: "cursor_u8 ?c = Inr (status_u8 (resp_status r), advance 1 ?c)"
    by (rule cursor_u8_ok) (use length_field in \<open>simp_all add: usize_max_ge\<close>)
  have 2: "cursor_u16 (advance 1 ?c) = Inl Incomplete"
    using length_field by (intro cursor_u16_short) (simp_all add: usize_max_ge cursor_wf_def)
  show ?thesis by (simp add: parse_open_response_def 1 2 del: One_nat_def)
next
  case (payload q)
  let ?c = "cursor_new p 0" and ?n = "length (resp_reason r)"
  from v have len: "?n \<le> 256" by (simp add: response_valid_def MAX_REASON_def)
  have q: "length q < ?n" using payload by (simp add: prefix_length_less)
  have 1: "cursor_u8 ?c = Inr (status_u8 (resp_status r), advance 1 ?c)"
    by (rule cursor_u8_ok) (use payload in \<open>simp_all add: usize_max_ge\<close>)
  have 2: "cursor_u16 (advance 1 ?c) = Inr (of_nat ?n, advance 3 ?c)"
    using cursor_u16_nat_ok [of "advance 1 ?c" ?n q] len payload
    by (simp add: usize_max_ge cursor_wf_def)
  have 3: "cursor_bytes ?n (advance 3 ?c) = Inl Incomplete"
    by (rule cursor_bytes_short) (use payload q len in \<open>simp_all add: usize_max_ge cursor_wf_def\<close>)
  have 4: "unat (of_nat ?n :: u16) = ?n" using len by (simp add: unat_of_nat)
  show ?thesis using len by (simp add: parse_open_response_def 1 2 3 4 MAX_REASON_def del: One_nat_def)
qed

interpretation response_codec:
  prefix_codec encode_open_response parse_open_response response_valid Incomplete
proof
  have e: "encode_open_response r = Inr (response_bytes r)" if "response_valid r" for r
    using that by (simp add: encode_open_response_def response_valid_def response_bytes_def)
  show "\<exists>bs. encode_open_response r = Inr bs \<and> parse_open_response bs = Inr r"
    if "response_valid r" for r
    using that by (simp add: e parse_response_frame)
  show "response_valid r \<and> encode_open_response r = Inr bs" if "parse_open_response bs = Inr r"
    for bs r using parse_response_sound [OF that] e by blast
  show "parse_open_response p = Inl Incomplete"
    if "response_valid r" "encode_open_response r = Inr bs" "strict_prefix p bs" for r bs p
    using that e parse_response_prefix by auto
qed

section \<open>UDP records\<close>

definition udp_valid :: "bytes \<Rightarrow> bool" where
  "udp_valid payload \<longleftrightarrow> length payload \<le> MAX_UDP_PAYLOAD"

lemma parse_udp_frame:
  assumes "udp_valid payload"
  shows "parse_udp (to_be 2 (length payload) @ payload) = Inr payload"
proof -
  let ?c = "cursor_new (to_be 2 (length payload) @ payload) 0" and ?n = "length payload"
  from assms have len: "?n \<le> 65507" by (simp add: udp_valid_def MAX_UDP_PAYLOAD_def)
  have 1: "cursor_u16 ?c = Inr (of_nat ?n, advance 2 ?c)"
    by (rule cursor_u16_nat_ok) (use len in \<open>simp_all add: usize_max_ge\<close>)
  have 2: "cursor_bytes ?n (advance 2 ?c) = Inr (payload, advance (2 + ?n) ?c)"
    using cursor_bytes_ok [of "advance 2 ?c" payload "[]"] len by (simp add: usize_max_ge cursor_wf_def)
  have 3: "unat (of_nat ?n :: u16) = ?n" using len by (simp add: unat_of_nat)
  have 4: "cursor_remaining (advance (Suc (Suc ?n)) ?c) = 0" by (simp add: cursor_remaining_def)
  show ?thesis using len 2 by (simp add: parse_udp_def 1 3 4 MAX_UDP_PAYLOAD_def)
qed

lemma parse_udp_sound:
  assumes "parse_udp input = Inr payload"
  shows "udp_valid payload \<and> input = to_be 2 (length payload) @ payload"
proof -
  have "\<exists>w c1 c2. cursor_u16 (cursor_new input 0) = Inr (w, c1) \<and> unat w \<le> MAX_UDP_PAYLOAD
      \<and> cursor_bytes (unat w) c1 = Inr (payload, c2) \<and> cursor_remaining c2 = 0"
    using assms by (fastforce simp: parse_udp_def rbind_Inr_iff split: if_splits)
  then obtain w c1 c2 where 1: "cursor_u16 (cursor_new input 0) = Inr (w, c1)"
    and w: "unat w \<le> MAX_UDP_PAYLOAD" and 2: "cursor_bytes (unat w) c1 = Inr (payload, c2)"
    and rem: "cursor_remaining c2 = 0" by blast
  from rem have "cursor_rest c2 = []" by (simp add: cursor_remaining_rest)
  with cursor_u16D [OF 1] cursor_bytesD [OF 2] w show ?thesis by (simp add: udp_valid_def)
qed

lemma parse_udp_prefix:
  assumes v: "udp_valid payload" and p: "strict_prefix p ([] @ to_be 2 (length payload) @ payload)"
  shows "parse_udp p = Inl Incomplete"
  using p
proof (cases rule: strict_prefix_frame_cases)
  case header
  then show ?thesis by simp
next
  case (length_field q)
  then have "cursor_u16 (cursor_new p 0) = Inl Incomplete"
    by (intro cursor_u16_short) (simp_all add: usize_max_ge)
  then show ?thesis by (simp add: parse_udp_def)
next
  case (payload q)
  let ?c = "cursor_new p 0" and ?n = "length payload"
  from v have len: "?n \<le> 65507" by (simp add: udp_valid_def MAX_UDP_PAYLOAD_def)
  have q: "length q < ?n" using payload by (simp add: prefix_length_less)
  have 1: "cursor_u16 ?c = Inr (of_nat ?n, advance 2 ?c)"
    by (rule cursor_u16_nat_ok [where r = q]) (use len payload in \<open>simp_all add: usize_max_ge\<close>)
  have 2: "cursor_bytes ?n (advance 2 ?c) = Inl Incomplete"
    by (rule cursor_bytes_short) (use payload q len in \<open>simp_all add: usize_max_ge cursor_wf_def\<close>)
  have 3: "unat (of_nat ?n :: u16) = ?n" using len by (simp add: unat_of_nat)
  show ?thesis using len by (simp add: parse_udp_def 1 2 3 MAX_UDP_PAYLOAD_def)
qed

interpretation udp_codec: prefix_codec encode_udp parse_udp udp_valid Incomplete
proof
  have e: "encode_udp b = Inr (to_be 2 (length b) @ b)" if "udp_valid b" for b
    using that by (simp add: encode_udp_def udp_valid_def)
  show "\<exists>bs. encode_udp b = Inr bs \<and> parse_udp bs = Inr b" if "udp_valid b" for b
    using that by (simp add: e parse_udp_frame)
  show "udp_valid b \<and> encode_udp b = Inr bs" if "parse_udp bs = Inr b" for bs b
    using parse_udp_sound [OF that] e by blast
  show "parse_udp p = Inl Incomplete"
    if "udp_valid b" "encode_udp b = Inr bs" "strict_prefix p bs" for b bs p
    using that e parse_udp_prefix [of b p] by auto
qed

section \<open>Properties of the wire format\<close>

definition sample_request :: open_request where
  "sample_request = \<lparr>req_kind = Tcp, req_destination = Domain (b_str ''example.com''),
     req_port = 443, req_metadata = [1, 2, 3]\<rparr>"

lemma sample_request_valid: "request_valid sample_request"
  by code_simp

text \<open>
  C11: every well-formed OPEN request (kind TCP or UDP, nonzero port, at most 1024 metadata
  bytes, a domain that passes \<open>validate_domain\<close>) is encoded, and parsing the encoding gives
  the same request back.
\<close>

theorem open_round_trip:
  assumes "request_valid r"
  shows "\<exists>bs. encode_open r = Inr bs \<and> parse_open bs = Inr r"
  using assms by (rule open_codec.round_trip)

theorem open_round_trip_witness:
  "request_valid sample_request \<and> (\<exists>bs. encode_open sample_request = Inr bs
     \<and> parse_open bs = Inr sample_request)"
  using open_round_trip [OF sample_request_valid] sample_request_valid by blast

text \<open>
  C27: the parser accepts nothing but canonical frames: whatever \<open>parse_open\<close> accepts is a
  well-formed request, and encoding that request gives exactly the bytes that were parsed, so
  no two byte strings are read as the same request and no byte of a frame is ignored.
\<close>

theorem parse_open_canonical:
  assumes "parse_open input = Inr r"
  shows "request_valid r \<and> encode_open r = Inr input"
  using assms by (rule open_codec.decode_sound)

definition sample_frame :: bytes where
  "sample_frame = [83, 78, 79, 76, 0, 0, 0, 1, 3, 0, 0, 0, 0, 9, 1, 127, 0, 0, 1, 0, 53, 0, 0]"

theorem parse_open_canonical_witness:
  "\<exists>r. parse_open sample_frame = Inr r \<and> request_valid r \<and> encode_open r = Inr sample_frame"
proof -
  have "parse_open sample_frame =
      Inr \<lparr>req_kind = Udp, req_destination = Ipv4 2130706433, req_port = 53, req_metadata = []\<rparr>"
    by code_simp
  from this parse_open_canonical [OF this] show ?thesis by blast
qed

text \<open>
  C28: a reader that has not received the whole frame is told so: every strict prefix of an
  encoded OPEN request is answered with \<open>Incomplete\<close>, whatever the split point.
\<close>

theorem open_prefix_incomplete:
  assumes "encode_open r = Inr bs" and "strict_prefix p bs"
  shows "parse_open p = Inl Incomplete"
proof -
  from assms(1) have "request_valid r" by (simp add: encode_open_Inr)
  from open_codec.decode_prefix [OF this assms] show ?thesis .
qed

theorem open_prefix_incomplete_witness:
  "parse_open (butlast (frame_bytes sample_request)) = Inl Incomplete"
proof -
  have "strict_prefix (butlast (frame_bytes sample_request)) (frame_bytes sample_request)"
    by code_simp
  with sample_request_valid show ?thesis
    by (intro open_prefix_incomplete [of sample_request]) (simp_all add: encode_open_Inr)
qed

text \<open>
  Policy greetings, OPEN responses and UDP records round-trip and their parsers accept only
  canonical frames: for each of the three codecs, parsing succeeds with a value exactly when
  the value is well-formed and the bytes are its encoding.
\<close>

theorem small_frames_exact:
  "(parse_policy bs = Inr family \<longleftrightarrow> family_valid family \<and> encode_policy family = Inr bs)
   \<and> (parse_open_response bs = Inr resp \<longleftrightarrow> response_valid resp \<and> encode_open_response resp = Inr bs)
   \<and> (parse_udp bs = Inr payload \<longleftrightarrow> udp_valid payload \<and> encode_udp payload = Inr bs)"
  using policy_codec.decode_sound policy_codec.decode_encode
    response_codec.decode_sound response_codec.decode_encode
    udp_codec.decode_sound udp_codec.decode_encode
  by blast

text \<open>
  A stream of UDP records has one reading: if two byte streams that start with complete
  records are equal then the first payloads are equal and so are the remainders, so datagram
  boundaries survive concatenation on a byte stream.
\<close>

theorem udp_records_self_delimiting:
  assumes "encode_udp a = Inr xs" and "encode_udp b = Inr ys" and "xs @ r = ys @ r'"
  shows "a = b \<and> r = r'"
proof -
  from assms(1,2) have "udp_valid a" "udp_valid b"
    by (auto simp: encode_udp_def udp_valid_def split: if_splits)
  from udp_codec.first_frame_unique [OF this assms] show ?thesis .
qed

theorem udp_records_self_delimiting_witness:
  "encode_udp [7, 8] = Inr [0, 2, 7, 8] \<and> ([7, 8] = [7, 8 :: byte] \<and> [0, 0] = [0, 0 :: byte])"
proof -
  have e: "encode_udp [7, 8] = Inr [0, 2, 7, 8]" by code_simp
  show ?thesis by (rule conjI [OF e udp_records_self_delimiting [OF e e refl]])
qed

text \<open>
  What the encoders emit stays within the documented bounds: an OPEN frame is at most
  12 + 2 + 1284 bytes, so the 4096-byte body limit of the parser is never hit by the encoder,
  a policy greeting is at most 78 bytes and an OPEN response at most 259 bytes.
\<close>

theorem encoded_frame_bounds:
  "(encode_open r = Inr bs \<longrightarrow> length bs \<le> 1298)
   \<and> (encode_policy family = Inr bs \<longrightarrow> length bs \<le> 78)
   \<and> (encode_open_response resp = Inr bs \<longrightarrow> length bs \<le> 259)"
  using body_length [of r]
  by (auto simp: encode_open_Inr frame_bytes_def encode_policy_Inr family_valid_def
      MAX_POLICY_FAMILY_def encode_open_response_def MAX_REASON_def split: if_splits)

theorem encoded_frame_bounds_witness:
  "encode_policy (b_str ''policy-local'') = Inr (encode_header Policy [] @ to_be 2 12 @ b_str ''policy-local'')
   \<and> length (encode_header Policy [] @ to_be 2 12 @ b_str ''policy-local'') \<le> 78"
proof -
  have "encode_policy (b_str ''policy-local'')
      = Inr (encode_header Policy [] @ to_be 2 12 @ b_str ''policy-local'')"
    by code_simp
  with encoded_frame_bounds [of sample_request _ "b_str ''policy-local''"] show ?thesis by blast
qed

end
