(* ===== verification/Handles.thy ===== *)
theory Handles
  imports Snolc_Prelude
begin

unbundle bit_operations_syntax

text \<open>
  The generation-checked handle table of \<open>crates/snolc-sdk/src/handles.rs\<close>: a slot vector, a
  free stack and 64-bit handles that pack a slot index with the generation of the slot. The
  stack bridge keeps its four flow tables in it. The contract of such a store is the locale
  \<open>handle_store\<close>; the table is shown to satisfy it, and a removed handle is shown to stay
  dead for as long as the 32-bit generation counter has not gone all the way round.
\<close>

section \<open>The table\<close>

type_synonym handle = u64

record 'a slot =
  slot_generation :: u32
  slot_value :: "'a option"

record 'a handle_table =
  ht_owner :: u32
  ht_limit :: nat
  ht_slots :: "'a slot list"
  ht_free :: "u32 list"

text \<open>\<open>IndexPanic\<close> is not an error of the source: it marks an index expression that panics.\<close>

datatype handle_error = Full | Stale | IndexPanic

definition pack :: "u32 \<Rightarrow> u32 \<Rightarrow> handle" where
  "pack index generation = (push_bit 32 (ucast generation) OR ucast index)"

definition handle_index :: "handle \<Rightarrow> u32" where
  "handle_index raw = ucast raw"

definition handle_generation :: "handle \<Rightarrow> u32" where
  "handle_generation raw = ucast (drop_bit 32 raw)"

definition handle_table_new :: "u32 \<Rightarrow> nat \<Rightarrow> 'a handle_table" where
  "handle_table_new owner limit =
     \<lparr>ht_owner = owner, ht_limit = limit, ht_slots = [], ht_free = []\<rparr>"

text \<open>The free list is a \<open>Vec\<close> used as a stack: \<open>pop\<close> takes the last element.\<close>

definition table_insert :: "'a \<Rightarrow> 'a handle_table \<Rightarrow> (handle_error + handle) \<times> 'a handle_table" where
  "table_insert value t =
     (if ht_free t \<noteq> [] then
        let index = last (ht_free t); t1 = t\<lparr>ht_free := butlast (ht_free t)\<rparr> in
        if unat index < length (ht_slots t) then
          let s = ht_slots t ! unat index in
          (Inr (pack index (slot_generation s)),
           t1\<lparr>ht_slots := (ht_slots t)[unat index := s\<lparr>slot_value := Some value\<rparr>]\<rparr>)
        else (Inl IndexPanic, t1)
      else if length (ht_slots t) \<ge> ht_limit t \<or> length (ht_slots t) > 2 ^ 32 - 1 then (Inl Full, t)
      else let index = of_nat (length (ht_slots t)) in
        (Inr (pack index 1),
         t\<lparr>ht_slots := ht_slots t @ [\<lparr>slot_generation = 1, slot_value = Some value\<rparr>]\<rparr>))"

definition table_get :: "handle \<Rightarrow> 'a handle_table \<Rightarrow> handle_error + 'a" where
  "table_get h t =
     (let i = unat (handle_index h) in
      if \<not> i < length (ht_slots t) then Inl Stale
      else if slot_generation (ht_slots t ! i) \<noteq> handle_generation h then Inl Stale
      else ok_or Stale (slot_value (ht_slots t ! i)))"

text \<open>\<open>get_mut\<close> and the write through the reference it returns.\<close>

definition table_update :: "handle \<Rightarrow> ('a \<Rightarrow> 'a) \<Rightarrow> 'a handle_table \<Rightarrow> (handle_error + 'a) \<times> 'a handle_table" where
  "table_update h f t =
     (case table_get h t of Inl e \<Rightarrow> (Inl e, t)
      | Inr v \<Rightarrow> let i = unat (handle_index h) in
          (Inr v, t\<lparr>ht_slots := (ht_slots t)[i := (ht_slots t ! i)\<lparr>slot_value := Some (f v)\<rparr>]\<rparr>))"

definition next_generation :: "u32 \<Rightarrow> u32" where
  "next_generation g = max (g + 1) 1"

definition table_remove :: "handle \<Rightarrow> 'a handle_table \<Rightarrow> (handle_error + 'a) \<times> 'a handle_table" where
  "table_remove h t =
     (let i = unat (handle_index h) in
      if \<not> i < length (ht_slots t) then (Inl Stale, t)
      else let s = ht_slots t ! i in
      if slot_generation s \<noteq> handle_generation h then (Inl Stale, t)
      else case slot_value s of None \<Rightarrow> (Inl Stale, t)
      | Some v \<Rightarrow>
          (Inr v, t\<lparr>ht_slots := (ht_slots t)[i := s\<lparr>slot_generation := next_generation (slot_generation s),
                                             slot_value := None\<rparr>],
                    ht_free := ht_free t @ [handle_index h]\<rparr>))"

section \<open>Packing\<close>

lemma handle_index_pack [simp]: "handle_index (pack i g) = i"
  unfolding handle_index_def pack_def
  by (rule bit_word_eqI) (auto simp: bit_simps)

lemma handle_generation_pack [simp]: "handle_generation (pack i g) = g"
  unfolding handle_generation_def pack_def
  by (rule bit_word_eqI) (auto simp: bit_simps dest: bit_imp_le_length)

lemma pack_parts [simp]: "pack (handle_index h) (handle_generation h) = h"
  unfolding handle_generation_def handle_index_def pack_def
  by (rule bit_word_eqI) (auto simp: bit_simps)

lemma handle_eq_iff:
  "h = h' \<longleftrightarrow> handle_index h = handle_index h' \<and> handle_generation h = handle_generation h'"
  by (metis pack_parts)

lemma handle_eqI:
  assumes "unat (handle_index h) = unat (handle_index h')"
    and "handle_generation h = handle_generation h'"
  shows "h = h'"
  using assms by (simp add: handle_eq_iff unsigned_word_eqI)

section \<open>Well-formed tables\<close>

definition table_wf :: "'a handle_table \<Rightarrow> bool" where
  "table_wf t \<longleftrightarrow>
     distinct (ht_free t)
     \<and> (\<forall>i \<in> set (ht_free t). unat i < length (ht_slots t) \<and> slot_value (ht_slots t ! unat i) = None)
     \<and> length (ht_slots t) \<le> ht_limit t \<and> length (ht_slots t) \<le> 2 ^ 32
     \<and> (\<forall>s \<in> set (ht_slots t). slot_generation s \<noteq> 0)"

lemma table_wf_new [simp]: "table_wf (handle_table_new owner limit)"
  by (simp add: table_wf_def handle_table_new_def)

lemma next_generation_nonzero [simp]: "next_generation g \<noteq> 0"
  by (cases "g + 1 = 0") (simp_all add: next_generation_def max_def)

lemma unat_of_nat_u32: "n < 2 ^ 32 \<Longrightarrow> unat (of_nat n :: u32) = n"
  by (simp add: unat_of_nat)

lemma table_wf_insert:
  assumes "table_wf t"
  shows "table_wf (snd (table_insert v t))"
proof (cases "ht_free t = []")
  case True
  with assms show ?thesis by (auto simp: table_insert_def table_wf_def Let_def)
next
  case False
  define i where "i = last (ht_free t)"
  define fs where "fs = butlast (ht_free t)"
  have f: "ht_free t = fs @ [i]" using False by (simp add: i_def fs_def)
  with assms have "i \<notin> set fs" and "unat i < length (ht_slots t)" by (auto simp: table_wf_def)
  moreover have "\<forall>j \<in> set fs. unat i \<noteq> unat j"
    using \<open>i \<notin> set fs\<close> by (metis unsigned_word_eqI)
  ultimately show ?thesis
    using assms f
    by (auto simp: table_insert_def table_wf_def Let_def nth_list_update dest!: set_update_subset_insert [THEN subsetD])
qed

lemma table_get_Inr:
  "table_get h t = Inr v \<longleftrightarrow>
     unat (handle_index h) < length (ht_slots t)
     \<and> slot_generation (ht_slots t ! unat (handle_index h)) = handle_generation h
     \<and> slot_value (ht_slots t ! unat (handle_index h)) = Some v"
  by (auto simp: table_get_def Let_def result_simps)

lemma table_get_Inl: "table_get h t = Inl e \<Longrightarrow> e = Stale"
  by (auto simp: table_get_def Let_def result_simps split: if_splits)

text \<open>\<open>remove\<close> succeeds exactly where \<open>get\<close> does.\<close>

lemma table_remove_get:
  "table_remove h t =
     (case table_get h t of Inl e \<Rightarrow> (Inl e, t)
      | Inr v \<Rightarrow> (Inr v,
          t\<lparr>ht_slots := (ht_slots t)[unat (handle_index h) :=
               \<lparr>slot_generation = next_generation (handle_generation h), slot_value = None\<rparr>],
            ht_free := ht_free t @ [handle_index h]\<rparr>))"
  by (cases "ht_slots t ! unat (handle_index h)")
    (auto simp: table_remove_def table_get_def Let_def split: option.splits)

lemma table_wf_remove:
  assumes "table_wf t"
  shows "table_wf (snd (table_remove h t))"
proof (cases "table_get h t")
  case (Inl e)
  with assms show ?thesis by (simp add: table_remove_get)
next
  case (Inr v)
  then have i: "unat (handle_index h) < length (ht_slots t)"
    and sv: "slot_value (ht_slots t ! unat (handle_index h)) = Some v"
    by (auto simp: table_get_Inr)
  with assms have "handle_index h \<notin> set (ht_free t)" by (auto simp: table_wf_def)
  with assms Inr i show ?thesis
    by (auto simp: table_remove_get table_wf_def nth_list_update
        dest!: set_update_subset_insert [THEN subsetD])
qed

lemma table_wf_update:
  assumes "table_wf t"
  shows "table_wf (snd (table_update h f t))"
proof (cases "table_get h t")
  case (Inl e)
  with assms show ?thesis by (simp add: table_update_def)
next
  case (Inr v)
  let ?i = "unat (handle_index h)"
  from Inr have i: "?i < length (ht_slots t)"
    and sv: "slot_value (ht_slots t ! ?i) = Some v" by (auto simp: table_get_Inr)
  have eq: "snd (table_update h f t)
      = t\<lparr>ht_slots := (ht_slots t)[?i := (ht_slots t ! ?i)\<lparr>slot_value := Some (f v)\<rparr>]\<rparr>"
    using Inr by (simp add: table_update_def Let_def)
  have "\<forall>j \<in> set (ht_free t). ?i \<noteq> unat j"
    using assms sv by (auto simp: table_wf_def)
  with assms i show ?thesis
    unfolding eq by (auto simp: table_wf_def nth_list_update
        dest!: set_update_subset_insert [THEN subsetD])
qed

section \<open>The contract of a handle store\<close>

text \<open>
  What a client of the table relies on: a fresh handle reads back the stored value and was not
  live before, a removed handle is dead, an update is seen through its handle only, and no
  operation disturbs any other handle.
\<close>

locale handle_store =
  fixes insert :: "'a \<Rightarrow> 't \<Rightarrow> ('e + handle) \<times> 't"
    and get :: "handle \<Rightarrow> 't \<Rightarrow> 'e + 'a"
    and update :: "handle \<Rightarrow> ('a \<Rightarrow> 'a) \<Rightarrow> 't \<Rightarrow> ('e + 'a) \<times> 't"
    and remove :: "handle \<Rightarrow> 't \<Rightarrow> ('e + 'a) \<times> 't"
    and inv :: "'t \<Rightarrow> bool"
    and stale :: 'e
  assumes inv_insert: "inv t \<Longrightarrow> inv (snd (insert v t))"
    and inv_update: "inv t \<Longrightarrow> inv (snd (update h f t))"
    and inv_remove: "inv t \<Longrightarrow> inv (snd (remove h t))"
    and get_stale: "get h t = Inl e \<Longrightarrow> e = stale"
    and insert_fresh: "inv t \<Longrightarrow> insert v t = (Inr h, t') \<Longrightarrow> get h t = Inl stale"
    and get_insert: "inv t \<Longrightarrow> insert v t = (Inr h, t') \<Longrightarrow>
          get h' t' = (if h' = h then Inr v else get h' t)"
    and insert_error: "inv t \<Longrightarrow> insert v t = (Inl e, t') \<Longrightarrow> t' = t"
    and get_update: "update h f t = (r, t') \<Longrightarrow>
          r = get h t \<and> get h' t' = (if h' = h then (case get h t of Inl e \<Rightarrow> Inl e | Inr v \<Rightarrow> Inr (f v))
                                     else get h' t)"
    and get_remove: "inv t \<Longrightarrow> remove h t = (r, t') \<Longrightarrow>
          r = get h t \<and> get h' t' = (if h' = h then Inl stale else get h' t)"
begin

lemma remove_twice:
  assumes "inv t" and "remove h t = (r, t')"
  shows "fst (remove h t') = Inl stale"
proof -
  from inv_remove [OF assms(1), of h] assms(2) have i: "inv t'" by simp
  have "get h t' = Inl stale" using get_remove [OF assms] by simp
  with get_remove [OF i, of h "fst (remove h t')" "snd (remove h t')"] show ?thesis by simp
qed

lemma insert_remove:
  assumes "inv t" and "insert v t = (Inr h, t')"
  shows "fst (remove h t') = Inr v"
proof -
  from inv_insert [OF assms(1), of v] assms(2) have i: "inv t'" by simp
  have "get h t' = Inr v" using get_insert [OF assms] by simp
  with get_remove [OF i, of h "fst (remove h t')" "snd (remove h t')"] show ?thesis by simp
qed

end

lemma table_insert_free:
  assumes "ht_free t = fs @ [i]" and "unat i < length (ht_slots t)"
  shows "table_insert v t =
    (Inr (pack i (slot_generation (ht_slots t ! unat i))),
     t\<lparr>ht_free := fs,
       ht_slots := (ht_slots t)[unat i := (ht_slots t ! unat i)\<lparr>slot_value := Some v\<rparr>]\<rparr>)"
  using assms by (simp add: table_insert_def Let_def)

lemma table_get_insert:
  assumes wf: "table_wf t" and ins: "table_insert v t = (Inr h, t')"
  shows "table_get h t = Inl Stale \<and> table_get h' t' = (if h' = h then Inr v else table_get h' t)"
proof (cases "ht_free t" rule: rev_cases)
  case Nil
  with ins have h: "h = pack (of_nat (length (ht_slots t))) 1"
    and t': "t' = t\<lparr>ht_slots := ht_slots t @ [\<lparr>slot_generation = 1, slot_value = Some v\<rparr>]\<rparr>"
    and l: "length (ht_slots t) < 2 ^ 32"
    by (auto simp: table_insert_def Let_def split: if_splits)
  have u: "unat (of_nat (length (ht_slots t)) :: u32) = length (ht_slots t)"
    using l by (rule unat_of_nat_u32)
  have ix: "unat (handle_index h) = length (ht_slots t)" using h u by simp
  have "h' = h" if "unat (handle_index h') = length (ht_slots t)" "handle_generation h' = 1"
    using that ix h by (intro handle_eqI) simp_all
  note same = this
  have hg: "handle_generation h = 1" using h by simp
  have 1: "table_get h t = Inl Stale" using ix by (simp add: table_get_def)
  have 2: "table_get h t' = Inr v" using ix hg by (simp add: table_get_def t' nth_append)
  have 3: "table_get h' t' = table_get h' t" if "h' \<noteq> h"
  proof (cases "unat (handle_index h') = length (ht_slots t)")
    case True
    then have "handle_generation h' \<noteq> 1" using same that by blast
    with True show ?thesis by (simp add: table_get_def t' nth_append)
  next
    case False
    then show ?thesis by (simp add: table_get_def t' nth_append Let_def)
  qed
  show ?thesis using 1 2 3 by simp
next
  case (snoc fs i)
  with wf have i: "unat i < length (ht_slots t)" and n: "slot_value (ht_slots t ! unat i) = None"
    by (auto simp: table_wf_def)
  from table_insert_free [OF snoc i] ins
  have h: "h = pack i (slot_generation (ht_slots t ! unat i))"
    and t': "t' = t\<lparr>ht_free := fs,
       ht_slots := (ht_slots t)[unat i := (ht_slots t ! unat i)\<lparr>slot_value := Some v\<rparr>]\<rparr>"
    by auto
  have "h' = h" if "unat (handle_index h') = unat i"
    "slot_generation (ht_slots t ! unat i) = handle_generation h'"
    using that h by (intro handle_eqI) simp_all
  with h i n show ?thesis
    by (auto simp: table_get_def t' Let_def nth_list_update)
qed

lemma table_insert_error:
  assumes "table_wf t" and "table_insert v t = (Inl e, t')"
  shows "t' = t \<and> e = Full \<and> length (ht_slots t) \<ge> min (ht_limit t) (2 ^ 32)"
proof (cases "ht_free t" rule: rev_cases)
  case Nil
  with assms show ?thesis by (auto simp: table_insert_def Let_def split: if_splits)
next
  case (snoc fs i)
  with assms(1) have "unat i < length (ht_slots t)" by (auto simp: table_wf_def)
  from table_insert_free [OF snoc this] assms(2) show ?thesis by simp
qed

lemma table_get_remove:
  assumes wf: "table_wf t" and rem: "table_remove h t = (r, t')"
  shows "r = table_get h t \<and> table_get h' t' = (if h' = h then Inl Stale else table_get h' t)"
proof (cases "table_get h t")
  case (Inl e)
  with rem have "r = Inl e" "t' = t" by (simp_all add: table_remove_get)
  with Inl table_get_Inl [OF Inl] show ?thesis by simp
next
  case (Inr v)
  let ?i = "unat (handle_index h)"
  from Inr have i: "?i < length (ht_slots t)"
    and g: "slot_generation (ht_slots t ! ?i) = handle_generation h"
    by (auto simp: table_get_Inr)
  from rem Inr have r: "r = Inr v" and t': "t' = t\<lparr>ht_slots := (ht_slots t)[?i :=
      \<lparr>slot_generation = next_generation (handle_generation h), slot_value = None\<rparr>],
      ht_free := ht_free t @ [handle_index h]\<rparr>"
    by (simp_all add: table_remove_get)
  have "h' = h" if "unat (handle_index h') = ?i" "handle_generation h = handle_generation h'"
    using that by (intro handle_eqI) simp_all
  with Inr r i g show ?thesis
    by (auto simp: table_get_def [of h'] t' Let_def nth_list_update)
qed

lemma table_get_update:
  assumes "table_update h f t = (r, t')"
  shows "r = table_get h t \<and> table_get h' t' =
    (if h' = h then (case table_get h t of Inl e \<Rightarrow> Inl e | Inr v \<Rightarrow> Inr (f v)) else table_get h' t)"
proof (cases "table_get h t")
  case (Inl e)
  with assms have "r = Inl e" "t' = t" by (simp_all add: table_update_def)
  with Inl show ?thesis by simp
next
  case (Inr v)
  let ?i = "unat (handle_index h)"
  from Inr have i: "?i < length (ht_slots t)"
    and g: "slot_generation (ht_slots t ! ?i) = handle_generation h"
    by (auto simp: table_get_Inr)
  from assms Inr have r: "r = Inr v"
    and t': "t' = t\<lparr>ht_slots := (ht_slots t)[?i := (ht_slots t ! ?i)\<lparr>slot_value := Some (f v)\<rparr>]\<rparr>"
    by (simp_all add: table_update_def Let_def)
  have "h' = h" if "unat (handle_index h') = ?i" "handle_generation h = handle_generation h'"
    using that by (intro handle_eqI) simp_all
  with Inr r i g show ?thesis
    by (auto simp: table_get_def [of h'] t' Let_def nth_list_update)
qed

interpretation handle_table: handle_store table_insert table_get table_update table_remove table_wf Stale
  by unfold_locales
    (simp_all add: table_wf_insert table_wf_update table_wf_remove table_get_insert
      table_get_remove table_get_update table_get_Inl table_insert_error)

section \<open>How long a removed handle stays dead\<close>

text \<open>Generations as a counter on \<open>1 .. 2 ^ 32 - 1\<close>: the successor skips zero.\<close>

lemma unat_next_generation:
  assumes "g \<noteq> 0"
  shows "unat (next_generation g) = (if unat g = 2 ^ 32 - 1 then 1 else unat g + 1)"
proof (cases "unat g = 2 ^ 32 - 1")
  case True
  then have "g + 1 = 0" by (simp add: word_unat_eq_iff unat_word_ariths)
  with True show ?thesis by (simp add: next_generation_def)
next
  case False
  have "unat g < 2 ^ 32" using unsigned_less [of g, where 'a = nat] by simp
  with False have u: "unat (g + 1) = unat g + 1" by (simp add: unat_word_ariths)
  then have "1 \<le> g + 1" by (simp add: word_le_nat_alt)
  with u False show ?thesis by (simp add: next_generation_def max_def)
qed

lemma unat_iterate_generation:
  assumes "g \<noteq> 0"
  shows "(next_generation ^^ n) g \<noteq> 0
    \<and> unat ((next_generation ^^ n) g) = (unat g - 1 + n) mod (2 ^ 32 - 1) + 1"
proof (induction n)
  case 0
  have "0 < unat g" using assms by (simp add: unat_gt_0)
  moreover have "unat g < 2 ^ 32" using unsigned_less [of g, where 'a = nat] by simp
  ultimately show ?case using assms by simp
next
  case (Suc n)
  let ?m = "(unat g - 1 + n) mod (2 ^ 32 - 1)"
  have lt: "?m < 2 ^ 32 - 1" by simp
  have "unat ((next_generation ^^ Suc n) g) = (if ?m + 1 = 2 ^ 32 - 1 then 1 else ?m + 2)"
    using unat_next_generation [of "(next_generation ^^ n) g"] Suc by simp
  also have "\<dots> = (?m + 1) mod (2 ^ 32 - 1) + 1"
    using lt by auto
  also have "(?m + 1) mod (2 ^ 32 - 1) = (unat g - 1 + Suc n) mod (2 ^ 32 - 1)"
    by (simp add: mod_Suc_eq)
  finally show ?case by simp
qed

lemma iterate_generation_distinct:
  assumes "g \<noteq> 0" and "0 < n" and "n < 2 ^ 32 - 1"
  shows "(next_generation ^^ n) g \<noteq> g"
proof
  assume eq: "(next_generation ^^ n) g = g"
  have lt: "unat g < 2 ^ 32" using unsigned_less [of g, where 'a = nat] by simp
  have pos: "0 < unat g" using assms(1) by (simp add: unat_gt_0)
  define a where "a = unat g - 1"
  have a: "a < 2 ^ 32 - 1" "unat g = a + 1" using lt pos by (auto simp: a_def)
  from unat_iterate_generation [OF assms(1), of n] eq a
  have "(a + n) mod (2 ^ 32 - 1) = a" by simp
  moreover have "(a + n) mod (2 ^ 32 - 1) = (if a + n < 2 ^ 32 - 1 then a + n else a + n - (2 ^ 32 - 1))"
    using a(1) assms(3) by (simp add: mod_if)
  ultimately show False using assms(2,3) by (auto split: if_splits)
qed

datatype 'a table_op = OpInsert 'a | OpUpdate handle "'a \<Rightarrow> 'a" | OpRemove handle

fun table_step :: "'a handle_table \<Rightarrow> 'a table_op \<Rightarrow> 'a handle_table" where
  "table_step t (OpInsert v) = snd (table_insert v t)"
| "table_step t (OpUpdate h f) = snd (table_update h f t)"
| "table_step t (OpRemove h) = snd (table_remove h t)"

definition table_run :: "'a handle_table \<Rightarrow> 'a table_op list \<Rightarrow> 'a handle_table" where
  "table_run = foldl table_step"

fun is_remove :: "'a table_op \<Rightarrow> bool" where
  "is_remove (OpRemove h) = True"
| "is_remove _ = False"

lemma table_step_wf: "table_wf t \<Longrightarrow> table_wf (table_step t a)"
  by (cases a) (simp_all add: table_wf_insert table_wf_update table_wf_remove)

lemma table_run_wf: "table_wf t \<Longrightarrow> table_wf (table_run t ops)"
  by (induction ops arbitrary: t) (simp_all add: table_run_def table_step_wf)

text \<open>A step keeps an existing slot; only a removal moves a generation, and by one.\<close>

lemma table_step_generation:
  assumes "table_wf t" and "i < length (ht_slots t)"
  shows "i < length (ht_slots (table_step t a)) \<and>
    (slot_generation (ht_slots (table_step t a) ! i) = slot_generation (ht_slots t ! i)
     \<or> is_remove a \<and>
       slot_generation (ht_slots (table_step t a) ! i) = next_generation (slot_generation (ht_slots t ! i)))"
proof (cases a)
  case (OpInsert v)
  show ?thesis
  proof (cases "ht_free t" rule: rev_cases)
    case Nil
    with OpInsert assms show ?thesis by (auto simp: table_insert_def Let_def nth_append)
  next
    case (snoc fs j)
    with assms(1) have j: "unat j < length (ht_slots t)" by (auto simp: table_wf_def)
    from table_insert_free [OF snoc j] OpInsert assms(2) j show ?thesis
      by (auto simp: nth_list_update)
  qed
next
  case (OpUpdate h f)
  with assms(2) show ?thesis
    by (auto simp: table_update_def Let_def nth_list_update table_get_Inr split: sum.splits)
next
  case (OpRemove h)
  with assms(2) show ?thesis
    by (auto simp: table_remove_get table_get_Inr nth_list_update split: sum.splits)
qed

lemma table_run_generation:
  assumes "table_wf t" and "i < length (ht_slots t)"
  shows "\<exists>k \<le> length (filter is_remove ops).
    slot_generation (ht_slots (table_run t ops) ! i)
      = (next_generation ^^ k) (slot_generation (ht_slots t ! i))"
  using assms
proof (induction ops arbitrary: t)
  case Nil
  then show ?case by (simp add: table_run_def)
next
  case (Cons a ops)
  from Cons.prems have "table_wf (table_step t a)" by (simp add: table_step_wf)
  moreover note step = table_step_generation [OF Cons.prems, of a]
  ultimately obtain k where k: "k \<le> length (filter is_remove ops)"
    and e: "slot_generation (ht_slots (table_run (table_step t a) ops) ! i)
      = (next_generation ^^ k) (slot_generation (ht_slots (table_step t a) ! i))"
    using Cons.IH by blast
  have run: "table_run t (a # ops) = table_run (table_step t a) ops" by (simp add: table_run_def)
  from step show ?case
  proof (elim conjE disjE)
    assume "slot_generation (ht_slots (table_step t a) ! i) = slot_generation (ht_slots t ! i)"
    with k e run show ?thesis by (intro exI [of _ k]) auto
  next
    assume "is_remove a" and "slot_generation (ht_slots (table_step t a) ! i)
      = next_generation (slot_generation (ht_slots t ! i))"
    with k e run show ?thesis by (intro exI [of _ "Suc k"]) (auto simp: funpow_swap1)
  qed
qed

lemma removed_handle_stays_stale:
  assumes wf: "table_wf t" and rem: "table_remove h t = (Inr v, t')"
    and few: "length (filter is_remove ops) < 2 ^ 32 - 2"
  shows "table_get h (table_run t' ops) = Inl Stale"
proof -
  let ?i = "unat (handle_index h)"
  from table_get_remove [OF wf rem, of h] have "table_get h t = Inr v" by simp
  then have i: "?i < length (ht_slots t)"
    and g: "slot_generation (ht_slots t ! ?i) = handle_generation h"
    by (auto simp: table_get_Inr)
  from i g wf have g0: "handle_generation h \<noteq> 0" by (metis nth_mem table_wf_def)
  from rem \<open>table_get h t = Inr v\<close> have t': "t' = snd (table_remove h t)"
    and i': "?i < length (ht_slots t')"
    and g': "slot_generation (ht_slots t' ! ?i) = next_generation (handle_generation h)"
    using i by (auto simp: table_remove_get)
  have wf': "table_wf t'" using table_wf_remove [OF wf] by (simp add: t')
  obtain k where k: "k \<le> length (filter is_remove ops)"
    and e: "slot_generation (ht_slots (table_run t' ops) ! ?i)
      = (next_generation ^^ k) (next_generation (handle_generation h))"
    using table_run_generation [OF wf' i', of ops] g' by auto
  have "(next_generation ^^ Suc k) (handle_generation h) \<noteq> handle_generation h"
    using k few by (intro iterate_generation_distinct [OF g0]) auto
  with e show ?thesis by (simp add: table_get_def Let_def funpow_swap1)
qed

section \<open>Properties\<close>

definition sample_table :: "string handle_table" where
  "sample_table = snd (table_insert ''first'' (handle_table_new 7 1))"

text \<open>
  C10: the handle table is a partial map from handles to values: for every table built from the
  empty one by any sequence of operations, a fresh handle was dead before the insertion, reads
  the stored value afterwards, and no other handle is affected; a removal returns what the
  handle held and kills that handle only.
\<close>

theorem handle_table_is_a_map:
  assumes "table_wf t"
  shows "(table_insert v t = (Inr h, t1) \<longrightarrow>
            table_get h t = Inl Stale \<and> table_get h' t1 = (if h' = h then Inr v else table_get h' t))
       \<and> (table_remove h t = (r, t2) \<longrightarrow>
            r = table_get h t \<and> table_get h' t2 = (if h' = h then Inl Stale else table_get h' t))
       \<and> table_wf (table_run t ops)"
  using handle_table.insert_fresh [OF assms] handle_table.get_insert [OF assms]
    handle_table.get_remove [OF assms] table_run_wf [OF assms]
  by blast

theorem handle_table_is_a_map_witness:
  "table_get (pack 0 1) (handle_table_new 7 1 :: string handle_table) = Inl Stale
   \<and> table_get (pack 0 1) sample_table = Inr ''first''"
proof -
  have "table_insert ''first'' (handle_table_new 7 1) = (Inr (pack 0 1), sample_table)"
    by (simp add: sample_table_def table_insert_def handle_table_new_def Let_def)
  with handle_table_is_a_map [OF table_wf_new, of "''first''" 7 1 "pack 0 1" sample_table "pack 0 1"]
  show ?thesis by simp
qed

text \<open>
  C29: a stale handle never reaches a reused slot while fewer than 2^32 - 2 removals have
  happened since its own: whatever is inserted, updated and removed meanwhile, reading through
  the removed handle answers \<open>Stale\<close>.
\<close>

theorem stale_handle_never_revives:
  assumes "table_wf t" and "table_remove h t = (Inr v, t')"
    and "length (filter is_remove ops) < 2 ^ 32 - 2"
  shows "table_get h (table_run t' ops) = Inl Stale"
  using assms by (rule removed_handle_stays_stale)

theorem stale_handle_never_revives_witness:
  "table_get (pack 0 1) (table_run (snd (table_remove (pack 0 1) sample_table)) [OpInsert ''second''])
     = Inl Stale
   \<and> table_get (pack 0 2) (table_run (snd (table_remove (pack 0 1) sample_table)) [OpInsert ''second''])
     = Inr ''second''"
proof -
  have wf: "table_wf sample_table"
    using table_wf_insert [OF table_wf_new, of "''first''" 7 1] by (simp add: sample_table_def)
  have r: "table_remove (pack 0 1) sample_table
      = (Inr ''first'', snd (table_remove (pack 0 1) sample_table))"
    by (simp add: sample_table_def table_insert_def handle_table_new_def table_remove_def Let_def)
  have "table_get (pack 0 2) (table_run (snd (table_remove (pack 0 1) sample_table)) [OpInsert ''second''])
      = Inr ''second''"
    by (simp add: sample_table_def table_insert_def handle_table_new_def table_remove_def Let_def
        table_run_def table_get_def next_generation_def)
  with stale_handle_never_revives [OF wf r, of "[OpInsert ''second'']"] show ?thesis by simp
qed

text \<open>
  The generation counter has period 2^32 - 1: after that many removals of one slot the
  generation is back where it started, so the guarantee about stale handles cannot be extended
  to an unbounded number of removals.
\<close>

theorem generation_wraps_around:
  assumes "g \<noteq> 0"
  shows "(next_generation ^^ (2 ^ 32 - 1)) g = g"
proof -
  have pos: "0 < unat g" using assms by (simp add: unat_gt_0)
  have "unat g < 2 ^ 32" using unsigned_less [of g, where 'a = nat] by simp
  with pos have lt: "unat g - 1 < 2 ^ 32 - 1" by simp
  have "unat ((next_generation ^^ (2 ^ 32 - 1)) g) = (unat g - 1 + (2 ^ 32 - 1)) mod (2 ^ 32 - 1) + 1"
    using unat_iterate_generation [OF assms, of "2 ^ 32 - 1"] by blast
  also have "\<dots> = unat g - 1 + 1"
    by (simp only: mod_add_self2 mod_less [OF lt])
  finally have "unat ((next_generation ^^ (2 ^ 32 - 1)) g) = unat g" using pos by simp
  then show ?thesis by (rule unsigned_word_eqI)
qed

theorem generation_wraps_around_witness: "(next_generation ^^ (2 ^ 32 - 1)) 1 = 1"
  by (rule generation_wraps_around) simp

end
