(* ===== verification/Io_Spec.thy ===== *)
theory Io_Spec
  imports Snolc_Prelude
begin

text \<open>
  The I/O traits of the SDK (\<open>io.rs\<close>) as records of functions over the state of the
  implementing object, and the contracts their callers rely on. A slice passed for reading is
  the buffer before the call and the buffer after it; the task context only carries a waker and
  has no counterpart. A call that panics returns \<^term>\<open>Panicked\<close>; \<open>close\<close> returns at once,
  so its result is never \<^term>\<open>Pending\<close>.

  The locale \<open>byte_io_contract\<close> is the contract of \<open>ByteIo\<close>: a count never exceeds the slice it
  was given, the slice keeps its length, nothing panics. \<open>datagram_io_contract\<close> is the one of
  \<open>DatagramIo\<close>. The \<open>traced_\<close> wrappers add a history variable to an implementation, with which
  its clients state what went through it.
\<close>

datatype error_kind =
  BrokenPipe | InvalidData | InvalidInput | NotConnected | UnexpectedEof | WouldBlock
| WriteZeroKind | OtherKind

datatype io_error = Io_Error error_kind string

fun error_kind_of :: "io_error \<Rightarrow> error_kind" where
  "error_kind_of (Io_Error k m) = k"

type_synonym 'a io_result = "io_error + 'a"

record 's byte_io =
  io_read :: "'s \<Rightarrow> bytes \<Rightarrow> 's \<times> bytes \<times> nat io_result poll"
  io_write :: "'s \<Rightarrow> bytes \<Rightarrow> 's \<times> nat io_result poll"
  io_flush :: "'s \<Rightarrow> 's \<times> unit io_result poll"
  io_shutdown_write :: "'s \<Rightarrow> 's \<times> unit io_result poll"
  io_close :: "'s \<Rightarrow> 's \<times> unit io_result poll"

datatype datagram_recv = Datagram nat | BufferTooSmall nat | Closed

record 's datagram_io =
  dg_recv :: "'s \<Rightarrow> bytes \<Rightarrow> 's \<times> bytes \<times> datagram_recv io_result poll"
  dg_send :: "'s \<Rightarrow> bytes \<Rightarrow> 's \<times> unit io_result poll"
  dg_close :: "'s \<Rightarrow> 's \<times> unit io_result poll"

section \<open>The contract of byte I/O\<close>

locale byte_io_contract =
  fixes io :: "'s byte_io" and ok :: "'s \<Rightarrow> bool"
  assumes read_ok: "ok s \<Longrightarrow> io_read io s buf = (s', buf', r) \<Longrightarrow>
      ok s' \<and> length buf' = length buf \<and> r \<noteq> Panicked \<and> (\<forall>n. r = Ready (Inr n) \<longrightarrow> n \<le> length buf)"
    and write_ok: "ok s \<Longrightarrow> io_write io s bs = (s', w) \<Longrightarrow>
      ok s' \<and> w \<noteq> Panicked \<and> (\<forall>n. w = Ready (Inr n) \<longrightarrow> n \<le> length bs)"
    and shutdown_ok: "ok s \<Longrightarrow> io_shutdown_write io s = (s', u) \<Longrightarrow> ok s' \<and> u \<noteq> Panicked"

text \<open>
  A source and a sink with a history: \<open>hist\<close> is what a reader has been given so far, or what a
  writer has accepted so far.
\<close>

locale byte_source = byte_io_contract io ok
  for io :: "'s byte_io" and ok :: "'s \<Rightarrow> bool" +
  fixes hist :: "'s \<Rightarrow> bytes"
  assumes read_hist: "io_read io s buf = (s', buf', r) \<Longrightarrow>
      hist s' = hist s @ (case r of Ready (Inr n) \<Rightarrow> take n buf' | _ \<Rightarrow> [])"

locale byte_sink = byte_io_contract io ok
  for io :: "'s byte_io" and ok :: "'s \<Rightarrow> bool" +
  fixes hist :: "'s \<Rightarrow> bytes" and down :: "'s \<Rightarrow> bool"
  assumes write_hist: "io_write io s bs = (s', w) \<Longrightarrow>
      hist s' = hist s @ (case w of Ready (Inr n) \<Rightarrow> take n bs | _ \<Rightarrow> []) \<and> down s' = down s"
    and shutdown_hist: "io_shutdown_write io s = (s', u) \<Longrightarrow>
      hist s' = hist s \<and> (down s' \<longleftrightarrow> down s \<or> u = Ready (Inr ()))"

section \<open>The contract of datagram I/O\<close>

text \<open>
  A receiver may report any length: the pump checks it. It keeps the length of the slice and
  does not panic.
\<close>

locale datagram_io_contract =
  fixes io :: "'s datagram_io" and ok :: "'s \<Rightarrow> bool"
  assumes recv_ok: "ok s \<Longrightarrow> dg_recv io s buf = (s', buf', r) \<Longrightarrow>
      ok s' \<and> length buf' = length buf \<and> r \<noteq> Panicked"
    and send_ok: "ok s \<Longrightarrow> dg_send io s d = (s', u) \<Longrightarrow> ok s' \<and> u \<noteq> Panicked"

locale datagram_source = datagram_io_contract io ok
  for io :: "'s datagram_io" and ok :: "'s \<Rightarrow> bool" +
  fixes hist :: "'s \<Rightarrow> bytes list"
  assumes recv_hist: "dg_recv io s buf = (s', buf', r) \<Longrightarrow>
      hist s' = hist s @ (case r of Ready (Inr (Datagram n)) \<Rightarrow> if n \<le> length buf' then [take n buf'] else [] | _ \<Rightarrow> [])"

locale datagram_sink = datagram_io_contract io ok
  for io :: "'s datagram_io" and ok :: "'s \<Rightarrow> bool" +
  fixes hist :: "'s \<Rightarrow> bytes list"
  assumes send_hist: "dg_send io s d = (s', u) \<Longrightarrow>
      hist s' = hist s @ (if u = Ready (Inr ()) then [d] else [])"

section \<open>History variables\<close>

definition traced_source :: "'s byte_io \<Rightarrow> ('s \<times> bytes) byte_io" where
  "traced_source io =
     \<lparr>io_read = (\<lambda>(s, h) buf. case io_read io s buf of (s', buf', r) \<Rightarrow>
         ((s', h @ (case r of Ready (Inr n) \<Rightarrow> take n buf' | _ \<Rightarrow> [])), buf', r)),
      io_write = (\<lambda>(s, h) bs. case io_write io s bs of (s', w) \<Rightarrow> ((s', h), w)),
      io_flush = (\<lambda>(s, h). case io_flush io s of (s', u) \<Rightarrow> ((s', h), u)),
      io_shutdown_write = (\<lambda>(s, h). case io_shutdown_write io s of (s', u) \<Rightarrow> ((s', h), u)),
      io_close = (\<lambda>(s, h). case io_close io s of (s', u) \<Rightarrow> ((s', h), u))\<rparr>"

definition traced_sink :: "'s byte_io \<Rightarrow> ('s \<times> bytes \<times> bool) byte_io" where
  "traced_sink io =
     \<lparr>io_read = (\<lambda>(s, h) buf. case io_read io s buf of (s', buf', r) \<Rightarrow> ((s', h), buf', r)),
      io_write = (\<lambda>(s, h, e) bs. case io_write io s bs of (s', w) \<Rightarrow>
         ((s', h @ (case w of Ready (Inr n) \<Rightarrow> take n bs | _ \<Rightarrow> []), e), w)),
      io_flush = (\<lambda>(s, h). case io_flush io s of (s', u) \<Rightarrow> ((s', h), u)),
      io_shutdown_write = (\<lambda>(s, h, e). case io_shutdown_write io s of (s', u) \<Rightarrow>
         ((s', h, e \<or> u = Ready (Inr ())), u)),
      io_close = (\<lambda>(s, h). case io_close io s of (s', u) \<Rightarrow> ((s', h), u))\<rparr>"

definition traced_receiver :: "'s datagram_io \<Rightarrow> ('s \<times> bytes list) datagram_io" where
  "traced_receiver io =
     \<lparr>dg_recv = (\<lambda>(s, h) buf. case dg_recv io s buf of (s', buf', r) \<Rightarrow>
         ((s', h @ (case r of Ready (Inr (Datagram n)) \<Rightarrow> if n \<le> length buf' then [take n buf'] else [] | _ \<Rightarrow> [])), buf', r)),
      dg_send = (\<lambda>(s, h) d. case dg_send io s d of (s', u) \<Rightarrow> ((s', h), u)),
      dg_close = (\<lambda>(s, h). case dg_close io s of (s', u) \<Rightarrow> ((s', h), u))\<rparr>"

definition traced_sender :: "'s datagram_io \<Rightarrow> ('s \<times> bytes list) datagram_io" where
  "traced_sender io =
     \<lparr>dg_recv = (\<lambda>(s, h) buf. case dg_recv io s buf of (s', buf', r) \<Rightarrow> ((s', h), buf', r)),
      dg_send = (\<lambda>(s, h) d. case dg_send io s d of (s', u) \<Rightarrow>
         ((s', h @ (if u = Ready (Inr ()) then [d] else [])), u)),
      dg_close = (\<lambda>(s, h). case dg_close io s of (s', u) \<Rightarrow> ((s', h), u))\<rparr>"

lemma traced_source_contract:
  assumes "byte_io_contract io ok"
  shows "byte_source (traced_source io) (\<lambda>(s, h). ok s) snd"
proof -
  note c = byte_io_contract.read_ok [OF assms] byte_io_contract.write_ok [OF assms]
    byte_io_contract.shutdown_ok [OF assms]
  show ?thesis
    by unfold_locales (auto simp: traced_source_def split: prod.splits dest: c)
qed

lemma traced_sink_contract:
  assumes "byte_io_contract io ok"
  shows "byte_sink (traced_sink io) (\<lambda>(s, h, e). ok s) (\<lambda>(s, h, e). h) (\<lambda>(s, h, e). e)"
proof -
  note c = byte_io_contract.read_ok [OF assms] byte_io_contract.write_ok [OF assms]
    byte_io_contract.shutdown_ok [OF assms]
  show ?thesis
    by unfold_locales (auto simp: traced_sink_def split: prod.splits dest: c)
qed

lemma traced_receiver_contract:
  assumes "datagram_io_contract io ok"
  shows "datagram_source (traced_receiver io) (\<lambda>(s, h). ok s) snd"
proof -
  note c = datagram_io_contract.recv_ok [OF assms] datagram_io_contract.send_ok [OF assms]
  show ?thesis
    by unfold_locales (auto simp: traced_receiver_def split: prod.splits dest: c)
qed

lemma traced_sender_contract:
  assumes "datagram_io_contract io ok"
  shows "datagram_sink (traced_sender io) (\<lambda>(s, h). ok s) snd"
proof -
  note c = datagram_io_contract.recv_ok [OF assms] datagram_io_contract.send_ok [OF assms]
  show ?thesis
    by unfold_locales (auto simp: traced_sender_def split: prod.splits dest: c)
qed

end
