(* ===== verification/Module_Io.thy ===== *)
theory Module_Io
  imports Io_Spec
begin

text \<open>
  The boundary to a loaded module: the result codes of the C interface (\<open>snolc-abi\<close>) and the
  SDK objects that call a module's function tables (\<open>module_io.rs\<close>). The functions of a table
  are foreign code, so a table is a record of arbitrary functions over the module's state; the
  only thing assumed of them is memory safety of the slice they are handed, \<open>keeps_slice\<close>.
  Everything else a module answers is checked by \<open>map_io\<close> and its siblings. The interpretations
  at the end discharge the I/O contracts for any module whatever.
\<close>

section \<open>Codes of the C interface\<close>

definition STATUS_OK :: u32 where "STATUS_OK = 0"
definition STATUS_UNSUPPORTED :: u32 where "STATUS_UNSUPPORTED = 1"
definition STATUS_INVALID :: u32 where "STATUS_INVALID = 2"
definition STATUS_RESOURCE :: u32 where "STATUS_RESOURCE = 3"
definition STATUS_IO :: u32 where "STATUS_IO = 4"
definition STATUS_INTERNAL :: u32 where "STATUS_INTERNAL = 5"
definition STATUS_PENDING :: u32 where "STATUS_PENDING = 6"
definition STATUS_DENIED :: u32 where "STATUS_DENIED = 7"

definition IO_PROGRESS :: u32 where "IO_PROGRESS = 0"
definition IO_PENDING :: u32 where "IO_PENDING = 1"
definition IO_EOF :: u32 where "IO_EOF = 2"
definition IO_ERROR :: u32 where "IO_ERROR = 3"
definition IO_BUFFER_TOO_SMALL :: u32 where "IO_BUFFER_TOO_SMALL = 4"

lemmas io_codes = IO_PROGRESS_def IO_PENDING_def IO_EOF_def IO_ERROR_def IO_BUFFER_TOO_SMALL_def
lemmas status_codes = STATUS_OK_def STATUS_UNSUPPORTED_def STATUS_INVALID_def STATUS_RESOURCE_def
  STATUS_IO_def STATUS_INTERNAL_def STATUS_PENDING_def STATUS_DENIED_def

record snol_io_result =
  res_tag :: u32
  res_code :: u32
  res_count :: nat

definition snol_progress :: "nat \<Rightarrow> snol_io_result" where
  "snol_progress count = \<lparr>res_tag = IO_PROGRESS, res_code = STATUS_OK, res_count = count\<rparr>"

definition snol_pending :: snol_io_result where
  "snol_pending = \<lparr>res_tag = IO_PENDING, res_code = STATUS_OK, res_count = 0\<rparr>"

definition snol_eof :: snol_io_result where
  "snol_eof = \<lparr>res_tag = IO_EOF, res_code = STATUS_OK, res_count = 0\<rparr>"

definition snol_error :: "u32 \<Rightarrow> snol_io_result" where
  "snol_error code = \<lparr>res_tag = IO_ERROR, res_code = code, res_count = 0\<rparr>"

definition snol_buffer_too_small :: "nat \<Rightarrow> snol_io_result" where
  "snol_buffer_too_small required =
     \<lparr>res_tag = IO_BUFFER_TOO_SMALL, res_code = STATUS_OK, res_count = required\<rparr>"

section \<open>Slices across the C interface\<close>

text \<open>
  \<open>SnolBytes\<close> and \<open>SnolBytesMut\<close> as a module passes them: a null pointer with some length, or
  memory. A null pointer of length zero is the empty slice.
\<close>

datatype raw_slice = Null_Slice nat | Raw_Slice bytes

definition raw_bytes :: "raw_slice \<Rightarrow> bytes option" where
  "raw_bytes p = (case p of Null_Slice n \<Rightarrow> if n \<noteq> 0 then None else Some [] | Raw_Slice bs \<Rightarrow> Some bs)"

section \<open>Function tables\<close>

type_synonym 'm read_fn = "'m \<Rightarrow> u64 \<Rightarrow> bytes \<Rightarrow> 'm \<times> bytes \<times> snol_io_result"
type_synonym 'm write_fn = "'m \<Rightarrow> u64 \<Rightarrow> bytes \<Rightarrow> 'm \<times> snol_io_result"
type_synonym 'm action_fn = "'m \<Rightarrow> u64 \<Rightarrow> 'm \<times> snol_io_result"
type_synonym 'm close_fn = "'m \<Rightarrow> u64 \<Rightarrow> 'm \<times> u32"

record 'm byte_table =
  bt_struct_size :: u32
  bt_reserved :: u32
  bt_read :: "'m read_fn option"
  bt_write :: "'m write_fn option"
  bt_flush :: "'m action_fn option"
  bt_shutdown_write :: "'m action_fn option"
  bt_close :: "'m close_fn option"

record 'm datagram_table =
  dt_struct_size :: u32
  dt_reserved :: u32
  dt_recv :: "'m read_fn option"
  dt_send :: "'m write_fn option"
  dt_close :: "'m close_fn option"

text \<open>\<open>size_of\<close> of the two tables with 8-byte pointers.\<close>

definition BYTE_TABLE_SIZE :: u32 where "BYTE_TABLE_SIZE = 48"
definition DATAGRAM_TABLE_SIZE :: u32 where "DATAGRAM_TABLE_SIZE = 32"

datatype foreign_io_error = Table

record 'm foreign_byte_io =
  fb_handle :: u64
  fb_table :: "'m byte_table"
  fb_closed :: bool
  fb_module :: 'm

record 'm foreign_datagram_io =
  fd_handle :: u64
  fd_table :: "'m datagram_table"
  fd_closed :: bool
  fd_module :: 'm

definition byte_from_raw ::
    "u64 \<Rightarrow> 'm byte_table option \<Rightarrow> 'm \<Rightarrow> foreign_io_error + 'm foreign_byte_io" where
  "byte_from_raw handle table m =
     rbind (ok_or Table table) (\<lambda>value.
     if handle = 0 \<or> bt_struct_size value < BYTE_TABLE_SIZE \<or> bt_reserved value \<noteq> 0
        \<or> bt_read value = None \<or> bt_write value = None \<or> bt_flush value = None
        \<or> bt_shutdown_write value = None \<or> bt_close value = None
     then Inl Table
     else Inr \<lparr>fb_handle = handle, fb_table = value, fb_closed = False, fb_module = m\<rparr>)"

definition datagram_from_raw ::
    "u64 \<Rightarrow> 'm datagram_table option \<Rightarrow> 'm \<Rightarrow> foreign_io_error + 'm foreign_datagram_io" where
  "datagram_from_raw handle table m =
     rbind (ok_or Table table) (\<lambda>value.
     if handle = 0 \<or> dt_struct_size value < DATAGRAM_TABLE_SIZE \<or> dt_reserved value \<noteq> 0
        \<or> dt_recv value = None \<or> dt_send value = None \<or> dt_close value = None
     then Inl Table
     else Inr \<lparr>fd_handle = handle, fd_table = value, fd_closed = False, fd_module = m\<rparr>)"

section \<open>Checking what a module returns\<close>

definition status_error :: "u32 \<Rightarrow> io_error" where
  "status_error status = Io_Error OtherKind (''foreign module I/O failed with status '' @ dec_string (unat status))"

definition invalid_result :: "string \<Rightarrow> io_error" where
  "invalid_result what = Io_Error InvalidData (''foreign module returned an invalid '' @ what)"

definition map_io :: "snol_io_result \<Rightarrow> nat \<Rightarrow> bool \<Rightarrow> nat io_result poll" where
  "map_io r limit read =
     (if res_tag r = IO_PROGRESS \<and> res_code r = STATUS_OK \<and> res_count r \<le> limit
      then Ready (Inr (res_count r))
      else if res_tag r = IO_PENDING \<and> res_code r = STATUS_OK \<and> res_count r = 0 then Pending
      else if res_tag r = IO_EOF \<and> read \<and> res_code r = STATUS_OK \<and> res_count r = 0 then Ready (Inr 0)
      else if res_tag r = IO_ERROR \<and> res_count r = 0 then Ready (Inl (status_error (res_code r)))
      else Ready (Inl (invalid_result ''I/O result'')))"

definition map_action :: "snol_io_result \<Rightarrow> unit io_result poll" where
  "map_action r =
     (if res_tag r = IO_PROGRESS \<and> res_code r = STATUS_OK \<and> res_count r = 0 then Ready (Inr ())
      else if res_tag r = IO_PENDING \<and> res_code r = STATUS_OK \<and> res_count r = 0 then Pending
      else if res_tag r = IO_ERROR \<and> res_count r = 0 then Ready (Inl (status_error (res_code r)))
      else Ready (Inl (invalid_result ''I/O action result'')))"

definition map_recv :: "snol_io_result \<Rightarrow> nat \<Rightarrow> datagram_recv io_result poll" where
  "map_recv r limit =
     (if res_tag r = IO_PROGRESS \<and> res_code r = STATUS_OK \<and> res_count r \<le> limit
      then Ready (Inr (Datagram (res_count r)))
      else if res_tag r = IO_BUFFER_TOO_SMALL \<and> res_code r = STATUS_OK
      then Ready (Inr (BufferTooSmall (res_count r)))
      else if res_tag r = IO_PENDING \<and> res_code r = STATUS_OK \<and> res_count r = 0 then Pending
      else if res_tag r = IO_EOF \<and> res_code r = STATUS_OK \<and> res_count r = 0 then Ready (Inr Closed)
      else if res_tag r = IO_ERROR \<and> res_count r = 0 then Ready (Inl (status_error (res_code r)))
      else Ready (Inl (invalid_result ''datagram result'')))"

definition map_send :: "snol_io_result \<Rightarrow> nat \<Rightarrow> unit io_result poll" where
  "map_send r sz =
     (if res_tag r = IO_PROGRESS \<and> res_code r = STATUS_OK \<and> res_count r = sz then Ready (Inr ())
      else if res_tag r = IO_PENDING \<and> res_code r = STATUS_OK \<and> res_count r = 0 then Pending
      else if res_tag r = IO_ERROR \<and> res_count r = 0 then Ready (Inl (status_error (res_code r)))
      else Ready (Inl (invalid_result ''datagram result'')))"

section \<open>The SDK objects\<close>

definition fb_poll_read :: "'m foreign_byte_io \<Rightarrow> bytes \<Rightarrow> 'm foreign_byte_io \<times> bytes \<times> nat io_result poll" where
  "fb_poll_read f output =
     (case bt_read (fb_table f) of
        None \<Rightarrow> (f, output, Panicked)
      | Some read \<Rightarrow>
          (case read (fb_module f) (fb_handle f) output of (m, output', r) \<Rightarrow>
             (f\<lparr>fb_module := m\<rparr>, output', map_io r (length output) True)))"

definition fb_poll_write :: "'m foreign_byte_io \<Rightarrow> bytes \<Rightarrow> 'm foreign_byte_io \<times> nat io_result poll" where
  "fb_poll_write f input =
     (case bt_write (fb_table f) of
        None \<Rightarrow> (f, Panicked)
      | Some write \<Rightarrow>
          (case write (fb_module f) (fb_handle f) input of (m, r) \<Rightarrow>
             (f\<lparr>fb_module := m\<rparr>, map_io r (length input) False)))"

definition fb_poll_flush :: "'m foreign_byte_io \<Rightarrow> 'm foreign_byte_io \<times> unit io_result poll" where
  "fb_poll_flush f =
     (case bt_flush (fb_table f) of
        None \<Rightarrow> (f, Panicked)
      | Some flush \<Rightarrow> (case flush (fb_module f) (fb_handle f) of (m, r) \<Rightarrow> (f\<lparr>fb_module := m\<rparr>, map_action r)))"

definition fb_poll_shutdown_write :: "'m foreign_byte_io \<Rightarrow> 'm foreign_byte_io \<times> unit io_result poll" where
  "fb_poll_shutdown_write f =
     (case bt_shutdown_write (fb_table f) of
        None \<Rightarrow> (f, Panicked)
      | Some shutdown \<Rightarrow>
          (case shutdown (fb_module f) (fb_handle f) of (m, r) \<Rightarrow> (f\<lparr>fb_module := m\<rparr>, map_action r)))"

definition fb_close :: "'m foreign_byte_io \<Rightarrow> 'm foreign_byte_io \<times> unit io_result poll" where
  "fb_close f =
     (if fb_closed f then (f, Ready (Inr ()))
      else case bt_close (fb_table f) of
        None \<Rightarrow> (f, Panicked)
      | Some close \<Rightarrow>
          (case close (fb_module f) (fb_handle f) of (m, status) \<Rightarrow>
             (f\<lparr>fb_module := m, fb_closed := True\<rparr>,
              Ready (if status = STATUS_OK then Inr () else Inl (status_error status)))))"

definition fb_drop :: "'m foreign_byte_io \<Rightarrow> 'm foreign_byte_io" where
  "fb_drop f = fst (fb_close f)"

definition foreign_byte_io :: "'m foreign_byte_io byte_io" where
  "foreign_byte_io =
     \<lparr>io_read = fb_poll_read, io_write = fb_poll_write, io_flush = fb_poll_flush,
      io_shutdown_write = fb_poll_shutdown_write, io_close = fb_close\<rparr>"

definition fd_poll_recv :: "'m foreign_datagram_io \<Rightarrow> bytes \<Rightarrow> 'm foreign_datagram_io \<times> bytes \<times> datagram_recv io_result poll" where
  "fd_poll_recv f output =
     (case dt_recv (fd_table f) of
        None \<Rightarrow> (f, output, Panicked)
      | Some recv \<Rightarrow>
          (case recv (fd_module f) (fd_handle f) output of (m, output', r) \<Rightarrow>
             (f\<lparr>fd_module := m\<rparr>, output', map_recv r (length output))))"

definition fd_poll_send :: "'m foreign_datagram_io \<Rightarrow> bytes \<Rightarrow> 'm foreign_datagram_io \<times> unit io_result poll" where
  "fd_poll_send f datagram =
     (case dt_send (fd_table f) of
        None \<Rightarrow> (f, Panicked)
      | Some send \<Rightarrow>
          (case send (fd_module f) (fd_handle f) datagram of (m, r) \<Rightarrow>
             (f\<lparr>fd_module := m\<rparr>, map_send r (length datagram))))"

definition fd_close :: "'m foreign_datagram_io \<Rightarrow> 'm foreign_datagram_io \<times> unit io_result poll" where
  "fd_close f =
     (if fd_closed f then (f, Ready (Inr ()))
      else case dt_close (fd_table f) of
        None \<Rightarrow> (f, Panicked)
      | Some close \<Rightarrow>
          (case close (fd_module f) (fd_handle f) of (m, status) \<Rightarrow>
             (f\<lparr>fd_module := m, fd_closed := True\<rparr>,
              Ready (if status = STATUS_OK then Inr () else Inl (status_error status)))))"

definition fd_drop :: "'m foreign_datagram_io \<Rightarrow> 'm foreign_datagram_io" where
  "fd_drop f = fst (fd_close f)"

definition foreign_datagram_io :: "'m foreign_datagram_io datagram_io" where
  "foreign_datagram_io = \<lparr>dg_recv = fd_poll_recv, dg_send = fd_poll_send, dg_close = fd_close\<rparr>"

section \<open>Contracts\<close>

text \<open>A foreign read function writes inside the slice it is given.\<close>

definition keeps_slice :: "'m read_fn \<Rightarrow> bool" where
  "keeps_slice f \<longleftrightarrow> (\<forall>m h buf. length (fst (snd (f m h buf))) = length buf)"

definition fb_ok :: "'m foreign_byte_io \<Rightarrow> bool" where
  "fb_ok f \<longleftrightarrow> bt_write (fb_table f) \<noteq> None \<and> bt_flush (fb_table f) \<noteq> None
     \<and> bt_shutdown_write (fb_table f) \<noteq> None \<and> bt_close (fb_table f) \<noteq> None
     \<and> (\<exists>read. bt_read (fb_table f) = Some read \<and> keeps_slice read)"

definition fd_ok :: "'m foreign_datagram_io \<Rightarrow> bool" where
  "fd_ok f \<longleftrightarrow> dt_send (fd_table f) \<noteq> None \<and> dt_close (fd_table f) \<noteq> None
     \<and> (\<exists>recv. dt_recv (fd_table f) = Some recv \<and> keeps_slice recv)"

lemma map_io_bound: "map_io r limit read = Ready (Inr n) \<Longrightarrow> n \<le> limit"
  by (auto simp: map_io_def split: if_splits)

lemma map_never_panics [simp]:
  "map_io r limit read \<noteq> Panicked" "map_action r \<noteq> Panicked"
  "map_recv r limit \<noteq> Panicked" "map_send r sz \<noteq> Panicked"
  by (auto simp: map_io_def map_action_def map_recv_def map_send_def)

lemma byte_from_raw_ok:
  assumes "byte_from_raw h (Some t) m = Inr f" and "\<And>read. bt_read t = Some read \<Longrightarrow> keeps_slice read"
  shows "fb_ok f"
  using assms by (auto simp: byte_from_raw_def fb_ok_def split: if_splits)

lemma datagram_from_raw_ok:
  assumes "datagram_from_raw h (Some t) m = Inr f" and "\<And>recv. dt_recv t = Some recv \<Longrightarrow> keeps_slice recv"
  shows "fd_ok f"
  using assms by (auto simp: datagram_from_raw_def fd_ok_def split: if_splits)

lemma fb_poll_read_ok:
  assumes "fb_ok f" and "fb_poll_read f buf = (f', buf', r)"
  shows "fb_ok f' \<and> length buf' = length buf \<and> r \<noteq> Panicked \<and> (\<forall>n. r = Ready (Inr n) \<longrightarrow> n \<le> length buf)"
proof -
  obtain read where read: "bt_read (fb_table f) = Some read" "keeps_slice read"
    using assms(1) by (auto simp: fb_ok_def)
  obtain m b q where c: "read (fb_module f) (fb_handle f) buf = (m, b, q)" by (metis prod_cases3)
  have "length b = length buf" using read(2) c by (metis keeps_slice_def fst_conv snd_conv)
  then show ?thesis
    using assms read c by (auto simp: fb_poll_read_def fb_ok_def dest: map_io_bound)
qed

interpretation foreign_byte: byte_io_contract "foreign_byte_io :: 'm foreign_byte_io byte_io" fb_ok
proof unfold_locales
  fix f f' :: "'m foreign_byte_io" and buf buf' r
  assume "fb_ok f" and "io_read foreign_byte_io f buf = (f', buf', r)"
  then show "fb_ok f' \<and> length buf' = length buf \<and> r \<noteq> Panicked \<and> (\<forall>n. r = Ready (Inr n) \<longrightarrow> n \<le> length buf)"
    by (simp add: foreign_byte_io_def fb_poll_read_ok)
next
  fix f f' :: "'m foreign_byte_io" and bs w
  assume "fb_ok f" and "io_write foreign_byte_io f bs = (f', w)"
  then show "fb_ok f' \<and> w \<noteq> Panicked \<and> (\<forall>n. w = Ready (Inr n) \<longrightarrow> n \<le> length bs)"
    by (auto simp: foreign_byte_io_def fb_poll_write_def fb_ok_def split: prod.splits dest: map_io_bound)
next
  fix f f' :: "'m foreign_byte_io" and u
  assume "fb_ok f" and "io_shutdown_write foreign_byte_io f = (f', u)"
  then show "fb_ok f' \<and> u \<noteq> Panicked"
    by (auto simp: foreign_byte_io_def fb_poll_shutdown_write_def fb_ok_def split: prod.splits)
qed

lemma fd_poll_recv_ok:
  assumes "fd_ok f" and "fd_poll_recv f buf = (f', buf', r)"
  shows "fd_ok f' \<and> length buf' = length buf \<and> r \<noteq> Panicked"
proof -
  obtain recv where recv: "dt_recv (fd_table f) = Some recv" "keeps_slice recv"
    using assms(1) by (auto simp: fd_ok_def)
  obtain m b q where c: "recv (fd_module f) (fd_handle f) buf = (m, b, q)" by (metis prod_cases3)
  have "length b = length buf" using recv(2) c by (metis keeps_slice_def fst_conv snd_conv)
  then show ?thesis
    using assms recv c by (auto simp: fd_poll_recv_def fd_ok_def)
qed

interpretation foreign_datagram: datagram_io_contract "foreign_datagram_io :: 'm foreign_datagram_io datagram_io" fd_ok
proof unfold_locales
  fix f f' :: "'m foreign_datagram_io" and buf buf' r
  assume "fd_ok f" and "dg_recv foreign_datagram_io f buf = (f', buf', r)"
  then show "fd_ok f' \<and> length buf' = length buf \<and> r \<noteq> Panicked"
    by (simp add: foreign_datagram_io_def fd_poll_recv_ok)
next
  fix f f' :: "'m foreign_datagram_io" and d u
  assume "fd_ok f" and "dg_send foreign_datagram_io f d = (f', u)"
  then show "fd_ok f' \<and> u \<noteq> Panicked"
    by (auto simp: foreign_datagram_io_def fd_poll_send_def fd_ok_def split: prod.splits)
qed

interpretation foreign_source: byte_source "traced_source (foreign_byte_io :: 'm foreign_byte_io byte_io)" "\<lambda>(s, h). fb_ok s" snd
  by (rule traced_source_contract [OF foreign_byte.byte_io_contract_axioms])

interpretation foreign_sink: byte_sink "traced_sink (foreign_byte_io :: 'm foreign_byte_io byte_io)"
    "\<lambda>(s, h, e). fb_ok s" "\<lambda>(s, h, e). h" "\<lambda>(s, h, e). e"
  by (rule traced_sink_contract [OF foreign_byte.byte_io_contract_axioms])

interpretation foreign_receiver: datagram_source "traced_receiver (foreign_datagram_io :: 'm foreign_datagram_io datagram_io)" "\<lambda>(s, h). fd_ok s" snd
  by (rule traced_receiver_contract [OF foreign_datagram.datagram_io_contract_axioms])

interpretation foreign_sender: datagram_sink "traced_sender (foreign_datagram_io :: 'm foreign_datagram_io datagram_io)" "\<lambda>(s, h). fd_ok s" snd
  by (rule traced_sender_contract [OF foreign_datagram.datagram_io_contract_axioms])

section \<open>Properties\<close>

lemma fb_close_idem: "fst (fb_close (fst (fb_close f))) = fst (fb_close f)"
  by (auto simp: fb_close_def split: option.splits prod.splits)

lemma fd_close_idem: "fst (fd_close (fst (fd_close f))) = fst (fd_close f)"
  by (auto simp: fd_close_def split: option.splits prod.splits)

text \<open>
  C30: Whatever a module's functions answer, an object built by \<open>from_raw\<close> never panics, never
  reports more bytes than the slice had, accepts a datagram as sent only when the module took
  all of it, and calls the module's \<open>close\<close> at most once, dropping included.
\<close>

theorem foreign_results_checked:
  assumes "byte_from_raw h (Some t) m = Inr f" and "datagram_from_raw h' (Some t') m' = Inr g"
  shows "(\<forall>n. snd (snd (fb_poll_read f buf)) = Ready (Inr n) \<longrightarrow> n \<le> length buf)
    \<and> (\<forall>n. snd (fb_poll_write f bs) = Ready (Inr n) \<longrightarrow> n \<le> length bs)
    \<and> snd (snd (fb_poll_read f buf)) \<noteq> Panicked \<and> snd (fb_poll_write f bs) \<noteq> Panicked
    \<and> snd (fb_poll_flush f) \<noteq> Panicked \<and> snd (fb_poll_shutdown_write f) \<noteq> Panicked
    \<and> snd (fb_close f) \<noteq> Panicked
    \<and> (\<forall>n. snd (snd (fd_poll_recv g buf)) = Ready (Inr (Datagram n)) \<longrightarrow> n \<le> length buf)
    \<and> (snd (fd_poll_send g bs) = Ready (Inr ()) \<longrightarrow>
         (\<exists>send. dt_send t' = Some send \<and> snd (send m' h' bs) = snol_progress (length bs)))
    \<and> snd (snd (fd_poll_recv g buf)) \<noteq> Panicked \<and> snd (fd_poll_send g bs) \<noteq> Panicked
    \<and> snd (fd_close g) \<noteq> Panicked
    \<and> fb_drop (fst (fb_close f)) = fst (fb_close f) \<and> fd_drop (fst (fd_close g)) = fst (fd_close g)"
proof -
  from assms(1) obtain r w fl sh c where f: "f = \<lparr>fb_handle = h, fb_table = t, fb_closed = False, fb_module = m\<rparr>"
    and t: "bt_read t = Some r" "bt_write t = Some w" "bt_flush t = Some fl" "bt_shutdown_write t = Some sh"
      "bt_close t = Some c"
    by (auto simp: byte_from_raw_def split: if_splits)
  from assms(2) obtain r' w' c' where g: "g = \<lparr>fd_handle = h', fd_table = t', fd_closed = False, fd_module = m'\<rparr>"
    and t': "dt_recv t' = Some r'" "dt_send t' = Some w'" "dt_close t' = Some c'"
    by (auto simp: datagram_from_raw_def split: if_splits)
  have 1: "snd (fd_poll_send g bs) = Ready (Inr ()) \<longrightarrow>
         (\<exists>send. dt_send t' = Some send \<and> snd (send m' h' bs) = snol_progress (length bs))"
    using t' by (auto simp: g fd_poll_send_def map_send_def snol_progress_def split: prod.splits if_splits)
  have 2: "(\<forall>n. snd (snd (fd_poll_recv g buf)) = Ready (Inr (Datagram n)) \<longrightarrow> n \<le> length buf)"
    using t' by (auto simp: g fd_poll_recv_def map_recv_def split: prod.splits if_splits)
  show ?thesis
    using 1 2 t t' fb_close_idem [of f] fd_close_idem [of g]
    by (simp add: f g fb_poll_read_def fb_poll_write_def fb_poll_flush_def fb_poll_shutdown_write_def
        fb_drop_def fd_drop_def fd_poll_recv_def fd_poll_send_def fb_close_def fd_close_def map_io_bound
        split: prod.splits)
qed

theorem foreign_results_checked_witness:
  "\<exists>(f :: nat foreign_byte_io) (g :: nat foreign_datagram_io). (\<forall>n. snd (snd (fb_poll_read f [0, 0])) = Ready (Inr n) \<longrightarrow> n \<le> length [0 :: byte, 0])
     \<and> snd (fd_poll_send g [7]) \<noteq> Panicked"
proof -
  define t :: "nat byte_table" where "t = \<lparr>bt_struct_size = 48, bt_reserved = 0,
      bt_read = Some (\<lambda>m h buf. (m, buf, snol_progress 9)), bt_write = Some (\<lambda>m h bs. (m, snol_pending)),
      bt_flush = Some (\<lambda>m h. (m, snol_eof)), bt_shutdown_write = Some (\<lambda>m h. (m, snol_eof)),
      bt_close = Some (\<lambda>m h. (m, STATUS_OK))\<rparr>"
  define t' :: "nat datagram_table" where "t' = \<lparr>dt_struct_size = 32, dt_reserved = 0,
      dt_recv = Some (\<lambda>m h buf. (m, buf, snol_progress 9)), dt_send = Some (\<lambda>m h bs. (m, snol_pending)),
      dt_close = Some (\<lambda>m h. (m, STATUS_OK))\<rparr>"
  have "byte_from_raw 1 (Some t) 0 = Inr \<lparr>fb_handle = 1, fb_table = t, fb_closed = False, fb_module = 0\<rparr>"
    by (simp add: byte_from_raw_def t_def BYTE_TABLE_SIZE_def)
  moreover have "datagram_from_raw 1 (Some t') 0 = Inr \<lparr>fd_handle = 1, fd_table = t', fd_closed = False, fd_module = 0\<rparr>"
    by (simp add: datagram_from_raw_def t'_def DATAGRAM_TABLE_SIZE_def)
  ultimately show ?thesis
    using foreign_results_checked [of 1 t 0 _ 1 t' 0 _ "[0, 0]" "[7]"] by blast
qed

end
