(* ===== verification/Pump.thy ===== *)
theory Pump
  imports Module_Io
begin

text \<open>
  The two pumps of the SDK (\<open>pump.rs\<close>): \<open>Pump\<close> moves bytes from a source to a sink through
  one fixed buffer, \<open>DatagramPump\<close> moves whole datagrams. Both are polled with a work budget.
  The loop of \<open>Pump::poll\<close> is a \<^emph>\<open>partial_function\<close>, so that not returning is the value
  \<^term>\<open>None\<close>; the loop body is \<open>pump_step\<close>. Out of range slices, and the sums
  \<open>start + budget\<close> and \<open>budget - written\<close> when they leave \<open>usize\<close>, panic.

  The lemmas show that the loop always returns, that no byte is lost, duplicated or reordered,
  that the budget bounds the work, and that the sink is shut down only after the last byte.
\<close>

datatype pump_error = ZeroCapacity | PumpIo io_error | WriteZero | DatagramTooLarge nat | InvalidDatagram

section \<open>The byte pump\<close>

record pump_report =
  rep_read :: nat
  rep_written :: nat
  rep_finished :: bool

definition report_default :: pump_report where
  "report_default = \<lparr>rep_read = 0, rep_written = 0, rep_finished = False\<rparr>"

record pump =
  pump_buffer :: bytes
  pump_start :: nat
  pump_end :: nat
  source_eof :: bool
  destination_shutdown :: bool

definition pump_new :: "nat \<Rightarrow> pump_error + pump" where
  "pump_new capacity =
     (if capacity = 0 then Inl ZeroCapacity
      else Inr \<lparr>pump_buffer = replicate capacity 0, pump_start = 0, pump_end = 0,
                source_eof = False, destination_shutdown = False\<rparr>)"

definition pump_pending_bytes :: "pump \<Rightarrow> nat" where
  "pump_pending_bytes p = pump_end p - pump_start p"

definition pump_is_finished :: "pump \<Rightarrow> bool" where
  "pump_is_finished p = destination_shutdown p"

definition ready_or_pending :: "pump_report \<Rightarrow> (pump_error + pump_report) poll" where
  "ready_or_pending report =
     (if rep_read report = 0 \<and> rep_written report = 0 then Pending else Ready (Inr report))"

text \<open>The variables live in the loop: the pump, both ends, the budget and the report.\<close>

record ('s, 'd) pump_run =
  run_pump :: pump
  run_source :: 's
  run_dest :: 'd
  run_budget :: nat
  run_report :: pump_report

type_synonym ('s, 'd) pump_outcome = "pump \<times> 's \<times> 'd \<times> (pump_error + pump_report) poll"

definition pump_return :: "('s, 'd) pump_run \<Rightarrow> (pump_error + pump_report) poll \<Rightarrow> ('s, 'd) pump_outcome" where
  "pump_return st r = (run_pump st, run_source st, run_dest st, r)"

text \<open>One write of buffered bytes.\<close>

definition pump_write_step ::
    "'d byte_io \<Rightarrow> ('s, 'd) pump_run \<Rightarrow> ('s, 'd) pump_outcome + ('s, 'd) pump_run" where
  "pump_write_step D st =
     (let p = run_pump st; budget = run_budget st; report = run_report st in
      case checked_add (pump_start p) budget of
        None \<Rightarrow> Inl (pump_return st Panicked)
      | Some limit \<Rightarrow>
        (let e = min (pump_end p) limit in
         case slice_get (pump_buffer p) (pump_start p) e of
           None \<Rightarrow> Inl (pump_return st Panicked)
         | Some input \<Rightarrow>
           (case io_write D (run_dest st) input of (d, w) \<Rightarrow>
            (let st = st\<lparr>run_dest := d\<rparr> in
             case w of
               Ready (Inr 0) \<Rightarrow> Inl (pump_return st (Ready (Inl WriteZero)))
             | Ready (Inr written) \<Rightarrow>
                 if budget < written then Inl (pump_return st Panicked)
                 else
                   (let s1 = pump_start p + written;
                        p' = (if s1 = pump_end p then p\<lparr>pump_start := 0, pump_end := 0\<rparr>
                              else p\<lparr>pump_start := s1\<rparr>)
                    in Inr (st\<lparr>run_pump := p',
                               run_report := report\<lparr>rep_written := rep_written report + written\<rparr>,
                               run_budget := budget - written\<rparr>))
             | Ready (Inl error) \<Rightarrow> Inl (pump_return st (Ready (Inl (PumpIo error))))
             | Pending \<Rightarrow> Inl (pump_return st (ready_or_pending report))
             | Panicked \<Rightarrow> Inl (pump_return st Panicked)))))"

text \<open>The end of the source has been seen and the buffer is drained.\<close>

definition pump_finish_step ::
    "'d byte_io \<Rightarrow> ('s, 'd) pump_run \<Rightarrow> ('s, 'd) pump_outcome" where
  "pump_finish_step D st =
     (let finished = (\<lambda>st. pump_return st (Ready (Inr ((run_report st)\<lparr>rep_finished := True\<rparr>)))) in
      if destination_shutdown (run_pump st) then finished st
      else
        (case io_shutdown_write D (run_dest st) of (d, u) \<Rightarrow>
         (let st = st\<lparr>run_dest := d\<rparr> in
          case u of
            Ready (Inr _) \<Rightarrow> finished (st\<lparr>run_pump := (run_pump st)\<lparr>destination_shutdown := True\<rparr>\<rparr>)
          | Ready (Inl error) \<Rightarrow> pump_return st (Ready (Inl (PumpIo error)))
          | Pending \<Rightarrow> pump_return st (ready_or_pending (run_report st))
          | Panicked \<Rightarrow> pump_return st Panicked)))"

definition pump_read_step ::
    "'s byte_io \<Rightarrow> ('s, 'd) pump_run \<Rightarrow> ('s, 'd) pump_outcome + ('s, 'd) pump_run" where
  "pump_read_step S st =
     (let p = run_pump st; report = run_report st;
          read_limit = min (length (pump_buffer p)) (run_budget st) in
      case io_read S (run_source st) (take read_limit (pump_buffer p)) of (s, filled, r) \<Rightarrow>
      (let p = p\<lparr>pump_buffer := splice (pump_buffer p) 0 filled\<rparr>;
           st = st\<lparr>run_source := s, run_pump := p\<rparr> in
       case r of
         Ready (Inr 0) \<Rightarrow> Inr (st\<lparr>run_pump := p\<lparr>source_eof := True\<rparr>\<rparr>)
       | Ready (Inr read) \<Rightarrow>
           Inr (st\<lparr>run_pump := p\<lparr>pump_end := read\<rparr>,
                   run_report := report\<lparr>rep_read := rep_read report + read\<rparr>\<rparr>)
       | Ready (Inl error) \<Rightarrow> Inl (pump_return st (Ready (Inl (PumpIo error))))
       | Pending \<Rightarrow> Inl (pump_return st (ready_or_pending report))
       | Panicked \<Rightarrow> Inl (pump_return st Panicked)))"

definition pump_step ::
    "'s byte_io \<Rightarrow> 'd byte_io \<Rightarrow> ('s, 'd) pump_run \<Rightarrow> ('s, 'd) pump_outcome + ('s, 'd) pump_run" where
  "pump_step S D st =
     (let p = run_pump st in
      if run_budget st = 0 then Inl (pump_return st (Ready (Inr (run_report st))))
      else if pump_start p < pump_end p then pump_write_step D st
      else if source_eof p then Inl (pump_finish_step D st)
      else pump_read_step S st)"

partial_function (option) pump_loop ::
    "'s byte_io \<Rightarrow> 'd byte_io \<Rightarrow> ('s, 'd) pump_run \<Rightarrow> ('s, 'd) pump_outcome option" where
  "pump_loop S D st =
     (case pump_step S D st of Inl out \<Rightarrow> Some out | Inr st' \<Rightarrow> pump_loop S D st')"

declare pump_loop.simps [code]

definition pump_poll ::
    "'s byte_io \<Rightarrow> 'd byte_io \<Rightarrow> pump \<Rightarrow> 's \<Rightarrow> 'd \<Rightarrow> nat \<Rightarrow> ('s, 'd) pump_outcome option" where
  "pump_poll S D p s d max_work =
     pump_loop S D \<lparr>run_pump = p, run_source = s, run_dest = d, run_budget = max_work,
                    run_report = report_default\<rparr>"

section \<open>The datagram pump\<close>

record datagram_pump_report =
  drep_received :: nat
  drep_sent :: nat
  drep_finished :: bool

record datagram_pump =
  dp_buffer :: bytes
  dp_pending :: "nat option"
  dp_source_closed :: bool

definition datagram_pump_new :: "nat \<Rightarrow> pump_error + datagram_pump" where
  "datagram_pump_new max_datagram_bytes =
     (if max_datagram_bytes = 0 then Inl ZeroCapacity
      else Inr \<lparr>dp_buffer = replicate max_datagram_bytes 0, dp_pending = None, dp_source_closed = False\<rparr>)"

definition dp_pending_bytes :: "datagram_pump \<Rightarrow> nat" where
  "dp_pending_bytes p = (case dp_pending p of None \<Rightarrow> 0 | Some n \<Rightarrow> n)"

definition dp_is_finished :: "datagram_pump \<Rightarrow> bool" where
  "dp_is_finished p \<longleftrightarrow> dp_source_closed p \<and> dp_pending p = None"

type_synonym ('s, 'd) dp_outcome =
  "datagram_pump \<times> 's \<times> 'd \<times> (pump_error + datagram_pump_report) poll"

definition dp_send_phase ::
    "'d datagram_io \<Rightarrow> datagram_pump \<Rightarrow> 's \<Rightarrow> 'd \<Rightarrow> nat \<Rightarrow> datagram_pump_report \<Rightarrow> ('s, 'd) dp_outcome" where
  "dp_send_phase D p s d max_payload report =
     (case dp_pending p of
        None \<Rightarrow> (p, s, d, Ready (Inr (report\<lparr>drep_finished := dp_is_finished p\<rparr>)))
      | Some n \<Rightarrow>
          if max_payload < n then (p, s, d, Ready (Inr report))
          else
            (case slice_get (dp_buffer p) 0 n of
               None \<Rightarrow> (p, s, d, Panicked)
             | Some payload \<Rightarrow>
               (case dg_send D d payload of (d', u) \<Rightarrow>
                (case u of
                   Ready (Inr _) \<Rightarrow>
                     (let p' = p\<lparr>dp_pending := None\<rparr> in
                      (p', s, d', Ready (Inr (report\<lparr>drep_sent := n, drep_finished := dp_is_finished p'\<rparr>))))
                 | Ready (Inl error) \<Rightarrow> (p, s, d', Ready (Inl (PumpIo error)))
                 | Pending \<Rightarrow> (p, s, d', Pending)
                 | Panicked \<Rightarrow> (p, s, d', Panicked)))))"

definition dp_poll ::
    "'s datagram_io \<Rightarrow> 'd datagram_io \<Rightarrow> datagram_pump \<Rightarrow> 's \<Rightarrow> 'd \<Rightarrow> nat \<Rightarrow> ('s, 'd) dp_outcome" where
  "dp_poll S D p s d max_payload =
     (let report = \<lparr>drep_received = 0, drep_sent = 0, drep_finished = False\<rparr> in
      if max_payload = 0 then (p, s, d, Pending)
      else if dp_pending p = None \<and> \<not> dp_source_closed p then
        (case dg_recv S s (dp_buffer p) of (s', filled, r) \<Rightarrow>
         (let p' = p\<lparr>dp_buffer := filled\<rparr> in
          case r of
            Ready (Inr (Datagram n)) \<Rightarrow>
              if n \<le> length filled
              then dp_send_phase D (p'\<lparr>dp_pending := Some n\<rparr>) s' d max_payload (report\<lparr>drep_received := n\<rparr>)
              else (p', s', d, Ready (Inl InvalidDatagram))
          | Ready (Inr (BufferTooSmall required)) \<Rightarrow> (p', s', d, Ready (Inl (DatagramTooLarge required)))
          | Ready (Inr Closed) \<Rightarrow> dp_send_phase D (p'\<lparr>dp_source_closed := True\<rparr>) s' d max_payload report
          | Ready (Inl error) \<Rightarrow> (p', s', d, Ready (Inl (PumpIo error)))
          | Pending \<Rightarrow> (p', s', d, Pending)
          | Panicked \<Rightarrow> (p', s', d, Panicked)))
      else dp_send_phase D p s d max_payload report)"

section \<open>Invariants\<close>

definition pump_inv :: "pump \<Rightarrow> bool" where
  "pump_inv p \<longleftrightarrow> pump_start p \<le> pump_end p \<and> pump_end p \<le> length (pump_buffer p)
     \<and> pump_buffer p \<noteq> [] \<and> (pump_start p = pump_end p \<longrightarrow> pump_start p = 0)
     \<and> (destination_shutdown p \<longrightarrow> source_eof p \<and> pump_start p = pump_end p)"

definition pump_pending :: "pump \<Rightarrow> bytes" where
  "pump_pending p = slice (pump_buffer p) (pump_start p) (pump_end p)"

definition dp_inv :: "datagram_pump \<Rightarrow> bool" where
  "dp_inv p \<longleftrightarrow> dp_pending_bytes p \<le> length (dp_buffer p)"

definition dp_held :: "datagram_pump \<Rightarrow> bytes list" where
  "dp_held p = (case dp_pending p of None \<Rightarrow> [] | Some n \<Rightarrow> [take n (dp_buffer p)])"

text \<open>
  What every state of the loop satisfies, over the histories of both ends: \<open>M\<close> is the budget of
  the call, \<open>H\<close> and \<open>G\<close> are the numbers of bytes read and written before it.
\<close>

definition run_inv ::
    "('s \<Rightarrow> bool) \<Rightarrow> ('s \<Rightarrow> bytes) \<Rightarrow> ('d \<Rightarrow> bool) \<Rightarrow> ('d \<Rightarrow> bytes) \<Rightarrow> ('d \<Rightarrow> bool) \<Rightarrow> nat \<Rightarrow> nat \<Rightarrow> nat
      \<Rightarrow> ('s, 'd) pump_run \<Rightarrow> bool" where
  "run_inv sok shist dok dhist ddown M H G st \<longleftrightarrow>
     (let p = run_pump st; s = run_source st; d = run_dest st; rep = run_report st in
      pump_inv p \<and> length (pump_buffer p) + M \<le> usize_max \<and> sok s \<and> dok d
      \<and> shist s = dhist d @ pump_pending p \<and> (ddown d \<longleftrightarrow> destination_shutdown p)
      \<and> rep_written rep + run_budget st = M \<and> rep_read rep \<le> M \<and> G \<le> H
      \<and> length (shist s) = H + rep_read rep \<and> length (dhist d) = G + rep_written rep
      \<and> \<not> rep_finished rep)"

definition outcome_ok ::
    "('s \<Rightarrow> bool) \<Rightarrow> ('s \<Rightarrow> bytes) \<Rightarrow> ('d \<Rightarrow> bool) \<Rightarrow> ('d \<Rightarrow> bytes) \<Rightarrow> ('d \<Rightarrow> bool) \<Rightarrow> nat \<Rightarrow> nat \<Rightarrow> nat
      \<Rightarrow> ('s, 'd) pump_outcome \<Rightarrow> bool" where
  "outcome_ok sok shist dok dhist ddown M H G out \<longleftrightarrow>
     (case out of (p, s, d, r) \<Rightarrow>
      pump_inv p \<and> sok s \<and> dok d
      \<and> shist s = dhist d @ pump_pending p \<and> (ddown d \<longleftrightarrow> destination_shutdown p)
      \<and> (case r of
           Ready (Inr rep) \<Rightarrow> rep_written rep \<le> M \<and> rep_read rep \<le> M
             \<and> length (shist s) = H + rep_read rep \<and> length (dhist d) = G + rep_written rep
             \<and> (rep_finished rep \<longrightarrow> pump_is_finished p)
         | Ready (Inl e) \<Rightarrow> True
         | Pending \<Rightarrow> length (shist s) = H \<and> length (dhist d) = G
         | Panicked \<Rightarrow> False))"

definition run_measure :: "('s, 'd) pump_run \<Rightarrow> nat" where
  "run_measure st = 2 * run_budget st
     + (if pump_start (run_pump st) < pump_end (run_pump st) \<or> source_eof (run_pump st) then 0 else 1)"

text \<open>A concrete module for the witnesses: its state is the input it still has to give.\<close>

definition demo_table :: "bytes byte_table" where
  "demo_table =
     \<lparr>bt_struct_size = 48, bt_reserved = 0,
      bt_read = Some (\<lambda>m h buf. let n = min (length m) (length buf) in
        (drop n m, take n m @ drop n buf, if n = 0 then snol_eof else snol_progress n)),
      bt_write = Some (\<lambda>m h bs. (m, snol_progress (length bs))),
      bt_flush = Some (\<lambda>m h. (m, snol_progress 0)),
      bt_shutdown_write = Some (\<lambda>m h. (m, snol_progress 0)),
      bt_close = Some (\<lambda>m h. (m, STATUS_OK))\<rparr>"

definition demo_stream :: "bytes \<Rightarrow> bytes foreign_byte_io" where
  "demo_stream m = \<lparr>fb_handle = 1, fb_table = demo_table, fb_closed = False, fb_module = m\<rparr>"

definition demo_pump :: pump where
  "demo_pump = \<lparr>pump_buffer = [0, 0, 0, 0], pump_start = 0, pump_end = 0, source_eof = False,
     destination_shutdown = False\<rparr>"

definition demo_datagram_table :: "bytes datagram_table" where
  "demo_datagram_table =
     \<lparr>dt_struct_size = 32, dt_reserved = 0,
      dt_recv = Some (\<lambda>m h buf. let n = min (length m) (length buf) in
        (drop n m, take n m @ drop n buf, if n = 0 then snol_eof else snol_progress n)),
      dt_send = Some (\<lambda>m h bs. (m, snol_progress (length bs))),
      dt_close = Some (\<lambda>m h. (m, STATUS_OK))\<rparr>"

definition demo_port :: "bytes \<Rightarrow> bytes foreign_datagram_io" where
  "demo_port m = \<lparr>fd_handle = 1, fd_table = demo_datagram_table, fd_closed = False, fd_module = m\<rparr>"

definition demo_datagram_pump :: datagram_pump where
  "demo_datagram_pump = \<lparr>dp_buffer = [0, 0, 0, 0], dp_pending = None, dp_source_closed = False\<rparr>"

lemma pump_new_inv: "pump_new n = Inr p \<Longrightarrow> pump_inv p \<and> pump_pending p = []"
  by (auto simp: pump_new_def pump_inv_def pump_pending_def slice_def split: if_splits)

locale pump_ends = src: byte_source S sok shist + dst: byte_sink D dok dhist ddown
  for S :: "'s byte_io" and sok and shist and D :: "'d byte_io" and dok and dhist and ddown
begin

abbreviation rinv where "rinv \<equiv> run_inv sok shist dok dhist ddown"
abbreviation oinv where "oinv \<equiv> outcome_ok sok shist dok dhist ddown"

definition step_ok where
  "step_ok M H G st x \<longleftrightarrow> (case x of
     Inl out \<Rightarrow> oinv M H G out
   | Inr st' \<Rightarrow> rinv M H G st' \<and> run_measure st' < run_measure st)"

lemma write_step_ok:
  assumes "rinv M H G st" and "0 < run_budget st" and "pump_start (run_pump st) < pump_end (run_pump st)"
  shows "step_ok M H G st (pump_write_step D st)"
proof -
  let ?p = "run_pump st" and ?b = "run_budget st"
  define e where "e = min (pump_end ?p) (pump_start ?p + ?b)"
  define input where "input = slice (pump_buffer ?p) (pump_start ?p) e"
  obtain d w where wr: "io_write D (run_dest st) input = (d, w)" by fastforce
  have inv: "pump_inv ?p" and dok: "dok (run_dest st)" and bound: "length (pump_buffer ?p) + M \<le> usize_max"
    and M: "rep_written (run_report st) + ?b = M"
    using assms(1) by (auto simp: run_inv_def Let_def)
  have se: "pump_start ?p < e" "e \<le> length (pump_buffer ?p)"
    using inv assms(2,3) by (auto simp: e_def pump_inv_def)
  have nopanic: "checked_add (pump_start ?p) ?b = Some (pump_start ?p + ?b)"
    using inv bound M by (simp add: pump_inv_def)
  have sl: "slice_get (pump_buffer ?p) (pump_start ?p) e = Some input"
    using se by (simp add: slice_get_Some_iff input_def)
  have li: "length input = e - pump_start ?p" using se by (simp add: input_def)
  note w = dst.write_ok [OF dok wr] dst.write_hist [OF wr]
  have unf: "pump_write_step D st = (let st' = st\<lparr>run_dest := d\<rparr> in
     case w of
       Ready (Inr 0) \<Rightarrow> Inl (pump_return st' (Ready (Inl WriteZero)))
     | Ready (Inr written) \<Rightarrow>
         if ?b < written then Inl (pump_return st' Panicked)
         else
           (let s1 = pump_start ?p + written;
                p' = (if s1 = pump_end ?p then ?p\<lparr>pump_start := 0, pump_end := 0\<rparr>
                      else ?p\<lparr>pump_start := s1\<rparr>)
            in Inr (st'\<lparr>run_pump := p',
                       run_report := (run_report st)\<lparr>rep_written := rep_written (run_report st) + written\<rparr>,
                       run_budget := ?b - written\<rparr>))
     | Ready (Inl error) \<Rightarrow> Inl (pump_return st' (Ready (Inl (PumpIo error))))
     | Pending \<Rightarrow> Inl (pump_return st' (ready_or_pending (run_report st)))
     | Panicked \<Rightarrow> Inl (pump_return st' Panicked))"
    unfolding pump_write_step_def Let_def nopanic option.case e_def [symmetric] sl wr prod.case
    by (simp cong: poll.case_cong sum.case_cong nat.case_cong)
  show ?thesis
  proof (cases "\<exists>n. w = Ready (Inr (Suc n))")
    case False
    then show ?thesis using w assms(1) unfolding unf step_ok_def
      by (auto simp: run_inv_def outcome_ok_def pump_return_def ready_or_pending_def Let_def
          split: poll.splits sum.splits nat.splits)
  next
    case True
    then obtain n where n: "w = Ready (Inr (Suc n))" by blast
    with w li have le: "Suc n \<le> e - pump_start ?p" by auto
    then have lb: "Suc n \<le> ?b" "Suc n \<le> pump_end ?p - pump_start ?p" by (auto simp: e_def)
    have split: "pump_pending ?p = take (Suc n) input @ slice (pump_buffer ?p) (pump_start ?p + Suc n) (pump_end ?p)"
      unfolding pump_pending_def input_def take_slice using le lb(2)
      by (subst slice_split [of _ "pump_start ?p + Suc n"]) (auto simp: min_def intro: arg_cong)
    have ln: "length (take (Suc n) input) = Suc n" using le li by simp
    show ?thesis
      using w n lb assms inv split ln unfolding unf step_ok_def
      by (auto simp: run_inv_def Let_def pump_inv_def pump_pending_def run_measure_def slice_def)
  qed
qed

lemma finish_step_ok:
  assumes "rinv M H G st" and "\<not> pump_start (run_pump st) < pump_end (run_pump st)" and "source_eof (run_pump st)"
  shows "oinv M H G (pump_finish_step D st)"
proof -
  obtain d u where u: "io_shutdown_write D (run_dest st) = (d, u)" by fastforce
  have dok: "dok (run_dest st)" using assms(1) by (simp add: run_inv_def Let_def)
  note w = dst.shutdown_ok [OF dok u] dst.shutdown_hist [OF u]
  show ?thesis
    using w assms unfolding pump_finish_step_def Let_def u prod.case
    by (auto simp: run_inv_def outcome_ok_def pump_return_def ready_or_pending_def Let_def pump_inv_def
        pump_pending_def pump_is_finished_def split: poll.splits sum.splits)
qed

lemma read_step_ok:
  assumes "rinv M H G st" and "0 < run_budget st"
    and "\<not> pump_start (run_pump st) < pump_end (run_pump st)" and "\<not> source_eof (run_pump st)"
  shows "step_ok M H G st (pump_read_step S st)"
proof -
  let ?p = "run_pump st"
  define lim where "lim = min (length (pump_buffer ?p)) (run_budget st)"
  obtain s filled r where rd: "io_read S (run_source st) (take lim (pump_buffer ?p)) = (s, filled, r)"
    by (metis prod_cases3)
  have sok: "sok (run_source st)" and inv: "pump_inv ?p" using assms(1) by (auto simp: run_inv_def Let_def)
  have ll: "length (take lim (pump_buffer ?p)) = lim" by (simp add: lim_def)
  note w = src.read_ok [OF sok rd, unfolded ll] src.read_hist [OF rd]
  have empty: "pump_start ?p = 0" "pump_end ?p = 0" using inv assms(3) by (auto simp: pump_inv_def)
  have lf: "length filled \<le> length (pump_buffer ?p)" using w by (simp add: lim_def)
  have len: "length (splice (pump_buffer ?p) 0 filled) = length (pump_buffer ?p)" using lf by simp
  have tk: "n \<le> lim \<Longrightarrow> slice (splice (pump_buffer ?p) 0 filled) 0 n = take n filled" for n
    using w by (simp add: slice_def splice_def)
  have lim: "lim \<le> run_budget st" "lim \<le> length (pump_buffer ?p)" by (auto simp: lim_def)
  have ne: "splice (pump_buffer ?p) 0 filled \<noteq> []" using len inv by (auto simp: pump_inv_def)
  have step: "pump_read_step S st =
     (let p = ?p\<lparr>pump_buffer := splice (pump_buffer ?p) 0 filled\<rparr>;
          st' = st\<lparr>run_source := s, run_pump := p\<rparr> in
       case r of
         Ready (Inr 0) \<Rightarrow> Inr (st'\<lparr>run_pump := p\<lparr>source_eof := True\<rparr>\<rparr>)
       | Ready (Inr read) \<Rightarrow>
           Inr (st'\<lparr>run_pump := p\<lparr>pump_end := read\<rparr>,
                   run_report := (run_report st)\<lparr>rep_read := rep_read (run_report st) + read\<rparr>\<rparr>)
       | Ready (Inl error) \<Rightarrow> Inl (pump_return st' (Ready (Inl (PumpIo error))))
       | Pending \<Rightarrow> Inl (pump_return st' (ready_or_pending (run_report st)))
       | Panicked \<Rightarrow> Inl (pump_return st' Panicked))"
    unfolding pump_read_step_def Let_def lim_def [symmetric] rd prod.case
    by (simp cong: poll.case_cong sum.case_cong nat.case_cong)
  have nil: "pump_pending ?p = []" using empty by (simp add: pump_pending_def)
  show ?thesis
  proof (cases "\<exists>n. r = Ready (Inr (Suc n))")
    case False
    then show ?thesis using w(1) w(2) nil empty len ne assms(1)
      unfolding step step_ok_def
      by (auto simp: run_inv_def outcome_ok_def pump_return_def ready_or_pending_def Let_def pump_inv_def
          pump_pending_def run_measure_def assms split: poll.splits sum.splits nat.splits)
  next
    case True
    then obtain n where n: "r = Ready (Inr (Suc n))" by blast
    with w have le: "Suc n \<le> lim" "length filled = lim" by auto
    show ?thesis using w(1) w(2) nil empty len ne assms(1) n le lim tk [OF le(1)]
      unfolding step step_ok_def
      by (auto simp: run_inv_def Let_def pump_inv_def pump_pending_def run_measure_def assms)
  qed
qed

lemma pump_step_ok:
  assumes "rinv M H G st"
  shows "step_ok M H G st (pump_step S D st)"
proof (cases "run_budget st = 0")
  case True
  then show ?thesis using assms
    by (auto simp: pump_step_def step_ok_def outcome_ok_def run_inv_def Let_def pump_return_def)
next
  case False
  then show ?thesis
    using write_step_ok [OF assms] finish_step_ok [OF assms] read_step_ok [OF assms]
    by (auto simp: pump_step_def Let_def step_ok_def)
qed

lemma pump_loop_ok:
  assumes "rinv M H G st"
  shows "\<exists>out. pump_loop S D st = Some out \<and> oinv M H G out"
  using assms
proof (induction "run_measure st" arbitrary: st rule: less_induct)
  case less
  show ?case
  proof (cases "pump_step S D st")
    case (Inl out)
    with pump_step_ok [OF less.prems] show ?thesis
      by (subst pump_loop.simps) (simp add: step_ok_def)
  next
    case (Inr st')
    with pump_step_ok [OF less.prems] have "rinv M H G st'" "run_measure st' < run_measure st"
      by (auto simp: step_ok_def)
    with less.hyps [of st'] Inr show ?thesis
      by (subst pump_loop.simps) simp
  qed
qed

lemma pump_poll_ok:
  assumes "pump_inv p" and "length (pump_buffer p) + M \<le> usize_max" and "sok s" and "dok d"
    and "shist s = dhist d @ pump_pending p" and "ddown d \<longleftrightarrow> destination_shutdown p"
  shows "\<exists>out. pump_poll S D p s d M = Some out
           \<and> oinv M (length (shist s)) (length (dhist d)) out"
  unfolding pump_poll_def
  by (rule pump_loop_ok) (use assms in \<open>auto simp: run_inv_def report_default_def Let_def\<close>)

end

interpretation module_pump: pump_ends
    "traced_source (foreign_byte_io :: 'm foreign_byte_io byte_io)" "\<lambda>(s, h). fb_ok s" snd
    "traced_sink (foreign_byte_io :: 'n foreign_byte_io byte_io)"
    "\<lambda>(s, h, e). fb_ok s" "\<lambda>(s, h, e). h" "\<lambda>(s, h, e). e"
  by unfold_locales

section \<open>Datagrams\<close>

locale datagram_ends = src: datagram_source S sok shist + dst: datagram_sink D dok dhist
  for S :: "'s datagram_io" and sok and shist and D :: "'d datagram_io" and dok and dhist
begin

definition held_ok where
  "held_ok p s d \<longleftrightarrow> dp_inv p \<and> sok s \<and> dok d \<and> shist s = dhist d @ dp_held p"

definition result_ok where
  "result_ok M out \<longleftrightarrow> (case out of (p, s, d, r) \<Rightarrow> r \<noteq> Panicked \<and>
     (\<forall>rep. r = Ready (Inr rep) \<longrightarrow> drep_sent rep \<le> M \<and> (drep_finished rep \<longleftrightarrow> dp_is_finished p)))"

lemma send_phase_ok:
  assumes "held_ok p s d" and "drep_sent rep = 0" and "\<not> drep_finished rep"
    and "dp_send_phase D p s d M rep = (p', s', d', r)"
  shows "held_ok p' s' d' \<and> result_ok M (p', s', d', r)"
proof (cases "dp_pending p")
  case None
  with assms show ?thesis by (auto simp: dp_send_phase_def result_ok_def)
next
  case (Some n)
  have n: "n \<le> length (dp_buffer p)" and dok: "dok d" using assms(1) Some
    by (auto simp: held_ok_def dp_inv_def dp_pending_bytes_def)
  obtain d1 u where send: "dg_send D d (take n (dp_buffer p)) = (d1, u)" by fastforce
  note c = dst.send_ok [OF dok send] dst.send_hist [OF send]
  show ?thesis
  proof (cases "M < n")
    case True
    with assms Some show ?thesis
      by (auto simp: dp_send_phase_def result_ok_def dp_is_finished_def)
  next
    case False
    with assms Some n send have "(p', s', d', r) = (case u of
        Ready (Inr x) \<Rightarrow> (p\<lparr>dp_pending := None\<rparr>, s, d1, Ready (Inr (rep\<lparr>drep_sent := n,
                  drep_finished := dp_is_finished (p\<lparr>dp_pending := None\<rparr>)\<rparr>)))
      | Ready (Inl error) \<Rightarrow> (p, s, d1, Ready (Inl (PumpIo error)))
      | Pending \<Rightarrow> (p, s, d1, Pending) | Panicked \<Rightarrow> (p, s, d1, Panicked))"
      by (simp add: dp_send_phase_def slice_get_def Let_def split: poll.splits sum.splits)
    with c False assms(1) Some show ?thesis
      by (auto simp: held_ok_def result_ok_def dp_inv_def dp_pending_bytes_def dp_held_def
          split: poll.splits sum.splits)
  qed
qed

lemma dp_poll_ok:
  assumes "held_ok p s d" and "dp_poll S D p s d M = (p', s', d', r)"
  shows "held_ok p' s' d' \<and> result_ok M (p', s', d', r)"
proof (cases "M \<noteq> 0 \<and> dp_pending p = None \<and> \<not> dp_source_closed p")
  case False
  then show ?thesis
    using assms send_phase_ok [OF assms(1), of "\<lparr>drep_received = 0, drep_sent = 0, drep_finished = False\<rparr>"]
    by (auto simp: dp_poll_def Let_def result_ok_def split: if_splits)
next
  case True
  obtain s1 filled q where recv: "dg_recv S s (dp_buffer p) = (s1, filled, q)" by (metis prod_cases3)
  have sok: "sok s" using assms(1) by (simp add: held_ok_def)
  note c = src.recv_ok [OF sok recv] src.recv_hist [OF recv]
  have dok: "dok d" and h: "shist s = dhist d" using assms(1) True
    by (auto simp: held_ok_def dp_held_def)
  show ?thesis
  proof (cases "\<exists>n. q = Ready (Inr (Datagram n)) \<and> n \<le> length filled \<or> q = Ready (Inr Closed)")
    case False
    with assms(2) True recv c dok h show ?thesis
      by (auto simp: dp_poll_def Let_def held_ok_def result_ok_def dp_inv_def dp_pending_bytes_def dp_held_def
          split: poll.splits sum.splits datagram_recv.splits if_splits)
  next
    case cont: True
    then consider n where "q = Ready (Inr (Datagram n))" "n \<le> length filled" | "q = Ready (Inr Closed)"
      by blast
    then show ?thesis
    proof cases
      case (1 n)
      have "held_ok (p\<lparr>dp_buffer := filled, dp_pending := Some n\<rparr>) s1 d"
        using c 1 dok h by (auto simp: held_ok_def dp_inv_def dp_pending_bytes_def dp_held_def)
      then show ?thesis
        by (rule send_phase_ok [where rep = "\<lparr>drep_received = n, drep_sent = 0, drep_finished = False\<rparr>"])
          (use assms(2) True recv 1 in \<open>auto simp: dp_poll_def Let_def\<close>)
    next
      case 2
      have "held_ok (p\<lparr>dp_buffer := filled, dp_source_closed := True\<rparr>) s1 d"
        using c 2 dok h True by (auto simp: held_ok_def dp_inv_def dp_pending_bytes_def dp_held_def)
      then show ?thesis
        by (rule send_phase_ok [where rep = "\<lparr>drep_received = 0, drep_sent = 0, drep_finished = False\<rparr>"])
          (use assms(2) True recv 2 in \<open>auto simp: dp_poll_def Let_def\<close>)
    qed
  qed
qed

end

interpretation module_datagrams: datagram_ends
    "traced_receiver (foreign_datagram_io :: 'm foreign_datagram_io datagram_io)" "\<lambda>(s, h). fd_ok s" snd
    "traced_sender (foreign_datagram_io :: 'n foreign_datagram_io datagram_io)" "\<lambda>(s, h). fd_ok s" snd
  by unfold_locales

section \<open>Properties\<close>



text \<open>
  C25: The datagram pump moves whole datagrams in order: what it received is what it sent followed
  by the one datagram it may still hold. It never panics, never sends more than the payload
  limit of the call, and reports the end exactly when the source is closed and nothing is held.
\<close>

theorem datagram_pump_in_order:
  fixes s :: "'m foreign_datagram_io" and d :: "'n foreign_datagram_io"
  assumes "dp_inv p" and "fd_ok s" and "fd_ok d" and "hs = ht @ dp_held p"
  shows "\<exists>p' s' hs' d' ht' r.
    dp_poll (traced_receiver foreign_datagram_io) (traced_sender foreign_datagram_io) p (s, hs) (d, ht) M
      = (p', (s', hs'), (d', ht'), r)
    \<and> dp_inv p' \<and> hs' = ht' @ dp_held p' \<and> r \<noteq> Panicked
    \<and> (\<forall>rep. r = Ready (Inr rep) \<longrightarrow>
         drep_sent rep \<le> M \<and> (drep_finished rep \<longleftrightarrow> dp_is_finished p'))"
proof -
  obtain p' s' hs' d' ht' r where o: "dp_poll (traced_receiver foreign_datagram_io)
      (traced_sender foreign_datagram_io) p (s, hs) (d, ht) M = (p', (s', hs'), (d', ht'), r)"
    by (metis surj_pair)
  have "module_datagrams.held_ok p (s, hs) (d, ht)"
    using assms by (simp add: module_datagrams.held_ok_def)
  from module_datagrams.dp_poll_ok [OF this o] o show ?thesis
    by (auto simp: module_datagrams.held_ok_def module_datagrams.result_ok_def)
qed

theorem datagram_pump_in_order_witness:
  "\<exists>p' s' hs' d' ht' r.
    dp_poll (traced_receiver foreign_datagram_io) (traced_sender foreign_datagram_io) demo_datagram_pump
        (demo_port [1, 2, 3], []) (demo_port [], []) 8
      = (p', (s', hs'), (d', ht'), r) \<and> dp_inv p' \<and> hs' = ht' @ dp_held p' \<and> r \<noteq> Panicked"
proof -
  have a: "dp_inv demo_datagram_pump" by (simp add: demo_datagram_pump_def dp_inv_def dp_pending_bytes_def)
  have b: "fd_ok (demo_port [1, 2, 3])" "fd_ok (demo_port [])"
    by (simp_all add: fd_ok_def demo_port_def demo_datagram_table_def keeps_slice_def Let_def)
  have c: "([] :: bytes list) = [] @ dp_held demo_datagram_pump"
    by (simp add: demo_datagram_pump_def dp_held_def)
  from datagram_pump_in_order [OF a b c, of 8] show ?thesis
    by (elim exE conjE) (intro exI conjI, assumption+)
qed

end
