(* ===== verification/Config.thy ===== *)
theory Config
  imports Wire
begin

text \<open>
  The configuration (\<open>config.rs\<close>): its records, path resolution, the size syntax of the log
  limit and \<open>Config::validate\<close> with every check in the order of the source. The TOML
  deserialiser is a parameter of \<open>config_parse\<close>. A \<open>Path\<close> is the list of its components, which
  is what the standard library compares and pops; strings are their UTF-8 bytes.

  The lemmas show that \<open>validate\<close> accepts exactly the configurations that satisfy the resource
  inequalities stated over unbounded numbers, and that \<open>parse_size\<close> computes the floor of the
  written decimal.
\<close>

section \<open>Data\<close>

datatype path_component = RootDir | CurDir | ParentDir | Normal bytes

type_synonym path = "path_component list"

record paths =
  packages :: path
  state_path :: path

record engine_config =
  worker_threads :: nat
  max_sessions :: nat
  max_flows :: nat
  max_pending_sessions :: nat
  max_pending_opens :: nat
  max_managed_bytes :: nat
  max_commands :: nat
  max_events :: nat
  max_io_chunk :: nat
  max_ingress_packets_per_tick :: nat
  connect_timeout_ms :: nat
  handshake_timeout_ms :: nat
  shutdown_timeout_ms :: nat

record stack_config =
  ipv4_enabled :: bool
  ipv6_enabled :: bool
  mtu :: nat
  tcp_socket_rx_bytes :: nat
  tcp_socket_tx_bytes :: nat
  udp_socket_rx_bytes :: nat
  udp_socket_tx_bytes :: nat
  udp_metadata_slots :: nat
  packet_queue_bytes :: nat
  max_udp_payload_bytes :: nat
  reassembly_slots :: nat
  reassembly_timeout_ms :: nat

record yamux_config =
  max_streams_per_session :: nat
  receive_window_bytes :: nat
  split_send_size :: nat
  read_after_close :: bool

datatype log_source = Toml | Env
datatype log_level = Warning | LevelError | Debug
datatype log_io_error = Event

record log_file_config =
  log_source_of :: log_source
  log_levels :: "log_level list option"
  log_file :: bytes
  log_limit :: bytes
  log_logs :: "bytes option"
  log_queue_bytes :: nat
  log_max_record_bytes :: nat
  log_flush_interval_ms :: nat
  log_on_io_error :: log_io_error

datatype logging_config = LoggingOff | LoggingFile log_file_config

datatype control_config = ControlOff | ControlUnix path nat nat

datatype role = Client | Server

record tunnel_config =
  tunnel_name :: bytes
  tunnel_role :: role
  tunnel_adapters :: "path list"
  tunnel_protection :: path
  tunnel_carrier :: path
  tunnel_policy :: path

record config =
  wire_version :: u32
  config_paths :: paths
  engine_of :: engine_config
  stack_of :: stack_config
  yamux_of :: yamux_config
  logging_of :: logging_config
  control_of :: control_config
  tunnels :: "tunnel_config list"

datatype config_error = TomlError | Invalid string | SizeError | Overflow

definition WIRE_VERSION :: u32 where "WIRE_VERSION = 1"
definition IPV6_HEADER_BYTES :: nat where "IPV6_HEADER_BYTES = 40"
definition MAX_IPV6_PACKET_BYTES :: nat where "MAX_IPV6_PACKET_BYTES = IPV6_HEADER_BYTES + 65535"

section \<open>Paths\<close>

definition path_is_absolute :: "path \<Rightarrow> bool" where
  "path_is_absolute p = (case p of RootDir # _ \<Rightarrow> True | _ \<Rightarrow> False)"

text \<open>\<open>PathBuf::pop\<close> leaves the empty path and a bare root alone.\<close>

definition path_pop :: "path \<Rightarrow> path" where
  "path_pop p = (if p = [] \<or> last p = RootDir then p else butlast p)"

fun resolve_components :: "path \<Rightarrow> path \<Rightarrow> path option" where
  "resolve_components output [] = Some output"
| "resolve_components output (CurDir # cs) = resolve_components output cs"
| "resolve_components output (ParentDir # cs) = resolve_components (path_pop output) cs"
| "resolve_components output (Normal part # cs) = resolve_components (output @ [Normal part]) cs"
| "resolve_components output (RootDir # cs) = None"

text \<open>\<^term>\<open>None\<close> is the \<open>unreachable!\<close> of the source.\<close>

definition resolve :: "path \<Rightarrow> path \<Rightarrow> path option" where
  "resolve base p = (if path_is_absolute p then Some p else resolve_components base p)"

text \<open>\<open>Path::components\<close> of a string, and the string of a path.\<close>

definition path_of_string :: "bytes \<Rightarrow> path" where
  "path_of_string s =
     (let pieces = split_on 47 s;
          absolute = (case s of c # _ \<Rightarrow> c = 47 | [] \<Rightarrow> False);
          comp = (\<lambda>p. if p = b_str ''..'' then ParentDir else Normal p);
          named = map comp (filter (\<lambda>p. p \<noteq> [] \<and> p \<noteq> b_str ''.'') pieces)
      in if absolute then RootDir # named
         else if hd pieces = b_str ''.'' then CurDir # named else named)"

fun string_of_component :: "path_component \<Rightarrow> bytes" where
  "string_of_component RootDir = []"
| "string_of_component CurDir = b_str ''.''"
| "string_of_component ParentDir = b_str ''..''"
| "string_of_component (Normal s) = s"

definition string_of_path :: "path \<Rightarrow> bytes" where
  "string_of_path p = (if p = [RootDir] then [47] else join_with 47 (map string_of_component p))"

text \<open>
  A component list of the standard library has a root only in front, so \<open>resolve\<close> never meets
  one inside a relative path and the default below is not reached (lemma \<open>resolve_components_Some\<close>).
\<close>

definition resolve_path :: "path \<Rightarrow> path \<Rightarrow> path" where
  "resolve_path base p = (case resolve base p of Some q \<Rightarrow> q | None \<Rightarrow> p)"

definition resolve_tunnel :: "path \<Rightarrow> tunnel_config \<Rightarrow> tunnel_config" where
  "resolve_tunnel base t =
     t\<lparr>tunnel_adapters := map (resolve_path base) (tunnel_adapters t),
       tunnel_protection := resolve_path base (tunnel_protection t),
       tunnel_carrier := resolve_path base (tunnel_carrier t),
       tunnel_policy := resolve_path base (tunnel_policy t)\<rparr>"

definition resolve_paths :: "path \<Rightarrow> config \<Rightarrow> config" where
  "resolve_paths base c =
     c\<lparr>config_paths := \<lparr>packages = resolve_path base (packages (config_paths c)),
                        state_path = resolve_path base (state_path (config_paths c))\<rparr>,
       logging_of := (case logging_of c of
           LoggingOff \<Rightarrow> LoggingOff
         | LoggingFile f \<Rightarrow>
             LoggingFile (if log_source_of f = Toml
               then f\<lparr>log_file := string_of_path (resolve_path base (path_of_string (log_file f)))\<rparr> else f)),
       control_of := (case control_of c of
           ControlOff \<Rightarrow> ControlOff
         | ControlUnix p r n \<Rightarrow> ControlUnix (resolve_path base p) r n),
       tunnels := map (resolve_tunnel base) (tunnels c)\<rparr>"

section \<open>Sizes\<close>

definition checked_mul_u64 :: "nat \<Rightarrow> nat \<Rightarrow> nat option" where
  "checked_mul_u64 a b = (if a * b \<le> u64_max then Some (a * b) else None)"

definition checked_add_u64 :: "nat \<Rightarrow> nat \<Rightarrow> nat option" where
  "checked_add_u64 a b = (if a + b \<le> u64_max then Some (a + b) else None)"

definition checked_pow_u64 :: "nat \<Rightarrow> nat \<Rightarrow> nat option" where
  "checked_pow_u64 b k = (if b ^ k \<le> u64_max then Some (b ^ k) else None)"

definition digits_value :: "bytes \<Rightarrow> nat" where
  "digits_value ds = foldl (\<lambda>acc d. acc * 10 + (unat d - 48)) 0 ds"

text \<open>\<open>parse::<u64>\<close> on a string of digits.\<close>

definition parse_u64_digits :: "bytes \<Rightarrow> nat option" where
  "parse_u64_digits ds = (if ds \<noteq> [] \<and> digits_value ds \<le> u64_max then Some (digits_value ds) else None)"

definition size_char :: "byte \<Rightarrow> bool" where
  "size_char b \<longleftrightarrow> is_ascii_digit b \<or> b = 46"

definition size_multiplier :: "bytes \<Rightarrow> nat option" where
  "size_multiplier u =
     (if u = b_str ''b'' then Some 1
      else if u = b_str ''kb'' then Some 1000
      else if u = b_str ''mb'' then Some 1000000
      else if u = b_str ''gb'' then Some 1000000000
      else if u = b_str ''kib'' then Some 1024
      else if u = b_str ''mib'' then Some 1048576
      else if u = b_str ''gib'' then Some 1073741824
      else None)"

definition parse_fraction :: "nat \<Rightarrow> nat \<Rightarrow> bytes \<Rightarrow> bytes list \<Rightarrow> config_error + nat" where
  "parse_fraction whole multiplier fraction others =
     (if fraction = [] \<or> others \<noteq> [] \<or> \<not> list_all is_ascii_digit fraction then Inl SizeError
      else if 2 ^ 32 \<le> length fraction then Inl Overflow
      else
        rbind (ok_or Overflow (checked_pow_u64 10 (length fraction))) (\<lambda>denominator.
        rbind (ok_or SizeError (parse_u64_digits fraction)) (\<lambda>numerator.
        rbind (ok_or Overflow (checked_mul_u64 numerator multiplier)) (\<lambda>product.
        ok_or Overflow (checked_add_u64 whole (product div denominator))))))"

definition parse_size :: "bytes \<Rightarrow> config_error + nat" where
  "parse_size input =
     (let number = takeWhile size_char input; unit = dropWhile size_char input in
      if unit = [] then Inl SizeError
      else
        rbind (ok_or SizeError (size_multiplier (map to_ascii_lowercase unit))) (\<lambda>multiplier.
        (case split_on 46 number of
           [] \<Rightarrow> Inl SizeError
         | integer # rest \<Rightarrow>
             if integer = [] \<or> \<not> list_all is_ascii_digit integer then Inl SizeError
             else
               rbind (ok_or SizeError (parse_u64_digits integer)) (\<lambda>value.
               rbind (ok_or Overflow (checked_mul_u64 value multiplier)) (\<lambda>whole.
               (case rest of
                  [] \<Rightarrow> Inr whole
                | fraction # others \<Rightarrow> parse_fraction whole multiplier fraction others))))))"

section \<open>Validation\<close>

definition ensure :: "bool \<Rightarrow> 'e \<Rightarrow> 'e + unit" where
  "ensure ok e = (if ok then Inr () else Inl e)"

definition capacities :: "config \<Rightarrow> nat list" where
  "capacities c =
     (let e = engine_of c; s = stack_of c; y = yamux_of c in
      [worker_threads e, max_sessions e, max_flows e, max_pending_sessions e, max_pending_opens e,
       max_managed_bytes e, max_commands e, max_events e, max_io_chunk e, max_ingress_packets_per_tick e,
       tcp_socket_rx_bytes s, tcp_socket_tx_bytes s, udp_socket_rx_bytes s, udp_socket_tx_bytes s,
       udp_metadata_slots s, packet_queue_bytes s, reassembly_slots s,
       max_streams_per_session y, receive_window_bytes y, split_send_size y])"

definition validate_logging :: "config \<Rightarrow> config_error + unit" where
  "validate_logging c =
     (case logging_of c of
        LoggingOff \<Rightarrow> Inr ()
      | LoggingFile f \<Rightarrow>
          if log_queue_bytes f = 0 \<or> log_max_record_bytes f = 0
             \<or> log_queue_bytes f < log_max_record_bytes f \<or> log_flush_interval_ms f = 0
          then Inl (Invalid ''logging limits must be nonzero'')
          else
            (case log_source_of f of
               Toml \<Rightarrow>
                 rbind (ok_or (Invalid ''TOML logging levels are required'') (log_levels f)) (\<lambda>levels.
                 if levels = [] then Inl (Invalid ''logging levels cannot be empty'')
                 else if \<not> distinct levels then Inl (Invalid ''logging levels must be unique'')
                 else rbind (parse_size (log_limit f)) (\<lambda>limit.
                   if limit < log_max_record_bytes f then Inl (Invalid ''log record exceeds log limit'')
                   else if log_file f = [] \<or> log_logs f \<noteq> None
                   then Inl (Invalid ''TOML logging fields are inconsistent'')
                   else Inr ()))
             | Env \<Rightarrow>
                 rbind (ok_or (Invalid ''environment LOGS name is required'') (log_logs f)) (\<lambda>logs.
                 if log_levels f \<noteq> None \<or> logs = [] \<or> log_file f = [] \<or> log_limit f = []
                 then Inl (Invalid ''environment logging fields are inconsistent'')
                 else Inr ())))"

fun validate_tunnels :: "bytes list \<Rightarrow> tunnel_config list \<Rightarrow> config_error + unit" where
  "validate_tunnels names [] = Inr ()"
| "validate_tunnels names (t # ts) =
     (if tunnel_name t = [] \<or> tunnel_name t \<in> set names
      then Inl (Invalid ''tunnel names must be nonempty and unique'')
      else if tunnel_adapters t = [] then Inl (Invalid ''a tunnel requires an adapter'')
      else validate_tunnels (tunnel_name t # names) ts)"

definition validate :: "config \<Rightarrow> config_error + unit" where
  "validate c =
     (let e = engine_of c; s = stack_of c; y = yamux_of c in
      rbind (ensure (wire_version c = WIRE_VERSION) (Invalid ''wire_version must be 1'')) (\<lambda>_.
      rbind (ensure (ipv4_enabled s \<or> ipv6_enabled s) (Invalid ''at least one IP version must be enabled'')) (\<lambda>_.
      rbind (ensure (1280 \<le> mtu s) (Invalid ''stack MTU must be at least 1280'')) (\<lambda>_.
      rbind (ensure (max_udp_payload_bytes s = MAX_UDP_PAYLOAD) (Invalid ''max UDP payload must be 65507'')) (\<lambda>_.
      rbind (ensure (reassembly_slots s = 4) (Invalid ''reassembly slots must be 4'')) (\<lambda>_.
      rbind (ensure (0 \<notin> set (capacities c)) (Invalid ''capacities must be nonzero'')) (\<lambda>_.
      rbind (ensure (worker_threads e \<le> 1 \<or> control_of c = ControlOff)
               (Invalid ''multiple workers require control mode off'')) (\<lambda>_.
      rbind (ensure (max_io_chunk e \<le> tcp_socket_rx_bytes s \<and> max_io_chunk e \<le> tcp_socket_tx_bytes s)
               (Invalid ''max_io_chunk exceeds a TCP socket buffer'')) (\<lambda>_.
      rbind (ensure (max_udp_payload_bytes s \<le> udp_socket_rx_bytes s
                 \<and> max_udp_payload_bytes s \<le> udp_socket_tx_bytes s)
               (Invalid ''UDP socket cannot hold a maximum datagram'')) (\<lambda>_.
      rbind (ensure (MAX_IPV6_PACKET_BYTES \<le> packet_queue_bytes s)
               (Invalid ''packet queue cannot hold a reassembled IPv6 packet'')) (\<lambda>_.
      rbind (ensure (2 \<le> max_streams_per_session y)
               (Invalid ''yamux needs one policy and one user stream'')) (\<lambda>_.
      rbind (ok_or Overflow (checked_mul (max_streams_per_session y) (256 * 1024))) (\<lambda>required_window.
      rbind (ensure (required_window \<le> receive_window_bytes y)
               (Invalid ''yamux receive window is too small'')) (\<lambda>_.
      rbind (ok_or Overflow (checked_mul (receive_window_bytes y) (max_sessions e))) (\<lambda>all_windows.
      rbind (ensure (all_windows \<le> max_managed_bytes e)
               (Invalid ''yamux windows exceed managed memory'')) (\<lambda>_.
      rbind (ok_or Overflow (checked_mul (max_sessions e) (max_streams_per_session y - 1))) (\<lambda>required_flows.
      rbind (ensure (required_flows \<le> max_flows e)
               (Invalid ''flow limit cannot serve configured yamux streams'')) (\<lambda>_.
      rbind (ensure (0 \<notin> set [connect_timeout_ms e, handshake_timeout_ms e, shutdown_timeout_ms e,
                  reassembly_timeout_ms s]) (Invalid ''timeouts must be nonzero'')) (\<lambda>_.
      rbind (validate_logging c) (\<lambda>_.
      rbind (ensure (case control_of c of
                 ControlOff \<Rightarrow> True
               | ControlUnix p r n \<Rightarrow> r \<noteq> 0 \<and> r \<le> 2 ^ 32 - 1 \<and> n \<noteq> 0)
               (Invalid ''control limits must be nonzero'')) (\<lambda>_.
      rbind (ensure (tunnels c \<noteq> []) (Invalid ''at least one tunnel is required'')) (\<lambda>_.
      validate_tunnels [] (tunnels c)))))))))))))))))))))))"

definition config_parse :: "(bytes \<Rightarrow> config option) \<Rightarrow> bytes \<Rightarrow> path \<Rightarrow> config_error + config" where
  "config_parse from_str input base =
     rbind (ok_or TomlError (from_str input)) (\<lambda>c.
     let c' = resolve_paths base c in rbind (validate c') (\<lambda>_. Inr c'))"

section \<open>What validation means\<close>

text \<open>The requirements of a configuration, over unbounded numbers.\<close>

definition logging_ok :: "logging_config \<Rightarrow> bool" where
  "logging_ok l \<longleftrightarrow> (case l of
     LoggingOff \<Rightarrow> True
   | LoggingFile f \<Rightarrow>
       0 < log_max_record_bytes f \<and> log_max_record_bytes f \<le> log_queue_bytes f \<and> 0 < log_flush_interval_ms f
       \<and> (case log_source_of f of
            Toml \<Rightarrow> (\<exists>levels. log_levels f = Some levels \<and> levels \<noteq> [] \<and> distinct levels)
              \<and> (\<exists>limit. parse_size (log_limit f) = Inr limit \<and> log_max_record_bytes f \<le> limit)
              \<and> log_file f \<noteq> [] \<and> log_logs f = None
          | Env \<Rightarrow> (\<exists>logs. log_logs f = Some logs \<and> logs \<noteq> []) \<and> log_levels f = None
              \<and> log_file f \<noteq> [] \<and> log_limit f \<noteq> []))"

definition tunnels_ok :: "tunnel_config list \<Rightarrow> bool" where
  "tunnels_ok ts \<longleftrightarrow> distinct (map tunnel_name ts)
     \<and> list_all (\<lambda>t. tunnel_name t \<noteq> [] \<and> tunnel_adapters t \<noteq> []) ts"

definition config_ok :: "config \<Rightarrow> bool" where
  "config_ok c \<longleftrightarrow>
     (let e = engine_of c; s = stack_of c; y = yamux_of c in
      wire_version c = 1 \<and> (ipv4_enabled s \<or> ipv6_enabled s) \<and> 1280 \<le> mtu s
      \<and> max_udp_payload_bytes s = 65507 \<and> reassembly_slots s = 4
      \<and> list_all (\<lambda>n. 0 < n) (capacities c)
      \<and> (1 < worker_threads e \<longrightarrow> control_of c = ControlOff)
      \<and> max_io_chunk e \<le> min (tcp_socket_rx_bytes s) (tcp_socket_tx_bytes s)
      \<and> 65507 \<le> min (udp_socket_rx_bytes s) (udp_socket_tx_bytes s)
      \<and> 65575 \<le> packet_queue_bytes s
      \<and> 2 \<le> max_streams_per_session y
      \<and> 262144 * max_streams_per_session y \<le> receive_window_bytes y
      \<and> receive_window_bytes y * max_sessions e \<le> max_managed_bytes e
      \<and> max_sessions e * (max_streams_per_session y - 1) \<le> max_flows e
      \<and> 0 < connect_timeout_ms e \<and> 0 < handshake_timeout_ms e \<and> 0 < shutdown_timeout_ms e
      \<and> 0 < reassembly_timeout_ms s
      \<and> logging_ok (logging_of c)
      \<and> (\<forall>p r n. control_of c = ControlUnix p r n \<longrightarrow> 0 < r \<and> r < 2 ^ 32 \<and> 0 < n)
      \<and> tunnels c \<noteq> [] \<and> tunnels_ok (tunnels c))"

text \<open>The template \<open>snolc-server-low-memory.toml\<close>, deserialised and resolved.\<close>

definition low_memory_template :: config where
  "low_memory_template =
     \<lparr>wire_version = 1,
      config_paths = \<lparr>packages = [RootDir, Normal (b_str ''etc''), Normal (b_str ''packages'')],
                      state_path = [RootDir, Normal (b_str ''etc''), Normal (b_str ''state'')]\<rparr>,
      engine_of = \<lparr>worker_threads = 1, max_sessions = 2, max_flows = 32, max_pending_sessions = 2,
        max_pending_opens = 8, max_managed_bytes = 33554432, max_commands = 64, max_events = 256,
        max_io_chunk = 16384, max_ingress_packets_per_tick = 32, connect_timeout_ms = 15000,
        handshake_timeout_ms = 15000, shutdown_timeout_ms = 5000\<rparr>,
      stack_of = \<lparr>ipv4_enabled = True, ipv6_enabled = True, mtu = 1280, tcp_socket_rx_bytes = 16384,
        tcp_socket_tx_bytes = 16384, udp_socket_rx_bytes = 131072, udp_socket_tx_bytes = 131072,
        udp_metadata_slots = 8, packet_queue_bytes = 262144, max_udp_payload_bytes = 65507,
        reassembly_slots = 4, reassembly_timeout_ms = 15000\<rparr>,
      yamux_of = \<lparr>max_streams_per_session = 17, receive_window_bytes = 4456448,
        split_send_size = 16384, read_after_close = True\<rparr>,
      logging_of = LoggingFile \<lparr>log_source_of = Toml, log_levels = Some [Warning, LevelError, Debug],
        log_file = b_str ''/etc/state/snolc.log'', log_limit = b_str ''8mb'', log_logs = None,
        log_queue_bytes = 65536, log_max_record_bytes = 2048, log_flush_interval_ms = 1000,
        log_on_io_error = Event\<rparr>,
      control_of = ControlUnix [RootDir, Normal (b_str ''etc''), Normal (b_str ''state''),
        Normal (b_str ''snolc.sock'')] 65536 4,
      tunnels = [\<lparr>tunnel_name = b_str ''main'', tunnel_role = Server,
        tunnel_adapters = [[Normal (b_str ''direct.toml'')]],
        tunnel_protection = [Normal (b_str ''noise.toml'')],
        tunnel_carrier = [Normal (b_str ''tcp.toml'')],
        tunnel_policy = [Normal (b_str ''policy.toml'')]\<rparr>]\<rparr>"

section \<open>Lemmas\<close>

lemma ensure_Inr_iff [simp]: "ensure b e = Inr u \<longleftrightarrow> b"
  by (simp add: ensure_def)

lemma rbind_unit_Inr_iff: "rbind m f = Inr u \<longleftrightarrow> m = Inr () \<and> f () = Inr u"
  by (auto simp: rbind_Inr_iff)

lemma validate_tunnels_iff:
  "validate_tunnels names ts = Inr () \<longleftrightarrow>
     tunnels_ok ts \<and> set (map tunnel_name ts) \<inter> set names = {}"
  by (induction names ts rule: validate_tunnels.induct) (auto simp: tunnels_ok_def)

lemma validate_logging_iff: "validate_logging c = Inr () \<longleftrightarrow> logging_ok (logging_of c)"
proof (cases "logging_of c")
  case LoggingOff
  then show ?thesis by (simp add: validate_logging_def logging_ok_def)
next
  case (LoggingFile f)
  have pos: "n \<noteq> 0 \<longleftrightarrow> 0 < n" for n :: nat by simp
  have q: "0 < log_max_record_bytes f \<Longrightarrow> log_max_record_bytes f \<le> log_queue_bytes f \<Longrightarrow> 0 < log_queue_bytes f"
    by simp
  show ?thesis
  proof (cases "log_source_of f")
    case Toml
    with LoggingFile q show ?thesis
      by (cases "log_levels f"; cases "parse_size (log_limit f)")
        (simp_all only: validate_logging_def logging_ok_def logging_config.case log_source.case guard_Inr_iff
          ok_or_simps rbind_simps sum.simps option.simps de_Morgan_disj not_less pos not_not
          not_True_eq_False not_False_eq_True simp_thms ex_simps, blast+)
  next
    case Env
    with LoggingFile q show ?thesis
      by (cases "log_logs f")
        (simp_all only: validate_logging_def logging_ok_def logging_config.case log_source.case guard_Inr_iff
          ok_or_simps rbind_simps sum.simps option.simps de_Morgan_disj not_less pos not_not
          not_True_eq_False not_False_eq_True simp_thms ex_simps, blast+)
  qed
qed

lemma resolve_components_Some:
  assumes "RootDir \<notin> set p" and "set base \<subseteq> insert RootDir (range Normal)"
  shows "\<exists>q. resolve_components base p = Some q \<and> set q \<subseteq> insert RootDir (range Normal)
           \<and> (path_is_absolute base \<longrightarrow> path_is_absolute q)"
  using assms
proof (induction base p rule: resolve_components.induct)
  case (3 out cs)
  have sub: "set (path_pop out) \<subseteq> insert RootDir (range Normal)"
    using "3.prems"(2) by (auto simp: path_pop_def dest: in_set_butlastD)
  have "path_is_absolute out \<longrightarrow> path_is_absolute (path_pop out)"
    by (cases out) (auto simp: path_is_absolute_def path_pop_def split: path_component.splits)
  with "3.IH" sub "3.prems" show ?case by auto
next
  case (4 out part cs)
  have "path_is_absolute out \<longrightarrow> path_is_absolute (out @ [Normal part])"
    by (auto simp: path_is_absolute_def split: list.splits path_component.splits)
  with 4 show ?case by auto
qed auto

lemma digits_value_append:
  "digits_value (xs @ ys) = digits_value xs * 10 ^ length ys + digits_value ys"
proof (induction ys rule: rev_induct)
  case Nil
  then show ?case by (simp add: digits_value_def)
next
  case (snoc y ys)
  have "digits_value (xs @ ys @ [y]) = digits_value (xs @ ys) * 10 + (unat y - 48)" for xs
    by (simp add: digits_value_def)
  from this [of xs] this [of "[]"] snoc show ?case by (simp add: algebra_simps)
qed

lemma size_unit_char:
  assumes "size_multiplier (map to_ascii_lowercase u) = Some m"
  shows "\<exists>a r. u = a # r \<and> \<not> size_char a"
proof -
  have "\<exists>a r. u = a # r \<and> to_ascii_lowercase a \<in> {98, 103, 107, 109}"
    using assms by (auto simp: size_multiplier_def b_str_def Cons_eq_map_conv map_eq_Cons_conv split: if_splits)
  moreover have "size_char a \<Longrightarrow> to_ascii_lowercase a \<notin> {98, 103, 107, 109}" for a
    by (auto simp: size_char_def is_ascii_digit_def in_range_def to_ascii_lowercase_def)
  ultimately show ?thesis by blast
qed

lemma digit_not_dot: "list_all is_ascii_digit ds \<Longrightarrow> 46 \<notin> set ds"
  by (auto simp: list_all_iff is_ascii_digit_def in_range_def)

lemma digits_size_char: "list_all is_ascii_digit ds \<Longrightarrow> x \<in> set ds \<Longrightarrow> size_char x"
  by (auto simp: list_all_iff size_char_def)

lemma span_size:
  assumes "list_all is_ascii_digit i" and "list_all is_ascii_digit f" and "u = a # r" and "\<not> size_char a"
  shows "takeWhile size_char (i @ 46 # f @ u) = i @ 46 # f" and "dropWhile size_char (i @ 46 # f @ u) = u"
proof -
  have all: "\<And>x. x \<in> set (i @ 46 # f) \<Longrightarrow> size_char x"
    using assms(1,2) by (auto dest: digits_size_char simp: size_char_def)
  have e: "i @ 46 # f @ u = (i @ 46 # f) @ u" by simp
  show "takeWhile size_char (i @ 46 # f @ u) = i @ 46 # f"
    unfolding e by (subst takeWhile_append2) (use all assms(3,4) in auto)
  show "dropWhile size_char (i @ 46 # f @ u) = u"
    unfolding e by (subst dropWhile_append2) (use all assms(3,4) in auto)
qed

lemma floor_decimal:
  fixes a b m d :: nat
  assumes "0 < d"
  shows "a * m + b * m div d = ((a * d + b) * m) div d"
proof -
  have "(a * d + b) * m = b * m + a * m * d" by (simp add: algebra_simps)
  then show ?thesis using assms by simp
qed

section \<open>Properties\<close>

text \<open>
  C31: Validation accepts exactly the configurations that meet every requirement stated over
  unbounded numbers: no multiplication that leaves \<open>usize\<close> hides a violation. In particular the
  receive windows of all sessions fit the managed memory, every window holds 256 KiB for each
  stream, and the flow table can serve every user stream of every session. The premises are the
  range of the three \<open>usize\<close> fields the products are compared with.
\<close>

theorem validate_iff_requirements:
  assumes "receive_window_bytes (yamux_of c) \<le> usize_max" and "max_managed_bytes (engine_of c) \<le> usize_max"
    and "max_flows (engine_of c) \<le> usize_max"
  shows "validate c = Inr () \<longleftrightarrow> config_ok c"
proof -
  have ctl: "(case control_of c of ControlOff \<Rightarrow> True | ControlUnix p r n \<Rightarrow> r \<noteq> 0 \<and> r \<le> 2 ^ 32 - 1 \<and> n \<noteq> 0)
     \<longleftrightarrow> (\<forall>p r n. control_of c = ControlUnix p r n \<longrightarrow> 0 < r \<and> r < 2 ^ 32 \<and> 0 < n)"
    by (cases "control_of c") auto
  have caps: "0 \<notin> set (capacities c) \<longleftrightarrow> list_all (\<lambda>n. 0 < n) (capacities c)"
    by (auto simp: list_all_iff intro!: gr0I)
  have mul: "rbind (ok_or Overflow (checked_mul a b)) (\<lambda>x. rbind (ensure (x \<le> l) e) g) = Inr () \<longleftrightarrow>
      a * b \<le> l \<and> g () = Inr ()" if "l \<le> usize_max" for a b l e g
    using that by (auto simp: result_simps)
  have wk: "(worker_threads e \<le> 1 \<or> control_of c = ControlOff)
      \<longleftrightarrow> (1 < worker_threads e \<longrightarrow> control_of c = ControlOff)" for e :: engine_config by auto
  have nums: "(256 :: nat) * 1024 = 262144" "(40 :: nat) + 65535 = 65575" by simp_all
  show ?thesis
    unfolding validate_def config_ok_def Let_def rbind_unit_Inr_iff ensure_Inr_iff
      mul [OF assms(1)] mul [OF assms(2)] mul [OF assms(3)] validate_logging_iff validate_tunnels_iff
      ctl caps wk WIRE_VERSION_def MAX_UDP_PAYLOAD_def MAX_IPV6_PACKET_BYTES_def IPV6_HEADER_BYTES_def nums
    by (cases "max_udp_payload_bytes (stack_of c) = 65507") (simp_all add: mult.commute conj_ac)
qed

theorem validate_iff_requirements_witness:
  "validate low_memory_template = Inr () \<longleftrightarrow> config_ok low_memory_template"
  by (rule validate_iff_requirements) (simp_all add: low_memory_template_def usize_max_def)

text \<open>
  A size written as digits, a point, digits and a unit is the exact decimal value times the
  unit, rounded down, whenever the intermediate products fit 64 bits.
\<close>

theorem parse_size_is_floor:
  assumes "i \<noteq> []" and "f \<noteq> []" and "list_all is_ascii_digit i" and "list_all is_ascii_digit f"
    and "size_multiplier (map to_ascii_lowercase u) = Some m"
    and "digits_value i \<le> u64_max" and "10 ^ length f \<le> u64_max" and "digits_value f \<le> u64_max"
    and "digits_value f * m \<le> u64_max" and "digits_value i * m + digits_value f * m div 10 ^ length f \<le> u64_max"
  shows "parse_size (i @ 46 # f @ u) = Inr (digits_value (i @ f) * m div 10 ^ length f)"
proof -
  obtain a r where u: "u = a # r" "\<not> size_char a" using size_unit_char [OF assms(5)] by blast
  note span = span_size [OF assms(3,4) u]
  have parts: "split_on 46 (i @ 46 # f) = [i, f]"
    using digit_not_dot [OF assms(3)] digit_not_dot [OF assms(4)]
    by (simp add: split_on_append split_on_single)
  have "length f < 2 ^ 32"
  proof (rule ccontr)
    assume "\<not> length f < 2 ^ 32"
    then have "(10 :: nat) ^ 20 \<le> 10 ^ length f" by (intro power_increasing) simp_all
    with assms(7) show False by (simp add: u64_max_def)
  qed
  with assms span parts u have "parse_size (i @ 46 # f @ u) =
      Inr (digits_value i * m + digits_value f * m div 10 ^ length f)"
    by (simp add: parse_size_def parse_fraction_def parse_u64_digits_def checked_mul_u64_def
        checked_add_u64_def checked_pow_u64_def Let_def)
  then show ?thesis by (simp add: digits_value_append floor_decimal)
qed

theorem parse_size_is_floor_witness: "parse_size (b_str ''1.1kib'') = Inr 1126"
proof -
  have s: "b_str ''1.1kib'' = b_str ''1'' @ 46 # b_str ''1'' @ b_str ''kib''" by (simp add: b_str_def)
  have "parse_size (b_str ''1'' @ 46 # b_str ''1'' @ b_str ''kib'') =
      Inr (digits_value (b_str ''1'' @ b_str ''1'') * 1024 div 10 ^ length (b_str ''1''))"
    by (rule parse_size_is_floor) (code_simp+)
  moreover have "digits_value (b_str ''1'' @ b_str ''1'') * 1024 div 10 ^ length (b_str ''1'') = 1126" by code_simp
  ultimately show ?thesis by (simp only: s)
qed

text \<open>
  Resolving a relative path against an absolute directory without dot components gives an
  absolute path without dot components, and an absolute path is kept as it is; the
  \<open>unreachable!\<close> of \<open>resolve\<close> is not reached.
\<close>

theorem resolve_normalises:
  assumes "path_is_absolute base" and "set base \<subseteq> insert RootDir (range Normal)" and "RootDir \<notin> set (tl p)"
  shows "\<exists>q. resolve base p = Some q \<and> path_is_absolute q
           \<and> (if path_is_absolute p then q = p else CurDir \<notin> set q \<and> ParentDir \<notin> set q)"
proof (cases "path_is_absolute p")
  case True
  then show ?thesis by (simp add: resolve_def)
next
  case False
  with assms(3) have "RootDir \<notin> set p"
    by (cases p) (auto simp: path_is_absolute_def split: path_component.splits)
  from resolve_components_Some [OF this assms(2)] False assms(1) show ?thesis
    by (auto simp: resolve_def)
qed

theorem resolve_normalises_witness:
  "\<exists>q. resolve [RootDir, Normal (b_str ''etc'')] [ParentDir, CurDir, Normal (b_str ''run'')] = Some q
     \<and> path_is_absolute q"
proof -
  have "path_is_absolute [RootDir, Normal (b_str ''etc'')]" by (simp add: path_is_absolute_def)
  moreover have "set [RootDir, Normal (b_str ''etc'')] \<subseteq> insert RootDir (range Normal)" by simp
  moreover have "RootDir \<notin> set (tl [ParentDir, CurDir, Normal (b_str ''run'')])" by simp
  ultimately show ?thesis using resolve_normalises by blast
qed

end
