(* ===== verification/Reassembly.thy ===== *)
theory Reassembly
  imports Config
begin

text \<open>
  IPv6 reassembly of the virtual stack (\<open>stack.rs\<close>: \<open>Ipv6Reassembly\<close>, \<open>Ipv6ReassemblySlot\<close> and
  \<open>ipv6_fragment\<close>). The header accessors belong to smoltcp and are the parameter \<open>W\<close>; what is
  relied on is \<open>wire_view_ok\<close>. A slice or index out of range panics, which is \<^term>\<open>None\<close>.

  The lemmas show that no packet whatever makes the reassembly panic, that its slots keep their
  shape, and that the fragments of one packet, in any order, give the packet back.
\<close>

section \<open>Header accessors\<close>

type_synonym ipv6_addr = bytes

record wire_view =
  v6_new_checked :: "bytes \<Rightarrow> bool"
  v6_payload :: "bytes \<Rightarrow> bytes"
  v6_src_addr :: "bytes \<Rightarrow> ipv6_addr"
  v6_dst_addr :: "bytes \<Rightarrow> ipv6_addr"
  frag_new_checked :: "bytes \<Rightarrow> bool"
  frag_ident :: "bytes \<Rightarrow> u32"
  frag_offset :: "bytes \<Rightarrow> u16"
  frag_more :: "bytes \<Rightarrow> bool"

text \<open>A checked packet holds its header and its payload, whose length is a 16-bit field.\<close>

definition wire_view_ok :: "wire_view \<Rightarrow> bool" where
  "wire_view_ok W \<longleftrightarrow> (\<forall>p. v6_new_checked W p \<longrightarrow>
     IPV6_HEADER_BYTES + length (v6_payload W p) \<le> length p \<and> length (v6_payload W p) \<le> 65535)"

section \<open>Data\<close>

definition IPV6_FRAGMENT_HEADER_BYTES :: nat where "IPV6_FRAGMENT_HEADER_BYTES = 8"
definition REASSEMBLY_BLOCK_BYTES :: nat where "REASSEMBLY_BLOCK_BYTES = 8"
definition REASSEMBLY_BLOCKS :: nat where "REASSEMBLY_BLOCKS = 65535 div REASSEMBLY_BLOCK_BYTES + 1"

record fragment_key =
  key_source :: ipv6_addr
  key_destination :: ipv6_addr
  key_identifier :: u32

record reassembly_slot =
  slot_key :: "fragment_key option"
  slot_packet :: bytes
  slot_received :: "bool list"
  slot_prefix_len :: nat
  slot_previous_next_header :: nat
  slot_fragment_next_header :: byte
  slot_total :: "nat option"
  slot_expires :: nat

record reassembly =
  slots_of :: "reassembly_slot list"
  timeout_ms :: nat

datatype reassembly_outcome = Packet bytes | Buffered | PendingRoom | Dropped

record fragment =
  frag_key :: fragment_key
  frag_prefix_len :: nat
  frag_previous_next_header :: nat
  frag_next_header :: byte
  frag_start :: nat
  frag_more_follow :: bool
  frag_payload :: bytes

section \<open>Parsing the fragment header\<close>

definition ip_version :: "bytes \<Rightarrow> byte option" where
  "ip_version p = (case p of [] \<Rightarrow> None | b # _ \<Rightarrow> Some (drop_bit 4 b))"

text \<open>
  The fragment header at \<open>offset\<close>. \<open>Inl ()\<close> is the error of the source.
\<close>

definition fragment_header :: "wire_view \<Rightarrow> bytes \<Rightarrow> bytes \<Rightarrow> nat \<Rightarrow> nat \<Rightarrow> unit + fragment option" where
  "fragment_header W original packet previous offset =
     rbind (ok_or () (checked_add offset IPV6_FRAGMENT_HEADER_BYTES)) (\<lambda>e.
     rbind (ok_or () (slice_get packet offset e)) (\<lambda>hdr.
     if hdr ! 1 \<noteq> 0 \<or> and (u16_from_be [hdr ! 2, hdr ! 3]) 6 \<noteq> 0 then Inl ()
     else if \<not> frag_new_checked W (drop 2 hdr) then Inl ()
     else Inr (Some
       \<lparr>frag_key = \<lparr>key_source = v6_src_addr W original, key_destination = v6_dst_addr W original,
                    key_identifier = frag_ident W (drop 2 hdr)\<rparr>,
        frag_prefix_len = offset,
        frag_previous_next_header = previous,
        frag_next_header = hdr ! 0,
        frag_start = unat (frag_offset W (drop 2 hdr)) * REASSEMBLY_BLOCK_BYTES,
        frag_more_follow = frag_more W (drop 2 hdr),
        frag_payload = drop e packet\<rparr>)))"

text \<open>The length of the extension header at \<open>offset\<close>, and its own next header.\<close>

definition extension_header :: "bytes \<Rightarrow> byte \<Rightarrow> nat \<Rightarrow> unit + (byte \<times> nat)" where
  "extension_header packet next_header offset =
     rbind (ok_or () (slice_get packet offset (offset + 2))) (\<lambda>hdr.
     rbind (ok_or () (if next_header = 51 then checked_mul (unat (hdr ! 1) + 2) 4
                      else checked_mul (unat (hdr ! 1) + 1) 8)) (\<lambda>len.
     (case checked_add offset len of
        None \<Rightarrow> Inl ()
      | Some e \<Rightarrow> if length packet < e then Inl () else Inr (hdr ! 0, len))))"

lemma extension_header_progress:
  assumes "extension_header packet nh offset = Inr (n, len)"
  shows "0 < len \<and> offset + len \<le> length packet"
  using assms
  by (auto simp: extension_header_def rbind_Inr_iff ok_or_Inr_iff slice_get_Some_iff split: if_splits option.splits)

function fragment_loop :: "wire_view \<Rightarrow> bytes \<Rightarrow> bytes \<Rightarrow> byte \<Rightarrow> nat \<Rightarrow> nat \<Rightarrow> unit + fragment option" where
  "fragment_loop W original packet next_header previous offset =
     (if next_header = 44 then fragment_header W original packet previous offset
      else if next_header \<in> {0, 43, 60, 51} then
        (case extension_header packet next_header offset of
           Inl e \<Rightarrow> Inl e
         | Inr (n, len) \<Rightarrow> fragment_loop W original packet n offset (offset + len))
      else Inr None)"
  by pat_completeness auto
termination
  by (relation "measure (\<lambda>(W, orig, packet, nh, prev, offset). length packet - offset)")
    (auto dest!: extension_header_progress)

declare fragment_loop.simps [simp del]

definition ipv6_fragment :: "wire_view \<Rightarrow> bytes \<Rightarrow> (unit + fragment option) option" where
  "ipv6_fragment W packet =
     (if ip_version packet \<noteq> Some 6 then Some (Inr None)
      else if \<not> v6_new_checked W packet then Some (Inl ())
      else
        (case checked_add IPV6_HEADER_BYTES (length (v6_payload W packet)) of
           None \<Rightarrow> Some (Inl ())
         | Some packet_len \<Rightarrow>
             (case slice_get packet 0 packet_len of
                None \<Rightarrow> None
              | Some p \<Rightarrow>
                  if length p \<le> 6 then None
                  else Some (fragment_loop W packet p (p ! 6) 6 IPV6_HEADER_BYTES))))"

section \<open>Slots\<close>

definition slot_new :: reassembly_slot where
  "slot_new = \<lparr>slot_key = None, slot_packet = replicate MAX_IPV6_PACKET_BYTES 0,
     slot_received = replicate REASSEMBLY_BLOCKS False, slot_prefix_len = 0,
     slot_previous_next_header = 0, slot_fragment_next_header = 0, slot_total = None, slot_expires = 0\<rparr>"

definition slot_clear :: "reassembly_slot \<Rightarrow> reassembly_slot" where
  "slot_clear s = s\<lparr>slot_key := None, slot_received := map (\<lambda>_. False) (slot_received s), slot_total := None\<rparr>"

text \<open>The result is \<^term>\<open>None\<close> when the range leaves the vector.\<close>

definition is_complete :: "reassembly_slot \<Rightarrow> bool option" where
  "is_complete s = (case slot_total s of
     None \<Rightarrow> Some False
   | Some tot \<Rightarrow> map_option (list_all id) (slice_get (slot_received s) 0 (div_ceil tot REASSEMBLY_BLOCK_BYTES)))"

definition patch_headers :: "bytes \<Rightarrow> nat \<Rightarrow> nat \<Rightarrow> byte \<Rightarrow> bytes" where
  "patch_headers p payload_len previous nh = (splice p 4 (to_be 2 payload_len))[previous := nh]"

definition take_packet :: "reassembly_slot \<Rightarrow> nat \<Rightarrow> (reassembly_slot \<times> bytes option) option" where
  "take_packet s available =
     (case is_complete s of
        None \<Rightarrow> None
      | Some False \<Rightarrow> Some (s, None)
      | Some True \<Rightarrow>
          (case slot_total s of
             None \<Rightarrow> Some (s, None)
           | Some tot \<Rightarrow>
               (case checked_add (slot_prefix_len s) tot of
                  None \<Rightarrow> Some (s, None)
                | Some packet_len \<Rightarrow>
                    if available < packet_len then Some (s, None)
                    else if packet_len < IPV6_HEADER_BYTES then Some (s, None)
                    else if 65535 < packet_len - IPV6_HEADER_BYTES then Some (s, None)
                    else if length (slot_packet s) < 6
                      \<or> length (slot_packet s) \<le> slot_previous_next_header s
                      \<or> length (slot_packet s) < packet_len then None
                    else
                      (let p = patch_headers (slot_packet s) (packet_len - IPV6_HEADER_BYTES)
                                 (slot_previous_next_header s) (slot_fragment_next_header s);
                           s' = s\<lparr>slot_packet := p\<rparr>
                       in Some (slot_clear s', Some (take packet_len p))))))"

definition outcome_of :: "bytes option \<Rightarrow> reassembly_outcome" where
  "outcome_of p = (case p of None \<Rightarrow> PendingRoom | Some q \<Rightarrow> Packet q)"

text \<open>Claiming a free slot, or comparing the fragment with the slot that has its key.\<close>

definition slot_admit :: "reassembly_slot \<Rightarrow> fragment \<Rightarrow> bytes \<Rightarrow> nat \<Rightarrow> (reassembly_slot \<times> bool) option" where
  "slot_admit s f packet expires =
     (if length (slot_packet s) < frag_prefix_len f \<or> length packet < frag_prefix_len f then None
      else if slot_key s = None then
        Some (s\<lparr>slot_key := Some (frag_key f), slot_prefix_len := frag_prefix_len f,
                slot_previous_next_header := frag_previous_next_header f,
                slot_fragment_next_header := frag_next_header f,
                slot_expires := expires,
                slot_packet := splice (slot_packet s) 0 (take (frag_prefix_len f) packet)\<rparr>, True)
      else if frag_prefix_len f < 6 then None
      else if slot_prefix_len s \<noteq> frag_prefix_len f
           \<or> slot_previous_next_header s \<noteq> frag_previous_next_header f
           \<or> slot_fragment_next_header s \<noteq> frag_next_header f
           \<or> take 4 (slot_packet s) \<noteq> take 4 packet
           \<or> slice (slot_packet s) 6 (frag_prefix_len f) \<noteq> slice packet 6 (frag_prefix_len f)
      then Some (slot_clear s, False)
      else Some (s, True))"

text \<open>Storing the payload of an admitted fragment that ends at \<open>e\<close>.\<close>

definition store_rejects :: "reassembly_slot \<Rightarrow> fragment \<Rightarrow> nat \<Rightarrow> bool" where
  "store_rejects s f e \<longleftrightarrow>
     e = 0 \<or> checked_add (slot_prefix_len s) e = None
     \<or> MAX_IPV6_PACKET_BYTES < slot_prefix_len s + e
     \<or> frag_more_follow f \<and> length (frag_payload f) mod REASSEMBLY_BLOCK_BYTES \<noteq> 0
     \<or> (case slot_total s of None \<Rightarrow> False
         | Some tot \<Rightarrow> tot < e \<or> frag_more_follow f \<and> e = tot)"

definition slot_write :: "reassembly_slot \<Rightarrow> fragment \<Rightarrow> nat \<Rightarrow> nat \<Rightarrow> reassembly_slot" where
  "slot_write s f first_block last_block =
     s\<lparr>slot_packet := splice (slot_packet s) (slot_prefix_len s + frag_start f) (frag_payload f),
       slot_received := splice (slot_received s) first_block (replicate (last_block - first_block) True)\<rparr>"

definition slot_commit :: "reassembly_slot \<Rightarrow> fragment \<Rightarrow> nat \<Rightarrow> nat \<Rightarrow> (reassembly_slot \<times> reassembly_outcome) option" where
  "slot_commit s f e available =
     (if \<not> frag_more_follow f \<and> slot_total s \<noteq> None \<and> slot_total s \<noteq> Some e
      then Some (slot_clear s, Dropped)
      else
        (let s' = (if frag_more_follow f then s else s\<lparr>slot_total := Some e\<rparr>) in
         case is_complete s' of
           None \<Rightarrow> None
         | Some True \<Rightarrow> map_option (\<lambda>(s'', p). (s'', outcome_of p)) (take_packet s' available)
         | Some False \<Rightarrow> Some (s', Buffered)))"

definition slot_store :: "reassembly_slot \<Rightarrow> fragment \<Rightarrow> nat \<Rightarrow> (reassembly_slot \<times> reassembly_outcome) option" where
  "slot_store s f available =
     (case checked_add (frag_start f) (length (frag_payload f)) of
        None \<Rightarrow> Some (slot_clear s, Dropped)
      | Some e \<Rightarrow>
          if store_rejects s f e then Some (slot_clear s, Dropped)
          else
            (let first_block = frag_start f div REASSEMBLY_BLOCK_BYTES;
                 last_block = div_ceil e REASSEMBLY_BLOCK_BYTES in
             case slice_get (slot_received s) first_block last_block of
               None \<Rightarrow> None
             | Some blocks \<Rightarrow>
                 if list_ex id blocks then Some (slot_clear s, Dropped)
                 else if length (slot_packet s) < slot_prefix_len s + frag_start f + length (frag_payload f) then None
                 else slot_commit (slot_write s f first_block last_block) f e available))"

definition slot_ingest ::
    "reassembly_slot \<Rightarrow> fragment \<Rightarrow> bytes \<Rightarrow> nat \<Rightarrow> nat \<Rightarrow> (reassembly_slot \<times> reassembly_outcome) option" where
  "slot_ingest s f packet expires available =
     (case slot_admit s f packet expires of
        None \<Rightarrow> None
      | Some (s', False) \<Rightarrow> Some (s', Dropped)
      | Some (s', True) \<Rightarrow> slot_store s' f available)"

section \<open>The table of slots\<close>

definition reassembly_new :: "nat \<Rightarrow> nat \<Rightarrow> reassembly" where
  "reassembly_new n timeout = \<lparr>slots_of = replicate n slot_new, timeout_ms = timeout\<rparr>"

definition reassembly_managed_bytes :: "nat \<Rightarrow> nat option" where
  "reassembly_managed_bytes n =
     Option.bind (checked_add MAX_IPV6_PACKET_BYTES REASSEMBLY_BLOCKS) (\<lambda>b. checked_mul b n)"

definition expire_slot :: "nat \<Rightarrow> reassembly_slot \<Rightarrow> reassembly_slot" where
  "expire_slot now s = (if slot_key s \<noteq> None \<and> slot_expires s \<le> now then slot_clear s else s)"

text \<open>The index of the first element that satisfies a predicate.\<close>

fun position :: "('a \<Rightarrow> bool) \<Rightarrow> 'a list \<Rightarrow> nat option" where
  "position P [] = None"
| "position P (x # xs) = (if P x then Some 0 else map_option Suc (position P xs))"

definition complete_for :: "fragment_key \<Rightarrow> reassembly_slot \<Rightarrow> bool" where
  "complete_for k s \<longleftrightarrow> slot_key s = Some k \<and> is_complete s = Some True"

text \<open>
  The source evaluates \<open>is_complete\<close> up to the first complete slot; the model panics when any
  slot of the key would.
\<close>

definition complete_panics :: "fragment_key \<Rightarrow> reassembly_slot \<Rightarrow> bool" where
  "complete_panics k s \<longleftrightarrow> slot_key s = Some k \<and> is_complete s = None"

definition saturating_add_u64 :: "nat \<Rightarrow> nat \<Rightarrow> nat" where
  "saturating_add_u64 a b = min (a + b) u64_max"

definition choose_slot :: "fragment_key \<Rightarrow> reassembly_slot list \<Rightarrow> nat option" where
  "choose_slot k slots =
     (case position (\<lambda>s. slot_key s = Some k) slots of
        Some i \<Rightarrow> Some i
      | None \<Rightarrow> position (\<lambda>s. slot_key s = None) slots)"

definition ingest_fragment ::
    "reassembly \<Rightarrow> fragment \<Rightarrow> bytes \<Rightarrow> nat \<Rightarrow> nat \<Rightarrow> (reassembly \<times> reassembly_outcome) option" where
  "ingest_fragment r f packet now available =
     (let slots = map (expire_slot now) (slots_of r); r = r\<lparr>slots_of := slots\<rparr> in
      if list_ex (complete_panics (frag_key f)) slots then None
      else
        (case position (complete_for (frag_key f)) slots of
           Some i \<Rightarrow>
             map_option (\<lambda>(s, p). (r\<lparr>slots_of := slots[i := s]\<rparr>, outcome_of p)) (take_packet (slots ! i) available)
         | None \<Rightarrow>
             (case choose_slot (frag_key f) slots of
                None \<Rightarrow> Some (r, Dropped)
              | Some i \<Rightarrow>
                  map_option (\<lambda>(s, out). (r\<lparr>slots_of := slots[i := s]\<rparr>, out))
                    (slot_ingest (slots ! i) f packet (saturating_add_u64 now (timeout_ms r)) available))))"

definition reassembly_ingest ::
    "wire_view \<Rightarrow> reassembly \<Rightarrow> bytes \<Rightarrow> nat \<Rightarrow> nat \<Rightarrow> (reassembly \<times> reassembly_outcome) option" where
  "reassembly_ingest W r packet now available =
     (case ipv6_fragment W packet of
        None \<Rightarrow> None
      | Some (Inl _) \<Rightarrow> Some (r, Dropped)
      | Some (Inr None) \<Rightarrow> Some (r, Packet packet)
      | Some (Inr (Some f)) \<Rightarrow> ingest_fragment r f packet now available)"

section \<open>Invariants\<close>

definition frag_ok :: "fragment \<Rightarrow> bytes \<Rightarrow> bool" where
  "frag_ok f packet \<longleftrightarrow> IPV6_HEADER_BYTES \<le> frag_prefix_len f \<and> frag_prefix_len f \<le> length packet
     \<and> frag_prefix_len f \<le> MAX_IPV6_PACKET_BYTES
     \<and> frag_previous_next_header f < frag_prefix_len f \<and> 8 dvd frag_start f"

definition slot_wf :: "reassembly_slot \<Rightarrow> bool" where
  "slot_wf s \<longleftrightarrow> length (slot_packet s) = MAX_IPV6_PACKET_BYTES \<and> length (slot_received s) = REASSEMBLY_BLOCKS
     \<and> (slot_key s \<noteq> None \<longrightarrow> IPV6_HEADER_BYTES \<le> slot_prefix_len s \<and> slot_prefix_len s \<le> MAX_IPV6_PACKET_BYTES
          \<and> slot_previous_next_header s < slot_prefix_len s)
     \<and> (slot_key s = None \<longrightarrow> slot_total s = None \<and> slot_received s = replicate REASSEMBLY_BLOCKS False)
     \<and> (\<forall>t. slot_total s = Some t \<longrightarrow> 0 < t \<and> slot_prefix_len s + t \<le> MAX_IPV6_PACKET_BYTES)"

definition reassembly_wf :: "reassembly \<Rightarrow> bool" where
  "reassembly_wf r \<longleftrightarrow> list_all slot_wf (slots_of r)"

text \<open>
  A fragment is a piece of a fragmentable part \<open>orig\<close>; \<open>blocks_of\<close> are the 8-byte blocks it
  covers and \<open>slot_holds\<close> says that a slot has collected exactly the blocks \<open>B\<close> of \<open>orig\<close> for the
  header \<open>hdr\<close>, in which the payload length (bytes 4 and 5) is not compared.
\<close>

definition piece_of :: "bytes \<Rightarrow> fragment \<Rightarrow> bool" where
  "piece_of orig f \<longleftrightarrow> frag_payload f \<noteq> [] \<and> 8 dvd frag_start f
     \<and> frag_start f + length (frag_payload f) \<le> length orig
     \<and> frag_payload f = slice orig (frag_start f) (frag_start f + length (frag_payload f))
     \<and> (frag_more_follow f \<longleftrightarrow> frag_start f + length (frag_payload f) < length orig)
     \<and> (frag_more_follow f \<longrightarrow> 8 dvd length (frag_payload f))"

definition blocks_of :: "fragment \<Rightarrow> nat set" where
  "blocks_of f = {frag_start f div 8 ..< div_ceil (frag_start f + length (frag_payload f)) 8}"

definition all_blocks :: "bytes \<Rightarrow> nat set" where
  "all_blocks orig = {..< div_ceil (length orig) 8}"

definition same_prefix :: "bytes \<Rightarrow> bytes \<Rightarrow> bool" where
  "same_prefix hdr p \<longleftrightarrow> take 4 p = take 4 hdr \<and> slice p 6 (length hdr) = slice hdr 6 (length hdr)"

definition slot_holds :: "bytes \<Rightarrow> bytes \<Rightarrow> fragment_key \<Rightarrow> nat \<Rightarrow> byte \<Rightarrow> nat \<Rightarrow> reassembly_slot \<Rightarrow> nat set \<Rightarrow> bool" where
  "slot_holds orig hdr k prev nh expires s B \<longleftrightarrow>
     slot_wf s \<and> slot_key s = Some k \<and> slot_expires s = expires \<and> slot_prefix_len s = length hdr
     \<and> slot_previous_next_header s = prev \<and> slot_fragment_next_header s = nh
     \<and> same_prefix hdr (slot_packet s)
     \<and> (\<forall>b < REASSEMBLY_BLOCKS. slot_received s ! b \<longleftrightarrow> b \<in> B) \<and> B \<subseteq> all_blocks orig
     \<and> (\<forall>i < length orig. i div 8 \<in> B \<longrightarrow> slot_packet s ! (length hdr + i) = orig ! i)
     \<and> slot_total s = (if (length orig - 1) div 8 \<in> B then Some (length orig) else None)"

definition whole_packet :: "bytes \<Rightarrow> bytes \<Rightarrow> nat \<Rightarrow> byte \<Rightarrow> bytes" where
  "whole_packet hdr orig prev nh =
     patch_headers (hdr @ orig) (length hdr + length orig - IPV6_HEADER_BYTES) prev nh"

text \<open>A slot that is free, or that has collected \<open>B\<close>.\<close>

definition slot_ready :: "bytes \<Rightarrow> bytes \<Rightarrow> fragment_key \<Rightarrow> nat \<Rightarrow> byte \<Rightarrow> nat \<Rightarrow> reassembly_slot \<Rightarrow> nat set \<Rightarrow> bool" where
  "slot_ready orig hdr k prev nh expires s B \<longleftrightarrow>
     (slot_wf s \<and> slot_key s = None \<and> B = {}) \<or> slot_holds orig hdr k prev nh expires s B"

text \<open>
  The table while the pieces of one packet arrive: at most one slot has the key, and it, or a
  free slot when nothing has arrived, is the one chosen.
\<close>

definition table_holds :: "bytes \<Rightarrow> bytes \<Rightarrow> fragment_key \<Rightarrow> nat \<Rightarrow> byte \<Rightarrow> nat \<Rightarrow> reassembly \<Rightarrow> nat set \<Rightarrow> bool" where
  "table_holds orig hdr k prev nh expires r B \<longleftrightarrow> list_all slot_wf (slots_of r) \<and>
     (\<exists>i < length (slots_of r). slot_holds orig hdr k prev nh expires (slots_of r ! i) B
        \<and> (\<forall>j < length (slots_of r). j \<noteq> i \<longrightarrow> slot_key (slots_of r ! j) \<noteq> Some k))"

text \<open>A fragment of \<open>orig\<close> that belongs to the header \<open>hdr\<close> and arrives as \<open>packet\<close>.\<close>

definition arrives :: "bytes \<Rightarrow> bytes \<Rightarrow> fragment_key \<Rightarrow> nat \<Rightarrow> byte \<Rightarrow> fragment \<Rightarrow> bytes \<Rightarrow> bool" where
  "arrives orig hdr k prev nh f packet \<longleftrightarrow>
     piece_of orig f \<and> frag_ok f packet \<and> frag_key f = k \<and> frag_prefix_len f = length hdr
     \<and> frag_previous_next_header f = prev \<and> frag_next_header f = nh \<and> same_prefix hdr packet"

text \<open>Feeding a sequence of packets with their arrival times.\<close>

fun feed :: "wire_view \<Rightarrow> reassembly \<Rightarrow> (bytes \<times> nat) list \<Rightarrow> nat \<Rightarrow> (reassembly \<times> reassembly_outcome list) option" where
  "feed W r [] available = Some (r, [])"
| "feed W r ((packet, now) # rest) available =
     (case reassembly_ingest W r packet now available of
        None \<Rightarrow> None
      | Some (r', out) \<Rightarrow> map_option (\<lambda>(r'', outs). (r'', out # outs)) (feed W r' rest available))"

text \<open>The layout of RFC 8200, an instance of the accessors for the witnesses.\<close>

definition rfc_view :: wire_view where
  "rfc_view = \<lparr>
     v6_new_checked = (\<lambda>p. 40 \<le> length p \<and> 40 + from_be (slice p 4 6) \<le> length p),
     v6_payload = (\<lambda>p. slice p 40 (40 + from_be (slice p 4 6))),
     v6_src_addr = (\<lambda>p. slice p 8 24),
     v6_dst_addr = (\<lambda>p. slice p 24 40),
     frag_new_checked = (\<lambda>h. 6 \<le> length h),
     frag_ident = (\<lambda>h. u32_from_be (slice h 2 6)),
     frag_offset = (\<lambda>h. drop_bit 3 (u16_from_be (slice h 0 2))),
     frag_more = (\<lambda>h. and (u16_from_be (slice h 0 2)) 1 = 1)\<rparr>"

definition demo_header :: "nat \<Rightarrow> bytes" where
  "demo_header n = [96, 0, 0, 0] @ to_be 2 n @ [44, 64] @ replicate 31 0 @ [1]"

definition demo_key :: fragment_key where
  "demo_key = \<lparr>key_source = replicate 16 0, key_destination = replicate 15 0 @ [1], key_identifier = 9\<rparr>"

definition demo_fragment :: "nat \<Rightarrow> bool \<Rightarrow> bytes \<Rightarrow> fragment" where
  "demo_fragment start more_follow payload = \<lparr>frag_key = demo_key, frag_prefix_len = 40,
     frag_previous_next_header = 6, frag_next_header = 17, frag_start = start,
     frag_more_follow = more_follow, frag_payload = payload\<rparr>"

definition demo_first :: bytes where
  "demo_first = demo_header 16 @ [17, 0, 0, 1, 0, 0, 0, 9] @ [1, 2, 3, 4, 5, 6, 7, 8]"

definition demo_second :: bytes where
  "demo_second = demo_header 11 @ [17, 0, 0, 8, 0, 0, 0, 9] @ [9, 10, 11]"

lemmas ipv6_consts = MAX_IPV6_PACKET_BYTES_def IPV6_HEADER_BYTES_def IPV6_FRAGMENT_HEADER_BYTES_def
  REASSEMBLY_BLOCK_BYTES_def REASSEMBLY_BLOCKS_def

lemma div_ceil_8_le: "e \<le> 8 * n \<Longrightarrow> div_ceil e 8 \<le> n"
  using div_ceil_bounds(2) [of 8 e] by simp

lemma div_8_le_div_ceil: "a \<le> b \<Longrightarrow> a div 8 \<le> div_ceil b 8"
  using div_le_mono [of a b 8] by (auto simp: div_ceil_def)

lemma slot_new_wf: "slot_wf slot_new"
  by (simp add: slot_wf_def slot_new_def)

lemma slot_clear_wf: "slot_wf s \<Longrightarrow> slot_wf (slot_clear s)"
  by (simp add: slot_wf_def slot_clear_def map_replicate_const)

lemma fragment_header_ok:
  assumes "fragment_header W original packet previous offset = Inr (Some f)"
    and "IPV6_HEADER_BYTES \<le> offset" and "previous < offset"
  shows "IPV6_HEADER_BYTES \<le> frag_prefix_len f \<and> frag_prefix_len f \<le> length packet
     \<and> frag_previous_next_header f < frag_prefix_len f \<and> 8 dvd frag_start f"
  using assms
  by (auto simp: fragment_header_def rbind_Inr_iff ok_or_Inr_iff slice_get_Some_iff REASSEMBLY_BLOCK_BYTES_def
      split: if_splits)

lemma fragment_loop_ok:
  assumes "fragment_loop W original packet nh previous offset = Inr (Some f)"
    and "IPV6_HEADER_BYTES \<le> offset" and "previous < offset"
  shows "IPV6_HEADER_BYTES \<le> frag_prefix_len f \<and> frag_prefix_len f \<le> length packet
     \<and> frag_previous_next_header f < frag_prefix_len f \<and> 8 dvd frag_start f"
  using assms
proof (induction W original packet nh previous offset rule: fragment_loop.induct)
  case (1 W original packet nh previous offset)
  show ?case
  proof (cases "nh = 44")
    case True
    with "1.prems" show ?thesis
      by (subst (asm) fragment_loop.simps) (simp add: fragment_header_ok)
  next
    case False
    with "1.prems"(1) obtain n len where
      c: "nh \<in> {0, 43, 60, 51}" "extension_header packet nh offset = Inr (n, len)"
      "fragment_loop W original packet n offset (offset + len) = Inr (Some f)"
      by (subst (asm) fragment_loop.simps) (auto split: if_splits sum.splits)
    with extension_header_progress [OF c(2)] "1.prems"(2) show ?thesis
      by (intro "1.IH" [OF False c(1) c(2) refl c(3)]) auto
  qed
qed

lemma ipv6_fragment_ok:
  assumes "wire_view_ok W"
  shows "\<exists>x. ipv6_fragment W packet = Some x"
    and "ipv6_fragment W packet = Some (Inr (Some f)) \<Longrightarrow> frag_ok f packet"
proof -
  have b: "v6_new_checked W packet \<Longrightarrow> 40 + length (v6_payload W packet) \<le> length packet \<and> length (v6_payload W packet) \<le> 65535"
    using assms by (simp add: wire_view_ok_def IPV6_HEADER_BYTES_def)
  show "\<exists>x. ipv6_fragment W packet = Some x"
    using b by (auto simp: ipv6_fragment_def IPV6_HEADER_BYTES_def slice_get_def split: option.splits)
  assume e: "ipv6_fragment W packet = Some (Inr (Some f))"
  then obtain p nh where p: "length p \<le> length packet" "length p \<le> 65575"
    "fragment_loop W packet p nh 6 IPV6_HEADER_BYTES = Inr (Some f)"
    using b that [of "take (40 + length (v6_payload W packet)) packet"]
    by (auto simp: ipv6_fragment_def slice_get_def IPV6_HEADER_BYTES_def split: if_splits option.splits)
  from fragment_loop_ok [OF p(3)] p(1,2) show "frag_ok f packet"
    by (simp add: frag_ok_def ipv6_consts)
qed

lemma is_complete_total:
  assumes "slot_wf s" and "slot_key s \<noteq> None"
  shows "\<exists>b. is_complete s = Some b"
proof (cases "slot_total s")
  case None
  then show ?thesis by (auto simp: is_complete_def)
next
  case (Some t)
  with assms have "t \<le> 8 * 8192" by (auto simp: slot_wf_def ipv6_consts)
  then have "div_ceil t 8 \<le> 8192" by (rule div_ceil_8_le)
  with Some assms(1) show ?thesis
    by (simp add: is_complete_def slice_get_def slot_wf_def ipv6_consts)
qed

lemma take_packet_total:
  assumes "slot_wf s" and "slot_key s \<noteq> None"
  shows "\<exists>s' p. take_packet s available = Some (s', p) \<and> slot_wf s' \<and> (p = None \<longrightarrow> s' = s)
    \<and> (\<forall>q. p = Some q \<longrightarrow> length q \<le> available \<and> length q \<le> MAX_IPV6_PACKET_BYTES)"
proof -
  obtain b where b: "is_complete s = Some b" using is_complete_total [OF assms] by blast
  have len: "length (slot_packet s) = 65575" "slot_previous_next_header s < 65575"
    using assms by (auto simp: slot_wf_def ipv6_consts)
  have wf: "slot_wf (slot_clear (s\<lparr>slot_packet := patch_headers (slot_packet s) n (slot_previous_next_header s) h\<rparr>))" for n h
    using assms len by (intro slot_clear_wf) (auto simp: slot_wf_def patch_headers_def)
  show ?thesis
  proof (cases "slot_total s")
    case None
    with b assms show ?thesis by (auto simp: take_packet_def split: bool.splits)
  next
    case (Some t)
    then have t: "slot_prefix_len s + t \<le> 65575" "40 \<le> slot_prefix_len s"
      using assms by (auto simp: slot_wf_def ipv6_consts)
    then have "checked_add (slot_prefix_len s) t = Some (slot_prefix_len s + t)"
      by (simp add: usize_max_def)
    with b assms len Some t wf show ?thesis
      by (auto simp: take_packet_def ipv6_consts Let_def split: bool.splits)
  qed
qed

lemma slot_admit_total:
  assumes "slot_wf s" and "frag_ok f packet"
  shows "\<exists>s' b. slot_admit s f packet expires = Some (s', b) \<and> slot_wf s'
    \<and> (b \<longrightarrow> slot_key s' \<noteq> None \<and> slot_prefix_len s' = frag_prefix_len f)"
proof -
  have "frag_prefix_len f \<le> length (slot_packet s)" "6 \<le> frag_prefix_len f"
    using assms by (auto simp: slot_wf_def frag_ok_def ipv6_consts)
  with assms show ?thesis
    by (auto simp: slot_admit_def slot_clear_wf) (auto simp: slot_wf_def frag_ok_def)
qed

lemma slot_commit_total:
  assumes "slot_wf s" and "slot_key s \<noteq> None" and "0 < e" and "slot_prefix_len s + e \<le> MAX_IPV6_PACKET_BYTES"
  shows "\<exists>s' out. slot_commit s f e available = Some (s', out) \<and> slot_wf s'
    \<and> (\<forall>q. out = Packet q \<longrightarrow> length q \<le> available \<and> length q \<le> MAX_IPV6_PACKET_BYTES)"
proof -
  define s2 where "s2 = (if frag_more_follow f then s else s\<lparr>slot_total := Some e\<rparr>)"
  have wf2: "slot_wf s2" and k2: "slot_key s2 \<noteq> None"
    using assms by (auto simp: slot_wf_def s2_def)
  obtain b where b: "is_complete s2 = Some b" using is_complete_total [OF wf2 k2] by blast
  obtain s3 p where t: "take_packet s2 available = Some (s3, p)" "slot_wf s3"
    "\<forall>q. p = Some q \<longrightarrow> length q \<le> available \<and> length q \<le> MAX_IPV6_PACKET_BYTES"
    using take_packet_total [OF wf2 k2] by blast
  show ?thesis using b t wf2 assms(1)
    by (auto simp: slot_commit_def s2_def [symmetric] Let_def slot_clear_wf outcome_of_def
        split: bool.splits option.splits)
qed

lemma store_accepted:
  assumes "slot_wf s" and "slot_key s \<noteq> None" and "e = frag_start f + length (frag_payload f)" and "\<not> store_rejects s f e"
  shows "0 < e \<and> e \<le> 65535 \<and> slot_prefix_len s + e \<le> MAX_IPV6_PACKET_BYTES
    \<and> frag_start f div 8 \<le> div_ceil e 8 \<and> div_ceil e 8 \<le> REASSEMBLY_BLOCKS"
proof -
  have e: "0 < e" "e \<le> 65535" "slot_prefix_len s + e \<le> MAX_IPV6_PACKET_BYTES"
    using assms(1,2,4) by (auto simp: store_rejects_def slot_wf_def ipv6_consts)
  moreover have "frag_start f div 8 \<le> div_ceil e 8" by (rule div_8_le_div_ceil) (simp add: assms(3))
  moreover have "div_ceil e 8 \<le> 8192" by (rule div_ceil_8_le) (use e in simp)
  ultimately show ?thesis by (simp add: ipv6_consts)
qed

lemma slot_write_wf:
  assumes "slot_wf s" and "slot_key s \<noteq> None" and "a \<le> b" and "b \<le> REASSEMBLY_BLOCKS"
    and "slot_prefix_len s + frag_start f + length (frag_payload f) \<le> MAX_IPV6_PACKET_BYTES"
  shows "slot_wf (slot_write s f a b) \<and> slot_key (slot_write s f a b) = slot_key s
    \<and> slot_prefix_len (slot_write s f a b) = slot_prefix_len s"
  using assms by (auto simp: slot_wf_def slot_write_def)

lemma slot_store_total:
  assumes "slot_wf s" and "slot_key s \<noteq> None"
  shows "\<exists>s' out. slot_store s f available = Some (s', out) \<and> slot_wf s'
    \<and> (\<forall>q. out = Packet q \<longrightarrow> length q \<le> available \<and> length q \<le> MAX_IPV6_PACKET_BYTES)"
proof (cases "slot_store s f available = Some (slot_clear s, Dropped)")
  case True
  with assms(1) show ?thesis by (auto simp: slot_clear_wf)
next
  case False
  define e where "e = frag_start f + length (frag_payload f)"
  have nr: "\<not> store_rejects s f e" and small: "e \<le> usize_max" using False
    by (auto simp: slot_store_def e_def split: if_splits option.splits)
  note acc = store_accepted [OF assms e_def nr]
  let ?s1 = "slot_write s f (frag_start f div 8) (div_ceil e 8)"
  have w: "slot_wf ?s1 \<and> slot_key ?s1 = slot_key s \<and> slot_prefix_len ?s1 = slot_prefix_len s"
    by (rule slot_write_wf) (use assms acc in \<open>auto simp: e_def\<close>)
  have blocks: "slice_get (slot_received s) (frag_start f div 8) (div_ceil e 8) \<noteq> None"
    using acc assms(1) by (simp add: slice_get_def slot_wf_def)
  have "slot_store s f available = slot_commit ?s1 f e available"
    using False nr small acc blocks assms(1)
    by (auto simp: slot_store_def REASSEMBLY_BLOCK_BYTES_def e_def slot_wf_def Let_def split: if_splits option.splits)
  with slot_commit_total [of ?s1 e f available] w acc assms(2) show ?thesis by simp
qed

lemma slot_ingest_total:
  assumes "slot_wf s" and "frag_ok f packet"
  shows "\<exists>s' out. slot_ingest s f packet expires available = Some (s', out) \<and> slot_wf s'
    \<and> (\<forall>q. out = Packet q \<longrightarrow> length q \<le> available \<and> length q \<le> MAX_IPV6_PACKET_BYTES)"
proof -
  obtain s1 b where a: "slot_admit s f packet expires = Some (s1, b)" "slot_wf s1"
    "b \<longrightarrow> slot_key s1 \<noteq> None \<and> slot_prefix_len s1 = frag_prefix_len f"
    using slot_admit_total [OF assms] by blast
  with slot_store_total [of s1 f available] show ?thesis
    by (cases b) (auto simp: slot_ingest_def)
qed

lemma position_Some: "position P xs = Some i \<Longrightarrow> i < length xs \<and> P (xs ! i)"
  by (induction xs arbitrary: i) (auto split: if_splits)

lemma position_None_iff: "position P xs = None \<longleftrightarrow> list_all (\<lambda>x. \<not> P x) xs"
  by (induction xs) auto

lemma expire_slot_wf: "slot_wf s \<Longrightarrow> slot_wf (expire_slot now s)"
  by (simp add: expire_slot_def slot_clear_wf)

lemma reassembly_new_wf: "reassembly_wf (reassembly_new n t)"
  by (simp add: reassembly_wf_def reassembly_new_def slot_new_wf list_all_iff)

lemma reassembly_wf_update:
  assumes "list_all slot_wf slots" and "slot_wf s"
  shows "reassembly_wf (r\<lparr>slots_of := slots[i := s]\<rparr>)"
  using assms set_update_subset_insert [of slots i s] by (auto simp: reassembly_wf_def list_all_iff)

lemma choose_slot_less: "choose_slot k slots = Some i \<Longrightarrow> i < length slots"
  by (auto simp: choose_slot_def dest: position_Some split: option.splits)

lemma ingest_fragment_total:
  assumes "reassembly_wf r" and "frag_ok f packet"
  shows "\<exists>r' out. ingest_fragment r f packet now available = Some (r', out) \<and> reassembly_wf r'
    \<and> length (slots_of r') = length (slots_of r)
    \<and> (\<forall>q. out = Packet q \<longrightarrow> length q \<le> available \<and> length q \<le> MAX_IPV6_PACKET_BYTES)"
proof -
  define slots where "slots = map (expire_slot now) (slots_of r)"
  have wf: "list_all slot_wf slots" using assms(1)
    by (auto simp: slots_def reassembly_wf_def list_all_iff expire_slot_wf)
  have len: "length slots = length (slots_of r)" by (simp add: slots_def)
  have np: "\<not> list_ex (complete_panics (frag_key f)) slots"
    using wf is_complete_total by (fastforce simp: list_ex_iff list_all_iff complete_panics_def)
  show ?thesis
  proof (cases "position (complete_for (frag_key f)) slots")
    case (Some i)
    then have i: "i < length slots" "slot_key (slots ! i) \<noteq> None"
      by (auto dest!: position_Some simp: complete_for_def)
    then have "slot_wf (slots ! i)" using wf by (simp add: list_all_length)
    from take_packet_total [OF this i(2), of available] obtain s p
      where t: "take_packet (slots ! i) available = Some (s, p)" "slot_wf s"
        "\<forall>q. p = Some q \<longrightarrow> length q \<le> available \<and> length q \<le> MAX_IPV6_PACKET_BYTES" by blast
    have o: "outcome_of p = Packet q \<longleftrightarrow> p = Some q" for q by (cases p) (auto simp: outcome_of_def)
    from t Some np wf len show ?thesis
      by (simp add: ingest_fragment_def slots_def [symmetric] Let_def reassembly_wf_update o)
  next
    case None
    show ?thesis
    proof (cases "choose_slot (frag_key f) slots")
      case None
      with \<open>position (complete_for (frag_key f)) slots = None\<close> np wf len show ?thesis
        by (auto simp: ingest_fragment_def slots_def [symmetric] Let_def reassembly_wf_def)
    next
      case (Some i)
      then have "slot_wf (slots ! i)" using wf choose_slot_less by (fastforce simp: list_all_length)
      from slot_ingest_total [OF this assms(2), of "saturating_add_u64 now (timeout_ms r)" available]
        Some None np wf len show ?thesis
        by (auto simp: ingest_fragment_def slots_def [symmetric] Let_def reassembly_wf_update)
    qed
  qed
qed

section \<open>Collecting the pieces of a packet\<close>

lemma div_less_div_ceil_iff: "i div 8 < div_ceil e 8 \<longleftrightarrow> i < (if 8 dvd e then e else e + (8 - e mod 8))" for i e :: nat
proof -
  define q r where "q = e div 8" and "r = e mod 8"
  have e: "e = 8 * q + r" "r < 8" by (simp_all add: q_def r_def)
  then show ?thesis
    by (auto simp: div_ceil_def dvd_eq_mod_eq_0 div_less_iff_less_mult)
qed

lemma div_less_div_ceilI: "i < e \<Longrightarrow> i div 8 < div_ceil e 8" for i e :: nat
  by (auto simp: div_less_div_ceil_iff)

lemma piece_block_iff:
  assumes "piece_of orig f" and "i < length orig"
  shows "i div 8 \<in> blocks_of f \<longleftrightarrow> frag_start f \<le> i \<and> i < frag_start f + length (frag_payload f)"
proof -
  let ?e = "frag_start f + length (frag_payload f)"
  have st: "frag_start f div 8 \<le> i div 8 \<longleftrightarrow> frag_start f \<le> i"
    using assms(1) by (auto simp: piece_of_def dvd_def div_le_mono)
  have e: "8 dvd ?e \<or> ?e = length orig" using assms(1)
    by (auto simp: piece_of_def)
  have "i div 8 < div_ceil ?e 8 \<longleftrightarrow> i < ?e"
  proof (cases "8 dvd ?e")
    case True
    then show ?thesis by (simp add: div_less_div_ceil_iff)
  next
    case False
    with e have "?e = length orig" by simp
    with assms(2) show ?thesis using div_less_div_ceilI [of i ?e] by simp
  qed
  with st show ?thesis by (auto simp: blocks_of_def)
qed

lemma piece_last_block:
  assumes "piece_of orig f"
  shows "(length orig - 1) div 8 \<in> blocks_of f \<longleftrightarrow> \<not> frag_more_follow f"
proof -
  obtain n where n: "length (frag_payload f) = Suc n"
    using assms by (cases "frag_payload f") (auto simp: piece_of_def)
  have le: "frag_start f + Suc n \<le> length orig" and more: "frag_more_follow f \<longleftrightarrow> frag_start f + Suc n < length orig"
    using assms n by (auto simp: piece_of_def)
  have lt: "length orig - 1 < length orig" and st: "frag_start f \<le> length orig - 1" using le by auto
  have "length orig - 1 < frag_start f + Suc n \<longleftrightarrow> \<not> frag_more_follow f" using le more by auto
  with piece_block_iff [OF assms lt] st show ?thesis unfolding n by blast
qed

lemma piece_blocks_subset: "piece_of orig f \<Longrightarrow> blocks_of f \<subseteq> all_blocks orig"
proof -
  assume p: "piece_of orig f"
  let ?e = "frag_start f + length (frag_payload f)"
  have "8 dvd ?e \<or> ?e = length orig" "?e \<le> length orig" using p by (auto simp: piece_of_def)
  then have "div_ceil ?e 8 \<le> div_ceil (length orig) 8"
    by (auto simp: div_ceil_def dvd_eq_mod_eq_0 div_le_mono le_SucI)
  then show ?thesis by (auto simp: blocks_of_def all_blocks_def)
qed

lemma slot_write_holds:
  assumes "slot_holds orig hdr k prev nh expires s B" and "piece_of orig f" and "length hdr + length orig \<le> MAX_IPV6_PACKET_BYTES"
    and "blocks_of f \<inter> B = {}"
    and "e = frag_start f + length (frag_payload f)"
    and "s1 = slot_write s f (frag_start f div 8) (div_ceil e 8)"
  shows "slot_holds orig hdr k prev nh expires
     (if frag_more_follow f then s1 else s1\<lparr>slot_total := Some e\<rparr>) (B \<union> blocks_of f)"
proof -
  have h: "slot_wf s" "slot_key s = Some k" "slot_prefix_len s = length hdr" "same_prefix hdr (slot_packet s)"
    "\<And>b. b < REASSEMBLY_BLOCKS \<Longrightarrow> slot_received s ! b \<longleftrightarrow> b \<in> B"
    "\<And>i. i < length orig \<Longrightarrow> i div 8 \<in> B \<Longrightarrow> slot_packet s ! (length hdr + i) = orig ! i"
    using assms(1) by (auto simp: slot_holds_def)
  have e: "e \<le> length orig" "0 < e" "frag_start f < e" using assms(2,5) by (auto simp: piece_of_def)
  have pre: "40 \<le> length hdr" using h by (auto simp: slot_wf_def ipv6_consts)
  have ab: "frag_start f div 8 \<le> div_ceil e 8" "div_ceil e 8 \<le> REASSEMBLY_BLOCKS"
    using div_8_le_div_ceil [of "frag_start f" e] div_ceil_8_le [of e 8192] e pre assms(3)
    by (auto simp: ipv6_consts)
  have fit: "length hdr + frag_start f + length (frag_payload f) \<le> length (slot_packet s)"
    using h(1) e assms(3,5) by (simp add: slot_wf_def)
  have wf1: "slot_wf s1 \<and> slot_key s1 = slot_key s \<and> slot_prefix_len s1 = slot_prefix_len s"
    unfolding assms(6) by (rule slot_write_wf) (use h ab fit in \<open>auto simp: slot_wf_def\<close>)
  have rec: "slot_received s1 ! b \<longleftrightarrow> b \<in> B \<union> blocks_of f" if "b < REASSEMBLY_BLOCKS" for b
    using that h(1,5) ab by (auto simp: assms(5,6) slot_write_def nth_splice slot_wf_def blocks_of_def)
  have byte: "slot_packet s1 ! (length hdr + i) = orig ! i" if i: "i < length orig" "i div 8 \<in> B \<union> blocks_of f" for i
  proof -
    have in_iff: "i div 8 \<in> blocks_of f \<longleftrightarrow> frag_start f \<le> i \<and> i < frag_start f + length (frag_payload f)"
      by (rule piece_block_iff [OF assms(2) i(1)])
    have pl: "frag_payload f = slice orig (frag_start f) (frag_start f + length (frag_payload f))"
      using assms(2) by (simp add: piece_of_def)
    have nth: "frag_start f \<le> i \<Longrightarrow> i < frag_start f + length (frag_payload f) \<Longrightarrow> frag_payload f ! (i - frag_start f) = orig ! i"
      using i(1) by (subst pl) (simp add: slice_def)
    show ?thesis
    proof (cases "i div 8 \<in> blocks_of f")
      case True
      with in_iff nth fit i h(3) show ?thesis
        by (simp add: assms(6) slot_write_def nth_splice)
    next
      case False
      with in_iff i h(6) fit h(3) h(1) assms(3) show ?thesis
        by (auto simp: assms(6) slot_write_def nth_splice slot_wf_def)
    qed
  qed
  have px: "same_prefix hdr (slot_packet s1)"
  proof -
    have "take (length hdr) (slot_packet s1) = take (length hdr) (slot_packet s)"
      using fit by (simp add: assms(6) slot_write_def splice_def h(3) min_def)
    then have "take 4 (take (length hdr) (slot_packet s1)) = take 4 (take (length hdr) (slot_packet s))"
      "slice (take (length hdr) (slot_packet s1)) 6 (length hdr) = slice (take (length hdr) (slot_packet s)) 6 (length hdr)"
      by simp_all
    then have "take 4 (slot_packet s1) = take 4 (slot_packet s)"
      "slice (slot_packet s1) 6 (length hdr) = slice (slot_packet s) 6 (length hdr)"
      using pre by (simp_all add: min_def)
    with h(4) show ?thesis by (simp add: same_prefix_def)
  qed
  have last: "(length orig - 1) div 8 \<in> blocks_of f \<longleftrightarrow> \<not> frag_more_follow f"
    by (rule piece_last_block [OF assms(2)])
  have eT: "\<not> frag_more_follow f \<Longrightarrow> e = length orig" using assms(2,5) by (auto simp: piece_of_def)
  have rest: "slot_expires s1 = expires" "slot_previous_next_header s1 = prev" "slot_fragment_next_header s1 = nh"
    "slot_total s1 = (if (length orig - 1) div 8 \<in> B then Some (length orig) else None)"
    "B \<union> blocks_of f \<subseteq> all_blocks orig"
    using assms(1) piece_blocks_subset [OF assms(2)] by (auto simp: slot_holds_def assms(6) slot_write_def)
  have wf2: "slot_wf (s1\<lparr>slot_total := Some e\<rparr>)"
    using wf1 h e assms(3) by (auto simp: slot_wf_def)
  show ?thesis
    using wf1 wf2 rec byte px rest last eT h(2,3) by (auto simp: slot_holds_def)
qed

lemma holds_complete:
  assumes "slot_holds orig hdr k prev nh expires s B" and "orig \<noteq> []" and "length hdr + length orig \<le> MAX_IPV6_PACKET_BYTES"
  shows "is_complete s = Some (B = all_blocks orig)"
proof -
  have wf: "slot_wf s" and rec: "\<forall>b < REASSEMBLY_BLOCKS. slot_received s ! b \<longleftrightarrow> b \<in> B"
    and sub: "B \<subseteq> all_blocks orig" and pre: "slot_prefix_len s = length hdr" "slot_key s \<noteq> None"
    and tot: "slot_total s = (if (length orig - 1) div 8 \<in> B then Some (length orig) else None)"
    using assms(1) by (auto simp: slot_holds_def)
  have N: "div_ceil (length orig) 8 \<le> REASSEMBLY_BLOCKS"
    using div_ceil_8_le [of "length orig" 8192] wf pre assms(3) by (simp add: slot_wf_def ipv6_consts)
  have last: "(length orig - 1) div 8 \<in> all_blocks orig"
    using assms(2) div_less_div_ceilI [of "length orig - 1" "length orig"] by (simp add: all_blocks_def)
  show ?thesis
  proof (cases "(length orig - 1) div 8 \<in> B")
    case False
    with last have "B \<noteq> all_blocks orig" by blast
    with False tot show ?thesis by (simp add: is_complete_def)
  next
    case True
    have "list_all id (take (div_ceil (length orig) 8) (slot_received s)) \<longleftrightarrow> all_blocks orig \<subseteq> B"
      using N wf rec by (auto simp: list_all_length slot_wf_def all_blocks_def)
    with True tot N wf sub show ?thesis
      by (auto simp: is_complete_def slice_get_def REASSEMBLY_BLOCK_BYTES_def slot_wf_def)
  qed
qed

lemma holds_take_packet:
  assumes "slot_holds orig hdr k prev nh expires s (all_blocks orig)" and "orig \<noteq> []"
    and "length hdr + length orig \<le> MAX_IPV6_PACKET_BYTES" and "length hdr + length orig \<le> available"
  shows "\<exists>s'. take_packet s available = Some (s', Some (whole_packet hdr orig prev nh)) \<and> slot_key s' = None"
proof -
  let ?n = "length hdr + length orig"
  have wf: "slot_wf s" and pre: "slot_prefix_len s = length hdr" "slot_key s \<noteq> None" "slot_previous_next_header s = prev"
      "slot_fragment_next_header s = nh" and px: "same_prefix hdr (slot_packet s)"
    and bytes: "\<forall>i < length orig. i div 8 \<in> all_blocks orig \<longrightarrow> slot_packet s ! (length hdr + i) = orig ! i"
    and tot: "slot_total s = (if (length orig - 1) div 8 \<in> all_blocks orig then Some (length orig) else None)"
    using assms(1) by (auto simp: slot_holds_def)
  have all: "i < length orig \<Longrightarrow> i div 8 \<in> all_blocks orig" for i
    by (simp add: all_blocks_def div_less_div_ceilI)
  have t: "slot_total s = Some (length orig)" using tot all [of "length orig - 1"] assms(2) by simp
  have len: "length (slot_packet s) = 65575" "40 \<le> length hdr" "prev < length hdr" "?n \<le> 65575"
    using wf pre assms(3) by (auto simp: slot_wf_def ipv6_consts)
  have body: "take (length orig) (drop (length hdr) (slot_packet s)) = orig"
    using len bytes all by (intro nth_equalityI) auto
  have whole: "take ?n (patch_headers (slot_packet s) m prev nh) = patch_headers (hdr @ orig) m prev nh" for m
  proof -
    have "drop 6 (take ?n (slot_packet s)) = slice (slot_packet s) 6 (length hdr) @ orig"
    proof -
      have "drop 6 (take ?n (slot_packet s)) = slice (slot_packet s) 6 ?n" by (simp add: slice_def drop_take)
      also have "\<dots> = slice (slot_packet s) 6 (length hdr) @ slice (slot_packet s) (length hdr) ?n"
        by (rule slice_split) (use len in auto)
      also have "slice (slot_packet s) (length hdr) ?n = orig" using body by (simp add: slice_def)
      finally show ?thesis .
    qed
    moreover have "slice hdr 6 (length hdr) = drop 6 hdr" by (simp add: slice_def)
    ultimately have d6: "drop 6 (take ?n (slot_packet s)) = drop 6 (hdr @ orig)"
      using px len by (simp add: same_prefix_def)
    have t4: "take 4 (take ?n (slot_packet s)) = take 4 (hdr @ orig)"
      using px len by (simp add: same_prefix_def min_def)
    have "take ?n (patch_headers (slot_packet s) m prev nh) = patch_headers (take ?n (slot_packet s)) m prev nh"
      using len by (simp add: patch_headers_def splice_def take_update_swap drop_take min_def)
    also have "\<dots> = patch_headers (hdr @ orig) m prev nh"
      using d6 t4 by (simp add: patch_headers_def splice_def)
    finally show ?thesis .
  qed
  have cmp: "is_complete s = Some True" using holds_complete [OF assms(1-3)] by simp
  have "?n \<le> usize_max" using len by (simp add: usize_max_def)
  with cmp t len pre assms(4) whole show ?thesis
    by (simp add: take_packet_def Let_def whole_packet_def slot_clear_def ipv6_consts)
qed

lemma store_not_rejected:
  assumes "slot_holds orig hdr k prev nh expires s B" and "piece_of orig f"
    and "length hdr + length orig \<le> MAX_IPV6_PACKET_BYTES"
  shows "\<not> store_rejects s f (frag_start f + length (frag_payload f))"
proof -
  have "slot_prefix_len s = length hdr" "slot_total s \<in> {None, Some (length orig)}"
    using assms(1) by (auto simp: slot_holds_def)
  moreover have "frag_payload f \<noteq> []" "frag_start f + length (frag_payload f) \<le> length orig"
    "frag_more_follow f \<longleftrightarrow> frag_start f + length (frag_payload f) < length orig"
    "frag_more_follow f \<longrightarrow> length (frag_payload f) mod 8 = 0"
    using assms(2) by (auto simp: piece_of_def dvd_eq_mod_eq_0)
  moreover have "length hdr + (frag_start f + length (frag_payload f)) \<le> usize_max"
    using calculation assms(3) by (simp add: ipv6_consts usize_max_def)
  ultimately show ?thesis using assms(3)
    by (auto simp: store_rejects_def REASSEMBLY_BLOCK_BYTES_def)
qed

lemma slot_store_step:
  assumes "slot_holds orig hdr k prev nh expires s B" and "piece_of orig f" and "orig \<noteq> []"
    and "length hdr + length orig \<le> MAX_IPV6_PACKET_BYTES" and "length hdr + length orig \<le> available"
    and "blocks_of f \<inter> B = {}"
  shows "\<exists>s' out. slot_store s f available = Some (s', out)
    \<and> (if B \<union> blocks_of f = all_blocks orig
       then out = Packet (whole_packet hdr orig prev nh) \<and> slot_key s' = None
       else out = Buffered \<and> slot_holds orig hdr k prev nh expires s' (B \<union> blocks_of f))"
proof -
  define e where "e = frag_start f + length (frag_payload f)"
  define s1 where "s1 = slot_write s f (frag_start f div 8) (div_ceil e 8)"
  define s2 where "s2 = (if frag_more_follow f then s1 else s1\<lparr>slot_total := Some e\<rparr>)"
  have holds2: "slot_holds orig hdr k prev nh expires s2 (B \<union> blocks_of f)"
    unfolding s2_def by (rule slot_write_holds [OF assms(1,2,4,6) e_def s1_def])
  have nr: "\<not> store_rejects s f e" unfolding e_def by (rule store_not_rejected [OF assms(1,2,4)])
  have wf: "slot_wf s" "slot_key s \<noteq> None" "slot_prefix_len s = length hdr"
    and rec: "\<forall>b < REASSEMBLY_BLOCKS. slot_received s ! b \<longleftrightarrow> b \<in> B"
    and tot: "slot_total s \<in> {None, Some (length orig)}"
    using assms(1) by (auto simp: slot_holds_def)
  note acc = store_accepted [OF wf(1,2) e_def nr]
  have blocks: "slice_get (slot_received s) (frag_start f div 8) (div_ceil e 8)
      = Some (slice (slot_received s) (frag_start f div 8) (div_ceil e 8))"
    using acc wf by (simp add: slice_get_Some_iff slot_wf_def)
  have free: "\<not> list_ex id (slice (slot_received s) (frag_start f div 8) (div_ceil e 8))"
  proof
    assume "list_ex id (slice (slot_received s) (frag_start f div 8) (div_ceil e 8))"
    then obtain j where j: "j < div_ceil e 8 - frag_start f div 8" "slot_received s ! (frag_start f div 8 + j)"
      using wf acc by (auto simp: list_ex_length slice_def slot_wf_def)
    then have "frag_start f div 8 + j \<in> blocks_of f" by (simp add: blocks_of_def e_def)
    moreover have "frag_start f div 8 + j < REASSEMBLY_BLOCKS" using j acc by linarith
    then have "frag_start f div 8 + j \<in> B" using j rec by blast
    ultimately show False using assms(6) by blast
  qed
  have eT: "\<not> frag_more_follow f \<Longrightarrow> e = length orig" using assms(2) by (auto simp: piece_of_def e_def)
  have "slot_store s f available = slot_commit s1 f e available"
    using nr acc blocks free wf
    by (simp add: slot_store_def REASSEMBLY_BLOCK_BYTES_def e_def [symmetric] s1_def Let_def slot_wf_def usize_max_def)
      (simp add: e_def slot_wf_def)
  moreover have "\<not> (\<not> frag_more_follow f \<and> slot_total s1 \<noteq> None \<and> slot_total s1 \<noteq> Some e)"
    using tot eT by (auto simp: s1_def slot_write_def)
  moreover note holds_complete [OF holds2 assms(3,4)]
  moreover have "B \<union> blocks_of f = all_blocks orig \<Longrightarrow>
      \<exists>s'. take_packet s2 available = Some (s', Some (whole_packet hdr orig prev nh)) \<and> slot_key s' = None"
    using holds_take_packet [OF _ assms(3-5)] holds2 by simp
  ultimately show ?thesis using holds2
    by (auto simp: slot_commit_def s2_def [symmetric] Let_def outcome_of_def)
qed

lemma slot_ingest_step:
  assumes "slot_ready orig hdr k prev nh expires s B" and "arrives orig hdr k prev nh f packet" and "orig \<noteq> []"
    and "length hdr + length orig \<le> MAX_IPV6_PACKET_BYTES" and "length hdr + length orig \<le> available"
    and "blocks_of f \<inter> B = {}" and "slot_key s = None \<Longrightarrow> E = expires"
  shows "\<exists>s' out. slot_ingest s f packet E available = Some (s', out)
    \<and> (if B \<union> blocks_of f = all_blocks orig
       then out = Packet (whole_packet hdr orig prev nh) \<and> slot_key s' = None
       else out = Buffered \<and> slot_holds orig hdr k prev nh expires s' (B \<union> blocks_of f))"
proof -
  have f: "piece_of orig f" "frag_ok f packet" "frag_key f = k" "frag_prefix_len f = length hdr"
    "frag_previous_next_header f = prev" "frag_next_header f = nh" "same_prefix hdr packet"
    using assms(2) by (auto simp: arrives_def)
  have wf: "slot_wf s" using assms(1) by (auto simp: slot_ready_def slot_holds_def)
  have len: "length hdr \<le> length (slot_packet s)" "length hdr \<le> length packet" "40 \<le> length hdr" "prev < length hdr"
    using wf f by (auto simp: slot_wf_def frag_ok_def ipv6_consts)
  have "\<exists>s1. slot_admit s f packet E = Some (s1, True) \<and> slot_holds orig hdr k prev nh expires s1 B"
  proof (cases "slot_key s")
    case None
    with assms(1) have B: "B = {}" by (auto simp: slot_ready_def slot_holds_def)
    have px: "same_prefix hdr (splice (slot_packet s) 0 (take (length hdr) packet))"
      using f(7) len by (simp add: same_prefix_def splice_def slice_def min_def drop_take)
    from None B wf f len px assms(7) show ?thesis
      by (auto simp: slot_admit_def slot_holds_def slot_wf_def frag_ok_def)
  next
    case (Some k')
    with assms(1) have h: "slot_holds orig hdr k prev nh expires s B" by (auto simp: slot_ready_def)
    with f len Some show ?thesis by (auto simp: slot_admit_def slot_holds_def same_prefix_def)
  qed
  then obtain s1 where a: "slot_admit s f packet E = Some (s1, True)" "slot_holds orig hdr k prev nh expires s1 B"
    by blast
  from slot_store_step [OF a(2) f(1) assms(3-6)] a(1) show ?thesis by (simp add: slot_ingest_def)
qed

lemma position_unique:
  assumes "i < length xs" and "P (xs ! i)" and "\<And>j. j < length xs \<Longrightarrow> j \<noteq> i \<Longrightarrow> \<not> P (xs ! j)"
  shows "position P xs = Some i"
proof (cases "position P xs")
  case None
  with assms(1,2) show ?thesis by (simp add: position_None_iff list_all_length)
next
  case (Some j)
  with assms(3) position_Some [OF Some] show ?thesis by blast
qed

lemma expire_other: "slot_key s \<noteq> Some k \<Longrightarrow> slot_key (expire_slot now s) \<noteq> Some k"
  by (simp add: expire_slot_def slot_clear_def)

lemma ingest_first:
  assumes "reassembly_wf r" and "arrives orig hdr k prev nh f packet" and "orig \<noteq> []"
    and "length hdr + length orig \<le> MAX_IPV6_PACKET_BYTES" and "length hdr + length orig \<le> available"
    and "\<forall>s \<in> set (slots_of r). slot_key s \<noteq> Some k" and "\<exists>s \<in> set (slots_of r). slot_key s = None"
    and "expires = saturating_add_u64 now (timeout_ms r)"
  shows "\<exists>r' out. ingest_fragment r f packet now available = Some (r', out) \<and> timeout_ms r' = timeout_ms r
    \<and> (if blocks_of f = all_blocks orig then out = Packet (whole_packet hdr orig prev nh)
       else out = Buffered \<and> table_holds orig hdr k prev nh expires r' (blocks_of f))"
proof -
  define slots where "slots = map (expire_slot now) (slots_of r)"
  have k: "frag_key f = k" using assms(2) by (simp add: arrives_def)
  have wf: "list_all slot_wf slots" using assms(1)
    by (auto simp: slots_def reassembly_wf_def list_all_iff expire_slot_wf)
  have nokey: "\<forall>s \<in> set slots. slot_key s \<noteq> Some k"
    using assms(6) by (auto simp: slots_def expire_slot_def slot_clear_def)
  have free: "\<exists>s \<in> set slots. slot_key s = None"
    using assms(7) by (force simp: slots_def expire_slot_def slot_clear_def)
  have p: "position (complete_for k) slots = None" "position (\<lambda>s. slot_key s = Some k) slots = None"
    using nokey by (auto simp: position_None_iff list_all_iff complete_for_def)
  have np: "\<not> list_ex (complete_panics k) slots" using nokey by (auto simp: list_ex_iff complete_panics_def)
  from free obtain i where i: "position (\<lambda>s. slot_key s = None) slots = Some i"
    by (cases "position (\<lambda>s. slot_key s = None) slots") (auto simp: position_None_iff list_all_iff)
  then have il: "i < length slots" "slot_key (slots ! i) = None" by (auto dest: position_Some)
  have rdy: "slot_ready orig hdr k prev nh expires (slots ! i) {}"
    using il wf by (simp add: slot_ready_def list_all_length)
  from slot_ingest_step [OF rdy assms(2-5), of expires, unfolded Un_empty_left] obtain s' out
    where st: "slot_ingest (slots ! i) f packet expires available = Some (s', out)"
      "if blocks_of f = all_blocks orig then out = Packet (whole_packet hdr orig prev nh) \<and> slot_key s' = None
       else out = Buffered \<and> slot_holds orig hdr k prev nh expires s' (blocks_of f)" by auto
  have th: "slot_holds orig hdr k prev nh expires s' (blocks_of f) \<Longrightarrow>
      table_holds orig hdr k prev nh expires (r\<lparr>slots_of := slots[i := s']\<rparr>) (blocks_of f)"
    using il wf nokey reassembly_wf_update [of slots s' i r]
    by (auto simp: table_holds_def reassembly_wf_def slot_holds_def intro!: exI [of _ i])
  have "ingest_fragment r f packet now available = Some (r\<lparr>slots_of := slots[i := s']\<rparr>, out)"
    using st(1) p i np by (simp add: ingest_fragment_def slots_def [symmetric] Let_def k choose_slot_def assms(8))
  with st(2) th show ?thesis by (cases "blocks_of f = all_blocks orig") simp_all
qed

lemma ingest_next:
  assumes "table_holds orig hdr k prev nh expires r B" and "arrives orig hdr k prev nh f packet" and "orig \<noteq> []"
    and "length hdr + length orig \<le> MAX_IPV6_PACKET_BYTES" and "length hdr + length orig \<le> available"
    and "now < expires" and "blocks_of f \<inter> B = {}" and "B \<noteq> all_blocks orig"
  shows "\<exists>r' out. ingest_fragment r f packet now available = Some (r', out) \<and> timeout_ms r' = timeout_ms r
    \<and> (if B \<union> blocks_of f = all_blocks orig then out = Packet (whole_packet hdr orig prev nh)
       else out = Buffered \<and> table_holds orig hdr k prev nh expires r' (B \<union> blocks_of f))"
proof -
  define slots where "slots = map (expire_slot now) (slots_of r)"
  have k: "frag_key f = k" using assms(2) by (simp add: arrives_def)
  from assms(1) obtain i where i: "i < length (slots_of r)" "slot_holds orig hdr k prev nh expires (slots_of r ! i) B"
    "\<And>j. j < length (slots_of r) \<Longrightarrow> j \<noteq> i \<Longrightarrow> slot_key (slots_of r ! j) \<noteq> Some k"
    and wf0: "list_all slot_wf (slots_of r)" by (auto simp: table_holds_def)
  have wf: "list_all slot_wf slots" using wf0 by (auto simp: slots_def list_all_iff expire_slot_wf)
  have hi: "slots ! i = slots_of r ! i" using i(1,2) assms(6)
    by (auto simp: slots_def expire_slot_def slot_holds_def)
  have il: "i < length slots" using i(1) by (simp add: slots_def)
  have oth: "\<And>j. j < length slots \<Longrightarrow> j \<noteq> i \<Longrightarrow> slot_key (slots ! j) \<noteq> Some k"
    using i(3) by (auto simp: slots_def dest!: expire_other)
  have cmp: "is_complete (slots ! i) = Some False"
    using holds_complete [OF i(2) assms(3,4)] assms(8) hi by simp
  have key: "slot_key (slots ! i) = Some k" using i(2) hi by (simp add: slot_holds_def)
  have p1: "position (complete_for k) slots = None"
    using oth cmp by (auto simp: position_None_iff list_all_length complete_for_def) (metis option.inject)
  have p2: "position (\<lambda>s. slot_key s = Some k) slots = Some i" by (rule position_unique) (use il oth key in auto)
  have np: "\<not> list_ex (complete_panics k) slots"
    using oth cmp by (auto simp: list_ex_length complete_panics_def)
  have rdy: "slot_ready orig hdr k prev nh expires (slots ! i) B" using i(2) hi by (simp add: slot_ready_def)
  from slot_ingest_step [OF rdy assms(2-5,7), of "saturating_add_u64 now (timeout_ms r)"] key obtain s' out
    where st: "slot_ingest (slots ! i) f packet (saturating_add_u64 now (timeout_ms r)) available = Some (s', out)"
      "if B \<union> blocks_of f = all_blocks orig then out = Packet (whole_packet hdr orig prev nh) \<and> slot_key s' = None
       else out = Buffered \<and> slot_holds orig hdr k prev nh expires s' (B \<union> blocks_of f)" by auto
  have th: "slot_holds orig hdr k prev nh expires s' (B \<union> blocks_of f) \<Longrightarrow>
      table_holds orig hdr k prev nh expires (r\<lparr>slots_of := slots[i := s']\<rparr>) (B \<union> blocks_of f)"
    using il wf oth reassembly_wf_update [of slots s' i r]
    by (auto simp: table_holds_def reassembly_wf_def slot_holds_def intro!: exI [of _ i])
  have "ingest_fragment r f packet now available = Some (r\<lparr>slots_of := slots[i := s']\<rparr>, out)"
    using st(1) p1 p2 np by (simp add: ingest_fragment_def slots_def [symmetric] Let_def k choose_slot_def)
  with st(2) th show ?thesis by (cases "B \<union> blocks_of f = all_blocks orig") simp_all
qed

lemma piece_blocks_nonempty: "piece_of orig f \<Longrightarrow> blocks_of f \<noteq> {}"
  using div_less_div_ceilI [of "frag_start f" "frag_start f + length (frag_payload f)"]
  by (auto simp: piece_of_def blocks_of_def)

lemma feed_rest:
  assumes "table_holds orig hdr k prev nh expires r B" and "orig \<noteq> []" and "ps \<noteq> []"
    and "length hdr + length orig \<le> MAX_IPV6_PACKET_BYTES" and "length hdr + length orig \<le> available"
    and "\<forall>(packet, now, f) \<in> set ps. ipv6_fragment W packet = Some (Inr (Some f))
           \<and> arrives orig hdr k prev nh f packet \<and> now < expires \<and> blocks_of f \<inter> B = {}"
    and "sorted_wrt (\<lambda>(p, t, f) (p', t', f'). blocks_of f \<inter> blocks_of f' = {}) ps"
    and "B \<union> (\<Union>(p, t, f) \<in> set ps. blocks_of f) = all_blocks orig"
  shows "\<exists>r'. feed W r (map (\<lambda>(p, t, f). (p, t)) ps) available =
    Some (r', replicate (length ps - 1) Buffered @ [Packet (whole_packet hdr orig prev nh)])"
  using assms
proof (induction ps arbitrary: r B)
  case Nil
  then show ?case by simp
next
  case (Cons x rest)
  obtain packet now f where x: "x = (packet, now, f)" by (cases x)
  have f: "ipv6_fragment W packet = Some (Inr (Some f))" "arrives orig hdr k prev nh f packet" "now < expires"
    "blocks_of f \<inter> B = {}" using Cons.prems(6) by (auto simp: x)
  have ne: "blocks_of f \<noteq> {}" using f(2) piece_blocks_nonempty by (auto simp: arrives_def)
  have "B \<noteq> all_blocks orig" using ne f(4) Cons.prems(8) by (auto simp: x)
  from ingest_next [OF Cons.prems(1) f(2) Cons.prems(2,4,5) f(3,4) this] f(1) obtain r1 out
    where st: "reassembly_ingest W r packet now available = Some (r1, out)"
      "if B \<union> blocks_of f = all_blocks orig then out = Packet (whole_packet hdr orig prev nh)
       else out = Buffered \<and> table_holds orig hdr k prev nh expires r1 (B \<union> blocks_of f)"
    by (auto simp: reassembly_ingest_def)
  show ?case
  proof (cases rest)
    case Nil
    with st Cons.prems(8) show ?thesis by (simp add: x)
  next
    case (Cons y ys)
    have dj: "\<forall>(p, t, g) \<in> set rest. blocks_of f \<inter> blocks_of g = {}" using Cons.prems(7) by (auto simp: x)
    have "\<exists>p t g. (p, t, g) \<in> set rest \<and> piece_of orig g \<and> blocks_of g \<inter> B = {}"
      using Cons.prems(6) Cons by (cases y) (auto simp: arrives_def)
    with dj piece_blocks_nonempty Cons.prems(8) have "B \<union> blocks_of f \<noteq> all_blocks orig"
      by (fastforce simp: x)
    with st have th: "out = Buffered" "table_holds orig hdr k prev nh expires r1 (B \<union> blocks_of f)" by auto
    have "\<exists>r'. feed W r1 (map (\<lambda>(p, t, f). (p, t)) rest) available =
        Some (r', replicate (length rest - 1) Buffered @ [Packet (whole_packet hdr orig prev nh)])"
      by (rule Cons.IH [OF th(2) Cons.prems(2)]) (use Cons Cons.prems(4-8) dj in \<open>auto simp: x\<close>)
    then obtain r' where "feed W r1 (map (\<lambda>(p, t, f). (p, t)) rest) available =
        Some (r', replicate (length rest - 1) Buffered @ [Packet (whole_packet hdr orig prev nh)])" by blast
    with st(1) th(1) Cons show ?thesis by (simp add: x)
  qed
qed

lemma reassembly_ingest_total:
  assumes "wire_view_ok W" and "reassembly_wf r"
  shows "\<exists>r' out. reassembly_ingest W r packet now available = Some (r', out) \<and> reassembly_wf r'
    \<and> length (slots_of r') = length (slots_of r)
    \<and> (\<forall>q. out = Packet q \<longrightarrow> q = packet \<and> ipv6_fragment W packet = Some (Inr None)
          \<or> length q \<le> available \<and> length q \<le> MAX_IPV6_PACKET_BYTES)"
proof -
  obtain x where x: "ipv6_fragment W packet = Some x" using ipv6_fragment_ok(1) [OF assms(1)] by blast
  show ?thesis
  proof (cases "\<exists>f. x = Inr (Some f)")
    case True
    then obtain f where f: "x = Inr (Some f)" by blast
    from ipv6_fragment_ok(2) [OF assms(1)] x f have "frag_ok f packet" by simp
    from ingest_fragment_total [OF assms(2) this, of now available] x f show ?thesis
      by (auto simp: reassembly_ingest_def)
  next
    case False
    with x assms(2) show ?thesis
      by (cases x) (auto simp: reassembly_ingest_def)
  qed
qed

section \<open>Properties\<close>

text \<open>
  C32: No packet makes the reassembly panic, whatever its bytes, the time and the room: every
  index and slice stays in range, the slots keep their shape and their number, and a packet
  rebuilt from fragments fits the room it was given and the largest IPv6 packet. A packet that
  is not an IPv6 fragment is passed on unchanged.
\<close>

theorem reassembly_never_panics:
  assumes "wire_view_ok W" and "reassembly_wf r"
  shows "\<exists>r' out. reassembly_ingest W r packet now available = Some (r', out) \<and> reassembly_wf r'
    \<and> length (slots_of r') = length (slots_of r)
    \<and> (\<forall>q. out = Packet q \<longrightarrow> q = packet \<and> ipv6_fragment W packet = Some (Inr None)
          \<or> length q \<le> available \<and> length q \<le> MAX_IPV6_PACKET_BYTES)"
  using assms by (rule reassembly_ingest_total)

lemma rfc_view_ok: "wire_view_ok rfc_view"
proof -
  have "from_be (slice p 4 6) \<le> 65535" for p
    using from_be_less [of "slice p 4 6"] power_increasing [of "length (slice p 4 6)" 2 "256 :: nat"] by simp
  then show ?thesis
    by (auto simp: wire_view_ok_def rfc_view_def IPV6_HEADER_BYTES_def min_def)
qed

theorem reassembly_never_panics_witness:
  "\<exists>r' out. reassembly_ingest rfc_view (reassembly_new 4 15000) demo_second 0 70000 = Some (r', out) \<and> reassembly_wf r'"
  using reassembly_never_panics [OF rfc_view_ok reassembly_new_wf, of 4 15000 demo_second 0 70000] by blast

text \<open>
  C14: The fragments of one packet give the packet back in whatever order they arrive. If the
  pieces cover the fragmentable part, do not overlap, share their unfragmentable part and arrive
  before the timeout of the first one, then every piece but the last is buffered and the last
  one yields the original: the shared headers with the payload length and the next header
  rewritten, followed by the whole fragmentable part.
\<close>

theorem fragments_in_any_order:
  assumes "wire_view_ok W" and "reassembly_wf r" and "orig \<noteq> []"
    and "length hdr + length orig \<le> MAX_IPV6_PACKET_BYTES" and "length hdr + length orig \<le> available"
    and "\<forall>s \<in> set (slots_of r). slot_key s \<noteq> Some k" and "\<exists>s \<in> set (slots_of r). slot_key s = None"
    and "ps = (packetA, nowA, fA) # rest" and "expires = saturating_add_u64 nowA (timeout_ms r)"
    and "\<forall>(packet, now, f) \<in> set ps. ipv6_fragment W packet = Some (Inr (Some f))
           \<and> piece_of orig f \<and> frag_key f = k \<and> frag_prefix_len f = length hdr
           \<and> frag_previous_next_header f = prev \<and> frag_next_header f = nh \<and> same_prefix hdr packet"
    and "\<forall>(packet, now, f) \<in> set rest. now < expires"
    and "sorted_wrt (\<lambda>(p, t, f) (p', t', f'). blocks_of f \<inter> blocks_of f' = {}) ps"
    and "(\<Union>(p, t, f) \<in> set ps. blocks_of f) = all_blocks orig"
  shows "\<exists>r'. feed W r (map (\<lambda>(p, t, f). (p, t)) ps) available =
    Some (r', replicate (length ps - 1) Buffered @ [Packet (whole_packet hdr orig prev nh)])"
proof -
  have arr: "\<forall>(packet, now, f) \<in> set ps. ipv6_fragment W packet = Some (Inr (Some f)) \<and> arrives orig hdr k prev nh f packet"
    using assms(10) ipv6_fragment_ok(2) [OF assms(1)] by (auto simp: arrives_def)
  then have fA: "ipv6_fragment W packetA = Some (Inr (Some fA))" "arrives orig hdr k prev nh fA packetA"
    by (auto simp: assms(8))
  have dj: "\<forall>(p, t, g) \<in> set rest. blocks_of fA \<inter> blocks_of g = {}" using assms(12) by (auto simp: assms(8))
  from ingest_first [OF assms(2) fA(2) assms(3-7,9)] fA(1) obtain r1 out
    where st: "reassembly_ingest W r packetA nowA available = Some (r1, out)"
      "if blocks_of fA = all_blocks orig then out = Packet (whole_packet hdr orig prev nh)
       else out = Buffered \<and> table_holds orig hdr k prev nh expires r1 (blocks_of fA)"
    by (auto simp: reassembly_ingest_def)
  show ?thesis
  proof (cases rest)
    case Nil
    with st assms(13) show ?thesis by (simp add: assms(8))
  next
    case (Cons y ys)
    have "\<exists>p t g. (p, t, g) \<in> set rest \<and> piece_of orig g"
      using assms(10) Cons by (cases y) (auto simp: assms(8))
    with dj piece_blocks_nonempty assms(13) have "blocks_of fA \<noteq> all_blocks orig"
      by (fastforce simp: assms(8))
    with st have th: "out = Buffered" "table_holds orig hdr k prev nh expires r1 (blocks_of fA)" by auto
    have "\<exists>r'. feed W r1 (map (\<lambda>(p, t, f). (p, t)) rest) available =
        Some (r', replicate (length rest - 1) Buffered @ [Packet (whole_packet hdr orig prev nh)])"
      by (rule feed_rest [OF th(2) assms(3)]) (use Cons arr assms dj in auto)
    with st(1) th(1) Cons show ?thesis by (auto simp: assms(8))
  qed
qed

lemma demo_fragments:
  "ipv6_fragment rfc_view demo_first = Some (Inr (Some (demo_fragment 0 True [1, 2, 3, 4, 5, 6, 7, 8])))"
  "ipv6_fragment rfc_view demo_second = Some (Inr (Some (demo_fragment 8 False [9, 10, 11])))"
  by code_simp+

lemma demo_pieces:
  "piece_of [1, 2, 3, 4, 5, 6, 7, 8, 9, 10, 11] (demo_fragment 0 True [1, 2, 3, 4, 5, 6, 7, 8])"
  "piece_of [1, 2, 3, 4, 5, 6, 7, 8, 9, 10, 11] (demo_fragment 8 False [9, 10, 11])"
  by code_simp+

lemma demo_blocks:
  "blocks_of (demo_fragment 0 True [1, 2, 3, 4, 5, 6, 7, 8]) = {0}"
  "blocks_of (demo_fragment 8 False [9, 10, 11]) = {1}"
  "all_blocks [1, 2, 3, 4, 5, 6, 7, 8, 9, 10, 11] = {0, 1}"
  by (auto simp: blocks_of_def all_blocks_def demo_fragment_def div_ceil_def)

lemma demo_fields:
  "length (demo_header n) = 40" "frag_key (demo_fragment a m p) = demo_key"
  "frag_prefix_len (demo_fragment a m p) = 40" "frag_previous_next_header (demo_fragment a m p) = 6"
  "frag_next_header (demo_fragment a m p) = 17"
  by (simp_all add: demo_header_def demo_fragment_def)

lemma demo_prefixes: "same_prefix (demo_header 0) demo_first" "same_prefix (demo_header 0) demo_second"
  by code_simp+

text \<open>The second fragment arrives first.\<close>

theorem fragments_in_any_order_witness:
  "\<exists>r'. feed rfc_view (reassembly_new 4 15000) [(demo_second, 0), (demo_first, 5)] 70000 =
     Some (r', [Buffered, Packet (whole_packet (demo_header 0) [1, 2, 3, 4, 5, 6, 7, 8, 9, 10, 11] 6 17)])"
proof -
  let ?orig = "[1, 2, 3, 4, 5, 6, 7, 8, 9, 10, 11] :: bytes"
  let ?ps = "[(demo_second, 0 :: nat, demo_fragment 8 False [9, 10, 11]),
              (demo_first, 5, demo_fragment 0 True [1, 2, 3, 4, 5, 6, 7, 8])]"
  have "\<exists>r'. feed rfc_view (reassembly_new 4 15000) (map (\<lambda>(p, t, f). (p, t)) ?ps) 70000 =
     Some (r', replicate (length ?ps - 1) Buffered @ [Packet (whole_packet (demo_header 0) ?orig 6 17)])"
    by (rule fragments_in_any_order [where k = demo_key and expires = 15000 and nowA = 0
            and rest = "tl ?ps" and fA = "demo_fragment 8 False [9, 10, 11]" and packetA = demo_second,
          OF rfc_view_ok reassembly_new_wf])
      (simp_all add: demo_fragments demo_pieces demo_blocks demo_prefixes demo_fields reassembly_new_def slot_new_def
        saturating_add_u64_def u64_max_def ipv6_consts insert_commute)
  then show ?thesis by simp
qed

end
