(* ===== verification/Device.thy ===== *)
theory Device
  imports Reassembly
begin

text \<open>
  The bounded packet device of the virtual stack (\<open>stack.rs\<close>: \<open>BoundedDevice\<close>, its tokens and
  the packet classifiers). smoltcp drives the device only through \<open>receive\<close>, \<open>transmit\<close> and the
  tokens, which the relation \<open>device_step\<close> collects; the byte account of the queues is an
  invariant of every such run. A subtraction below zero panics, which is \<^term>\<open>None\<close>.
\<close>

section \<open>Packet classifiers\<close>

record ip_endpoint =
  ep_addr :: ip_address
  ep_port :: u16

record packet_tuple =
  tuple_source :: ip_endpoint
  tuple_destination :: ip_endpoint

text \<open>
  The smoltcp accessors used to classify a packet, besides those of the reassembly: the transport
  protocol, the addresses and payload of each IP version, and the TCP and UDP header fields.
\<close>

record transport_view =
  ip4_new_checked :: "bytes \<Rightarrow> bool"
  ip4_protocol :: "bytes \<Rightarrow> byte"
  ip4_frag_offset :: "bytes \<Rightarrow> u16"
  ip4_src :: "bytes \<Rightarrow> 32 word"
  ip4_dst :: "bytes \<Rightarrow> 32 word"
  ip4_payload :: "bytes \<Rightarrow> bytes"
  ip6_new_checked :: "bytes \<Rightarrow> bool"
  ip6_protocol :: "bytes \<Rightarrow> byte"
  ip6_src :: "bytes \<Rightarrow> 128 word"
  ip6_dst :: "bytes \<Rightarrow> 128 word"
  ip6_payload :: "bytes \<Rightarrow> bytes"
  tcp_new_checked :: "bytes \<Rightarrow> bool"
  tcp_syn :: "bytes \<Rightarrow> bool"
  tcp_ack :: "bytes \<Rightarrow> bool"
  tcp_src_port :: "bytes \<Rightarrow> u16"
  tcp_dst_port :: "bytes \<Rightarrow> u16"
  udp_src_port :: "bytes \<Rightarrow> u16"
  udp_dst_port :: "bytes \<Rightarrow> u16"

definition PROTOCOL_TCP :: byte where "PROTOCOL_TCP = 6"
definition PROTOCOL_UDP :: byte where "PROTOCOL_UDP = 17"

definition tcp_syn_tuple :: "transport_view \<Rightarrow> bytes \<Rightarrow> packet_tuple option" where
  "tcp_syn_tuple V packet =
     Option.bind (ip_version packet) (\<lambda>version.
     Option.bind
       (if version = 4 then
          if \<not> ip4_new_checked V packet \<or> ip4_protocol V packet \<noteq> PROTOCOL_TCP then None
          else Some (IpV4 (ip4_src V packet), IpV4 (ip4_dst V packet), ip4_payload V packet)
        else if version = 6 then
          if \<not> ip6_new_checked V packet \<or> ip6_protocol V packet \<noteq> PROTOCOL_TCP then None
          else Some (IpV6 (ip6_src V packet), IpV6 (ip6_dst V packet), ip6_payload V packet)
        else None)
       (\<lambda>(source, destination, payload).
          if \<not> tcp_new_checked V payload then None
          else if \<not> tcp_syn V payload \<or> tcp_ack V payload \<or> tcp_src_port V payload = 0 \<or> tcp_dst_port V payload = 0
          then None
          else Some \<lparr>tuple_source = \<lparr>ep_addr = source, ep_port = tcp_src_port V payload\<rparr>,
                     tuple_destination = \<lparr>ep_addr = destination, ep_port = tcp_dst_port V payload\<rparr>\<rparr>))"

definition udp_tuple :: "transport_view \<Rightarrow> bytes \<Rightarrow> packet_tuple option" where
  "udp_tuple V packet =
     Option.bind (ip_version packet) (\<lambda>version.
     Option.bind
       (if version = 4 then
          if \<not> ip4_new_checked V packet \<or> ip4_protocol V packet \<noteq> PROTOCOL_UDP
             \<or> ip4_frag_offset V packet \<noteq> 0 then None
          else Some (IpV4 (ip4_src V packet), IpV4 (ip4_dst V packet), ip4_payload V packet)
        else if version = 6 then
          if \<not> ip6_new_checked V packet \<or> ip6_protocol V packet \<noteq> PROTOCOL_UDP then None
          else Some (IpV6 (ip6_src V packet), IpV6 (ip6_dst V packet), ip6_payload V packet)
        else None)
       (\<lambda>(source, destination, payload).
          if length payload < 8 then None
          else if udp_src_port V payload = 0 \<or> udp_dst_port V payload = 0 then None
          else Some \<lparr>tuple_source = \<lparr>ep_addr = source, ep_port = udp_src_port V payload\<rparr>,
                     tuple_destination = \<lparr>ep_addr = destination, ep_port = udp_dst_port V payload\<rparr>\<rparr>))"

definition valid_ip_packet :: "bytes \<Rightarrow> bool" where
  "valid_ip_packet packet =
     (case ip_version packet of
        None \<Rightarrow> False
      | Some v \<Rightarrow> if v = 4 then 20 \<le> length packet else if v = 6 then 40 \<le> length packet else False)"

definition virtual_loopback_destination :: "bytes \<Rightarrow> bool" where
  "virtual_loopback_destination packet =
     (case ip_version packet of
        None \<Rightarrow> False
      | Some v \<Rightarrow>
          if v = 4 then 16 < length packet \<and> packet ! 16 = 127
          else if v = 6 then slice_get packet 24 40 = Some (replicate 15 0 @ [1])
          else False)"

section \<open>The device\<close>

record queued_packet =
  qp_bytes :: bytes
  qp_external :: bool

record device =
  dev_ingress :: "queued_packet list"
  dev_egress :: "bytes list"
  dev_bytes :: nat
  dev_byte_limit :: nat
  dev_mtu :: nat
  dev_stopped :: bool
  dev_dropped :: nat

definition device_new :: "nat \<Rightarrow> nat \<Rightarrow> device" where
  "device_new m limit = \<lparr>dev_ingress = [], dev_egress = [], dev_bytes = 0, dev_byte_limit = limit,
     dev_mtu = m, dev_stopped = False, dev_dropped = 0\<rparr>"

text \<open>Taking the first packet of a queue out of the byte account.\<close>

definition device_pop_ingress :: "device \<Rightarrow> (bytes option \<times> device) option" where
  "device_pop_ingress d =
     (case dev_ingress d of
        [] \<Rightarrow> Some (None, d)
      | p # rest \<Rightarrow>
          if dev_bytes d < length (qp_bytes p) then None
          else Some (Some (qp_bytes p),
                     d\<lparr>dev_ingress := rest, dev_bytes := dev_bytes d - length (qp_bytes p)\<rparr>))"

definition device_receive :: "device \<Rightarrow> (bytes option \<times> device) option" where
  "device_receive d = (if dev_stopped d then Some (None, d) else device_pop_ingress d)"

definition device_transmit :: "device \<Rightarrow> bool" where
  "device_transmit d \<longleftrightarrow> \<not> dev_stopped d"

text \<open>
  \<open>TxToken::consume\<close>: the caller's function fills a zeroed packet of the given length; a packet
  that does not fit the byte limit is dropped and counted.
\<close>

definition tx_consume :: "nat \<Rightarrow> (bytes \<Rightarrow> 'r \<times> bytes) \<Rightarrow> device \<Rightarrow> 'r \<times> device" where
  "tx_consume len fill d =
     (case fill (replicate len 0) of (result, packet) \<Rightarrow>
      if saturating_add (dev_bytes d) len \<le> dev_byte_limit d then
        (let d = d\<lparr>dev_bytes := dev_bytes d + len\<rparr> in
         (result,
          if virtual_loopback_destination packet
          then d\<lparr>dev_ingress := dev_ingress d @ [\<lparr>qp_bytes = packet, qp_external = False\<rparr>]\<rparr>
          else d\<lparr>dev_egress := dev_egress d @ [packet]\<rparr>))
      else (result, d\<lparr>dev_dropped := dev_dropped d + 1\<rparr>))"

text \<open>The packet port: room left, one packet in, one packet out.\<close>

definition device_room :: "device \<Rightarrow> nat" where
  "device_room d = dev_byte_limit d - dev_bytes d"

definition device_push_external :: "bytes \<Rightarrow> device \<Rightarrow> device" where
  "device_push_external packet d =
     d\<lparr>dev_bytes := dev_bytes d + length packet,
       dev_ingress := dev_ingress d @ [\<lparr>qp_bytes = packet, qp_external = True\<rparr>]\<rparr>"

definition device_pop_egress :: "device \<Rightarrow> (bytes option \<times> device) option" where
  "device_pop_egress d =
     (case dev_egress d of
        [] \<Rightarrow> Some (None, d)
      | p # rest \<Rightarrow>
          if dev_bytes d < length p then None
          else Some (Some p, d\<lparr>dev_egress := rest, dev_bytes := dev_bytes d - length p\<rparr>))"

section \<open>What smoltcp may do with the device\<close>

text \<open>A filled packet keeps the length of the slice it was given.\<close>

inductive device_step :: "device \<Rightarrow> device \<Rightarrow> bool" where
  received: "device_receive d = Some (p, d') \<Longrightarrow> device_step d d'"
| transmitted: "device_transmit d \<Longrightarrow> length packet = len
    \<Longrightarrow> device_step d (snd (tx_consume len (\<lambda>_. ((), packet)) d))"

inductive_simps device_step_iff: "device_step d d'"

definition device_reach :: "device \<Rightarrow> device \<Rightarrow> bool" where
  "device_reach = device_step\<^sup>*\<^sup>*"

definition device_inv :: "device \<Rightarrow> bool" where
  "device_inv d \<longleftrightarrow>
     dev_bytes d = sum_list (map (length \<circ> qp_bytes) (dev_ingress d)) + sum_list (map length (dev_egress d))
     \<and> dev_bytes d \<le> dev_byte_limit d \<and> dev_byte_limit d < usize_max"

lemma device_new_inv: "limit < usize_max \<Longrightarrow> device_inv (device_new m limit)"
  by (simp add: device_inv_def device_new_def)

lemma device_pop_ingress_ok:
  assumes "device_inv d"
  shows "\<exists>p d'. device_pop_ingress d = Some (p, d') \<and> device_inv d' \<and> dev_byte_limit d' = dev_byte_limit d
    \<and> dev_egress d' = dev_egress d \<and> dev_ingress d' = tl (dev_ingress d)"
  using assms by (cases "dev_ingress d") (auto simp: device_pop_ingress_def device_inv_def)

lemma device_pop_egress_ok:
  assumes "device_inv d"
  shows "\<exists>p d'. device_pop_egress d = Some (p, d') \<and> device_inv d' \<and> dev_byte_limit d' = dev_byte_limit d
    \<and> dev_ingress d' = dev_ingress d \<and> dev_egress d' = tl (dev_egress d)"
  using assms by (cases "dev_egress d") (auto simp: device_pop_egress_def device_inv_def)

lemma device_push_external_inv:
  "device_inv d \<Longrightarrow> length packet \<le> device_room d \<Longrightarrow> device_inv (device_push_external packet d)"
  by (auto simp: device_inv_def device_push_external_def device_room_def)

lemma tx_consume_inv:
  assumes "device_inv d" and "length (snd (fill (replicate len 0))) = len"
  shows "device_inv (snd (tx_consume len fill d)) \<and> dev_byte_limit (snd (tx_consume len fill d)) = dev_byte_limit d"
  using assms
  by (auto simp: tx_consume_def device_inv_def saturating_add_def Let_def split: prod.splits)

lemma device_step_inv:
  assumes "device_step d d'" and "device_inv d"
  shows "device_inv d' \<and> dev_byte_limit d' = dev_byte_limit d"
  using assms
proof (cases rule: device_step.cases)
  case (received p)
  then show ?thesis using device_pop_ingress_ok [OF assms(2)] assms(2)
    by (auto simp: device_receive_def split: if_splits)
next
  case (transmitted packet len)
  then show ?thesis using tx_consume_inv [OF assms(2), of "\<lambda>_. ((), packet)" len] by simp
qed

lemma device_reach_inv:
  assumes "device_reach d d'" and "device_inv d"
  shows "device_inv d' \<and> dev_byte_limit d' = dev_byte_limit d"
  using assms unfolding device_reach_def
  by (induction rule: rtranclp_induct) (auto dest: device_step_inv)

end
