(* ===== verification/Port_Pool.thy ===== *)
theory Port_Pool
  imports Snolc_Prelude
begin

text \<open>
  The pool of virtual ports of the stack (\<open>stack.rs\<close>, \<open>PortPool\<close>): a queue of free ports and a
  table of allocated ones. The contract its clients use is the locale \<open>port_allocator\<close>, over the
  set of ports in use; the pool satisfies it and is the instance the stack bridge works with.
\<close>

definition FIRST_DYNAMIC_PORT :: u16 where "FIRST_DYNAMIC_PORT = 1024"

text \<open>\<open>usize::from(u16::MAX) + 1\<close>.\<close>

definition PORT_SLOTS :: nat where "PORT_SLOTS = 65536"

datatype port_error = PortLimit | PortStale

record port_pool =
  available :: "u16 list"
  allocated :: "bool list"

definition port_pool_new :: port_pool where
  "port_pool_new = \<lparr>available = map of_nat [unat FIRST_DYNAMIC_PORT ..< PORT_SLOTS],
                    allocated = replicate PORT_SLOTS False\<rparr>"

definition port_allocate :: "port_pool \<Rightarrow> (port_error + u16) \<times> port_pool" where
  "port_allocate p =
     (case available p of
        [] \<Rightarrow> (Inl PortLimit, p)
      | port # rest \<Rightarrow> (Inr port, p\<lparr>available := rest, allocated := (allocated p)[unat port := True]\<rparr>))"

definition port_release :: "u16 \<Rightarrow> port_pool \<Rightarrow> (port_error + unit) \<times> port_pool" where
  "port_release port p =
     (if port < FIRST_DYNAMIC_PORT \<or> \<not> allocated p ! unat port then (Inl PortStale, p)
      else (Inr (), p\<lparr>allocated := (allocated p)[unat port := False], available := available p @ [port]\<rparr>))"

section \<open>The contract\<close>

locale port_allocator =
  fixes allocate :: "'p \<Rightarrow> ('e + u16) \<times> 'p"
    and release :: "u16 \<Rightarrow> 'p \<Rightarrow> ('e + unit) \<times> 'p"
    and inv :: "'p \<Rightarrow> bool" and in_use :: "'p \<Rightarrow> u16 set" and dynamic :: "u16 set"
  assumes in_use_dynamic: "inv p \<Longrightarrow> in_use p \<subseteq> dynamic"
    and allocate_ok: "inv p \<Longrightarrow> allocate p = (Inr port, p') \<Longrightarrow>
          inv p' \<and> port \<in> dynamic \<and> port \<notin> in_use p \<and> in_use p' = insert port (in_use p)"
    and allocate_err: "inv p \<Longrightarrow> allocate p = (Inl e, p') \<Longrightarrow> p' = p \<and> in_use p = dynamic"
    and release_ok: "inv p \<Longrightarrow> port \<in> in_use p \<Longrightarrow>
          \<exists>p'. release port p = (Inr (), p') \<and> inv p' \<and> in_use p' = in_use p - {port}"
    and release_err: "inv p \<Longrightarrow> port \<notin> in_use p \<Longrightarrow> \<exists>e. release port p = (Inl e, p)"
begin

lemma allocate_total: "inv p \<Longrightarrow> in_use p \<noteq> dynamic \<Longrightarrow> \<exists>port p'. allocate p = (Inr port, p')"
  by (metis allocate_err sumE surj_pair)

lemma allocate_twice:
  assumes "inv p" and "allocate p = (Inr a, p')" and "allocate p' = (Inr b, p'')"
  shows "a \<noteq> b \<and> inv p'' \<and> in_use p'' = insert a (insert b (in_use p)) \<and> {a, b} \<inter> in_use p = {}"
  using allocate_ok [OF assms(1,2)] allocate_ok [OF _ assms(3)] by auto

lemma release_allocated:
  assumes "inv p" and "allocate p = (Inr a, p')"
  shows "\<exists>p''. release a p' = (Inr (), p'') \<and> inv p'' \<and> in_use p'' = in_use p"
  using allocate_ok [OF assms] release_ok [of p' a] by auto

text \<open>Returning both ports of a flow.\<close>

lemma release_two:
  assumes "inv p" and "a \<in> in_use p" and "b \<in> in_use p" and "a \<noteq> b"
  shows "\<exists>p' p''. release a p = (Inr (), p') \<and> release b p' = (Inr (), p'') \<and> inv p''
    \<and> in_use p'' = in_use p - {a, b}"
proof -
  obtain p' where p': "release a p = (Inr (), p')" "inv p'" "in_use p' = in_use p - {a}"
    using release_ok [OF assms(1,2)] by blast
  with assms(3,4) obtain p'' where "release b p' = (Inr (), p'')" "inv p''" "in_use p'' = in_use p' - {b}"
    using release_ok [of p' b] by blast
  with p' show ?thesis by blast
qed

lemma release_twice:
  assumes "inv p" and "release a p = (Inr (), p')"
  shows "\<exists>e. release a p' = (Inl e, p')"
proof (cases "a \<in> in_use p")
  case True
  with release_ok [OF assms(1) True] assms(2) have "inv p'" "a \<notin> in_use p'" by auto
  then show ?thesis by (rule release_err)
next
  case False
  from release_err [OF assms(1) False] assms(2) show ?thesis by auto
qed

end

section \<open>The pool satisfies it\<close>

definition dynamic_ports :: "u16 set" where
  "dynamic_ports = {p. FIRST_DYNAMIC_PORT \<le> p}"

definition ports_in_use :: "port_pool \<Rightarrow> u16 set" where
  "ports_in_use p = {port. allocated p ! unat port}"

definition port_pool_wf :: "port_pool \<Rightarrow> bool" where
  "port_pool_wf p \<longleftrightarrow> length (allocated p) = PORT_SLOTS \<and> distinct (available p)
     \<and> set (available p) = dynamic_ports - ports_in_use p \<and> ports_in_use p \<subseteq> dynamic_ports"

lemma unat_u16_less [simp]: "unat (p :: u16) < PORT_SLOTS"
  using unsigned_less [of p, where 'a = nat] by (simp add: PORT_SLOTS_def)

lemma in_use_update:
  assumes "length (allocated p) = PORT_SLOTS"
  shows "{q :: u16. (allocated p)[unat port := b] ! unat q} =
    (if b then insert port (ports_in_use p) else ports_in_use p - {port})"
proof (intro set_eqI)
  fix q :: u16
  have "q \<noteq> port \<Longrightarrow> unat port \<noteq> unat q" by (metis unsigned_word_eqI)
  then show "q \<in> {q. (allocated p)[unat port := b] ! unat q} \<longleftrightarrow>
      q \<in> (if b then insert port (ports_in_use p) else ports_in_use p - {port})"
    using assms by (cases "q = port") (simp_all add: ports_in_use_def)
qed

lemma unat_of_nat_u16: "n < PORT_SLOTS \<Longrightarrow> unat (of_nat n :: u16) = n"
  by (simp add: unat_of_nat PORT_SLOTS_def)

lemma first_port_le: "FIRST_DYNAMIC_PORT \<le> p \<longleftrightarrow> 1024 \<le> unat p"
  by (simp add: FIRST_DYNAMIC_PORT_def word_le_nat_alt)

lemma port_pool_new_wf: "port_pool_wf port_pool_new"
proof -
  have use: "ports_in_use port_pool_new = {}" by (auto simp: ports_in_use_def port_pool_new_def)
  have first: "unat FIRST_DYNAMIC_PORT = 1024" by (simp add: FIRST_DYNAMIC_PORT_def)
  have inj: "inj_on (of_nat :: nat \<Rightarrow> u16) (set [1024 ..< PORT_SLOTS])"
    by (rule inj_on_inverseI [where g = unat]) (simp add: unat_of_nat_u16)
  have "(of_nat :: nat \<Rightarrow> u16) ` {1024 ..< PORT_SLOTS} = dynamic_ports"
  proof (intro equalityI subsetI)
    fix p :: u16
    assume "p \<in> dynamic_ports"
    then have "unat p \<in> {1024 ..< PORT_SLOTS}" by (simp add: dynamic_ports_def first_port_le)
    then show "p \<in> of_nat ` {1024 ..< PORT_SLOTS}" by (intro image_eqI [of _ _ "unat p"]) simp_all
  qed (auto simp: dynamic_ports_def first_port_le unat_of_nat_u16)
  then show ?thesis using inj use
    by (simp add: port_pool_wf_def port_pool_new_def first distinct_map)
qed

lemma port_allocate_ok:
  assumes "port_pool_wf p" and "port_allocate p = (Inr port, p')"
  shows "port_pool_wf p' \<and> port \<in> dynamic_ports \<and> port \<notin> ports_in_use p
    \<and> ports_in_use p' = insert port (ports_in_use p)"
proof -
  obtain rest where av: "available p = port # rest"
    and p': "p' = p\<lparr>available := rest, allocated := (allocated p)[unat port := True]\<rparr>"
    using assms(2) by (auto simp: port_allocate_def split: list.splits)
  have use: "ports_in_use p' = insert port (ports_in_use p)"
    using in_use_update [of p port True] assms(1) by (simp add: p' ports_in_use_def port_pool_wf_def)
  have d: "distinct (port # rest)" "insert port (set rest) = dynamic_ports - ports_in_use p"
    using assms(1) av by (auto simp: port_pool_wf_def)
  have "set rest = dynamic_ports - ports_in_use p'" unfolding use using d by auto
  moreover have "port \<in> dynamic_ports" "port \<notin> ports_in_use p" using d(2) by auto
  ultimately show ?thesis using assms(1) d use by (simp add: port_pool_wf_def p')
qed

lemma port_release_ok:
  assumes "port_pool_wf p" and "port \<in> ports_in_use p"
  shows "\<exists>p'. port_release port p = (Inr (), p') \<and> port_pool_wf p' \<and> ports_in_use p' = ports_in_use p - {port}"
proof -
  let ?p' = "p\<lparr>allocated := (allocated p)[unat port := False], available := available p @ [port]\<rparr>"
  have use: "ports_in_use ?p' = ports_in_use p - {port}"
    using in_use_update [of p port False] assms(1) by (simp add: ports_in_use_def port_pool_wf_def)
  have dyn: "port \<in> dynamic_ports" using assms by (auto simp: port_pool_wf_def)
  have "port_release port p = (Inr (), ?p')"
    using dyn assms(2) by (auto simp: port_release_def dynamic_ports_def ports_in_use_def)
  moreover have "port_pool_wf ?p'"
    using assms dyn unfolding port_pool_wf_def use by auto
  ultimately show ?thesis using use by blast
qed

interpretation pool: port_allocator port_allocate port_release port_pool_wf ports_in_use dynamic_ports
proof unfold_locales
  fix p p' :: port_pool and port e
  show "port_pool_wf p \<Longrightarrow> ports_in_use p \<subseteq> dynamic_ports" by (simp add: port_pool_wf_def)
  show "port_pool_wf p \<Longrightarrow> port_allocate p = (Inr port, p') \<Longrightarrow>
     port_pool_wf p' \<and> port \<in> dynamic_ports \<and> port \<notin> ports_in_use p \<and> ports_in_use p' = insert port (ports_in_use p)"
    by (rule port_allocate_ok)
  show "port_pool_wf p \<Longrightarrow> port_allocate p = (Inl e, p') \<Longrightarrow> p' = p \<and> ports_in_use p = dynamic_ports"
    by (auto simp: port_allocate_def port_pool_wf_def split: list.splits)
  show "port_pool_wf p \<Longrightarrow> port \<in> ports_in_use p \<Longrightarrow>
     \<exists>p'. port_release port p = (Inr (), p') \<and> port_pool_wf p' \<and> ports_in_use p' = ports_in_use p - {port}"
    by (rule port_release_ok)
  show "port_pool_wf p \<Longrightarrow> port \<notin> ports_in_use p \<Longrightarrow> \<exists>e. port_release port p = (Inl e, p)"
    by (simp add: port_release_def ports_in_use_def)
qed

section \<open>Properties\<close>

text \<open>
  Two ports allocated in a row are different, lie in the dynamic range and were both free;
  giving them back restores the set of ports in use, and a second release of the same port is
  refused without changing the pool. Allocation fails only when every dynamic port is in use.
\<close>

theorem port_pool_exclusive:
  assumes "port_pool_wf p" and "port_allocate p = (Inr a, p1)" and "port_allocate p1 = (Inr b, p2)"
  shows "a \<noteq> b \<and> {a, b} \<subseteq> dynamic_ports \<and> {a, b} \<inter> ports_in_use p = {}
    \<and> (\<exists>p3 p4. port_release a p2 = (Inr (), p3) \<and> port_release b p3 = (Inr (), p4) \<and> port_pool_wf p4
         \<and> ports_in_use p4 = ports_in_use p \<and> (\<exists>e. port_release b p4 = (Inl e, p4)))
    \<and> (\<forall>e q. port_allocate p2 = (Inl e, q) \<longrightarrow> q = p2 \<and> ports_in_use p2 = dynamic_ports)"
proof -
  have t: "a \<noteq> b" "port_pool_wf p2" "ports_in_use p2 = insert a (insert b (ports_in_use p))"
    "{a, b} \<inter> ports_in_use p = {}"
    using pool.allocate_twice [OF assms] by auto
  have "{a, b} \<subseteq> dynamic_ports" using t pool.in_use_dynamic [OF t(2)] by auto
  moreover obtain p3 p4 where r: "port_release a p2 = (Inr (), p3)" "port_release b p3 = (Inr (), p4)"
    "port_pool_wf p4" "ports_in_use p4 = ports_in_use p2 - {a, b}"
    using pool.release_two [OF t(2) _ _ t(1)] t(3) by auto
  moreover have "ports_in_use p4 = ports_in_use p" using r(4) t by auto
  moreover have "\<exists>e. port_release b p4 = (Inl e, p4)"
    by (rule pool.release_err) (use r t in auto)
  ultimately show ?thesis using t pool.allocate_err [OF t(2)] by blast
qed

theorem port_pool_exclusive_witness:
  "\<exists>a b p1 p2. port_allocate port_pool_new = (Inr a, p1) \<and> port_allocate p1 = (Inr b, p2) \<and> a \<noteq> b"
proof -
  define rest :: "u16 list" where "rest = map of_nat [1026 ..< PORT_SLOTS]"
  have u: "[1024 ..< PORT_SLOTS] = 1024 # 1025 # [1026 ..< PORT_SLOTS]"
  proof -
    have "1024 < PORT_SLOTS" "1025 < PORT_SLOTS" by (simp_all add: PORT_SLOTS_def)
    then show ?thesis using upt_conv_Cons [of 1024 PORT_SLOTS] upt_conv_Cons [of 1025 PORT_SLOTS] by simp
  qed
  have new: "available port_pool_new = 1024 # 1025 # rest"
    by (simp add: port_pool_new_def FIRST_DYNAMIC_PORT_def u rest_def)
  obtain p1 where p1: "port_allocate port_pool_new = (Inr 1024, p1)" "available p1 = 1025 # rest"
    using new by (simp add: port_allocate_def)
  obtain p2 where p2: "port_allocate p1 = (Inr 1025, p2)" using p1(2) by (simp add: port_allocate_def)
  show ?thesis
    by (intro exI conjI) (rule p1(1), rule p2, rule conjunct1 [OF port_pool_exclusive [OF port_pool_new_wf p1(1) p2]])
qed

end
