(* ===== verification/Accounting.thy ===== *)
theory Accounting
  imports Handles "HOL-Library.Multiset" "HOL-Library.AList"
begin

text \<open>
  Sums over the values of a handle table and over an association list, in any commutative
  monoid: byte counts are summed in the natural numbers, ports in multisets. The lemmas say how
  a sum changes when a value is inserted, replaced or removed, which is all that the resource
  accounts of the stack bridge need.
\<close>

definition table_sum :: "('a \<Rightarrow> 'b :: comm_monoid_add) \<Rightarrow> 'a handle_table \<Rightarrow> 'b" where
  "table_sum f t = sum_list (map (\<lambda>s. case slot_value s of None \<Rightarrow> 0 | Some v \<Rightarrow> f v) (ht_slots t))"

definition alist_sum :: "('a \<Rightarrow> 'b :: comm_monoid_add) \<Rightarrow> ('k \<times> 'a) list \<Rightarrow> 'b" where
  "alist_sum f xs = sum_list (map (f \<circ> snd) xs)"

lemma sum_list_swap:
  fixes xs :: "'b :: comm_monoid_add list"
  assumes "i < length xs"
  shows "sum_list (xs[i := y]) + xs ! i = sum_list xs + y"
  using assms
proof (induction xs arbitrary: i)
  case Nil
  then show ?case by simp
next
  case (Cons x xs)
  then show ?case by (cases i) (auto simp: ac_simps)
qed

lemma table_sum_new [simp]: "table_sum f (handle_table_new owner limit) = 0"
  by (simp add: table_sum_def handle_table_new_def)

text \<open>Replacing the slot \<open>i\<close> of a table.\<close>

lemma table_sum_slot:
  assumes "i < length (ht_slots t)"
  shows "sum_list (map (\<lambda>s. case slot_value s of None \<Rightarrow> 0 | Some v \<Rightarrow> f v) ((ht_slots t)[i := s']))
      + (case slot_value (ht_slots t ! i) of None \<Rightarrow> 0 | Some v \<Rightarrow> f v)
    = table_sum f t + (case slot_value s' of None \<Rightarrow> 0 | Some v \<Rightarrow> f v)"
  using sum_list_swap [of i "map (\<lambda>s. case slot_value s of None \<Rightarrow> 0 | Some v \<Rightarrow> f v) (ht_slots t)"] assms
  by (simp add: table_sum_def map_update)

lemma table_sum_insert:
  assumes "table_wf t" and "table_insert v t = (Inr h, t')"
  shows "table_sum f t' = table_sum f t + f v"
proof (cases "ht_free t = []")
  case True
  with assms(2) have "t' = t\<lparr>ht_slots := ht_slots t @ [\<lparr>slot_generation = 1, slot_value = Some v\<rparr>]\<rparr>"
    by (auto simp: table_insert_def Let_def split: if_splits)
  then show ?thesis by (simp add: table_sum_def)
next
  case False
  let ?i = "unat (last (ht_free t))"
  have i: "?i < length (ht_slots t)" "slot_value (ht_slots t ! ?i) = None"
    using assms(1) last_in_set [OF False] by (auto simp: table_wf_def)
  from False i(1) assms(2) have "ht_slots t' = (ht_slots t)[?i := (ht_slots t ! ?i)\<lparr>slot_value := Some v\<rparr>]"
    by (auto simp: table_insert_def Let_def)
  then have "table_sum f t' = sum_list (map (\<lambda>s. case slot_value s of None \<Rightarrow> 0 | Some v \<Rightarrow> f v)
      ((ht_slots t)[?i := (ht_slots t ! ?i)\<lparr>slot_value := Some v\<rparr>]))"
    by (simp add: table_sum_def)
  with table_sum_slot [OF i(1), of f "(ht_slots t ! ?i)\<lparr>slot_value := Some v\<rparr>"] i(2) show ?thesis by simp
qed

lemma table_insert_err: "table_wf t \<Longrightarrow> table_insert v t = (Inl e, t') \<Longrightarrow> e = Full \<and> t' = t"
  using last_in_set [of "ht_free t"]
  by (auto simp: table_insert_def Let_def table_wf_def split: if_splits)

lemma table_sum_remove:
  assumes "table_remove h t = (Inr v, t')"
  shows "table_sum f t' + f v = table_sum f t"
proof -
  let ?i = "unat (handle_index h)"
  have i: "?i < length (ht_slots t)" "slot_value (ht_slots t ! ?i) = Some v"
    and t': "ht_slots t' = (ht_slots t)[?i := (ht_slots t ! ?i)\<lparr>slot_generation :=
        next_generation (slot_generation (ht_slots t ! ?i)), slot_value := None\<rparr>]"
    using assms by (auto simp: table_remove_def Let_def split: if_splits option.splits)
  from table_sum_slot [OF i(1), of f "(ht_slots t ! ?i)\<lparr>slot_generation :=
        next_generation (slot_generation (ht_slots t ! ?i)), slot_value := None\<rparr>"] i(2)
  show ?thesis by (simp add: table_sum_def t')
qed

lemma table_sum_update:
  assumes "table_update h g t = (Inr v, t')"
  shows "table_sum f t' + f v = table_sum f t + f (g v)"
proof -
  let ?i = "unat (handle_index h)"
  have i: "?i < length (ht_slots t)" "slot_value (ht_slots t ! ?i) = Some v"
    and t': "ht_slots t' = (ht_slots t)[?i := (ht_slots t ! ?i)\<lparr>slot_value := Some (g v)\<rparr>]"
    using assms by (auto simp: table_update_def table_get_Inr Let_def split: sum.splits)
  from table_sum_slot [OF i(1), of f "(ht_slots t ! ?i)\<lparr>slot_value := Some (g v)\<rparr>"] i(2)
  show ?thesis by (simp add: table_sum_def t')
qed

lemma table_remove_err: "table_remove h t = (Inl e, t') \<Longrightarrow> t' = t"
  by (auto simp: table_remove_def Let_def split: if_splits option.splits)

lemma table_remove_get_Inr: "table_remove h t = (Inr v, t') \<Longrightarrow> table_get h t = Inr v"
  by (auto simp: table_remove_get split: sum.splits)

lemma table_update_err: "table_update h g t = (Inl e, t') \<Longrightarrow> t' = t"
  by (auto simp: table_update_def Let_def split: sum.splits)

lemma table_get_update_iff: "table_update h g t = (Inr v, t') \<Longrightarrow> table_get h t = Inr v"
  by (auto simp: table_update_def Let_def split: sum.splits)

section \<open>Association lists\<close>

lemma alist_sum_Nil [simp]: "alist_sum f [] = 0"
  by (simp add: alist_sum_def)

lemma alist_sum_append [simp]: "alist_sum f (xs @ ys) = alist_sum f xs + alist_sum f ys"
  by (simp add: alist_sum_def)

lemma alist_sum_Cons [simp]: "alist_sum f ((k, v) # xs) = f v + alist_sum f xs"
  by (simp add: alist_sum_def)

lemma alist_delete_absent: "k \<notin> fst ` set xs \<Longrightarrow> AList.delete k xs = xs"
  by (induction xs) auto

lemma alist_sum_delete:
  "distinct (map fst xs) \<Longrightarrow> map_of xs k = Some v \<Longrightarrow> alist_sum f (AList.delete k xs) + f v = alist_sum f xs"
proof (induction xs)
  case Nil
  then show ?case by simp
next
  case (Cons x xs)
  obtain k' v' where x: "x = (k', v')" by fastforce
  show ?case
  proof (cases "k' = k")
    case True
    with Cons.prems have "k \<notin> fst ` set xs" "v' = v" by (auto simp: x)
    then show ?thesis using True by (simp add: x alist_delete_absent ac_simps)
  next
    case False
    with Cons have "alist_sum f (AList.delete k xs) + f v = alist_sum f xs" by (simp add: x)
    with False show ?thesis by (simp add: x add.assoc)
  qed
qed

lemma alist_sum_update:
  "distinct (map fst xs) \<Longrightarrow> map_of xs k = Some v \<Longrightarrow> f v' = f v \<Longrightarrow> alist_sum f (AList.update k v' xs) = alist_sum f xs"
proof (induction xs)
  case Nil
  then show ?case by simp
next
  case (Cons x xs)
  obtain k' w where x: "x = (k', w)" by fastforce
  with Cons show ?case by (cases "k' = k") auto
qed

lemma alist_update_absent: "map_of xs k = None \<Longrightarrow> AList.update k v xs = xs @ [(k, v)]"
  by (induction xs) (auto split: if_splits)

end
