(* ===== verification/Stack_Bridge.thy ===== *)
theory Stack_Bridge
  imports Device Port_Pool Accounting
begin

text \<open>
  The stack bridge (\<open>stack.rs\<close>, \<open>StackBridge\<close>): socket pairs for the flows opened by the engine,
  sockets for the flows that arrive as packets, and the account of the memory they pin. smoltcp
  (interface and socket set) is the parameter \<open>N\<close>, a record of functions over a state of its own;
  time is an argument of \<open>poll\<close>. A hash map is an association list, its iteration order is the
  order of the list, and no lemma depends on it.

  An operation that does not return is \<^term>\<open>None\<close>: \<open>release\<close> below zero and an index out of
  range in a handle table panic, and the loop of \<open>drain_packet_udp\<close> is a \<^emph>\<open>partial_function\<close>. The main result is \<open>bridge_inv\<close>, which every operation keeps: the managed
  bytes are exactly the sum of what the live flows hold and never exceed the limit, the ports in
  use are exactly the ports of the live flows, and so nothing panics and nothing leaks.
\<close>

section \<open>smoltcp\<close>

type_synonym socket = nat

datatype udp_recv_error = Exhausted | Truncated
datatype udp_send_error = BufferFull | Unaddressable

record 'n smoltcp =
  sm_tcp_add :: "nat \<Rightarrow> nat \<Rightarrow> 'n \<Rightarrow> 'n \<times> socket"
  sm_tcp_listen_port :: "socket \<Rightarrow> u16 \<Rightarrow> 'n \<Rightarrow> 'n \<times> (string + unit)"
  sm_tcp_listen :: "socket \<Rightarrow> ip_endpoint \<Rightarrow> 'n \<Rightarrow> 'n \<times> (string + unit)"
  sm_tcp_connect :: "socket \<Rightarrow> ip_endpoint \<Rightarrow> u16 \<Rightarrow> 'n \<Rightarrow> 'n \<times> (string + unit)"
  sm_tcp_established :: "socket \<Rightarrow> 'n \<Rightarrow> bool"
  sm_tcp_can_recv :: "socket \<Rightarrow> 'n \<Rightarrow> bool"
  sm_tcp_may_recv :: "socket \<Rightarrow> 'n \<Rightarrow> bool"
  sm_tcp_can_send :: "socket \<Rightarrow> 'n \<Rightarrow> bool"
  sm_tcp_may_send :: "socket \<Rightarrow> 'n \<Rightarrow> bool"
  sm_tcp_recv :: "socket \<Rightarrow> bytes \<Rightarrow> 'n \<Rightarrow> 'n \<times> bytes \<times> (string + nat)"
  sm_tcp_send :: "socket \<Rightarrow> bytes \<Rightarrow> 'n \<Rightarrow> 'n \<times> (string + nat)"
  sm_tcp_close :: "socket \<Rightarrow> 'n \<Rightarrow> 'n"
  sm_udp_add :: "nat \<Rightarrow> nat \<Rightarrow> nat \<Rightarrow> 'n \<Rightarrow> 'n \<times> socket"
  sm_udp_bind_port :: "socket \<Rightarrow> u16 \<Rightarrow> 'n \<Rightarrow> 'n \<times> (unit + unit)"
  sm_udp_bind :: "socket \<Rightarrow> ip_endpoint \<Rightarrow> 'n \<Rightarrow> 'n \<times> (unit + unit)"
  sm_udp_peek :: "socket \<Rightarrow> 'n \<Rightarrow> udp_recv_error + (bytes \<times> ip_endpoint)"
  sm_udp_recv :: "socket \<Rightarrow> 'n \<Rightarrow> 'n \<times> (udp_recv_error + (bytes \<times> ip_endpoint))"
  sm_udp_recv_slice :: "socket \<Rightarrow> bytes \<Rightarrow> 'n \<Rightarrow> 'n \<times> bytes \<times> (udp_recv_error + nat)"
  sm_udp_send :: "socket \<Rightarrow> bytes \<Rightarrow> ip_endpoint \<Rightarrow> 'n \<Rightarrow> 'n \<times> (udp_send_error + unit)"
  sm_remove :: "socket \<Rightarrow> 'n \<Rightarrow> 'n"
  sm_poll_maintenance :: "nat \<Rightarrow> 'n \<Rightarrow> 'n"
  sm_poll_ingress :: "nat \<Rightarrow> 'n \<Rightarrow> device \<Rightarrow> 'n \<times> device \<times> bool"
  sm_poll_egress :: "nat \<Rightarrow> 'n \<Rightarrow> device \<Rightarrow> 'n \<times> device"
  sm_interface :: "bool \<Rightarrow> bool \<Rightarrow> nat \<Rightarrow> unit + 'n"

section \<open>Data\<close>

datatype stack_error = Resource | FlowLimit | StackPortLimit | StackStale | MetadataError
  | TcpError string | UdpError | Stopped

record flow_metadata =
  md_destination :: destination
  md_port :: u16
  md_opaque :: bytes

record tcp_flow =
  tf_adapter :: socket
  tf_policy :: socket
  tf_adapter_port :: u16
  tf_policy_port :: u16
  tf_metadata :: flow_metadata
  tf_managed :: nat

record udp_flow =
  uf_adapter :: socket
  uf_policy :: socket
  uf_adapter_port :: u16
  uf_policy_port :: u16
  uf_metadata :: flow_metadata
  uf_managed :: nat

record packet_tcp_flow =
  pt_socket :: socket
  pt_tuple :: packet_tuple
  pt_metadata :: flow_metadata
  pt_managed :: nat
  pt_queued :: bool

record packet_udp_group =
  pg_socket :: socket
  pg_managed :: nat
  pg_flows :: nat

record packet_udp_flow =
  pu_tuple :: packet_tuple
  pu_metadata :: flow_metadata
  pu_incoming :: "bytes option"

record 'n bridge =
  br_net :: 'n
  br_device :: device
  br_tcp_flows :: "tcp_flow handle_table"
  br_udp_flows :: "udp_flow handle_table"
  br_packet_tcp :: "packet_tcp_flow handle_table"
  br_tcp_by_tuple :: "(packet_tuple \<times> handle) list"
  br_pending_tcp :: "handle list"
  br_udp_groups :: "(ip_endpoint \<times> packet_udp_group) list"
  br_packet_udp :: "packet_udp_flow handle_table"
  br_udp_by_tuple :: "(packet_tuple \<times> handle) list"
  br_pending_udp :: "handle list"
  br_ports :: port_pool
  br_config :: stack_config
  br_managed :: nat
  br_max_managed :: nat
  br_max_ingress :: nat
  br_reassembly :: reassembly

type_synonym ('n, 'a) stack_call = "((stack_error + 'a) \<times> 'n bridge) option"

datatype side = Adapter | Policy

section \<open>The memory account\<close>

definition reserve :: "nat \<Rightarrow> 'n bridge \<Rightarrow> (stack_error + unit) \<times> 'n bridge" where
  "reserve n b =
     (case checked_add (br_managed b) n of
        None \<Rightarrow> (Inl Resource, b)
      | Some next_total \<Rightarrow>
          if br_max_managed b < next_total then (Inl Resource, b)
          else (Inr (), b\<lparr>br_managed := next_total\<rparr>))"

definition release :: "nat \<Rightarrow> 'n bridge \<Rightarrow> 'n bridge option" where
  "release n b = (if br_managed b < n then None else Some (b\<lparr>br_managed := br_managed b - n\<rparr>))"

definition fail_after_release :: "nat \<Rightarrow> stack_error \<Rightarrow> 'n bridge \<Rightarrow> ('n, 'a) stack_call" where
  "fail_after_release n e b = map_option (\<lambda>b. (Inl e, b)) (release n b)"

definition release_port :: "u16 \<Rightarrow> 'n bridge \<Rightarrow> 'n bridge" where
  "release_port port b = b\<lparr>br_ports := snd (port_release port (br_ports b))\<rparr>"

definition base_managed_bytes :: "stack_config \<Rightarrow> nat option" where
  "base_managed_bytes c =
     Option.bind (reassembly_managed_bytes (reassembly_slots c)) (\<lambda>n.
     Option.bind (Option.bind (checked_mul (reassembly_slots c) 65536) (\<lambda>smol. checked_add n smol)) (\<lambda>m.
     checked_add m (packet_queue_bytes c)))"

definition bridge_new :: "'n smoltcp \<Rightarrow> stack_config \<Rightarrow> nat \<Rightarrow> nat \<Rightarrow> nat \<Rightarrow> stack_error + 'n bridge" where
  "bridge_new N c flow_limit max_managed max_ingress =
     rbind (ok_or Resource (base_managed_bytes c)) (\<lambda>base.
     if max_managed < base then Inl Resource
     else
       rbind (map_err (\<lambda>_. Resource) (sm_interface N (ipv4_enabled c) (ipv6_enabled c) (reassembly_timeout_ms c))) (\<lambda>net.
       Inr \<lparr>br_net = net, br_device = device_new (mtu c) (packet_queue_bytes c),
            br_tcp_flows = handle_table_new 1 flow_limit, br_udp_flows = handle_table_new 2 flow_limit,
            br_packet_tcp = handle_table_new 3 flow_limit, br_tcp_by_tuple = [], br_pending_tcp = [],
            br_udp_groups = [], br_packet_udp = handle_table_new 4 flow_limit, br_udp_by_tuple = [],
            br_pending_udp = [], br_ports = port_pool_new, br_config = c, br_managed = base,
            br_max_managed = max_managed, br_max_ingress = max_ingress,
            br_reassembly = reassembly_new (reassembly_slots c) (reassembly_timeout_ms c)\<rparr>))"

definition validate_metadata :: "flow_metadata \<Rightarrow> stack_error + unit" where
  "validate_metadata m =
     (if md_port m = 0 \<or> MAX_METADATA < length (md_opaque m) then Inl MetadataError else Inr ())"

text \<open>Inserting into a handle table; the index panic of the table is \<^term>\<open>None\<close>.\<close>

definition insert_flow :: "'f \<Rightarrow> 'f handle_table \<Rightarrow> ((unit + handle) \<times> 'f handle_table) option" where
  "insert_flow f t =
     (case table_insert f t of
        (Inr h, t') \<Rightarrow> Some (Inr h, t')
      | (Inl IndexPanic, t') \<Rightarrow> None
      | (Inl e, t') \<Rightarrow> Some (Inl (), t'))"

section \<open>Flows that arrive as packets\<close>

definition endpoint_destination :: "ip_endpoint \<Rightarrow> destination" where
  "endpoint_destination e = (case ep_addr e of IpV4 a \<Rightarrow> Ipv4 a | IpV6 a \<Rightarrow> Ipv6 a)"

definition packet_metadata :: "ip_endpoint \<Rightarrow> flow_metadata" where
  "packet_metadata e = \<lparr>md_destination = endpoint_destination e, md_port = ep_port e, md_opaque = []\<rparr>"

definition front_tuple :: "(bytes \<Rightarrow> packet_tuple option) \<Rightarrow> 'n bridge \<Rightarrow> packet_tuple option" where
  "front_tuple classify b =
     (case dev_ingress (br_device b) of
        [] \<Rightarrow> None
      | p # _ \<Rightarrow> if qp_external p then classify (qp_bytes p) else None)"

definition prepare_packet_tcp :: "'n smoltcp \<Rightarrow> transport_view \<Rightarrow> 'n bridge \<Rightarrow> ('n, unit) stack_call" where
  "prepare_packet_tcp N V b =
     (case front_tuple (tcp_syn_tuple V) b of
        None \<Rightarrow> Some (Inr (), b)
      | Some tuple \<Rightarrow>
        if map_of (br_tcp_by_tuple b) tuple \<noteq> None then Some (Inr (), b)
        else
          (case checked_add (tcp_socket_rx_bytes (br_config b)) (tcp_socket_tx_bytes (br_config b)) of
             None \<Rightarrow> Some (Inl Resource, b)
           | Some bytes \<Rightarrow>
             (case reserve bytes b of
                (Inl e, b) \<Rightarrow> Some (Inl e, b)
              | (Inr _, b) \<Rightarrow>
                (case sm_tcp_add N (tcp_socket_rx_bytes (br_config b)) (tcp_socket_tx_bytes (br_config b)) (br_net b) of
                   (net, socket) \<Rightarrow>
                 (case sm_tcp_listen N socket (tuple_destination tuple) net of
                    (net, Inl error) \<Rightarrow> fail_after_release bytes (TcpError error) (b\<lparr>br_net := sm_remove N socket net\<rparr>)
                  | (net, Inr _) \<Rightarrow>
                    (case insert_flow \<lparr>pt_socket = socket, pt_tuple = tuple,
                             pt_metadata = packet_metadata (tuple_destination tuple),
                             pt_managed = bytes, pt_queued = False\<rparr> (br_packet_tcp b) of
                       None \<Rightarrow> None
                     | Some (Inl _, t) \<Rightarrow>
                         fail_after_release bytes FlowLimit (b\<lparr>br_net := sm_remove N socket net, br_packet_tcp := t\<rparr>)
                     | Some (Inr h, t) \<Rightarrow>
                         Some (Inr (), b\<lparr>br_net := net, br_packet_tcp := t,
                                         br_tcp_by_tuple := AList.update tuple h (br_tcp_by_tuple b)\<rparr>)))))))"

definition queue_one_established :: "'n smoltcp \<Rightarrow> handle \<Rightarrow> 'n bridge \<Rightarrow> 'n bridge" where
  "queue_one_established N h b =
     (case table_get h (br_packet_tcp b) of
        Inl _ \<Rightarrow> b
      | Inr flow \<Rightarrow>
          if \<not> pt_queued flow \<and> sm_tcp_established N (pt_socket flow) (br_net b)
          then b\<lparr>br_packet_tcp := snd (table_update h (\<lambda>f. f\<lparr>pt_queued := True\<rparr>) (br_packet_tcp b)),
                 br_pending_tcp := br_pending_tcp b @ [h]\<rparr>
          else b)"

definition queue_established_packet_tcp :: "'n smoltcp \<Rightarrow> 'n bridge \<Rightarrow> 'n bridge" where
  "queue_established_packet_tcp N b =
     fold (queue_one_established N) (map snd (br_tcp_by_tuple b)) b"

definition close_packet_tcp :: "'n smoltcp \<Rightarrow> handle \<Rightarrow> 'n bridge \<Rightarrow> ('n, unit) stack_call" where
  "close_packet_tcp N h b =
     (case table_remove h (br_packet_tcp b) of
        (Inl _, t) \<Rightarrow> Some (Inl StackStale, b\<lparr>br_packet_tcp := t\<rparr>)
      | (Inr flow, t) \<Rightarrow>
          map_option (\<lambda>b. (Inr (), b))
            (release (pt_managed flow)
              (b\<lparr>br_packet_tcp := t, br_tcp_by_tuple := AList.delete (pt_tuple flow) (br_tcp_by_tuple b),
                 br_pending_tcp := filter (\<lambda>p. p \<noteq> h) (br_pending_tcp b),
                 br_net := sm_remove N (pt_socket flow) (br_net b)\<rparr>)))"

definition prepare_packet_udp :: "'n smoltcp \<Rightarrow> transport_view \<Rightarrow> 'n bridge \<Rightarrow> ('n, unit) stack_call" where
  "prepare_packet_udp N V b =
     (case front_tuple (udp_tuple V) b of
        None \<Rightarrow> Some (Inr (), b)
      | Some tuple \<Rightarrow>
        if map_of (br_udp_groups b) (tuple_destination tuple) \<noteq> None then Some (Inr (), b)
        else
          (case checked_add (udp_socket_rx_bytes (br_config b)) (udp_socket_tx_bytes (br_config b)) of
             None \<Rightarrow> Some (Inl Resource, b)
           | Some bytes \<Rightarrow>
             (case reserve bytes b of
                (Inl e, b) \<Rightarrow> Some (Inl e, b)
              | (Inr _, b) \<Rightarrow>
                (case sm_udp_add N (udp_metadata_slots (br_config b)) (udp_socket_rx_bytes (br_config b))
                        (udp_socket_tx_bytes (br_config b)) (br_net b) of
                   (net, socket) \<Rightarrow>
                 (case sm_udp_bind N socket (tuple_destination tuple) net of
                    (net, Inl _) \<Rightarrow> fail_after_release bytes UdpError (b\<lparr>br_net := sm_remove N socket net\<rparr>)
                  | (net, Inr _) \<Rightarrow>
                      Some (Inr (), b\<lparr>br_net := net,
                        br_udp_groups := AList.update (tuple_destination tuple)
                          \<lparr>pg_socket = socket, pg_managed = bytes, pg_flows = 0\<rparr> (br_udp_groups b)\<rparr>))))))"

text \<open>
  One round of the inner loop of \<open>drain_packet_udp\<close>: \<open>Inl\<close> leaves the loop, \<open>Inr\<close> goes on.
\<close>

definition flow_is_full :: "packet_tuple \<Rightarrow> 'n bridge \<Rightarrow> bool" where
  "flow_is_full tuple b =
     (case map_of (br_udp_by_tuple b) tuple of
        None \<Rightarrow> False
      | Some h \<Rightarrow> (case table_get h (br_packet_udp b) of Inl _ \<Rightarrow> False | Inr flow \<Rightarrow> pu_incoming flow \<noteq> None))"

definition deliver_known :: "handle \<Rightarrow> bytes \<Rightarrow> 'n bridge \<Rightarrow> 'n bridge option" where
  "deliver_known h payload b =
     (case table_update h (\<lambda>f. f\<lparr>pu_incoming := Some payload\<rparr>) (br_packet_udp b) of
        (Inr _, t) \<Rightarrow> Some (b\<lparr>br_packet_udp := t\<rparr>)
      | (Inl _, _) \<Rightarrow> release (length payload) b)"

definition deliver_new :: "packet_tuple \<Rightarrow> bytes \<Rightarrow> nat \<Rightarrow> 'n bridge \<Rightarrow> ('n bridge + 'n bridge) option" where
  "deliver_new tuple payload reserved b =
     (let destination = tuple_destination tuple in
      case insert_flow \<lparr>pu_tuple = tuple, pu_metadata = packet_metadata destination, pu_incoming = Some payload\<rparr>
             (br_packet_udp b) of
        None \<Rightarrow> None
      | Some (Inl _, t) \<Rightarrow> map_option Inl (release reserved (b\<lparr>br_packet_udp := t\<rparr>))
      | Some (Inr h, t) \<Rightarrow>
          Some (Inr (b\<lparr>br_packet_udp := t,
            br_udp_by_tuple := AList.update tuple h (br_udp_by_tuple b),
            br_udp_groups := (case map_of (br_udp_groups b) destination of
                 None \<Rightarrow> br_udp_groups b
               | Some g \<Rightarrow> AList.update destination (g\<lparr>pg_flows := pg_flows g + 1\<rparr>) (br_udp_groups b)),
            br_pending_udp := br_pending_udp b @ [h]\<rparr>)))"

definition drain_step :: "'n smoltcp \<Rightarrow> ip_endpoint \<Rightarrow> 'n bridge \<Rightarrow> ('n bridge + 'n bridge) option" where
  "drain_step N destination b =
     (case map_of (br_udp_groups b) destination of
        None \<Rightarrow> Some (Inl b)
      | Some grp \<Rightarrow>
        (case sm_udp_peek N (pg_socket grp) (br_net b) of
           Inl _ \<Rightarrow> Some (Inl b)
         | Inr (peeked, source) \<Rightarrow>
           (let tuple = \<lparr>tuple_source = source, tuple_destination = destination\<rparr> in
            if flow_is_full tuple b then Some (Inl b)
            else
              (case reserve (length peeked) b of
                 (Inl _, b) \<Rightarrow> Some (Inl b)
               | (Inr _, b) \<Rightarrow>
                 (case sm_udp_recv N (pg_socket grp) (br_net b) of
                    (net, Inl _) \<Rightarrow> map_option Inl (release (length peeked) (b\<lparr>br_net := net\<rparr>))
                  | (net, Inr (payload, _)) \<Rightarrow>
                    (let b = b\<lparr>br_net := net\<rparr> in
                     case map_of (br_udp_by_tuple b) tuple of
                       Some h \<Rightarrow> map_option Inr (deliver_known h payload b)
                     | None \<Rightarrow> deliver_new tuple payload (length peeked) b))))))"

partial_function (option) drain_loop :: "'n smoltcp \<Rightarrow> ip_endpoint \<Rightarrow> 'n bridge \<Rightarrow> 'n bridge option" where
  "drain_loop N destination b =
     (case drain_step N destination b of
        None \<Rightarrow> None
      | Some (Inl b') \<Rightarrow> Some b'
      | Some (Inr b') \<Rightarrow> drain_loop N destination b')"

declare drain_loop.simps [code]

fun drain_all :: "'n smoltcp \<Rightarrow> ip_endpoint list \<Rightarrow> 'n bridge \<Rightarrow> 'n bridge option" where
  "drain_all N [] b = Some b"
| "drain_all N (d # ds) b = Option.bind (drain_loop N d b) (drain_all N ds)"

definition drain_packet_udp :: "'n smoltcp \<Rightarrow> 'n bridge \<Rightarrow> 'n bridge option" where
  "drain_packet_udp N b = drain_all N (map fst (br_udp_groups b)) b"

definition release_opt :: "nat option \<Rightarrow> 'n bridge \<Rightarrow> 'n bridge option" where
  "release_opt n b = (case n of None \<Rightarrow> Some b | Some k \<Rightarrow> release k b)"

definition drop_flow_from_group :: "'n smoltcp \<Rightarrow> ip_endpoint \<Rightarrow> 'n bridge \<Rightarrow> 'n bridge option" where
  "drop_flow_from_group N destination b =
     (case map_of (br_udp_groups b) destination of
        None \<Rightarrow> Some b
      | Some g \<Rightarrow>
          if pg_flows g - 1 = 0
          then release (pg_managed g)
                 (b\<lparr>br_udp_groups := AList.delete destination (br_udp_groups b),
                    br_net := sm_remove N (pg_socket g) (br_net b)\<rparr>)
          else Some (b\<lparr>br_udp_groups :=
                 AList.update destination (g\<lparr>pg_flows := pg_flows g - 1\<rparr>) (br_udp_groups b)\<rparr>))"

definition close_packet_udp :: "'n smoltcp \<Rightarrow> handle \<Rightarrow> 'n bridge \<Rightarrow> ('n, unit) stack_call" where
  "close_packet_udp N h b =
     (case table_remove h (br_packet_udp b) of
        (Inl _, t) \<Rightarrow> Some (Inl StackStale, b\<lparr>br_packet_udp := t\<rparr>)
      | (Inr flow, t) \<Rightarrow>
          Option.bind (release_opt (map_option length (pu_incoming flow)) (b\<lparr>br_packet_udp := t\<rparr>)) (\<lambda>b.
          let b = b\<lparr>br_udp_by_tuple := AList.delete (pu_tuple flow) (br_udp_by_tuple b),
                    br_pending_udp := filter (\<lambda>p. p \<noteq> h) (br_pending_udp b)\<rparr> in
          map_option (\<lambda>b. (Inr (), b)) (drop_flow_from_group N (tuple_destination (pu_tuple flow)) b)))"

section \<open>Polling\<close>

definition pop_front_packet :: "'n bridge \<Rightarrow> 'n bridge option" where
  "pop_front_packet b = map_option (\<lambda>(p, d). b\<lparr>br_device := d\<rparr>) (device_pop_ingress (br_device b))"

text \<open>One round of the ingress loop; the flag says whether the loop goes on.\<close>

definition ingress_round :: "'n smoltcp \<Rightarrow> transport_view \<Rightarrow> nat \<Rightarrow> 'n bridge \<Rightarrow> (bool \<times> 'n bridge) option" where
  "ingress_round N V now b =
     Option.bind (prepare_packet_tcp N V b) (\<lambda>(r, b).
     Option.bind (case r of Inl _ \<Rightarrow> pop_front_packet b | Inr _ \<Rightarrow> Some b) (\<lambda>b.
     Option.bind (prepare_packet_udp N V b) (\<lambda>(r, b).
     case r of
       Inl _ \<Rightarrow> map_option (\<lambda>b. (True, b)) (pop_front_packet b)
     | Inr _ \<Rightarrow>
         (case sm_poll_ingress N now (br_net b) (br_device b) of (net, dev, none) \<Rightarrow>
            Some (\<not> none, b\<lparr>br_net := net, br_device := dev\<rparr>)))))"

fun ingress_loop :: "'n smoltcp \<Rightarrow> transport_view \<Rightarrow> nat \<Rightarrow> nat \<Rightarrow> 'n bridge \<Rightarrow> 'n bridge option" where
  "ingress_loop N V now 0 b = Some b"
| "ingress_loop N V now (Suc k) b =
     Option.bind (ingress_round N V now b) (\<lambda>(go_on, b). if go_on then ingress_loop N V now k b else Some b)"

definition bridge_poll :: "'n smoltcp \<Rightarrow> transport_view \<Rightarrow> nat \<Rightarrow> 'n bridge \<Rightarrow> 'n bridge option" where
  "bridge_poll N V now b =
     (let b = b\<lparr>br_net := sm_poll_maintenance N now (br_net b)\<rparr> in
      Option.bind (ingress_loop N V now (br_max_ingress b) b) (\<lambda>b.
      Option.bind (drain_packet_udp N (queue_established_packet_tcp N b)) (\<lambda>b.
      case sm_poll_egress N now (br_net b) (br_device b) of (net, dev) \<Rightarrow>
        Some (b\<lparr>br_net := net, br_device := dev\<rparr>))))"

fun poll_times :: "nat \<Rightarrow> 'n smoltcp \<Rightarrow> transport_view \<Rightarrow> nat \<Rightarrow> 'n bridge \<Rightarrow> 'n bridge option" where
  "poll_times 0 N V now b = Some b"
| "poll_times (Suc k) N V now b = Option.bind (bridge_poll N V now b) (poll_times k N V now)"

section \<open>Flows opened by the engine\<close>

definition localhost :: ip_address where "localhost = IpV4 0x7f000001"

definition pair_bytes :: "nat \<Rightarrow> nat \<Rightarrow> nat option" where
  "pair_bytes rx tx = Option.bind (checked_add rx tx) (\<lambda>one. checked_mul one 2)"

text \<open>
  Two ports, or an error after everything taken so far has been given back. The inner error is
  the \<open>?\<close> on the release of the first port.
\<close>

definition allocate_ports :: "nat \<Rightarrow> 'n bridge \<Rightarrow> ('n, u16 \<times> u16) stack_call" where
  "allocate_ports bytes b =
     (case port_allocate (br_ports b) of
        (Inl _, _) \<Rightarrow> fail_after_release bytes StackPortLimit b
      | (Inr adapter_port, ports) \<Rightarrow>
        (case port_allocate ports of
           (Inl _, _) \<Rightarrow>
             (case port_release adapter_port ports of
                (Inl _, ports) \<Rightarrow> Some (Inl StackStale, b\<lparr>br_ports := ports\<rparr>)
              | (Inr _, ports) \<Rightarrow> fail_after_release bytes StackPortLimit (b\<lparr>br_ports := ports\<rparr>))
         | (Inr policy_port, ports) \<Rightarrow> Some (Inr (adapter_port, policy_port), b\<lparr>br_ports := ports\<rparr>)))"

definition cleanup_sockets ::
    "'n smoltcp \<Rightarrow> socket \<Rightarrow> socket \<Rightarrow> u16 \<Rightarrow> u16 \<Rightarrow> nat \<Rightarrow> stack_error \<Rightarrow> 'n bridge \<Rightarrow> ('n, 'a) stack_call" where
  "cleanup_sockets N adapter policy adapter_port policy_port bytes e b =
     fail_after_release bytes e
       (release_port policy_port (release_port adapter_port
         (b\<lparr>br_net := sm_remove N policy (sm_remove N adapter (br_net b))\<rparr>)))"

definition open_tcp :: "'n smoltcp \<Rightarrow> transport_view \<Rightarrow> nat \<Rightarrow> flow_metadata \<Rightarrow> 'n bridge \<Rightarrow> ('n, handle) stack_call" where
  "open_tcp N V now metadata b =
     (let c = br_config b; rx = tcp_socket_rx_bytes c; tx = tcp_socket_tx_bytes c in
      case validate_metadata metadata of
        Inl e \<Rightarrow> Some (Inl e, b)
      | Inr _ \<Rightarrow>
      (case pair_bytes rx tx of
         None \<Rightarrow> Some (Inl Resource, b)
       | Some bytes \<Rightarrow>
      (case reserve bytes b of
         (Inl e, b) \<Rightarrow> Some (Inl e, b)
       | (Inr _, b) \<Rightarrow>
      Option.bind (allocate_ports bytes b) (\<lambda>(ports, b).
      case ports of
        Inl e \<Rightarrow> Some (Inl e, b)
      | Inr (adapter_port, policy_port) \<Rightarrow>
      (case sm_tcp_add N rx tx (br_net b) of (net, policy) \<Rightarrow>
      (case sm_tcp_add N rx tx net of (net, adapter) \<Rightarrow>
      (case sm_tcp_listen_port N policy policy_port net of
         (net, Inl error) \<Rightarrow>
           cleanup_sockets N adapter policy adapter_port policy_port bytes (TcpError error) (b\<lparr>br_net := net\<rparr>)
       | (net, Inr _) \<Rightarrow>
      (case sm_tcp_connect N adapter \<lparr>ep_addr = localhost, ep_port = policy_port\<rparr> adapter_port net of
         (net, Inl error) \<Rightarrow>
           cleanup_sockets N adapter policy adapter_port policy_port bytes (TcpError error) (b\<lparr>br_net := net\<rparr>)
       | (net, Inr _) \<Rightarrow>
      (let b = b\<lparr>br_net := net\<rparr> in
       case insert_flow \<lparr>tf_adapter = adapter, tf_policy = policy, tf_adapter_port = adapter_port,
              tf_policy_port = policy_port, tf_metadata = metadata, tf_managed = bytes\<rparr> (br_tcp_flows b) of
         None \<Rightarrow> None
       | Some (Inl _, t) \<Rightarrow>
           cleanup_sockets N adapter policy adapter_port policy_port bytes FlowLimit (b\<lparr>br_tcp_flows := t\<rparr>)
       | Some (Inr h, t) \<Rightarrow>
           map_option (\<lambda>b. (Inr h, b)) (poll_times 8 N V now (b\<lparr>br_tcp_flows := t\<rparr>)))))))))))"

definition open_udp :: "'n smoltcp \<Rightarrow> flow_metadata \<Rightarrow> 'n bridge \<Rightarrow> ('n, handle) stack_call" where
  "open_udp N metadata b =
     (let c = br_config b; rx = udp_socket_rx_bytes c; tx = udp_socket_tx_bytes c; slots = udp_metadata_slots c in
      case validate_metadata metadata of
        Inl e \<Rightarrow> Some (Inl e, b)
      | Inr _ \<Rightarrow>
      (case pair_bytes rx tx of
         None \<Rightarrow> Some (Inl Resource, b)
       | Some bytes \<Rightarrow>
      (case reserve bytes b of
         (Inl e, b) \<Rightarrow> Some (Inl e, b)
       | (Inr _, b) \<Rightarrow>
      Option.bind (allocate_ports bytes b) (\<lambda>(ports, b).
      case ports of
        Inl e \<Rightarrow> Some (Inl e, b)
      | Inr (adapter_port, policy_port) \<Rightarrow>
      (case sm_udp_add N slots rx tx (br_net b) of (net, adapter) \<Rightarrow>
      (case sm_udp_add N slots rx tx net of (net, policy) \<Rightarrow>
      (case sm_udp_bind_port N adapter adapter_port net of
         (net, Inl _) \<Rightarrow>
           cleanup_sockets N adapter policy adapter_port policy_port bytes UdpError (b\<lparr>br_net := net\<rparr>)
       | (net, Inr _) \<Rightarrow>
      (case sm_udp_bind_port N policy policy_port net of
         (net, Inl _) \<Rightarrow>
           cleanup_sockets N adapter policy adapter_port policy_port bytes UdpError (b\<lparr>br_net := net\<rparr>)
       | (net, Inr _) \<Rightarrow>
      (let b = b\<lparr>br_net := net\<rparr> in
       case insert_flow \<lparr>uf_adapter = adapter, uf_policy = policy, uf_adapter_port = adapter_port,
              uf_policy_port = policy_port, uf_metadata = metadata, uf_managed = bytes\<rparr> (br_udp_flows b) of
         None \<Rightarrow> None
       | Some (Inl _, t) \<Rightarrow>
           cleanup_sockets N adapter policy adapter_port policy_port bytes FlowLimit (b\<lparr>br_udp_flows := t\<rparr>)
       | Some (Inr h, t) \<Rightarrow> Some (Inr h, b\<lparr>br_udp_flows := t\<rparr>))))))))))"

text \<open>The ports and the memory of a removed pair; each \<open>?\<close> leaves early.\<close>

definition close_pair :: "'n smoltcp \<Rightarrow> socket \<Rightarrow> socket \<Rightarrow> u16 \<Rightarrow> u16 \<Rightarrow> nat \<Rightarrow> 'n bridge \<Rightarrow> ('n, unit) stack_call" where
  "close_pair N adapter policy adapter_port policy_port bytes b =
     (let b = b\<lparr>br_net := sm_remove N policy (sm_remove N adapter (br_net b))\<rparr> in
      case port_release adapter_port (br_ports b) of
        (Inl _, ports) \<Rightarrow> Some (Inl StackStale, b\<lparr>br_ports := ports\<rparr>)
      | (Inr _, ports) \<Rightarrow>
        (case port_release policy_port ports of
           (Inl _, ports) \<Rightarrow> Some (Inl StackStale, b\<lparr>br_ports := ports\<rparr>)
         | (Inr _, ports) \<Rightarrow> map_option (\<lambda>b. (Inr (), b)) (release bytes (b\<lparr>br_ports := ports\<rparr>))))"

definition close_tcp :: "'n smoltcp \<Rightarrow> handle \<Rightarrow> 'n bridge \<Rightarrow> ('n, unit) stack_call" where
  "close_tcp N h b =
     (case table_remove h (br_tcp_flows b) of
        (Inl _, t) \<Rightarrow> Some (Inl StackStale, b\<lparr>br_tcp_flows := t\<rparr>)
      | (Inr f, t) \<Rightarrow>
          close_pair N (tf_adapter f) (tf_policy f) (tf_adapter_port f) (tf_policy_port f) (tf_managed f)
            (b\<lparr>br_tcp_flows := t\<rparr>))"

definition close_udp :: "'n smoltcp \<Rightarrow> handle \<Rightarrow> 'n bridge \<Rightarrow> ('n, unit) stack_call" where
  "close_udp N h b =
     (case table_remove h (br_udp_flows b) of
        (Inl _, t) \<Rightarrow> Some (Inl StackStale, b\<lparr>br_udp_flows := t\<rparr>)
      | (Inr f, t) \<Rightarrow>
          close_pair N (uf_adapter f) (uf_policy f) (uf_adapter_port f) (uf_policy_port f) (uf_managed f)
            (b\<lparr>br_udp_flows := t\<rparr>))"

section \<open>The invariant\<close>

definition incoming_bytes :: "packet_udp_flow \<Rightarrow> nat" where
  "incoming_bytes f = (case pu_incoming f of None \<Rightarrow> 0 | Some p \<Rightarrow> length p)"

definition held_bytes :: "'n bridge \<Rightarrow> nat" where
  "held_bytes b = table_sum tf_managed (br_tcp_flows b) + table_sum uf_managed (br_udp_flows b)
     + table_sum pt_managed (br_packet_tcp b) + alist_sum pg_managed (br_udp_groups b)
     + table_sum incoming_bytes (br_packet_udp b)"

definition held_ports :: "'n bridge \<Rightarrow> u16 multiset" where
  "held_ports b = table_sum (\<lambda>f. {#tf_adapter_port f, tf_policy_port f#}) (br_tcp_flows b)
     + table_sum (\<lambda>f. {#uf_adapter_port f, uf_policy_port f#}) (br_udp_flows b)"

text \<open>
  The account inside an operation, while \<open>x\<close> bytes and the ports \<open>P\<close> are taken but not yet
  owned by a flow.
\<close>

definition bridge_ok :: "nat \<Rightarrow> u16 multiset \<Rightarrow> 'n bridge \<Rightarrow> bool" where
  "bridge_ok x P b \<longleftrightarrow>
     device_inv (br_device b) \<and> reassembly_wf (br_reassembly b)
     \<and> table_wf (br_tcp_flows b) \<and> table_wf (br_udp_flows b)
     \<and> table_wf (br_packet_tcp b) \<and> table_wf (br_packet_udp b)
     \<and> distinct (map fst (br_udp_groups b)) \<and> port_pool_wf (br_ports b)
     \<and> (\<exists>base. base_managed_bytes (br_config b) = Some base \<and> br_managed b = base + held_bytes b + x)
     \<and> br_managed b \<le> br_max_managed b
     \<and> mset_set (ports_in_use (br_ports b)) = held_ports b + P"

definition bridge_inv :: "'n bridge \<Rightarrow> bool" where
  "bridge_inv b \<longleftrightarrow> bridge_ok 0 {#} b"

text \<open>What is relied on of smoltcp: it uses the device as a device, and \<open>recv\<close> dequeues what \<open>peek\<close> showed.\<close>

definition smoltcp_ok :: "'n smoltcp \<Rightarrow> bool" where
  "smoltcp_ok N \<longleftrightarrow>
     (\<forall>now n d. device_reach d (fst (snd (sm_poll_ingress N now n d))))
     \<and> (\<forall>now n d. device_reach d (snd (sm_poll_egress N now n d)))
     \<and> (\<forall>s n p e n' p' e'. sm_udp_peek N s n = Inr (p, e) \<longrightarrow> sm_udp_recv N s n = (n', Inr (p', e')) \<longrightarrow> p' = p)
     \<and> (\<exists>backlog :: socket \<Rightarrow> 'n \<Rightarrow> nat. \<forall>s n n' p e.
          sm_udp_recv N s n = (n', Inr (p, e)) \<longrightarrow> backlog s n' < backlog s n)"

definition same_flows :: "'n bridge \<Rightarrow> 'n bridge \<Rightarrow> bool" where
  "same_flows b b' \<longleftrightarrow> br_tcp_flows b' = br_tcp_flows b \<and> br_udp_flows b' = br_udp_flows b
     \<and> br_packet_tcp b' = br_packet_tcp b \<and> br_packet_udp b' = br_packet_udp b
     \<and> br_udp_groups b' = br_udp_groups b \<and> br_config b' = br_config b"

named_theorems bridge_frame \<open>updates that leave the accounts alone\<close>

lemma held_frame [bridge_frame]:
  "held_bytes (b\<lparr>br_net := n\<rparr>) = held_bytes b" "held_ports (b\<lparr>br_net := n\<rparr>) = held_ports b"
  "held_bytes (b\<lparr>br_device := d\<rparr>) = held_bytes b" "held_ports (b\<lparr>br_device := d\<rparr>) = held_ports b"
  "held_bytes (b\<lparr>br_managed := m\<rparr>) = held_bytes b" "held_ports (b\<lparr>br_managed := m\<rparr>) = held_ports b"
  "held_bytes (b\<lparr>br_ports := q\<rparr>) = held_bytes b" "held_ports (b\<lparr>br_ports := q\<rparr>) = held_ports b"
  "held_bytes (b\<lparr>br_tcp_by_tuple := a\<rparr>) = held_bytes b" "held_ports (b\<lparr>br_tcp_by_tuple := a\<rparr>) = held_ports b"
  "held_bytes (b\<lparr>br_udp_by_tuple := a\<rparr>) = held_bytes b" "held_ports (b\<lparr>br_udp_by_tuple := a\<rparr>) = held_ports b"
  "held_bytes (b\<lparr>br_pending_tcp := l\<rparr>) = held_bytes b" "held_ports (b\<lparr>br_pending_tcp := l\<rparr>) = held_ports b"
  "held_bytes (b\<lparr>br_pending_udp := l\<rparr>) = held_bytes b" "held_ports (b\<lparr>br_pending_udp := l\<rparr>) = held_ports b"
  "held_bytes (b\<lparr>br_reassembly := r\<rparr>) = held_bytes b" "held_ports (b\<lparr>br_reassembly := r\<rparr>) = held_ports b"
  "held_ports (b\<lparr>br_packet_tcp := t\<rparr>) = held_ports b" "held_ports (b\<lparr>br_packet_udp := u\<rparr>) = held_ports b"
  "held_ports (b\<lparr>br_udp_groups := g\<rparr>) = held_ports b"
  by (simp_all add: held_bytes_def held_ports_def)

lemma bridge_ok_frame [simp]:
  "bridge_ok x P (b\<lparr>br_net := n\<rparr>) = bridge_ok x P b"
  "bridge_ok x P (b\<lparr>br_tcp_by_tuple := a\<rparr>) = bridge_ok x P b"
  "bridge_ok x P (b\<lparr>br_udp_by_tuple := a\<rparr>) = bridge_ok x P b"
  "bridge_ok x P (b\<lparr>br_pending_tcp := l\<rparr>) = bridge_ok x P b"
  "bridge_ok x P (b\<lparr>br_pending_udp := l\<rparr>) = bridge_ok x P b"
  by (simp_all add: bridge_ok_def bridge_frame)

lemma bridge_ok_device:
  assumes "bridge_ok x P b" and "device_inv d"
  shows "bridge_ok x P (b\<lparr>br_device := d\<rparr>)"
  using assms by (simp add: bridge_ok_def bridge_frame)

lemma reserve_ok:
  assumes "bridge_ok x P b" and "reserve n b = (Inr u, b')"
  shows "bridge_ok (x + n) P b' \<and> b' = b\<lparr>br_managed := br_managed b + n\<rparr>"
  using assms by (auto simp: reserve_def bridge_ok_def bridge_frame split: option.splits if_splits)

lemma reserve_same: "reserve n b = (Inr u, b') \<Longrightarrow> b' = b\<lparr>br_managed := br_managed b + n\<rparr>"
  by (auto simp: reserve_def split: option.splits if_splits)

lemma reserve_err: "reserve n b = (Inl e, b') \<Longrightarrow> b' = b \<and> e = Resource"
  by (auto simp: reserve_def split: option.splits if_splits)

lemma release_ok:
  assumes "bridge_ok (x + n) P b"
  shows "\<exists>b'. release n b = Some b' \<and> bridge_ok x P b' \<and> b' = b\<lparr>br_managed := br_managed b - n\<rparr>"
  using assms by (auto simp: release_def bridge_ok_def bridge_frame)

lemma fail_after_release_ok:
  assumes "bridge_ok (x + n) P b"
  shows "\<exists>b'. fail_after_release n e b = Some (Inl e, b') \<and> bridge_ok x P b' \<and> same_flows b b'"
  using release_ok [OF assms] by (auto simp: fail_after_release_def same_flows_def)

lemma insert_flow_ok:
  assumes "table_wf t"
  shows "(\<exists>h t'. insert_flow f t = Some (Inr h, t') \<and> table_wf t' \<and> table_insert f t = (Inr h, t')) \<or>
         insert_flow f t = Some (Inl (), t)"
proof -
  obtain r t' where i: "table_insert f t = (r, t')" by fastforce
  show ?thesis
  proof (cases r)
    case (Inl e)
    with i have "table_insert f t = (Inl e, t')" by simp
    from table_insert_err [OF assms this] this show ?thesis by (simp add: insert_flow_def)
  next
    case (Inr h)
    with i table_wf_insert [OF assms, of f] show ?thesis by (auto simp: insert_flow_def)
  qed
qed

section \<open>Every operation keeps the account\<close>

lemma bridge_ok_tables:
  assumes "bridge_ok x P b"
  shows "table_wf (br_tcp_flows b)" "table_wf (br_udp_flows b)" "table_wf (br_packet_tcp b)"
    "table_wf (br_packet_udp b)" "distinct (map fst (br_udp_groups b))" "port_pool_wf (br_ports b)"
    "device_inv (br_device b)" "br_managed b \<le> br_max_managed b"
  using assms by (auto simp: bridge_ok_def)

text \<open>Bytes move from the operation to a flow and back.\<close>

lemma bridge_ok_packet_tcp:
  assumes "bridge_ok (x + n) P b" and "table_wf t"
    and "table_sum pt_managed t + m = table_sum pt_managed (br_packet_tcp b) + n"
  shows "bridge_ok (x + m) P (b\<lparr>br_packet_tcp := t\<rparr>)"
  using assms by (auto simp: bridge_ok_def bridge_frame held_bytes_def)

lemma bridge_ok_packet_udp:
  assumes "bridge_ok (x + n) P b" and "table_wf t"
    and "table_sum incoming_bytes t + m = table_sum incoming_bytes (br_packet_udp b) + n"
  shows "bridge_ok (x + m) P (b\<lparr>br_packet_udp := t\<rparr>)"
  using assms by (auto simp: bridge_ok_def bridge_frame held_bytes_def)

lemma bridge_ok_groups:
  assumes "bridge_ok (x + n) P b" and "distinct (map fst g)"
    and "alist_sum pg_managed g + m = alist_sum pg_managed (br_udp_groups b) + n"
  shows "bridge_ok (x + m) P (b\<lparr>br_udp_groups := g\<rparr>)"
  using assms by (auto simp: bridge_ok_def bridge_frame held_bytes_def)

lemma bridge_ok_tcp_flows:
  assumes "bridge_ok (x + n) (P + A) b" and "table_wf t"
    and "table_sum tf_managed t + m = table_sum tf_managed (br_tcp_flows b) + n"
    and "table_sum (\<lambda>f. {#tf_adapter_port f, tf_policy_port f#}) t + B
       = table_sum (\<lambda>f. {#tf_adapter_port f, tf_policy_port f#}) (br_tcp_flows b) + A"
  shows "bridge_ok (x + m) (P + B) (b\<lparr>br_tcp_flows := t\<rparr>)"
proof -
  let ?f = "\<lambda>f. {#tf_adapter_port f, tf_policy_port f#}"
  have "held_ports (b\<lparr>br_tcp_flows := t\<rparr>) + (P + B) = (table_sum ?f t + B) + (held_ports b - table_sum ?f (br_tcp_flows b)) + P"
    by (simp add: held_ports_def)
  also have "\<dots> = held_ports b + (P + A)" unfolding assms(4) by (simp add: held_ports_def)
  finally show ?thesis using assms(1-3) by (auto simp: bridge_ok_def held_bytes_def)
qed

lemma bridge_ok_udp_flows:
  assumes "bridge_ok (x + n) (P + A) b" and "table_wf t"
    and "table_sum uf_managed t + m = table_sum uf_managed (br_udp_flows b) + n"
    and "table_sum (\<lambda>f. {#uf_adapter_port f, uf_policy_port f#}) t + B
       = table_sum (\<lambda>f. {#uf_adapter_port f, uf_policy_port f#}) (br_udp_flows b) + A"
  shows "bridge_ok (x + m) (P + B) (b\<lparr>br_udp_flows := t\<rparr>)"
proof -
  let ?f = "\<lambda>f. {#uf_adapter_port f, uf_policy_port f#}"
  have "held_ports (b\<lparr>br_udp_flows := t\<rparr>) + (P + B) = (held_ports b - table_sum ?f (br_udp_flows b)) + (table_sum ?f t + B) + P"
    by (simp add: held_ports_def)
  also have "\<dots> = held_ports b + (P + A)" unfolding assms(4) by (simp add: held_ports_def)
  finally show ?thesis using assms(1-3) by (auto simp: bridge_ok_def held_bytes_def)
qed

lemma prepare_packet_tcp_ok:
  assumes "bridge_ok x P b"
  shows "\<exists>r b'. prepare_packet_tcp N V b = Some (r, b') \<and> bridge_ok x P b'"
proof (cases "front_tuple (tcp_syn_tuple V) b")
  case None
  with assms show ?thesis by (simp add: prepare_packet_tcp_def)
next
  case (Some tuple)
  show ?thesis
  proof (cases "map_of (br_tcp_by_tuple b) tuple = None \<and>
      tcp_socket_rx_bytes (br_config b) + tcp_socket_tx_bytes (br_config b) \<le> usize_max")
    case False
    with Some assms show ?thesis by (auto simp: prepare_packet_tcp_def split: option.splits)
  next
    case True
    define bytes where "bytes = tcp_socket_rx_bytes (br_config b) + tcp_socket_tx_bytes (br_config b)"
    obtain r b1 where rs: "reserve bytes b = (r, b1)" by fastforce
    show ?thesis
    proof (cases r)
      case (Inl e)
      with rs Some True assms reserve_err [of bytes b e b1] show ?thesis
        by (simp add: prepare_packet_tcp_def bytes_def)
    next
      case (Inr u)
      with rs have ok1: "bridge_ok (x + bytes) P b1" using reserve_ok [OF assms] by blast
      have "b1 = b\<lparr>br_managed := br_managed b + bytes\<rparr>" by (rule reserve_same) (use rs Inr in simp)
      then have cfg: "br_config b1 = br_config b" by simp
      obtain net s where add: "sm_tcp_add N (tcp_socket_rx_bytes (br_config b)) (tcp_socket_tx_bytes (br_config b)) (br_net b1) = (net, s)"
        by fastforce
      obtain net' l where li: "sm_tcp_listen N s (tuple_destination tuple) net = (net', l)" by fastforce
      let ?flow = "\<lparr>pt_socket = s, pt_tuple = tuple, pt_metadata = packet_metadata (tuple_destination tuple),
                             pt_managed = bytes, pt_queued = False\<rparr>"
      show ?thesis
      proof (cases l)
        case (Inl e)
        with rs Inr Some True add li cfg fail_after_release_ok [of x bytes P "b1\<lparr>br_net := sm_remove N s net'\<rparr>" "TcpError e"] ok1
        show ?thesis by (auto simp: prepare_packet_tcp_def bytes_def)
      next
        case inr: (Inr u')
        consider h t where "insert_flow ?flow (br_packet_tcp b1) = Some (Inr h, t)" "table_wf t"
            "table_insert ?flow (br_packet_tcp b1) = (Inr h, t)"
          | "insert_flow ?flow (br_packet_tcp b1) = Some (Inl (), br_packet_tcp b1)"
          using insert_flow_ok [OF bridge_ok_tables(3) [OF ok1], of ?flow] by blast
        then show ?thesis
        proof cases
          case (1 h t)
          have "table_sum pt_managed t + 0 = table_sum pt_managed (br_packet_tcp b1) + bytes"
            using table_sum_insert [OF bridge_ok_tables(3) [OF ok1] 1(3), of pt_managed] by simp
          with bridge_ok_packet_tcp [of x bytes P "b1\<lparr>br_net := net'\<rparr>" t 0] ok1 1(2)
          have "bridge_ok x P (b1\<lparr>br_net := net', br_packet_tcp := t\<rparr>)" by simp
          with rs Inr Some True add li cfg inr 1(1) show ?thesis
            by (simp add: prepare_packet_tcp_def bytes_def)
        next
          case 2
          with rs Inr Some True add li cfg inr ok1
            fail_after_release_ok [of x bytes P "b1\<lparr>br_net := sm_remove N s net'\<rparr>" FlowLimit]
          show ?thesis by (auto simp: prepare_packet_tcp_def bytes_def)
        qed
      qed
    qed
  qed
qed

lemma prepare_packet_udp_ok:
  assumes "bridge_ok x P b"
  shows "\<exists>r b'. prepare_packet_udp N V b = Some (r, b') \<and> bridge_ok x P b'"
proof (cases "front_tuple (udp_tuple V) b")
  case None
  with assms show ?thesis by (simp add: prepare_packet_udp_def)
next
  case (Some tuple)
  let ?d = "tuple_destination tuple"
  show ?thesis
  proof (cases "map_of (br_udp_groups b) ?d = None \<and>
      udp_socket_rx_bytes (br_config b) + udp_socket_tx_bytes (br_config b) \<le> usize_max")
    case False
    with Some assms show ?thesis by (auto simp: prepare_packet_udp_def split: option.splits)
  next
    case True
    define bytes where "bytes = udp_socket_rx_bytes (br_config b) + udp_socket_tx_bytes (br_config b)"
    obtain r b1 where rs: "reserve bytes b = (r, b1)" by fastforce
    show ?thesis
    proof (cases r)
      case (Inl e)
      with rs Some True assms reserve_err [of bytes b e b1] show ?thesis
        by (simp add: prepare_packet_udp_def bytes_def)
    next
      case (Inr u)
      with rs have ok1: "bridge_ok (x + bytes) P b1" using reserve_ok [OF assms] by blast
      have "b1 = b\<lparr>br_managed := br_managed b + bytes\<rparr>" by (rule reserve_same) (use rs Inr in simp)
      then have cfg: "br_config b1 = br_config b" "br_udp_groups b1 = br_udp_groups b" by simp_all
      obtain net s where add: "sm_udp_add N (udp_metadata_slots (br_config b)) (udp_socket_rx_bytes (br_config b))
          (udp_socket_tx_bytes (br_config b)) (br_net b1) = (net, s)" by fastforce
      obtain net' l where li: "sm_udp_bind N s ?d net = (net', l)" by fastforce
      show ?thesis
      proof (cases l)
        case (Inl e)
        with rs Inr Some True add li cfg fail_after_release_ok [of x bytes P "b1\<lparr>br_net := sm_remove N s net'\<rparr>" UdpError] ok1
        show ?thesis by (auto simp: prepare_packet_udp_def bytes_def)
      next
        case inr: (Inr u')
        let ?g = "br_udp_groups b @ [(?d, \<lparr>pg_socket = s, pg_managed = bytes, pg_flows = 0\<rparr>)]"
        have upd: "AList.update ?d \<lparr>pg_socket = s, pg_managed = bytes, pg_flows = 0\<rparr> (br_udp_groups b) = ?g"
          using True by (simp add: alist_update_absent)
        have d: "distinct (map fst ?g)" using bridge_ok_tables(5) [OF assms] True
          by (auto simp: map_of_eq_None_iff)
        have "alist_sum pg_managed ?g + 0 = alist_sum pg_managed (br_udp_groups b1) + bytes"
          by (simp add: cfg)
        with bridge_ok_groups [of x bytes P "b1\<lparr>br_net := net'\<rparr>" ?g 0] ok1 d
        have "bridge_ok x P (b1\<lparr>br_net := net', br_udp_groups := ?g\<rparr>)" by simp
        with rs Inr Some True add li cfg inr upd show ?thesis
          by (simp add: prepare_packet_udp_def bytes_def)
      qed
    qed
  qed
qed

lemma queue_one_established_ok:
  assumes "bridge_ok x P b"
  shows "bridge_ok x P (queue_one_established N h b)"
proof (cases "table_get h (br_packet_tcp b)")
  case (Inl e)
  with assms show ?thesis by (simp add: queue_one_established_def)
next
  case (Inr flow)
  let ?t = "snd (table_update h (\<lambda>f. f\<lparr>pt_queued := True\<rparr>) (br_packet_tcp b))"
  have u: "table_update h (\<lambda>f. f\<lparr>pt_queued := True\<rparr>) (br_packet_tcp b) = (Inr flow, ?t)"
    using Inr by (simp add: table_update_def Let_def)
  have "table_sum pt_managed ?t + 0 = table_sum pt_managed (br_packet_tcp b) + 0"
    using table_sum_update [OF u, of pt_managed] by simp
  from bridge_ok_packet_tcp [OF _ table_wf_update [OF bridge_ok_tables(3) [OF assms]] this, of x P] assms Inr
  show ?thesis by (simp add: queue_one_established_def)
qed

lemma queue_established_ok: "bridge_ok x P b \<Longrightarrow> bridge_ok x P (queue_established_packet_tcp N b)"
proof -
  have "bridge_ok x P b \<Longrightarrow> bridge_ok x P (fold (queue_one_established N) hs b)" for hs
    by (induction hs arbitrary: b) (auto simp: queue_one_established_ok)
  then show "bridge_ok x P b \<Longrightarrow> ?thesis" by (simp add: queue_established_packet_tcp_def)
qed

lemma close_packet_tcp_ok:
  assumes "bridge_ok x P b"
  shows "\<exists>r b'. close_packet_tcp N h b = Some (r, b') \<and> bridge_ok x P b'
    \<and> (r = Inr () \<longleftrightarrow> (\<exists>f. table_get h (br_packet_tcp b) = Inr f))"
proof -
  obtain r t where rm: "table_remove h (br_packet_tcp b) = (r, t)" by fastforce
  show ?thesis
  proof (cases r)
    case (Inl e)
    with rm table_remove_err [of h "br_packet_tcp b" e t] assms show ?thesis
      by (auto simp: close_packet_tcp_def table_remove_get split: sum.splits)
  next
    case (Inr flow)
    have wf: "table_wf t" using table_wf_remove [OF bridge_ok_tables(3) [OF assms], of h] rm by simp
    have "table_sum pt_managed t + pt_managed flow = table_sum pt_managed (br_packet_tcp b) + 0"
      using table_sum_remove [of h "br_packet_tcp b" flow t pt_managed] rm Inr by simp
    with bridge_ok_packet_tcp [OF _ wf, of x 0 P] assms have "bridge_ok (x + pt_managed flow) P (b\<lparr>br_packet_tcp := t\<rparr>)"
      by simp
    then have "bridge_ok (x + pt_managed flow) P (b\<lparr>br_packet_tcp := t, br_tcp_by_tuple := AList.delete (pt_tuple flow) (br_tcp_by_tuple b),
                 br_pending_tcp := filter (\<lambda>p. p \<noteq> h) (br_pending_tcp b),
                 br_net := sm_remove N (pt_socket flow) (br_net b)\<rparr>)" by simp
    from release_ok [OF this] rm Inr table_remove_get_Inr [of h "br_packet_tcp b" flow t] show ?thesis
      by (auto simp: close_packet_tcp_def)
  qed
qed

lemma deliver_known_ok:
  assumes "bridge_ok (x + length payload) P b"
    and "\<And>f. table_get h (br_packet_udp b) = Inr f \<Longrightarrow> pu_incoming f = None"
  shows "\<exists>b'. deliver_known h payload b = Some b' \<and> bridge_ok x P b' \<and> br_net b' = br_net b
    \<and> map_option pg_socket (map_of (br_udp_groups b') d) = map_option pg_socket (map_of (br_udp_groups b) d)"
proof -
  let ?g = "\<lambda>f. f\<lparr>pu_incoming := Some payload\<rparr>"
  obtain r t where up: "table_update h ?g (br_packet_udp b) = (r, t)" by fastforce
  show ?thesis
  proof (cases r)
    case (Inl e)
    with up release_ok [OF assms(1)] show ?thesis by (auto simp: deliver_known_def)
  next
    case (Inr f)
    have wf: "table_wf t" using table_wf_update [OF bridge_ok_tables(4) [OF assms(1)], of h ?g] up by simp
    have none: "incoming_bytes f = 0" using assms(2) table_get_update_iff [of h ?g "br_packet_udp b" f t] up Inr
      by (simp add: incoming_bytes_def)
    have "table_sum incoming_bytes t + 0 = table_sum incoming_bytes (br_packet_udp b) + length payload"
      using table_sum_update [of h ?g "br_packet_udp b" f t incoming_bytes] up Inr none by (simp add: incoming_bytes_def)
    from bridge_ok_packet_udp [OF assms(1) wf this] up Inr show ?thesis by (simp add: deliver_known_def)
  qed
qed

lemma map_of_alist_update: "map_of (AList.update k v xs) = (map_of xs)(k \<mapsto> v)"
  by (rule update_conv')

lemma deliver_new_ok:
  assumes "bridge_ok (x + length payload) P b" and "reserved = length payload"
  shows "\<exists>y. deliver_new tuple payload reserved b = Some y \<and>
    (case y of Inl b' \<Rightarrow> bridge_ok x P b'
     | Inr b' \<Rightarrow> bridge_ok x P b' \<and> br_net b' = br_net b
         \<and> map_option pg_socket (map_of (br_udp_groups b') d) = map_option pg_socket (map_of (br_udp_groups b) d))"
proof -
  let ?f = "\<lparr>pu_tuple = tuple, pu_metadata = packet_metadata (tuple_destination tuple), pu_incoming = Some payload\<rparr>"
  let ?d = "tuple_destination tuple"
  consider h t where "insert_flow ?f (br_packet_udp b) = Some (Inr h, t)" "table_wf t"
      "table_insert ?f (br_packet_udp b) = (Inr h, t)"
    | "insert_flow ?f (br_packet_udp b) = Some (Inl (), br_packet_udp b)"
    using insert_flow_ok [OF bridge_ok_tables(4) [OF assms(1)], of ?f] by blast
  then show ?thesis
  proof cases
    case 2
    with release_ok [OF assms(1)] assms(2) show ?thesis by (auto simp: deliver_new_def Let_def)
  next
    case (1 h t)
    have "table_sum incoming_bytes t + 0 = table_sum incoming_bytes (br_packet_udp b) + length payload"
      using table_sum_insert [OF bridge_ok_tables(4) [OF assms(1)] 1(3), of incoming_bytes] by (simp add: incoming_bytes_def)
    note ok1 = bridge_ok_packet_udp [OF assms(1) 1(2) this]
    define g' where "g' = (case map_of (br_udp_groups b) ?d of
                 None \<Rightarrow> br_udp_groups b
               | Some g \<Rightarrow> AList.update ?d (g\<lparr>pg_flows := pg_flows g + 1\<rparr>) (br_udp_groups b))"
    have dist: "distinct (map fst (br_udp_groups b))" by (rule bridge_ok_tables(5) [OF assms(1)])
    have d': "distinct (map fst g')" using dist by (auto simp: g'_def distinct_update split: option.splits)
    have s': "alist_sum pg_managed g' + 0 = alist_sum pg_managed (br_udp_groups b) + 0"
      using alist_sum_update [OF dist, of ?d _ pg_managed] by (auto simp: g'_def split: option.splits)
    have m': "map_option pg_socket (map_of g' d) = map_option pg_socket (map_of (br_udp_groups b) d)"
      by (auto simp: g'_def map_of_alist_update split: option.splits)
    have "bridge_ok x P (b\<lparr>br_packet_udp := t, br_udp_by_tuple := AList.update tuple h (br_udp_by_tuple b), br_udp_groups := g'\<rparr>)"
      using bridge_ok_groups [of x 0 P "b\<lparr>br_packet_udp := t, br_udp_by_tuple := AList.update tuple h (br_udp_by_tuple b)\<rparr>" g' 0]
        d' s' ok1 by simp
    with 1(1) m' show ?thesis by (simp add: deliver_new_def Let_def g'_def)
  qed
qed

text \<open>One round of the drain loop keeps the account and, when it goes on, has dequeued a datagram.\<close>

lemma drain_step_ok:
  assumes "smoltcp_ok N" and "bridge_ok x P b"
    and "\<And>s n n' p e. sm_udp_recv N s n = (n', Inr (p, e)) \<Longrightarrow> backlog s n' < (backlog s n :: nat)"
  shows "\<exists>y. drain_step N d b = Some y \<and>
    (case y of Inl b' \<Rightarrow> bridge_ok x P b'
     | Inr b' \<Rightarrow> bridge_ok x P b' \<and> (\<exists>s. map_option pg_socket (map_of (br_udp_groups b) d) = Some s
          \<and> map_option pg_socket (map_of (br_udp_groups b') d) = Some s
          \<and> backlog s (br_net b') < backlog s (br_net b)))"
proof (cases "map_of (br_udp_groups b) d")
  case None
  with assms(2) show ?thesis by (simp add: drain_step_def)
next
  case (Some grp)
  let ?s = "pg_socket grp"
  show ?thesis
  proof (cases "sm_udp_peek N ?s (br_net b)")
    case (Inl e)
    with Some assms(2) show ?thesis by (simp add: drain_step_def)
  next
    case (Inr pe)
    obtain p src where pe: "pe = (p, src)" by fastforce
    define tuple where "tuple = \<lparr>tuple_source = src, tuple_destination = d\<rparr>"
    obtain r b1 where rs: "reserve (length p) b = (r, b1)" by fastforce
    show ?thesis
    proof (cases "flow_is_full tuple b")
      case True
      with Some Inr pe assms(2) show ?thesis by (simp add: drain_step_def Let_def tuple_def)
    next
      case notfull: False
      show ?thesis
      proof (cases r)
        case (Inl e)
        with Some Inr pe notfull rs reserve_err [of "length p" b e b1] assms(2) show ?thesis
          by (simp add: drain_step_def Let_def tuple_def)
      next
        case r: (Inr u)
        have b1: "b1 = b\<lparr>br_managed := br_managed b + length p\<rparr>" by (rule reserve_same) (use rs r in simp)
        have ok1: "bridge_ok (x + length p) P b1" using reserve_ok [OF assms(2)] rs r by blast
        obtain net q where rc: "sm_udp_recv N ?s (br_net b1) = (net, q)" by fastforce
        let ?b2 = "b1\<lparr>br_net := net\<rparr>"
        have ok2: "bridge_ok (x + length p) P ?b2" using ok1 by simp
        show ?thesis
        proof (cases q)
          case (Inl e)
          with Some Inr pe notfull rs r rc release_ok [OF ok2] show ?thesis
            by (auto simp: drain_step_def Let_def tuple_def)
        next
          case q: (Inr qe)
          obtain p' e' where qe: "qe = (p', e')" by fastforce
          have rcb: "sm_udp_recv N ?s (br_net b) = (net, Inr (p', e'))" using rc q qe by (simp add: b1)
          have pp: "p' = p" using assms(1) Inr pe rcb unfolding smoltcp_ok_def by blast
          have less: "backlog ?s net < backlog ?s (br_net b)" by (rule assms(3) [OF rcb])
          have grp: "br_udp_groups ?b2 = br_udp_groups b" "br_net ?b2 = net" "br_udp_by_tuple ?b2 = br_udp_by_tuple b"
            "br_packet_udp ?b2 = br_packet_udp b"
            by (simp_all add: b1)
          show ?thesis
          proof (cases "map_of (br_udp_by_tuple b) tuple")
            case None
            have "drain_step N d b = deliver_new tuple p (length p) ?b2"
              using Some Inr pe notfull rs r rc q qe pp grp None by (simp add: drain_step_def Let_def tuple_def)
            with deliver_new_ok [OF ok2, of "length p" tuple d] Some less grp show ?thesis
              by (auto split: sum.splits)
          next
            case (Some h)
            have "drain_step N d b = map_option Inr (deliver_known h p ?b2)"
              using \<open>map_of (br_udp_groups b) d = Some grp\<close> Inr pe notfull rs r rc q qe pp grp Some
              by (simp add: drain_step_def Let_def tuple_def)
            moreover have "\<And>f. table_get h (br_packet_udp ?b2) = Inr f \<Longrightarrow> pu_incoming f = None"
              using notfull Some grp by (simp add: flow_is_full_def)
            ultimately show ?thesis
              using deliver_known_ok [OF ok2, of h d] \<open>map_of (br_udp_groups b) d = Some grp\<close> less grp
              by auto
          qed
        qed
      qed
    qed
  qed
qed

lemma drain_loop_ok:
  assumes "smoltcp_ok N" and "bridge_ok x P b"
  shows "\<exists>b'. drain_loop N d b = Some b' \<and> bridge_ok x P b'"
proof -
  obtain backlog :: "socket \<Rightarrow> 'a \<Rightarrow> nat" where
    dec: "\<And>s n n' p e. sm_udp_recv N s n = (n', Inr (p, e)) \<Longrightarrow> backlog s n' < backlog s n"
    using assms(1) unfolding smoltcp_ok_def by blast
  define size_of where "size_of b = (case map_option pg_socket (map_of (br_udp_groups b) d) of
    None \<Rightarrow> 0 | Some s \<Rightarrow> backlog s (br_net b))" for b :: "'a bridge"
  show ?thesis using assms(2)
  proof (induction "size_of b" arbitrary: b rule: less_induct)
    case less
    from drain_step_ok [OF assms(1) less.prems, of backlog d] dec obtain y where y: "drain_step N d b = Some y"
      "case y of Inl b' \<Rightarrow> bridge_ok x P b'
     | Inr b' \<Rightarrow> bridge_ok x P b' \<and> (\<exists>s. map_option pg_socket (map_of (br_udp_groups b) d) = Some s
          \<and> map_option pg_socket (map_of (br_udp_groups b') d) = Some s
          \<and> backlog s (br_net b') < backlog s (br_net b))" by blast
    show ?case
    proof (cases y)
      case (Inl b')
      with y show ?thesis by (subst drain_loop.simps) simp
    next
      case (Inr b')
      with y(2) have "bridge_ok x P b'" "size_of b' < size_of b" by (auto simp: size_of_def simp del: option.map_sel)
      with less.hyps [of b'] y(1) Inr show ?thesis by (subst drain_loop.simps) simp
    qed
  qed
qed

lemma drain_packet_udp_ok:
  assumes "smoltcp_ok N" and "bridge_ok x P b"
  shows "\<exists>b'. drain_packet_udp N b = Some b' \<and> bridge_ok x P b'"
proof -
  have "bridge_ok x P b \<Longrightarrow> \<exists>b'. drain_all N ds b = Some b' \<and> bridge_ok x P b'" for ds b
  proof (induction ds arbitrary: b)
    case (Cons d ds)
    obtain b1 where "drain_loop N d b = Some b1" "bridge_ok x P b1"
      using drain_loop_ok [OF assms(1) Cons.prems] by blast
    with Cons.IH show ?case by simp
  qed simp
  with assms(2) show ?thesis by (simp add: drain_packet_udp_def)
qed

lemma drop_flow_from_group_ok:
  assumes "bridge_ok x P b"
  shows "\<exists>b'. drop_flow_from_group N d b = Some b' \<and> bridge_ok x P b'"
proof (cases "map_of (br_udp_groups b) d")
  case None
  with assms show ?thesis by (simp add: drop_flow_from_group_def)
next
  case (Some g)
  have dist: "distinct (map fst (br_udp_groups b))" by (rule bridge_ok_tables(5) [OF assms])
  show ?thesis
  proof (cases "pg_flows g - 1 = 0")
    case True
    let ?b = "b\<lparr>br_udp_groups := AList.delete d (br_udp_groups b), br_net := sm_remove N (pg_socket g) (br_net b)\<rparr>"
    have "alist_sum pg_managed (AList.delete d (br_udp_groups b)) + pg_managed g = alist_sum pg_managed (br_udp_groups b) + 0"
      using alist_sum_delete [OF dist Some, of pg_managed] by simp
    with bridge_ok_groups [of x 0 P b "AList.delete d (br_udp_groups b)" "pg_managed g"] assms dist
    have "bridge_ok (x + pg_managed g) P ?b" by (simp add: distinct_delete)
    from release_ok [OF this] True Some show ?thesis by (auto simp: drop_flow_from_group_def)
  next
    case False
    have "alist_sum pg_managed (AList.update d (g\<lparr>pg_flows := pg_flows g - 1\<rparr>) (br_udp_groups b)) + 0
        = alist_sum pg_managed (br_udp_groups b) + 0"
      using alist_sum_update [OF dist Some, of pg_managed] by simp
    with bridge_ok_groups [of x 0 P b "AList.update d (g\<lparr>pg_flows := pg_flows g - 1\<rparr>) (br_udp_groups b)" 0]
      assms dist Some False show ?thesis
      by (simp add: drop_flow_from_group_def distinct_update)
  qed
qed

lemma close_packet_udp_ok:
  assumes "bridge_ok x P b"
  shows "\<exists>r b'. close_packet_udp N h b = Some (r, b') \<and> bridge_ok x P b'
    \<and> (r = Inr () \<longleftrightarrow> (\<exists>f. table_get h (br_packet_udp b) = Inr f))"
proof -
  obtain r t where rm: "table_remove h (br_packet_udp b) = (r, t)" by fastforce
  show ?thesis
  proof (cases r)
    case (Inl e)
    with rm table_remove_err [of h "br_packet_udp b" e t] assms show ?thesis
      by (auto simp: close_packet_udp_def table_remove_get split: sum.splits)
  next
    case (Inr f)
    have wf: "table_wf t" using table_wf_remove [OF bridge_ok_tables(4) [OF assms], of h] rm by simp
    have "table_sum incoming_bytes t + incoming_bytes f = table_sum incoming_bytes (br_packet_udp b) + 0"
      using table_sum_remove [of h "br_packet_udp b" f t incoming_bytes] rm Inr by simp
    with bridge_ok_packet_udp [OF _ wf, of x 0 P b] assms
    have ok1: "bridge_ok (x + incoming_bytes f) P (b\<lparr>br_packet_udp := t\<rparr>)" by simp
    obtain b2 where b2: "release_opt (map_option length (pu_incoming f)) (b\<lparr>br_packet_udp := t\<rparr>) = Some b2" "bridge_ok x P b2"
      using release_ok [OF ok1] ok1 by (cases "pu_incoming f") (auto simp: release_opt_def incoming_bytes_def)
    let ?b3 = "b2\<lparr>br_udp_by_tuple := AList.delete (pu_tuple f) (br_udp_by_tuple b2),
                    br_pending_udp := filter (\<lambda>p. p \<noteq> h) (br_pending_udp b2)\<rparr>"
    have "bridge_ok x P ?b3" using b2(2) by simp
    from drop_flow_from_group_ok [OF this, of N "tuple_destination (pu_tuple f)"] b2(1) rm Inr
      table_remove_get_Inr [of h "br_packet_udp b" f t] show ?thesis
      by (auto simp: close_packet_udp_def Let_def)
  qed
qed

lemma pop_front_packet_ok:
  assumes "bridge_ok x P b"
  shows "\<exists>b'. pop_front_packet b = Some b' \<and> bridge_ok x P b'"
  using device_pop_ingress_ok [OF bridge_ok_tables(7) [OF assms]] assms
  by (auto simp: pop_front_packet_def bridge_ok_device)

lemma ingress_round_ok:
  assumes "smoltcp_ok N" and "bridge_ok x P b"
  shows "\<exists>g b'. ingress_round N V now b = Some (g, b') \<and> bridge_ok x P b'"
proof -
  obtain r1 b1 where 1: "prepare_packet_tcp N V b = Some (r1, b1)" "bridge_ok x P b1"
    using prepare_packet_tcp_ok [OF assms(2)] by blast
  obtain b2 where 2: "(case r1 of Inl e \<Rightarrow> pop_front_packet b1 | Inr u \<Rightarrow> Some b1) = Some b2" "bridge_ok x P b2"
    using pop_front_packet_ok [OF 1(2)] 1(2) by (cases r1) auto
  obtain r3 b3 where 3: "prepare_packet_udp N V b2 = Some (r3, b3)" "bridge_ok x P b3"
    using prepare_packet_udp_ok [OF 2(2)] by blast
  obtain net dev none where p: "sm_poll_ingress N now (br_net b3) (br_device b3) = (net, dev, none)"
    by (metis prod_cases3)
  have "device_reach (br_device b3) dev" using assms(1) p unfolding smoltcp_ok_def by (metis fst_conv snd_conv)
  then have "device_inv dev" using device_reach_inv bridge_ok_tables(7) [OF 3(2)] by blast
  then have "bridge_ok x P (b3\<lparr>br_net := net, br_device := dev\<rparr>)" using 3(2) by (simp add: bridge_ok_device)
  with 1(1) 2(1) 3 p pop_front_packet_ok [OF 3(2)] show ?thesis
    by (cases r3) (auto simp: ingress_round_def)
qed

lemma bridge_poll_ok:
  assumes "smoltcp_ok N" and "bridge_ok x P b"
  shows "\<exists>b'. bridge_poll N V now b = Some b' \<and> bridge_ok x P b'"
proof -
  have loop: "bridge_ok x P b \<Longrightarrow> \<exists>b'. ingress_loop N V now k b = Some b' \<and> bridge_ok x P b'" for k b
  proof (induction k arbitrary: b)
    case 0
    then show ?case by simp
  next
    case (Suc k)
    obtain g b1 where r: "ingress_round N V now b = Some (g, b1)" "bridge_ok x P b1"
      using ingress_round_ok [OF assms(1) Suc.prems] by blast
    with Suc.IH [OF r(2)] show ?case by (cases g) auto
  qed
  let ?b0 = "b\<lparr>br_net := sm_poll_maintenance N now (br_net b)\<rparr>"
  obtain b1 where 1: "ingress_loop N V now (br_max_ingress ?b0) ?b0 = Some b1" "bridge_ok x P b1"
    using loop [of ?b0] assms(2) by auto
  obtain b2 where 2: "drain_packet_udp N (queue_established_packet_tcp N b1) = Some b2" "bridge_ok x P b2"
    using drain_packet_udp_ok [OF assms(1) queue_established_ok [OF 1(2)]] by blast
  obtain net dev where p: "sm_poll_egress N now (br_net b2) (br_device b2) = (net, dev)" by fastforce
  have "device_reach (br_device b2) dev" using assms(1) p unfolding smoltcp_ok_def by (metis snd_conv)
  then have "device_inv dev" using device_reach_inv bridge_ok_tables(7) [OF 2(2)] by blast
  then have "bridge_ok x P (b2\<lparr>br_net := net, br_device := dev\<rparr>)" using 2(2) by (simp add: bridge_ok_device)
  with 1(1) 2(1) p show ?thesis by (simp add: bridge_poll_def Let_def)
qed

lemma poll_times_ok:
  assumes "smoltcp_ok N"
  shows "bridge_ok x P b \<Longrightarrow> \<exists>b'. poll_times k N V now b = Some b' \<and> bridge_ok x P b'"
proof (induction k arbitrary: b)
  case 0
  then show ?case by simp
next
  case (Suc k)
  obtain b1 where "bridge_poll N V now b = Some b1" "bridge_ok x P b1"
    using bridge_poll_ok [OF assms Suc.prems] by blast
  with Suc.IH show ?case by simp
qed

lemma allocate_ports_ok:
  assumes "bridge_ok (x + bytes) P b"
  shows "\<exists>r b'. allocate_ports bytes b = Some (r, b') \<and>
    same_flows b b' \<and> (case r of Inl e \<Rightarrow> bridge_ok x P b'
     | Inr (a, p) \<Rightarrow> bridge_ok (x + bytes) (P + {#a, p#}) b')"
proof -
  have pw: "port_pool_wf (br_ports b)" and fin: "finite (ports_in_use (br_ports b))"
    using bridge_ok_tables(6) [OF assms] by auto
  obtain r1 q1 where a1: "port_allocate (br_ports b) = (r1, q1)" by fastforce
  show ?thesis
  proof (cases r1)
    case (Inl e)
    obtain b' where "allocate_ports bytes b = Some (Inl StackPortLimit, b')" "bridge_ok x P b'" "same_flows b b'"
      using a1 Inl fail_after_release_ok [OF assms, of StackPortLimit] by (auto simp: allocate_ports_def)
    then show ?thesis by simp
  next
    case (Inr a)
    note o1 = pool.allocate_ok [OF pw a1 [unfolded Inr]]
    obtain r2 q2 where a2: "port_allocate q1 = (r2, q2)" by fastforce
    show ?thesis
    proof (cases r2)
      case (Inl e)
      obtain q3 where rel: "port_release a q1 = (Inr (), q3)" "port_pool_wf q3" "ports_in_use q3 = ports_in_use (br_ports b)"
        using pool.release_allocated [OF pw a1 [unfolded Inr]] by blast
      have "bridge_ok (x + bytes) P (b\<lparr>br_ports := q3\<rparr>)"
        using assms rel by (simp add: bridge_ok_def bridge_frame)
      then obtain b' where "allocate_ports bytes b = Some (Inl StackPortLimit, b')" "bridge_ok x P b'" "same_flows b b'"
        using a1 Inr a2 Inl rel(1) fail_after_release_ok [of x bytes P "b\<lparr>br_ports := q3\<rparr>" StackPortLimit]
        by (auto simp: allocate_ports_def same_flows_def)
      then show ?thesis by simp
    next
      case r2: (Inr p)
      note t = pool.allocate_twice [OF pw a1 [unfolded Inr] a2 [unfolded r2]]
      have "mset_set (ports_in_use q2) = mset_set (ports_in_use (br_ports b)) + {#a, p#}"
        using t fin by auto
      then have "bridge_ok (x + bytes) (P + {#a, p#}) (b\<lparr>br_ports := q2\<rparr>)"
        using assms t by (simp add: bridge_ok_def bridge_frame)
      with a1 Inr a2 r2 show ?thesis by (simp add: allocate_ports_def same_flows_def)
    qed
  qed
qed

lemma release_two_ports:
  assumes "bridge_ok x (P + {#a, p#}) b"
  shows "\<exists>q1 q2. port_release a (br_ports b) = (Inr (), q1) \<and> port_release p q1 = (Inr (), q2)
    \<and> bridge_ok x P (b\<lparr>br_ports := q2\<rparr>)"
proof -
  have pw: "port_pool_wf (br_ports b)" and eq: "mset_set (ports_in_use (br_ports b)) = held_ports b + (P + {#a, p#})"
    using assms by (auto simp: bridge_ok_def)
  have fin: "finite (ports_in_use (br_ports b))" by simp
  have "a \<in># mset_set (ports_in_use (br_ports b))" "p \<in># mset_set (ports_in_use (br_ports b))"
    unfolding eq by auto
  then have mem: "a \<in> ports_in_use (br_ports b)" "p \<in> ports_in_use (br_ports b)" using fin by auto
  have ne: "a \<noteq> p"
  proof
    assume "a = p"
    then have "2 \<le> count (mset_set (ports_in_use (br_ports b))) a" unfolding eq by simp
    then show False using fin mem by simp
  qed
  obtain q1 q2 where q: "port_release a (br_ports b) = (Inr (), q1)" "port_release p q1 = (Inr (), q2)"
    "port_pool_wf q2" "ports_in_use q2 = ports_in_use (br_ports b) - {a, p}"
    using pool.release_two [OF pw mem ne] by blast
  have "mset_set (ports_in_use q2) = mset_set (ports_in_use (br_ports b)) - {#a, p#}"
    unfolding q(4) using mem ne fin by (subst mset_set_Diff) auto
  then have "mset_set (ports_in_use q2) = held_ports b + P" unfolding eq by simp
  then have "bridge_ok x P (b\<lparr>br_ports := q2\<rparr>)"
    using assms q(3) by (simp add: bridge_ok_def bridge_frame)
  with q show ?thesis by blast
qed

lemma cleanup_sockets_ok:
  assumes "bridge_ok (x + bytes) (P + {#a, p#}) b"
  shows "\<exists>b'. cleanup_sockets N s1 s2 a p bytes e b = Some (Inl e, b') \<and> bridge_ok x P b' \<and> same_flows b b'"
proof -
  let ?b = "b\<lparr>br_net := sm_remove N s2 (sm_remove N s1 (br_net b))\<rparr>"
  have "bridge_ok (x + bytes) (P + {#a, p#}) ?b" using assms by simp
  from release_two_ports [OF this] obtain q1 q2 where
    q: "port_release a (br_ports ?b) = (Inr (), q1)" "port_release p q1 = (Inr (), q2)"
      "bridge_ok (x + bytes) P (?b\<lparr>br_ports := q2\<rparr>)" by blast
  have "release_port p (release_port a ?b) = ?b\<lparr>br_ports := q2\<rparr>" using q(1,2) by (simp add: release_port_def)
  with fail_after_release_ok [OF q(3), of e] show ?thesis by (simp add: cleanup_sockets_def same_flows_def)
qed

lemma close_pair_ok:
  assumes "bridge_ok (x + bytes) (P + {#a, p#}) b"
  shows "\<exists>b'. close_pair N s1 s2 a p bytes b = Some (Inr (), b') \<and> bridge_ok x P b'"
proof -
  let ?b = "b\<lparr>br_net := sm_remove N s2 (sm_remove N s1 (br_net b))\<rparr>"
  have "bridge_ok (x + bytes) (P + {#a, p#}) ?b" using assms by simp
  from release_two_ports [OF this] obtain q1 q2 where
    q: "port_release a (br_ports ?b) = (Inr (), q1)" "port_release p q1 = (Inr (), q2)"
      "bridge_ok (x + bytes) P (?b\<lparr>br_ports := q2\<rparr>)" by blast
  with release_ok [OF q(3)] show ?thesis by (auto simp: close_pair_def Let_def)
qed

lemma close_tcp_ok:
  assumes "bridge_ok x P b"
  shows "\<exists>r b'. close_tcp N h b = Some (r, b') \<and> bridge_ok x P b'
    \<and> (r = Inr () \<longleftrightarrow> (\<exists>f. table_get h (br_tcp_flows b) = Inr f))"
proof -
  obtain r t where rm: "table_remove h (br_tcp_flows b) = (r, t)" by fastforce
  show ?thesis
  proof (cases r)
    case (Inl e)
    with rm table_remove_err [of h "br_tcp_flows b" e t] assms show ?thesis
      by (auto simp: close_tcp_def table_remove_get split: sum.splits)
  next
    case (Inr f)
    have wf: "table_wf t" using table_wf_remove [OF bridge_ok_tables(1) [OF assms], of h] rm by simp
    have s1: "table_sum tf_managed t + tf_managed f = table_sum tf_managed (br_tcp_flows b) + 0"
      using table_sum_remove [of h "br_tcp_flows b" f t tf_managed] rm Inr by simp
    have s2: "table_sum (\<lambda>f. {#tf_adapter_port f, tf_policy_port f#}) t + {#tf_adapter_port f, tf_policy_port f#}
        = table_sum (\<lambda>f. {#tf_adapter_port f, tf_policy_port f#}) (br_tcp_flows b) + {#}"
      using table_sum_remove [of h "br_tcp_flows b" f t "\<lambda>f. {#tf_adapter_port f, tf_policy_port f#}"] rm Inr by simp
    have "bridge_ok (x + tf_managed f) (P + {#tf_adapter_port f, tf_policy_port f#}) (b\<lparr>br_tcp_flows := t\<rparr>)"
      by (rule bridge_ok_tcp_flows [OF _ wf s1 s2]) (use assms in simp)
    from close_pair_ok [OF this, of N "tf_adapter f" "tf_policy f"] rm Inr
      table_remove_get_Inr [of h "br_tcp_flows b" f t] show ?thesis
      by (auto simp: close_tcp_def)
  qed
qed

lemma close_udp_ok:
  assumes "bridge_ok x P b"
  shows "\<exists>r b'. close_udp N h b = Some (r, b') \<and> bridge_ok x P b'
    \<and> (r = Inr () \<longleftrightarrow> (\<exists>f. table_get h (br_udp_flows b) = Inr f))"
proof -
  obtain r t where rm: "table_remove h (br_udp_flows b) = (r, t)" by fastforce
  show ?thesis
  proof (cases r)
    case (Inl e)
    with rm table_remove_err [of h "br_udp_flows b" e t] assms show ?thesis
      by (auto simp: close_udp_def table_remove_get split: sum.splits)
  next
    case (Inr f)
    have wf: "table_wf t" using table_wf_remove [OF bridge_ok_tables(2) [OF assms], of h] rm by simp
    have s1: "table_sum uf_managed t + uf_managed f = table_sum uf_managed (br_udp_flows b) + 0"
      using table_sum_remove [of h "br_udp_flows b" f t uf_managed] rm Inr by simp
    have s2: "table_sum (\<lambda>f. {#uf_adapter_port f, uf_policy_port f#}) t + {#uf_adapter_port f, uf_policy_port f#}
        = table_sum (\<lambda>f. {#uf_adapter_port f, uf_policy_port f#}) (br_udp_flows b) + {#}"
      using table_sum_remove [of h "br_udp_flows b" f t "\<lambda>f. {#uf_adapter_port f, uf_policy_port f#}"] rm Inr by simp
    have "bridge_ok (x + uf_managed f) (P + {#uf_adapter_port f, uf_policy_port f#}) (b\<lparr>br_udp_flows := t\<rparr>)"
      by (rule bridge_ok_udp_flows [OF _ wf s1 s2]) (use assms in simp)
    from close_pair_ok [OF this, of N "uf_adapter f" "uf_policy f"] rm Inr
      table_remove_get_Inr [of h "br_udp_flows b" f t] show ?thesis
      by (auto simp: close_udp_def)
  qed
qed

lemma same_flows_account:
  assumes "same_flows b b'" and "bridge_ok x P b" and "bridge_ok x P b'"
  shows "br_managed b' = br_managed b \<and> ports_in_use (br_ports b') = ports_in_use (br_ports b)"
proof -
  have "held_bytes b' = held_bytes b" "held_ports b' = held_ports b" "br_config b' = br_config b"
    using assms(1) by (auto simp: same_flows_def held_bytes_def held_ports_def)
  with assms(2,3) have "br_managed b' = br_managed b"
    "mset_set (ports_in_use (br_ports b')) = mset_set (ports_in_use (br_ports b))"
    by (auto simp: bridge_ok_def)
  then show ?thesis by (metis finite finite_set_mset_mset_set)
qed

lemma same_flows_trans: "same_flows a b \<Longrightarrow> same_flows b c \<Longrightarrow> same_flows a c"
  by (simp add: same_flows_def)

lemma same_flows_net [simp]: "same_flows b (b'\<lparr>br_net := n\<rparr>) = same_flows b b'"
  by (simp add: same_flows_def)

lemma same_flows_managed: "same_flows b (b\<lparr>br_managed := m\<rparr>)"
  by (simp add: same_flows_def)

text \<open>The flow is in the table after a successful opening, and nothing changed after a failed one.\<close>

lemma open_udp_ok:
  assumes "bridge_ok 0 {#} b"
  shows "\<exists>r b'. open_udp N m b = Some (r, b') \<and> bridge_ok 0 {#} b' \<and> (case r of
     Inl e \<Rightarrow> same_flows b b'
   | Inr h \<Rightarrow> \<exists>f. table_get h (br_udp_flows b') = Inr f \<and> uf_metadata f = m)"
proof (cases "validate_metadata m = Inr () \<and> pair_bytes (udp_socket_rx_bytes (br_config b)) (udp_socket_tx_bytes (br_config b)) \<noteq> None")
  case False
  have "same_flows b b" by (simp add: same_flows_def)
  with False assms show ?thesis by (cases "validate_metadata m") (auto simp: open_udp_def Let_def)
next
  case True
  then obtain bytes where vm: "validate_metadata m = Inr ()"
    and pb: "pair_bytes (udp_socket_rx_bytes (br_config b)) (udp_socket_tx_bytes (br_config b)) = Some bytes" by auto
  obtain r b1 where rs: "reserve bytes b = (r, b1)" by fastforce
  show ?thesis
  proof (cases r)
    case (Inl e)
    have "same_flows b b" by (simp add: same_flows_def)
    with Inl rs vm pb reserve_err [of bytes b e b1] assms show ?thesis by (simp add: open_udp_def Let_def)
  next
    case (Inr u)
    have ok1: "bridge_ok (0 + bytes) {#} b1" using reserve_ok [OF assms] rs Inr by fastforce
    have "b1 = b\<lparr>br_managed := br_managed b + bytes\<rparr>" by (rule reserve_same) (use rs Inr in simp)
    then have s1: "same_flows b b1" by (simp add: same_flows_def)
    obtain r2 b2 where al: "allocate_ports bytes b1 = Some (r2, b2)" "same_flows b1 b2"
      "case r2 of Inl e \<Rightarrow> bridge_ok 0 {#} b2 | Inr (a, p) \<Rightarrow> bridge_ok (0 + bytes) ({#} + {#a, p#}) b2"
      using allocate_ports_ok [OF ok1] by blast
    have s2: "same_flows b b2" by (rule same_flows_trans [OF s1 al(2)])
    show ?thesis
    proof (cases r2)
      case (Inl e)
      with al rs Inr vm pb s2 \<open>r = Inr u\<close> show ?thesis by (simp add: open_udp_def Let_def)
    next
      case r2: (Inr ap)
      obtain a p where ap: "ap = (a, p)" by fastforce
      have ok2: "bridge_ok (0 + bytes) ({#} + {#a, p#}) b2" using al(3) r2 ap by simp
      let ?c = "br_config b"
      obtain n1 sa where x1: "sm_udp_add N (udp_metadata_slots ?c) (udp_socket_rx_bytes ?c) (udp_socket_tx_bytes ?c) (br_net b2) = (n1, sa)" by fastforce
      obtain n2 sp where x2: "sm_udp_add N (udp_metadata_slots ?c) (udp_socket_rx_bytes ?c) (udp_socket_tx_bytes ?c) n1 = (n2, sp)" by fastforce
      obtain n3 q3 where x3: "sm_udp_bind_port N sa a n2 = (n3, q3)" by fastforce
      obtain n4 q4 where x4: "sm_udp_bind_port N sp p n3 = (n4, q4)" by fastforce
      have cl: "bridge_ok (0 + bytes) ({#} + {#a, p#}) b3 \<Longrightarrow> same_flows b b3 \<Longrightarrow>
          \<exists>b'. cleanup_sockets N sa sp a p bytes e b3 = Some (Inl e :: stack_error + handle, b') \<and> bridge_ok 0 {#} b' \<and> same_flows b b'" for b3 e
        using cleanup_sockets_ok [of 0 bytes "{#}" a p b3 N sa sp e] same_flows_trans by blast
      let ?f = "\<lparr>uf_adapter = sa, uf_policy = sp, uf_adapter_port = a, uf_policy_port = p, uf_metadata = m, uf_managed = bytes\<rparr>"
      let ?b4 = "b2\<lparr>br_net := n4\<rparr>"
      have ok4: "bridge_ok (0 + bytes) ({#} + {#a, p#}) ?b4" using ok2 by simp
      note steps = vm pb rs Inr al(1) r2 ap x1 x2 x3
      show ?thesis
      proof (cases "q3 = Inr () \<and> q4 = Inr ()")
        case False
        with cl [of "b2\<lparr>br_net := n3\<rparr>" UdpError] cl [of ?b4 UdpError] ok2 ok4 s2 steps x4 show ?thesis
          by (cases q3; cases q4) (auto simp: open_udp_def Let_def)
      next
        case True
        consider h t where "insert_flow ?f (br_udp_flows ?b4) = Some (Inr h, t)" "table_wf t"
            "table_insert ?f (br_udp_flows ?b4) = (Inr h, t)"
          | "insert_flow ?f (br_udp_flows ?b4) = Some (Inl (), br_udp_flows ?b4)"
          using insert_flow_ok [OF bridge_ok_tables(2) [OF ok4], of ?f] by blast
        then show ?thesis
        proof cases
          case 2
          have "?b4\<lparr>br_udp_flows := br_udp_flows ?b4\<rparr> = ?b4" by simp
          with 2 cl [of ?b4 FlowLimit] ok4 s2 steps x4 True show ?thesis
            by (auto simp: open_udp_def Let_def)
        next
          case (1 h t)
          note ins = table_sum_insert [OF bridge_ok_tables(2) [OF ok4] 1(3)]
          have "bridge_ok (0 + 0) ({#} + {#}) (?b4\<lparr>br_udp_flows := t\<rparr>)"
            by (rule bridge_ok_udp_flows [OF ok4 1(2)]) (simp_all add: ins)
          moreover have "table_get h t = Inr ?f"
            using table_get_insert [OF bridge_ok_tables(2) [OF ok4] 1(3)] by simp
          ultimately show ?thesis using 1(1) steps x4 True
            by (simp add: open_udp_def Let_def)
        qed
      qed
    qed
  qed
qed

lemma open_tcp_ok:
  assumes "smoltcp_ok N" and "bridge_ok 0 {#} b"
  shows "\<exists>r b'. open_tcp N V now m b = Some (r, b') \<and> bridge_ok 0 {#} b' \<and> (\<forall>e. r = Inl e \<longrightarrow> same_flows b b')"
proof (cases "validate_metadata m = Inr () \<and> pair_bytes (tcp_socket_rx_bytes (br_config b)) (tcp_socket_tx_bytes (br_config b)) \<noteq> None")
  case False
  have "same_flows b b" by (simp add: same_flows_def)
  with False assms show ?thesis by (cases "validate_metadata m") (auto simp: open_tcp_def Let_def)
next
  case True
  then obtain bytes where vm: "validate_metadata m = Inr ()"
    and pb: "pair_bytes (tcp_socket_rx_bytes (br_config b)) (tcp_socket_tx_bytes (br_config b)) = Some bytes" by auto
  obtain r b1 where rs: "reserve bytes b = (r, b1)" by fastforce
  show ?thesis
  proof (cases r)
    case (Inl e)
    have "same_flows b b" by (simp add: same_flows_def)
    with Inl rs vm pb reserve_err [of bytes b e b1] assms show ?thesis by (simp add: open_tcp_def Let_def)
  next
    case (Inr u)
    have ok1: "bridge_ok (0 + bytes) {#} b1" using reserve_ok [OF assms(2)] rs Inr by fastforce
    have "b1 = b\<lparr>br_managed := br_managed b + bytes\<rparr>" by (rule reserve_same) (use rs Inr in simp)
    then have s1: "same_flows b b1" by (simp add: same_flows_def)
    obtain r2 b2 where al: "allocate_ports bytes b1 = Some (r2, b2)" "same_flows b1 b2"
      "case r2 of Inl e \<Rightarrow> bridge_ok 0 {#} b2 | Inr (a, p) \<Rightarrow> bridge_ok (0 + bytes) ({#} + {#a, p#}) b2"
      using allocate_ports_ok [OF ok1] by blast
    have s2: "same_flows b b2" by (rule same_flows_trans [OF s1 al(2)])
    show ?thesis
    proof (cases r2)
      case (Inl e)
      with al rs Inr vm pb s2 \<open>r = Inr u\<close> show ?thesis by (simp add: open_tcp_def Let_def)
    next
      case r2: (Inr ap)
      obtain a p where ap: "ap = (a, p)" by fastforce
      have ok2: "bridge_ok (0 + bytes) ({#} + {#a, p#}) b2" using al(3) r2 ap by simp
      let ?c = "br_config b"
      obtain n1 sp where x1: "sm_tcp_add N (tcp_socket_rx_bytes ?c) (tcp_socket_tx_bytes ?c) (br_net b2) = (n1, sp)" by fastforce
      obtain n2 sa where x2: "sm_tcp_add N (tcp_socket_rx_bytes ?c) (tcp_socket_tx_bytes ?c) n1 = (n2, sa)" by fastforce
      obtain n3 q3 where x3: "sm_tcp_listen_port N sp p n2 = (n3, q3)" by fastforce
      obtain n4 q4 where x4: "sm_tcp_connect N sa \<lparr>ep_addr = localhost, ep_port = p\<rparr> a n3 = (n4, q4)" by fastforce
      have cl: "bridge_ok (0 + bytes) ({#} + {#a, p#}) b3 \<Longrightarrow> same_flows b b3 \<Longrightarrow>
          \<exists>b'. cleanup_sockets N sa sp a p bytes e b3 = Some (Inl e :: stack_error + handle, b') \<and> bridge_ok 0 {#} b' \<and> same_flows b b'" for b3 e
        using cleanup_sockets_ok [of 0 bytes "{#}" a p b3 N sa sp e] same_flows_trans by blast
      let ?f = "\<lparr>tf_adapter = sa, tf_policy = sp, tf_adapter_port = a, tf_policy_port = p, tf_metadata = m, tf_managed = bytes\<rparr>"
      let ?b4 = "b2\<lparr>br_net := n4\<rparr>"
      have ok4: "bridge_ok (0 + bytes) ({#} + {#a, p#}) ?b4" using ok2 by simp
      note steps = vm pb rs Inr al(1) r2 ap x1 x2 x3
      show ?thesis
      proof (cases "q3 = Inr () \<and> q4 = Inr ()")
        case False
        show ?thesis
        proof (cases q3)
          case (Inl e)
          with cl [of "b2\<lparr>br_net := n3\<rparr>" "TcpError e"] ok2 s2 steps show ?thesis
            by (auto simp: open_tcp_def Let_def)
        next
          case q3: (Inr u3)
          with False obtain e where "q4 = Inl e" by (cases q4) auto
          with q3 cl [of ?b4 "TcpError e"] ok4 s2 steps x4 show ?thesis
            by (auto simp: open_tcp_def Let_def)
        qed
      next
        case True
        consider h t where "insert_flow ?f (br_tcp_flows ?b4) = Some (Inr h, t)" "table_wf t"
            "table_insert ?f (br_tcp_flows ?b4) = (Inr h, t)"
          | "insert_flow ?f (br_tcp_flows ?b4) = Some (Inl (), br_tcp_flows ?b4)"
          using insert_flow_ok [OF bridge_ok_tables(1) [OF ok4], of ?f] by blast
        then show ?thesis
        proof cases
          case 2
          have "?b4\<lparr>br_tcp_flows := br_tcp_flows ?b4\<rparr> = ?b4" by simp
          with 2 cl [of ?b4 FlowLimit] ok4 s2 steps x4 True show ?thesis
            by (auto simp: open_tcp_def Let_def)
        next
          case (1 h t)
          note ins = table_sum_insert [OF bridge_ok_tables(1) [OF ok4] 1(3)]
          have "bridge_ok (0 + 0) ({#} + {#}) (?b4\<lparr>br_tcp_flows := t\<rparr>)"
            by (rule bridge_ok_tcp_flows [OF ok4 1(2)]) (simp_all add: ins)
          then obtain b5 where "poll_times 8 N V now (?b4\<lparr>br_tcp_flows := t\<rparr>) = Some b5" "bridge_ok 0 {#} b5"
            using poll_times_ok [OF assms(1), of 0 "{#}" "?b4\<lparr>br_tcp_flows := t\<rparr>" 8 V now] by auto
          then show ?thesis using 1(1) steps x4 True
            by (simp add: open_tcp_def Let_def del: poll_times.simps)
        qed
      qed
    qed
  qed
qed

lemma bridge_new_ok:
  assumes "bridge_new N c flow_limit max_managed max_ingress = Inr b" and "0 < reassembly_slots c"
  shows "bridge_ok 0 {#} b"
proof -
  from assms(1) obtain base net where base: "base_managed_bytes c = Some base" "base \<le> max_managed"
    and b: "b = \<lparr>br_net = net, br_device = device_new (mtu c) (packet_queue_bytes c),
            br_tcp_flows = handle_table_new 1 flow_limit, br_udp_flows = handle_table_new 2 flow_limit,
            br_packet_tcp = handle_table_new 3 flow_limit, br_tcp_by_tuple = [], br_pending_tcp = [],
            br_udp_groups = [], br_packet_udp = handle_table_new 4 flow_limit, br_udp_by_tuple = [],
            br_pending_udp = [], br_ports = port_pool_new, br_config = c, br_managed = base,
            br_max_managed = max_managed, br_max_ingress = max_ingress,
            br_reassembly = reassembly_new (reassembly_slots c) (reassembly_timeout_ms c)\<rparr>"
    by (auto simp: bridge_new_def rbind_Inr_iff ok_or_Inr_iff split: if_splits)
  have "packet_queue_bytes c < base" "base \<le> usize_max"
    using base(1) assms(2)
    by (auto simp: base_managed_bytes_def reassembly_managed_bytes_def Option.bind_eq_Some_conv ipv6_consts)
  then have "packet_queue_bytes c < usize_max" by simp
  moreover have "ports_in_use port_pool_new = {}" by (auto simp: ports_in_use_def port_pool_new_def)
  ultimately show ?thesis
    using base by (simp add: b bridge_ok_def held_bytes_def held_ports_def device_new_inv port_pool_new_wf
        reassembly_new_wf)
qed

end
