(* ===== verification/Stack_Ports.thy ===== *)
theory Stack_Ports
  imports Stack_Bridge Io_Spec
begin

text \<open>
  The ports the engine and the adapters hold on the stack bridge (\<open>stack.rs\<close>: \<open>TcpStreamPort\<close>,
  \<open>UdpDatagramPort\<close>, \<open>PacketPort\<close>, \<open>PacketTcpPort\<close>, \<open>PacketUdpPort\<close> and their leases). A port has
  a weak reference to the bridge: every operation takes the bridge or \<^term>\<open>None\<close> when it is gone.
  Wakers have no counterpart. The operations that change the bridge, together with those of
  \<open>Stack_Bridge\<close>, are the steps of \<open>bridge_reachable\<close>, whose states all satisfy the account.
\<close>

section \<open>Errors\<close>

fun stack_error_text :: "stack_error \<Rightarrow> string" where
  "stack_error_text Resource = ''stack resource budget is exhausted''"
| "stack_error_text FlowLimit = ''flow limit is exhausted''"
| "stack_error_text StackPortLimit = ''virtual port pool is exhausted''"
| "stack_error_text StackStale = ''flow handle is stale''"
| "stack_error_text MetadataError = ''flow metadata is invalid''"
| "stack_error_text (TcpError m) = ''TCP operation failed: '' @ m"
| "stack_error_text UdpError = ''UDP operation failed''"
| "stack_error_text Stopped = ''stack is stopped''"

definition stack_io_error :: "stack_error \<Rightarrow> io_error" where
  "stack_io_error e = Io_Error OtherKind (stack_error_text e)"

definition stopped_error :: io_error where
  "stopped_error = Io_Error NotConnected ''stack is stopped''"

section \<open>Streams\<close>

text \<open>The common part of reading and writing a TCP socket.\<close>

definition socket_read :: "'n smoltcp \<Rightarrow> socket \<Rightarrow> bytes \<Rightarrow> 'n bridge \<Rightarrow> 'n bridge \<times> bytes \<times> nat io_result poll" where
  "socket_read N s output b =
     (if sm_tcp_can_recv N s (br_net b) then
        (case sm_tcp_recv N s output (br_net b) of (net, output', r) \<Rightarrow>
           (b\<lparr>br_net := net\<rparr>, output', Ready (map_err (Io_Error OtherKind) r)))
      else if \<not> sm_tcp_may_recv N s (br_net b) then (b, output, Ready (Inr 0))
      else (b, output, Pending))"

definition socket_write :: "'n smoltcp \<Rightarrow> socket \<Rightarrow> string \<Rightarrow> bytes \<Rightarrow> 'n bridge \<Rightarrow> 'n bridge \<times> nat io_result poll" where
  "socket_write N s closed_text input b =
     (if sm_tcp_can_send N s (br_net b) then
        (case sm_tcp_send N s input (br_net b) of (net, r) \<Rightarrow>
           (b\<lparr>br_net := net\<rparr>, Ready (map_err (Io_Error OtherKind) r)))
      else if \<not> sm_tcp_may_send N s (br_net b) then (b, Ready (Inl (Io_Error BrokenPipe closed_text)))
      else (b, Pending))"

record tcp_stream_port =
  sp_handle :: handle
  sp_side :: side
  sp_write_shutdown :: bool

definition tcp_socket :: "handle \<Rightarrow> side \<Rightarrow> 'n bridge \<Rightarrow> stack_error + socket" where
  "tcp_socket h s b =
     rbind (map_err (\<lambda>_. StackStale) (table_get h (br_tcp_flows b))) (\<lambda>f.
     Inr (case s of Adapter \<Rightarrow> tf_adapter f | Policy \<Rightarrow> tf_policy f))"

definition tcp_metadata :: "handle \<Rightarrow> 'n bridge \<Rightarrow> stack_error + flow_metadata" where
  "tcp_metadata h b = map_err (\<lambda>_. StackStale) (rbind (table_get h (br_tcp_flows b)) (\<lambda>f. Inr (tf_metadata f)))"

definition port_metadata :: "tcp_stream_port \<Rightarrow> 'n bridge option \<Rightarrow> stack_error + flow_metadata" where
  "port_metadata p ob = rbind (ok_or Stopped ob) (tcp_metadata (sp_handle p))"

definition tcp_port_read ::
    "'n smoltcp \<Rightarrow> tcp_stream_port \<times> 'n bridge option \<Rightarrow> bytes
      \<Rightarrow> (tcp_stream_port \<times> 'n bridge option) \<times> bytes \<times> nat io_result poll" where
  "tcp_port_read N st output =
     (case st of (p, ob) \<Rightarrow>
      if output = [] then (st, output, Ready (Inr 0))
      else case ob of
        None \<Rightarrow> (st, output, Ready (Inl stopped_error))
      | Some b \<Rightarrow>
          (case tcp_socket (sp_handle p) (sp_side p) b of
             Inl e \<Rightarrow> (st, output, Ready (Inl (stack_io_error e)))
           | Inr s \<Rightarrow> (case socket_read N s output b of (b', output', r) \<Rightarrow> ((p, Some b'), output', r))))"

definition tcp_port_write ::
    "'n smoltcp \<Rightarrow> tcp_stream_port \<times> 'n bridge option \<Rightarrow> bytes
      \<Rightarrow> (tcp_stream_port \<times> 'n bridge option) \<times> nat io_result poll" where
  "tcp_port_write N st input =
     (case st of (p, ob) \<Rightarrow>
      if sp_write_shutdown p then (st, Ready (Inl (Io_Error BrokenPipe ''stack stream write side is closed'')))
      else if input = [] then (st, Ready (Inr 0))
      else case ob of
        None \<Rightarrow> (st, Ready (Inl stopped_error))
      | Some b \<Rightarrow>
          (case tcp_socket (sp_handle p) (sp_side p) b of
             Inl e \<Rightarrow> (st, Ready (Inl (stack_io_error e)))
           | Inr s \<Rightarrow> (case socket_write N s ''stack stream is closed'' input b of (b', r) \<Rightarrow> ((p, Some b'), r))))"

definition tcp_shutdown_write :: "'n smoltcp \<Rightarrow> handle \<Rightarrow> side \<Rightarrow> 'n bridge \<Rightarrow> (stack_error + unit) \<times> 'n bridge" where
  "tcp_shutdown_write N h s b =
     (case tcp_socket h s b of
        Inl e \<Rightarrow> (Inl e, b)
      | Inr sock \<Rightarrow> (Inr (), b\<lparr>br_net := sm_tcp_close N sock (br_net b)\<rparr>))"

definition tcp_port_close ::
    "'n smoltcp \<Rightarrow> tcp_stream_port \<times> 'n bridge option \<Rightarrow> (tcp_stream_port \<times> 'n bridge option) \<times> unit io_result poll" where
  "tcp_port_close N st =
     (case st of (p, ob) \<Rightarrow>
      if sp_write_shutdown p then (st, Ready (Inr ()))
      else case ob of
        None \<Rightarrow> (st, Ready (Inl stopped_error))
      | Some b \<Rightarrow>
          (case tcp_shutdown_write N (sp_handle p) (sp_side p) b of
             (Inl e, b') \<Rightarrow> ((p, Some b'), Ready (Inl (stack_io_error e)))
           | (Inr _, b') \<Rightarrow> ((p\<lparr>sp_write_shutdown := True\<rparr>, Some b'), Ready (Inr ()))))"

definition tcp_port_io :: "'n smoltcp \<Rightarrow> (tcp_stream_port \<times> 'n bridge option) byte_io" where
  "tcp_port_io N =
     \<lparr>io_read = tcp_port_read N, io_write = tcp_port_write N, io_flush = (\<lambda>st. (st, Ready (Inr ()))),
      io_shutdown_write = tcp_port_close N, io_close = tcp_port_close N\<rparr>"

text \<open>Dropping the last port of a flow drops its lease, which closes the flow.\<close>

definition tcp_lease_drop :: "'n smoltcp \<Rightarrow> handle \<Rightarrow> 'n bridge option \<Rightarrow> 'n bridge option option" where
  "tcp_lease_drop N h ob =
     (case ob of None \<Rightarrow> Some None | Some b \<Rightarrow> map_option (\<lambda>(r, b'). Some b') (close_tcp N h b))"

section \<open>Datagrams between the engine and an adapter\<close>

record udp_datagram_port =
  up_handle :: handle
  up_side :: side

datatype datagram_read = ReadEmpty | ReadDatagram nat | ReadTooSmall nat

definition udp_socket :: "handle \<Rightarrow> side \<Rightarrow> 'n bridge \<Rightarrow> stack_error + socket" where
  "udp_socket h s b =
     rbind (map_err (\<lambda>_. StackStale) (table_get h (br_udp_flows b))) (\<lambda>f.
     Inr (case s of Adapter \<Rightarrow> uf_adapter f | Policy \<Rightarrow> uf_policy f))"

definition udp_endpoint :: "handle \<Rightarrow> side \<Rightarrow> 'n bridge \<Rightarrow> stack_error + ip_endpoint" where
  "udp_endpoint h s b =
     rbind (map_err (\<lambda>_. StackStale) (table_get h (br_udp_flows b))) (\<lambda>f.
     Inr \<lparr>ep_addr = localhost, ep_port = (case s of Adapter \<Rightarrow> uf_adapter_port f | Policy \<Rightarrow> uf_policy_port f)\<rparr>)"

definition recv_udp :: "'n smoltcp \<Rightarrow> socket \<Rightarrow> bytes \<Rightarrow> 'n bridge \<Rightarrow> (stack_error + datagram_read) \<times> bytes \<times> 'n bridge" where
  "recv_udp N s output b =
     (case sm_udp_peek N s (br_net b) of
        Inl Exhausted \<Rightarrow> (Inr ReadEmpty, output, b)
      | Inl _ \<Rightarrow> (Inl UdpError, output, b)
      | Inr (payload, _) \<Rightarrow>
          if length output < length payload then (Inr (ReadTooSmall (length payload)), output, b)
          else
            (case sm_udp_recv_slice N s output (br_net b) of (net, output', r) \<Rightarrow>
               (map_err (\<lambda>_. UdpError) (rbind r (\<lambda>n. Inr (ReadDatagram n))), output', b\<lparr>br_net := net\<rparr>)))"

definition other_side :: "side \<Rightarrow> side" where
  "other_side s = (case s of Adapter \<Rightarrow> Policy | Policy \<Rightarrow> Adapter)"

text \<open>\<open>udp_send_adapter\<close> and \<open>udp_send_policy\<close>: each side sends to the port of the other.\<close>

definition udp_send :: "'n smoltcp \<Rightarrow> handle \<Rightarrow> side \<Rightarrow> bytes \<Rightarrow> 'n bridge \<Rightarrow> (stack_error + unit) \<times> 'n bridge" where
  "udp_send N h s data b =
     (case udp_endpoint h (other_side s) b of
        Inl e \<Rightarrow> (Inl e, b)
      | Inr endpoint \<Rightarrow>
        (case udp_socket h s b of
           Inl e \<Rightarrow> (Inl e, b)
         | Inr sock \<Rightarrow>
             (case sm_udp_send N sock data endpoint (br_net b) of (net, r) \<Rightarrow>
                (map_err (\<lambda>_. UdpError) r, b\<lparr>br_net := net\<rparr>))))"

definition udp_port_recv ::
    "'n smoltcp \<Rightarrow> udp_datagram_port \<times> 'n bridge option \<Rightarrow> bytes
      \<Rightarrow> (udp_datagram_port \<times> 'n bridge option) \<times> bytes \<times> datagram_recv io_result poll" where
  "udp_port_recv N st output =
     (case st of (p, ob) \<Rightarrow>
      case ob of
        None \<Rightarrow> (st, output, Ready (Inl stopped_error))
      | Some b \<Rightarrow>
        (case udp_socket (up_handle p) (up_side p) b of
           Inl e \<Rightarrow> (st, output, Ready (Inl (stack_io_error e)))
         | Inr s \<Rightarrow>
           (case recv_udp N s output b of (r, output', b') \<Rightarrow>
              ((p, Some b'), output',
               case r of
                 Inr ReadEmpty \<Rightarrow> Pending
               | Inr (ReadDatagram n) \<Rightarrow> Ready (Inr (Datagram n))
               | Inr (ReadTooSmall n) \<Rightarrow> Ready (Inr (BufferTooSmall n))
               | Inl e \<Rightarrow> Ready (Inl (stack_io_error e))))))"

definition udp_port_send ::
    "'n smoltcp \<Rightarrow> udp_datagram_port \<times> 'n bridge option \<Rightarrow> bytes
      \<Rightarrow> (udp_datagram_port \<times> 'n bridge option) \<times> unit io_result poll" where
  "udp_port_send N st datagram =
     (case st of (p, ob) \<Rightarrow>
      if MAX_UDP_PAYLOAD < length datagram
      then (st, Ready (Inl (Io_Error InvalidInput ''UDP payload exceeds wire limit'')))
      else case ob of
        None \<Rightarrow> (st, Ready (Inl stopped_error))
      | Some b \<Rightarrow>
        (case udp_send N (up_handle p) (up_side p) datagram b of
           (Inr _, b') \<Rightarrow> ((p, Some b'), Ready (Inr ()))
         | (Inl UdpError, b') \<Rightarrow> ((p, Some b'), Pending)
         | (Inl e, b') \<Rightarrow> ((p, Some b'), Ready (Inl (stack_io_error e)))))"

definition udp_port_io :: "'n smoltcp \<Rightarrow> (udp_datagram_port \<times> 'n bridge option) datagram_io" where
  "udp_port_io N = \<lparr>dg_recv = udp_port_recv N, dg_send = udp_port_send N, dg_close = (\<lambda>st. (st, Ready (Inr ())))\<rparr>"

definition udp_lease_drop :: "'n smoltcp \<Rightarrow> handle \<Rightarrow> 'n bridge option \<Rightarrow> 'n bridge option option" where
  "udp_lease_drop N h ob =
     (case ob of None \<Rightarrow> Some None | Some b \<Rightarrow> map_option (\<lambda>(r, b'). Some b') (close_udp N h b))"

section \<open>The packet port\<close>

record packet_port =
  pp_closed :: bool

definition packet_port_recv ::
    "packet_port \<times> 'n bridge option \<Rightarrow> bytes
      \<Rightarrow> (packet_port \<times> 'n bridge option) \<times> bytes \<times> datagram_recv io_result poll" where
  "packet_port_recv st output =
     (case st of (p, ob) \<Rightarrow>
      if pp_closed p then (st, output, Ready (Inr Closed))
      else case ob of
        None \<Rightarrow> (st, output, Ready (Inl stopped_error))
      | Some b \<Rightarrow>
        (case dev_egress (br_device b) of
           [] \<Rightarrow> (st, output, Pending)
         | packet # _ \<Rightarrow>
             if length output < length packet then (st, output, Ready (Inr (BufferTooSmall (length packet))))
             else
               (case device_pop_egress (br_device b) of
                  None \<Rightarrow> (st, output, Panicked)
                | Some (_, d) \<Rightarrow>
                    ((p, Some (b\<lparr>br_device := d\<rparr>)), splice output 0 packet, Ready (Inr (Datagram (length packet)))))))"

text \<open>\<open>now\<close> is the time since the bridge was started, in milliseconds.\<close>

definition packet_port_send ::
    "wire_view \<Rightarrow> nat \<Rightarrow> packet_port \<times> 'n bridge option \<Rightarrow> bytes
      \<Rightarrow> (packet_port \<times> 'n bridge option) \<times> unit io_result poll" where
  "packet_port_send W now st packet =
     (case st of (p, ob) \<Rightarrow>
      if pp_closed p then (st, Ready (Inl (Io_Error BrokenPipe ''packet port is closed'')))
      else if packet = [] \<or> MAX_IPV6_PACKET_BYTES < length packet \<or> \<not> valid_ip_packet packet
      then (st, Ready (Inl (Io_Error InvalidInput ''packet port input is invalid'')))
      else case ob of
        None \<Rightarrow> (st, Ready (Inl stopped_error))
      | Some b \<Rightarrow>
        (let room = device_room (br_device b) in
         case reassembly_ingest W (br_reassembly b) packet now room of
           None \<Rightarrow> (st, Panicked)
         | Some (r, out) \<Rightarrow>
           (let b = b\<lparr>br_reassembly := r\<rparr>; st = (p, Some b) in
            case out of
              Packet whole \<Rightarrow>
                if room < length whole then (st, Pending)
                else ((p, Some (b\<lparr>br_device := device_push_external whole (br_device b)\<rparr>)), Ready (Inr ()))
            | PendingRoom \<Rightarrow> (st, Pending)
            | Buffered \<Rightarrow> (st, Ready (Inr ()))
            | Dropped \<Rightarrow> (st, Ready (Inr ())))))"

definition packet_port_close :: "packet_port \<times> 'n bridge option \<Rightarrow> (packet_port \<times> 'n bridge option) \<times> unit io_result poll" where
  "packet_port_close st = ((fst st\<lparr>pp_closed := True\<rparr>, snd st), Ready (Inr ()))"

section \<open>Flows that arrived as packets\<close>

record packet_tcp_port =
  ptp_handle :: handle
  ptp_write_shutdown :: bool

definition packet_tcp_socket :: "handle \<Rightarrow> 'n bridge \<Rightarrow> stack_error + socket" where
  "packet_tcp_socket h b = map_err (\<lambda>_. StackStale) (rbind (table_get h (br_packet_tcp b)) (\<lambda>f. Inr (pt_socket f)))"

definition packet_tcp_metadata :: "handle \<Rightarrow> 'n bridge \<Rightarrow> stack_error + flow_metadata" where
  "packet_tcp_metadata h b = map_err (\<lambda>_. StackStale) (rbind (table_get h (br_packet_tcp b)) (\<lambda>f. Inr (pt_metadata f)))"

definition packet_udp_metadata :: "handle \<Rightarrow> 'n bridge \<Rightarrow> stack_error + flow_metadata" where
  "packet_udp_metadata h b = map_err (\<lambda>_. StackStale) (rbind (table_get h (br_packet_udp b)) (\<lambda>f. Inr (pu_metadata f)))"

definition accept_packet_tcp :: "'n bridge \<Rightarrow> (stack_error + (flow_metadata \<times> packet_tcp_port) option) \<times> 'n bridge" where
  "accept_packet_tcp b =
     (case br_pending_tcp b of
        [] \<Rightarrow> (Inr None, b)
      | h # rest \<Rightarrow>
          (let b = b\<lparr>br_pending_tcp := rest\<rparr> in
           (rbind (packet_tcp_metadata h b) (\<lambda>m. Inr (Some (m, \<lparr>ptp_handle = h, ptp_write_shutdown = False\<rparr>))), b)))"

definition accept_packet_udp :: "'n bridge \<Rightarrow> (stack_error + (flow_metadata \<times> handle) option) \<times> 'n bridge" where
  "accept_packet_udp b =
     (case br_pending_udp b of
        [] \<Rightarrow> (Inr None, b)
      | h # rest \<Rightarrow>
          (let b = b\<lparr>br_pending_udp := rest\<rparr> in
           (rbind (packet_udp_metadata h b) (\<lambda>m. Inr (Some (m, h))), b)))"

definition packet_tcp_read ::
    "'n smoltcp \<Rightarrow> packet_tcp_port \<times> 'n bridge option \<Rightarrow> bytes
      \<Rightarrow> (packet_tcp_port \<times> 'n bridge option) \<times> bytes \<times> nat io_result poll" where
  "packet_tcp_read N st output =
     (case st of (p, ob) \<Rightarrow>
      if output = [] then (st, output, Ready (Inr 0))
      else case ob of
        None \<Rightarrow> (st, output, Ready (Inl stopped_error))
      | Some b \<Rightarrow>
          (case packet_tcp_socket (ptp_handle p) b of
             Inl e \<Rightarrow> (st, output, Ready (Inl (stack_io_error e)))
           | Inr s \<Rightarrow> (case socket_read N s output b of (b', output', r) \<Rightarrow> ((p, Some b'), output', r))))"

definition packet_tcp_write ::
    "'n smoltcp \<Rightarrow> packet_tcp_port \<times> 'n bridge option \<Rightarrow> bytes
      \<Rightarrow> (packet_tcp_port \<times> 'n bridge option) \<times> nat io_result poll" where
  "packet_tcp_write N st input =
     (case st of (p, ob) \<Rightarrow>
      if ptp_write_shutdown p then (st, Ready (Inl (Io_Error BrokenPipe ''packet TCP write side is closed'')))
      else if input = [] then (st, Ready (Inr 0))
      else case ob of
        None \<Rightarrow> (st, Ready (Inl stopped_error))
      | Some b \<Rightarrow>
          (case packet_tcp_socket (ptp_handle p) b of
             Inl e \<Rightarrow> (st, Ready (Inl (stack_io_error e)))
           | Inr s \<Rightarrow> (case socket_write N s ''packet TCP socket is closed'' input b of (b', r) \<Rightarrow> ((p, Some b'), r))))"

definition packet_tcp_close ::
    "'n smoltcp \<Rightarrow> packet_tcp_port \<times> 'n bridge option \<Rightarrow> (packet_tcp_port \<times> 'n bridge option) \<times> unit io_result poll" where
  "packet_tcp_close N st =
     (case st of (p, ob) \<Rightarrow>
      if ptp_write_shutdown p then (st, Ready (Inr ()))
      else case ob of
        None \<Rightarrow> (st, Ready (Inl stopped_error))
      | Some b \<Rightarrow>
          (case packet_tcp_socket (ptp_handle p) b of
             Inl e \<Rightarrow> (st, Ready (Inl (stack_io_error e)))
           | Inr s \<Rightarrow> ((p\<lparr>ptp_write_shutdown := True\<rparr>, Some (b\<lparr>br_net := sm_tcp_close N s (br_net b)\<rparr>)), Ready (Inr ()))))"

definition packet_tcp_io :: "'n smoltcp \<Rightarrow> (packet_tcp_port \<times> 'n bridge option) byte_io" where
  "packet_tcp_io N =
     \<lparr>io_read = packet_tcp_read N, io_write = packet_tcp_write N, io_flush = (\<lambda>st. (st, Ready (Inr ()))),
      io_shutdown_write = packet_tcp_close N, io_close = packet_tcp_close N\<rparr>"

definition packet_tcp_lease_drop :: "'n smoltcp \<Rightarrow> handle \<Rightarrow> 'n bridge option \<Rightarrow> 'n bridge option option" where
  "packet_tcp_lease_drop N h ob =
     (case ob of None \<Rightarrow> Some None | Some b \<Rightarrow> map_option (\<lambda>(r, b'). Some b') (close_packet_tcp N h b))"

text \<open>The state of a \<open>PacketUdpPort\<close> is the handle of its lease.\<close>

definition packet_udp_recv ::
    "handle \<times> 'n bridge option \<Rightarrow> bytes \<Rightarrow> (handle \<times> 'n bridge option) \<times> bytes \<times> datagram_recv io_result poll" where
  "packet_udp_recv st output =
     (case st of (h, ob) \<Rightarrow>
      case ob of
        None \<Rightarrow> (st, output, Ready (Inl stopped_error))
      | Some b \<Rightarrow>
        (case table_get h (br_packet_udp b) of
           Inl _ \<Rightarrow> (st, output, Ready (Inr Closed))
         | Inr flow \<Rightarrow>
           (case pu_incoming flow of
              None \<Rightarrow> (st, output, Pending)
            | Some packet \<Rightarrow>
                if length output < length packet then (st, output, Ready (Inr (BufferTooSmall (length packet))))
                else
                  (let b = b\<lparr>br_packet_udp := snd (table_update h (\<lambda>f. f\<lparr>pu_incoming := None\<rparr>) (br_packet_udp b))\<rparr> in
                   case release (length packet) b of
                     None \<Rightarrow> ((h, Some b), output, Panicked)
                   | Some b \<Rightarrow> ((h, Some b), splice output 0 packet, Ready (Inr (Datagram (length packet))))))))"

definition packet_udp_send ::
    "'n smoltcp \<Rightarrow> handle \<times> 'n bridge option \<Rightarrow> bytes \<Rightarrow> (handle \<times> 'n bridge option) \<times> unit io_result poll" where
  "packet_udp_send N st datagram =
     (case st of (h, ob) \<Rightarrow>
      case ob of
        None \<Rightarrow> (st, Ready (Inl stopped_error))
      | Some b \<Rightarrow>
        if max_udp_payload_bytes (br_config b) < length datagram
        then (st, Ready (Inl (Io_Error InvalidInput ''UDP payload exceeds stack limit'')))
        else
          (case table_get h (br_packet_udp b) of
             Inl _ \<Rightarrow> (st, Ready (Inl (Io_Error BrokenPipe ''packet UDP flow is closed'')))
           | Inr flow \<Rightarrow>
             (case map_of (br_udp_groups b) (tuple_destination (pu_tuple flow)) of
                None \<Rightarrow> (st, Ready (Inl (Io_Error OtherKind ''packet UDP socket is missing'')))
              | Some g \<Rightarrow>
                (case sm_udp_send N (pg_socket g) datagram (tuple_source (pu_tuple flow)) (br_net b) of
                   (net, r) \<Rightarrow>
                     ((h, Some (b\<lparr>br_net := net\<rparr>)),
                      case r of
                        Inr _ \<Rightarrow> Ready (Inr ())
                      | Inl BufferFull \<Rightarrow> Pending
                      | Inl _ \<Rightarrow> Ready (Inl (Io_Error OtherKind ''packet UDP send failed'')))))))"

definition packet_udp_io :: "'n smoltcp \<Rightarrow> (handle \<times> 'n bridge option) datagram_io" where
  "packet_udp_io N = \<lparr>dg_recv = packet_udp_recv, dg_send = packet_udp_send N, dg_close = (\<lambda>st. (st, Ready (Inr ())))\<rparr>"

definition packet_udp_lease_drop :: "'n smoltcp \<Rightarrow> handle \<Rightarrow> 'n bridge option \<Rightarrow> 'n bridge option option" where
  "packet_udp_lease_drop N h ob =
     (case ob of None \<Rightarrow> Some None | Some b \<Rightarrow> map_option (\<lambda>(r, b'). Some b') (close_packet_udp N h b))"

section \<open>The remaining calls of the bridge\<close>

text \<open>\<open>tcp_send_adapter\<close>, \<open>tcp_send_policy\<close> and the two receivers, by side.\<close>

definition tcp_send :: "'n smoltcp \<Rightarrow> handle \<Rightarrow> side \<Rightarrow> bytes \<Rightarrow> 'n bridge \<Rightarrow> (stack_error + nat) \<times> 'n bridge" where
  "tcp_send N h s data b =
     (case tcp_socket h s b of
        Inl e \<Rightarrow> (Inl e, b)
      | Inr sock \<Rightarrow> (case sm_tcp_send N sock data (br_net b) of (net, r) \<Rightarrow> (map_err TcpError r, b\<lparr>br_net := net\<rparr>)))"

definition tcp_recv :: "'n smoltcp \<Rightarrow> handle \<Rightarrow> side \<Rightarrow> bytes \<Rightarrow> 'n bridge \<Rightarrow> (stack_error + nat) \<times> bytes \<times> 'n bridge" where
  "tcp_recv N h s output b =
     (case tcp_socket h s b of
        Inl e \<Rightarrow> (Inl e, output, b)
      | Inr sock \<Rightarrow>
          (case sm_tcp_recv N sock output (br_net b) of (net, output', r) \<Rightarrow> (map_err TcpError r, output', b\<lparr>br_net := net\<rparr>)))"

definition udp_metadata :: "handle \<Rightarrow> 'n bridge \<Rightarrow> stack_error + flow_metadata" where
  "udp_metadata h b = map_err (\<lambda>_. StackStale) (rbind (table_get h (br_udp_flows b)) (\<lambda>f. Inr (uf_metadata f)))"

definition udp_port_metadata :: "udp_datagram_port \<Rightarrow> 'n bridge option \<Rightarrow> stack_error + flow_metadata" where
  "udp_port_metadata p ob = rbind (ok_or Stopped ob) (udp_metadata (up_handle p))"

definition stop_device :: "'n bridge \<Rightarrow> 'n bridge" where
  "stop_device b = b\<lparr>br_device := (br_device b)\<lparr>dev_stopped := True\<rparr>\<rparr>"

definition start_device :: "'n bridge \<Rightarrow> 'n bridge" where
  "start_device b = b\<lparr>br_device := (br_device b)\<lparr>dev_stopped := False\<rparr>\<rparr>"

section \<open>A network for the witnesses\<close>

text \<open>Sockets are numbered, every call succeeds and no packet moves.\<close>

definition still_net :: "nat smoltcp" where
  "still_net = \<lparr>
     sm_tcp_add = (\<lambda>rx tx n. (n + 1, n)), sm_tcp_listen_port = (\<lambda>s p n. (n, Inr ())),
     sm_tcp_listen = (\<lambda>s e n. (n, Inr ())), sm_tcp_connect = (\<lambda>s e p n. (n, Inr ())),
     sm_tcp_established = (\<lambda>s n. False), sm_tcp_can_recv = (\<lambda>s n. False), sm_tcp_may_recv = (\<lambda>s n. True),
     sm_tcp_can_send = (\<lambda>s n. False), sm_tcp_may_send = (\<lambda>s n. True),
     sm_tcp_recv = (\<lambda>s out n. (n, out, Inr 0)), sm_tcp_send = (\<lambda>s d n. (n, Inr 0)), sm_tcp_close = (\<lambda>s n. n),
     sm_udp_add = (\<lambda>m rx tx n. (n + 1, n)), sm_udp_bind_port = (\<lambda>s p n. (n, Inr ())),
     sm_udp_bind = (\<lambda>s e n. (n, Inr ())), sm_udp_peek = (\<lambda>s n. Inl Exhausted),
     sm_udp_recv = (\<lambda>s n. (n, Inl Exhausted)), sm_udp_recv_slice = (\<lambda>s out n. (n, out, Inl Exhausted)),
     sm_udp_send = (\<lambda>s d e n. (n, Inr ())), sm_remove = (\<lambda>s n. n), sm_poll_maintenance = (\<lambda>t n. n),
     sm_poll_ingress = (\<lambda>t n d. (n, d, True)), sm_poll_egress = (\<lambda>t n d. (n, d)),
     sm_interface = (\<lambda>v4 v6 t. Inr 0)\<rparr>"

text \<open>The header layouts of the RFCs, an instance of the accessors for the witnesses.\<close>

definition rfc_transport :: transport_view where
  "rfc_transport = \<lparr>
     ip4_new_checked = (\<lambda>p. 20 \<le> length p \<and> from_be (slice p 2 4) \<le> length p),
     ip4_protocol = (\<lambda>p. p ! 9),
     ip4_frag_offset = (\<lambda>p. push_bit 3 (and (u16_from_be (slice p 6 8)) 8191)),
     ip4_src = (\<lambda>p. of_nat (from_be (slice p 12 16))), ip4_dst = (\<lambda>p. of_nat (from_be (slice p 16 20))),
     ip4_payload = (\<lambda>p. slice p (4 * (unat (p ! 0) mod 16)) (from_be (slice p 2 4))),
     ip6_new_checked = v6_new_checked rfc_view, ip6_protocol = (\<lambda>p. p ! 6),
     ip6_src = (\<lambda>p. of_nat (from_be (slice p 8 24))), ip6_dst = (\<lambda>p. of_nat (from_be (slice p 24 40))),
     ip6_payload = v6_payload rfc_view, tcp_new_checked = (\<lambda>p. 20 \<le> length p),
     tcp_syn = (\<lambda>p. bit (p ! 13) 1), tcp_ack = (\<lambda>p. bit (p ! 13) 4),
     tcp_src_port = (\<lambda>p. u16_from_be (slice p 0 2)), tcp_dst_port = (\<lambda>p. u16_from_be (slice p 2 4)),
     udp_src_port = (\<lambda>p. u16_from_be (slice p 0 2)), udp_dst_port = (\<lambda>p. u16_from_be (slice p 2 4))\<rparr>"

section \<open>Reachable bridges\<close>

text \<open>Every operation that can touch the bridge, with any arguments and in any order.\<close>

inductive bridge_reachable :: "'n smoltcp \<Rightarrow> transport_view \<Rightarrow> wire_view \<Rightarrow> stack_config \<Rightarrow> 'n bridge \<Rightarrow> bool"
  for N V W c where
  created: "bridge_new N c flow_limit max_managed max_ingress = Inr b \<Longrightarrow> bridge_reachable N V W c b"
| opened_tcp: "bridge_reachable N V W c b \<Longrightarrow> open_tcp N V now m b = Some (r, b') \<Longrightarrow> bridge_reachable N V W c b'"
| opened_udp: "bridge_reachable N V W c b \<Longrightarrow> open_udp N m b = Some (r, b') \<Longrightarrow> bridge_reachable N V W c b'"
| closed_tcp: "bridge_reachable N V W c b \<Longrightarrow> tcp_lease_drop N h (Some b) = Some (Some b') \<Longrightarrow> bridge_reachable N V W c b'"
| closed_udp: "bridge_reachable N V W c b \<Longrightarrow> udp_lease_drop N h (Some b) = Some (Some b') \<Longrightarrow> bridge_reachable N V W c b'"
| polled: "bridge_reachable N V W c b \<Longrightarrow> bridge_poll N V now b = Some b' \<Longrightarrow> bridge_reachable N V W c b'"
| accepted_tcp: "bridge_reachable N V W c b \<Longrightarrow> accept_packet_tcp b = (r2, b') \<Longrightarrow> bridge_reachable N V W c b'"
| accepted_udp: "bridge_reachable N V W c b \<Longrightarrow> accept_packet_udp b = (r3, b') \<Longrightarrow> bridge_reachable N V W c b'"
| dropped_packet_tcp: "bridge_reachable N V W c b \<Longrightarrow> packet_tcp_lease_drop N h (Some b) = Some (Some b')
    \<Longrightarrow> bridge_reachable N V W c b'"
| dropped_packet_udp: "bridge_reachable N V W c b \<Longrightarrow> packet_udp_lease_drop N h (Some b) = Some (Some b')
    \<Longrightarrow> bridge_reachable N V W c b'"
| port_read: "bridge_reachable N V W c b \<Longrightarrow> tcp_port_read N (sp, Some b) out = ((sp', Some b'), out', q)
    \<Longrightarrow> bridge_reachable N V W c b'"
| port_wrote: "bridge_reachable N V W c b \<Longrightarrow> tcp_port_write N (sp, Some b) data = ((sp', Some b'), q)
    \<Longrightarrow> bridge_reachable N V W c b'"
| port_closed: "bridge_reachable N V W c b \<Longrightarrow> tcp_port_close N (sp, Some b) = ((sp', Some b'), u)
    \<Longrightarrow> bridge_reachable N V W c b'"
| udp_received: "bridge_reachable N V W c b \<Longrightarrow> udp_port_recv N (up, Some b) out = ((up', Some b'), out', d)
    \<Longrightarrow> bridge_reachable N V W c b'"
| udp_sent: "bridge_reachable N V W c b \<Longrightarrow> udp_port_send N (up, Some b) data = ((up', Some b'), u)
    \<Longrightarrow> bridge_reachable N V W c b'"
| packet_received: "bridge_reachable N V W c b \<Longrightarrow> packet_port_recv (pp, Some b) out = ((pp', Some b'), out', d)
    \<Longrightarrow> bridge_reachable N V W c b'"
| packet_sent: "bridge_reachable N V W c b \<Longrightarrow> packet_port_send W now (pp, Some b) data = ((pp', Some b'), u)
    \<Longrightarrow> bridge_reachable N V W c b'"
| ptcp_read: "bridge_reachable N V W c b \<Longrightarrow> packet_tcp_read N (tp, Some b) out = ((tp', Some b'), out', q)
    \<Longrightarrow> bridge_reachable N V W c b'"
| ptcp_wrote: "bridge_reachable N V W c b \<Longrightarrow> packet_tcp_write N (tp, Some b) data = ((tp', Some b'), q)
    \<Longrightarrow> bridge_reachable N V W c b'"
| ptcp_closed: "bridge_reachable N V W c b \<Longrightarrow> packet_tcp_close N (tp, Some b) = ((tp', Some b'), u)
    \<Longrightarrow> bridge_reachable N V W c b'"
| pudp_received: "bridge_reachable N V W c b \<Longrightarrow> packet_udp_recv (h, Some b) out = ((h', Some b'), out', d)
    \<Longrightarrow> bridge_reachable N V W c b'"
| stopped: "bridge_reachable N V W c b \<Longrightarrow> bridge_reachable N V W c (stop_device b)"
| started: "bridge_reachable N V W c b \<Longrightarrow> bridge_reachable N V W c (start_device b)"
| tcp_side_sent: "bridge_reachable N V W c b \<Longrightarrow> tcp_send N h s data b = (r4, b') \<Longrightarrow> bridge_reachable N V W c b'"
| tcp_side_received: "bridge_reachable N V W c b \<Longrightarrow> tcp_recv N h s out b = (r4, out', b') \<Longrightarrow> bridge_reachable N V W c b'"
| pudp_sent: "bridge_reachable N V W c b \<Longrightarrow> packet_udp_send N (h, Some b) data = ((h', Some b'), u)
    \<Longrightarrow> bridge_reachable N V W c b'"

lemma map_err_eq_Inr [simp]: "map_err f m = Inr a \<longleftrightarrow> m = Inr a"
  by (cases m) auto

lemma stream_ops_ok:
  assumes "bridge_ok x P b"
  shows "tcp_port_read N (sp, Some b) out = ((sp', Some b'), out', q) \<Longrightarrow> bridge_ok x P b'"
    and "tcp_port_write N (sp, Some b) data = ((sp', Some b'), q) \<Longrightarrow> bridge_ok x P b'"
    and "tcp_port_close N (sp, Some b) = ((sp', Some b'), u) \<Longrightarrow> bridge_ok x P b'"
    and "packet_tcp_read N (tp, Some b) out = ((tp', Some b'), out', q) \<Longrightarrow> bridge_ok x P b'"
    and "packet_tcp_write N (tp, Some b) data = ((tp', Some b'), q) \<Longrightarrow> bridge_ok x P b'"
    and "packet_tcp_close N (tp, Some b) = ((tp', Some b'), u) \<Longrightarrow> bridge_ok x P b'"
  using assms
  by (auto simp: tcp_port_read_def tcp_port_write_def tcp_port_close_def packet_tcp_read_def packet_tcp_write_def
      packet_tcp_close_def socket_read_def socket_write_def tcp_shutdown_write_def
      split: if_splits sum.splits prod.splits)

lemma side_ops_ok:
  assumes "bridge_ok x P b"
  shows "tcp_send N h s data b = (r, b') \<Longrightarrow> bridge_ok x P b'"
    and "tcp_recv N h s out b = (r, out', b') \<Longrightarrow> bridge_ok x P b'"
    and "bridge_ok x P (stop_device b)" and "bridge_ok x P (start_device b)"
proof -
  have "device_inv (br_device b)" by (rule bridge_ok_tables(7) [OF assms])
  then show "bridge_ok x P (stop_device b)" "bridge_ok x P (start_device b)"
    by (auto simp: stop_device_def start_device_def device_inv_def intro!: bridge_ok_device [OF assms])
  show "tcp_send N h s data b = (r, b') \<Longrightarrow> bridge_ok x P b'"
    "tcp_recv N h s out b = (r, out', b') \<Longrightarrow> bridge_ok x P b'"
    using assms by (auto simp: tcp_send_def tcp_recv_def split: sum.splits prod.splits)
qed

lemma datagram_ops_ok:
  assumes "bridge_ok x P b"
  shows "udp_port_recv N (up, Some b) out = ((up', Some b'), out', d) \<Longrightarrow> bridge_ok x P b'"
    and "udp_port_send N (up, Some b) data = ((up', Some b'), u) \<Longrightarrow> bridge_ok x P b'"
    and "packet_udp_send N (h, Some b) data = ((h', Some b'), u) \<Longrightarrow> bridge_ok x P b'"
  using assms
  by (auto simp: udp_port_recv_def udp_port_send_def packet_udp_send_def recv_udp_def udp_send_def
      split: if_splits sum.splits prod.splits option.splits udp_recv_error.splits stack_error.splits)

lemma packet_udp_recv_ok:
  assumes "bridge_ok x P b" and "packet_udp_recv (h, Some b) out = ((h', ob), out', d)"
  shows "d \<noteq> Panicked \<and> length out' = length out \<and> (\<exists>b'. ob = Some b' \<and> bridge_ok x P b')"
proof (cases "\<exists>f p. table_get h (br_packet_udp b) = Inr f \<and> pu_incoming f = Some p \<and> length p \<le> length out")
  case False
  with assms show ?thesis
    by (auto simp: packet_udp_recv_def Let_def split: sum.splits option.splits if_splits)
next
  case True
  then obtain f p where f: "table_get h (br_packet_udp b) = Inr f" "pu_incoming f = Some p" "length p \<le> length out" by blast
  let ?g = "\<lambda>f. f\<lparr>pu_incoming := None\<rparr>"
  let ?t = "snd (table_update h ?g (br_packet_udp b))"
  have u: "table_update h ?g (br_packet_udp b) = (Inr f, ?t)" using f(1) by (simp add: table_update_def Let_def)
  have "table_sum incoming_bytes ?t + length p = table_sum incoming_bytes (br_packet_udp b) + 0"
    using table_sum_update [OF u, of incoming_bytes] f(2) by (simp add: incoming_bytes_def)
  with bridge_ok_packet_udp [OF _ table_wf_update [OF bridge_ok_tables(4) [OF assms(1)]], of x 0 P b h ?g "length p"] assms(1)
  have "bridge_ok (x + length p) P (b\<lparr>br_packet_udp := ?t\<rparr>)" by simp
  from release_ok [OF this] obtain b' where "release (length p) (b\<lparr>br_packet_udp := ?t\<rparr>) = Some b'" "bridge_ok x P b'" by blast
  moreover from this(1) assms(2) f have "ob = Some b'" "out' = splice out 0 p" "d = Ready (Inr (Datagram (length p)))"
    by (simp_all add: packet_udp_recv_def Let_def)
  ultimately show ?thesis using f(3) by simp
qed

lemma packet_port_recv_ok:
  assumes "bridge_ok x P b" and "packet_port_recv (pp, Some b) out = ((pp', ob), out', d)"
  shows "d \<noteq> Panicked \<and> length out' = length out \<and> (\<exists>b'. ob = Some b' \<and> bridge_ok x P b')"
proof -
  obtain q dev where pop: "device_pop_egress (br_device b) = Some (q, dev)" "device_inv dev"
    using device_pop_egress_ok [OF bridge_ok_tables(7) [OF assms(1)]] by blast
  with assms show ?thesis
    by (auto simp: packet_port_recv_def bridge_ok_device split: list.splits if_splits)
qed

lemma packet_port_send_ok:
  assumes "wire_view_ok W" and "bridge_ok x P b" and "packet_port_send W now (pp, Some b) data = ((pp', ob), u)"
  shows "u \<noteq> Panicked \<and> (\<exists>b'. ob = Some b' \<and> bridge_ok x P b')"
proof -
  have rw: "reassembly_wf (br_reassembly b)" using assms(2) by (simp add: bridge_ok_def)
  obtain r out where ri: "reassembly_ingest W (br_reassembly b) data now (device_room (br_device b)) = Some (r, out)" "reassembly_wf r"
    using reassembly_ingest_total [OF assms(1) rw] by blast
  have ok1: "bridge_ok x P (b\<lparr>br_reassembly := r\<rparr>)" using assms(2) ri(2) by (simp add: bridge_ok_def bridge_frame)
  have push: "length q \<le> device_room (br_device b) \<Longrightarrow>
      bridge_ok x P (b\<lparr>br_reassembly := r, br_device := device_push_external q (br_device b)\<rparr>)" for q
    using bridge_ok_device [OF ok1 device_push_external_inv [OF bridge_ok_tables(7) [OF assms(2)]], of q] by simp
  from assms(2,3) ri(1) ok1 push show ?thesis
    by (auto simp: packet_port_send_def Let_def split: if_splits reassembly_outcome.splits)
qed

lemma accept_ok:
  assumes "bridge_ok x P b"
  shows "accept_packet_tcp b = (r, b') \<Longrightarrow> bridge_ok x P b'" and "accept_packet_udp b = (r', b') \<Longrightarrow> bridge_ok x P b'"
  using assms by (auto simp: accept_packet_tcp_def accept_packet_udp_def Let_def split: list.splits)

lemma drops_ok:
  assumes "bridge_ok x P b"
  shows "tcp_lease_drop N h (Some b) = Some (Some b') \<Longrightarrow> bridge_ok x P b'"
    and "udp_lease_drop N h (Some b) = Some (Some b') \<Longrightarrow> bridge_ok x P b'"
    and "packet_tcp_lease_drop N h (Some b) = Some (Some b') \<Longrightarrow> bridge_ok x P b'"
    and "packet_udp_lease_drop N h (Some b) = Some (Some b') \<Longrightarrow> bridge_ok x P b'"
  using close_tcp_ok [OF assms, of N h] close_udp_ok [OF assms, of N h] close_packet_tcp_ok [OF assms, of N h]
    close_packet_udp_ok [OF assms, of N h]
  by (auto simp: tcp_lease_drop_def udp_lease_drop_def packet_tcp_lease_drop_def packet_udp_lease_drop_def)

lemma bridge_reachable_ok:
  assumes "smoltcp_ok N" and "wire_view_ok W" and "0 < reassembly_slots c" and "bridge_reachable N V W c b"
  shows "bridge_ok 0 {#} b"
  using assms(4)
proof (induction rule: bridge_reachable.induct)
  case created
  then show ?case using bridge_new_ok assms(3) by blast
next
  case opened_tcp
  then show ?case using open_tcp_ok [OF assms(1)] by (metis option.inject prod.inject)
next
  case opened_udp
  then show ?case using open_udp_ok by (metis option.inject prod.inject)
next
  case polled
  then show ?case using bridge_poll_ok [OF assms(1)] by (metis option.inject)
next
  case packet_received
  then show ?case using packet_port_recv_ok by blast
next
  case packet_sent
  then show ?case using packet_port_send_ok [OF assms(2)] by blast
next
  case pudp_received
  then show ?case using packet_udp_recv_ok by blast
qed (blast dest: stream_ops_ok datagram_ops_ok accept_ok drops_ok side_ops_ok)+

section \<open>Contracts\<close>

text \<open>smoltcp moves at most as many bytes as the slice has, and keeps the slice's length.\<close>

definition smoltcp_io_ok :: "'n smoltcp \<Rightarrow> bool" where
  "smoltcp_io_ok N \<longleftrightarrow>
     (\<forall>s out n n' out' r. sm_tcp_recv N s out n = (n', out', r) \<longrightarrow>
        length out' = length out \<and> (\<forall>k. r = Inr k \<longrightarrow> k \<le> length out))
     \<and> (\<forall>s d n n' r. sm_tcp_send N s d n = (n', r) \<longrightarrow> (\<forall>k. r = Inr k \<longrightarrow> k \<le> length d))
     \<and> (\<forall>s out n n' out' r. sm_udp_recv_slice N s out n = (n', out', r) \<longrightarrow> length out' = length out)"

lemma tcp_port_contract:
  assumes "smoltcp_io_ok N"
  shows "byte_io_contract (tcp_port_io N) (\<lambda>_. True)"
  using assms
  by unfold_locales
    (auto simp: tcp_port_io_def tcp_port_read_def tcp_port_write_def tcp_port_close_def socket_read_def socket_write_def
      smoltcp_io_ok_def split: if_splits option.splits sum.splits prod.splits)

lemma packet_tcp_contract:
  assumes "smoltcp_io_ok N"
  shows "byte_io_contract (packet_tcp_io N) (\<lambda>_. True)"
  using assms
  by unfold_locales
    (auto simp: packet_tcp_io_def packet_tcp_read_def packet_tcp_write_def packet_tcp_close_def socket_read_def socket_write_def
      smoltcp_io_ok_def split: if_splits option.splits sum.splits prod.splits)

lemma udp_port_contract:
  assumes "smoltcp_io_ok N"
  shows "datagram_io_contract (udp_port_io N) (\<lambda>_. True)"
proof -
  have rs: "\<And>s out n n' out' r. sm_udp_recv_slice N s out n = (n', out', r) \<Longrightarrow> length out' = length out"
    using assms unfolding smoltcp_io_ok_def by blast
  show ?thesis
    by unfold_locales
      (auto simp: udp_port_io_def udp_port_recv_def udp_port_send_def recv_udp_def dest: rs
        split: if_splits option.splits sum.splits prod.splits datagram_read.splits udp_recv_error.splits stack_error.splits)
qed

lemma packet_udp_contract:
  "datagram_io_contract (packet_udp_io N) (\<lambda>(h, ob). \<forall>b. ob = Some b \<longrightarrow> bridge_ok 0 {#} b)"
proof (unfold_locales, goal_cases)
  case (1 st buf st' buf' r)
  obtain h ob where st: "st = (h, ob)" by fastforce
  show ?case
  proof (cases ob)
    case None
    with 1 st show ?thesis by (auto simp: packet_udp_io_def packet_udp_recv_def)
  next
    case (Some b)
    with 1 st packet_udp_recv_ok [of 0 "{#}" b h buf "fst st'" "snd st'" buf' r] show ?thesis
      by (auto simp: packet_udp_io_def split: prod.splits)
  qed
next
  case (2 st d st' u)
  obtain h ob where st: "st = (h, ob)" by fastforce
  show ?case
  proof (cases ob)
    case None
    with 2 st show ?thesis by (auto simp: packet_udp_io_def packet_udp_send_def)
  next
    case (Some b)
    with 2 st have "packet_udp_send N (h, Some b) d = (st', u)" "bridge_ok 0 {#} b" by (auto simp: packet_udp_io_def)
    then show ?thesis
      by (auto simp: packet_udp_send_def split: if_splits sum.splits option.splits prod.splits udp_send_error.splits)
  qed
qed

section \<open>Properties\<close>

text \<open>
  C5: In every state the bridge can reach, whatever its users and the network do, the managed
  bytes are exactly the fixed reservation of the reassembly and the packet queue plus what the
  live flows hold, they never exceed the configured limit, the virtual ports in use are exactly
  those of the live flows, each held once, and the queued packets never exceed the device limit.
\<close>

theorem stack_account_exact:
  assumes "smoltcp_ok N" and "wire_view_ok W" and "0 < reassembly_slots c" and "bridge_reachable N V W c b"
  shows "(\<exists>base. base_managed_bytes (br_config b) = Some base \<and> br_managed b = base + held_bytes b)
    \<and> br_managed b \<le> br_max_managed b
    \<and> mset_set (ports_in_use (br_ports b)) = held_ports b
    \<and> dev_bytes (br_device b) = sum_list (map (length \<circ> qp_bytes) (dev_ingress (br_device b)))
        + sum_list (map length (dev_egress (br_device b)))
    \<and> dev_bytes (br_device b) \<le> dev_byte_limit (br_device b)"
  using bridge_reachable_ok [OF assms] by (auto simp: bridge_ok_def device_inv_def)

lemma still_net_ok: "smoltcp_ok still_net"
  by (auto simp: smoltcp_ok_def still_net_def device_reach_def)

lemma still_bridge:
  "\<exists>b. bridge_new still_net (stack_of low_memory_template) 32 33554432 32 = Inr b
     \<and> bridge_reachable still_net V rfc_view (stack_of low_memory_template) b"
proof -
  have "\<exists>b. bridge_new still_net (stack_of low_memory_template) 32 33554432 32 = Inr b"
    by (simp add: bridge_new_def base_managed_bytes_def reassembly_managed_bytes_def low_memory_template_def
        ipv6_consts usize_max_def checked_mul_def checked_add_def still_net_def)
  then show ?thesis by (blast intro: bridge_reachable.created)
qed

theorem stack_account_exact_witness:
  "\<exists>b. bridge_new still_net (stack_of low_memory_template) 32 33554432 32 = Inr b \<and> br_managed b \<le> br_max_managed b"
proof -
  obtain b where b: "bridge_new still_net (stack_of low_memory_template) 32 33554432 32 = Inr b"
    "bridge_reachable still_net rfc_transport rfc_view (stack_of low_memory_template) b" using still_bridge by blast
  have "0 < reassembly_slots (stack_of low_memory_template)" by (simp add: low_memory_template_def)
  from stack_account_exact [OF still_net_ok rfc_view_ok this b(2)] b(1) show ?thesis by blast
qed



end
