(* ===== verification/Duplex.thy ===== *)
theory Duplex
  imports Io_Spec "HOL-Library.Sublist"
begin

text \<open>
  A transport that is read and written through the same object (\<open>T: AsyncRead + AsyncWrite\<close>),
  as the multiplexer and the datagram framing use it: \<open>poll_close\<close> is \<^const>\<open>io_shutdown_write\<close>.
  The locale \<open>duplex_contract\<close> adds flushing to the contract of byte I/O, \<open>duplex\<close> adds the two
  histories: \<open>got\<close> is what the reader has been given, \<open>put\<close> what the writer has accepted.
  \<open>fill\<close> is the loop that reads until a buffer is full, which the sources write out in four
  places; its law is proved once.
\<close>

section \<open>Contract and histories\<close>

locale duplex_contract = byte_io_contract T ok
  for T :: "'t byte_io" and ok :: "'t \<Rightarrow> bool" +
  assumes flush_ok: "ok s \<Longrightarrow> io_flush T s = (s', u) \<Longrightarrow> ok s' \<and> u \<noteq> Panicked"

locale duplex = duplex_contract T ok
  for T :: "'t byte_io" and ok :: "'t \<Rightarrow> bool" +
  fixes got :: "'t \<Rightarrow> bytes" and put :: "'t \<Rightarrow> bytes"
  assumes read_trace: "io_read T s buf = (s', buf', r) \<Longrightarrow>
      got s' = got s @ (case r of Ready (Inr n) \<Rightarrow> take n buf' | _ \<Rightarrow> []) \<and> put s' = put s"
    and write_trace: "io_write T s bs = (s', w) \<Longrightarrow>
      put s' = put s @ (case w of Ready (Inr n) \<Rightarrow> take n bs | _ \<Rightarrow> []) \<and> got s' = got s"
    and flush_trace: "io_flush T s = (s', u) \<Longrightarrow> put s' = put s \<and> got s' = got s"
    and shutdown_trace: "io_shutdown_write T s = (s', u) \<Longrightarrow> put s' = put s \<and> got s' = got s"

sublocale duplex \<subseteq> byte_source T ok got
  by unfold_locales (simp add: read_trace)

definition traced_duplex :: "'s byte_io \<Rightarrow> ('s \<times> bytes \<times> bytes) byte_io" where
  "traced_duplex io =
     \<lparr>io_read = (\<lambda>(s, g, p) buf. case io_read io s buf of (s', buf', r) \<Rightarrow>
         ((s', g @ (case r of Ready (Inr n) \<Rightarrow> take n buf' | _ \<Rightarrow> []), p), buf', r)),
      io_write = (\<lambda>(s, g, p) bs. case io_write io s bs of (s', w) \<Rightarrow>
         ((s', g, p @ (case w of Ready (Inr n) \<Rightarrow> take n bs | _ \<Rightarrow> [])), w)),
      io_flush = (\<lambda>(s, h). case io_flush io s of (s', u) \<Rightarrow> ((s', h), u)),
      io_shutdown_write = (\<lambda>(s, h). case io_shutdown_write io s of (s', u) \<Rightarrow> ((s', h), u)),
      io_close = (\<lambda>(s, h). case io_close io s of (s', u) \<Rightarrow> ((s', h), u))\<rparr>"

abbreviation traced_ok :: "('s \<Rightarrow> bool) \<Rightarrow> 's \<times> bytes \<times> bytes \<Rightarrow> bool" where
  "traced_ok ok \<equiv> \<lambda>(s, g, p). ok s"

abbreviation traced_got :: "'s \<times> bytes \<times> bytes \<Rightarrow> bytes" where
  "traced_got \<equiv> \<lambda>(s, g, p). g"

abbreviation traced_put :: "'s \<times> bytes \<times> bytes \<Rightarrow> bytes" where
  "traced_put \<equiv> \<lambda>(s, g, p). p"

lemma traced_duplex_contract:
  assumes "duplex_contract io ok"
  shows "duplex (traced_duplex io) (traced_ok ok) traced_got traced_put"
proof -
  have b: "byte_io_contract io ok" using assms by (simp add: duplex_contract_def)
  note c = byte_io_contract.read_ok [OF b] byte_io_contract.write_ok [OF b]
    byte_io_contract.shutdown_ok [OF b] duplex_contract.flush_ok [OF assms]
  show ?thesis
    by unfold_locales (auto simp: traced_duplex_def split: prod.splits dest: c)
qed

section \<open>Reading until a buffer is full\<close>

text \<open>
  \<open>while offset < buffer.len() { match poll_read(&mut buffer[offset..]) ... }\<close>: the loop ends
  with \<open>Inr True\<close> when the buffer is full, with \<open>Inr False\<close> on a read of zero bytes. \<open>len\<close> is the
  length of the buffer, which never changes.
\<close>

function fill :: "'t byte_io \<Rightarrow> nat \<Rightarrow> bytes \<Rightarrow> nat \<Rightarrow> 't \<Rightarrow> bytes \<times> nat \<times> 't \<times> bool io_result poll" where
  "fill T len buf off io =
     (if len \<le> off then (buf, off, io, Ready (Inr True))
      else
        (case io_read T io (drop off buf) of (io', tail, r) \<Rightarrow>
         (let buf' = take off buf @ tail in
          case r of
            Ready (Inr count) \<Rightarrow>
              if count = 0 then (buf', off, io', Ready (Inr False)) else fill T len buf' (off + count) io'
          | Ready (Inl error) \<Rightarrow> (buf', off, io', Ready (Inl error))
          | Pending \<Rightarrow> (buf', off, io', Pending)
          | Panicked \<Rightarrow> (buf', off, io', Panicked))))"
  by pat_completeness auto

termination fill
  by (relation "measure (\<lambda>(T, len, buf, off, io). len - off)") auto

declare fill.simps [simp del]

lemma fill_full [simp]: "len \<le> off \<Longrightarrow> fill T len buf off io = (buf, off, io, Ready (Inr True))"
  by (simp add: fill.simps)

text \<open>What a run of the loop establishes, from offset \<open>off\<close> to offset \<open>off'\<close>.\<close>

definition filled ::
    "('t \<Rightarrow> bool) \<Rightarrow> ('t \<Rightarrow> bytes) \<Rightarrow> ('t \<Rightarrow> bytes) \<Rightarrow> bytes \<Rightarrow> nat \<Rightarrow> 't \<Rightarrow> bytes \<times> nat \<times> 't \<times> bool io_result poll \<Rightarrow> bool" where
  "filled ok got put buf off io out \<longleftrightarrow>
     (case out of (buf', off', io', r) \<Rightarrow>
        ok io' \<and> put io' = put io \<and> length buf' = length buf \<and> off \<le> off' \<and> off' \<le> length buf
        \<and> take off buf' = take off buf \<and> got io' = got io @ slice buf' off off'
        \<and> (if r = Ready (Inr True) then off' = length buf else off' < length buf) \<and> r \<noteq> Panicked)"

context duplex
begin

lemma fill_filled:
  assumes "ok io" and "off \<le> length buf" and "len = length buf"
  shows "filled ok got put buf off io (fill T len buf off io)"
  using assms
proof (induction "length buf - off" arbitrary: buf off io rule: less_induct)
  case less
  show ?case
  proof (cases "off < length buf")
    case False
    with less.prems show ?thesis by (simp add: filled_def)
  next
    case True
    obtain io1 tail r where rd: "io_read T io (drop off buf) = (io1, tail, r)" by (metis prod_cases3)
    define buf1 where "buf1 = take off buf @ tail"
    have ok1: "ok io1" "length tail = length buf - off" "r \<noteq> Panicked" "\<forall>n. r = Ready (Inr n) \<longrightarrow> n \<le> length buf - off"
      using read_ok [OF less.prems(1) rd] by auto
    have tr: "got io1 = got io @ (case r of Ready (Inr n) \<Rightarrow> take n tail | _ \<Rightarrow> [])" "put io1 = put io"
      using read_trace [OF rd] by auto
    have len1: "length buf1 = length buf" "take off buf1 = take off buf" "drop off buf1 = tail"
      using True ok1(2) by (simp_all add: buf1_def)
    have step: "fill T len buf off io = (case r of
        Ready (Inr count) \<Rightarrow> if count = 0 then (buf1, off, io1, Ready (Inr False)) else fill T len buf1 (off + count) io1
      | Ready (Inl error) \<Rightarrow> (buf1, off, io1, Ready (Inl error)) | Pending \<Rightarrow> (buf1, off, io1, Pending)
      | Panicked \<Rightarrow> (buf1, off, io1, Panicked))"
      using True less.prems(3) by (subst fill.simps) (simp add: rd buf1_def Let_def split: poll.split sum.split)
    show ?thesis
    proof (cases "\<exists>n. r = Ready (Inr n) \<and> n \<noteq> 0")
      case True
      then obtain n where n: "r = Ready (Inr n)" "n \<noteq> 0" by blast
      have le: "off + n \<le> length buf" using n ok1(4) \<open>off < length buf\<close> by fastforce
      obtain b2 off2 io2 q where out: "fill T len buf1 (off + n) io1 = (b2, off2, io2, q)" by (metis prod_cases4)
      have f: "filled ok got put buf1 (off + n) io1 (b2, off2, io2, q)"
        unfolding out [symmetric] using le n(2) len1(1) ok1(1) less.prems(3) by (intro less.hyps) auto
      then have t: "take (off + n) b2 = take (off + n) buf1" "off + n \<le> off2" by (simp_all add: filled_def)
      have "take n tail = slice b2 off (off + n)"
        using len1(3) t(1) by (metis slice_def slice_take order_refl diff_add_inverse)
      then have "got io1 @ slice b2 (off + n) off2 = got io @ slice b2 off off2"
        using tr(1) n(1) t(2) slice_split [of off "off + n" off2 b2] by simp
      moreover have "take off b2 = take off buf"
        using t(1) len1(2) by (metis min.absorb1 le_add1 take_take)
      ultimately show ?thesis
        using step n f tr(2) len1(1) out by (simp add: filled_def split: if_splits)
    next
      case False
      then show ?thesis
        using step ok1 tr len1 \<open>off < length buf\<close> by (auto simp: filled_def split: poll.splits sum.splits)
    qed
  qed
qed

end

end
