(* ===== verification/Module_Transport.thy ===== *)
theory Module_Transport
  imports Module_Io Duplex
begin

text \<open>
  \<open>ModuleByteIo\<close> of \<open>loader.rs\<close>: the byte stream of a carrier or protection module as the
  engine uses it, the transport below the multiplexer. The table of the module is the parameter
  record of \<^theory_text>\<open>Module_Io\<close>; a missing function is an error here, not a panic. The
  interpretations at the end show that the stream meets the contract of a transport for any
  module whose read function stays inside the slice it is given.
\<close>

record 'm module_byte_io =
  mb_handle :: u64
  mb_table :: "'m byte_table"
  mb_closed :: bool
  mb_module :: 'm

definition module_io_new :: "u64 \<Rightarrow> 'm byte_table \<Rightarrow> 'm \<Rightarrow> 'm module_byte_io" where
  "module_io_new handle io m = \<lparr>mb_handle = handle, mb_table = io, mb_closed = False, mb_module = m\<rparr>"

definition module_io_transfer :: "'m module_byte_io \<Rightarrow> 'm module_byte_io" where
  "module_io_transfer f = f\<lparr>mb_closed := True\<rparr>"

section \<open>Checking what a module returns\<close>

definition load_status_error :: "u32 \<Rightarrow> io_error" where
  "load_status_error status = Io_Error OtherKind (''module I/O failed with status '' @ dec_string (unat status))"

definition load_map_io :: "snol_io_result \<Rightarrow> nat \<Rightarrow> bool \<Rightarrow> nat io_result poll" where
  "load_map_io r limit read =
     (if res_tag r = IO_PROGRESS \<and> res_code r = STATUS_OK \<and> res_count r \<le> limit
      then Ready (Inr (res_count r))
      else if res_tag r = IO_PENDING \<and> res_code r = STATUS_OK \<and> res_count r = 0 then Pending
      else if res_tag r = IO_EOF \<and> read \<and> res_code r = STATUS_OK \<and> res_count r = 0 then Ready (Inr 0)
      else if res_tag r = IO_ERROR \<and> res_count r = 0 then Ready (Inl (load_status_error (res_code r)))
      else Ready (Inl (Io_Error InvalidData ''module returned an invalid I/O result'')))"

definition load_map_action :: "snol_io_result \<Rightarrow> unit io_result poll" where
  "load_map_action r =
     (if res_tag r = IO_PROGRESS \<and> res_code r = STATUS_OK \<and> res_count r = 0 then Ready (Inr ())
      else if res_tag r = IO_PENDING \<and> res_code r = STATUS_OK \<and> res_count r = 0 then Pending
      else if res_tag r = IO_ERROR \<and> res_count r = 0 then Ready (Inl (load_status_error (res_code r)))
      else Ready (Inl (Io_Error InvalidData ''module returned an invalid I/O action result'')))"

section \<open>The stream\<close>

definition mb_poll_read :: "'m module_byte_io \<Rightarrow> bytes \<Rightarrow> 'm module_byte_io \<times> bytes \<times> nat io_result poll" where
  "mb_poll_read f output =
     (case bt_read (mb_table f) of
        None \<Rightarrow> (f, output, Ready (Inl (Io_Error OtherKind ''module read function is missing'')))
      | Some read \<Rightarrow>
          (case read (mb_module f) (mb_handle f) output of (m, output', r) \<Rightarrow>
             (f\<lparr>mb_module := m\<rparr>, output', load_map_io r (length output) True)))"

definition mb_poll_write :: "'m module_byte_io \<Rightarrow> bytes \<Rightarrow> 'm module_byte_io \<times> nat io_result poll" where
  "mb_poll_write f input =
     (case bt_write (mb_table f) of
        None \<Rightarrow> (f, Ready (Inl (Io_Error OtherKind ''module write function is missing'')))
      | Some write \<Rightarrow>
          (case write (mb_module f) (mb_handle f) input of (m, r) \<Rightarrow>
             (f\<lparr>mb_module := m\<rparr>, load_map_io r (length input) False)))"

definition mb_action :: "'m action_fn option \<Rightarrow> 'm module_byte_io \<Rightarrow> 'm module_byte_io \<times> unit io_result poll" where
  "mb_action func f =
     (case func of
        None \<Rightarrow> (f, Ready (Inl (Io_Error OtherKind ''module I/O function is missing'')))
      | Some act \<Rightarrow>
          (case act (mb_module f) (mb_handle f) of (m, r) \<Rightarrow> (f\<lparr>mb_module := m\<rparr>, load_map_action r)))"

definition mb_poll_flush :: "'m module_byte_io \<Rightarrow> 'm module_byte_io \<times> unit io_result poll" where
  "mb_poll_flush f = mb_action (bt_flush (mb_table f)) f"

definition mb_poll_close :: "'m module_byte_io \<Rightarrow> 'm module_byte_io \<times> unit io_result poll" where
  "mb_poll_close f = mb_action (bt_shutdown_write (mb_table f)) f"

definition mb_close :: "'m module_byte_io \<Rightarrow> 'm module_byte_io \<times> unit io_result poll" where
  "mb_close f =
     (if mb_closed f then (f, Ready (Inr ()))
      else case bt_close (mb_table f) of
        None \<Rightarrow> (f, Ready (Inl (Io_Error OtherKind ''module close function is missing'')))
      | Some close \<Rightarrow>
          (case close (mb_module f) (mb_handle f) of (m, status) \<Rightarrow>
             (f\<lparr>mb_module := m, mb_closed := True\<rparr>,
              Ready (if status = STATUS_OK then Inr () else Inl (load_status_error status)))))"

definition mb_drop :: "'m module_byte_io \<Rightarrow> 'm module_byte_io" where
  "mb_drop f = fst (mb_close f)"

definition module_transport :: "'m module_byte_io byte_io" where
  "module_transport =
     \<lparr>io_read = mb_poll_read, io_write = mb_poll_write, io_flush = mb_poll_flush,
      io_shutdown_write = mb_poll_close, io_close = mb_close\<rparr>"

section \<open>Contract\<close>

definition mb_ok :: "'m module_byte_io \<Rightarrow> bool" where
  "mb_ok f \<longleftrightarrow> (\<forall>read. bt_read (mb_table f) = Some read \<longrightarrow> keeps_slice read)"

lemma load_map_io_bound: "load_map_io r limit read = Ready (Inr n) \<Longrightarrow> n \<le> limit"
  by (auto simp: load_map_io_def split: if_splits)

lemma load_map_never_panics [simp]: "load_map_io r limit read \<noteq> Panicked" "load_map_action r \<noteq> Panicked"
  by (auto simp: load_map_io_def load_map_action_def)

lemma keeps_slice_length: "keeps_slice f \<Longrightarrow> f m h buf = (m', buf', r) \<Longrightarrow> length buf' = length buf"
  by (metis keeps_slice_def fst_conv snd_conv)

lemma mb_action_ok: "mb_action g f = (f', u) \<Longrightarrow> mb_table f' = mb_table f \<and> u \<noteq> Panicked"
  by (auto simp: mb_action_def split: option.splits prod.splits)

interpretation module_stream: duplex_contract "module_transport :: 'm module_byte_io byte_io" mb_ok
  by unfold_locales
    (auto simp: module_transport_def mb_poll_read_def mb_poll_write_def mb_poll_flush_def mb_poll_close_def mb_ok_def
      split: option.splits prod.splits dest: load_map_io_bound keeps_slice_length mb_action_ok)

interpretation module_duplex:
  duplex "traced_duplex (module_transport :: 'm module_byte_io byte_io)" "traced_ok mb_ok" traced_got traced_put
  by (rule traced_duplex_contract [OF module_stream.duplex_contract_axioms])

end
