(* ===== verification/Mux.thy ===== *)
theory Mux
  imports Config Module_Transport Pump
begin

text \<open>
  The stream multiplexer (\<open>Connection\<close> and \<open>MuxStream\<close> of \<open>mux.rs\<close>). The transport below it
  is the parameter \<open>T\<close>, any object with the contract of \<^theory_text>\<open>Duplex\<close>. The connection is
  shared by its streams; here it is the state every operation takes and returns, and a stream is
  its identifier. Wakers have no counterpart: \<open>reader\<close> and \<open>inbound_waker\<close> only hold wakers and
  are left out. A slice, subtraction or \<open>expect\<close> that would fail gives \<^term>\<open>Panicked\<close>.

  The two read loops are \<^const>\<open>fill\<close>; the write loop is \<open>flush_bytes\<close>. \<open>conn_wf\<close> is the invariant
  of the connection, kept by every operation on every outcome, errors included: the received
  bytes on the account are exactly those buffered, they stay within the receive limit together
  with the frame that is being read, and a frame being written is a well-formed frame.
\<close>

section \<open>State\<close>

definition MUX_HEADER_BYTES :: nat where "MUX_HEADER_BYTES = 9"
definition FRAME_OPEN :: byte where "FRAME_OPEN = 1"
definition FRAME_DATA :: byte where "FRAME_DATA = 2"
definition FRAME_FIN :: byte where "FRAME_FIN = 3"

lemmas frame_kinds = FRAME_OPEN_def FRAME_DATA_def FRAME_FIN_def

record stream_state =
  ss_input :: "bytes list"
  ss_offset :: nat
  ss_eof :: bool
  ss_completed_write :: nat

record pending_write =
  pw_bytes :: bytes
  pw_offset :: nat
  pw_kind :: byte
  pw_stream :: u32
  pw_accepted :: nat

record pending_read =
  pr_kind :: byte
  pr_stream :: u32
  pr_length :: nat
  pr_bytes :: bytes
  pr_wire_consumed :: nat
  pr_buffer_offset :: nat

record 't connection =
  cn_io :: "'t option"
  cn_streams :: "stream_state option list"
  cn_inbound :: "u32 list"
  cn_next_stream :: u32
  cn_split_send_size :: nat
  cn_receive_limit :: nat
  cn_received_bytes :: nat
  cn_read_header :: bytes
  cn_read_header_offset :: nat
  cn_read_frame :: "pending_read option"
  cn_write :: "pending_write option"
  cn_spare_write :: bytes
  cn_spare_reads :: "bytes list"
  cn_controls :: "(byte \<times> u32) list"
  cn_closed :: bool

datatype mux_mode = Client_Mode | Server_Mode

datatype mux_error =
  Mux_Io io_error | Mux_Wire wire_error | Mux_Closed | Mux_PolicyRequired | Mux_PolicyFamily
| Mux_StreamLimit | Mux_Protocol

definition connection_new :: "'t \<Rightarrow> mux_mode \<Rightarrow> yamux_config \<Rightarrow> 't connection" where
  "connection_new io role config =
     \<lparr>cn_io = Some io, cn_streams = [], cn_inbound = [],
      cn_next_stream = (if role = Client_Mode then 1 else 2),
      cn_split_send_size = split_send_size config, cn_receive_limit = receive_window_bytes config,
      cn_received_bytes = 0, cn_read_header = replicate MUX_HEADER_BYTES 0, cn_read_header_offset = 0,
      cn_read_frame = None, cn_write = None, cn_spare_write = [], cn_spare_reads = [], cn_controls = [],
      cn_closed = False\<rparr>"

section \<open>Streams and frames\<close>

definition stream_get :: "'t connection \<Rightarrow> u32 \<Rightarrow> stream_state option" where
  "stream_get c i = (if unat i < length (cn_streams c) then cn_streams c ! unat i else None)"

definition stream_put :: "u32 \<Rightarrow> stream_state \<Rightarrow> 't connection \<Rightarrow> 't connection" where
  "stream_put i st c = c\<lparr>cn_streams := (cn_streams c)[unat i := Some st]\<rparr>"

definition stream_fresh :: stream_state where
  "stream_fresh = \<lparr>ss_input = [], ss_offset = 0, ss_eof = False, ss_completed_write = 0\<rparr>"

definition insert_stream :: "u32 \<Rightarrow> 't connection \<Rightarrow> mux_error + 't connection" where
  "insert_stream i c =
     (if stream_get c i \<noteq> None then Inl Mux_Protocol
      else
        (let grown = cn_streams c @ replicate (unat i + 1 - length (cn_streams c)) None
         in Inr (c\<lparr>cn_streams := grown[unat i := Some stream_fresh]\<rparr>)))"

definition mux_frame :: "byte \<Rightarrow> u32 \<Rightarrow> bytes \<Rightarrow> bytes" where
  "mux_frame kind stream payload = kind # to_be 4 (unat stream) @ to_be 4 (length payload) @ payload"

definition start_write :: "byte \<Rightarrow> u32 \<Rightarrow> bytes \<Rightarrow> 't connection \<Rightarrow> 't connection" where
  "start_write kind stream payload c =
     c\<lparr>cn_write := Some \<lparr>pw_bytes = mux_frame kind stream payload, pw_offset = 0, pw_kind = kind,
         pw_stream = stream, pw_accepted = length payload\<rparr>,
       cn_spare_write := []\<rparr>"

definition start_queued_control :: "'t connection \<Rightarrow> 't connection" where
  "start_queued_control c =
     (if cn_write c = None
      then (case cn_controls c of
              [] \<Rightarrow> c
            | (kind, stream) # rest \<Rightarrow> start_write kind stream [] (c\<lparr>cn_controls := rest\<rparr>))
      else c)"

section \<open>Writing\<close>

text \<open>
  The loop of \<open>poll_flush_write\<close> on the bytes of one frame: \<open>Inr True\<close> when the frame is written,
  \<open>Inr False\<close> when the transport accepts no byte.
\<close>

function flush_bytes :: "'t byte_io \<Rightarrow> bytes \<Rightarrow> nat \<Rightarrow> 't \<Rightarrow> nat \<times> 't \<times> bool io_result poll" where
  "flush_bytes T bs off io =
     (if length bs < off then (off, io, Panicked)
      else
        (case io_write T io (drop off bs) of (io', w) \<Rightarrow>
         (case w of
            Ready (Inr count) \<Rightarrow>
              if count = 0 then (off, io', Ready (Inr False))
              else if off + count = length bs then (off + count, io', Ready (Inr True))
              else flush_bytes T bs (off + count) io'
          | Ready (Inl error) \<Rightarrow> (off, io', Ready (Inl error))
          | Pending \<Rightarrow> (off, io', Pending)
          | Panicked \<Rightarrow> (off, io', Panicked))))"
  by pat_completeness auto

termination flush_bytes
  by (relation "measure (\<lambda>(T, bs, off, io). Suc (length bs) - off)") auto

declare flush_bytes.simps [simp del]

definition complete_write :: "pending_write \<Rightarrow> 't connection \<Rightarrow> 't connection" where
  "complete_write w c =
     (let c = c\<lparr>cn_write := None, cn_spare_write := []\<rparr> in
      if pw_kind w = FRAME_DATA \<and> pw_accepted w \<noteq> 0
      then (case stream_get c (pw_stream w) of
              None \<Rightarrow> c
            | Some st \<Rightarrow> stream_put (pw_stream w) (st\<lparr>ss_completed_write := pw_accepted w\<rparr>) c)
      else c)"

definition poll_flush_io :: "'t byte_io \<Rightarrow> 't \<Rightarrow> 't connection \<Rightarrow> 't connection \<times> unit io_result poll" where
  "poll_flush_io T io c = (case io_flush T io of (io', u) \<Rightarrow> (c\<lparr>cn_io := Some io'\<rparr>, u))"

definition poll_flush_write :: "'t byte_io \<Rightarrow> 't connection \<Rightarrow> 't connection \<times> unit io_result poll" where
  "poll_flush_write T c =
     (case cn_io c of
        None \<Rightarrow> (c, Ready (Inl (Io_Error NotConnected [])))
      | Some io \<Rightarrow>
        (case cn_write c of
           None \<Rightarrow> poll_flush_io T io c
         | Some w \<Rightarrow>
           (case flush_bytes T (pw_bytes w) (pw_offset w) io of (off, io', r) \<Rightarrow>
            (let c' = c\<lparr>cn_io := Some io', cn_write := Some (w\<lparr>pw_offset := off\<rparr>)\<rparr> in
             case r of
               Ready (Inr True) \<Rightarrow> poll_flush_io T io' (complete_write w c')
             | Ready (Inr False) \<Rightarrow> (c', Ready (Inl (Io_Error WriteZeroKind [])))
             | Ready (Inl error) \<Rightarrow> (c', Ready (Inl error))
             | Pending \<Rightarrow> (c', Pending)
             | Panicked \<Rightarrow> (c', Panicked)))))"

definition poll_control :: "'t byte_io \<Rightarrow> byte \<Rightarrow> u32 \<Rightarrow> 't connection \<Rightarrow> 't connection \<times> unit io_result poll" where
  "poll_control T kind stream c =
     (let start = (\<lambda>c. poll_flush_write T (if cn_write c = None then start_write kind stream [] c else c)) in
      case cn_write c of
        None \<Rightarrow> start c
      | Some w \<Rightarrow>
          if pw_kind w = kind \<and> pw_stream w = stream then poll_flush_write T c
          else
            (case poll_flush_write T c of (c', r) \<Rightarrow>
              if r = Ready (Inr ()) then start c' else (c', r)))"

text \<open>\<open>poll_flush_write\<close> of a frame of this stream, whose acceptance is reported right away.\<close>

definition flush_own :: "'t byte_io \<Rightarrow> u32 \<Rightarrow> nat \<Rightarrow> 't connection \<Rightarrow> 't connection \<times> nat io_result poll" where
  "flush_own T stream accepted c =
     (case poll_flush_write T c of (c', r) \<Rightarrow>
      (case r of
         Ready (Inr _) \<Rightarrow>
           ((case stream_get c' stream of None \<Rightarrow> c' | Some st \<Rightarrow> stream_put stream (st\<lparr>ss_completed_write := 0\<rparr>) c'),
            Ready (Inr accepted))
       | Ready (Inl error) \<Rightarrow> (c', Ready (Inl error))
       | Pending \<Rightarrow> (c', Pending)
       | Panicked \<Rightarrow> (c', Panicked)))"

definition start_data :: "'t byte_io \<Rightarrow> u32 \<Rightarrow> bytes \<Rightarrow> 't connection \<Rightarrow> 't connection \<times> nat io_result poll" where
  "start_data T stream input c =
     (let len = min (length input) (cn_split_send_size c)
      in flush_own T stream len (start_write FRAME_DATA stream (take len input) c))"

definition poll_data :: "'t byte_io \<Rightarrow> u32 \<Rightarrow> bytes \<Rightarrow> 't connection \<Rightarrow> 't connection \<times> nat io_result poll" where
  "poll_data T stream input c =
     (if cn_closed c then (c, Ready (Inl (Io_Error BrokenPipe [])))
      else if input = [] then (c, Ready (Inr 0))
      else
        (let accepted = (case stream_get c stream of None \<Rightarrow> 0 | Some st \<Rightarrow> ss_completed_write st);
             c = (case stream_get c stream of None \<Rightarrow> c | Some st \<Rightarrow> stream_put stream (st\<lparr>ss_completed_write := 0\<rparr>) c) in
         if accepted \<noteq> 0 then (c, Ready (Inr accepted))
         else
           (let c = start_queued_control c in
            case cn_write c of
              None \<Rightarrow> start_data T stream input c
            | Some w \<Rightarrow>
                if pw_kind w = FRAME_DATA \<and> pw_stream w = stream then flush_own T stream (pw_accepted w) c
                else
                  (case poll_flush_write T c of (c', r) \<Rightarrow>
                   (case r of
                      Ready (Inr _) \<Rightarrow> start_data T stream input c'
                    | Ready (Inl error) \<Rightarrow> (c', Ready (Inl error))
                    | Pending \<Rightarrow> (c', Pending)
                    | Panicked \<Rightarrow> (c', Panicked))))))"

section \<open>Reading\<close>

definition mux_header_ok :: "'t connection \<Rightarrow> byte \<Rightarrow> nat \<Rightarrow> io_error option" where
  "mux_header_ok c kind len =
     (if cn_split_send_size c < len \<or> cn_receive_limit c < saturating_add (cn_received_bytes c) len
      then Some (Io_Error InvalidData ''mux receive limit exceeded'')
      else if kind \<notin> {FRAME_OPEN, FRAME_DATA, FRAME_FIN} \<or> kind \<noteq> FRAME_DATA \<and> len \<noteq> 0
      then Some (Io_Error InvalidData ''invalid mux frame'')
      else None)"

definition begin_frame :: "'t connection \<Rightarrow> 't connection \<times> unit io_result poll" where
  "begin_frame c =
     (let kind = cn_read_header c ! 0;
          stream = u32_from_be (slice (cn_read_header c) 1 5);
          len = from_be (slice (cn_read_header c) 5 9);
          c = c\<lparr>cn_read_header_offset := 0\<rparr> in
      case mux_header_ok c kind len of
        Some error \<Rightarrow> (c, Ready (Inl error))
      | None \<Rightarrow>
          (c\<lparr>cn_spare_reads := butlast (cn_spare_reads c),
             cn_read_frame := Some \<lparr>pr_kind = kind, pr_stream = stream, pr_length = len,
               pr_bytes = (if kind \<noteq> FRAME_DATA then replicate len 0 else []), pr_wire_consumed = 0,
               pr_buffer_offset = 0\<rparr>\<rparr>,
           Ready (Inr ())))"

definition poll_prepare_frame :: "'t byte_io \<Rightarrow> 't connection \<Rightarrow> 't connection \<times> unit io_result poll" where
  "poll_prepare_frame T c =
     (case cn_read_frame c of
        Some _ \<Rightarrow> (c, Ready (Inr ()))
      | None \<Rightarrow>
        (case cn_io c of
           None \<Rightarrow> (c\<lparr>cn_closed := True\<rparr>, Pending)
         | Some io \<Rightarrow>
           (case fill T MUX_HEADER_BYTES (cn_read_header c) (cn_read_header_offset c) io of (hdr, off, io', r) \<Rightarrow>
            (let c = c\<lparr>cn_io := Some io', cn_read_header := hdr, cn_read_header_offset := off\<rparr> in
             case r of
               Ready (Inr True) \<Rightarrow> begin_frame c
             | Ready (Inr False) \<Rightarrow> (c\<lparr>cn_closed := True\<rparr>, Pending)
             | Ready (Inl error) \<Rightarrow> (c, Ready (Inl error))
             | Pending \<Rightarrow> (c, Pending)
             | Panicked \<Rightarrow> (c, Panicked)))))"

definition finish_frame :: "pending_read \<Rightarrow> 't connection \<Rightarrow> 't connection \<times> unit io_result poll" where
  "finish_frame fr c =
     (if pr_kind fr = FRAME_OPEN then
        (case insert_stream (pr_stream fr) c of
           Inl _ \<Rightarrow> (c, Ready (Inl (Io_Error InvalidData ''yamux stream order is invalid'')))
         | Inr c' \<Rightarrow> (c'\<lparr>cn_inbound := cn_inbound c' @ [pr_stream fr]\<rparr>, Ready (Inr ())))
      else if pr_kind fr = FRAME_DATA then
        (case stream_get c (pr_stream fr) of
           None \<Rightarrow> (c, Ready (Inl (Io_Error InvalidData ''unknown mux stream'')))
         | Some st \<Rightarrow>
             (stream_put (pr_stream fr) (st\<lparr>ss_input := ss_input st @ [pr_bytes fr]\<rparr>)
                (c\<lparr>cn_received_bytes := cn_received_bytes c + length (pr_bytes fr)\<rparr>), Ready (Inr ())))
      else if pr_kind fr = FRAME_FIN then
        (case stream_get c (pr_stream fr) of
           None \<Rightarrow> (c, Ready (Inl (Io_Error InvalidData ''unknown mux stream'')))
         | Some st \<Rightarrow> (stream_put (pr_stream fr) (st\<lparr>ss_eof := True\<rparr>) c, Ready (Inr ())))
      else (c, Panicked))"

definition size_frame :: "pending_read \<Rightarrow> pending_read" where
  "size_frame fr =
     (if pr_kind fr = FRAME_DATA
      then (let remaining = pr_length fr - pr_wire_consumed fr
            in fr\<lparr>pr_bytes := take remaining (pr_bytes fr) @ replicate (remaining - length (pr_bytes fr)) 0\<rparr>)
      else fr)"

definition fill_frame :: "'t byte_io \<Rightarrow> pending_read \<Rightarrow> 't connection \<Rightarrow> 't connection \<times> unit io_result poll" where
  "fill_frame T fr c =
     (case cn_io c of
        None \<Rightarrow> (c\<lparr>cn_closed := True\<rparr>, Pending)
      | Some io \<Rightarrow>
        (case fill T (length (pr_bytes fr)) (pr_bytes fr) (pr_buffer_offset fr) io of (bs, off, io', r) \<Rightarrow>
         (let fr = fr\<lparr>pr_bytes := bs, pr_buffer_offset := off\<rparr>;
              c = c\<lparr>cn_io := Some io', cn_read_frame := Some fr\<rparr> in
          case r of
            Ready (Inr True) \<Rightarrow> finish_frame fr (c\<lparr>cn_read_frame := None\<rparr>)
          | Ready (Inr False) \<Rightarrow> (c, Ready (Inl (Io_Error UnexpectedEof ''mux frame ended early'')))
          | Ready (Inl error) \<Rightarrow> (c, Ready (Inl error))
          | Pending \<Rightarrow> (c, Pending)
          | Panicked \<Rightarrow> (c, Panicked))))"

definition read_frame_rest :: "'t byte_io \<Rightarrow> 't connection \<Rightarrow> 't connection \<times> unit io_result poll" where
  "read_frame_rest T c =
     (case cn_read_frame c of
        None \<Rightarrow> (c, Panicked)
      | Some fr \<Rightarrow>
          if pr_kind fr = FRAME_DATA \<and> pr_length fr < pr_wire_consumed fr then (c, Panicked)
          else fill_frame T (size_frame fr) (c\<lparr>cn_read_frame := Some (size_frame fr)\<rparr>))"

definition poll_receive :: "'t byte_io \<Rightarrow> 't connection \<Rightarrow> 't connection \<times> unit io_result poll" where
  "poll_receive T c =
     (case poll_prepare_frame T c of (c', r) \<Rightarrow>
      (if r = Ready (Inr ()) then read_frame_rest T c' else (c', r)))"

definition poll_drive :: "'t byte_io \<Rightarrow> 't connection \<Rightarrow> 't connection \<times> unit io_result poll" where
  "poll_drive T c =
     (if cn_closed c then (c, Pending)
      else
        (let c = start_queued_control c in
         case cn_write c of
           None \<Rightarrow> poll_receive T c
         | Some _ \<Rightarrow>
           (case poll_flush_write T c of (c', r) \<Rightarrow>
            (case r of
               Ready (Inl error) \<Rightarrow> (c', Ready (Inl error))
             | Panicked \<Rightarrow> (c', Panicked)
             | _ \<Rightarrow> poll_receive T c'))))"

definition direct_read :: "'t byte_io \<Rightarrow> pending_read \<Rightarrow> bytes \<Rightarrow> 't connection \<Rightarrow> 't connection \<times> bytes \<times> nat io_result poll" where
  "direct_read T fr out c =
     (let count = min (length out) (pr_length fr - pr_wire_consumed fr) in
      case cn_io c of
        None \<Rightarrow> (c, out, Ready (Inl (Io_Error NotConnected [])))
      | Some io \<Rightarrow>
        (case io_read T io (take count out) of (io', head, r) \<Rightarrow>
         (let out' = head @ drop count out; c = c\<lparr>cn_io := Some io'\<rparr> in
          case r of
            Ready (Inr n) \<Rightarrow>
              if n = 0 then (c, out', Ready (Inl (Io_Error UnexpectedEof [])))
              else
                (let fr' = fr\<lparr>pr_wire_consumed := pr_wire_consumed fr + n\<rparr> in
                 ((if pr_wire_consumed fr' = pr_length fr'
                   then c\<lparr>cn_read_frame := None, cn_spare_reads := cn_spare_reads c @ [[]]\<rparr>
                   else c\<lparr>cn_read_frame := Some fr'\<rparr>), out', Ready (Inr n)))
          | Ready (Inl error) \<Rightarrow> (c, out', Ready (Inl error))
          | Pending \<Rightarrow> (c, out', Pending)
          | Panicked \<Rightarrow> (c, out', Panicked))))"

definition poll_read_stream ::
    "'t byte_io \<Rightarrow> u32 \<Rightarrow> bytes \<Rightarrow> 't connection \<Rightarrow> 't connection \<times> bytes \<times> nat io_result poll" where
  "poll_read_stream T stream out c =
     (case poll_prepare_frame T c of (c1, p) \<Rightarrow>
      (case p of
         Ready (Inl error) \<Rightarrow> (c1, out, Ready (Inl error))
       | Pending \<Rightarrow> (c1, out, Pending)
       | Panicked \<Rightarrow> (c1, out, Panicked)
       | Ready (Inr _) \<Rightarrow>
         (case cn_read_frame c1 of
            None \<Rightarrow> (c1, out, Panicked)
          | Some fr \<Rightarrow>
              if pr_kind fr \<noteq> FRAME_DATA \<or> pr_stream fr \<noteq> stream \<or> pr_bytes fr \<noteq> []
                 \<or> pr_length fr = pr_wire_consumed fr
              then (case poll_drive T c1 of (c2, q) \<Rightarrow>
                    (c2, out, (case q of Ready (Inr _) \<Rightarrow> Pending | Ready (Inl error) \<Rightarrow> Ready (Inl error)
                                 | Pending \<Rightarrow> Pending | Panicked \<Rightarrow> Panicked)))
              else if pr_length fr < pr_wire_consumed fr then (c1, out, Panicked)
              else direct_read T fr out c1)))"

section \<open>The stream object\<close>

text \<open>\<open>MuxStream::poll_read\<close>: buffered bytes first, then the end of the stream, then the wire.\<close>

definition take_buffered :: "u32 \<Rightarrow> stream_state \<Rightarrow> bytes \<Rightarrow> bytes list \<Rightarrow> bytes \<Rightarrow> 't connection \<Rightarrow> nat \<times> bytes \<times> 't connection" where
  "take_buffered i st chunk rest out c =
     (let count = min (length out) (length chunk - ss_offset st);
          out' = splice out 0 (slice chunk (ss_offset st) (ss_offset st + count));
          st' = (if ss_offset st + count = length chunk
                 then st\<lparr>ss_offset := 0, ss_input := rest\<rparr>
                 else st\<lparr>ss_offset := ss_offset st + count\<rparr>)
      in (count, out', stream_put i st' c))"

definition recycle :: "bool \<Rightarrow> 't connection \<Rightarrow> 't connection" where
  "recycle popped c = (if popped then c\<lparr>cn_spare_reads := cn_spare_reads c @ [[]]\<rparr> else c)"

definition mux_poll_read :: "'t byte_io \<Rightarrow> u32 \<Rightarrow> bytes \<Rightarrow> 't connection \<Rightarrow> 't connection \<times> bytes \<times> nat io_result poll" where
  "mux_poll_read T i out c =
     (if out = [] then (c, out, Ready (Inr 0))
      else
        (case stream_get c i of
           None \<Rightarrow> (c, out, Ready (Inl (Io_Error NotConnected ''mux stream is closed'')))
         | Some st \<Rightarrow>
           (case ss_input st of
              [] \<Rightarrow> if ss_eof st then (c, out, Ready (Inr 0)) else poll_read_stream T i out c
            | chunk # rest \<Rightarrow>
                if length chunk < ss_offset st then (c, out, Panicked)
                else
                  (case take_buffered i st chunk rest out c of (count, out', c') \<Rightarrow>
                    if count \<noteq> 0 then
                      if cn_received_bytes c' < count then (c', out', Panicked)
                      else (recycle (ss_offset st + count = length chunk)
                              (c'\<lparr>cn_received_bytes := cn_received_bytes c' - count\<rparr>), out', Ready (Inr count))
                    else poll_read_stream T i out' c'))))"

definition mux_poll_write :: "'t byte_io \<Rightarrow> u32 \<Rightarrow> bytes \<Rightarrow> 't connection \<Rightarrow> 't connection \<times> nat io_result poll" where
  "mux_poll_write T i input c = poll_data T i input c"

definition mux_poll_close :: "'t byte_io \<Rightarrow> u32 \<Rightarrow> bool \<times> 't connection \<Rightarrow> (bool \<times> 't connection) \<times> unit io_result poll" where
  "mux_poll_close T i s =
     (case s of (write_closed, c) \<Rightarrow>
      if write_closed then (s, Ready (Inr ()))
      else (case poll_control T FRAME_FIN i c of (c', r) \<Rightarrow> ((r = Ready (Inr ()), c'), r)))"

definition mux_stream_drop :: "u32 \<Rightarrow> bool \<times> 't connection \<Rightarrow> 't connection" where
  "mux_stream_drop i s =
     (case s of (write_closed, c) \<Rightarrow>
      if write_closed \<or> cn_closed c then c else c\<lparr>cn_controls := cn_controls c @ [(FRAME_FIN, i)]\<rparr>)"

section \<open>Opening and accepting streams\<close>

definition queue_stream :: "'t connection \<Rightarrow> 't connection \<times> (mux_error + u32)" where
  "queue_stream c =
     (let i = cn_next_stream c in
      if 2 ^ 32 \<le> unat i + 2 then (c, Inl Mux_StreamLimit)
      else
        (let c = c\<lparr>cn_next_stream := i + 2\<rparr> in
         case insert_stream i c of Inl e \<Rightarrow> (c, Inl e) | Inr c' \<Rightarrow> (c', Inr i)))"

definition pop_inbound :: "'t connection \<Rightarrow> 't connection \<times> u32 option" where
  "pop_inbound c = (case cn_inbound c of [] \<Rightarrow> (c, None) | i # rest \<Rightarrow> (c\<lparr>cn_inbound := rest\<rparr>, Some i))"

definition connection_close :: "'t byte_io \<Rightarrow> 't connection \<Rightarrow> 't connection \<times> unit io_result poll" where
  "connection_close T c =
     (case poll_flush_write T c of (c', r) \<Rightarrow>
      (if r = Ready (Inr ())
       then (case cn_io c' of
               None \<Rightarrow> (c', Ready (Inr ()))
             | Some io \<Rightarrow> (case io_shutdown_write T io of (io', u) \<Rightarrow> (c'\<lparr>cn_io := Some io'\<rparr>, u)))
       else (c', r)))"

definition session_drop :: "'t connection \<Rightarrow> 't connection" where
  "session_drop c = c\<lparr>cn_closed := True, cn_streams := [], cn_io := None\<rparr>"

section \<open>Invariant\<close>

type_synonym frame = "byte \<times> u32 \<times> bytes"

definition frame_bytes :: "frame \<Rightarrow> bytes" where
  "frame_bytes f = (case f of (kind, stream, payload) \<Rightarrow> mux_frame kind stream payload)"

text \<open>A frame the multiplexer sends: data frames are not empty, the others carry no payload.\<close>

definition frame_ok :: "nat \<Rightarrow> frame \<Rightarrow> bool" where
  "frame_ok limit f \<longleftrightarrow>
     (case f of (kind, stream, payload) \<Rightarrow>
        if kind = FRAME_DATA then payload \<noteq> [] \<and> length payload \<le> limit
        else (kind = FRAME_OPEN \<or> kind = FRAME_FIN) \<and> payload = [])"

definition buffered :: "stream_state \<Rightarrow> bytes" where
  "buffered st = drop (ss_offset st) (concat (ss_input st))"

definition stream_ok :: "stream_state \<Rightarrow> bool" where
  "stream_ok st \<longleftrightarrow>
     (case ss_input st of
        [] \<Rightarrow> ss_offset st = 0
      | chunk # _ \<Rightarrow> ss_offset st < length chunk \<or> chunk = [] \<and> ss_offset st = 0)"

definition streams_total :: "stream_state option list \<Rightarrow> nat" where
  "streams_total ss = sum_list (map (\<lambda>so. case so of None \<Rightarrow> 0 | Some st \<Rightarrow> length (buffered st)) ss)"

definition read_wf :: "nat \<Rightarrow> nat \<Rightarrow> nat \<Rightarrow> pending_read \<Rightarrow> bool" where
  "read_wf split_size limit received fr \<longleftrightarrow>
     (pr_kind fr = FRAME_OPEN \<or> pr_kind fr = FRAME_DATA \<or> pr_kind fr = FRAME_FIN)
     \<and> (pr_kind fr \<noteq> FRAME_DATA \<longrightarrow> pr_length fr = 0)
     \<and> pr_wire_consumed fr \<le> pr_length fr \<and> pr_length fr \<le> split_size
     \<and> received + (pr_length fr - pr_wire_consumed fr) \<le> limit
     \<and> (pr_bytes fr = [] \<and> pr_buffer_offset fr = 0
        \<or> length (pr_bytes fr) = pr_length fr - pr_wire_consumed fr \<and> pr_buffer_offset fr < length (pr_bytes fr))"

definition write_wf :: "nat \<Rightarrow> pending_write \<Rightarrow> bool" where
  "write_wf limit w \<longleftrightarrow>
     pw_offset w < length (pw_bytes w)
     \<and> (\<exists>payload. pw_bytes w = mux_frame (pw_kind w) (pw_stream w) payload \<and> pw_accepted w = length payload
          \<and> frame_ok limit (pw_kind w, pw_stream w, payload))"

definition conn_wf :: "('t \<Rightarrow> bool) \<Rightarrow> 't connection \<Rightarrow> bool" where
  "conn_wf ok c \<longleftrightarrow>
     (\<forall>io. cn_io c = Some io \<longrightarrow> ok io)
     \<and> 0 < cn_split_send_size c \<and> cn_receive_limit c < usize_max
     \<and> length (cn_read_header c) = MUX_HEADER_BYTES \<and> cn_read_header_offset c < MUX_HEADER_BYTES
     \<and> (\<forall>fr. cn_read_frame c = Some fr \<longrightarrow> read_wf (cn_split_send_size c) (cn_receive_limit c) (cn_received_bytes c) fr)
     \<and> (\<forall>w. cn_write c = Some w \<longrightarrow> write_wf (cn_split_send_size c) w)
     \<and> (\<forall>(kind, stream)\<in>set (cn_controls c). kind = FRAME_OPEN \<or> kind = FRAME_FIN)
     \<and> (\<forall>st. Some st \<in> set (cn_streams c) \<longrightarrow> stream_ok st)
     \<and> (if cn_io c = None then cn_streams c = [] else streams_total (cn_streams c) = cn_received_bytes c)
     \<and> cn_received_bytes c \<le> cn_receive_limit c"

lemma connection_new_wf:
  assumes "ok io" and "0 < split_send_size config" and "receive_window_bytes config < usize_max"
  shows "conn_wf ok (connection_new io role config)"
  using assms by (simp add: conn_wf_def connection_new_def streams_total_def MUX_HEADER_BYTES_def)

subsection \<open>Streams\<close>

lemma stream_get_mem: "stream_get c i = Some st \<Longrightarrow> Some st \<in> set (cn_streams c) \<and> unat i < length (cn_streams c)"
  by (auto simp: stream_get_def split: if_splits) (metis nth_mem)

lemma stream_get_put [simp]:
  assumes "stream_get c i = Some st"
  shows "stream_get (stream_put i st' c) j = (if i = j then Some st' else stream_get c j)"
  using stream_get_mem [OF assms] by (auto simp: stream_get_def stream_put_def nth_list_update word_unat_eq_iff)

lemma streams_total_put:
  assumes "stream_get c i = Some st"
  shows "streams_total (cn_streams (stream_put i st' c)) + length (buffered st)
       = streams_total (cn_streams c) + length (buffered st')"
proof -
  let ?f = "\<lambda>so. case so of None \<Rightarrow> 0 | Some st \<Rightarrow> length (buffered st)"
  have i: "unat i < length (cn_streams c)" "cn_streams c ! unat i = Some st"
    using assms by (auto simp: stream_get_def split: if_splits)
  then have "length (buffered st) \<le> sum_list (map ?f (cn_streams c))"
    using elem_le_sum_list [of "unat i" "map ?f (cn_streams c)"] by simp
  then show ?thesis
    using i by (simp add: streams_total_def stream_put_def map_update sum_list_update)
qed

lemma stream_put_frame [simp]:
  "cn_io (stream_put i st c) = cn_io c" "cn_inbound (stream_put i st c) = cn_inbound c"
  "cn_split_send_size (stream_put i st c) = cn_split_send_size c"
  "cn_receive_limit (stream_put i st c) = cn_receive_limit c"
  "cn_received_bytes (stream_put i st c) = cn_received_bytes c"
  "cn_read_header (stream_put i st c) = cn_read_header c"
  "cn_read_header_offset (stream_put i st c) = cn_read_header_offset c"
  "cn_read_frame (stream_put i st c) = cn_read_frame c"
  "cn_write (stream_put i st c) = cn_write c" "cn_controls (stream_put i st c) = cn_controls c"
  "cn_closed (stream_put i st c) = cn_closed c" "cn_next_stream (stream_put i st c) = cn_next_stream c"
  by (simp_all add: stream_put_def)

lemma stream_put_received:
  "(stream_put i st c)\<lparr>cn_received_bytes := n\<rparr> = stream_put i st (c\<lparr>cn_received_bytes := n\<rparr>)"
  by (cases c) (simp add: stream_put_def)

lemma stream_put_set: "so \<in> set (cn_streams (stream_put i st c)) \<Longrightarrow> so = Some st \<or> so \<in> set (cn_streams c)"
  using set_update_subset_insert [of "cn_streams c" "unat i" "Some st"] by (auto simp: stream_put_def)

lemma conn_wf_stream_ok: "conn_wf ok c \<Longrightarrow> stream_get c i = Some st \<Longrightarrow> stream_ok st"
  using stream_get_mem [of c i st] by (auto simp: conn_wf_def)

text \<open>Replacing a stream and adjusting the account by what its buffer gains or loses.\<close>

lemma read_wf_mono: "read_wf sz limit n fr \<Longrightarrow> m \<le> n \<Longrightarrow> read_wf sz limit m fr"
  by (auto simp: read_wf_def)

text \<open>Replacing a stream and adjusting the account by what its buffer gains or loses.\<close>

lemma conn_wf_put:
  assumes "conn_wf ok c" and "stream_get c i = Some st" and "stream_ok st'"
    and "n + length (buffered st) = cn_received_bytes c + length (buffered st')"
    and "n \<le> cn_receive_limit c" and "\<And>fr. cn_read_frame c = Some fr \<Longrightarrow> n \<le> cn_received_bytes c"
  shows "conn_wf ok (stream_put i st' (c\<lparr>cn_received_bytes := n\<rparr>))"
proof -
  have "streams_total (cn_streams (stream_put i st' c)) = n" if "cn_io c \<noteq> None"
    using streams_total_put [OF assms(2), of st'] assms(1,4) that by (auto simp: conn_wf_def)
  moreover have "cn_io c \<noteq> None" using assms(1) stream_get_mem [OF assms(2)] by (auto simp: conn_wf_def split: if_splits)
  ultimately show ?thesis
    using assms by (fastforce simp: conn_wf_def stream_put_def dest: read_wf_mono dest: stream_put_set [of _ i st' c, unfolded stream_put_def, simplified])
qed

lemma conn_wf_put_same:
  assumes "conn_wf ok c" and "stream_get c i = Some st" and "ss_input st' = ss_input st" and "ss_offset st' = ss_offset st"
  shows "conn_wf ok (stream_put i st' c)"
proof -
  have "stream_ok st'" using conn_wf_stream_ok [OF assms(1,2)] assms(3,4) by (simp add: stream_ok_def split: list.splits)
  moreover have "buffered st' = buffered st" using assms(3,4) by (simp add: buffered_def)
  moreover have "cn_received_bytes c \<le> cn_receive_limit c" using assms(1) by (simp add: conn_wf_def)
  ultimately show ?thesis using conn_wf_put [OF assms(1,2), of st' "cn_received_bytes c"] by simp
qed

lemma streams_total_grow [simp]: "streams_total (ss @ replicate n None) = streams_total ss"
  by (simp add: streams_total_def sum_list_replicate)

lemma streams_total_fresh: "k < length ss \<Longrightarrow> ss ! k = None \<Longrightarrow> streams_total (ss[k := Some stream_fresh]) = streams_total ss"
  by (induction ss arbitrary: k) (auto simp: streams_total_def buffered_def stream_fresh_def nth_Cons split: nat.splits)

lemma insert_stream_wf:
  assumes "conn_wf ok c" and "cn_io c \<noteq> None" and "insert_stream i c = Inr c'"
  shows "conn_wf ok c'" and "stream_get c' j = (if j = i then Some stream_fresh else stream_get c j)"
proof -
  let ?g = "cn_streams c @ replicate (unat i + 1 - length (cn_streams c)) None"
  have g: "unat i < length ?g" "?g ! unat i = None" and c': "c' = c\<lparr>cn_streams := ?g[unat i := Some stream_fresh]\<rparr>"
    using assms(3) by (auto simp: insert_stream_def stream_get_def Let_def nth_append split: if_splits)
  have "streams_total (?g[unat i := Some stream_fresh]) = streams_total (cn_streams c)"
    using streams_total_fresh [OF g] by simp
  moreover have "so = None \<or> so = Some stream_fresh \<or> so \<in> set (cn_streams c)" if "so \<in> set (?g[unat i := Some stream_fresh])" for so
    using set_update_subset_insert [of ?g "unat i" "Some stream_fresh"] that by auto
  moreover have "stream_ok stream_fresh" by (simp add: stream_ok_def stream_fresh_def)
  ultimately show "conn_wf ok c'"
    using assms(1,2) unfolding c' by (fastforce simp: conn_wf_def)
  show "stream_get c' j = (if j = i then Some stream_fresh else stream_get c j)"
    unfolding c' using g(1) by (auto simp: stream_get_def nth_list_update nth_append word_unat_eq_iff)
qed

subsection \<open>Writing\<close>

definition flushed ::
    "('t \<Rightarrow> bool) \<Rightarrow> ('t \<Rightarrow> bytes) \<Rightarrow> ('t \<Rightarrow> bytes) \<Rightarrow> bytes \<Rightarrow> nat \<Rightarrow> 't \<Rightarrow> nat \<times> 't \<times> bool io_result poll \<Rightarrow> bool" where
  "flushed ok got put bs off io out \<longleftrightarrow>
     (case out of (off', io', r) \<Rightarrow>
        ok io' \<and> got io' = got io \<and> off \<le> off' \<and> off' \<le> length bs \<and> put io' = put io @ slice bs off off'
        \<and> (if r = Ready (Inr True) then off' = length bs else off' < length bs) \<and> r \<noteq> Panicked)"

lemma complete_write_io:
  "(complete_write w (c\<lparr>cn_io := x, cn_write := y\<rparr>))\<lparr>cn_io := z\<rparr> = complete_write w (c\<lparr>cn_io := z\<rparr>)"
  by (auto simp: complete_write_def stream_put_def stream_get_def Let_def split: option.split)

context duplex
begin

lemma flush_bytes_flushed:
  assumes "ok io" and "off < length bs"
  shows "flushed ok got put bs off io (flush_bytes T bs off io)"
  using assms
proof (induction "length bs - off" arbitrary: off io rule: less_induct)
  case less
  obtain io1 w where wr: "io_write T io (drop off bs) = (io1, w)" by fastforce
  have ok1: "ok io1" "w \<noteq> Panicked" "\<forall>n. w = Ready (Inr n) \<longrightarrow> n \<le> length bs - off"
    using write_ok [OF less.prems(1) wr] by auto
  have tr: "put io1 = put io @ (case w of Ready (Inr n) \<Rightarrow> take n (drop off bs) | _ \<Rightarrow> [])" "got io1 = got io"
    using write_trace [OF wr] by auto
  note step = flush_bytes.simps [of T bs off io, unfolded wr prod.case]
  consider (more) n where "w = Ready (Inr n)" "n \<noteq> 0" "off + n < length bs"
    | (full) n where "w = Ready (Inr n)" "n \<noteq> 0" "off + n = length bs"
    | (stop) "\<forall>n. w = Ready (Inr n) \<longrightarrow> n = 0"
    using ok1(3) less.prems(2) by (metis le_diff_conv2 add.commute le_neq_implies_less less_imp_le)
  then show ?case
  proof cases
    case more
    obtain off2 io2 q where out: "flush_bytes T bs (off + n) io1 = (off2, io2, q)" by (metis prod_cases3)
    have f: "flushed ok got put bs (off + n) io1 (off2, io2, q)"
      unfolding out [symmetric] using more ok1(1) by (intro less.hyps) auto
    then have "put io1 @ slice bs (off + n) off2 = put io @ slice bs off off2"
      using tr(1) more(1) slice_split [of off "off + n" off2 bs] by (simp add: flushed_def slice_def)
    then show ?thesis using step more f out tr(2) less.prems by (simp add: flushed_def split: if_splits)
  next
    case full
    then show ?thesis using step ok1 tr less.prems by (simp add: flushed_def slice_def)
  next
    case stop
    then show ?thesis
      using step ok1 tr less.prems by (auto simp: flushed_def split: poll.splits sum.splits)
  qed
qed

text \<open>The three ways in which \<open>poll_flush_write\<close> leaves a connection that has its transport.\<close>

lemma poll_flush_write_cases:
  assumes "conn_wf ok c" and "cn_io c = Some io" and "poll_flush_write T c = (c', r)"
  obtains (idle) io' where "cn_write c = None" and "c' = c\<lparr>cn_io := Some io'\<rparr>" and "ok io'"
      and "put io' = put io" and "got io' = got io" and "r \<noteq> Panicked"
  | (part) w io' off where "cn_write c = Some w" and "c' = c\<lparr>cn_io := Some io', cn_write := Some (w\<lparr>pw_offset := off\<rparr>)\<rparr>"
      and "ok io'" and "pw_offset w \<le> off" and "off < length (pw_bytes w)"
      and "put io' = put io @ slice (pw_bytes w) (pw_offset w) off" and "got io' = got io"
      and "r \<noteq> Panicked" and "r \<noteq> Ready (Inr ())"
  | (whole) w io' where "cn_write c = Some w" and "c' = (complete_write w (c\<lparr>cn_io := Some io'\<rparr>))" and "ok io'"
      and "put io' = put io @ drop (pw_offset w) (pw_bytes w)" and "got io' = got io" and "r \<noteq> Panicked"
proof (cases "cn_write c")
  case None
  obtain io' u where f: "io_flush T io = (io', u)" by fastforce
  have "ok io" using assms(1,2) by (simp add: conn_wf_def)
  with f show ?thesis
    using idle [OF None, of io'] None assms flush_ok [of io io' u] flush_trace [OF f]
    by (simp add: poll_flush_write_def poll_flush_io_def)
next
  case (Some w)
  obtain off io1 q where out: "flush_bytes T (pw_bytes w) (pw_offset w) io = (off, io1, q)" by (metis prod_cases3)
  have "ok io" "pw_offset w < length (pw_bytes w)" using assms(1,2) Some by (auto simp: conn_wf_def write_wf_def)
  then have f: "flushed ok got put (pw_bytes w) (pw_offset w) io (off, io1, q)"
    using flush_bytes_flushed [of io "pw_offset w" "pw_bytes w"] out by simp
  show ?thesis
  proof (cases "q = Ready (Inr True)")
    case True
    obtain io' u where fl: "io_flush T io1 = (io', u)" by fastforce
    have ok1: "ok io1" "off = length (pw_bytes w)" using f True by (auto simp: flushed_def)
    have sl: "slice (pw_bytes w) (pw_offset w) (length (pw_bytes w)) = drop (pw_offset w) (pw_bytes w)"
      by (simp add: slice_def)
    have "c' = complete_write w (c\<lparr>cn_io := Some io'\<rparr>)" "r = u"
      using assms(2,3) Some out True fl
      by (auto simp: poll_flush_write_def poll_flush_io_def complete_write_io Let_def)
    then show ?thesis
      using whole [OF Some] f ok1 sl fl flush_ok [OF ok1(1) fl] flush_trace [OF fl] by (simp add: flushed_def)
  next
    case False
    then have "c' = c\<lparr>cn_io := Some io1, cn_write := Some (w\<lparr>pw_offset := off\<rparr>)\<rparr>" "r \<noteq> Ready (Inr ())" "r \<noteq> Panicked"
      using assms(2,3) Some out f
      by (auto simp: poll_flush_write_def flushed_def Let_def split: poll.splits sum.splits bool.splits)
    then show ?thesis using part [OF Some] f False by (simp add: flushed_def)
  qed
qed

end

lemma mux_frame_length [simp]: "length (mux_frame k s p) = 9 + length p"
  by (simp add: mux_frame_def)

lemma frame_kind_neq [simp]:
  "FRAME_DATA \<noteq> FRAME_OPEN" "FRAME_OPEN \<noteq> FRAME_DATA" "FRAME_DATA \<noteq> FRAME_FIN" "FRAME_FIN \<noteq> FRAME_DATA"
  "FRAME_OPEN \<noteq> FRAME_FIN" "FRAME_FIN \<noteq> FRAME_OPEN"
  by (simp_all add: frame_kinds)

lemma complete_write_wf:
  assumes "conn_wf ok c"
  shows "conn_wf ok (complete_write w c)"
proof -
  have c: "conn_wf ok (c\<lparr>cn_write := None, cn_spare_write := []\<rparr>)" using assms by (simp add: conn_wf_def)
  show ?thesis
    using c conn_wf_put_same [OF c] by (auto simp: complete_write_def Let_def split: option.splits)
qed

lemma start_write_wf:
  assumes "conn_wf ok c" and "frame_ok (cn_split_send_size c) (kind, stream, payload)"
  shows "conn_wf ok (start_write kind stream payload c)"
  using assms by (auto simp: conn_wf_def start_write_def write_wf_def)

lemma control_frame_ok: "kind = FRAME_OPEN \<or> kind = FRAME_FIN \<Longrightarrow> frame_ok n (kind, stream, [])"
  by (auto simp: frame_ok_def)

lemma start_queued_control_wf:
  assumes "conn_wf ok c"
  shows "conn_wf ok (start_queued_control c)"
proof (cases "cn_controls c")
  case Nil
  with assms show ?thesis by (simp add: start_queued_control_def)
next
  case (Cons a rest)
  obtain kind stream where a: "a = (kind, stream)" by fastforce
  have "conn_wf ok (c\<lparr>cn_controls := rest\<rparr>)" "kind = FRAME_OPEN \<or> kind = FRAME_FIN"
    using assms Cons a by (auto simp: conn_wf_def)
  then show ?thesis
    using assms Cons a by (simp add: start_queued_control_def start_write_wf control_frame_ok)
qed

text \<open>A step that keeps the invariant and the fixed parts of the connection.\<close>

definition conn_next :: "('t \<Rightarrow> bool) \<Rightarrow> 't connection \<Rightarrow> 't connection \<Rightarrow> bool" where
  "conn_next ok c c' \<longleftrightarrow> conn_wf ok c' \<and> cn_split_send_size c' = cn_split_send_size c
     \<and> cn_receive_limit c' = cn_receive_limit c \<and> (cn_io c' = None \<longleftrightarrow> cn_io c = None)"

lemma conn_next_refl: "conn_wf ok c \<Longrightarrow> conn_next ok c c"
  by (simp add: conn_next_def)

lemma conn_next_trans [trans]: "conn_next ok a b \<Longrightarrow> conn_next ok b c \<Longrightarrow> conn_next ok a c"
  by (simp add: conn_next_def)

lemma conn_next_wf: "conn_next ok a b \<Longrightarrow> conn_wf ok b"
  by (simp add: conn_next_def)

lemma complete_write_frame [simp]:
  "cn_io (complete_write w c) = cn_io c" "cn_split_send_size (complete_write w c) = cn_split_send_size c"
  "cn_receive_limit (complete_write w c) = cn_receive_limit c" "cn_write (complete_write w c) = None"
  "cn_read_frame (complete_write w c) = cn_read_frame c" "cn_read_header (complete_write w c) = cn_read_header c"
  "cn_read_header_offset (complete_write w c) = cn_read_header_offset c" "cn_closed (complete_write w c) = cn_closed c"
  "cn_controls (complete_write w c) = cn_controls c" "cn_received_bytes (complete_write w c) = cn_received_bytes c"
  by (auto simp: complete_write_def Let_def split: option.split)

lemma start_write_frame [simp]:
  "cn_io (start_write k s p c) = cn_io c" "cn_split_send_size (start_write k s p c) = cn_split_send_size c"
  "cn_receive_limit (start_write k s p c) = cn_receive_limit c" "cn_read_frame (start_write k s p c) = cn_read_frame c"
  "cn_read_header (start_write k s p c) = cn_read_header c" "cn_closed (start_write k s p c) = cn_closed c"
  "cn_read_header_offset (start_write k s p c) = cn_read_header_offset c"
  "cn_controls (start_write k s p c) = cn_controls c" "cn_streams (start_write k s p c) = cn_streams c"
  "cn_received_bytes (start_write k s p c) = cn_received_bytes c"
  by (simp_all add: start_write_def)

lemma start_queued_control_frame [simp]:
  "cn_io (start_queued_control c) = cn_io c"
  "cn_split_send_size (start_queued_control c) = cn_split_send_size c"
  "cn_receive_limit (start_queued_control c) = cn_receive_limit c"
  "cn_read_frame (start_queued_control c) = cn_read_frame c"
  "cn_read_header (start_queued_control c) = cn_read_header c"
  "cn_read_header_offset (start_queued_control c) = cn_read_header_offset c"
  "cn_streams (start_queued_control c) = cn_streams c" "cn_closed (start_queued_control c) = cn_closed c"
  "cn_received_bytes (start_queued_control c) = cn_received_bytes c"
  by (auto simp: start_queued_control_def split: list.split)

lemma start_queued_control_next: "conn_wf ok c \<Longrightarrow> conn_next ok c (start_queued_control c)"
  by (simp add: conn_next_def start_queued_control_wf)

lemma clear_completed_next:
  assumes "conn_wf ok c" and "stream_get c i = Some st"
  shows "conn_next ok c (stream_put i (st\<lparr>ss_completed_write := 0\<rparr>) c)"
  using conn_wf_put_same [OF assms] by (simp add: conn_next_def)

lemma conn_wf_io: "conn_wf ok c \<Longrightarrow> ok io' \<Longrightarrow> cn_io c \<noteq> None \<Longrightarrow> conn_wf ok (c\<lparr>cn_io := Some io'\<rparr>)"
  by (simp add: conn_wf_def)

context duplex
begin

lemma poll_flush_write_next:
  assumes "conn_wf ok c" and "poll_flush_write T c = (c', r)"
  shows "conn_next ok c c' \<and> r \<noteq> Panicked"
proof (cases "cn_io c")
  case None
  with assms show ?thesis by (auto simp: poll_flush_write_def conn_next_refl)
next
  case (Some io)
  from assms(1) Some assms(2) show ?thesis
  proof (cases rule: poll_flush_write_cases)
    case (idle io')
    with assms(1) Some show ?thesis by (simp add: conn_next_def conn_wf_io)
  next
    case (part w io' off)
    with assms(1) Some show ?thesis by (simp add: conn_next_def conn_wf_def write_wf_def)
  next
    case (whole w io')
    with assms(1) Some show ?thesis by (simp add: conn_next_def complete_write_wf conn_wf_io)
  qed
qed

lemma poll_flush_write_done: "conn_wf ok c \<Longrightarrow> poll_flush_write T c = (c', Ready (Inr ())) \<Longrightarrow> cn_write c' = None"
  by (cases "cn_io c") (auto simp: poll_flush_write_def elim!: poll_flush_write_cases [where r = "Ready (Inr ())"])

lemma start_control_next:
  assumes "conn_wf ok c" and "kind = FRAME_OPEN \<or> kind = FRAME_FIN"
    and "poll_flush_write T (if cn_write c = None then start_write kind stream [] c else c) = (c', r)"
  shows "conn_next ok c c' \<and> r \<noteq> Panicked"
proof -
  have "conn_next ok c (if cn_write c = None then start_write kind stream [] c else c)"
    using assms(1,2) by (auto simp: conn_next_def start_write_wf control_frame_ok)
  then show ?thesis using poll_flush_write_next [OF conn_next_wf assms(3)] conn_next_trans by blast
qed

lemma poll_control_next:
  assumes "conn_wf ok c" and "kind = FRAME_OPEN \<or> kind = FRAME_FIN" and "poll_control T kind stream c = (c', r)"
  shows "conn_next ok c c' \<and> r \<noteq> Panicked"
proof (cases "cn_write c")
  case None
  then show ?thesis
    using assms(3) start_control_next [OF assms(1,2), of stream c' r] by (simp add: poll_control_def Let_def)
next
  case (Some w)
  obtain c1 q where f: "poll_flush_write T c = (c1, q)" by fastforce
  have n: "conn_next ok c c1 \<and> q \<noteq> Panicked" by (rule poll_flush_write_next [OF assms(1) f])
  show ?thesis
  proof (cases "\<not> (pw_kind w = kind \<and> pw_stream w = stream) \<and> q = Ready (Inr ())")
    case True
    then have "poll_flush_write T (if cn_write c1 = None then start_write kind stream [] c1 else c1) = (c', r)"
      using assms(3) Some f by (auto simp: poll_control_def Let_def)
    from start_control_next [OF conn_next_wf assms(2) this] n show ?thesis by (blast intro: conn_next_trans)
  next
    case False
    then have "c' = c1 \<and> r = q" using assms(3) Some f by (auto simp: poll_control_def Let_def split: if_splits)
    with n show ?thesis by simp
  qed
qed

lemma flush_own_next:
  assumes "conn_wf ok c" and "flush_own T stream accepted c = (c', r)"
  shows "conn_next ok c c' \<and> r \<noteq> Panicked \<and> (\<forall>n. r = Ready (Inr n) \<longrightarrow> n = accepted)"
proof -
  obtain c1 q where f: "poll_flush_write T c = (c1, q)" by fastforce
  have n: "conn_next ok c c1" "q \<noteq> Panicked" using poll_flush_write_next [OF assms(1) f] by auto
  have "conn_next ok c (case stream_get c1 stream of None \<Rightarrow> c1 | Some st \<Rightarrow> stream_put stream (st\<lparr>ss_completed_write := 0\<rparr>) c1)"
    using n(1) clear_completed_next [OF conn_next_wf [OF n(1)]] by (auto split: option.split intro: conn_next_trans)
  then show ?thesis
    using assms(2) f n by (auto simp: flush_own_def split: poll.splits sum.splits)
qed

lemma start_data_next:
  assumes "conn_wf ok c" and "input \<noteq> []" and "start_data T stream input c = (c', r)"
  shows "conn_next ok c c' \<and> r \<noteq> Panicked \<and> (\<forall>n. r = Ready (Inr n) \<longrightarrow> n \<le> length input)"
proof -
  let ?p = "take (min (length input) (cn_split_send_size c)) input"
  have "frame_ok (cn_split_send_size c) (FRAME_DATA, stream, ?p)"
    using assms(1,2) by (simp add: frame_ok_def conn_wf_def)
  then have s: "conn_next ok c (start_write FRAME_DATA stream ?p c)"
    using assms(1) by (simp add: conn_next_def start_write_wf)
  from flush_own_next [OF conn_next_wf [OF s] assms(3) [unfolded start_data_def Let_def]] conn_next_trans [OF s]
  show ?thesis by auto
qed

lemma poll_data_next:
  assumes "conn_wf ok c" and "poll_data T stream input c = (c', r)"
  shows "conn_next ok c c' \<and> r \<noteq> Panicked"
proof -
  define a where "a = (case stream_get c stream of None \<Rightarrow> 0 | Some st \<Rightarrow> ss_completed_write st)"
  define c1 where "c1 = (case stream_get c stream of None \<Rightarrow> c | Some st \<Rightarrow> stream_put stream (st\<lparr>ss_completed_write := 0\<rparr>) c)"
  define c2 where "c2 = start_queued_control c1"
  have n1: "conn_next ok c c1"
    using assms(1) clear_completed_next [OF assms(1)] by (auto simp: c1_def conn_next_refl split: option.split)
  have n2: "conn_next ok c c2"
    unfolding c2_def by (rule conn_next_trans [OF n1 start_queued_control_next [OF conn_next_wf [OF n1]]])
  have w2: "conn_wf ok c2" by (rule conn_next_wf [OF n2])
  obtain c3 q where f: "poll_flush_write T c2 = (c3, q)" by fastforce
  have n3: "conn_next ok c c3" "q \<noteq> Panicked"
    using conn_next_trans [OF n2] poll_flush_write_next [OF w2 f] by auto
  have eq: "poll_data T stream input c =
     (if cn_closed c then (c, Ready (Inl (Io_Error BrokenPipe []))) else if input = [] then (c, Ready (Inr 0))
      else if a \<noteq> 0 then (c1, Ready (Inr a))
      else case cn_write c2 of None \<Rightarrow> start_data T stream input c2
       | Some w \<Rightarrow> if pw_kind w = FRAME_DATA \<and> pw_stream w = stream then flush_own T stream (pw_accepted w) c2
           else (case q of Ready (Inr _) \<Rightarrow> start_data T stream input c3 | Ready (Inl error) \<Rightarrow> (c3, Ready (Inl error))
             | Pending \<Rightarrow> (c3, Pending) | Panicked \<Rightarrow> (c3, Panicked)))"
    unfolding poll_data_def Let_def a_def [symmetric] c1_def [symmetric] c2_def [symmetric] f prod.case ..
  have d2: "conn_next ok c c' \<and> r \<noteq> Panicked" if "input \<noteq> []" "start_data T stream input c2 = (c', r)"
    using start_data_next [OF w2 that] conn_next_trans [OF n2] by blast
  have d3: "conn_next ok c c' \<and> r \<noteq> Panicked" if "input \<noteq> []" "start_data T stream input c3 = (c', r)"
    using start_data_next [OF conn_next_wf [OF n3(1)] that] conn_next_trans [OF n3(1)] by blast
  have o2: "conn_next ok c c' \<and> r \<noteq> Panicked" if "flush_own T stream n c2 = (c', r)" for n
    using flush_own_next [OF w2 that] conn_next_trans [OF n2] by blast
  show ?thesis
    using assms(2) conn_next_refl [OF assms(1)] n1 n3 d2 d3 o2 unfolding eq
    by (auto split: if_splits option.splits poll.splits sum.splits)
qed

end

subsection \<open>Reading\<close>

definition new_frame :: "bytes \<Rightarrow> pending_read" where
  "new_frame hdr = \<lparr>pr_kind = hdr ! 0, pr_stream = u32_from_be (slice hdr 1 5), pr_length = from_be (slice hdr 5 9),
     pr_bytes = [], pr_wire_consumed = 0, pr_buffer_offset = 0\<rparr>"

lemma begin_frame_ok:
  assumes "begin_frame c = (c', Ready (Inr ()))" and "cn_receive_limit c < usize_max"
  shows "c' = c\<lparr>cn_read_header_offset := 0, cn_spare_reads := butlast (cn_spare_reads c),
             cn_read_frame := Some (new_frame (cn_read_header c))\<rparr>
    \<and> read_wf (cn_split_send_size c) (cn_receive_limit c) (cn_received_bytes c) (new_frame (cn_read_header c))"
proof -
  have none: "mux_header_ok (c\<lparr>cn_read_header_offset := 0\<rparr>) (cn_read_header c ! 0) (from_be (slice (cn_read_header c) 5 9)) = None"
    using assms(1) by (auto simp: begin_frame_def Let_def split: option.splits)
  then have h: "cn_read_header c ! 0 \<noteq> FRAME_DATA \<longrightarrow> from_be (slice (cn_read_header c) 5 9) = 0"
    by (auto simp: mux_header_ok_def split: if_splits)
  with assms(1) none have "c' = c\<lparr>cn_read_header_offset := 0, cn_spare_reads := butlast (cn_spare_reads c),
             cn_read_frame := Some (new_frame (cn_read_header c))\<rparr>"
    by (auto simp: begin_frame_def new_frame_def Let_def)
  moreover have "read_wf (cn_split_send_size c) (cn_receive_limit c) (cn_received_bytes c) (new_frame (cn_read_header c))"
    using none assms(2) by (auto simp: mux_header_ok_def new_frame_def read_wf_def saturating_add_def split: if_splits)
  ultimately show ?thesis by blast
qed

lemma fill_stops:
  assumes "(case q of Ready (Inr True) \<Rightarrow> x | Ready (Inr False) \<Rightarrow> (y, w) | Ready (Inl error) \<Rightarrow> (z, Ready (Inl error))
      | Pending \<Rightarrow> (z, Pending) | Panicked \<Rightarrow> (z, Panicked)) = (c', r)"
    and "q \<noteq> Ready (Inr True)" and "q \<noteq> Panicked"
  shows "(w \<noteq> Ready (Inr ()) \<longrightarrow> r \<noteq> Ready (Inr ())) \<and> (w \<noteq> Panicked \<longrightarrow> r \<noteq> Panicked) \<and> (c' = z \<or> c' = y)"
  using assms by (auto split: poll.splits sum.splits bool.splits)

lemma begin_frame_error:
  assumes "begin_frame c = (c', r)" and "r \<noteq> Ready (Inr ())"
  shows "c' = c\<lparr>cn_read_header_offset := 0\<rparr> \<and> (\<exists>e. r = Ready (Inl e))"
  using assms by (auto simp: begin_frame_def Let_def split: option.splits)

context duplex
begin

lemma poll_prepare_frame_cases:
  assumes "conn_wf ok c" and "poll_prepare_frame T c = (c', r)"
  obtains (present) fr where "cn_read_frame c = Some fr" and "c' = c" and "r = Ready (Inr ())"
  | (gone) "cn_read_frame c = None" and "cn_io c = None" and "c' = c\<lparr>cn_closed := True\<rparr>" and "r = Pending"
  | (partly) io hdr off io' closed q where "cn_read_frame c = None" and "cn_io c = Some io"
      and "filled ok got put (cn_read_header c) (cn_read_header_offset c) io (hdr, off, io', q)" and "off < MUX_HEADER_BYTES"
      and "c' = c\<lparr>cn_io := Some io', cn_read_header := hdr, cn_read_header_offset := off, cn_closed := closed\<rparr>"
      and "r \<noteq> Ready (Inr ())" and "r \<noteq> Panicked"
  | (begun) io hdr io' where "cn_read_frame c = None" and "cn_io c = Some io"
      and "filled ok got put (cn_read_header c) (cn_read_header_offset c) io (hdr, MUX_HEADER_BYTES, io', Ready (Inr True))"
      and "c' = c\<lparr>cn_io := Some io', cn_read_header := hdr, cn_read_header_offset := 0,
             cn_spare_reads := butlast (cn_spare_reads c), cn_read_frame := Some (new_frame hdr)\<rparr>"
      and "read_wf (cn_split_send_size c) (cn_receive_limit c) (cn_received_bytes c) (new_frame hdr)" and "r = Ready (Inr ())"
  | (bad) io hdr io' e where "cn_read_frame c = None" and "cn_io c = Some io"
      and "filled ok got put (cn_read_header c) (cn_read_header_offset c) io (hdr, MUX_HEADER_BYTES, io', Ready (Inr True))"
      and "c' = c\<lparr>cn_io := Some io', cn_read_header := hdr, cn_read_header_offset := 0\<rparr>" and "r = Ready (Inl e)"
proof (cases "cn_read_frame c")
  case (Some fr)
  with assms(2) show ?thesis by (intro present) (auto simp: poll_prepare_frame_def)
next
  case None
  show ?thesis
  proof (cases "cn_io c")
    case no: None
    with None assms(2) show ?thesis by (intro gone) (auto simp: poll_prepare_frame_def)
  next
    case (Some io)
    obtain hdr off io' q where out: "fill T MUX_HEADER_BYTES (cn_read_header c) (cn_read_header_offset c) io = (hdr, off, io', q)"
      by (metis prod_cases4)
    have w: "ok io" "length (cn_read_header c) = MUX_HEADER_BYTES" "cn_read_header_offset c < MUX_HEADER_BYTES"
        "cn_receive_limit c < usize_max"
      using assms(1) Some by (auto simp: conn_wf_def)
    then have f: "filled ok got put (cn_read_header c) (cn_read_header_offset c) io (hdr, off, io', q)"
      using fill_filled [of io "cn_read_header_offset c" "cn_read_header c" MUX_HEADER_BYTES] out by simp
    define c1 where "c1 = c\<lparr>cn_io := Some io', cn_read_header := hdr, cn_read_header_offset := off\<rparr>"
    show ?thesis
    proof (cases "q = Ready (Inr True)")
      case True
      then have off: "off = MUX_HEADER_BYTES" using f w by (simp add: filled_def)
      have b: "begin_frame c1 = (c', r)"
        using assms(2) None Some out True by (simp add: poll_prepare_frame_def c1_def)
      show ?thesis
      proof (cases "r = Ready (Inr ())")
        case r: True
        from begin_frame_ok [OF b [unfolded r]] w(4) show ?thesis
          by (intro begun [OF None Some f [unfolded off True] _ _ r]) (auto simp: c1_def)
      next
        case False
        from begin_frame_error [OF b False] show ?thesis
          by (elim conjE exE, intro bad [OF None Some f [unfolded off True]]) (auto simp: c1_def)
      qed
    next
      case False
      then have off: "off < MUX_HEADER_BYTES" "q \<noteq> Panicked" using f w by (simp_all add: filled_def)
      have "(case q of Ready (Inr True) \<Rightarrow> begin_frame c1 | Ready (Inr False) \<Rightarrow> (c1\<lparr>cn_closed := True\<rparr>, Pending)
          | Ready (Inl error) \<Rightarrow> (c1, Ready (Inl error)) | Pending \<Rightarrow> (c1, Pending) | Panicked \<Rightarrow> (c1, Panicked)) = (c', r)"
        using assms(2) unfolding poll_prepare_frame_def None Some option.case out prod.case Let_def c1_def [symmetric] .
      from fill_stops [OF this False off(2)]
      have r: "(c' = c1 \<or> c' = c1\<lparr>cn_closed := True\<rparr>) \<and> r \<noteq> Ready (Inr ()) \<and> r \<noteq> Panicked" by simp
      moreover have "c1 = c1\<lparr>cn_closed := cn_closed c\<rparr>" by (simp add: c1_def)
      ultimately obtain closed where "c' = c1\<lparr>cn_closed := closed\<rparr>" by metis
      with r show ?thesis by (intro partly [OF None Some f off(1), of closed]) (simp_all add: c1_def)
    qed
  qed
qed

lemma poll_prepare_frame_next:
  assumes "conn_wf ok c" and "poll_prepare_frame T c = (c', r)"
  shows "conn_next ok c c' \<and> r \<noteq> Panicked \<and> (r = Ready (Inr ()) \<longrightarrow> cn_read_frame c' \<noteq> None)"
  using assms
proof (cases rule: poll_prepare_frame_cases)
  case (present fr)
  with assms(1) show ?thesis by (simp add: conn_next_refl)
next
  case gone
  with assms(1) show ?thesis by (simp add: conn_next_def conn_wf_def)
next
  case (partly io hdr off io' closed q)
  with assms(1) show ?thesis by (simp add: conn_next_def conn_wf_def filled_def)
next
  case (begun io hdr io')
  with assms(1) show ?thesis by (simp add: conn_next_def conn_wf_def filled_def MUX_HEADER_BYTES_def)
next
  case (bad io hdr io' e)
  with assms(1) show ?thesis by (simp add: conn_next_def conn_wf_def filled_def MUX_HEADER_BYTES_def)
qed

end

lemma size_frame_wf:
  assumes "read_wf sz limit n fr"
  shows "length (pr_bytes (size_frame fr)) = pr_length fr - pr_wire_consumed fr"
    and "pr_buffer_offset fr \<le> length (pr_bytes (size_frame fr))"
    and "take (pr_buffer_offset fr) (pr_bytes (size_frame fr)) = take (pr_buffer_offset fr) (pr_bytes fr)"
    and "size_frame fr = fr\<lparr>pr_bytes := pr_bytes (size_frame fr)\<rparr>"
  using assms by (auto simp: size_frame_def read_wf_def Let_def)

lemma size_frame_read_wf: "read_wf sz limit n fr \<Longrightarrow> read_wf sz limit n (size_frame fr)"
  by (auto simp: size_frame_def read_wf_def Let_def)

lemma buffered_append:
  assumes "stream_ok st"
  shows "buffered (st\<lparr>ss_input := ss_input st @ [bs]\<rparr>) = buffered st @ bs"
    and "stream_ok (st\<lparr>ss_input := ss_input st @ [bs]\<rparr>)"
  using assms by (auto simp: buffered_def stream_ok_def split: list.splits)

lemma finish_frame_next:
  assumes "conn_wf ok c" and "cn_read_frame c = None" and "cn_io c \<noteq> None"
    and "pr_kind fr = FRAME_OPEN \<or> pr_kind fr = FRAME_DATA \<or> pr_kind fr = FRAME_FIN"
    and "cn_received_bytes c + length (pr_bytes fr) \<le> cn_receive_limit c"
    and "finish_frame fr c = (c', r)"
  shows "conn_next ok c c' \<and> r \<noteq> Panicked"
proof -
  consider (opn) "pr_kind fr = FRAME_OPEN" | (dat) "pr_kind fr = FRAME_DATA" | (fin) "pr_kind fr = FRAME_FIN"
    using assms(4) by blast
  then show ?thesis
  proof cases
    case opn
    show ?thesis
    proof (cases "insert_stream (pr_stream fr) c")
      case (Inl e)
      with opn assms show ?thesis by (auto simp: finish_frame_def conn_next_refl)
    next
      case (Inr c1)
      then have "conn_wf ok (c1\<lparr>cn_inbound := x\<rparr>)" for x
        using insert_stream_wf(1) [OF assms(1,3)] by (auto simp: conn_wf_def)
      with opn Inr assms(6) show ?thesis
        by (auto simp: finish_frame_def conn_next_def insert_stream_def Let_def split: if_splits)
    qed
  next
    case dat
    show ?thesis
    proof (cases "stream_get c (pr_stream fr)")
      case None
      with dat assms show ?thesis by (auto simp: finish_frame_def conn_next_refl)
    next
      case (Some st)
      have st: "stream_ok st" by (rule conn_wf_stream_ok [OF assms(1) Some])
      note b = buffered_append [OF st, of "pr_bytes fr"]
      have "conn_wf ok (stream_put (pr_stream fr) (st\<lparr>ss_input := ss_input st @ [pr_bytes fr]\<rparr>)
          (c\<lparr>cn_received_bytes := cn_received_bytes c + length (pr_bytes fr)\<rparr>))"
        using assms(2,5) b by (intro conn_wf_put [OF assms(1) Some]) auto
      with dat Some assms(6) show ?thesis by (auto simp: finish_frame_def conn_next_def)
    qed
  next
    case fin
    show ?thesis
    proof (cases "stream_get c (pr_stream fr)")
      case None
      with fin assms show ?thesis by (auto simp: finish_frame_def conn_next_refl)
    next
      case (Some st)
      with fin assms(6) conn_wf_put_same [OF assms(1) Some, of "st\<lparr>ss_eof := True\<rparr>"] show ?thesis
        by (auto simp: finish_frame_def conn_next_def)
    qed
  qed
qed

context duplex
begin

text \<open>The ways in which the rest of a frame is read: the buffer of the frame is sized and filled.\<close>

lemma read_frame_rest_cases:
  assumes "conn_wf ok c" and "cn_read_frame c = Some fr" and "read_frame_rest T c = (c', r)"
  obtains (gone) "cn_io c = None" and "c' = c\<lparr>cn_read_frame := Some (size_frame fr), cn_closed := True\<rparr>" and "r = Pending"
  | (partly) io bs off io' q where "cn_io c = Some io"
      and "filled ok got put (pr_bytes (size_frame fr)) (pr_buffer_offset fr) io (bs, off, io', q)"
      and "off < pr_length fr - pr_wire_consumed fr"
      and "c' = c\<lparr>cn_io := Some io', cn_read_frame := Some (fr\<lparr>pr_bytes := bs, pr_buffer_offset := off\<rparr>)\<rparr>"
      and "r \<noteq> Ready (Inr ())" and "r \<noteq> Panicked"
  | (finished) io bs io' where "cn_io c = Some io"
      and "filled ok got put (pr_bytes (size_frame fr)) (pr_buffer_offset fr) io (bs, pr_length fr - pr_wire_consumed fr, io', Ready (Inr True))"
      and "finish_frame (fr\<lparr>pr_bytes := bs, pr_buffer_offset := pr_length fr - pr_wire_consumed fr\<rparr>)
             (c\<lparr>cn_io := Some io', cn_read_frame := None\<rparr>) = (c', r)"
proof -
  have wf: "read_wf (cn_split_send_size c) (cn_receive_limit c) (cn_received_bytes c) fr"
    using assms(1,2) by (simp add: conn_wf_def)
  note sz = size_frame_wf [OF wf]
  have nolt: "\<not> (pr_kind fr = FRAME_DATA \<and> pr_length fr < pr_wire_consumed fr)" using wf by (simp add: read_wf_def)
  have off0: "pr_buffer_offset (size_frame fr) = pr_buffer_offset fr" by (subst sz(4)) simp
  show ?thesis
  proof (cases "cn_io c")
    case None
    with assms(2,3) nolt show ?thesis by (intro gone) (auto simp: read_frame_rest_def fill_frame_def)
  next
    case (Some io)
    have io1: "cn_io (c\<lparr>cn_read_frame := Some (size_frame fr)\<rparr>) = Some io" using Some by simp
    obtain bs off io' q where out: "fill T (length (pr_bytes (size_frame fr))) (pr_bytes (size_frame fr)) (pr_buffer_offset fr) io
        = (bs, off, io', q)" by (metis prod_cases4)
    have "ok io" using assms(1) Some by (simp add: conn_wf_def)
    then have f: "filled ok got put (pr_bytes (size_frame fr)) (pr_buffer_offset fr) io (bs, off, io', q)"
      using fill_filled [of io "pr_buffer_offset fr" "pr_bytes (size_frame fr)"] out sz(2) by simp
    define c2 where "c2 = c\<lparr>cn_io := Some io', cn_read_frame := Some (fr\<lparr>pr_bytes := bs, pr_buffer_offset := off\<rparr>)\<rparr>"
    have fr2: "size_frame fr\<lparr>pr_bytes := bs, pr_buffer_offset := off\<rparr> = fr\<lparr>pr_bytes := bs, pr_buffer_offset := off\<rparr>"
      by (subst sz(4)) simp
    have c2: "c\<lparr>cn_read_frame := Some (size_frame fr), cn_io := Some io',
        cn_read_frame := Some (fr\<lparr>pr_bytes := bs, pr_buffer_offset := off\<rparr>)\<rparr> = c2"
      by (simp add: c2_def)
    have eq: "(case q of Ready (Inr True) \<Rightarrow> finish_frame (fr\<lparr>pr_bytes := bs, pr_buffer_offset := off\<rparr>) (c2\<lparr>cn_read_frame := None\<rparr>)
        | Ready (Inr False) \<Rightarrow> (c2, Ready (Inl (Io_Error UnexpectedEof ''mux frame ended early'')))
        | Ready (Inl error) \<Rightarrow> (c2, Ready (Inl error)) | Pending \<Rightarrow> (c2, Pending) | Panicked \<Rightarrow> (c2, Panicked)) = (c', r)"
      using assms(3) unfolding read_frame_rest_def assms(2) option.case if_not_P [OF nolt] fill_frame_def io1 off0 out
        prod.case Let_def fr2 c2 .
    show ?thesis
    proof (cases "q = Ready (Inr True)")
      case True
      then have off: "off = pr_length fr - pr_wire_consumed fr" using f sz(1) by (simp add: filled_def)
      have c2': "c2\<lparr>cn_read_frame := None\<rparr> = c\<lparr>cn_io := Some io', cn_read_frame := None\<rparr>" by (simp add: c2_def)
      from eq True show ?thesis by (intro finished [OF Some f [unfolded True off]]) (simp add: off c2')
    next
      case False
      then have off: "off < pr_length fr - pr_wire_consumed fr" "q \<noteq> Panicked" using f sz(1) by (simp_all add: filled_def)
      from fill_stops [OF eq False off(2)] show ?thesis
        by (intro partly [OF Some f off(1)]) (simp_all add: c2_def)
    qed
  qed
qed

lemma read_frame_rest_next:
  assumes "conn_wf ok c" and "cn_read_frame c = Some fr" and "read_frame_rest T c = (c', r)"
  shows "conn_next ok c c' \<and> r \<noteq> Panicked"
proof -
  have wf: "read_wf (cn_split_send_size c) (cn_receive_limit c) (cn_received_bytes c) fr"
    using assms(1,2) by (simp add: conn_wf_def)
  note sz = size_frame_wf [OF wf]
  from assms show ?thesis
  proof (cases rule: read_frame_rest_cases)
    case gone
    with size_frame_read_wf [OF wf] assms(1) show ?thesis by (simp add: conn_next_def conn_wf_def)
  next
    case (partly io bs off io' q)
    then have "read_wf (cn_split_send_size c) (cn_receive_limit c) (cn_received_bytes c) (fr\<lparr>pr_bytes := bs, pr_buffer_offset := off\<rparr>)"
      using wf sz(1-3) by (auto simp: read_wf_def filled_def)
    with partly assms(1) show ?thesis by (simp add: conn_next_def conn_wf_def filled_def)
  next
    case (finished io bs io')
    have c1: "conn_next ok c (c\<lparr>cn_io := Some io', cn_read_frame := None\<rparr>)"
      using finished(1,2) assms(1) by (simp add: conn_next_def conn_wf_def filled_def)
    have "length bs = pr_length fr - pr_wire_consumed fr" using finished(2) sz(1) by (simp add: filled_def)
    with wf finish_frame_next [OF conn_next_wf [OF c1] _ _ _ _ finished(3)]
    show ?thesis using conn_next_trans [OF c1] by (auto simp: read_wf_def)
  qed
qed

lemma poll_receive_next:
  assumes "conn_wf ok c" and "poll_receive T c = (c', r)"
  shows "conn_next ok c c' \<and> r \<noteq> Panicked"
proof -
  obtain c1 q where p: "poll_prepare_frame T c = (c1, q)" by fastforce
  note n = poll_prepare_frame_next [OF assms(1) p]
  show ?thesis
  proof (cases "q = Ready (Inr ())")
    case True
    then obtain fr where "cn_read_frame c1 = Some fr" using n by auto
    from read_frame_rest_next [OF conn_next_wf this] assms(2) p True n show ?thesis
      using conn_next_trans [of ok c c1] by (auto simp: poll_receive_def)
  next
    case False
    with n assms(2) p show ?thesis by (auto simp: poll_receive_def)
  qed
qed

lemma poll_drive_next:
  assumes "conn_wf ok c" and "poll_drive T c = (c', r)"
  shows "conn_next ok c c' \<and> r \<noteq> Panicked"
proof -
  define c1 where "c1 = start_queued_control c"
  have n1: "conn_next ok c c1" unfolding c1_def by (rule start_queued_control_next [OF assms(1)])
  obtain c2 q where f: "poll_flush_write T c1 = (c2, q)" by fastforce
  have n2: "conn_next ok c c2" "q \<noteq> Panicked"
    using poll_flush_write_next [OF conn_next_wf [OF n1] f] conn_next_trans [OF n1] by auto
  have eq: "poll_drive T c = (if cn_closed c then (c, Pending) else
      case cn_write c1 of None \<Rightarrow> poll_receive T c1
      | Some _ \<Rightarrow> (case q of Ready (Inl error) \<Rightarrow> (c2, Ready (Inl error)) | Panicked \<Rightarrow> (c2, Panicked) | _ \<Rightarrow> poll_receive T c2))"
    unfolding poll_drive_def Let_def c1_def [symmetric] f prod.case ..
  have a: "conn_next ok c c' \<and> r \<noteq> Panicked" if "poll_receive T c1 = (c', r)"
    using poll_receive_next [OF conn_next_wf [OF n1] that] conn_next_trans [OF n1] by blast
  have b: "conn_next ok c c' \<and> r \<noteq> Panicked" if "poll_receive T c2 = (c', r)"
    using poll_receive_next [OF conn_next_wf [OF n2(1)] that] conn_next_trans [OF n2(1)] by blast
  show ?thesis
    using assms(2) conn_next_refl [OF assms(1)] n2 a b unfolding eq
    by (auto split: if_splits option.splits poll.splits sum.splits)
qed

end

text \<open>A read that keeps the invariant, the length of the slice and its bound.\<close>

definition read_next :: "('t \<Rightarrow> bool) \<Rightarrow> 't connection \<Rightarrow> bytes \<Rightarrow> 't connection \<times> bytes \<times> nat io_result poll \<Rightarrow> bool" where
  "read_next ok c out res \<longleftrightarrow>
     (case res of (c', out', r) \<Rightarrow> conn_next ok c c' \<and> length out' = length out \<and> r \<noteq> Panicked
        \<and> (\<forall>n. r = Ready (Inr n) \<longrightarrow> n \<le> length out))"

lemma conn_wf_spare [simp]: "conn_wf ok (c\<lparr>cn_spare_reads := x\<rparr>) = conn_wf ok c"
  by (simp add: conn_wf_def)

lemma read_next_trans: "conn_next ok c c1 \<Longrightarrow> read_next ok c1 out res \<Longrightarrow> read_next ok c out res"
  by (auto simp: read_next_def intro: conn_next_trans)

context duplex
begin

lemma direct_read_cases:
  assumes "cn_io c = Some io" and "ok io" and "direct_read T fr out c = (c', out', r)"
  obtains (got_some) n io' where "r = Ready (Inr n)" and "0 < n" and "n \<le> length out" and "n \<le> pr_length fr - pr_wire_consumed fr"
      and "c' = (if pr_wire_consumed fr + n = pr_length fr
             then c\<lparr>cn_io := Some io', cn_read_frame := None, cn_spare_reads := cn_spare_reads c @ [[]]\<rparr>
             else c\<lparr>cn_io := Some io', cn_read_frame := Some (fr\<lparr>pr_wire_consumed := pr_wire_consumed fr + n\<rparr>)\<rparr>)"
      and "ok io'" and "length out' = length out" and "got io' = got io @ take n out'" and "put io' = put io"
  | (got_none) io' where "\<forall>n. r \<noteq> Ready (Inr n)" and "r \<noteq> Panicked" and "c' = c\<lparr>cn_io := Some io'\<rparr>" and "ok io'"
      and "length out' = length out" and "got io' = got io" and "put io' = put io"
proof -
  define k where "k = min (length out) (pr_length fr - pr_wire_consumed fr)"
  obtain io' part q where rd: "io_read T io (take k out) = (io', part, q)" by (metis prod_cases3)
  note k = read_ok [OF assms(2) rd] and t = read_trace [OF rd]
  have len: "length part = k" using k by (simp add: k_def)
  define out1 where "out1 = part @ drop k out"
  define c1 where "c1 = c\<lparr>cn_io := Some io'\<rparr>"
  have len1: "length out1 = length out" using len by (simp add: out1_def k_def)
  have eq: "(case q of Ready (Inr n) \<Rightarrow> if n = 0 then (c1, out1, Ready (Inl (Io_Error UnexpectedEof [])))
        else ((if pr_wire_consumed (fr\<lparr>pr_wire_consumed := pr_wire_consumed fr + n\<rparr>) = pr_length (fr\<lparr>pr_wire_consumed := pr_wire_consumed fr + n\<rparr>)
               then c1\<lparr>cn_read_frame := None, cn_spare_reads := cn_spare_reads c1 @ [[]]\<rparr>
               else c1\<lparr>cn_read_frame := Some (fr\<lparr>pr_wire_consumed := pr_wire_consumed fr + n\<rparr>)\<rparr>), out1, Ready (Inr n))
      | Ready (Inl error) \<Rightarrow> (c1, out1, Ready (Inl error)) | Pending \<Rightarrow> (c1, out1, Pending) | Panicked \<Rightarrow> (c1, out1, Panicked)) = (c', out', r)"
    using assms(3) unfolding direct_read_def Let_def assms(1) option.case k_def [symmetric] rd prod.case
      out1_def [symmetric] c1_def [symmetric] .
  show ?thesis
  proof (cases "\<exists>n. q = Ready (Inr n) \<and> n \<noteq> 0")
    case True
    then obtain n where n: "q = Ready (Inr n)" "n \<noteq> 0" by blast
    have "n \<le> k" using k n by (simp add: k_def)
    with len have "take n out1 = take n part" by (simp add: out1_def)
    with eq n \<open>n \<le> k\<close> k t len1 show ?thesis by (intro got_some [of n io']) (auto simp: c1_def k_def)
  next
    case False
    then have "c' = c1 \<and> out' = out1 \<and> (\<forall>n. r \<noteq> Ready (Inr n)) \<and> r \<noteq> Panicked \<and> got io' = got io"
      using eq k t by (auto split: poll.splits sum.splits if_splits)
    with k t len1 show ?thesis by (intro got_none [of io']) (auto simp: c1_def)
  qed
qed

lemma direct_read_next:
  assumes "conn_wf ok c" and "cn_read_frame c = Some fr" and "pr_bytes fr = []"
  shows "read_next ok c out (direct_read T fr out c)"
proof (cases "cn_io c")
  case None
  with assms(1) show ?thesis by (simp add: read_next_def direct_read_def conn_next_refl)
next
  case (Some io)
  obtain c' out' r where d: "direct_read T fr out c = (c', out', r)" by (metis prod_cases3)
  have wf: "ok io" "read_wf (cn_split_send_size c) (cn_receive_limit c) (cn_received_bytes c) fr"
    using assms(1,2) Some by (simp_all add: conn_wf_def)
  from Some wf(1) d show ?thesis
  proof (cases rule: direct_read_cases)
    case (got_some n io')
    have "read_wf (cn_split_send_size c) (cn_receive_limit c) (cn_received_bytes c) (fr\<lparr>pr_wire_consumed := pr_wire_consumed fr + n\<rparr>)"
      using wf(2) got_some(4) assms(3) by (auto simp: read_wf_def)
    with got_some Some assms(1) d show ?thesis by (auto simp: read_next_def conn_next_def conn_wf_def)
  next
    case (got_none io')
    with Some assms(1) d show ?thesis by (auto simp: read_next_def conn_next_def conn_wf_def)
  qed
qed

lemma poll_read_stream_next:
  assumes "conn_wf ok c"
  shows "read_next ok c out (poll_read_stream T stream out c)"
proof -
  obtain c1 p where p: "poll_prepare_frame T c = (c1, p)" by fastforce
  note n = poll_prepare_frame_next [OF assms p]
  show ?thesis
  proof (cases "p = Ready (Inr ())")
    case True
    then obtain fr where fr: "cn_read_frame c1 = Some fr" using n by auto
    have w: "conn_wf ok c1" using n conn_next_wf by blast
    obtain c2 q where d: "poll_drive T c1 = (c2, q)" by fastforce
    have "\<not> pr_length fr < pr_wire_consumed fr" using w fr by (auto simp: conn_wf_def read_wf_def)
    moreover have "read_next ok c out (c2, out, case q of Ready (Inr _) \<Rightarrow> Pending | Ready (Inl error) \<Rightarrow> Ready (Inl error)
          | Pending \<Rightarrow> Pending | Panicked \<Rightarrow> Panicked)"
      using poll_drive_next [OF w d] conn_next_trans [of ok c c1] n by (auto simp: read_next_def split: poll.splits sum.splits)
    moreover have "read_next ok c out (direct_read T fr out c1)" if "pr_bytes fr = []"
      using read_next_trans direct_read_next [OF w fr that] n by blast
    ultimately show ?thesis using p True fr d by (auto simp: poll_read_stream_def)
  next
    case False
    with n p show ?thesis by (auto simp: poll_read_stream_def read_next_def split: poll.splits sum.splits)
  qed
qed

end

subsection \<open>The stream object\<close>

lemma take_buffered_spec:
  assumes "stream_ok st" and "ss_input st = chunk # rest" and "take_buffered i st chunk rest out c = (n, out', c')"
  obtains st' where "c' = stream_put i st' c" and "stream_ok st'" and "ss_eof st' = ss_eof st"
    and "ss_completed_write st' = ss_completed_write st" and "buffered st = take n out' @ buffered st'"
    and "n \<le> length out" and "n = 0 \<longrightarrow> out = [] \<or> chunk = []" and "length out' = length out"
    and "n = 0 \<longrightarrow> out' = out" and "set (ss_input st') \<subseteq> set (ss_input st)"
    and "out \<noteq> [] \<longrightarrow> n = 0 \<longrightarrow> ss_input st' = rest"
proof -
  define k where "k = min (length out) (length chunk - ss_offset st)"
  have off: "ss_offset st \<le> length chunk" using assms(1,2) by (auto simp: stream_ok_def)
  have kl: "length (slice chunk (ss_offset st) (ss_offset st + k)) = k" using off by (simp add: k_def)
  define st' where "st' = (if ss_offset st + k = length chunk then st\<lparr>ss_offset := 0, ss_input := rest\<rparr>
      else st\<lparr>ss_offset := ss_offset st + k\<rparr>)"
  have r: "n = k" "out' = splice out 0 (slice chunk (ss_offset st) (ss_offset st + k))" "c' = stream_put i st' c"
    using assms(3) by (auto simp: take_buffered_def Let_def k_def [symmetric] st'_def [symmetric])
  have tk: "take n out' = slice chunk (ss_offset st) (ss_offset st + k)"
    unfolding r splice_def using kl by simp
  have "buffered st = slice chunk (ss_offset st) (ss_offset st + k) @ buffered st'"
  proof (cases "ss_offset st + k = length chunk")
    case True
    then show ?thesis using assms(2) off by (simp add: buffered_def st'_def slice_def)
  next
    case False
    then have "drop (ss_offset st) chunk = slice chunk (ss_offset st) (ss_offset st + k) @ drop (ss_offset st + k) chunk"
      by (metis slice_def append_take_drop_id drop_drop add.commute diff_add_inverse)
    moreover have "ss_offset st + k \<le> length chunk" using off by (simp add: k_def)
    ultimately show ?thesis using False assms(2) off by (simp add: buffered_def st'_def)
  qed
  moreover have "stream_ok st'"
  proof (cases "ss_offset st + k = length chunk")
    case True
    then show ?thesis by (auto simp: st'_def stream_ok_def split: list.splits)
  next
    case False
    then show ?thesis using assms(2) off by (auto simp: st'_def stream_ok_def k_def)
  qed
  moreover have "k \<le> length out" by (simp add: k_def)
  moreover have "k = 0 \<longrightarrow> out = [] \<or> chunk = []"
    using assms(1,2) by (auto simp: k_def stream_ok_def min_def split: if_splits)
  moreover have "out \<noteq> [] \<longrightarrow> k = 0 \<longrightarrow> ss_input st' = rest"
    using assms(1,2) by (auto simp: k_def st'_def stream_ok_def min_def split: if_splits)
  moreover have "length out' = length out" unfolding r using kl by (simp add: k_def)
  moreover have "k = 0 \<longrightarrow> out' = out" unfolding r by (simp add: splice_def)
  moreover have "set (ss_input st') \<subseteq> set (ss_input st)" using assms(2) by (auto simp: st'_def)
  ultimately show ?thesis
    using that [of st'] r(3) tk by (simp add: r(1) st'_def split: if_splits)
qed

context duplex
begin

lemma mux_poll_read_next:
  assumes "conn_wf ok c"
  shows "read_next ok c out (mux_poll_read T i out c)"
proof (cases "out = [] \<or> stream_get c i = None")
  case True
  with assms show ?thesis by (auto simp: mux_poll_read_def read_next_def conn_next_refl)
next
  case False
  then obtain st where st: "stream_get c i = Some st" and out: "out \<noteq> []" by auto
  have ok: "stream_ok st" by (rule conn_wf_stream_ok [OF assms st])
  show ?thesis
  proof (cases "ss_input st")
    case Nil
    with st out assms poll_read_stream_next [OF assms] show ?thesis
      by (simp add: mux_poll_read_def read_next_def conn_next_refl)
  next
    case (Cons chunk rest)
    obtain n out' c1 where t: "take_buffered i st chunk rest out c = (n, out', c1)" by (metis prod_cases3)
    from take_buffered_spec [OF ok Cons t] obtain st' where st': "c1 = stream_put i st' c" "stream_ok st'"
      "buffered st = take n out' @ buffered st'" "n \<le> length out" "length out' = length out" by metis
    have len: "length (buffered st) = n + length (buffered st')" using st'(3-5) by simp
    have le: "length (buffered st) \<le> cn_received_bytes c"
    proof -
      have "cn_io c \<noteq> None" using assms stream_get_mem [OF st] by (auto simp: conn_wf_def split: if_splits)
      then have "streams_total (cn_streams c) = cn_received_bytes c" using assms by (simp add: conn_wf_def)
      with streams_total_put [OF st, of stream_fresh] show ?thesis by (simp add: buffered_def stream_fresh_def)
    qed
    have lim: "cn_received_bytes c \<le> cn_receive_limit c" using assms by (simp add: conn_wf_def)
    have w: "conn_next ok c (c1\<lparr>cn_received_bytes := cn_received_bytes c - n\<rparr>)"
      using conn_wf_put [OF assms st st'(2), of "cn_received_bytes c - n"] len le lim
      by (simp add: st'(1) stream_put_received conn_next_def)
    have rec: "conn_next ok c (recycle b (c1\<lparr>cn_received_bytes := cn_received_bytes c - n\<rparr>))" for b
      using w by (simp add: recycle_def conn_next_def)
    have off: "\<not> length chunk < ss_offset st" using ok Cons by (auto simp: stream_ok_def)
    show ?thesis
    proof (cases "n = 0")
      case True
      then have "c1\<lparr>cn_received_bytes := cn_received_bytes c - n\<rparr> = c1" by (cases c) (simp add: st'(1) stream_put_def)
      with w have c1: "conn_next ok c c1" by simp
      have "read_next ok c out (poll_read_stream T i out' c1)"
        using read_next_trans [OF c1 poll_read_stream_next [OF conn_next_wf [OF c1], of out' i]] st'(5)
        by (simp add: read_next_def)
      with True st out Cons t off show ?thesis by (simp add: mux_poll_read_def)
    next
      case False
      with st out Cons t off rec st' len le show ?thesis by (simp add: mux_poll_read_def read_next_def)
    qed
  qed
qed

lemma queue_stream_next:
  assumes "conn_wf ok c" and "cn_io c \<noteq> None" and "queue_stream c = (c', r)"
  shows "conn_next ok c c'"
proof -
  let ?c = "c\<lparr>cn_next_stream := cn_next_stream c + 2\<rparr>"
  have w: "conn_wf ok ?c" using assms(1) by (simp add: conn_wf_def)
  show ?thesis
  proof (cases "insert_stream (cn_next_stream c) ?c")
    case (Inl e)
    with assms w show ?thesis by (auto simp: queue_stream_def Let_def conn_next_def split: if_splits)
  next
    case (Inr c1)
    then have "conn_next ok ?c c1"
      using insert_stream_wf(1) [OF w _ Inr] assms(2) by (auto simp: conn_next_def insert_stream_def Let_def split: if_splits)
    with assms w Inr show ?thesis by (auto simp: queue_stream_def Let_def conn_next_def split: if_splits)
  qed
qed

lemma connection_close_next:
  assumes "conn_wf ok c" and "connection_close T c = (c', r)"
  shows "conn_next ok c c' \<and> r \<noteq> Panicked"
proof -
  obtain c1 q where f: "poll_flush_write T c = (c1, q)" by fastforce
  have n: "conn_next ok c c1" "q \<noteq> Panicked" using poll_flush_write_next [OF assms(1) f] by auto
  have sd: "ok io' \<and> u \<noteq> Panicked" if "cn_io c1 = Some io" "io_shutdown_write T io = (io', u)" for io io' u
    using shutdown_ok [of io io' u] that conn_next_wf [OF n(1)] by (auto simp: conn_wf_def)
  show ?thesis
    using assms(2) f n sd conn_wf_io [OF conn_next_wf [OF n(1)]]
    by (auto simp: connection_close_def conn_next_def split: if_splits option.splits prod.splits)
qed

end

lemma control_wf:
  assumes "conn_wf ok c" and "kind = FRAME_OPEN \<or> kind = FRAME_FIN"
  shows "conn_wf ok (c\<lparr>cn_controls := cn_controls c @ [(kind, i)]\<rparr>)"
  using assms by (simp add: conn_wf_def)

lemma mux_stream_drop_wf: "conn_wf ok c \<Longrightarrow> conn_wf ok (mux_stream_drop i (closed, c))"
  by (simp add: mux_stream_drop_def control_wf)

lemma pop_inbound_wf: "conn_wf ok c \<Longrightarrow> conn_wf ok (fst (pop_inbound c))"
  by (auto simp: pop_inbound_def conn_wf_def split: list.split)

lemma session_drop_wf: "conn_wf ok c \<Longrightarrow> conn_wf ok (session_drop c)"
  by (auto simp: session_drop_def conn_wf_def)

section \<open>Reachable connections\<close>

text \<open>
  Every operation on the connection, with any arguments, in any order and whatever its result:
  streams are opened by the session while it lives, and read, written, closed and dropped at any
  time, also after an error and after the session is gone.
\<close>

inductive conn_reach :: "'t byte_io \<Rightarrow> 't connection \<Rightarrow> 't connection \<Rightarrow> bool" for T c0 where
  start: "conn_reach T c0 c0"
| queued: "conn_reach T c0 c \<Longrightarrow> cn_io c \<noteq> None \<Longrightarrow> conn_reach T c0 (fst (queue_stream c))"
| control: "conn_reach T c0 c \<Longrightarrow> kind \<in> {FRAME_OPEN, FRAME_FIN} \<Longrightarrow> conn_reach T c0 (c\<lparr>cn_controls := cn_controls c @ [(kind, i)]\<rparr>)"
| opened: "conn_reach T c0 c \<Longrightarrow> conn_reach T c0 (fst (poll_control T FRAME_OPEN i c))"
| accepted: "conn_reach T c0 c \<Longrightarrow> conn_reach T c0 (fst (pop_inbound c))"
| driven: "conn_reach T c0 c \<Longrightarrow> conn_reach T c0 (fst (poll_drive T c))"
| read: "conn_reach T c0 c \<Longrightarrow> conn_reach T c0 (fst (mux_poll_read T i out c))"
| written: "conn_reach T c0 c \<Longrightarrow> conn_reach T c0 (fst (mux_poll_write T i input c))"
| flush: "conn_reach T c0 c \<Longrightarrow> conn_reach T c0 (fst (poll_flush_write T c))"
| shut: "conn_reach T c0 c \<Longrightarrow> conn_reach T c0 (snd (fst (mux_poll_close T i (closed, c))))"
| dropped: "conn_reach T c0 c \<Longrightarrow> conn_reach T c0 (mux_stream_drop i (closed, c))"
| closed: "conn_reach T c0 c \<Longrightarrow> conn_reach T c0 (fst (connection_close T c))"
| ended: "conn_reach T c0 c \<Longrightarrow> conn_reach T c0 (session_drop c)"

context duplex
begin

lemma mux_poll_close_next:
  assumes "conn_wf ok c" and "mux_poll_close T i (closed, c) = ((closed', c'), r)"
  shows "conn_next ok c c' \<and> r \<noteq> Panicked"
  using assms poll_control_next [OF assms(1), of FRAME_FIN i]
  by (auto simp: mux_poll_close_def conn_next_refl split: if_splits prod.splits)

lemma conn_reach_wf:
  assumes "conn_reach T c0 c" and "conn_wf ok c0"
  shows "conn_wf ok c \<and> cn_receive_limit c = cn_receive_limit c0 \<and> cn_split_send_size c = cn_split_send_size c0"
  using assms
proof (induction rule: conn_reach.induct)
  case (queued c)
  then show ?case
    using queue_stream_next [of c "fst (queue_stream c)" "snd (queue_stream c)"] by (simp add: conn_next_def)
next
  case (control c kind i)
  then show ?case by (auto intro!: control_wf)
next
  case (opened c i)
  then show ?case
    using poll_control_next [of c FRAME_OPEN i "fst (poll_control T FRAME_OPEN i c)" "snd (poll_control T FRAME_OPEN i c)"] by (simp add: conn_next_def)
next
  case (driven c)
  then show ?case
    using poll_drive_next [of c "fst (poll_drive T c)" "snd (poll_drive T c)"] by (simp add: conn_next_def)
next
  case (read c i out)
  then show ?case using mux_poll_read_next [of c out i]
    by (auto simp: read_next_def conn_next_def split: prod.splits)
next
  case (written c i input)
  then show ?case
    using poll_data_next [of c i input "fst (poll_data T i input c)" "snd (poll_data T i input c)"] by (simp add: conn_next_def mux_poll_write_def)
next
  case (flush c)
  then show ?case
    using poll_flush_write_next [of c "fst (poll_flush_write T c)" "snd (poll_flush_write T c)"] by (simp add: conn_next_def)
next
  case (shut c i closed)
  obtain a c1 r where m: "mux_poll_close T i (closed, c) = ((a, c1), r)" by (metis prod.exhaust)
  with mux_poll_close_next [OF conjunct1 [OF shut.IH [OF shut.prems]] m] shut show ?case by (simp add: conn_next_def)
next
  case (closed c)
  then show ?case
    using connection_close_next [of c "fst (connection_close T c)" "snd (connection_close T c)"] by (simp add: conn_next_def)
next
  case (accepted c)
  then show ?case by (simp add: pop_inbound_wf) (simp add: pop_inbound_def split: list.split)
next
  case (dropped c i closed)
  then show ?case by (simp add: mux_stream_drop_wf) (simp add: mux_stream_drop_def)
next
  case (ended c)
  then show ?case by (simp add: session_drop_wf) (simp add: session_drop_def)
qed simp

end

section \<open>Safety of the connection\<close>

text \<open>A connection over the demonstration module, for the witnesses.\<close>

definition demo_transport :: "bytes \<Rightarrow> bytes module_byte_io \<times> bytes \<times> bytes" where
  "demo_transport m = (module_io_new 1 demo_table m, [], [])"

definition demo_connection :: "mux_mode \<Rightarrow> bytes \<Rightarrow> (bytes module_byte_io \<times> bytes \<times> bytes) connection" where
  "demo_connection role m = connection_new (demo_transport m) role (yamux_of low_memory_template)"

lemma demo_transport_ok: "mb_ok (module_io_new 1 demo_table m)"
  by (auto simp: module_io_new_def mb_ok_def demo_table_def keeps_slice_def Let_def)

text \<open>What is still to come of the data frame that is being read.\<close>

definition frame_rest :: "'t connection \<Rightarrow> nat" where
  "frame_rest c = (case cn_read_frame c of None \<Rightarrow> 0 | Some fr \<Rightarrow> pr_length fr - pr_wire_consumed fr)"

text \<open>
  C9: Whatever the peer sends, whatever the transport answers within its contract and in whatever
  order the operations come, no operation on a multiplexed connection panics; the received bytes on
  the account are exactly the bytes buffered for the streams, and together with the rest of the
  data frame that is being read they never exceed the receive window; a read stays inside its slice.
\<close>

theorem mux_connection_safe:
  assumes "duplex_contract T ok" and "ok io" and "0 < split_send_size config" and "receive_window_bytes config < usize_max"
    and "conn_reach (traced_duplex T) (connection_new (io, [], []) role config) c"
  shows "cn_received_bytes c + frame_rest c \<le> receive_window_bytes config
    \<and> (cn_io c \<noteq> None \<longrightarrow> cn_received_bytes c = streams_total (cn_streams c))
    \<and> snd (poll_drive (traced_duplex T) c) \<noteq> Panicked
    \<and> snd (mux_poll_write (traced_duplex T) i input c) \<noteq> Panicked
    \<and> snd (mux_poll_close (traced_duplex T) i (closed, c)) \<noteq> Panicked
    \<and> (case mux_poll_read (traced_duplex T) i out c of (c', out', r) \<Rightarrow>
         length out' = length out \<and> r \<noteq> Panicked \<and> (\<forall>n. r = Ready (Inr n) \<longrightarrow> n \<le> length out))"
proof -
  have d: "duplex (traced_duplex T) (traced_ok ok) traced_got traced_put" by (rule traced_duplex_contract [OF assms(1)])
  have "conn_wf (traced_ok ok) (connection_new (io, [], []) role config)"
    using assms(2-4) by (intro connection_new_wf) auto
  from duplex.conn_reach_wf [OF d assms(5) this]
  have w: "conn_wf (traced_ok ok) c" "cn_receive_limit c = receive_window_bytes config" by (simp_all add: connection_new_def)
  obtain a c1 r where m: "mux_poll_close (traced_duplex T) i (closed, c) = ((a, c1), r)" by (metis prod.exhaust)
  have "cn_received_bytes c + frame_rest c \<le> cn_receive_limit c"
    using w(1) by (auto simp: conn_wf_def frame_rest_def read_wf_def split: option.splits)
  moreover have "cn_io c \<noteq> None \<longrightarrow> cn_received_bytes c = streams_total (cn_streams c)" using w(1) by (simp add: conn_wf_def)
  moreover have "snd (poll_drive (traced_duplex T) c) \<noteq> Panicked"
    using duplex.poll_drive_next [OF d w(1) prod.collapse [symmetric]] by blast
  moreover have "snd (mux_poll_write (traced_duplex T) i input c) \<noteq> Panicked"
    using duplex.poll_data_next [OF d w(1) prod.collapse [symmetric]] unfolding mux_poll_write_def by blast
  moreover have "snd (mux_poll_close (traced_duplex T) i (closed, c)) \<noteq> Panicked"
    using duplex.mux_poll_close_next [OF d w(1) m] m by simp
  moreover have "read_next (traced_ok ok) c out (mux_poll_read (traced_duplex T) i out c)"
    by (rule duplex.mux_poll_read_next [OF d w(1)])
  ultimately show ?thesis unfolding w(2) read_next_def by (simp add: case_prod_beta)
qed

theorem mux_connection_safe_witness:
  "cn_received_bytes (fst (poll_drive (traced_duplex module_transport) (demo_connection Server_Mode [1, 0, 0, 0, 1]))) \<le> 4456448"
proof -
  let ?T = "traced_duplex (module_transport :: bytes module_byte_io byte_io)"
  have "conn_reach ?T (connection_new (module_io_new 1 demo_table [1, 0, 0, 0, 1], [], []) Server_Mode (yamux_of low_memory_template))
      (fst (poll_drive ?T (demo_connection Server_Mode [1, 0, 0, 0, 1])))"
    unfolding demo_connection_def demo_transport_def by (intro conn_reach.driven conn_reach.start)
  moreover have "0 < split_send_size (yamux_of low_memory_template)" "receive_window_bytes (yamux_of low_memory_template) < usize_max"
      "receive_window_bytes (yamux_of low_memory_template) = 4456448"
    by (simp_all add: low_memory_template_def usize_max_def)
  ultimately show ?thesis
    using conjunct1 [OF mux_connection_safe [OF module_stream.duplex_contract_axioms demo_transport_ok]] by force
qed

end
