(* ===== verification/Mux_Order.thy ===== *)
theory Mux_Order
  imports Mux
begin

text \<open>
  The order of bytes through the multiplexer. A run (\<open>mux_run\<close>) is a sequence of operations of one
  endpoint up to its first error, with four history variables: the bytes the writer of each stream
  has been told are accepted, the bytes it has offered and not yet been told about, the bytes the
  reader of each stream has been given, and the streams that were closed or dropped. A writer that
  is told to wait calls again with the same bytes, as \<open>write_all\<close> does, and does not write after
  closing.

  \<open>send_inv\<close> says that the bytes on the wire are frames whose data, per stream, is what was
  accepted; \<open>recv_inv\<close> that the bytes taken from the wire are frames whose data, per stream, is what
  was delivered and what is buffered. Each depends on one half of the connection only. The frames
  are self-delimiting, which composes the two halves across a transport.
\<close>

section \<open>Runs\<close>

record 't mux_state =
  ms_conn :: "'t connection"
  ms_acked :: "u32 \<Rightarrow> bytes"
  ms_offered :: "u32 \<Rightarrow> bytes option"
  ms_delivered :: "u32 \<Rightarrow> bytes"
  ms_shut :: "u32 set"

definition mux_start :: "'t connection \<Rightarrow> 't mux_state" where
  "mux_start c = \<lparr>ms_conn = c, ms_acked = (\<lambda>_. []), ms_offered = (\<lambda>_. None), ms_delivered = (\<lambda>_. []), ms_shut = {}\<rparr>"

abbreviation no_error :: "'a io_result poll \<Rightarrow> bool" where
  "no_error p \<equiv> \<forall>e. p \<noteq> Ready (Inl e)"

definition note_write :: "u32 \<Rightarrow> bytes \<Rightarrow> nat io_result poll \<Rightarrow> 't mux_state \<Rightarrow> 't mux_state" where
  "note_write i input p m =
     (case p of
        Ready (Inr n) \<Rightarrow> m\<lparr>ms_acked := (ms_acked m)(i := ms_acked m i @ take n input), ms_offered := (ms_offered m)(i := None)\<rparr>
      | _ \<Rightarrow> m\<lparr>ms_offered := (ms_offered m)(i := Some input)\<rparr>)"

definition note_read :: "u32 \<Rightarrow> bytes \<Rightarrow> nat io_result poll \<Rightarrow> 't mux_state \<Rightarrow> 't mux_state" where
  "note_read i out p m =
     (case p of
        Ready (Inr n) \<Rightarrow> m\<lparr>ms_delivered := (ms_delivered m)(i := ms_delivered m i @ take n out)\<rparr>
      | _ \<Rightarrow> m)"

inductive mux_run :: "'t byte_io \<Rightarrow> 't connection \<Rightarrow> 't mux_state \<Rightarrow> bool" for T c0 where
  start: "mux_run T c0 (mux_start c0)"
| queued: "mux_run T c0 m \<Longrightarrow> queue_stream (ms_conn m) = (c, Inr i) \<Longrightarrow> mux_run T c0 (m\<lparr>ms_conn := c\<rparr>)"
| begun: "mux_run T c0 m \<Longrightarrow> stream_get (ms_conn m) i \<noteq> None \<Longrightarrow>
    mux_run T c0 (m\<lparr>ms_conn := (ms_conn m)\<lparr>cn_controls := cn_controls (ms_conn m) @ [(FRAME_OPEN, i)]\<rparr>\<rparr>)"
| opened: "mux_run T c0 m \<Longrightarrow> poll_control T FRAME_OPEN i (ms_conn m) = (c, p) \<Longrightarrow> no_error p \<Longrightarrow>
    mux_run T c0 (m\<lparr>ms_conn := c\<rparr>)"
| accepted: "mux_run T c0 m \<Longrightarrow> mux_run T c0 (m\<lparr>ms_conn := fst (pop_inbound (ms_conn m))\<rparr>)"
| driven: "mux_run T c0 m \<Longrightarrow> poll_drive T (ms_conn m) = (c, p) \<Longrightarrow> no_error p \<Longrightarrow> mux_run T c0 (m\<lparr>ms_conn := c\<rparr>)"
| flushed: "mux_run T c0 m \<Longrightarrow> poll_flush_write T (ms_conn m) = (c, p) \<Longrightarrow> no_error p \<Longrightarrow> mux_run T c0 (m\<lparr>ms_conn := c\<rparr>)"
| written: "mux_run T c0 m \<Longrightarrow> stream_get (ms_conn m) i \<noteq> None \<Longrightarrow> i \<notin> ms_shut m \<Longrightarrow> input \<noteq> [] \<Longrightarrow>
    ms_offered m i = None \<or> ms_offered m i = Some input \<Longrightarrow>
    mux_poll_write T i input (ms_conn m) = (c, p) \<Longrightarrow> no_error p \<Longrightarrow> mux_run T c0 (note_write i input p (m\<lparr>ms_conn := c\<rparr>))"
| read: "mux_run T c0 m \<Longrightarrow> mux_poll_read T i out (ms_conn m) = (c, out', p) \<Longrightarrow> no_error p \<Longrightarrow>
    mux_run T c0 (note_read i out' p (m\<lparr>ms_conn := c\<rparr>))"
| shut: "mux_run T c0 m \<Longrightarrow> mux_poll_close T i (False, ms_conn m) = ((b, c), p) \<Longrightarrow> no_error p \<Longrightarrow>
    mux_run T c0 (m\<lparr>ms_conn := c, ms_shut := insert i (ms_shut m)\<rparr>)"
| dropped: "mux_run T c0 m \<Longrightarrow>
    mux_run T c0 (m\<lparr>ms_conn := mux_stream_drop i (b, ms_conn m), ms_shut := insert i (ms_shut m)\<rparr>)"
| closed: "mux_run T c0 m \<Longrightarrow> connection_close T (ms_conn m) = (c, p) \<Longrightarrow> no_error p \<Longrightarrow> mux_run T c0 (m\<lparr>ms_conn := c\<rparr>)"

section \<open>Frames on the wire\<close>

definition payloads :: "u32 \<Rightarrow> frame list \<Rightarrow> bytes" where
  "payloads s fs = concat (map (\<lambda>(k, t, p). if k = FRAME_DATA \<and> t = s then p else []) fs)"

definition wire :: "frame list \<Rightarrow> bytes" where
  "wire fs = concat (map frame_bytes fs)"

lemma payloads_append [simp]: "payloads s (fs @ gs) = payloads s fs @ payloads s gs"
  by (simp add: payloads_def)

lemma payloads_simps [simp]:
  "payloads s [] = []"
  "payloads s ((k, t, p) # fs) = (if k = FRAME_DATA \<and> t = s then p else []) @ payloads s fs"
  by (simp_all add: payloads_def)

lemma wire_append [simp]: "wire (fs @ gs) = wire fs @ wire gs"
  by (simp add: wire_def)

lemma wire_simps [simp]: "wire [] = []" "wire (f # fs) = frame_bytes f @ wire fs"
  by (simp_all add: wire_def)

text \<open>A frame the multiplexer accepts from the wire.\<close>

definition frame_in :: "frame \<Rightarrow> bool" where
  "frame_in f \<longleftrightarrow> (case f of (k, t, p) \<Rightarrow> (k \<noteq> FRAME_DATA \<longrightarrow> p = []) \<and> length p < 2 ^ 32)"

lemma frame_ok_in: "frame_ok n f \<Longrightarrow> n < 2 ^ 32 \<Longrightarrow> frame_in f"
  by (auto simp: frame_ok_def frame_in_def split: if_splits)

definition header_bytes :: "byte \<Rightarrow> u32 \<Rightarrow> nat \<Rightarrow> bytes" where
  "header_bytes k t n = k # to_be 4 (unat t) @ to_be 4 n"

lemma frame_header: "frame_bytes (k, t, p) = header_bytes k t (length p) @ p"
  by (simp add: frame_bytes_def mux_frame_def header_bytes_def)

lemma header_length [simp]: "length (header_bytes k t n) = 9"
  by (simp add: header_bytes_def)

lemma from_be_to_be_4: "m < 2 ^ 32 \<Longrightarrow> from_be (to_be 4 m) = m"
  by (simp only: from_be_to_be) simp

lemma to_be_4_inj: "to_be 4 m = to_be 4 n \<Longrightarrow> m < 2 ^ 32 \<Longrightarrow> n < 2 ^ 32 \<Longrightarrow> m = n"
  by (metis from_be_to_be_4)

lemma header_inj:
  assumes "header_bytes k t n = header_bytes k' t' n'" and "n < 2 ^ 32" and "n' < 2 ^ 32"
  shows "k = k' \<and> t = t' \<and> n = n'"
proof -
  have "k = k'" "to_be 4 (unat t) = to_be 4 (unat t')" "to_be 4 n = to_be 4 n'"
    using assms(1) by (auto simp: header_bytes_def append_eq_append_conv)
  moreover have "unat t < 2 ^ 32" "unat t' < 2 ^ 32" using unsigned_less [of t, where 'a = nat] unsigned_less [of t', where 'a = nat] by simp_all
  ultimately show ?thesis using assms(2,3) to_be_4_inj by (metis word_unat_eq_iff)
qed

text \<open>The header of a frame at the front of the wire determines the frame.\<close>

lemma wire_front:
  assumes "prefix (header_bytes k t n @ rest) (wire fs)" and "n < 2 ^ 32" and "\<forall>f\<in>set fs. frame_in f"
  shows "\<exists>p fs'. fs = (k, t, p) # fs' \<and> length p = n \<and> prefix rest (p @ wire fs')"
proof (cases fs)
  case Nil
  with assms(1) show ?thesis by (simp add: header_bytes_def)
next
  case (Cons f fs')
  obtain k' t' p where f: "f = (k', t', p)" by (metis prod_cases3)
  from assms(1) obtain x where "header_bytes k' t' (length p) @ (p @ wire fs') = header_bytes k t n @ (rest @ x)"
    by (auto simp: Cons f frame_header prefix_def)
  then have "header_bytes k' t' (length p) = header_bytes k t n" "p @ wire fs' = rest @ x"
    by (simp_all add: append_eq_append_conv)
  moreover have "length p < 2 ^ 32" using assms(3) Cons f by (simp add: frame_in_def)
  ultimately show ?thesis using header_inj [OF _ _ assms(2)] Cons f by (metis prefixI)
qed

lemma wire_prefix:
  assumes "prefix (wire gs @ rest) (wire fs)" and "\<forall>f\<in>set gs. frame_in f" and "\<forall>f\<in>set fs. frame_in f"
  shows "\<exists>fs'. fs = gs @ fs' \<and> prefix rest (wire fs')"
  using assms
proof (induction gs arbitrary: fs)
  case Nil
  then show ?case by simp
next
  case (Cons g gs)
  obtain k t p where g: "g = (k, t, p)" by (metis prod_cases3)
  have "length p < 2 ^ 32" using Cons.prems(2) g by (simp add: frame_in_def)
  moreover have "prefix (header_bytes k t (length p) @ (p @ wire gs @ rest)) (wire fs)"
    using Cons.prems(1) by (simp add: g frame_header)
  ultimately obtain q fs1 where q: "fs = (k, t, q) # fs1" "length q = length p" "prefix (p @ wire gs @ rest) (q @ wire fs1)"
    using wire_front [OF _ _ Cons.prems(3)] by blast
  then have "q = p" "prefix (wire gs @ rest) (wire fs1)" by (auto simp: prefix_def append_eq_append_conv)
  with Cons.IH [of fs1] Cons.prems q(1) g show ?case by auto
qed

section \<open>The sending half\<close>

definition completed :: "'t connection \<Rightarrow> u32 \<Rightarrow> nat" where
  "completed c s = (case stream_get c s of None \<Rightarrow> 0 | Some st \<Rightarrow> ss_completed_write st)"

definition writes :: "'t connection \<Rightarrow> u32 \<Rightarrow> bool" where
  "writes c s \<longleftrightarrow> (\<exists>w. cn_write c = Some w \<and> pw_kind w = FRAME_DATA \<and> pw_stream w = s)"

definition in_flight :: "'t connection \<Rightarrow> u32 \<Rightarrow> nat" where
  "in_flight c s = (if writes c s then pw_accepted (the (cn_write c)) else completed c s)"

definition unsent :: "'t connection \<Rightarrow> bytes" where
  "unsent c = (case cn_write c of None \<Rightarrow> [] | Some w \<Rightarrow> drop (pw_offset w) (pw_bytes w))"

text \<open>After the end of a stream no data of it follows.\<close>

definition fin_last :: "frame list \<Rightarrow> bool" where
  "fin_last fs \<longleftrightarrow> (\<forall>xs ys s. fs = xs @ (FRAME_FIN, s, []) # ys \<longrightarrow> payloads s ys = [])"

definition send_inv ::
    "('t \<Rightarrow> bytes) \<Rightarrow> frame list \<Rightarrow> (u32 \<Rightarrow> bytes) \<Rightarrow> (u32 \<Rightarrow> bytes option) \<Rightarrow> u32 set \<Rightarrow> 't connection \<Rightarrow> bool" where
  "send_inv put fs acked offered shut c \<longleftrightarrow>
     (\<exists>io. cn_io c = Some io \<and> put io @ unsent c = wire fs)
     \<and> (\<forall>f\<in>set fs. frame_ok (cn_split_send_size c) f)
     \<and> (\<forall>s. \<exists>I. payloads s fs = acked s @ I \<and> length I = in_flight c s \<and> (I \<noteq> [] \<longrightarrow> (\<exists>d. offered s = Some d \<and> prefix I d)))
     \<and> (\<forall>s. writes c s \<longrightarrow> completed c s = 0 \<and> stream_get c s \<noteq> None)
     \<and> fin_last fs
     \<and> (\<forall>s. (FRAME_FIN, s, []) \<in> set fs \<or> (FRAME_FIN, s) \<in> set (cn_controls c) \<longrightarrow> s \<in> shut)"

text \<open>The part of a connection the sending half depends on.\<close>

definition same_send :: "('t \<Rightarrow> bytes) \<Rightarrow> 't connection \<Rightarrow> 't connection \<Rightarrow> bool" where
  "same_send put c c' \<longleftrightarrow> map_option put (cn_io c') = map_option put (cn_io c) \<and> cn_write c' = cn_write c
     \<and> completed c' = completed c \<and> (\<forall>s. stream_get c s \<noteq> None \<longrightarrow> stream_get c' s \<noteq> None)
     \<and> cn_controls c' = cn_controls c \<and> cn_split_send_size c' = cn_split_send_size c"

lemma same_send_refl: "same_send put c c"
  by (simp add: same_send_def)

lemma same_send_trans: "same_send put a b \<Longrightarrow> same_send put b c \<Longrightarrow> same_send put a c"
  by (auto simp: same_send_def)

lemma send_inv_same:
  assumes "send_inv put fs acked offered shut c" and "same_send put c c'"
  shows "send_inv put fs acked offered shut c'"
proof -
  have "writes c' = writes c" "in_flight c' = in_flight c" "unsent c' = unsent c"
    using assms(2) by (auto simp: same_send_def writes_def in_flight_def unsent_def fun_eq_iff)
  moreover have "\<exists>io. cn_io c' = Some io \<and> put io @ unsent c = wire fs"
    using assms by (auto simp: send_inv_def same_send_def)
  ultimately show ?thesis using assms by (simp add: send_inv_def same_send_def)
qed

lemma completed_put:
  assumes "stream_get c i = Some st"
  shows "completed (stream_put i st' c) = (completed c)(i := ss_completed_write st')"
  using assms by (auto simp: completed_def fun_eq_iff)

text \<open>The part of a connection the receiving half depends on.\<close>

definition stream_core :: "stream_state \<Rightarrow> bytes list \<times> nat \<times> bool" where
  "stream_core st = (ss_input st, ss_offset st, ss_eof st)"

definition same_recv :: "('t \<Rightarrow> bytes) \<Rightarrow> 't connection \<Rightarrow> 't connection \<Rightarrow> bool" where
  "same_recv got c c' \<longleftrightarrow> map_option got (cn_io c') = map_option got (cn_io c) \<and> cn_read_frame c' = cn_read_frame c
     \<and> cn_read_header c' = cn_read_header c \<and> cn_read_header_offset c' = cn_read_header_offset c
     \<and> (\<forall>s. map_option stream_core (stream_get c' s) = map_option stream_core (stream_get c s))"

lemma same_recv_refl: "same_recv got c c"
  by (simp add: same_recv_def)

lemma same_recv_trans: "same_recv got a b \<Longrightarrow> same_recv got b c \<Longrightarrow> same_recv got a c"
  by (simp add: same_recv_def)

lemma fin_last_snoc:
  assumes "fin_last fs" and "k = FRAME_DATA \<longrightarrow> (FRAME_FIN, t, []) \<notin> set fs"
  shows "fin_last (fs @ [(k, t, p)])"
  unfolding fin_last_def
proof (intro allI impI)
  fix xs ys s
  assume a: "fs @ [(k, t, p)] = xs @ (FRAME_FIN, s, []) # ys"
  show "payloads s ys = []"
  proof (cases ys rule: rev_cases)
    case Nil
    then show ?thesis by simp
  next
    case (snoc zs z)
    with a have "fs = xs @ (FRAME_FIN, s, []) # zs" "z = (k, t, p)" by auto
    with assms snoc show ?thesis by (auto simp: fin_last_def)
  qed
qed

lemma complete_write_core: "map_option stream_core (stream_get (complete_write w c) s) = map_option stream_core (stream_get c s)"
  by (auto simp: complete_write_def stream_get_def stream_put_def stream_core_def Let_def nth_list_update word_unat_eq_iff
      split: option.splits)

context duplex
begin

lemma flush_recv:
  assumes "conn_wf ok c" and "poll_flush_write T c = (c', r)"
  shows "same_recv got c c'"
proof (cases "cn_io c")
  case None
  with assms(2) show ?thesis by (auto simp: poll_flush_write_def same_recv_refl)
next
  case (Some io)
  have g: "stream_get (c\<lparr>cn_io := x, cn_write := y\<rparr>) = stream_get c" "stream_get (c\<lparr>cn_io := x\<rparr>) = stream_get c" for x y
    by (simp_all add: stream_get_def fun_eq_iff)
  from assms(1) Some assms(2) show ?thesis
    by (cases rule: poll_flush_write_cases) (simp_all add: same_recv_def Some g complete_write_core)
qed

lemma flush_send:
  assumes "conn_wf ok c" and "send_inv put fs acked offered shut c" and "poll_flush_write T c = (c', r)"
  shows "send_inv put fs acked offered shut c' \<and> in_flight c' = in_flight c"
proof -
  obtain io where io: "cn_io c = Some io" using assms(2) by (auto simp: send_inv_def)
  from assms(1) io assms(3) show ?thesis
  proof (cases rule: poll_flush_write_cases)
    case (idle io')
    then have "same_send put c c'" using io by (simp add: same_send_def completed_def stream_get_def fun_eq_iff)
    then show ?thesis using send_inv_same [OF assms(2)]
      by (auto simp: same_send_def in_flight_def writes_def fun_eq_iff)
  next
    case (part w io' off)
    have v: "completed c' = completed c" "writes c' = writes c" "in_flight c' = in_flight c"
      using part(1,2) by (auto simp: completed_def stream_get_def in_flight_def writes_def fun_eq_iff)
    have "put io' @ unsent c' = put io @ unsent c"
      using part by (simp add: unsent_def slice_def)
        (metis append_take_drop_id drop_drop le_add_diff_inverse2)
    then show ?thesis using v assms(2) io part(2) by (auto simp: send_inv_def stream_get_def)
  next
    case (whole w io')
    have wr: "writes c' = (\<lambda>s. False)" using whole(2) by (simp add: writes_def fun_eq_iff)
    have inv: "completed c (pw_stream w) = 0 \<and> stream_get c (pw_stream w) \<noteq> None" if "pw_kind w = FRAME_DATA"
      using assms(2) whole(1) that by (auto simp: send_inv_def writes_def)
    have cmp: "completed c' = (if pw_kind w = FRAME_DATA \<and> pw_accepted w \<noteq> 0 then (completed c)(pw_stream w := pw_accepted w) else completed c)"
      using inv unfolding whole(2) by (auto simp: complete_write_def completed_def stream_get_def stream_put_def Let_def
          nth_list_update word_unat_eq_iff fun_eq_iff split: option.splits)
    have fl: "in_flight c' = in_flight c"
      using inv whole(1) by (auto simp: in_flight_def wr cmp writes_def fun_eq_iff)
    have "stream_get c' s \<noteq> None \<longleftrightarrow> stream_get c s \<noteq> None" for s
      unfolding whole(2) by (auto simp: complete_write_def stream_get_def stream_put_def Let_def nth_list_update split: option.splits)
    moreover have "put io' @ unsent c' = put io @ unsent c" using whole by (simp add: unsent_def)
    ultimately show ?thesis using fl wr assms(2) io unfolding whole(2) by (auto simp: send_inv_def)
  qed
qed

end

lemma start_write_view [simp]:
  "completed (start_write k t p c) = completed c" "stream_get (start_write k t p c) s = stream_get c s"
  "writes (start_write k t p c) s \<longleftrightarrow> k = FRAME_DATA \<and> t = s"
  "unsent (start_write k t p c) = frame_bytes (k, t, p)"
  "in_flight (start_write k t p c) s = (if k = FRAME_DATA \<and> t = s then length p else completed c s)"
  by (auto simp: start_write_def completed_def stream_get_def writes_def unsent_def in_flight_def frame_bytes_def fun_eq_iff)

lemma idle_view: "cn_write c = None \<Longrightarrow> unsent c = [] \<and> in_flight c = completed c \<and> (\<forall>s. \<not> writes c s)"
  by (auto simp: unsent_def in_flight_def writes_def fun_eq_iff)

lemma start_control_send:
  assumes "send_inv put fs acked offered shut c" and "cn_write c = None" and "k = FRAME_OPEN \<or> k = FRAME_FIN \<and> t \<in> shut"
  shows "send_inv put (fs @ [(k, t, [])]) acked offered shut (start_write k t [] c)"
proof -
  note i = idle_view [OF assms(2)]
  have "fin_last (fs @ [(k, t, [])])" using assms(1,3) by (intro fin_last_snoc) (auto simp: send_inv_def)
  moreover have "k \<noteq> FRAME_DATA" "frame_ok (cn_split_send_size c) (k, t, [])" using assms(3) by (auto simp: frame_ok_def)
  ultimately show ?thesis using assms(1,3) i by (auto simp: send_inv_def)
qed

lemma start_data_send:
  assumes "send_inv put fs acked offered shut c" and "cn_write c = None" and "completed c s = 0"
    and "stream_get c s \<noteq> None" and "s \<notin> shut" and "frame_ok (cn_split_send_size c) (FRAME_DATA, s, p)" and "prefix p input"
  shows "send_inv put (fs @ [(FRAME_DATA, s, p)]) acked (offered(s := Some input)) shut (start_write FRAME_DATA s p c)"
proof -
  note i = idle_view [OF assms(2)]
  have "(FRAME_FIN, s, []) \<notin> set fs" using assms(1,5) by (auto simp: send_inv_def)
  then have "fin_last (fs @ [(FRAME_DATA, s, p)])" using assms(1) by (intro fin_last_snoc) (auto simp: send_inv_def)
  moreover have "\<exists>I. payloads t (fs @ [(FRAME_DATA, s, p)]) = acked t @ I
      \<and> length I = in_flight (start_write FRAME_DATA s p c) t \<and> (I \<noteq> [] \<longrightarrow> (\<exists>d. (offered(s := Some input)) t = Some d \<and> prefix I d))" for t
  proof -
    from assms(1) obtain I where I: "payloads t fs = acked t @ I" "length I = in_flight c t"
      "I \<noteq> [] \<longrightarrow> (\<exists>d. offered t = Some d \<and> prefix I d)" unfolding send_inv_def by blast
    then show ?thesis using assms(3,7) i by (cases "t = s") auto
  qed
  ultimately show ?thesis using assms i by (simp add: send_inv_def)
qed

lemma send_inv_offer:
  assumes "send_inv put fs acked offered shut c" and "in_flight c s = 0 \<or> offered s = Some d"
  shows "send_inv put fs acked (offered(s := Some d)) shut c"
proof -
  have "\<exists>I. payloads t fs = acked t @ I \<and> length I = in_flight c t \<and> (I \<noteq> [] \<longrightarrow> (\<exists>x. (offered(s := Some d)) t = Some x \<and> prefix I x))" for t
  proof -
    from assms(1) obtain I where "payloads t fs = acked t @ I" "length I = in_flight c t"
      "I \<noteq> [] \<longrightarrow> (\<exists>x. offered t = Some x \<and> prefix I x)" unfolding send_inv_def by blast
    then show ?thesis using assms(2) by (cases "t = s") auto
  qed
  then show ?thesis using assms(1) by (simp add: send_inv_def)
qed

text \<open>The writer of a stream is told about its bytes: the account of the stream is cleared.\<close>

lemma send_inv_ack:
  assumes "send_inv put fs acked offered shut c" and "in_flight c s = n" and "0 < n" and "\<not> writes c s"
    and "stream_get c s = Some st" and "offered s = Some input"
  shows "send_inv put fs (acked(s := acked s @ take n input)) (offered(s := None)) shut
           (stream_put s (st\<lparr>ss_completed_write := 0\<rparr>) c)"
proof -
  let ?c = "stream_put s (st\<lparr>ss_completed_write := 0\<rparr>) c"
  have v: "writes ?c = writes c" "unsent ?c = unsent c" "completed ?c = (completed c)(s := 0)"
    using completed_put [OF assms(5)] by (auto simp: writes_def unsent_def fun_eq_iff)
  have fl: "in_flight ?c = (in_flight c)(s := 0)" using assms(4) by (auto simp: in_flight_def v fun_eq_iff)
  have "\<exists>I. payloads t fs = (acked(s := acked s @ take n input)) t @ I \<and> length I = ((in_flight c)(s := 0)) t
      \<and> (I \<noteq> [] \<longrightarrow> (\<exists>d. (offered(s := None)) t = Some d \<and> prefix I d))" for t
  proof -
    from assms(1) obtain I where I: "payloads t fs = acked t @ I" "length I = in_flight c t"
      "I \<noteq> [] \<longrightarrow> (\<exists>d. offered t = Some d \<and> prefix I d)" unfolding send_inv_def by blast
    have "take n input = I" if "t = s" using I assms(2,3,6) that by (auto simp: prefix_def)
    with I show ?thesis by (cases "t = s") auto
  qed
  then show ?thesis using assms(1,5) v fl by (simp add: send_inv_def)
qed

lemma send_inv_clear:
  assumes "send_inv put fs acked offered shut c" and "stream_get c s = Some st" and "completed c s = 0"
  shows "send_inv put fs acked offered shut (stream_put s (st\<lparr>ss_completed_write := 0\<rparr>) c)"
proof -
  have "completed (stream_put s (st\<lparr>ss_completed_write := 0\<rparr>) c) = completed c"
    using completed_put [OF assms(2)] assms(3) by (auto simp: fun_eq_iff)
  then show ?thesis using assms(2) by (intro send_inv_same [OF assms(1)]) (simp add: same_send_def)
qed

lemma start_queued_control_send:
  assumes "send_inv put fs acked offered shut c" and "conn_wf ok c"
  shows "\<exists>fs'. send_inv put fs' acked offered shut (start_queued_control c) \<and> in_flight (start_queued_control c) = in_flight c"
proof (cases "cn_write c = None \<and> cn_controls c \<noteq> []")
  case True
  then obtain k t rest where ctl: "cn_controls c = (k, t) # rest" by (metis list.exhaust prod.exhaust)
  have k: "k = FRAME_OPEN \<or> k = FRAME_FIN \<and> t \<in> shut" using assms ctl by (auto simp: conn_wf_def send_inv_def)
  have v: "completed (c\<lparr>cn_controls := rest\<rparr>) = completed c" "unsent (c\<lparr>cn_controls := rest\<rparr>) = unsent c"
    "writes (c\<lparr>cn_controls := rest\<rparr>) = writes c" "in_flight (c\<lparr>cn_controls := rest\<rparr>) = in_flight c"
    "stream_get (c\<lparr>cn_controls := rest\<rparr>) = stream_get c"
    by (auto simp: completed_def stream_get_def unsent_def writes_def in_flight_def fun_eq_iff)
  have "send_inv put fs acked offered shut (c\<lparr>cn_controls := rest\<rparr>)" using assms(1) ctl v by (auto simp: send_inv_def)
  from start_control_send [OF this _ k] True k v idle_view [of c] show ?thesis
    by (auto simp: start_queued_control_def ctl fun_eq_iff)
next
  case False
  with assms(1) show ?thesis by (auto simp: start_queued_control_def split: list.split)
qed

text \<open>What an operation leaves of the sending half, for some frames on the wire.\<close>

definition sends :: "('t \<Rightarrow> bytes) \<Rightarrow> 't connection \<Rightarrow> 't mux_state \<Rightarrow> bool" where
  "sends put c m \<longleftrightarrow> (\<exists>fs. send_inv put fs (ms_acked m) (ms_offered m) (ms_shut m) c)"

lemma sends_same: "sends put c m \<Longrightarrow> same_send put c c' \<Longrightarrow> sends put c' m"
  unfolding sends_def by (blast intro: send_inv_same)

lemma send_inv_stream: "send_inv put fs acked offered shut c \<Longrightarrow> writes c s \<Longrightarrow> completed c s = 0"
  by (simp add: send_inv_def)

context duplex
begin

lemma poll_control_send:
  assumes "conn_wf ok c" and "sends put c m" and "k = FRAME_OPEN \<or> k = FRAME_FIN \<and> t \<in> ms_shut m"
    and "poll_control T k t c = (c', r)"
  shows "sends put c' m"
proof -
  obtain fs where fs: "send_inv put fs (ms_acked m) (ms_offered m) (ms_shut m) c" using assms(2) by (auto simp: sends_def)
  have kk: "k = FRAME_OPEN \<or> k = FRAME_FIN" using assms(3) by blast
  have start: "sends put c' m"
    if "conn_wf ok d" "send_inv put fs (ms_acked m) (ms_offered m) (ms_shut m) d"
      "poll_flush_write T (if cn_write d = None then start_write k t [] d else d) = (c', r)" for d
  proof (cases "cn_write d = None")
    case True
    have "conn_wf ok (start_write k t [] d)" using that(1) kk by (intro start_write_wf control_frame_ok)
    from flush_send [OF this start_control_send [OF that(2) True assms(3)]] that(3) True show ?thesis
      by (auto simp: sends_def)
  next
    case False
    with flush_send [OF that(1,2)] that(3) show ?thesis by (auto simp: sends_def)
  qed
  show ?thesis
  proof (cases "cn_write c")
    case None
    with assms(4) have "poll_flush_write T (if cn_write c = None then start_write k t [] c else c) = (c', r)"
      by (simp add: poll_control_def Let_def)
    from start [OF assms(1) fs this] show ?thesis .
  next
    case (Some w)
    obtain c1 q where f: "poll_flush_write T c = (c1, q)" by fastforce
    have n: "conn_wf ok c1" using poll_flush_write_next [OF assms(1) f] conn_next_wf by blast
    have i: "send_inv put fs (ms_acked m) (ms_offered m) (ms_shut m) c1" using flush_send [OF assms(1) fs f] by blast
    consider "c' = c1" | "poll_flush_write T (if cn_write c1 = None then start_write k t [] c1 else c1) = (c', r)"
      using assms(4) Some f by (auto simp: poll_control_def Let_def split: if_splits)
    then show ?thesis using i start [OF n i] by cases (auto simp: sends_def)
  qed
qed

text \<open>A frame of the stream is being written; flushing it either reports it or leaves it in flight.\<close>

lemma flush_own_send:
  assumes "conn_wf ok c" and "send_inv put fs (ms_acked m) (ms_offered m) (ms_shut m) c" and "writes c s"
    and "ms_offered m s = Some input" and "flush_own T s (in_flight c s) c = (c', p)" and "no_error p"
  shows "sends put c' (note_write s input p m)"
proof -
  obtain c1 r where f: "poll_flush_write T c = (c1, r)" by fastforce
  have i: "send_inv put fs (ms_acked m) (ms_offered m) (ms_shut m) c1" "in_flight c1 = in_flight c"
    using flush_send [OF assms(1,2) f] by auto
  show ?thesis
  proof (cases "r = Ready (Inr ())")
    case True
    obtain w where w: "cn_write c = Some w" "pw_kind w = FRAME_DATA" "pw_stream w = s" using assms(3) by (auto simp: writes_def)
    have pos: "0 < in_flight c s" using assms(1,3) w by (auto simp: in_flight_def conn_wf_def write_wf_def frame_ok_def)
    have nw: "\<not> writes c1 s" using poll_flush_write_done [OF assms(1)] f True by (simp add: writes_def)
    have "completed c1 s \<noteq> 0" using pos nw i(2) by (simp add: in_flight_def fun_eq_iff) metis
    then obtain st where st: "stream_get c1 s = Some st" by (auto simp: completed_def split: option.splits)
    have "c' = stream_put s (st\<lparr>ss_completed_write := 0\<rparr>) c1" "p = Ready (Inr (in_flight c s))"
      using assms(5) f True st by (auto simp: flush_own_def)
    with send_inv_ack [OF i(1) _ pos nw st assms(4)] i(2) show ?thesis
      by (auto simp: note_write_def sends_def)
  next
    case False
    then have "c' = c1 \<and> p = Pending"
      using assms(5,6) f poll_flush_write_next [OF assms(1) f] by (auto simp: flush_own_def split: poll.splits sum.splits)
    with i(1) assms(4) show ?thesis by (auto simp: note_write_def sends_def fun_upd_idem)
  qed
qed

lemma start_data_sends:
  assumes "conn_wf ok c" and "send_inv put fs (ms_acked m) (ms_offered m) (ms_shut m) c" and "cn_write c = None"
    and "completed c s = 0" and "stream_get c s \<noteq> None" and "s \<notin> ms_shut m" and "input \<noteq> []"
    and "start_data T s input c = (c', p)" and "no_error p"
  shows "sends put c' (note_write s input p m)"
proof -
  let ?P = "take (min (length input) (cn_split_send_size c)) input"
  let ?c = "start_write FRAME_DATA s ?P c"
  define m' where "m' = m\<lparr>ms_offered := (ms_offered m)(s := Some input)\<rparr>"
  have ok1: "frame_ok (cn_split_send_size c) (FRAME_DATA, s, ?P)" using assms(1,7) by (simp add: frame_ok_def conn_wf_def)
  have w: "conn_wf ok ?c" by (rule start_write_wf [OF assms(1) ok1])
  have i: "send_inv put (fs @ [(FRAME_DATA, s, ?P)]) (ms_acked m') (ms_offered m') (ms_shut m') ?c"
    using start_data_send [OF assms(2-6) ok1 take_is_prefix] by (simp add: m'_def)
  have fl: "in_flight ?c s = min (length input) (cn_split_send_size c)" by simp
  have "flush_own T s (in_flight ?c s) ?c = (c', p)" using assms(8) unfolding fl start_data_def Let_def .
  from flush_own_send [OF w i _ _ this assms(9)] have "sends put c' (note_write s input p m')" by (simp add: m'_def)
  then show ?thesis by (auto simp: m'_def note_write_def sends_def split: poll.splits sum.splits)
qed

lemma poll_data_send:
  assumes "conn_wf ok c" and "sends put c m" and "stream_get c s \<noteq> None" and "s \<notin> ms_shut m" and "input \<noteq> []"
    and "ms_offered m s = None \<or> ms_offered m s = Some input" and "poll_data T s input c = (c', p)" and "no_error p"
  shows "sends put c' (note_write s input p m)"
proof -
  obtain fs where fs: "send_inv put fs (ms_acked m) (ms_offered m) (ms_shut m) c" using assms(2) by (auto simp: sends_def)
  obtain st where st: "stream_get c s = Some st" using assms(3) by blast
  have a: "completed c s = ss_completed_write st" by (simp add: completed_def st)
  have off: "ms_offered m s = Some input" if "0 < in_flight c s"
  proof -
    from fs obtain I where "length I = in_flight c s" "I \<noteq> [] \<longrightarrow> (\<exists>d. ms_offered m s = Some d \<and> prefix I d)"
      unfolding send_inv_def by blast
    with that assms(6) show ?thesis by auto
  qed
  define c1 where "c1 = stream_put s (st\<lparr>ss_completed_write := 0\<rparr>) c"
  have open_c: "\<not> cn_closed c" using assms(7,8) by (auto simp: poll_data_def)
  show ?thesis
  proof (cases "completed c s = 0")
    case False
    then have nw: "\<not> writes c s" using send_inv_stream [OF fs, of s] by auto
    then have fl: "in_flight c s = completed c s" by (simp add: in_flight_def)
    have "poll_data T s input c = (c1, Ready (Inr (completed c s)))"
      using assms(5) False open_c st a by (simp add: poll_data_def c1_def Let_def)
    with assms(7) have "c' = c1" "p = Ready (Inr (completed c s))" by simp_all
    with send_inv_ack [OF fs fl _ nw st] off fl False show ?thesis by (auto simp: note_write_def sends_def c1_def)
  next
    case True
    have n1: "conn_wf ok c1" using clear_completed_next [OF assms(1) st] conn_next_wf by (auto simp: c1_def)
    have i1: "send_inv put fs (ms_acked m) (ms_offered m) (ms_shut m) c1"
      unfolding c1_def by (rule send_inv_clear [OF fs st True])
    define c2 where "c2 = start_queued_control c1"
    obtain fs2 where i2: "send_inv put fs2 (ms_acked m) (ms_offered m) (ms_shut m) c2" "in_flight c2 = in_flight c1"
      using start_queued_control_send [OF i1 n1] by (auto simp: c2_def)
    have n2: "conn_wf ok c2" using start_queued_control_wf [OF n1] by (simp add: c2_def)
    have "stream_get c2 s = Some (st\<lparr>ss_completed_write := 0\<rparr>)"
      using stream_get_put [OF st, of "st\<lparr>ss_completed_write := 0\<rparr>" s] by (simp add: c2_def c1_def stream_get_def split: if_splits)
    then have g2: "stream_get c2 s \<noteq> None" "completed c2 s = 0" by (simp_all add: completed_def)
    have f0: "in_flight c1 s = in_flight c s" using st a True by (auto simp: in_flight_def writes_def c1_def completed_put)
    obtain c3 q where f: "poll_flush_write T c2 = (c3, q)" by fastforce
    have i3: "send_inv put fs2 (ms_acked m) (ms_offered m) (ms_shut m) c3" "in_flight c3 = in_flight c2"
      using flush_send [OF n2 i2(1) f] by auto
    have n3: "conn_wf ok c3" "q \<noteq> Panicked" using poll_flush_write_next [OF n2 f] conn_next_wf by auto
    have eq: "poll_data T s input c = (case cn_write c2 of None \<Rightarrow> start_data T s input c2
       | Some w \<Rightarrow> if pw_kind w = FRAME_DATA \<and> pw_stream w = s then flush_own T s (pw_accepted w) c2
           else (case q of Ready (Inr _) \<Rightarrow> start_data T s input c3 | Ready (Inl error) \<Rightarrow> (c3, Ready (Inl error))
             | Pending \<Rightarrow> (c3, Pending) | Panicked \<Rightarrow> (c3, Panicked)))"
      using open_c assms(5) st a True f
      by (simp add: poll_data_def c1_def [symmetric] c2_def [symmetric] Let_def split: option.split)
    consider (idle) "cn_write c2 = None" | (own) "writes c2 s" | (other) "cn_write c2 \<noteq> None" "\<not> writes c2 s" by blast
    then show ?thesis
    proof cases
      case idle
      with eq assms(7) have "start_data T s input c2 = (c', p)" by simp
      from start_data_sends [OF n2 i2(1) idle g2(2,1) assms(4,5) this assms(8)] show ?thesis .
    next
      case own
      then obtain w where w: "cn_write c2 = Some w" "pw_kind w = FRAME_DATA" "pw_stream w = s" by (auto simp: writes_def)
      have "0 < in_flight c2 s" using n2 own w by (auto simp: in_flight_def conn_wf_def write_wf_def frame_ok_def)
      then have o: "ms_offered m s = Some input" using off i2(2) f0 by simp
      have "flush_own T s (in_flight c2 s) c2 = (c', p)" using eq assms(7) own w by (simp add: in_flight_def)
      from flush_own_send [OF n2 i2(1) own o this assms(8)] show ?thesis .
    next
      case other
      then have z: "in_flight c2 s = 0" using g2(2) by (simp add: in_flight_def)
      show ?thesis
      proof (cases "q = Ready (Inr ())")
        case True
        have w3: "cn_write c3 = None" using poll_flush_write_done [OF n2] f True by simp
        have "completed c3 s = 0" using idle_view [OF w3] i3(2) z by (simp add: fun_eq_iff)
        moreover have "stream_get c3 s \<noteq> None" using flush_recv [OF n2 f] g2(1)
          by (metis same_recv_def option.map_disc_iff)
        moreover have "start_data T s input c3 = (c', p)"
          using eq assms(7) other True by (auto simp: writes_def)
        ultimately show ?thesis using start_data_sends [OF n3(1) i3(1) w3 _ _ assms(4,5) _ assms(8)] by blast
      next
        case False
        then have "c' = c3 \<and> p = Pending"
          using eq assms(7,8) other n3(2) by (auto simp: writes_def split: poll.splits sum.splits)
        with send_inv_offer [OF i3(1), of s input] i3(2) z show ?thesis by (auto simp: note_write_def sends_def)
      qed
    qed
  qed
qed

end

section \<open>The receiving half\<close>

definition no_empty :: "frame list \<Rightarrow> bool" where
  "no_empty fs \<longleftrightarrow> (\<forall>(k, t, p)\<in>set fs. k = FRAME_DATA \<longrightarrow> p \<noteq> [])"

definition buf :: "'t connection \<Rightarrow> u32 \<Rightarrow> bytes" where
  "buf c s = (case stream_get c s of None \<Rightarrow> [] | Some st \<Rightarrow> buffered st)"

definition consumed :: "'t connection \<Rightarrow> nat" where
  "consumed c = (case cn_read_frame c of None \<Rightarrow> 0 | Some fr \<Rightarrow> pr_wire_consumed fr)"

definition frame_header_bytes :: "pending_read \<Rightarrow> bytes" where
  "frame_header_bytes fr = header_bytes (pr_kind fr) (pr_stream fr) (pr_length fr)"

text \<open>The bytes of the frame that is being read; \<open>W\<close> are those its reader took from the wire.\<close>

definition partial :: "'t connection \<Rightarrow> bytes \<Rightarrow> bytes" where
  "partial c W = (case cn_read_frame c of
     None \<Rightarrow> take (cn_read_header_offset c) (cn_read_header c)
   | Some fr \<Rightarrow> frame_header_bytes fr @ W @ take (pr_buffer_offset fr) (pr_bytes fr))"

definition progress :: "'t connection \<Rightarrow> bytes \<Rightarrow> u32 \<Rightarrow> bytes" where
  "progress c W s = (case cn_read_frame c of
     None \<Rightarrow> [] | Some fr \<Rightarrow> if pr_kind fr = FRAME_DATA \<and> pr_stream fr = s then W else [])"

definition reading_ok :: "'t connection \<Rightarrow> bool" where
  "reading_ok c \<longleftrightarrow> (\<forall>fr. cn_read_frame c = Some fr \<longrightarrow> pr_length fr < 2 ^ 32 \<and> cn_read_header_offset c = 0
     \<and> (pr_wire_consumed fr < pr_length fr \<or> pr_length fr = 0))"

definition in_order :: "frame list \<Rightarrow> (u32 \<Rightarrow> bytes) \<Rightarrow> 't connection \<Rightarrow> bytes \<Rightarrow> bool" where
  "in_order gs D c W \<longleftrightarrow> (\<forall>s. D s @ buf c s = payloads s gs @ progress c W s)
     \<and> (\<forall>s st. stream_get c s = Some st \<longrightarrow> [] \<notin> set (ss_input st))"

definition recv_inv :: "('t \<Rightarrow> bytes) \<Rightarrow> frame list \<Rightarrow> (u32 \<Rightarrow> bytes) \<Rightarrow> 't connection \<Rightarrow> bool" where
  "recv_inv got gs D c \<longleftrightarrow>
     (\<forall>f\<in>set gs. frame_in f) \<and> reading_ok c
     \<and> (\<forall>s st. stream_get c s = Some st \<longrightarrow> ss_eof st \<longrightarrow> (FRAME_FIN, s, []) \<in> set gs)
     \<and> (\<exists>io W. cn_io c = Some io \<and> got io = wire gs @ partial c W \<and> length W = consumed c
          \<and> (no_empty gs \<longrightarrow> in_order gs D c W))"

lemma recv_invI:
  assumes "\<forall>f\<in>set gs. frame_in f" and "reading_ok c"
    and "\<forall>s st. stream_get c s = Some st \<longrightarrow> ss_eof st \<longrightarrow> (FRAME_FIN, s, []) \<in> set gs"
    and "cn_io c = Some io" and "got io = wire gs @ partial c W" and "length W = consumed c"
    and "no_empty gs \<longrightarrow> in_order gs D c W"
  shows "recv_inv got gs D c"
  using assms unfolding recv_inv_def by blast

lemma recv_inv_chunks:
  assumes "recv_inv got gs D c" and "no_empty gs" and "stream_get c i = Some st"
  shows "[] \<notin> set (ss_input st)"
  using assms unfolding recv_inv_def in_order_def by blast

lemma core_stream:
  assumes "map_option stream_core (stream_get c' s) = map_option stream_core (stream_get c s)"
  shows "buf c' s = buf c s"
    and "stream_get c' s = Some st' \<Longrightarrow> \<exists>st. stream_get c s = Some st \<and> ss_input st' = ss_input st \<and> ss_eof st' = ss_eof st"
  using assms by (cases "stream_get c s"; cases "stream_get c' s"; simp add: buf_def stream_core_def buffered_def)+

lemma recv_inv_same:
  assumes "recv_inv got gs D c" and "same_recv got c c'"
  shows "recv_inv got gs D c'"
proof -
  have s: "map_option stream_core (stream_get c' s) = map_option stream_core (stream_get c s)" for s
    using assms(2) by (simp add: same_recv_def)
  have v: "buf c' s = buf c s" "partial c' W = partial c W" "progress c' W s = progress c W s" "consumed c' = consumed c"
      "reading_ok c' = reading_ok c" for s W
    using assms(2) core_stream(1) [OF s]
    by (auto simp: same_recv_def partial_def progress_def consumed_def reading_ok_def split: option.splits)
  from assms(1) obtain io W where io: "cn_io c = Some io" "got io = wire gs @ partial c W" "length W = consumed c"
      "no_empty gs \<longrightarrow> in_order gs D c W" by (auto simp: recv_inv_def)
  obtain io' where "cn_io c' = Some io'" "got io' = got io" using assms(2) io(1) by (auto simp: same_recv_def)
  moreover have "in_order gs D c' W" if "in_order gs D c W"
    using that core_stream(2) [OF s] unfolding in_order_def v by metis
  moreover have "(FRAME_FIN, s, []) \<in> set gs" if "stream_get c' s = Some st" "ss_eof st" for s st
    using core_stream(2) [OF s that(1)] that(2) assms(1) by (auto simp: recv_inv_def)
  ultimately show ?thesis using assms(1) io v unfolding recv_inv_def by metis
qed

lemma filled_take:
  assumes "filled ok got put b off io (b', off', io', r)"
  shows "take off' b' = take off b @ slice b' off off'" and "got io' = got io @ slice b' off off'"
proof -
  have "off \<le> off'" "take off b' = take off b" "got io' = got io @ slice b' off off'" using assms by (simp_all add: filled_def)
  moreover from \<open>off \<le> off'\<close> have "take off' b' = take off b' @ slice b' off off'"
    by (metis slice_def le_add_diff_inverse take_add)
  ultimately show "take off' b' = take off b @ slice b' off off'" "got io' = got io @ slice b' off off'" by simp_all
qed

lemma new_frame_header:
  assumes "length hdr = 9"
  shows "frame_header_bytes (new_frame hdr) = hdr"
proof -
  have l: "length (slice hdr 1 5) = 4" "length (slice hdr 5 9) = 4" using assms by simp_all
  have "hdr = hdr ! 0 # slice hdr 1 5 @ slice hdr 5 9"
    using assms by (cases hdr) (auto simp: slice_def append_take_drop_id [of 4, symmetric] simp del: append_take_drop_id)
  then show ?thesis
    using to_be_u32_from_be [OF l(1)] to_be_from_be [of 4 "slice hdr 5 9"] l
    by (simp add: frame_header_bytes_def header_bytes_def new_frame_def)
qed

lemma stream_get_upd [simp]:
  "stream_get (c\<lparr>cn_io := a\<rparr>) = stream_get c" "stream_get (c\<lparr>cn_read_header := b\<rparr>) = stream_get c"
  "stream_get (c\<lparr>cn_read_header_offset := n\<rparr>) = stream_get c" "stream_get (c\<lparr>cn_closed := d\<rparr>) = stream_get c"
  "stream_get (c\<lparr>cn_read_frame := f\<rparr>) = stream_get c" "stream_get (c\<lparr>cn_spare_reads := e\<rparr>) = stream_get c"
  "stream_get (c\<lparr>cn_received_bytes := n\<rparr>) = stream_get c" "stream_get (c\<lparr>cn_inbound := g\<rparr>) = stream_get c"
  "stream_get (c\<lparr>cn_controls := h\<rparr>) = stream_get c" "stream_get (c\<lparr>cn_next_stream := k\<rparr>) = stream_get c"
  by (simp_all add: stream_get_def fun_eq_iff)

lemma same_send_streams:
  assumes "map_option put (cn_io c') = map_option put (cn_io c)" and "cn_write c' = cn_write c"
    and "stream_get c' = stream_get c" and "cn_controls c' = cn_controls c" and "cn_split_send_size c' = cn_split_send_size c"
  shows "same_send put c c'"
  using assms by (simp add: same_send_def completed_def fun_eq_iff)

lemma buf_streams: "stream_get c' = stream_get c \<Longrightarrow> buf c' = buf c"
  by (simp add: buf_def fun_eq_iff)

context duplex
begin

lemma prepare_recv:
  assumes "conn_wf ok c" and "recv_inv got gs D c" and "poll_prepare_frame T c = (c', r)" and "no_error r"
  shows "recv_inv got gs D c' \<and> same_send put c c' \<and> stream_get c' = stream_get c"
proof -
  from assms(2) obtain io W where io: "cn_io c = Some io" "got io = wire gs @ partial c W" "length W = consumed c"
      "no_empty gs \<longrightarrow> in_order gs D c W" and rest: "\<forall>f\<in>set gs. frame_in f" "reading_ok c"
      "\<forall>s st. stream_get c s = Some st \<longrightarrow> ss_eof st \<longrightarrow> (FRAME_FIN, s, []) \<in> set gs"
    by (auto simp: recv_inv_def)
  have len: "length (cn_read_header c) = 9" using assms(1) by (simp add: conn_wf_def MUX_HEADER_BYTES_def)
  from assms(1,3) show ?thesis
  proof (cases rule: poll_prepare_frame_cases)
    case (present fr)
    with assms(2) show ?thesis by (simp add: same_send_refl)
  next
    case gone
    with io show ?thesis by simp
  next
    case (partly io0 hdr off io' closed q)
    have W: "W = []" using io(3) partly(1) by (simp add: consumed_def)
    have "io0 = io" using partly(2) io(1) by simp
    note t = filled_take [OF partly(3)]
    have p: "partial c' [] = partial c [] @ slice hdr (cn_read_header_offset c) off"
      using partly(1,5) t(1) by (simp add: partial_def)
    have "stream_get c' = stream_get c" using partly(5) by simp
    moreover from this have "in_order gs D c' W" if "in_order gs D c W"
      using that partly(1,5) buf_streams [of c' c] by (simp add: in_order_def progress_def)
    moreover have "same_send put c c'" using partly io(1) by (intro same_send_streams) (auto simp: filled_def)
    ultimately show ?thesis
      using io rest partly(1,5) t(2) p W \<open>io0 = io\<close> by (auto simp: recv_inv_def reading_ok_def consumed_def)
  next
    case (begun io0 hdr io')
    have W: "W = []" using io(3) begun(1) by (simp add: consumed_def)
    have "io0 = io" using begun(2) io(1) by simp
    note t = filled_take [OF begun(3)]
    have hl: "length hdr = 9" using begun(3) len by (simp add: filled_def)
    have p: "partial c' [] = partial c [] @ slice hdr (cn_read_header_offset c) MUX_HEADER_BYTES"
      using begun(1,4) t(1) new_frame_header [OF hl] hl by (simp add: partial_def new_frame_def MUX_HEADER_BYTES_def)
    have "length (slice hdr 5 9) = 4" using hl by simp
    then have small: "from_be (slice hdr 5 9) < 2 ^ 32" using from_be_less [of "slice hdr 5 9"] by simp
    have "stream_get c' = stream_get c" using begun(4) by simp
    moreover from this have "in_order gs D c' W" if "in_order gs D c W"
      using that begun(1,4) buf_streams [of c' c] W by (simp add: in_order_def progress_def)
    moreover have "same_send put c c'" using begun io(1) by (intro same_send_streams) (auto simp: filled_def)
    moreover have "reading_ok c'" using begun(4) small by (auto simp: reading_ok_def new_frame_def)
    ultimately show ?thesis
      using io rest begun(1,4) t(2) p W \<open>io0 = io\<close> by (auto simp: recv_inv_def consumed_def new_frame_def)
  next
    case (bad io hdr io' e)
    with assms(4) show ?thesis by simp
  qed
qed

end

text \<open>A stream that is inserted is empty, at the end of neither half.\<close>

lemma insert_stream_views:
  assumes "insert_stream i c = Inr c'"
  shows "same_send put c c'" and "buf c' = buf c"
    and "stream_get c' s = Some st \<Longrightarrow> stream_get c s = Some st \<or> ss_input st = [] \<and> \<not> ss_eof st"
    and "cn_io c' = cn_io c" and "cn_read_frame c' = cn_read_frame c"
    and "cn_read_header c' = cn_read_header c" and "cn_read_header_offset c' = cn_read_header_offset c"
proof -
  let ?g = "cn_streams c @ replicate (unat i + 1 - length (cn_streams c)) None"
  have none: "stream_get c i = None" and c': "c' = c\<lparr>cn_streams := ?g[unat i := Some stream_fresh]\<rparr>"
    using assms by (auto simp: insert_stream_def Let_def split: if_splits)
  have g: "stream_get c' s = (if s = i then Some stream_fresh else stream_get c s)" for s
    unfolding c' by (auto simp: stream_get_def nth_list_update nth_append word_unat_eq_iff)
  have "completed c' = completed c" using none by (auto simp: completed_def g stream_fresh_def fun_eq_iff)
  then show "same_send put c c'" using none g by (auto simp: same_send_def c')
  show "buf c' = buf c" using none by (auto simp: buf_def g stream_fresh_def buffered_def fun_eq_iff)
  show "stream_get c' s = Some st \<Longrightarrow> stream_get c s = Some st \<or> ss_input st = [] \<and> \<not> ss_eof st"
    by (auto simp: g stream_fresh_def split: if_splits)
qed (use assms in \<open>auto simp: insert_stream_def Let_def split: if_splits\<close>)

lemma same_send_put:
  assumes "stream_get c i = Some st" and "ss_completed_write st' = ss_completed_write st"
  shows "same_send put c (stream_put i st' c)"
proof -
  have "completed (stream_put i st' c) = completed c"
    using completed_put [OF assms(1)] assms by (auto simp: completed_def fun_eq_iff)
  then show ?thesis using assms(1) by (simp add: same_send_def)
qed

lemma buf_put: "stream_get c i = Some st \<Longrightarrow> buf (stream_put i st' c) = (buf c)(i := buffered st')"
  by (auto simp: buf_def fun_eq_iff)

text \<open>
  A frame is complete: its header and all its payload are on the wire, and the stream it names has
  been inserted, extended or ended.
\<close>

lemma finish_recv:
  assumes "recv_inv got gs D c" and "cn_read_frame c = Some fr" and "cn_io c = Some io"
    and "got io = wire gs @ frame_header_bytes fr @ W @ take (pr_buffer_offset fr) (pr_bytes fr)" and "length W = pr_wire_consumed fr"
    and "no_empty gs \<longrightarrow> in_order gs D c W"
    and "conn_wf ok c" and "length bs = pr_length fr - pr_wire_consumed fr" and "pr_wire_consumed fr \<le> pr_length fr"
    and "got io' = wire gs @ frame_header_bytes fr @ W @ bs" and "put io' = put io"
    and "pr_kind fr \<noteq> FRAME_DATA \<longrightarrow> pr_length fr = 0"
    and "finish_frame (fr\<lparr>pr_bytes := bs, pr_buffer_offset := n\<rparr>) (c\<lparr>cn_io := Some io', cn_read_frame := None\<rparr>) = (c', r)"
    and "no_error r" and "r \<noteq> Panicked"
  shows "recv_inv got (gs @ [(pr_kind fr, pr_stream fr, W @ bs)]) D c' \<and> same_send put c c'"
proof -
  let ?k = "pr_kind fr" and ?t = "pr_stream fr" and ?c = "c\<lparr>cn_io := Some io', cn_read_frame := None\<rparr>"
  let ?gs = "gs @ [(?k, ?t, W @ bs)]"
  have r0: "\<forall>f\<in>set gs. frame_in f" "reading_ok c"
      "\<forall>s st. stream_get c s = Some st \<longrightarrow> ss_eof st \<longrightarrow> (FRAME_FIN, s, []) \<in> set gs"
    using assms(1) by (auto simp: recv_inv_def)
  have ro: "pr_length fr < 2 ^ 32" "cn_read_header_offset c = 0" "pr_wire_consumed fr < pr_length fr \<or> pr_length fr = 0"
    using r0(2) assms(2) by (auto simp: reading_ok_def)
  have lw: "length (W @ bs) = pr_length fr" using assms(5,8,9) by simp
  have fin: "\<forall>f\<in>set ?gs. frame_in f" using r0(1) lw ro(1) assms(12) by (auto simp: frame_in_def)
  have wire: "got io' = wire ?gs" using assms(10) lw by (simp add: frame_header frame_header_bytes_def)
  have nonempty: "bs \<noteq> []" if "no_empty ?gs" "?k = FRAME_DATA"
    using that ro(3) assms(8) lw by (auto simp: no_empty_def)
  have Wnil: "W = [] \<and> bs = []" if "?k \<noteq> FRAME_DATA" using assms(12) lw that by auto
  have ss: "same_send put c ?c" using assms(3,11) by (intro same_send_streams) auto
  have core: "recv_inv got ?gs D c2"
    if c2: "cn_io c2 = Some io'" "cn_read_frame c2 = None" "cn_read_header_offset c2 = 0"
      "\<And>s st. stream_get c2 s = Some st \<Longrightarrow> ss_eof st \<Longrightarrow> (FRAME_FIN, s, []) \<in> set ?gs"
      "\<And>s. buf c2 s = buf c s @ (if ?k = FRAME_DATA \<and> ?t = s then bs else [])"
      "no_empty ?gs \<Longrightarrow> in_order gs D c W \<Longrightarrow> \<forall>s st. stream_get c2 s = Some st \<longrightarrow> [] \<notin> set (ss_input st)" for c2
  proof -
    have "D s @ buf c2 s = payloads s ?gs" if "in_order gs D c W" for s
    proof -
      have "D s @ buf c s = payloads s gs @ progress c W s" using that by (simp add: in_order_def)
      then show ?thesis using Wnil by (auto simp: c2(5) progress_def assms(2))
    qed
    moreover have "no_empty ?gs \<longrightarrow> no_empty gs" by (simp add: no_empty_def)
    ultimately have "no_empty ?gs \<longrightarrow> in_order ?gs D c2 []"
      using assms(6) c2(6) by (auto simp: in_order_def progress_def c2(2))
    then show ?thesis
      using fin wire c2(1-4) by (auto simp: recv_inv_def reading_ok_def partial_def consumed_def)
  qed
  consider (opn) "?k = FRAME_OPEN" | (dat) "?k = FRAME_DATA" | (fn) "?k = FRAME_FIN"
    using assms(13,15) by (auto simp: finish_frame_def split: if_splits)
  then show ?thesis
  proof cases
    case opn
    obtain c1 where ins: "insert_stream ?t ?c = Inr c1" "c' = c1\<lparr>cn_inbound := cn_inbound c1 @ [?t]\<rparr>"
      using opn assms(13,14) by (auto simp: finish_frame_def split: sum.splits)
    note v = insert_stream_views [OF ins(1)]
    have b: "buf c' = buf c" using v(2) buf_streams [of c' c1] buf_streams [of ?c c] ins(2) by simp
    have "\<exists>st'. stream_get c s = Some st' \<and> st' = st \<or> ss_input st = [] \<and> \<not> ss_eof st" if "stream_get c' s = Some st" for s st
      using v(3) [of s st] that ins(2) by auto
    then have st: "stream_get c s = Some st \<or> ss_input st = [] \<and> \<not> ss_eof st" if "stream_get c' s = Some st" for s st
      using that by blast
    have "recv_inv got ?gs D c'"
    proof (rule core)
      show "cn_io c' = Some io'" "cn_read_frame c' = None" "cn_read_header_offset c' = 0"
        using v(4,5,7) ins(2) ro(2) by simp_all
      show "(FRAME_FIN, s, []) \<in> set ?gs" if "stream_get c' s = Some st" "ss_eof st" for s st
        using st [OF that(1)] that(2) r0(3) by auto
      show "buf c' s = buf c s @ (if ?k = FRAME_DATA \<and> ?t = s then bs else [])" for s using b opn by simp
      show "\<forall>s st. stream_get c' s = Some st \<longrightarrow> [] \<notin> set (ss_input st)" if "in_order gs D c W"
        using st that unfolding in_order_def by (metis empty_iff list.set(1))
    qed
    moreover have "same_send put c c'"
      using same_send_trans [OF ss v(1)] ins(2) by (auto simp: same_send_def completed_def fun_eq_iff)
    ultimately show ?thesis by blast
  next
    case dat
    obtain st where st: "stream_get c ?t = Some st" and
      c': "c' = stream_put ?t (st\<lparr>ss_input := ss_input st @ [bs]\<rparr>) (?c\<lparr>cn_received_bytes := cn_received_bytes ?c + length bs\<rparr>)"
      using dat assms(13,14) by (auto simp: finish_frame_def split: option.splits)
    define d where "d = ?c\<lparr>cn_received_bytes := cn_received_bytes ?c + length bs\<rparr>"
    have gd: "stream_get d = stream_get c" by (simp add: d_def)
    have st': "stream_get d ?t = Some st" using st gd by simp
    have sok: "stream_ok st" by (rule conn_wf_stream_ok [OF assms(7) st])
    have c': "c' = stream_put ?t (st\<lparr>ss_input := ss_input st @ [bs]\<rparr>) d" using c' by (simp add: d_def)
    have "recv_inv got ?gs D c'"
    proof (rule core)
      show "cn_io c' = Some io'" "cn_read_frame c' = None" "cn_read_header_offset c' = 0" by (simp_all add: c' d_def ro(2))
      show "(FRAME_FIN, s, []) \<in> set ?gs" if "stream_get c' s = Some x" "ss_eof x" for s x
        using that st r0(3) by (auto simp: c' stream_get_put [OF st'] gd split: if_splits)
      show "buf c' s = buf c s @ (if ?k = FRAME_DATA \<and> ?t = s then bs else [])" for s
        using dat st buf_put [OF st'] buf_streams [OF gd] buffered_append(1) [OF sok, of bs] by (simp add: c' buf_def)
      show "\<forall>s x. stream_get c' s = Some x \<longrightarrow> [] \<notin> set (ss_input x)" if "no_empty ?gs" "in_order gs D c W"
        using that nonempty dat st by (auto simp: c' stream_get_put [OF st'] gd in_order_def)
    qed
    moreover have "same_send put c c'"
      using same_send_trans [OF _ same_send_put [OF st']] same_send_trans [OF ss same_send_streams [of put d ?c]]
      by (auto simp: c' d_def)
    ultimately show ?thesis by blast
  next
    case fn
    obtain st where st: "stream_get c ?t = Some st" and c': "c' = stream_put ?t (st\<lparr>ss_eof := True\<rparr>) ?c"
      using fn assms(13,14) by (auto simp: finish_frame_def split: option.splits)
    have st': "stream_get ?c ?t = Some st" using st by simp
    have "recv_inv got ?gs D c'"
    proof (rule core)
      show "cn_io c' = Some io'" "cn_read_frame c' = None" "cn_read_header_offset c' = 0" by (simp_all add: c' ro(2))
      show "(FRAME_FIN, s, []) \<in> set ?gs" if "stream_get c' s = Some x" "ss_eof x" for s x
        using that st r0(3) fn Wnil by (auto simp: c' stream_get_put [OF st'] split: if_splits)
      show "buf c' s = buf c s @ (if ?k = FRAME_DATA \<and> ?t = s then bs else [])" for s
        using fn st buf_put [OF st'] buf_streams [of ?c c] by (simp add: c' buf_def buffered_def)
      show "\<forall>s x. stream_get c' s = Some x \<longrightarrow> [] \<notin> set (ss_input x)" if "in_order gs D c W"
        using that st by (auto simp: c' stream_get_put [OF st'] in_order_def)
    qed
    moreover have "same_send put c c'" using same_send_trans [OF ss same_send_put [OF st']] by (simp add: c')
    ultimately show ?thesis by blast
  qed
qed

context duplex
begin

lemma rest_recv:
  assumes "conn_wf ok c" and "recv_inv got gs D c" and "cn_read_frame c = Some fr"
    and "read_frame_rest T c = (c', r)" and "no_error r"
  shows "(\<exists>gs'. recv_inv got gs' D c') \<and> same_send put c c'"
proof -
  have wf: "read_wf (cn_split_send_size c) (cn_receive_limit c) (cn_received_bytes c) fr"
    using assms(1,3) by (simp add: conn_wf_def)
  note sz = size_frame_wf [OF wf]
  from assms(2,3) obtain io W where io: "cn_io c = Some io" "length W = pr_wire_consumed fr"
      "got io = wire gs @ frame_header_bytes fr @ W @ take (pr_buffer_offset fr) (pr_bytes fr)"
      "no_empty gs \<longrightarrow> in_order gs D c W"
    by (auto simp: recv_inv_def partial_def consumed_def)
  from assms(1,3,4) show ?thesis
  proof (cases rule: read_frame_rest_cases)
    case gone
    with io show ?thesis by simp
  next
    case (partly io0 bs off io' q)
    note t = filled_take [OF partly(2)]
    have g: "got io' = wire gs @ frame_header_bytes fr @ W @ take off bs"
      using t sz(3) io(1,3) partly(1) by simp
    have "stream_get c' = stream_get c" using partly(4) by simp
    moreover from this have "in_order gs D c' W" if "in_order gs D c W"
      using that partly(4) assms(3) buf_streams [of c' c] by (simp add: in_order_def progress_def)
    moreover have "same_send put c c'" using partly io(1) by (intro same_send_streams) (auto simp: filled_def)
    moreover have "cn_io c' = Some io'" "partial c' W = frame_header_bytes fr @ W @ take off bs" "consumed c' = pr_wire_consumed fr"
        "reading_ok c'"
      using partly(4) assms(2,3) by (auto simp: partial_def consumed_def frame_header_bytes_def recv_inv_def reading_ok_def)
    ultimately have "recv_inv got gs D c'"
      using io g assms(2) by (intro recv_invI [where W = W]) (auto simp: recv_inv_def)
    with \<open>same_send put c c'\<close> show ?thesis by blast
  next
    case (finished io0 bs io')
    note t = filled_take [OF finished(2)]
    have len: "length bs = pr_length fr - pr_wire_consumed fr" using finished(2) sz(1) by (simp add: filled_def)
    have g: "got io' = wire gs @ frame_header_bytes fr @ W @ bs" using t sz(3) io(1,3) finished(1) len by simp
    have "r \<noteq> Panicked" using read_frame_rest_next [OF assms(1,3,4)] by blast
    moreover have "put io' = put io" using finished(1,2) io(1) by (simp add: filled_def)
    ultimately show ?thesis
      using finish_recv [OF assms(2,3) io(1,3,2,4) assms(1) len _ g _ _ finished(3) assms(5)] wf
      by (auto simp: read_wf_def)
  qed
qed

lemma receive_recv:
  assumes "conn_wf ok c" and "recv_inv got gs D c" and "poll_receive T c = (c', r)" and "no_error r"
  shows "(\<exists>gs'. recv_inv got gs' D c') \<and> same_send put c c'"
proof -
  obtain c1 q where p: "poll_prepare_frame T c = (c1, q)" by fastforce
  have q: "no_error q" using assms(3,4) p by (auto simp: poll_receive_def split: if_splits)
  note n = poll_prepare_frame_next [OF assms(1) p] and i = prepare_recv [OF assms(1,2) p q]
  show ?thesis
  proof (cases "q = Ready (Inr ())")
    case True
    then obtain fr where fr: "cn_read_frame c1 = Some fr" using n by auto
    have "read_frame_rest T c1 = (c', r)" using assms(3) p True by (simp add: poll_receive_def)
    from rest_recv [OF conn_next_wf [OF conjunct1 [OF n]] conjunct1 [OF i] fr this assms(4)] i
    show ?thesis by (blast intro: same_send_trans)
  next
    case False
    with assms(3) p i show ?thesis by (auto simp: poll_receive_def)
  qed
qed

lemma drive_order:
  assumes "conn_wf ok c" and "sends put c m" and "recv_inv got gs D c" and "poll_drive T c = (c', r)" and "no_error r"
  shows "sends put c' m \<and> (\<exists>gs'. recv_inv got gs' D c')"
proof (cases "cn_closed c")
  case True
  with assms show ?thesis by (auto simp: poll_drive_def)
next
  case False
  obtain fs where fs: "send_inv put fs (ms_acked m) (ms_offered m) (ms_shut m) c" using assms(2) by (auto simp: sends_def)
  define c1 where "c1 = start_queued_control c"
  have w1: "conn_wf ok c1" unfolding c1_def by (rule start_queued_control_wf [OF assms(1)])
  obtain fs1 where s1: "send_inv put fs1 (ms_acked m) (ms_offered m) (ms_shut m) c1"
    using start_queued_control_send [OF fs assms(1)] by (auto simp: c1_def)
  have r1: "recv_inv got gs D c1"
    by (rule recv_inv_same [OF assms(3)]) (simp add: c1_def same_recv_def stream_get_def)
  obtain c2 q where f: "poll_flush_write T c1 = (c2, q)" by fastforce
  have w2: "conn_wf ok c2" "q \<noteq> Panicked" using poll_flush_write_next [OF w1 f] conn_next_wf by auto
  have s2: "send_inv put fs1 (ms_acked m) (ms_offered m) (ms_shut m) c2" using flush_send [OF w1 s1 f] by blast
  have r2: "recv_inv got gs D c2" by (rule recv_inv_same [OF r1 flush_recv [OF w1 f]])
  have eq: "poll_drive T c = (case cn_write c1 of None \<Rightarrow> poll_receive T c1
      | Some _ \<Rightarrow> (case q of Ready (Inl error) \<Rightarrow> (c2, Ready (Inl error)) | Panicked \<Rightarrow> (c2, Panicked) | _ \<Rightarrow> poll_receive T c2))"
    using False unfolding poll_drive_def Let_def c1_def [symmetric] f prod.case by simp
  have "\<exists>d. (d = c1 \<or> d = c2) \<and> poll_receive T d = (c', r)"
    using eq assms(4,5) w2(2) by (auto split: option.splits poll.splits sum.splits)
  then obtain d where d: "conn_wf ok d" "send_inv put fs1 (ms_acked m) (ms_offered m) (ms_shut m) d" "recv_inv got gs D d"
      "poll_receive T d = (c', r)" using w1 w2 s1 s2 r1 r2 by blast
  from receive_recv [OF d(1,3,4) assms(5)] d(2) show ?thesis
    by (auto simp: sends_def intro: send_inv_same)
qed

end

definition deliver :: "u32 \<Rightarrow> bytes \<Rightarrow> nat io_result poll \<Rightarrow> (u32 \<Rightarrow> bytes) \<Rightarrow> u32 \<Rightarrow> bytes" where
  "deliver i out p D = (case p of Ready (Inr n) \<Rightarrow> D(i := D i @ take n out) | _ \<Rightarrow> D)"

lemma deliver_simps [simp]:
  "deliver i out Pending D = D" "deliver i out (Ready (Inr n)) D = D(i := D i @ take n out)"
  by (simp_all add: deliver_def)

lemma note_read_views [simp]:
  "ms_conn (note_read i out p m) = ms_conn m" "ms_acked (note_read i out p m) = ms_acked m"
  "ms_offered (note_read i out p m) = ms_offered m" "ms_shut (note_read i out p m) = ms_shut m"
  "ms_delivered (note_read i out p m) = deliver i out p (ms_delivered m)"
  by (auto simp: note_read_def deliver_def split: poll.split sum.split)

context duplex
begin

text \<open>The reader takes bytes of its own frame from the wire; nothing of its stream is buffered.\<close>

lemma direct_recv:
  assumes "conn_wf ok c" and "recv_inv got gs D c" and fr: "cn_read_frame c = Some fr" "pr_kind fr = FRAME_DATA" "pr_bytes fr = []"
      "pr_length fr \<noteq> pr_wire_consumed fr"
    and "no_empty gs \<longrightarrow> buf c (pr_stream fr) = []"
    and "direct_read T fr out c = (c', out', p)" and "no_error p"
  shows "(\<exists>gs'. recv_inv got gs' (deliver (pr_stream fr) out' p D) c') \<and> same_send put c c'"
proof -
  let ?s = "pr_stream fr"
  have wf: "read_wf (cn_split_send_size c) (cn_receive_limit c) (cn_received_bytes c) fr"
    using assms(1) fr(1) by (simp add: conn_wf_def)
  from assms(2) fr obtain io W where io: "cn_io c = Some io" "length W = pr_wire_consumed fr"
      "got io = wire gs @ frame_header_bytes fr @ W" "no_empty gs \<longrightarrow> in_order gs D c W"
    and r0: "\<forall>f\<in>set gs. frame_in f" "\<forall>s st. stream_get c s = Some st \<longrightarrow> ss_eof st \<longrightarrow> (FRAME_FIN, s, []) \<in> set gs"
      "pr_length fr < 2 ^ 32" "cn_read_header_offset c = 0"
    by (auto simp: recv_inv_def partial_def consumed_def reading_ok_def)
  have "ok io" using assms(1) io(1) by (simp add: conn_wf_def)
  from io(1) this assms(8) show ?thesis
  proof (cases rule: direct_read_cases)
    case (got_none io')
    then have p: "p = Pending" using assms(9) by (cases p) (auto, metis sum.exhaust)
    have "same_recv got c c'" "same_send put c c'"
      using got_none io(1) by (auto simp: same_recv_def intro: same_send_streams)
    with recv_inv_same [OF assms(2)] p show ?thesis by auto
  next
    case (got_some n io')
    let ?W = "W @ take n out'" and ?D = "D(?s := D ?s @ take n out')"
    have sg: "stream_get c' = stream_get c" using got_some(5) by simp
    have ss: "same_send put c c'" using got_some(5,9) io(1) sg by (intro same_send_streams) auto
    have b: "buf c' = buf c" by (rule buf_streams [OF sg])
    have lt: "length (take n out') = n" using got_some(3,7) by simp
    have g: "got io' = wire gs @ frame_header_bytes fr @ ?W" using got_some(8) io(3) by simp
    have pr: "?D s @ buf c s = payloads s gs @ (if s = ?s then ?W else [])" if "no_empty gs" for s
    proof -
      have "D s @ buf c s = payloads s gs @ (if s = ?s then W else [])"
        using io(4) that fr(1,2) by (auto simp: in_order_def progress_def)
      then show ?thesis using assms(7) that by (cases "s = ?s") auto
    qed
    have chunks: "\<forall>s st. stream_get c s = Some st \<longrightarrow> [] \<notin> set (ss_input st)" if "no_empty gs"
      using io(4) that by (simp add: in_order_def)
    show ?thesis
    proof (cases "pr_wire_consumed fr + n = pr_length fr")
      case True
      let ?gs = "gs @ [(FRAME_DATA, ?s, ?W)]"
      have len: "length ?W = pr_length fr" using io(2) lt True by simp
      have c': "cn_io c' = Some io'" "cn_read_frame c' = None" "cn_read_header_offset c' = 0"
        using got_some(5) True r0(4) by simp_all
      have "no_empty ?gs \<longrightarrow> no_empty gs" by (simp add: no_empty_def)
      then have "no_empty ?gs \<longrightarrow> in_order ?gs ?D c' []"
        using pr chunks by (auto simp: in_order_def progress_def c'(2) b sg)
      then have "recv_inv got ?gs ?D c'"
        using r0 g len c' fr(2)
        by (intro recv_invI [where W = "[]" and io = io'])
          (auto simp: frame_in_def reading_ok_def partial_def consumed_def frame_header frame_header_bytes_def sg)
      with ss got_some(1) show ?thesis by auto
    next
      case False
      have c': "cn_io c' = Some io'" "cn_read_frame c' = Some (fr\<lparr>pr_wire_consumed := pr_wire_consumed fr + n\<rparr>)"
          "cn_read_header_offset c' = 0"
        using got_some(5) False r0(4) by simp_all
      have "no_empty gs \<longrightarrow> in_order gs ?D c' ?W" using pr chunks fr(2) by (auto simp: in_order_def progress_def c'(2) b sg)
      moreover have "pr_wire_consumed fr + n < pr_length fr" using False got_some(4) wf unfolding read_wf_def by linarith
      ultimately have "recv_inv got gs ?D c'"
        using r0 g io(2) lt c' fr(3)
        by (intro recv_invI [where W = ?W and io = io'])
          (auto simp: reading_ok_def partial_def consumed_def frame_header_bytes_def sg)
      with ss got_some(1) show ?thesis by auto
    qed
  qed
qed

lemma read_stream_order:
  assumes "conn_wf ok c" and "sends put c m" and "recv_inv got gs D c" and "no_empty gs \<longrightarrow> buf c s = []"
    and "poll_read_stream T s out c = (c', out', p)" and "no_error p"
  shows "sends put c' m \<and> (\<exists>gs'. recv_inv got gs' (deliver s out' p D) c')"
proof -
  obtain c1 q where q: "poll_prepare_frame T c = (c1, q)" by fastforce
  have ne: "no_error q" using assms(5,6) q by (auto simp: poll_read_stream_def)
  note n = poll_prepare_frame_next [OF assms(1) q] and i = prepare_recv [OF assms(1,3) q ne]
  have s1: "sends put c1 m" using sends_same [OF assms(2)] i by blast
  have w1: "conn_wf ok c1" using n conn_next_wf by blast
  have b1: "no_empty gs \<longrightarrow> buf c1 s = []" using assms(4) buf_streams [of c1 c] i by simp
  show ?thesis
  proof (cases "q = Ready (Inr ())")
    case False
    then have "c' = c1 \<and> p = Pending"
      using assms(5) q ne n by (auto simp: poll_read_stream_def split: poll.splits sum.splits)
    with s1 i show ?thesis by auto
  next
    case True
    then obtain fr where fr: "cn_read_frame c1 = Some fr" using n by auto
    have nolt: "\<not> pr_length fr < pr_wire_consumed fr" using w1 fr by (auto simp: conn_wf_def read_wf_def)
    show ?thesis
    proof (cases "pr_kind fr \<noteq> FRAME_DATA \<or> pr_stream fr \<noteq> s \<or> pr_bytes fr \<noteq> [] \<or> pr_length fr = pr_wire_consumed fr")
      case other: True
      obtain c2 u where d: "poll_drive T c1 = (c2, u)" by fastforce
      have "c' = c2 \<and> p = Pending \<and> no_error u"
        using assms(5,6) q True fr other d poll_drive_next [OF w1 d]
        by (auto simp: poll_read_stream_def split: poll.splits sum.splits)
      with drive_order [OF w1 s1 conjunct1 [OF i] d] show ?thesis by auto
    next
      case own: False
      then have "direct_read T fr out c1 = (c', out', p)"
        using assms(5) q True fr nolt by (simp add: poll_read_stream_def)
      from direct_recv [OF w1 conjunct1 [OF i] fr _ _ _ _ this assms(6)] own b1 s1 show ?thesis
        by (auto intro: sends_same)
    qed
  qed
qed

lemma read_order:
  assumes "conn_wf ok c" and "sends put c m" and "recv_inv got gs D c"
    and "mux_poll_read T i out c = (c', out', p)" and "no_error p"
  shows "sends put c' m \<and> (\<exists>gs'. recv_inv got gs' (deliver i out' p D) c')"
proof (cases "out = []")
  case True
  then have "c' = c" "out' = out" "p = Ready (Inr 0)" using assms(4) by (simp_all add: mux_poll_read_def)
  then show ?thesis using assms(2,3) by (auto simp: fun_upd_idem)
next
  case False
  then obtain st where st: "stream_get c i = Some st" using assms(4,5) by (auto simp: mux_poll_read_def split: option.splits)
  have sok: "stream_ok st" by (rule conn_wf_stream_ok [OF assms(1) st])
  show ?thesis
  proof (cases "ss_input st")
    case Nil
    then have b: "buf c i = []" by (simp add: buf_def st buffered_def)
    show ?thesis
    proof (cases "ss_eof st")
      case True
      then have "c' = c" "p = Ready (Inr 0)" using assms(4) False st Nil by (simp_all add: mux_poll_read_def)
      then show ?thesis using assms(2,3) by (auto simp: fun_upd_idem)
    next
      case noeof: False
      then have "poll_read_stream T i out c = (c', out', p)" using assms(4) False st Nil by (simp add: mux_poll_read_def)
      from read_stream_order [OF assms(1-3) _ this assms(5)] b show ?thesis by simp
    qed
  next
    case (Cons chunk rest)
    obtain n out1 c1 where t: "take_buffered i st chunk rest out c = (n, out1, c1)" by (metis prod_cases3)
    from take_buffered_spec [OF sok Cons t] obtain st' where st': "c1 = stream_put i st' c" "ss_eof st' = ss_eof st"
      "ss_completed_write st' = ss_completed_write st" "buffered st = take n out1 @ buffered st'"
      "n = 0 \<longrightarrow> out = [] \<or> chunk = []" "set (ss_input st') \<subseteq> set (ss_input st)" "stream_ok st'" by metis
    have off: "\<not> length chunk < ss_offset st" using sok Cons by (auto simp: stream_ok_def)
    have s1: "same_send put c c1" unfolding st'(1) by (rule same_send_put [OF st st'(3)])
    have r1: "recv_inv got gs (D(i := D i @ take n out1)) c1"
    proof -
      from assms(3) obtain io W where io: "cn_io c = Some io" "got io = wire gs @ partial c W" "length W = consumed c"
        "no_empty gs \<longrightarrow> in_order gs D c W" by (auto simp: recv_inv_def)
      have v: "cn_io c1 = cn_io c" "partial c1 W = partial c W" "consumed c1 = consumed c" "progress c1 W s = progress c W s"
          "reading_ok c1 = reading_ok c" for s
        by (simp_all add: st'(1) partial_def consumed_def progress_def reading_ok_def split: option.split)
      have g1: "stream_get c1 s = (if i = s then Some st' else stream_get c s)" for s
        unfolding st'(1) by (rule stream_get_put [OF st])
      have "buf c i = take n out1 @ buffered st'" using st'(4) by (simp add: buf_def st)
      then have "in_order gs (D(i := D i @ take n out1)) c1 W" if "in_order gs D c W"
        using that st st'(6) buf_put [OF st, of st'] unfolding st'(1) [symmetric]
        by (auto simp: in_order_def v(4) g1) (metis append.assoc)
      then show ?thesis
        using io assms(3) v st st'(2) by (intro recv_invI [where W = W and io = io]) (auto simp: recv_inv_def g1)
    qed
    show ?thesis
    proof (cases "n = 0")
      case True
      have w1: "conn_wf ok c1"
        using True st' conn_wf_put [OF assms(1) st st'(7), of "cn_received_bytes c"] assms(1) by (simp add: conn_wf_def)
      have "\<not> no_empty gs" using True st'(5) False Cons recv_inv_chunks [OF assms(3) _ st] by auto
      moreover have "poll_read_stream T i out1 c1 = (c', out', p)"
        using assms(4) False st Cons t off True by (simp add: mux_poll_read_def)
      moreover have "recv_inv got gs D c1" using r1 True by (simp add: fun_upd_idem)
      ultimately show ?thesis using read_stream_order [OF w1 sends_same [OF assms(2) s1] _ _ _ assms(5)] by blast
    next
      case pos: False
      let ?c = "c1\<lparr>cn_received_bytes := cn_received_bytes c1 - n\<rparr>"
      have e: "c' = recycle (ss_offset st + n = length chunk) ?c" "out' = out1" "p = Ready (Inr n)"
        using assms(4) False st Cons t off pos mux_poll_read_next [OF assms(1), of out i]
        by (auto simp: mux_poll_read_def read_next_def split: if_splits)
      have "same_send put c1 c'" "same_recv got c1 c'"
        by (auto simp: e(1) recycle_def same_recv_def intro: same_send_streams)
      with sends_same [OF sends_same [OF assms(2) s1]] recv_inv_same [OF r1] e show ?thesis by auto
    qed
  qed
qed

end

section \<open>Every run keeps both halves\<close>

lemma sends_shut: "sends put c m \<Longrightarrow> sends put c (m\<lparr>ms_conn := d, ms_shut := insert i (ms_shut m)\<rparr>)"
  by (auto simp: sends_def send_inv_def)

lemma sends_conn [simp]: "sends put c (m\<lparr>ms_conn := d\<rparr>) = sends put c m"
  by (simp add: sends_def)

lemma sends_control:
  assumes "sends put c m" and "k = FRAME_FIN \<longrightarrow> i \<in> ms_shut m"
  shows "sends put (c\<lparr>cn_controls := cn_controls c @ [(k, i)]\<rparr>) m"
proof -
  let ?c = "c\<lparr>cn_controls := cn_controls c @ [(k, i)]\<rparr>"
  have "completed ?c = completed c" "unsent ?c = unsent c" "writes ?c = writes c" "in_flight ?c = in_flight c"
    by (auto simp: completed_def unsent_def writes_def in_flight_def fun_eq_iff)
  then show ?thesis using assms by (auto simp: sends_def send_inv_def)
qed

lemma same_recv_streams:
  assumes "map_option got (cn_io c') = map_option got (cn_io c)" and "cn_read_frame c' = cn_read_frame c"
    and "cn_read_header c' = cn_read_header c" and "cn_read_header_offset c' = cn_read_header_offset c"
    and "stream_get c' = stream_get c"
  shows "same_recv got c c'"
  using assms by (simp add: same_recv_def)

lemma start_write_recv: "same_recv got c (start_write k i p c)"
  by (rule same_recv_streams) (simp_all add: fun_eq_iff)

lemma start_queued_control_recv: "same_recv got c (start_queued_control c)"
  by (rule same_recv_streams) (simp_all add: stream_get_def fun_eq_iff)

lemma put_recv:
  assumes "stream_get c i = Some st" and "stream_core st' = stream_core st"
  shows "same_recv got c (stream_put i st' c)"
  using assms by (simp add: same_recv_def)

lemma recv_insert:
  assumes "recv_inv got gs D c" and "insert_stream i c = Inr c'"
  shows "recv_inv got gs D c'"
proof -
  note v = insert_stream_views [OF assms(2)]
  from assms(1) obtain io W where io: "cn_io c = Some io" "got io = wire gs @ partial c W" "length W = consumed c"
    "no_empty gs \<longrightarrow> in_order gs D c W" by (auto simp: recv_inv_def)
  have "[] \<notin> set (ss_input st)" if "in_order gs D c W" "stream_get c' s = Some st" for s st
    using v(3) [OF that(2)] that(1) by (auto simp: in_order_def)
  moreover have "(FRAME_FIN, s, []) \<in> set gs" if "stream_get c' s = Some st" "ss_eof st" for s st
    using v(3) [OF that(1)] that(2) assms(1) by (auto simp: recv_inv_def)
  moreover have "partial c' W = partial c W" "consumed c' = consumed c" "progress c' W = progress c W" "reading_ok c' = reading_ok c"
    using v(5-7) by (auto simp: partial_def consumed_def progress_def reading_ok_def fun_eq_iff split: option.splits)
  ultimately show ?thesis
    using io assms(1) v(2,4) by (intro recv_invI [where W = W and io = io]) (auto simp: recv_inv_def in_order_def)
qed

context duplex
begin

lemma control_recv:
  assumes "conn_wf ok c" and "k = FRAME_OPEN \<or> k = FRAME_FIN" and "poll_control T k i c = (c', r)"
  shows "same_recv got c c'"
proof -
  have start: "same_recv got d c'"
    if "conn_wf ok d" "poll_flush_write T (if cn_write d = None then start_write k i [] d else d) = (c', r)" for d
  proof -
    have "conn_wf ok (if cn_write d = None then start_write k i [] d else d)"
      using that(1) assms(2) by (auto intro: start_write_wf control_frame_ok)
    from flush_recv [OF this that(2)] show ?thesis
      by (auto intro: same_recv_trans [OF start_write_recv] split: if_splits)
  qed
  obtain c1 q where f: "poll_flush_write T c = (c1, q)" by fastforce
  have n: "conn_wf ok c1" using poll_flush_write_next [OF assms(1) f] conn_next_wf by blast
  show ?thesis
    using assms(3) start [OF assms(1)] start [OF n] flush_recv [OF assms(1) f] f
    by (auto simp: poll_control_def Let_def split: option.splits if_splits intro: same_recv_trans)
qed

lemma flush_own_recv:
  assumes "conn_wf ok c" and "flush_own T s n c = (c', p)"
  shows "same_recv got c c'"
proof -
  obtain c1 q where f: "poll_flush_write T c = (c1, q)" by fastforce
  have "same_recv got c1 (case stream_get c1 s of None \<Rightarrow> c1 | Some st \<Rightarrow> stream_put s (st\<lparr>ss_completed_write := 0\<rparr>) c1)"
    by (auto simp: same_recv_refl stream_core_def intro: put_recv split: option.split)
  then have "same_recv got c1 c'"
    using assms(2) f by (auto simp: flush_own_def same_recv_refl split: poll.splits sum.splits)
  with flush_recv [OF assms(1) f] show ?thesis by (rule same_recv_trans)
qed

lemma start_data_recv:
  assumes "conn_wf ok c" and "input \<noteq> []" and "start_data T s input c = (c', p)"
  shows "same_recv got c c'"
proof -
  let ?c = "start_write FRAME_DATA s (take (min (length input) (cn_split_send_size c)) input) c"
  have "conn_wf ok ?c" using assms(1,2) by (intro start_write_wf) (auto simp: frame_ok_def conn_wf_def)
  from flush_own_recv [OF this] assms(3) have "same_recv got ?c c'" by (simp add: start_data_def Let_def)
  with start_write_recv show ?thesis by (rule same_recv_trans)
qed

lemma data_recv:
  assumes "conn_wf ok c" and "poll_data T s input c = (c', p)"
  shows "same_recv got c c'"
proof -
  define c1 where "c1 = (case stream_get c s of None \<Rightarrow> c | Some st \<Rightarrow> stream_put s (st\<lparr>ss_completed_write := 0\<rparr>) c)"
  define c2 where "c2 = start_queued_control c1"
  have n1: "conn_wf ok c1"
    using conn_next_wf [OF clear_completed_next [OF assms(1)]] assms(1) by (auto simp: c1_def split: option.split)
  have n2: "conn_wf ok c2" unfolding c2_def by (rule start_queued_control_wf [OF n1])
  have r1: "same_recv got c c1"
    unfolding c1_def by (auto simp: same_recv_refl stream_core_def intro: put_recv split: option.split)
  have r2: "same_recv got c c2" unfolding c2_def by (rule same_recv_trans [OF r1 start_queued_control_recv])
  obtain c3 q where f: "poll_flush_write T c2 = (c3, q)" by fastforce
  have r3: "same_recv got c c3" by (rule same_recv_trans [OF r2 flush_recv [OF n2 f]])
  have n3: "conn_wf ok c3" using poll_flush_write_next [OF n2 f] conn_next_wf by blast
  consider "c' = c" | "c' = c1" | "c' = c3" | "input \<noteq> []" "start_data T s input c2 = (c', p)"
    | "input \<noteq> []" "start_data T s input c3 = (c', p)" | n where "flush_own T s n c2 = (c', p)"
    using assms(2) f unfolding poll_data_def Let_def c1_def [symmetric] c2_def [symmetric]
    by (auto split: if_splits option.splits poll.splits sum.splits)
  then show ?thesis
    using r1 r2 r3 start_data_recv [OF n2] start_data_recv [OF n3] flush_own_recv [OF n2]
    by cases (auto simp: same_recv_refl intro: same_recv_trans)
qed

end

definition run_ok :: "('t \<Rightarrow> bool) \<Rightarrow> ('t \<Rightarrow> bytes) \<Rightarrow> ('t \<Rightarrow> bytes) \<Rightarrow> 't connection \<Rightarrow> 't mux_state \<Rightarrow> bool" where
  "run_ok ok got put c0 m \<longleftrightarrow> conn_wf ok (ms_conn m) \<and> cn_split_send_size (ms_conn m) = cn_split_send_size c0
     \<and> sends put (ms_conn m) m \<and> (\<exists>gs. recv_inv got gs (ms_delivered m) (ms_conn m))"

lemma run_ok_conn:
  assumes "run_ok ok got put c0 m" and "conn_next ok (ms_conn m) c"
    and "sends put c m" and "\<exists>gs. recv_inv got gs (ms_delivered m) c"
  shows "run_ok ok got put c0 (m\<lparr>ms_conn := c\<rparr>)"
  using assms by (simp add: run_ok_def conn_next_def)

lemma run_okD:
  assumes "run_ok ok got put c0 m"
  shows "conn_wf ok (ms_conn m)" and "sends put (ms_conn m) m" and "\<exists>gs. recv_inv got gs (ms_delivered m) (ms_conn m)"
    and "cn_split_send_size (ms_conn m) = cn_split_send_size c0"
  using assms by (simp_all add: run_ok_def)

lemma run_ok_start:
  assumes "conn_wf ok c0" and "c0 = connection_new io role config" and "got io = []" and "put io = []"
  shows "run_ok ok got put c0 (mux_start c0)"
proof -
  have "send_inv put [] (\<lambda>_. []) (\<lambda>_. None) {} c0"
    using assms(2,4) by (auto simp: send_inv_def connection_new_def unsent_def in_flight_def writes_def completed_def stream_get_def fin_last_def)
  moreover have "recv_inv got [] (\<lambda>_. []) c0"
    using assms(2,3) by (auto simp: recv_inv_def connection_new_def reading_ok_def partial_def consumed_def in_order_def
        buf_def stream_get_def progress_def)
  ultimately show ?thesis using assms(1) by (auto simp: run_ok_def mux_start_def sends_def)
qed

context duplex
begin

lemma flush_sends: "conn_wf ok c \<Longrightarrow> sends put c m \<Longrightarrow> poll_flush_write T c = (c', r) \<Longrightarrow> sends put c' m"
  unfolding sends_def using flush_send by blast

lemma queue_order:
  assumes "conn_wf ok c" and "sends put c m" and "recv_inv got gs D c" and "queue_stream c = (c', Inr i)"
  shows "sends put c' m \<and> recv_inv got gs D c'"
proof -
  let ?c = "c\<lparr>cn_next_stream := cn_next_stream c + 2\<rparr>"
  have ins: "insert_stream (cn_next_stream c) ?c = Inr c'"
    using assms(4) by (auto simp: queue_stream_def Let_def split: if_splits sum.splits)
  have "same_send put c ?c" "same_recv got c ?c" by (auto intro: same_send_streams same_recv_streams)
  with assms(2,3) have "sends put ?c m" "recv_inv got gs D ?c" by (auto intro: sends_same recv_inv_same)
  with insert_stream_views(1) [OF ins] recv_insert [OF _ ins] show ?thesis by (auto intro: sends_same)
qed

lemma close_order:
  assumes "conn_wf ok c" and "sends put c m" and "recv_inv got gs D c" and "connection_close T c = (c', r)"
  shows "sends put c' m \<and> recv_inv got gs D c'"
proof -
  obtain c1 q where f: "poll_flush_write T c = (c1, q)" by fastforce
  have s1: "sends put c1 m" by (rule flush_sends [OF assms(1,2) f])
  have r1: "recv_inv got gs D c1" by (rule recv_inv_same [OF assms(3) flush_recv [OF assms(1) f]])
  have "same_send put c1 c' \<and> same_recv got c1 c'"
    using assms(4) f shutdown_trace
    by (auto simp: connection_close_def same_send_refl same_recv_refl intro!: same_send_streams same_recv_streams
        split: if_splits option.splits prod.splits)
  with s1 r1 show ?thesis by (auto intro: sends_same recv_inv_same)
qed

lemma run_keeps:
  assumes "mux_run T c0 m" and "run_ok ok got put c0 (mux_start c0)"
  shows "run_ok ok got put c0 m"
  using assms
proof (induction rule: mux_run.induct)
  case start
  then show ?case .
next
  case (queued m c i)
  note m = run_okD [OF queued.IH [OF queued.prems]] and rok = queued.IH [OF queued.prems]
  have "cn_io (ms_conn m) \<noteq> None" using m(2) by (auto simp: sends_def send_inv_def)
  then have "conn_next ok (ms_conn m) c" using queue_stream_next [OF m(1) _ queued(2)] by blast
  with m queue_order [OF m(1,2) _ queued(2)] show ?case by (intro run_ok_conn [OF rok]) auto
next
  case (begun m i)
  note m = run_okD [OF begun.IH [OF begun.prems]] and rok = begun.IH [OF begun.prems]
  let ?c = "(ms_conn m)\<lparr>cn_controls := cn_controls (ms_conn m) @ [(FRAME_OPEN, i)]\<rparr>"
  have "conn_next ok (ms_conn m) ?c" using control_wf [OF m(1)] by (simp add: conn_next_def)
  moreover have "same_recv got (ms_conn m) ?c" by (rule same_recv_streams) auto
  ultimately show ?case using m sends_control [OF m(2)] by (intro run_ok_conn [OF rok]) (auto intro: recv_inv_same)
next
  case (opened m i c p)
  note m = run_okD [OF opened.IH [OF opened.prems]] and rok = opened.IH [OF opened.prems]
  from poll_control_next [OF m(1) _ opened(2)] poll_control_send [OF m(1,2) _ opened(2)] control_recv [OF m(1) _ opened(2)] m
  show ?case by (intro run_ok_conn [OF rok]) (auto intro: recv_inv_same)
next
  case (accepted m)
  note m = run_okD [OF accepted.IH [OF accepted.prems]] and rok = accepted.IH [OF accepted.prems]
  let ?c = "fst (pop_inbound (ms_conn m))"
  have "stream_get ?c = stream_get (ms_conn m)" by (auto simp: pop_inbound_def split: list.split)
  then have "same_send put (ms_conn m) ?c" "same_recv got (ms_conn m) ?c" "conn_next ok (ms_conn m) ?c"
    using pop_inbound_wf [OF m(1)]
    by (auto simp: pop_inbound_def conn_next_def intro!: same_send_streams same_recv_streams split: list.split)
  with m show ?case by (intro run_ok_conn [OF rok]) (auto intro: recv_inv_same sends_same)
next
  case (driven m c p)
  note m = run_okD [OF driven.IH [OF driven.prems]] and rok = driven.IH [OF driven.prems]
  from poll_drive_next [OF m(1) driven(2)] drive_order [OF m(1,2) _ driven(2,3)] m show ?case by (intro run_ok_conn [OF rok]) auto
next
  case (flushed m c p)
  note m = run_okD [OF flushed.IH [OF flushed.prems]] and rok = flushed.IH [OF flushed.prems]
  from poll_flush_write_next [OF m(1) flushed(2)] flush_sends [OF m(1,2) flushed(2)] flush_recv [OF m(1) flushed(2)] m
  show ?case by (intro run_ok_conn [OF rok]) (auto intro: recv_inv_same)
next
  case (written m i input c p)
  note m = run_okD [OF written.IH [OF written.prems]]
  have d: "poll_data T i input (ms_conn m) = (c, p)" using written(6) by (simp add: mux_poll_write_def)
  have "sends put c (note_write i input p (m\<lparr>ms_conn := c\<rparr>))"
    using poll_data_send [OF m(1,2) written(2-5) d written(7)] by (auto simp: note_write_def sends_def split: poll.splits sum.splits)
  moreover have "ms_conn (note_write i input p (m\<lparr>ms_conn := c\<rparr>)) = c"
      "ms_delivered (note_write i input p (m\<lparr>ms_conn := c\<rparr>)) = ms_delivered m"
    by (auto simp: note_write_def split: poll.split sum.split)
  ultimately show ?case
    using poll_data_next [OF m(1) d] data_recv [OF m(1) d] m(3,4) by (auto simp: run_ok_def conn_next_def intro: recv_inv_same)
next
  case (read m i out c out' p)
  note m = run_okD [OF read.IH [OF read.prems]]
  have "conn_next ok (ms_conn m) c" using mux_poll_read_next [OF m(1), of out i] read(2) by (simp add: read_next_def)
  moreover have "sends put c (note_read i out' p (m\<lparr>ms_conn := c\<rparr>)) = sends put c m" by (simp add: sends_def)
  ultimately show ?case using read_order [OF m(1,2) _ read(2,3)] m(3,4) by (auto simp: run_ok_def conn_next_def)
next
  case (shut m i b c p)
  note m = run_okD [OF shut.IH [OF shut.prems]]
  let ?m = "m\<lparr>ms_conn := c, ms_shut := insert i (ms_shut m)\<rparr>"
  have ctl: "poll_control T FRAME_FIN i (ms_conn m) = (c, p)" using shut(2) by (auto simp: mux_poll_close_def split: prod.splits)
  have "sends put c ?m" using poll_control_send [OF m(1) sends_shut [OF m(2), of i c] _ ctl] by simp
  with poll_control_next [OF m(1) _ ctl] control_recv [OF m(1) _ ctl] m(3,4) show ?case
    by (auto simp: run_ok_def conn_next_def intro: recv_inv_same)
next
  case (dropped m i b)
  note m = run_okD [OF dropped.IH [OF dropped.prems]]
  let ?c = "mux_stream_drop i (b, ms_conn m)"
  let ?m = "m\<lparr>ms_conn := ?c, ms_shut := insert i (ms_shut m)\<rparr>"
  have "sends put ?c ?m"
  proof (cases "b \<or> cn_closed (ms_conn m)")
    case True
    then have "?c = ms_conn m" by (auto simp: mux_stream_drop_def)
    with sends_shut [OF m(2), of i ?c] show ?thesis by simp
  next
    case False
    then have "?c = (ms_conn m)\<lparr>cn_controls := cn_controls (ms_conn m) @ [(FRAME_FIN, i)]\<rparr>" by (auto simp: mux_stream_drop_def)
    with sends_control [OF sends_shut [OF m(2), of i ?c], of FRAME_FIN i] show ?thesis by simp
  qed
  moreover have "same_recv got (ms_conn m) ?c" by (rule same_recv_streams) (auto simp: mux_stream_drop_def)
  moreover have "cn_split_send_size ?c = cn_split_send_size (ms_conn m)" by (simp add: mux_stream_drop_def)
  ultimately show ?case using m mux_stream_drop_wf [OF m(1)] by (auto simp: run_ok_def intro: recv_inv_same)
next
  case (closed m c p)
  note m = run_okD [OF closed.IH [OF closed.prems]] and rok = closed.IH [OF closed.prems]
  from connection_close_next [OF m(1) closed(2)] close_order [OF m(1,2) _ closed(2)] m show ?case by (intro run_ok_conn [OF rok]) auto
qed

end

section \<open>Across a transport\<close>

lemma frames_not_empty: "\<forall>f\<in>set fs. frame_ok n f \<Longrightarrow> no_empty fs"
  by (auto simp: no_empty_def frame_ok_def)

text \<open>
  The receiver has taken a prefix of what the sender has put on the wire: the complete frames agree,
  and what the reader took of the frame in progress is the beginning of the next frame of the sender.
\<close>

lemma halves_meet:
  assumes "send_inv put fs acked offered shut c" and "cn_io c = Some io" and "cn_split_send_size c < 2 ^ 32"
    and "recv_inv got gs D c'" and "cn_io c' = Some io'" and "conn_wf ok c'" and "prefix (got io') (put io)"
  shows "\<exists>fs'. fs = gs @ fs' \<and> (\<exists>W. D s @ buf c' s = payloads s gs @ W \<and> prefix W (payloads s fs'))"
proof -
  have ok: "\<forall>f\<in>set fs. frame_ok (cn_split_send_size c) f" using assms(1) by (simp add: send_inv_def)
  then have "in": "\<forall>f\<in>set fs. frame_in f" using assms(3) by (auto intro: frame_ok_in)
  from assms(4,5) obtain W where W: "got io' = wire gs @ partial c' W" "length W = consumed c'"
      "no_empty gs \<longrightarrow> in_order gs D c' W" and gs: "\<forall>f\<in>set gs. frame_in f" and r: "reading_ok c'"
    by (auto simp: recv_inv_def)
  have "put io @ unsent c = wire fs" using assms(1,2) by (auto simp: send_inv_def)
  then have "prefix (got io') (wire fs)" using assms(7) by (metis prefix_prefix)
  then obtain fs' where fs': "fs = gs @ fs'" "prefix (partial c' W) (wire fs')"
    using wire_prefix [OF _ gs "in"] W(1) by auto
  have ord: "D s @ buf c' s = payloads s gs @ progress c' W s"
    using W(3) frames_not_empty [of gs] ok fs'(1) by (auto simp: in_order_def)
  have "prefix (progress c' W s) (payloads s fs')"
  proof (cases "\<exists>fr. cn_read_frame c' = Some fr \<and> pr_kind fr = FRAME_DATA \<and> pr_stream fr = s")
    case True
    then obtain fr where fr: "cn_read_frame c' = Some fr" "pr_kind fr = FRAME_DATA" "pr_stream fr = s" by blast
    have small: "pr_length fr < 2 ^ 32" "length W \<le> pr_length fr"
      using r fr(1) assms(6) W(2) by (auto simp: reading_ok_def consumed_def conn_wf_def read_wf_def)
    have "prefix (header_bytes (pr_kind fr) (pr_stream fr) (pr_length fr) @ W @ take (pr_buffer_offset fr) (pr_bytes fr)) (wire fs')"
      using fs'(2) fr(1) by (simp add: partial_def frame_header_bytes_def)
    from wire_front [OF this small(1)] "in" fs'(1) obtain p fs2 where p: "fs' = (pr_kind fr, pr_stream fr, p) # fs2" "length p = pr_length fr"
        "prefix (W @ take (pr_buffer_offset fr) (pr_bytes fr)) (p @ wire fs2)"
      by auto
    from p(3) have "prefix W (p @ wire fs2)" by (metis append_prefixD)
    then have "prefix W p" using p(2) \<open>length W \<le> pr_length fr\<close> by (auto simp: prefix_append intro: prefix_length_prefix)
    then show ?thesis using fr p(1) by (auto simp: progress_def)
  next
    case False
    then show ?thesis by (auto simp: progress_def split: option.splits)
  qed
  with ord fs'(1) show ?thesis by blast
qed

text \<open>
  C2: Two endpoints of the multiplexer over a transport that hands over what it was given, in order.
  Until its first error, each stream delivers to its reader a prefix of the bytes its writer was
  told are accepted followed by those it has offered: nothing is lost, repeated, reordered or
  moved between streams. When the reader has seen the end of a stream, the writer had closed it and
  the reader has been given every accepted byte.
\<close>

theorem mux_streams_in_order:
  assumes "duplex_contract T okT" and "okT ta" and "duplex_contract U okU" and "okU tb"
    and "0 < split_send_size ca" and "split_send_size ca < 2 ^ 32" and "receive_window_bytes ca < usize_max"
    and "0 < split_send_size cb" and "receive_window_bytes cb < usize_max"
    and "mux_run (traced_duplex T) (connection_new (ta, [], []) ra ca) a"
    and "mux_run (traced_duplex U) (connection_new (tb, [], []) rb cb) b"
    and "cn_io (ms_conn a) = Some ioa" and "cn_io (ms_conn b) = Some iob" and "prefix (traced_got iob) (traced_put ioa)"
  shows "prefix (ms_delivered b s) (ms_acked a s @ (case ms_offered a s of None \<Rightarrow> [] | Some d \<Rightarrow> d))
    \<and> (\<forall>st. stream_get (ms_conn b) s = Some st \<and> ss_eof st \<and> buffered st = []
         \<longrightarrow> s \<in> ms_shut a \<and> prefix (ms_acked a s) (ms_delivered b s))"
proof -
  let ?a = "connection_new (ta, [], []) ra ca" and ?b = "connection_new (tb, [], []) rb cb"
  have "run_ok (traced_ok okT) traced_got traced_put ?a (mux_start ?a)"
    using assms(2,5,7) by (intro run_ok_start [OF connection_new_wf]) auto
  note ra = duplex.run_keeps [OF traced_duplex_contract [OF assms(1)] assms(10) this]
  have "run_ok (traced_ok okU) traced_got traced_put ?b (mux_start ?b)"
    using assms(4,8,9) by (intro run_ok_start [OF connection_new_wf]) auto
  note rb = duplex.run_keeps [OF traced_duplex_contract [OF assms(3)] assms(11) this]
  obtain fs where fs: "send_inv traced_put fs (ms_acked a) (ms_offered a) (ms_shut a) (ms_conn a)"
    using run_okD(2) [OF ra] by (auto simp: sends_def)
  obtain gs where gs: "recv_inv traced_got gs (ms_delivered b) (ms_conn b)" using run_okD(3) [OF rb] by blast
  have "cn_split_send_size (ms_conn a) < 2 ^ 32" using run_okD(4) [OF ra] assms(6) by (simp add: connection_new_def)
  from halves_meet [OF fs assms(12) this gs assms(13) run_okD(1) [OF rb] assms(14)]
  obtain fs' W where m: "fs = gs @ fs'" "ms_delivered b s @ buf (ms_conn b) s = payloads s gs @ W" "prefix W (payloads s fs')" by blast
  from fs obtain I where I: "payloads s fs = ms_acked a s @ I" "I \<noteq> [] \<longrightarrow> (\<exists>d. ms_offered a s = Some d \<and> prefix I d)"
    unfolding send_inv_def by blast
  have "prefix (ms_delivered b s) (payloads s gs @ W)" unfolding m(2) [symmetric] by simp
  also have "prefix (payloads s gs @ W) (ms_acked a s @ I)" using m(1,3) I(1) by (metis payloads_append same_prefix_prefix)
  also have "prefix (ms_acked a s @ I) (ms_acked a s @ (case ms_offered a s of None \<Rightarrow> [] | Some d \<Rightarrow> d))"
    using I(2) by (cases "I = []") auto
  finally have one: "prefix (ms_delivered b s) (ms_acked a s @ (case ms_offered a s of None \<Rightarrow> [] | Some d \<Rightarrow> d))" .
  moreover have "s \<in> ms_shut a \<and> prefix (ms_acked a s) (ms_delivered b s)"
    if st: "stream_get (ms_conn b) s = Some st" "ss_eof st" "buffered st = []" for st
  proof -
    have fin: "(FRAME_FIN, s, []) \<in> set gs" using gs st(1,2) by (auto simp: recv_inv_def)
    then obtain xs ys where "gs = xs @ (FRAME_FIN, s, []) # ys" by (meson split_list)
    then have "fs = xs @ (FRAME_FIN, s, []) # (ys @ fs')" using m(1) by simp
    moreover have "fin_last fs" using fs by (simp add: send_inv_def)
    ultimately have "payloads s (ys @ fs') = []" unfolding fin_last_def by blast
    then have "payloads s fs' = []" "W = []" using m(3) by auto
    then have "ms_delivered b s = ms_acked a s @ I" using m(1,2) I(1) st by (simp add: buf_def)
    moreover have "s \<in> ms_shut a" using fs fin m(1) by (auto simp: send_inv_def)
    ultimately show ?thesis by simp
  qed
  ultimately show ?thesis by blast
qed

text \<open>A client opens stream 1 and writes two bytes; the server receives the frames and reads them.\<close>

abbreviation demo_module :: "(bytes module_byte_io \<times> bytes \<times> bytes) byte_io" where
  "demo_module \<equiv> traced_duplex module_transport"

definition demo_client :: "(bytes module_byte_io \<times> bytes \<times> bytes) mux_state" where
  "demo_client =
     (let c1 = fst (queue_stream (demo_connection Client_Mode []));
          c2 = fst (poll_control demo_module FRAME_OPEN 1 c1);
          r = mux_poll_write demo_module 1 [104, 105] c2
      in note_write 1 [104, 105] (snd r) ((mux_start (demo_connection Client_Mode []))\<lparr>ms_conn := fst r\<rparr>))"

definition demo_server :: "(bytes module_byte_io \<times> bytes \<times> bytes) mux_state" where
  "demo_server =
     (let c0 = demo_connection Server_Mode (mux_frame FRAME_OPEN 1 [] @ mux_frame FRAME_DATA 1 [104, 105]);
          c1 = fst (poll_drive demo_module c0);
          r = mux_poll_read demo_module 1 [0, 0, 0] c1
      in note_read 1 (fst (snd r)) (snd (snd r)) ((mux_start c0)\<lparr>ms_conn := fst r\<rparr>))"

lemma demo_client_run: "mux_run demo_module (demo_connection Client_Mode []) demo_client"
proof -
  let ?c0 = "demo_connection Client_Mode []"
  define c1 where "c1 = fst (queue_stream ?c0)"
  define c2 where "c2 = fst (poll_control demo_module FRAME_OPEN 1 c1)"
  define r where "r = mux_poll_write demo_module 1 [104, 105] c2"
  have q: "snd (queue_stream ?c0) = Inr 1" by code_simp
  have o: "snd (poll_control demo_module FRAME_OPEN 1 (fst (queue_stream ?c0))) = Ready (Inr ())" by code_simp
  have st: "stream_get (fst (poll_control demo_module FRAME_OPEN 1 (fst (queue_stream ?c0)))) 1 \<noteq> None" by code_simp
  have w: "snd (mux_poll_write demo_module 1 [104, 105] (fst (poll_control demo_module FRAME_OPEN 1 (fst (queue_stream ?c0)))))
      = Ready (Inr 2)" by code_simp
  have "queue_stream (ms_conn (mux_start ?c0)) = (c1, Inr 1)" using q by (simp add: mux_start_def c1_def prod_eq_iff)
  from mux_run.queued [OF mux_run.start this] have m1: "mux_run demo_module ?c0 ((mux_start ?c0)\<lparr>ms_conn := c1\<rparr>)" .
  have "poll_control demo_module FRAME_OPEN 1 (ms_conn ((mux_start ?c0)\<lparr>ms_conn := c1\<rparr>)) = (c2, Ready (Inr ()))"
    using o by (simp add: c1_def c2_def prod_eq_iff)
  from mux_run.opened [OF m1 this] have m2: "mux_run demo_module ?c0 ((mux_start ?c0)\<lparr>ms_conn := c2\<rparr>)" by simp
  have "mux_poll_write demo_module 1 [104, 105] (ms_conn ((mux_start ?c0)\<lparr>ms_conn := c2\<rparr>)) = (fst r, Ready (Inr 2))"
    using w by (simp add: r_def c1_def c2_def prod_eq_iff)
  from mux_run.written [OF m2 _ _ _ _ this] st w show ?thesis
    by (simp add: demo_client_def Let_def c1_def c2_def r_def mux_start_def)
qed

lemma demo_server_run:
  "mux_run demo_module (demo_connection Server_Mode (mux_frame FRAME_OPEN 1 [] @ mux_frame FRAME_DATA 1 [104, 105])) demo_server"
proof -
  let ?c0 = "demo_connection Server_Mode (mux_frame FRAME_OPEN 1 [] @ mux_frame FRAME_DATA 1 [104, 105])"
  define c1 where "c1 = fst (poll_drive demo_module ?c0)"
  define r where "r = mux_poll_read demo_module 1 [0, 0, 0] c1"
  have d: "snd (poll_drive demo_module ?c0) = Ready (Inr ())" by code_simp
  have p: "snd (snd (mux_poll_read demo_module 1 [0, 0, 0] (fst (poll_drive demo_module ?c0)))) = Ready (Inr 2)" by code_simp
  have "poll_drive demo_module (ms_conn (mux_start ?c0)) = (c1, Ready (Inr ()))"
    using d by (simp add: mux_start_def c1_def prod_eq_iff)
  from mux_run.driven [OF mux_run.start this] have m1: "mux_run demo_module ?c0 ((mux_start ?c0)\<lparr>ms_conn := c1\<rparr>)" by simp
  have "mux_poll_read demo_module 1 [0, 0, 0] (ms_conn ((mux_start ?c0)\<lparr>ms_conn := c1\<rparr>)) = (fst r, fst (snd r), snd (snd r))"
    by (simp add: r_def)
  from mux_run.read [OF m1 this] p show ?thesis by (simp add: demo_server_def Let_def c1_def r_def)
qed

theorem mux_streams_in_order_witness:
  "ms_delivered demo_server 1 = [104, 105] \<and> prefix (ms_delivered demo_server 1) (ms_acked demo_client 1)"
proof -
  have v: "ms_delivered demo_server 1 = [104, 105]" "ms_acked demo_client 1 = [104, 105]" "ms_offered demo_client 1 = None"
      "map_option traced_put (cn_io (ms_conn demo_client)) = Some (mux_frame FRAME_OPEN 1 [] @ mux_frame FRAME_DATA 1 [104, 105])"
      "map_option traced_got (cn_io (ms_conn demo_server)) = Some (mux_frame FRAME_OPEN 1 [] @ mux_frame FRAME_DATA 1 [104, 105])"
    by code_simp+
  from v(4,5) obtain ioa iob where io: "cn_io (ms_conn demo_client) = Some ioa" "cn_io (ms_conn demo_server) = Some iob"
      "prefix (traced_got iob) (traced_put ioa)" by auto
  have y: "0 < split_send_size (yamux_of low_memory_template)" "split_send_size (yamux_of low_memory_template) < 2 ^ 32"
      "receive_window_bytes (yamux_of low_memory_template) < usize_max"
    by (simp_all add: low_memory_template_def usize_max_def)
  note r = demo_client_run [unfolded demo_connection_def demo_transport_def] demo_server_run [unfolded demo_connection_def demo_transport_def]
  show ?thesis
    using mux_streams_in_order [OF module_stream.duplex_contract_axioms demo_transport_ok module_stream.duplex_contract_axioms
        demo_transport_ok y y(1,3) r io, of 1] v by simp
qed

section \<open>Behaviours outside the contract\<close>

text \<open>
  Two streams are opened with \<open>begin_open_flow_confirmed\<close>, which queues their OPEN frames. The second
  one writes first: \<open>poll_data\<close> starts one queued control only, so its data overtakes its OPEN
  frame, and the peer fails on the unknown stream.
\<close>

definition two_opens :: "(bytes module_byte_io \<times> bytes \<times> bytes) connection" where
  "two_opens =
     (let c = fst (queue_stream (fst (queue_stream (demo_connection Client_Mode []))))
      in c\<lparr>cn_controls := [(FRAME_OPEN, 1), (FRAME_OPEN, 3)]\<rparr>)"

lemma data_overtakes_open:
  "map_option traced_put (cn_io (fst (mux_poll_write demo_module 3 [7] two_opens)))
     = Some (mux_frame FRAME_OPEN 1 [] @ mux_frame FRAME_DATA 3 [7])"
  "snd (poll_drive demo_module (fst (poll_drive demo_module
     (demo_connection Server_Mode (mux_frame FRAME_OPEN 1 [] @ mux_frame FRAME_DATA 3 [7])))))
     = Ready (Inl (Io_Error InvalidData ''unknown mux stream''))"
  by code_simp+

text \<open>
  A transport that accepts a frame and is not done flushing: \<open>poll_control\<close> forgets that the frame
  was written and sends it again when it is polled next; the peer refuses the second OPEN.
\<close>

definition slow_table :: "nat byte_table" where
  "slow_table =
     \<lparr>bt_struct_size = 48, bt_reserved = 0,
      bt_read = Some (\<lambda>m h buf. (m, buf, snol_pending)),
      bt_write = Some (\<lambda>m h bs. (m, snol_progress (length bs))),
      bt_flush = Some (\<lambda>m h. (m - 1, if m = 0 then snol_progress 0 else snol_pending)),
      bt_shutdown_write = Some (\<lambda>m h. (m, snol_progress 0)),
      bt_close = Some (\<lambda>m h. (m, STATUS_OK))\<rparr>"

definition slow_connection :: "(nat module_byte_io \<times> bytes \<times> bytes) connection" where
  "slow_connection = connection_new (module_io_new 1 slow_table 1, [], []) Client_Mode (yamux_of low_memory_template)"

lemma open_sent_twice:
  "map_option traced_put (cn_io (fst (poll_control (traced_duplex module_transport) FRAME_OPEN 1
     (fst (poll_control (traced_duplex module_transport) FRAME_OPEN 1 (fst (queue_stream slow_connection)))))))
     = Some (mux_frame FRAME_OPEN 1 [] @ mux_frame FRAME_OPEN 1 [])"
  "snd (poll_drive demo_module (fst (poll_drive demo_module
     (demo_connection Server_Mode (mux_frame FRAME_OPEN 1 [] @ mux_frame FRAME_OPEN 1 [])))))
     = Ready (Inl (Io_Error InvalidData ''yamux stream order is invalid''))"
  by code_simp+

text \<open>
  A peer that sends an empty data frame: it is queued, and when the reader reaches it the next frame
  is read from the wire ahead of the bytes still buffered.
\<close>

definition reordered :: "(bytes module_byte_io \<times> bytes \<times> bytes) connection" where
  "reordered =
     (let d = (\<lambda>c. fst (poll_drive demo_module c))
      in d (d (d (demo_connection Server_Mode
           (mux_frame FRAME_OPEN 1 [] @ mux_frame FRAME_DATA 1 [] @ mux_frame FRAME_DATA 1 [1] @ mux_frame FRAME_DATA 1 [2])))))"

lemma empty_frame_reorders:
  "snd (mux_poll_read demo_module 1 [0] reordered) = ([2], Ready (Inr 1))"
  "snd (mux_poll_read demo_module 1 [0] (fst (mux_poll_read demo_module 1 [0] reordered))) = ([1], Ready (Inr 1))"
  by code_simp+

text \<open>The writer retries with fewer bytes than it first offered and is told a larger count.\<close>

definition stalled_table :: "nat byte_table" where
  "stalled_table = slow_table\<lparr>bt_write := Some (\<lambda>m h bs. (m - 1, if m = 0 then snol_progress (length bs) else snol_pending))\<rparr>"

lemma write_count_exceeds_slice:
  "snd (mux_poll_write (traced_duplex module_transport) 1 [1]
     (fst (mux_poll_write (traced_duplex module_transport) 1 [1, 2, 3]
        (fst (queue_stream (connection_new (module_io_new 1 stalled_table 1, [], []) Client_Mode (yamux_of low_memory_template)))))))
     = Ready (Inr 3)"
  by code_simp

end
