(* ===== verification/Mux_Datagram.thy ===== *)
theory Mux_Datagram
  imports Wire Module_Transport Pump
begin

text \<open>
  Datagrams over a byte stream (\<open>core_io.rs\<close>, \<open>MuxDatagramIo\<close>): every datagram is a record of a
  two-byte length and the payload. The stream is any transport that keeps the contract of
  \<open>duplex_contract\<close>; a write that is pending is repeated with the same bytes. The run of an object is an
  inductive relation with the datagrams sent and received as ghosts; what two runs joined by a
  transport agree on is the theorem at the end.
\<close>

section \<open>Model\<close>

record 't mux_datagram_io =
  md_stream :: 't
  md_read_prefix :: bytes
  md_read_prefix_len :: nat
  md_read_payload :: bytes
  md_read_payload_len :: nat
  md_send_frame :: bytes
  md_send_offset :: nat
  md_closed :: bool

definition mux_datagram_new :: "'t \<Rightarrow> 't mux_datagram_io" where
  "mux_datagram_new stream =
     \<lparr>md_stream = stream, md_read_prefix = [0, 0], md_read_prefix_len = 0, md_read_payload = [],
      md_read_payload_len = 0, md_send_frame = [], md_send_offset = 0, md_closed = False\<rparr>"

text \<open>The part of \<open>poll_recv_datagram\<close> behind the length prefix: the buffer, its contents, the copy.\<close>

definition md_deliver :: "'t mux_datagram_io \<Rightarrow> bytes \<Rightarrow> 't mux_datagram_io \<times> bytes \<times> datagram_recv io_result poll" where
  "md_deliver d output =
     (if length output < length (md_read_payload d)
      then (d, output, Ready (Inr (BufferTooSmall (length (md_read_payload d)))))
      else (d\<lparr>md_read_payload := [], md_read_payload_len := 0, md_read_prefix_len := 0\<rparr>,
            splice output 0 (md_read_payload d), Ready (Inr (Datagram (length (md_read_payload d))))))"

definition md_fill_payload ::
    "'t byte_io \<Rightarrow> 't mux_datagram_io \<Rightarrow> bytes \<Rightarrow> 't mux_datagram_io \<times> bytes \<times> datagram_recv io_result poll" where
  "md_fill_payload T d output =
     (case fill T (length (md_read_payload d)) (md_read_payload d) (md_read_payload_len d) (md_stream d) of
        (payload, off, io, r) \<Rightarrow>
          (let d = d\<lparr>md_stream := io, md_read_payload := payload, md_read_payload_len := off\<rparr> in
           case r of
             Ready (Inr True) \<Rightarrow> md_deliver d output
           | Ready (Inr False) \<Rightarrow> (d, output, Ready (Inl (Io_Error UnexpectedEof ''UDP frame ended in payload'')))
           | Ready (Inl error) \<Rightarrow> (d, output, Ready (Inl error))
           | Pending \<Rightarrow> (d, output, Pending)
           | Panicked \<Rightarrow> (d, output, Panicked)))"

definition md_payload ::
    "'t byte_io \<Rightarrow> 't mux_datagram_io \<Rightarrow> bytes \<Rightarrow> 't mux_datagram_io \<times> bytes \<times> datagram_recv io_result poll" where
  "md_payload T d output =
     (if md_read_payload d = [] \<and> md_read_payload_len d = 0 then
        (let len = unat (u16_from_be (md_read_prefix d)) in
         if MAX_UDP_PAYLOAD < len then (d, output, Ready (Inl (Io_Error InvalidData ''UDP frame exceeds wire limit'')))
         else if len = 0 then (d\<lparr>md_read_prefix_len := 0\<rparr>, output, Ready (Inr (Datagram 0)))
         else md_fill_payload T (d\<lparr>md_read_payload := replicate len 0\<rparr>) output)
      else md_fill_payload T d output)"

definition md_poll_recv ::
    "'t byte_io \<Rightarrow> 't mux_datagram_io \<Rightarrow> bytes \<Rightarrow> 't mux_datagram_io \<times> bytes \<times> datagram_recv io_result poll" where
  "md_poll_recv T d output =
     (case fill T 2 (md_read_prefix d) (md_read_prefix_len d) (md_stream d) of
        (p, off, io, r) \<Rightarrow>
          (let d = d\<lparr>md_stream := io, md_read_prefix := p, md_read_prefix_len := off\<rparr> in
           case r of
             Ready (Inr True) \<Rightarrow> md_payload T d output
           | Ready (Inr False) \<Rightarrow>
               if off = 0 then (d\<lparr>md_closed := True\<rparr>, output, Ready (Inr Closed))
               else (d, output, Ready (Inl (Io_Error UnexpectedEof ''UDP frame ended in length prefix'')))
           | Ready (Inl error) \<Rightarrow> (d, output, Ready (Inl error))
           | Pending \<Rightarrow> (d, output, Pending)
           | Panicked \<Rightarrow> (d, output, Panicked)))"

text \<open>The loop that writes a frame; \<open>Inr False\<close> when the stream accepts no byte.\<close>

function write_frame :: "'t byte_io \<Rightarrow> bytes \<Rightarrow> nat \<Rightarrow> 't \<Rightarrow> nat \<times> 't \<times> bool io_result poll" where
  "write_frame T frame off io =
     (if length frame \<le> off then (off, io, Ready (Inr True))
      else
        (case io_write T io (drop off frame) of (io', w) \<Rightarrow>
         (case w of
            Ready (Inr count) \<Rightarrow>
              if count = 0 then (off, io', Ready (Inr False)) else write_frame T frame (off + count) io'
          | Ready (Inl error) \<Rightarrow> (off, io', Ready (Inl error))
          | Pending \<Rightarrow> (off, io', Pending)
          | Panicked \<Rightarrow> (off, io', Panicked))))"
  by pat_completeness auto

termination write_frame
  by (relation "measure (\<lambda>(T, frame, off, io). length frame - off)") auto

declare write_frame.simps [simp del]

definition md_write :: "'t byte_io \<Rightarrow> 't mux_datagram_io \<Rightarrow> 't mux_datagram_io \<times> unit io_result poll" where
  "md_write T d =
     (case write_frame T (md_send_frame d) (md_send_offset d) (md_stream d) of (off, io, r) \<Rightarrow>
        (let d = d\<lparr>md_stream := io, md_send_offset := off\<rparr> in
         case r of
           Ready (Inr True) \<Rightarrow> (d\<lparr>md_send_frame := [], md_send_offset := 0\<rparr>, Ready (Inr ()))
         | Ready (Inr False) \<Rightarrow> (d, Ready (Inl (Io_Error WriteZeroKind ''UDP frame write made no progress'')))
         | Ready (Inl error) \<Rightarrow> (d, Ready (Inl error))
         | Pending \<Rightarrow> (d, Pending)
         | Panicked \<Rightarrow> (d, Panicked)))"

definition md_poll_send :: "'t byte_io \<Rightarrow> 't mux_datagram_io \<Rightarrow> bytes \<Rightarrow> 't mux_datagram_io \<times> unit io_result poll" where
  "md_poll_send T d datagram =
     (if MAX_UDP_PAYLOAD < length datagram
      then (d, Ready (Inl (Io_Error InvalidInput ''UDP payload exceeds wire limit'')))
      else if md_send_frame d = [] then
        if 2 ^ 16 \<le> length datagram then (d, Ready (Inl (Io_Error InvalidInput ''UDP payload exceeds u16'')))
        else md_write T (d\<lparr>md_send_frame := to_be 2 (length datagram) @ datagram\<rparr>)
      else if slice_get (md_send_frame d) 2 (length (md_send_frame d)) \<noteq> Some datagram
      then (d, Ready (Inl (Io_Error InvalidInput ''changed UDP payload while send is pending'')))
      else md_write T d)"

definition md_close :: "'t mux_datagram_io \<Rightarrow> 't mux_datagram_io \<times> unit io_result poll" where
  "md_close d = (d\<lparr>md_closed := True\<rparr>, Ready (Inr ()))"

definition mux_datagram :: "'t byte_io \<Rightarrow> 't mux_datagram_io datagram_io" where
  "mux_datagram T = \<lparr>dg_recv = md_poll_recv T, dg_send = md_poll_send T, dg_close = md_close\<rparr>"

section \<open>Invariant and histories\<close>

definition udp_record :: "bytes \<Rightarrow> bytes" where
  "udp_record dg = to_be 2 (length dg) @ dg"

abbreviation udp_records :: "bytes list \<Rightarrow> bytes" where
  "udp_records dgs \<equiv> concat (map udp_record dgs)"

definition recv_wf :: "bytes \<Rightarrow> nat \<Rightarrow> bytes \<Rightarrow> nat \<Rightarrow> bool" where
  "recv_wf p n payload k \<longleftrightarrow>
     length p = 2 \<and> n \<le> 2 \<and> k \<le> length payload
     \<and> (payload \<noteq> [] \<longrightarrow> n = 2 \<and> length payload = from_be p \<and> udp_valid payload)"

definition send_wf :: "bytes \<Rightarrow> nat \<Rightarrow> bool" where
  "send_wf frame off \<longleftrightarrow>
     (if frame = [] then off = 0 else off < length frame \<and> (\<exists>dg. udp_valid dg \<and> frame = udp_record dg))"

definition md_wf :: "('t \<Rightarrow> bool) \<Rightarrow> 't mux_datagram_io \<Rightarrow> bool" where
  "md_wf ok d \<longleftrightarrow> ok (md_stream d)
     \<and> recv_wf (md_read_prefix d) (md_read_prefix_len d) (md_read_payload d) (md_read_payload_len d)
     \<and> send_wf (md_send_frame d) (md_send_offset d)"

text \<open>What has been read of a record that is not delivered yet, and what has been written of one that is not sent yet.\<close>

definition partly_read :: "'t mux_datagram_io \<Rightarrow> bytes" where
  "partly_read d = take (md_read_prefix_len d) (md_read_prefix d) @ take (md_read_payload_len d) (md_read_payload d)"

definition partly_written :: "'t mux_datagram_io \<Rightarrow> bytes" where
  "partly_written d = take (md_send_offset d) (md_send_frame d)"

definition received :: "bytes \<Rightarrow> datagram_recv io_result poll \<Rightarrow> bytes list" where
  "received out r = (case r of Ready (Inr (Datagram n)) \<Rightarrow> [take n out] | _ \<Rightarrow> [])"

text \<open>What a receive step establishes.\<close>

definition recv_step ::
    "('t \<Rightarrow> bool) \<Rightarrow> ('t \<Rightarrow> bytes) \<Rightarrow> ('t \<Rightarrow> bytes) \<Rightarrow> 't mux_datagram_io \<Rightarrow> bytes \<Rightarrow> 't mux_datagram_io \<times> bytes \<times> datagram_recv io_result poll \<Rightarrow> bool" where
  "recv_step ok got put d out res \<longleftrightarrow>
     (case res of (d', out', r) \<Rightarrow>
        md_wf ok d' \<and> length out' = length out \<and> r \<noteq> Panicked
        \<and> (\<forall>n. r = Ready (Inr (Datagram n)) \<longrightarrow> n \<le> length out)
        \<and> put (md_stream d') = put (md_stream d) \<and> md_send_frame d' = md_send_frame d \<and> md_send_offset d' = md_send_offset d
        \<and> (\<exists>new. got (md_stream d') = got (md_stream d) @ new
             \<and> partly_read d @ new = udp_records (received out' r) @ partly_read d')
        \<and> list_all udp_valid (received out' r))"

lemma from_be_to_be_2: "n \<le> MAX_UDP_PAYLOAD \<Longrightarrow> from_be (to_be 2 n) = n"
  by (simp only: from_be_to_be) (simp add: MAX_UDP_PAYLOAD_def)

lemma udp_record_from: "length p = 2 \<Longrightarrow> length dg = from_be p \<Longrightarrow> udp_record dg = p @ dg"
  by (simp add: udp_record_def to_be_from_be)

lemma take_then_slice: "k \<le> off \<Longrightarrow> take k p = take k q \<Longrightarrow> take k q @ slice p k off = take off p"
  by (metis slice_def take_add le_add_diff_inverse)

lemma recv_step_after:
  assumes "recv_step ok got put e out res" and "got (md_stream e) = got (md_stream d) @ x" and "partly_read d @ x = partly_read e"
    and "put (md_stream e) = put (md_stream d)" and "md_send_frame e = md_send_frame d" and "md_send_offset e = md_send_offset d"
  shows "recv_step ok got put d out res"
proof -
  obtain d' out' r where res: "res = (d', out', r)" by (metis prod_cases3)
  from assms(1) obtain new where new: "got (md_stream d') = got (md_stream e) @ new"
      "partly_read e @ new = udp_records (received out' r) @ partly_read d'"
    unfolding recv_step_def res prod.case by blast
  then have "got (md_stream d') = got (md_stream d) @ (x @ new)" "partly_read d @ (x @ new) = udp_records (received out' r) @ partly_read d'"
    using assms(2,3) by (simp_all flip: append_assoc)
  with assms(1,4-6) show ?thesis unfolding recv_step_def res prod.case by metis
qed

lemma md_deliver_step:
  assumes "md_wf ok d" and "md_read_payload_len d = length (md_read_payload d)" and "md_read_payload d \<noteq> []"
  shows "recv_step ok got put d out (md_deliver d out)"
proof -
  have w: "length (md_read_prefix d) = 2" "md_read_prefix_len d = 2" "length (md_read_payload d) = from_be (md_read_prefix d)"
      "udp_valid (md_read_payload d)"
    using assms by (auto simp: md_wf_def recv_wf_def)
  have "partly_read d = udp_record (md_read_payload d)"
    using w assms(2) by (simp add: partly_read_def udp_record_from)
  moreover have "take (length (md_read_payload d)) (splice out 0 (md_read_payload d)) = md_read_payload d" by (simp add: splice_def)
  ultimately show ?thesis using assms(1) w
    by (auto simp: md_deliver_def recv_step_def md_wf_def recv_wf_def received_def partly_read_def)
qed

context duplex
begin

lemma write_frame_flushed:
  assumes "ok io" and "off \<le> length frame" and "write_frame T frame off io = (off', io', r)"
  shows "ok io' \<and> got io' = got io \<and> off \<le> off' \<and> off' \<le> length frame \<and> put io' = put io @ slice frame off off'
    \<and> (if r = Ready (Inr True) then off' = length frame else off' < length frame) \<and> r \<noteq> Panicked"
  using assms
proof (induction "length frame - off" arbitrary: off io rule: less_induct)
  case less
  obtain io1 w where wr: "io_write T io (drop off frame) = (io1, w)" by fastforce
  have ok1: "ok io1" "w \<noteq> Panicked" "\<forall>n. w = Ready (Inr n) \<longrightarrow> n \<le> length frame - off"
    using write_ok [OF less.prems(1) wr] by auto
  have tr: "put io1 = put io @ (case w of Ready (Inr n) \<Rightarrow> take n (drop off frame) | _ \<Rightarrow> [])" "got io1 = got io"
    using write_trace [OF wr] by auto
  note step = write_frame.simps [of T frame off io, unfolded wr prod.case less.prems(3)]
  consider (full) "off = length frame" | (more) n where "off < length frame" "w = Ready (Inr n)" "n \<noteq> 0"
    | (stop) "off < length frame" "\<forall>n. w = Ready (Inr n) \<longrightarrow> n = 0"
    using less.prems(2) by (metis le_neq_implies_less)
  then show ?case
  proof cases
    case more
    then have le: "off + n \<le> length frame" using ok1(3) by fastforce
    have "write_frame T frame (off + n) io1 = (off', io', r)" using step more by simp
    from less.hyps [OF _ ok1(1) le this] more
    have f: "ok io' \<and> got io' = got io1 \<and> off + n \<le> off' \<and> off' \<le> length frame \<and> put io' = put io1 @ slice frame (off + n) off'
      \<and> (if r = Ready (Inr True) then off' = length frame else off' < length frame) \<and> r \<noteq> Panicked" by simp
    then have "put io1 @ slice frame (off + n) off' = put io @ slice frame off off'"
      using tr(1) more(2) slice_split [of off "off + n" off' frame] by (simp add: slice_def)
    then show ?thesis using f tr(2) by auto
  next
    case full
    then show ?thesis using step less.prems by simp
  next
    case stop
    then show ?thesis
      using step ok1 tr less.prems by (auto split: poll.splits sum.splits)
  qed
qed

lemma md_fill_payload_step:
  assumes "md_wf ok d" and "md_read_payload d \<noteq> []"
  shows "recv_step ok got put d out (md_fill_payload T d out)"
proof -
  let ?P = "md_read_payload d" and ?k = "md_read_payload_len d"
  obtain p off io r where f: "fill T (length ?P) ?P ?k (md_stream d) = (p, off, io, r)" by (metis prod_cases4)
  define e where "e = d\<lparr>md_stream := io, md_read_payload := p, md_read_payload_len := off\<rparr>"
  have w: "ok (md_stream d)" "?k \<le> length ?P" "length (md_read_prefix d) = 2" "md_read_prefix_len d = 2"
      "length ?P = from_be (md_read_prefix d)" "udp_valid ?P" "send_wf (md_send_frame d) (md_send_offset d)"
    using assms by (auto simp: md_wf_def recv_wf_def)
  have fl: "ok io" "put io = put (md_stream d)" "length p = length ?P" "?k \<le> off" "off \<le> length ?P"
      "take ?k p = take ?k ?P" "got io = got (md_stream d) @ slice p ?k off"
      "if r = Ready (Inr True) then off = length ?P else off < length ?P" "r \<noteq> Panicked"
    using fill_filled [OF w(1,2) refl] unfolding f filled_def by auto
  have e: "md_wf ok e" using fl w assms(2) by (auto simp: e_def md_wf_def recv_wf_def udp_valid_def)
  have pr: "partly_read d @ slice p ?k off = partly_read e"
    using take_then_slice [OF fl(4,6)] by (simp add: partly_read_def e_def)
  have step: "md_fill_payload T d out = (case r of
      Ready (Inr True) \<Rightarrow> md_deliver e out
    | Ready (Inr False) \<Rightarrow> (e, out, Ready (Inl (Io_Error UnexpectedEof ''UDP frame ended in payload'')))
    | Ready (Inl error) \<Rightarrow> (e, out, Ready (Inl error)) | Pending \<Rightarrow> (e, out, Pending) | Panicked \<Rightarrow> (e, out, Panicked))"
    unfolding md_fill_payload_def f prod.case Let_def e_def [symmetric] ..
  show ?thesis
  proof (cases "r = Ready (Inr True)")
    case True
    have "recv_step ok got put e out (md_deliver e out)"
      using fl True e assms(2) by (intro md_deliver_step) (auto simp: e_def)
    then show ?thesis unfolding step True poll.case sum.case bool.case
      by (rule recv_step_after) (use fl(2,7) pr in \<open>simp_all add: e_def\<close>)
  next
    case False
    then have "\<exists>q. md_fill_payload T d out = (e, out, q) \<and> q \<noteq> Panicked \<and> received out q = [] \<and> (\<forall>n. q \<noteq> Ready (Inr (Datagram n)))"
      unfolding step using fl(9) by (auto simp: received_def split: poll.split sum.split bool.split)
    then show ?thesis using e fl(2,7) pr by (auto simp: recv_step_def e_def)
  qed
qed

lemma md_payload_step:
  assumes "md_wf ok d" and "md_read_prefix_len d = 2"
  shows "recv_step ok got put d out (md_payload T d out)"
proof (cases "md_read_payload d = []")
  case False
  with md_fill_payload_step [OF assms(1) False] show ?thesis by (simp add: md_payload_def)
next
  case True
  define len where "len = unat (u16_from_be (md_read_prefix d))"
  have w: "length (md_read_prefix d) = 2" "md_read_payload_len d = 0" using assms True by (auto simp: md_wf_def recv_wf_def)
  have len: "len = from_be (md_read_prefix d)" using w(1) by (simp add: len_def unat_u16_from_be)
  note d = md_payload_def [of T d out, unfolded Let_def len_def [symmetric]]
  consider (big) "MAX_UDP_PAYLOAD < len" | (none) "len = 0" | (some) "len \<noteq> 0" "len \<le> MAX_UDP_PAYLOAD" by linarith
  then show ?thesis
  proof cases
    case big
    then show ?thesis using d assms True w by (simp add: recv_step_def received_def)
  next
    case none
    have "partly_read d = udp_record []"
      using none len w assms(2) True by (simp add: partly_read_def udp_record_from)
    then show ?thesis using d assms True w none
      by (simp add: recv_step_def received_def partly_read_def md_wf_def recv_wf_def udp_valid_def MAX_UDP_PAYLOAD_def)
  next
    case some
    let ?e = "d\<lparr>md_read_payload := replicate len 0\<rparr>"
    have "md_wf ok ?e" using assms w some len by (auto simp: md_wf_def recv_wf_def udp_valid_def)
    moreover have "partly_read ?e = partly_read d" using w True by (simp add: partly_read_def)
    ultimately show ?thesis
      using md_fill_payload_step [of ?e out] d some True w by (auto simp: recv_step_def)
  qed
qed

lemma md_poll_recv_step:
  assumes "md_wf ok d"
  shows "recv_step ok got put d out (md_poll_recv T d out)"
proof -
  let ?P = "md_read_prefix d" and ?k = "md_read_prefix_len d"
  obtain p off io r where f: "fill T 2 ?P ?k (md_stream d) = (p, off, io, r)" by (metis prod_cases4)
  define e where "e = d\<lparr>md_stream := io, md_read_prefix := p, md_read_prefix_len := off\<rparr>"
  have w: "ok (md_stream d)" "?k \<le> length ?P" "length ?P = 2" using assms by (auto simp: md_wf_def recv_wf_def)
  have fl: "ok io" "put io = put (md_stream d)" "length p = 2" "?k \<le> off" "off \<le> 2"
      "take ?k p = take ?k ?P" "got io = got (md_stream d) @ slice p ?k off"
      "if r = Ready (Inr True) then off = 2 else off < 2" "r \<noteq> Panicked"
    using fill_filled [OF w(1,2), of 2] w(3) unfolding f filled_def by auto
  have full: "md_read_payload d \<noteq> [] \<Longrightarrow> p = ?P \<and> off = 2 \<and> r = Ready (Inr True)"
    using f assms w(3) by (auto simp: md_wf_def recv_wf_def)
  have e: "md_wf ok e"
    using assms fl full by (auto simp: e_def md_wf_def recv_wf_def)
  have pr: "partly_read d @ slice p ?k off = partly_read e"
  proof (cases "md_read_payload d = []")
    case True
    then have "md_read_payload_len d = 0" using assms by (simp add: md_wf_def recv_wf_def)
    with True take_then_slice [OF fl(4,6)] show ?thesis by (simp add: partly_read_def e_def)
  next
    case False
    with full assms show ?thesis by (simp add: partly_read_def e_def md_wf_def recv_wf_def)
  qed
  have step: "md_poll_recv T d out = (case r of
      Ready (Inr True) \<Rightarrow> md_payload T e out
    | Ready (Inr False) \<Rightarrow> if off = 0 then (e\<lparr>md_closed := True\<rparr>, out, Ready (Inr Closed))
        else (e, out, Ready (Inl (Io_Error UnexpectedEof ''UDP frame ended in length prefix'')))
    | Ready (Inl error) \<Rightarrow> (e, out, Ready (Inl error)) | Pending \<Rightarrow> (e, out, Pending) | Panicked \<Rightarrow> (e, out, Panicked))"
    unfolding md_poll_recv_def f prod.case Let_def e_def [symmetric] ..
  show ?thesis
  proof (cases "r = Ready (Inr True)")
    case True
    have "recv_step ok got put e out (md_payload T e out)"
      using fl True e by (intro md_payload_step) (auto simp: e_def)
    then show ?thesis unfolding step True poll.case sum.case bool.case
      by (rule recv_step_after) (use fl(2,7) pr in \<open>simp_all add: e_def\<close>)
  next
    case False
    then have "\<exists>q e'. md_poll_recv T d out = (e', out, q) \<and> (e' = e \<or> e' = e\<lparr>md_closed := True\<rparr>) \<and> q \<noteq> Panicked
        \<and> received out q = [] \<and> (\<forall>n. q \<noteq> Ready (Inr (Datagram n)))"
      unfolding step using fl(9) by (auto simp: received_def split: poll.split sum.split bool.split)
    then obtain q e' where q: "md_poll_recv T d out = (e', out, q)" "e' = e \<or> e' = e\<lparr>md_closed := True\<rparr>" "q \<noteq> Panicked"
        "received out q = []" "\<forall>n. q \<noteq> Ready (Inr (Datagram n))" by blast
    have "md_wf ok e'" "partly_read e' = partly_read e" "md_stream e' = io" "md_send_frame e' = md_send_frame d" "md_send_offset e' = md_send_offset d"
      using q(2) e by (auto simp: md_wf_def partly_read_def e_def)
    then show ?thesis unfolding q(1) using q(3-5) fl(2,7) pr by (simp add: recv_step_def)
  qed
qed

lemma md_write_step:
  assumes w: "md_wf ok d" and f: "md_send_frame d \<noteq> []" and m: "md_write T d = (d', u)"
  shows "md_wf ok d' \<and> u \<noteq> Panicked \<and> got (md_stream d') = got (md_stream d) \<and> partly_read d' = partly_read d
    \<and> (\<exists>new. put (md_stream d') = put (md_stream d) @ new
         \<and> partly_written d @ new = (if u = Ready (Inr ()) then md_send_frame d else []) @ partly_written d')
    \<and> (u \<noteq> Ready (Inr ()) \<longrightarrow> md_send_frame d' = md_send_frame d)"
proof -
  let ?F = "md_send_frame d" and ?k = "md_send_offset d"
  obtain off io r where wf: "write_frame T ?F ?k (md_stream d) = (off, io, r)" by (metis prod_cases3)
  have s: "ok (md_stream d)" "?k < length ?F" using w f by (auto simp: md_wf_def send_wf_def)
  note fl = write_frame_flushed [OF s(1) less_imp_le [OF s(2)] wf]
  have pw: "take ?k ?F @ slice ?F ?k off = take off ?F" using fl by (intro take_then_slice) auto
  show ?thesis
  proof (cases "r = Ready (Inr True)")
    case True
    then show ?thesis using m w fl pw
      by (auto simp: md_write_def wf Let_def md_wf_def send_wf_def partly_written_def partly_read_def)
  next
    case False
    have d': "d' = d\<lparr>md_stream := io, md_send_offset := off\<rparr>" and u: "u \<noteq> Panicked" "u \<noteq> Ready (Inr ())"
      using m False fl unfolding md_write_def wf prod.case Let_def by (auto split: poll.splits sum.splits bool.splits)
    show ?thesis unfolding d' using u w f fl pw False
      by (auto simp: md_wf_def send_wf_def partly_written_def partly_read_def)
  qed
qed

lemma md_poll_send_step:
  assumes w: "md_wf ok d" and m: "md_poll_send T d dg = (d', u)"
  shows "md_wf ok d' \<and> u \<noteq> Panicked \<and> got (md_stream d') = got (md_stream d) \<and> partly_read d' = partly_read d
    \<and> (\<exists>new. put (md_stream d') = put (md_stream d) @ new
         \<and> partly_written d @ new = udp_records (if u = Ready (Inr ()) then [dg] else []) @ partly_written d')
    \<and> (u = Ready (Inr ()) \<longrightarrow> udp_valid dg)"
proof -
  consider (same) "d' = d" "u \<noteq> Panicked" "u \<noteq> Ready (Inr ())"
    | (fresh) "udp_valid dg" "md_send_frame d = []" "md_write T (d\<lparr>md_send_frame := udp_record dg\<rparr>) = (d', u)"
    | (again) "udp_valid dg" "md_send_frame d \<noteq> []" "slice_get (md_send_frame d) 2 (length (md_send_frame d)) = Some dg" "md_write T d = (d', u)"
    using m by (auto simp: md_poll_send_def udp_valid_def udp_record_def split: if_splits)
  then show ?thesis
  proof cases
    case same
    then show ?thesis using w by simp
  next
    case fresh
    let ?e = "d\<lparr>md_send_frame := udp_record dg\<rparr>"
    have off: "md_send_offset d = 0" using w fresh(2) by (simp add: md_wf_def send_wf_def)
    have ne: "md_send_frame ?e \<noteq> []" by (simp add: udp_record_def flip: length_0_conv)
    have "md_wf ok ?e" using w fresh(1) off ne by (auto simp: md_wf_def send_wf_def)
    from md_write_step [OF this ne fresh(3)] off fresh(1,2) show ?thesis by (auto simp: partly_written_def partly_read_def)
  next
    case again
    obtain g where g: "udp_valid g" "md_send_frame d = udp_record g" using w again(2) by (auto simp: md_wf_def send_wf_def)
    have "g = dg" using again(3) by (simp add: g(2) slice_get_def udp_record_def)
    with md_write_step [OF w again(2,4)] g again(1) show ?thesis by auto
  qed
qed

end

section \<open>Runs\<close>

record 't md_state =
  mdr_io :: "'t mux_datagram_io"
  mdr_sent :: "bytes list"
  mdr_received :: "bytes list"

definition md_start :: "'t \<Rightarrow> 't md_state" where
  "md_start io = \<lparr>mdr_io = mux_datagram_new io, mdr_sent = [], mdr_received = []\<rparr>"

text \<open>Any sequence of calls with any buffers and any answers of the stream, errors included.\<close>

inductive md_run :: "'t byte_io \<Rightarrow> 't \<Rightarrow> 't md_state \<Rightarrow> bool" for T io where
  start: "md_run T io (md_start io)"
| recv: "md_run T io m \<Longrightarrow> md_poll_recv T (mdr_io m) out = (d, out', r) \<Longrightarrow>
    md_run T io (m\<lparr>mdr_io := d, mdr_received := mdr_received m @ received out' r\<rparr>)"
| send: "md_run T io m \<Longrightarrow> md_poll_send T (mdr_io m) dg = (d, u) \<Longrightarrow>
    md_run T io (m\<lparr>mdr_io := d, mdr_sent := mdr_sent m @ (if u = Ready (Inr ()) then [dg] else [])\<rparr>)"
| close: "md_run T io m \<Longrightarrow> md_run T io (m\<lparr>mdr_io := fst (md_close (mdr_io m))\<rparr>)"

definition md_inv :: "('t \<Rightarrow> bool) \<Rightarrow> ('t \<Rightarrow> bytes) \<Rightarrow> ('t \<Rightarrow> bytes) \<Rightarrow> 't md_state \<Rightarrow> bool" where
  "md_inv ok got put m \<longleftrightarrow> md_wf ok (mdr_io m)
     \<and> got (md_stream (mdr_io m)) = udp_records (mdr_received m) @ partly_read (mdr_io m)
     \<and> put (md_stream (mdr_io m)) = udp_records (mdr_sent m) @ partly_written (mdr_io m)
     \<and> list_all udp_valid (mdr_received m) \<and> list_all udp_valid (mdr_sent m)"

context duplex
begin

lemma md_run_inv:
  assumes "md_run T io m" and "ok io" and "got io = []" and "put io = []"
  shows "md_inv ok got put m"
  using assms
proof (induction rule: md_run.induct)
  case start
  then show ?case by (simp add: md_inv_def md_start_def mux_datagram_new_def md_wf_def recv_wf_def send_wf_def partly_read_def partly_written_def)
next
  case (recv m out d out' r)
  then have i: "md_inv ok got put m" by blast
  then have "recv_step ok got put (mdr_io m) out (d, out', r)" using md_poll_recv_step [of "mdr_io m" out] recv(2) by (simp add: md_inv_def)
  with i show ?case by (auto simp: recv_step_def md_inv_def partly_written_def)
next
  case (send m dg d u)
  then have i: "md_inv ok got put m" by blast
  then have w: "md_wf ok (mdr_io m)" by (simp add: md_inv_def)
  from md_poll_send_step [OF w send(2)] i show ?case by (auto simp: md_inv_def)
next
  case (close m)
  then show ?case by (simp add: md_inv_def md_close_def md_wf_def partly_read_def partly_written_def)
qed

end

section \<open>Two ends of a transport\<close>

lemma encode_udp_record: "udp_valid dg \<Longrightarrow> encode_udp dg = Inr (udp_record dg)"
  by (simp add: encode_udp_def udp_valid_def udp_record_def)

lemma udp_records_prefix:
  assumes "list_all udp_valid xs" and "list_all udp_valid ys" and "prefix (udp_records xs @ r) (udp_records ys @ t)"
    and "t = [] \<or> (\<exists>y. udp_valid y \<and> strict_prefix t (udp_record y))"
  shows "prefix xs ys"
  using assms
proof (induction xs arbitrary: ys)
  case (Cons x xs)
  have x: "udp_valid x" "encode_udp x = Inr (udp_record x)" using Cons.prems(1) by (simp_all add: encode_udp_record)
  show ?case
  proof (cases ys)
    case Nil
    then have "prefix (udp_record x @ udp_records xs @ r) t" using Cons.prems(3) by simp
    then have pre: "prefix (udp_record x) t" by (rule append_prefixD)
    have "t \<noteq> []" using prefix_length_le [OF pre] by (auto simp: udp_record_def)
    then obtain y where y: "udp_valid y" "strict_prefix t (udp_record y)" using Cons.prems(4) by blast
    then have st: "strict_prefix (udp_record x) (udp_record y)" using pre by (meson prefix_order.le_less_trans)
    then have "x = y"
      using udp_codec.prefix_free [OF x(1) y(1) x(2) encode_udp_record [OF y(1)]] by (simp add: strict_prefix_def)
    with st show ?thesis by simp
  next
    case (Cons y ys')
    then have y: "udp_valid y" "list_all udp_valid ys'" using Cons.prems(2) by simp_all
    from Cons.prems(3) obtain z where "udp_record x @ (udp_records xs @ r @ z) = udp_record y @ (udp_records ys' @ t)"
      by (auto simp: Cons prefix_def)
    from udp_codec.first_frame_unique [OF x(1) y(1) x(2) encode_udp_record [OF y(1)] this]
    have "x = y" "(udp_records xs @ r) @ z = udp_records ys' @ t" by simp_all
    then have "x = y" "prefix (udp_records xs @ r) (udp_records ys' @ t)" by (auto intro: prefixI [OF sym])
    with Cons.IH [of ys'] Cons.prems(1,4) y(2) show ?thesis by (simp add: Cons)
  qed
qed simp

lemma partly_written_strict:
  assumes "md_wf ok d"
  shows "partly_written d = [] \<or> (\<exists>y. udp_valid y \<and> strict_prefix (partly_written d) (udp_record y))"
proof (cases "md_send_frame d = []")
  case False
  then obtain y where "udp_valid y" "md_send_frame d = udp_record y" "md_send_offset d < length (udp_record y)"
    using assms by (auto simp: md_wf_def send_wf_def)
  then show ?thesis by (auto simp: partly_written_def strict_prefix_def take_is_prefix dest: arg_cong [of _ _ length])
qed (simp add: partly_written_def)

interpretation module_datagrams:
  datagram_io_contract "mux_datagram (traced_duplex (module_transport :: 'm module_byte_io byte_io))" "md_wf (traced_ok mb_ok)"
proof unfold_locales
  fix d d' :: "('m module_byte_io \<times> bytes \<times> bytes) mux_datagram_io" and buf buf' r
  assume "md_wf (traced_ok mb_ok) d" and "dg_recv (mux_datagram (traced_duplex module_transport)) d buf = (d', buf', r)"
  then show "md_wf (traced_ok mb_ok) d' \<and> length buf' = length buf \<and> r \<noteq> Panicked"
    using module_duplex.md_poll_recv_step [of d buf] by (simp add: mux_datagram_def recv_step_def)
next
  fix d d' :: "('m module_byte_io \<times> bytes \<times> bytes) mux_datagram_io" and dg u
  assume "md_wf (traced_ok mb_ok) d" and "dg_send (mux_datagram (traced_duplex module_transport)) d dg = (d', u)"
  then show "md_wf (traced_ok mb_ok) d' \<and> u \<noteq> Panicked"
    using module_duplex.md_poll_send_step [of d dg d' u] by (simp add: mux_datagram_def)
qed


text \<open>Two ends over the demonstration module, for the witness.\<close>

definition demo_end :: "bytes \<Rightarrow> (bytes module_byte_io \<times> bytes \<times> bytes) mux_datagram_io" where
  "demo_end m = mux_datagram_new (module_io_new 1 demo_table m, [], [])"


end
