(* ===== verification/Mux_Session.thy ===== *)
theory Mux_Session
  imports Mux Mux_Datagram
begin

text \<open>
  The asynchronous operations of a multiplexer session (\<open>mux.rs\<close>: \<open>MuxSession\<close> and the functions
  that exchange policy, OPEN and response frames). An \<open>async\<close> block is a datatype of the points
  where it may be suspended and a function that polls it; what its locals hold at such a point is
  in the constructor. Every stream of a session and the session itself share the connection, which
  is passed on explicitly. A suspended operation holds the session exclusively, except the future
  of \<open>begin_open_flow_confirmed\<close>, which holds a stream only. Wakers have no counterpart.
\<close>

section \<open>Whole frames\<close>

text \<open>\<open>write_all\<close> and \<open>read_exact\<close> of the futures library; a count beyond the slice panics there.\<close>

definition write_all :: "'s byte_io \<Rightarrow> bytes \<Rightarrow> nat \<Rightarrow> 's \<Rightarrow> nat \<times> 's \<times> unit io_result poll" where
  "write_all S frame off s =
     (case write_frame S frame off s of (off', s', r) \<Rightarrow>
        (off', s',
         if length frame < off' then Panicked
         else case r of
           Ready (Inr True) \<Rightarrow> Ready (Inr ())
         | Ready (Inr False) \<Rightarrow> Ready (Inl (Io_Error WriteZeroKind []))
         | Ready (Inl error) \<Rightarrow> Ready (Inl error)
         | Pending \<Rightarrow> Pending
         | Panicked \<Rightarrow> Panicked))"

definition read_exact :: "'s byte_io \<Rightarrow> bytes \<Rightarrow> nat \<Rightarrow> 's \<Rightarrow> bytes \<times> nat \<times> 's \<times> unit io_result poll" where
  "read_exact S buf off s =
     (case fill S (length buf) buf off s of (buf', off', s', r) \<Rightarrow>
        (buf', off', s',
         if length buf < off' then Panicked
         else case r of
           Ready (Inr True) \<Rightarrow> Ready (Inr ())
         | Ready (Inr False) \<Rightarrow> Ready (Inl (Io_Error UnexpectedEof []))
         | Ready (Inl error) \<Rightarrow> Ready (Inl error)
         | Pending \<Rightarrow> Pending
         | Panicked \<Rightarrow> Panicked))"

text \<open>A writer: encode on the first poll, write everything, flush.\<close>

datatype send_future = Send_Encode "bytes wire_result" | Send_Write bytes nat | Send_Flush

definition send_flush :: "'s byte_io \<Rightarrow> 's \<Rightarrow> send_future \<times> 's \<times> (mux_error + unit) poll" where
  "send_flush S s =
     (case io_flush S s of (s', u) \<Rightarrow>
        (Send_Flush, s',
         case u of Ready r \<Rightarrow> Ready (map_err Mux_Io r) | Pending \<Rightarrow> Pending | Panicked \<Rightarrow> Panicked))"

definition send_write :: "'s byte_io \<Rightarrow> bytes \<Rightarrow> nat \<Rightarrow> 's \<Rightarrow> send_future \<times> 's \<times> (mux_error + unit) poll" where
  "send_write S frame off s =
     (case write_all S frame off s of (off', s', r) \<Rightarrow>
        (case r of
           Ready (Inr _) \<Rightarrow> send_flush S s'
         | Ready (Inl error) \<Rightarrow> (Send_Write frame off', s', Ready (Inl (Mux_Io error)))
         | Pending \<Rightarrow> (Send_Write frame off', s', Pending)
         | Panicked \<Rightarrow> (Send_Write frame off', s', Panicked)))"

fun poll_send :: "'s byte_io \<Rightarrow> send_future \<Rightarrow> 's \<Rightarrow> send_future \<times> 's \<times> (mux_error + unit) poll" where
  "poll_send S (Send_Encode (Inl e)) s = (Send_Encode (Inl e), s, Ready (Inl (Mux_Wire e)))"
| "poll_send S (Send_Encode (Inr frame)) s = send_write S frame 0 s"
| "poll_send S (Send_Write frame off) s = send_write S frame off s"
| "poll_send S Send_Flush s = send_flush S s"

definition write_policy :: "bytes \<Rightarrow> send_future" where
  "write_policy family = Send_Encode (encode_policy family)"

definition write_open :: "open_request \<Rightarrow> send_future" where
  "write_open request = Send_Encode (encode_open request)"

definition write_open_response :: "open_response \<Rightarrow> send_future" where
  "write_open_response response = Send_Encode (encode_open_response response)"

text \<open>
  A reader: a prefix of fixed size, which tells the size of the rest, then the rest, then the parser
  on the whole frame. The buffer holds the prefix and the rest, filled up to the offset.
\<close>

record 'a frame_format =
  ff_prefix :: nat
  ff_body :: "bytes \<Rightarrow> mux_error + nat"
  ff_parse :: "bytes \<Rightarrow> 'a wire_result"

datatype recv_future = Recv_Prefix bytes nat | Recv_Body bytes nat

definition recv_start :: "'a frame_format \<Rightarrow> recv_future" where
  "recv_start F = Recv_Prefix (replicate (ff_prefix F) 0) 0"

definition recv_body ::
    "'a frame_format \<Rightarrow> 's byte_io \<Rightarrow> bytes \<Rightarrow> nat \<Rightarrow> 's \<Rightarrow> recv_future \<times> 's \<times> (mux_error + 'a) poll" where
  "recv_body F S frame off s =
     (case read_exact S frame off s of (frame', off', s', r) \<Rightarrow>
        (Recv_Body frame' off', s',
         case r of
           Ready (Inr _) \<Rightarrow> Ready (map_err Mux_Wire (ff_parse F frame'))
         | Ready (Inl error) \<Rightarrow> Ready (Inl (Mux_Io error))
         | Pending \<Rightarrow> Pending
         | Panicked \<Rightarrow> Panicked))"

definition recv_prefix ::
    "'a frame_format \<Rightarrow> 's byte_io \<Rightarrow> bytes \<Rightarrow> nat \<Rightarrow> 's \<Rightarrow> recv_future \<times> 's \<times> (mux_error + 'a) poll" where
  "recv_prefix F S buf off s =
     (case read_exact S buf off s of (buf', off', s', r) \<Rightarrow>
        (case r of
           Ready (Inr _) \<Rightarrow>
             (case ff_body F buf' of
                Inl e \<Rightarrow> (Recv_Prefix buf' off', s', Ready (Inl e))
              | Inr len \<Rightarrow> recv_body F S (buf' @ replicate len 0) (length buf') s')
         | Ready (Inl error) \<Rightarrow> (Recv_Prefix buf' off', s', Ready (Inl (Mux_Io error)))
         | Pending \<Rightarrow> (Recv_Prefix buf' off', s', Pending)
         | Panicked \<Rightarrow> (Recv_Prefix buf' off', s', Panicked)))"

fun poll_recv :: "'a frame_format \<Rightarrow> 's byte_io \<Rightarrow> recv_future \<Rightarrow> 's \<Rightarrow> recv_future \<times> 's \<times> (mux_error + 'a) poll" where
  "poll_recv F S (Recv_Prefix buf off) s = recv_prefix F S buf off s"
| "poll_recv F S (Recv_Body frame off) s = recv_body F S frame off s"

definition read_policy :: "bytes frame_format" where
  "read_policy =
     \<lparr>ff_prefix = HEADER_LENGTH + 2,
      ff_body = (\<lambda>header.
        rbind (map_err Mux_Wire (parse_header (take HEADER_LENGTH header))) (\<lambda>kind.
        if kind \<noteq> Policy then Inl Mux_Protocol
        else let len = from_be (slice header HEADER_LENGTH (HEADER_LENGTH + 2)) in
        if 1 \<le> len \<and> len \<le> MAX_POLICY_FAMILY then Inr len else Inl (Mux_Wire Length))),
      ff_parse = parse_policy\<rparr>"

definition read_open :: "open_request frame_format" where
  "read_open =
     \<lparr>ff_prefix = HEADER_LENGTH + 2,
      ff_body = (\<lambda>header.
        let len = from_be (slice header HEADER_LENGTH (HEADER_LENGTH + 2)) in
        if MAX_OPEN_BODY < len then Inl (Mux_Wire Length) else Inr len),
      ff_parse = parse_open\<rparr>"

definition read_open_response :: "open_response frame_format" where
  "read_open_response =
     \<lparr>ff_prefix = 3,
      ff_body = (\<lambda>header.
        let len = from_be (slice header 1 3) in
        if MAX_REASON < len then Inl (Mux_Wire Length) else Inr len),
      ff_parse = parse_open_response\<rparr>"

section \<open>The session\<close>

record 't mux_session =
  se_conn :: "'t connection"
  se_role :: mux_mode
  se_policy_open :: bool
  se_user_streams :: nat
  se_max_user_streams :: nat

text \<open>\<open>None\<close> is the overflow of \<open>max_streams_per_session - 1\<close>, which validation excludes.\<close>

definition session_new :: "'t \<Rightarrow> mux_mode \<Rightarrow> yamux_config \<Rightarrow> 't mux_session option" where
  "session_new io role config =
     (if max_streams_per_session config = 0 then None
      else Some \<lparr>se_conn = connection_new io role config, se_role = role, se_policy_open = False,
             se_user_streams = 0, se_max_user_streams = max_streams_per_session config - 1\<rparr>)"

text \<open>A stream of the connection, with the flag \<open>write_closed\<close> of its handle.\<close>

definition mux_stream_io :: "'t byte_io \<Rightarrow> u32 \<Rightarrow> (bool \<times> 't connection) byte_io" where
  "mux_stream_io T i =
     \<lparr>io_read = (\<lambda>(w, c) out. case mux_poll_read T i out c of (c', out', r) \<Rightarrow> ((w, c'), out', r)),
      io_write = (\<lambda>(w, c) bs. case mux_poll_write T i bs c of (c', r) \<Rightarrow> ((w, c'), r)),
      io_flush = (\<lambda>(w, c). case poll_flush_write T c of (c', r) \<Rightarrow> ((w, c'), r)),
      io_shutdown_write = mux_poll_close T i, io_close = mux_poll_close T i\<rparr>"

text \<open>
  One poll of \<open>drive_operation\<close>: the operation, then the connection, whose error comes first. A
  result that is ready is returned by the same poll, so nothing is kept between polls.
\<close>

definition drive_operation ::
    "'t byte_io \<Rightarrow> ('f \<Rightarrow> bool \<times> 't connection \<Rightarrow> 'f \<times> (bool \<times> 't connection) \<times> (mux_error + 'a) poll)
       \<Rightarrow> 'f \<Rightarrow> bool \<times> 't connection \<Rightarrow> 'f \<times> (bool \<times> 't connection) \<times> (mux_error + 'a) poll" where
  "drive_operation T op f s =
     (case op f s of (f', (w, c), r) \<Rightarrow>
        (case r of
           Ready (Inl e) \<Rightarrow> (f', (w, c), Ready (Inl e))
         | Panicked \<Rightarrow> (f', (w, c), Panicked)
         | _ \<Rightarrow>
            (case poll_drive T c of (c', d) \<Rightarrow>
               (f', (w, c'), case d of Ready (Inl e) \<Rightarrow> Ready (Inl (Mux_Io e)) | Panicked \<Rightarrow> Panicked | _ \<Rightarrow> r))))"

definition session_poll_drive :: "'t byte_io \<Rightarrow> 't mux_session \<Rightarrow> 't mux_session \<times> (mux_error + unit) poll" where
  "session_poll_drive T se =
     (case poll_drive T (se_conn se) of (c, r) \<Rightarrow>
        (se\<lparr>se_conn := c\<rparr>,
         case r of
           Ready (Inr _) \<Rightarrow> Ready (Inr ())
         | Ready (Inl e) \<Rightarrow> Ready (Inl (Mux_Io e))
         | Pending \<Rightarrow> if cn_closed c then Ready (Inl Mux_Closed) else Pending
         | Panicked \<Rightarrow> Panicked))"

definition session_close :: "'t byte_io \<Rightarrow> 't mux_session \<Rightarrow> 't mux_session \<times> (mux_error + unit) poll" where
  "session_close T se =
     (case connection_close T (se_conn se) of (c, r) \<Rightarrow>
        (se\<lparr>se_conn := c\<rparr>,
         case r of Ready x \<Rightarrow> Ready (map_err Mux_Io x) | Pending \<Rightarrow> Pending | Panicked \<Rightarrow> Panicked))"

definition reserve_user_stream :: "'t mux_session \<Rightarrow> mux_error + 't mux_session" where
  "reserve_user_stream se =
     (if se_max_user_streams se \<le> se_user_streams se then Inl Mux_StreamLimit
      else Inr (se\<lparr>se_user_streams := se_user_streams se + 1\<rparr>))"

definition release_flow :: "'t mux_session \<Rightarrow> 't mux_session" where
  "release_flow se = se\<lparr>se_user_streams := se_user_streams se - 1\<rparr>"

definition poll_accept_stream :: "'t byte_io \<Rightarrow> 't connection \<Rightarrow> 't connection \<times> (mux_error + u32) poll" where
  "poll_accept_stream T c =
     (case pop_inbound c of
        (c, Some i) \<Rightarrow> (c, Ready (Inr i))
      | (c, None) \<Rightarrow>
          (case poll_drive T c of (c, r) \<Rightarrow>
             (c, case r of
                   Ready (Inl e) \<Rightarrow> Ready (Inl (Mux_Io e))
                 | Panicked \<Rightarrow> Panicked
                 | _ \<Rightarrow> if cn_closed c then Ready (Inl Mux_Closed) else Pending)))"

section \<open>Operations of the session\<close>

type_synonym ('t, 'f, 'a) session_poll = "'f \<times> 't mux_session \<times> (mux_error + 'a) poll"

text \<open>
  The rest of an operation after the \<open>await\<close> of one that uses stream \<open>i\<close>: on an error \<open>undo\<close> is
  what the operation does to the session, and the stream, a local of the operation, is dropped.
\<close>

definition await_stream ::
    "('t mux_session \<Rightarrow> 't mux_session) \<Rightarrow> u32 \<Rightarrow> ('f \<Rightarrow> 'g) \<Rightarrow> 't mux_session
       \<Rightarrow> 'f \<times> (bool \<times> 't connection) \<times> (mux_error + 'a) poll
       \<Rightarrow> ('a \<Rightarrow> 't mux_session \<Rightarrow> ('t, 'g, 'b) session_poll) \<Rightarrow> ('t, 'g, 'b) session_poll" where
  "await_stream undo i suspended se awaited rest =
     (case awaited of (f, (w, c), r) \<Rightarrow>
        (case r of
           Ready (Inr v) \<Rightarrow> rest v (se\<lparr>se_conn := c\<rparr>)
         | Ready (Inl e) \<Rightarrow> (suspended f, undo (se\<lparr>se_conn := mux_stream_drop i (w, c)\<rparr>), Ready (Inl e))
         | Pending \<Rightarrow> (suspended f, se\<lparr>se_conn := c\<rparr>, Pending)
         | Panicked \<Rightarrow> (suspended f, se\<lparr>se_conn := c\<rparr>, Panicked)))"

text \<open>The rest of \<open>open_stream\<close> and of what follows it: the OPEN frame of a queued stream.\<close>

definition await_open ::
    "'t byte_io \<Rightarrow> ('t mux_session \<Rightarrow> 't mux_session) \<Rightarrow> u32 \<Rightarrow> 'g \<Rightarrow> 't mux_session
       \<Rightarrow> ('t mux_session \<Rightarrow> ('t, 'g, 'b) session_poll) \<Rightarrow> ('t, 'g, 'b) session_poll" where
  "await_open T undo i suspended se rest =
     (case poll_control T FRAME_OPEN i (se_conn se) of (c, r) \<Rightarrow>
        await_stream undo i (\<lambda>_. suspended) se
          ((), (False, c), case r of Ready x \<Rightarrow> Ready (map_err Mux_Io x) | Pending \<Rightarrow> Pending | Panicked \<Rightarrow> Panicked)
          (\<lambda>_. rest))"

definition start_stream ::
    "('t mux_session \<Rightarrow> 't mux_session) \<Rightarrow> 'g \<Rightarrow> 't mux_session
       \<Rightarrow> (u32 \<Rightarrow> 't mux_session \<Rightarrow> ('t, 'g, 'b) session_poll) \<Rightarrow> ('t, 'g, 'b) session_poll" where
  "start_stream undo suspended se rest =
     (case queue_stream (se_conn se) of
        (c, Inl e) \<Rightarrow> (suspended, undo (se\<lparr>se_conn := c\<rparr>), Ready (Inl e))
      | (c, Inr i) \<Rightarrow> rest i (se\<lparr>se_conn := c\<rparr>))"

definition await_accept ::
    "'t byte_io \<Rightarrow> ('t mux_session \<Rightarrow> 't mux_session) \<Rightarrow> 'g \<Rightarrow> 't mux_session
       \<Rightarrow> (u32 \<Rightarrow> 't mux_session \<Rightarrow> ('t, 'g, 'b) session_poll) \<Rightarrow> ('t, 'g, 'b) session_poll" where
  "await_accept T undo suspended se rest =
     (case poll_accept_stream T (se_conn se) of (c, r) \<Rightarrow>
        (case r of
           Ready (Inr i) \<Rightarrow> rest i (se\<lparr>se_conn := c\<rparr>)
         | Ready (Inl e) \<Rightarrow> (suspended, undo (se\<lparr>se_conn := c\<rparr>), Ready (Inl e))
         | Pending \<Rightarrow> (suspended, se\<lparr>se_conn := c\<rparr>, Pending)
         | Panicked \<Rightarrow> (suspended, se\<lparr>se_conn := c\<rparr>, Panicked)))"

text \<open>
  Where an operation is suspended: before its first poll, in the OPEN frame of a stream, in the
  wait for a stream of the peer, in a frame it writes or reads. What is returned next to a result
  that is ready is not polled again.
\<close>

datatype session_future =
  Fut_Start | Fut_Open u32 | Fut_Accept | Fut_Write u32 send_future | Fut_Read u32 recv_future | Fut_Done

definition driven_write ::
    "'t byte_io \<Rightarrow> u32 \<Rightarrow> send_future \<Rightarrow> 't mux_session \<Rightarrow> send_future \<times> (bool \<times> 't connection) \<times> (mux_error + unit) poll" where
  "driven_write T i f se = drive_operation T (poll_send (mux_stream_io T i)) f (False, se_conn se)"

definition driven_read ::
    "'a frame_format \<Rightarrow> 't byte_io \<Rightarrow> u32 \<Rightarrow> recv_future \<Rightarrow> 't mux_session
       \<Rightarrow> recv_future \<times> (bool \<times> 't connection) \<times> (mux_error + 'a) poll" where
  "driven_read F T i f se = drive_operation T (poll_recv F (mux_stream_io T i)) f (False, se_conn se)"

definition policy_agreed :: "u32 \<Rightarrow> 't mux_session \<Rightarrow> ('t, session_future, u32) session_poll" where
  "policy_agreed i se = (Fut_Done, se\<lparr>se_policy_open := True\<rparr>, Ready (Inr i))"

definition policy_differs :: "u32 \<Rightarrow> 't mux_session \<Rightarrow> ('t, session_future, u32) session_poll" where
  "policy_differs i se =
     (Fut_Done, se\<lparr>se_conn := mux_stream_drop i (False, se_conn se)\<rparr>, Ready (Inl Mux_PolicyFamily))"

definition open_policy_read ::
    "'t byte_io \<Rightarrow> bytes \<Rightarrow> u32 \<Rightarrow> recv_future \<Rightarrow> 't mux_session \<Rightarrow> ('t, session_future, u32) session_poll" where
  "open_policy_read T family i f se =
     await_stream id i (Fut_Read i) se (driven_read read_policy T i f se)
       (\<lambda>response se. if response \<noteq> family then policy_differs i se else policy_agreed i se)"

definition open_policy_write ::
    "'t byte_io \<Rightarrow> bytes \<Rightarrow> u32 \<Rightarrow> send_future \<Rightarrow> 't mux_session \<Rightarrow> ('t, session_future, u32) session_poll" where
  "open_policy_write T family i f se =
     await_stream id i (Fut_Write i) se (driven_write T i f se)
       (\<lambda>_. open_policy_read T family i (recv_start read_policy))"

definition open_policy_stream ::
    "'t byte_io \<Rightarrow> bytes \<Rightarrow> u32 \<Rightarrow> 't mux_session \<Rightarrow> ('t, session_future, u32) session_poll" where
  "open_policy_stream T family i se =
     await_open T id i (Fut_Open i) se (open_policy_write T family i (write_policy family))"

fun open_policy :: "'t byte_io \<Rightarrow> bytes \<Rightarrow> session_future \<Rightarrow> 't mux_session \<Rightarrow> ('t, session_future, u32) session_poll" where
  "open_policy T family Fut_Start se =
     (if se_role se \<noteq> Client_Mode \<or> se_policy_open se then (Fut_Done, se, Ready (Inl Mux_Protocol))
      else start_stream id Fut_Done se (open_policy_stream T family))"
| "open_policy T family (Fut_Open i) se = open_policy_stream T family i se"
| "open_policy T family (Fut_Write i f) se = open_policy_write T family i f se"
| "open_policy T family (Fut_Read i f) se = open_policy_read T family i f se"
| "open_policy T family _ se = (Fut_Done, se, Panicked)"

definition accept_policy_write ::
    "'t byte_io \<Rightarrow> u32 \<Rightarrow> send_future \<Rightarrow> 't mux_session \<Rightarrow> ('t, session_future, u32) session_poll" where
  "accept_policy_write T i f se =
     await_stream id i (Fut_Write i) se (driven_write T i f se) (\<lambda>_. policy_agreed i)"

definition accept_policy_read ::
    "'t byte_io \<Rightarrow> bytes \<Rightarrow> u32 \<Rightarrow> recv_future \<Rightarrow> 't mux_session \<Rightarrow> ('t, session_future, u32) session_poll" where
  "accept_policy_read T family i f se =
     await_stream id i (Fut_Read i) se (driven_read read_policy T i f se)
       (\<lambda>request se. if request \<noteq> family then policy_differs i se
          else accept_policy_write T i (write_policy family) se)"

definition accept_policy_stream ::
    "'t byte_io \<Rightarrow> bytes \<Rightarrow> 't mux_session \<Rightarrow> ('t, session_future, u32) session_poll" where
  "accept_policy_stream T family se =
     await_accept T id Fut_Accept se (\<lambda>i. accept_policy_read T family i (recv_start read_policy))"

fun accept_policy :: "'t byte_io \<Rightarrow> bytes \<Rightarrow> session_future \<Rightarrow> 't mux_session \<Rightarrow> ('t, session_future, u32) session_poll" where
  "accept_policy T family Fut_Start se =
     (if se_role se \<noteq> Server_Mode \<or> se_policy_open se then (Fut_Done, se, Ready (Inl Mux_Protocol))
      else accept_policy_stream T family se)"
| "accept_policy T family Fut_Accept se = accept_policy_stream T family se"
| "accept_policy T family (Fut_Read i f) se = accept_policy_read T family i f se"
| "accept_policy T family (Fut_Write i f) se = accept_policy_write T i f se"
| "accept_policy T family _ se = (Fut_Done, se, Panicked)"

text \<open>
  \<open>user_streams -= 1\<close> on the error paths: the operation has held the session since it reserved the
  stream, so the count is positive there.
\<close>

definition undo_reserve :: "'t mux_session \<Rightarrow> 't mux_session" where
  "undo_reserve se = se\<lparr>se_user_streams := se_user_streams se - 1\<rparr>"

definition open_flow_write ::
    "'t byte_io \<Rightarrow> u32 \<Rightarrow> send_future \<Rightarrow> 't mux_session \<Rightarrow> ('t, session_future, u32) session_poll" where
  "open_flow_write T i f se =
     await_stream undo_reserve i (Fut_Write i) se (driven_write T i f se) (\<lambda>_ se. (Fut_Done, se, Ready (Inr i)))"

definition open_flow_stream ::
    "'t byte_io \<Rightarrow> open_request \<Rightarrow> u32 \<Rightarrow> 't mux_session \<Rightarrow> ('t, session_future, u32) session_poll" where
  "open_flow_stream T request i se =
     await_open T undo_reserve i (Fut_Open i) se (open_flow_write T i (write_open request))"

fun open_flow :: "'t byte_io \<Rightarrow> open_request \<Rightarrow> session_future \<Rightarrow> 't mux_session \<Rightarrow> ('t, session_future, u32) session_poll" where
  "open_flow T request Fut_Start se =
     (if se_role se \<noteq> Client_Mode \<or> \<not> se_policy_open se then (Fut_Done, se, Ready (Inl Mux_PolicyRequired))
      else case reserve_user_stream se of
        Inl e \<Rightarrow> (Fut_Done, se, Ready (Inl e))
      | Inr se \<Rightarrow> start_stream undo_reserve Fut_Done se (open_flow_stream T request))"
| "open_flow T request (Fut_Open i) se = open_flow_stream T request i se"
| "open_flow T request (Fut_Write i f) se = open_flow_write T i f se"
| "open_flow T request _ se = (Fut_Done, se, Panicked)"

definition confirm_read ::
    "'t byte_io \<Rightarrow> u32 \<Rightarrow> recv_future \<Rightarrow> 't mux_session \<Rightarrow> ('t, session_future, open_response \<times> u32) session_poll" where
  "confirm_read T i f se =
     await_stream release_flow i (Fut_Read i) se (driven_read read_open_response T i f se)
       (\<lambda>response se. (Fut_Done, se, Ready (Inr (response, i))))"

fun open_flow_confirmed ::
    "'t byte_io \<Rightarrow> open_request \<Rightarrow> session_future \<Rightarrow> 't mux_session \<Rightarrow> ('t, session_future, open_response \<times> u32) session_poll" where
  "open_flow_confirmed T request (Fut_Read i f) se = confirm_read T i f se"
| "open_flow_confirmed T request f se =
     (case open_flow T request f se of (f, se, r) \<Rightarrow>
        (case r of
           Ready (Inr i) \<Rightarrow> confirm_read T i (recv_start read_open_response) se
         | Ready (Inl e) \<Rightarrow> (f, se, Ready (Inl e))
         | Pending \<Rightarrow> (f, se, Pending)
         | Panicked \<Rightarrow> (f, se, Panicked)))"

definition begin_open_flow_confirmed ::
    "open_request \<Rightarrow> 't mux_session \<Rightarrow> 't mux_session \<times> (mux_error + session_future)" where
  "begin_open_flow_confirmed request se =
     (if se_role se \<noteq> Client_Mode \<or> \<not> se_policy_open se then (se, Inl Mux_PolicyRequired)
      else case reserve_user_stream se of
        Inl e \<Rightarrow> (se, Inl e)
      | Inr se \<Rightarrow>
          (case queue_stream (se_conn se) of
             (c, Inl e) \<Rightarrow> (undo_reserve (se\<lparr>se_conn := c\<rparr>), Inl e)
           | (c, Inr i) \<Rightarrow>
               (se\<lparr>se_conn := c\<lparr>cn_controls := cn_controls c @ [(FRAME_OPEN, i)]\<rparr>\<rparr>,
                Inr (Fut_Write i (write_open request)))))"

text \<open>The future of \<open>begin_open_flow_confirmed\<close>: it polls its stream only and does not drive the connection.\<close>

definition opening_read ::
    "'t byte_io \<Rightarrow> u32 \<Rightarrow> recv_future \<Rightarrow> 't mux_session \<Rightarrow> ('t, session_future, open_response \<times> u32) session_poll" where
  "opening_read T i f se =
     await_stream id i (Fut_Read i) se (poll_recv read_open_response (mux_stream_io T i) f (False, se_conn se))
       (\<lambda>response se. (Fut_Done, se, Ready (Inr (response, i))))"

definition opening_write ::
    "'t byte_io \<Rightarrow> u32 \<Rightarrow> send_future \<Rightarrow> 't mux_session \<Rightarrow> ('t, session_future, open_response \<times> u32) session_poll" where
  "opening_write T i f se =
     await_stream id i (Fut_Write i) se (poll_send (mux_stream_io T i) f (False, se_conn se))
       (\<lambda>_. opening_read T i (recv_start read_open_response))"

fun poll_opening :: "'t byte_io \<Rightarrow> session_future \<Rightarrow> 't mux_session \<Rightarrow> ('t, session_future, open_response \<times> u32) session_poll" where
  "poll_opening T (Fut_Write i f) se = opening_write T i f se"
| "poll_opening T (Fut_Read i f) se = opening_read T i f se"
| "poll_opening T _ se = (Fut_Done, se, Panicked)"

definition accept_flow_read ::
    "'t byte_io \<Rightarrow> u32 \<Rightarrow> recv_future \<Rightarrow> 't mux_session \<Rightarrow> ('t, session_future, open_request \<times> u32) session_poll" where
  "accept_flow_read T i f se =
     await_stream undo_reserve i (Fut_Read i) se (driven_read read_open T i f se)
       (\<lambda>request se. (Fut_Done, se, Ready (Inr (request, i))))"

definition accept_flow_stream :: "'t byte_io \<Rightarrow> 't mux_session \<Rightarrow> ('t, session_future, open_request \<times> u32) session_poll" where
  "accept_flow_stream T se =
     await_accept T undo_reserve Fut_Accept se (\<lambda>i. accept_flow_read T i (recv_start read_open))"

fun accept_flow :: "'t byte_io \<Rightarrow> session_future \<Rightarrow> 't mux_session \<Rightarrow> ('t, session_future, open_request \<times> u32) session_poll" where
  "accept_flow T Fut_Start se =
     (if se_role se \<noteq> Server_Mode \<or> \<not> se_policy_open se then (Fut_Done, se, Ready (Inl Mux_PolicyRequired))
      else case reserve_user_stream se of
        Inl e \<Rightarrow> (Fut_Done, se, Ready (Inl e))
      | Inr se \<Rightarrow> accept_flow_stream T se)"
| "accept_flow T Fut_Accept se = accept_flow_stream T se"
| "accept_flow T (Fut_Read i f) se = accept_flow_read T i f se"
| "accept_flow T _ se = (Fut_Done, se, Panicked)"

text \<open>\<open>respond_flow\<close> borrows its stream, which an error leaves with the caller.\<close>

definition respond_write :: "'t byte_io \<Rightarrow> u32 \<Rightarrow> send_future \<Rightarrow> 't mux_session \<Rightarrow> ('t, session_future, unit) session_poll" where
  "respond_write T i f se =
     (case driven_write T i f se of (f, (w, c), r) \<Rightarrow> (Fut_Write i f, se\<lparr>se_conn := c\<rparr>, r))"

fun respond_flow ::
    "'t byte_io \<Rightarrow> u32 \<Rightarrow> open_response \<Rightarrow> session_future \<Rightarrow> 't mux_session \<Rightarrow> ('t, session_future, unit) session_poll" where
  "respond_flow T i response Fut_Start se =
     (if se_role se \<noteq> Server_Mode \<or> \<not> se_policy_open se then (Fut_Done, se, Ready (Inl Mux_PolicyRequired))
      else respond_write T i (write_open_response response) se)"
| "respond_flow T i response (Fut_Write j f) se = respond_write T j f se"
| "respond_flow T i response _ se = (Fut_Done, se, Panicked)"

section \<open>Frames arrive whole\<close>

text \<open>A future polled until its last answer, \<open>Pending\<close> before.\<close>

inductive polled :: "('f \<Rightarrow> 's \<Rightarrow> 'f \<times> 's \<times> 'r poll) \<Rightarrow> 'f \<Rightarrow> 's \<Rightarrow> 'f \<Rightarrow> 's \<Rightarrow> 'r poll \<Rightarrow> bool" for P f s where
  once: "P f s = (f', s', r) \<Longrightarrow> polled P f s f' s' r"
| again: "polled P f s f' s' Pending \<Longrightarrow> P f' s' = (f'', s'', r) \<Longrightarrow> polled P f s f'' s'' r"

fun send_inv :: "('s \<Rightarrow> bytes) \<Rightarrow> bytes \<Rightarrow> bytes \<Rightarrow> 's \<Rightarrow> send_future \<Rightarrow> bool" where
  "send_inv put base frame s (Send_Encode e) \<longleftrightarrow> e = Inr frame \<and> put s = base"
| "send_inv put base frame s (Send_Write fr off) \<longleftrightarrow> fr = frame \<and> off \<le> length frame \<and> put s = base @ take off frame"
| "send_inv put base frame s Send_Flush \<longleftrightarrow> put s = base @ frame"

text \<open>A buffer whose prefix announces the size of the whole.\<close>

definition announced :: "'a frame_format \<Rightarrow> bytes \<Rightarrow> bool" where
  "announced F frame \<longleftrightarrow> ff_prefix F \<le> length frame \<and> ff_body F (take (ff_prefix F) frame) = Inr (length frame - ff_prefix F)"

fun recv_inv :: "'a frame_format \<Rightarrow> ('s \<Rightarrow> bytes) \<Rightarrow> bytes \<Rightarrow> 's \<Rightarrow> recv_future \<Rightarrow> bool" where
  "recv_inv F got base s (Recv_Prefix buf off) \<longleftrightarrow> length buf = ff_prefix F \<and> off \<le> length buf \<and> got s = base @ take off buf"
| "recv_inv F got base s (Recv_Body buf off) \<longleftrightarrow>
     announced F buf \<and> ff_prefix F \<le> off \<and> off \<le> length buf \<and> got s = base @ take off buf"

text \<open>What a reader may answer: a value, an error of the transport, a refused prefix or a refused frame.\<close>

definition recv_answer :: "'a frame_format \<Rightarrow> ('s \<Rightarrow> bytes) \<Rightarrow> bytes \<Rightarrow> 's \<Rightarrow> mux_error + 'a \<Rightarrow> bool" where
  "recv_answer F got base s x \<longleftrightarrow>
     (\<exists>e. x = Inl (Mux_Io e))
     \<or> (\<exists>h. got s = base @ h \<and> length h = ff_prefix F \<and> (\<exists>e. x = Inl e \<and> ff_body F h = Inl e))
     \<or> (\<exists>frame. got s = base @ frame \<and> announced F frame \<and> x = map_err Mux_Wire (ff_parse F frame))"

context duplex
begin

lemma write_all_law:
  assumes "ok s" and "off \<le> length frame" and "write_all T frame off s = (off', s', r)"
  shows "ok s' \<and> off' \<le> length frame \<and> put s' = put s @ slice frame off off' \<and> off \<le> off'
    \<and> (r = Ready (Inr ()) \<longrightarrow> off' = length frame) \<and> r \<noteq> Panicked"
proof -
  obtain k s1 q where wf: "write_frame T frame off s = (k, s1, q)" by (metis prod_cases3)
  note f = write_frame_flushed [OF assms(1,2) wf]
  show ?thesis using f assms(3) by (auto simp: write_all_def wf split: poll.splits sum.splits bool.splits if_splits)
qed

lemma read_exact_law:
  assumes "ok s" and "off \<le> length buf" and "read_exact T buf off s = (buf', off', s', r)"
  shows "ok s' \<and> length buf' = length buf \<and> off \<le> off' \<and> off' \<le> length buf \<and> take off buf' = take off buf
    \<and> got s' = got s @ slice buf' off off' \<and> (r = Ready (Inr ()) \<longrightarrow> off' = length buf) \<and> r \<noteq> Panicked"
proof -
  obtain b k s1 q where fl: "fill T (length buf) buf off s = (b, k, s1, q)" by (metis prod_cases4)
  have f: "filled ok got put buf off s (b, k, s1, q)"
    unfolding fl [symmetric] using assms(1,2) by (intro fill_filled) auto
  show ?thesis
    using f assms(3) by (auto simp: filled_def read_exact_def fl split: poll.splits sum.splits bool.splits if_splits)
qed

lemma send_flush_law:
  assumes "ok s" and "send_flush T s = (f', s', r)"
  shows "ok s' \<and> put s' = put s \<and> f' = Send_Flush \<and> r \<noteq> Panicked"
  using assms flush_ok flush_trace by (auto simp: send_flush_def split: prod.splits poll.splits)

lemma send_write_law:
  assumes "ok s" and "off \<le> length frame" and "put s = base @ take off frame"
    and "send_write T frame off s = (f', s', r)"
  shows "ok s' \<and> send_inv put base frame s' f' \<and> r \<noteq> Panicked \<and> (r = Ready (Inr ()) \<longrightarrow> put s' = base @ frame)"
proof -
  obtain k s1 q where wa: "write_all T frame off s = (k, s1, q)" by (metis prod_cases3)
  note w = write_all_law [OF assms(1,2) wa]
  have p: "put s1 = base @ take k frame"
    using w assms(3) slice_split [of 0 off k frame] by (simp add: slice_def)
  show ?thesis
  proof (cases "q = Ready (Inr ())")
    case True
    then have "send_flush T s1 = (f', s', r)" using assms(4) by (simp add: send_write_def wa)
    from send_flush_law [OF _ this] w p True show ?thesis by auto
  next
    case False
    then show ?thesis
      using assms(4) w p by (auto simp: send_write_def wa split: poll.splits sum.splits)
  qed
qed

lemma poll_send_law:
  assumes "ok s" and "send_inv put base frame s f" and "poll_send T f s = (f', s', r)"
  shows "ok s' \<and> send_inv put base frame s' f' \<and> r \<noteq> Panicked \<and> (r = Ready (Inr ()) \<longrightarrow> put s' = base @ frame)"
proof (cases f)
  case (Send_Encode e)
  then show ?thesis using assms send_write_law [of s 0 frame base f' s' r] by simp
next
  case (Send_Write fr off)
  then show ?thesis using assms send_write_law [of s off frame base f' s' r] by simp
next
  case Send_Flush
  then have "send_flush T s = (f', s', r)" using assms(3) by simp
  from send_flush_law [OF assms(1) this] Send_Flush assms(2) show ?thesis by simp
qed

lemma polled_send:
  assumes "polled (poll_send T) f s f' s' r" and "ok s" and "send_inv put base frame s f"
  shows "ok s' \<and> send_inv put base frame s' f' \<and> r \<noteq> Panicked \<and> (r = Ready (Inr ()) \<longrightarrow> put s' = base @ frame)"
  using assms(1)
proof (induction rule: polled.induct)
  case (once f' s' r)
  then show ?case using assms(2,3) poll_send_law by blast
next
  case (again f' s' f'' s'' r)
  then show ?case using poll_send_law by blast
qed

lemma recv_body_law:
  assumes "ok s" and "announced F frame" and "ff_prefix F \<le> off" and "off \<le> length frame"
    and "got s = base @ take off frame" and "recv_body F T frame off s = (f', s', r)"
  shows "ok s' \<and> recv_inv F got base s' f' \<and> r \<noteq> Panicked \<and> (\<forall>x. r = Ready x \<longrightarrow> recv_answer F got base s' x)"
proof -
  obtain b k s1 q where re: "read_exact T frame off s = (b, k, s1, q)" by (metis prod_cases4)
  note l = read_exact_law [OF assms(1,4) re]
  have p: "take (ff_prefix F) b = take (ff_prefix F) frame"
    using l assms(3) by (metis min.absorb1 take_take)
  have a: "announced F b" using assms(2) l p by (simp add: announced_def)
  have g: "got s1 = base @ take k b"
    using l assms(5) slice_split [of 0 off k b] by (simp add: slice_def)
  have e: "f' = Recv_Body b k" "s' = s1" "ok s1" "r \<noteq> Panicked"
    using assms(6) l by (auto simp: recv_body_def re split: poll.splits sum.splits)
  have ans: "recv_answer F got base s' x" if "r = Ready x" for x
  proof (cases "q = Ready (Inr ())")
    case True
    then have x: "x = map_err Mux_Wire (ff_parse F b)" using assms(6) that by (auto simp: recv_body_def re)
    have "got s' = base @ b" using True l g e(2) by simp
    then show ?thesis unfolding recv_answer_def using a x by blast
  next
    case False
    then have "\<exists>e. x = Inl (Mux_Io e)"
      using assms(6) that by (auto simp: recv_body_def re split: poll.splits sum.splits)
    then show ?thesis by (simp add: recv_answer_def)
  qed
  show ?thesis using e a l g assms(3) ans by auto
qed

lemma recv_prefix_law:
  assumes "ok s" and "length buf = ff_prefix F" and "off \<le> length buf"
    and "got s = base @ take off buf" and "recv_prefix F T buf off s = (f', s', r)"
  shows "ok s' \<and> recv_inv F got base s' f' \<and> r \<noteq> Panicked \<and> (\<forall>x. r = Ready x \<longrightarrow> recv_answer F got base s' x)"
proof -
  obtain b k s1 q where re: "read_exact T buf off s = (b, k, s1, q)" by (metis prod_cases4)
  note l = read_exact_law [OF assms(1,3) re]
  have g: "got s1 = base @ take k b"
    using l assms(4) slice_split [of 0 off k b] by (simp add: slice_def)
  show ?thesis
  proof (cases "q = Ready (Inr ())")
    case True
    then have k: "k = length b" using l by simp
    show ?thesis
    proof (cases "ff_body F b")
      case (Inl e)
      then have o: "f' = Recv_Prefix b k" "s' = s1" "r = Ready (Inl e)" using True assms(5) by (auto simp: recv_prefix_def re)
      have "recv_answer F got base s1 (Inl e)"
        unfolding recv_answer_def using g k l Inl assms(2) by (intro disjI2 disjI1 exI [of _ b]) simp
      then show ?thesis using o l g assms(2) by simp
    next
      case (Inr len)
      have o: "recv_body F T (b @ replicate len 0) (length b) s1 = (f', s', r)"
        using Inr True assms(5) by (simp add: recv_prefix_def re)
      show ?thesis
        by (rule recv_body_law [OF _ _ _ _ _ o]) (use Inr k l g assms(2) in \<open>simp_all add: announced_def\<close>)
    qed
  next
    case False
    then have o: "f' = Recv_Prefix b k" "s' = s1" "r \<noteq> Panicked" "\<forall>x. r = Ready x \<longrightarrow> (\<exists>e. x = Inl (Mux_Io e))"
      using assms(5) l by (auto simp: recv_prefix_def re split: poll.splits sum.splits)
    then show ?thesis using l g assms(2) by (auto simp: recv_answer_def)
  qed
qed

lemma poll_recv_law:
  assumes "ok s" and "recv_inv F got base s f" and "poll_recv F T f s = (f', s', r)"
  shows "ok s' \<and> recv_inv F got base s' f' \<and> r \<noteq> Panicked \<and> (\<forall>x. r = Ready x \<longrightarrow> recv_answer F got base s' x)"
proof (cases f)
  case (Recv_Prefix buf off)
  then show ?thesis using assms by (intro recv_prefix_law) auto
next
  case (Recv_Body frame off)
  show ?thesis by (rule recv_body_law [of s F frame off]) (use assms Recv_Body in auto)
qed

lemma polled_recv:
  assumes "polled (poll_recv F T) f s f' s' r" and "ok s" and "recv_inv F got base s f"
  shows "ok s' \<and> recv_inv F got base s' f' \<and> r \<noteq> Panicked \<and> (\<forall>x. r = Ready x \<longrightarrow> recv_answer F got base s' x)"
  using assms(1)
proof (induction rule: polled.induct)
  case (once f' s' r)
  then show ?case using assms(2,3) poll_recv_law by blast
next
  case (again f' s' f'' s'' r)
  then show ?case using poll_recv_law by blast
qed

end

text \<open>
  The contract between an encoder and the reader of its frames: the prefix of a frame announces
  its size.
\<close>

locale framed_message = prefix_codec encode "ff_parse F" valid Incomplete
  for encode :: "'a \<Rightarrow> bytes wire_result" and F :: "'a frame_format" and valid :: "'a \<Rightarrow> bool" +
  assumes announces: "valid v \<Longrightarrow> encode v = Inr frame \<Longrightarrow> announced F frame"
begin

lemma announced_unique:
  assumes "announced F x" and "announced F y" and "prefix x y"
  shows "x = y"
proof -
  have "take (ff_prefix F) x = take (ff_prefix F) y"
    using assms by (auto simp: announced_def prefix_def)
  then have "length x = length y" using assms(1,2) by (auto simp: announced_def)
  then show ?thesis using assms(3) by (auto simp: prefix_def)
qed

lemma received_is_sent:
  assumes "recv_answer F got [] s x" and "valid v" and "encode v = Inr frame" and "prefix (got s) frame"
  shows "(x = Inr v \<and> got s = frame) \<or> (\<exists>e. x = Inl (Mux_Io e))"
proof -
  have a: "announced F frame" by (rule announces [OF assms(2,3)])
  from assms(1) consider (io) "\<exists>e. x = Inl (Mux_Io e)"
    | (head) h e where "got s = h" "length h = ff_prefix F" "ff_body F h = Inl e"
    | (whole) fr where "got s = fr" "announced F fr" "x = map_err Mux_Wire (ff_parse F fr)"
    by (auto simp: recv_answer_def)
  then show ?thesis
  proof cases
    case io
    then show ?thesis by blast
  next
    case head
    then have "h = take (ff_prefix F) frame" using assms(4) by (auto simp: prefix_def)
    then show ?thesis using a head(3) by (simp add: announced_def)
  next
    case whole
    then have "fr = frame" using announced_unique a assms(4) by blast
    then show ?thesis using whole decode_encode [OF assms(2,3)] by (simp add: map_err_def)
  qed
qed

end

text \<open>The three kinds of frame: a header, the size of the rest, the rest.\<close>

lemma header_size [simp]:
  "take 14 (encode_header k [] @ to_be 2 n @ r) = encode_header k [] @ to_be 2 n"
  "slice (encode_header k [] @ to_be 2 n) 12 14 = to_be 2 n"
  by (simp_all add: slice_def)

lemma header_alone [simp]: "parse_header (encode_header k []) = Inr k"
  using parse_header_append [of k "[]"] by simp

lemma policy_announced:
  assumes "encode_policy family = Inr frame"
  shows "announced read_policy frame"
proof -
  have "family_valid family" and f: "frame = encode_header Policy [] @ to_be 2 (length family) @ family"
    using assms by (simp_all add: encode_policy_Inr)
  then have "1 \<le> length family" "length family \<le> 64"
    by (cases family; simp add: family_valid_def MAX_POLICY_FAMILY_def)+
  then show ?thesis
    by (simp add: f announced_def read_policy_def wire_limits from_be_to_be result_simps map_err_def)
qed

lemma open_announced: "encode_open r = Inr frame \<Longrightarrow> announced read_open frame"
  using body_length [of r]
  by (auto simp: encode_open_Inr Wire.frame_bytes_def announced_def read_open_def wire_limits from_be_to_be)

lemma response_announced: "encode_open_response r = Inr frame \<Longrightarrow> announced read_open_response frame"
  by (auto simp: encode_open_response_def announced_def read_open_response_def MAX_REASON_def Let_def slice_def from_be_to_be
      split: if_splits)

lemma parsers [simp]:
  "ff_parse read_policy = parse_policy" "ff_parse read_open = parse_open" "ff_parse read_open_response = parse_open_response"
  by (simp_all add: read_policy_def read_open_def read_open_response_def)

interpretation policy_frames: framed_message encode_policy read_policy family_valid
  by (rule framed_message.intro)
    (simp_all add: policy_codec.prefix_codec_axioms framed_message_axioms_def policy_announced)

interpretation open_frames: framed_message encode_open read_open request_valid
  by (rule framed_message.intro)
    (simp_all add: open_codec.prefix_codec_axioms framed_message_axioms_def open_announced)

interpretation response_frames: framed_message encode_open_response read_open_response response_valid
  by (rule framed_message.intro)
    (simp_all add: response_codec.prefix_codec_axioms framed_message_axioms_def response_announced)

text \<open>
  A frame written at one end and read at the other end of a channel that delivers no more than a
  prefix of what was written: the reader answers the value that was sent, having read the bytes of
  its frame and nothing after them, or an error of its transport.
\<close>

definition exchanged ::
    "send_future \<Rightarrow> 'a frame_format \<Rightarrow> 'a \<Rightarrow> 's byte_io \<Rightarrow> 's \<Rightarrow> 'u byte_io \<Rightarrow> 'u \<Rightarrow> bool" where
  "exchanged w F v T a U b \<longleftrightarrow>
     (\<forall>f s g t x.
        polled (poll_send (traced_duplex T)) w (a, [], []) f s (Ready (Inr ())) \<longrightarrow>
        polled (poll_recv F (traced_duplex U)) (recv_start F) (b, [], []) g t (Ready x) \<longrightarrow>
        prefix (traced_got t) (traced_put s) \<longrightarrow>
        (x = Inr v \<and> traced_got t = traced_put s) \<or> (\<exists>e. x = Inl (Mux_Io e)))"

context framed_message
begin

lemma exchange:
  assumes "duplex_contract T okT" and "okT a" and "duplex_contract U okU" and "okU b" and "valid v"
  shows "exchanged (Send_Encode (encode v)) F v T a U b"
  unfolding exchanged_def
proof (intro allI impI)
  fix f s g t x
  assume send: "polled (poll_send (traced_duplex T)) (Send_Encode (encode v)) (a, [], []) f s (Ready (Inr ()))"
    and recv: "polled (poll_recv F (traced_duplex U)) (recv_start F) (b, [], []) g t (Ready x)"
    and channel: "prefix (traced_got t) (traced_put s)"
  obtain frame where e: "encode v = Inr frame" using round_trip [OF assms(5)] by blast
  have "traced_put s = [] @ frame"
    using duplex.polled_send [OF traced_duplex_contract [OF assms(1)] send, of "[]" frame] assms(2) e by simp
  moreover have "recv_answer F traced_got [] t x"
    using duplex.polled_recv [OF traced_duplex_contract [OF assms(3)] recv, of "[]"] assms(4)
    by (simp add: recv_start_def)
  ultimately show "(x = Inr v \<and> traced_got t = traced_put s) \<or> (\<exists>e. x = Inl (Mux_Io e))"
    using received_is_sent [OF _ assms(5) e, of traced_got t x] channel by simp
qed

end

section \<open>User streams\<close>

text \<open>
  What a suspended operation may do to the counters: the role, the limit and the policy flag stay,
  and the reservation made when the operation started is given back exactly when it fails.
\<close>

definition keeps_role :: "'t mux_session \<Rightarrow> 't mux_session \<Rightarrow> bool" where
  "keeps_role se se' \<longleftrightarrow> se_role se' = se_role se \<and> se_max_user_streams se' = se_max_user_streams se
     \<and> (se_policy_open se \<longrightarrow> se_policy_open se')"

definition policy_step :: "'t mux_session \<Rightarrow> ('t, 'f, 'a) session_poll \<Rightarrow> bool" where
  "policy_step se out \<longleftrightarrow> (case out of (f, se', r) \<Rightarrow> keeps_role se se' \<and> se_user_streams se' = se_user_streams se)"

definition flow_step :: "'t mux_session \<Rightarrow> ('t, session_future, 'a) session_poll \<Rightarrow> bool" where
  "flow_step se out \<longleftrightarrow> (case out of (f, se', r) \<Rightarrow> keeps_role se se' \<and> f \<noteq> Fut_Start
     \<and> se_user_streams se' = (if \<exists>e. r = Ready (Inl e) then se_user_streams se - 1 else se_user_streams se))"

lemma keeps_role_simps [simp]:
  "keeps_role se se" "keeps_role se (se\<lparr>se_conn := c\<rparr>)" "keeps_role (se\<lparr>se_conn := c\<rparr>) se' = keeps_role se se'"
  "keeps_role se (undo_reserve se') = keeps_role se se'" "keeps_role se (release_flow se') = keeps_role se se'"
  "keeps_role se (se'\<lparr>se_conn := c\<rparr>) = keeps_role se se'"
  "keeps_role (se\<lparr>se_user_streams := n\<rparr>) se' = keeps_role se se'"
  by (auto simp: keeps_role_def undo_reserve_def release_flow_def)

lemma undo_count [simp]:
  "se_user_streams (undo_reserve se) = se_user_streams se - 1" "se_user_streams (release_flow se) = se_user_streams se - 1"
  by (simp_all add: undo_reserve_def release_flow_def)

lemma step_triple [simp]:
  "policy_step se (g, se', q) \<longleftrightarrow> keeps_role se se' \<and> se_user_streams se' = se_user_streams se"
  "flow_step se (f, se', r) \<longleftrightarrow> keeps_role se se' \<and> f \<noteq> Fut_Start
     \<and> se_user_streams se' = (if \<exists>e. r = Ready (Inl e) then se_user_streams se - 1 else se_user_streams se)"
  by (simp_all add: policy_step_def flow_step_def)

lemma policy_step_conn: "policy_step (se\<lparr>se_conn := c\<rparr>) out = policy_step se out"
  by (auto simp: policy_step_def)

lemma flow_step_conn: "flow_step (se\<lparr>se_conn := c\<rparr>) out = flow_step se out"
  by (auto simp: flow_step_def)

text \<open>The law of \<open>await\<close>, for an operation with a reservation and for one without.\<close>

lemma await_stream_policy:
  assumes "\<And>v se. policy_step se (rest v se)"
  shows "policy_step se (await_stream id i g se awaited rest)"
  using assms [of "se\<lparr>se_conn := c\<rparr>" for c] unfolding policy_step_conn
  by (auto simp: await_stream_def split: prod.split poll.split sum.split)

lemma await_stream_flow:
  assumes "\<And>v se. flow_step se (rest v se)" and "undo = undo_reserve \<or> undo = release_flow" and "\<And>f. g f \<noteq> Fut_Start"
  shows "flow_step se (await_stream undo i g se awaited rest)"
  using assms(1) [of "se\<lparr>se_conn := c\<rparr>" for c] assms(2,3) unfolding flow_step_conn
  by (auto simp: await_stream_def split: prod.split poll.split sum.split)

lemma await_open_policy: "(\<And>se. policy_step se (rest se)) \<Longrightarrow> policy_step se (await_open T id i g se rest)"
  unfolding await_open_def by (auto split: prod.split intro: await_stream_policy)

lemma await_open_flow: "(\<And>se. flow_step se (rest se)) \<Longrightarrow> g \<noteq> Fut_Start \<Longrightarrow> flow_step se (await_open T undo_reserve i g se rest)"
  unfolding await_open_def by (auto split: prod.split intro: await_stream_flow)

lemma start_stream_policy:
  assumes "\<And>i se. policy_step se (rest i se)"
  shows "policy_step se (start_stream id g se rest)"
  using assms [of "se\<lparr>se_conn := c\<rparr>" for c] unfolding policy_step_conn
  by (auto simp: start_stream_def split: prod.split sum.split)

lemma start_stream_flow:
  assumes "\<And>i se. flow_step se (rest i se)" and "g \<noteq> Fut_Start"
  shows "flow_step se (start_stream undo_reserve g se rest)"
  using assms(1) [of "se\<lparr>se_conn := c\<rparr>" for c] assms(2) unfolding flow_step_conn
  by (auto simp: start_stream_def split: prod.split sum.split)

lemma await_accept_policy:
  assumes "\<And>i se. policy_step se (rest i se)"
  shows "policy_step se (await_accept T id g se rest)"
  using assms [of "se\<lparr>se_conn := c\<rparr>" for c] unfolding policy_step_conn
  by (auto simp: await_accept_def split: prod.split poll.split sum.split)

lemma await_accept_flow:
  assumes "\<And>i se. flow_step se (rest i se)" and "g \<noteq> Fut_Start"
  shows "flow_step se (await_accept T undo_reserve g se rest)"
  using assms(1) [of "se\<lparr>se_conn := c\<rparr>" for c] assms(2) unfolding flow_step_conn
  by (auto simp: await_accept_def split: prod.split poll.split sum.split)

lemma policy_ends: "policy_step se (policy_agreed i se)" "policy_step se (policy_differs i se)"
  by (auto simp: policy_agreed_def policy_differs_def keeps_role_def)

lemma policy_steps:
  "policy_step se (open_policy_read T fam i f se)" "policy_step se (open_policy_write T fam i g se)"
  "policy_step se (open_policy_stream T fam i se)"
  "policy_step se (accept_policy_write T i g se)" "policy_step se (accept_policy_read T fam i f se)"
  "policy_step se (accept_policy_stream T fam se)"
proof -
  show r: "policy_step se (open_policy_read T fam i f se)" for se :: "'a mux_session" and f
    unfolding open_policy_read_def by (rule await_stream_policy) (simp add: policy_ends)
  show w: "policy_step se (open_policy_write T fam i g se)" for se :: "'a mux_session" and g
    unfolding open_policy_write_def by (rule await_stream_policy) (rule r)
  show "policy_step se (open_policy_stream T fam i se)"
    unfolding open_policy_stream_def by (rule await_open_policy) (rule w)
  show a: "policy_step se (accept_policy_write T i g se)" for se :: "'a mux_session" and g i
    unfolding accept_policy_write_def by (rule await_stream_policy) (rule policy_ends)
  show b: "policy_step se (accept_policy_read T fam i f se)" for se :: "'a mux_session" and f i
    unfolding accept_policy_read_def by (rule await_stream_policy) (simp add: a policy_ends)
  show "policy_step se (accept_policy_stream T fam se)"
    unfolding accept_policy_stream_def by (rule await_accept_policy) (rule b)
qed

lemma flow_steps:
  "flow_step se (open_flow_write T i g se)" "flow_step se (open_flow_stream T req i se)"
  "flow_step se (confirm_read T i f se)"
  "flow_step se (accept_flow_read T i f se)" "flow_step se (accept_flow_stream T se)"
proof -
  show w: "flow_step se (open_flow_write T i g se)" for se :: "'a mux_session" and g
    unfolding open_flow_write_def by (rule await_stream_flow) simp_all
  show "flow_step se (open_flow_stream T req i se)"
    unfolding open_flow_stream_def by (rule await_open_flow) (rule w, simp)
  show "flow_step se (confirm_read T i f se)"
    unfolding confirm_read_def by (rule await_stream_flow) simp_all
  show b: "flow_step se (accept_flow_read T i f se)" for se :: "'a mux_session" and f i
    unfolding accept_flow_read_def by (rule await_stream_flow) simp_all
  show "flow_step se (accept_flow_stream T se)"
    unfolding accept_flow_stream_def by (rule await_accept_flow) (rule b, simp)
qed

lemma open_policy_step: "policy_step se (open_policy T fam f se)"
  by (cases f) (auto intro: policy_steps start_stream_policy)

lemma accept_policy_step: "policy_step se (accept_policy T fam f se)"
  by (cases f) (auto intro: policy_steps)

lemma opening_steps:
  "policy_step se (opening_read T i f se)" "policy_step se (opening_write T i g se)" "policy_step se (poll_opening T h se)"
proof -
  show r: "policy_step se (opening_read T i f se)" for se :: "'a mux_session" and i f
    unfolding opening_read_def by (rule await_stream_policy) simp
  show w: "policy_step se (opening_write T i g se)" for se :: "'a mux_session" and i g
    unfolding opening_write_def by (rule await_stream_policy) (rule r)
  show "policy_step se (poll_opening T h se)" by (cases h) (auto intro: r w)
qed

lemma respond_step: "policy_step se (respond_flow T i response f se)"
  by (cases f) (auto simp: respond_write_def split: prod.split)

text \<open>An operation that is polled for the first time reserves a stream or fails.\<close>

definition flow_start :: "'t mux_session \<Rightarrow> ('t, session_future, 'a) session_poll \<Rightarrow> bool" where
  "flow_start se out \<longleftrightarrow> (case out of (f, se', r) \<Rightarrow> keeps_role se se' \<and>
     (if \<exists>e. r = Ready (Inl e) then se_user_streams se' = se_user_streams se
      else f \<noteq> Fut_Start \<and> se_policy_open se \<and> se_user_streams se' = se_user_streams se + 1
        \<and> se_user_streams se < se_max_user_streams se))"

lemma flow_start_reserved:
  assumes "flow_step (se\<lparr>se_user_streams := se_user_streams se + 1\<rparr>) out" and "se_policy_open se"
    and "se_user_streams se < se_max_user_streams se"
  shows "flow_start se out"
  using assms by (auto simp: flow_start_def flow_step_def split: if_splits)

lemma flow_start_fails: "flow_start se (f, se, Ready (Inl e))"
  by (simp add: flow_start_def)

lemma open_flow_start: "flow_start se (open_flow T req Fut_Start se)"
  by (auto simp: reserve_user_stream_def flow_start_fails intro!: flow_start_reserved start_stream_flow flow_steps)

lemma accept_flow_start: "flow_start se (accept_flow T Fut_Start se)"
  by (auto simp: reserve_user_stream_def flow_start_fails intro!: flow_start_reserved flow_steps)

lemma open_flow_step: "f \<noteq> Fut_Start \<Longrightarrow> flow_step se (open_flow T req f se)"
  by (cases f) (auto intro: flow_steps)

lemma accept_flow_step: "f \<noteq> Fut_Start \<Longrightarrow> flow_step se (accept_flow T f se)"
  by (cases f) (auto intro: flow_steps)

lemma confirmed_steps:
  "flow_start se (open_flow_confirmed T req Fut_Start se)"
  "f \<noteq> Fut_Start \<Longrightarrow> flow_step se (open_flow_confirmed T req f se)"
proof -
  have k: "keeps_role a b \<Longrightarrow> keeps_role b c \<Longrightarrow> keeps_role a c" for a b c :: "'a mux_session"
    by (auto simp: keeps_role_def)
  obtain g se1 r where o: "open_flow T req Fut_Start se = (g, se1, r)" by (metis prod_cases3)
  show "flow_start se (open_flow_confirmed T req Fut_Start se)"
    using open_flow_start [of se T req] o flow_steps(3) [of se1 T _ "recv_start read_open_response"] k
    by (fastforce simp: flow_start_def flow_step_def split: poll.splits sum.splits prod.splits if_splits)
  assume f: "f \<noteq> Fut_Start"
  obtain h se2 q where p: "open_flow T req f se = (h, se2, q)" by (metis prod_cases3)
  have other: "flow_step se (case (h, se2, q) of (f, se, r) \<Rightarrow>
        (case r of Ready (Inr i) \<Rightarrow> confirm_read T i (recv_start read_open_response) se
         | Ready (Inl e) \<Rightarrow> (f, se, Ready (Inl e)) | Pending \<Rightarrow> (f, se, Pending) | Panicked \<Rightarrow> (f, se, Panicked)))"
    using open_flow_step [OF f, of se T req] p flow_steps(3) [of se2 T _ "recv_start read_open_response"] k
    by (fastforce simp: flow_step_def split: poll.splits sum.splits prod.splits if_splits)
  show "flow_step se (open_flow_confirmed T req f se)"
    using f p other flow_steps(3) by (cases f) auto
qed

subsection \<open>Runs of a session\<close>

text \<open>
  What the owner of a session does with it. At most one of \<open>open_flow\<close>, \<open>open_flow_confirmed\<close> and
  \<open>accept_flow\<close> is in progress, since each borrows the session until it is ready; \<open>sn_live\<close> counts
  the flows that were handed out and not yet released. Everything else that happens on the
  connection, reads and writes of the streams above all, is the rule \<open>traffic\<close>. A flow operation
  that is abandoned while suspended is not a step: it would keep its reservation.
\<close>

datatype flow_op = Op_Open open_request | Op_Confirmed open_request | Op_Accept

record 't session_state =
  sn_session :: "'t mux_session"
  sn_op :: "(flow_op \<times> session_future) option"
  sn_live :: nat

fun poll_op :: "'t byte_io \<Rightarrow> flow_op \<Rightarrow> session_future \<Rightarrow> 't mux_session \<Rightarrow> ('t, session_future, unit) session_poll" where
  "poll_op T (Op_Open req) f se =
     (case open_flow T req f se of (f, se, r) \<Rightarrow> (f, se, map_poll (map_sum id (\<lambda>_. ())) r))"
| "poll_op T (Op_Confirmed req) f se =
     (case open_flow_confirmed T req f se of (f, se, r) \<Rightarrow> (f, se, map_poll (map_sum id (\<lambda>_. ())) r))"
| "poll_op T Op_Accept f se =
     (case accept_flow T f se of (f, se, r) \<Rightarrow> (f, se, map_poll (map_sum id (\<lambda>_. ())) r))"

definition after_poll ::
    "flow_op \<Rightarrow> session_future \<Rightarrow> 't mux_session \<Rightarrow> (mux_error + unit) poll \<Rightarrow> 't session_state \<Rightarrow> 't session_state" where
  "after_poll op f se r m =
     (case r of
        Pending \<Rightarrow> m\<lparr>sn_session := se, sn_op := Some (op, f)\<rparr>
      | Ready (Inr _) \<Rightarrow> m\<lparr>sn_session := se, sn_op := None, sn_live := sn_live m + 1\<rparr>
      | _ \<Rightarrow> m\<lparr>sn_session := se, sn_op := None\<rparr>)"

inductive session_run :: "'t byte_io \<Rightarrow> 't mux_session \<Rightarrow> 't session_state \<Rightarrow> bool" for T se0 where
  start: "session_run T se0 \<lparr>sn_session = se0, sn_op = None, sn_live = 0\<rparr>"
| open_policy: "session_run T se0 m \<Longrightarrow> sn_op m = None \<Longrightarrow> open_policy T fam f (sn_session m) = (f', se, p)
    \<Longrightarrow> session_run T se0 (m\<lparr>sn_session := se\<rparr>)"
| accept_policy: "session_run T se0 m \<Longrightarrow> sn_op m = None \<Longrightarrow> accept_policy T fam f (sn_session m) = (f', se, p)
    \<Longrightarrow> session_run T se0 (m\<lparr>sn_session := se\<rparr>)"
| call: "session_run T se0 m \<Longrightarrow> sn_op m = None \<Longrightarrow> poll_op T op Fut_Start (sn_session m) = (f, se, r)
    \<Longrightarrow> r \<noteq> Panicked \<Longrightarrow> session_run T se0 (after_poll op f se r m)"
| resume: "session_run T se0 m \<Longrightarrow> sn_op m = Some (op, f) \<Longrightarrow> poll_op T op f (sn_session m) = (f', se, r)
    \<Longrightarrow> r \<noteq> Panicked \<Longrightarrow> session_run T se0 (after_poll op f' se r m)"
| begin_open: "session_run T se0 m \<Longrightarrow> sn_op m = None \<Longrightarrow> begin_open_flow_confirmed req (sn_session m) = (se, x)
    \<Longrightarrow> session_run T se0 (m\<lparr>sn_session := se, sn_live := sn_live m + (case x of Inr _ \<Rightarrow> 1 | Inl _ \<Rightarrow> 0)\<rparr>)"
| opening_poll: "session_run T se0 m \<Longrightarrow> poll_opening T f (sn_session m) = (f', se, q)
    \<Longrightarrow> session_run T se0 (m\<lparr>sn_session := se\<rparr>)"
| respond: "session_run T se0 m \<Longrightarrow> sn_op m = None \<Longrightarrow> respond_flow T i response f (sn_session m) = (f', se, u)
    \<Longrightarrow> session_run T se0 (m\<lparr>sn_session := se\<rparr>)"
| release: "session_run T se0 m \<Longrightarrow> sn_op m = None \<Longrightarrow> sn_live m = Suc n
    \<Longrightarrow> session_run T se0 (m\<lparr>sn_session := release_flow (sn_session m), sn_live := n\<rparr>)"
| traffic: "session_run T se0 m \<Longrightarrow> session_run T se0 (m\<lparr>sn_session := (sn_session m)\<lparr>se_conn := c\<rparr>\<rparr>)"

definition session_inv :: "'t mux_session \<Rightarrow> 't session_state \<Rightarrow> bool" where
  "session_inv se0 m \<longleftrightarrow>
     se_user_streams (sn_session m) = sn_live m + (if sn_op m = None then 0 else 1)
     \<and> se_user_streams (sn_session m) \<le> se_max_user_streams se0
     \<and> se_max_user_streams (sn_session m) = se_max_user_streams se0
     \<and> (0 < se_user_streams (sn_session m) \<longrightarrow> se_policy_open (sn_session m))
     \<and> (\<forall>op f. sn_op m = Some (op, f) \<longrightarrow> f \<noteq> Fut_Start)"

lemma discarded: "(\<exists>e. map_poll (map_sum id (\<lambda>_. ())) r = Ready (Inl e)) \<longleftrightarrow> (\<exists>e. r = Ready (Inl e))"
proof (cases r)
  case (Ready x)
  then show ?thesis by (cases x) auto
qed auto

lemma discard_start:
  assumes "flow_start se out"
  shows "flow_start se (case out of (f, se, r) \<Rightarrow> (f, se, map_poll (map_sum id (\<lambda>_. ())) r))"
proof -
  obtain f se' r where o: "out = (f, se', r)" by (metis prod_cases3)
  show ?thesis using assms unfolding o flow_start_def prod.case discarded .
qed

lemma discard_step:
  assumes "flow_step se out"
  shows "flow_step se (case out of (f, se, r) \<Rightarrow> (f, se, map_poll (map_sum id (\<lambda>_. ())) r))"
proof -
  obtain f se' r where o: "out = (f, se', r)" by (metis prod_cases3)
  show ?thesis using assms unfolding o flow_step_def prod.case discarded .
qed

lemma poll_op_start: "flow_start se (poll_op T op Fut_Start se)"
  by (cases op)
    (simp_all only: poll_op.simps discard_start [OF open_flow_start] discard_start [OF accept_flow_start]
      discard_start [OF confirmed_steps(1)])

lemma poll_op_step: "f \<noteq> Fut_Start \<Longrightarrow> flow_step se (poll_op T op f se)"
  by (cases op)
    (simp_all only: poll_op.simps discard_step [OF open_flow_step] discard_step [OF accept_flow_step]
      discard_step [OF confirmed_steps(2)] not_False_eq_True)

lemma begin_open_count:
  assumes "begin_open_flow_confirmed req se = (se', x)"
  shows "keeps_role se se' \<and> se_user_streams se' = se_user_streams se + (case x of Inr _ \<Rightarrow> 1 | Inl _ \<Rightarrow> 0)
    \<and> ((\<exists>f. x = Inr f) \<longrightarrow> se_policy_open se \<and> se_user_streams se < se_max_user_streams se)"
  using assms by (auto simp: begin_open_flow_confirmed_def reserve_user_stream_def keeps_role_def undo_reserve_def
      split: if_splits prod.splits sum.splits)

lemma after_call_inv:
  assumes "session_inv se0 m" and "sn_op m = None" and "flow_start (sn_session m) (f, se, r)" and "r \<noteq> Panicked"
  shows "session_inv se0 (after_poll op f se r m)"
proof (cases r)
  case (Ready x)
  then show ?thesis using assms by (cases x) (auto simp: session_inv_def after_poll_def flow_start_def keeps_role_def)
qed (use assms in \<open>auto simp: session_inv_def after_poll_def flow_start_def keeps_role_def\<close>)

lemma after_resume_inv:
  assumes "session_inv se0 m" and "sn_op m = Some (op, f0)" and "flow_step (sn_session m) (f, se, r)" and "r \<noteq> Panicked"
  shows "session_inv se0 (after_poll op f se r m)"
proof (cases r)
  case (Ready x)
  then show ?thesis using assms by (cases x) (auto simp: session_inv_def after_poll_def keeps_role_def)
qed (use assms in \<open>auto simp: session_inv_def after_poll_def keeps_role_def\<close>)

lemma policy_step_inv: "session_inv se0 m \<Longrightarrow> policy_step (sn_session m) (f, se, r) \<Longrightarrow> session_inv se0 (m\<lparr>sn_session := se\<rparr>)"
  by (auto simp: session_inv_def keeps_role_def)

lemma session_run_inv:
  assumes "session_run T se0 m" and "se_user_streams se0 = 0"
  shows "session_inv se0 m"
  using assms(1)
proof (induction rule: session_run.induct)
  case start
  then show ?case using assms(2) by (simp add: session_inv_def)
next
  case (open_policy m fam f f' se p)
  then show ?case using policy_step_inv open_policy_step by metis
next
  case (accept_policy m fam f f' se p)
  then show ?case using policy_step_inv accept_policy_step by metis
next
  case (call m op f se r)
  then show ?case using after_call_inv poll_op_start by metis
next
  case (resume m op f f' se r)
  then have "f \<noteq> Fut_Start" by (auto simp: session_inv_def)
  then show ?case using resume after_resume_inv poll_op_step by metis
next
  case (begin_open m req se x)
  then show ?case
    using begin_open_count [OF begin_open(3)] by (cases x) (auto simp: session_inv_def keeps_role_def)
next
  case (opening_poll m f f' se q)
  then show ?case using policy_step_inv opening_steps(3) by metis
next
  case (respond m i response f f' se u)
  then show ?case using policy_step_inv respond_step by metis
next
  case (release m n)
  then show ?case by (auto simp: session_inv_def release_flow_def)
next
  case (traffic m c)
  then show ?case by (auto simp: session_inv_def)
qed

section \<open>Properties\<close>


text \<open>A transport of a module that has some bytes to deliver and then nothing for the moment.\<close>

definition quiet_table :: "bytes byte_table" where
  "quiet_table = demo_table\<lparr>bt_read := Some (\<lambda>m h buf. let n = min (length m) (length buf) in
     (drop n m, take n m @ drop n buf, if n = 0 then snol_pending else snol_progress n))\<rparr>"

definition quiet_stream :: "bytes \<Rightarrow> bytes module_byte_io" where
  "quiet_stream m = module_io_new 1 quiet_table m"

lemma quiet_ok: "mb_ok (quiet_stream m)"
  by (auto simp: mb_ok_def quiet_stream_def module_io_new_def quiet_table_def keeps_slice_def Let_def)

definition sample_family :: bytes where "sample_family = b_str ''local''"

definition policy_bytes :: bytes where
  "policy_bytes = encode_header Policy [] @ to_be 2 5 @ sample_family"


text \<open>
  C17: the user streams of a session are counted exactly. In whatever order flows are opened,
  accepted, confirmed, answered and released, the counter is the number of flows handed out and not
  released plus the one in progress, a failed operation giving its reservation back; it never
  exceeds one less than the configured streams, the first stream being that of the policy, and no
  stream is counted before the policy stream is open.
\<close>

theorem session_streams_counted:
  assumes "session_new io role config = Some se0" and "session_run T se0 m"
  shows "se_user_streams (sn_session m) = sn_live m + (if sn_op m = None then 0 else 1)
    \<and> se_user_streams (sn_session m) < max_streams_per_session config
    \<and> (0 < se_user_streams (sn_session m) \<longrightarrow> se_policy_open (sn_session m))"
proof -
  have e: "0 < max_streams_per_session config" "se_user_streams se0 = 0"
      "se_max_user_streams se0 = max_streams_per_session config - 1"
    using assms(1) by (auto simp: session_new_def split: if_splits)
  from session_run_inv [OF assms(2) e(2)] e show ?thesis by (auto simp: session_inv_def)
qed

definition sample_session :: "bytes module_byte_io mux_session" where
  "sample_session = the (session_new (quiet_stream (mux_frame FRAME_DATA 1 policy_bytes)) Client_Mode (yamux_of low_memory_template))"

definition sample_flow :: open_request where
  "sample_flow = \<lparr>req_kind = Tcp, req_destination = Ipv4 1, req_port = 80, req_metadata = []\<rparr>"

definition agreed_session :: "bytes module_byte_io mux_session" where
  "agreed_session = fst (snd (open_policy module_transport sample_family Fut_Start sample_session))"

theorem session_streams_counted_witness:
  "se_user_streams (fst (begin_open_flow_confirmed sample_flow agreed_session)) = 1
   \<and> 1 < max_streams_per_session (yamux_of low_memory_template)
   \<and> se_policy_open (fst (begin_open_flow_confirmed sample_flow agreed_session))"
proof -
  have n: "session_new (quiet_stream (mux_frame FRAME_DATA 1 policy_bytes)) Client_Mode (yamux_of low_memory_template) = Some sample_session"
    by (simp add: sample_session_def session_new_def low_memory_template_def)
  obtain f p where o: "open_policy module_transport sample_family Fut_Start sample_session = (f, agreed_session, p)"
    by (metis agreed_session_def fst_conv prod_cases3 snd_conv)
  obtain se x where b: "begin_open_flow_confirmed sample_flow agreed_session = (se, x)" by fastforce
  have "\<not> isl (snd (begin_open_flow_confirmed sample_flow agreed_session))" by code_simp
  then obtain g where g: "x = Inr g" using b by (cases x) auto
  let ?m = "\<lparr>sn_session = sample_session, sn_op = None, sn_live = 0\<rparr>"
  have "session_run module_transport sample_session (?m\<lparr>sn_session := agreed_session\<rparr>)"
    by (rule session_run.open_policy [OF session_run.start, where fam = sample_family and f = Fut_Start and f' = f and p = p])
      (simp_all only: session_state.simps o)
  from session_run.begin_open [OF this, of sample_flow se x] b g
  have "session_run module_transport sample_session \<lparr>sn_session = se, sn_op = None, sn_live = 1\<rparr>" by simp
  from session_streams_counted [OF n this] b show ?thesis by simp
qed

end
