(* ===== verification/Core_Registry.thy ===== *)
theory Core_Registry
  imports Module_Transport Pump "HOL-Library.AList"
begin

text \<open>
  The objects of the core that a module uses through handles (\<open>core_io.rs\<close>): the registry of
  streams and of datagram objects, the owners that register and hand over an entry, and the C
  functions of the tables \<open>CORE_BYTE_IO\<close> and \<open>CORE_DATAGRAM_IO\<close>. A boxed trait object is the
  record of its functions with its state, a hash map an association list with distinct keys. The
  two thread-local registries and the process-wide counter are one state that is passed on. A
  registered object does not call back into the registry while it is borrowed. A panic that
  reaches a C function ends the process, which sets \<open>cr_aborted\<close>; the result next to it is never seen.

  The last part shows that a module that reaches an object through its handle and the SDK gets the
  answers of the object itself, errors reduced to a status.
\<close>

section \<open>Registry\<close>

datatype core_io_error = Core_Limit | Core_Handle

type_synonym 's dyn_stream = "'s byte_io \<times> 's"
type_synonym 'd dyn_datagram = "'d datagram_io \<times> 'd"

record ('s, 'd) core_registry =
  cr_streams :: "(u64 \<times> 's dyn_stream) list"
  cr_datagrams :: "(u64 \<times> 'd dyn_datagram) list"
  cr_next :: u64
  cr_aborted :: bool

record registered_io =
  rg_handle :: u64
  rg_transferred :: bool

record registered_datagram_io =
  rd_handle :: u64
  rd_transferred :: bool

definition core_registry_new :: "('s, 'd) core_registry" where
  "core_registry_new = \<lparr>cr_streams = [], cr_datagrams = [], cr_next = 1, cr_aborted = False\<rparr>"

definition stream_count :: "('s, 'd) core_registry \<Rightarrow> nat" where
  "stream_count reg = length (cr_streams reg)"

definition datagram_count :: "('s, 'd) core_registry \<Rightarrow> nat" where
  "datagram_count reg = length (cr_datagrams reg)"

definition is_registered :: "u64 \<Rightarrow> ('s, 'd) core_registry \<Rightarrow> bool" where
  "is_registered handle reg \<longleftrightarrow>
     map_of (cr_streams reg) handle \<noteq> None \<or> map_of (cr_datagrams reg) handle \<noteq> None"

definition register_io ::
    "'s dyn_stream \<Rightarrow> nat \<Rightarrow> ('s, 'd) core_registry \<Rightarrow> ('s, 'd) core_registry \<times> (core_io_error + registered_io)" where
  "register_io io limit reg =
     (if limit = 0 then (reg, Inl Core_Limit)
      else
        (let handle = cr_next reg; reg = reg\<lparr>cr_next := handle + 1\<rparr> in
         if handle = 0 then (reg, Inl Core_Handle)
         else if limit \<le> saturating_add (stream_count reg) (datagram_count reg) then (reg, Inl Core_Limit)
         else (reg\<lparr>cr_streams := AList.update handle io (cr_streams reg)\<rparr>,
               Inr \<lparr>rg_handle = handle, rg_transferred = False\<rparr>)))"

definition register_datagram ::
    "'d dyn_datagram \<Rightarrow> nat \<Rightarrow> ('s, 'd) core_registry \<Rightarrow> ('s, 'd) core_registry \<times> (core_io_error + registered_datagram_io)" where
  "register_datagram io limit reg =
     (if limit = 0 then (reg, Inl Core_Limit)
      else
        (let handle = cr_next reg; reg = reg\<lparr>cr_next := handle + 1\<rparr> in
         if handle = 0 then (reg, Inl Core_Handle)
         else if limit \<le> saturating_add (datagram_count reg) (stream_count reg) then (reg, Inl Core_Limit)
         else (reg\<lparr>cr_datagrams := AList.update handle io (cr_datagrams reg)\<rparr>,
               Inr \<lparr>rd_handle = handle, rd_transferred = False\<rparr>)))"

definition registered_drop :: "registered_io \<Rightarrow> ('s, 'd) core_registry \<Rightarrow> ('s, 'd) core_registry" where
  "registered_drop r reg =
     (if rg_transferred r then reg else reg\<lparr>cr_streams := AList.delete (rg_handle r) (cr_streams reg)\<rparr>)"

definition registered_datagram_drop :: "registered_datagram_io \<Rightarrow> ('s, 'd) core_registry \<Rightarrow> ('s, 'd) core_registry" where
  "registered_datagram_drop r reg =
     (if rd_transferred r then reg else reg\<lparr>cr_datagrams := AList.delete (rd_handle r) (cr_datagrams reg)\<rparr>)"

text \<open>\<open>transfer\<close> takes the owner by value: it sets the flag and drops the owner.\<close>

definition registered_transfer :: "registered_io \<Rightarrow> ('s, 'd) core_registry \<Rightarrow> ('s, 'd) core_registry" where
  "registered_transfer r reg = registered_drop (r\<lparr>rg_transferred := True\<rparr>) reg"

definition registered_datagram_transfer ::
    "registered_datagram_io \<Rightarrow> ('s, 'd) core_registry \<Rightarrow> ('s, 'd) core_registry" where
  "registered_datagram_transfer r reg = registered_datagram_drop (r\<lparr>rd_transferred := True\<rparr>) reg"

section \<open>The C functions\<close>

definition raw_back :: "raw_slice \<Rightarrow> bytes \<Rightarrow> raw_slice" where
  "raw_back p bs = (case p of Null_Slice n \<Rightarrow> p | Raw_Slice _ \<Rightarrow> Raw_Slice bs)"

definition stream_keep :: "u64 \<Rightarrow> 's dyn_stream \<Rightarrow> bool \<Rightarrow> ('s, 'd) core_registry \<Rightarrow> ('s, 'd) core_registry" where
  "stream_keep handle io panicked reg =
     reg\<lparr>cr_streams := AList.update handle io (cr_streams reg), cr_aborted := cr_aborted reg \<or> panicked\<rparr>"

definition datagram_keep :: "u64 \<Rightarrow> 'd dyn_datagram \<Rightarrow> bool \<Rightarrow> ('s, 'd) core_registry \<Rightarrow> ('s, 'd) core_registry" where
  "datagram_keep handle io panicked reg =
     reg\<lparr>cr_datagrams := AList.update handle io (cr_datagrams reg), cr_aborted := cr_aborted reg \<or> panicked\<rparr>"

definition core_read ::
    "('s, 'd) core_registry \<Rightarrow> u64 \<Rightarrow> raw_slice \<Rightarrow> ('s, 'd) core_registry \<times> raw_slice \<times> snol_io_result" where
  "core_read reg handle output =
     (case raw_bytes output of
        None \<Rightarrow> (reg, output, snol_error STATUS_INVALID)
      | Some buf \<Rightarrow>
          (case map_of (cr_streams reg) handle of
             None \<Rightarrow> (reg, output, snol_error STATUS_INVALID)
           | Some (v, s) \<Rightarrow>
               (case io_read v s buf of (s', buf', r) \<Rightarrow>
                  (stream_keep handle (v, s') (r = Panicked) reg, raw_back output buf',
                   case r of
                     Ready (Inr count) \<Rightarrow>
                       if count = 0 then snol_eof
                       else if count \<le> length buf then snol_progress count
                       else snol_error STATUS_INTERNAL
                   | Ready (Inl _) \<Rightarrow> snol_error STATUS_IO
                   | Pending \<Rightarrow> snol_pending
                   | Panicked \<Rightarrow> snol_error STATUS_INTERNAL))))"

definition core_write ::
    "('s, 'd) core_registry \<Rightarrow> u64 \<Rightarrow> raw_slice \<Rightarrow> ('s, 'd) core_registry \<times> snol_io_result" where
  "core_write reg handle input =
     (case raw_bytes input of
        None \<Rightarrow> (reg, snol_error STATUS_INVALID)
      | Some bs \<Rightarrow>
          (case map_of (cr_streams reg) handle of
             None \<Rightarrow> (reg, snol_error STATUS_INVALID)
           | Some (v, s) \<Rightarrow>
               (case io_write v s bs of (s', r) \<Rightarrow>
                  (stream_keep handle (v, s') (r = Panicked) reg,
                   case r of
                     Ready (Inr count) \<Rightarrow>
                       if count = 0 \<and> bs \<noteq> [] then snol_error STATUS_IO
                       else if count \<le> length bs then snol_progress count
                       else snol_error STATUS_INTERNAL
                   | Ready (Inl _) \<Rightarrow> snol_error STATUS_IO
                   | Pending \<Rightarrow> snol_pending
                   | Panicked \<Rightarrow> snol_error STATUS_INTERNAL))))"

definition core_action ::
    "('s byte_io \<Rightarrow> 's \<Rightarrow> 's \<times> unit io_result poll) \<Rightarrow> ('s, 'd) core_registry \<Rightarrow> u64 \<Rightarrow> ('s, 'd) core_registry \<times> snol_io_result" where
  "core_action op reg handle =
     (case map_of (cr_streams reg) handle of
        None \<Rightarrow> (reg, snol_error STATUS_INVALID)
      | Some (v, s) \<Rightarrow>
          (case op v s of (s', r) \<Rightarrow>
             (stream_keep handle (v, s') (r = Panicked) reg,
              case r of
                Ready (Inr _) \<Rightarrow> snol_progress 0
              | Ready (Inl _) \<Rightarrow> snol_error STATUS_IO
              | Pending \<Rightarrow> snol_pending
              | Panicked \<Rightarrow> snol_error STATUS_INTERNAL)))"

definition core_flush :: "('s, 'd) core_registry \<Rightarrow> u64 \<Rightarrow> ('s, 'd) core_registry \<times> snol_io_result" where
  "core_flush reg handle = core_action io_flush reg handle"

definition core_shutdown_write :: "('s, 'd) core_registry \<Rightarrow> u64 \<Rightarrow> ('s, 'd) core_registry \<times> snol_io_result" where
  "core_shutdown_write reg handle = core_action io_shutdown_write reg handle"

definition core_close :: "('s, 'd) core_registry \<Rightarrow> u64 \<Rightarrow> ('s, 'd) core_registry \<times> u32" where
  "core_close reg handle =
     (reg\<lparr>cr_streams := AList.delete handle (cr_streams reg)\<rparr>,
      if map_of (cr_streams reg) handle \<noteq> None then STATUS_OK else STATUS_INVALID)"

definition core_recv_datagram ::
    "('s, 'd) core_registry \<Rightarrow> u64 \<Rightarrow> raw_slice \<Rightarrow> ('s, 'd) core_registry \<times> raw_slice \<times> snol_io_result" where
  "core_recv_datagram reg handle output =
     (case raw_bytes output of
        None \<Rightarrow> (reg, output, snol_error STATUS_INVALID)
      | Some buf \<Rightarrow>
          (case map_of (cr_datagrams reg) handle of
             None \<Rightarrow> (reg, output, snol_error STATUS_INVALID)
           | Some (v, s) \<Rightarrow>
               (case dg_recv v s buf of (s', buf', r) \<Rightarrow>
                  (datagram_keep handle (v, s') (r = Panicked) reg, raw_back output buf',
                   case r of
                     Ready (Inr (Datagram n)) \<Rightarrow>
                       if n \<le> length buf then snol_progress n else snol_error STATUS_INTERNAL
                   | Ready (Inr (BufferTooSmall required)) \<Rightarrow> snol_buffer_too_small required
                   | Ready (Inr Closed) \<Rightarrow> snol_eof
                   | Ready (Inl _) \<Rightarrow> snol_error STATUS_IO
                   | Pending \<Rightarrow> snol_pending
                   | Panicked \<Rightarrow> snol_error STATUS_INTERNAL))))"

definition core_send_datagram ::
    "('s, 'd) core_registry \<Rightarrow> u64 \<Rightarrow> raw_slice \<Rightarrow> ('s, 'd) core_registry \<times> snol_io_result" where
  "core_send_datagram reg handle input =
     (case raw_bytes input of
        None \<Rightarrow> (reg, snol_error STATUS_INVALID)
      | Some bs \<Rightarrow>
          (case map_of (cr_datagrams reg) handle of
             None \<Rightarrow> (reg, snol_error STATUS_INVALID)
           | Some (v, s) \<Rightarrow>
               (case dg_send v s bs of (s', r) \<Rightarrow>
                  (datagram_keep handle (v, s') (r = Panicked) reg,
                   case r of
                     Ready (Inr _) \<Rightarrow> snol_progress (length bs)
                   | Ready (Inl _) \<Rightarrow> snol_error STATUS_IO
                   | Pending \<Rightarrow> snol_pending
                   | Panicked \<Rightarrow> snol_error STATUS_INTERNAL))))"

definition core_close_datagram :: "('s, 'd) core_registry \<Rightarrow> u64 \<Rightarrow> ('s, 'd) core_registry \<times> u32" where
  "core_close_datagram reg handle =
     (reg\<lparr>cr_datagrams := AList.delete handle (cr_datagrams reg)\<rparr>,
      if map_of (cr_datagrams reg) handle \<noteq> None then STATUS_OK else STATUS_INVALID)"

text \<open>The tables, as the SDK calls them with a slice of its own.\<close>

definition on_slice :: "('m \<Rightarrow> u64 \<Rightarrow> raw_slice \<Rightarrow> 'm \<times> raw_slice \<times> snol_io_result) \<Rightarrow> 'm read_fn" where
  "on_slice f m handle buf =
     (case f m handle (Raw_Slice buf) of (m', out, r) \<Rightarrow> (m', case out of Raw_Slice buf' \<Rightarrow> buf' | _ \<Rightarrow> buf, r))"

definition CORE_BYTE_IO :: "('s, 'd) core_registry byte_table" where
  "CORE_BYTE_IO =
     \<lparr>bt_struct_size = BYTE_TABLE_SIZE, bt_reserved = 0,
      bt_read = Some (on_slice core_read), bt_write = Some (\<lambda>m handle bs. core_write m handle (Raw_Slice bs)),
      bt_flush = Some core_flush, bt_shutdown_write = Some core_shutdown_write, bt_close = Some core_close\<rparr>"

definition CORE_DATAGRAM_IO :: "('s, 'd) core_registry datagram_table" where
  "CORE_DATAGRAM_IO =
     \<lparr>dt_struct_size = DATAGRAM_TABLE_SIZE, dt_reserved = 0,
      dt_recv = Some (on_slice core_recv_datagram),
      dt_send = Some (\<lambda>m handle bs. core_send_datagram m handle (Raw_Slice bs)),
      dt_close = Some core_close_datagram\<rparr>"

definition raw_parts :: "registered_io \<Rightarrow> u64 \<times> ('s, 'd) core_registry byte_table" where
  "raw_parts r = (rg_handle r, CORE_BYTE_IO)"

definition raw_parts_datagram :: "registered_datagram_io \<Rightarrow> u64 \<times> ('s, 'd) core_registry datagram_table" where
  "raw_parts_datagram r = (rd_handle r, CORE_DATAGRAM_IO)"

section \<open>Lifetime of a registration\<close>

definition stream_handles :: "('s, 'd) core_registry \<Rightarrow> u64 set" where
  "stream_handles reg = fst ` set (cr_streams reg)"

definition datagram_handles :: "('s, 'd) core_registry \<Rightarrow> u64 set" where
  "datagram_handles reg = fst ` set (cr_datagrams reg)"

lemma is_registered_iff: "is_registered h reg \<longleftrightarrow> h \<in> stream_handles reg \<union> datagram_handles reg"
  by (auto simp: is_registered_def stream_handles_def datagram_handles_def map_of_eq_None_iff)

text \<open>
  The registry next to what happened to it: the owners that are alive, every handle ever issued,
  the handles whose object was dropped by its owner or closed, and the number of registrations
  attempted.
\<close>

record ('s, 'd) registry_state =
  rs_reg :: "('s, 'd) core_registry"
  rs_owners :: "registered_io list"
  rs_datagram_owners :: "registered_datagram_io list"
  rs_issued :: "u64 list"
  rs_gone :: "u64 set"
  rs_attempts :: nat

definition registry_start :: "('s, 'd) registry_state" where
  "registry_start = \<lparr>rs_reg = core_registry_new, rs_owners = [], rs_datagram_owners = [], rs_issued = [], rs_gone = {}, rs_attempts = 0\<rparr>"

text \<open>
  The steps: the core registers an object, hands a registration over or drops it; a module calls any
  function of the tables with any handle.
\<close>

inductive registry_step :: "nat \<Rightarrow> ('s, 'd) registry_state \<Rightarrow> ('s, 'd) registry_state \<Rightarrow> bool" for limit where
  registered: "register_io io limit (rs_reg st) = (reg, Inr r) \<Longrightarrow>
    registry_step limit st (st\<lparr>rs_reg := reg, rs_owners := r # rs_owners st, rs_issued := rg_handle r # rs_issued st, rs_attempts := Suc (rs_attempts st)\<rparr>)"
| refused: "register_io io limit (rs_reg st) = (reg, Inl e) \<Longrightarrow>
    registry_step limit st (st\<lparr>rs_reg := reg, rs_attempts := Suc (rs_attempts st)\<rparr>)"
| registered_dg: "register_datagram dg limit (rs_reg st) = (reg, Inr q) \<Longrightarrow>
    registry_step limit st (st\<lparr>rs_reg := reg, rs_datagram_owners := q # rs_datagram_owners st, rs_issued := rd_handle q # rs_issued st, rs_attempts := Suc (rs_attempts st)\<rparr>)"
| refused_dg: "register_datagram dg limit (rs_reg st) = (reg, Inl e) \<Longrightarrow>
    registry_step limit st (st\<lparr>rs_reg := reg, rs_attempts := Suc (rs_attempts st)\<rparr>)"
| transferred: "r \<in> set (rs_owners st) \<Longrightarrow>
    registry_step limit st (st\<lparr>rs_reg := registered_transfer r (rs_reg st), rs_owners := remove1 r (rs_owners st)\<rparr>)"
| transferred_dg: "q \<in> set (rs_datagram_owners st) \<Longrightarrow>
    registry_step limit st (st\<lparr>rs_reg := registered_datagram_transfer q (rs_reg st), rs_datagram_owners := remove1 q (rs_datagram_owners st)\<rparr>)"
| dropped: "r \<in> set (rs_owners st) \<Longrightarrow>
    registry_step limit st (st\<lparr>rs_reg := registered_drop r (rs_reg st), rs_owners := remove1 r (rs_owners st), rs_gone := insert (rg_handle r) (rs_gone st)\<rparr>)"
| dropped_dg: "q \<in> set (rs_datagram_owners st) \<Longrightarrow>
    registry_step limit st (st\<lparr>rs_reg := registered_datagram_drop q (rs_reg st), rs_datagram_owners := remove1 q (rs_datagram_owners st), rs_gone := insert (rd_handle q) (rs_gone st)\<rparr>)"
| read: "registry_step limit st (st\<lparr>rs_reg := fst (core_read (rs_reg st) h p)\<rparr>)"
| written: "registry_step limit st (st\<lparr>rs_reg := fst (core_write (rs_reg st) h p)\<rparr>)"
| flushed: "registry_step limit st (st\<lparr>rs_reg := fst (core_flush (rs_reg st) h)\<rparr>)"
| shut: "registry_step limit st (st\<lparr>rs_reg := fst (core_shutdown_write (rs_reg st) h)\<rparr>)"
| closed: "core_close (rs_reg st) h = (reg, status) \<Longrightarrow>
    registry_step limit st (st\<lparr>rs_reg := reg, rs_gone := (if status = STATUS_OK then insert h (rs_gone st) else rs_gone st)\<rparr>)"
| received: "registry_step limit st (st\<lparr>rs_reg := fst (core_recv_datagram (rs_reg st) h p)\<rparr>)"
| sent: "registry_step limit st (st\<lparr>rs_reg := fst (core_send_datagram (rs_reg st) h p)\<rparr>)"
| closed_dg: "core_close_datagram (rs_reg st) h = (reg, status) \<Longrightarrow>
    registry_step limit st (st\<lparr>rs_reg := reg, rs_gone := (if status = STATUS_OK then insert h (rs_gone st) else rs_gone st)\<rparr>)"

inductive registry_run :: "nat \<Rightarrow> ('s, 'd) registry_state \<Rightarrow> bool" for limit where
  start: "registry_run limit registry_start"
| step: "registry_run limit st \<Longrightarrow> registry_step limit st st' \<Longrightarrow> registry_run limit st'"

text \<open>The handles a state holds, in the order of the two registries, and what every call keeps of them.\<close>

abbreviation registry_keys :: "('s, 'd) core_registry \<Rightarrow> u64 list" where
  "registry_keys reg \<equiv> map fst (cr_streams reg) @ map fst (cr_datagrams reg)"

definition same_keys :: "('s, 'd) core_registry \<Rightarrow> ('s, 'd) core_registry \<Rightarrow> bool" where
  "same_keys reg reg' \<longleftrightarrow> map fst (cr_streams reg') = map fst (cr_streams reg)
     \<and> map fst (cr_datagrams reg') = map fst (cr_datagrams reg) \<and> cr_next reg' = cr_next reg"

lemma update_keys_present: "map_of al k = Some v \<Longrightarrow> map fst (AList.update k w al) = map fst al"
  by (induction al) (auto split: if_splits)

lemma update_keys_absent: "k \<notin> fst ` set al \<Longrightarrow> AList.update k w al = al @ [(k, w)]"
  by (induction al) auto

lemma delete_keys: "map fst (AList.delete k al) = filter (\<lambda>h. h \<noteq> k) (map fst al)"
  by (induction al) (auto simp: AList.delete_eq)

lemma keep_same_keys:
  "map_of (cr_streams reg) h = Some v \<Longrightarrow> same_keys reg (stream_keep h io b reg)"
  "map_of (cr_datagrams reg) h = Some w \<Longrightarrow> same_keys reg (datagram_keep h dg b reg)"
  by (simp_all add: same_keys_def stream_keep_def datagram_keep_def update_keys_present)

lemma same_keys_refl: "same_keys reg reg"
  by (simp add: same_keys_def)

lemma core_action_same_keys: "same_keys reg (fst (core_action op reg h))"
  by (simp add: core_action_def same_keys_refl keep_same_keys split: option.split prod.split)

lemma calls_same_keys:
  "same_keys reg (fst (core_read reg h p))" "same_keys reg (fst (core_write reg h p))"
  "same_keys reg (fst (core_flush reg h))" "same_keys reg (fst (core_shutdown_write reg h))"
  "same_keys reg (fst (core_recv_datagram reg h p))" "same_keys reg (fst (core_send_datagram reg h p))"
  by (simp_all add: core_flush_def core_shutdown_write_def core_action_same_keys core_read_def core_write_def
      core_recv_datagram_def core_send_datagram_def same_keys_refl keep_same_keys split: option.split prod.split)

lemma register_io_cases:
  assumes "register_io io limit reg = (reg', res)"
  obtains (none) e where "limit = 0" and "res = Inl e" and "reg' = reg"
    | (refused) e where "res = Inl e" and "reg' = reg\<lparr>cr_next := cr_next reg + 1\<rparr>"
    | (issued) "res = Inr \<lparr>rg_handle = cr_next reg, rg_transferred = False\<rparr>" and "cr_next reg \<noteq> 0"
        and "saturating_add (stream_count reg) (datagram_count reg) < limit"
        and "reg' = reg\<lparr>cr_next := cr_next reg + 1, cr_streams := AList.update (cr_next reg) io (cr_streams reg)\<rparr>"
  using assms by (auto simp: register_io_def Let_def stream_count_def datagram_count_def split: if_splits)

lemma register_datagram_cases:
  assumes "register_datagram io limit reg = (reg', res)"
  obtains (none) e where "limit = 0" and "res = Inl e" and "reg' = reg"
    | (refused) e where "res = Inl e" and "reg' = reg\<lparr>cr_next := cr_next reg + 1\<rparr>"
    | (issued) "res = Inr \<lparr>rd_handle = cr_next reg, rd_transferred = False\<rparr>" and "cr_next reg \<noteq> 0"
        and "saturating_add (datagram_count reg) (stream_count reg) < limit"
        and "reg' = reg\<lparr>cr_next := cr_next reg + 1, cr_datagrams := AList.update (cr_next reg) io (cr_datagrams reg)\<rparr>"
  using assms by (auto simp: register_datagram_def Let_def stream_count_def datagram_count_def split: if_splits)

text \<open>
  The invariant over the handles of the registry (\<open>ss\<close>, \<open>ds\<close>), the counter, the handles of the owners
  (\<open>so\<close>, \<open>dgo\<close>) and the history.
\<close>

definition handles_inv ::
    "nat \<Rightarrow> u64 list \<Rightarrow> u64 list \<Rightarrow> u64 \<Rightarrow> u64 set \<Rightarrow> u64 set \<Rightarrow> u64 list \<Rightarrow> u64 set \<Rightarrow> nat \<Rightarrow> bool" where
  "handles_inv limit ss ds n so dgo issued gone attempts \<longleftrightarrow>
     0 < unat n \<and> unat n \<le> Suc attempts \<and> distinct (ss @ ds) \<and> length ss + length ds \<le> limit
     \<and> distinct issued \<and> (\<forall>h\<in>set issued. 0 < unat h \<and> unat h < unat n)
     \<and> set ss \<union> set ds = set issued - gone \<and> so \<subseteq> set issued \<and> dgo \<subseteq> set issued
     \<and> so \<inter> set ds = {} \<and> dgo \<inter> set ss = {} \<and> gone \<subseteq> set issued"

definition registry_inv :: "nat \<Rightarrow> ('s, 'd) registry_state \<Rightarrow> bool" where
  "registry_inv limit st \<longleftrightarrow>
     handles_inv limit (map fst (cr_streams (rs_reg st))) (map fst (cr_datagrams (rs_reg st))) (cr_next (rs_reg st))
       (rg_handle ` set (rs_owners st)) (rd_handle ` set (rs_datagram_owners st)) (rs_issued st) (rs_gone st) (rs_attempts st)
     \<and> (\<forall>r\<in>set (rs_owners st). \<not> rg_transferred r) \<and> (\<forall>q\<in>set (rs_datagram_owners st). \<not> rd_transferred q)"

lemma unat_next_handle: "unat (n :: u64) < 2 ^ 64 - 1 \<Longrightarrow> unat (n + 1) = Suc (unat n)"
  by (simp add: unat_word_ariths)

lemma handles_inv_attempt:
  assumes "handles_inv limit ss ds n so dgo issued gone k" and "Suc k < 2 ^ 64 - 1"
  shows "handles_inv limit ss ds (n + 1) so dgo issued gone (Suc k)"
proof -
  have "unat (n + 1) = Suc (unat n)" using assms by (intro unat_next_handle) (auto simp: handles_inv_def)
  with assms(1) show ?thesis by (auto simp: handles_inv_def less_Suc_eq)
qed

lemma handles_inv_swap: "handles_inv limit ss ds n so dgo issued gone k \<Longrightarrow> handles_inv limit ds ss n dgo so issued gone k"
  by (auto simp: handles_inv_def add.commute)

lemma handles_inv_issue:
  assumes inv: "handles_inv limit ss ds n so dgo issued gone k" and k: "Suc k < 2 ^ 64 - 1"
    and room: "saturating_add (length ss) (length ds) < limit" and limit: "limit \<le> usize_max"
  shows "n \<notin> set ss" and "handles_inv limit (ss @ [n]) ds (n + 1) (insert n so) dgo (n # issued) gone (Suc k)"
proof -
  have n1: "unat (n + 1) = Suc (unat n)" using inv k by (intro unat_next_handle) (auto simp: handles_inv_def)
  have new: "n \<notin> set issued" using inv by (auto simp: handles_inv_def)
  then have out: "n \<notin> set ss" "n \<notin> set ds" "n \<notin> gone" "n \<notin> so" "n \<notin> dgo" using inv by (auto simp: handles_inv_def)
  have len: "length ss + length ds < limit" using room limit by (auto simp: saturating_add_def)
  have "0 < unat n" using inv by (simp add: handles_inv_def)
  with inv new out len n1 show "handles_inv limit (ss @ [n]) ds (n + 1) (insert n so) dgo (n # issued) gone (Suc k)"
    by (auto simp: handles_inv_def less_Suc_eq)
  show "n \<notin> set ss" by (rule out(1))
qed

lemma handles_inv_remove:
  assumes "handles_inv limit ss ds n so dgo issued gone k" and "h \<notin> set ds" and "h \<in> set issued"
  shows "handles_inv limit (filter (\<lambda>x. x \<noteq> h) ss) ds n so dgo issued (insert h gone) k"
proof -
  have "length (filter (\<lambda>x. x \<noteq> h) ss) + length ds \<le> limit"
    using assms(1) length_filter_le [of "\<lambda>x. x \<noteq> h" ss] unfolding handles_inv_def by linarith
  with assms show ?thesis unfolding handles_inv_def by (intro conjI) (auto simp del: length_filter_le)
qed

lemma handles_inv_owners:
  "handles_inv limit ss ds n so dgo issued gone k \<Longrightarrow> so' \<subseteq> so \<Longrightarrow> dgo' \<subseteq> dgo \<Longrightarrow> handles_inv limit ss ds n so' dgo' issued gone k"
  by (auto simp: handles_inv_def)

lemma registry_inv_same_keys:
  "registry_inv limit st \<Longrightarrow> same_keys (rs_reg st) reg \<Longrightarrow> registry_inv limit (st\<lparr>rs_reg := reg\<rparr>)"
  by (simp add: registry_inv_def same_keys_def)

lemma registry_inv_gone:
  assumes "registry_inv limit st" and "h \<notin> datagram_handles (rs_reg st)" and "h \<in> set (rs_issued st)"
    and "set owners \<subseteq> set (rs_owners st)"
  shows "registry_inv limit (st\<lparr>rs_reg := (rs_reg st)\<lparr>cr_streams := AList.delete h (cr_streams (rs_reg st))\<rparr>,
           rs_owners := owners, rs_gone := insert h (rs_gone st)\<rparr>)"
proof -
  have "h \<notin> set (map fst (cr_datagrams (rs_reg st)))" using assms(2) by (simp add: datagram_handles_def)
  with handles_inv_remove [of limit] assms(1,3,4) show ?thesis
    by (auto simp: registry_inv_def delete_keys intro!: handles_inv_owners [OF handles_inv_remove])
qed

lemma registry_inv_gone_datagram:
  assumes "registry_inv limit st" and "h \<notin> stream_handles (rs_reg st)" and "h \<in> set (rs_issued st)"
    and "set owners \<subseteq> set (rs_datagram_owners st)"
  shows "registry_inv limit (st\<lparr>rs_reg := (rs_reg st)\<lparr>cr_datagrams := AList.delete h (cr_datagrams (rs_reg st))\<rparr>,
           rs_datagram_owners := owners, rs_gone := insert h (rs_gone st)\<rparr>)"
proof -
  have "h \<notin> set (map fst (cr_streams (rs_reg st)))" using assms(2) by (simp add: stream_handles_def)
  with assms(1,3,4) show ?thesis
    by (auto simp: registry_inv_def delete_keys intro!: handles_inv_owners [OF handles_inv_swap [OF handles_inv_remove [OF handles_inv_swap]]])
qed

lemma registry_inv_issued:
  assumes inv: "registry_inv limit st" and k: "Suc (rs_attempts st) < 2 ^ 64 - 1" and limit: "limit \<le> usize_max"
    and reg: "register_io io limit (rs_reg st) = (reg, Inr r)"
  shows "registry_inv limit (st\<lparr>rs_reg := reg, rs_owners := r # rs_owners st, rs_issued := rg_handle r # rs_issued st, rs_attempts := Suc (rs_attempts st)\<rparr>)"
  using reg
proof (cases rule: register_io_cases)
  case issued
  let ?R = "rs_reg st"
  have h: "handles_inv limit (map fst (cr_streams ?R)) (map fst (cr_datagrams ?R)) (cr_next ?R)
      (rg_handle ` set (rs_owners st)) (rd_handle ` set (rs_datagram_owners st)) (rs_issued st) (rs_gone st) (rs_attempts st)"
    using inv by (simp add: registry_inv_def)
  have room: "saturating_add (length (map fst (cr_streams ?R))) (length (map fst (cr_datagrams ?R))) < limit"
    using issued(3) by (simp add: stream_count_def datagram_count_def)
  note i = handles_inv_issue [OF h k room limit]
  have "AList.update (cr_next ?R) io (cr_streams ?R) = cr_streams ?R @ [(cr_next ?R, io)]"
    using i(1) by (intro update_keys_absent) simp
  with issued i(2) inv show ?thesis by (auto simp: registry_inv_def)
qed auto

lemma registry_inv_issued_datagram:
  assumes inv: "registry_inv limit st" and k: "Suc (rs_attempts st) < 2 ^ 64 - 1" and limit: "limit \<le> usize_max"
    and reg: "register_datagram io limit (rs_reg st) = (reg, Inr q)"
  shows "registry_inv limit (st\<lparr>rs_reg := reg, rs_datagram_owners := q # rs_datagram_owners st, rs_issued := rd_handle q # rs_issued st, rs_attempts := Suc (rs_attempts st)\<rparr>)"
  using reg
proof (cases rule: register_datagram_cases)
  case issued
  let ?R = "rs_reg st"
  have h: "handles_inv limit (map fst (cr_datagrams ?R)) (map fst (cr_streams ?R)) (cr_next ?R)
      (rd_handle ` set (rs_datagram_owners st)) (rg_handle ` set (rs_owners st)) (rs_issued st) (rs_gone st) (rs_attempts st)"
    using inv by (simp add: registry_inv_def handles_inv_swap)
  have room: "saturating_add (length (map fst (cr_datagrams ?R))) (length (map fst (cr_streams ?R))) < limit"
    using issued(3) by (simp add: stream_count_def datagram_count_def)
  note i = handles_inv_issue [OF h k room limit]
  have "AList.update (cr_next ?R) io (cr_datagrams ?R) = cr_datagrams ?R @ [(cr_next ?R, io)]"
    using i(1) by (intro update_keys_absent) simp
  with issued handles_inv_swap [OF i(2)] inv show ?thesis by (auto simp: registry_inv_def)
qed auto

lemma registry_inv_refused:
  assumes "registry_inv limit st" and "Suc (rs_attempts st) < 2 ^ 64 - 1"
    and "reg = rs_reg st \<or> reg = (rs_reg st)\<lparr>cr_next := cr_next (rs_reg st) + 1\<rparr>"
  shows "registry_inv limit (st\<lparr>rs_reg := reg, rs_attempts := Suc (rs_attempts st)\<rparr>)"
  using assms(3)
proof
  assume "reg = rs_reg st"
  moreover have "handles_inv limit ss ds n so dgo issued gone k \<Longrightarrow> handles_inv limit ss ds n so dgo issued gone (Suc k)"
    for ss ds n so dgo issued gone k by (simp add: handles_inv_def)
  ultimately show ?thesis using assms(1) by (simp add: registry_inv_def)
next
  assume "reg = (rs_reg st)\<lparr>cr_next := cr_next (rs_reg st) + 1\<rparr>"
  then show ?thesis using assms(1,2) by (simp add: registry_inv_def handles_inv_attempt)
qed

lemma owner_view:
  assumes "registry_inv limit st"
  shows "r \<in> set (rs_owners st) \<Longrightarrow> \<not> rg_transferred r \<and> rg_handle r \<in> set (rs_issued st) \<and> rg_handle r \<notin> datagram_handles (rs_reg st)"
    and "q \<in> set (rs_datagram_owners st) \<Longrightarrow> \<not> rd_transferred q \<and> rd_handle q \<in> set (rs_issued st) \<and> rd_handle q \<notin> stream_handles (rs_reg st)"
    and "h \<in> stream_handles (rs_reg st) \<Longrightarrow> h \<in> set (rs_issued st) \<and> h \<notin> datagram_handles (rs_reg st)"
    and "h \<in> datagram_handles (rs_reg st) \<Longrightarrow> h \<in> set (rs_issued st) \<and> h \<notin> stream_handles (rs_reg st)"
  using assms by (auto simp: registry_inv_def handles_inv_def stream_handles_def datagram_handles_def)

lemma registry_inv_fewer_owners:
  assumes "registry_inv limit st" and "set owners \<subseteq> set (rs_owners st)" and "set downers \<subseteq> set (rs_datagram_owners st)"
  shows "registry_inv limit (st\<lparr>rs_owners := owners, rs_datagram_owners := downers\<rparr>)"
  using assms by (auto simp: registry_inv_def elim!: handles_inv_owners)

lemma registry_step_inv:
  assumes "registry_step limit st st'" and "registry_inv limit st" and "limit \<le> usize_max" and "rs_attempts st' < 2 ^ 64 - 1"
  shows "registry_inv limit st'"
  using assms
proof (induction rule: registry_step.induct)
  case (registered io st reg r)
  then show ?case by (intro registry_inv_issued) auto
next
  case (refused io st reg e)
  then show ?case by (intro registry_inv_refused) (auto elim: register_io_cases)
next
  case (registered_dg dg st reg q)
  then show ?case by (intro registry_inv_issued_datagram) auto
next
  case (refused_dg dg st reg e)
  then show ?case by (intro registry_inv_refused) (auto elim: register_datagram_cases)
next
  case (transferred r st)
  then show ?case
    using registry_inv_fewer_owners [of limit st "remove1 r (rs_owners st)" "rs_datagram_owners st"]
    by (cases st) (simp add: registered_transfer_def registered_drop_def set_remove1_subset)
next
  case (transferred_dg q st)
  then show ?case
    using registry_inv_fewer_owners [of limit st "rs_owners st" "remove1 q (rs_datagram_owners st)"]
    by (cases st) (simp add: registered_datagram_transfer_def registered_datagram_drop_def set_remove1_subset)
next
  case (dropped r st)
  then show ?case
    using owner_view(1) [of limit st r] registry_inv_gone [of limit st "rg_handle r" "remove1 r (rs_owners st)"]
    by (simp add: registered_drop_def set_remove1_subset)
next
  case (dropped_dg q st)
  then show ?case
    using owner_view(2) [of limit st q] registry_inv_gone_datagram [of limit st "rd_handle q" "remove1 q (rs_datagram_owners st)"]
    by (simp add: registered_datagram_drop_def set_remove1_subset)
next
  case (closed st h reg status)
  show ?case
  proof (cases "h \<in> stream_handles (rs_reg st)")
    case True
    with closed owner_view(3) [of limit st h] registry_inv_gone [of limit st h "rs_owners st"] show ?thesis
      by (cases st) (auto simp: core_close_def stream_handles_def map_of_eq_None_iff status_codes)
  next
    case False
    then have "AList.delete h (cr_streams (rs_reg st)) = cr_streams (rs_reg st)" by (simp add: stream_handles_def AList.delete_id)
    with False closed show ?thesis by (cases st) (auto simp: core_close_def stream_handles_def map_of_eq_None_iff status_codes)
  qed
next
  case (closed_dg st h reg status)
  show ?case
  proof (cases "h \<in> datagram_handles (rs_reg st)")
    case True
    with closed_dg owner_view(4) [of limit st h] registry_inv_gone_datagram [of limit st h "rs_datagram_owners st"] show ?thesis
      by (cases st) (auto simp: core_close_datagram_def datagram_handles_def map_of_eq_None_iff status_codes)
  next
    case False
    then have "AList.delete h (cr_datagrams (rs_reg st)) = cr_datagrams (rs_reg st)" by (simp add: datagram_handles_def AList.delete_id)
    with False closed_dg show ?thesis by (cases st) (auto simp: core_close_datagram_def datagram_handles_def map_of_eq_None_iff status_codes)
  qed
qed (auto intro: registry_inv_same_keys calls_same_keys)

lemma registry_run_inv:
  assumes "registry_run limit st" and "limit \<le> usize_max" and "rs_attempts st < 2 ^ 64 - 1"
  shows "registry_inv limit st"
  using assms
proof (induction rule: registry_run.induct)
  case start
  then show ?case by (simp add: registry_inv_def handles_inv_def registry_start_def core_registry_new_def)
next
  case (step st st')
  have "rs_attempts st \<le> rs_attempts st'" using step.hyps(2) by (cases rule: registry_step.cases) auto
  with step show ?case by (intro registry_step_inv [OF step.hyps(2)]) auto
qed

text \<open>
  C16: Over any sequence of fewer than \<open>2^64 - 1\<close> registrations, hand-overs, drops and module calls, the
  registry never holds more objects than the limit allows, no handle is issued twice and none is zero; a
  handle reaches an object exactly as long as it was issued and its object was neither dropped by an owner
  that kept it nor closed, and from then on the close functions answer it with the status for an invalid handle.
\<close>

theorem registration_lifetime:
  assumes "registry_run limit st" and "limit \<le> usize_max" and "rs_attempts st < 2 ^ 64 - 1"
  shows "stream_count (rs_reg st) + datagram_count (rs_reg st) \<le> limit
    \<and> distinct (rs_issued st) \<and> 0 \<notin> set (rs_issued st)
    \<and> (is_registered h (rs_reg st) \<longleftrightarrow> h \<in> set (rs_issued st) \<and> h \<notin> rs_gone st)
    \<and> (h \<in> rs_gone st \<longrightarrow> snd (core_close (rs_reg st) h) = STATUS_INVALID \<and> snd (core_close_datagram (rs_reg st) h) = STATUS_INVALID)"
proof -
  let ?R = "rs_reg st"
  from registry_run_inv [OF assms]
  have inv: "handles_inv limit (map fst (cr_streams ?R)) (map fst (cr_datagrams ?R)) (cr_next ?R)
      (rg_handle ` set (rs_owners st)) (rd_handle ` set (rs_datagram_owners st)) (rs_issued st) (rs_gone st) (rs_attempts st)"
    by (simp add: registry_inv_def)
  then have keys: "stream_handles ?R \<union> datagram_handles ?R = set (rs_issued st) - rs_gone st"
    by (simp add: handles_inv_def stream_handles_def datagram_handles_def)
  moreover have "h \<notin> stream_handles ?R \<and> h \<notin> datagram_handles ?R" if "h \<in> rs_gone st" using keys that by blast
  moreover have "0 \<notin> set (rs_issued st)" using inv unfolding handles_inv_def by fastforce
  ultimately show ?thesis using inv
    by (auto simp: is_registered_iff handles_inv_def stream_count_def datagram_count_def core_close_def
        core_close_datagram_def stream_handles_def datagram_handles_def map_of_eq_None_iff)
qed

text \<open>A registered stream that a module has closed, for the witness.\<close>

definition demo_object :: "bytes \<Rightarrow> bytes module_byte_io dyn_stream" where
  "demo_object m = (module_transport, module_io_new 1 demo_table m)"

definition demo_open :: "(bytes module_byte_io, bytes) registry_state" where
  "demo_open = registry_start\<lparr>rs_reg := fst (register_io (demo_object []) 1 core_registry_new),
     rs_owners := [\<lparr>rg_handle = 1, rg_transferred = False\<rparr>], rs_issued := [1], rs_attempts := 1\<rparr>"

definition demo_shut :: "(bytes module_byte_io, bytes) registry_state" where
  "demo_shut = demo_open\<lparr>rs_reg := fst (core_close (rs_reg demo_open) 1), rs_gone := {1}\<rparr>"

lemmas demo_registry_simps = demo_open_def demo_shut_def registry_start_def register_io_def core_registry_new_def stream_count_def
  datagram_count_def saturating_add_def usize_max_def core_close_def

lemma demo_object_ok: "mb_ok (snd (demo_object m))"
  by (auto simp: demo_object_def module_io_new_def mb_ok_def demo_table_def keeps_slice_def Let_def)

lemma demo_shut_run: "registry_run 1 demo_shut"
proof -
  let ?st = "registry_start :: (bytes module_byte_io, bytes) registry_state"
  have r: "register_io (demo_object []) 1 (rs_reg ?st)
      = (fst (register_io (demo_object []) 1 (rs_reg ?st)), Inr \<lparr>rg_handle = 1, rg_transferred = False\<rparr>)"
    by (simp add: demo_registry_simps)
  have "demo_open = ?st\<lparr>rs_reg := fst (register_io (demo_object []) 1 (rs_reg ?st)),
      rs_owners := \<lparr>rg_handle = 1, rg_transferred = False\<rparr> # rs_owners ?st,
      rs_issued := rg_handle \<lparr>rg_handle = 1, rg_transferred = False\<rparr> # rs_issued ?st, rs_attempts := Suc (rs_attempts ?st)\<rparr>"
    by (simp add: demo_registry_simps)
  then have "registry_step 1 ?st demo_open" using registry_step.registered [OF r] by simp
  then have o: "registry_run 1 demo_open" by (rule registry_run.step [OF registry_run.start])
  have "demo_shut = demo_open\<lparr>rs_reg := fst (core_close (rs_reg demo_open) 1),
      rs_gone := (if snd (core_close (rs_reg demo_open) 1) = STATUS_OK then insert 1 (rs_gone demo_open) else rs_gone demo_open)\<rparr>"
    by (simp add: demo_registry_simps)
  then have "registry_step 1 demo_open demo_shut" using registry_step.closed [OF prod.collapse [symmetric]] by metis
  with o show ?thesis by (rule registry_run.step)
qed

theorem registration_lifetime_witness:
  "\<not> is_registered 1 (rs_reg demo_shut) \<and> snd (core_close (rs_reg demo_shut) 1) = STATUS_INVALID"
proof -
  have "rs_attempts demo_shut < 2 ^ 64 - 1" "(1 :: nat) \<le> usize_max" "1 \<in> rs_gone demo_shut"
    by (simp_all add: demo_registry_simps)
  with registration_lifetime [OF demo_shut_run, of 1] show ?thesis by blast
qed

section \<open>An object behind its handle\<close>

text \<open>Calls on a byte stream and their answers.\<close>

datatype io_call = Call_Read bytes | Call_Write bytes | Call_Flush | Call_Shutdown
datatype io_answer = Answer_Read bytes "nat io_result poll" | Answer_Count "nat io_result poll" | Answer_Done "unit io_result poll"

fun answer_call :: "'s byte_io \<Rightarrow> 's \<Rightarrow> io_call \<Rightarrow> 's \<times> io_answer" where
  "answer_call io s (Call_Read buf) = (case io_read io s buf of (s', buf', r) \<Rightarrow> (s', Answer_Read buf' r))"
| "answer_call io s (Call_Write bs) = (case io_write io s bs of (s', r) \<Rightarrow> (s', Answer_Count r))"
| "answer_call io s Call_Flush = (case io_flush io s of (s', r) \<Rightarrow> (s', Answer_Done r))"
| "answer_call io s Call_Shutdown = (case io_shutdown_write io s of (s', r) \<Rightarrow> (s', Answer_Done r))"

fun answer_calls :: "'s byte_io \<Rightarrow> 's \<Rightarrow> io_call list \<Rightarrow> 's \<times> io_answer list" where
  "answer_calls io s [] = (s, [])"
| "answer_calls io s (c # cs) =
     (case answer_call io s c of (s', a) \<Rightarrow> (case answer_calls io s' cs of (s'', as) \<Rightarrow> (s'', a # as)))"

text \<open>The specification: the object itself, with every error reported as the I/O status and a write of nothing as one.\<close>

definition relay :: "'a io_result poll \<Rightarrow> 'a io_result poll" where
  "relay r = (case r of Ready (Inl _) \<Rightarrow> Ready (Inl (status_error STATUS_IO)) | _ \<Rightarrow> r)"

definition relayed :: "'s byte_io \<Rightarrow> 's byte_io" where
  "relayed v =
     \<lparr>io_read = (\<lambda>s buf. case io_read v s buf of (s', buf', r) \<Rightarrow> (s', buf', relay r)),
      io_write = (\<lambda>s bs. case io_write v s bs of (s', r) \<Rightarrow>
        (s', if bs \<noteq> [] \<and> r = Ready (Inr 0) then Ready (Inl (status_error STATUS_IO)) else relay r)),
      io_flush = (\<lambda>s. case io_flush v s of (s', r) \<Rightarrow> (s', relay r)),
      io_shutdown_write = (\<lambda>s. case io_shutdown_write v s of (s', r) \<Rightarrow> (s', relay r)),
      io_close = io_close v\<rparr>"

definition behind :: "'s byte_io \<Rightarrow> 's \<Rightarrow> ('s, 'd) core_registry \<Rightarrow> ('s, 'd) core_registry foreign_byte_io \<Rightarrow> bool" where
  "behind v s reg f \<longleftrightarrow>
     fb_table f = CORE_BYTE_IO \<and> map_of (cr_streams (fb_module f)) (fb_handle f) = Some (v, s)
     \<and> (\<forall>h. h \<noteq> fb_handle f \<longrightarrow> map_of (cr_streams (fb_module f)) h = map_of (cr_streams reg) h)
     \<and> cr_datagrams (fb_module f) = cr_datagrams reg \<and> cr_next (fb_module f) = cr_next reg
     \<and> cr_aborted (fb_module f) = cr_aborted reg"

lemma behind_keep:
  "behind v s reg f \<Longrightarrow> behind v s' reg (f\<lparr>fb_module := stream_keep (fb_handle f) (v, s') False (fb_module f)\<rparr>)"
  by (auto simp: behind_def stream_keep_def update_conv')

lemmas relay_simps = relay_def map_io_def map_action_def snol_progress_def snol_pending_def snol_eof_def snol_error_def io_codes status_codes

lemma map_io_relay:
  "map_io (snol_eof) n True = Ready (Inr 0)" "map_io snol_pending n b = Pending"
  "k \<le> n \<Longrightarrow> map_io (snol_progress k) n b = Ready (Inr k)" "map_io (snol_error code) n b = Ready (Inl (status_error code))"
  "map_action (snol_progress 0) = Ready (Inr ())" "map_action snol_pending = Pending"
  "map_action (snol_error code) = Ready (Inl (status_error code))"
  by (simp_all add: relay_simps)

lemma behind_read:
  assumes c: "byte_io_contract v ok" and s: "ok s" and b: "behind v s reg f" and r: "io_read v s buf = (s', buf', r)"
  shows "fb_poll_read f buf = (f\<lparr>fb_module := stream_keep (fb_handle f) (v, s') False (fb_module f)\<rparr>, buf', relay r)"
proof -
  have ok: "length buf' = length buf" "r \<noteq> Panicked" "\<forall>n. r = Ready (Inr n) \<longrightarrow> n \<le> length buf"
    using byte_io_contract.read_ok [OF c s r] by auto
  have "core_read (fb_module f) (fb_handle f) (Raw_Slice buf) =
      (stream_keep (fb_handle f) (v, s') False (fb_module f), Raw_Slice buf',
       case r of Ready (Inr count) \<Rightarrow> if count = 0 then snol_eof else snol_progress count
       | Ready (Inl _) \<Rightarrow> snol_error STATUS_IO | _ \<Rightarrow> snol_pending)"
    using b r ok by (auto simp: core_read_def raw_bytes_def raw_back_def behind_def split: poll.split sum.split)
  then show ?thesis
    using b ok by (auto simp: fb_poll_read_def behind_def CORE_BYTE_IO_def on_slice_def relay_def map_io_relay split: poll.split sum.split)
qed

lemma behind_write:
  assumes c: "byte_io_contract v ok" and s: "ok s" and b: "behind v s reg f" and r: "io_write v s bs = (s', r)"
  shows "fb_poll_write f bs = (f\<lparr>fb_module := stream_keep (fb_handle f) (v, s') False (fb_module f)\<rparr>,
           if bs \<noteq> [] \<and> r = Ready (Inr 0) then Ready (Inl (status_error STATUS_IO)) else relay r)"
proof -
  have ok: "r \<noteq> Panicked" "\<forall>n. r = Ready (Inr n) \<longrightarrow> n \<le> length bs"
    using byte_io_contract.write_ok [OF c s r] by auto
  have "core_write (fb_module f) (fb_handle f) (Raw_Slice bs) =
      (stream_keep (fb_handle f) (v, s') False (fb_module f),
       case r of Ready (Inr count) \<Rightarrow> if count = 0 \<and> bs \<noteq> [] then snol_error STATUS_IO else snol_progress count
       | Ready (Inl _) \<Rightarrow> snol_error STATUS_IO | _ \<Rightarrow> snol_pending)"
    using b r ok by (auto simp: core_write_def raw_bytes_def behind_def split: poll.split sum.split)
  then show ?thesis
    using b ok by (auto simp: fb_poll_write_def behind_def CORE_BYTE_IO_def relay_def map_io_relay split: poll.split sum.split)
qed

lemma behind_action:
  assumes "u \<noteq> Panicked" and b: "behind v s reg f" and r: "op v s = (s', u)"
  shows "core_action op (fb_module f) (fb_handle f) =
      (stream_keep (fb_handle f) (v, s') False (fb_module f),
       case u of Ready (Inr _) \<Rightarrow> snol_progress 0 | Ready (Inl _) \<Rightarrow> snol_error STATUS_IO | _ \<Rightarrow> snol_pending)"
  using assms by (auto simp: core_action_def behind_def split: poll.split sum.split)

lemma action_relay:
  "u \<noteq> Panicked \<Longrightarrow> map_action (case u of Ready (Inr _) \<Rightarrow> snol_progress 0 | Ready (Inl _) \<Rightarrow> snol_error STATUS_IO | _ \<Rightarrow> snol_pending) = relay u"
  by (auto simp: relay_def map_io_relay split: poll.split sum.split)

lemma behind_call:
  assumes d: "duplex_contract v ok" and s: "ok s" and b: "behind v s reg f"
  shows "\<exists>s' f' a. answer_call (relayed v) s c = (s', a) \<and> answer_call foreign_byte_io f c = (f', a) \<and> ok s' \<and> behind v s' reg f'"
proof -
  have c: "byte_io_contract v ok" using d by (simp add: duplex_contract_def)
  show ?thesis
  proof (cases c)
    case (Call_Read buf)
    obtain s' buf' r where r: "io_read v s buf = (s', buf', r)" by (metis prod_cases3)
    show ?thesis using behind_read [OF c s b r] byte_io_contract.read_ok [OF c s r] r behind_keep [OF b] Call_Read
      by (simp add: relayed_def foreign_byte_io_def)
  next
    case (Call_Write bs)
    obtain s' r where r: "io_write v s bs = (s', r)" by fastforce
    show ?thesis using behind_write [OF c s b r] byte_io_contract.write_ok [OF c s r] r behind_keep [OF b] Call_Write
      by (simp add: relayed_def foreign_byte_io_def)
  next
    case Call_Flush
    obtain s' u where r: "io_flush v s = (s', u)" by fastforce
    have ok: "ok s'" "u \<noteq> Panicked" using duplex_contract.flush_ok [OF d s r] by auto
    show ?thesis using behind_action [OF ok(2) b, where op = io_flush, OF r] ok r behind_keep [OF b] b Call_Flush
      by (simp add: relayed_def foreign_byte_io_def fb_poll_flush_def CORE_BYTE_IO_def core_flush_def action_relay behind_def [of v s])
  next
    case Call_Shutdown
    obtain s' u where r: "io_shutdown_write v s = (s', u)" by fastforce
    have ok: "ok s'" "u \<noteq> Panicked" using byte_io_contract.shutdown_ok [OF c s r] by auto
    show ?thesis using behind_action [OF ok(2) b, where op = io_shutdown_write, OF r] ok r behind_keep [OF b] b Call_Shutdown
      by (simp add: relayed_def foreign_byte_io_def fb_poll_shutdown_write_def CORE_BYTE_IO_def core_shutdown_write_def action_relay behind_def [of v s])
  qed
qed

lemma behind_calls:
  assumes d: "duplex_contract v ok"
  shows "ok s \<Longrightarrow> behind v s reg f \<Longrightarrow>
    \<exists>s' f' as. answer_calls (relayed v) s cs = (s', as) \<and> answer_calls foreign_byte_io f cs = (f', as) \<and> behind v s' reg f'"
proof (induction cs arbitrary: s f)
  case (Cons c cs)
  obtain s1 f1 a where one: "answer_call (relayed v) s c = (s1, a)" "answer_call foreign_byte_io f c = (f1, a)" "ok s1" "behind v s1 reg f1"
    using behind_call [OF d Cons.prems] by metis
  from Cons.IH [OF one(3,4)] one(1,2) show ?case by fastforce
qed auto



end
