(* ===== verification/Module_Sdk.thy ===== *)
theory Module_Sdk
  imports Module_Io Wire
begin

text \<open>
  What the SDK generates for a module (\<open>module.rs\<close>, \<open>lib.rs\<close>): the checks of borrowed metadata and
  slices, the set of live instances, and the C entry points that the macros \<open>declare_module\<close> and
  \<open>declare_stateful_module\<close> expand to. The functions a module author supplies are parameters; a call
  that panics is \<^term>\<open>None\<close>. An out pointer that may be null is a flag. The lock around the instance
  set is never held across code that panics, so locking always succeeds.
\<close>

section \<open>Statuses of calls that may panic\<close>

definition catch_status :: "u32 option \<Rightarrow> u32" where
  "catch_status r = (case r of None \<Rightarrow> STATUS_INTERNAL | Some status \<Rightarrow> status)"

definition catch_io :: "snol_io_result option \<Rightarrow> snol_io_result" where
  "catch_io r = (case r of None \<Rightarrow> snol_error STATUS_INTERNAL | Some result \<Rightarrow> result)"

section \<open>Slices and metadata\<close>

definition FLOW_TCP :: u32 where "FLOW_TCP = 1"
definition FLOW_UDP :: u32 where "FLOW_UDP = 2"
definition ADDRESS_IPV4 :: u32 where "ADDRESS_IPV4 = 1"
definition ADDRESS_IPV6 :: u32 where "ADDRESS_IPV6 = 2"
definition ADDRESS_DOMAIN :: u32 where "ADDRESS_DOMAIN = 3"

lemmas flow_codes = FLOW_TCP_def FLOW_UDP_def ADDRESS_IPV4_def ADDRESS_IPV6_def ADDRESS_DOMAIN_def

record snol_flow_metadata =
  fm_struct_size :: u32
  fm_kind :: u32
  fm_address_type :: u32
  fm_reserved :: u32
  fm_address :: raw_slice
  fm_port :: u16
  fm_reserved2 :: bytes
  fm_metadata :: raw_slice

text \<open>\<open>size_of\<close> of the structure with 8-byte pointers.\<close>

definition FLOW_METADATA_SIZE :: u32 where "FLOW_METADATA_SIZE = 56"

record borrowed_flow_metadata =
  bm_kind :: u32
  bm_address_type :: u32
  bm_address :: bytes
  bm_port :: u16
  bm_metadata :: bytes

definition raw_length :: "raw_slice \<Rightarrow> nat" where
  "raw_length p = (case p of Null_Slice n \<Rightarrow> n | Raw_Slice bs \<Rightarrow> length bs)"

definition sdk_input :: "raw_slice \<Rightarrow> u32 + bytes" where
  "sdk_input p = ok_or STATUS_INVALID (raw_bytes p)"

definition is_ascii_uppercase :: "byte \<Rightarrow> bool" where
  "is_ascii_uppercase b \<longleftrightarrow> in_range b 65 90"

definition address_ok :: "u32 \<Rightarrow> bytes \<Rightarrow> bool" where
  "address_ok ty address \<longleftrightarrow>
     (if ty = ADDRESS_IPV4 then length address = 4
      else if ty = ADDRESS_IPV6 then length address = 16
      else if ty = ADDRESS_DOMAIN then
        address \<noteq> [] \<and> length address \<le> 253 \<and> is_ascii address \<and> list_all (\<lambda>b. \<not> is_ascii_uppercase b) address
      else False)"

definition flow_metadata :: "snol_flow_metadata option \<Rightarrow> u32 + borrowed_flow_metadata" where
  "flow_metadata p =
     rbind (ok_or STATUS_INVALID p) (\<lambda>metadata.
     if fm_struct_size metadata < FLOW_METADATA_SIZE
        \<or> fm_reserved metadata \<noteq> 0
        \<or> fm_reserved2 metadata \<noteq> [0, 0, 0, 0, 0, 0]
        \<or> \<not> (fm_kind metadata = FLOW_TCP \<or> fm_kind metadata = FLOW_UDP)
        \<or> \<not> (fm_address_type metadata = ADDRESS_IPV4 \<or> fm_address_type metadata = ADDRESS_IPV6 \<or> fm_address_type metadata = ADDRESS_DOMAIN)
        \<or> fm_port metadata = 0
        \<or> raw_length (fm_metadata metadata) > 1024
     then Inl STATUS_INVALID
     else
       rbind (sdk_input (fm_address metadata)) (\<lambda>address.
       rbind (sdk_input (fm_metadata metadata)) (\<lambda>opaque.
       if \<not> address_ok (fm_address_type metadata) address then Inl STATUS_INVALID
       else Inr \<lparr>bm_kind = fm_kind metadata, bm_address_type = fm_address_type metadata, bm_address = address,
                 bm_port = fm_port metadata, bm_metadata = opaque\<rparr>)))"

text \<open>
  \<open>write_output\<close>: \<open>written\<close> is \<^term>\<open>None\<close> for a null pointer, otherwise the number it points to.
\<close>

definition write_output :: "bytes \<Rightarrow> raw_slice \<Rightarrow> nat option \<Rightarrow> raw_slice \<times> nat option \<times> u32" where
  "write_output source output written =
     (if written = None then (output, None, STATUS_INVALID)
      else if raw_length output < length source then (output, Some (length source), STATUS_RESOURCE)
      else case output of
        Null_Slice n \<Rightarrow> (output, Some (length source), if source \<noteq> [] then STATUS_INVALID else STATUS_OK)
      | Raw_Slice bs \<Rightarrow> (Raw_Slice (splice bs 0 source), Some (length source), STATUS_OK))"

section \<open>Instances\<close>

record instances =
  in_next :: u64
  in_active :: "u64 set"

definition instances_new :: instances where
  "instances_new = \<lparr>in_next = 1, in_active = {}\<rparr>"

definition instances_create :: "instances \<Rightarrow> instances \<times> (u32 + u64)" where
  "instances_create i =
     (let handle = in_next i; i = i\<lparr>in_next := handle + 1\<rparr> in
      if handle = 0 then (i, Inl STATUS_RESOURCE)
      else (i\<lparr>in_active := insert handle (in_active i)\<rparr>, Inr handle))"

definition instances_contains :: "instances \<Rightarrow> u64 \<Rightarrow> bool" where
  "instances_contains i handle \<longleftrightarrow> handle \<noteq> 0 \<and> handle \<in> in_active i"

definition instances_remove :: "u64 \<Rightarrow> instances \<Rightarrow> instances" where
  "instances_remove handle i = i\<lparr>in_active := in_active i - {handle}\<rparr>"

section \<open>Entry points of a stateful module\<close>

text \<open>What the author of a module supplies, over a state of the module's own.\<close>

record 'u module_code =
  mc_description :: bytes
  mc_validate :: "bytes \<Rightarrow> bytes \<Rightarrow> (bytes + unit) option"
  mc_initialize :: "'u \<Rightarrow> u64 \<Rightarrow> bytes \<Rightarrow> bytes \<Rightarrow> 'u \<times> (u32 + unit) option"
  mc_poll :: "'u \<Rightarrow> u64 \<Rightarrow> 'u \<times> u32 option"
  mc_control :: "'u \<Rightarrow> u64 \<Rightarrow> bytes \<Rightarrow> 'u \<times> (u32 + bytes) option"
  mc_shutdown :: "'u \<Rightarrow> u64 \<Rightarrow> 'u \<times> u32 option"
  mc_destroy :: "'u \<Rightarrow> u64 \<Rightarrow> 'u \<times> unit option"

record 'u module_state =
  ms_instances :: instances
  ms_user :: 'u

definition ffi_describe :: "'u module_code \<Rightarrow> raw_slice \<Rightarrow> nat option \<Rightarrow> raw_slice \<times> nat option \<times> u32" where
  "ffi_describe mc output written =
     (case write_output (mc_description mc) output written of (out, w, s) \<Rightarrow> (out, w, catch_status (Some s)))"

definition ffi_validate_config ::
    "'u module_code \<Rightarrow> raw_slice \<Rightarrow> raw_slice \<Rightarrow> raw_slice \<Rightarrow> nat option \<Rightarrow> raw_slice \<times> nat option \<times> u32" where
  "ffi_validate_config mc config base error written =
     (case sdk_input config of
        Inl status \<Rightarrow> (error, written, status)
      | Inr config \<Rightarrow>
        (case sdk_input base of
           Inl status \<Rightarrow> (error, written, status)
         | Inr base \<Rightarrow>
           (case mc_validate mc config base of
              None \<Rightarrow> (error, written, catch_status None)
            | Some (Inr _) \<Rightarrow> write_output [] error written
            | Some (Inl message) \<Rightarrow>
                (case write_output message error written of (out, w, _) \<Rightarrow> (out, w, STATUS_INVALID)))))"

text \<open>\<open>output\<close> says whether the out pointer is non-null; the result carries what is stored there.\<close>

definition ffi_create ::
    "'u module_code \<Rightarrow> 'u module_state \<Rightarrow> raw_slice \<Rightarrow> raw_slice \<Rightarrow> bool \<Rightarrow> 'u module_state \<times> u64 option \<times> u32" where
  "ffi_create mc st config base output =
     (if \<not> output then (st, None, STATUS_INVALID)
      else case sdk_input config of
        Inl status \<Rightarrow> (st, None, status)
      | Inr config \<Rightarrow>
        (case sdk_input base of
           Inl status \<Rightarrow> (st, None, status)
         | Inr base \<Rightarrow>
           (case instances_create (ms_instances st) of
              (i, Inl status) \<Rightarrow> (st\<lparr>ms_instances := i\<rparr>, None, status)
            | (i, Inr handle) \<Rightarrow>
                (case mc_initialize mc (ms_user st) handle config base of
                   (u, Some (Inr _)) \<Rightarrow> (st\<lparr>ms_instances := i, ms_user := u\<rparr>, Some handle, STATUS_OK)
                 | (u, Some (Inl status)) \<Rightarrow> (st\<lparr>ms_instances := instances_remove handle i, ms_user := u\<rparr>, None, status)
                 | (u, None) \<Rightarrow> (st\<lparr>ms_instances := i, ms_user := u\<rparr>, None, catch_status None)))))"

definition ffi_poll :: "'u module_code \<Rightarrow> 'u module_state \<Rightarrow> u64 \<Rightarrow> 'u module_state \<times> u32" where
  "ffi_poll mc st handle =
     (if instances_contains (ms_instances st) handle
      then (case mc_poll mc (ms_user st) handle of (u, r) \<Rightarrow> (st\<lparr>ms_user := u\<rparr>, catch_status r))
      else (st, STATUS_INVALID))"

definition ffi_control ::
    "'u module_code \<Rightarrow> 'u module_state \<Rightarrow> u64 \<Rightarrow> raw_slice \<Rightarrow> raw_slice \<Rightarrow> nat option
       \<Rightarrow> 'u module_state \<times> raw_slice \<times> nat option \<times> u32" where
  "ffi_control mc st handle request response written =
     (if \<not> instances_contains (ms_instances st) handle then (st, response, written, STATUS_INVALID)
      else case sdk_input request of
        Inl status \<Rightarrow> (st, response, written, status)
      | Inr request \<Rightarrow>
          (case mc_control mc (ms_user st) handle request of
             (u, None) \<Rightarrow> (st\<lparr>ms_user := u\<rparr>, response, written, catch_status None)
           | (u, Some (Inr output)) \<Rightarrow> (st\<lparr>ms_user := u\<rparr>, write_output output response written)
           | (u, Some (Inl status)) \<Rightarrow> (st\<lparr>ms_user := u\<rparr>, response, map_option (\<lambda>_. 0) written, status)))"

definition ffi_shutdown :: "'u module_code \<Rightarrow> 'u module_state \<Rightarrow> u64 \<Rightarrow> 'u module_state \<times> u32" where
  "ffi_shutdown mc st handle =
     (if instances_contains (ms_instances st) handle
      then (case mc_shutdown mc (ms_user st) handle of (u, r) \<Rightarrow> (st\<lparr>ms_user := u\<rparr>, catch_status r))
      else (st, STATUS_INVALID))"

definition ffi_destroy :: "'u module_code \<Rightarrow> 'u module_state \<Rightarrow> u64 \<Rightarrow> 'u module_state" where
  "ffi_destroy mc st handle =
     (case mc_destroy mc (ms_user st) handle of
        (u, Some _) \<Rightarrow> st\<lparr>ms_user := u, ms_instances := instances_remove handle (ms_instances st)\<rparr>
      | (u, None) \<Rightarrow> st\<lparr>ms_user := u\<rparr>)"

section \<open>Entry points of a module without state\<close>

definition plain_create :: "instances \<Rightarrow> bool \<Rightarrow> instances \<times> u64 option \<times> u32" where
  "plain_create i output =
     (if \<not> output then (i, None, STATUS_INVALID)
      else case instances_create i of
        (i', Inr handle) \<Rightarrow> (i', Some handle, STATUS_OK)
      | (i', Inl status) \<Rightarrow> (i', None, status))"

definition plain_poll :: "instances \<Rightarrow> u64 \<Rightarrow> u32" where
  "plain_poll i handle = (if instances_contains i handle then STATUS_PENDING else STATUS_INVALID)"

definition plain_control :: "instances \<Rightarrow> u64 \<Rightarrow> nat option \<Rightarrow> nat option \<times> u32" where
  "plain_control i handle written =
     (map_option (\<lambda>_. 0) written, if instances_contains i handle then STATUS_UNSUPPORTED else STATUS_INVALID)"

definition plain_shutdown :: "instances \<Rightarrow> u64 \<Rightarrow> u32" where
  "plain_shutdown i handle = (if instances_contains i handle then STATUS_OK else STATUS_INVALID)"

definition plain_destroy :: "u64 \<Rightarrow> instances \<Rightarrow> instances" where
  "plain_destroy handle i = instances_remove handle i"

text \<open>The adapter functions of a module that has none: they ignore their arguments.\<close>

definition unsupported_adapter_accept :: u32 where "unsupported_adapter_accept = STATUS_UNSUPPORTED"
definition unsupported_adapter_attach :: u32 where "unsupported_adapter_attach = STATUS_UNSUPPORTED"
definition unsupported_adapter_complete :: u32 where "unsupported_adapter_complete = STATUS_UNSUPPORTED"
definition unsupported_adapter_close :: u32 where "unsupported_adapter_close = STATUS_UNSUPPORTED"

section \<open>The host table as a module sees it\<close>

record 'h host_api =
  ha_struct_size :: u32
  ha_reserved :: u32
  ha_context :: 'h
  ha_now_monotonic_nanos :: "('h \<Rightarrow> u64) option"
  ha_set_timer :: "('h \<Rightarrow> u64 \<Rightarrow> u64 \<Rightarrow> 'h \<times> u32) option"
  ha_emit_event :: "('h \<Rightarrow> raw_slice \<Rightarrow> 'h \<times> u32) option"
  ha_context_get :: "('h \<Rightarrow> u64 \<Rightarrow> raw_slice \<Rightarrow> raw_slice \<Rightarrow> 'h \<times> raw_slice \<times> nat \<times> u32) option"
  ha_context_set :: "('h \<Rightarrow> u64 \<Rightarrow> raw_slice \<Rightarrow> raw_slice \<Rightarrow> 'h \<times> u32) option"
  ha_protect_socket :: "('h \<Rightarrow> int \<Rightarrow> 'h \<times> u32) option"

definition HOST_API_SIZE :: u32 where "HOST_API_SIZE = 64"

definition host_from_raw :: "'h host_api option \<Rightarrow> u32 + 'h host_api" where
  "host_from_raw p =
     (case p of
        None \<Rightarrow> Inl STATUS_INVALID
      | Some host \<Rightarrow>
          if ha_struct_size host < HOST_API_SIZE \<or> ha_reserved host \<noteq> 0 then Inl STATUS_INVALID else Inr host)"

definition host_protect_socket :: "'h host_api \<Rightarrow> int \<Rightarrow> 'h host_api \<times> (u32 + unit)" where
  "host_protect_socket host socket =
     (case ha_protect_socket host of
        None \<Rightarrow> (host, Inl STATUS_UNSUPPORTED)
      | Some protect \<Rightarrow>
          (case protect (ha_context host) socket of (context, status) \<Rightarrow>
             (host\<lparr>ha_context := context\<rparr>, if status = STATUS_OK then Inr () else Inl status)))"

section \<open>Lifetime of an instance\<close>

text \<open>
  The entry points of one module in any order and with any arguments: the handles given out, the ones
  whose destruction completed, and the number of creations attempted.
\<close>

record 'u module_history =
  mh_state :: "'u module_state"
  mh_created :: "u64 list"
  mh_destroyed :: "u64 set"
  mh_attempts :: nat

definition history_start :: "'u \<Rightarrow> 'u module_history" where
  "history_start u = \<lparr>mh_state = \<lparr>ms_instances = instances_new, ms_user = u\<rparr>, mh_created = [], mh_destroyed = {}, mh_attempts = 0\<rparr>"

inductive module_run :: "'u module_code \<Rightarrow> 'u \<Rightarrow> 'u module_history \<Rightarrow> bool" for mc u where
  start: "module_run mc u (history_start u)"
| create: "module_run mc u h \<Longrightarrow> ffi_create mc (mh_state h) config base output = (st, out, status) \<Longrightarrow>
    module_run mc u (h\<lparr>mh_state := st, mh_created := (case out of None \<Rightarrow> mh_created h | Some i \<Rightarrow> i # mh_created h), mh_attempts := Suc (mh_attempts h)\<rparr>)"
| poll: "module_run mc u h \<Longrightarrow> module_run mc u (h\<lparr>mh_state := fst (ffi_poll mc (mh_state h) i)\<rparr>)"
| control: "module_run mc u h \<Longrightarrow> module_run mc u (h\<lparr>mh_state := fst (ffi_control mc (mh_state h) i request response written)\<rparr>)"
| shutdown: "module_run mc u h \<Longrightarrow> module_run mc u (h\<lparr>mh_state := fst (ffi_shutdown mc (mh_state h) i)\<rparr>)"
| destroy: "module_run mc u h \<Longrightarrow> ffi_destroy mc (mh_state h) i = st \<Longrightarrow>
    module_run mc u (h\<lparr>mh_state := st, mh_destroyed :=
      (if instances_contains (ms_instances (mh_state h)) i \<and> \<not> instances_contains (ms_instances st) i then insert i (mh_destroyed h) else mh_destroyed h)\<rparr>)"

definition instances_inv :: "u64 \<Rightarrow> u64 set \<Rightarrow> u64 list \<Rightarrow> u64 set \<Rightarrow> nat \<Rightarrow> bool" where
  "instances_inv n active created gone k \<longleftrightarrow>
     0 < unat n \<and> unat n \<le> Suc k \<and> (\<forall>i\<in>active \<union> set created \<union> gone. 0 < unat i \<and> unat i < unat n)
     \<and> distinct created \<and> set created - gone \<subseteq> active \<and> active \<inter> gone = {}"

lemma instances_inv_zero: "instances_inv n active created gone k \<Longrightarrow> 0 \<notin> active \<union> set created \<union> gone"
  unfolding instances_inv_def by (metis unsigned_0 less_irrefl)

lemma instances_inv_next:
  assumes "instances_inv n active created gone k" and "Suc k < 2 ^ 64 - 1"
  shows "n \<noteq> 0" and "n \<notin> active \<union> set created \<union> gone" and "instances_inv (n + 1) active created gone (Suc k)"
    and "instances_inv (n + 1) (insert n active) created gone (Suc k)"
    and "instances_inv (n + 1) (insert n active) (n # created) gone (Suc k)"
proof -
  have n: "unat (n + 1) = Suc (unat n)" using assms by (simp add: instances_inv_def unat_word_ariths)
  show new: "n \<notin> active \<union> set created \<union> gone" using assms(1) by (auto simp: instances_inv_def)
  show "n \<noteq> 0" using assms(1) by (auto simp: instances_inv_def)
  from n assms(1) show "instances_inv (n + 1) active created gone (Suc k)" by (auto simp: instances_inv_def less_Suc_eq)
  from n new assms(1) show "instances_inv (n + 1) (insert n active) created gone (Suc k)"
    and "instances_inv (n + 1) (insert n active) (n # created) gone (Suc k)"
    by (auto simp: instances_inv_def less_Suc_eq)
qed

abbreviation history_inv :: "'u module_history \<Rightarrow> bool" where
  "history_inv h \<equiv> instances_inv (in_next (ms_instances (mh_state h))) (in_active (ms_instances (mh_state h))) (mh_created h) (mh_destroyed h) (mh_attempts h)"

lemma call_instances [simp]:
  "ms_instances (fst (ffi_poll mc st i)) = ms_instances st"
  "ms_instances (fst (ffi_control mc st i request response written)) = ms_instances st"
  "ms_instances (fst (ffi_shutdown mc st i)) = ms_instances st"
  by (simp_all add: ffi_poll_def ffi_control_def ffi_shutdown_def split: prod.split sum.split option.split)

lemma ffi_create_cases:
  assumes "ffi_create mc st config base output = (st', out, status)"
  obtains (unchanged) "ms_instances st' = ms_instances st" and "out = None"
    | (exhausted) "in_next (ms_instances st) = 0" and "in_next (ms_instances st') = 1" and "in_active (ms_instances st') = in_active (ms_instances st)" and "out = None"
    | (failed) "in_next (ms_instances st) \<noteq> 0" and "in_next (ms_instances st') = in_next (ms_instances st) + 1"
        and "in_active (ms_instances st') = in_active (ms_instances st) - {in_next (ms_instances st)}" and "out = None"
    | (panicked) "in_next (ms_instances st) \<noteq> 0" and "in_next (ms_instances st') = in_next (ms_instances st) + 1"
        and "in_active (ms_instances st') = insert (in_next (ms_instances st)) (in_active (ms_instances st))" and "out = None"
    | (created) "in_next (ms_instances st) \<noteq> 0" and "in_next (ms_instances st') = in_next (ms_instances st) + 1"
        and "in_active (ms_instances st') = insert (in_next (ms_instances st)) (in_active (ms_instances st))" and "out = Some (in_next (ms_instances st))"
proof -
  let ?i = "ms_instances st"
  consider (early) "\<not> output \<or> (\<exists>x. sdk_input config = Inl x) \<or> (\<exists>x. sdk_input base = Inl x)"
    | (late) c b where "output" "sdk_input config = Inr c" "sdk_input base = Inr b"
    by (cases "sdk_input config"; cases "sdk_input base") auto
  then show thesis
  proof cases
    case early
    then have "ms_instances st' = ?i \<and> out = None"
      using assms by (auto simp: ffi_create_def split: sum.splits if_splits)
    then show thesis using unchanged by blast
  next
    case late
    obtain u r where r: "mc_initialize mc (ms_user st) (in_next ?i) c b = (u, r)" by fastforce
    have e: "(st', out, status) =
        (if in_next ?i = 0 then (st\<lparr>ms_instances := ?i\<lparr>in_next := in_next ?i + 1\<rparr>\<rparr>, None, STATUS_RESOURCE)
         else let i = ?i\<lparr>in_next := in_next ?i + 1, in_active := insert (in_next ?i) (in_active ?i)\<rparr> in
           case r of
             Some (Inr _) \<Rightarrow> (st\<lparr>ms_instances := i, ms_user := u\<rparr>, Some (in_next ?i), STATUS_OK)
           | Some (Inl e) \<Rightarrow> (st\<lparr>ms_instances := instances_remove (in_next ?i) i, ms_user := u\<rparr>, None, e)
           | None \<Rightarrow> (st\<lparr>ms_instances := i, ms_user := u\<rparr>, None, catch_status None))"
      unfolding assms [symmetric] ffi_create_def using late r by (simp add: instances_create_def Let_def)
    show thesis
    proof (cases "in_next ?i = 0")
      case True
      with e show thesis by (intro exhausted) simp_all
    next
      case False
      show thesis
      proof (cases r)
        case None
        with e False show thesis by (intro panicked) (simp_all add: Let_def)
      next
        case (Some q)
        with e False show thesis
          by (cases q) (auto intro: failed created simp: Let_def instances_remove_def)
      qed
    qed
  qed
qed

lemma history_run_inv:
  assumes "module_run mc u h" and "mh_attempts h < 2 ^ 64 - 1"
  shows "history_inv h"
  using assms
proof (induction rule: module_run.induct)
  case start
  then show ?case by (simp add: instances_inv_def history_start_def instances_new_def)
next
  case (create h config base outp st out status)
  then have inv: "history_inv h" and k: "Suc (mh_attempts h) < 2 ^ 64 - 1" by simp_all
  note n = instances_inv_next [OF inv k]
  from create.hyps(2) show ?case
  proof (cases rule: ffi_create_cases)
    case unchanged
    then show ?thesis using inv by (simp add: instances_inv_def)
  next
    case exhausted
    with n(1) show ?thesis by simp
  next
    case failed
    then show ?thesis using n(2,3) by simp
  next
    case panicked
    then show ?thesis using n(4) by simp
  next
    case created
    then show ?thesis using n(5) by simp
  qed
next
  case (destroy h i st)
  then have inv: "history_inv h" by simp
  show ?case
  proof (cases "snd (mc_destroy mc (ms_user (mh_state h)) i)")
    case None
    with destroy.hyps(2) have "ms_instances st = ms_instances (mh_state h)" by (auto simp: ffi_destroy_def split: prod.splits)
    with inv show ?thesis by simp
  next
    case (Some a)
    with destroy.hyps(2) have "ms_instances st = instances_remove i (ms_instances (mh_state h))" by (auto simp: ffi_destroy_def split: prod.splits)
    moreover have "instances_inv n active created gone k \<Longrightarrow>
        instances_inv n (active - {i}) created (if i \<noteq> 0 \<and> i \<in> active then insert i gone else gone) k" for n active created gone k
      using instances_inv_zero [of n active created gone k] by (auto simp: instances_inv_def)
    ultimately show ?thesis using inv by (simp add: instances_contains_def instances_remove_def)
  qed
qed simp_all


text \<open>A module of one counter, for the witnesses.\<close>

definition demo_code :: "(u32 + unit) option \<Rightarrow> nat module_code" where
  "demo_code init =
     \<lparr>mc_description = b_str ''demo'', mc_validate = (\<lambda>config base. Some (Inr ())),
      mc_initialize = (\<lambda>u i config base. (Suc u, init)), mc_poll = (\<lambda>u i. (Suc u, Some STATUS_PENDING)),
      mc_control = (\<lambda>u i request. (u, Some (Inr request))), mc_shutdown = (\<lambda>u i. (u, Some STATUS_OK)),
      mc_destroy = (\<lambda>u i. (u, Some ()))\<rparr>"

definition demo_created :: "nat module_state" where
  "demo_created = fst (ffi_create (demo_code (Some (Inr ()))) \<lparr>ms_instances = instances_new, ms_user = 0\<rparr> (Raw_Slice []) (Raw_Slice []) True)"

lemmas demo_code_simps = demo_created_def ffi_create_def demo_code_def sdk_input_def raw_bytes_def instances_create_def instances_new_def Let_def

lemma demo_created_run:
  "module_run (demo_code (Some (Inr ()))) 0 \<lparr>mh_state = demo_created, mh_created = [1], mh_destroyed = {}, mh_attempts = 1\<rparr>"
proof -
  have c: "ffi_create (demo_code (Some (Inr ()))) (mh_state (history_start 0)) (Raw_Slice []) (Raw_Slice []) True
      = (demo_created, Some 1, STATUS_OK)"
    by (simp add: demo_code_simps history_start_def)
  show ?thesis using module_run.create [OF module_run.start c] by (simp add: history_start_def)
qed


text \<open>
  An initializer that panics leaves its handle live although it was never given out: only the error branch
  of \<open>ffi_create\<close> removes it.
\<close>

lemma panicking_initializer_leaks:
  "ffi_create (demo_code None) \<lparr>ms_instances = instances_new, ms_user = 0\<rparr> (Raw_Slice []) (Raw_Slice []) True
     = (\<lparr>ms_instances = \<lparr>in_next = 2, in_active = {1}\<rparr>, ms_user = 1\<rparr>, None, STATUS_INTERNAL)"
  by (simp add: demo_code_simps catch_status_def)

end
