(* ===== verification/Resolved.thy ===== *)
theory Resolved
  imports Wire
begin

text \<open>
  The encoding of resolved addresses that an adapter module hands to the engine (\<open>resolved.rs\<close>): a
  two-byte count and tagged addresses. The encoder writes into a slice of the caller; the codec
  laws are those of the frame it leaves at the front of a large enough slice.
\<close>

section \<open>Model\<close>

definition MAX_RESOLVED_ADDRESSES :: nat where "MAX_RESOLVED_ADDRESSES = 64"
definition MAX_RESOLVED_ADDRESS_BYTES :: nat where
  "MAX_RESOLVED_ADDRESS_BYTES = 2 + MAX_RESOLVED_ADDRESSES * 17"

datatype resolved_error = Resolved_Count | Resolved_Buffer | Resolved_Encoding

definition address_width :: "ip_address \<Rightarrow> nat" where
  "address_width a = (case a of IpV4 _ \<Rightarrow> 5 | IpV6 _ \<Rightarrow> 17)"

fun sum_widths :: "nat \<Rightarrow> ip_address list \<Rightarrow> resolved_error + nat" where
  "sum_widths n [] = Inr n"
| "sum_widths n (a # as) = rbind (ok_or Resolved_Encoding (checked_add n (address_width a))) (\<lambda>m. sum_widths m as)"

definition resolved_addresses_size :: "ip_address list \<Rightarrow> resolved_error + nat" where
  "resolved_addresses_size addresses =
     (if addresses = [] \<or> length addresses > MAX_RESOLVED_ADDRESSES then Inl Resolved_Count
      else sum_widths 2 addresses)"

text \<open>The loop of the encoder: \<open>None\<close> is a write outside the slice, which panics.\<close>

fun put_addresses :: "ip_address list \<Rightarrow> nat \<Rightarrow> bytes \<Rightarrow> bytes option" where
  "put_addresses [] offset output = Some output"
| "put_addresses (a # as) offset output =
     (if length output < offset + address_width a then None
      else case a of
        IpV4 w \<Rightarrow> put_addresses as (offset + 5) (splice (splice output offset [1]) (offset + 1) (to_be 4 (unat w)))
      | IpV6 w \<Rightarrow> put_addresses as (offset + 17) (splice (splice output offset [2]) (offset + 1) (to_be 16 (unat w))))"

definition encode_resolved_addresses :: "ip_address list \<Rightarrow> bytes \<Rightarrow> (bytes \<times> (resolved_error + nat)) option" where
  "encode_resolved_addresses addresses output =
     (case resolved_addresses_size addresses of
        Inl e \<Rightarrow> Some (output, Inl e)
      | Inr required \<Rightarrow>
          if length output < required then Some (output, Inl Resolved_Buffer)
          else map_option (\<lambda>out. (out, Inr required))
                 (put_addresses addresses 2 (splice output 0 (to_be 2 (length addresses)))))"

definition get_address :: "bytes \<Rightarrow> nat \<Rightarrow> resolved_error + (ip_address \<times> nat)" where
  "get_address input offset =
     (if length input \<le> offset then Inl Resolved_Encoding
      else if input ! offset = 1 then
        rbind (ok_or Resolved_Encoding (slice_get input (offset + 1) (offset + 5))) (\<lambda>bs.
          Inr (IpV4 (of_nat (from_be bs)), offset + 5))
      else if input ! offset = 2 then
        rbind (ok_or Resolved_Encoding (slice_get input (offset + 1) (offset + 17))) (\<lambda>bs.
          Inr (IpV6 (of_nat (from_be bs)), offset + 17))
      else Inl Resolved_Encoding)"

fun get_addresses :: "nat \<Rightarrow> bytes \<Rightarrow> nat \<Rightarrow> resolved_error + (ip_address list \<times> nat)" where
  "get_addresses 0 input offset = Inr ([], offset)"
| "get_addresses (Suc n) input offset =
     rbind (get_address input offset) (\<lambda>(a, offset').
     rbind (get_addresses n input offset') (\<lambda>(as, stop). Inr (a # as, stop)))"

definition decode_resolved_addresses :: "bytes \<Rightarrow> resolved_error + ip_address list" where
  "decode_resolved_addresses input =
     rbind (ok_or Resolved_Encoding (slice_get input 0 2)) (\<lambda>bs.
     let count = unat (u16_from_be bs) in
     if count = 0 \<or> count > MAX_RESOLVED_ADDRESSES then Inl Resolved_Count
     else rbind (get_addresses count input 2) (\<lambda>(addresses, offset).
       if offset \<noteq> length input then Inl Resolved_Encoding else Inr addresses))"

section \<open>Round trip\<close>

fun address_frame :: "ip_address \<Rightarrow> bytes" where
  "address_frame (IpV4 w) = 1 # to_be 4 (unat w)"
| "address_frame (IpV6 w) = 2 # to_be 16 (unat w)"

definition addresses_frame :: "ip_address list \<Rightarrow> bytes" where
  "addresses_frame as = to_be 2 (length as) @ concat (map address_frame as)"

definition addresses_valid :: "ip_address list \<Rightarrow> bool" where
  "addresses_valid as \<longleftrightarrow> as \<noteq> [] \<and> length as \<le> MAX_RESOLVED_ADDRESSES"

lemma address_frame_length [simp]: "length (address_frame a) = address_width a"
  by (cases a) (simp_all add: address_width_def)

lemma frames_length: "length (concat (map address_frame as)) \<le> 17 * length as"
  by (induction as) (auto simp: address_width_def split: ip_address.split)

lemma sum_widths_exact:
  "n + length (concat (map address_frame as)) \<le> usize_max \<Longrightarrow> sum_widths n as = Inr (n + length (concat (map address_frame as)))"
  by (induction as arbitrary: n) auto

lemma resolved_size_exact:
  assumes "addresses_valid as"
  shows "resolved_addresses_size as = Inr (length (addresses_frame as))" and "length (addresses_frame as) \<le> MAX_RESOLVED_ADDRESS_BYTES"
proof -
  have "length (concat (map address_frame as)) \<le> 17 * 64"
    using frames_length [of as] assms by (simp add: addresses_valid_def MAX_RESOLVED_ADDRESSES_def)
  then show "resolved_addresses_size as = Inr (length (addresses_frame as))" and "length (addresses_frame as) \<le> MAX_RESOLVED_ADDRESS_BYTES"
    using assms sum_widths_exact [of 2 as]
    by (simp_all add: resolved_addresses_size_def addresses_valid_def addresses_frame_def usize_max_def MAX_RESOLVED_ADDRESS_BYTES_def MAX_RESOLVED_ADDRESSES_def)
qed

lemma splice_append: "length pre = n \<Longrightarrow> length ys = length mid \<Longrightarrow> splice (pre @ mid @ rest) n ys = pre @ ys @ rest"
  by (simp add: splice_def)

lemma put_addresses_exact:
  assumes "length pre = offset" and "length mid = length (concat (map address_frame as))"
  shows "put_addresses as offset (pre @ mid @ rest) = Some (pre @ concat (map address_frame as) @ rest)"
  using assms
proof (induction as arbitrary: pre offset mid)
  case (Cons a as)
  define w where "w = address_width a"
  have len: "length mid = w + length (concat (map address_frame as))" using Cons.prems(2) by (simp add: w_def)
  define one where "one = take w mid"
  define more where "more = drop w mid"
  have mid: "mid = one @ more" "length one = w" "length more = length (concat (map address_frame as))"
    using len by (simp_all add: one_def more_def)
  have step: "put_addresses (a # as) offset (pre @ mid @ rest) = put_addresses as (offset + w) ((pre @ address_frame a) @ more @ rest)"
  proof (cases a)
    case (IpV4 v)
    then obtain t ts where one: "one = t # ts" "length ts = 4" using mid(2) by (cases one) (auto simp: w_def address_width_def)
    have "splice (splice (pre @ mid @ rest) offset [1]) (offset + 1) (to_be 4 (unat v)) = (pre @ address_frame a) @ more @ rest"
      using splice_append [of pre offset "[1]" "[t]" "ts @ more @ rest"] splice_append [of "pre @ [1]" "offset + 1" "to_be 4 (unat v)" ts "more @ rest"]
        Cons.prems(1) one IpV4 by (simp add: mid(1))
    then show ?thesis using IpV4 Cons.prems(1) mid by (simp add: address_width_def w_def)
  next
    case (IpV6 v)
    then obtain t ts where one: "one = t # ts" "length ts = 16" using mid(2) by (cases one) (auto simp: w_def address_width_def)
    have "splice (splice (pre @ mid @ rest) offset [2]) (offset + 1) (to_be 16 (unat v)) = (pre @ address_frame a) @ more @ rest"
      using splice_append [of pre offset "[2]" "[t]" "ts @ more @ rest"] splice_append [of "pre @ [2]" "offset + 1" "to_be 16 (unat v)" ts "more @ rest"]
        Cons.prems(1) one IpV6 by (simp add: mid(1))
    then show ?thesis using IpV6 Cons.prems(1) mid by (simp add: address_width_def w_def)
  qed
  show ?case unfolding step using Cons.IH [of "pre @ address_frame a" "offset + w" more] Cons.prems(1) mid(3) by (simp add: w_def)
qed simp

lemma encode_resolved_exact:
  assumes "addresses_valid as"
  shows "encode_resolved_addresses as output =
    Some (if length (addresses_frame as) \<le> length output
          then (addresses_frame as @ drop (length (addresses_frame as)) output, Inr (length (addresses_frame as)))
          else (output, Inl Resolved_Buffer))"
proof (cases "length (addresses_frame as) \<le> length output")
  case True
  let ?c = "concat (map address_frame as)"
  have l: "length (addresses_frame as) = 2 + length ?c" by (simp add: addresses_frame_def)
  define mid where "mid = take (length ?c) (drop 2 output)"
  define rest where "rest = drop (length (addresses_frame as)) output"
  have "splice output 0 (to_be 2 (length as)) = to_be 2 (length as) @ mid @ rest"
    using append_take_drop_id [of "length ?c" "drop 2 output"] by (simp add: splice_def mid_def rest_def l add.commute numeral_2_eq_2)
  moreover have "length mid = length ?c" using True l by (simp add: mid_def)
  ultimately have "put_addresses as 2 (splice output 0 (to_be 2 (length as))) = Some (to_be 2 (length as) @ ?c @ rest)"
    by (simp add: put_addresses_exact)
  then show ?thesis using True resolved_size_exact [OF assms] by (simp add: encode_resolved_addresses_def addresses_frame_def rest_def)
next
  case False
  then show ?thesis using resolved_size_exact [OF assms] by (simp add: encode_resolved_addresses_def)
qed

lemma slice_middle: "length pre = a \<Longrightarrow> b = a + length mid \<Longrightarrow> slice_get (pre @ mid @ rest) a b = Some mid"
  by (simp add: slice_get_def)

lemma get_address_exact:
  assumes "length pre = offset"
  shows "get_address (pre @ address_frame a @ rest) offset = Inr (a, offset + address_width a)"
proof (cases a)
  case (IpV4 w)
  have "slice_get ((pre @ [1]) @ to_be 4 (unat w) @ rest) (offset + 1) (offset + 5) = Some (to_be 4 (unat w))"
    using assms by (intro slice_middle) auto
  with IpV4 assms show ?thesis by (simp add: get_address_def address_width_def nth_append of_nat_from_be_32)
next
  case (IpV6 w)
  have "slice_get ((pre @ [2]) @ to_be 16 (unat w) @ rest) (offset + 1) (offset + 17) = Some (to_be 16 (unat w))"
    using assms by (intro slice_middle) auto
  with IpV6 assms show ?thesis by (simp add: get_address_def address_width_def nth_append of_nat_from_be_128)
qed

lemma get_addresses_exact:
  "length pre = offset \<Longrightarrow> get_addresses (length as) (pre @ concat (map address_frame as) @ rest) offset
     = Inr (as, offset + length (concat (map address_frame as)))"
proof (induction as arbitrary: pre offset)
  case (Cons a as)
  have "get_address (pre @ address_frame a @ (concat (map address_frame as) @ rest)) offset = Inr (a, offset + address_width a)"
    using Cons.prems by (rule get_address_exact)
  with Cons.IH [of "pre @ address_frame a" "offset + address_width a"] Cons.prems show ?case by simp
qed simp

lemma get_address_sound:
  assumes "get_address input offset = Inr (a, stop)"
  shows "stop = offset + address_width a \<and> stop \<le> length input \<and> slice input offset stop = address_frame a"
proof -
  have off: "offset < length input" using assms by (auto simp: get_address_def split: if_splits)
  consider (v4) bs where "input ! offset = 1" "slice_get input (offset + 1) (offset + 5) = Some bs" "a = IpV4 (of_nat (from_be bs))" "stop = offset + 5"
    | (v6) bs where "input ! offset = 2" "slice_get input (offset + 1) (offset + 17) = Some bs" "a = IpV6 (of_nat (from_be bs))" "stop = offset + 17"
    using assms by (auto simp: get_address_def result_simps split: if_splits)
  then show ?thesis
  proof cases
    case v4
    then have s: "offset + 5 \<le> length input" "bs = slice input (offset + 1) (offset + 5)" by (auto simp: slice_get_Some_iff)
    then have "length bs = 4" by simp
    moreover have "slice input offset stop = input ! offset # bs"
      using off v4(4) s(2) slice_split [of offset "offset + 1" "offset + 5" input] by (simp add: slice_def take_Suc_conv_app_nth Cons_nth_drop_Suc [symmetric])
    ultimately show ?thesis using v4 s(1) by (simp add: address_width_def to_be_of_nat_from_be_32)
  next
    case v6
    then have s: "offset + 17 \<le> length input" "bs = slice input (offset + 1) (offset + 17)" by (auto simp: slice_get_Some_iff)
    then have "length bs = 16" by simp
    moreover have "slice input offset stop = input ! offset # bs"
      using off v6(4) s(2) slice_split [of offset "offset + 1" "offset + 17" input] by (simp add: slice_def Cons_nth_drop_Suc [symmetric])
    ultimately show ?thesis using v6 s(1) by (simp add: address_width_def to_be_of_nat_from_be_128)
  qed
qed

lemma get_addresses_sound:
  "get_addresses n input offset = Inr (as, stop) \<Longrightarrow> offset \<le> length input \<Longrightarrow>
     length as = n \<and> offset \<le> stop \<and> stop \<le> length input \<and> slice input offset stop = concat (map address_frame as)"
proof (induction n arbitrary: offset as)
  case (Suc n)
  from Suc.prems(1) obtain a mid bs where a: "get_address input offset = Inr (a, mid)"
      "get_addresses n input mid = Inr (bs, stop)" "as = a # bs"
    by (auto simp: result_simps)
  note s = get_address_sound [OF a(1)]
  with Suc.IH [OF a(2)] have "length bs = n" "mid \<le> stop" "stop \<le> length input" "slice input mid stop = concat (map address_frame bs)" by auto
  moreover have "offset \<le> mid" "slice input offset mid = address_frame a" using s by auto
  ultimately show ?case using a(3) slice_split [of offset mid stop input] by simp
qed simp

definition resolved_frame :: "ip_address list \<Rightarrow> resolved_error + bytes" where
  "resolved_frame as =
     (case encode_resolved_addresses as (replicate MAX_RESOLVED_ADDRESS_BYTES 0) of
        None \<Rightarrow> Inl Resolved_Encoding
      | Some (out, r) \<Rightarrow> rbind r (\<lambda>n. Inr (take n out)))"

lemma resolved_frame_exact: "addresses_valid as \<Longrightarrow> resolved_frame as = Inr (addresses_frame as)"
  using resolved_size_exact [of as] by (simp add: resolved_frame_def encode_resolved_exact)

lemma count_exact: "addresses_valid as \<Longrightarrow> unat (u16_from_be (to_be 2 (length as))) = length as"
  by (simp add: addresses_valid_def MAX_RESOLVED_ADDRESSES_def u16_from_be_def from_be_to_be unat_of_nat)

lemma decode_frame:
  assumes "addresses_valid as"
  shows "decode_resolved_addresses (addresses_frame as) = Inr as"
proof -
  have "slice_get (addresses_frame as) 0 2 = Some (to_be 2 (length as))"
    by (simp add: slice_get_def addresses_frame_def)
  moreover have "get_addresses (length as) (addresses_frame as) 2 = Inr (as, length (addresses_frame as))"
    using get_addresses_exact [of "to_be 2 (length as)" 2 as "[]"] by (simp add: addresses_frame_def)
  ultimately show ?thesis using assms count_exact [OF assms]
    by (simp add: decode_resolved_addresses_def addresses_valid_def)
qed

lemma decode_sound:
  assumes "decode_resolved_addresses input = Inr as"
  shows "addresses_valid as \<and> input = addresses_frame as"
proof -
  from assms obtain bs where bs: "slice_get input 0 2 = Some bs" by (auto simp: decode_resolved_addresses_def result_simps)
  define count where "count = unat (u16_from_be bs)"
  have len: "2 \<le> length input" "bs = take 2 input" using bs by (auto simp: slice_get_def split: if_splits)
  have c: "count \<noteq> 0" "count \<le> MAX_RESOLVED_ADDRESSES" "get_addresses count input 2 = Inr (as, length input)"
    using assms by (auto simp: decode_resolved_addresses_def bs count_def Let_def result_simps split: if_splits)
  note s = get_addresses_sound [OF c(3) len(1)]
  have "to_be 2 (length as) = bs" using s len by (simp add: count_def to_be_u16_from_be)
  then have "input = addresses_frame as"
    using s len(2) append_take_drop_id [of 2 input] by (simp add: addresses_frame_def slice_def)
  moreover have "addresses_valid as" using s c by (auto simp: addresses_valid_def)
  ultimately show ?thesis by blast
qed

interpretation resolved_codec: codec resolved_frame decode_resolved_addresses addresses_valid
proof unfold_locales
  show "\<exists>bs. resolved_frame as = Inr bs \<and> decode_resolved_addresses bs = Inr as" if "addresses_valid as" for as
    using that by (simp add: resolved_frame_exact decode_frame)
  show "addresses_valid as \<and> resolved_frame as = Inr bs" if "decode_resolved_addresses bs = Inr as" for bs as
    using decode_sound [OF that] by (simp add: resolved_frame_exact)
qed

text \<open>
  Encoding between one and 64 resolved addresses never writes outside the slice: in a slice that is large
  enough it leaves exactly the announced number of bytes at the front and the rest as it was, and decoding
  those bytes gives the addresses back; a slice that is too small stays as it was and is refused. The decoder
  accepts nothing but such frames, whole.
\<close>

theorem resolved_addresses_round_trip:
  assumes "addresses_valid as"
  shows "\<exists>n. resolved_addresses_size as = Inr n \<and> n \<le> MAX_RESOLVED_ADDRESS_BYTES
    \<and> (n \<le> length output \<longrightarrow> (\<exists>out. encode_resolved_addresses as output = Some (out, Inr n)
         \<and> length out = length output \<and> drop n out = drop n output \<and> decode_resolved_addresses (take n out) = Inr as))
    \<and> (length output < n \<longrightarrow> encode_resolved_addresses as output = Some (output, Inl Resolved_Buffer))
    \<and> (decode_resolved_addresses input = Inr as \<longrightarrow> length input = n \<and> resolved_frame as = Inr input)"
proof -
  let ?n = "length (addresses_frame as)"
  have "decode_resolved_addresses input = Inr as \<Longrightarrow> length input = ?n \<and> resolved_frame as = Inr input"
    using resolved_codec.decode_sound [of input as] resolved_frame_exact [of as] by auto
  then show ?thesis
    using resolved_size_exact [OF assms] decode_frame [OF assms] by (auto simp: encode_resolved_exact [OF assms])
qed

theorem resolved_addresses_round_trip_witness:
  "decode_resolved_addresses (take 24 (fst (the (encode_resolved_addresses [IpV4 0xC0000201, IpV6 1] (replicate 30 7))))) = Inr [IpV4 0xC0000201, IpV6 1]"
proof -
  have v: "addresses_valid [IpV4 0xC0000201, IpV6 1]" by (simp add: addresses_valid_def MAX_RESOLVED_ADDRESSES_def)
  have n: "resolved_addresses_size [IpV4 0xC0000201, IpV6 1] = Inr 24" by code_simp
  from resolved_addresses_round_trip [OF v, of "replicate 30 7" "[]"] obtain out
    where "encode_resolved_addresses [IpV4 0xC0000201, IpV6 1] (replicate 30 7) = Some (out, Inr 24)"
      and "decode_resolved_addresses (take 24 out) = Inr [IpV4 0xC0000201, IpV6 1]"
    unfolding n by auto
  then show ?thesis by simp
qed

end
