(* ===== verification/Loader.thy ===== *)
theory Loader
  imports Module_Sdk Module_Transport Resolved
begin

text \<open>
  The loader of module libraries (\<open>loader.rs\<close>): validation of a module's descriptor and tables, the
  life of its instance, and the calls of the adapter, protection, carrier and policy tables with the
  checks of what they return. A table is a record of arbitrary functions over the state of the module;
  an out parameter starts at zero and comes back with the result, a pointer that is only passed on is
  its address. The dynamic loader is a parameter of \<open>load\<close>. A stream that a module returns carries the
  state of the module that serves it.
\<close>

section \<open>Tables\<close>

definition CLASS_ADAPTER :: u32 where "CLASS_ADAPTER = 1"
definition CLASS_PROTECTION :: u32 where "CLASS_PROTECTION = 2"
definition CLASS_CARRIER :: u32 where "CLASS_CARRIER = 4"
definition CLASS_POLICY :: u32 where "CLASS_POLICY = 8"
definition POLICY_PASSTHROUGH_TCP :: u32 where "POLICY_PASSTHROUGH_TCP = 1"
definition PROTECTION_PASSTHROUGH :: u32 where "PROTECTION_PASSTHROUGH = 1"

lemmas class_codes = CLASS_ADAPTER_def CLASS_PROTECTION_def CLASS_CARRIER_def CLASS_POLICY_def

type_synonym address = u64

record 'm adapter_api =
  aa_struct_size :: u32
  aa_reserved :: u32
  aa_open :: "('m \<Rightarrow> u64 \<Rightarrow> u64 \<Rightarrow> snol_flow_metadata \<Rightarrow> 'm \<times> u64 \<times> u32) option"
  aa_accept :: "('m \<Rightarrow> u64 \<Rightarrow> snol_flow_metadata \<Rightarrow> 'm \<times> snol_flow_metadata \<times> u64 \<times> u32) option"
  aa_attach :: "('m \<Rightarrow> u64 \<Rightarrow> u64 \<Rightarrow> u64 \<Rightarrow> address \<Rightarrow> 'm \<times> u32) option"
  aa_complete :: "('m \<Rightarrow> u64 \<Rightarrow> u64 \<Rightarrow> u32 \<Rightarrow> bytes \<Rightarrow> 'm \<times> u32) option"
  aa_close_flow :: "('m \<Rightarrow> u64 \<Rightarrow> u64 \<Rightarrow> 'm \<times> u32) option"
  aa_attach_datagram :: "('m \<Rightarrow> u64 \<Rightarrow> u64 \<Rightarrow> u64 \<Rightarrow> address \<Rightarrow> 'm \<times> u32) option"
  aa_attach_packet_port :: "('m \<Rightarrow> u64 \<Rightarrow> u64 \<Rightarrow> address \<Rightarrow> 'm \<times> u32) option"
  aa_resolve :: "('m \<Rightarrow> u64 \<Rightarrow> u64 \<Rightarrow> snol_flow_metadata \<Rightarrow> bytes \<Rightarrow> 'm \<times> bytes \<times> nat \<times> u32) option"

record 'm protection_api =
  pa_struct_size :: u32
  pa_flags :: u32
  pa_wrap :: "('m \<Rightarrow> u64 \<Rightarrow> u64 \<Rightarrow> 'm byte_table \<Rightarrow> bytes \<Rightarrow> 'm \<times> u64 \<times> u32) option"

record 'm carrier_api =
  ca_struct_size :: u32
  ca_reserved :: u32
  ca_connect :: "('m \<Rightarrow> u64 \<Rightarrow> bytes \<Rightarrow> 'm \<times> u64 \<times> u32) option"
  ca_accept :: "('m \<Rightarrow> u64 \<Rightarrow> 'm \<times> u64 \<times> u32) option"

record 'm policy_api =
  po_struct_size :: u32
  po_flags :: u32
  po_attach_session :: "('m \<Rightarrow> u64 \<Rightarrow> u64 \<Rightarrow> address \<Rightarrow> bytes \<Rightarrow> 'm \<times> u64 \<times> u32) option"
  po_admit_flow :: "('m \<Rightarrow> u64 \<Rightarrow> u64 \<Rightarrow> snol_flow_metadata \<Rightarrow> 'm \<times> u32) option"
  po_attach_flow :: "('m \<Rightarrow> u64 \<Rightarrow> u64 \<Rightarrow> u64 \<Rightarrow> address \<Rightarrow> u64 \<Rightarrow> address \<Rightarrow> 'm \<times> u32) option"
  po_attach_datagram_flow :: "('m \<Rightarrow> u64 \<Rightarrow> u64 \<Rightarrow> u64 \<Rightarrow> address \<Rightarrow> u64 \<Rightarrow> address \<Rightarrow> 'm \<times> u32) option"
  po_admit_resolved :: "('m \<Rightarrow> u64 \<Rightarrow> u64 \<Rightarrow> snol_flow_metadata \<Rightarrow> 'm \<times> u32) option"

text \<open>\<open>size_of\<close> of the tables with 8-byte pointers.\<close>

definition ADAPTER_API_SIZE :: u32 where "ADAPTER_API_SIZE = 72"
definition PROTECTION_API_SIZE :: u32 where "PROTECTION_API_SIZE = 16"
definition CARRIER_API_SIZE :: u32 where "CARRIER_API_SIZE = 24"
definition POLICY_API_SIZE :: u32 where "POLICY_API_SIZE = 48"
definition DESCRIPTOR_SIZE :: u32 where "DESCRIPTOR_SIZE = 128"

text \<open>\<open>md_name\<close> is the string up to its terminating zero, \<open>None\<close> for a null pointer.\<close>

record 'm module_descriptor =
  de_struct_size :: u32
  de_wire_version :: u32
  de_class_mask :: u32
  de_reserved :: u32
  de_name :: "bytes option"
  de_describe :: "('m \<Rightarrow> bytes \<Rightarrow> 'm \<times> bytes \<times> nat \<times> u32) option"
  de_validate_config :: "('m \<Rightarrow> bytes \<Rightarrow> bytes \<Rightarrow> bytes \<Rightarrow> 'm \<times> bytes \<times> nat \<times> u32) option"
  de_create :: "('m \<Rightarrow> bytes \<Rightarrow> bytes \<Rightarrow> 'm \<times> u64 \<times> u32) option"
  de_poll :: "('m \<Rightarrow> u64 \<Rightarrow> 'm \<times> u32) option"
  de_control :: "('m \<Rightarrow> u64 \<Rightarrow> bytes \<Rightarrow> bytes \<Rightarrow> 'm \<times> bytes \<times> nat \<times> u32) option"
  de_shutdown :: "('m \<Rightarrow> u64 \<Rightarrow> 'm \<times> u32) option"
  de_destroy :: "('m \<Rightarrow> u64 \<Rightarrow> 'm) option"
  de_byte_io :: "'m byte_table option"
  de_datagram_io :: "'m datagram_table option"
  de_adapter :: "'m adapter_api option"
  de_protection :: "'m protection_api option"
  de_carrier :: "'m carrier_api option"
  de_policy :: "'m policy_api option"

datatype load_error =
  Load_Open string | Load_Entry string | NullDescriptor | DescriptorSize u32 | WireVersion u32 | Load_Reserved
| ClassMask u32 | ClassTable u32 | Load_ByteIo | Load_Name | MissingFunction | Load_Config u32 bytes
| ModuleStatus u32 | OutputLength | FlowMetadata | AlreadyCreated | NotCreated | InvalidHandle | Load_Unsupported

section \<open>Validation\<close>

definition KNOWN_CLASSES :: u32 where
  "KNOWN_CLASSES = or (or (or CLASS_ADAPTER CLASS_PROTECTION) CLASS_CARRIER) CLASS_POLICY"

definition MAX_DESCRIPTION :: nat where "MAX_DESCRIPTION = 65536"
definition MAX_CONFIG_ERROR :: nat where "MAX_CONFIG_ERROR = 4096"

definition has_class :: "u32 \<Rightarrow> u32 \<Rightarrow> bool" where
  "has_class classes class \<longleftrightarrow> and classes class \<noteq> 0"

definition fail_if :: "bool \<Rightarrow> 'e \<Rightarrow> 'e + unit" where
  "fail_if b e = (if b then Inl e else Inr ())"

definition validate_byte_io :: "'m byte_table option \<Rightarrow> load_error + unit" where
  "validate_byte_io p =
     rbind (ok_or Load_ByteIo p) (\<lambda>io.
     fail_if (bt_struct_size io < BYTE_TABLE_SIZE \<or> bt_reserved io \<noteq> 0 \<or> bt_read io = None \<or> bt_write io = None
              \<or> bt_flush io = None \<or> bt_shutdown_write io = None \<or> bt_close io = None) Load_ByteIo)"

definition adapter_bad :: "'m adapter_api \<Rightarrow> bool" where
  "adapter_bad a \<longleftrightarrow> aa_struct_size a < ADAPTER_API_SIZE \<or> aa_reserved a \<noteq> 0 \<or> aa_open a = None \<or> aa_accept a = None
     \<or> aa_attach a = None \<or> aa_complete a = None \<or> aa_close_flow a = None"

definition protection_bad :: "'m protection_api \<Rightarrow> bool" where
  "protection_bad p \<longleftrightarrow> pa_struct_size p < PROTECTION_API_SIZE \<or> and (pa_flags p) (not PROTECTION_PASSTHROUGH) \<noteq> 0 \<or> pa_wrap p = None"

definition carrier_bad :: "'m carrier_api \<Rightarrow> bool" where
  "carrier_bad c \<longleftrightarrow> ca_struct_size c < CARRIER_API_SIZE \<or> ca_reserved c \<noteq> 0 \<or> ca_connect c = None \<or> ca_accept c = None"

definition policy_bad :: "'m policy_api \<Rightarrow> bool" where
  "policy_bad p \<longleftrightarrow> po_struct_size p < POLICY_API_SIZE \<or> and (po_flags p) (not POLICY_PASSTHROUGH_TCP) \<noteq> 0
     \<or> po_attach_session p = None \<or> po_admit_flow p = None \<or> po_admit_resolved p = None \<or> po_attach_flow p = None"

definition check_table :: "u32 \<Rightarrow> u32 \<Rightarrow> 't option \<Rightarrow> ('t \<Rightarrow> bool) \<Rightarrow> load_error + unit" where
  "check_table classes class table bad =
     (if has_class classes class
      then rbind (ok_or (ClassTable class) table) (\<lambda>t. fail_if (bad t) (ClassTable class))
      else Inr ())"

definition validate_class_tables :: "'m module_descriptor \<Rightarrow> load_error + unit" where
  "validate_class_tables d =
     (let classes = de_class_mask d in
      rbind (fail_if (has_class classes CLASS_ADAPTER \<and> de_adapter d = None) (ClassTable CLASS_ADAPTER)) (\<lambda>_.
      rbind (fail_if (has_class classes CLASS_PROTECTION \<and> de_protection d = None) (ClassTable CLASS_PROTECTION)) (\<lambda>_.
      rbind (fail_if (has_class classes CLASS_CARRIER \<and> de_carrier d = None) (ClassTable CLASS_CARRIER)) (\<lambda>_.
      rbind (fail_if (has_class classes CLASS_POLICY \<and> de_policy d = None) (ClassTable CLASS_POLICY)) (\<lambda>_.
      rbind (if has_class classes (or CLASS_PROTECTION CLASS_CARRIER) then validate_byte_io (de_byte_io d) else Inr ()) (\<lambda>_.
      rbind (check_table classes CLASS_ADAPTER (de_adapter d) adapter_bad) (\<lambda>_.
      rbind (check_table classes CLASS_PROTECTION (de_protection d) protection_bad) (\<lambda>_.
      rbind (check_table classes CLASS_CARRIER (de_carrier d) carrier_bad) (\<lambda>_.
      check_table classes CLASS_POLICY (de_policy d) policy_bad)))))))))"

definition validate_descriptor :: "'m module_descriptor \<Rightarrow> load_error + (bytes \<times> u32)" where
  "validate_descriptor d =
     (if de_struct_size d < DESCRIPTOR_SIZE then Inl (DescriptorSize (de_struct_size d))
      else if de_wire_version d \<noteq> WIRE_VERSION then Inl (WireVersion (de_wire_version d))
      else if de_reserved d \<noteq> 0 then Inl Load_Reserved
      else if de_class_mask d = 0 \<or> and (de_class_mask d) (not KNOWN_CLASSES) \<noteq> 0 then Inl (ClassMask (de_class_mask d))
      else
        rbind (ok_or Load_Name (de_name d)) (\<lambda>name.
        if \<not> utf8_valid name then Inl Load_Name
        else if name = [] \<or> length name > 128 then Inl Load_Name
        else if de_describe d = None \<or> de_validate_config d = None \<or> de_create d = None \<or> de_poll d = None
                \<or> de_control d = None \<or> de_shutdown d = None \<or> de_destroy d = None then Inl MissingFunction
        else rbind (validate_class_tables d) (\<lambda>_. Inr (name, de_class_mask d))))"

section \<open>A loaded module\<close>

record 'm loaded_module =
  lm_descriptor :: "'m module_descriptor"
  lm_source_config :: bytes
  lm_path :: bytes
  lm_instance_name :: bytes
  lm_name :: bytes
  lm_class_mask :: u32
  lm_config :: bytes
  lm_base_directory :: bytes
  lm_instance :: "u64 option"
  lm_state :: 'm

definition check_output :: "u32 \<Rightarrow> bytes \<Rightarrow> nat \<Rightarrow> nat \<Rightarrow> load_error + bytes" where
  "check_output status output written limit =
     (if status \<noteq> STATUS_OK then Inl (ModuleStatus status)
      else if written > length output \<or> written > limit then Inl OutputLength
      else Inr (take written output))"

text \<open>\<open>String::from_utf8_lossy\<close> only formats the message: the bytes are kept.\<close>

definition lm_validate_config :: "'m loaded_module \<Rightarrow> 'm loaded_module \<times> (load_error + unit)" where
  "lm_validate_config l =
     (case de_validate_config (lm_descriptor l) of
        None \<Rightarrow> (l, Inl MissingFunction)
      | Some function \<Rightarrow>
          (case function (lm_state l) (lm_config l) (lm_base_directory l) (replicate MAX_CONFIG_ERROR 0) of
             (m, error, written, status) \<Rightarrow>
               (l\<lparr>lm_state := m\<rparr>,
                if status = STATUS_OK then Inr ()
                else if written > length error then Inl OutputLength
                else Inl (Load_Config status (take written error)))))"

text \<open>
  \<open>open_library\<close> and \<open>entry\<close> stand for the dynamic loader, whose errors are their messages; \<open>entry\<close> gives
  the descriptor or a null pointer.
\<close>

definition load ::
    "(bytes \<Rightarrow> string + 'l) \<Rightarrow> ('l \<Rightarrow> string + 'm module_descriptor option) \<Rightarrow> 'm
       \<Rightarrow> bytes \<Rightarrow> bytes \<Rightarrow> bytes \<Rightarrow> bytes \<Rightarrow> bytes \<Rightarrow> load_error + 'm loaded_module" where
  "load open_library entry m instance_name path config base_directory source_config =
     rbind (map_err Load_Open (open_library path)) (\<lambda>library.
     rbind (map_err Load_Entry (entry library)) (\<lambda>pointer.
     rbind (ok_or NullDescriptor pointer) (\<lambda>descriptor.
     rbind (validate_descriptor descriptor) (\<lambda>(name, class_mask).
     case lm_validate_config
       \<lparr>lm_descriptor = descriptor, lm_source_config = source_config, lm_path = path, lm_instance_name = instance_name,
        lm_name = name, lm_class_mask = class_mask, lm_config = config, lm_base_directory = base_directory,
        lm_instance = None, lm_state = m\<rparr> of
       (l, r) \<Rightarrow> rbind r (\<lambda>_. Inr l)))))"

definition lm_describe :: "'m loaded_module \<Rightarrow> 'm loaded_module \<times> (load_error + bytes)" where
  "lm_describe l =
     (case de_describe (lm_descriptor l) of
        None \<Rightarrow> (l, Inl MissingFunction)
      | Some function \<Rightarrow>
          (case function (lm_state l) (replicate MAX_DESCRIPTION 0) of (m, output, written, status) \<Rightarrow>
             (l\<lparr>lm_state := m\<rparr>, check_output status output written MAX_DESCRIPTION)))"

definition lm_create :: "'m loaded_module \<Rightarrow> 'm loaded_module \<times> (load_error + unit)" where
  "lm_create l =
     (if lm_instance l \<noteq> None then (l, Inl AlreadyCreated)
      else case de_create (lm_descriptor l) of
        None \<Rightarrow> (l, Inl MissingFunction)
      | Some function \<Rightarrow>
          (case function (lm_state l) (lm_config l) (lm_base_directory l) of (m, handle, status) \<Rightarrow>
             (let l = l\<lparr>lm_state := m\<rparr> in
              if status \<noteq> STATUS_OK then (l, Inl (ModuleStatus status))
              else if handle = 0 then (l, Inl InvalidHandle)
              else (l\<lparr>lm_instance := Some handle\<rparr>, Inr ()))))"

text \<open>
  The calls on an instance share their beginning: the instance exists, the table exists, the function
  exists. \<open>with_call\<close> runs the call and stores the state of the module.
\<close>

definition with_call ::
    "'m loaded_module \<Rightarrow> (load_error + 'f) \<Rightarrow> ('f \<Rightarrow> 'm \<Rightarrow> u64 \<Rightarrow> 'm \<times> (load_error + 'a) poll)
       \<Rightarrow> 'm loaded_module \<times> (load_error + 'a) poll" where
  "with_call l lookup call =
     (case lm_instance l of
        None \<Rightarrow> (l, Ready (Inl NotCreated))
      | Some handle \<Rightarrow>
        (case lookup of
           Inl e \<Rightarrow> (l, Ready (Inl e))
         | Inr f \<Rightarrow> (case call f (lm_state l) handle of (m, r) \<Rightarrow> (l\<lparr>lm_state := m\<rparr>, r))))"

definition function_of :: "u32 \<Rightarrow> 't option \<Rightarrow> ('t \<Rightarrow> 'f option) \<Rightarrow> load_error + 'f" where
  "function_of class table field = rbind (ok_or (ClassTable class) table) (\<lambda>t. ok_or MissingFunction (field t))"

definition status_result :: "u32 \<Rightarrow> (load_error + unit) poll" where
  "status_result status = Ready (if status = STATUS_OK then Inr () else Inl (ModuleStatus status))"

definition status_poll :: "u32 \<Rightarrow> (load_error + unit) poll" where
  "status_poll status =
     (if status = STATUS_PENDING then Pending
      else if status = STATUS_OK then Ready (Inr ()) else Ready (Inl (ModuleStatus status)))"

definition handle_poll :: "u64 \<Rightarrow> u32 \<Rightarrow> (load_error + u64) poll" where
  "handle_poll handle status =
     (if status = STATUS_PENDING then Pending
      else if status = STATUS_OK then Ready (if handle = 0 then Inl InvalidHandle else Inr handle)
      else Ready (Inl (ModuleStatus status)))"

subsection \<open>Life of the instance\<close>

definition lm_poll :: "'m loaded_module \<Rightarrow> 'm loaded_module \<times> (load_error + unit) poll" where
  "lm_poll l =
     with_call l (ok_or MissingFunction (de_poll (lm_descriptor l))) (\<lambda>f m h.
       case f m h of (m', status) \<Rightarrow>
         (m', Ready (if status = STATUS_OK \<or> status = STATUS_PENDING then Inr () else Inl (ModuleStatus status))))"

definition lm_poll_control :: "'m loaded_module \<Rightarrow> bytes \<Rightarrow> nat \<Rightarrow> 'm loaded_module \<times> (load_error + bytes) poll" where
  "lm_poll_control l request max_response =
     with_call l (ok_or MissingFunction (de_control (lm_descriptor l))) (\<lambda>f m h.
       case f m h request (replicate max_response 0) of (m', output, written, status) \<Rightarrow>
         (m', if status = STATUS_UNSUPPORTED then Ready (Inl Load_Unsupported)
              else if status = STATUS_PENDING then Pending
              else Ready (check_output status output written max_response)))"

definition lm_poll_shutdown :: "'m loaded_module \<Rightarrow> 'm loaded_module \<times> (load_error + unit) poll" where
  "lm_poll_shutdown l =
     (if lm_instance l = None then (l, Ready (Inr ()))
      else with_call l (ok_or MissingFunction (de_shutdown (lm_descriptor l))) (\<lambda>f m h.
        case f m h of (m', status) \<Rightarrow> (m', status_poll status)))"

definition lm_drop :: "'m loaded_module \<Rightarrow> 'm loaded_module" where
  "lm_drop l =
     (case lm_instance l of
        None \<Rightarrow> l
      | Some handle \<Rightarrow>
          (case de_destroy (lm_descriptor l) of
             None \<Rightarrow> l\<lparr>lm_instance := None\<rparr>
           | Some destroy \<Rightarrow> l\<lparr>lm_instance := None, lm_state := destroy (lm_state l) handle\<rparr>))"

subsection \<open>Streams of a module\<close>

definition finish_byte_io :: "'m module_descriptor \<Rightarrow> 'm \<Rightarrow> u32 \<Rightarrow> u64 \<Rightarrow> (load_error + 'm module_byte_io) poll" where
  "finish_byte_io d m status handle =
     (if status = STATUS_PENDING then Pending
      else if status = STATUS_OK then
        if handle = 0 then Ready (Inl InvalidHandle)
        else (case de_byte_io d of
                None \<Rightarrow> Ready (Inl Load_ByteIo)
              | Some io \<Rightarrow> Ready (Inr (module_io_new handle io m)))
      else Ready (Inl (ModuleStatus status)))"

definition carrier_connect :: "'m loaded_module \<Rightarrow> bytes \<Rightarrow> 'm loaded_module \<times> (load_error + 'm module_byte_io) poll" where
  "carrier_connect l endpoint =
     with_call l (function_of CLASS_CARRIER (de_carrier (lm_descriptor l)) ca_connect) (\<lambda>connect m h.
       case connect m h endpoint of (m', stream, status) \<Rightarrow> (m', finish_byte_io (lm_descriptor l) m' status stream))"

definition carrier_accept :: "'m loaded_module \<Rightarrow> 'm loaded_module \<times> (load_error + 'm module_byte_io) poll" where
  "carrier_accept l =
     with_call l (function_of CLASS_CARRIER (de_carrier (lm_descriptor l)) ca_accept) (\<lambda>accept m h.
       case accept m h of (m', stream, status) \<Rightarrow> (m', finish_byte_io (lm_descriptor l) m' status stream))"

text \<open>
  The lower stream is taken only when the wrap succeeds; then the module owns it, and the core's object is
  consumed without closing the handle. The third component is what becomes of the consumed object.
\<close>

definition protection_wrap ::
    "'m loaded_module \<Rightarrow> 'm module_byte_io option \<Rightarrow> bytes
       \<Rightarrow> 'm loaded_module \<times> 'm module_byte_io option \<times> 'm module_byte_io option \<times> (load_error + 'm module_byte_io) poll" where
  "protection_wrap l lower context_bytes =
     (case with_call l
        (rbind (function_of CLASS_PROTECTION (de_protection (lm_descriptor l)) pa_wrap) (\<lambda>wrap.
         rbind (ok_or InvalidHandle lower) (\<lambda>low. Inr (wrap, low)))) (\<lambda>(wrap, low) m h.
           case wrap m h (mb_handle low) (mb_table low) context_bytes of (m', wrapped, status) \<Rightarrow>
             (m', finish_byte_io (lm_descriptor l) m' status wrapped)) of
        (l', r) \<Rightarrow>
          (case r of
             Ready (Inr out) \<Rightarrow> (l', None, map_option (\<lambda>low. mb_drop (module_io_transfer low)) lower, r)
           | _ \<Rightarrow> (l', lower, None, r)))"

definition protection_passthrough :: "'m loaded_module \<Rightarrow> bool" where
  "protection_passthrough l =
     (case de_protection (lm_descriptor l) of None \<Rightarrow> False | Some p \<Rightarrow> and (pa_flags p) PROTECTION_PASSTHROUGH \<noteq> 0)"

subsection \<open>Adapter\<close>

abbreviation adapter_fn :: "'m loaded_module \<Rightarrow> ('m adapter_api \<Rightarrow> 'f option) \<Rightarrow> load_error + 'f" where
  "adapter_fn l field \<equiv> function_of CLASS_ADAPTER (de_adapter (lm_descriptor l)) field"

definition supports_packet_port :: "'m loaded_module \<Rightarrow> bool" where
  "supports_packet_port l =
     (case de_adapter (lm_descriptor l) of None \<Rightarrow> False | Some a \<Rightarrow> aa_attach_packet_port a \<noteq> None)"

definition adapter_open :: "'m loaded_module \<Rightarrow> u64 \<Rightarrow> snol_flow_metadata \<Rightarrow> 'm loaded_module \<times> (load_error + u64) poll" where
  "adapter_open l operation metadata =
     with_call l (adapter_fn l aa_open) (\<lambda>f m h.
       case f m h operation metadata of (m', flow, status) \<Rightarrow> (m', handle_poll flow status))"

definition resolve_poll :: "bytes \<Rightarrow> nat \<Rightarrow> u32 \<Rightarrow> (load_error + ip_address list option) poll" where
  "resolve_poll output written status =
     (if status = STATUS_PENDING then Pending
      else if status = STATUS_UNSUPPORTED then Ready (Inr None)
      else if status = STATUS_OK then
        if written \<le> length output then
          (case decode_resolved_addresses (take written output) of
             Inr addresses \<Rightarrow> Ready (Inr (Some addresses))
           | Inl _ \<Rightarrow> Ready (Inl FlowMetadata))
        else Ready (Inl FlowMetadata)
      else Ready (Inl (ModuleStatus status)))"

definition adapter_resolve ::
    "'m loaded_module \<Rightarrow> u64 \<Rightarrow> snol_flow_metadata \<Rightarrow> 'm loaded_module \<times> (load_error + ip_address list option) poll" where
  "adapter_resolve l operation metadata =
     with_call l (ok_or (ClassTable CLASS_ADAPTER) (de_adapter (lm_descriptor l))) (\<lambda>a m h.
       case aa_resolve a of
         None \<Rightarrow> (m, Ready (Inr None))
       | Some f \<Rightarrow>
           (case f m h operation metadata (replicate MAX_RESOLVED_ADDRESS_BYTES 0) of (m', output, written, status) \<Rightarrow>
              (m', resolve_poll output written status)))"

definition blank_metadata :: snol_flow_metadata where
  "blank_metadata =
     \<lparr>fm_struct_size = FLOW_METADATA_SIZE, fm_kind = 0, fm_address_type = 0, fm_reserved = 0, fm_address = Null_Slice 0,
      fm_port = 0, fm_reserved2 = [0, 0, 0, 0, 0, 0], fm_metadata = Null_Slice 0\<rparr>"

definition metadata_destination :: "borrowed_flow_metadata \<Rightarrow> load_error + destination" where
  "metadata_destination b =
     (if bm_address_type b = ADDRESS_IPV4 then
        if length (bm_address b) = 4 then Inr (Ipv4 (of_nat (from_be (bm_address b)))) else Inl FlowMetadata
      else if bm_address_type b = ADDRESS_IPV6 then
        if length (bm_address b) = 16 then Inr (Ipv6 (of_nat (from_be (bm_address b)))) else Inl FlowMetadata
      else if bm_address_type b = ADDRESS_DOMAIN then
        if utf8_valid (bm_address b) then Inr (Domain (bm_address b)) else Inl FlowMetadata
      else Inl FlowMetadata)"

definition metadata_kind :: "borrowed_flow_metadata \<Rightarrow> load_error + stream_kind" where
  "metadata_kind b =
     (if bm_kind b = FLOW_TCP then Inr Tcp else if bm_kind b = FLOW_UDP then Inr Udp else Inl FlowMetadata)"

definition accepted_request :: "snol_flow_metadata \<Rightarrow> load_error + open_request" where
  "accepted_request metadata =
     rbind (map_err (\<lambda>_. FlowMetadata) (flow_metadata (Some metadata))) (\<lambda>b.
     rbind (metadata_destination b) (\<lambda>destination.
     rbind (metadata_kind b) (\<lambda>kind.
     Inr \<lparr>req_kind = kind, req_destination = destination, req_port = bm_port b, req_metadata = bm_metadata b\<rparr>)))"

definition adapter_accept :: "'m loaded_module \<Rightarrow> 'm loaded_module \<times> (load_error + (u64 \<times> open_request)) poll" where
  "adapter_accept l =
     with_call l (adapter_fn l aa_accept) (\<lambda>f m h.
       case f m h blank_metadata of (m', metadata, flow, status) \<Rightarrow>
         (m', if status = STATUS_PENDING then Pending
              else if status = STATUS_OK then
                if flow = 0 then Ready (Inl InvalidHandle)
                else Ready (rbind (accepted_request metadata) (\<lambda>request. Inr (flow, request)))
              else Ready (Inl (ModuleStatus status))))"

definition adapter_attach_flow :: "'m loaded_module \<Rightarrow> u64 \<Rightarrow> u64 \<Rightarrow> address \<Rightarrow> 'm loaded_module \<times> (load_error + unit) poll" where
  "adapter_attach_flow l flow stack_handle stack_io =
     with_call l (adapter_fn l aa_attach) (\<lambda>f m h.
       case f m h flow stack_handle stack_io of (m', status) \<Rightarrow> (m', status_result status))"

definition adapter_attach_datagram :: "'m loaded_module \<Rightarrow> u64 \<Rightarrow> u64 \<Rightarrow> address \<Rightarrow> 'm loaded_module \<times> (load_error + unit) poll" where
  "adapter_attach_datagram l flow stack_handle stack_io =
     with_call l (adapter_fn l aa_attach_datagram) (\<lambda>f m h.
       case f m h flow stack_handle stack_io of (m', status) \<Rightarrow> (m', status_result status))"

definition adapter_attach_packet_port :: "'m loaded_module \<Rightarrow> u64 \<Rightarrow> address \<Rightarrow> 'm loaded_module \<times> (load_error + unit) poll" where
  "adapter_attach_packet_port l port port_io =
     with_call l (rbind (ok_or (ClassTable CLASS_ADAPTER) (de_adapter (lm_descriptor l))) (\<lambda>a.
                  ok_or Load_Unsupported (aa_attach_packet_port a))) (\<lambda>f m h.
       case f m h port port_io of (m', status) \<Rightarrow> (m', status_result status))"

definition adapter_complete_flow :: "'m loaded_module \<Rightarrow> u64 \<Rightarrow> u32 \<Rightarrow> bytes \<Rightarrow> 'm loaded_module \<times> (load_error + unit) poll" where
  "adapter_complete_flow l flow status reason =
     with_call l (adapter_fn l aa_complete) (\<lambda>f m h.
       case f m h flow status reason of (m', answer) \<Rightarrow> (m', status_result answer))"

definition adapter_close_flow :: "'m loaded_module \<Rightarrow> u64 \<Rightarrow> 'm loaded_module \<times> (load_error + unit) poll" where
  "adapter_close_flow l flow =
     with_call l (adapter_fn l aa_close_flow) (\<lambda>f m h.
       case f m h flow of (m', status) \<Rightarrow> (m', status_result status))"

subsection \<open>Policy\<close>

abbreviation policy_fn :: "'m loaded_module \<Rightarrow> ('m policy_api \<Rightarrow> 'f option) \<Rightarrow> load_error + 'f" where
  "policy_fn l field \<equiv> function_of CLASS_POLICY (de_policy (lm_descriptor l)) field"

definition policy_attach_session :: "'m loaded_module \<Rightarrow> u64 \<Rightarrow> address \<Rightarrow> bytes \<Rightarrow> 'm loaded_module \<times> (load_error + u64) poll" where
  "policy_attach_session l stream stream_io context_bytes =
     with_call l (policy_fn l po_attach_session) (\<lambda>f m h.
       case f m h stream stream_io context_bytes of (m', session, status) \<Rightarrow> (m', handle_poll session status))"

definition policy_admit_flow :: "'m loaded_module \<Rightarrow> u64 \<Rightarrow> snol_flow_metadata \<Rightarrow> 'm loaded_module \<times> (load_error + unit) poll" where
  "policy_admit_flow l session metadata =
     with_call l (policy_fn l po_admit_flow) (\<lambda>f m h.
       case f m h session metadata of (m', status) \<Rightarrow> (m', status_poll status))"

definition policy_passthrough_tcp :: "'m loaded_module \<Rightarrow> bool" where
  "policy_passthrough_tcp l =
     (case de_policy (lm_descriptor l) of None \<Rightarrow> False | Some p \<Rightarrow> and (po_flags p) POLICY_PASSTHROUGH_TCP \<noteq> 0)"

definition policy_admit_resolved :: "'m loaded_module \<Rightarrow> u64 \<Rightarrow> snol_flow_metadata \<Rightarrow> 'm loaded_module \<times> (load_error + unit) poll" where
  "policy_admit_resolved l session metadata =
     with_call l (policy_fn l po_admit_resolved) (\<lambda>f m h.
       case f m h session metadata of (m', status) \<Rightarrow> (m', status_poll status))"

definition policy_attach_flow ::
    "'m loaded_module \<Rightarrow> u64 \<Rightarrow> u64 \<Rightarrow> address \<Rightarrow> u64 \<Rightarrow> address \<Rightarrow> 'm loaded_module \<times> (load_error + unit) poll" where
  "policy_attach_flow l session stack_handle stack_io mux_handle mux_io =
     with_call l (policy_fn l po_attach_flow) (\<lambda>f m h.
       case f m h session stack_handle stack_io mux_handle mux_io of (m', status) \<Rightarrow> (m', status_result status))"

definition policy_attach_datagram_flow ::
    "'m loaded_module \<Rightarrow> u64 \<Rightarrow> u64 \<Rightarrow> address \<Rightarrow> u64 \<Rightarrow> address \<Rightarrow> 'm loaded_module \<times> (load_error + unit) poll" where
  "policy_attach_datagram_flow l session stack_handle stack_io mux_handle mux_io =
     with_call l (policy_fn l po_attach_datagram_flow) (\<lambda>f m h.
       case f m h session stack_handle stack_io mux_handle mux_io of (m', status) \<Rightarrow> (m', status_result status))"

section \<open>The descriptor of a declared module\<close>

text \<open>
  \<open>DESCRIPTOR\<close> of \<open>declare_stateful_module\<close>: the entry points of \<open>Module_Sdk\<close> as the loader calls them, with
  slices of its own and non-null out pointers. The name ends at its first zero byte.
\<close>

definition own_slice :: "bytes \<Rightarrow> raw_slice \<Rightarrow> bytes" where
  "own_slice old p = (case p of Raw_Slice bs \<Rightarrow> bs | Null_Slice _ \<Rightarrow> old)"

definition sdk_descriptor ::
    "'u module_code \<Rightarrow> bytes \<Rightarrow> u32 \<Rightarrow> 'u module_state byte_table option \<Rightarrow> 'u module_state datagram_table option
      \<Rightarrow> 'u module_state adapter_api option \<Rightarrow> 'u module_state protection_api option \<Rightarrow> 'u module_state carrier_api option
      \<Rightarrow> 'u module_state policy_api option \<Rightarrow> 'u module_state module_descriptor" where
  "sdk_descriptor mc name classes byte_io datagram_io adapter protection carrier policy =
     \<lparr>de_struct_size = DESCRIPTOR_SIZE, de_wire_version = WIRE_VERSION, de_class_mask = classes, de_reserved = 0,
      de_name = Some (takeWhile (\<lambda>b. b \<noteq> 0) name),
      de_describe = Some (\<lambda>st output. case ffi_describe mc (Raw_Slice output) (Some 0) of (out, w, status) \<Rightarrow>
        (st, own_slice output out, the w, status)),
      de_validate_config = Some (\<lambda>st config base error.
        case ffi_validate_config mc (Raw_Slice config) (Raw_Slice base) (Raw_Slice error) (Some 0) of (out, w, status) \<Rightarrow>
          (st, own_slice error out, the w, status)),
      de_create = Some (\<lambda>st config base. case ffi_create mc st (Raw_Slice config) (Raw_Slice base) True of (st', handle, status) \<Rightarrow>
        (st', case handle of None \<Rightarrow> 0 | Some h \<Rightarrow> h, status)),
      de_poll = Some (ffi_poll mc),
      de_control = Some (\<lambda>st h request response. case ffi_control mc st h (Raw_Slice request) (Raw_Slice response) (Some 0) of
        (st', out, w, status) \<Rightarrow> (st', own_slice response out, the w, status)),
      de_shutdown = Some (ffi_shutdown mc), de_destroy = Some (ffi_destroy mc),
      de_byte_io = byte_io, de_datagram_io = datagram_io, de_adapter = adapter, de_protection = protection,
      de_carrier = carrier, de_policy = policy\<rparr>"

section \<open>What validation guarantees\<close>

text \<open>A call that reached the module's function.\<close>

definition reached :: "(load_error + 'a) poll \<Rightarrow> bool" where
  "reached r \<longleftrightarrow> r \<noteq> Ready (Inl MissingFunction) \<and> r \<noteq> Ready (Inl NotCreated) \<and> r \<noteq> Ready (Inl Load_ByteIo)
     \<and> (\<forall>c. r \<noteq> Ready (Inl (ClassTable c)))"

lemma reached_simps [simp]:
  "reached Pending" "reached (Ready (Inr a))" "reached (Ready (Inl (ModuleStatus s)))" "reached (Ready (Inl InvalidHandle))"
  "reached (status_result status)" "reached (status_poll status)" "reached (handle_poll handle status)"
  "reached (resolve_poll output written status)" "reached (Ready (check_output status output written limit))"
  by (auto simp: reached_def status_result_def status_poll_def handle_poll_def resolve_poll_def check_output_def split: sum.splits)

lemma with_call_reached:
  assumes "lm_instance l = Some h" and "lookup = Inr f" and "\<And>m r. call f (lm_state l) h = (m, r) \<Longrightarrow> reached r"
  shows "reached (snd (with_call l lookup call))"
  using assms by (auto simp: with_call_def split: prod.split)

lemma finish_reached: "de_byte_io d \<noteq> None \<Longrightarrow> reached (finish_byte_io d m status handle)"
  by (auto simp: finish_byte_io_def reached_def split: option.splits)

lemma fail_if_Inr [simp]: "fail_if b e = Inr u \<longleftrightarrow> \<not> b"
  by (simp add: fail_if_def)

lemma fail_if_unit: "fail_if b e = Inr () \<longleftrightarrow> \<not> b"
  by simp

definition tables_ok :: "'m module_descriptor \<Rightarrow> bool" where
  "tables_ok d \<longleftrightarrow>
     (has_class (de_class_mask d) CLASS_ADAPTER \<longrightarrow> (\<exists>a. de_adapter d = Some a \<and> \<not> adapter_bad a))
   \<and> (has_class (de_class_mask d) CLASS_PROTECTION \<longrightarrow> (\<exists>p. de_protection d = Some p \<and> \<not> protection_bad p) \<and> de_byte_io d \<noteq> None)
   \<and> (has_class (de_class_mask d) CLASS_CARRIER \<longrightarrow> (\<exists>c. de_carrier d = Some c \<and> \<not> carrier_bad c) \<and> de_byte_io d \<noteq> None)
   \<and> (has_class (de_class_mask d) CLASS_POLICY \<longrightarrow> (\<exists>p. de_policy d = Some p \<and> \<not> policy_bad p))"

lemma check_table_ok: "check_table classes c table bad = Inr u \<Longrightarrow> has_class classes c \<Longrightarrow> \<exists>t. table = Some t \<and> \<not> bad t"
  by (cases table) (auto simp: check_table_def)

lemma has_class_or: "has_class classes a \<or> has_class classes b \<Longrightarrow> has_class classes (or a b)"
  by (auto simp: has_class_def bit.conj_disj_distrib or_eq_0_iff)

lemma validate_class_tables_ok:
  assumes "validate_class_tables d = Inr u"
  shows "tables_ok d"
proof -
  let ?c = "de_class_mask d"
  have io: "has_class ?c CLASS_PROTECTION \<or> has_class ?c CLASS_CARRIER \<Longrightarrow> de_byte_io d \<noteq> None"
    using assms has_class_or [of ?c CLASS_PROTECTION CLASS_CARRIER]
    by (cases "de_byte_io d") (auto simp: validate_class_tables_def Let_def result_simps validate_byte_io_def)
  have "check_table ?c CLASS_ADAPTER (de_adapter d) adapter_bad = Inr ()"
       "check_table ?c CLASS_PROTECTION (de_protection d) protection_bad = Inr ()"
       "check_table ?c CLASS_CARRIER (de_carrier d) carrier_bad = Inr ()"
       "check_table ?c CLASS_POLICY (de_policy d) policy_bad = Inr ()"
    using assms by (auto simp: validate_class_tables_def Let_def result_simps)
  then show ?thesis using io by (auto simp: tables_ok_def dest: check_table_ok)
qed

lemma validate_descriptor_ok:
  assumes "validate_descriptor d = Inr (name, classes)"
  shows "tables_ok d \<and> classes = de_class_mask d \<and> name \<noteq> [] \<and> length name \<le> 128 \<and> utf8_valid name
    \<and> de_describe d \<noteq> None \<and> de_validate_config d \<noteq> None \<and> de_create d \<noteq> None \<and> de_poll d \<noteq> None
    \<and> de_control d \<noteq> None \<and> de_shutdown d \<noteq> None \<and> de_destroy d \<noteq> None"
  using assms by (fastforce simp: validate_descriptor_def result_simps split: if_splits dest: validate_class_tables_ok)

lemma load_ok:
  assumes "load open_library entry m instance_name path config base source = Inr l"
  shows "validate_descriptor (lm_descriptor l) = Inr (lm_name l, lm_class_mask l) \<and> lm_instance l = None"
  using assms
  by (auto simp: load_def lm_validate_config_def result_simps validate_descriptor_def split: option.splits prod.splits if_splits)

lemma function_of_reached:
  assumes "lm_instance l = Some h" and "table = Some t" and "field t = Some f" and "\<And>m r. call f (lm_state l) h = (m, r) \<Longrightarrow> reached r"
  shows "reached (snd (with_call l (function_of class table field) call))"
  using assms by (intro with_call_reached [of l h _ f]) (simp_all add: function_of_def)

lemma lifecycle_reached:
  assumes "validate_descriptor (lm_descriptor l) = Inr (name, classes)" and i: "lm_instance l = Some h"
  shows "reached (snd (lm_poll l))" and "reached (snd (lm_poll_shutdown l))" and "reached (snd (lm_poll_control l request limit))"
proof -
  note d = validate_descriptor_ok [OF assms(1)]
  obtain p where "de_poll (lm_descriptor l) = Some p" using d by blast
  then show "reached (snd (lm_poll l))"
    unfolding lm_poll_def by (intro with_call_reached [OF i]) (auto simp: reached_def split: prod.splits if_splits)
  obtain s where "de_shutdown (lm_descriptor l) = Some s" using d by blast
  then show "reached (snd (lm_poll_shutdown l))"
    unfolding lm_poll_shutdown_def using i by (auto intro!: with_call_reached [OF i] split: prod.splits)
  obtain c where c: "de_control (lm_descriptor l) = Some c" using d by blast
  then show "reached (snd (lm_poll_control l request limit))"
    unfolding lm_poll_control_def by (intro with_call_reached [OF i]) (auto simp: reached_def check_output_def split: prod.splits if_splits)
qed

lemma accept_reached: "reached (Ready (rbind (accepted_request metadata) (\<lambda>request. Inr (flow, request))))"
  by (auto simp: reached_def accepted_request_def metadata_destination_def metadata_kind_def rbind_def map_err_def split: sum.splits if_splits)

lemma adapter_reached:
  assumes "\<exists>a. de_adapter (lm_descriptor l) = Some a \<and> \<not> adapter_bad a" and i: "lm_instance l = Some h"
  shows "reached (snd (adapter_open l operation metadata))" and "reached (snd (adapter_accept l))"
    and "reached (snd (adapter_resolve l operation metadata))" and "reached (snd (adapter_attach_flow l flow stack stack_io))"
    and "reached (snd (adapter_complete_flow l flow status reason))" and "reached (snd (adapter_close_flow l flow))"
proof -
  obtain a o' ac at co cl where a: "de_adapter (lm_descriptor l) = Some a" "aa_open a = Some o'" "aa_accept a = Some ac"
      "aa_attach a = Some at" "aa_complete a = Some co" "aa_close_flow a = Some cl"
    using assms(1) by (auto simp: adapter_bad_def)
  show "reached (snd (adapter_open l operation metadata))"
    unfolding adapter_open_def by (rule function_of_reached [OF i], rule a(1), rule a(2)) (auto split: prod.splits)
  show "reached (snd (adapter_accept l))"
    unfolding adapter_accept_def by (rule function_of_reached [OF i], rule a(1), rule a(3)) (auto simp: accept_reached split: prod.splits if_splits)
  show "reached (snd (adapter_resolve l operation metadata))"
    unfolding adapter_resolve_def a(1) by (rule with_call_reached [OF i ok_or_simps(2)]) (auto split: prod.splits option.splits)
  show "reached (snd (adapter_attach_flow l flow stack stack_io))"
    unfolding adapter_attach_flow_def by (rule function_of_reached [OF i], rule a(1), rule a(4)) (auto split: prod.splits)
  show "reached (snd (adapter_complete_flow l flow status reason))"
    unfolding adapter_complete_flow_def by (rule function_of_reached [OF i], rule a(1), rule a(5)) (auto split: prod.splits)
  show "reached (snd (adapter_close_flow l flow))"
    unfolding adapter_close_flow_def by (rule function_of_reached [OF i], rule a(1), rule a(6)) (auto split: prod.splits)
qed

lemma carrier_reached:
  assumes "\<exists>c. de_carrier (lm_descriptor l) = Some c \<and> \<not> carrier_bad c" and b: "de_byte_io (lm_descriptor l) \<noteq> None" and i: "lm_instance l = Some h"
  shows "reached (snd (carrier_connect l endpoint))" and "reached (snd (carrier_accept l))"
proof -
  obtain c co ac where c: "de_carrier (lm_descriptor l) = Some c" "ca_connect c = Some co" "ca_accept c = Some ac"
    using assms(1) by (auto simp: carrier_bad_def)
  show "reached (snd (carrier_connect l endpoint))"
    unfolding carrier_connect_def by (rule function_of_reached [OF i], rule c(1), rule c(2)) (auto simp: finish_reached [OF b] split: prod.splits)
  show "reached (snd (carrier_accept l))"
    unfolding carrier_accept_def by (rule function_of_reached [OF i], rule c(1), rule c(3)) (auto simp: finish_reached [OF b] split: prod.splits)
qed

lemma protection_reached:
  assumes "\<exists>p. de_protection (lm_descriptor l) = Some p \<and> \<not> protection_bad p" and b: "de_byte_io (lm_descriptor l) \<noteq> None" and i: "lm_instance l = Some h"
  shows "reached (snd (snd (snd (protection_wrap l (Some low) ctx))))"
proof -
  obtain p w where p: "de_protection (lm_descriptor l) = Some p" "pa_wrap p = Some w" using assms(1) by (auto simp: protection_bad_def)
  obtain m' s st where w: "w (lm_state l) h (mb_handle low) (mb_table low) ctx = (m', s, st)" by (metis prod_cases3)
  have "reached (finish_byte_io (lm_descriptor l) m' st s)" by (rule finish_reached [OF b])
  then show ?thesis using i p w
    by (cases "finish_byte_io (lm_descriptor l) m' st s :: (load_error + 'a module_byte_io) poll")
      (auto simp: protection_wrap_def with_call_def function_of_def split: sum.split)
qed

lemma policy_reached:
  assumes "\<exists>p. de_policy (lm_descriptor l) = Some p \<and> \<not> policy_bad p" and i: "lm_instance l = Some h"
  shows "reached (snd (policy_attach_session l stream stream_io ctx))" and "reached (snd (policy_admit_flow l session metadata))"
    and "reached (snd (policy_admit_resolved l session metadata))" and "reached (snd (policy_attach_flow l session stack stack_io mux mux_io))"
proof -
  obtain p a b c d where p: "de_policy (lm_descriptor l) = Some p" "po_attach_session p = Some a" "po_admit_flow p = Some b"
      "po_admit_resolved p = Some c" "po_attach_flow p = Some d"
    using assms(1) by (auto simp: policy_bad_def)
  show "reached (snd (policy_attach_session l stream stream_io ctx))"
    unfolding policy_attach_session_def by (rule function_of_reached [OF i], rule p(1), rule p(2)) (auto split: prod.splits)
  show "reached (snd (policy_admit_flow l session metadata))"
    unfolding policy_admit_flow_def by (rule function_of_reached [OF i], rule p(1), rule p(3)) (auto split: prod.splits)
  show "reached (snd (policy_admit_resolved l session metadata))"
    unfolding policy_admit_resolved_def by (rule function_of_reached [OF i], rule p(1), rule p(4)) (auto split: prod.splits)
  show "reached (snd (policy_attach_flow l session stack stack_io mux mux_io))"
    unfolding policy_attach_flow_def by (rule function_of_reached [OF i], rule p(1), rule p(5)) (auto split: prod.splits)
qed


section \<open>Streams and flows a module hands over\<close>

text \<open>
  A protection module gets the lower stream exactly when it wraps it: on success the caller's slot is empty
  and the lower object is given up without its close function being called, the new stream has a nonzero handle
  and the module's own table; on any other answer the caller keeps the lower stream as it was.
\<close>

theorem wrap_transfers_ownership:
  assumes "protection_wrap l (Some low) ctx = (l', slot, consumed, r)"
  shows "(case r of
      Ready (Inr out) \<Rightarrow> slot = None \<and> consumed = Some (low\<lparr>mb_closed := True\<rparr>)
        \<and> mb_handle out \<noteq> 0 \<and> de_byte_io (lm_descriptor l) = Some (mb_table out) \<and> \<not> mb_closed out
    | _ \<Rightarrow> slot = Some low \<and> consumed = None)
    \<and> lm_descriptor l' = lm_descriptor l \<and> lm_instance l' = lm_instance l"
proof -
  obtain l1 q where w: "with_call l
        (rbind (function_of CLASS_PROTECTION (de_protection (lm_descriptor l)) pa_wrap) (\<lambda>wrap.
         rbind (ok_or InvalidHandle (Some low)) (\<lambda>low. Inr (wrap, low)))) (\<lambda>(wrap, low) m h.
           case wrap m h (mb_handle low) (mb_table low) ctx of (m', wrapped, status) \<Rightarrow>
             (m', finish_byte_io (lm_descriptor l) m' status wrapped)) = (l1, q)" by fastforce
  have l1: "lm_descriptor l1 = lm_descriptor l" "lm_instance l1 = lm_instance l"
    using w by (auto simp: with_call_def split: option.splits sum.splits prod.splits)
  have out: "mb_handle out \<noteq> 0 \<and> de_byte_io (lm_descriptor l) = Some (mb_table out) \<and> \<not> mb_closed out" if "q = Ready (Inr out)" for out
    using w that by (auto simp: with_call_def finish_byte_io_def module_io_new_def split: option.splits sum.splits prod.splits if_splits)
  have "mb_drop (module_io_transfer low) = low\<lparr>mb_closed := True\<rparr>"
    by (simp add: mb_drop_def mb_close_def module_io_transfer_def)
  then show ?thesis
    using assms l1 out unfolding protection_wrap_def w prod.case
    by (cases q) (auto split: sum.splits)
qed

lemma accepted_flow_is_request:
  assumes a: "snd (adapter_accept l) = Ready (Inr (flow, request))"
  shows "flow \<noteq> 0 \<and> req_kind request \<in> {Tcp, Udp} \<and> req_port request \<noteq> 0 \<and> length (req_metadata request) \<le> 1024
    \<and> ((\<exists>bs. encode_open request = Inr bs)
       \<or> (\<exists>d. req_destination request = Domain d \<and> validate_domain d \<noteq> Inr () \<and> is_ascii d \<and> d \<noteq> [] \<and> length d \<le> 253))"
proof -
  from a obtain m where flow: "flow \<noteq> 0" and req: "accepted_request m = Inr request"
    by (auto simp: adapter_accept_def with_call_def result_simps split: option.splits sum.splits prod.splits if_splits)
  then obtain b where b: "flow_metadata (Some m) = Inr b" "metadata_destination b = Inr (req_destination request)"
      "metadata_kind b = Inr (req_kind request)" "req_port request = bm_port b" "req_metadata request = bm_metadata b"
    by (auto simp: accepted_request_def result_simps)
  have f: "bm_port b \<noteq> 0" "length (bm_metadata b) \<le> 1024" "address_ok (bm_address_type b) (bm_address b)"
    using b(1) by (auto simp: flow_metadata_def result_simps sdk_input_def raw_bytes_def raw_length_def split: if_splits raw_slice.splits)
  have k: "req_kind request \<in> {Tcp, Udp}" using b(3) by (auto simp: metadata_kind_def split: if_splits)
  have d: "destination_valid (req_destination request)
      \<or> (\<exists>d. req_destination request = Domain d \<and> validate_domain d \<noteq> Inr () \<and> is_ascii d \<and> d \<noteq> [] \<and> length d \<le> 253)"
    using b(2) f(3) by (cases "req_destination request") (auto simp: metadata_destination_def destination_valid_def address_ok_def flow_codes split: if_splits)
  have "destination_valid (req_destination request) \<Longrightarrow> encode_open request = Inr (frame_bytes request)"
    using k f(1,2) b(4,5) by (auto simp: encode_open_Inr request_valid_def MAX_METADATA_def)
  then show ?thesis using flow k f(1,2) b(4,5) d by auto
qed

lemma resolved_flow_addresses:
  assumes "snd (adapter_resolve l operation metadata) = Ready (Inr (Some addresses))"
  shows "addresses_valid addresses"
proof -
  from assms obtain bs where "decode_resolved_addresses bs = Inr addresses"
    by (auto simp: adapter_resolve_def with_call_def resolve_poll_def split: option.splits sum.splits prod.splits if_splits)
  then show ?thesis by (simp add: resolved_codec.decode_sound)
qed

text \<open>
  Every flow an adapter module announces and the loader accepts has a nonzero handle and is a request for TCP
  or UDP with a nonzero port, at most 1024 bytes of metadata and an address of its type, whatever the module wrote
  into the structure; the request can be sent as an OPEN frame, unless it names a domain whose labels the wire
  format does not admit. Addresses that an adapter resolved are between one and 64.
\<close>

theorem accepted_flows_are_requests:
  "(snd (adapter_accept l) = Ready (Inr (flow, request)) \<longrightarrow>
      flow \<noteq> 0 \<and> req_kind request \<in> {Tcp, Udp} \<and> req_port request \<noteq> 0 \<and> length (req_metadata request) \<le> 1024
    \<and> ((\<exists>bs. encode_open request = Inr bs)
       \<or> (\<exists>d. req_destination request = Domain d \<and> validate_domain d \<noteq> Inr () \<and> is_ascii d \<and> d \<noteq> [] \<and> length d \<le> 253)))
   \<and> (snd (adapter_resolve l operation metadata) = Ready (Inr (Some addresses)) \<longrightarrow> addresses_valid addresses)"
  using accepted_flow_is_request resolved_flow_addresses by blast

section \<open>A declared module in the loader\<close>

lemma write_output_own:
  "length source \<le> length bs \<Longrightarrow> write_output source (Raw_Slice bs) (Some n) = (Raw_Slice (source @ drop (length source) bs), Some (length source), STATUS_OK)"
  "length bs < length source \<Longrightarrow> write_output source (Raw_Slice bs) (Some n) = (Raw_Slice bs, Some (length source), STATUS_RESOURCE)"
  by (auto simp: write_output_def raw_length_def splice_def)

lemma sdk_describe:
  assumes "lm_descriptor l = sdk_descriptor mc name classes bio dio adapter protection carrier policy"
  shows "snd (lm_describe l) =
    (if length (mc_description mc) \<le> MAX_DESCRIPTION then Inr (mc_description mc) else Inl (ModuleStatus STATUS_RESOURCE))"
  using assms
  by (auto simp: lm_describe_def sdk_descriptor_def ffi_describe_def own_slice_def check_output_def write_output_own catch_status_def
      MAX_DESCRIPTION_def status_codes not_le)

lemma sdk_control:
  assumes "lm_descriptor l = sdk_descriptor mc name classes bio dio adapter protection carrier policy"
    and "lm_instance l = Some h" and "instances_contains (ms_instances (lm_state l)) h"
    and "mc_control mc (ms_user (lm_state l)) h request = (u, Some (Inr answer))"
  shows "snd (lm_poll_control l request limit) =
    Ready (if length answer \<le> limit then Inr answer else Inl (ModuleStatus STATUS_RESOURCE))"
  using assms
  by (auto simp: lm_poll_control_def with_call_def sdk_descriptor_def ffi_control_def sdk_input_def raw_bytes_def own_slice_def
      check_output_def write_output_own status_codes not_le)

text \<open>
  C37: A module declared with the SDK works in the loader: with a proper name, classes and tables, and a configuration
  its validator accepts, loading succeeds; its description comes back unchanged (up to 65536 bytes), and creating
  it runs its initializer once and yields an instance that is live; control answers come back unchanged up to the
  limit of the caller, and dropping the module ends the instance. An initializer that fails leaves no live instance.
\<close>

theorem declared_modules_load:
  assumes d: "d = sdk_descriptor mc name classes bio dio adapter protection carrier policy"
    and name: "utf8_valid (takeWhile (\<lambda>b. b \<noteq> 0) name)" "takeWhile (\<lambda>b. b \<noteq> 0) name \<noteq> []" "length (takeWhile (\<lambda>b. b \<noteq> 0) name) \<le> 128"
    and classes: "classes \<noteq> 0" "and classes (not KNOWN_CLASSES) = 0" "validate_class_tables d = Inr ()"
    and config: "mc_validate mc config base = Some (Inr ())"
    and next_handle: "in_next (ms_instances st) = h" "h \<noteq> 0" "h \<notin> in_active (ms_instances st)"
    and init: "mc_initialize mc (ms_user st) h config base = (u, Some res)"
    and destroy: "\<And>v. snd (mc_destroy mc v h) \<noteq> None"
  shows "\<exists>l. load (\<lambda>path. Inr ()) (\<lambda>lib. Inr (Some d)) st instance_name path config base source = Inr l
    \<and> (length (mc_description mc) \<le> 65536 \<longrightarrow> snd (lm_describe l) = Inr (mc_description mc))
    \<and> (case res of
         Inr _ \<Rightarrow> snd (lm_create l) = Inr () \<and> lm_instance (fst (lm_create l)) = Some h
           \<and> instances_contains (ms_instances (lm_state (fst (lm_create l)))) h \<and> ms_user (lm_state (fst (lm_create l))) = u
           \<and> (\<forall>request limit v answer. mc_control mc u h request = (v, Some (Inr answer)) \<and> length answer \<le> limit
                \<longrightarrow> snd (lm_poll_control (fst (lm_create l)) request limit) = Ready (Inr answer))
           \<and> \<not> instances_contains (ms_instances (lm_state (lm_drop (fst (lm_create l))))) h
       | Inl status \<Rightarrow> lm_instance (fst (lm_create l)) = None \<and> \<not> instances_contains (ms_instances (lm_state (fst (lm_create l)))) h)"
proof -
  have v: "validate_descriptor d = Inr (takeWhile (\<lambda>b. b \<noteq> 0) name, classes)"
    using name classes by (simp add: validate_descriptor_def d sdk_descriptor_def)
  define l where "l = \<lparr>lm_descriptor = d, lm_source_config = source, lm_path = path, lm_instance_name = instance_name,
      lm_name = takeWhile (\<lambda>b. b \<noteq> 0) name, lm_class_mask = classes, lm_config = config, lm_base_directory = base,
      lm_instance = None, lm_state = st\<rparr>"
  have "lm_validate_config l = (l, Inr ())"
    using config by (simp add: l_def lm_validate_config_def d sdk_descriptor_def ffi_validate_config_def sdk_input_def raw_bytes_def own_slice_def write_output_own status_codes)
  then have load: "load (\<lambda>path. Inr ()) (\<lambda>lib. Inr (Some d)) st instance_name path config base source = Inr l"
    by (simp add: load_def v l_def)
  have de: "length (mc_description mc) \<le> 65536 \<longrightarrow> snd (lm_describe l) = Inr (mc_description mc)"
    using sdk_describe [of l mc] by (simp add: l_def d MAX_DESCRIPTION_def)
  let ?i = "\<lparr>in_next = h + 1, in_active = insert h (in_active (ms_instances st))\<rparr>"
  have c: "ffi_create mc st (Raw_Slice config) (Raw_Slice base) True =
      (case res of Inr _ \<Rightarrow> (st\<lparr>ms_instances := ?i, ms_user := u\<rparr>, Some h, STATUS_OK)
       | Inl status \<Rightarrow> (st\<lparr>ms_instances := instances_remove h ?i, ms_user := u\<rparr>, None, status))"
  proof -
    have "instances_create (ms_instances st) = (?i, Inr h)"
      using next_handle by (cases "ms_instances st") (simp add: instances_create_def Let_def)
    then show ?thesis using init by (simp add: ffi_create_def sdk_input_def raw_bytes_def split: sum.split)
  qed
  show ?thesis
  proof (cases res)
    case (Inl status)
    then have "lm_instance (fst (lm_create l)) = None \<and> lm_state (fst (lm_create l)) = st\<lparr>ms_instances := instances_remove h ?i, ms_user := u\<rparr>"
      using c by (simp add: lm_create_def l_def d sdk_descriptor_def Let_def)
    then show ?thesis using load de Inl by (auto simp: instances_contains_def instances_remove_def)
  next
    case (Inr a)
    then have cr: "lm_create l = (l\<lparr>lm_state := st\<lparr>ms_instances := ?i, ms_user := u\<rparr>, lm_instance := Some h\<rparr>, Inr ())"
      using c next_handle by (simp add: lm_create_def l_def d sdk_descriptor_def Let_def)
    obtain v x where x: "mc_destroy mc u h = (v, Some x)" using destroy [of u] by (cases "mc_destroy mc u h") auto
    then have "ms_instances (lm_state (lm_drop (fst (lm_create l)))) = instances_remove h ?i"
      unfolding cr by (simp add: lm_drop_def l_def d sdk_descriptor_def ffi_destroy_def)
    moreover have "instances_contains (ms_instances (lm_state (fst (lm_create l)))) h"
      using next_handle(2) by (simp add: cr instances_contains_def)
    moreover have "snd (lm_poll_control (fst (lm_create l)) request limit) = Ready (Inr answer)"
      if "mc_control mc u h request = (v, Some (Inr answer))" "length answer \<le> limit" for request limit v answer
      using sdk_control [of "fst (lm_create l)" mc name classes bio dio adapter protection carrier policy h request v answer limit] that next_handle(2)
      unfolding cr by (simp add: l_def d instances_contains_def)
    ultimately show ?thesis using load de Inr cr by (auto simp: instances_contains_def instances_remove_def)
  qed
qed

text \<open>A declared adapter module that announces one flow, for the witnesses.\<close>

definition demo_adapter :: "nat module_state adapter_api" where
  "demo_adapter =
     \<lparr>aa_struct_size = ADAPTER_API_SIZE, aa_reserved = 0, aa_open = Some (\<lambda>m h operation md. (m, 5, STATUS_OK)),
      aa_accept = Some (\<lambda>m h md. (m, md\<lparr>fm_kind := FLOW_TCP, fm_address_type := ADDRESS_IPV4,
        fm_address := Raw_Slice [127, 0, 0, 1], fm_port := 80\<rparr>, 9, STATUS_OK)),
      aa_attach = Some (\<lambda>m h flow stack io. (m, STATUS_OK)), aa_complete = Some (\<lambda>m h flow status reason. (m, STATUS_OK)),
      aa_close_flow = Some (\<lambda>m h flow. (m, STATUS_OK)), aa_attach_datagram = None, aa_attach_packet_port = None, aa_resolve = None\<rparr>"

definition demo_descriptor :: "nat module_state module_descriptor" where
  "demo_descriptor = sdk_descriptor (demo_code (Some (Inr ()))) (b_str ''demo'') CLASS_ADAPTER None None (Some demo_adapter) None None None"

definition demo_loaded :: "nat module_state loaded_module" where
  "demo_loaded =
     \<lparr>lm_descriptor = demo_descriptor, lm_source_config = [], lm_path = [], lm_instance_name = [], lm_name = b_str ''demo'',
      lm_class_mask = CLASS_ADAPTER, lm_config = [], lm_base_directory = [], lm_instance = Some 1, lm_state = demo_created\<rparr>"

lemma demo_validates: "validate_descriptor demo_descriptor = Inr (b_str ''demo'', CLASS_ADAPTER)"
  by code_simp


theorem accepted_flows_are_requests_witness:
  "\<exists>bs. encode_open \<lparr>req_kind = Tcp, req_destination = Ipv4 0x7f000001, req_port = 80, req_metadata = []\<rparr> = Inr bs"
proof -
  have "snd (adapter_accept demo_loaded) = Ready (Inr (9, \<lparr>req_kind = Tcp, req_destination = Ipv4 0x7f000001, req_port = 80, req_metadata = []\<rparr>))"
    by code_simp
  from conjunct1 [OF accepted_flows_are_requests, rule_format, OF this] show ?thesis by simp
qed

theorem declared_modules_load_witness:
  "\<exists>l. load (\<lambda>path. Inr ()) (\<lambda>lib. Inr (Some demo_descriptor)) \<lparr>ms_instances = instances_new, ms_user = 0\<rparr> [] [] [] [] [] = Inr l
     \<and> lm_instance (fst (lm_create l)) = Some 1"
proof -
  let ?st = "\<lparr>ms_instances = instances_new, ms_user = 0 :: nat\<rparr>"
  have n: "utf8_valid (takeWhile (\<lambda>b. b \<noteq> 0) (b_str ''demo''))" "takeWhile (\<lambda>b. b \<noteq> 0) (b_str ''demo'') \<noteq> []"
      "length (takeWhile (\<lambda>b. b \<noteq> 0) (b_str ''demo'')) \<le> 128" by code_simp+
  have c: "CLASS_ADAPTER \<noteq> 0" "and CLASS_ADAPTER (not KNOWN_CLASSES) = 0" "validate_class_tables demo_descriptor = Inr ()" by code_simp+
  have v: "mc_validate (demo_code (Some (Inr ()))) [] [] = Some (Inr ())" by (simp add: demo_code_def)
  have h: "in_next (ms_instances ?st) = 1" "(1 :: u64) \<noteq> 0" "1 \<notin> in_active (ms_instances ?st)" by (simp_all add: instances_new_def)
  have i: "mc_initialize (demo_code (Some (Inr ()))) (ms_user ?st) 1 [] [] = (1, Some (Inr ()))" by (simp add: demo_code_def)
  have x: "\<And>u. snd (mc_destroy (demo_code (Some (Inr ()))) u 1) \<noteq> None" by (simp add: demo_code_def)
  from declared_modules_load [OF demo_descriptor_def n c v h i x, where instance_name = "[]" and path = "[]" and source = "[]"]
  show ?thesis by auto
qed

definition demo_bytes :: "nat module_state byte_table" where
  "demo_bytes =
     \<lparr>bt_struct_size = BYTE_TABLE_SIZE, bt_reserved = 0, bt_read = Some (\<lambda>m h buf. (m, buf, snol_eof)),
      bt_write = Some (\<lambda>m h bs. (m, snol_progress (length bs))), bt_flush = Some (\<lambda>m h. (m, snol_progress 0)),
      bt_shutdown_write = Some (\<lambda>m h. (m, snol_progress 0)), bt_close = Some (\<lambda>m h. (m\<lparr>ms_user := 77\<rparr>, STATUS_OK))\<rparr>"

definition demo_protection :: "nat module_state loaded_module" where
  "demo_protection = demo_loaded\<lparr>lm_descriptor := sdk_descriptor (demo_code (Some (Inr ()))) (b_str ''demo'') CLASS_PROTECTION (Some demo_bytes) None None
     (Some \<lparr>pa_struct_size = PROTECTION_API_SIZE, pa_flags = 0, pa_wrap = Some (\<lambda>m h low table ctx. (m, 4, STATUS_OK))\<rparr>) None None\<rparr>"

theorem wrap_transfers_ownership_witness:
  "\<exists>l' out. protection_wrap demo_protection (Some (module_io_new 2 demo_bytes demo_created)) []
     = (l', None, Some ((module_io_new 2 demo_bytes demo_created)\<lparr>mb_closed := True\<rparr>), Ready (Inr out)) \<and> mb_handle out \<noteq> 0"
proof -
  let ?low = "module_io_new 2 demo_bytes demo_created"
  obtain l' slot consumed r where w: "protection_wrap demo_protection (Some ?low) [] = (l', slot, consumed, r)" by (metis prod_cases4)
  have "case snd (snd (snd (protection_wrap demo_protection (Some ?low) []))) of Ready (Inr out) \<Rightarrow> True | _ \<Rightarrow> False" by code_simp
  then obtain out where "r = Ready (Inr out)" using w by (auto split: poll.splits sum.splits)
  with wrap_transfers_ownership [OF w] w show ?thesis by auto
qed

end
