(* ===== verification/Host_Bridge.thy ===== *)
theory Host_Bridge
  imports Module_Sdk "HOL-Library.AList"
begin

text \<open>
  The functions of the host table that the engine gives every module (\<open>engine.rs\<close>: \<open>HostBridge\<close>,
  \<open>host_now\<close> ... \<open>host_protect_socket\<close>, \<open>read_bytes\<close>). The context pointer is the bridge or null, the
  clock and the socket protection of the host are parameters. Cells are borrowed for one call only.
\<close>

section \<open>State and functions\<close>

definition HOST_EVENT_LIMIT :: nat where "HOST_EVENT_LIMIT = 65536"

record host_bridge =
  hb_event_limit :: nat
  hb_events :: "bytes list"
  hb_timers :: "(u64 \<times> u64) list"
  hb_context :: "((u64 \<times> bytes) \<times> bytes) list"

definition host_bridge_new :: host_bridge where
  "host_bridge_new = \<lparr>hb_event_limit = HOST_EVENT_LIMIT, hb_events = [], hb_timers = [], hb_context = []\<rparr>"

text \<open>\<open>elapsed\<close> is the time since the start in nanoseconds.\<close>

definition host_now :: "nat \<Rightarrow> host_bridge option \<Rightarrow> u64" where
  "host_now elapsed context = (case context of None \<Rightarrow> 0 | Some _ \<Rightarrow> if elapsed \<le> u64_max then of_nat elapsed else of_nat u64_max)"

definition host_set_timer :: "u64 \<Rightarrow> u64 \<Rightarrow> host_bridge option \<Rightarrow> host_bridge option \<times> u32" where
  "host_set_timer handle deadline context =
     (case context of
        None \<Rightarrow> (context, STATUS_INVALID)
      | Some b \<Rightarrow> (Some (b\<lparr>hb_timers := AList.update handle deadline (hb_timers b)\<rparr>), STATUS_OK))"

definition host_emit_event :: "raw_slice \<Rightarrow> host_bridge option \<Rightarrow> host_bridge option \<times> u32" where
  "host_emit_event event context =
     (case context of
        None \<Rightarrow> (context, STATUS_INVALID)
      | Some b \<Rightarrow>
          if hb_event_limit b < raw_length event then (context, STATUS_RESOURCE)
          else case raw_bytes event of
            None \<Rightarrow> (context, STATUS_RESOURCE)
          | Some payload \<Rightarrow> (Some (b\<lparr>hb_events := hb_events b @ [payload]\<rparr>), STATUS_OK))"

text \<open>\<open>read_bytes\<close> is the check of a borrowed slice, \<^const>\<open>raw_bytes\<close>.\<close>

definition host_context_get ::
    "u64 \<Rightarrow> raw_slice \<Rightarrow> raw_slice \<Rightarrow> nat option \<Rightarrow> host_bridge option \<Rightarrow> raw_slice \<times> nat option \<times> u32" where
  "host_context_get session name output written context =
     (case context of
        None \<Rightarrow> (output, written, STATUS_INVALID)
      | Some b \<Rightarrow>
          (case (raw_bytes name, written) of
             (Some key, Some _) \<Rightarrow>
               (case map_of (hb_context b) (session, key) of
                  None \<Rightarrow> (output, written, STATUS_UNSUPPORTED)
                | Some value \<Rightarrow>
                    (let written = Some (length value) in
                     if raw_length output < length value then (output, written, STATUS_RESOURCE)
                     else case output of
                       Null_Slice _ \<Rightarrow> (output, written, if value \<noteq> [] then STATUS_INVALID else STATUS_OK)
                     | Raw_Slice bs \<Rightarrow> (Raw_Slice (splice bs 0 value), written, STATUS_OK)))
           | _ \<Rightarrow> (output, written, STATUS_INVALID)))"

definition host_context_set ::
    "u64 \<Rightarrow> raw_slice \<Rightarrow> raw_slice \<Rightarrow> host_bridge option \<Rightarrow> host_bridge option \<times> u32" where
  "host_context_set session name value context =
     (case context of
        None \<Rightarrow> (context, STATUS_INVALID)
      | Some b \<Rightarrow>
          (case (raw_bytes name, raw_bytes value) of
             (Some key, Some v) \<Rightarrow>
               if 128 < length key \<or> 4096 < length v then (context, STATUS_RESOURCE)
               else (Some (b\<lparr>hb_context := AList.update (session, key) v (hb_context b)\<rparr>), STATUS_OK)
           | _ \<Rightarrow> (context, STATUS_INVALID)))"

definition host_protect_socket :: "(int \<Rightarrow> bool) \<Rightarrow> int \<Rightarrow> host_bridge option \<Rightarrow> u32" where
  "host_protect_socket protect_socket socket context =
     (case context of
        None \<Rightarrow> STATUS_INVALID
      | Some _ \<Rightarrow>
          if socket < 0 then STATUS_INVALID else if protect_socket socket then STATUS_OK else STATUS_DENIED)"

text \<open>\<open>drain_module_events\<close>: the engine takes all events, in the order they were emitted.\<close>

definition drain_events :: "host_bridge \<Rightarrow> host_bridge \<times> bytes list" where
  "drain_events b = (b\<lparr>hb_events := []\<rparr>, hb_events b)"

section \<open>Calls of modules\<close>

datatype host_call =
  Set_Timer u64 u64
| Emit_Event raw_slice
| Context_Set u64 raw_slice raw_slice

fun host_step :: "host_call \<Rightarrow> host_bridge \<Rightarrow> host_bridge" where
  "host_step (Set_Timer handle deadline) b = the (fst (host_set_timer handle deadline (Some b)))"
| "host_step (Emit_Event event) b = the (fst (host_emit_event event (Some b)))"
| "host_step (Context_Set session name value) b = the (fst (host_context_set session name value (Some b)))"

text \<open>The value a sequence of calls gives a key, and the events it emits, by themselves.\<close>

fun last_value :: "u64 \<times> bytes \<Rightarrow> host_call list \<Rightarrow> bytes option" where
  "last_value k [] = None"
| "last_value k (c # cs) =
     (case last_value k cs of
        Some v \<Rightarrow> Some v
      | None \<Rightarrow>
          (case c of
             Context_Set session name value \<Rightarrow>
               (case (raw_bytes name, raw_bytes value) of
                  (Some key, Some v) \<Rightarrow>
                    if (session, key) = k \<and> length key \<le> 128 \<and> length v \<le> 4096 then Some v else None
                | _ \<Rightarrow> None)
           | _ \<Rightarrow> None))"

fun emitted :: "host_call list \<Rightarrow> bytes list" where
  "emitted [] = []"
| "emitted (Emit_Event event # cs) =
     (if HOST_EVENT_LIMIT < raw_length event then [] else case raw_bytes event of None \<Rightarrow> [] | Some p \<Rightarrow> [p]) @ emitted cs"
| "emitted (_ # cs) = emitted cs"

lemma host_step_context:
  "map_of (hb_context (host_step c b)) k = (case last_value k [c] of Some v \<Rightarrow> Some v | None \<Rightarrow> map_of (hb_context b) k)"
  by (cases c) (auto simp: host_set_timer_def host_emit_event_def host_context_set_def update_conv' fun_upd_def
      split: option.splits prod.splits)

lemma host_run_context:
  "map_of (hb_context (fold host_step cs b)) k = (case last_value k cs of Some v \<Rightarrow> Some v | None \<Rightarrow> map_of (hb_context b) k)"
proof (induction cs arbitrary: b)
  case (Cons c cs)
  show ?case
    using Cons.IH [of "host_step c b"] host_step_context [of c b k] by (auto split: option.splits)
qed simp

lemma host_step_limit [simp]: "hb_event_limit (host_step c b) = hb_event_limit b"
  by (cases c) (auto simp: host_set_timer_def host_emit_event_def host_context_set_def split: option.splits)

lemma host_run_events: "hb_event_limit b = HOST_EVENT_LIMIT \<Longrightarrow> hb_events (fold host_step cs b) = hb_events b @ emitted cs"
proof (induction cs arbitrary: b)
  case (Cons c cs)
  have "hb_events (host_step c b) = hb_events b @ emitted [c]"
    using Cons.prems by (cases c) (auto simp: host_set_timer_def host_emit_event_def host_context_set_def split: option.splits)
  moreover have "emitted (c # cs) = emitted [c] @ emitted cs" by (cases c) auto
  ultimately show ?case using Cons.IH [of "host_step c b"] Cons.prems by simp
qed simp

lemma context_get_value:
  assumes "map_of (hb_context b) (session, key) = Some v"
  shows "host_context_get session (Raw_Slice key) (Raw_Slice out) (Some n) (Some b) =
    (if length out < length v then (Raw_Slice out, Some (length v), STATUS_RESOURCE)
     else (Raw_Slice (v @ drop (length v) out), Some (length v), STATUS_OK))"
  using assms by (auto simp: host_context_get_def raw_bytes_def raw_length_def splice_def)

text \<open>
  The host services do what modules rely on. After any calls of any modules, looking up a name of
  a session gives the last value stored under it within the limits of 128 and 4096 bytes, whole and at
  the front of the caller's buffer, or the size that is needed when the buffer is too small, and
  "unsupported" when nothing was stored; and the engine drains exactly the events within the limit, in
  the order in which they were emitted.
\<close>

theorem host_services_exact:
  "host_context_get session (Raw_Slice key) (Raw_Slice out) (Some n) (Some (fold host_step cs host_bridge_new)) =
     (case last_value (session, key) cs of
        None \<Rightarrow> (Raw_Slice out, Some n, STATUS_UNSUPPORTED)
      | Some v \<Rightarrow> if length out < length v then (Raw_Slice out, Some (length v), STATUS_RESOURCE)
                  else (Raw_Slice (v @ drop (length v) out), Some (length v), STATUS_OK))
   \<and> snd (drain_events (fold host_step cs host_bridge_new)) = emitted cs"
proof
  have c: "map_of (hb_context (fold host_step cs host_bridge_new)) (session, key) = last_value (session, key) cs"
    by (simp add: host_run_context host_bridge_new_def split: option.split)
  show "host_context_get session (Raw_Slice key) (Raw_Slice out) (Some n) (Some (fold host_step cs host_bridge_new)) =
     (case last_value (session, key) cs of
        None \<Rightarrow> (Raw_Slice out, Some n, STATUS_UNSUPPORTED)
      | Some v \<Rightarrow> if length out < length v then (Raw_Slice out, Some (length v), STATUS_RESOURCE)
                  else (Raw_Slice (v @ drop (length v) out), Some (length v), STATUS_OK))"
  proof (cases "last_value (session, key) cs")
    case None
    then show ?thesis using c by (simp add: host_context_get_def raw_bytes_def)
  next
    case (Some v)
    then show ?thesis using c context_get_value by simp
  qed
  show "snd (drain_events (fold host_step cs host_bridge_new)) = emitted cs"
    by (simp add: drain_events_def host_run_events host_bridge_new_def)
qed

section \<open>The table of the engine\<close>

definition engine_host_api :: "nat \<Rightarrow> (int \<Rightarrow> bool) \<Rightarrow> host_bridge \<Rightarrow> host_bridge option host_api" where
  "engine_host_api elapsed protect_socket b =
     \<lparr>ha_struct_size = HOST_API_SIZE, ha_reserved = 0, ha_context = Some b, ha_now_monotonic_nanos = Some (host_now elapsed),
      ha_set_timer = Some (\<lambda>context handle deadline. host_set_timer handle deadline context),
      ha_emit_event = Some (\<lambda>context event. host_emit_event event context),
      ha_context_get = Some (\<lambda>context session name output.
        (case host_context_get session name output (Some 0) context of (output, written, status) \<Rightarrow> (context, output, the written, status))),
      ha_context_set = Some (\<lambda>context session name value. host_context_set session name value context),
      ha_protect_socket = Some (\<lambda>context socket. (context, Host_Bridge.host_protect_socket protect_socket socket context))\<rparr>"

text \<open>The SDK of a module accepts the table, and a socket is protected exactly when the host does it.\<close>

theorem module_reaches_host:
  "rbind (host_from_raw (Some (engine_host_api elapsed protect b))) (\<lambda>api. snd (Module_Sdk.host_protect_socket api socket)) =
     (if socket < 0 then Inl STATUS_INVALID else if protect socket then Inr () else Inl STATUS_DENIED)"
  by (simp add: host_from_raw_def engine_host_api_def Module_Sdk.host_protect_socket_def Host_Bridge.host_protect_socket_def status_codes)

end
