(* ===== verification/Flow_Support.thy ===== *)
theory Flow_Support
  imports Loader
begin

text \<open>
  What the engine hands to modules about a flow (\<open>engine.rs\<close>: \<open>OwnedFlowMetadata\<close>, \<open>open_error\<close>,
  \<open>abi_status\<close>, \<open>next_operation\<close>). The process-wide counter of operations is passed on; with one
  worker its compare-and-exchange loop succeeds at once.
\<close>

section \<open>Metadata\<close>

record owned_flow_metadata =
  om_kind :: u32
  om_address_type :: u32
  om_address :: bytes
  om_port :: u16
  om_opaque :: bytes

fun destination_abi :: "destination \<Rightarrow> u32 \<times> bytes" where
  "destination_abi (Ipv4 a) = (ADDRESS_IPV4, to_be 4 (unat a))"
| "destination_abi (Ipv6 a) = (ADDRESS_IPV6, to_be 16 (unat a))"
| "destination_abi (Domain d) = (ADDRESS_DOMAIN, d)"

fun kind_abi :: "stream_kind \<Rightarrow> u32" where
  "kind_abi Tcp = FLOW_TCP" | "kind_abi Udp = FLOW_UDP" | "kind_abi Policy = 0"

definition from_request :: "open_request \<Rightarrow> owned_flow_metadata" where
  "from_request request =
     (case destination_abi (req_destination request) of (address_type, address) \<Rightarrow>
        \<lparr>om_kind = kind_abi (req_kind request), om_address_type = address_type, om_address = address,
         om_port = req_port request, om_opaque = req_metadata request\<rparr>)"

text \<open>A vector has a pointer that is not null, empty or not.\<close>

definition om_abi :: "owned_flow_metadata \<Rightarrow> snol_flow_metadata" where
  "om_abi m =
     \<lparr>fm_struct_size = FLOW_METADATA_SIZE, fm_kind = om_kind m, fm_address_type = om_address_type m, fm_reserved = 0,
      fm_address = Raw_Slice (om_address m), fm_port = om_port m, fm_reserved2 = [0, 0, 0, 0, 0, 0],
      fm_metadata = Raw_Slice (om_opaque m)\<rparr>"

definition om_resolved :: "ip_address \<Rightarrow> owned_flow_metadata \<Rightarrow> owned_flow_metadata" where
  "om_resolved address m =
     (case (case address of IpV4 a \<Rightarrow> (ADDRESS_IPV4, to_be 4 (unat a)) | IpV6 a \<Rightarrow> (ADDRESS_IPV6, to_be 16 (unat a))) of
        (address_type, bytes) \<Rightarrow> m\<lparr>om_address_type := address_type, om_address := bytes\<rparr>)"

definition address_destination :: "ip_address \<Rightarrow> destination" where
  "address_destination a = (case a of IpV4 x \<Rightarrow> Ipv4 x | IpV6 x \<Rightarrow> Ipv6 x)"

section \<open>Statuses\<close>

definition open_error :: "load_error \<Rightarrow> open_status \<times> string" where
  "open_error error =
     (if error = ModuleStatus STATUS_DENIED then (Denied, ''flow denied'')
      else if error = ModuleStatus STATUS_UNSUPPORTED then (Unsupported, ''flow unsupported'')
      else if error = ModuleStatus STATUS_RESOURCE then (ResourceLimit, ''flow resource limit'')
      else if error = ModuleStatus STATUS_IO then (ConnectFailed, ''endpoint connect failed'')
      else if error = ModuleStatus STATUS_INVALID then (ProtocolError, ''invalid flow metadata'')
      else (InternalError, ''flow setup failed''))"

fun abi_status :: "open_status \<Rightarrow> u32" where
  "abi_status StatusOk = STATUS_OK"
| "abi_status Denied = STATUS_DENIED"
| "abi_status Unsupported = STATUS_UNSUPPORTED"
| "abi_status ResourceLimit = STATUS_RESOURCE"
| "abi_status ConnectFailed = STATUS_IO"
| "abi_status ProtocolError = STATUS_INVALID"
| "abi_status InternalError = STATUS_INTERNAL"

section \<open>Operation handles\<close>

definition next_operation :: "u64 \<Rightarrow> u64 \<times> u64 option" where
  "next_operation current = (if unat current = u64_max then (current, None) else (current + 1, Some current))"

fun operations :: "nat \<Rightarrow> u64 \<Rightarrow> u64 list" where
  "operations 0 c = []"
| "operations (Suc n) c = (case next_operation c of (c', r) \<Rightarrow> (case r of None \<Rightarrow> [] | Some h \<Rightarrow> h # operations n c'))"

section \<open>Properties\<close>

text \<open>Domains that the SDK of a module accepts: the wire format admits capital letters, the SDK does not.\<close>

definition lower_case :: "destination \<Rightarrow> bool" where
  "lower_case d = (case d of Domain s \<Rightarrow> list_all (\<lambda>b. \<not> is_ascii_uppercase b) s | _ \<Rightarrow> True)"

lemma ipv4_bytes: "of_nat (from_be (to_be 4 (unat (a :: 32 word)))) = a"
  using unsigned_less [of a, where 'a = nat] by (simp add: from_be_to_be)

lemma ipv6_bytes: "of_nat (from_be (to_be 16 (unat (a :: 128 word)))) = a"
  using unsigned_less [of a, where 'a = nat] by (simp add: from_be_to_be)

lemma domain_utf8: "validate_domain d = Inr () \<Longrightarrow> d \<noteq> [] \<and> length d \<le> 253 \<and> is_ascii d \<and> utf8_valid d"
  by (auto simp: validate_domain_def is_ascii_def list_all_iff intro!: ascii_utf8_valid split: if_splits)

lemma from_request_accepted:
  assumes "request_valid r"
  shows "accepted_request (om_abi (from_request r)) = (if lower_case (req_destination r) then Inr r else Inl FlowMetadata)"
proof -
  have k: "kind_abi (req_kind r) = FLOW_TCP \<or> kind_abi (req_kind r) = FLOW_UDP"
    using assms by (cases "req_kind r") (auto simp: request_valid_def)
  have m: "length (req_metadata r) \<le> 1024" "req_port r \<noteq> 0"
    using assms by (auto simp: request_valid_def MAX_METADATA_def)
  have d: "\<And>s. req_destination r = Domain s \<Longrightarrow> s \<noteq> [] \<and> length s \<le> 253 \<and> is_ascii s \<and> utf8_valid s"
    using assms domain_utf8 by (auto simp: request_valid_def destination_valid_def)
  show ?thesis
    using k m d assms
    by (cases "req_destination r"; cases "req_kind r"; cases r)
      (auto simp: accepted_request_def flow_metadata_def om_abi_def from_request_def FLOW_METADATA_SIZE_def raw_length_def
        sdk_input_def raw_bytes_def ok_or_def address_ok_def flow_codes metadata_destination_def metadata_kind_def
        result_simps map_err_def ipv4_bytes ipv6_bytes lower_case_def request_valid_def)
qed

lemma resolved_from_request:
  "om_resolved a (from_request r) = from_request (r\<lparr>req_destination := address_destination a\<rparr>)"
  by (cases a) (auto simp: om_resolved_def from_request_def address_destination_def split: prod.split)

text \<open>
  C39: The metadata a module sees of a flow is the request. What the SDK of a module reads from the
  structure the engine passes is the OPEN request itself, for every request the wire format can
  carry, except that a domain with capital letters is refused; and the structure for an address a
  name was resolved to is the same request with that address.
\<close>

theorem flow_metadata_round_trip:
  assumes "request_valid r"
  shows "accepted_request (om_abi (from_request r)) = (if lower_case (req_destination r) then Inr r else Inl FlowMetadata)
    \<and> accepted_request (om_abi (om_resolved a (from_request r))) = Inr (r\<lparr>req_destination := address_destination a\<rparr>)"
proof -
  have v: "request_valid (r\<lparr>req_destination := address_destination a\<rparr>)"
      "lower_case (req_destination (r\<lparr>req_destination := address_destination a\<rparr>))"
    using assms by (auto simp: request_valid_def destination_valid_def address_destination_def lower_case_def split: ip_address.split)
  show ?thesis
    using from_request_accepted [OF assms] from_request_accepted [OF v(1)] v(2) by (simp add: resolved_from_request)
qed

theorem flow_metadata_round_trip_witness:
  "accepted_request (om_abi (from_request sample_request)) = Inr sample_request
   \<and> accepted_request (om_abi (om_resolved (IpV4 7) (from_request sample_request))) = Inr (sample_request\<lparr>req_destination := Ipv4 7\<rparr>)"
proof -
  have "lower_case (req_destination sample_request)" by code_simp
  then show ?thesis
    using flow_metadata_round_trip [OF sample_request_valid, of "IpV4 7"] by (simp add: address_destination_def)
qed

text \<open>
  A refusal keeps its reason across the tunnel. The answer the server side forms from an error of
  a module is a refusal the wire format can carry, and the status the client side hands to its adapter
  from that answer is the status the module gave, for the five statuses of a refusal, and the internal
  error for everything else.
\<close>

theorem refusal_reason_kept:
  assumes "open_error error = (status, reason)"
  shows "status \<noteq> StatusOk
    \<and> (\<exists>bs. encode_open_response \<lparr>resp_status = status, resp_reason = b_str reason\<rparr> = Inr bs
         \<and> parse_open_response bs = Inr \<lparr>resp_status = status, resp_reason = b_str reason\<rparr>)
    \<and> abi_status status =
        (case error of
           ModuleStatus s \<Rightarrow> if s \<in> {STATUS_DENIED, STATUS_UNSUPPORTED, STATUS_RESOURCE, STATUS_IO, STATUS_INVALID} then s
                             else STATUS_INTERNAL
         | _ \<Rightarrow> STATUS_INTERNAL)"
proof (intro conjI)
  have v: "response_valid \<lparr>resp_status = status, resp_reason = b_str reason\<rparr>"
  proof -
    have "reason \<in> {''flow denied'', ''flow unsupported'', ''flow resource limit'', ''endpoint connect failed'',
        ''invalid flow metadata'', ''flow setup failed''}"
      using assms by (auto simp: open_error_def split: if_splits)
    moreover have "\<forall>t \<in> {''flow denied'', ''flow unsupported'', ''flow resource limit'', ''endpoint connect failed'',
        ''invalid flow metadata'', ''flow setup failed''}. length (b_str t) \<le> MAX_REASON \<and> utf8_valid (b_str t)"
      by code_simp
    ultimately show ?thesis by (auto simp: response_valid_def)
  qed
  show "status \<noteq> StatusOk" using assms by (auto simp: open_error_def split: if_splits)
  show "\<exists>bs. encode_open_response \<lparr>resp_status = status, resp_reason = b_str reason\<rparr> = Inr bs
         \<and> parse_open_response bs = Inr \<lparr>resp_status = status, resp_reason = b_str reason\<rparr>"
    using response_codec.round_trip [OF v] .
  show "abi_status status = (case error of
      ModuleStatus s \<Rightarrow> if s \<in> {STATUS_DENIED, STATUS_UNSUPPORTED, STATUS_RESOURCE, STATUS_IO, STATUS_INVALID} then s else STATUS_INTERNAL
    | _ \<Rightarrow> STATUS_INTERNAL)"
    using assms by (cases error) (auto simp: open_error_def status_codes split: if_splits)
qed

theorem refusal_reason_kept_witness:
  "open_error (ModuleStatus STATUS_DENIED) = (Denied, ''flow denied'') \<and> abi_status Denied = STATUS_DENIED"
proof -
  have o: "open_error (ModuleStatus STATUS_DENIED) = (Denied, ''flow denied'')" by (simp add: open_error_def)
  show ?thesis using refusal_reason_kept [OF o] o by simp
qed

text \<open>Operation handles are distinct and never zero; they run out after \<open>2^64 - 2\<close> flows, with an error.\<close>

lemma operations_increase:
  "unat c + n \<le> u64_max \<Longrightarrow> length (operations n c) = n \<and> sorted_wrt (<) (operations n c) \<and> (\<forall>h \<in> set (operations n c). c \<le> h)"
proof (induction n arbitrary: c)
  case (Suc n)
  then have u: "unat c \<noteq> u64_max" "unat (c + 1) = unat c + 1"
    by (auto simp: u64_max_def unat_word_ariths)
  then have "c < c + 1" by (simp add: word_less_nat_alt)
  then show ?case using Suc.IH [of "c + 1"] Suc.prems u by (auto simp: next_operation_def)
qed simp

lemma operations_unique: "n < u64_max \<Longrightarrow> length (operations n 1) = n \<and> distinct (operations n 1) \<and> 0 \<notin> set (operations n 1)"
  using operations_increase [of 1 n] strict_sorted_iff [of "operations n 1"] by (auto simp: u64_max_def)

end
