(* ===== verification/Engine_Config.thy ===== *)
theory Engine_Config
  imports Loader Config Stack_Bridge
begin

text \<open>
  How the engine checks its configuration against the loaded modules and sets up logging
  (\<open>engine.rs\<close>: \<open>Engine::validate\<close>, \<open>find_module\<close>, \<open>channel_security_context\<close>, \<open>configure_logging\<close>,
  \<open>parse_log_levels\<close>). The TOML parser applied to a module description is a parameter that gives the
  boolean under a name; environment variables are a function. Describing a module may change its
  state, so the modules are passed on.
\<close>

section \<open>Types\<close>

datatype engine_error =
  Engine_Config config_error | Engine_Module load_error | Engine_Stack stack_error | Engine_CoreIo
| DuplicateInstance bytes | MissingModuleClass u32 | ModuleBinding path u32 | ModuleDescription | ResourceOverflow
| Engine_Logging string | Engine_Control string | LoggingEnvironment | InstanceNotFound bytes | CommandQueue
| Engine_Stopped | EventReceiver

record tunnel_binding =
  tb_name :: bytes
  tb_role :: role
  tb_adapters :: "nat list"
  tb_carrier :: nat
  tb_protection :: nat
  tb_policy :: nat
  tb_policy_family :: bytes
  tb_policy_context :: bytes
  tb_core_io_limit :: nat
  tb_yamux :: yamux_config
  tb_connect_timeout :: nat
  tb_handshake_timeout :: nat

record 'm validated_config =
  vc_config :: config
  vc_modules :: "'m loaded_module list"
  vc_tunnels :: "tunnel_binding list"

section \<open>Binding modules\<close>

definition find_module :: "'m loaded_module list \<Rightarrow> path \<Rightarrow> u32 \<Rightarrow> engine_error + nat" where
  "find_module modules source class =
     (case filter (\<lambda>i. path_of_string (lm_source_config (modules ! i)) = source \<and> and (lm_class_mask (modules ! i)) class \<noteq> 0)
             [0..<length modules] of
        [i] \<Rightarrow> Inr i
      | _ \<Rightarrow> Inl (ModuleBinding source class))"

fun find_modules :: "'m loaded_module list \<Rightarrow> path list \<Rightarrow> u32 \<Rightarrow> engine_error + nat list" where
  "find_modules modules [] class = Inr []"
| "find_modules modules (p # ps) class =
     rbind (find_module modules p class) (\<lambda>i. rbind (find_modules modules ps class) (\<lambda>is. Inr (i # is)))"

definition bool_text :: "bool \<Rightarrow> string" where
  "bool_text b = (if b then ''true'' else ''false'')"

definition newline :: string where "newline = [CHR 0x0A]"
definition quoted :: "string \<Rightarrow> string" where "quoted s = CHR 0x22 # s @ [CHR 0x22]"

definition role_text :: "role \<Rightarrow> string" where
  "role_text r = (case r of Client \<Rightarrow> ''client'' | Server \<Rightarrow> ''server'')"

definition security_context :: "role \<Rightarrow> bool \<Rightarrow> bool \<Rightarrow> bool \<Rightarrow> bytes" where
  "security_context role confidentiality integrity peer_authenticated =
     b_str (''role = '' @ quoted (role_text role) @ newline
       @ ''confidentiality = '' @ bool_text confidentiality @ newline
       @ ''integrity = '' @ bool_text integrity @ newline
       @ ''peer_authenticated = '' @ bool_text peer_authenticated @ newline
       @ (if peer_authenticated then ''peer_identity = '' @ quoted ''protection-peer'' @ newline else []))"

definition channel_security_context ::
    "(bytes \<Rightarrow> (string \<Rightarrow> bool option) option) \<Rightarrow> 'm loaded_module \<Rightarrow> role \<Rightarrow> 'm loaded_module \<times> (engine_error + bytes)" where
  "channel_security_context toml l role =
     (case lm_describe l of (l', r) \<Rightarrow>
        (l',
         rbind (map_err Engine_Module r) (\<lambda>text.
         if \<not> utf8_valid text then Inl ModuleDescription
         else rbind (ok_or ModuleDescription (toml text)) (\<lambda>description.
         rbind (ok_or ModuleDescription (description ''confidentiality'')) (\<lambda>confidentiality.
         rbind (ok_or ModuleDescription (description ''integrity'')) (\<lambda>integrity.
         rbind (ok_or ModuleDescription
                  (description (case role of Client \<Rightarrow> ''server_authenticated'' | Server \<Rightarrow> ''client_authenticated''))) (\<lambda>peer.
         Inr (security_context role confidentiality integrity peer))))))))"

definition core_io_limit :: "engine_config \<Rightarrow> engine_error + nat" where
  "core_io_limit e =
     ok_or ResourceOverflow (Option.bind (checked_mul (max_flows e) 3) (checked_add (max_sessions e)))"

definition bind_tunnel ::
    "(bytes \<Rightarrow> (string \<Rightarrow> bool option) option) \<Rightarrow> config \<Rightarrow> 'm loaded_module list \<Rightarrow> tunnel_config
       \<Rightarrow> 'm loaded_module list \<times> (engine_error + tunnel_binding)" where
  "bind_tunnel toml c modules t =
     (case
        (rbind (find_modules modules (tunnel_adapters t) CLASS_ADAPTER) (\<lambda>adapters.
         rbind (find_module modules (tunnel_protection t) CLASS_PROTECTION) (\<lambda>protection.
         rbind (find_module modules (tunnel_carrier t) CLASS_CARRIER) (\<lambda>carrier.
         rbind (find_module modules (tunnel_policy t) CLASS_POLICY) (\<lambda>policy.
         Inr (adapters, protection, carrier, policy)))))) of
        Inl e \<Rightarrow> (modules, Inl e)
      | Inr (adapters, protection, carrier, policy) \<Rightarrow>
          (case channel_security_context toml (modules ! protection) (tunnel_role t) of (l, r) \<Rightarrow>
             (let modules = modules[protection := l] in
              (modules,
               rbind r (\<lambda>policy_context.
               rbind (core_io_limit (engine_of c)) (\<lambda>limit.
               Inr \<lparr>tb_name = tunnel_name t, tb_role = tunnel_role t, tb_adapters = adapters, tb_carrier = carrier,
                    tb_protection = protection, tb_policy = policy, tb_policy_family = lm_name (modules ! policy),
                    tb_policy_context = policy_context, tb_core_io_limit = limit, tb_yamux = yamux_of c,
                    tb_connect_timeout = connect_timeout_ms (engine_of c),
                    tb_handshake_timeout = handshake_timeout_ms (engine_of c)\<rparr>))))))"

fun bind_tunnels ::
    "(bytes \<Rightarrow> (string \<Rightarrow> bool option) option) \<Rightarrow> config \<Rightarrow> 'm loaded_module list \<Rightarrow> tunnel_config list
       \<Rightarrow> 'm loaded_module list \<times> (engine_error + tunnel_binding list)" where
  "bind_tunnels toml c modules [] = (modules, Inr [])"
| "bind_tunnels toml c modules (t # ts) =
     (case bind_tunnel toml c modules t of
        (modules, Inl e) \<Rightarrow> (modules, Inl e)
      | (modules, Inr b) \<Rightarrow>
          (case bind_tunnels toml c modules ts of (modules, r) \<Rightarrow> (modules, rbind r (\<lambda>bs. Inr (b # bs)))))"

text \<open>The scan of the instances: the first repeated name, or the classes of all modules together.\<close>

fun scan_instances :: "bytes list \<Rightarrow> u32 \<Rightarrow> 'm loaded_module list \<Rightarrow> engine_error + u32" where
  "scan_instances seen classes [] = Inr classes"
| "scan_instances seen classes (l # ls) =
     (if lm_instance_name l \<in> set seen then Inl (DuplicateInstance (lm_instance_name l))
      else scan_instances (lm_instance_name l # seen) (or classes (lm_class_mask l)) ls)"

definition engine_validate ::
    "(bytes \<Rightarrow> (string \<Rightarrow> bool option) option) \<Rightarrow> config \<Rightarrow> 'm loaded_module list \<Rightarrow> engine_error + 'm validated_config" where
  "engine_validate toml c modules =
     rbind (map_err Engine_Config (validate c)) (\<lambda>_.
     rbind (scan_instances [] 0 modules) (\<lambda>classes.
     if and classes KNOWN_CLASSES \<noteq> KNOWN_CLASSES then Inl (MissingModuleClass (and KNOWN_CLASSES (not classes)))
     else case bind_tunnels toml c modules (tunnels c) of
       (modules, r) \<Rightarrow> rbind r (\<lambda>bindings. Inr \<lparr>vc_config = c, vc_modules = modules, vc_tunnels = bindings\<rparr>)))"

section \<open>Logging\<close>

text \<open>\<open>str::trim\<close>: the code points with the property White\_Space, as UTF-8.\<close>

definition white_space :: "bytes list" where
  "white_space =
     [[9], [10], [11], [12], [13], [32], [0xC2, 0x85], [0xC2, 0xA0], [0xE1, 0x9A, 0x80], [0xE2, 0x80, 0xA8],
      [0xE2, 0x80, 0xA9], [0xE2, 0x80, 0xAF], [0xE2, 0x81, 0x9F], [0xE3, 0x80, 0x80]]
     @ map (\<lambda>i. [0xE2, 0x80, 0x80 + of_nat i]) [0..<11]"

fun strip_front :: "bytes list \<Rightarrow> bytes \<Rightarrow> bytes" where
  "strip_front ws s =
     (case List.find (\<lambda>w. w \<noteq> [] \<and> prefix w s) ws of
        None \<Rightarrow> s
      | Some w \<Rightarrow> if w = [] \<or> s = [] then s else strip_front ws (drop (length w) s))"

declare strip_front.simps [simp del]

definition trim :: "bytes \<Rightarrow> bytes" where
  "trim s = rev (strip_front (map rev white_space) (rev (strip_front white_space s)))"

definition parse_level :: "bytes \<Rightarrow> log_level option" where
  "parse_level s =
     (let word = map to_ascii_lowercase (trim s) in
      if word = b_str ''warning'' then Some Warning
      else if word = b_str ''error'' then Some LevelError
      else if word = b_str ''debug'' then Some Debug
      else None)"

fun collect_levels :: "log_level list \<Rightarrow> bytes list \<Rightarrow> engine_error + log_level list" where
  "collect_levels levels [] = (if levels = [] then Inl LoggingEnvironment else Inr levels)"
| "collect_levels levels (s # ss) =
     (case parse_level s of
        None \<Rightarrow> Inl LoggingEnvironment
      | Some level \<Rightarrow>
          if level \<in> set levels then Inl LoggingEnvironment else collect_levels (levels @ [level]) ss)"

definition parse_log_levels :: "bytes \<Rightarrow> engine_error + log_level list" where
  "parse_log_levels input = collect_levels [] (split_on 44 input)"

text \<open>\<open>start\<close> is \<open>FileLogger::start\<close>: the file, the limit, the queue, the record size, the interval.\<close>

definition configure_logging ::
    "(bytes \<Rightarrow> bytes option) \<Rightarrow> (bytes \<Rightarrow> nat \<Rightarrow> nat \<Rightarrow> nat \<Rightarrow> nat \<Rightarrow> string + 'f) \<Rightarrow> logging_config
       \<Rightarrow> engine_error + ('f \<times> log_level list) option" where
  "configure_logging env start config =
     (case config of
        LoggingOff \<Rightarrow> Inr None
      | LoggingFile l \<Rightarrow>
          rbind
            (case log_source_of l of
               Toml \<Rightarrow>
                 rbind (ok_or LoggingEnvironment (log_levels l)) (\<lambda>levels.
                 rbind (map_err Engine_Config (parse_size (log_limit l))) (\<lambda>limit. Inr (levels, log_file l, limit)))
             | Env \<Rightarrow>
                 rbind (ok_or LoggingEnvironment (log_logs l)) (\<lambda>name.
                 rbind (ok_or LoggingEnvironment (env name)) (\<lambda>levels.
                 rbind (ok_or LoggingEnvironment (env (log_file l))) (\<lambda>file.
                 rbind (ok_or LoggingEnvironment (env (log_limit l))) (\<lambda>limit.
                 rbind (parse_log_levels levels) (\<lambda>levels.
                 rbind (map_err Engine_Config (parse_size limit)) (\<lambda>limit. Inr (levels, file, limit))))))))
            (\<lambda>(levels, file, limit).
               rbind (map_err Engine_Logging
                 (start file limit (log_queue_bytes l) (log_max_record_bytes l) (log_flush_interval_ms l))) (\<lambda>f.
               Inr (Some (f, levels)))))"

section \<open>What validation establishes\<close>

text \<open>What describing a module leaves alone.\<close>

definition static_of :: "'m loaded_module \<Rightarrow> bytes \<times> u32 \<times> bytes \<times> bytes" where
  "static_of l = (lm_source_config l, lm_class_mask l, lm_name l, lm_instance_name l)"

definition bound_module :: "'m loaded_module list \<Rightarrow> u32 \<Rightarrow> path \<Rightarrow> nat \<Rightarrow> bool" where
  "bound_module modules class p i \<longleftrightarrow>
     i < length modules
     \<and> (\<forall>j < length modules.
          (path_of_string (lm_source_config (modules ! j)) = p \<and> and (lm_class_mask (modules ! j)) class \<noteq> 0) = (j = i))"

definition bound_tunnel :: "config \<Rightarrow> 'm loaded_module list \<Rightarrow> tunnel_config \<Rightarrow> tunnel_binding \<Rightarrow> bool" where
  "bound_tunnel c modules t b \<longleftrightarrow>
     tb_name b = tunnel_name t \<and> tb_role b = tunnel_role t
     \<and> list_all2 (bound_module modules CLASS_ADAPTER) (tunnel_adapters t) (tb_adapters b)
     \<and> bound_module modules CLASS_PROTECTION (tunnel_protection t) (tb_protection b)
     \<and> bound_module modules CLASS_CARRIER (tunnel_carrier t) (tb_carrier b)
     \<and> bound_module modules CLASS_POLICY (tunnel_policy t) (tb_policy b)
     \<and> tb_policy_family b = lm_name (modules ! tb_policy b)
     \<and> tb_core_io_limit b = max_sessions (engine_of c) + 3 * max_flows (engine_of c)
     \<and> (\<exists>con int peer. tb_policy_context b = security_context (tunnel_role t) con int peer)"

lemma static_nth:
  assumes "map static_of ms = map static_of ns" and "i < length ns"
  shows "lm_source_config (ms ! i) = lm_source_config (ns ! i) \<and> lm_class_mask (ms ! i) = lm_class_mask (ns ! i)
    \<and> lm_name (ms ! i) = lm_name (ns ! i) \<and> lm_instance_name (ms ! i) = lm_instance_name (ns ! i)"
proof -
  have "length ms = length ns" using assms(1) map_eq_imp_length_eq by blast
  then have "static_of (ms ! i) = static_of (ns ! i)" using assms by (metis nth_map)
  then show ?thesis by (simp add: static_of_def)
qed

lemma bound_module_static:
  assumes "map static_of ms = map static_of ns"
  shows "bound_module ms class = bound_module ns class"
proof -
  have "length ms = length ns" using assms map_eq_imp_length_eq by blast
  then show ?thesis using static_nth [OF assms] by (auto simp: bound_module_def fun_eq_iff)
qed

lemma bound_tunnel_static:
  assumes "map static_of ms = map static_of ns"
  shows "bound_tunnel c ms t b = bound_tunnel c ns t b"
  using bound_module_static [OF assms] static_nth [OF assms, of "tb_policy b"]
  by (auto simp: bound_tunnel_def bound_module_def [of ns CLASS_POLICY])

lemma static_describe: "static_of (fst (lm_describe l)) = static_of l"
  by (auto simp: lm_describe_def static_of_def split: option.split prod.split)

lemma static_context: "static_of (fst (channel_security_context toml l role)) = static_of l"
  using static_describe [of l] by (auto simp: channel_security_context_def split: prod.split)

lemma find_module_bound:
  assumes "find_module modules p class = Inr i"
  shows "bound_module modules class p i"
proof -
  let ?ok = "\<lambda>i. path_of_string (lm_source_config (modules ! i)) = p \<and> and (lm_class_mask (modules ! i)) class \<noteq> 0"
  have "filter ?ok [0..<length modules] = [i]"
    using assms by (auto simp: find_module_def split: list.splits)
  then have "set (filter ?ok [0..<length modules]) = {i}" by simp
  then show ?thesis by (auto simp: bound_module_def)
qed

lemma find_modules_bound:
  "find_modules modules ps class = Inr is \<Longrightarrow> list_all2 (bound_module modules class) ps is"
  by (induction ps arbitrary: "is") (auto simp: result_simps find_module_bound)

lemma core_io_limit_value: "core_io_limit e = Inr n \<Longrightarrow> n = max_sessions e + 3 * max_flows e"
  by (auto simp: core_io_limit_def ok_or_def checked_mul_def checked_add_def split: if_splits option.splits)

lemma context_is_security_context:
  "snd (channel_security_context toml l role) = Inr ctx \<Longrightarrow> \<exists>con int peer. ctx = security_context role con int peer"
  by (auto simp: channel_security_context_def result_simps split: prod.splits if_splits)

lemma bind_tunnel_bound:
  assumes "bind_tunnel toml c modules t = (modules', r)"
  shows "map static_of modules' = map static_of modules \<and> (\<forall>b. r = Inr b \<longrightarrow> bound_tunnel c modules' t b)"
proof (cases "\<exists>adapters protection carrier policy.
    find_modules modules (tunnel_adapters t) CLASS_ADAPTER = Inr adapters
    \<and> find_module modules (tunnel_protection t) CLASS_PROTECTION = Inr protection
    \<and> find_module modules (tunnel_carrier t) CLASS_CARRIER = Inr carrier
    \<and> find_module modules (tunnel_policy t) CLASS_POLICY = Inr policy")
  case False
  then show ?thesis
    using assms by (auto simp: bind_tunnel_def rbind_def split: sum.splits prod.splits)
next
  case True
  then obtain adapters protection carrier policy where f:
      "find_modules modules (tunnel_adapters t) CLASS_ADAPTER = Inr adapters"
      "find_module modules (tunnel_protection t) CLASS_PROTECTION = Inr protection"
      "find_module modules (tunnel_carrier t) CLASS_CARRIER = Inr carrier"
      "find_module modules (tunnel_policy t) CLASS_POLICY = Inr policy" by blast
  obtain l ctx where d: "channel_security_context toml (modules ! protection) (tunnel_role t) = (l, ctx)" by fastforce
  have m: "modules' = modules[protection := l]"
    using assms by (simp add: bind_tunnel_def f d rbind_def Let_def)
  have "static_of l = static_of (modules ! protection)" using static_context d by (metis fst_conv)
  then have s: "map static_of modules' = map static_of modules"
    unfolding m by (metis list_update_id map_update nth_map find_module_bound [OF f(2)] bound_module_def)
  moreover have "bound_tunnel c modules' t b" if rb: "r = Inr b" for b
  proof -
    obtain x n where x: "ctx = Inr x" "core_io_limit (engine_of c) = Inr n"
      using assms rb by (auto simp: bind_tunnel_def f d rbind_def Let_def split: sum.splits)
    have b: "b = \<lparr>tb_name = tunnel_name t, tb_role = tunnel_role t, tb_adapters = adapters, tb_carrier = carrier,
        tb_protection = protection, tb_policy = policy, tb_policy_family = lm_name (modules' ! policy),
        tb_policy_context = x, tb_core_io_limit = n, tb_yamux = yamux_of c,
        tb_connect_timeout = connect_timeout_ms (engine_of c), tb_handshake_timeout = handshake_timeout_ms (engine_of c)\<rparr>"
      using assms rb x by (simp add: bind_tunnel_def f d m rbind_def Let_def)
    have "\<exists>con int peer. x = security_context (tunnel_role t) con int peer"
      using context_is_security_context d x(1) by (metis snd_conv)
    then show ?thesis
      using find_modules_bound [OF f(1)] find_module_bound [OF f(2)] find_module_bound [OF f(3)] find_module_bound [OF f(4)]
        core_io_limit_value [OF x(2)]
      by (simp add: b bound_tunnel_def bound_module_static [OF s])
  qed
  ultimately show ?thesis by blast
qed

lemma bind_tunnels_bound:
  "bind_tunnels toml c modules ts = (modules', r) \<Longrightarrow>
     map static_of modules' = map static_of modules \<and> (\<forall>bs. r = Inr bs \<longrightarrow> list_all2 (bound_tunnel c modules') ts bs)"
proof (induction ts arbitrary: modules modules' r)
  case (Cons t ts)
  obtain m1 r1 where b: "bind_tunnel toml c modules t = (m1, r1)" by fastforce
  obtain m2 r2 where bs: "bind_tunnels toml c m1 ts = (m2, r2)" by fastforce
  note h = bind_tunnel_bound [OF b] and t = Cons.IH [OF bs]
  show ?case
  proof (cases r1)
    case (Inl e)
    then show ?thesis using Cons.prems h by (auto simp: b)
  next
    case (Inr x)
    then have "modules' = m2" "r = rbind r2 (\<lambda>xs. Inr (x # xs))" using Cons.prems by (simp_all add: b bs)
    then show ?thesis using h t Inr bound_tunnel_static [of m2 m1] by (auto simp: result_simps)
  qed
qed simp

lemma scan_instances_distinct:
  "scan_instances seen classes ms = Inr k \<Longrightarrow> distinct (map lm_instance_name ms) \<and> set (map lm_instance_name ms) \<inter> set seen = {}"
proof (induction ms arbitrary: seen classes)
  case (Cons l ms)
  then have l: "lm_instance_name l \<notin> set seen"
      "scan_instances (lm_instance_name l # seen) (or classes (lm_class_mask l)) ms = Inr k"
    by (auto split: if_splits)
  from Cons.IH [OF l(2)] l(1) show ?case by auto
qed simp

text \<open>
  Validation binds every tunnel to its modules. When the engine accepts a configuration and a list
  of modules, the configuration is valid, instance names are distinct, and every tunnel, in order, has
  for each module it names the one module that was loaded from that file for that class, the policy
  family of its policy module, a security context for its own role, and room in the core registry for
  every session and three objects of every flow; describing the modules changed none of this.
\<close>

theorem validated_tunnels_bound:
  assumes "engine_validate toml c modules = Inr v"
  shows "validate c = Inr () \<and> vc_config v = c \<and> distinct (map lm_instance_name (vc_modules v))
    \<and> map static_of (vc_modules v) = map static_of modules
    \<and> list_all2 (bound_tunnel c (vc_modules v)) (tunnels c) (vc_tunnels v)"
proof -
  obtain modules' r where b: "bind_tunnels toml c modules (tunnels c) = (modules', r)" by fastforce
  obtain classes bs where v: "validate c = Inr ()" "scan_instances [] 0 modules = Inr classes" "r = Inr bs"
      "v = \<lparr>vc_config = c, vc_modules = modules', vc_tunnels = bs\<rparr>"
    using assms by (auto simp: engine_validate_def result_simps b split: if_splits)
  note s = bind_tunnels_bound [OF b]
  have "map lm_instance_name modules' = map (\<lambda>(a, b, c, d). d) (map static_of modules')"
    by (simp add: static_of_def comp_def)
  also have "\<dots> = map lm_instance_name modules"
    using s by (simp add: static_of_def comp_def)
  finally show ?thesis using v s scan_instances_distinct [OF v(2)] by simp
qed

definition demo_loaded_as :: "string \<Rightarrow> u32 \<Rightarrow> nat module_state loaded_module" where
  "demo_loaded_as file class =
     demo_loaded\<lparr>lm_source_config := b_str file, lm_instance_name := b_str file, lm_class_mask := class\<rparr>"

definition demo_modules :: "nat module_state loaded_module list" where
  "demo_modules =
     [demo_loaded_as ''direct.toml'' CLASS_ADAPTER, demo_loaded_as ''noise.toml'' CLASS_PROTECTION,
      demo_loaded_as ''tcp.toml'' CLASS_CARRIER, demo_loaded_as ''policy.toml'' CLASS_POLICY]"

definition all_true :: "bytes \<Rightarrow> (string \<Rightarrow> bool option) option" where
  "all_true text = Some (\<lambda>name. Some True)"

lemma demo_context: "snd (channel_security_context all_true (demo_loaded_as file class) role) = Inr (security_context role True True True)"
proof -
  have "snd (lm_describe (demo_loaded_as file class)) = Inr (b_str ''demo'')"
    using sdk_describe [of "demo_loaded_as file class" "demo_code (Some (Inr ()))"]
    by (simp add: demo_loaded_as_def demo_loaded_def demo_descriptor_def demo_code_def MAX_DESCRIPTION_def b_str_def)
  moreover have "utf8_valid (b_str ''demo'')" by code_simp
  ultimately show ?thesis
    by (auto simp: channel_security_context_def all_true_def result_simps map_err_def ok_or_def split: prod.split)
qed

lemma demo_found:
  "find_modules demo_modules [[Normal (b_str ''direct.toml'')]] CLASS_ADAPTER = Inr [0]"
  "find_module demo_modules [Normal (b_str ''noise.toml'')] CLASS_PROTECTION = Inr 1"
  "find_module demo_modules [Normal (b_str ''tcp.toml'')] CLASS_CARRIER = Inr 2"
  "find_module demo_modules [Normal (b_str ''policy.toml'')] CLASS_POLICY = Inr 3"
  by code_simp+

lemma demo_scan: "scan_instances [] 0 demo_modules = Inr KNOWN_CLASSES" "and KNOWN_CLASSES KNOWN_CLASSES = KNOWN_CLASSES"
  by code_simp+

lemma template_valid: "validate low_memory_template = Inr ()"
  by code_simp

definition demo_tunnel :: tunnel_config where
  "demo_tunnel = hd (tunnels low_memory_template)"

lemma demo_tunnel_fields:
  "tunnels low_memory_template = [demo_tunnel]" "tunnel_adapters demo_tunnel = [[Normal (b_str ''direct.toml'')]]"
  "tunnel_protection demo_tunnel = [Normal (b_str ''noise.toml'')]" "tunnel_carrier demo_tunnel = [Normal (b_str ''tcp.toml'')]"
  "tunnel_policy demo_tunnel = [Normal (b_str ''policy.toml'')]" "tunnel_role demo_tunnel = Server"
  by (simp_all add: demo_tunnel_def low_memory_template_def)

lemma demo_engine_valid:
  "\<exists>v. engine_validate all_true low_memory_template demo_modules = Inr v \<and> map tb_adapters (vc_tunnels v) = [[0]]"
proof -
  obtain l r where d: "channel_security_context all_true (demo_modules ! 1) Server = (l, r)" by fastforce
  have r: "r = Inr (security_context Server True True True)"
    using demo_context [of "''noise.toml''" CLASS_PROTECTION Server] d by (simp add: demo_modules_def)
  have c: "core_io_limit (engine_of low_memory_template) = Inr 98" by code_simp
  have b: "\<exists>ms x. bind_tunnel all_true low_memory_template demo_modules demo_tunnel = (ms, Inr x) \<and> tb_adapters x = [0]"
    unfolding bind_tunnel_def demo_tunnel_fields demo_found Let_def by (simp add: demo_tunnel_fields d [unfolded One_nat_def] r c rbind_def)
  then show ?thesis
    by (auto simp: engine_validate_def template_valid demo_scan demo_tunnel_fields(1) rbind_def map_err_def)
qed

theorem validated_tunnels_bound_witness:
  "\<exists>v. engine_validate all_true low_memory_template demo_modules = Inr v
     \<and> list_all2 (bound_tunnel low_memory_template (vc_modules v)) (tunnels low_memory_template) (vc_tunnels v)
     \<and> map tb_adapters (vc_tunnels v) = [[0]]"
proof -
  obtain v where v: "engine_validate all_true low_memory_template demo_modules = Inr v" "map tb_adapters (vc_tunnels v) = [[0]]"
    using demo_engine_valid by metis
  from validated_tunnels_bound [OF v(1)] v show ?thesis by metis
qed

text \<open>Log levels from the environment: known, distinct, at least one.\<close>

lemma collect_levels_distinct:
  "distinct levels \<Longrightarrow> collect_levels levels ss = Inr out \<Longrightarrow> distinct out \<and> out \<noteq> []"
proof (induction ss arbitrary: levels)
  case (Cons s ss)
  then show ?case using Cons.IH [of "levels @ [x]" for x] by (auto split: if_splits option.splits)
qed (auto split: if_splits)

lemma parse_log_levels_distinct: "parse_log_levels input = Inr levels \<Longrightarrow> distinct levels \<and> levels \<noteq> []"
  using collect_levels_distinct [of "[]"] by (simp add: parse_log_levels_def)

lemma environment_levels:
  "parse_log_levels (b_str ''warning, ERROR ,debug'') = Inr [Warning, LevelError, Debug]"
  "parse_log_levels (b_str ''debug,debug'') = Inl LoggingEnvironment"
  "parse_log_levels (b_str ''info'') = Inl LoggingEnvironment" "parse_log_levels [] = Inl LoggingEnvironment"
  by code_simp+

end
