(* ===== verification/Flow_Session.thy ===== *)
theory Flow_Session
  imports Mux_Session Flow_Support Engine_Config Core_Registry Stack_Ports
begin

text \<open>
  An established session (\<open>engine.rs\<close>: \<open>EstablishedSession\<close>): how flows are accepted, admitted by the
  policy, resolved, opened, answered, attached to modules, and reaped. The modules, the registry of the
  core, the virtual stack and the counter of operations are one world that is passed on.

  A port of the stack shares the lease of its flow; \<open>ew_leases\<close> has an entry for every live port, and the
  flow is closed with the last one. What a registered object does when a module uses it is given by the
  tables of the environment; the engine only registers and hands over. The stream of a failed operation
  is not told apart further, since every error ends the session and with it the connection. \<open>es_calls\<close>
  records the decisions of modules about the flows of a session and has no counterpart in the code.
\<close>

section \<open>State\<close>

datatype session_flow_error =
  Flow_Mux mux_error | Flow_Module load_error | Flow_CoreIo core_io_error | Flow_Stack stack_error | Flow_State | Flow_Operation

datatype pending_ports =
  Ports_Direct | Ports_Tcp tcp_stream_port tcp_stream_port | Ports_Udp udp_datagram_port udp_datagram_port

datatype client_policy_port =
  Port_Direct | Port_Tcp tcp_stream_port | Port_PacketTcp packet_tcp_port | Port_PacketUdp handle | Port_Udp udp_datagram_port

record pending_server_flow =
  ps_request :: open_request
  ps_metadata :: owned_flow_metadata
  ps_stream :: "u32 option"
  ps_operation :: u64
  ps_admitted :: bool
  ps_adapter_cursor :: nat
  ps_resolved_addresses :: "ip_address list option"
  ps_resolved_cursor :: nat
  ps_resolution_complete :: bool
  ps_adapter_flow :: "(nat \<times> u64) option"
  ps_ports :: "pending_ports option"
  ps_response_sent :: bool
  ps_accepted :: bool

record active_server_flow =
  af_adapter_flow :: "(nat \<times> u64) option"
  af_mux_handle :: u64

record pending_client_flow =
  pc_request :: open_request
  pc_metadata :: owned_flow_metadata
  pc_adapter_flow :: "(nat \<times> u64) option"
  pc_admitted :: bool
  pc_policy_port :: "client_policy_port option"

datatype flow_call =
  Admitted owned_flow_metadata
| Resolved nat u64 owned_flow_metadata "ip_address list"
| AdmittedAddress owned_flow_metadata
| Opening nat u64 owned_flow_metadata
| Sending open_request

type_synonym 'm mux = "'m module_byte_io mux_session"

record 'm established_session =
  es_mux :: "'m mux option"
  es_policy_session :: u64
  es_accepting :: "(session_future \<times> 'm mux) option"
  es_responding :: "(u32 \<times> open_response \<times> session_future \<times> 'm mux) option"
  es_openings :: "(session_future \<times> pending_client_flow) list"
  es_pending :: "pending_server_flow option"
  es_client_pending :: "pending_client_flow option"
  es_active :: "active_server_flow list"
  es_calls :: "flow_call list"

text \<open>Objects of the core, and the leases of the flows behind them.\<close>

datatype core_stream = Core_Mux u32 | Core_Tcp tcp_stream_port | Core_PacketTcp packet_tcp_port
datatype core_datagram = Core_MuxUdp u32 | Core_Udp udp_datagram_port | Core_PacketUdp handle | Core_Packets

datatype core_object = Obj_Stream core_stream | Obj_Datagram core_datagram

datatype port_lease = Lease_Tcp handle | Lease_Udp handle | Lease_PacketTcp handle | Lease_PacketUdp handle

record ('m, 'n) engine_world =
  ew_modules :: "'m loaded_module list"
  ew_registry :: "(core_stream, core_datagram) core_registry"
  ew_stack :: "'n bridge"
  ew_leases :: "port_lease list"
  ew_operation :: u64

text \<open>The libraries and tables the session uses: smoltcp, the clock of the stack, the tables of the core.\<close>

record 'n engine_env =
  ee_smoltcp :: "'n smoltcp"
  ee_view :: transport_view
  ee_now :: nat
  ee_streams :: "core_stream byte_io"
  ee_datagrams :: "core_datagram datagram_io"
  ee_byte_table :: address
  ee_datagram_table :: address

definition established_new :: "'m mux \<Rightarrow> u64 \<Rightarrow> 'm established_session" where
  "established_new mux policy_session =
     \<lparr>es_mux = Some mux, es_policy_session = policy_session, es_accepting = None, es_responding = None, es_openings = [],
      es_pending = None, es_client_pending = None, es_active = [], es_calls = []\<rparr>"

section \<open>Steps that may fail or panic\<close>

type_synonym ('m, 'n) flow_state = "'m established_session \<times> ('m, 'n) engine_world"
type_synonym ('m, 'n, 'a) flow = "('m, 'n) flow_state \<Rightarrow> (('m, 'n) flow_state \<times> (session_flow_error + 'a)) option"

definition fret :: "'a \<Rightarrow> ('m, 'n, 'a) flow" where
  "fret a = (\<lambda>s. Some (s, Inr a))"

definition ferr :: "session_flow_error \<Rightarrow> ('m, 'n, 'a) flow" where
  "ferr e = (\<lambda>s. Some (s, Inl e))"

definition fpanic :: "('m, 'n, 'a) flow" where
  "fpanic = (\<lambda>s. None)"

definition fbind :: "('m, 'n, 'a) flow \<Rightarrow> ('a \<Rightarrow> ('m, 'n, 'b) flow) \<Rightarrow> ('m, 'n, 'b) flow" where
  "fbind p k = (\<lambda>s. case p s of None \<Rightarrow> None | Some (s, Inl e) \<Rightarrow> Some (s, Inl e) | Some (s, Inr a) \<Rightarrow> k a s)"

definition fget :: "('m, 'n, ('m, 'n) flow_state) flow" where
  "fget = (\<lambda>s. Some (s, Inr s))"

definition on_session :: "('m established_session \<Rightarrow> 'm established_session) \<Rightarrow> ('m, 'n, unit) flow" where
  "on_session f = (\<lambda>(s, w). Some ((f s, w), Inr ()))"

definition on_world :: "(('m, 'n) engine_world \<Rightarrow> ('m, 'n) engine_world) \<Rightarrow> ('m, 'n, unit) flow" where
  "on_world f = (\<lambda>(s, w). Some ((s, f w), Inr ()))"

definition flift :: "session_flow_error + 'a \<Rightarrow> ('m, 'n, 'a) flow" where
  "flift r = (\<lambda>s. Some (s, r))"

text \<open>The destructors that run when an operation returns early.\<close>

definition fcleanup :: "('m, 'n, 'a) flow \<Rightarrow> ('m, 'n, unit) flow \<Rightarrow> ('m, 'n, 'a) flow" where
  "fcleanup p c = (\<lambda>s. case p s of
     Some (s, Inl e) \<Rightarrow> (case c s of None \<Rightarrow> None | Some (s, _) \<Rightarrow> Some (s, Inl e))
   | r \<Rightarrow> r)"

definition record_call :: "flow_call \<Rightarrow> ('m, 'n, unit) flow" where
  "record_call c = on_session (\<lambda>s. s\<lparr>es_calls := es_calls s @ [c]\<rparr>)"

text \<open>A call of a module; an index outside the list of modules panics.\<close>

definition module_call :: "nat \<Rightarrow> ('m loaded_module \<Rightarrow> 'm loaded_module \<times> 'a) \<Rightarrow> ('m, 'n, 'a) flow" where
  "module_call i f = (\<lambda>(s, w).
     if i < length (ew_modules w)
     then (case f (ew_modules w ! i) of (l, a) \<Rightarrow> Some ((s, w\<lparr>ew_modules := (ew_modules w)[i := l]\<rparr>), Inr a))
     else None)"

text \<open>A call that answers at once.\<close>

definition ready_call :: "nat \<Rightarrow> ('m loaded_module \<Rightarrow> 'm loaded_module \<times> (load_error + 'a) poll) \<Rightarrow> ('m, 'n, load_error + 'a) flow" where
  "ready_call i f = fbind (module_call i f) (\<lambda>r. case r of Ready x \<Rightarrow> fret x | _ \<Rightarrow> fpanic)"

definition checked_call :: "nat \<Rightarrow> ('m loaded_module \<Rightarrow> 'm loaded_module \<times> (load_error + 'a) poll) \<Rightarrow> ('m, 'n, 'a) flow" where
  "checked_call i f = fbind (ready_call i f) (\<lambda>x. flift (map_err Flow_Module x))"

definition ask_module :: "nat \<Rightarrow> ('m loaded_module \<Rightarrow> bool) \<Rightarrow> ('m, 'n, bool) flow" where
  "ask_module i f = module_call i (\<lambda>l. (l, f l))"

section \<open>Ports, leases and registrations\<close>

definition close_lease :: "'n engine_env \<Rightarrow> port_lease \<Rightarrow> 'n bridge \<Rightarrow> 'n bridge option" where
  "close_lease E l b =
     (case l of
        Lease_Tcp h \<Rightarrow> map_option snd (close_tcp (ee_smoltcp E) h b)
      | Lease_Udp h \<Rightarrow> map_option snd (close_udp (ee_smoltcp E) h b)
      | Lease_PacketTcp h \<Rightarrow> map_option snd (close_packet_tcp (ee_smoltcp E) h b)
      | Lease_PacketUdp h \<Rightarrow> map_option snd (close_packet_udp (ee_smoltcp E) h b))"

definition drop_lease :: "'n engine_env \<Rightarrow> port_lease \<Rightarrow> ('m, 'n, unit) flow" where
  "drop_lease E l = (\<lambda>(s, w).
     (let w = w\<lparr>ew_leases := remove1 l (ew_leases w)\<rparr> in
      if l \<in> set (ew_leases w) then Some ((s, w), Inr ())
      else case close_lease E l (ew_stack w) of
        None \<Rightarrow> None
      | Some b \<Rightarrow> Some ((s, w\<lparr>ew_stack := b\<rparr>), Inr ())))"

fun object_lease :: "core_object \<Rightarrow> port_lease option" where
  "object_lease (Obj_Stream (Core_Tcp p)) = Some (Lease_Tcp (sp_handle p))"
| "object_lease (Obj_Stream (Core_PacketTcp p)) = Some (Lease_PacketTcp (ptp_handle p))"
| "object_lease (Obj_Stream (Core_Mux i)) = None"
| "object_lease (Obj_Datagram (Core_Udp p)) = Some (Lease_Udp (up_handle p))"
| "object_lease (Obj_Datagram (Core_PacketUdp h)) = Some (Lease_PacketUdp h)"
| "object_lease (Obj_Datagram (Core_MuxUdp i)) = None"
| "object_lease (Obj_Datagram Core_Packets) = None"

definition drop_object :: "'n engine_env \<Rightarrow> core_object \<Rightarrow> ('m, 'n, unit) flow" where
  "drop_object E obj = (case object_lease obj of None \<Rightarrow> fret () | Some l \<Rightarrow> drop_lease E l)"

fun drop_objects :: "'n engine_env \<Rightarrow> core_object list \<Rightarrow> ('m, 'n, unit) flow" where
  "drop_objects E [] = fret ()"
| "drop_objects E (obj # objs) = fbind (drop_object E obj) (\<lambda>_. drop_objects E objs)"

definition register_object :: "'n engine_env \<Rightarrow> nat \<Rightarrow> core_object \<Rightarrow> ('m, 'n, u64) flow" where
  "register_object E limit obj = (\<lambda>(s, w).
     (case obj of
        Obj_Stream x \<Rightarrow>
          (case register_io (ee_streams E, x) limit (ew_registry w) of (reg, r) \<Rightarrow>
             Some ((s, w\<lparr>ew_registry := reg\<rparr>), map_err Flow_CoreIo (rbind r (\<lambda>owner. Inr (rg_handle owner)))))
      | Obj_Datagram x \<Rightarrow>
          (case register_datagram (ee_datagrams E, x) limit (ew_registry w) of (reg, r) \<Rightarrow>
             Some ((s, w\<lparr>ew_registry := reg\<rparr>), map_err Flow_CoreIo (rbind r (\<lambda>owner. Inr (rd_handle owner)))))))"

text \<open>Dropping an owner that was not transferred: the entry goes, and with it the object.\<close>

definition unregister_object :: "'n engine_env \<Rightarrow> core_object \<times> u64 \<Rightarrow> ('m, 'n, unit) flow" where
  "unregister_object E entry = (case entry of (obj, handle) \<Rightarrow>
     fbind (on_world (\<lambda>w. w\<lparr>ew_registry :=
              (case obj of
                 Obj_Stream _ \<Rightarrow> registered_drop \<lparr>rg_handle = handle, rg_transferred = False\<rparr> (ew_registry w)
               | Obj_Datagram _ \<Rightarrow> registered_datagram_drop \<lparr>rd_handle = handle, rd_transferred = False\<rparr> (ew_registry w))\<rparr>))
       (\<lambda>_. drop_object E obj))"

fun unregister_objects :: "'n engine_env \<Rightarrow> (core_object \<times> u64) list \<Rightarrow> ('m, 'n, unit) flow" where
  "unregister_objects E [] = fret ()"
| "unregister_objects E (e # es) = fbind (unregister_object E e) (\<lambda>_. unregister_objects E es)"

text \<open>Registrations one after the other; when one fails, the objects before and after it are dropped.\<close>

fun register_objects :: "'n engine_env \<Rightarrow> nat \<Rightarrow> core_object list \<Rightarrow> ('m, 'n, u64 list) flow" where
  "register_objects E limit [] = fret []"
| "register_objects E limit (obj # objs) =
     fbind (fcleanup (register_object E limit obj) (drop_objects E (obj # objs))) (\<lambda>handle.
     fbind (fcleanup (register_objects E limit objs) (unregister_object E (obj, handle))) (\<lambda>handles.
     fret (handle # handles)))"

text \<open>
  Registering objects, handing them to modules, and keeping them registered when every module took
  them: \<open>transfer\<close> leaves the registry as it is.
\<close>

definition hand_over ::
    "'n engine_env \<Rightarrow> nat \<Rightarrow> core_object list \<Rightarrow> (u64 list \<Rightarrow> ('m, 'n, unit) flow) \<Rightarrow> ('m, 'n, u64 list) flow" where
  "hand_over E limit objs attach =
     fbind (register_objects E limit objs) (\<lambda>handles.
     fbind (fcleanup (attach handles) (unregister_objects E (zip objs handles))) (\<lambda>_. fret handles))"

definition drop_pending_ports :: "'n engine_env \<Rightarrow> pending_ports option \<Rightarrow> ('m, 'n, unit) flow" where
  "drop_pending_ports E ports =
     (case ports of
        Some (Ports_Tcp a p) \<Rightarrow> drop_objects E [Obj_Stream (Core_Tcp a), Obj_Stream (Core_Tcp p)]
      | Some (Ports_Udp a p) \<Rightarrow> drop_objects E [Obj_Datagram (Core_Udp a), Obj_Datagram (Core_Udp p)]
      | _ \<Rightarrow> fret ())"

definition drop_policy_port :: "'n engine_env \<Rightarrow> client_policy_port option \<Rightarrow> ('m, 'n, unit) flow" where
  "drop_policy_port E port =
     (case port of
        Some (Port_Tcp p) \<Rightarrow> drop_object E (Obj_Stream (Core_Tcp p))
      | Some (Port_PacketTcp p) \<Rightarrow> drop_object E (Obj_Stream (Core_PacketTcp p))
      | Some (Port_Udp p) \<Rightarrow> drop_object E (Obj_Datagram (Core_Udp p))
      | Some (Port_PacketUdp h) \<Rightarrow> drop_object E (Obj_Datagram (Core_PacketUdp h))
      | _ \<Rightarrow> fret ())"

text \<open>\<open>open_tcp\<close> and \<open>open_udp\<close> of the shared bridge give two ports with one lease.\<close>

definition shared_open_tcp :: "'n engine_env \<Rightarrow> flow_metadata \<Rightarrow> ('m, 'n, stack_error + tcp_stream_port \<times> tcp_stream_port) flow" where
  "shared_open_tcp E metadata = (\<lambda>(s, w).
     case open_tcp (ee_smoltcp E) (ee_view E) (ee_now E) metadata (ew_stack w) of
       None \<Rightarrow> None
     | Some (Inl e, b) \<Rightarrow> Some ((s, w\<lparr>ew_stack := b\<rparr>), Inr (Inl e))
     | Some (Inr h, b) \<Rightarrow>
         Some ((s, w\<lparr>ew_stack := b, ew_leases := Lease_Tcp h # Lease_Tcp h # ew_leases w\<rparr>),
           Inr (Inr (\<lparr>sp_handle = h, sp_side = Adapter, sp_write_shutdown = False\<rparr>,
                     \<lparr>sp_handle = h, sp_side = side.Policy, sp_write_shutdown = False\<rparr>))))"

definition shared_open_udp :: "'n engine_env \<Rightarrow> flow_metadata \<Rightarrow> ('m, 'n, stack_error + udp_datagram_port \<times> udp_datagram_port) flow" where
  "shared_open_udp E metadata = (\<lambda>(s, w).
     case open_udp (ee_smoltcp E) metadata (ew_stack w) of
       None \<Rightarrow> None
     | Some (Inl e, b) \<Rightarrow> Some ((s, w\<lparr>ew_stack := b\<rparr>), Inr (Inl e))
     | Some (Inr h, b) \<Rightarrow>
         Some ((s, w\<lparr>ew_stack := b, ew_leases := Lease_Udp h # Lease_Udp h # ew_leases w\<rparr>),
           Inr (Inr (\<lparr>up_handle = h, up_side = Adapter\<rparr>, \<lparr>up_handle = h, up_side = side.Policy\<rparr>))))"

definition shared_accept_tcp :: "('m, 'n, (flow_metadata \<times> packet_tcp_port) option) flow" where
  "shared_accept_tcp = (\<lambda>(s, w).
     case accept_packet_tcp (ew_stack w) of
       (Inl e, b) \<Rightarrow> Some ((s, w\<lparr>ew_stack := b\<rparr>), Inl (Flow_Stack e))
     | (Inr None, b) \<Rightarrow> Some ((s, w\<lparr>ew_stack := b\<rparr>), Inr None)
     | (Inr (Some (m, p)), b) \<Rightarrow>
         Some ((s, w\<lparr>ew_stack := b, ew_leases := Lease_PacketTcp (ptp_handle p) # ew_leases w\<rparr>), Inr (Some (m, p))))"

definition shared_accept_udp :: "('m, 'n, (flow_metadata \<times> handle) option) flow" where
  "shared_accept_udp = (\<lambda>(s, w).
     case accept_packet_udp (ew_stack w) of
       (Inl e, b) \<Rightarrow> Some ((s, w\<lparr>ew_stack := b\<rparr>), Inl (Flow_Stack e))
     | (Inr None, b) \<Rightarrow> Some ((s, w\<lparr>ew_stack := b\<rparr>), Inr None)
     | (Inr (Some (m, h)), b) \<Rightarrow>
         Some ((s, w\<lparr>ew_stack := b, ew_leases := Lease_PacketUdp h # ew_leases w\<rparr>), Inr (Some (m, h))))"

definition request_metadata :: "open_request \<Rightarrow> flow_metadata" where
  "request_metadata r = \<lparr>md_destination = req_destination r, md_port = req_port r, md_opaque = req_metadata r\<rparr>"

section \<open>Flows of the server\<close>

definition set_pending :: "(pending_server_flow \<Rightarrow> pending_server_flow) \<Rightarrow> ('m, 'n, unit) flow" where
  "set_pending f = on_session (\<lambda>s. s\<lparr>es_pending := map_option f (es_pending s)\<rparr>)"

definition get_pending :: "('m, 'n, pending_server_flow) flow" where
  "get_pending = fbind fget (\<lambda>(s, w). flift (ok_or Flow_State (es_pending s)))"

definition start_response :: "open_status \<Rightarrow> string \<Rightarrow> ('m, 'n, unit) flow" where
  "start_response status reason =
     fbind get_pending (\<lambda>pending.
     fbind (set_pending (\<lambda>p. p\<lparr>ps_accepted := (status = StatusOk)\<rparr>)) (\<lambda>_.
     fbind (flift (ok_or Flow_State (ps_stream pending))) (\<lambda>stream.
     fbind (set_pending (\<lambda>p. p\<lparr>ps_stream := None\<rparr>)) (\<lambda>_.
     fbind fget (\<lambda>(s, w).
     fbind (flift (ok_or Flow_State (es_mux s))) (\<lambda>mux.
     on_session (\<lambda>s. s\<lparr>es_mux := None,
       es_responding := Some (stream, \<lparr>resp_status = status, resp_reason = b_str reason\<rparr>, Fut_Start, mux)\<rparr>)))))))"

definition refuse :: "load_error \<Rightarrow> ('m, 'n, unit) flow" where
  "refuse error = (case open_error error of (status, reason) \<Rightarrow> start_response status reason)"

text \<open>The handles a module is given, in the order of the registrations.\<close>

definition attach_ports ::
    "'n engine_env \<Rightarrow> tunnel_binding \<Rightarrow> u64 \<Rightarrow> nat \<Rightarrow> u64 \<Rightarrow> pending_ports \<Rightarrow> u32 \<Rightarrow> ('m, 'n, u64) flow" where
  "attach_ports E b policy_session adapter adapter_flow ports stream =
     (case ports of
        Ports_Direct \<Rightarrow>
          fbind (hand_over E (tb_core_io_limit b) [Obj_Stream (Core_Mux stream)] (\<lambda>h.
            checked_call adapter (\<lambda>l. adapter_attach_flow l adapter_flow (h ! 0) (ee_byte_table E)))) (\<lambda>h. fret (h ! 0))
      | Ports_Tcp a p \<Rightarrow>
          fbind (hand_over E (tb_core_io_limit b) [Obj_Stream (Core_Tcp a), Obj_Stream (Core_Tcp p), Obj_Stream (Core_Mux stream)] (\<lambda>h.
            fbind (checked_call adapter (\<lambda>l. adapter_attach_flow l adapter_flow (h ! 0) (ee_byte_table E))) (\<lambda>_.
            checked_call (tb_policy b) (\<lambda>l.
              policy_attach_flow l policy_session (h ! 1) (ee_byte_table E) (h ! 2) (ee_byte_table E))))) (\<lambda>h. fret (h ! 2))
      | Ports_Udp a p \<Rightarrow>
          fbind (hand_over E (tb_core_io_limit b)
              [Obj_Datagram (Core_Udp a), Obj_Datagram (Core_Udp p), Obj_Datagram (Core_MuxUdp stream)] (\<lambda>h.
            fbind (checked_call adapter (\<lambda>l. adapter_attach_datagram l adapter_flow (h ! 0) (ee_datagram_table E))) (\<lambda>_.
            checked_call (tb_policy b) (\<lambda>l.
              policy_attach_datagram_flow l policy_session (h ! 1) (ee_datagram_table E) (h ! 2) (ee_datagram_table E)))))
            (\<lambda>h. fret (h ! 2)))"

definition attach_pending :: "'n engine_env \<Rightarrow> tunnel_binding \<Rightarrow> ('m, 'n, unit) flow" where
  "attach_pending E b =
     fbind get_pending (\<lambda>pending.
     fbind (on_session (\<lambda>s. s\<lparr>es_pending := None\<rparr>)) (\<lambda>_.
     case (ps_adapter_flow pending, ps_ports pending, ps_stream pending) of
       (Some (adapter, adapter_flow), Some ports, Some stream) \<Rightarrow>
         fbind fget (\<lambda>(s, w).
         fbind (attach_ports E b (es_policy_session s) adapter adapter_flow ports stream) (\<lambda>mux_handle.
         fbind (checked_call adapter (\<lambda>l. adapter_complete_flow l adapter_flow STATUS_OK [])) (\<lambda>_.
         on_session (\<lambda>s. s\<lparr>es_active := es_active s @ [\<lparr>af_adapter_flow = Some (adapter, adapter_flow), af_mux_handle = mux_handle\<rparr>]\<rparr>))))
     | _ \<Rightarrow> fbind (drop_pending_ports E (ps_ports pending)) (\<lambda>_. ferr Flow_State)))"

text \<open>The stream of a flow that is rejected is dropped: it announces its end.\<close>

definition drop_stream :: "u32 option \<Rightarrow> 'm established_session \<Rightarrow> 'm established_session" where
  "drop_stream stream s =
     (case stream of
        None \<Rightarrow> s
      | Some i \<Rightarrow> s\<lparr>es_mux := map_option (\<lambda>m. m\<lparr>se_conn := mux_stream_drop i (False, se_conn m)\<rparr>) (es_mux s)\<rparr>)"

definition reject_pending :: "'n engine_env \<Rightarrow> ('m, 'n, unit) flow" where
  "reject_pending E =
     fbind fget (\<lambda>(s, w).
     case es_pending s of
       None \<Rightarrow> fret ()
     | Some pending \<Rightarrow>
         fbind (on_session (\<lambda>s. s\<lparr>es_pending := None\<rparr>)) (\<lambda>_.
         fbind (case ps_adapter_flow pending of
                  None \<Rightarrow> fret ()
                | Some (adapter, flow) \<Rightarrow> fbind (ready_call adapter (\<lambda>l. adapter_close_flow l flow)) (\<lambda>_. fret ())) (\<lambda>_.
         fbind (on_session (\<lambda>s. s\<lparr>es_mux := map_option release_flow (es_mux s)\<rparr>)) (\<lambda>_.
         fbind (on_session (drop_stream (ps_stream pending))) (\<lambda>_.
         drop_pending_ports E (ps_ports pending))))))"

text \<open>The ports of a flow whose adapter opened it: \<open>None\<close> when the stack refuses.\<close>

definition open_ports :: "'n engine_env \<Rightarrow> tunnel_binding \<Rightarrow> open_request \<Rightarrow> ('m, 'n, pending_ports option) flow" where
  "open_ports E b request =
     (case req_kind request of
       Tcp \<Rightarrow>
         fbind (ask_module (tb_policy b) policy_passthrough_tcp) (\<lambda>passthrough.
         if passthrough then fret (Some Ports_Direct)
         else fbind (shared_open_tcp E (request_metadata request)) (\<lambda>r.
           fret (case r of Inl _ \<Rightarrow> None | Inr (a, p) \<Rightarrow> Some (Ports_Tcp a p))))
     | Udp \<Rightarrow> fbind (shared_open_udp E (request_metadata request)) (\<lambda>r.
           fret (case r of Inl _ \<Rightarrow> None | Inr (a, p) \<Rightarrow> Some (Ports_Udp a p)))
     | stream_kind.Policy \<Rightarrow> fret None)"

definition open_pending :: "'n engine_env \<Rightarrow> tunnel_binding \<Rightarrow> nat \<Rightarrow> pending_server_flow \<Rightarrow> ('m, 'n, unit) flow" where
  "open_pending E b adapter pending =
     fbind (record_call (Opening adapter (ps_operation pending) (ps_metadata pending))) (\<lambda>_.
     fbind (module_call adapter (\<lambda>l. adapter_open l (ps_operation pending) (om_abi (ps_metadata pending)))) (\<lambda>r.
     case r of
       Ready (Inr flow) \<Rightarrow>
         fbind (set_pending (\<lambda>p. p\<lparr>ps_adapter_flow := Some (adapter, flow)\<rparr>)) (\<lambda>_.
         fbind (open_ports E b (ps_request pending)) (\<lambda>ports.
         case ports of
           None \<Rightarrow> start_response ResourceLimit ''stack flow budget exhausted''
         | Some _ \<Rightarrow> fbind (set_pending (\<lambda>p. p\<lparr>ps_ports := ports\<rparr>)) (\<lambda>_. start_response StatusOk [])))
     | Ready (Inl error) \<Rightarrow>
         if error = ModuleStatus STATUS_UNSUPPORTED \<and> ps_adapter_cursor pending + 1 < length (tb_adapters b)
         then set_pending (\<lambda>p. p\<lparr>ps_adapter_cursor := ps_adapter_cursor p + 1, ps_resolved_addresses := None,
                                  ps_resolved_cursor := 0, ps_resolution_complete := False\<rparr>)
         else refuse error
     | Pending \<Rightarrow> fret ()
     | Panicked \<Rightarrow> fpanic))"

text \<open>One resolved address is put to the policy per poll; the flow goes on after the last one.\<close>

definition admit_address :: "'n engine_env \<Rightarrow> tunnel_binding \<Rightarrow> nat \<Rightarrow> ip_address list \<Rightarrow> ('m, 'n, unit) flow" where
  "admit_address E b adapter addresses =
     fbind get_pending (\<lambda>pending.
     let finish =
       fbind get_pending (\<lambda>pending.
         if length addresses \<le> ps_resolved_cursor pending
         then fbind (set_pending (\<lambda>p. p\<lparr>ps_resolution_complete := True\<rparr>)) (\<lambda>_.
              fbind get_pending (open_pending E b adapter))
         else fret ()) in
     if ps_resolved_cursor pending < length addresses then
       (let resolved = om_resolved (addresses ! ps_resolved_cursor pending) (ps_metadata pending) in
        fbind fget (\<lambda>(s, w).
        fbind (module_call (tb_policy b) (\<lambda>l. policy_admit_resolved l (es_policy_session s) (om_abi resolved))) (\<lambda>r.
        case r of
          Ready (Inr _) \<Rightarrow>
            fbind (record_call (AdmittedAddress resolved)) (\<lambda>_.
            fbind (set_pending (\<lambda>p. p\<lparr>ps_resolved_cursor := ps_resolved_cursor p + 1\<rparr>)) (\<lambda>_. finish))
        | Ready (Inl error) \<Rightarrow> refuse error
        | Pending \<Rightarrow> fret ()
        | Panicked \<Rightarrow> fpanic)))
     else finish)"

definition resolve_pending :: "'n engine_env \<Rightarrow> tunnel_binding \<Rightarrow> nat \<Rightarrow> pending_server_flow \<Rightarrow> ('m, 'n, unit) flow" where
  "resolve_pending E b adapter pending =
     (if ps_resolution_complete pending then open_pending E b adapter pending
      else case ps_resolved_addresses pending of
        Some addresses \<Rightarrow> admit_address E b adapter addresses
      | None \<Rightarrow>
          fbind (module_call adapter (\<lambda>l. adapter_resolve l (ps_operation pending) (om_abi (ps_metadata pending)))) (\<lambda>r.
          case r of
            Ready (Inr (Some addresses)) \<Rightarrow>
              fbind (record_call (Resolved adapter (ps_operation pending) (ps_metadata pending) addresses)) (\<lambda>_.
              fbind (set_pending (\<lambda>p. p\<lparr>ps_resolved_addresses := Some addresses\<rparr>)) (\<lambda>_. admit_address E b adapter addresses))
          | Ready (Inr None) \<Rightarrow>
              fbind (set_pending (\<lambda>p. p\<lparr>ps_resolution_complete := True\<rparr>)) (\<lambda>_. fbind get_pending (open_pending E b adapter))
          | Ready (Inl error) \<Rightarrow> refuse error
          | Pending \<Rightarrow> fret ()
          | Panicked \<Rightarrow> fpanic))"

definition route_pending :: "'n engine_env \<Rightarrow> tunnel_binding \<Rightarrow> ('m, 'n, unit) flow" where
  "route_pending E b =
     fbind get_pending (\<lambda>pending.
     if length (tb_adapters b) \<le> ps_adapter_cursor pending
     then start_response Unsupported ''no adapter accepted the flow''
     else resolve_pending E b (tb_adapters b ! ps_adapter_cursor pending) pending)"

definition poll_pending :: "'n engine_env \<Rightarrow> tunnel_binding \<Rightarrow> ('m, 'n, unit) flow" where
  "poll_pending E b =
     fbind get_pending (\<lambda>pending.
     if ps_response_sent pending then attach_pending E b
     else if ps_admitted pending then route_pending E b
     else
       fbind fget (\<lambda>(s, w).
       fbind (module_call (tb_policy b) (\<lambda>l. policy_admit_flow l (es_policy_session s) (om_abi (ps_metadata pending)))) (\<lambda>r.
       case r of
         Ready (Inr _) \<Rightarrow>
           fbind (record_call (Admitted (ps_metadata pending))) (\<lambda>_.
           fbind (set_pending (\<lambda>p. p\<lparr>ps_admitted := True\<rparr>)) (\<lambda>_. route_pending E b))
       | Ready (Inl error) \<Rightarrow> refuse error
       | Pending \<Rightarrow> fret ()
       | Panicked \<Rightarrow> fpanic)))"

definition take_operation :: "('m, 'n, u64) flow" where
  "take_operation = (\<lambda>(s, w). case next_operation (ew_operation w) of (c, r) \<Rightarrow>
     Some ((s, w\<lparr>ew_operation := c\<rparr>), ok_or Flow_Operation r))"

definition new_pending :: "open_request \<Rightarrow> u32 \<Rightarrow> u64 \<Rightarrow> pending_server_flow" where
  "new_pending request stream operation =
     \<lparr>ps_request = request, ps_metadata = from_request request, ps_stream = Some stream, ps_operation = operation,
      ps_admitted = False, ps_adapter_cursor = 0, ps_resolved_addresses = None, ps_resolved_cursor = 0,
      ps_resolution_complete = False, ps_adapter_flow = None, ps_ports = None, ps_response_sent = False, ps_accepted = False\<rparr>"

definition poll_accepting :: "'n engine_env \<Rightarrow> tunnel_binding \<Rightarrow> ('m, 'n, unit) flow" where
  "poll_accepting E b =
     fbind fget (\<lambda>(s, w).
     case es_accepting s of
       Some (future, mux) \<Rightarrow>
         (case accept_flow module_transport future mux of (future, mux, r) \<Rightarrow>
            (case r of
               Ready (Inr (request, stream)) \<Rightarrow>
                 fbind (on_session (\<lambda>s. s\<lparr>es_accepting := None, es_mux := Some mux\<rparr>)) (\<lambda>_.
                 fbind take_operation (\<lambda>operation.
                 fbind (on_session (\<lambda>s. s\<lparr>es_pending := Some (new_pending request stream operation)\<rparr>)) (\<lambda>_.
                 poll_pending E b)))
             | Ready (Inl error) \<Rightarrow>
                 fbind (on_session (\<lambda>s. s\<lparr>es_accepting := None, es_mux := Some mux\<rparr>)) (\<lambda>_. ferr (Flow_Mux error))
             | Pending \<Rightarrow> on_session (\<lambda>s. s\<lparr>es_accepting := Some (future, mux)\<rparr>)
             | Panicked \<Rightarrow> fpanic))
     | None \<Rightarrow>
         fbind (flift (ok_or Flow_State (es_mux s))) (\<lambda>mux.
         on_session (\<lambda>s. s\<lparr>es_mux := None, es_accepting := Some (Fut_Start, mux)\<rparr>)))"

definition poll_flows :: "'n engine_env \<Rightarrow> tunnel_binding \<Rightarrow> ('m, 'n, unit) flow" where
  "poll_flows E b =
     fbind fget (\<lambda>(s, w). if es_pending s \<noteq> None then poll_pending E b else poll_accepting E b)"

definition poll_server :: "'n engine_env \<Rightarrow> tunnel_binding \<Rightarrow> ('m, 'n, unit) flow" where
  "poll_server E b =
     fbind fget (\<lambda>(s, w).
     case es_responding s of
       None \<Rightarrow> poll_flows E b
     | Some (stream, response, future, mux) \<Rightarrow>
         (case respond_flow module_transport stream response future mux of (future, mux, r) \<Rightarrow>
            (case r of
               Ready x \<Rightarrow>
                 fbind (on_session (\<lambda>s. s\<lparr>es_responding := None, es_mux := Some mux\<rparr>)) (\<lambda>_.
                 fbind (flift (map_err Flow_Mux x)) (\<lambda>_.
                 fbind get_pending (\<lambda>pending.
                 fbind (set_pending (\<lambda>p. p\<lparr>ps_stream := Some stream, ps_response_sent := True\<rparr>)) (\<lambda>_.
                 if \<not> ps_accepted pending then reject_pending E else poll_flows E b))))
             | Pending \<Rightarrow> on_session (\<lambda>s. s\<lparr>es_responding := Some (stream, response, future, mux)\<rparr>)
             | Panicked \<Rightarrow> fpanic)))"

section \<open>Flows of the client\<close>

definition swap_remove :: "nat \<Rightarrow> 'a list \<Rightarrow> 'a list" where
  "swap_remove i xs = (if Suc i = length xs then butlast xs else (butlast xs)[i := last xs])"

text \<open>The openings are polled in order up to the first that is ready; \<open>None\<close> when one panics.\<close>

fun poll_openings ::
    "(session_future \<times> pending_client_flow) list \<Rightarrow> 'm mux
       \<Rightarrow> ((session_future \<times> pending_client_flow) list \<times> 'm mux \<times> (nat \<times> (mux_error + open_response \<times> u32)) option) option" where
  "poll_openings [] mux = Some ([], mux, None)"
| "poll_openings ((future, pending) # rest) mux =
     (case poll_opening module_transport future mux of (future, mux, r) \<Rightarrow>
        (case r of
           Ready x \<Rightarrow> Some ((future, pending) # rest, mux, Some (0, x))
         | Pending \<Rightarrow>
             map_option (\<lambda>(rest, mux, done). ((future, pending) # rest, mux, map_option (\<lambda>(i, x). (Suc i, x)) done))
               (poll_openings rest mux)
         | Panicked \<Rightarrow> None))"

text \<open>A pair of objects given to the policy: the port of the stack and the stream of the multiplexer.\<close>

definition attach_policy_stream :: "'n engine_env \<Rightarrow> tunnel_binding \<Rightarrow> u64 \<Rightarrow> core_stream \<Rightarrow> u32 \<Rightarrow> ('m, 'n, u64) flow" where
  "attach_policy_stream E b policy_session port stream =
     fbind (hand_over E (tb_core_io_limit b) [Obj_Stream port, Obj_Stream (Core_Mux stream)] (\<lambda>h.
       checked_call (tb_policy b) (\<lambda>l.
         policy_attach_flow l policy_session (h ! 0) (ee_byte_table E) (h ! 1) (ee_byte_table E)))) (\<lambda>h. fret (h ! 1))"

definition attach_policy_datagram :: "'n engine_env \<Rightarrow> tunnel_binding \<Rightarrow> u64 \<Rightarrow> core_datagram \<Rightarrow> u32 \<Rightarrow> ('m, 'n, u64) flow" where
  "attach_policy_datagram E b policy_session port stream =
     fbind (hand_over E (tb_core_io_limit b) [Obj_Datagram port, Obj_Datagram (Core_MuxUdp stream)] (\<lambda>h.
       checked_call (tb_policy b) (\<lambda>l.
         policy_attach_datagram_flow l policy_session (h ! 0) (ee_datagram_table E) (h ! 1) (ee_datagram_table E)))) (\<lambda>h. fret (h ! 1))"

definition attach_client ::
    "'n engine_env \<Rightarrow> tunnel_binding \<Rightarrow> u64 \<Rightarrow> pending_client_flow \<Rightarrow> client_policy_port \<Rightarrow> u32 \<Rightarrow> ('m, 'n, u64) flow" where
  "attach_client E b policy_session pending port stream =
     (case port of
        Port_Tcp p \<Rightarrow> attach_policy_stream E b policy_session (Core_Tcp p) stream
      | Port_Direct \<Rightarrow>
          (case pc_adapter_flow pending of
             None \<Rightarrow> ferr Flow_State
           | Some (adapter, adapter_flow) \<Rightarrow>
               fbind (hand_over E (tb_core_io_limit b) [Obj_Stream (Core_Mux stream)] (\<lambda>h.
                 checked_call adapter (\<lambda>l. adapter_attach_flow l adapter_flow (h ! 0) (ee_byte_table E)))) (\<lambda>h. fret (h ! 0)))
      | Port_PacketTcp p \<Rightarrow> attach_policy_stream E b policy_session (Core_PacketTcp p) stream
      | Port_Udp p \<Rightarrow> attach_policy_datagram E b policy_session (Core_Udp p) stream
      | Port_PacketUdp p \<Rightarrow> attach_policy_datagram E b policy_session (Core_PacketUdp p) stream)"

definition complete_adapter :: "(nat \<times> u64) option \<Rightarrow> u32 \<Rightarrow> bytes \<Rightarrow> ('m, 'n, unit) flow" where
  "complete_adapter adapter_flow status reason =
     (case adapter_flow of
        None \<Rightarrow> fret ()
      | Some (adapter, flow) \<Rightarrow> checked_call adapter (\<lambda>l. adapter_complete_flow l flow status reason))"

definition finish_opening ::
    "'n engine_env \<Rightarrow> tunnel_binding \<Rightarrow> pending_client_flow \<Rightarrow> mux_error + open_response \<times> u32 \<Rightarrow> ('m, 'n, unit) flow" where
  "finish_opening E b pending result =
     (case result of
        Inr (response, stream) \<Rightarrow>
          if resp_status response = StatusOk then
            (case pc_policy_port pending of
               None \<Rightarrow> ferr Flow_State
             | Some port \<Rightarrow>
                 fbind fget (\<lambda>(s, w).
                 fbind (attach_client E b (es_policy_session s) pending port stream) (\<lambda>mux_handle.
                 fbind (complete_adapter (pc_adapter_flow pending) STATUS_OK []) (\<lambda>_.
                 on_session (\<lambda>s. s\<lparr>es_active := es_active s
                   @ [\<lparr>af_adapter_flow = pc_adapter_flow pending, af_mux_handle = mux_handle\<rparr>]\<rparr>)))))
          else
            fbind (fcleanup (complete_adapter (pc_adapter_flow pending) (abi_status (resp_status response)) (resp_reason response))
                     (drop_policy_port E (pc_policy_port pending))) (\<lambda>_.
            fbind (on_session (\<lambda>s. s\<lparr>es_mux := map_option release_flow (es_mux s)\<rparr>)) (\<lambda>_.
            fbind (on_session (drop_stream (Some stream))) (\<lambda>_.
            drop_policy_port E (pc_policy_port pending))))
      | Inl error \<Rightarrow>
          fbind (case pc_adapter_flow pending of
                   None \<Rightarrow> fret ()
                 | Some (adapter, flow) \<Rightarrow>
                     fbind (ready_call adapter (\<lambda>l. adapter_complete_flow l flow STATUS_IO (b_str ''tunnel stream failed''))) (\<lambda>_. fret ())) (\<lambda>_.
          fbind (drop_policy_port E (pc_policy_port pending)) (\<lambda>_. ferr (Flow_Mux error))))"

fun any_packet_port :: "nat list \<Rightarrow> ('m, 'n, bool) flow" where
  "any_packet_port [] = fret False"
| "any_packet_port (a # as) = fbind (ask_module a supports_packet_port) (\<lambda>yes. if yes then fret True else any_packet_port as)"

definition new_client_pending ::
    "open_request \<Rightarrow> (nat \<times> u64) option \<Rightarrow> client_policy_port option \<Rightarrow> pending_client_flow" where
  "new_client_pending request adapter_flow port =
     \<lparr>pc_request = request, pc_metadata = from_request request, pc_adapter_flow = adapter_flow, pc_admitted = False,
      pc_policy_port = port\<rparr>"

definition packet_request :: "stream_kind \<Rightarrow> flow_metadata \<Rightarrow> open_request" where
  "packet_request kind m = \<lparr>req_kind = kind, req_destination = md_destination m, req_port = md_port m, req_metadata = md_opaque m\<rparr>"

text \<open>The next flow of the client is a TCP or UDP flow of the packet port, or one an adapter announces.\<close>

definition accept_packets ::
    "tunnel_binding \<Rightarrow> stream_kind \<Rightarrow> ('m, 'n, (flow_metadata \<times> 'p) option) flow \<Rightarrow> ('p \<Rightarrow> client_policy_port) \<Rightarrow> ('m, 'n, unit) flow" where
  "accept_packets b kind accept port =
     fbind fget (\<lambda>(s, w).
     if es_client_pending s \<noteq> None then fret ()
     else
       fbind (any_packet_port (tb_adapters b)) (\<lambda>supported.
       if \<not> supported then fret ()
       else
         fbind accept (\<lambda>r.
         case r of
           None \<Rightarrow> fret ()
         | Some (metadata, p) \<Rightarrow>
             on_session (\<lambda>s. s\<lparr>es_client_pending := Some (new_client_pending (packet_request kind metadata) None (Some (port p)))\<rparr>))))"

fun accept_adapters :: "nat list \<Rightarrow> ('m, 'n, unit) flow" where
  "accept_adapters [] = fret ()"
| "accept_adapters (a # as) =
     fbind (module_call a adapter_accept) (\<lambda>r.
     case r of
       Ready (Inr (adapter_flow, request)) \<Rightarrow>
         on_session (\<lambda>s. s\<lparr>es_client_pending := Some (new_client_pending request (Some (a, adapter_flow)) None)\<rparr>)
     | Ready (Inl error) \<Rightarrow> if error = ModuleStatus STATUS_UNSUPPORTED then accept_adapters as else ferr (Flow_Module error)
     | Pending \<Rightarrow> accept_adapters as
     | Panicked \<Rightarrow> fpanic)"

text \<open>The port of the policy for a flow of an adapter, whose own port is handed to the adapter.\<close>

definition open_policy_port :: "'n engine_env \<Rightarrow> tunnel_binding \<Rightarrow> pending_client_flow \<Rightarrow> ('m, 'n, client_policy_port) flow" where
  "open_policy_port E b pending =
     (case pc_adapter_flow pending of
        None \<Rightarrow> ferr Flow_State
      | Some (adapter, adapter_flow) \<Rightarrow>
          (case req_kind (pc_request pending) of
             Tcp \<Rightarrow>
               fbind (ask_module (tb_policy b) policy_passthrough_tcp) (\<lambda>passthrough.
               if passthrough then fret Port_Direct
               else
                 fbind (shared_open_tcp E (request_metadata (pc_request pending))) (\<lambda>r.
                 fbind (flift (map_err Flow_Stack r)) (\<lambda>(a, p).
                 fbind (fcleanup (hand_over E (tb_core_io_limit b) [Obj_Stream (Core_Tcp a)] (\<lambda>h.
                          checked_call adapter (\<lambda>l. adapter_attach_flow l adapter_flow (h ! 0) (ee_byte_table E))))
                          (drop_object E (Obj_Stream (Core_Tcp p)))) (\<lambda>_.
                 fret (Port_Tcp p)))))
           | Udp \<Rightarrow>
               fbind (shared_open_udp E (request_metadata (pc_request pending))) (\<lambda>r.
               fbind (flift (map_err Flow_Stack r)) (\<lambda>(a, p).
               fbind (fcleanup (hand_over E (tb_core_io_limit b) [Obj_Datagram (Core_Udp a)] (\<lambda>h.
                        checked_call adapter (\<lambda>l. adapter_attach_datagram l adapter_flow (h ! 0) (ee_datagram_table E))))
                        (drop_object E (Obj_Datagram (Core_Udp p)))) (\<lambda>_.
               fret (Port_Udp p))))
           | stream_kind.Policy \<Rightarrow> ferr Flow_State))"

definition get_client_pending :: "('m, 'n, pending_client_flow) flow" where
  "get_client_pending = fbind fget (\<lambda>(s, w). flift (ok_or Flow_State (es_client_pending s)))"

definition set_client_pending :: "(pending_client_flow \<Rightarrow> pending_client_flow) \<Rightarrow> ('m, 'n, unit) flow" where
  "set_client_pending f = on_session (\<lambda>s. s\<lparr>es_client_pending := map_option f (es_client_pending s)\<rparr>)"

definition send_open :: "'n engine_env \<Rightarrow> ('m, 'n, unit) flow" where
  "send_open E =
     fbind get_client_pending (\<lambda>pending.
     fbind (on_session (\<lambda>s. s\<lparr>es_client_pending := None\<rparr>)) (\<lambda>_.
     fbind fget (\<lambda>(s, w).
     fcleanup
       (fbind (flift (ok_or Flow_State (es_mux s))) (\<lambda>mux.
        case begin_open_flow_confirmed (pc_request pending) mux of (mux, r) \<Rightarrow>
          fbind (on_session (\<lambda>s. s\<lparr>es_mux := Some mux\<rparr>)) (\<lambda>_.
          fbind (flift (map_err Flow_Mux r)) (\<lambda>future.
          fbind (record_call (Sending (pc_request pending))) (\<lambda>_.
          on_session (\<lambda>s. s\<lparr>es_openings := es_openings s @ [(future, pending)]\<rparr>))))))
       (drop_policy_port E (pc_policy_port pending)))))"

definition prepare_client :: "'n engine_env \<Rightarrow> tunnel_binding \<Rightarrow> ('m, 'n, unit) flow" where
  "prepare_client E b =
     fbind get_client_pending (\<lambda>pending.
     if pc_policy_port pending = None then
       fbind (open_policy_port E b pending) (\<lambda>port.
       fbind (set_client_pending (\<lambda>p. p\<lparr>pc_policy_port := Some port\<rparr>)) (\<lambda>_. send_open E))
     else send_open E)"

definition admit_client :: "'n engine_env \<Rightarrow> tunnel_binding \<Rightarrow> ('m, 'n, unit) flow" where
  "admit_client E b =
     fbind get_client_pending (\<lambda>pending.
     if pc_admitted pending then prepare_client E b
     else
       fbind fget (\<lambda>(s, w).
       fbind (module_call (tb_policy b) (\<lambda>l. policy_admit_flow l (es_policy_session s) (om_abi (pc_metadata pending)))) (\<lambda>r.
       case r of
         Ready (Inr _) \<Rightarrow>
           fbind (record_call (Admitted (pc_metadata pending))) (\<lambda>_.
           fbind (set_client_pending (\<lambda>p. p\<lparr>pc_admitted := True\<rparr>)) (\<lambda>_. prepare_client E b))
       | Ready (Inl error) \<Rightarrow>
           (case open_error error of (status, reason) \<Rightarrow>
              fbind (complete_adapter (pc_adapter_flow pending) (abi_status status) (b_str reason)) (\<lambda>_.
              fbind (on_session (\<lambda>s. s\<lparr>es_client_pending := None\<rparr>)) (\<lambda>_.
              drop_policy_port E (pc_policy_port pending))))
       | Pending \<Rightarrow> fret ()
       | Panicked \<Rightarrow> fpanic)))"

definition drive_idle :: "('m, 'n, unit) flow" where
  "drive_idle =
     fbind fget (\<lambda>(s, w).
     case es_mux s of
       None \<Rightarrow> fret ()
     | Some mux \<Rightarrow>
         (case session_poll_drive module_transport mux of (mux, r) \<Rightarrow>
            fbind (on_session (\<lambda>s. s\<lparr>es_mux := Some mux\<rparr>)) (\<lambda>_.
            case r of Ready (Inl error) \<Rightarrow> ferr (Flow_Mux error) | Panicked \<Rightarrow> fpanic | _ \<Rightarrow> fret ())))"

definition next_client :: "'n engine_env \<Rightarrow> tunnel_binding \<Rightarrow> ('m, 'n, unit) flow" where
  "next_client E b =
     fbind (accept_packets b Tcp shared_accept_tcp Port_PacketTcp) (\<lambda>_.
     fbind (accept_packets b Udp shared_accept_udp Port_PacketUdp) (\<lambda>_.
     fbind fget (\<lambda>(s, w).
     fbind (if es_client_pending s = None then accept_adapters (tb_adapters b) else fret ()) (\<lambda>_.
     fbind fget (\<lambda>(s, w).
     if es_client_pending s = None then drive_idle else admit_client E b)))))"

text \<open>
  The client keeps its multiplexer, so that the openings, which hold a stream of it each, find their
  connection there.
\<close>

definition poll_client :: "'n engine_env \<Rightarrow> tunnel_binding \<Rightarrow> ('m, 'n, unit) flow" where
  "poll_client E b =
     fbind fget (\<lambda>(s, w).
     case es_mux s of
       None \<Rightarrow> ferr Flow_State
     | Some mux \<Rightarrow>
         (case poll_openings (es_openings s) mux of
            None \<Rightarrow> fpanic
          | Some (openings, mux, completed) \<Rightarrow>
              fbind (on_session (\<lambda>s. s\<lparr>es_openings := openings, es_mux := Some mux\<rparr>)) (\<lambda>_.
              case completed of
                None \<Rightarrow> next_client E b
              | Some (index, result) \<Rightarrow>
                  fbind (on_session (\<lambda>s. s\<lparr>es_openings := swap_remove index (es_openings s)\<rparr>)) (\<lambda>_.
                  finish_opening E b (snd (openings ! index)) result))))"

section \<open>One poll of the session\<close>

fun close_flows :: "(nat \<times> u64) list \<Rightarrow> ('m, 'n, unit) flow" where
  "close_flows [] = fret ()"
| "close_flows ((adapter, flow) # rest) =
     fbind (ready_call adapter (\<lambda>l. adapter_close_flow l flow)) (\<lambda>_.
     fbind (on_session (\<lambda>s. s\<lparr>es_mux := map_option release_flow (es_mux s)\<rparr>)) (\<lambda>_. close_flows rest))"

definition reap_closed :: "('m, 'n, unit) flow" where
  "reap_closed =
     fbind fget (\<lambda>(s, w).
     let live = (\<lambda>f. is_registered (af_mux_handle f) (ew_registry w));
         closed = List.map_filter af_adapter_flow (filter (\<lambda>f. \<not> live f) (es_active s)) in
     fbind (on_session (\<lambda>s. s\<lparr>es_active := filter live (es_active s)\<rparr>)) (\<lambda>_.
     if es_mux s = None then fret () else close_flows closed))"

definition session_poll :: "'n engine_env \<Rightarrow> tunnel_binding \<Rightarrow> ('m, 'n, unit) flow" where
  "session_poll E b = fbind reap_closed (\<lambda>_. if tb_role b = Client then poll_client E b else poll_server E b)"

definition session_is_idle :: "role \<Rightarrow> 'm established_session \<Rightarrow> bool" where
  "session_is_idle role s \<longleftrightarrow>
     es_active s = []
     \<and> (case role of
          Client \<Rightarrow> es_openings s = [] \<and> es_client_pending s = None
        | Server \<Rightarrow> es_responding s = None \<and> es_pending s = None)"

end
