(* ===== verification/Flow_Policy.thy ===== *)
theory Flow_Policy
  imports Flow_Session
begin

text \<open>
  The policy decides first: no flow of a session reaches an adapter or the tunnel unless the policy
  admitted it, and no resolved address is used before the policy admitted every address. The proofs go
  over the part of the state that matters, with a rule for every way in which steps are composed.
\<close>

section \<open>What the record of a session must satisfy\<close>

fun allowed :: "flow_call list \<Rightarrow> flow_call \<Rightarrow> bool" where
  "allowed before (Opening adapter operation m) \<longleftrightarrow>
     Admitted m \<in> set before
     \<and> (\<forall>a addresses. Resolved a operation m addresses \<in> set before \<longrightarrow>
          (\<forall>x \<in> set addresses. AdmittedAddress (om_resolved x m) \<in> set before))"
| "allowed before (Sending request) \<longleftrightarrow> Admitted (from_request request) \<in> set before"
| "allowed before _ \<longleftrightarrow> True"

definition log_ok :: "flow_call list \<Rightarrow> bool" where
  "log_ok calls \<longleftrightarrow> (\<forall>i < length calls. allowed (take i calls) (calls ! i))"

lemma log_ok_Nil [simp]: "log_ok []"
  by (simp add: log_ok_def)

lemma log_ok_snoc [simp]: "log_ok (calls @ [c]) \<longleftrightarrow> log_ok calls \<and> allowed calls c"
  by (auto simp: log_ok_def nth_append less_Suc_eq)

section \<open>Rules\<close>

type_synonym flow_core = "flow_call list \<times> pending_server_flow option \<times> pending_client_flow option \<times> u64"

definition core :: "('m, 'n) flow_state \<Rightarrow> flow_core" where
  "core st = (es_calls (fst st), es_pending (fst st), es_client_pending (fst st), ew_operation (snd st))"

definition valid :: "(flow_core \<Rightarrow> bool) \<Rightarrow> ('m, 'n, 'a) flow \<Rightarrow> ('a \<Rightarrow> flow_core \<Rightarrow> bool) \<Rightarrow> bool" where
  "valid P p Q \<longleftrightarrow>
     (\<forall>s s' r. P (core s) \<longrightarrow> p s = Some (s', r) \<longrightarrow> (case r of Inr a \<Rightarrow> Q a (core s') | Inl _ \<Rightarrow> log_ok (fst (core s'))))"

definition frames :: "('m, 'n, 'a) flow \<Rightarrow> bool" where
  "frames p \<longleftrightarrow> (\<forall>s s' r. p s = Some (s', r) \<longrightarrow> core s' = core s)"

lemma validI:
  assumes "\<And>s s' r. P (core s) \<Longrightarrow> p s = Some (s', r) \<Longrightarrow> (case r of Inr a \<Rightarrow> Q a (core s') | Inl _ \<Rightarrow> log_ok (fst (core s')))"
  shows "valid P p Q"
  unfolding valid_def using assms by blast

lemma validD:
  assumes "valid P p Q" and "P (core s)" and "p s = Some (s', r)"
  shows "case r of Inr a \<Rightarrow> Q a (core s') | Inl _ \<Rightarrow> log_ok (fst (core s'))"
  using assms unfolding valid_def by blast

lemma valid_bind:
  assumes "valid P p Q" and "\<And>a. valid (Q a) (k a) R"
  shows "valid P (fbind p k) R"
proof (rule validI)
  fix s s' r assume p: "P (core s)" and b: "fbind p k s = Some (s', r)"
  obtain s1 x where x: "p s = Some (s1, x)" using b by (auto simp: fbind_def split: option.splits)
  note h = validD [OF assms(1) p x]
  show "case r of Inr a \<Rightarrow> R a (core s') | Inl _ \<Rightarrow> log_ok (fst (core s'))"
  proof (cases x)
    case (Inl e)
    then show ?thesis using b x h by (auto simp: fbind_def)
  next
    case (Inr a)
    then have "k a s1 = Some (s', r)" "Q a (core s1)" using b x h by (auto simp: fbind_def)
    then show ?thesis using validD [OF assms(2)] by blast
  qed
qed

lemma valid_pre: "valid P p Q \<Longrightarrow> (\<And>c. P' c \<Longrightarrow> P c) \<Longrightarrow> valid P' p Q"
  unfolding valid_def by blast

lemma valid_frame:
  assumes "frames p" and "\<And>c. P c \<Longrightarrow> log_ok (fst c)"
  shows "valid P p (\<lambda>_. P)"
proof (rule validI)
  fix s s' r assume a: "P (core s)" "p s = Some (s', r)"
  have "core s' = core s" using assms(1) a(2) unfolding frames_def by blast
  moreover have "log_ok (fst (core s))" using assms(2) a(1) .
  ultimately show "case r of Inr a \<Rightarrow> P (core s') | Inl _ \<Rightarrow> log_ok (fst (core s'))"
    using a(1) by (cases r) simp_all
qed

lemma valid_fret: "(\<And>c. P c \<Longrightarrow> Q a c) \<Longrightarrow> valid P (fret a) Q"
  by (auto simp: valid_def fret_def)

lemma valid_ferr: "(\<And>c. P c \<Longrightarrow> log_ok (fst c)) \<Longrightarrow> valid P (ferr e) Q"
  by (auto simp: valid_def ferr_def)

lemma valid_fpanic: "valid P fpanic Q"
  by (auto simp: valid_def fpanic_def)

lemma valid_flift: "(\<And>c. P c \<Longrightarrow> log_ok (fst c)) \<Longrightarrow> valid P (flift r) (\<lambda>_. P)"
  by (auto simp: valid_def flift_def split: sum.splits)

text \<open>Reading the state gives a state whose relevant part is the present one.\<close>

lemma valid_fget:
  assumes "\<And>s w. valid (\<lambda>c. P c \<and> c = core (s, w)) (k (s, w)) Q"
  shows "valid P (fbind fget k) Q"
  unfolding valid_def
proof (intro allI impI)
  fix st st' :: "('a, 'b) flow_state" and r
  assume p: "P (core st)" and k: "fbind fget k st = Some (st', r)"
  obtain s w where st: "st = (s, w)" by fastforce
  from k have "k (s, w) st = Some (st', r)" by (simp add: fbind_def fget_def st)
  from validD [OF assms _ this] p st
  show "case r of Inr a \<Rightarrow> Q a (core st') | Inl _ \<Rightarrow> log_ok (fst (core st'))" by simp
qed

lemma valid_on_session:
  fixes f :: "'m established_session \<Rightarrow> 'm established_session"
  assumes "\<And>s (w :: ('m, 'n) engine_world). P (core (s, w)) \<Longrightarrow> Q () (core (f s, w))"
  shows "valid P (on_session f :: ('m, 'n, unit) flow) Q"
  using assms by (auto simp: valid_def on_session_def)

lemma valid_record: "(\<And>l p q n. P (l, p, q, n) \<Longrightarrow> Q () (l @ [c], p, q, n)) \<Longrightarrow> valid P (record_call c) Q"
  unfolding record_call_def by (rule valid_on_session) (simp add: core_def)

lemma valid_set_pending: "(\<And>l p q n. P (l, p, q, n) \<Longrightarrow> Q () (l, map_option f p, q, n)) \<Longrightarrow> valid P (set_pending f) Q"
  unfolding set_pending_def by (rule valid_on_session) (simp add: core_def)

lemma valid_set_client: "(\<And>l p q n. P (l, p, q, n) \<Longrightarrow> Q () (l, p, map_option f q, n)) \<Longrightarrow> valid P (set_client_pending f) Q"
  unfolding set_client_pending_def by (rule valid_on_session) (simp add: core_def)

lemma valid_get_pending:
  assumes "\<And>c. P c \<Longrightarrow> log_ok (fst c)" and "\<And>x. valid (\<lambda>c. P c \<and> fst (snd c) = Some x) (k x) Q"
  shows "valid P (fbind get_pending k) Q"
proof -
  have "valid P get_pending (\<lambda>x c. P c \<and> fst (snd c) = Some x)"
    using assms(1)
    by (auto simp: valid_def get_pending_def fbind_def fget_def flift_def ok_or_def core_def split: sum.splits prod.splits option.splits)
  then show ?thesis using assms(2) by (rule valid_bind)
qed

lemma valid_get_client:
  assumes "\<And>c. P c \<Longrightarrow> log_ok (fst c)" and "\<And>x. valid (\<lambda>c. P c \<and> fst (snd (snd c)) = Some x) (k x) Q"
  shows "valid P (fbind get_client_pending k) Q"
proof -
  have "valid P get_client_pending (\<lambda>x c. P c \<and> fst (snd (snd c)) = Some x)"
    using assms(1)
    by (auto simp: valid_def get_client_pending_def fbind_def fget_def flift_def ok_or_def core_def split: sum.splits prod.splits option.splits)
  then show ?thesis using assms(2) by (rule valid_bind)
qed

lemma valid_if: "(c \<Longrightarrow> valid P p Q) \<Longrightarrow> (\<not> c \<Longrightarrow> valid P q Q) \<Longrightarrow> valid P (if c then p else q) Q"
  by simp

lemma valid_cleanup:
  assumes "valid P p Q" and "frames c"
  shows "valid P (fcleanup p c) Q"
proof (rule validI)
  fix s s' r assume p: "P (core s)" and f: "fcleanup p c s = Some (s', r)"
  obtain s1 x where x: "p s = Some (s1, x)" using f by (auto simp: fcleanup_def split: option.splits)
  note h = validD [OF assms(1) p x]
  show "case r of Inr a \<Rightarrow> Q a (core s') | Inl _ \<Rightarrow> log_ok (fst (core s'))"
  proof (cases x)
    case (Inl e)
    then obtain y where "c s1 = Some (s', y)" "r = Inl e" using f x by (auto simp: fcleanup_def split: option.splits)
    then show ?thesis using assms(2) h Inl unfolding frames_def by fastforce
  qed (use f x h in \<open>auto simp: fcleanup_def\<close>)
qed

text \<open>The answer of a module decides how to go on.\<close>

lemma valid_answer:
  assumes "\<And>a. valid P (A a) Q" and "\<And>e. valid P (B e) Q" and "valid P C Q"
  shows "valid P (case r of Ready (Inr a) \<Rightarrow> A a | Ready (Inl e) \<Rightarrow> B e | Pending \<Rightarrow> C | Panicked \<Rightarrow> fpanic) Q"
  using assms by (auto simp: valid_fpanic split: poll.split sum.split)

section \<open>Steps that leave the record alone\<close>

named_theorems frame_rules \<open>steps that leave the record of a session, its pending flows and the counter alone\<close>

lemma frames_basic [frame_rules]:
  "frames (fret a)" "frames (ferr e)" "frames fpanic" "frames (flift r)" "frames fget"
  by (auto simp: frames_def fret_def ferr_def fpanic_def flift_def fget_def)

lemma frames_bind [frame_rules]: "frames p \<Longrightarrow> (\<And>a. frames (k a)) \<Longrightarrow> frames (fbind p k)"
  unfolding frames_def fbind_def by (fastforce split: option.splits prod.splits sum.splits)

lemma frames_cleanup [frame_rules]: "frames p \<Longrightarrow> frames c \<Longrightarrow> frames (fcleanup p c)"
  unfolding frames_def fcleanup_def by (fastforce split: option.splits prod.splits sum.splits)

lemma frames_if [frame_rules]: "frames p \<Longrightarrow> frames q \<Longrightarrow> frames (if c then p else q)"
  by simp

lemma frames_on_session [frame_rules]:
  "(\<And>s. es_calls (f s) = es_calls s \<and> es_pending (f s) = es_pending s \<and> es_client_pending (f s) = es_client_pending s)
     \<Longrightarrow> frames (on_session f)"
  by (auto simp: frames_def on_session_def core_def)

lemma frames_on_world [frame_rules]: "(\<And>w. ew_operation (f w) = ew_operation w) \<Longrightarrow> frames (on_world f)"
  by (auto simp: frames_def on_world_def core_def)

lemma frames_module_call [frame_rules]: "frames (module_call i f)"
  by (auto simp: frames_def module_call_def core_def split: if_splits prod.splits)

lemma frames_ready_call [frame_rules]: "frames (ready_call i f)"
  unfolding ready_call_def by (rule frames_bind) (auto intro: frame_rules split: poll.split)

lemma frames_calls [frame_rules]: "frames (checked_call i g)" "frames (ask_module i h)"
  unfolding checked_call_def ask_module_def by (intro frame_rules)+

lemma frames_drop_lease [frame_rules]: "frames (drop_lease E l)"
  by (auto simp: frames_def drop_lease_def core_def Let_def split: if_splits option.splits)

lemma frames_drop_object [frame_rules]: "frames (drop_object E obj)"
  unfolding drop_object_def by (auto intro: frame_rules split: option.split)

lemma frames_drop_objects [frame_rules]: "frames (drop_objects E objs)"
  by (induction objs) (auto intro!: frame_rules)

lemma frames_register_object [frame_rules]: "frames (register_object E limit obj)"
  by (auto simp: frames_def register_object_def core_def split: core_object.splits prod.splits)

lemma frames_unregister_object [frame_rules]: "frames (unregister_object E e)"
  unfolding unregister_object_def by (auto intro!: frame_rules split: prod.split)

lemma frames_unregister_objects [frame_rules]: "frames (unregister_objects E es)"
  by (induction es) (auto intro!: frame_rules)

lemma frames_register_objects [frame_rules]: "frames (register_objects E limit objs)"
  by (induction objs) (auto intro!: frame_rules)

lemma frames_hand_over [frame_rules]: "(\<And>h. frames (attach h)) \<Longrightarrow> frames (hand_over E limit objs attach)"
  unfolding hand_over_def by (intro frame_rules)

lemma frames_drop_ports [frame_rules]: "frames (drop_pending_ports E ports)" "frames (drop_policy_port E port)"
  unfolding drop_pending_ports_def drop_policy_port_def
  by (auto intro!: frame_rules split: option.split pending_ports.split client_policy_port.split)

lemma frames_shared [frame_rules]:
  "frames (shared_open_tcp E m)" "frames (shared_open_udp E m)" "frames shared_accept_tcp" "frames shared_accept_udp"
  by (auto simp: frames_def shared_open_tcp_def shared_open_udp_def shared_accept_tcp_def shared_accept_udp_def core_def
      split: option.splits prod.splits sum.splits)

lemma frames_attach_ports [frame_rules]: "frames (attach_ports E b ps a f ports i)"
  unfolding attach_ports_def by (auto intro!: frame_rules split: pending_ports.split)

lemma frames_open_ports [frame_rules]: "frames (open_ports E b req)"
  unfolding open_ports_def by (auto intro!: frame_rules split: stream_kind.split)

lemma frames_attach_policy [frame_rules]:
  "frames (attach_policy_stream E b ps x i)" "frames (attach_policy_datagram E b ps y i)"
  unfolding attach_policy_stream_def attach_policy_datagram_def by (auto intro!: frame_rules)

lemma frames_attach_client [frame_rules]: "frames (attach_client E b ps pend port i)"
  unfolding attach_client_def by (auto intro!: frame_rules split: client_policy_port.split option.split)

lemma frames_complete_adapter [frame_rules]: "frames (complete_adapter af st reason)"
  unfolding complete_adapter_def by (auto intro!: frame_rules split: option.split)

lemma frames_drop_stream [frame_rules]: "frames (on_session (drop_stream i))"
  by (rule frames_on_session) (auto simp: drop_stream_def split: option.split)

lemma frames_finish_opening [frame_rules]: "frames (finish_opening E b pend result)"
  unfolding finish_opening_def by (auto intro!: frame_rules split: sum.split prod.split option.split)

lemma frames_any_packet_port [frame_rules]: "frames (any_packet_port as)"
  by (induction as) (auto intro!: frame_rules)

lemma frames_open_policy_port [frame_rules]: "frames (open_policy_port E b pend)"
  unfolding open_policy_port_def by (auto intro!: frame_rules split: option.split stream_kind.split prod.split)

lemma frames_drive_idle [frame_rules]: "frames drive_idle"
  unfolding drive_idle_def by (auto intro!: frame_rules split: option.split prod.split poll.split sum.split)

lemma frames_close_flows [frame_rules]: "frames (close_flows fs)"
  by (induction fs) (auto intro!: frame_rules)

lemma frames_reap_closed [frame_rules]: "frames reap_closed"
  unfolding reap_closed_def Let_def by (auto intro!: frame_rules split: prod.split)

section \<open>The invariant\<close>

definition cleared :: "flow_call list \<Rightarrow> u64 \<Rightarrow> owned_flow_metadata \<Rightarrow> bool" where
  "cleared calls operation m \<longleftrightarrow>
     (\<forall>a addresses. Resolved a operation m addresses \<in> set calls \<longrightarrow>
        (\<forall>x \<in> set addresses. AdmittedAddress (om_resolved x m) \<in> set calls))"

text \<open>A pending flow: what it was admitted for is on record, and of its resolutions only the present one is open.\<close>

definition pending_ok :: "flow_call list \<Rightarrow> u64 \<Rightarrow> pending_server_flow \<Rightarrow> bool" where
  "pending_ok calls n p \<longleftrightarrow>
     unat (ps_operation p) < unat n
     \<and> (ps_admitted p \<longrightarrow> Admitted (ps_metadata p) \<in> set calls)
     \<and> (ps_resolved_addresses p = None \<longrightarrow> ps_resolved_cursor p = 0)
     \<and> (ps_resolution_complete p \<or> ps_resolved_addresses p = None \<longrightarrow> cleared calls (ps_operation p) (ps_metadata p))
     \<and> (\<forall>addresses. ps_resolved_addresses p = Some addresses \<longrightarrow>
          (\<forall>i < ps_resolved_cursor p. i < length addresses \<longrightarrow> AdmittedAddress (om_resolved (addresses ! i) (ps_metadata p)) \<in> set calls)
          \<and> (\<forall>a other. Resolved a (ps_operation p) (ps_metadata p) other \<in> set calls \<longrightarrow>
               other = addresses \<or> (\<forall>x \<in> set other. AdmittedAddress (om_resolved x (ps_metadata p)) \<in> set calls)))"

definition client_ok :: "flow_call list \<Rightarrow> pending_client_flow \<Rightarrow> bool" where
  "client_ok calls p \<longleftrightarrow> pc_metadata p = from_request (pc_request p) \<and> (pc_admitted p \<longrightarrow> Admitted (pc_metadata p) \<in> set calls)"

definition below :: "flow_call list \<Rightarrow> u64 \<Rightarrow> bool" where
  "below calls n \<longleftrightarrow> (\<forall>a operation m addresses. Resolved a operation m addresses \<in> set calls \<longrightarrow> unat operation < unat n)"

fun finv :: "flow_core \<Rightarrow> bool" where
  "finv (calls, p, q, n) \<longleftrightarrow> log_ok calls \<and> below calls n \<and> pred_option (pending_ok calls n) p \<and> pred_option (client_ok calls) q"

lemma finv_log: "finv c \<Longrightarrow> log_ok (fst c)"
  by (cases c) simp

lemma finv_frame: "frames p \<Longrightarrow> valid finv p (\<lambda>_. finv)"
  by (rule valid_frame) (auto dest: finv_log)

lemma cleared_more: "cleared calls op m \<Longrightarrow> (\<And>a as. c \<noteq> Resolved a op m as) \<Longrightarrow> cleared (calls @ [c]) op m"
  by (auto simp: cleared_def)

lemma pending_ok_more:
  assumes "pending_ok calls n p" and "\<And>a as. c \<noteq> Resolved a (ps_operation p) (ps_metadata p) as"
  shows "pending_ok (calls @ [c]) n p"
proof -
  have sub: "x \<in> set calls \<Longrightarrow> x \<in> set (calls @ [c])" for x by simp
  have res: "Resolved a (ps_operation p) (ps_metadata p) as \<in> set (calls @ [c]) \<Longrightarrow> Resolved a (ps_operation p) (ps_metadata p) as \<in> set calls" for a as
    using assms(2) [of a as] by auto
  have cl: "cleared calls (ps_operation p) (ps_metadata p) \<Longrightarrow> cleared (calls @ [c]) (ps_operation p) (ps_metadata p)"
    using cleared_more assms(2) by blast
  note p = assms(1) [unfolded pending_ok_def]
  show ?thesis
    unfolding pending_ok_def
  proof (intro conjI allI impI)
    fix addresses a other
    assume r: "ps_resolved_addresses p = Some addresses" "Resolved a (ps_operation p) (ps_metadata p) other \<in> set (calls @ [c])"
    then show "other = addresses \<or> (\<forall>x \<in> set other. AdmittedAddress (om_resolved x (ps_metadata p)) \<in> set (calls @ [c]))"
      using p res sub by meson
  qed (use p sub cl in simp_all)
qed

lemma client_ok_more: "client_ok calls p \<Longrightarrow> client_ok (calls @ [c]) p"
  by (auto simp: client_ok_def)

lemma below_more: "below calls n \<Longrightarrow> (\<And>a op m as. c = Resolved a op m as \<Longrightarrow> unat op < unat n) \<Longrightarrow> below (calls @ [c]) n"
  by (auto simp: below_def)

lemma finv_record:
  assumes "finv (calls, p, q, n)" and "allowed calls c" and "\<And>a op m as. c \<noteq> Resolved a op m as"
  shows "finv (calls @ [c], p, q, n)"
  using assms pending_ok_more [of calls n _ c] client_ok_more [of calls _ c] below_more [of calls n c]
  by (cases p; cases q) auto

text \<open>Fields of a pending flow that the invariant does not mention.\<close>

definition same_decisions :: "pending_server_flow \<Rightarrow> pending_server_flow \<Rightarrow> bool" where
  "same_decisions p p' \<longleftrightarrow> ps_operation p' = ps_operation p \<and> ps_metadata p' = ps_metadata p \<and> ps_admitted p' = ps_admitted p
     \<and> ps_resolution_complete p' = ps_resolution_complete p \<and> ps_resolved_addresses p' = ps_resolved_addresses p
     \<and> ps_resolved_cursor p' = ps_resolved_cursor p"

lemma same_decisions_ok: "same_decisions p p' \<Longrightarrow> pending_ok calls n p' = pending_ok calls n p"
  by (simp add: same_decisions_def pending_ok_def)

lemma set_pending_neutral:
  assumes "\<And>p. same_decisions p (f p)"
  shows "valid finv (set_pending f) (\<lambda>_. finv)"
proof (rule valid_set_pending)
  fix l p q n assume i: "finv (l, p, q, n)"
  show "finv (l, map_option f p, q, n)"
  proof (cases p)
    case (Some x)
    then show ?thesis using i same_decisions_ok [OF assms [of x]] by simp
  qed (use i in simp)
qed

lemma start_response_keeps: "valid finv (start_response st reason) (\<lambda>_. finv)"
  unfolding start_response_def
  apply (rule valid_get_pending, erule finv_log)
  apply (rule valid_bind, rule valid_pre, rule set_pending_neutral, simp add: same_decisions_def, simp)
  apply (rule valid_bind, rule valid_flift, erule finv_log)
  apply (rule valid_bind, rule set_pending_neutral, simp add: same_decisions_def)
  apply (rule finv_frame)
  apply (auto intro!: frame_rules)
  done

lemma refuse_keeps: "valid finv (refuse error) (\<lambda>_. finv)"
  unfolding refuse_def by (auto intro: start_response_keeps split: prod.split)

section \<open>Flows of the server\<close>

text \<open>A flow that may be opened: it is the pending one, admitted, with all its addresses admitted.\<close>

definition openable :: "pending_server_flow \<Rightarrow> flow_core \<Rightarrow> bool" where
  "openable x c \<longleftrightarrow> finv c \<and> fst (snd c) = Some x \<and> ps_admitted x \<and> cleared (fst c) (ps_operation x) (ps_metadata x)"

lemma openable_finv: "openable x c \<Longrightarrow> finv c"
  by (simp add: openable_def)

lemma openable_log: "openable x c \<Longrightarrow> log_ok (fst c)"
  using openable_finv finv_log by blast

lemma openable_record:
  assumes "openable x (l, p, q, n)"
  shows "openable x (l @ [Opening a (ps_operation x) (ps_metadata x)], p, q, n)"
proof -
  have f: "finv (l, p, q, n)" "p = Some x" "ps_admitted x" "cleared l (ps_operation x) (ps_metadata x)"
    using assms by (auto simp: openable_def)
  then have "allowed l (Opening a (ps_operation x) (ps_metadata x))" by (auto simp: pending_ok_def cleared_def)
  then show ?thesis using finv_record [OF f(1)] f cleared_more [OF f(4)] by (simp add: openable_def)
qed

lemma openable_next:
  assumes "openable x (l, p, q, n)"
  shows "finv (l, map_option (\<lambda>p. p\<lparr>ps_adapter_cursor := ps_adapter_cursor p + 1, ps_resolved_addresses := None,
      ps_resolved_cursor := 0, ps_resolution_complete := False\<rparr>) p, q, n)"
  using assms by (auto simp: openable_def pending_ok_def)

lemma opened_keeps:
  "valid finv (fbind (set_pending (\<lambda>p. p\<lparr>ps_adapter_flow := Some (adapter, flow)\<rparr>)) (\<lambda>_.
     fbind (open_ports E b req) (\<lambda>ports.
     case ports of
       None \<Rightarrow> start_response ResourceLimit ''stack flow budget exhausted''
     | Some _ \<Rightarrow> fbind (set_pending (\<lambda>p. p\<lparr>ps_ports := ports\<rparr>)) (\<lambda>_. start_response StatusOk [])))) (\<lambda>_. finv)"
proof (rule valid_bind [OF set_pending_neutral], simp add: same_decisions_def, rule valid_bind [OF finv_frame [OF frames_open_ports]])
  fix ports
  show "valid finv (case ports of None \<Rightarrow> start_response ResourceLimit ''stack flow budget exhausted''
     | Some _ \<Rightarrow> fbind (set_pending (\<lambda>p. p\<lparr>ps_ports := ports\<rparr>)) (\<lambda>_. start_response StatusOk [])) (\<lambda>_. finv)"
    by (cases ports) (auto intro!: start_response_keeps valid_bind [OF set_pending_neutral] simp: same_decisions_def)
qed

lemma open_pending_keeps: "valid (openable x) (open_pending E b adapter x) (\<lambda>_. finv)"
  unfolding open_pending_def
proof (rule valid_bind [where Q = "\<lambda>_. openable x"])
  show "valid (openable x) (record_call (Opening adapter (ps_operation x) (ps_metadata x))) (\<lambda>_. openable x)"
    by (rule valid_record) (rule openable_record)
next
  fix u
  show "valid (openable x) (fbind (module_call adapter (\<lambda>l. adapter_open l (ps_operation x) (om_abi (ps_metadata x)))) (\<lambda>r.
     case r of
       Ready (Inr flow) \<Rightarrow>
         fbind (set_pending (\<lambda>p. p\<lparr>ps_adapter_flow := Some (adapter, flow)\<rparr>)) (\<lambda>_.
         fbind (open_ports E b (ps_request x)) (\<lambda>ports.
         case ports of
           None \<Rightarrow> start_response ResourceLimit ''stack flow budget exhausted''
         | Some _ \<Rightarrow> fbind (set_pending (\<lambda>p. p\<lparr>ps_ports := ports\<rparr>)) (\<lambda>_. start_response StatusOk [])))
     | Ready (Inl error) \<Rightarrow>
         if error = ModuleStatus STATUS_UNSUPPORTED \<and> ps_adapter_cursor x + 1 < length (tb_adapters b)
         then set_pending (\<lambda>p. p\<lparr>ps_adapter_cursor := ps_adapter_cursor p + 1, ps_resolved_addresses := None,
                                  ps_resolved_cursor := 0, ps_resolution_complete := False\<rparr>)
         else refuse error
     | Pending \<Rightarrow> fret ()
     | Panicked \<Rightarrow> fpanic)) (\<lambda>_. finv)" (is "valid _ (fbind _ ?k) _")
  proof (rule valid_bind [OF valid_frame [OF frames_module_call]], erule openable_log)
    fix r
    have pend: "valid (openable x) (fret ()) (\<lambda>_. finv)" by (rule valid_fret) (rule openable_finv)
    have next1: "valid (openable x) (set_pending (\<lambda>p. p\<lparr>ps_adapter_cursor := ps_adapter_cursor p + 1, ps_resolved_addresses := None,
        ps_resolved_cursor := 0, ps_resolution_complete := False\<rparr>)) (\<lambda>_. finv)"
      by (rule valid_set_pending) (rule openable_next)
    note weak = valid_pre [OF _ openable_finv]
    show "valid (openable x) (?k r) (\<lambda>_. finv)"
      using pend next1 weak [OF refuse_keeps] weak [OF opened_keeps]
      by (auto simp: valid_fpanic split: poll.split sum.split)
  qed
qed

lemma set_complete_openable:
  assumes "finv (l, Some x, q, n)" and "ps_admitted x" and "cleared l (ps_operation x) (ps_metadata x)"
  shows "openable (x\<lparr>ps_resolution_complete := True\<rparr>) (l, Some (x\<lparr>ps_resolution_complete := True\<rparr>), q, n)"
  using assms by (auto simp: openable_def pending_ok_def)

lemma complete_then_open:
  "valid (openable x) (fbind (set_pending (\<lambda>p. p\<lparr>ps_resolution_complete := True\<rparr>)) (\<lambda>_. fbind get_pending (open_pending E b adapter))) (\<lambda>_. finv)"
proof (rule valid_bind [where Q = "\<lambda>_. openable (x\<lparr>ps_resolution_complete := True\<rparr>)"])
  show "valid (openable x) (set_pending (\<lambda>p. p\<lparr>ps_resolution_complete := True\<rparr>)) (\<lambda>_. openable (x\<lparr>ps_resolution_complete := True\<rparr>))"
    by (rule valid_set_pending) (auto simp: openable_def pending_ok_def)
  show "valid (openable (x\<lparr>ps_resolution_complete := True\<rparr>)) (fbind get_pending (open_pending E b adapter)) (\<lambda>_. finv)"
  proof (rule valid_get_pending, erule openable_log)
    fix y
    show "valid (\<lambda>c. openable (x\<lparr>ps_resolution_complete := True\<rparr>) c \<and> fst (snd c) = Some y) (open_pending E b adapter y) (\<lambda>_. finv)"
      by (rule valid_pre [OF open_pending_keeps]) (auto simp: openable_def)
  qed
qed

definition resolving :: "ip_address list \<Rightarrow> flow_core \<Rightarrow> bool" where
  "resolving addresses c \<longleftrightarrow> finv c
     \<and> (\<exists>x. fst (snd c) = Some x \<and> ps_admitted x \<and> ps_resolved_addresses x = Some addresses)"

lemma resolving_log: "resolving addresses c \<Longrightarrow> log_ok (fst c)"
  by (auto simp: resolving_def dest: finv_log)

lemma resolved_cleared:
  assumes "pending_ok l n x" and "ps_resolved_addresses x = Some addresses" and "length addresses \<le> ps_resolved_cursor x"
  shows "cleared l (ps_operation x) (ps_metadata x)"
  unfolding cleared_def
proof (intro allI impI ballI)
  fix a other y assume r: "Resolved a (ps_operation x) (ps_metadata x) other \<in> set l" and y: "y \<in> set other"
  from assms(1,2) r have o: "other = addresses \<or> (\<forall>z \<in> set other. AdmittedAddress (om_resolved z (ps_metadata x)) \<in> set l)"
    unfolding pending_ok_def by blast
  show "AdmittedAddress (om_resolved y (ps_metadata x)) \<in> set l"
  proof (cases "other = addresses")
    case True
    then obtain i where "i < length addresses" "y = addresses ! i" using y by (metis in_set_conv_nth)
    then show ?thesis using assms unfolding pending_ok_def by auto
  qed (use o y in blast)
qed

definition finish_resolution :: "'n engine_env \<Rightarrow> tunnel_binding \<Rightarrow> nat \<Rightarrow> ip_address list \<Rightarrow> ('m, 'n, unit) flow" where
  "finish_resolution E b adapter addresses =
     fbind get_pending (\<lambda>pending.
       if length addresses \<le> ps_resolved_cursor pending
       then fbind (set_pending (\<lambda>p. p\<lparr>ps_resolution_complete := True\<rparr>)) (\<lambda>_. fbind get_pending (open_pending E b adapter))
       else fret ())"

lemma finish_resolution_keeps: "valid (resolving addresses) (finish_resolution E b adapter addresses) (\<lambda>_. finv)"
  unfolding finish_resolution_def
proof (rule valid_get_pending, erule resolving_log)
  fix x
  show "valid (\<lambda>c. resolving addresses c \<and> fst (snd c) = Some x)
     (if length addresses \<le> ps_resolved_cursor x
      then fbind (set_pending (\<lambda>p. p\<lparr>ps_resolution_complete := True\<rparr>)) (\<lambda>_. fbind get_pending (open_pending E b adapter))
      else fret ()) (\<lambda>_. finv)"
  proof (rule valid_if)
    assume "length addresses \<le> ps_resolved_cursor x"
    then show "valid (\<lambda>c. resolving addresses c \<and> fst (snd c) = Some x)
      (fbind (set_pending (\<lambda>p. p\<lparr>ps_resolution_complete := True\<rparr>)) (\<lambda>_. fbind get_pending (open_pending E b adapter))) (\<lambda>_. finv)"
      by (intro valid_pre [OF complete_then_open [of x]])
        (use resolved_cleared [of _ _ x addresses] in \<open>auto simp: openable_def resolving_def\<close>)
  qed (rule valid_fret, simp add: resolving_def)
qed

lemma admit_address_alt:
  "admit_address E b adapter addresses =
     fbind get_pending (\<lambda>pending.
     if ps_resolved_cursor pending < length addresses then
       fbind fget (\<lambda>(s, w).
       fbind (module_call (tb_policy b) (\<lambda>l. policy_admit_resolved l (es_policy_session s)
         (om_abi (om_resolved (addresses ! ps_resolved_cursor pending) (ps_metadata pending))))) (\<lambda>r.
       case r of
         Ready (Inr _) \<Rightarrow>
           fbind (record_call (AdmittedAddress (om_resolved (addresses ! ps_resolved_cursor pending) (ps_metadata pending)))) (\<lambda>_.
           fbind (set_pending (\<lambda>p. p\<lparr>ps_resolved_cursor := ps_resolved_cursor p + 1\<rparr>)) (\<lambda>_. finish_resolution E b adapter addresses))
       | Ready (Inl error) \<Rightarrow> refuse error
       | Pending \<Rightarrow> fret ()
       | Panicked \<Rightarrow> fpanic))
     else finish_resolution E b adapter addresses)"
  unfolding admit_address_def finish_resolution_def Let_def by (rule refl)

text \<open>The address at the cursor is admitted and put on record.\<close>

lemma admitted_step:
  "valid (\<lambda>c. resolving addresses c \<and> fst (snd c) = Some x)
     (fbind (record_call (AdmittedAddress (om_resolved (addresses ! ps_resolved_cursor x) (ps_metadata x)))) (\<lambda>_.
      fbind (set_pending (\<lambda>p. p\<lparr>ps_resolved_cursor := ps_resolved_cursor p + 1\<rparr>)) (\<lambda>_. finish_resolution E b adapter addresses))) (\<lambda>_. finv)"
  (is "valid ?P (fbind (record_call ?c) _) _")
proof (rule valid_bind [where Q = "\<lambda>_ c. ?P c \<and> ?c \<in> set (fst c)"])
  show "valid ?P (record_call ?c) (\<lambda>_ c. ?P c \<and> ?c \<in> set (fst c))"
  proof (rule valid_record)
    fix l p q n assume "?P (l, p, q, n)"
    then show "?P (l @ [?c], p, q, n) \<and> ?c \<in> set (fst (l @ [?c], p, q, n))"
      using finv_record [of l p q n ?c] by (auto simp: resolving_def)
  qed
next
  fix u
  show "valid (\<lambda>c. ?P c \<and> ?c \<in> set (fst c))
     (fbind (set_pending (\<lambda>p. p\<lparr>ps_resolved_cursor := ps_resolved_cursor p + 1\<rparr>)) (\<lambda>_. finish_resolution E b adapter addresses)) (\<lambda>_. finv)"
  proof (rule valid_bind [where Q = "\<lambda>_. resolving addresses"])
    show "valid (\<lambda>c. ?P c \<and> ?c \<in> set (fst c)) (set_pending (\<lambda>p. p\<lparr>ps_resolved_cursor := ps_resolved_cursor p + 1\<rparr>)) (\<lambda>_. resolving addresses)"
      by (rule valid_set_pending) (auto simp: resolving_def pending_ok_def less_Suc_eq)
  qed (rule finish_resolution_keeps)
qed

lemma admit_address_keeps: "valid (resolving addresses) (admit_address E b adapter addresses) (\<lambda>_. finv)"
  unfolding admit_address_alt
proof (rule valid_get_pending, erule resolving_log, rule valid_if)
  fix x
  show "valid (\<lambda>c. resolving addresses c \<and> fst (snd c) = Some x) (finish_resolution E b adapter addresses) (\<lambda>_. finv)"
    by (rule valid_pre [OF finish_resolution_keeps]) simp
  show "valid (\<lambda>c. resolving addresses c \<and> fst (snd c) = Some x)
       (fbind fget (\<lambda>(s, w).
       fbind (module_call (tb_policy b) (\<lambda>l. policy_admit_resolved l (es_policy_session s)
         (om_abi (om_resolved (addresses ! ps_resolved_cursor x) (ps_metadata x))))) (\<lambda>r.
       case r of
         Ready (Inr _) \<Rightarrow>
           fbind (record_call (AdmittedAddress (om_resolved (addresses ! ps_resolved_cursor x) (ps_metadata x)))) (\<lambda>_.
           fbind (set_pending (\<lambda>p. p\<lparr>ps_resolved_cursor := ps_resolved_cursor p + 1\<rparr>)) (\<lambda>_. finish_resolution E b adapter addresses))
       | Ready (Inl error) \<Rightarrow> refuse error
       | Pending \<Rightarrow> fret ()
       | Panicked \<Rightarrow> fpanic))) (\<lambda>_. finv)"
  proof (rule valid_fget, simp only: prod.case, rule valid_bind [OF valid_frame [OF frames_module_call]])
    fix s :: "'m established_session" and w :: "('m, 'n) engine_world" and r :: "(load_error + unit) poll"
    let ?P = "\<lambda>c. (resolving addresses c \<and> fst (snd c) = Some x) \<and> c = core (s, w)"
    have 1: "valid ?P (fret ()) (\<lambda>_. finv)" by (rule valid_fret) (simp add: resolving_def)
    have 2: "valid ?P (refuse e) (\<lambda>_. finv)" for e by (rule valid_pre [OF refuse_keeps]) (simp add: resolving_def)
    have 3: "valid ?P (fbind (record_call (AdmittedAddress (om_resolved (addresses ! ps_resolved_cursor x) (ps_metadata x)))) (\<lambda>_.
        fbind (set_pending (\<lambda>p. p\<lparr>ps_resolved_cursor := ps_resolved_cursor p + 1\<rparr>)) (\<lambda>_. finish_resolution E b adapter addresses))) (\<lambda>_. finv)"
      by (rule valid_pre [OF admitted_step [of addresses x]]) simp
    show "valid ?P (case r of
         Ready (Inr _) \<Rightarrow>
           fbind (record_call (AdmittedAddress (om_resolved (addresses ! ps_resolved_cursor x) (ps_metadata x)))) (\<lambda>_.
           fbind (set_pending (\<lambda>p. p\<lparr>ps_resolved_cursor := ps_resolved_cursor p + 1\<rparr>)) (\<lambda>_. finish_resolution E b adapter addresses))
       | Ready (Inl error) \<Rightarrow> refuse error
       | Pending \<Rightarrow> fret ()
       | Panicked \<Rightarrow> fpanic) (\<lambda>_. finv)"
      using 1 2 3 by (auto simp: valid_fpanic split: poll.split sum.split)
  qed (auto dest: resolving_log)
qed

definition admitted :: "pending_server_flow \<Rightarrow> flow_core \<Rightarrow> bool" where
  "admitted x c \<longleftrightarrow> finv c \<and> fst (snd c) = Some x \<and> ps_admitted x"

lemma admitted_log: "admitted x c \<Longrightarrow> log_ok (fst c)"
  by (auto simp: admitted_def dest: finv_log)

lemma admitted_openable:
  "admitted x c \<Longrightarrow> ps_resolution_complete x \<or> ps_resolved_addresses x = None \<Longrightarrow> openable x c"
  by (cases c) (auto simp: admitted_def openable_def pending_ok_def)

lemma record_resolved:
  assumes "admitted x (l, p, q, n)" and "ps_resolved_addresses x = None" and "\<not> ps_resolution_complete x"
  shows "resolving addresses (l @ [Resolved a (ps_operation x) (ps_metadata x) addresses],
    map_option (\<lambda>p. p\<lparr>ps_resolved_addresses := Some addresses\<rparr>) p, q, n)"
proof -
  have f: "log_ok l" "below l n" "pending_ok l n x" "pred_option (client_ok l) q" "p = Some x" "ps_admitted x"
    using assms(1) by (auto simp: admitted_def)
  have c: "cleared l (ps_operation x) (ps_metadata x)" "ps_resolved_cursor x = 0" "unat (ps_operation x) < unat n"
      "Admitted (ps_metadata x) \<in> set l"
    using f(3,6) assms(2) by (auto simp: pending_ok_def)
  have "pending_ok (l @ [Resolved a (ps_operation x) (ps_metadata x) addresses]) n (x\<lparr>ps_resolved_addresses := Some addresses\<rparr>)"
    using c assms(3) by (auto simp: pending_ok_def cleared_def)
  moreover have "below (l @ [Resolved a (ps_operation x) (ps_metadata x) addresses]) n"
    using below_more [OF f(2)] c(3) by auto
  moreover have "pred_option (client_ok (l @ [Resolved a (ps_operation x) (ps_metadata x) addresses])) q"
    using f(4) client_ok_more by (cases q) auto
  ultimately show ?thesis using f by (simp add: resolving_def)
qed

lemma resolved_step:
  assumes "ps_resolved_addresses x = None" and "\<not> ps_resolution_complete x"
  shows "valid (admitted x) (fbind (record_call (Resolved a (ps_operation x) (ps_metadata x) addresses)) (\<lambda>_.
      fbind (set_pending (\<lambda>p. p\<lparr>ps_resolved_addresses := Some addresses\<rparr>)) (\<lambda>_. admit_address E b adapter addresses))) (\<lambda>_. finv)"
proof (rule valid_bind)
  let ?Q = "\<lambda>u c. resolving addresses (fst c, map_option (\<lambda>p. p\<lparr>ps_resolved_addresses := Some addresses\<rparr>) (fst (snd c)), snd (snd c))"
  show "valid (admitted x) (record_call (Resolved a (ps_operation x) (ps_metadata x) addresses)) ?Q"
    by (rule valid_record) (use record_resolved [OF _ assms] in simp)
  show "valid (?Q u) (fbind (set_pending (\<lambda>p. p\<lparr>ps_resolved_addresses := Some addresses\<rparr>)) (\<lambda>_. admit_address E b adapter addresses)) (\<lambda>_. finv)" for u
    by (rule valid_bind [where Q = "\<lambda>_. resolving addresses"], rule valid_set_pending, simp, rule admit_address_keeps)
qed

lemma resolve_pending_keeps: "valid (admitted x) (resolve_pending E b adapter x) (\<lambda>_. finv)"
proof (cases "ps_resolution_complete x")
  case True
  then show ?thesis
    unfolding resolve_pending_def by (simp add: valid_pre [OF open_pending_keeps] admitted_openable)
next
  case False
  show ?thesis
  proof (cases "ps_resolved_addresses x")
    case (Some addresses)
    have "valid (admitted x) (admit_address E b adapter addresses) (\<lambda>_. finv)"
      by (rule valid_pre [OF admit_address_keeps]) (use Some in \<open>auto simp: admitted_def resolving_def\<close>)
    then show ?thesis using False Some by (simp add: resolve_pending_def)
  next
    case None
    have 1: "valid (admitted x) (fret ()) (\<lambda>_. finv)" by (rule valid_fret) (simp add: admitted_def)
    have 2: "valid (admitted x) (refuse e) (\<lambda>_. finv)" for e by (rule valid_pre [OF refuse_keeps]) (simp add: admitted_def)
    have 3: "valid (admitted x) (fbind (set_pending (\<lambda>p. p\<lparr>ps_resolution_complete := True\<rparr>)) (\<lambda>_. fbind get_pending (open_pending E b adapter))) (\<lambda>_. finv)"
      by (rule valid_pre [OF complete_then_open [of x]]) (use None admitted_openable in blast)
    have "valid (admitted x) (fbind (module_call adapter (\<lambda>l. adapter_resolve l (ps_operation x) (om_abi (ps_metadata x)))) (\<lambda>r.
        case r of
          Ready (Inr (Some addresses)) \<Rightarrow>
            fbind (record_call (Resolved adapter (ps_operation x) (ps_metadata x) addresses)) (\<lambda>_.
            fbind (set_pending (\<lambda>p. p\<lparr>ps_resolved_addresses := Some addresses\<rparr>)) (\<lambda>_. admit_address E b adapter addresses))
        | Ready (Inr None) \<Rightarrow>
            fbind (set_pending (\<lambda>p. p\<lparr>ps_resolution_complete := True\<rparr>)) (\<lambda>_. fbind get_pending (open_pending E b adapter))
        | Ready (Inl error) \<Rightarrow> refuse error
        | Pending \<Rightarrow> fret ()
        | Panicked \<Rightarrow> fpanic)) (\<lambda>_. finv)" (is "valid _ (fbind _ ?k) _")
    proof (rule valid_bind [OF valid_frame [OF frames_module_call]], erule admitted_log)
      fix r show "valid (admitted x) (?k r) (\<lambda>_. finv)"
        using 1 2 3 resolved_step [OF None False, where a = adapter]
        by (auto simp: valid_fpanic split: poll.split sum.split option.split)
    qed
    then show ?thesis using False None by (simp add: resolve_pending_def)
  qed
qed

lemma route_pending_keeps: "valid (admitted x) (route_pending E b) (\<lambda>_. finv)"
  unfolding route_pending_def
proof (rule valid_get_pending, erule admitted_log, rule valid_if)
  fix y
  show "valid (\<lambda>c. admitted x c \<and> fst (snd c) = Some y) (start_response Unsupported ''no adapter accepted the flow'') (\<lambda>_. finv)"
    by (rule valid_pre [OF start_response_keeps]) (simp add: admitted_def)
  show "valid (\<lambda>c. admitted x c \<and> fst (snd c) = Some y) (resolve_pending E b (tb_adapters b ! ps_adapter_cursor y) y) (\<lambda>_. finv)"
    by (rule valid_pre [OF resolve_pending_keeps]) (auto simp: admitted_def)
qed

lemma admit_pending_step:
  "valid (\<lambda>c. finv c \<and> fst (snd c) = Some x)
     (fbind (record_call (Admitted (ps_metadata x))) (\<lambda>_. fbind (set_pending (\<lambda>p. p\<lparr>ps_admitted := True\<rparr>)) (\<lambda>_. route_pending E b))) (\<lambda>_. finv)"
proof (rule valid_bind)
  let ?Q = "\<lambda>u c. finv c \<and> fst (snd c) = Some x \<and> Admitted (ps_metadata x) \<in> set (fst c)"
  show "valid (\<lambda>c. finv c \<and> fst (snd c) = Some x) (record_call (Admitted (ps_metadata x))) ?Q"
  proof (rule valid_record)
    fix l p q n assume "finv (l, p, q, n) \<and> fst (snd (l, p, q, n)) = Some x"
    then have "finv (l @ [Admitted (ps_metadata x)], p, q, n)" "p = Some x" by (auto intro!: finv_record simp del: finv.simps)
    then show "?Q () (l @ [Admitted (ps_metadata x)], p, q, n)" by (simp del: finv.simps)
  qed
  show "valid (?Q u) (fbind (set_pending (\<lambda>p. p\<lparr>ps_admitted := True\<rparr>)) (\<lambda>_. route_pending E b)) (\<lambda>_. finv)" for u
  proof (rule valid_bind [where Q = "\<lambda>_. admitted (x\<lparr>ps_admitted := True\<rparr>)"])
    show "valid (?Q u) (set_pending (\<lambda>p. p\<lparr>ps_admitted := True\<rparr>)) (\<lambda>_. admitted (x\<lparr>ps_admitted := True\<rparr>))"
      by (rule valid_set_pending) (auto simp: admitted_def pending_ok_def)
  qed (rule route_pending_keeps)
qed

lemma clear_pending: "valid finv (on_session (\<lambda>s. s\<lparr>es_pending := None\<rparr>)) (\<lambda>_. finv)"
  by (rule valid_on_session) (simp add: core_def)

lemma attach_pending_keeps: "valid finv (attach_pending E b) (\<lambda>_. finv)"
  unfolding attach_pending_def
  by (rule valid_get_pending, erule finv_log, rule valid_bind, rule valid_pre [OF clear_pending], simp)
    (rule finv_frame, auto intro!: frame_rules split: option.split prod.split)

lemma reject_pending_keeps: "valid finv (reject_pending E :: ('m, 'n, unit) flow) (\<lambda>_. finv)"
  unfolding reject_pending_def
proof (rule valid_fget, simp only: prod.case)
  fix s and w :: "('m, 'n) engine_world"
  let ?P = "\<lambda>c. finv c \<and> c = core (s, w)"
  show "valid ?P (case es_pending s of None \<Rightarrow> fret ()
     | Some pending \<Rightarrow>
         fbind (on_session (\<lambda>s. s\<lparr>es_pending := None\<rparr>)) (\<lambda>_.
         fbind (case ps_adapter_flow pending of
                  None \<Rightarrow> fret ()
                | Some (adapter, flow) \<Rightarrow> fbind (ready_call adapter (\<lambda>l. adapter_close_flow l flow)) (\<lambda>_. fret ())) (\<lambda>_.
         fbind (on_session (\<lambda>s. s\<lparr>es_mux := map_option release_flow (es_mux s)\<rparr>)) (\<lambda>_.
         fbind (on_session (drop_stream (ps_stream pending))) (\<lambda>_.
         drop_pending_ports E (ps_ports pending)))))) (\<lambda>_. finv)"
  proof (cases "es_pending s")
    case None
    then show ?thesis by (simp only: option.case) (rule valid_fret, simp)
  next
    case (Some x)
    then show ?thesis
      by (simp only: option.case)
        (rule valid_bind, rule valid_pre [OF clear_pending], simp, rule finv_frame, auto intro!: frame_rules split: option.split prod.split)
  qed
qed

lemma poll_pending_keeps: "valid finv (poll_pending E b) (\<lambda>_. finv)"
  unfolding poll_pending_def
proof (rule valid_get_pending, erule finv_log, intro valid_if, goal_cases)
  case (1 x)
  show ?case by (rule valid_pre [OF attach_pending_keeps]) simp
next
  case (2 x)
  then show ?case by (intro valid_pre [OF route_pending_keeps [of x]]) (simp add: admitted_def)
next
  case (3 x)
  show ?case
    by (rule valid_fget, simp only: prod.case, rule valid_bind [OF valid_frame [OF frames_module_call]], use finv_log in blast)
      (rule valid_answer, rule valid_pre [OF admit_pending_step [of x]], simp, rule valid_pre [OF refuse_keeps], simp, rule valid_fret, simp)
qed

lemma below_less: "below calls n \<Longrightarrow> unat n \<le> unat n' \<Longrightarrow> below calls n'"
  unfolding below_def by (meson order_less_le_trans)

text \<open>A new flow has an operation of its own, for which nothing is resolved.\<close>

definition fresh :: "u64 \<Rightarrow> flow_core \<Rightarrow> bool" where
  "fresh operation c \<longleftrightarrow> (case c of (l, p, q, n) \<Rightarrow>
     finv (l, None, q, n) \<and> below l operation \<and> unat operation < unat n)"

lemma take_operation_fresh: "valid (\<lambda>c. finv c \<and> fst (snd c) = None) take_operation fresh"
proof (rule validI)
  fix s s' :: "('m, 'n) flow_state" and r
  assume i: "finv (core s) \<and> fst (snd (core s)) = None" and t: "take_operation s = Some (s', r)"
  obtain e w where s: "s = (e, w)" by fastforce
  have n: "unat (ew_operation w + 1) = unat (ew_operation w) + 1" if "unat (ew_operation w) \<noteq> u64_max"
    using that unsigned_less [of "ew_operation w", where 'a = nat] by (auto simp: u64_max_def unat_word_ariths)
  show "case r of Inr a \<Rightarrow> fresh a (core s') | Inl _ \<Rightarrow> log_ok (fst (core s'))"
    using i t n below_less [of "es_calls e" "ew_operation w" "ew_operation w + 1"]
    by (auto simp: s take_operation_def next_operation_def core_def fresh_def ok_or_def split: if_splits)
qed

lemma fresh_log: "fresh operation c \<Longrightarrow> log_ok (fst c)"
  by (auto simp: fresh_def split: prod.splits)

lemma below_cleared: "below calls operation \<Longrightarrow> cleared calls operation m"
  unfolding below_def cleared_def by blast

lemma fresh_pending:
  "valid (fresh operation) (on_session (\<lambda>s. s\<lparr>es_pending := Some (new_pending request stream operation)\<rparr>)) (\<lambda>_. finv)"
  by (rule valid_on_session) (auto simp: fresh_def core_def pending_ok_def new_pending_def below_cleared)

lemma poll_accepting_keeps: "valid (\<lambda>c. finv c \<and> fst (snd c) = None) (poll_accepting E b :: ('m, 'n, unit) flow) (\<lambda>_. finv)"
  unfolding poll_accepting_def
proof (rule valid_fget, simp only: prod.case, goal_cases)
  case (1 s w)
  let ?P = "\<lambda>c. (finv c \<and> fst (snd c) = None) \<and> c = core (s, w :: ('m, 'n) engine_world)"
  have log: "?P c \<Longrightarrow> log_ok (fst c)" for c using finv_log by blast
  have frame: "valid ?P p (\<lambda>_. finv)" if "frames p" for p :: "('m, 'n, unit) flow"
    by (rule valid_pre [OF finv_frame [OF that]]) simp
  have new: "valid ?P (fbind (on_session (\<lambda>s. s\<lparr>es_accepting := None, es_mux := Some mux\<rparr>)) (\<lambda>_.
       fbind take_operation (\<lambda>operation.
       fbind (on_session (\<lambda>s. s\<lparr>es_pending := Some (new_pending request stream operation)\<rparr>)) (\<lambda>_.
       poll_pending E b :: ('m, 'n, unit) flow)))) (\<lambda>_. finv)" for mux request stream
    by (rule valid_bind, rule valid_frame, rule frames_on_session, simp, erule log)
      (rule valid_bind, rule valid_pre [OF take_operation_fresh], simp, rule valid_bind [OF fresh_pending poll_pending_keeps])
  show ?case
  proof (cases "es_accepting s")
    case None
    then show ?thesis by (simp only: option.case) (rule frame, auto intro!: frame_rules)
  next
    case (Some a)
    obtain future mux where a: "a = (future, mux)" by fastforce
    obtain f m r where t: "accept_flow module_transport future mux = (f, m, r)" by (metis prod_cases3)
    have "valid ?P (case r of
         Ready (Inr (request, stream)) \<Rightarrow>
           fbind (on_session (\<lambda>s. s\<lparr>es_accepting := None, es_mux := Some m\<rparr>)) (\<lambda>_.
           fbind take_operation (\<lambda>operation.
           fbind (on_session (\<lambda>s. s\<lparr>es_pending := Some (new_pending request stream operation)\<rparr>)) (\<lambda>_.
           poll_pending E b :: ('m, 'n, unit) flow)))
       | Ready (Inl error) \<Rightarrow>
           fbind (on_session (\<lambda>s. s\<lparr>es_accepting := None, es_mux := Some m\<rparr>)) (\<lambda>_. ferr (Flow_Mux error))
       | Pending \<Rightarrow> on_session (\<lambda>s. s\<lparr>es_accepting := Some (f, m)\<rparr>)
       | Panicked \<Rightarrow> fpanic) (\<lambda>_. finv)"
    proof (rule valid_answer)
      show "valid ?P (case a of (request, stream) \<Rightarrow> fbind (on_session (\<lambda>s. s\<lparr>es_accepting := None, es_mux := Some m\<rparr>)) (\<lambda>_.
          fbind take_operation (\<lambda>operation.
          fbind (on_session (\<lambda>s. s\<lparr>es_pending := Some (new_pending request stream operation)\<rparr>)) (\<lambda>_.
          poll_pending E b :: ('m, 'n, unit) flow)))) (\<lambda>_. finv)" for a
        by (cases a) (simp only: prod.case, rule new)
    qed (rule frame, intro frame_rules, simp)+
    then show ?thesis using Some a t by simp
  qed
qed

lemma poll_flows_keeps: "valid finv (poll_flows E b) (\<lambda>_. finv)"
  unfolding poll_flows_def
  by (rule valid_fget, simp only: prod.case, rule valid_if)
    (rule valid_pre [OF poll_pending_keeps], simp, rule valid_pre [OF poll_accepting_keeps], simp add: core_def)

lemma poll_server_keeps: "valid finv (poll_server E b :: ('m, 'n, unit) flow) (\<lambda>_. finv)"
  unfolding poll_server_def
proof (rule valid_fget, simp only: prod.case, goal_cases)
  case (1 s w)
  let ?P = "\<lambda>c. finv c \<and> c = core (s, w :: ('m, 'n) engine_world)"
  have frame: "valid ?P p (\<lambda>_. finv)" if "frames p" for p :: "('m, 'n, unit) flow"
    by (rule valid_pre [OF finv_frame [OF that]]) simp
  have answered: "valid ?P (fbind (on_session (\<lambda>s. s\<lparr>es_responding := None, es_mux := Some mux\<rparr>)) (\<lambda>_.
       fbind (flift (map_err Flow_Mux x)) (\<lambda>_.
       fbind get_pending (\<lambda>pending.
       fbind (set_pending (\<lambda>p. p\<lparr>ps_stream := Some stream, ps_response_sent := True\<rparr>)) (\<lambda>_.
       if \<not> ps_accepted pending then reject_pending E else poll_flows E b :: ('m, 'n, unit) flow))))) (\<lambda>_. finv)"
    for mux stream and x :: "mux_error + unit"
    apply (rule valid_bind, rule frame, rule frames_on_session, simp)
    apply (rule valid_bind, rule valid_flift, erule finv_log)
    apply (rule valid_get_pending, erule finv_log)
    apply (rule valid_bind, rule valid_pre [OF set_pending_neutral], simp add: same_decisions_def, simp)
    apply (rule valid_if, rule reject_pending_keeps, rule poll_flows_keeps)
    done
  show ?case
  proof (cases "es_responding s")
    case None
    then show ?thesis by (simp only: option.case) (rule valid_pre [OF poll_flows_keeps], simp)
  next
    case (Some a)
    obtain stream response future mux where a: "a = (stream, response, future, mux)" by (metis prod_cases4)
    obtain f m r where t: "respond_flow module_transport stream response future mux = (f, m, r)" by (metis prod_cases3)
    show ?thesis
      using Some a t by (cases r) (simp_all add: answered valid_fpanic frame frame_rules)
  qed
qed

section \<open>Flows of the client\<close>

lemma new_client_ok [simp]: "client_ok calls (new_client_pending request adapter_flow port)"
  by (simp add: client_ok_def new_client_pending_def)

lemma set_new_client:
  "valid finv (on_session (\<lambda>s. s\<lparr>es_client_pending := Some (new_client_pending request adapter_flow port)\<rparr>)) (\<lambda>_. finv)"
  by (rule valid_on_session) (simp add: core_def)

lemma clear_client: "valid finv (on_session (\<lambda>s. s\<lparr>es_client_pending := None\<rparr>)) (\<lambda>_. finv)"
  by (rule valid_on_session) (simp add: core_def)

lemma finv_fret: "valid finv (fret a) (\<lambda>_. finv)"
  by (rule valid_fret)

lemma accept_packets_keeps:
  assumes "frames accept"
  shows "valid finv (accept_packets b kind accept port) (\<lambda>_. finv)"
  unfolding accept_packets_def
proof (rule valid_fget, simp only: prod.case, rule valid_if, goal_cases)
  case (1 s w)
  show ?case by (rule valid_pre [OF finv_fret]) simp
next
  case (2 s w)
  have set1: "valid finv (case r of None \<Rightarrow> fret ()
      | Some (metadata, p) \<Rightarrow>
          on_session (\<lambda>s. s\<lparr>es_client_pending := Some (new_client_pending (packet_request kind metadata) None (Some (port p)))\<rparr>)) (\<lambda>_. finv)" for r
    using set_new_client finv_fret by (auto split: option.split prod.split)
  show ?case
    by (rule valid_pre [where P = finv], rule valid_bind [OF finv_frame [OF frames_any_packet_port]], rule valid_if, rule finv_fret)
      (rule valid_bind [OF finv_frame [OF assms] set1], simp)
qed

lemma accept_adapters_keeps: "valid finv (accept_adapters as) (\<lambda>_. finv)"
proof (induction as)
  case Nil
  show ?case by (simp add: finv_fret)
next
  case (Cons a as)
  show ?case
  proof (simp only: accept_adapters.simps, rule valid_bind [OF finv_frame [OF frames_module_call]], rule valid_answer, goal_cases)
    case (1 r x)
    then show ?case using set_new_client by (auto split: prod.split)
  next
    case (2 r e)
    show ?case using Cons by (auto intro: valid_ferr dest: finv_log)
  next
    case (3 r)
    show ?case by (rule Cons)
  qed
qed

text \<open>An admitted flow of the client.\<close>

definition client_admitted :: "pending_client_flow \<Rightarrow> flow_core \<Rightarrow> bool" where
  "client_admitted x c \<longleftrightarrow> finv c \<and> fst (snd (snd c)) = Some x \<and> pc_admitted x"

lemma client_admitted_finv: "client_admitted x c \<Longrightarrow> finv c"
  by (simp add: client_admitted_def)

lemma client_admitted_log: "client_admitted x c \<Longrightarrow> log_ok (fst c)"
  using client_admitted_finv finv_log by blast

lemma send_record:
  "valid (\<lambda>c. finv c \<and> Admitted (from_request request) \<in> set (fst c)) (record_call (Sending request)) (\<lambda>_. finv)"
  by (rule valid_record) (auto intro!: finv_record simp del: finv.simps)

lemma send_open_keeps: "valid (client_admitted x) (send_open E) (\<lambda>_. finv)"
  unfolding send_open_def
proof (rule valid_get_client, erule client_admitted_log, goal_cases)
  case (1 y)
  let ?Q = "\<lambda>c. finv c \<and> Admitted (from_request (pc_request y)) \<in> set (fst c)"
  have log: "?Q c \<Longrightarrow> log_ok (fst c)" for c using finv_log by blast
  have clear: "valid (\<lambda>c. client_admitted x c \<and> fst (snd (snd c)) = Some y) (on_session (\<lambda>s. s\<lparr>es_client_pending := None\<rparr>)) (\<lambda>_. ?Q)"
    by (rule valid_on_session) (auto simp: core_def client_admitted_def client_ok_def)
  show ?case
    apply (rule valid_bind [OF clear], rule valid_fget, simp only: prod.case, rule valid_cleanup)
     apply (rule valid_pre [where P = ?Q], rule valid_bind [OF valid_flift], erule log)
      apply (simp only: split_def)
      apply (rule valid_bind [OF valid_frame], rule frames_on_session, simp, erule log)
      apply (rule valid_bind [OF valid_flift], erule log)
      apply (rule valid_bind [OF send_record finv_frame], rule frames_on_session, simp, simp)
    apply (rule frames_drop_ports)
    done
qed

lemma prepare_client_keeps: "valid (client_admitted x) (prepare_client E b) (\<lambda>_. finv)"
  unfolding prepare_client_def
proof (rule valid_get_client, erule client_admitted_log, rule valid_if, goal_cases)
  case (1 y)
  have set1: "valid (client_admitted x) (set_client_pending (\<lambda>p. p\<lparr>pc_policy_port := Some port\<rparr>))
      (\<lambda>_. client_admitted (x\<lparr>pc_policy_port := Some port\<rparr>))" for port
    by (rule valid_set_client) (auto simp: client_admitted_def client_ok_def)
  show ?case
    by (rule valid_pre [where P = "client_admitted x"], rule valid_bind [OF valid_frame [OF frames_open_policy_port]], erule client_admitted_log)
      (rule valid_bind [OF set1 send_open_keeps], simp)
next
  case (2 y)
  show ?case by (rule valid_pre [OF send_open_keeps [of x]]) simp
qed

lemma admit_client_step:
  "valid (\<lambda>c. finv c \<and> fst (snd (snd c)) = Some x)
     (fbind (record_call (Admitted (pc_metadata x))) (\<lambda>_. fbind (set_client_pending (\<lambda>p. p\<lparr>pc_admitted := True\<rparr>)) (\<lambda>_. prepare_client E b)))
     (\<lambda>_. finv)"
proof (rule valid_bind)
  let ?Q = "\<lambda>u c. finv c \<and> fst (snd (snd c)) = Some x \<and> Admitted (pc_metadata x) \<in> set (fst c)"
  show "valid (\<lambda>c. finv c \<and> fst (snd (snd c)) = Some x) (record_call (Admitted (pc_metadata x))) ?Q"
    by (rule valid_record) (auto intro!: finv_record simp del: finv.simps)
  show "valid (?Q u) (fbind (set_client_pending (\<lambda>p. p\<lparr>pc_admitted := True\<rparr>)) (\<lambda>_. prepare_client E b)) (\<lambda>_. finv)" for u
  proof (rule valid_bind [where Q = "\<lambda>_. client_admitted (x\<lparr>pc_admitted := True\<rparr>)"])
    show "valid (?Q u) (set_client_pending (\<lambda>p. p\<lparr>pc_admitted := True\<rparr>)) (\<lambda>_. client_admitted (x\<lparr>pc_admitted := True\<rparr>))"
      by (rule valid_set_client) (auto simp: client_admitted_def client_ok_def)
  qed (rule prepare_client_keeps)
qed

lemma refused_client_keeps:
  "valid finv (fbind (complete_adapter af st reason) (\<lambda>_.
     fbind (on_session (\<lambda>s. s\<lparr>es_client_pending := None\<rparr>)) (\<lambda>_. drop_policy_port E port))) (\<lambda>_. finv)"
  by (rule valid_bind [OF finv_frame [OF frames_complete_adapter]], rule valid_bind [OF clear_client], rule finv_frame)
    (rule frames_drop_ports)

lemma admit_client_keeps: "valid finv (admit_client E b) (\<lambda>_. finv)"
  unfolding admit_client_def
proof (rule valid_get_client, erule finv_log, rule valid_if, goal_cases)
  case (1 x)
  then show ?case by (intro valid_pre [OF prepare_client_keeps [of x]]) (simp add: client_admitted_def)
next
  case (2 x)
  show ?case
    apply (rule valid_fget, simp only: prod.case, rule valid_bind [OF valid_frame [OF frames_module_call]], use finv_log in blast)
    apply (rule valid_answer, rule valid_pre [OF admit_client_step [of x]], simp)
     apply (simp only: split_def, rule valid_pre [OF refused_client_keeps], simp, rule valid_fret, simp)
    done
qed

lemma next_client_keeps: "valid finv (next_client E b) (\<lambda>_. finv)"
  unfolding next_client_def
  apply (rule valid_bind [OF accept_packets_keeps [OF frames_shared(3)]])
  apply (rule valid_bind [OF accept_packets_keeps [OF frames_shared(4)]])
  apply (rule valid_fget, simp only: prod.case, rule valid_pre [where P = finv])
   apply (rule valid_bind [where Q = "\<lambda>_. finv"], rule valid_if [OF accept_adapters_keeps finv_fret])
   apply (rule valid_fget, simp only: prod.case, rule valid_pre [where P = finv])
    apply (rule valid_if [OF finv_frame [OF frames_drive_idle] admit_client_keeps], simp_all)
  done

lemma poll_client_keeps: "valid finv (poll_client E b :: ('m, 'n, unit) flow) (\<lambda>_. finv)"
  unfolding poll_client_def
proof (rule valid_fget, simp only: prod.case, goal_cases)
  case (1 s w)
  let ?P = "\<lambda>c. finv c \<and> c = core (s, w :: ('m, 'n) engine_world)"
  have finished: "valid finv (case completed of
        None \<Rightarrow> next_client E b
      | Some (index, result) \<Rightarrow>
          fbind (on_session (\<lambda>s. s\<lparr>es_openings := swap_remove index (es_openings s)\<rparr>)) (\<lambda>_.
          finish_opening E b (snd (openings ! index)) result :: ('m, 'n, unit) flow)) (\<lambda>_. finv)" for completed openings
    by (cases completed) (auto intro!: next_client_keeps finv_frame frame_rules)
  have polled: "valid ?P (fbind (on_session (\<lambda>s. s\<lparr>es_openings := openings, es_mux := Some mux\<rparr>)) (\<lambda>_.
      case completed of
        None \<Rightarrow> next_client E b
      | Some (index, result) \<Rightarrow>
          fbind (on_session (\<lambda>s. s\<lparr>es_openings := swap_remove index (es_openings s)\<rparr>)) (\<lambda>_.
          finish_opening E b (snd (openings ! index)) result :: ('m, 'n, unit) flow))) (\<lambda>_. finv)" for openings mux completed
    by (rule valid_pre [where P = finv], rule valid_bind [OF finv_frame finished], rule frames_on_session) simp_all
  show ?case
  proof (cases "es_mux s")
    case None
    then show ?thesis by (simp only: option.case) (rule valid_ferr, use finv_log in blast)
  next
    case (Some mux)
    show ?thesis
    proof (cases "poll_openings (es_openings s) mux")
      case None
      then show ?thesis by (simp add: Some valid_fpanic)
    next
      case (Some a)
      then show ?thesis
        by (cases a) (simp only: \<open>es_mux s = Some mux\<close> option.case prod.case, rule polled)
    qed
  qed
qed

lemma session_poll_keeps: "valid finv (session_poll E b) (\<lambda>_. finv)"
  unfolding session_poll_def
  by (rule valid_bind [OF finv_frame [OF frames_reap_closed]], rule valid_if) (rule poll_client_keeps poll_server_keeps)+

section \<open>Runs of a session\<close>

text \<open>
  A session is polled again and again, with whatever clock; between two polls other sessions, modules
  and streams change the world and the connection, but operations are only ever taken.
\<close>

inductive session_turns :: "tunnel_binding \<Rightarrow> ('m, 'n) flow_state \<Rightarrow> bool" for b where
  begins: "session_turns b (established_new mux policy_session, w)"
| polled: "session_turns b st \<Longrightarrow> session_poll E b st = Some (st', Inr ()) \<Longrightarrow> session_turns b st'"
| others: "session_turns b (s, w) \<Longrightarrow> es_calls s' = es_calls s \<Longrightarrow> es_pending s' = es_pending s
    \<Longrightarrow> es_client_pending s' = es_client_pending s \<Longrightarrow> unat (ew_operation w) \<le> unat (ew_operation w')
    \<Longrightarrow> session_turns b (s', w')"

lemma finv_later:
  assumes "finv (l, p, q, n)" and "unat n \<le> unat n'"
  shows "finv (l, p, q, n')"
  using assms below_less [of l n n'] by (cases p) (auto simp: pending_ok_def)

lemma session_turns_finv: "session_turns b st \<Longrightarrow> finv (core st)"
proof (induction rule: session_turns.induct)
  case (begins mux policy_session w)
  show ?case by (simp add: core_def established_new_def below_def)
next
  case (polled st E st')
  from validD [OF session_poll_keeps polled.IH polled.hyps(2)] show ?case by simp
next
  case (others s w s' w')
  from finv_later [OF others.IH [unfolded core_def]] others.hyps show ?case by (simp add: core_def del: finv.simps)
qed

text \<open>
  C1: the policy decides first. Whatever the modules answer and however polls of the session are
  interleaved with the rest of the engine, every poll that returns, with success or an error, leaves a
  record in which each flow was admitted by the policy before it was opened at an adapter or sent
  through the tunnel, and in which an adapter is asked to open a flow that it resolved only after the
  policy admitted every one of the resolved addresses.
\<close>

theorem policy_decides_first:
  assumes "session_turns b st" and "session_poll E b st = Some (st', r)" and "i < length (es_calls (fst st'))"
  shows "allowed (take i (es_calls (fst st'))) (es_calls (fst st') ! i)"
proof -
  have "log_ok (es_calls (fst st'))"
    using validD [OF session_poll_keeps session_turns_finv [OF assms(1)] assms(2)] finv_log [of "core st'"]
    by (cases r) (auto simp: core_def)
  then show ?thesis using assms(3) by (simp add: log_ok_def)
qed

text \<open>A client whose adapter announces one flow, and a policy that admits it.\<close>

definition bare_module :: "bytes adapter_api option \<Rightarrow> bytes policy_api option \<Rightarrow> bytes loaded_module" where
  "bare_module adapter policy =
     \<lparr>lm_descriptor = \<lparr>de_struct_size = DESCRIPTOR_SIZE, de_wire_version = 1, de_class_mask = CLASS_ADAPTER, de_reserved = 0,
        de_name = None, de_describe = None, de_validate_config = None, de_create = None, de_poll = None, de_control = None,
        de_shutdown = None, de_destroy = None, de_byte_io = None, de_datagram_io = None, de_adapter = adapter,
        de_protection = None, de_carrier = None, de_policy = policy\<rparr>,
      lm_source_config = [], lm_path = [], lm_instance_name = [], lm_name = [], lm_class_mask = CLASS_ADAPTER, lm_config = [],
      lm_base_directory = [], lm_instance = Some 1, lm_state = []\<rparr>"

definition calling_adapter :: "bytes adapter_api" where
  "calling_adapter =
     \<lparr>aa_struct_size = ADAPTER_API_SIZE, aa_reserved = 0, aa_open = Some (\<lambda>m h operation md. (m, 5, STATUS_OK)),
      aa_accept = Some (\<lambda>m h md. (m, md\<lparr>fm_kind := FLOW_TCP, fm_address_type := ADDRESS_IPV4,
        fm_address := Raw_Slice [0, 0, 0, 1], fm_port := 80\<rparr>, 9, STATUS_OK)),
      aa_attach = Some (\<lambda>m h flow stack io. (m, STATUS_OK)), aa_complete = Some (\<lambda>m h flow status reason. (m, STATUS_OK)),
      aa_close_flow = Some (\<lambda>m h flow. (m, STATUS_OK)), aa_attach_datagram = None, aa_attach_packet_port = None, aa_resolve = None\<rparr>"

definition open_policy_table :: "bytes policy_api" where
  "open_policy_table =
     \<lparr>po_struct_size = POLICY_API_SIZE, po_flags = POLICY_PASSTHROUGH_TCP,
      po_attach_session = Some (\<lambda>m h stream io ctx. (m, 7, STATUS_OK)), po_admit_flow = Some (\<lambda>m h session md. (m, STATUS_OK)),
      po_attach_flow = None, po_attach_datagram_flow = None, po_admit_resolved = None\<rparr>"

definition client_binding :: tunnel_binding where
  "client_binding =
     \<lparr>tb_name = b_str ''client'', tb_role = Client, tb_adapters = [0], tb_carrier = 0, tb_protection = 0, tb_policy = 1,
      tb_policy_family = sample_family, tb_policy_context = [], tb_core_io_limit = 8, tb_yamux = yamux_of low_memory_template,
      tb_connect_timeout = 1000, tb_handshake_timeout = 1000\<rparr>"

definition client_env :: "nat engine_env" where
  "client_env =
     \<lparr>ee_smoltcp = still_net, ee_view = rfc_transport, ee_now = 0,
      ee_streams = \<lparr>io_read = (\<lambda>s buf. (s, buf, Pending)), io_write = (\<lambda>s bs. (s, Pending)), io_flush = (\<lambda>s. (s, Ready (Inr ()))),
        io_shutdown_write = (\<lambda>s. (s, Ready (Inr ()))), io_close = (\<lambda>s. (s, Ready (Inr ())))\<rparr>,
      ee_datagrams = \<lparr>dg_recv = (\<lambda>s buf. (s, buf, Pending)), dg_send = (\<lambda>s bs. (s, Pending)), dg_close = (\<lambda>s. (s, Ready (Inr ())))\<rparr>,
      ee_byte_table = 1, ee_datagram_table = 2\<rparr>"

definition client_world :: "'n bridge \<Rightarrow> (bytes, 'n) engine_world" where
  "client_world b =
     \<lparr>ew_modules = [bare_module (Some calling_adapter) None, bare_module None (Some open_policy_table)],
      ew_registry = core_registry_new, ew_stack = b, ew_leases = [], ew_operation = 1\<rparr>"

definition client_bridge :: "nat bridge" where
  "client_bridge = projr (bridge_new still_net (stack_of low_memory_template) 4 1000000 4)"

lemma client_calls:
  "map_option (es_calls \<circ> fst \<circ> fst) (session_poll client_env client_binding (established_new agreed_session 7, client_world br))
     = Some [Admitted (from_request sample_flow), Sending sample_flow]"
  by code_simp

theorem policy_decides_first_witness:
  "\<exists>st r. session_poll client_env client_binding (established_new agreed_session 7, client_world client_bridge) = Some (st, r)
     \<and> es_calls (fst st) = [Admitted (from_request sample_flow), Sending sample_flow]
     \<and> allowed [Admitted (from_request sample_flow)] (Sending sample_flow)"
proof -
  obtain st r where s: "session_poll client_env client_binding (established_new agreed_session 7, client_world client_bridge) = Some (st, r)"
      "es_calls (fst st) = [Admitted (from_request sample_flow), Sending sample_flow]"
    using client_calls [of client_bridge] by fastforce
  from policy_decides_first [OF session_turns.begins s(1), of 1] s show ?thesis by simp
qed

end
