(* ===== verification/Module_Config.thy ===== *)
theory Module_Config
  imports Config "HOL-Library.List_Lexorder"
begin

text \<open>
  The configuration of a module (\<open>module_config.rs\<close>) and the paths that the deployment works with. The TOML
  reader is a parameter of \<open>module_config_parse\<close>; \<open>'o\<close> is the type of the table of options.
\<close>

section \<open>Package identities\<close>

record package_identity =
  pi_owner :: bytes
  pi_name :: bytes
  pi_version :: bytes

datatype module_config_error =
  MC_Toml | MC_Serialize | MC_Path | MC_Io | MC_WireVersion u32 | MC_Instance | MC_Package

definition package_character :: "byte \<Rightarrow> bool" where
  "package_character b \<longleftrightarrow> is_ascii_alphanumeric b \<or> b = 45 \<or> b = 95 \<or> b = 46"

definition version_character :: "byte \<Rightarrow> bool" where
  "version_character b \<longleftrightarrow> package_character b \<or> b = 43"

text \<open>\<open>str::split_once\<close> and \<open>str::rsplit_once\<close> at one character.\<close>

definition split_once :: "'a \<Rightarrow> 'a list \<Rightarrow> ('a list \<times> 'a list) option" where
  "split_once d s = (if d \<in> set s then Some (takeWhile (\<lambda>x. x \<noteq> d) s, tl (dropWhile (\<lambda>x. x \<noteq> d) s)) else None)"

definition rsplit_once :: "'a \<Rightarrow> 'a list \<Rightarrow> ('a list \<times> 'a list) option" where
  "rsplit_once d s = map_option (\<lambda>(a, b). (rev b, rev a)) (split_once d (rev s))"

definition package_from_str :: "bytes \<Rightarrow> module_config_error + package_identity" where
  "package_from_str s =
     rbind (ok_or MC_Package (rsplit_once 64 s)) (\<lambda>(path, version).
     rbind (ok_or MC_Package (split_once 47 path)) (\<lambda>(owner, name).
     if owner = [] \<or> name = [] \<or> 47 \<in> set name \<or> version = [] \<or> \<not> list_all package_character owner
        \<or> \<not> list_all package_character name \<or> \<not> list_all version_character version
     then Inl MC_Package
     else Inr \<lparr>pi_owner = owner, pi_name = name, pi_version = version\<rparr>))"

definition package_display :: "package_identity \<Rightarrow> bytes" where
  "package_display p = pi_owner p @ [47] @ pi_name p @ [64] @ pi_version p"

section \<open>Paths\<close>

text \<open>\<open>Path::parent\<close>, \<open>Path::join\<close> and \<open>Path::starts_with\<close> on components.\<close>

definition path_parent :: "path \<Rightarrow> path option" where
  "path_parent p = (if p = [] \<or> last p = RootDir then None else Some (butlast p))"

definition path_join :: "path \<Rightarrow> path \<Rightarrow> path" where
  "path_join base p = (if path_is_absolute p then p else if base = [] then p else base @ filter (\<lambda>c. c \<noteq> CurDir) p)"

definition path_starts_with :: "path \<Rightarrow> path \<Rightarrow> bool" where
  "path_starts_with p base \<longleftrightarrow> take (length base) p = base"

text \<open>Paths are ordered by their components, these by their kind and name.\<close>

fun component_rank :: "path_component \<Rightarrow> nat" where
  "component_rank RootDir = 0"
| "component_rank CurDir = 1"
| "component_rank ParentDir = 2"
| "component_rank (Normal s) = 3"

fun component_name :: "path_component \<Rightarrow> bytes" where
  "component_name (Normal s) = s"
| "component_name _ = []"

instantiation path_component :: linorder
begin

definition less_eq_path_component :: "path_component \<Rightarrow> path_component \<Rightarrow> bool" where
  "less_eq_path_component a b \<longleftrightarrow>
     component_rank a < component_rank b \<or> component_rank a = component_rank b \<and> component_name a \<le> component_name b"

definition less_path_component :: "path_component \<Rightarrow> path_component \<Rightarrow> bool" where
  "less_path_component a b \<longleftrightarrow>
     component_rank a < component_rank b \<or> component_rank a = component_rank b \<and> component_name a < component_name b"

instance
proof
  fix x y z :: path_component
  show "(x < y) = (x \<le> y \<and> \<not> y \<le> x)" by (auto simp: less_eq_path_component_def less_path_component_def)
  show "x \<le> x" by (simp add: less_eq_path_component_def)
  show "x \<le> y \<Longrightarrow> y \<le> z \<Longrightarrow> x \<le> z" by (auto simp: less_eq_path_component_def)
  show "x \<le> y \<Longrightarrow> y \<le> x \<Longrightarrow> x = y" by (cases x; cases y) (auto simp: less_eq_path_component_def)
  show "x \<le> y \<or> y \<le> x" by (auto simp: less_eq_path_component_def)
qed

end

section \<open>Module configurations\<close>

record 'o module_config =
  mf_wire_version :: u32
  mf_instance :: bytes
  mf_package :: package_identity
  mf_role :: role
  mf_options :: 'o
  mf_base_directory :: path

definition instance_character :: "byte \<Rightarrow> bool" where
  "instance_character b \<longleftrightarrow> is_ascii_alphanumeric b \<or> b = 45 \<or> b = 95"

definition module_config_validate :: "'o module_config \<Rightarrow> module_config_error + unit" where
  "module_config_validate c =
     (if mf_wire_version c \<noteq> WIRE_VERSION then Inl (MC_WireVersion (mf_wire_version c))
      else if mf_instance c = [] \<or> 64 < length (mf_instance c) \<or> \<not> list_all instance_character (mf_instance c) then Inl MC_Instance
      else Inr ())"

text \<open>\<open>current_dir\<close> is \<open>None\<close> when the working directory cannot be read.\<close>

definition module_config_parse ::
    "(bytes \<Rightarrow> 'o module_config option) \<Rightarrow> path option \<Rightarrow> bytes \<Rightarrow> path \<Rightarrow> module_config_error + 'o module_config" where
  "module_config_parse from_str current_dir input path =
     rbind (ok_or MC_Toml (from_str input)) (\<lambda>c.
     rbind (ok_or MC_Path (path_parent path)) (\<lambda>parent.
     rbind (if path_is_absolute parent then Inr parent
            else map_err (\<lambda>_. MC_Io) (rbind (ok_or () current_dir) (\<lambda>d. Inr (path_join d parent)))) (\<lambda>directory.
     (let c = c\<lparr>mf_base_directory := directory\<rparr> in
      rbind (module_config_validate c) (\<lambda>_. Inr c)))))"

definition options_toml :: "('o \<Rightarrow> bytes option) \<Rightarrow> 'o module_config \<Rightarrow> module_config_error + bytes" where
  "options_toml to_string c = ok_or MC_Serialize (to_string (mf_options c))"

section \<open>Properties\<close>

definition package_valid :: "package_identity \<Rightarrow> bool" where
  "package_valid p \<longleftrightarrow> pi_owner p \<noteq> [] \<and> pi_name p \<noteq> [] \<and> pi_version p \<noteq> [] \<and> list_all package_character (pi_owner p)
     \<and> list_all package_character (pi_name p) \<and> list_all version_character (pi_version p)"

lemma split_once_Some: "split_once d s = Some (a, b) \<longleftrightarrow> s = a @ [d] @ b \<and> d \<notin> set a"
proof
  assume "split_once d s = Some (a, b)"
  then have d: "d \<in> set s" "a = takeWhile (\<lambda>x. x \<noteq> d) s" "b = tl (dropWhile (\<lambda>x. x \<noteq> d) s)" by (auto simp: split_once_def split: if_splits)
  then have n: "dropWhile (\<lambda>x. x \<noteq> d) s \<noteq> []" by simp
  then have "dropWhile (\<lambda>x. x \<noteq> d) s = d # b" using d(3) hd_dropWhile [OF n] by (metis list.collapse)
  then show "s = a @ [d] @ b \<and> d \<notin> set a" using d(2) by (metis append_Cons append_Nil set_takeWhileD takeWhile_dropWhile_id)
next
  assume s: "s = a @ [d] @ b \<and> d \<notin> set a"
  have "d \<notin> set a \<Longrightarrow> takeWhile (\<lambda>x. x \<noteq> d) (a @ [d] @ b) = a \<and> dropWhile (\<lambda>x. x \<noteq> d) (a @ [d] @ b) = d # b"
    by (induction a) auto
  then show "split_once d s = Some (a, b)" using s by (simp add: split_once_def)
qed

lemma rsplit_once_Some: "rsplit_once d s = Some (a, b) \<longleftrightarrow> s = a @ [d] @ b \<and> d \<notin> set b"
proof -
  have "rsplit_once d s = Some (a, b) \<longleftrightarrow> split_once d (rev s) = Some (rev b, rev a)"
    by (auto simp: rsplit_once_def)
  also have "\<dots> \<longleftrightarrow> rev s = rev b @ [d] @ rev a \<and> d \<notin> set b" by (simp add: split_once_Some)
  also have "rev s = rev b @ [d] @ rev a \<longleftrightarrow> s = a @ [d] @ b"
    by (metis append.assoc rev_append rev_rev_ident rev_singleton_conv)
  finally show ?thesis .
qed

lemma package_characters: "package_character b \<Longrightarrow> b \<noteq> 47 \<and> b \<noteq> 64" "version_character b \<Longrightarrow> b \<noteq> 64"
  by (auto simp: package_character_def version_character_def is_ascii_alphanumeric_def in_range_def)

text \<open>
  A package identity is one text. A text is read as an identity exactly when it is the way that
  identity is written and each part is made of the characters it may have, so that reading and writing
  are inverse to each other and no two texts name the same package.
\<close>

theorem package_identity_exact: "package_from_str s = Inr p \<longleftrightarrow> s = package_display p \<and> package_valid p"
proof
  assume "package_from_str s = Inr p"
  then obtain path version owner name where p: "rsplit_once 64 s = Some (path, version)" "split_once 47 path = Some (owner, name)"
      "p = \<lparr>pi_owner = owner, pi_name = name, pi_version = version\<rparr>" "package_valid p"
    by (auto simp: package_from_str_def package_valid_def ok_or_def rbind_def split: if_splits option.splits sum.splits prod.splits)
  then show "s = package_display p \<and> package_valid p"
    by (auto simp: rsplit_once_Some split_once_Some package_display_def)
next
  assume a: "s = package_display p \<and> package_valid p"
  then have c: "list_all package_character (pi_owner p)" "list_all package_character (pi_name p)" "list_all version_character (pi_version p)"
    by (auto simp: package_valid_def)
  have n: "64 \<notin> set (pi_version p)" "47 \<notin> set (pi_owner p)" "47 \<notin> set (pi_name p)"
    using c package_characters unfolding list_all_iff by blast+
  have "rsplit_once 64 s = Some (pi_owner p @ [47] @ pi_name p, pi_version p)" using a n by (simp add: rsplit_once_Some package_display_def)
  moreover have "split_once 47 (pi_owner p @ [47] @ pi_name p) = Some (pi_owner p, pi_name p)" using n by (simp add: split_once_Some)
  ultimately show "package_from_str s = Inr p"
    using a n by (simp add: package_from_str_def package_valid_def)
qed

text \<open>
  The characters allow a part that is \<open>..\<close>, which as a path component is the parent directory.
\<close>

lemma parent_is_an_owner:
  "package_from_str (b_str ''../..@1'') = Inr \<lparr>pi_owner = b_str ''..'', pi_name = b_str ''..'', pi_version = b_str ''1''\<rparr>"
  by code_simp

end
