(* ===== verification/Deployment.thy ===== *)
theory Deployment
  imports Module_Config Engine_Config
begin

text \<open>
  Loading a deployment (\<open>deployment.rs\<close>): which module files the tunnels name, the package that each of
  them uses, and the modules that result.

  Files, the working directory, the TOML readers, SHA-256 and the dynamic loader are the environment
  \<open>deploy_env\<close>. A \<open>BTreeMap\<close> is the list of its entries in the order of the keys.
\<close>

section \<open>Data\<close>

datatype deployment_error =
  DE_Io | DE_Config config_error | DE_ModuleConfig module_config_error | DE_Load load_error | DE_Toml | DE_ConfigPath
| DE_PackageLockPath | DE_DuplicateInstance bytes | DE_Class bytes u32 | DE_ConflictingClass path | DE_PackageLock path
| DE_PackageEscape | DE_PackageHash path

record locked_dependency =
  ld_package :: bytes
  ld_version :: bytes
  ld_content_sha256 :: bytes

record package_lock =
  pl_wire_version :: u32
  pl_package :: package_identity
  pl_target :: bytes
  pl_content_sha256 :: bytes
  pl_library :: path
  pl_store :: path
  pl_dependencies :: "locked_dependency list"

record ('o, 'l, 'm) deploy_env =
  dv_read_to_string :: "path \<Rightarrow> bytes option"
  dv_read :: "path \<Rightarrow> bytes option"
  dv_current_dir :: "path option"
  dv_canonicalize :: "path \<Rightarrow> path option"
  dv_sha256 :: "bytes \<Rightarrow> bytes"
  dv_config :: "bytes \<Rightarrow> config option"
  dv_module :: "bytes \<Rightarrow> 'o module_config option"
  dv_options :: "'o \<Rightarrow> bytes option"
  dv_lock :: "bytes \<Rightarrow> package_lock option"
  dv_open :: "bytes \<Rightarrow> string + 'l"
  dv_entry :: "'l \<Rightarrow> string + 'm module_descriptor option"
  dv_state :: 'm

section \<open>The files of the modules\<close>

definition merge_class :: "(path \<times> u32) list \<Rightarrow> path \<Rightarrow> u32 \<Rightarrow> deployment_error + (path \<times> u32) list" where
  "merge_class paths p class =
     (case map_of paths p of
        Some existing \<Rightarrow> if existing \<noteq> class then Inl (DE_ConflictingClass p) else Inr paths
      | None \<Rightarrow> Inr (insort_key fst (p, class) paths))"

fun merge_all :: "(path \<times> u32) list \<Rightarrow> (path \<times> u32) list \<Rightarrow> deployment_error + (path \<times> u32) list" where
  "merge_all paths [] = Inr paths"
| "merge_all paths ((p, class) # rest) = rbind (merge_class paths p class) (\<lambda>paths. merge_all paths rest)"

definition tunnel_files :: "tunnel_config \<Rightarrow> (path \<times> u32) list" where
  "tunnel_files t =
     map (\<lambda>a. (a, CLASS_ADAPTER)) (tunnel_adapters t)
     @ [(tunnel_protection t, CLASS_PROTECTION), (tunnel_carrier t, CLASS_CARRIER), (tunnel_policy t, CLASS_POLICY)]"

definition module_paths :: "config \<Rightarrow> deployment_error + (path \<times> u32) list" where
  "module_paths c = merge_all [] (concat (map tunnel_files (tunnels c)))"

section \<open>Packages\<close>

definition hex_digits :: bytes where
  "hex_digits = b_str ''0123456789abcdef''"

definition hex :: "bytes \<Rightarrow> bytes" where
  "hex bs = concat (map (\<lambda>b. [hex_digits ! (unat b div 16), hex_digits ! (unat b mod 16)]) bs)"

definition hash_file :: "('o, 'l, 'm) deploy_env \<Rightarrow> path \<Rightarrow> bytes option" where
  "hash_file E p = map_option (\<lambda>content. hex (dv_sha256 E content)) (dv_read E p)"

definition lock_compatible :: "package_identity \<Rightarrow> package_lock \<Rightarrow> bool" where
  "lock_compatible package lock \<longleftrightarrow>
     pl_wire_version lock = WIRE_VERSION \<and> pl_package lock = package \<and> pl_target lock \<noteq> [] \<and> pl_store lock \<noteq> []
     \<and> length (pl_content_sha256 lock) = 64
     \<and> list_all (\<lambda>d. ld_package d \<noteq> [] \<and> ld_version d \<noteq> [] \<and> length (ld_content_sha256 d) = 64) (pl_dependencies lock)"

definition lock_file :: "path \<Rightarrow> package_identity \<Rightarrow> path" where
  "lock_file root package =
     path_join (path_join (path_join (path_join root (path_of_string (b_str ''locks'')))
       (path_of_string (pi_owner package))) (path_of_string (pi_name package)))
       (path_of_string (pi_version package @ b_str ''.toml''))"

definition resolve_library :: "('o, 'l, 'm) deploy_env \<Rightarrow> path \<Rightarrow> package_identity \<Rightarrow> deployment_error + path" where
  "resolve_library E package_dir package =
     rbind (ok_or DE_Io (dv_canonicalize E package_dir)) (\<lambda>root.
     (let lock_path = lock_file root package in
      rbind (ok_or DE_Io (dv_read_to_string E lock_path)) (\<lambda>text.
      rbind (ok_or DE_Toml (dv_lock E text)) (\<lambda>lock.
      if \<not> lock_compatible package lock then Inl (DE_PackageLock lock_path)
      else
        rbind (ok_or DE_PackageLockPath (path_parent lock_path)) (\<lambda>lock_directory.
        rbind (ok_or DE_Io (dv_canonicalize E (path_join lock_directory (pl_library lock)))) (\<lambda>library.
        rbind (ok_or DE_Io (dv_canonicalize E (path_join lock_directory (pl_store lock)))) (\<lambda>store.
        if \<not> path_starts_with library root \<or> \<not> path_starts_with store root \<or> \<not> path_starts_with library store
        then Inl DE_PackageEscape
        else
          rbind (ok_or DE_Io (hash_file E library)) (\<lambda>hash.
          if hash \<noteq> map to_ascii_lowercase (pl_content_sha256 lock) then Inl (DE_PackageHash library)
          else Inr library))))))))"

section \<open>Loading\<close>

definition load_module ::
    "('o, 'l, 'm) deploy_env \<Rightarrow> config \<Rightarrow> (bytes \<times> 'm loaded_module) list \<Rightarrow> path \<Rightarrow> u32
       \<Rightarrow> deployment_error + (bytes \<times> 'm loaded_module) list" where
  "load_module E c instances p class =
     rbind (ok_or DE_Io (dv_read_to_string E p)) (\<lambda>input.
     rbind (map_err DE_ModuleConfig (module_config_parse (dv_module E) (dv_current_dir E) input p)) (\<lambda>mc.
     if mf_instance mc \<in> fst ` set instances then Inl (DE_DuplicateInstance (mf_instance mc))
     else
       rbind (resolve_library E (packages (config_paths c)) (mf_package mc)) (\<lambda>library.
       rbind (map_err DE_ModuleConfig (options_toml (dv_options E) mc)) (\<lambda>options.
       rbind (map_err DE_Load (load (dv_open E) (dv_entry E) (dv_state E) (mf_instance mc) (string_of_path library) options
                (string_of_path (mf_base_directory mc)) (string_of_path p))) (\<lambda>loaded.
       if and (lm_class_mask loaded) class = 0 then Inl (DE_Class (mf_instance mc) class)
       else Inr (insort_key fst (mf_instance mc, loaded) instances))))))"

fun load_modules ::
    "('o, 'l, 'm) deploy_env \<Rightarrow> config \<Rightarrow> (bytes \<times> 'm loaded_module) list \<Rightarrow> (path \<times> u32) list
       \<Rightarrow> deployment_error + (bytes \<times> 'm loaded_module) list" where
  "load_modules E c instances [] = Inr instances"
| "load_modules E c instances ((p, class) # rest) =
     rbind (load_module E c instances p class) (\<lambda>instances. load_modules E c instances rest)"

definition absolute :: "('o, 'l, 'm) deploy_env \<Rightarrow> path \<Rightarrow> deployment_error + path" where
  "absolute E p =
     (if path_is_absolute p then Inr p else rbind (ok_or DE_Io (dv_current_dir E)) (\<lambda>d. Inr (path_join d p)))"

definition deployment_load :: "('o, 'l, 'm) deploy_env \<Rightarrow> path \<Rightarrow> deployment_error + config \<times> 'm loaded_module list" where
  "deployment_load E path =
     rbind (absolute E path) (\<lambda>p.
     rbind (ok_or DE_ConfigPath (path_parent p)) (\<lambda>directory.
     rbind (ok_or DE_Io (dv_read_to_string E p)) (\<lambda>input.
     rbind (map_err DE_Config (config_parse (dv_config E) input directory)) (\<lambda>c.
     rbind (module_paths c) (\<lambda>expected.
     rbind (load_modules E c [] expected) (\<lambda>instances.
     Inr (c, map snd instances)))))))"

section \<open>Paths as text\<close>

text \<open>The components that the standard library gives for some path.\<close>

definition path_wf :: "path \<Rightarrow> bool" where
  "path_wf p \<longleftrightarrow> p \<noteq> [] \<and> RootDir \<notin> set (tl p) \<and> CurDir \<notin> set (tl p)
     \<and> (\<forall>s. Normal s \<in> set p \<longrightarrow> s \<noteq> [] \<and> 47 \<notin> set s \<and> s \<noteq> b_str ''.'' \<and> s \<noteq> b_str ''..'')"

lemma split_join: "ps \<noteq> [] \<Longrightarrow> \<forall>p \<in> set ps. d \<notin> set p \<Longrightarrow> split_on d (join_with d ps) = ps"
  by (induction d ps rule: join_with.induct) (auto simp: split_on_single split_on_append)

lemma dots: "47 \<notin> set (b_str ''.'')" "47 \<notin> set (b_str ''..'')" "b_str ''.'' \<noteq> []" "b_str ''..'' \<noteq> []" "b_str ''..'' \<noteq> b_str ''.''"
  by code_simp+

lemma component_text:
  assumes "path_wf p" and "c \<in> set p"
  shows "47 \<notin> set (string_of_component c)"
  using assms dots by (cases c) (auto simp: path_wf_def)

lemma tail_components:
  assumes "\<forall>c \<in> set cs. c \<noteq> RootDir \<and> c \<noteq> CurDir \<and> (\<forall>s. c = Normal s \<longrightarrow> s \<noteq> [] \<and> s \<noteq> b_str ''.'' \<and> s \<noteq> b_str ''..'')"
  shows "map (\<lambda>p. if p = b_str ''..'' then ParentDir else Normal p) (filter (\<lambda>p. p \<noteq> [] \<and> p \<noteq> b_str ''.'') (map string_of_component cs)) = cs"
  using assms
proof (induction cs)
  case (Cons c cs)
  then show ?case using dots by (cases c) auto
qed simp

lemma path_of_string_of_path:
  assumes "path_wf p"
  shows "path_of_string (string_of_path p) = p"
proof (cases "p = [RootDir]")
  case True
  then show ?thesis by (simp add: string_of_path_def path_of_string_def)
next
  case False
  obtain c cs where p: "p = c # cs" using assms by (cases p) (auto simp: path_wf_def)
  define ps where "ps = map string_of_component p"
  have sj: "split_on 47 (join_with 47 ps) = ps"
    using component_text [OF assms] p by (intro split_join) (auto simp: ps_def)
  have s: "string_of_path p = join_with 47 ps" using False by (simp add: string_of_path_def ps_def)
  have tl: "\<forall>c \<in> set cs. c \<noteq> RootDir \<and> c \<noteq> CurDir \<and> (\<forall>s. c = Normal s \<longrightarrow> s \<noteq> [] \<and> s \<noteq> b_str ''.'' \<and> s \<noteq> b_str ''..'')"
    using assms p by (auto simp: path_wf_def)
  note named = tail_components [OF tl]
  show ?thesis
  proof (cases c)
    case RootDir
    then obtain x xs where cs: "cs = x # xs" using False p by (cases cs) auto
    have "join_with 47 ps = 47 # join_with 47 (map string_of_component cs)" by (simp add: ps_def p RootDir cs)
    then show ?thesis using sj named by (simp add: path_of_string_def s Let_def) (simp add: ps_def p RootDir)
  next
    case CurDir
    have "hd (join_with 47 ps) = 46 \<and> join_with 47 ps \<noteq> []" by (cases cs) (simp_all add: ps_def p CurDir b_str_def)
    then show ?thesis using sj named dots by (simp add: path_of_string_def s Let_def split: list.split) (auto simp: ps_def p CurDir)
  next
    case ParentDir
    have "hd (join_with 47 ps) = 46 \<and> join_with 47 ps \<noteq> []" by (cases cs) (simp_all add: ps_def p ParentDir b_str_def)
    then show ?thesis using sj named dots by (simp add: path_of_string_def s Let_def split: list.split) (auto simp: ps_def p ParentDir)
  next
    case (Normal n)
    have n: "n \<noteq> []" "47 \<notin> set n" "n \<noteq> b_str ''.''" "n \<noteq> b_str ''..''" using assms by (auto simp: path_wf_def p Normal)
    then have "hd (join_with 47 ps) \<noteq> 47 \<and> join_with 47 ps \<noteq> []" by (cases cs; cases n) (simp_all add: ps_def p Normal)
    then show ?thesis using sj named n by (simp add: path_of_string_def s Let_def split: list.split) (auto simp: ps_def p Normal)
  qed
qed

section \<open>What is loaded\<close>

lemma distinct_insort_fst [simp]:
  "distinct (map fst (insort_key fst x xs)) \<longleftrightarrow> fst x \<notin> fst ` set xs \<and> distinct (map fst xs)"
  by (induction xs) (auto simp: set_insort_key)

lemma merge_all_collects:
  "merge_all paths files = Inr expected \<Longrightarrow> distinct (map fst paths)
     \<Longrightarrow> distinct (map fst expected) \<and> set paths \<union> set files \<subseteq> set expected \<and> set expected \<subseteq> set paths \<union> set files"
proof (induction paths files rule: merge_all.induct)
  case (2 paths p k rest)
  obtain paths1 where m: "merge_class paths p k = Inr paths1" "merge_all paths1 rest = Inr expected"
    using "2.prems"(1) by (auto simp: result_simps)
  have "distinct (map fst paths1) \<and> set paths1 = insert (p, k) (set paths)"
  proof (cases "map_of paths p")
    case None
    then have "paths1 = insort_key fst (p, k) paths" using m(1) by (simp add: merge_class_def)
    then show ?thesis using None "2.prems"(2) by (simp add: set_insort_key map_of_eq_None_iff)
  next
    case (Some k2)
    then show ?thesis using m(1) "2.prems"(2) map_of_SomeD [OF Some] by (auto simp: merge_class_def split: if_splits)
  qed
  then show ?case using "2.IH" [OF m(2)] by auto
qed simp

lemma load_keeps:
  assumes "load open_library entry m name path options base source = Inr l"
  shows "lm_source_config l = source \<and> lm_instance_name l = name \<and> lm_path l = path"
proof -
  define x where "x d n k = \<lparr>lm_descriptor = d, lm_source_config = source, lm_path = path, lm_instance_name = name, lm_name = n,
      lm_class_mask = k, lm_config = options, lm_base_directory = base, lm_instance = None, lm_state = m\<rparr>"
    for d :: "'a module_descriptor" and n k
  obtain d n k where "l = fst (lm_validate_config (x d n k))"
    using assms by (auto simp: load_def result_simps x_def split: prod.splits) (metis prod.collapse)
  then show ?thesis by (auto simp: lm_validate_config_def x_def split: option.split prod.split)
qed

text \<open>What is known of the modules loaded so far.\<close>

definition loaded_ok :: "(bytes \<times> 'm loaded_module) list \<Rightarrow> bool" where
  "loaded_ok instances \<longleftrightarrow> distinct (map fst instances) \<and> (\<forall>(n, l) \<in> set instances. lm_instance_name l = n)
     \<and> distinct (map (lm_source_config \<circ> snd) instances)"

lemma load_module_adds:
  fixes E :: "('o, 'l, 'm) deploy_env"
  assumes "load_module E c instances p class = Inr instances'" and "loaded_ok instances"
    and "string_of_path p \<notin> (lm_source_config \<circ> snd) ` set instances"
  obtains name l where "set instances' = insert (name, l) (set instances)" "loaded_ok instances'"
    "lm_source_config l = string_of_path p" "and (lm_class_mask l) class \<noteq> 0"
proof -
  obtain mc :: "'o module_config" and library options l where h: "mf_instance mc \<notin> fst ` set instances"
      "load (dv_open E) (dv_entry E) (dv_state E) (mf_instance mc) (string_of_path library) options
         (string_of_path (mf_base_directory mc)) (string_of_path p) = Inr l"
      "and (lm_class_mask l) class \<noteq> 0" "instances' = insort_key fst (mf_instance mc, l) instances"
    using assms(1) by (auto simp: load_module_def result_simps split: if_splits)
  note k = load_keeps [OF h(2)]
  have d: "distinct (map (lm_source_config \<circ> snd) (insort_key fst x xs)) \<longleftrightarrow> distinct (map (lm_source_config \<circ> snd) (x # xs))"
    for x :: "bytes \<times> 'm loaded_module" and xs
    by (induction xs) (auto simp: set_insort_key)
  have "loaded_ok instances'" using assms(2,3) h(1) k unfolding h(4) loaded_ok_def d by (auto simp: set_insort_key)
  then show ?thesis using that [of "mf_instance mc" l] h k by (simp add: set_insort_key)
qed

lemma load_modules_adds:
  assumes "load_modules E c instances files = Inr instances'" and "loaded_ok instances"
    and "distinct (map (string_of_path \<circ> fst) files)"
    and "(string_of_path \<circ> fst) ` set files \<inter> (lm_source_config \<circ> snd) ` set instances = {}"
  shows "loaded_ok instances' \<and> set instances \<subseteq> set instances'
    \<and> (lm_source_config \<circ> snd) ` set instances' = (lm_source_config \<circ> snd) ` set instances \<union> (string_of_path \<circ> fst) ` set files
    \<and> (\<forall>f \<in> set files. \<exists>l \<in> snd ` set instances'. lm_source_config l = string_of_path (fst f) \<and> and (lm_class_mask l) (snd f) \<noteq> 0)"
  using assms
proof (induction E c instances files rule: load_modules.induct)
  case (2 E c instances p k rest)
  obtain i1 where m: "load_module E c instances p k = Inr i1" "load_modules E c i1 rest = Inr instances'"
    using "2.prems"(1) by (auto simp: result_simps)
  have "string_of_path p \<notin> (lm_source_config \<circ> snd) ` set instances" using "2.prems"(4) by auto
  then obtain name l where a: "set i1 = insert (name, l) (set instances)" "loaded_ok i1"
      "lm_source_config l = string_of_path p" "and (lm_class_mask l) k \<noteq> 0"
    using load_module_adds [OF m(1) "2.prems"(2)] by metis
  have d: "distinct (map (string_of_path \<circ> fst) rest)" "string_of_path p \<notin> (string_of_path \<circ> fst) ` set rest"
    using "2.prems"(3) by (auto simp: comp_def)
  have "(string_of_path \<circ> fst) ` set rest \<inter> (lm_source_config \<circ> snd) ` set i1 = {}"
    using "2.prems"(4) d(2) a(1,3) by auto
  note ih = "2.IH" [OF m(2) a(2) d(1) this]
  then have "(name, l) \<in> set instances'" using a(1) by blast
  then have "\<exists>l \<in> snd ` set instances'. lm_source_config l = string_of_path p \<and> and (lm_class_mask l) k \<noteq> 0"
    using a(3,4) image_eqI [of l snd "(name, l)"] by auto
  then show ?case using ih a(1,3) by simp
qed simp

lemma find_module_unique:
  assumes "distinct (map (\<lambda>l. path_of_string (lm_source_config l)) modules)" and "l \<in> set modules"
    and "path_of_string (lm_source_config l) = p" and "and (lm_class_mask l) class \<noteq> 0"
  shows "\<exists>i. find_module modules p class = Inr i"
proof -
  obtain i where i: "i < length modules" "modules ! i = l" using assms(2) by (metis in_set_conv_nth)
  let ?ok = "\<lambda>i. path_of_string (lm_source_config (modules ! i)) = p \<and> and (lm_class_mask (modules ! i)) class \<noteq> 0"
  have "?ok j \<longleftrightarrow> j = i" if "j < length modules" for j
    using assms i that nth_eq_iff_index_eq [OF assms(1), of j i] by auto
  then have s: "set (filter ?ok [0..<length modules]) = {i}" using i by auto
  have "distinct (filter ?ok [0..<length modules])" by simp
  then have "filter ?ok [0..<length modules] = [i]"
    using s by (cases "filter ?ok [0..<length modules]") (auto simp: subset_singleton_iff intro: ccontr)
  then show ?thesis by (simp add: find_module_def)
qed

text \<open>The bits of the classes, gathered from all modules.\<close>

lemma scan_names:
  "distinct (map lm_instance_name ms) \<Longrightarrow> set (map lm_instance_name ms) \<inter> set seen = {}
     \<Longrightarrow> \<exists>k. scan_instances seen classes ms = Inr k"
  by (induction ms arbitrary: seen classes) auto

lemma and_or_absorb: "and (or a b) m = m" if "and a m = (m :: u32)"
  using that by (intro bit_eqI) (metis bit_and_iff bit_or_iff)

lemma scan_collects:
  "scan_instances seen classes ms = Inr k \<Longrightarrow> (\<forall>m. and classes m = m \<longrightarrow> and k m = m)
     \<and> (\<forall>l \<in> set ms. \<forall>m. and (lm_class_mask l) m = m \<longrightarrow> and k m = m)"
proof (induction ms arbitrary: seen classes)
  case (Cons l ms)
  then have s: "scan_instances (lm_instance_name l # seen) (or classes (lm_class_mask l)) ms = Inr k" by (auto split: if_splits)
  have "and (or classes (lm_class_mask l)) m = m" if "and classes m = m \<or> and (lm_class_mask l) m = m" for m
    using that and_or_absorb [of classes m "lm_class_mask l"] and_or_absorb [of "lm_class_mask l" m classes] by (auto simp: or.commute)
  then show ?case using Cons.IH [OF s] by auto
qed auto

lemma single_bit:
  assumes "and a m \<noteq> 0" and "m \<in> {CLASS_ADAPTER, CLASS_PROTECTION, CLASS_CARRIER, CLASS_POLICY}"
  shows "and a m = m"
proof -
  have "\<exists>n. m = 2 ^ n" using assms(2)
    by (auto simp: class_codes intro: exI [of _ 0] exI [of _ 1] exI [of _ 2] exI [of _ 3])
  then obtain n where n: "m = 2 ^ n" by blast
  have "bit a n" using assms(1) by (simp add: n and_exp_eq_0_iff_not_bit)
  then show ?thesis by (intro bit_eqI) (auto simp: n bit_and_iff bit_exp_iff)
qed

lemma find_modules_unique: "(\<And>p. p \<in> set ps \<Longrightarrow> \<exists>i. find_module modules p class = Inr i) \<Longrightarrow> \<exists>is. find_modules modules ps class = Inr is"
proof (induction ps)
  case (Cons p ps)
  obtain i "is" where "find_module modules p class = Inr i" "find_modules modules ps class = Inr is"
    using Cons.IH Cons.prems by (meson list.set_intros)
  then show ?case by simp
qed simp

text \<open>The errors that are left when every file of the tunnels is found.\<close>

definition description_error :: "engine_error \<Rightarrow> bool" where
  "description_error e \<longleftrightarrow> (\<exists>l. e = Engine_Module l) \<or> e = ModuleDescription \<or> e = ResourceOverflow"

definition found :: "'m loaded_module list \<Rightarrow> path \<times> u32 \<Rightarrow> bool" where
  "found modules f \<longleftrightarrow> (\<exists>i. find_module modules (fst f) (snd f) = Inr i)"

lemma find_module_static:
  assumes "map static_of ms = map static_of ns"
  shows "find_module ms p class = find_module ns p class"
proof -
  have l: "length ms = length ns" using assms map_eq_imp_length_eq by blast
  have "filter (\<lambda>i. path_of_string (lm_source_config (ms ! i)) = p \<and> and (lm_class_mask (ms ! i)) class \<noteq> 0) [0..<length ms]
      = filter (\<lambda>i. path_of_string (lm_source_config (ns ! i)) = p \<and> and (lm_class_mask (ns ! i)) class \<noteq> 0) [0..<length ns]"
    unfolding l by (rule filter_cong) (use static_nth [OF assms] in auto)
  then show ?thesis by (simp add: find_module_def)
qed

lemma bind_tunnel_errors:
  assumes "\<forall>f \<in> set (tunnel_files t). found modules f" and "bind_tunnel toml c modules t = (modules', Inl e)"
  shows "description_error e"
proof -
  obtain "as" where a: "find_modules modules (tunnel_adapters t) CLASS_ADAPTER = Inr as"
    using find_modules_unique [of "tunnel_adapters t" modules CLASS_ADAPTER] assms(1) by (auto simp: tunnel_files_def found_def)
  obtain p q r where f: "find_module modules (tunnel_protection t) CLASS_PROTECTION = Inr p"
      "find_module modules (tunnel_carrier t) CLASS_CARRIER = Inr q" "find_module modules (tunnel_policy t) CLASS_POLICY = Inr r"
    using assms(1) by (auto simp: tunnel_files_def found_def)
  obtain l ctx where d: "channel_security_context toml (modules ! p) (tunnel_role t) = (l, ctx)" by fastforce
  have "description_error e'" if "ctx = Inl e'" for e'
    using d that by (auto simp: channel_security_context_def description_error_def result_simps map_err_def ok_or_def
        split: prod.splits if_splits sum.splits option.splits)
  moreover have "description_error e'" if "core_io_limit (engine_of c) = Inl e'" for e'
    using that by (auto simp: core_io_limit_def description_error_def ok_or_def split: option.splits)
  ultimately show ?thesis
    using assms(2) by (auto simp: bind_tunnel_def a f d rbind_def Let_def split: sum.splits)
qed

lemma bind_tunnels_errors:
  "\<forall>t \<in> set ts. \<forall>f \<in> set (tunnel_files t). found modules f \<Longrightarrow> bind_tunnels toml c modules ts = (modules', r)
     \<Longrightarrow> (case r of Inl e \<Rightarrow> description_error e | Inr bs \<Rightarrow> length bs = length ts)"
proof (induction ts arbitrary: modules modules' r)
  case (Cons t ts)
  obtain m1 r1 where b: "bind_tunnel toml c modules t = (m1, r1)" by fastforce
  show ?case
  proof (cases r1)
    case (Inl e)
    then show ?thesis using Cons.prems b bind_tunnel_errors [of t modules toml c m1 e] by auto
  next
    case (Inr x)
    obtain m2 r2 where bs: "bind_tunnels toml c m1 ts = (m2, r2)" by fastforce
    have "map static_of m1 = map static_of modules" using bind_tunnel_bound [OF b] by blast
    from find_module_static [OF this] have "\<forall>t \<in> set ts. \<forall>f \<in> set (tunnel_files t). found m1 f"
      using Cons.prems(1) by (simp add: found_def)
    from Cons.IH [OF this bs] show ?thesis using Cons.prems(2) b Inr bs by (cases r2) auto
  qed
qed auto

lemma deployed_files_found:
  assumes "module_paths c = Inr expected" and "load_modules E c [] expected = Inr instances"
    and "\<forall>f \<in> set (concat (map tunnel_files (tunnels c))). path_wf (fst f)"
  shows "distinct (map lm_instance_name (map snd instances))
    \<and> (\<forall>f \<in> set (concat (map tunnel_files (tunnels c))). found (map snd instances) f
         \<and> (\<exists>l \<in> set (map snd instances). and (lm_class_mask l) (snd f) \<noteq> 0))"
proof -
  have ex: "distinct (map fst expected)" "set expected = set (concat (map tunnel_files (tunnels c)))"
    using merge_all_collects [OF assms(1) [unfolded module_paths_def]] by auto
  have inv: "path_of_string (string_of_path (fst f)) = fst f" if "f \<in> set expected" for f
    using path_of_string_of_path assms(3) ex(2) that by blast
  have inj: "inj_on string_of_path (fst ` set expected)"
    by (rule inj_on_inverseI [of _ path_of_string]) (use inv in auto)
  then have "distinct (map string_of_path (map fst expected))" using ex(1) by (simp only: distinct_map set_map list.set_map)
  then have "distinct (map (string_of_path \<circ> fst) expected)" by simp
  from load_modules_adds [OF assms(2) _ this] have l: "loaded_ok instances"
      "(lm_source_config \<circ> snd) ` set instances = (string_of_path \<circ> fst) ` set expected"
      "\<forall>f \<in> set expected. \<exists>l \<in> snd ` set instances. lm_source_config l = string_of_path (fst f) \<and> and (lm_class_mask l) (snd f) \<noteq> 0"
    by (simp_all add: loaded_ok_def)
  have names: "map lm_instance_name (map snd instances) = map fst instances"
    using l(1) by (auto simp: loaded_ok_def)
  have "inj_on path_of_string (set (map (lm_source_config \<circ> snd) instances))"
    by (rule inj_on_inverseI [of _ string_of_path]) (use l(2) inv in auto)
  then have "distinct (map path_of_string (map (lm_source_config \<circ> snd) instances))"
    using l(1) by (simp only: distinct_map loaded_ok_def)
  then have src: "distinct (map (\<lambda>l. path_of_string (lm_source_config l)) (map snd instances))"
    by (simp add: comp_def)
  have "found (map snd instances) f \<and> (\<exists>l \<in> set (map snd instances). and (lm_class_mask l) (snd f) \<noteq> 0)" if f: "f \<in> set expected" for f
  proof -
    obtain x where x: "x \<in> snd ` set instances" "lm_source_config x = string_of_path (fst f)" "and (lm_class_mask x) (snd f) \<noteq> 0"
      using l(3) f by blast
    then show ?thesis using find_module_unique [OF src, of x "fst f" "snd f"] inv [OF f] by (auto simp: found_def)
  qed
  moreover have "distinct (map lm_instance_name (map snd instances))" unfolding names using l(1) by (simp add: loaded_ok_def)
  ultimately show ?thesis unfolding ex(2) by blast
qed

lemma loaded_config_valid:
  assumes "deployment_load E path = Inr (c, modules)"
  obtains expected instances where "validate c = Inr ()" "module_paths c = Inr expected" "load_modules E c [] expected = Inr instances"
    "modules = map snd instances"
  using assms that by (auto simp: deployment_load_def result_simps config_parse_def Let_def)

lemma validate_nonempty:
  assumes "validate c = Inr ()"
  shows "tunnels c \<noteq> [] \<and> (\<forall>t \<in> set (tunnels c). tunnel_adapters t \<noteq> [])"
  using assms unfolding validate_def Let_def
  by (elim rbindE) (auto simp: validate_tunnels_iff tunnels_ok_def list_all_iff)

lemma known_classes_or:
  assumes "and k CLASS_ADAPTER = CLASS_ADAPTER" "and k CLASS_PROTECTION = CLASS_PROTECTION" "and k CLASS_CARRIER = CLASS_CARRIER"
    "and k CLASS_POLICY = CLASS_POLICY"
  shows "and k KNOWN_CLASSES = KNOWN_CLASSES"
  using assms by (simp add: KNOWN_CLASSES_def and.assoc bit.conj_disj_distrib)

text \<open>
  C8: what loads can be bound. When a deployment has been loaded, the engine finds every module that the
  tunnels name: the instance names are distinct, each class has a module and each file is the source of
  exactly one module of its class. What can still go wrong is a module that does not describe itself or a
  resource limit that overflows; otherwise every tunnel is bound.
\<close>

theorem deployment_binds:
  assumes "deployment_load E path = Inr (c, modules)"
    and "\<forall>t \<in> set (tunnels c). \<forall>f \<in> set (tunnel_files t). path_wf (fst f)"
  shows "case engine_validate toml c modules of Inl e \<Rightarrow> description_error e | Inr v \<Rightarrow> length (vc_tunnels v) = length (tunnels c)"
proof -
  obtain expected instances where l: "validate c = Inr ()" "module_paths c = Inr expected" "load_modules E c [] expected = Inr instances"
      "modules = map snd instances"
    using loaded_config_valid [OF assms(1)] by metis
  have d: "distinct (map lm_instance_name modules)"
    and f: "\<forall>f \<in> set (concat (map tunnel_files (tunnels c))). found modules f \<and> (\<exists>l \<in> set modules. and (lm_class_mask l) (snd f) \<noteq> 0)"
    using deployed_files_found [OF l(2,3)] assms(2) unfolding l(4) by auto
  obtain k where k: "scan_instances [] 0 modules = Inr k" using scan_names [OF d, of "[]" 0] by auto
  obtain t a "as" where t: "t \<in> set (tunnels c)" "tunnel_adapters t = a # as"
    using validate_nonempty [OF l(1)] by (metis list.set_intros(1) neq_Nil_conv)
  have cls: "and k m = m" if m: "m \<in> {CLASS_ADAPTER, CLASS_PROTECTION, CLASS_CARRIER, CLASS_POLICY}" for m
  proof -
    have "\<exists>f \<in> set (tunnel_files t). snd f = m" using m t(2) by (auto simp: tunnel_files_def)
    then obtain x where x: "x \<in> set modules" "and (lm_class_mask x) m \<noteq> 0" using f t(1) by fastforce
    from single_bit [OF x(2) m] scan_collects [OF k] x(1) show ?thesis by blast
  qed
  have "and k KNOWN_CLASSES = KNOWN_CLASSES" by (rule known_classes_or) (rule cls, simp)+
  moreover obtain ms r where b: "bind_tunnels toml c modules (tunnels c) = (ms, r)" by fastforce
  moreover have "case r of Inl e \<Rightarrow> description_error e | Inr bs \<Rightarrow> length bs = length (tunnels c)"
    using bind_tunnels_errors [OF _ b] f by auto
  ultimately show ?thesis using l(1) k by (cases r) (simp_all add: engine_validate_def map_err_def rbind_def)
qed

text \<open>The files of the low-memory template under \<open>/etc\<close>, with one package that provides every class.\<close>

definition etc :: "string \<Rightarrow> path" where
  "etc file = [RootDir, Normal (b_str ''etc''), Normal (b_str file)]"

definition whole_package :: package_identity where
  "whole_package = \<lparr>pi_owner = b_str ''demo'', pi_name = b_str ''all'', pi_version = b_str ''1''\<rparr>"

definition whole_lock :: package_lock where
  "whole_lock =
     \<lparr>pl_wire_version = WIRE_VERSION, pl_package = whole_package, pl_target = b_str ''x'', pl_content_sha256 = replicate 64 48,
      pl_library = path_of_string (b_str ''/etc/packages/store/all.so''), pl_store = path_of_string (b_str ''/etc/packages/store''),
      pl_dependencies = []\<rparr>"

definition whole_config :: "bytes \<Rightarrow> unit module_config" where
  "whole_config text =
     \<lparr>mf_wire_version = WIRE_VERSION, mf_instance = filter instance_character text, mf_package = whole_package, mf_role = Server,
      mf_options = (), mf_base_directory = []\<rparr>"

definition whole_descriptor :: "nat module_state module_descriptor" where
  "whole_descriptor =
     \<lparr>de_struct_size = DESCRIPTOR_SIZE, de_wire_version = WIRE_VERSION, de_class_mask = KNOWN_CLASSES, de_reserved = 0,
      de_name = Some (b_str ''all''), de_describe = Some (\<lambda>m out. (m, out, 0, STATUS_OK)),
      de_validate_config = Some (\<lambda>m config base out. (m, out, 0, STATUS_OK)), de_create = Some (\<lambda>m config base. (m, 1, STATUS_OK)),
      de_poll = Some (\<lambda>m h. (m, STATUS_OK)), de_control = Some (\<lambda>m h input out. (m, out, 0, STATUS_OK)),
      de_shutdown = Some (\<lambda>m h. (m, STATUS_OK)), de_destroy = Some (\<lambda>m h. m), de_byte_io = Some demo_bytes, de_datagram_io = None,
      de_adapter = Some demo_adapter,
      de_protection = Some \<lparr>pa_struct_size = PROTECTION_API_SIZE, pa_flags = 0, pa_wrap = Some (\<lambda>m h low table ctx. (m, 4, STATUS_OK))\<rparr>,
      de_carrier = Some \<lparr>ca_struct_size = CARRIER_API_SIZE, ca_reserved = 0, ca_connect = Some (\<lambda>m h target. (m, 2, STATUS_OK)),
        ca_accept = Some (\<lambda>m h. (m, 2, STATUS_OK))\<rparr>,
      de_policy = Some \<lparr>po_struct_size = POLICY_API_SIZE, po_flags = POLICY_PASSTHROUGH_TCP,
        po_attach_session = Some (\<lambda>m h stream io ctx. (m, 7, STATUS_OK)), po_admit_flow = Some (\<lambda>m h session md. (m, STATUS_OK)),
        po_attach_flow = Some (\<lambda>m h session a x b y. (m, STATUS_OK)), po_attach_datagram_flow = None,
        po_admit_resolved = Some (\<lambda>m h session md. (m, STATUS_OK))\<rparr>\<rparr>"

definition etc_env :: "(unit, unit, nat module_state) deploy_env" where
  "etc_env =
     \<lparr>dv_read_to_string = (\<lambda>p. Some (string_of_path p)), dv_read = (\<lambda>p. Some []), dv_current_dir = Some (etc ''run''),
      dv_canonicalize = Some, dv_sha256 = (\<lambda>content. replicate 32 0), dv_config = (\<lambda>text. Some low_memory_template),
      dv_module = (\<lambda>text. Some (whole_config text)), dv_options = (\<lambda>options. Some []), dv_lock = (\<lambda>text. Some whole_lock),
      dv_open = (\<lambda>path. Inr ()), dv_entry = (\<lambda>library. Inr (Some whole_descriptor)), dv_state = demo_created\<rparr>"

lemma whole_validates: "validate_descriptor whole_descriptor = Inr (b_str ''all'', KNOWN_CLASSES)"
  by code_simp

lemma whole_load:
  "load (dv_open etc_env) (dv_entry etc_env) (dv_state etc_env) name path options base source =
     Inr \<lparr>lm_descriptor = whole_descriptor, lm_source_config = source, lm_path = path, lm_instance_name = name, lm_name = b_str ''all'',
       lm_class_mask = KNOWN_CLASSES, lm_config = options, lm_base_directory = base, lm_instance = None, lm_state = demo_created\<rparr>"
proof -
  have v: "de_validate_config whole_descriptor = Some (\<lambda>m config base out. (m, out, 0, STATUS_OK))" by (simp add: whole_descriptor_def)
  show ?thesis by (simp add: load_def etc_env_def map_err_def ok_or_def whole_validates lm_validate_config_def v)
qed

lemma whole_library: "resolve_library etc_env (etc ''packages'') whole_package = Inr (path_of_string (b_str ''/etc/packages/store/all.so''))"
  by code_simp

definition etc_config :: config where
  "etc_config = resolve_paths [RootDir, Normal (b_str ''etc'')] low_memory_template"

lemma etc_parse: "validate etc_config = Inr ()" "packages (config_paths etc_config) = etc ''packages''"
    "module_paths etc_config = Inr [(etc ''direct.toml'', CLASS_ADAPTER), (etc ''noise.toml'', CLASS_PROTECTION),
       (etc ''policy.toml'', CLASS_POLICY), (etc ''tcp.toml'', CLASS_CARRIER)]"
  by code_simp+

lemma etc_loads_one:
  assumes "filter instance_character (string_of_path (etc file)) \<notin> fst ` set instances" and "and KNOWN_CLASSES class \<noteq> 0"
    and "module_config_validate (whole_config (string_of_path (etc file))) = Inr ()"
  shows "\<exists>instances'. load_module etc_env etc_config instances (etc file) class = Inr instances'
    \<and> fst ` set instances' = insert (filter instance_character (string_of_path (etc file))) (fst ` set instances)"
proof -
  have p: "path_parent (etc file) = Some [RootDir, Normal (b_str ''etc'')]" "path_is_absolute [RootDir, Normal (b_str ''etc'')]"
    by (simp_all add: etc_def path_parent_def path_is_absolute_def)
  obtain mc where mc: "module_config_parse (dv_module etc_env) (dv_current_dir etc_env) (string_of_path (etc file)) (etc file) = Inr mc"
      "mf_instance mc = filter instance_character (string_of_path (etc file))" "mf_package mc = whole_package"
    using assms(3) p by (simp add: module_config_parse_def etc_env_def whole_config_def module_config_validate_def split: if_splits)
  have "dv_read_to_string etc_env (etc file) = Some (string_of_path (etc file))" "dv_options etc_env o' = Some []" for o'
    by (simp_all add: etc_env_def)
  then show ?thesis using assms(1,2) mc whole_library etc_parse(2)
    by (simp add: load_module_def options_toml_def whole_load map_err_def ok_or_def set_insort_key)
qed

lemma etc_names:
  "distinct (map (\<lambda>f. filter instance_character (string_of_path (etc f))) [''direct.toml'', ''noise.toml'', ''policy.toml'', ''tcp.toml''])"
  "\<forall>f \<in> set [''direct.toml'', ''noise.toml'', ''policy.toml'', ''tcp.toml''].
     module_config_validate (whole_config (string_of_path (etc f))) = Inr ()"
  "\<forall>k \<in> set [CLASS_ADAPTER, CLASS_PROTECTION, CLASS_CARRIER, CLASS_POLICY]. and KNOWN_CLASSES k \<noteq> 0"
  by code_simp+

lemma etc_loads: "\<exists>instances. load_modules etc_env etc_config [] [(etc ''direct.toml'', CLASS_ADAPTER), (etc ''noise.toml'', CLASS_PROTECTION),
       (etc ''policy.toml'', CLASS_POLICY), (etc ''tcp.toml'', CLASS_CARRIER)] = Inr instances"
proof -
  let ?n = "\<lambda>f. filter instance_character (string_of_path (etc f))"
  obtain a where a: "load_module etc_env etc_config [] (etc ''direct.toml'') CLASS_ADAPTER = Inr a" "fst ` set a = {?n ''direct.toml''}"
    using etc_loads_one [of "''direct.toml''" "[]" CLASS_ADAPTER] etc_names by auto
  obtain b where b: "load_module etc_env etc_config a (etc ''noise.toml'') CLASS_PROTECTION = Inr b" "fst ` set b = insert (?n ''noise.toml'') (fst ` set a)"
    using etc_loads_one [of "''noise.toml''" a CLASS_PROTECTION] etc_names a(2) by auto
  obtain c where c: "load_module etc_env etc_config b (etc ''policy.toml'') CLASS_POLICY = Inr c" "fst ` set c = insert (?n ''policy.toml'') (fst ` set b)"
    using etc_loads_one [of "''policy.toml''" b CLASS_POLICY] etc_names a(2) b(2) by auto
  obtain d where d: "load_module etc_env etc_config c (etc ''tcp.toml'') CLASS_CARRIER = Inr d"
    using etc_loads_one [of "''tcp.toml''" c CLASS_CARRIER] etc_names a(2) b(2) c(2) by auto
  show ?thesis using a(1) b(1) c(1) d by simp
qed

lemma etc_deployed: "\<exists>modules. deployment_load etc_env (etc ''snolc.toml'') = Inr (etc_config, modules)"
proof -
  have p: "path_is_absolute (etc ''snolc.toml'')" "path_parent (etc ''snolc.toml'') = Some [RootDir, Normal (b_str ''etc'')]"
    by (simp_all add: etc_def path_parent_def path_is_absolute_def)
  have "config_parse (dv_config etc_env) input [RootDir, Normal (b_str ''etc'')] = Inr etc_config" for input
    using etc_parse(1) by (simp add: config_parse_def etc_env_def etc_config_def)
  moreover have "dv_read_to_string etc_env q = Some (string_of_path q)" for q by (simp add: etc_env_def)
  ultimately show ?thesis using etc_loads p by (auto simp: deployment_load_def absolute_def etc_parse(3) map_err_def)
qed

lemma etc_files_wf: "\<forall>t \<in> set (tunnels etc_config). \<forall>f \<in> set (tunnel_files t). path_wf (fst f)"
proof -
  have t: "tunnels etc_config = [demo_tunnel\<lparr>tunnel_adapters := [etc ''direct.toml''], tunnel_protection := etc ''noise.toml'',
      tunnel_carrier := etc ''tcp.toml'', tunnel_policy := etc ''policy.toml''\<rparr>]" by code_simp
  have "path_wf (etc f)" if "f \<in> set [''direct.toml'', ''noise.toml'', ''policy.toml'', ''tcp.toml'']" for f
  proof -
    have "47 \<notin> set (b_str f) \<and> b_str f \<noteq> [] \<and> b_str f \<noteq> b_str ''.'' \<and> b_str f \<noteq> b_str ''..''"
      using that by (auto simp: b_str_def)
    moreover have "47 \<notin> set (b_str ''etc'') \<and> b_str ''etc'' \<noteq> [] \<and> b_str ''etc'' \<noteq> b_str ''.'' \<and> b_str ''etc'' \<noteq> b_str ''..''"
      by code_simp
    ultimately show ?thesis by (auto simp: path_wf_def etc_def)
  qed
  then show ?thesis by (simp add: t tunnel_files_def)
qed

theorem deployment_binds_witness:
  "\<exists>modules. deployment_load etc_env (etc ''snolc.toml'') = Inr (etc_config, modules)
     \<and> (case engine_validate all_true etc_config modules of Inl e \<Rightarrow> description_error e
         | Inr v \<Rightarrow> length (vc_tunnels v) = length (tunnels etc_config))"
proof -
  obtain modules where "deployment_load etc_env (etc ''snolc.toml'') = Inr (etc_config, modules)" using etc_deployed by blast
  then show ?thesis using deployment_binds [OF _ etc_files_wf] by blast
qed

text \<open>The library of a loaded module: where it lies and what was checked of its content.\<close>

definition library_checked :: "('o, 'l, 'm) deploy_env \<Rightarrow> config \<Rightarrow> 'm loaded_module \<Rightarrow> bool" where
  "library_checked E c l \<longleftrightarrow> (\<exists>root package lock_text lock library.
     dv_canonicalize E (packages (config_paths c)) = Some root
     \<and> dv_read_to_string E (lock_file root package) = Some lock_text \<and> dv_lock E lock_text = Some lock \<and> lock_compatible package lock
     \<and> path_starts_with library root \<and> hash_file E library = Some (map to_ascii_lowercase (pl_content_sha256 lock))
     \<and> lm_path l = string_of_path library)"

lemma resolve_library_checked:
  assumes "resolve_library E (packages (config_paths c)) package = Inr library" and "lm_path l = string_of_path library"
  shows "library_checked E c l"
proof -
  obtain root lock_text lock where "dv_canonicalize E (packages (config_paths c)) = Some root"
      "dv_read_to_string E (lock_file root package) = Some lock_text" "dv_lock E lock_text = Some lock" "lock_compatible package lock"
      "path_starts_with library root" "hash_file E library = Some (map to_ascii_lowercase (pl_content_sha256 lock))"
    using assms(1) by (auto simp: resolve_library_def Let_def result_simps ok_or_def split: if_splits option.splits)
  then show ?thesis using assms(2) unfolding library_checked_def by blast
qed

lemma load_module_checked:
  fixes E :: "('o, 'l, 'm) deploy_env"
  assumes "load_module E c instances p class = Inr instances'" and "\<forall>x \<in> set instances. library_checked E c (snd x)"
  shows "\<forall>x \<in> set instances'. library_checked E c (snd x)"
proof -
  obtain mc :: "'o module_config" and library options l where h: "resolve_library E (packages (config_paths c)) (mf_package mc) = Inr library"
      "load (dv_open E) (dv_entry E) (dv_state E) (mf_instance mc) (string_of_path library) options
         (string_of_path (mf_base_directory mc)) (string_of_path p) = Inr l"
      "instances' = insort_key fst (mf_instance mc, l) instances"
    using assms(1) by (auto simp: load_module_def result_simps split: if_splits)
  from load_keeps [OF h(2)] have "library_checked E c l" using resolve_library_checked [OF h(1)] by blast
  then show ?thesis using assms(2) by (simp add: h(3) set_insort_key)
qed

lemma load_modules_checked:
  "load_modules E c instances files = Inr instances' \<Longrightarrow> \<forall>x \<in> set instances. library_checked E c (snd x)
     \<Longrightarrow> \<forall>x \<in> set instances'. library_checked E c (snd x)"
proof (induction E c instances files rule: load_modules.induct)
  case (2 E c instances p k rest)
  obtain i1 where m: "load_module E c instances p k = Inr i1" "load_modules E c i1 rest = Inr instances'"
    using "2.prems"(1) by (auto simp: result_simps)
  from "2.IH" [OF m(2) load_module_checked [OF m(1) "2.prems"(2)]] show ?case .
qed simp



end
