(* ===== verification/Tunnel.thy ===== *)
theory Tunnel
  imports Flow_Policy
begin

text \<open>
  A tunnel (\<open>engine.rs\<close>: \<open>TunnelRuntime\<close>): how it is established stage by stage, times out, fails and
  starts again, and what a session is when it is dropped on the way.

  Instants are nanoseconds. \<open>clock i\<close> is the time at the \<open>i\<close>-th place of a poll that reads it. Messages
  are kept as the errors they are the text of.
\<close>

section \<open>State\<close>

type_synonym instant = nat

definition millis :: "nat \<Rightarrow> nat" where
  "millis n = n * 1000000"

datatype stage = Stage_Carrier | Stage_Protection | Stage_Handshake | Stage_PolicyAttach | Stage_Established

datatype tunnel_update = Update_None | CarrierReady | Protected | PolicyOpen | Update_Established

datatype tunnel_failure =
  Timed_Out stage | Failed_Module load_error | Failed_Mux mux_error | Failed_CoreIo core_io_error
| Failed_Session session_flow_error | Carrier_Unavailable | Policy_Stream_Unavailable | Session_Unavailable

text \<open>The future of the handshake creates its session when it is polled for the first time.\<close>

datatype 'm handshake = Hs_New "'m module_byte_io" | Hs_Running session_future "'m mux"

datatype 'm tunnel_state =
  Carrier
| Protection "'m module_byte_io option"
| Handshake "'m handshake"
| PolicyAttach "'m mux option" "u64 option"
| Established "'m established_session"

record 'm tunnel_runtime =
  tr_binding :: tunnel_binding
  tr_state :: "'m tunnel_state"
  tr_deadline :: "instant option"
  tr_retry_at :: "instant option"

fun stage_of :: "'m tunnel_state \<Rightarrow> stage" where
  "stage_of Carrier = Stage_Carrier"
| "stage_of (Protection lower) = Stage_Protection"
| "stage_of (Handshake h) = Stage_Handshake"
| "stage_of (PolicyAttach mux stream) = Stage_PolicyAttach"
| "stage_of (Established s) = Stage_Established"

definition connect_deadline :: "tunnel_binding \<Rightarrow> instant \<Rightarrow> instant option" where
  "connect_deadline b now = (case tb_role b of Client \<Rightarrow> Some (now + millis (tb_connect_timeout b)) | Server \<Rightarrow> None)"

definition tunnel_new :: "tunnel_binding \<Rightarrow> instant \<Rightarrow> 'm tunnel_runtime" where
  "tunnel_new b now = \<lparr>tr_binding = b, tr_state = Carrier, tr_deadline = connect_deadline b now, tr_retry_at = None\<rparr>"

fun tunnel_is_idle :: "'m tunnel_runtime \<Rightarrow> bool" where
  "tunnel_is_idle t = (case tr_state t of Established s \<Rightarrow> session_is_idle (tb_role (tr_binding t)) s | _ \<Rightarrow> False)"

definition flow_count :: "'m tunnel_runtime \<Rightarrow> nat" where
  "flow_count t = (case tr_state t of Established s \<Rightarrow> length (es_active s) | _ \<Rightarrow> 0)"

section \<open>Dropping a state\<close>

text \<open>
  What else than memory goes with a state: the registration of a policy stream that was not handed
  over, and the ports of the flows a session was still opening. Streams of the multiplexer and of the
  carrier belong to the connection that goes.
\<close>

fun drop_openings :: "'n engine_env \<Rightarrow> (session_future \<times> pending_client_flow) list \<Rightarrow> ('m, 'n, unit) flow" where
  "drop_openings E [] = fret ()"
| "drop_openings E ((future, pending) # rest) = fbind (drop_policy_port E (pc_policy_port pending)) (\<lambda>_. drop_openings E rest)"

definition drop_session :: "'n engine_env \<Rightarrow> ('m, 'n, unit) flow" where
  "drop_session E =
     fbind fget (\<lambda>(s, w).
     fbind (drop_openings E (es_openings s)) (\<lambda>_.
     fbind (case es_pending s of None \<Rightarrow> fret () | Some pending \<Rightarrow> drop_pending_ports E (ps_ports pending)) (\<lambda>_.
     case es_client_pending s of None \<Rightarrow> fret () | Some pending \<Rightarrow> drop_policy_port E (pc_policy_port pending))))"

fun drop_state :: "'n engine_env \<Rightarrow> 'm tunnel_state \<Rightarrow> ('m, 'n) engine_world \<Rightarrow> ('m, 'n) engine_world option" where
  "drop_state E (PolicyAttach mux (Some handle)) w =
     Some (w\<lparr>ew_registry := registered_drop \<lparr>rg_handle = handle, rg_transferred = False\<rparr> (ew_registry w)\<rparr>)"
| "drop_state E (Established s) w = map_option (\<lambda>((_, w), _). w) (drop_session E (s, w))"
| "drop_state E _ w = Some w"

section \<open>Operations\<close>

type_synonym ('m, 'n, 'a) tunnel_result = "('m tunnel_runtime \<times> ('m, 'n) engine_world \<times> 'a) option"

definition tunnel_reset ::
    "'n engine_env \<Rightarrow> instant \<Rightarrow> 'm tunnel_runtime \<Rightarrow> ('m, 'n) engine_world \<Rightarrow> ('m, 'n, unit) tunnel_result" where
  "tunnel_reset E now t w =
     map_option (\<lambda>w. (t\<lparr>tr_state := Carrier, tr_retry_at := None, tr_deadline := connect_deadline (tr_binding t) now\<rparr>, w, ()))
       (drop_state E (tr_state t) w)"

text \<open>A failed tunnel of a client waits 10 milliseconds before it connects again.\<close>

definition tunnel_fail ::
    "'n engine_env \<Rightarrow> (nat \<Rightarrow> instant) \<Rightarrow> tunnel_failure \<Rightarrow> bool \<Rightarrow> 'm tunnel_runtime \<Rightarrow> ('m, 'n) engine_world
       \<Rightarrow> ('m, 'n, (tunnel_failure \<times> bool) + tunnel_update) tunnel_result" where
  "tunnel_fail E clock message was_established t w =
     map_option (\<lambda>(t, w, _).
       (if tb_role (tr_binding t) = Client then t\<lparr>tr_retry_at := Some (clock 3 + millis 10)\<rparr> else t, w,
        Inl (message, was_established)))
       (tunnel_reset E (clock 2) t w)"

definition mode_of :: "role \<Rightarrow> mux_mode" where
  "mode_of r = (case r of Client \<Rightarrow> Client_Mode | Server \<Rightarrow> Server_Mode)"

definition handshake_run ::
    "tunnel_binding \<Rightarrow> session_future \<Rightarrow> 'm mux \<Rightarrow> session_future \<times> 'm mux \<times> (mux_error + u32) poll" where
  "handshake_run b future mux =
     (case tb_role b of
        Client \<Rightarrow> open_policy module_transport (tb_policy_family b) future mux
      | Server \<Rightarrow> accept_policy module_transport (tb_policy_family b) future mux)"

text \<open>One poll of the future: \<open>None\<close> when the session cannot be created.\<close>

fun handshake_poll ::
    "tunnel_binding \<Rightarrow> 'm handshake \<Rightarrow> (session_future \<times> 'm mux \<times> (mux_error + u32) poll) option" where
  "handshake_poll b (Hs_New io) =
     map_option (\<lambda>mux. handshake_run b Fut_Start mux) (session_new io (mode_of (tb_role b)) (tb_yamux b))"
| "handshake_poll b (Hs_Running future mux) = Some (handshake_run b future mux)"

definition role_context :: "role \<Rightarrow> bytes" where
  "role_context r = b_str (''role = '' @ quoted (role_text r) @ newline)"

text \<open>The stages. A module outside the list panics, which is \<open>None\<close>.\<close>

definition poll_carrier ::
    "'n engine_env \<Rightarrow> (nat \<Rightarrow> instant) \<Rightarrow> 'm tunnel_runtime \<Rightarrow> ('m, 'n) engine_world
       \<Rightarrow> ('m, 'n, (tunnel_failure \<times> bool) + tunnel_update) tunnel_result" where
  "poll_carrier E clock t w =
     (let b = tr_binding t in
      if (case tr_retry_at t of None \<Rightarrow> False | Some retry_at \<Rightarrow> clock 1 < retry_at) then Some (t, w, Inr Update_None)
      else if length (ew_modules w) \<le> tb_carrier b then None
      else
        (case (case tb_role b of
                 Client \<Rightarrow> carrier_connect (ew_modules w ! tb_carrier b) []
               | Server \<Rightarrow> carrier_accept (ew_modules w ! tb_carrier b)) of
           (l, r) \<Rightarrow>
             (let w = w\<lparr>ew_modules := (ew_modules w)[tb_carrier b := l]\<rparr> in
              case r of
                Ready (Inr io) \<Rightarrow>
                  Some (t\<lparr>tr_retry_at := None, tr_state := Protection (Some io),
                          tr_deadline := Some (clock 2 + millis (tb_handshake_timeout b))\<rparr>, w, Inr CarrierReady)
              | Ready (Inl error) \<Rightarrow> tunnel_fail E clock (Failed_Module error) False t w
              | Pending \<Rightarrow> Some (t, w, Inr Update_None)
              | Panicked \<Rightarrow> None)))"

definition poll_protection ::
    "'n engine_env \<Rightarrow> (nat \<Rightarrow> instant) \<Rightarrow> 'm module_byte_io option \<Rightarrow> 'm tunnel_runtime \<Rightarrow> ('m, 'n) engine_world
       \<Rightarrow> ('m, 'n, (tunnel_failure \<times> bool) + tunnel_update) tunnel_result" where
  "poll_protection E clock lower t w =
     (let b = tr_binding t in
      if length (ew_modules w) \<le> tb_protection b then None
      else if protection_passthrough (ew_modules w ! tb_protection b) then
        (case lower of
           None \<Rightarrow> tunnel_fail E clock Carrier_Unavailable False t w
         | Some io \<Rightarrow> Some (t\<lparr>tr_state := Handshake (Hs_New io)\<rparr>, w, Inr Protected))
      else
        (case protection_wrap (ew_modules w ! tb_protection b) lower (role_context (tb_role b)) of (l, lower, consumed, r) \<Rightarrow>
           (let t = t\<lparr>tr_state := Protection lower\<rparr>; w = w\<lparr>ew_modules := (ew_modules w)[tb_protection b := l]\<rparr> in
            case r of
              Ready (Inr io) \<Rightarrow> Some (t\<lparr>tr_state := Handshake (Hs_New io)\<rparr>, w, Inr Protected)
            | Ready (Inl error) \<Rightarrow> tunnel_fail E clock (Failed_Module error) False t w
            | Pending \<Rightarrow> Some (t, w, Inr Update_None)
            | Panicked \<Rightarrow> None)))"

definition poll_handshake ::
    "'n engine_env \<Rightarrow> (nat \<Rightarrow> instant) \<Rightarrow> 'm handshake \<Rightarrow> 'm tunnel_runtime \<Rightarrow> ('m, 'n) engine_world
       \<Rightarrow> ('m, 'n, (tunnel_failure \<times> bool) + tunnel_update) tunnel_result" where
  "poll_handshake E clock h t w =
     (case handshake_poll (tr_binding t) h of
        None \<Rightarrow> None
      | Some (future, mux, r) \<Rightarrow>
          (let t = t\<lparr>tr_state := Handshake (Hs_Running future mux)\<rparr> in
           case r of
             Ready (Inr policy_stream) \<Rightarrow>
               (case register_io (ee_streams E, Core_Mux policy_stream) (tb_core_io_limit (tr_binding t)) (ew_registry w) of
                  (reg, Inl error) \<Rightarrow> tunnel_fail E clock (Failed_CoreIo error) False t (w\<lparr>ew_registry := reg\<rparr>)
                | (reg, Inr owner) \<Rightarrow>
                    Some (t\<lparr>tr_state := PolicyAttach (Some mux) (Some (rg_handle owner))\<rparr>, w\<lparr>ew_registry := reg\<rparr>, Inr PolicyOpen))
           | Ready (Inl error) \<Rightarrow> tunnel_fail E clock (Failed_Mux error) False t w
           | Pending \<Rightarrow> Some (t, w, Inr Update_None)
           | Panicked \<Rightarrow> None))"

definition poll_attach ::
    "'n engine_env \<Rightarrow> (nat \<Rightarrow> instant) \<Rightarrow> 'm mux option \<Rightarrow> u64 option \<Rightarrow> 'm tunnel_runtime \<Rightarrow> ('m, 'n) engine_world
       \<Rightarrow> ('m, 'n, (tunnel_failure \<times> bool) + tunnel_update) tunnel_result" where
  "poll_attach E clock mux stream t w =
     (let b = tr_binding t in
      case stream of
        None \<Rightarrow> tunnel_fail E clock Policy_Stream_Unavailable False t w
      | Some handle \<Rightarrow>
          if length (ew_modules w) \<le> tb_policy b then None
          else
            (case policy_attach_session (ew_modules w ! tb_policy b) handle (ee_byte_table E) (tb_policy_context b) of (l, r) \<Rightarrow>
               (let w = w\<lparr>ew_modules := (ew_modules w)[tb_policy b := l]\<rparr> in
                case r of
                  Ready (Inr policy_session) \<Rightarrow>
                    (case mux of
                       None \<Rightarrow> tunnel_fail E clock Session_Unavailable False (t\<lparr>tr_state := PolicyAttach None None\<rparr>) w
                     | Some mux \<Rightarrow>
                         Some (t\<lparr>tr_state := Established (established_new mux policy_session), tr_deadline := None\<rparr>, w,
                               Inr Update_Established))
                | Ready (Inl error) \<Rightarrow> tunnel_fail E clock (Failed_Module error) False t w
                | Pending \<Rightarrow> Some (t, w, Inr Update_None)
                | Panicked \<Rightarrow> None)))"

definition poll_established ::
    "'n engine_env \<Rightarrow> (nat \<Rightarrow> instant) \<Rightarrow> 'm established_session \<Rightarrow> 'm tunnel_runtime \<Rightarrow> ('m, 'n) engine_world
       \<Rightarrow> ('m, 'n, (tunnel_failure \<times> bool) + tunnel_update) tunnel_result" where
  "poll_established E clock s t w =
     (case session_poll E (tr_binding t) (s, w) of
        None \<Rightarrow> None
      | Some ((s, w), r) \<Rightarrow>
          (let t = t\<lparr>tr_state := Established s\<rparr> in
           case r of
             Inl error \<Rightarrow> tunnel_fail E clock (Failed_Session error) True t w
           | Inr _ \<Rightarrow> Some (t, w, Inr Update_None)))"

definition tunnel_poll ::
    "'n engine_env \<Rightarrow> (nat \<Rightarrow> instant) \<Rightarrow> 'm tunnel_runtime \<Rightarrow> ('m, 'n) engine_world
       \<Rightarrow> ('m, 'n, (tunnel_failure \<times> bool) + tunnel_update) tunnel_result" where
  "tunnel_poll E clock t w =
     (if (case tr_deadline t of None \<Rightarrow> False | Some deadline \<Rightarrow> deadline \<le> clock 0) then
        map_option (\<lambda>(t', w, _). (t', w, Inl (Timed_Out (stage_of (tr_state t)), False))) (tunnel_reset E (clock 2) t w)
      else case tr_state t of
        Carrier \<Rightarrow> poll_carrier E clock t w
      | Protection lower \<Rightarrow> poll_protection E clock lower t w
      | Handshake h \<Rightarrow> poll_handshake E clock h t w
      | PolicyAttach mux stream \<Rightarrow> poll_attach E clock mux stream t w
      | Established s \<Rightarrow> poll_established E clock s t w)"

section \<open>Runs of a tunnel\<close>

text \<open>
  A tunnel is created, polled and reset, with whatever clock, world and modules; the session of an
  established tunnel also changes between polls, through the streams that modules hold.
\<close>

inductive tunnel_turns :: "tunnel_binding \<Rightarrow> 'm tunnel_runtime \<Rightarrow> ('m, 'n) engine_world \<Rightarrow> bool" for b where
  created: "tunnel_turns b (tunnel_new b now) w"
| polled: "tunnel_turns b t w \<Longrightarrow> tunnel_poll E clock t w = Some (t', w', r) \<Longrightarrow> tunnel_turns b t' w'"
| reset: "tunnel_turns b t w \<Longrightarrow> tunnel_reset E now t w = Some (t', w', ()) \<Longrightarrow> tunnel_turns b t' w'"
| world: "tunnel_turns b t w \<Longrightarrow> tunnel_turns b t w'"
| streams: "tunnel_turns b t w \<Longrightarrow> tr_state t = Established s \<Longrightarrow> tunnel_turns b (t\<lparr>tr_state := Established s'\<rparr>) w"

text \<open>
  What holds of a tunnel in every stage: the streams it needs are there, it has a deadline exactly
  while something is to be established within a time, and it waits only before connecting again.
\<close>

definition tunnel_inv :: "tunnel_binding \<Rightarrow> 'm tunnel_runtime \<Rightarrow> bool" where
  "tunnel_inv b t \<longleftrightarrow>
     tr_binding t = b
     \<and> (tr_deadline t = None \<longleftrightarrow> stage_of (tr_state t) = Stage_Established \<or> tr_state t = Carrier \<and> tb_role b = Server)
     \<and> (tr_retry_at t \<noteq> None \<longrightarrow> tr_state t = Carrier \<and> tb_role b = Client)
     \<and> (\<forall>lower. tr_state t = Protection lower \<longrightarrow> lower \<noteq> None)
     \<and> (\<forall>mux stream. tr_state t = PolicyAttach mux stream \<longrightarrow> mux \<noteq> None \<and> stream \<noteq> None)"

fun next_stage :: "tunnel_update \<Rightarrow> stage \<Rightarrow> stage \<Rightarrow> bool" where
  "next_stage Update_None a a' \<longleftrightarrow> a' = a"
| "next_stage CarrierReady a a' \<longleftrightarrow> a = Stage_Carrier \<and> a' = Stage_Protection"
| "next_stage Protected a a' \<longleftrightarrow> a = Stage_Protection \<and> a' = Stage_Handshake"
| "next_stage PolicyOpen a a' \<longleftrightarrow> a = Stage_Handshake \<and> a' = Stage_PolicyAttach"
| "next_stage Update_Established a a' \<longleftrightarrow> a = Stage_PolicyAttach \<and> a' = Stage_Established"

text \<open>One poll: the stage goes on by one, stays, or falls back to the carrier.\<close>

definition stepped ::
    "(nat \<Rightarrow> instant) \<Rightarrow> 'm tunnel_runtime \<Rightarrow> 'm tunnel_runtime \<Rightarrow> (tunnel_failure \<times> bool) + tunnel_update \<Rightarrow> bool" where
  "stepped clock t t' r \<longleftrightarrow>
     (case r of
        Inr u \<Rightarrow> next_stage u (stage_of (tr_state t)) (stage_of (tr_state t'))
          \<and> tr_deadline t' = (case u of CarrierReady \<Rightarrow> Some (clock 2 + millis (tb_handshake_timeout (tr_binding t)))
                              | Update_Established \<Rightarrow> None | _ \<Rightarrow> tr_deadline t)
      | Inl (message, was_established) \<Rightarrow>
          tr_state t' = Carrier \<and> (was_established \<longleftrightarrow> stage_of (tr_state t) = Stage_Established)
          \<and> message \<notin> {Carrier_Unavailable, Policy_Stream_Unavailable, Session_Unavailable})"

lemma connect_deadline_None [simp]: "connect_deadline b now = None \<longleftrightarrow> tb_role b = Server"
  by (cases "tb_role b") (simp_all add: connect_deadline_def)

text \<open>A tunnel back at the carrier.\<close>

definition restarted :: "tunnel_binding \<Rightarrow> 'm tunnel_runtime \<Rightarrow> bool" where
  "restarted b t \<longleftrightarrow> tr_binding t = b \<and> tr_state t = Carrier \<and> (tr_deadline t = None \<longleftrightarrow> tb_role b = Server)
     \<and> (tr_retry_at t = None \<or> tb_role b = Client)"

lemma restarted_inv: "restarted b t \<Longrightarrow> tunnel_inv b t"
  by (auto simp: restarted_def tunnel_inv_def)

lemma tunnel_reset_restarts:
  assumes "tr_binding t = b" and "tunnel_reset E now t w = Some (t', w', u)"
  shows "restarted b t'"
proof -
  have "t' = t\<lparr>tr_state := Carrier, tr_retry_at := None, tr_deadline := connect_deadline (tr_binding t) now\<rparr>"
    using assms(2) by (cases "drop_state E (tr_state t) w") (simp_all add: tunnel_reset_def)
  then show ?thesis by (simp add: restarted_def assms(1))
qed

lemma tunnel_fail_restarts:
  assumes "tr_binding t = b" and "tunnel_fail E clock message e t w = Some (t', w', r)"
  shows "restarted b t' \<and> r = Inl (message, e)"
proof (cases "tunnel_reset E (clock 2) t w")
  case None
  then show ?thesis using assms(2) by (simp add: tunnel_fail_def)
next
  case (Some x)
  obtain t1 w1 u where x: "x = (t1, w1, u)" using prod_cases3 by blast
  have 1: "restarted b t1" using tunnel_reset_restarts [OF assms(1)] Some x by blast
  have "t' = (if tb_role (tr_binding t1) = Client then t1\<lparr>tr_retry_at := Some (clock 3 + millis 10)\<rparr> else t1) \<and> r = Inl (message, e)"
    using assms(2) Some x by (simp add: tunnel_fail_def)
  with 1 show ?thesis by (cases "tb_role b") (auto simp: restarted_def)
qed

text \<open>The outcomes of a stage.\<close>

definition tunnel_step_ok ::
    "tunnel_binding \<Rightarrow> (nat \<Rightarrow> instant) \<Rightarrow> 'm tunnel_runtime \<Rightarrow> 'm tunnel_runtime \<Rightarrow> (tunnel_failure \<times> bool) + tunnel_update \<Rightarrow> bool" where
  "tunnel_step_ok b clock t t' r \<longleftrightarrow> tunnel_inv b t' \<and> stepped clock t t' r"

lemma failed_ok:
  assumes "tunnel_fail E clock message e t1 w1 = Some (t', w', r)" and "tr_binding t1 = b"
    and "e \<longleftrightarrow> stage_of (tr_state t) = Stage_Established"
    and "message \<notin> {Carrier_Unavailable, Policy_Stream_Unavailable, Session_Unavailable}"
  shows "tunnel_step_ok b clock t t' r"
  using tunnel_fail_restarts [OF assms(2,1)] assms(3,4) restarted_inv [of b t']
  by (simp add: tunnel_step_ok_def stepped_def restarted_def)

lemma poll_carrier_ok:
  assumes "tunnel_inv b t" and "tr_state t = Carrier" and "poll_carrier E clock t w = Some (t', w', r)"
  shows "tunnel_step_ok b clock t t' r"
proof -
  have b: "tr_binding t = b" using assms(1) by (simp add: tunnel_inv_def)
  have same: "tunnel_step_ok b clock t t (Inr Update_None)" using assms(1) by (simp add: tunnel_step_ok_def stepped_def)
  obtain l a where c: "(case tb_role b of Client \<Rightarrow> carrier_connect (ew_modules w ! tb_carrier b) []
      | Server \<Rightarrow> carrier_accept (ew_modules w ! tb_carrier b)) = (l, a)" by fastforce
  consider "t' = t" "r = Inr Update_None" | io where "t' = t\<lparr>tr_retry_at := None, tr_state := Protection (Some io),
        tr_deadline := Some (clock 2 + millis (tb_handshake_timeout b))\<rparr>" "r = Inr CarrierReady"
    | error w1 where "tunnel_fail E clock (Failed_Module error) False t w1 = Some (t', w', r)"
    using assms(3) by (simp add: poll_carrier_def b Let_def c split: if_splits poll.splits sum.splits) blast+
  then show ?thesis
  proof cases
    case 2
    then show ?thesis using assms(2) b by (simp add: tunnel_step_ok_def tunnel_inv_def stepped_def)
  next
    case 3
    then show ?thesis using failed_ok [OF 3 b, of t] assms(2) by simp
  qed (use same in simp)
qed

lemma poll_protection_ok:
  assumes "tunnel_inv b t" and "tr_state t = Protection lower" and "poll_protection E clock lower t w = Some (t', w', r)"
  shows "tunnel_step_ok b clock t t' r"
proof -
  have b: "tr_binding t = b" "tr_deadline t \<noteq> None" "tr_retry_at t = None" "lower \<noteq> None"
    using assms(1,2) by (auto simp: tunnel_inv_def)
  obtain l low c a where p: "protection_wrap (ew_modules w ! tb_protection b) lower (role_context (tb_role b)) = (l, low, c, a)"
    using prod_cases4 by blast
  have low: "low = lower" if "\<And>io. a \<noteq> Ready (Inr io)"
    using p that by (auto simp: protection_wrap_def split: prod.splits poll.splits sum.splits)
  have len: "\<not> length (ew_modules w) \<le> tb_protection b"
    using assms(3) by (auto simp: poll_protection_def b Let_def)
  have handed: "tunnel_step_ok b clock t (t1\<lparr>tr_state := Handshake (Hs_New io)\<rparr>) (Inr Protected)"
    if "tr_binding t1 = b" "tr_deadline t1 = tr_deadline t" "tr_retry_at t1 = None" for t1 io
    using that assms(2) b by (simp add: tunnel_step_ok_def tunnel_inv_def stepped_def)
  show ?thesis
  proof (cases "protection_passthrough (ew_modules w ! tb_protection b)")
    case True
    then obtain io where "t' = t\<lparr>tr_state := Handshake (Hs_New io)\<rparr>" "r = Inr Protected"
      using assms(3) b(4) len by (cases lower) (auto simp: poll_protection_def b(1) Let_def)
    then show ?thesis using handed [of t] b by simp
  next
    case False
    let ?t = "t\<lparr>tr_state := Protection low\<rparr>" and ?w = "w\<lparr>ew_modules := (ew_modules w)[tb_protection b := l]\<rparr>"
    have res: "(case a of
        Ready (Inr io) \<Rightarrow> Some (t\<lparr>tr_state := Handshake (Hs_New io)\<rparr>, ?w, Inr Protected)
      | Ready (Inl error) \<Rightarrow> tunnel_fail E clock (Failed_Module error) False ?t ?w
      | Pending \<Rightarrow> Some (?t, ?w, Inr Update_None)
      | Panicked \<Rightarrow> None) = Some (t', w', r)"
      using assms(3) len False by (simp add: poll_protection_def b Let_def p)
    show ?thesis
    proof (cases a)
      case Pending
      then have "t' = t\<lparr>tr_state := Protection lower\<rparr>" "r = Inr Update_None" using res low by auto
      then show ?thesis using assms(2) b by (simp add: tunnel_step_ok_def tunnel_inv_def stepped_def)
    next
      case (Ready x)
      then show ?thesis
        using res handed [of t] b failed_ok [of E clock _ False ?t ?w t' w' r b t] assms(2) by (cases x) auto
    qed (use res in simp)
  qed
qed

lemma poll_handshake_ok:
  assumes "tunnel_inv b t" and "tr_state t = Handshake h" and "poll_handshake E clock h t w = Some (t', w', r)"
  shows "tunnel_step_ok b clock t t' r"
proof -
  have b: "tr_binding t = b" "tr_deadline t \<noteq> None" "tr_retry_at t = None"
    using assms(1,2) by (auto simp: tunnel_inv_def)
  obtain f mux a where p: "handshake_poll b h = Some (f, mux, a)"
    using assms(3) by (cases "handshake_poll b h") (auto simp: poll_handshake_def b)
  let ?t = "t\<lparr>tr_state := Handshake (Hs_Running f mux)\<rparr>"
  consider "t' = ?t" "r = Inr Update_None"
    | m i where "t' = ?t\<lparr>tr_state := PolicyAttach (Some m) (Some i)\<rparr>" "r = Inr PolicyOpen"
    | error w1 where "tunnel_fail E clock error False ?t w1 = Some (t', w', r)" "error \<notin> {Carrier_Unavailable, Policy_Stream_Unavailable, Session_Unavailable}"
    using assms(3) by (fastforce simp: poll_handshake_def b Let_def p split: prod.splits poll.splits sum.splits)
  then show ?thesis
  proof cases
    case 1
    then show ?thesis using assms(2) b by (simp add: tunnel_step_ok_def tunnel_inv_def stepped_def)
  next
    case 2
    then show ?thesis using assms(2) b by (simp add: tunnel_step_ok_def tunnel_inv_def stepped_def)
  next
    case 3
    then show ?thesis using failed_ok [OF 3(1), of b t] assms(2) b by simp
  qed
qed

lemma poll_attach_ok:
  assumes "tunnel_inv b t" and "tr_state t = PolicyAttach mux stream" and "poll_attach E clock mux stream t w = Some (t', w', r)"
  shows "tunnel_step_ok b clock t t' r"
proof -
  have b: "tr_binding t = b" "tr_deadline t \<noteq> None" "tr_retry_at t = None"
    using assms(1,2) by (auto simp: tunnel_inv_def)
  obtain m i where s: "mux = Some m" "stream = Some i" using assms(1,2) by (auto simp: tunnel_inv_def)
  obtain l a where p: "policy_attach_session (ew_modules w ! tb_policy b) i (ee_byte_table E) (tb_policy_context b) = (l, a)" by fastforce
  consider "t' = t" "r = Inr Update_None"
    | ps where "t' = t\<lparr>tr_state := Established (established_new m ps), tr_deadline := None\<rparr>" "r = Inr Update_Established"
    | error w1 where "tunnel_fail E clock (Failed_Module error) False t w1 = Some (t', w', r)"
    using assms(3) by (simp add: poll_attach_def b s Let_def p split: if_splits poll.splits sum.splits) blast+
  then show ?thesis
  proof cases
    case 1
    then show ?thesis using assms(1) by (simp add: tunnel_step_ok_def stepped_def)
  next
    case 2
    then show ?thesis using assms(2) b by (simp add: tunnel_step_ok_def tunnel_inv_def stepped_def)
  next
    case 3
    then show ?thesis using failed_ok [OF 3 b(1), of t] assms(2) by simp
  qed
qed

lemma poll_established_ok:
  assumes "tunnel_inv b t" and "tr_state t = Established s" and "poll_established E clock s t w = Some (t', w', r)"
  shows "tunnel_step_ok b clock t t' r"
proof -
  have b: "tr_binding t = b" "tr_deadline t = None" "tr_retry_at t = None"
    using assms(1,2) by (auto simp: tunnel_inv_def)
  obtain s1 w1 a where p: "session_poll E b (s, w) = Some ((s1, w1), a)"
    using assms(3) by (cases "session_poll E b (s, w)") (auto simp: poll_established_def b)
  let ?t = "t\<lparr>tr_state := Established s1\<rparr>"
  consider "t' = ?t" "r = Inr Update_None"
    | error where "tunnel_fail E clock (Failed_Session error) True ?t w1 = Some (t', w', r)"
    using assms(3) by (simp add: poll_established_def b Let_def p split: sum.splits)
  then show ?thesis
  proof cases
    case 1
    then show ?thesis using assms(2) b by (simp add: tunnel_step_ok_def tunnel_inv_def stepped_def)
  next
    case 2
    then show ?thesis using failed_ok [OF 2, of b t] assms(2) b by simp
  qed
qed

lemma tunnel_poll_ok:
  assumes "tunnel_inv b t" and "tunnel_poll E clock t w = Some (t', w', r)"
  shows "tunnel_step_ok b clock t t' r"
proof (cases "case tr_deadline t of None \<Rightarrow> False | Some deadline \<Rightarrow> deadline \<le> clock 0")
  case True
  then obtain t1 w1 u where x: "tunnel_reset E (clock 2) t w = Some (t1, w1, u)"
    using assms(2) by (cases "tunnel_reset E (clock 2) t w") (auto simp: tunnel_poll_def)
  have t: "t' = t1" "r = Inl (Timed_Out (stage_of (tr_state t)), False)" using assms(2) True x by (simp_all add: tunnel_poll_def)
  have b: "tr_binding t = b" "stage_of (tr_state t) \<noteq> Stage_Established" using True assms(1) by (auto simp: tunnel_inv_def split: option.splits)
  have "restarted b t1" using tunnel_reset_restarts [OF b(1) x] .
  then show ?thesis using t b(2) restarted_inv [of b t1] by (simp add: tunnel_step_ok_def stepped_def restarted_def)
next
  case False
  note p = assms(2) [unfolded tunnel_poll_def if_not_P [OF False]]
  show ?thesis
  proof (cases "tr_state t")
    case Carrier
    show ?thesis by (rule poll_carrier_ok [OF assms(1) Carrier]) (use p Carrier in simp)
  next
    case (Protection lower)
    show ?thesis by (rule poll_protection_ok [OF assms(1) Protection]) (use p Protection in simp)
  next
    case (Handshake h)
    show ?thesis by (rule poll_handshake_ok [OF assms(1) Handshake]) (use p Handshake in simp)
  next
    case (PolicyAttach mux stream)
    show ?thesis by (rule poll_attach_ok [OF assms(1) PolicyAttach]) (use p PolicyAttach in simp)
  next
    case (Established s)
    show ?thesis by (rule poll_established_ok [OF assms(1) Established]) (use p Established in simp)
  qed
qed

lemma tunnel_turns_inv: "tunnel_turns b t w \<Longrightarrow> tunnel_inv b t"
proof (induction rule: tunnel_turns.induct)
  case (created now w)
  show ?case by (rule restarted_inv) (simp add: restarted_def tunnel_new_def)
next
  case (polled t w E clock t' w' r)
  from tunnel_poll_ok [OF polled.IH polled.hyps(2)] show ?case by (simp add: tunnel_step_ok_def)
next
  case (reset t w E now t' w')
  have "tr_binding t = b" using reset.IH by (simp add: tunnel_inv_def)
  from restarted_inv [OF tunnel_reset_restarts [OF this reset.hyps(2)]] show ?case .
next
  case (streams t w s s')
  then show ?case by (simp add: tunnel_inv_def)
qed

text \<open>
  C3: a tunnel is established stage by stage and never skips one. In every state a tunnel can reach, a
  poll that returns either keeps the stage, or reports and makes exactly the next of the four
  transitions, or fails, and then the tunnel is at the carrier again; a failure is reported as the end
  of a session exactly when the tunnel was established, and the errors for a missing stream or session
  never occur. Whatever happens, the tunnel keeps a deadline while it is being established, has none
  once it is, and only a client that failed waits before it connects again.
\<close>

theorem tunnel_stages_in_order:
  assumes "tunnel_turns b t w" and "tunnel_poll E clock t w = Some (t', w', r)"
  shows "tunnel_inv b t' \<and> stepped clock t t' r"
  using tunnel_poll_ok [OF tunnel_turns_inv [OF assms(1)] assms(2)] by (simp add: tunnel_step_ok_def)

section \<open>Time\<close>

text \<open>An attempt: the carrier was ready at some time and nothing has failed since.\<close>

inductive attempt :: "tunnel_binding \<Rightarrow> instant \<Rightarrow> 'm tunnel_runtime \<Rightarrow> ('m, 'n) engine_world \<Rightarrow> bool" for b where
  ready: "tunnel_turns b t w \<Longrightarrow> tunnel_poll E clock t w = Some (t', w', Inr CarrierReady) \<Longrightarrow> attempt b (clock 2) t' w'"
| goes_on: "attempt b begun t w \<Longrightarrow> tunnel_poll E clock t w = Some (t', w', Inr u) \<Longrightarrow> attempt b begun t' w'"
| elsewhere: "attempt b begun t w \<Longrightarrow> attempt b begun t w'"

lemma attempt_deadline:
  "attempt b begun t w \<Longrightarrow> tunnel_turns b t w \<and> tr_state t \<noteq> Carrier
     \<and> (stage_of (tr_state t) = Stage_Established \<or> tr_deadline t = Some (begun + millis (tb_handshake_timeout b)))"
proof (induction rule: attempt.induct)
  case (ready t w E clock t' w')
  have i: "tunnel_inv b t" using tunnel_turns_inv [OF ready.hyps(1)] .
  have "stepped clock t t' (Inr CarrierReady)" using tunnel_poll_ok [OF i ready.hyps(2)] by (simp add: tunnel_step_ok_def)
  then have "stage_of (tr_state t') = Stage_Protection" "tr_deadline t' = Some (clock 2 + millis (tb_handshake_timeout b))"
    using i by (simp_all add: stepped_def tunnel_inv_def)
  then show ?case using tunnel_turns.polled [OF ready.hyps] by auto
next
  case (goes_on begun t w E clock t' w' u)
  have i: "tunnel_inv b t" using goes_on.IH tunnel_turns_inv by blast
  have st: "tunnel_inv b t'" "stepped clock t t' (Inr u)" using tunnel_poll_ok [OF i goes_on.hyps(2)] by (auto simp: tunnel_step_ok_def)
  have n: "stage_of (tr_state t) \<noteq> Stage_Carrier" using goes_on.IH by (cases "tr_state t") auto
  have "stage_of (tr_state t') \<noteq> Stage_Carrier
      \<and> (stage_of (tr_state t') = Stage_Established \<or> tr_deadline t' = Some (begun + millis (tb_handshake_timeout b)))"
    using goes_on.IH st(2) n by (cases u) (auto simp: stepped_def)
  then show ?case using tunnel_turns.polled [OF _ goes_on.hyps(2)] goes_on.IH by auto
next
  case (elsewhere begun t w w')
  then show ?case using tunnel_turns.world by blast
qed

text \<open>
  C21: establishing a tunnel takes no longer than it may. Once the carrier was ready, a tunnel that is
  not established when the handshake time is over gives up at the next poll, whatever the modules and
  the other side do: it reports the stage it was in and goes back to the carrier.
\<close>

theorem handshake_bounded:
  assumes "attempt b begun t w" and "begun + millis (tb_handshake_timeout b) \<le> clock 0"
    and "tunnel_poll E clock t w = Some (t', w', r)"
  shows "stage_of (tr_state t) = Stage_Established
    \<or> r = Inl (Timed_Out (stage_of (tr_state t)), False) \<and> tr_state t' = Carrier \<and> tr_deadline t' = connect_deadline b (clock 2)"
proof (cases "stage_of (tr_state t) = Stage_Established")
  case False
  then have d: "tr_deadline t = Some (begun + millis (tb_handshake_timeout b))" and b: "tr_binding t = b"
    using attempt_deadline [OF assms(1)] tunnel_turns_inv [of b t w] by (auto simp: tunnel_inv_def)
  then show ?thesis using assms(2,3) by (auto simp: tunnel_poll_def tunnel_reset_def)
qed simp

text \<open>A client whose carrier connects at once and whose protection passes through.\<close>

definition quiet_carrier :: "bytes loaded_module" where
  "quiet_carrier = (bare_module None None)\<lparr>lm_descriptor := (lm_descriptor (bare_module None None))\<lparr>
     de_byte_io := Some quiet_table,
     de_carrier := Some \<lparr>ca_struct_size = CARRIER_API_SIZE, ca_reserved = 0, ca_connect = Some (\<lambda>m h endpoint. (m, 3, STATUS_OK)),
       ca_accept = None\<rparr>,
     de_protection := Some \<lparr>pa_struct_size = PROTECTION_API_SIZE, pa_flags = PROTECTION_PASSTHROUGH, pa_wrap = None\<rparr>\<rparr>\<rparr>"

definition carrier_world :: "nat bridge \<Rightarrow> (bytes, nat) engine_world" where
  "carrier_world br = (client_world br)\<lparr>ew_modules := [quiet_carrier, bare_module None (Some open_policy_table)]\<rparr>"

definition fresh_tunnel :: "bytes tunnel_runtime" where
  "fresh_tunnel = tunnel_new client_binding 5"

definition connected_tunnel :: "bytes tunnel_runtime" where
  "connected_tunnel = fresh_tunnel\<lparr>tr_state := Protection (Some (module_io_new 3 quiet_table [])), tr_deadline := Some 1000000006\<rparr>"

lemma connects: "tunnel_poll client_env (\<lambda>i. 6) fresh_tunnel (carrier_world br) = Some (connected_tunnel, carrier_world br, Inr CarrierReady)"
  by (simp add: tunnel_poll_def fresh_tunnel_def tunnel_new_def connect_deadline_def client_binding_def millis_def poll_carrier_def
      carrier_world_def client_world_def carrier_connect_def with_call_def function_of_def quiet_carrier_def bare_module_def
      ok_or_def rbind_def finish_byte_io_def STATUS_OK_def STATUS_PENDING_def connected_tunnel_def)

theorem tunnel_stages_in_order_witness:
  "stepped (\<lambda>i. 6) fresh_tunnel connected_tunnel (Inr CarrierReady) \<and> stage_of (tr_state connected_tunnel) = Stage_Protection"
proof -
  have "tunnel_turns client_binding fresh_tunnel (carrier_world client_bridge)"
    unfolding fresh_tunnel_def by (rule tunnel_turns.created)
  from tunnel_stages_in_order [OF this connects] show ?thesis by (simp add: connected_tunnel_def)
qed

theorem handshake_bounded_witness:
  "\<exists>t' w'. tunnel_poll client_env (\<lambda>i. 2000000000) connected_tunnel (carrier_world client_bridge)
     = Some (t', w', Inl (Timed_Out Stage_Protection, False)) \<and> tr_state t' = Carrier"
proof -
  have "tunnel_turns client_binding fresh_tunnel (carrier_world client_bridge)"
    unfolding fresh_tunnel_def by (rule tunnel_turns.created)
  from attempt.ready [OF this connects] have a: "attempt client_binding 6 connected_tunnel (carrier_world client_bridge)" .
  obtain t' w' r where p: "tunnel_poll client_env (\<lambda>i. 2000000000) connected_tunnel (carrier_world client_bridge) = Some (t', w', r)"
    by (simp add: tunnel_poll_def connected_tunnel_def tunnel_reset_def)
  from handshake_bounded [OF a _ p] p show ?thesis by (simp add: client_binding_def millis_def connected_tunnel_def)
qed

end
