(* ===== verification/Text_Limits.thy ===== *)
theory Text_Limits
  imports Snolc_Prelude
begin

text \<open>
  Cutting text at a number of bytes, as the control socket and the log do: the cut is moved back to the
  start of a character, so that what is left is text again.
\<close>

text \<open>\<open>while !text.is_char_boundary(end) { end -= 1 }\<close>\<close>

fun floor_boundary :: "bytes \<Rightarrow> nat \<Rightarrow> nat" where
  "floor_boundary s 0 = 0"
| "floor_boundary s (Suc n) = (if is_char_boundary s (Suc n) then Suc n else floor_boundary s n)"

lemma floor_boundary_le: "floor_boundary s n \<le> n"
  by (induction n) auto

lemma floor_boundary_boundary: "is_char_boundary s (floor_boundary s n)"
  by (induction n) (simp_all add: is_char_boundary_def)

lemma floor_boundary_skips: "floor_boundary s n < i \<Longrightarrow> i \<le> n \<Longrightarrow> \<not> is_char_boundary s i"
  by (induction n) (auto split: if_splits elim: le_SucE)

text \<open>Text is a sequence of characters: a byte that starts one and at most three that continue it.\<close>

definition utf8_char :: "bytes \<Rightarrow> bool" where
  "utf8_char c \<longleftrightarrow> c \<noteq> [] \<and> length c \<le> 4 \<and> \<not> utf8_cont (hd c) \<and> list_all utf8_cont (tl c) \<and> (\<forall>t. utf8_valid (c @ t) = utf8_valid t)"

lemma utf8_first:
  assumes "utf8_valid s" and "s \<noteq> []"
  obtains c t where "s = c @ t" "utf8_char c" "utf8_valid t"
proof -
  obtain a r where s: "s = a # r" using assms(2) by (cases s) auto
  have wide: "in_range x lo hi \<Longrightarrow> 128 \<le> lo \<Longrightarrow> hi \<le> 191 \<Longrightarrow> utf8_cont x" for x lo hi
    by (auto simp: utf8_cont_def in_range_def)
  consider "unat a < 128" | "in_range a 194 223" | "in_range a 224 239" | "in_range a 240 244"
    using assms(1) by (auto simp: s split: if_splits)
  then show ?thesis
  proof cases
    case 1
    then show ?thesis using that [of "[a]" r] assms(1) by (auto simp: s utf8_char_def utf8_cont_def in_range_def)
  next
    case 2
    then have n: "\<not> unat a < 128" "\<not> utf8_cont a" by (auto simp: in_range_def utf8_cont_def)
    obtain b t where r: "r = b # t" "utf8_cont b" "utf8_valid t"
      using assms(1) 2 n(1) by (auto simp: s split: list.splits)
    then show ?thesis using that [of "[a, b]" t] 2 n by (simp add: s utf8_char_def)
  next
    case 3
    then have n: "\<not> unat a < 128" "\<not> in_range a 194 223" "\<not> utf8_cont a" by (auto simp: in_range_def utf8_cont_def)
    obtain b c t where r: "r = b # c # t" "in_range b (if a = 224 then 160 else 128) (if a = 237 then 159 else 191)" "utf8_cont c" "utf8_valid t"
      using assms(1) 3 n by (auto simp: s split: list.splits)
    then have "utf8_cont b" using wide [OF r(2)] by (auto split: if_splits)
    then show ?thesis using that [of "[a, b, c]" t] 3 n r by (simp add: s utf8_char_def)
  next
    case 4
    then have n: "\<not> unat a < 128" "\<not> in_range a 194 223" "\<not> in_range a 224 239" "\<not> utf8_cont a" by (auto simp: in_range_def utf8_cont_def)
    obtain b c d t where r: "r = b # c # d # t" "in_range b (if a = 240 then 144 else 128) (if a = 244 then 143 else 191)" "utf8_cont c" "utf8_cont d" "utf8_valid t"
      using assms(1) 4 n by (auto simp: s split: list.splits)
    then have "utf8_cont b" using wide [OF r(2)] by (auto split: if_splits)
    then show ?thesis using that [of "[a, b, c, d]" t] 4 n r by (simp add: s utf8_char_def)
  qed
qed

lemma utf8_hd: "utf8_valid s \<Longrightarrow> s \<noteq> [] \<Longrightarrow> \<not> utf8_cont (hd s)"
  by (erule (1) utf8_first) (auto simp: utf8_char_def)

lemma inside_char:
  assumes "utf8_char c" and "0 < i" and "i < length c"
  shows "\<not> is_char_boundary (c @ t) i"
proof -
  have "(c @ t) ! i = tl c ! (i - 1)" "i - 1 < length (tl c)" using assms by (simp_all add: nth_append nth_tl)
  then have "utf8_cont ((c @ t) ! i)" using assms(1) by (simp add: utf8_char_def list_all_length)
  then show ?thesis using assms by (auto simp: is_char_boundary_def)
qed

text \<open>A prefix of text that ends at a character is text.\<close>

lemma utf8_take: "utf8_valid s \<Longrightarrow> is_char_boundary s i \<Longrightarrow> utf8_valid (take i s)"
proof (induction "length s" arbitrary: s i rule: less_induct)
  case less
  show ?case
  proof (cases "s = [] \<or> i = 0")
    case False
    then obtain c t where s: "s = c @ t" "utf8_char c" "utf8_valid t" using utf8_first [OF less.prems(1)] by blast
    then have c: "c \<noteq> []" "\<And>t. utf8_valid (c @ t) = utf8_valid t" by (simp_all add: utf8_char_def)
    have i: "length c \<le> i" using inside_char [OF s(2), of i t] less.prems(2) False s(1) by (cases "i < length c") auto
    have "is_char_boundary t (i - length c)"
      using less.prems(2) False i by (auto simp: s(1) is_char_boundary_def nth_append)
    then have "utf8_valid (take (i - length c) t)" using less.hyps [of t "i - length c"] s c(1) by simp
    then show ?thesis using i c(2) by (simp add: s(1))
  qed auto
qed

text \<open>A cut moves back by three bytes at most.\<close>

lemma boundary_near: "utf8_valid s \<Longrightarrow> n \<le> length s \<Longrightarrow> \<exists>i \<le> n. n \<le> i + 3 \<and> is_char_boundary s i"
proof (induction "length s" arbitrary: s n rule: less_induct)
  case less
  show ?case
  proof (cases "n \<le> 3")
    case True
    then show ?thesis by (intro exI [of _ 0]) (simp add: is_char_boundary_def)
  next
    case False
    then have "s \<noteq> []" using less.prems(2) by auto
    then obtain c t where s: "s = c @ t" "utf8_char c" "utf8_valid t" using utf8_first [OF less.prems(1)] by blast
    have c: "c \<noteq> []" "length c \<le> n" using s(2) False by (auto simp: utf8_char_def)
    obtain j where j: "j \<le> n - length c" "n - length c \<le> j + 3" "is_char_boundary t j"
      using less.hyps [of t "n - length c"] s c less.prems(2) by (auto simp: le_diff_conv)
    have "is_char_boundary s (length c + j)"
      using j(3) utf8_hd [OF s(3)] by (cases t) (auto simp: s(1) is_char_boundary_def nth_append)
    then show ?thesis using j c by (intro exI [of _ "length c + j"]) auto
  qed
qed

lemma floor_boundary_near: "utf8_valid s \<Longrightarrow> n \<le> length s \<Longrightarrow> n \<le> floor_boundary s n + 3"
  using boundary_near [of s n] floor_boundary_skips [of s n] by (meson add_le_mono1 leI order_trans)

lemma floor_boundary_text: "utf8_valid s \<Longrightarrow> utf8_valid (take (floor_boundary s n) s)"
  by (rule utf8_take [OF _ floor_boundary_boundary])

lemma utf8_append: "utf8_valid s \<Longrightarrow> utf8_valid t \<Longrightarrow> utf8_valid (s @ t)"
proof (induction "length s" arbitrary: s rule: less_induct)
  case less
  show ?case
  proof (cases "s = []")
    case False
    then obtain c r where s: "s = c @ r" "utf8_char c" "utf8_valid r" using utf8_first [OF less.prems(1)] by blast
    then show ?thesis using less.hyps [of r] less.prems(2) by (auto simp: utf8_char_def)
  qed (use less.prems in simp)
qed

end
