(* ===== verification/Logging.thy ===== *)
theory Logging
  imports Text_Limits "HOL-Library.Sublist"
begin

text \<open>
  The log file (\<open>logging.rs\<close>: \<open>FileLogger\<close>): a record is cut to its limit, queued, and appended to a file
  that is compacted when it is full.

  The file system is the file and the temporary file beside it; how each of its operations goes is
  given by \<open>log_io\<close>: a failed write has written some bytes, and a temporary file that could not be filled
  holds whatever was written. Queue and worker run in two threads; the
  operations of the queue, a lock-free one, are atomic steps. Lengths are those of files, below \<open>2^64\<close>.
\<close>

section \<open>Records\<close>

text \<open>An ellipsis, \<open>truncated\<close> and a newline.\<close>

definition TRUNCATED :: bytes where
  "TRUNCATED = [0xE2, 0x80, 0xA6] @ b_str '' truncated'' @ [10]"

definition truncate_record :: "bytes \<Rightarrow> nat \<Rightarrow> bytes" where
  "truncate_record record limit =
     (let needs_newline = (record = [] \<or> last record \<noteq> 10);
          full_length = saturating_add (length record) (if needs_newline then 1 else 0) in
      if full_length \<le> limit then (if needs_newline then record @ [10] else record)
      else if limit \<le> length TRUNCATED then take (min limit 10) (b_str ''truncated'' @ [10])
      else
        (let target = limit - length TRUNCATED;
             boundary = floor_boundary record (min target (length record)) in
         take boundary record @ TRUNCATED))"

section \<open>The queue\<close>

record log_queue =
  lq_capacity :: nat
  lq_records :: "bytes list"
  lq_lost :: nat

text \<open>\<open>push\<close> fails when the queue is full; then the oldest record goes.\<close>

partial_function (option) enqueue :: "bytes \<Rightarrow> log_queue \<Rightarrow> log_queue option" where
  "enqueue record q =
     (if length (lq_records q) < lq_capacity q then Some (q\<lparr>lq_records := lq_records q @ [record]\<rparr>)
      else case lq_records q of
        [] \<Rightarrow> enqueue record q
      | _ # rest \<Rightarrow> enqueue record (q\<lparr>lq_records := rest, lq_lost := lq_lost q + 1\<rparr>))"

definition pop_record :: "log_queue \<Rightarrow> log_queue \<times> bytes option" where
  "pop_record q = (case lq_records q of [] \<Rightarrow> (q, None) | r # rest \<Rightarrow> (q\<lparr>lq_records := rest\<rparr>, Some r))"

section \<open>The file\<close>

datatype log_error = Log_Invalid | Log_Io

record log_fs =
  fs_file :: "bytes option"
  fs_temporary :: "bytes option"

record log_io =
  li_open :: bool
  li_write :: "nat option"
  li_sync :: bool
  li_read :: bool
  li_create :: bool
  li_permit_temporary :: bool
  li_fill :: "bytes option"
  li_rename :: bool
  li_permit :: bool
  li_remove :: bool

text \<open>What a write leaves: all of it, or a part before it failed.\<close>

definition written :: "nat option \<Rightarrow> bytes \<Rightarrow> bytes" where
  "written outcome bs = (case outcome of None \<Rightarrow> bs | Some n \<Rightarrow> take n bs)"

text \<open>The rest of the file after \<open>start\<close>, from the next line on unless it is the whole file.\<close>

definition after_line :: "nat \<Rightarrow> bytes \<Rightarrow> bytes" where
  "after_line start content =
     (if start = 0 then content else drop 1 (dropWhile (\<lambda>b. b \<noteq> 10) (drop start content)))"

definition kept_bytes :: "nat \<Rightarrow> bytes \<Rightarrow> nat" where
  "kept_bytes limit record = min (min u64_max (limit * 3) div 4) (limit - length record)"

definition compact :: "log_io \<Rightarrow> nat \<Rightarrow> bytes \<Rightarrow> log_fs \<Rightarrow> log_fs \<times> (log_error + unit)" where
  "compact io limit record fs =
     (case fs_file fs of
        None \<Rightarrow> (fs, Inl Log_Io)
      | Some content \<Rightarrow>
          if \<not> li_open io then (fs, Inl Log_Io)
          else
            (let keep = kept_bytes limit record;
                 start = length content - keep;
                 rest = take keep (after_line start content) in
             if \<not> li_read io then (fs, Inl Log_Io)
             else if fs_temporary fs \<noteq> None \<or> \<not> li_create io then (fs, Inl Log_Io)
             else
               (let fs = fs\<lparr>fs_temporary := Some []\<rparr> in
                if \<not> li_permit_temporary io then (fs, Inl Log_Io)
                else if li_fill io \<noteq> None \<or> \<not> li_rename io
                then (fs\<lparr>fs_temporary := if li_remove io then None
                                         else Some (case li_fill io of Some left \<Rightarrow> left | None \<Rightarrow> rest @ record)\<rparr>, Inl Log_Io)
                else
                  (let fs = fs\<lparr>fs_file := Some (rest @ record), fs_temporary := None\<rparr> in
                   if li_permit io then (fs, Inr ()) else (fs, Inl Log_Io)))))"

definition append_record :: "log_io \<Rightarrow> nat \<Rightarrow> bytes \<Rightarrow> log_fs \<Rightarrow> log_fs \<times> (log_error + unit)" where
  "append_record io limit record fs =
     (let content = (case fs_file fs of None \<Rightarrow> [] | Some c \<Rightarrow> c) in
      if min u64_max (length content + length record) \<le> limit then
        if \<not> li_open io then (fs, Inl Log_Io)
        else (fs\<lparr>fs_file := Some (content @ written (li_write io) record)\<rparr>,
              if li_write io = None \<and> li_sync io then Inr () else Inl Log_Io)
      else compact io limit record fs)"

section \<open>The logger\<close>

record file_logger =
  fl_queue :: log_queue
  fl_max_record_bytes :: nat
  fl_limit :: nat
  fl_stopping :: bool

text \<open>\<open>prepared\<close> is whether the directory and the file could be prepared; the thread is created after that.\<close>

definition logger_start :: "bool \<Rightarrow> bool \<Rightarrow> nat \<Rightarrow> nat \<Rightarrow> nat \<Rightarrow> nat \<Rightarrow> log_error + file_logger" where
  "logger_start prepared spawned limit_bytes queue_bytes max_record_bytes flush_interval =
     (if limit_bytes = 0 \<or> queue_bytes = 0 \<or> max_record_bytes = 0 \<or> queue_bytes < max_record_bytes
         \<or> limit_bytes < max_record_bytes \<or> flush_interval = 0
      then Inl Log_Invalid
      else if \<not> prepared \<or> \<not> spawned then Inl Log_Io
      else Inr \<lparr>fl_queue = \<lparr>lq_capacity = queue_bytes div max_record_bytes, lq_records = [], lq_lost = 0\<rparr>,
                fl_max_record_bytes = max_record_bytes, fl_limit = limit_bytes, fl_stopping = False\<rparr>)"

definition logger_write :: "bytes \<Rightarrow> file_logger \<Rightarrow> file_logger option" where
  "logger_write record l =
     map_option (\<lambda>q. l\<lparr>fl_queue := q\<rparr>) (enqueue (truncate_record record (fl_max_record_bytes l)) (fl_queue l))"

definition lost_records :: "file_logger \<Rightarrow> nat" where
  "lost_records l = lq_lost (fl_queue l)"

text \<open>One turn of the worker's inner loop: a record is taken and appended; its error goes to the sink.\<close>

definition worker_turn :: "log_io \<Rightarrow> file_logger \<times> log_fs \<times> log_error list \<Rightarrow> (file_logger \<times> log_fs \<times> log_error list) option" where
  "worker_turn io st =
     (case st of (l, fs, errors) \<Rightarrow>
        (case pop_record (fl_queue l) of
           (q, None) \<Rightarrow> None
         | (q, Some record) \<Rightarrow>
             (case append_record io (fl_limit l) record fs of (fs, r) \<Rightarrow>
                Some (l\<lparr>fl_queue := q\<rparr>, fs, errors @ (case r of Inl e \<Rightarrow> [e] | Inr _ \<Rightarrow> [])))))"

text \<open>The worker ends when it is told to stop and nothing is queued.\<close>

definition worker_ends :: "file_logger \<Rightarrow> bool" where
  "worker_ends l \<longleftrightarrow> fl_stopping l \<and> lq_records (fl_queue l) = []"

definition logger_drop :: "file_logger \<Rightarrow> file_logger" where
  "logger_drop l = l\<lparr>fl_stopping := True\<rparr>"

section \<open>Properties of records\<close>

lemma TRUNCATED_text: "length TRUNCATED = 14" "utf8_valid TRUNCATED" "last TRUNCATED = 10" "TRUNCATED \<noteq> []"
  by code_simp+

lemma short_notice:
  "utf8_valid (take n (b_str ''truncated'' @ [10]))" "last (b_str ''truncated'' @ [10]) = 10" "length (b_str ''truncated'' @ [10]) = 10"
proof -
  have "list_all (\<lambda>b. unat b < 128) (b_str ''truncated'' @ [10])" by code_simp
  then have "list_all (\<lambda>b. unat b < 128) (take n (b_str ''truncated'' @ [10]))" by (auto simp: list_all_iff dest: in_set_takeD)
  then show "utf8_valid (take n (b_str ''truncated'' @ [10]))" by (rule ascii_utf8_valid)
qed code_simp+

text \<open>
  A record fits. Whatever is logged, the record has at most as many bytes as it may, is text again,
  and ends the line when there is room for the ten bytes of the shortest notice; a record that fits is
  kept as it is, and of a longer one everything is kept but the notice and at most three bytes of a
  character that would be cut.
\<close>

theorem record_fits:
  assumes "utf8_valid record" and "length record < usize_max"
  shows "length (truncate_record record limit) \<le> limit
    \<and> utf8_valid (truncate_record record limit)
    \<and> (10 \<le> limit \<longrightarrow> truncate_record record limit \<noteq> [] \<and> last (truncate_record record limit) = 10)
    \<and> (length record < limit \<longrightarrow> prefix record (truncate_record record limit))
    \<and> (14 < limit \<longrightarrow> limit < length record \<longrightarrow>
         (\<exists>k. truncate_record record limit = take k record @ TRUNCATED \<and> limit \<le> k + 17))"
proof -
  define newline where "newline = (record = [] \<or> last record \<noteq> 10)"
  have nl: "utf8_valid [10]" by code_simp
  consider (fits) "length record + (if newline then 1 else 0) \<le> limit"
    | (tiny) "limit < length record + (if newline then 1 else 0)" "limit \<le> 14"
    | (cut) "limit < length record + (if newline then 1 else 0)" "14 < limit"
    by linarith
  then show ?thesis
  proof cases
    case fits
    then have t: "truncate_record record limit = (if newline then record @ [10] else record)"
      using assms(2) by (auto simp: truncate_record_def Let_def newline_def saturating_add_def)
    show ?thesis using fits assms(1) utf8_append [OF assms(1) nl] by (auto simp: t newline_def)
  next
    case tiny
    then have t: "truncate_record record limit = take (min limit 10) (b_str ''truncated'' @ [10])"
      using assms(2) by (auto simp: truncate_record_def Let_def newline_def saturating_add_def TRUNCATED_text)
    have "last (take (min limit 10) (b_str ''truncated'' @ [10])) = 10 \<and> take (min limit 10) (b_str ''truncated'' @ [10]) \<noteq> []"
      if "10 \<le> limit" using that short_notice by (simp add: min_def)
    then show ?thesis using tiny short_notice by (auto simp: t newline_def split: if_splits)
  next
    case cut
    define k where "k = floor_boundary record (min (limit - 14) (length record))"
    have t: "truncate_record record limit = take k record @ TRUNCATED"
      using cut assms(2) by (auto simp: truncate_record_def Let_def newline_def saturating_add_def TRUNCATED_text k_def)
    have k: "k \<le> limit - 14" "min (limit - 14) (length record) \<le> k + 3"
      using floor_boundary_le [of "record" "min (limit - 14) (length record)"] floor_boundary_near [OF assms(1), of "min (limit - 14) (length record)"]
      by (auto simp: k_def)
    have u: "utf8_valid (take k record @ TRUNCATED)"
      unfolding k_def by (rule utf8_append [OF floor_boundary_text [OF assms(1)] TRUNCATED_text(2)])
    have n: "\<not> length record < limit" using cut by (auto split: if_splits)
    have "limit \<le> k + 17" if "limit < length record" using k(2) that cut(2) by (simp add: min_def split: if_splits)
    then show ?thesis using k cut u n by (auto simp: t TRUNCATED_text)
  qed
qed

theorem record_fits_witness:
  "length (truncate_record (b_str ''connection refused by the peer'') 24) \<le> 24
   \<and> truncate_record (b_str ''connection refused by the peer'') 24 = b_str ''connection'' @ TRUNCATED"
proof -
  have "utf8_valid (b_str ''connection refused by the peer'')" "length (b_str ''connection refused by the peer'') < usize_max"
    by code_simp+
  moreover have "truncate_record (b_str ''connection refused by the peer'') 24 = b_str ''connection'' @ TRUNCATED" by code_simp
  ultimately show ?thesis using record_fits [of "b_str ''connection refused by the peer''" 24] by blast
qed

section \<open>Properties of the queue\<close>

lemma enqueue_drops:
  assumes "0 < lq_capacity q"
  shows "enqueue record q = Some (q\<lparr>lq_records := drop (length (lq_records q) + 1 - lq_capacity q) (lq_records q) @ [record],
    lq_lost := lq_lost q + (length (lq_records q) + 1 - lq_capacity q)\<rparr>)"
  using assms
proof (induction "lq_records q" arbitrary: q)
  case Nil
  then show ?case by (subst enqueue.simps) simp
next
  case (Cons x xs)
  show ?case
  proof (cases "length (lq_records q) < lq_capacity q")
    case True
    then show ?thesis by (subst enqueue.simps) simp
  next
    case False
    have step: "enqueue record q = enqueue record (q\<lparr>lq_records := xs, lq_lost := lq_lost q + 1\<rparr>)"
      using False Cons.hyps(2) [symmetric] by (subst enqueue.simps) simp
    let ?q = "q\<lparr>lq_records := xs, lq_lost := lq_lost q + 1\<rparr>"
    have n: "length (lq_records q) + 1 - lq_capacity q = Suc (length xs + 1 - lq_capacity q)"
      using False Cons.hyps(2) by (metis Suc_diff_le Suc_eq_plus1 length_Cons not_less)
    have "enqueue record ?q = Some (?q\<lparr>lq_records := drop (length xs + 1 - lq_capacity q) xs @ [record],
        lq_lost := lq_lost q + 1 + (length xs + 1 - lq_capacity q)\<rparr>)"
      using Cons.hyps(1) [of ?q] Cons.prems by simp
    then show ?thesis unfolding step n using Cons.hyps(2) [symmetric] by simp
  qed
qed

lemma sum_lengths: "\<forall>r \<in> set rs. length r \<le> m \<Longrightarrow> sum_list (map length rs) \<le> length rs * m"
  by (induction rs) auto

text \<open>
  C40: logging does not wait and does not grow. With the capacity that a started logger has, queueing a
  record always returns: the queue then holds the latest records, as many as fit, with the new one
  last, the lost records are counted one by one, and what is queued never exceeds the bytes configured
  for it.
\<close>

theorem logging_returns:
  assumes "logger_start prepared spawned limit_bytes queue_bytes max_record_bytes flush_interval = Inr l0"
    and "fl_max_record_bytes l = fl_max_record_bytes l0" and "lq_capacity (fl_queue l) = lq_capacity (fl_queue l0)"
    and "length (lq_records (fl_queue l)) \<le> lq_capacity (fl_queue l)"
    and "\<forall>r \<in> set (lq_records (fl_queue l)). length r \<le> max_record_bytes"
    and "utf8_valid text" and "length text < usize_max"
  shows "\<exists>l' dropped. logger_write text l = Some l'
    \<and> lq_records (fl_queue l) @ [truncate_record text max_record_bytes] = dropped @ lq_records (fl_queue l')
    \<and> lost_records l' = lost_records l + length dropped \<and> length dropped \<le> 1
    \<and> length (lq_records (fl_queue l')) \<le> lq_capacity (fl_queue l')
    \<and> sum_list (map length (lq_records (fl_queue l'))) \<le> queue_bytes"
proof -
  have c: "lq_capacity (fl_queue l) = queue_bytes div max_record_bytes" "fl_max_record_bytes l = max_record_bytes"
      "0 < max_record_bytes" "max_record_bytes \<le> queue_bytes"
    using assms(1-3) by (auto simp: logger_start_def split: if_splits)
  have pos: "0 < lq_capacity (fl_queue l)" using c by (simp add: div_greater_zero_iff)
  let ?r = "truncate_record text max_record_bytes" and ?q = "fl_queue l"
  define n where "n = length (lq_records ?q) + 1 - lq_capacity ?q"
  define l' where "l' = l\<lparr>fl_queue := ?q\<lparr>lq_records := drop n (lq_records ?q) @ [?r], lq_lost := lq_lost ?q + n\<rparr>\<rparr>"
  have w: "logger_write text l = Some l'"
    using enqueue_drops [OF pos, of ?r] c(2) by (simp add: logger_write_def l'_def n_def)
  have n: "n \<le> 1" "n \<le> length (lq_records ?q)" using assms(4) pos by (auto simp: n_def)
  have cap: "lq_capacity (fl_queue l') = queue_bytes div max_record_bytes" using c(1) by (simp add: l'_def)
  have len: "length (lq_records (fl_queue l')) \<le> lq_capacity (fl_queue l')" using n pos by (auto simp: l'_def n_def)
  have "\<forall>r \<in> set (lq_records (fl_queue l')). length r \<le> max_record_bytes"
    using assms(5) record_fits [OF assms(6,7), of max_record_bytes] by (auto simp: l'_def dest: in_set_dropD)
  then have "sum_list (map length (lq_records (fl_queue l'))) \<le> length (lq_records (fl_queue l')) * max_record_bytes"
    by (rule sum_lengths)
  also have "\<dots> \<le> (queue_bytes div max_record_bytes) * max_record_bytes"
    using mult_le_mono1 [OF len, of max_record_bytes] cap by metis
  also have "\<dots> \<le> queue_bytes" by simp
  finally have "sum_list (map length (lq_records (fl_queue l'))) \<le> queue_bytes" .
  moreover have "lq_records ?q @ [?r] = take n (lq_records ?q) @ lq_records (fl_queue l')" by (simp add: l'_def)
  moreover have "lost_records l' = lost_records l + length (take n (lq_records ?q))" using n by (simp add: lost_records_def l'_def)
  ultimately show ?thesis using w len n(1) by (intro exI [of _ l'] exI [of _ "take n (lq_records ?q)"]) simp
qed

definition small_logger :: "bytes list \<Rightarrow> file_logger" where
  "small_logger records = \<lparr>fl_queue = \<lparr>lq_capacity = 1, lq_records = records, lq_lost = 0\<rparr>, fl_max_record_bytes = 16, fl_limit = 64, fl_stopping = False\<rparr>"

theorem logging_returns_witness:
  "\<exists>l'. logger_write (b_str ''second'') (small_logger [b_str ''first'']) = Some l' \<and> lost_records l' = 1"
proof -
  have s: "logger_start True True 64 16 16 1 = Inr (small_logger [])" by (simp add: logger_start_def small_logger_def)
  have t: "utf8_valid (b_str ''second'')" "length (b_str ''second'') < usize_max" by code_simp+
  obtain l' dropped where l: "logger_write (b_str ''second'') (small_logger [b_str ''first'']) = Some l'"
      "lq_records (fl_queue (small_logger [b_str ''first''])) @ [truncate_record (b_str ''second'') 16] = dropped @ lq_records (fl_queue l')"
      "lost_records l' = lost_records (small_logger [b_str ''first'']) + length dropped" "length dropped \<le> 1"
      "length (lq_records (fl_queue l')) \<le> lq_capacity (fl_queue l')"
    using logging_returns [OF s, of "small_logger [b_str ''first'']" "b_str ''second''"] t
    by (auto simp: small_logger_def b_str_def)
  have "lq_capacity (fl_queue l') = 1"
    using l(1) enqueue_drops [of "fl_queue (small_logger [b_str ''first''])"] by (auto simp: logger_write_def small_logger_def)
  then have "length dropped = 1" using arg_cong [OF l(2), of length] l(4,5) by (simp add: small_logger_def)
  then show ?thesis using l(1,3) by (simp add: lost_records_def small_logger_def)
qed

section \<open>Properties of the file\<close>

text \<open>A record as a line: it ends with its only newline.\<close>

definition line :: "bytes \<Rightarrow> bool" where
  "line r \<longleftrightarrow> r \<noteq> [] \<and> last r = 10 \<and> 10 \<notin> set (butlast r)"

lemma line_split: "line r \<Longrightarrow> \<exists>b. r = b @ [10] \<and> 10 \<notin> set b"
  by (metis append_butlast_last_id line_def)

lemma skip_line:
  assumes "\<forall>r \<in> set rs. line r"
  shows "\<exists>k. drop 1 (dropWhile (\<lambda>b. b \<noteq> 10) (drop n (concat rs))) = concat (drop k rs)"
  using assms
proof (induction rs arbitrary: n)
  case (Cons r rs)
  show ?case
  proof (cases "n < length r")
    case True
    obtain b where b: "r = b @ [10]" "10 \<notin> set b" using Cons.prems line_split by auto
    have "drop n (concat (r # rs)) = drop n b @ 10 # concat rs" using True b by simp
    moreover have "dropWhile (\<lambda>b. b \<noteq> 10) (drop n b @ 10 # concat rs) = 10 # concat rs"
      using b(2) by (subst dropWhile_append2) (auto dest: in_set_dropD)
    ultimately show ?thesis by (intro exI [of _ 1]) simp
  next
    case False
    then have "drop n (concat (r # rs)) = drop (n - length r) (concat rs)" by simp
    moreover obtain k where "drop 1 (dropWhile (\<lambda>b. b \<noteq> 10) (drop (n - length r) (concat rs))) = concat (drop k rs)"
      using Cons.IH Cons.prems by fastforce
    ultimately show ?thesis by (intro exI [of _ "Suc k"]) simp
  qed
qed simp

lemma after_line_lines: "\<forall>r \<in> set rs. line r \<Longrightarrow> \<exists>k. after_line start (concat rs) = concat (drop k rs)"
  using skip_line [of rs start] by (cases "start = 0") (auto simp: after_line_def intro: exI [of _ 0])

lemma after_line_length: "length (after_line start content) \<le> length content - start"
  using length_dropWhile_le [of "\<lambda>b. b \<noteq> 10" "drop start content"] by (auto simp: after_line_def)

lemma kept_whole: "take keep (after_line (length content - keep) content) = after_line (length content - keep) content"
  using after_line_length [of "length content - keep" content] by (cases "length content \<le> keep") auto

text \<open>What appending a record does to the file: nothing, the record added, or the record after some of the lines.\<close>

definition file_text :: "log_fs \<Rightarrow> bytes" where
  "file_text fs = (case fs_file fs of None \<Rightarrow> [] | Some c \<Rightarrow> c)"

lemma compact_effect:
  assumes "compact io limit record fs = (fs', r)"
  shows "(fs_file fs' = fs_file fs \<and> r \<noteq> Inr ())
    \<or> fs_file fs' = Some (after_line (length (file_text fs) - kept_bytes limit record) (file_text fs) @ record)"
  using assms kept_whole [of "kept_bytes limit record" "file_text fs"]
  by (auto simp: compact_def Let_def file_text_def split: option.splits if_splits)

lemma append_effect:
  assumes "append_record io limit record fs = (fs', r)" and "li_write io = None \<or> li_write io = Some 0" and "limit < u64_max"
  shows "(file_text fs' = file_text fs \<and> r \<noteq> Inr ())
    \<or> (file_text fs' = file_text fs @ record \<and> length (file_text fs @ record) \<le> limit)
    \<or> file_text fs' = after_line (length (file_text fs) - kept_bytes limit record) (file_text fs) @ record"
proof (cases "min u64_max (length (file_text fs) + length record) \<le> limit")
  case True
  then have "length (file_text fs @ record) \<le> limit" using assms(3) by (simp add: min_def split: if_splits)
  then show ?thesis
    using assms(1,2) True by (auto simp: append_record_def Let_def file_text_def [symmetric] written_def split: if_splits option.splits)
      (auto simp: file_text_def)
next
  case False
  then have c: "compact io limit record fs = (fs', r)" using assms(1) by (simp add: append_record_def Let_def file_text_def)
  show ?thesis using compact_effect [OF c] by (auto simp: file_text_def)
qed

definition append_all :: "nat \<Rightarrow> (log_io \<times> bytes) list \<Rightarrow> log_fs \<Rightarrow> log_fs" where
  "append_all limit ws fs = fold (\<lambda>(io, r) fs. fst (append_record io limit r fs)) ws fs"

lemma append_lines:
  assumes "append_record io limit r fs = (fs', res)" and "li_write io = None \<or> li_write io = Some 0" and "limit < u64_max"
    and "line r" and "length r \<le> limit" and "file_text fs = concat rs" and "\<forall>r \<in> set rs. line r"
  obtains rs' where "file_text fs' = concat rs'" "\<forall>r \<in> set rs'. line r" "subseq rs' (rs @ [r])"
    "res = Inr () \<Longrightarrow> rs' \<noteq> [] \<and> last rs' = r" "length (concat rs) \<le> limit \<Longrightarrow> length (concat rs') \<le> limit"
proof -
  obtain k where k: "after_line (length (concat rs) - kept_bytes limit r) (concat rs) = concat (drop k rs)"
    using after_line_lines [OF assms(7)] by blast
  have len: "length (concat (drop k rs)) + length r \<le> limit"
  proof -
    have "length (concat (drop k rs)) \<le> kept_bytes limit r"
      using after_line_length [of "length (concat rs) - kept_bytes limit r" "concat rs"] by (simp only: k)
    then show ?thesis using assms(5) by (simp add: kept_bytes_def le_diff_conv2)
  qed
  have sub: "subseq (drop k rs @ [r]) (rs @ [r])"
    by (simp add: suffix_imp_subseq suffix_drop)
  consider "file_text fs' = concat rs" "res \<noteq> Inr ()" | "file_text fs' = concat (rs @ [r])" "length (concat (rs @ [r])) \<le> limit"
    | "file_text fs' = concat (drop k rs @ [r])"
    using append_effect [OF assms(1-3)] by (auto simp: assms(6) k)
  then show ?thesis
  proof cases
    case 1
    then show ?thesis using that [of rs] assms(7) by auto
  next
    case 2
    then show ?thesis using that [of "rs @ [r]"] assms(4,7) by auto
  next
    case 3
    then show ?thesis using that [of "drop k rs @ [r]"] assms(4,7) len sub by (auto dest: in_set_dropD)
  qed
qed

lemma append_all_lines:
  assumes "\<forall>(io, r) \<in> set ws. line r \<and> length r \<le> limit \<and> (li_write io = None \<or> li_write io = Some 0)" and "limit < u64_max"
    and "file_text fs = concat rs" and "\<forall>r \<in> set rs. line r"
  obtains rs' where "file_text (append_all limit ws fs) = concat rs'" "\<forall>r \<in> set rs'. line r" "subseq rs' (rs @ map snd ws)"
    "length (concat rs) \<le> limit \<Longrightarrow> length (concat rs') \<le> limit"
proof -
  have "\<exists>rs'. file_text (append_all limit ws fs) = concat rs' \<and> (\<forall>r \<in> set rs'. line r) \<and> subseq rs' (rs @ map snd ws)
      \<and> (length (concat rs) \<le> limit \<longrightarrow> length (concat rs') \<le> limit)"
    using assms(1)
  proof (induction ws rule: rev_induct)
    case Nil
    show ?case by (rule exI [of _ rs]) (use assms(3,4) in \<open>simp add: append_all_def\<close>)
  next
    case (snoc x ws)
    obtain io r where x: "x = (io, r)" by fastforce
    obtain rs1 where 1: "file_text (append_all limit ws fs) = concat rs1" "\<forall>r \<in> set rs1. line r" "subseq rs1 (rs @ map snd ws)"
        "length (concat rs) \<le> limit \<longrightarrow> length (concat rs1) \<le> limit"
      using snoc by auto
    obtain fs' res where a: "append_record io limit r (append_all limit ws fs) = (fs', res)" by fastforce
    have p: "line r" "length r \<le> limit" "li_write io = None \<or> li_write io = Some 0" using snoc.prems by (auto simp: x)
    obtain rs2 where 2: "file_text fs' = concat rs2" "\<forall>r \<in> set rs2. line r" "subseq rs2 (rs1 @ [r])"
        "length (concat rs1) \<le> limit \<Longrightarrow> length (concat rs2) \<le> limit"
      using append_lines [OF a p(3) assms(2) p(1,2) 1(1,2)] by metis
    have "subseq (rs1 @ [r]) ((rs @ map snd ws) @ [r])" using list_emb_append_mono [OF 1(3), of "[r]" "[r]"] by simp
    then have "subseq rs2 (rs @ map snd (ws @ [x]))" using subseq_order.order_trans [OF 2(3)] by (simp add: x)
    moreover have "append_all limit (ws @ [x]) fs = fs'" using a by (simp add: append_all_def x)
    ultimately show ?case using 1 2 by (intro exI [of _ rs2]) auto
  qed
  then show ?thesis using that by blast
qed


definition smooth_io :: log_io where
  "smooth_io = \<lparr>li_open = True, li_write = None, li_sync = True, li_read = True, li_create = True, li_permit_temporary = True,
     li_fill = None, li_rename = True, li_permit = True, li_remove = True\<rparr>"


text \<open>A temporary file that is left behind, as when its permissions could not be set, is never removed.\<close>

lemma stale_temporary_blocks:
  assumes "fs_temporary fs = Some left"
  shows "compact io limit record fs = (fs, Inl Log_Io)"
  using assms by (auto simp: compact_def Let_def split: option.splits)

end
