(* ===== verification/Control.thy ===== *)
theory Control
  imports Text_Limits Module_Config Io_Spec "HOL-Library.Sublist"
begin

text \<open>
  The control socket (\<open>control.rs\<close>): the server that the engine polls and the blocking client.

  A socket is a state with its operations, \<open>socket_ops\<close> for the server and \<open>client_ops\<close> for the client;
  the receiving half of a one-shot channel is a name that \<open>try_recv\<close> looks up. What the listener has
  for the accepting loop is a list of streams, each with the answer of \<open>peer_is_owner\<close> and of
  \<open>set_nonblocking\<close>. The \<open>HashMap\<close> of connections is an association list.
\<close>

section \<open>Data\<close>

definition REQUEST_HEADER_BYTES :: nat where "REQUEST_HEADER_BYTES = 8"
definition RESPONSE_HEADER_BYTES :: nat where "RESPONSE_HEADER_BYTES = 5"
definition MAX_INSTANCE_BYTES :: nat where "MAX_INSTANCE_BYTES = 128"

datatype control_error = Ctl_Io | Ctl_Path | Ctl_Frame | Ctl_Closed | Ctl_Remote bytes | Ctl_Unsupported

record 's socket_ops =
  so_read :: "'s \<Rightarrow> nat \<Rightarrow> 's \<times> bytes io_result"
  so_write :: "'s \<Rightarrow> bytes \<Rightarrow> 's \<times> nat io_result"

datatype 'r connection_state = Reading | Dispatched | Waiting 'r | Writing bytes nat

record ('s, 'r) control_connection =
  ct_stream :: 's
  ct_input :: bytes
  ct_state :: "'r connection_state"

record local_request =
  lr_connection :: u64
  lr_instance :: bytes
  lr_request :: bytes

record ('s, 'r) control_server =
  sv_path :: path
  sv_max_request_bytes :: nat
  sv_max_connections :: nat
  sv_next_connection :: u64
  sv_connections :: "(u64 \<times> ('s, 'r) control_connection) list"

text \<open>\<open>try_recv\<close> on a one-shot channel: a value, nothing yet, or the sender is gone.\<close>

datatype 'e receipt = Received "'e + bytes" | Nothing_Yet | Canceled

section \<open>A connection\<close>

definition request_lengths :: "bytes \<Rightarrow> (nat \<times> nat) option" where
  "request_lengths input =
     (if length input < REQUEST_HEADER_BYTES then None
      else Some (from_be (take 4 input), from_be (take 4 (drop 4 input))))"

text \<open>
  The reading loop. A vector is far shorter than \<open>usize::MAX\<close>, so the saturating sum is the sum; a read
  fills the buffer of 4096 bytes at most.
\<close>

function read_available :: "'s socket_ops \<Rightarrow> nat \<Rightarrow> 's \<Rightarrow> bytes \<Rightarrow> 's \<times> bytes \<times> (control_error + unit)" where
  "read_available ops maximum s input =
     (case so_read ops s 4096 of
        (s, Inr got) \<Rightarrow>
          (let chunk = take 4096 got in
           if chunk = [] then (s, input, Inl Ctl_Closed)
           else if length input + length chunk > maximum then (s, input, Inl Ctl_Frame)
           else read_available ops maximum s (input @ chunk))
      | (s, Inl e) \<Rightarrow> (s, input, if error_kind_of e = WouldBlock then Inr () else Inl Ctl_Io))"
  by pat_completeness auto
termination
proof (relation "measure (\<lambda>(ops, maximum, s, input). maximum - length input)")
  fix ops :: "'s socket_ops" and maximum s s' and input chunk :: bytes
  assume "chunk \<noteq> []" and "\<not> maximum < length input + length chunk"
  then have "maximum - (length input + length chunk) < maximum - length input" by (cases chunk) auto
  then show "((ops, maximum, s', input @ chunk), ops, maximum, s, input) \<in> measure (\<lambda>(ops, maximum, s, input). maximum - length input)"
    by simp
qed simp

declare read_available.simps [simp del]

text \<open>The frame that has been read, if it is complete.\<close>

definition parse_request :: "nat \<Rightarrow> bytes \<Rightarrow> control_error + (bytes \<times> bytes) option" where
  "parse_request max_request_bytes input =
     (case request_lengths input of
        None \<Rightarrow> Inr None
      | Some (instance_length, request_length) \<Rightarrow>
          if instance_length = 0 \<or> instance_length > MAX_INSTANCE_BYTES \<or> request_length > max_request_bytes then Inl Ctl_Frame
          else
            rbind (ok_or Ctl_Frame (Option.bind (checked_add REQUEST_HEADER_BYTES instance_length)
                     (\<lambda>size. checked_add size request_length))) (\<lambda>total.
            if length input < total then Inr None
            else if length input \<noteq> total then Inl Ctl_Frame
            else
              (let name = take instance_length (drop REQUEST_HEADER_BYTES input) in
               if \<not> utf8_valid name then Inl Ctl_Frame
               else Inr (Some (name, drop (REQUEST_HEADER_BYTES + instance_length) input)))))"

definition read_request ::
    "'s socket_ops \<Rightarrow> nat \<Rightarrow> ('s, 'r) control_connection
       \<Rightarrow> ('s, 'r) control_connection \<times> (control_error + (bytes \<times> bytes) option)" where
  "read_request ops max_request_bytes c =
     (case Option.bind (checked_add REQUEST_HEADER_BYTES MAX_INSTANCE_BYTES) (\<lambda>size. checked_add size max_request_bytes) of
        None \<Rightarrow> (c, Inl Ctl_Frame)
      | Some maximum \<Rightarrow>
          (case read_available ops maximum (ct_stream c) (ct_input c) of (s, input, r) \<Rightarrow>
             (let c = c\<lparr>ct_stream := s, ct_input := input\<rparr> in
              case r of
                Inl e \<Rightarrow> (c, Inl e)
              | Inr _ \<Rightarrow>
                  (case parse_request max_request_bytes input of
                     Inr (Some request) \<Rightarrow> (c\<lparr>ct_input := [], ct_state := Dispatched\<rparr>, Inr (Some request))
                   | other \<Rightarrow> (c, other)))))"

definition response_frame :: "bytes + bytes \<Rightarrow> nat \<Rightarrow> bytes" where
  "response_frame response max_response_bytes =
     (let (status, payload) =
        (case response of
           Inr payload \<Rightarrow> (0, take max_response_bytes payload)
         | Inl error \<Rightarrow> (1, take (floor_boundary error (min (length error) max_response_bytes)) error)) in
      status # to_be 4 (length payload) @ payload)"

definition connection_response :: "bytes + bytes \<Rightarrow> nat \<Rightarrow> ('s, 'r) control_connection \<Rightarrow> ('s, 'r) control_connection" where
  "connection_response response max_response_bytes c = c\<lparr>ct_state := Writing (response_frame response max_response_bytes) 0\<rparr>"

definition connection_finished :: "('s, 'r) control_connection \<Rightarrow> bool" where
  "connection_finished c = (case ct_state c of Writing frame offset \<Rightarrow> offset = length frame | _ \<Rightarrow> False)"

definition connection_poll ::
    "'s socket_ops \<Rightarrow> ('r \<Rightarrow> 'e receipt) \<Rightarrow> ('e \<Rightarrow> bytes) \<Rightarrow> nat \<Rightarrow> ('s, 'r) control_connection
       \<Rightarrow> ('s, 'r) control_connection \<times> (control_error + (bytes \<times> bytes) option)" where
  "connection_poll ops try_recv to_string max_request_bytes c =
     (case ct_state c of
        Reading \<Rightarrow> read_request ops max_request_bytes c
      | Dispatched \<Rightarrow> (c, Inr None)
      | Waiting receiver \<Rightarrow>
          ((case try_recv receiver of
              Received (Inr response) \<Rightarrow> connection_response (Inr response) max_request_bytes c
            | Received (Inl error) \<Rightarrow> connection_response (Inl (to_string error)) max_request_bytes c
            | Nothing_Yet \<Rightarrow> c
            | Canceled \<Rightarrow> connection_response (Inl (b_str ''control response canceled'')) max_request_bytes c), Inr None)
      | Writing frame offset \<Rightarrow>
          (case so_write ops (ct_stream c) (drop offset frame) of
             (s, Inr written) \<Rightarrow>
               if written = 0 then (c\<lparr>ct_stream := s\<rparr>, Inl Ctl_Closed)
               else (c\<lparr>ct_stream := s, ct_state := Writing frame (offset + written)\<rparr>, Inr None)
           | (s, Inl e) \<Rightarrow> (c\<lparr>ct_stream := s\<rparr>, if error_kind_of e = WouldBlock then Inr None else Inl Ctl_Io)))"

section \<open>The server\<close>

fun server_accept ::
    "('s \<times> bool \<times> bool) list \<Rightarrow> ('s, 'r) control_server \<Rightarrow> ('s \<times> bool \<times> bool) list \<times> ('s, 'r) control_server" where
  "server_accept [] sv = ([], sv)"
| "server_accept ((stream, owner, nonblocking) # rest) sv =
     (if length (sv_connections sv) < sv_max_connections sv then
        if \<not> owner \<or> \<not> nonblocking then server_accept rest sv
        else if sv_next_connection sv = - 1 then server_accept rest sv
        else
          (let key = sv_next_connection sv in
           server_accept rest (sv\<lparr>sv_next_connection := key + 1,
             sv_connections := sv_connections sv @ [(key, \<lparr>ct_stream = stream, ct_input = [], ct_state = Reading\<rparr>)]\<rparr>))
      else ((stream, owner, nonblocking) # rest, sv))"

fun poll_connections ::
    "'s socket_ops \<Rightarrow> ('r \<Rightarrow> 'e receipt) \<Rightarrow> ('e \<Rightarrow> bytes) \<Rightarrow> nat \<Rightarrow> (u64 \<times> ('s, 'r) control_connection) list
       \<Rightarrow> (u64 \<times> ('s, 'r) control_connection) list \<times> local_request list \<times> u64 list" where
  "poll_connections ops try_recv to_string max_request_bytes [] = ([], [], [])"
| "poll_connections ops try_recv to_string max_request_bytes ((key, c) # rest) =
     (case connection_poll ops try_recv to_string max_request_bytes c of (c, r) \<Rightarrow>
      case poll_connections ops try_recv to_string max_request_bytes rest of (rest, requests, closed) \<Rightarrow>
        ((key, c) # rest,
         (case r of
            Inr (Some (name, request)) \<Rightarrow> \<lparr>lr_connection = key, lr_instance = name, lr_request = request\<rparr> # requests
          | _ \<Rightarrow> requests),
         (case r of Inl _ \<Rightarrow> [key] | _ \<Rightarrow> []) @ (if connection_finished c then [key] else []) @ closed))"

definition server_poll ::
    "'s socket_ops \<Rightarrow> ('r \<Rightarrow> 'e receipt) \<Rightarrow> ('e \<Rightarrow> bytes) \<Rightarrow> ('s \<times> bool \<times> bool) list \<Rightarrow> ('s, 'r) control_server
       \<Rightarrow> ('s \<times> bool \<times> bool) list \<times> ('s, 'r) control_server \<times> local_request list" where
  "server_poll ops try_recv to_string backlog sv =
     (case server_accept backlog sv of (backlog, sv) \<Rightarrow>
      case poll_connections ops try_recv to_string (sv_max_request_bytes sv) (sv_connections sv) of (connections, requests, closed) \<Rightarrow>
        (backlog, sv\<lparr>sv_connections := filter (\<lambda>(key, c). key \<notin> set closed) connections\<rparr>, requests))"

definition update_connection ::
    "u64 \<Rightarrow> (('s, 'r) control_connection \<Rightarrow> ('s, 'r) control_connection) \<Rightarrow> ('s, 'r) control_server \<Rightarrow> ('s, 'r) control_server" where
  "update_connection connection f sv =
     sv\<lparr>sv_connections := map (\<lambda>(key, c). (key, if key = connection then f c else c)) (sv_connections sv)\<rparr>"

definition wait_for :: "u64 \<Rightarrow> 'r \<Rightarrow> ('s, 'r) control_server \<Rightarrow> ('s, 'r) control_server" where
  "wait_for connection receiver =
     update_connection connection (\<lambda>c. if ct_state c = Dispatched then c\<lparr>ct_state := Waiting receiver\<rparr> else c)"

definition reject :: "('e \<Rightarrow> bytes) \<Rightarrow> u64 \<Rightarrow> 'e \<Rightarrow> ('s, 'r) control_server \<Rightarrow> ('s, 'r) control_server" where
  "reject to_string connection error sv =
     update_connection connection (connection_response (Inl (to_string error)) (sv_max_request_bytes sv)) sv"

text \<open>
  Binding works on the file system, whose state has the operations of \<open>socket_fs\<close>; each tells whether it
  succeeded, and \<open>sf_symlink_metadata\<close> whether what is there is a socket.
\<close>

record 'f socket_fs =
  sf_create_dir_all :: "'f \<Rightarrow> path \<Rightarrow> 'f \<times> bool"
  sf_set_permissions :: "'f \<Rightarrow> path \<Rightarrow> nat \<Rightarrow> 'f \<times> bool"
  sf_symlink_metadata :: "'f \<Rightarrow> path \<Rightarrow> bool option"
  sf_remove_file :: "'f \<Rightarrow> path \<Rightarrow> 'f \<times> bool"
  sf_bind :: "'f \<Rightarrow> path \<Rightarrow> 'f \<times> bool"
  sf_set_nonblocking :: "'f \<Rightarrow> 'f \<times> bool"

definition server_new :: "path \<Rightarrow> nat \<Rightarrow> nat \<Rightarrow> ('s, 'r) control_server" where
  "server_new path max_request_bytes max_connections =
     \<lparr>sv_path = path, sv_max_request_bytes = max_request_bytes, sv_max_connections = max_connections,
      sv_next_connection = 1, sv_connections = []\<rparr>"

definition server_bind :: "'f socket_fs \<Rightarrow> 'f \<Rightarrow> path \<Rightarrow> nat \<Rightarrow> nat \<Rightarrow> 'f \<times> (control_error + ('s, 'r) control_server)" where
  "server_bind F f path max_request_bytes max_connections =
     (case path_parent path of
        None \<Rightarrow> (f, Inl Ctl_Path)
      | Some parent \<Rightarrow>
          (case sf_create_dir_all F f parent of (f, ok) \<Rightarrow> if \<not> ok then (f, Inl Ctl_Io) else
           case sf_set_permissions F f parent 0x1C0 of (f, ok) \<Rightarrow> if \<not> ok then (f, Inl Ctl_Io) else
           if sf_symlink_metadata F f path = Some False then (f, Inl Ctl_Path) else
           case (if sf_symlink_metadata F f path = Some True then sf_remove_file F f path else (f, True)) of (f, ok) \<Rightarrow>
           if \<not> ok then (f, Inl Ctl_Io) else
           case sf_bind F f path of (f, ok) \<Rightarrow> if \<not> ok then (f, Inl Ctl_Io) else
           case sf_set_permissions F f path 0x180 of (f, ok) \<Rightarrow> if \<not> ok then (f, Inl Ctl_Io) else
           case sf_set_nonblocking F f of (f, ok) \<Rightarrow> if \<not> ok then (f, Inl Ctl_Io) else
           (f, Inr (server_new path max_request_bytes max_connections))))"

definition server_drop :: "'f socket_fs \<Rightarrow> 'f \<Rightarrow> ('s, 'r) control_server \<Rightarrow> 'f" where
  "server_drop F f sv = fst (sf_remove_file F f (sv_path sv))"

section \<open>The client\<close>

record 's client_ops =
  cl_connect :: "path \<Rightarrow> 's option"
  cl_write_all :: "'s \<Rightarrow> bytes \<Rightarrow> 's option"
  cl_read_exact :: "'s \<Rightarrow> nat \<Rightarrow> ('s \<times> bytes) option"

definition control_request :: "'s client_ops \<Rightarrow> path \<Rightarrow> bytes \<Rightarrow> bytes \<Rightarrow> nat \<Rightarrow> control_error + bytes" where
  "control_request C path name request max_response_bytes =
     (if name = [] \<or> length name > MAX_INSTANCE_BYTES \<or> length name > 2 ^ 32 - 1 \<or> length request > 2 ^ 32 - 1 then Inl Ctl_Frame
      else
        rbind (ok_or Ctl_Io (cl_connect C path)) (\<lambda>s.
        rbind (ok_or Ctl_Io (cl_write_all C s (to_be 4 (length name)))) (\<lambda>s.
        rbind (ok_or Ctl_Io (cl_write_all C s (to_be 4 (length request)))) (\<lambda>s.
        rbind (ok_or Ctl_Io (cl_write_all C s name)) (\<lambda>s.
        rbind (ok_or Ctl_Io (cl_write_all C s request)) (\<lambda>s.
        rbind (ok_or Ctl_Io (cl_read_exact C s RESPONSE_HEADER_BYTES)) (\<lambda>(s, header).
        (let len = from_be (drop 1 header) in
         if len > max_response_bytes then Inl Ctl_Frame
         else
           rbind (ok_or Ctl_Io (cl_read_exact C s len)) (\<lambda>(s, payload).
           if header ! 0 = 0 then Inr payload
           else if header ! 0 = 1 then (if utf8_valid payload then Inl (Ctl_Remote payload) else Inl Ctl_Frame)
           else Inl Ctl_Frame)))))))))"

section \<open>One request and its response\<close>

definition request_frame :: "bytes \<Rightarrow> bytes \<Rightarrow> bytes" where
  "request_frame name request = to_be 4 (length name) @ to_be 4 (length request) @ name @ request"

definition request_ok :: "nat \<Rightarrow> bytes \<Rightarrow> bytes \<Rightarrow> bool" where
  "request_ok max_request_bytes name request \<longleftrightarrow> name \<noteq> [] \<and> length name \<le> MAX_INSTANCE_BYTES \<and> utf8_valid name
     \<and> length request \<le> max_request_bytes \<and> max_request_bytes < 2 ^ 32"

lemma request_frame_lengths:
  assumes "request_ok limit name request" and "prefix input (request_frame name request)" and "8 \<le> length input"
  shows "request_lengths input = Some (length name, length request)"
proof -
  obtain rest where "request_frame name request = input @ rest" using assms(2) by (auto elim: prefixE)
  then have "take 8 input = take 8 (request_frame name request)" using assms(3) by simp
  then have "take 8 input = to_be 4 (length name) @ to_be 4 (length request)" by (simp add: request_frame_def)
  moreover have "take 4 input = take 4 (take 8 input)" "take 4 (drop 4 input) = drop 4 (take 8 input)" by (simp_all add: drop_take)
  ultimately have "take 4 input = to_be 4 (length name)" "take 4 (drop 4 input) = to_be 4 (length request)" by simp_all
  then show ?thesis using assms(1,3)
    by (simp add: request_lengths_def REQUEST_HEADER_BYTES_def from_be_to_be request_ok_def MAX_INSTANCE_BYTES_def)
qed

lemma request_total:
  assumes "request_ok limit name request"
  shows "Option.bind (checked_add REQUEST_HEADER_BYTES (length name)) (\<lambda>size. checked_add size (length request))
      = Some (length (request_frame name request))"
  using assms by (simp add: checked_add_def usize_max_def request_ok_def REQUEST_HEADER_BYTES_def MAX_INSTANCE_BYTES_def request_frame_def)

lemma parse_request_frame:
  assumes "request_ok limit name request" and "prefix input (request_frame name request)"
  shows "parse_request limit input = Inr (if input = request_frame name request then Some (name, request) else None)"
proof (cases "8 \<le> length input")
  case True
  note p = parse_request_def request_frame_lengths [OF assms True] option.case prod.case request_total [OF assms(1)] ok_or_def rbind_simps
  have ok: "\<not> (length name = 0 \<or> length name > MAX_INSTANCE_BYTES \<or> length request > limit)" "utf8_valid name"
    using assms(1) by (auto simp: request_ok_def)
  show ?thesis
  proof (cases "input = request_frame name request")
    case whole: True
    have "take (length name) (drop REQUEST_HEADER_BYTES (request_frame name request)) = name"
        "drop (REQUEST_HEADER_BYTES + length name) (request_frame name request) = request"
      by (simp_all add: request_frame_def REQUEST_HEADER_BYTES_def)
    then show ?thesis
      using ok request_frame_lengths [OF assms True] request_total [OF assms(1)] unfolding whole
      by (simp add: parse_request_def Let_def)
  next
    case False
    then have "length input < length (request_frame name request)" using assms(2) by (metis prefix_length_less strict_prefixI)
    then show ?thesis using ok False by (simp only: p if_False) simp
  qed
next
  case False
  then have "input \<noteq> request_frame name request" by (auto simp: request_frame_def)
  then show ?thesis using False by (simp add: parse_request_def request_lengths_def REQUEST_HEADER_BYTES_def)
qed

text \<open>
  A socket that follows a script: what arrives before each poll, in which pieces, and how much room there
  is for each write.
\<close>

record script =
  sp_incoming :: "bytes list list"
  sp_room :: "nat list"
  sp_outgoing :: bytes

definition would_block :: io_error where "would_block = Io_Error WouldBlock []"

definition script_read :: "script \<Rightarrow> nat \<Rightarrow> script \<times> bytes io_result" where
  "script_read s n =
     (case sp_incoming s of
        [] \<Rightarrow> (s, Inl would_block)
      | [] # later \<Rightarrow> (s\<lparr>sp_incoming := later\<rparr>, Inl would_block)
      | (chunk # now) # later \<Rightarrow> (s\<lparr>sp_incoming := now # later\<rparr>, Inr chunk))"

definition script_write :: "script \<Rightarrow> bytes \<Rightarrow> script \<times> nat io_result" where
  "script_write s bs =
     (case sp_room s of
        [] \<Rightarrow> (s, Inl would_block)
      | room # later \<Rightarrow>
          if room = 0 then (s\<lparr>sp_room := later\<rparr>, Inl would_block)
          else (s\<lparr>sp_room := later, sp_outgoing := sp_outgoing s @ take room bs\<rparr>, Inr (min room (length bs))))"

definition script_ops :: "script socket_ops" where
  "script_ops = \<lparr>so_read = script_read, so_write = script_write\<rparr>"

definition chunks_ok :: "bytes list \<Rightarrow> bool" where
  "chunks_ok cs = list_all (\<lambda>c. c \<noteq> [] \<and> length c \<le> 4096) cs"

lemma read_available_script:
  "chunks_ok now \<Longrightarrow> length input + length (concat now) \<le> maximum
     \<Longrightarrow> read_available script_ops maximum (s\<lparr>sp_incoming := now # later\<rparr>) input = (s\<lparr>sp_incoming := later\<rparr>, input @ concat now, Inr ())"
proof (induction now arbitrary: input)
  case Nil
  then show ?case by (subst read_available.simps) (simp add: script_ops_def script_read_def would_block_def)
next
  case (Cons c now)
  have "read_available script_ops maximum (s\<lparr>sp_incoming := now # later\<rparr>) (input @ c) = (s\<lparr>sp_incoming := later\<rparr>, (input @ c) @ concat now, Inr ())"
    by (rule Cons.IH) (use Cons.prems in \<open>auto simp: chunks_ok_def\<close>)
  then show ?case using Cons.prems by (subst read_available.simps) (simp add: script_ops_def script_read_def chunks_ok_def Let_def)
qed

lemma read_request_script:
  assumes "request_ok limit name request" and "chunks_ok now" and "prefix (ct_input c @ concat now) (request_frame name request)"
    and "ct_stream c = s\<lparr>sp_incoming := now # later\<rparr>"
  shows "read_request script_ops limit c =
    (if ct_input c @ concat now = request_frame name request
     then (c\<lparr>ct_stream := s\<lparr>sp_incoming := later\<rparr>, ct_input := [], ct_state := Dispatched\<rparr>, Inr (Some (name, request)))
     else (c\<lparr>ct_stream := s\<lparr>sp_incoming := later\<rparr>, ct_input := ct_input c @ concat now\<rparr>, Inr None))"
proof -
  let ?m = "REQUEST_HEADER_BYTES + MAX_INSTANCE_BYTES + limit"
  have m: "Option.bind (checked_add REQUEST_HEADER_BYTES MAX_INSTANCE_BYTES) (\<lambda>size. checked_add size limit) = Some ?m"
    using assms(1) by (simp add: checked_add_def usize_max_def request_ok_def REQUEST_HEADER_BYTES_def MAX_INSTANCE_BYTES_def)
  have "length (ct_input c @ concat now) \<le> ?m"
    using prefix_length_le [OF assms(3)] assms(1) by (simp add: request_frame_def request_ok_def REQUEST_HEADER_BYTES_def)
  then have "read_available script_ops ?m (s\<lparr>sp_incoming := now # later\<rparr>) (ct_input c) = (s\<lparr>sp_incoming := later\<rparr>, ct_input c @ concat now, Inr ())"
    using read_available_script [OF assms(2), where input = "ct_input c" and maximum = ?m and s = s and later = later] by simp
  then show ?thesis
    by (simp add: read_request_def m assms(4) Let_def parse_request_frame [OF assms(1,3)])
qed

text \<open>The server polls a connection until it is finished.\<close>

fun connection_polls ::
    "'s socket_ops \<Rightarrow> ('r \<Rightarrow> 'e receipt) \<Rightarrow> ('e \<Rightarrow> bytes) \<Rightarrow> nat \<Rightarrow> nat \<Rightarrow> ('s, 'r) control_connection
       \<Rightarrow> ('s, 'r) control_connection \<times> (control_error + (bytes \<times> bytes) option) list" where
  "connection_polls ops try_recv to_string limit 0 c = (c, [])"
| "connection_polls ops try_recv to_string limit (Suc n) c =
     (if connection_finished c then (c, [])
      else case connection_poll ops try_recv to_string limit c of (c, r) \<Rightarrow>
        (case connection_polls ops try_recv to_string limit n c of (c, rs) \<Rightarrow> (c, r # rs)))"

lemma connection_reads:
  assumes "request_ok limit name request"
  shows "ct_state c = Reading \<Longrightarrow> ct_stream c = s\<lparr>sp_incoming := polls\<rparr> \<Longrightarrow> polls \<noteq> [] \<Longrightarrow> last polls \<noteq> []
    \<Longrightarrow> list_all chunks_ok polls \<Longrightarrow> ct_input c @ concat (concat polls) = request_frame name request
    \<Longrightarrow> connection_polls script_ops try_recv to_string limit (length polls) c
      = (c\<lparr>ct_stream := s\<lparr>sp_incoming := []\<rparr>, ct_input := [], ct_state := Dispatched\<rparr>,
         replicate (length polls - 1) (Inr None) @ [Inr (Some (name, request))])"
proof (induction polls arbitrary: c)
  case (Cons now later)
  have nf: "\<not> connection_finished c" using Cons.prems(1) by (simp add: connection_finished_def)
  have ok: "chunks_ok now" "list_all chunks_ok later" using Cons.prems(5) by simp_all
  have whole: "request_frame name request = (ct_input c @ concat now) @ concat (concat later)" using Cons.prems(6) by simp
  then have p: "prefix (ct_input c @ concat now) (request_frame name request)" by (rule prefixI)
  note r = read_request_script [OF assms ok(1) p Cons.prems(2)]
  show ?case
  proof (cases "later = []")
    case True
    then have "ct_input c @ concat now = request_frame name request" using Cons.prems(6) by simp
    then show ?thesis using True nf Cons.prems(1) r by (simp add: connection_poll_def)
  next
    case False
    have l: "last later \<noteq> []" using Cons.prems(4) False by simp
    then have "concat (last later) \<noteq> []" using ok(2) False last_in_set [OF False]
      by (cases "last later") (auto simp: list_all_iff chunks_ok_def)
    then have "concat (concat later) \<noteq> []" using False last_in_set [OF False] by fastforce
    then have n: "ct_input c @ concat now \<noteq> request_frame name request" using whole by (metis append_self_conv)
    define c' where "c' = c\<lparr>ct_stream := s\<lparr>sp_incoming := later\<rparr>, ct_input := ct_input c @ concat now\<rparr>"
    have e: "connection_poll script_ops try_recv to_string limit c = (c', Inr None)"
      using Cons.prems(1) r n by (simp add: connection_poll_def c'_def)
    have "connection_polls script_ops try_recv to_string limit (length later) c'
        = (c'\<lparr>ct_stream := s\<lparr>sp_incoming := []\<rparr>, ct_input := [], ct_state := Dispatched\<rparr>,
           replicate (length later - 1) (Inr None) @ [Inr (Some (name, request))])"
      by (rule Cons.IH) (use Cons.prems False l ok in \<open>simp_all add: c'_def\<close>)
    then show ?thesis using False nf e by (cases later) (simp_all add: c'_def)
  qed
qed simp

lemma connection_writes:
  "ct_state c = Writing frame offset \<Longrightarrow> offset \<le> length frame \<Longrightarrow> length frame - offset \<le> sum_list rooms
    \<Longrightarrow> sp_room (ct_stream c) = rooms
    \<Longrightarrow> sp_outgoing (ct_stream (fst (connection_polls script_ops try_recv to_string limit (length rooms) c)))
       = sp_outgoing (ct_stream c) @ drop offset frame"
proof (induction rooms arbitrary: c offset)
  case (Cons room rooms)
  show ?case
  proof (cases "connection_finished c")
    case True
    then show ?thesis using Cons.prems(1) by (simp add: connection_finished_def)
  next
    case False
    then have o: "offset < length frame" using Cons.prems(1,2) by (simp add: connection_finished_def)
    define c' where "c' = (if room = 0 then c\<lparr>ct_stream := (ct_stream c)\<lparr>sp_room := rooms\<rparr>\<rparr>
      else c\<lparr>ct_stream := (ct_stream c)\<lparr>sp_room := rooms, sp_outgoing := sp_outgoing (ct_stream c) @ take room (drop offset frame)\<rparr>,
        ct_state := Writing frame (offset + min room (length frame - offset))\<rparr>)"
    define offset' where "offset' = offset + min room (length frame - offset)"
    have "min room (length frame - offset) = 0 \<longleftrightarrow> room = 0" using o by (simp add: min_def)
    then have e: "connection_poll script_ops try_recv to_string limit c = (c', Inr None)"
      using Cons.prems o by (simp add: connection_poll_def c'_def script_ops_def script_write_def would_block_def)
    have "sp_outgoing (ct_stream (fst (connection_polls script_ops try_recv to_string limit (length rooms) c')))
       = sp_outgoing (ct_stream c') @ drop offset' frame"
      by (rule Cons.IH) (use Cons.prems o in \<open>auto simp: c'_def offset'_def\<close>)
    also have "\<dots> = sp_outgoing (ct_stream c) @ drop offset frame"
      using o append_take_drop_id [of room "drop offset frame"]
      by (cases "room \<le> length frame - offset") (auto simp: c'_def offset'_def add.commute)
    finally show ?thesis using False e by (simp add: case_prod_beta)
  qed
qed (simp add: connection_finished_def)

text \<open>
  The bytes that the server sends to a client that has sent \<open>sent\<close>: the request is read as it arrives,
  split by \<open>split\<close>; the connection waits for the answer, which is there at the next poll; the response is
  written as there is room.
\<close>

definition serve :: "(bytes \<Rightarrow> bytes list list) \<Rightarrow> nat list \<Rightarrow> (bytes \<Rightarrow> bytes \<Rightarrow> bytes + bytes) \<Rightarrow> nat \<Rightarrow> bytes \<Rightarrow> bytes" where
  "serve split rooms answer limit sent =
     (let c = \<lparr>ct_stream = \<lparr>sp_incoming = split sent, sp_room = rooms, sp_outgoing = []\<rparr>, ct_input = [], ct_state = Reading\<rparr> in
      case connection_polls script_ops (\<lambda>receiver :: unit. Nothing_Yet :: bytes receipt) (\<lambda>e. e) limit (length (split sent)) c of
        (c, rs) \<Rightarrow>
          if rs = [] then []
          else
            (case last rs of
               Inr (Some (name, request)) \<Rightarrow>
                 (let server = wait_for 1 () \<lparr>sv_path = [], sv_max_request_bytes = limit, sv_max_connections = 1,
                        sv_next_connection = 2, sv_connections = [(1, c)]\<rparr>;
                      c = snd (hd (sv_connections server)) in
                  sp_outgoing (ct_stream (fst (connection_polls script_ops (\<lambda>receiver. Received (answer name request)) (\<lambda>e. e) limit
                    (Suc (length rooms)) c))))
             | _ \<Rightarrow> []))"

text \<open>The client's side of such a connection: what it has sent and how much of the answer it has read.\<close>

definition served_client :: "(bytes \<Rightarrow> bytes) \<Rightarrow> (bytes \<times> nat) client_ops" where
  "served_client server =
     \<lparr>cl_connect = (\<lambda>path. Some ([], 0)), cl_write_all = (\<lambda>(sent, got) bs. Some (sent @ bs, got)),
      cl_read_exact = (\<lambda>(sent, got) n.
        if got + n \<le> length (server sent) then Some ((sent, got + n), take n (drop got (server sent))) else None)\<rparr>"

lemma serve_response:
  assumes "request_ok limit name request" and "split (request_frame name request) \<noteq> []" and "last (split (request_frame name request)) \<noteq> []"
    and "list_all chunks_ok (split (request_frame name request))"
    and "concat (concat (split (request_frame name request))) = request_frame name request"
    and "length (response_frame (answer name request) limit) \<le> sum_list rooms"
  shows "serve split rooms answer limit (request_frame name request) = response_frame (answer name request) limit"
proof -
  define polls where "polls = split (request_frame name request)"
  let ?s = "\<lparr>sp_incoming = polls, sp_room = rooms, sp_outgoing = []\<rparr>"
  define c :: "(script, unit) control_connection" where "c = \<lparr>ct_stream = ?s, ct_input = [], ct_state = Reading\<rparr>"
  let ?f = "response_frame (answer name request) limit"
  define c1 where "c1 = c\<lparr>ct_stream := ?s\<lparr>sp_incoming := []\<rparr>, ct_input := [], ct_state := Dispatched\<rparr>"
  have r: "connection_polls script_ops (\<lambda>receiver :: unit. Nothing_Yet :: bytes receipt) (\<lambda>e. e) limit (length polls) c
      = (c1, replicate (length polls - 1) (Inr None) @ [Inr (Some (name, request))])"
    unfolding c1_def by (rule connection_reads [OF assms(1)]) (use assms in \<open>simp_all add: c_def polls_def\<close>)
  define c2 where "c2 = c1\<lparr>ct_state := Waiting ()\<rparr>"
  define c3 where "c3 = c1\<lparr>ct_state := Writing ?f 0\<rparr>"
  have p: "connection_poll script_ops (\<lambda>receiver. Received (answer name request)) (\<lambda>e. e) limit c2 = (c3, Inr None)"
    by (cases "answer name request") (simp_all add: connection_poll_def c2_def c3_def connection_response_def)
  have "sp_outgoing (ct_stream (fst (connection_polls script_ops (\<lambda>receiver :: unit. Received (answer name request)) (\<lambda>e. e) limit (length rooms) c3)))
      = sp_outgoing (ct_stream c3) @ drop 0 ?f"
    by (rule connection_writes) (use assms(6) in \<open>simp_all add: c3_def c1_def c_def\<close>)
  also have "\<dots> = ?f" by (simp add: c3_def c1_def c_def)
  moreover have "\<not> connection_finished c2" by (simp add: connection_finished_def c2_def)
  ultimately have w: "sp_outgoing (ct_stream (fst (connection_polls script_ops (\<lambda>receiver :: unit. Received (answer name request)) (\<lambda>e. e) limit
      (Suc (length rooms)) c2))) = ?f"
    by (simp add: p case_prod_beta)
  have "ct_state c1 = Dispatched" by (simp add: c1_def)
  then show ?thesis using r w
    by (simp add: serve_def Let_def c_def polls_def [symmetric] wait_for_def update_connection_def c2_def
        del: connection_polls.simps)
qed

lemma response_frame_payload:
  assumes "limit < 2 ^ 32"
  obtains status payload where "response_frame response limit = status # to_be 4 (length payload) @ payload" "length payload \<le> limit"
    "length payload < 2 ^ 32"
    "case response of Inr p \<Rightarrow> status = 0 \<and> payload = take limit p
       | Inl e \<Rightarrow> status = 1 \<and> payload = take (floor_boundary e (min (length e) limit)) e"
proof (cases response)
  case (Inr p)
  then show ?thesis using assms that [of 0 "take limit p"] by (simp add: response_frame_def min_def)
next
  case (Inl e)
  have "floor_boundary e (min (length e) limit) \<le> limit" using floor_boundary_le [of e "min (length e) limit"] by simp
  then show ?thesis using Inl assms that [of 1 "take (floor_boundary e (min (length e) limit)) e"] by (simp add: response_frame_def min_def)
qed

lemma served_client_reads:
  assumes "server sent = status # header @ payload" and "length header = 4"
  shows "cl_read_exact (served_client server) (sent, 0) 5 = Some ((sent, 5), status # header)"
    and "cl_read_exact (served_client server) (sent, 5) (length payload) = Some ((sent, 5 + length payload), payload)"
proof -
  have "take 5 (server sent) = status # header" "drop 5 (server sent) = payload" "length (server sent) = 5 + length payload"
    using assms by (simp_all add: take_Cons' drop_Cons')
  then show "cl_read_exact (served_client server) (sent, 0) 5 = Some ((sent, 5), status # header)"
      "cl_read_exact (served_client server) (sent, 5) (length payload) = Some ((sent, 5 + length payload), payload)"
    by (simp_all add: served_client_def)
qed

text \<open>What the client must be given: the answer, cut to the limit of the server.\<close>

definition expected_response :: "nat \<Rightarrow> bytes + bytes \<Rightarrow> control_error + bytes" where
  "expected_response limit answer =
     (case answer of
        Inr payload \<Rightarrow> Inr (take limit payload)
      | Inl error \<Rightarrow> Inl (Ctl_Remote (take (floor_boundary error (min (length error) limit)) error)))"

lemma control_exchanged:
  assumes "request_ok limit name request" and "polls = split (request_frame name request)" and "polls \<noteq> []" and "last polls \<noteq> []"
    and "list_all chunks_ok polls" and "concat (concat polls) = request_frame name request"
    and "RESPONSE_HEADER_BYTES + limit \<le> sum_list rooms" and "limit \<le> max_response"
    and "case answer name request of Inl e \<Rightarrow> utf8_valid e | Inr p \<Rightarrow> True"
  shows "control_request (served_client (serve split rooms answer limit)) path name request max_response
    = expected_response limit (answer name request)"
proof -
  have l: "limit < 2 ^ 32" using assms(1) by (simp add: request_ok_def)
  obtain status payload where f: "response_frame (answer name request) limit = status # to_be 4 (length payload) @ payload"
      "length payload \<le> limit" "length payload < 2 ^ 32"
      "case answer name request of Inr p \<Rightarrow> status = 0 \<and> payload = take limit p
         | Inl e \<Rightarrow> status = 1 \<and> payload = take (floor_boundary e (min (length e) limit)) e"
    by (rule response_frame_payload [OF l, of "answer name request"])
  have "serve split rooms answer limit (request_frame name request) = response_frame (answer name request) limit"
    by (rule serve_response) (use assms f(1,2) in \<open>simp_all add: RESPONSE_HEADER_BYTES_def\<close>)
  then have s: "serve split rooms answer limit (request_frame name request) = status # to_be 4 (length payload) @ payload"
    by (simp add: f(1))
  let ?C = "served_client (serve split rooms answer limit)"
  let ?sent = "request_frame name request"
  have r: "cl_read_exact ?C (?sent, 0) 5 = Some ((?sent, 5), status # to_be 4 (length payload))"
      "cl_read_exact ?C (?sent, 5) (length payload) = Some ((?sent, 5 + length payload), payload)"
    by (rule served_client_reads [where server = "serve split rooms answer limit" and sent = ?sent, OF s length_to_be])+
  have w: "cl_connect ?C path = Some ([], 0)" "cl_write_all ?C (sent, got) bs = Some (sent @ bs, got)" for sent got bs
    by (simp_all add: served_client_def)
  have n: "\<not> (name = [] \<or> length name > MAX_INSTANCE_BYTES \<or> length name > 2 ^ 32 - 1 \<or> length request > 2 ^ 32 - 1)"
    using assms(1) by (auto simp: request_ok_def MAX_INSTANCE_BYTES_def)
  have len: "from_be (drop 1 (status # to_be 4 (length payload))) = length payload" using f(3) by (simp add: from_be_to_be)
  have sent: "(([] @ to_be 4 (length name)) @ to_be 4 (length request)) @ name @ request = ?sent" by (simp add: request_frame_def)
  have "control_request ?C path name request max_response =
      (if status = 0 then Inr payload else if status = 1 then (if utf8_valid payload then Inl (Ctl_Remote payload) else Inl Ctl_Frame)
       else Inl Ctl_Frame)"
    using f(2) assms(8) sent
    unfolding control_request_def if_not_P [OF n] w ok_or_simps rbind_simps RESPONSE_HEADER_BYTES_def append_assoc
    by (simp add: r len [simplified] request_frame_def [symmetric] del: append_assoc)
  moreover have "utf8_valid payload" if "status = 1"
    using f(4) assms(9) that by (cases "answer name request") (auto intro: floor_boundary_text)
  ultimately show ?thesis using f(4) by (cases "answer name request") (auto simp: expected_response_def)
qed

text \<open>
  C6: a request and its response arrive whole. A client asks for any instance name and request within the
  limits. However the socket splits the bytes of the request into reads, spread over however many polls,
  and whatever part of the response each write takes, the server is asked exactly this request and the
  client is given the answer: the response, or the text of the error, cut at the limit of the server and
  at the end of a character.
\<close>

theorem control_exchange:
  assumes "request_ok limit name request" and "polls = split (request_frame name request)" and "polls \<noteq> []" and "last polls \<noteq> []"
    and "list_all chunks_ok polls" and "concat (concat polls) = request_frame name request"
    and "RESPONSE_HEADER_BYTES + limit \<le> sum_list rooms" and "limit \<le> max_response"
    and "case answer name request of Inl e \<Rightarrow> utf8_valid e | Inr p \<Rightarrow> True"
  shows "control_request (served_client (serve split rooms answer limit)) path name request max_response
    = expected_response limit (answer name request)"
  using assms by (rule control_exchanged)

theorem control_exchange_witness:
  "control_request (served_client (serve (map (\<lambda>b. [[b]])) (replicate 21 1) (\<lambda>name request. Inr (b_str ''ok'')) 16)) []
     (b_str ''policy'') (b_str ''status'') 16 = Inr (b_str ''ok'')"
proof -
  let ?split = "map (\<lambda>b :: byte. [[b]])"
  let ?f = "request_frame (b_str ''policy'') (b_str ''status'')"
  have "request_ok 16 (b_str ''policy'') (b_str ''status'')" by code_simp
  moreover have "?f \<noteq> []" by code_simp
  then have "?split ?f \<noteq> []" "last (?split ?f) \<noteq> []" by (simp_all add: last_map)
  moreover have "list_all chunks_ok (?split ?f)" by (simp add: chunks_ok_def list_all_iff)
  moreover have "concat (concat (?split bs)) = bs" for bs :: bytes by (induction bs) simp_all
  ultimately have "control_request (served_client (serve ?split (replicate 21 1) (\<lambda>name request. Inr (b_str ''ok'')) 16)) []
     (b_str ''policy'') (b_str ''status'') 16 = expected_response 16 (Inr (b_str ''ok''))"
    using control_exchange [where limit = 16 and name = "b_str ''policy''" and request = "b_str ''status''" and split = ?split
        and polls = "?split ?f" and rooms = "replicate 21 1" and max_response = 16 and answer = "\<lambda>name request. Inr (b_str ''ok'')"
        and path = "[]"]
    by (simp add: RESPONSE_HEADER_BYTES_def sum_list_replicate)
  then show ?thesis by (simp add: expected_response_def b_str_def)
qed

section \<open>What the server holds\<close>

definition connection_bounded :: "nat \<Rightarrow> ('s, 'r) control_connection \<Rightarrow> bool" where
  "connection_bounded limit c \<longleftrightarrow> length (ct_input c) \<le> REQUEST_HEADER_BYTES + MAX_INSTANCE_BYTES + limit
     \<and> (case ct_state c of Writing frame offset \<Rightarrow> offset \<le> length frame \<and> length frame \<le> RESPONSE_HEADER_BYTES + limit | _ \<Rightarrow> True)"

lemma read_available_bounded:
  "read_available ops maximum s input = (s', input', r) \<Longrightarrow> length input \<le> maximum \<Longrightarrow> length input' \<le> maximum"
proof (induction ops maximum s input rule: read_available.induct)
  case (1 ops maximum s input)
  obtain s1 got where g: "so_read ops s 4096 = (s1, got)" by fastforce
  show ?case
  proof (cases got)
    case (Inl e)
    then show ?thesis using "1.prems" g by (subst (asm) read_available.simps) simp
  next
    case (Inr bs)
    show ?thesis
    proof (cases "take 4096 bs = [] \<or> maximum < length input + length (take 4096 bs)")
      case True
      then show ?thesis using "1.prems" g Inr by (subst (asm) read_available.simps) (auto simp: Let_def split: if_splits)
    next
      case False
      then have "read_available ops maximum s1 (input @ take 4096 bs) = (s', input', r)"
        using "1.prems"(1) g Inr by (subst (asm) read_available.simps) (simp add: Let_def)
      then show ?thesis using "1.IH" [OF g [symmetric] Inr refl _ _] False by simp
    qed
  qed
qed

lemma response_frame_length: "length (response_frame response limit) \<le> RESPONSE_HEADER_BYTES + limit"
  using floor_boundary_le [of _ "min _ limit"]
  by (cases response) (auto simp: response_frame_def RESPONSE_HEADER_BYTES_def intro: order_trans min.coboundedI2)

lemma connection_response_bounded: "connection_bounded limit c \<Longrightarrow> connection_bounded limit (connection_response r limit c)"
  using response_frame_length by (simp add: connection_bounded_def connection_response_def)

text \<open>The contract of a socket: a write takes no more than it is given.\<close>

locale socket_contract =
  fixes ops :: "'s socket_ops"
  assumes write_count: "so_write ops s bs = (s', Inr n) \<Longrightarrow> n \<le> length bs"
begin

lemma poll_bounded:
  assumes "connection_bounded limit c" and "connection_poll ops try_recv to_string limit c = (c', r)"
  shows "connection_bounded limit c'"
proof (cases "ct_state c")
  case Reading
  let ?m = "REQUEST_HEADER_BYTES + MAX_INSTANCE_BYTES + limit"
  have "read_request ops limit c = (c', r)" using assms(2) Reading by (simp add: connection_poll_def)
  moreover obtain s input q where a: "read_available ops ?m (ct_stream c) (ct_input c) = (s, input, q)" by (metis prod_cases3)
  moreover have "length input \<le> ?m" using read_available_bounded [OF a] assms(1) by (simp add: connection_bounded_def)
  ultimately show ?thesis using assms(1) Reading
    by (auto simp: read_request_def connection_bounded_def checked_add_def Let_def bind_eq_Some_conv
        split: option.splits sum.splits if_splits Option.bind_splits)
next
  case Dispatched
  then show ?thesis using assms by (simp add: connection_poll_def)
next
  case (Waiting receiver)
  then show ?thesis using assms connection_response_bounded [OF assms(1)]
    by (auto simp: connection_poll_def split: receipt.splits sum.splits)
next
  case (Writing frame offset)
  obtain s q where w: "so_write ops (ct_stream c) (drop offset frame) = (s, q)" by fastforce
  then show ?thesis using assms Writing write_count [of "ct_stream c" "drop offset frame" s]
    by (cases q) (auto simp: connection_poll_def connection_bounded_def split: if_splits)
qed

lemma poll_connections_bounded:
  "list_all (connection_bounded limit \<circ> snd) cs \<Longrightarrow> poll_connections ops try_recv to_string limit cs = (cs', rs, closed)
    \<Longrightarrow> list_all (connection_bounded limit \<circ> snd) cs' \<and> map fst cs' = map fst cs"
proof (induction cs arbitrary: cs' rs closed)
  case (Cons x cs)
  obtain key c where x: "x = (key, c)" by fastforce
  obtain c1 r where p: "connection_poll ops try_recv to_string limit c = (c1, r)" by fastforce
  obtain cs1 rs1 closed1 where q: "poll_connections ops try_recv to_string limit cs = (cs1, rs1, closed1)" by (metis prod_cases3)
  show ?case using Cons.IH [OF _ q] Cons.prems poll_bounded [OF _ p] p q by (auto simp: x)
qed simp

end

interpretation scripted: socket_contract script_ops
  by unfold_locales (auto simp: script_ops_def script_write_def split: list.splits if_splits)

text \<open>The server as the engine uses it: polled, told to wait for an answer, told to reject.\<close>

inductive server_run :: "'s socket_ops \<Rightarrow> ('e \<Rightarrow> bytes) \<Rightarrow> ('s, 'r) control_server \<Rightarrow> bool"
  for ops :: "'s socket_ops" and to_string :: "'e \<Rightarrow> bytes" where
  bound: "server_run ops to_string (server_new path max_request_bytes max_connections)"
| polled: "server_run ops to_string sv \<Longrightarrow> server_poll ops try_recv to_string backlog sv = (backlog', sv', requests)
    \<Longrightarrow> server_run ops to_string sv'"
| waits: "server_run ops to_string sv \<Longrightarrow> server_run ops to_string (wait_for connection receiver sv)"
| rejects: "server_run ops to_string sv \<Longrightarrow> server_run ops to_string (reject to_string connection error sv)"

definition server_inv :: "('s, 'r) control_server \<Rightarrow> bool" where
  "server_inv sv \<longleftrightarrow> length (sv_connections sv) \<le> sv_max_connections sv \<and> distinct (map fst (sv_connections sv))
     \<and> list_all (\<lambda>key. key < sv_next_connection sv) (map fst (sv_connections sv))
     \<and> list_all (connection_bounded (sv_max_request_bytes sv) \<circ> snd) (sv_connections sv)"

lemma server_accept_inv:
  "server_inv sv \<Longrightarrow> server_accept backlog sv = (backlog', sv') \<Longrightarrow> server_inv sv'"
proof (induction backlog sv rule: server_accept.induct)
  case (2 stream owner nonblocking rest sv)
  show ?case
  proof (cases "length (sv_connections sv) < sv_max_connections sv \<and> owner \<and> nonblocking \<and> sv_next_connection sv \<noteq> - 1")
    case True
    let ?key = "sv_next_connection sv"
    let ?sv = "sv\<lparr>sv_next_connection := ?key + 1,
       sv_connections := sv_connections sv @ [(?key, \<lparr>ct_stream = stream, ct_input = [], ct_state = Reading\<rparr>)]\<rparr>"
    have up: "key < ?key + 1 \<longleftrightarrow> key < ?key \<or> key = ?key" for key
    proof -
      have "?key \<noteq> - 1" using True by blast
      then have "unat ?key \<noteq> unat (- 1 :: u64)" using word_unat_eq_iff by blast
      moreover have "unat (- 1 :: u64) = 2 ^ 64 - 1" by code_simp
      ultimately have "unat ?key + 1 < 2 ^ 64" using unsigned_less [of ?key, where 'a = nat] by simp
      then have "unat (?key + 1) = unat ?key + 1" by (simp add: unat_word_ariths)
      then show ?thesis by (auto simp: word_less_nat_alt word_unat_eq_iff)
    qed
    have "?key \<notin> set (map fst (sv_connections sv))" using "2.prems"(1) by (auto simp: server_inv_def list_all_iff)
    then have "server_inv ?sv" using "2.prems"(1) True by (auto simp: server_inv_def up list_all_iff connection_bounded_def)
    moreover have "server_accept rest ?sv = (backlog', sv')" using "2.prems"(2) True by (simp add: Let_def)
    ultimately show ?thesis using "2.IH"(3) True by blast
  next
    case False
    then show ?thesis using "2.IH" "2.prems" by (auto split: if_splits)
  qed
qed simp

lemma update_connection_inv:
  assumes "server_inv sv" and "\<And>c. connection_bounded (sv_max_request_bytes sv) c \<Longrightarrow> connection_bounded (sv_max_request_bytes sv) (f c)"
  shows "server_inv (update_connection connection f sv)"
proof -
  have "fst \<circ> (\<lambda>(key, c). (key, if key = connection then f c else c)) = fst" by (auto simp: fun_eq_iff)
  then show ?thesis using assms by (auto simp: server_inv_def update_connection_def list_all_iff)
qed

lemma server_poll_inv:
  fixes sv :: "('s, 'r) control_server"
  assumes "socket_contract ops" and "server_inv sv" and "server_poll ops try_recv to_string backlog sv = (backlog', sv', requests)"
  shows "server_inv sv'"
proof -
  obtain b1 and sv1 :: "('s, 'r) control_server" where a: "server_accept backlog sv = (b1, sv1)" by fastforce
  obtain cs rs closed where p: "poll_connections ops try_recv to_string (sv_max_request_bytes sv1) (sv_connections sv1) = (cs, rs, closed)"
    by (metis prod_cases3)
  have i: "server_inv sv1" by (rule server_accept_inv [OF assms(2) a])
  have b: "list_all (connection_bounded (sv_max_request_bytes sv1) \<circ> snd) cs" "map fst cs = map fst (sv_connections sv1)"
    using socket_contract.poll_connections_bounded [OF assms(1) _ p] i by (simp_all add: server_inv_def)
  have "length cs = length (sv_connections sv1)" using b(2) by (metis length_map)
  moreover have "sv' = sv1\<lparr>sv_connections := filter (\<lambda>(key, c). key \<notin> set closed) cs\<rparr>" using assms(3) a p by (simp add: server_poll_def)
  moreover have "length (filter (\<lambda>(key, c). key \<notin> set closed) cs) \<le> length cs" by simp
  moreover have "distinct (map fst (filter (\<lambda>(key, c). key \<notin> set closed) cs))" using i b(2) by (simp add: server_inv_def distinct_map_filter)
  moreover have "list_all (\<lambda>key. key < sv_next_connection sv1) (map fst cs)" using i b(2) by (simp add: server_inv_def)
  ultimately show ?thesis using i b(1) by (auto simp: server_inv_def list_all_iff)
qed

text \<open>
  C23: what clients can make the server hold is bounded. Whatever is written to the socket, whoever connects
  and whenever the engine polls, waits for an answer or rejects, there are never more connections than
  allowed, each with its own number, and each holds no more unread input than one request frame and no
  longer response than one response frame.
\<close>

theorem control_memory_bounded:
  assumes "socket_contract ops" and "server_run ops to_string sv"
  shows "length (sv_connections sv) \<le> sv_max_connections sv \<and> distinct (map fst (sv_connections sv))
    \<and> list_all (connection_bounded (sv_max_request_bytes sv) \<circ> snd) (sv_connections sv)"
proof -
  from assms(2) have "server_inv sv"
  proof induction
    case (bound path m n)
    show ?case by (simp add: server_inv_def server_new_def)
  next
    case (polled sv try_recv backlog backlog' sv' requests)
    then show ?case using server_poll_inv [OF assms(1)] by blast
  next
    case (waits sv connection receiver)
    show ?case unfolding wait_for_def
      by (rule update_connection_inv [OF waits.IH]) (auto simp: connection_bounded_def)
  next
    case (rejects sv connection error)
    show ?case unfolding reject_def
      by (rule update_connection_inv [OF rejects.IH]) (rule connection_response_bounded)
  qed
  then show ?thesis by (simp add: server_inv_def)
qed

theorem control_memory_bounded_witness:
  "\<exists>sv. server_run script_ops (\<lambda>e :: bytes. e) sv
     \<and> sv_connections sv = [(1 :: u64, \<lparr>ct_stream = \<lparr>sp_incoming = [], sp_room = [], sp_outgoing = []\<rparr>, ct_input = [7], ct_state = Reading\<rparr>)]
     \<and> (length (sv_connections sv) \<le> sv_max_connections sv \<and> distinct (map fst (sv_connections sv))
       \<and> list_all (connection_bounded (sv_max_request_bytes sv) \<circ> (snd :: _ \<Rightarrow> (script, unit) control_connection)) (sv_connections sv))"
proof -
  let ?s = "\<lparr>sp_incoming = [[[7]]], sp_room = [], sp_outgoing = []\<rparr>"
  let ?new = "server_new [] 16 1 :: (script, unit) control_server"
  obtain b sv rs where p: "server_poll script_ops (\<lambda>r. Nothing_Yet) (\<lambda>e :: bytes. e) [(?s, True, True)] ?new = (b, sv, rs)" by (metis prod_cases3)
  have r: "server_run script_ops (\<lambda>e :: bytes. e) sv" by (rule server_run.polled [OF server_run.bound p])
  have "sv_connections (fst (snd (server_poll script_ops (\<lambda>r. Nothing_Yet) (\<lambda>e :: bytes. e) [(?s, True, True)] ?new)))
      = [(1 :: u64, \<lparr>ct_stream = \<lparr>sp_incoming = [], sp_room = [], sp_outgoing = []\<rparr>, ct_input = [7], ct_state = Reading\<rparr>)]"
    by code_simp
  then show ?thesis using p r control_memory_bounded [OF scripted.socket_contract_axioms r] by (intro exI [of _ sv]) simp
qed

text \<open>Binding removes what is at the path only when it is a socket.\<close>

lemma bind_spares_files:
  assumes "path_parent path = Some parent" and "sf_create_dir_all F f parent = (f1, True)" and "sf_set_permissions F f1 parent 0x1C0 = (f2, True)"
    and "sf_symlink_metadata F f2 path = Some False"
  shows "server_bind F f path max_request_bytes max_connections = (f2, Inl Ctl_Path)"
  using assms by (simp add: server_bind_def)

end
