(* ===== verification/Engine.thy ===== *)
theory Engine
  imports Tunnel Logging Control Host_Bridge
begin

text \<open>
  The engine (\<open>engine.rs\<close>: \<open>Engine\<close>, \<open>EngineHandle\<close>; \<open>events.rs\<close>): how it is built and started, one turn of
  its loop with commands, control requests, modules and tunnels, what it tells the host, and how it
  shuts down.

  The loop runs in one thread; \<open>turn_input\<close> is what comes from outside in one turn: the command the
  channel has, what arrives at the control socket, the calls that modules made to the host, the errors of
  the log writer. The channel for events is \<open>he_try_send\<close>. A one-shot channel is a number; the answers
  that were sent are kept. Messages are kept as the errors they are the text of. Wakers and the pause of
  an idle loop have no effect on the state.
\<close>

section \<open>Events\<close>

datatype lifecycle = Lc_Configured | Lc_Starting | Lc_Running | Lc_Stopping | Lc_Stopped | Lc_Failed

fun lifecycle_code :: "lifecycle \<Rightarrow> byte" where
  "lifecycle_code Lc_Configured = 0"
| "lifecycle_code Lc_Starting = 1"
| "lifecycle_code Lc_Running = 2"
| "lifecycle_code Lc_Stopping = 3"
| "lifecycle_code Lc_Stopped = 4"
| "lifecycle_code Lc_Failed = 5"

definition lifecycle_from_u8 :: "byte \<Rightarrow> lifecycle" where
  "lifecycle_from_u8 value =
     (if value = 0 then Lc_Configured else if value = 1 then Lc_Starting else if value = 2 then Lc_Running
      else if value = 3 then Lc_Stopping else if value = 4 then Lc_Stopped else Lc_Failed)"

datatype platform_event = NetworkChanged | VpnPermissionRevoked

datatype message = Msg_Load load_error | Msg_Tunnel tunnel_failure | Msg_Log bytes | Msg_Shutdown_Timeout

datatype event =
  Ev_Lifecycle lifecycle | Ev_Module bytes bytes | Ev_ModuleError bytes message | Ev_Tunnel bytes string
| Ev_ResourceExhausted string | Ev_Platform platform_event

fun event_level :: "event \<Rightarrow> log_level" where
  "event_level (Ev_ModuleError name m) = LevelError"
| "event_level (Ev_Lifecycle l) = (if l = Lc_Failed then LevelError else Debug)"
| "event_level (Ev_ResourceExhausted r) = Warning"
| "event_level _ = Debug"

section \<open>State\<close>

datatype channel = Ch_Handle nat | Ch_Local nat

datatype command =
  Cmd_Control bytes bytes channel | Cmd_Shutdown "channel option" | Cmd_Platform platform_event "channel option"

datatype command_poll = Got command | Commands_Closed | Commands_Empty

record pending_control =
  pk_module :: nat
  pk_request :: bytes
  pk_max_response :: nat
  pk_response :: channel

record snapshot =
  sn_lifecycle :: byte
  sn_sessions :: u64
  sn_flows :: u64
  sn_lost_events :: u64

text \<open>
  \<open>ec_told\<close> are the calls of \<open>Host::engine_event\<close>, \<open>ec_taken\<close> the events that the channel took, \<open>ec_answers\<close>
  what was sent on the one-shot channels, a unit answer as an empty response.
\<close>

record ('s, 'c) engine_core =
  ec_config :: config
  ec_bridge :: host_bridge
  ec_events :: 'c
  ec_told :: "event list"
  ec_taken :: "event list"
  ec_snapshot :: snapshot
  ec_logger :: "(file_logger \<times> log_level list) option"
  ec_log_errors :: "bytes list"
  ec_pending :: "pending_control list"
  ec_server :: "('s, channel) control_server option"
  ec_answers :: "(channel \<times> (engine_error + bytes)) list"
  ec_next_channel :: nat
  ec_idle_wait :: bool

record ('s, 'c) host_env =
  he_try_send :: "'c \<Rightarrow> event \<Rightarrow> 'c \<times> bool"
  he_debug :: "event \<Rightarrow> bytes"
  he_error_text :: "engine_error \<Rightarrow> bytes"
  he_sockets :: "'s socket_ops"

text \<open>\<open>start\<close> starts the log writer, \<open>bind\<close> the control server and \<open>channel\<close> creates the event channel.\<close>

definition engine_build ::
    "(bytes \<Rightarrow> bytes option) \<Rightarrow> (bytes \<Rightarrow> nat \<Rightarrow> nat \<Rightarrow> nat \<Rightarrow> nat \<Rightarrow> string + file_logger)
       \<Rightarrow> (path \<Rightarrow> nat \<Rightarrow> nat \<Rightarrow> string + ('s, channel) control_server) \<Rightarrow> (nat \<Rightarrow> 'c) \<Rightarrow> config \<Rightarrow> engine_error + ('s, 'c) engine_core" where
  "engine_build env start bind channel config =
     rbind (configure_logging env start (logging_of config)) (\<lambda>logger.
     rbind (case control_of config of
              ControlOff \<Rightarrow> Inr None
            | ControlUnix path max_request_bytes max_connections \<Rightarrow>
                rbind (map_err Engine_Control (bind path max_request_bytes max_connections)) (\<lambda>server. Inr (Some server))) (\<lambda>server.
     Inr \<lparr>ec_config = config, ec_bridge = host_bridge_new, ec_events = channel (max_events (engine_of config)), ec_told = [], ec_taken = [],
          ec_snapshot = \<lparr>sn_lifecycle = lifecycle_code Lc_Configured, sn_sessions = 0, sn_flows = 0, sn_lost_events = 0\<rparr>,
          ec_logger = logger, ec_log_errors = [], ec_pending = [], ec_server = server, ec_answers = [], ec_next_channel = 0,
          ec_idle_wait = False\<rparr>))"

definition set_idle_wait :: "bool \<Rightarrow> ('s, 'c) engine_core \<Rightarrow> ('s, 'c) engine_core" where
  "set_idle_wait enabled c = c\<lparr>ec_idle_wait := enabled\<rparr>"

section \<open>Telling the host\<close>

definition emit_unlogged :: "('s, 'c) host_env \<Rightarrow> event \<Rightarrow> ('s, 'c) engine_core \<Rightarrow> ('s, 'c) engine_core" where
  "emit_unlogged H event c =
     (let c = c\<lparr>ec_told := ec_told c @ [event]\<rparr> in
      case he_try_send H (ec_events c) event of
        (channel, True) \<Rightarrow> c\<lparr>ec_events := channel, ec_taken := ec_taken c @ [event]\<rparr>
      | (channel, False) \<Rightarrow>
          c\<lparr>ec_events := channel, ec_snapshot := (ec_snapshot c)\<lparr>sn_lost_events := sn_lost_events (ec_snapshot c) + 1\<rparr>\<rparr>)"

definition log_event :: "('s, 'c) host_env \<Rightarrow> event \<Rightarrow> ('s, 'c) engine_core \<Rightarrow> ('s, 'c) engine_core option" where
  "log_event H event c =
     (case ec_logger c of
        None \<Rightarrow> Some c
      | Some (file, levels) \<Rightarrow>
          if event_level event \<in> set levels
          then map_option (\<lambda>file. c\<lparr>ec_logger := Some (file, levels)\<rparr>) (logger_write (he_debug H event) file)
          else Some c)"

definition emit :: "('s, 'c) host_env \<Rightarrow> event \<Rightarrow> ('s, 'c) engine_core \<Rightarrow> ('s, 'c) engine_core option" where
  "emit H event c =
     (let c = (case event of
                 Ev_Lifecycle l \<Rightarrow> c\<lparr>ec_snapshot := (ec_snapshot c)\<lparr>sn_lifecycle := lifecycle_code l\<rparr>\<rparr>
               | _ \<Rightarrow> c) in
      map_option (emit_unlogged H event) (log_event H event c))"

fun emit_all :: "('s, 'c) host_env \<Rightarrow> event list \<Rightarrow> ('s, 'c) engine_core \<Rightarrow> ('s, 'c) engine_core option" where
  "emit_all H [] c = Some c"
| "emit_all H (event # events) c = Option.bind (emit H event c) (emit_all H events)"

definition drain_module_events :: "('s, 'c) host_env \<Rightarrow> ('s, 'c) engine_core \<Rightarrow> ('s, 'c) engine_core option" where
  "drain_module_events H c =
     (case drain_events (ec_bridge c) of (bridge, payloads) \<Rightarrow>
        emit_all H (map (Ev_Module []) payloads) (c\<lparr>ec_bridge := bridge\<rparr>))"

definition drain_log_errors :: "('s, 'c) host_env \<Rightarrow> ('s, 'c) engine_core \<Rightarrow> ('s, 'c) engine_core" where
  "drain_log_errors H c =
     fold (\<lambda>m. emit_unlogged H (Ev_ModuleError (b_str ''logging'') (Msg_Log m))) (ec_log_errors c) (c\<lparr>ec_log_errors := []\<rparr>)"

section \<open>Control requests\<close>

definition send_answer :: "channel \<Rightarrow> engine_error + bytes \<Rightarrow> ('s, 'c) engine_core \<Rightarrow> ('s, 'c) engine_core" where
  "send_answer channel answer c = c\<lparr>ec_answers := ec_answers c @ [(channel, answer)]\<rparr>"

definition acknowledge :: "channel option \<Rightarrow> ('s, 'c) engine_core \<Rightarrow> ('s, 'c) engine_core" where
  "acknowledge response c = (case response of None \<Rightarrow> c | Some channel \<Rightarrow> send_answer channel (Inr []) c)"

definition start_control ::
    "bytes \<Rightarrow> bytes \<Rightarrow> channel \<Rightarrow> 'm loaded_module list \<Rightarrow> ('s, 'c) engine_core \<Rightarrow> ('s, 'c) engine_core \<times> (engine_error + unit)" where
  "start_control name request response modules c =
     (let max_response = (case control_of (ec_config c) of ControlOff \<Rightarrow> 65536 | ControlUnix p max_request_bytes n \<Rightarrow> max_request_bytes) in
      case position (\<lambda>l. lm_instance_name l = name) modules of
        None \<Rightarrow> (c, Inl (InstanceNotFound name))
      | Some i \<Rightarrow>
          (c\<lparr>ec_pending := ec_pending c @ [\<lparr>pk_module = i, pk_request = request, pk_max_response = max_response, pk_response = response\<rparr>]\<rparr>,
           Inr ()))"

text \<open>As many requests are polled as were pending before; one that is not answered goes to the end.\<close>

fun poll_control_times ::
    "nat \<Rightarrow> 'm loaded_module list \<Rightarrow> ('s, 'c) engine_core \<Rightarrow> ('m loaded_module list \<times> ('s, 'c) engine_core) option" where
  "poll_control_times 0 modules c = Some (modules, c)"
| "poll_control_times (Suc n) modules c =
     (case ec_pending c of
        [] \<Rightarrow> Some (modules, c)
      | control # rest \<Rightarrow>
          if length modules \<le> pk_module control then None
          else
            (case lm_poll_control (modules ! pk_module control) (pk_request control) (pk_max_response control) of (l, r) \<Rightarrow>
               (let modules = modules[pk_module control := l] in
                case r of
                  Ready result \<Rightarrow>
                    poll_control_times n modules (send_answer (pk_response control) (map_err Engine_Module result) (c\<lparr>ec_pending := rest\<rparr>))
                | Pending \<Rightarrow> poll_control_times n modules (c\<lparr>ec_pending := rest @ [control]\<rparr>)
                | Panicked \<Rightarrow> None)))"

definition poll_controls ::
    "'m loaded_module list \<Rightarrow> ('s, 'c) engine_core \<Rightarrow> ('m loaded_module list \<times> ('s, 'c) engine_core) option" where
  "poll_controls modules c = poll_control_times (length (ec_pending c)) modules c"

text \<open>The receiving half of a one-shot channel: its sender is gone when no request holds it.\<close>

definition try_recv :: "('s, 'c) engine_core \<Rightarrow> channel \<Rightarrow> engine_error receipt" where
  "try_recv c channel =
     (case map_of (ec_answers c) channel of
        Some answer \<Rightarrow> Received answer
      | None \<Rightarrow> if channel \<in> pk_response ` set (ec_pending c) then Nothing_Yet else Canceled)"

fun serve_requests :: "('s, 'c) host_env \<Rightarrow> 'm loaded_module list \<Rightarrow> local_request list \<Rightarrow> ('s, 'c) engine_core \<Rightarrow> ('s, 'c) engine_core" where
  "serve_requests H modules [] c = c"
| "serve_requests H modules (request # requests) c =
     (let channel = Ch_Local (ec_next_channel c); c = c\<lparr>ec_next_channel := ec_next_channel c + 1\<rparr> in
      case start_control (lr_instance request) (lr_request request) channel modules c of
        (c, Inr _) \<Rightarrow>
          serve_requests H modules requests (c\<lparr>ec_server := map_option (wait_for (lr_connection request) channel) (ec_server c)\<rparr>)
      | (c, Inl error) \<Rightarrow>
          serve_requests H modules requests
            (c\<lparr>ec_server := map_option (reject (he_error_text H) (lr_connection request) error) (ec_server c)\<rparr>))"

definition poll_local_control ::
    "('s, 'c) host_env \<Rightarrow> ('s \<times> bool \<times> bool) list \<Rightarrow> 'm loaded_module list \<Rightarrow> ('s, 'c) engine_core
       \<Rightarrow> ('m loaded_module list \<times> ('s, 'c) engine_core) option" where
  "poll_local_control H backlog modules c =
     (let (c, requests) =
        (case ec_server c of
           None \<Rightarrow> (c, [])
         | Some server \<Rightarrow>
             (case server_poll (he_sockets H) (try_recv c) (he_error_text H) backlog server of (backlog, server, requests) \<Rightarrow>
                (c\<lparr>ec_server := Some server\<rparr>, requests))) in
      poll_controls modules (serve_requests H modules requests c))"

section \<open>Modules and tunnels\<close>

fun poll_each_module :: "'m loaded_module list \<Rightarrow> 'm loaded_module list \<times> event list" where
  "poll_each_module [] = ([], [])"
| "poll_each_module (l # ls) =
     (case lm_poll l of (l, r) \<Rightarrow>
      case poll_each_module ls of (ls, errors) \<Rightarrow>
        (l # ls, (case r of Ready (Inl error) \<Rightarrow> [Ev_ModuleError (lm_instance_name l) (Msg_Load error)] | _ \<Rightarrow> []) @ errors))"

definition poll_modules ::
    "('s, 'c) host_env \<Rightarrow> 'm loaded_module list \<Rightarrow> ('s, 'c) engine_core \<Rightarrow> ('m loaded_module list \<times> ('s, 'c) engine_core) option" where
  "poll_modules H modules c =
     (case poll_each_module modules of (modules, errors) \<Rightarrow> map_option (Pair modules) (emit_all H errors c))"

text \<open>\<open>clock i\<close> is the clock of the \<open>i\<close>-th tunnel.\<close>

fun poll_each_tunnel ::
    "'n engine_env \<Rightarrow> (nat \<Rightarrow> nat \<Rightarrow> instant) \<Rightarrow> 'm tunnel_runtime list \<Rightarrow> ('m, 'n) engine_world
       \<Rightarrow> ('m tunnel_runtime list \<times> ('m, 'n) engine_world \<times> (bytes \<times> ((tunnel_failure \<times> bool) + tunnel_update)) list) option" where
  "poll_each_tunnel E clock [] w = Some ([], w, [])"
| "poll_each_tunnel E clock (t # ts) w =
     (case tunnel_poll E (clock 0) t w of
        None \<Rightarrow> None
      | Some (t, w, r) \<Rightarrow>
          (case poll_each_tunnel E (\<lambda>i. clock (Suc i)) ts w of
             None \<Rightarrow> None
           | Some (ts, w, rs) \<Rightarrow> Some (t # ts, w, (tb_name (tr_binding t), r) # rs)))"

fun update_text :: "tunnel_update \<Rightarrow> string option" where
  "update_text Update_None = None"
| "update_text CarrierReady = Some ''carrier-ready''"
| "update_text Protected = Some ''protected''"
| "update_text PolicyOpen = Some ''policy-open''"
| "update_text Update_Established = Some ''established''"

definition transitions :: "(bytes \<times> ((tunnel_failure \<times> bool) + tunnel_update)) list \<Rightarrow> event list" where
  "transitions rs =
     concat (map (\<lambda>(name, r). case r of Inr u \<Rightarrow> (case update_text u of Some s \<Rightarrow> [Ev_Tunnel name s] | None \<Rightarrow> []) | Inl _ \<Rightarrow> []) rs)"

definition failures :: "(bytes \<times> ((tunnel_failure \<times> bool) + tunnel_update)) list \<Rightarrow> event list" where
  "failures rs =
     concat (map (\<lambda>(name, r). case r of Inl (m, was_established) \<Rightarrow> [Ev_ModuleError name (Msg_Tunnel m)] | Inr _ \<Rightarrow> []) rs)"

definition count_flows :: "'m tunnel_runtime list \<Rightarrow> nat" where
  "count_flows ts = sum_list (map flow_count ts)"

definition poll_tunnels ::
    "('s, 'c) host_env \<Rightarrow> 'n engine_env \<Rightarrow> (nat \<Rightarrow> nat \<Rightarrow> instant) \<Rightarrow> 'm tunnel_runtime list \<Rightarrow> ('m, 'n) engine_world
       \<Rightarrow> ('s, 'c) engine_core \<Rightarrow> ('m tunnel_runtime list \<times> ('m, 'n) engine_world \<times> ('s, 'c) engine_core) option" where
  "poll_tunnels H E clock ts w c =
     (case poll_each_tunnel E clock ts w of
        None \<Rightarrow> None
      | Some (ts, w, rs) \<Rightarrow>
          (let established = length (filter (\<lambda>(name, r). r = Inr Update_Established) rs);
               closed = length (filter (\<lambda>(name, r). case r of Inl (m, was_established) \<Rightarrow> was_established | Inr _ \<Rightarrow> False) rs);
               s = (ec_snapshot c)\<lparr>sn_flows := of_nat (count_flows ts),
                 sn_sessions := sn_sessions (ec_snapshot c) + of_nat established - of_nat closed\<rparr> in
           map_option (\<lambda>c. (ts, w, c)) (emit_all H (transitions rs @ failures rs) (c\<lparr>ec_snapshot := s\<rparr>))))"

section \<open>Starting\<close>

fun create_modules :: "'m loaded_module list \<Rightarrow> 'm loaded_module list \<times> (load_error + unit)" where
  "create_modules [] = ([], Inr ())"
| "create_modules (l # ls) =
     (case lm_create l of
        (l, Inl error) \<Rightarrow> (l # ls, Inl error)
      | (l, Inr _) \<Rightarrow> (case create_modules ls of (ls, r) \<Rightarrow> (l # ls, r)))"

text \<open>Each adapter is given a packet port; one that has no use for it is left without.\<close>

fun attach_packet_ports ::
    "'n engine_env \<Rightarrow> nat \<Rightarrow> nat list \<Rightarrow> ('m, 'n) engine_world \<Rightarrow> (('m, 'n) engine_world \<times> (engine_error + unit)) option" where
  "attach_packet_ports E limit [] w = Some (w, Inr ())"
| "attach_packet_ports E limit (adapter # adapters) w =
     (case register_datagram (ee_datagrams E, Core_Packets) limit (ew_registry w) of
        (reg, Inl error) \<Rightarrow> Some (w\<lparr>ew_registry := reg\<rparr>, Inl Engine_CoreIo)
      | (reg, Inr port) \<Rightarrow>
          if length (ew_modules w) \<le> adapter then None
          else
            (case adapter_attach_packet_port (ew_modules w ! adapter) (rd_handle port) (ee_datagram_table E) of (l, r) \<Rightarrow>
               (let w = w\<lparr>ew_modules := (ew_modules w)[adapter := l]\<rparr> in
                case r of
                  Ready (Inr _) \<Rightarrow> attach_packet_ports E limit adapters (w\<lparr>ew_registry := registered_datagram_transfer port reg\<rparr>)
                | Ready (Inl Load_Unsupported) \<Rightarrow> attach_packet_ports E limit adapters (w\<lparr>ew_registry := registered_datagram_drop port reg\<rparr>)
                | Ready (Inl error) \<Rightarrow> Some (w\<lparr>ew_registry := registered_datagram_drop port reg\<rparr>, Inl (Engine_Module error))
                | _ \<Rightarrow> None)))"

text \<open>
  \<open>statics\<close> are the registry and the counter of operations, which outlive an engine;
  \<open>adapters\<close> lists the hash set of the tunnels' adapters, \<open>clock i\<close> is the time when the \<open>i\<close>-th tunnel is created.
\<close>

definition packet_io_limit :: "tunnel_binding list \<Rightarrow> nat list \<Rightarrow> nat option" where
  "packet_io_limit bindings adapters = checked_add (Max (set (0 # map tb_core_io_limit bindings))) (length adapters)"

definition engine_start ::
    "('s, 'c) host_env \<Rightarrow> 'n engine_env \<Rightarrow> (nat \<Rightarrow> instant) \<Rightarrow> nat list \<Rightarrow> (core_stream, core_datagram) core_registry \<times> u64
       \<Rightarrow> 'm validated_config \<Rightarrow> ('s, 'c) engine_core
       \<Rightarrow> (('s, 'c) engine_core \<times> (engine_error + 'm tunnel_runtime list \<times> ('m, 'n) engine_world)) option" where
  "engine_start H E clock adapters statics v c =
     Option.bind (emit H (Ev_Lifecycle Lc_Starting) c) (\<lambda>c.
     case create_modules (vc_modules v) of
       (modules, Inl error) \<Rightarrow>
         Some (c\<lparr>ec_snapshot := (ec_snapshot c)\<lparr>sn_lifecycle := lifecycle_code Lc_Failed\<rparr>\<rparr>, Inl (Engine_Module error))
     | (modules, Inr _) \<Rightarrow>
         (case bridge_new (ee_smoltcp E) (stack_of (vc_config v)) (max_flows (engine_of (vc_config v)))
                 (max_managed_bytes (engine_of (vc_config v))) (max_ingress_packets_per_tick (engine_of (vc_config v))) of
            Inl error \<Rightarrow> Some (c, Inl (Engine_Stack error))
          | Inr stack \<Rightarrow>
              (case packet_io_limit (vc_tunnels v) adapters of
                 None \<Rightarrow> Some (c, Inl ResourceOverflow)
               | Some limit \<Rightarrow>
                   (case attach_packet_ports E limit adapters
                           \<lparr>ew_modules = modules, ew_registry = fst statics, ew_stack = stack, ew_leases = [], ew_operation = snd statics\<rparr> of
                      None \<Rightarrow> None
                    | Some (w, Inl error) \<Rightarrow> Some (c, Inl error)
                    | Some (w, Inr _) \<Rightarrow>
                        map_option (\<lambda>c. (c, Inr (map (\<lambda>(b, now). tunnel_new b now) (zip (vc_tunnels v) (map clock [0..<length (vc_tunnels v)])), w)))
                          (emit H (Ev_Lifecycle Lc_Running) c)))))"

section \<open>One turn of the loop\<close>

record 's turn_input =
  ti_command :: command_poll
  ti_stack_work :: bool
  ti_backlog :: "('s \<times> bool \<times> bool) list"
  ti_host_calls :: "host_call list"
  ti_log_errors :: "bytes list"
  ti_reset_clock :: "nat \<Rightarrow> instant"
  ti_clock :: "nat \<Rightarrow> nat \<Rightarrow> instant"

fun reset_tunnels ::
    "'n engine_env \<Rightarrow> (nat \<Rightarrow> instant) \<Rightarrow> 'm tunnel_runtime list \<Rightarrow> ('m, 'n) engine_world
       \<Rightarrow> ('m tunnel_runtime list \<times> ('m, 'n) engine_world) option" where
  "reset_tunnels E clock [] w = Some ([], w)"
| "reset_tunnels E clock (t # ts) w =
     (case tunnel_reset E (clock 0) t w of
        None \<Rightarrow> None
      | Some (t, w, _) \<Rightarrow> map_option (\<lambda>(ts, w). (t # ts, w)) (reset_tunnels E (\<lambda>i. clock (Suc i)) ts w))"

type_synonym ('m, 'n, 's, 'c) running = "'m tunnel_runtime list \<times> ('m, 'n) engine_world \<times> ('s, 'c) engine_core"

text \<open>The command of a turn; the flag tells whether the loop goes on.\<close>

definition run_command ::
    "('s, 'c) host_env \<Rightarrow> 'n engine_env \<Rightarrow> (nat \<Rightarrow> instant) \<Rightarrow> command_poll \<Rightarrow> ('m, 'n, 's, 'c) running
       \<Rightarrow> (('m, 'n, 's, 'c) running \<times> bool) option" where
  "run_command H E clock got st =
     (case st of (ts, w, c) \<Rightarrow>
        (case got of
           Got (Cmd_Control name request response) \<Rightarrow>
             (case start_control name request response (ew_modules w) c of
                (c, Inr _) \<Rightarrow> map_option (\<lambda>(modules, c). ((ts, w\<lparr>ew_modules := modules\<rparr>, c), True)) (poll_controls (ew_modules w) c)
              | (c, Inl error) \<Rightarrow> Some ((ts, w, send_answer response (Inl error) c), True))
         | Got (Cmd_Shutdown response) \<Rightarrow>
             map_option (\<lambda>c. ((ts, w, acknowledge response c), False)) (emit H (Ev_Lifecycle Lc_Stopping) c)
         | Got (Cmd_Platform event response) \<Rightarrow>
             Option.bind (emit H (Ev_Platform event) c) (\<lambda>c.
             case event of
               NetworkChanged \<Rightarrow>
                 map_option (\<lambda>(ts, w). ((ts, w, acknowledge response (c\<lparr>ec_snapshot := (ec_snapshot c)\<lparr>sn_sessions := 0, sn_flows := 0\<rparr>\<rparr>)), True))
                   (reset_tunnels E clock ts w)
             | VpnPermissionRevoked \<Rightarrow>
                 map_option (\<lambda>c. ((ts, w, acknowledge response c), False)) (emit H (Ev_Lifecycle Lc_Stopping) c))
         | Commands_Closed \<Rightarrow> map_option (\<lambda>c. ((ts, w, c), False)) (emit H (Ev_Lifecycle Lc_Stopping) c)
         | Commands_Empty \<Rightarrow> Some ((ts, w, c), True)))"

definition run_polls ::
    "('s, 'c) host_env \<Rightarrow> 'n engine_env \<Rightarrow> 's turn_input \<Rightarrow> ('m, 'n, 's, 'c) running \<Rightarrow> ('m, 'n, 's, 'c) running option" where
  "run_polls H E i st =
     (case st of (ts, w, c) \<Rightarrow>
        Option.bind (if ti_stack_work i then map_option (\<lambda>b. w\<lparr>ew_stack := b\<rparr>) (bridge_poll (ee_smoltcp E) (ee_view E) (ee_now E) (ew_stack w))
                     else Some w) (\<lambda>w.
        Option.bind (poll_modules H (ew_modules w) c) (\<lambda>(modules, c).
        Option.bind (poll_local_control H (ti_backlog i) modules c) (\<lambda>(modules, c).
        Option.bind (poll_tunnels H E (ti_clock i) ts (w\<lparr>ew_modules := modules\<rparr>) c) (\<lambda>(ts, w, c).
        Option.bind (drain_module_events H (c\<lparr>ec_bridge := fold host_step (ti_host_calls i) (ec_bridge c)\<rparr>)) (\<lambda>c.
        Some (ts, w, drain_log_errors H (c\<lparr>ec_log_errors := ec_log_errors c @ ti_log_errors i\<rparr>))))))))"

definition engine_turn ::
    "('s, 'c) host_env \<Rightarrow> 'n engine_env \<Rightarrow> 's turn_input \<Rightarrow> ('m, 'n, 's, 'c) running \<Rightarrow> (('m, 'n, 's, 'c) running \<times> bool) option" where
  "engine_turn H E i st =
     (case run_command H E (ti_reset_clock i) (ti_command i) st of
        None \<Rightarrow> None
      | Some (st, False) \<Rightarrow> Some (st, False)
      | Some (st, True) \<Rightarrow> map_option (\<lambda>st. (st, True)) (run_polls H E i st))"

section \<open>Shutting down\<close>

fun drop_tunnels :: "'n engine_env \<Rightarrow> 'm tunnel_runtime list \<Rightarrow> ('m, 'n) engine_world \<Rightarrow> ('m, 'n) engine_world option" where
  "drop_tunnels E [] w = Some w"
| "drop_tunnels E (t # ts) w = Option.bind (drop_state E (tr_state t) w) (drop_tunnels E ts)"

type_synonym 'm stopping = "'m loaded_module list \<times> bool list \<times> event list"

definition stop_module :: "nat \<Rightarrow> 'm stopping \<Rightarrow> 'm stopping" where
  "stop_module index st =
     (case st of (modules, stopped, errors) \<Rightarrow>
        if stopped ! index then st
        else
          (case lm_poll_shutdown (modules ! index) of (l, r) \<Rightarrow>
             (case r of
                Ready (Inr _) \<Rightarrow> (modules[index := l], stopped[index := True], errors)
              | Ready (Inl error) \<Rightarrow>
                  (modules[index := l], stopped[index := True], errors @ [Ev_ModuleError (lm_instance_name l) (Msg_Load error)])
              | _ \<Rightarrow>
                  (case lm_poll l of
                     (l, Ready (Inl error)) \<Rightarrow>
                       (modules[index := l], stopped[index := True], errors @ [Ev_ModuleError (lm_instance_name l) (Msg_Load error)])
                   | (l, _) \<Rightarrow> (modules[index := l], stopped, errors)))))"

definition shutdown_round :: "'m stopping \<Rightarrow> 'm stopping" where
  "shutdown_round st = fold stop_module (rev [0..<length (fst st)]) st"

definition timed_out :: "'m loaded_module list \<Rightarrow> bool list \<Rightarrow> event list" where
  "timed_out modules stopped =
     map (\<lambda>(l, s). Ev_ModuleError (lm_instance_name l) Msg_Shutdown_Timeout) (filter (\<lambda>(l, s). \<not> s) (zip modules stopped))"

text \<open>\<open>clock i\<close> is the time after the \<open>i\<close>-th round.\<close>

partial_function (option) shutdown_loop :: "(nat \<Rightarrow> instant) \<Rightarrow> instant \<Rightarrow> 'm stopping \<Rightarrow> 'm stopping option" where
  "shutdown_loop clock deadline st =
     (case shutdown_round st of (modules, stopped, errors) \<Rightarrow>
        if list_all (\<lambda>s. s) stopped then Some (modules, stopped, errors)
        else if deadline \<le> clock 0 then Some (modules, stopped, errors @ timed_out modules stopped)
        else shutdown_loop (\<lambda>i. clock (Suc i)) deadline (modules, stopped, errors))"

definition engine_shutdown ::
    "('s, 'c) host_env \<Rightarrow> 'n engine_env \<Rightarrow> (nat \<Rightarrow> instant) \<Rightarrow> ('m, 'n, 's, 'c) running \<Rightarrow> (('m, 'n) engine_world \<times> ('s, 'c) engine_core) option" where
  "engine_shutdown H E clock st =
     (case st of (ts, w, c) \<Rightarrow>
        Option.bind (drop_tunnels E ts w) (\<lambda>w.
        (let c = c\<lparr>ec_snapshot := (ec_snapshot c)\<lparr>sn_sessions := 0\<rparr>\<rparr>;
             deadline = clock 0 + millis (shutdown_timeout_ms (engine_of (ec_config c))) in
         Option.bind (shutdown_loop (\<lambda>i. clock (Suc i)) deadline (ew_modules w, replicate (length (ew_modules w)) False, []))
           (\<lambda>(modules, stopped, errors).
         map_option (Pair (w\<lparr>ew_modules := modules\<rparr>)) (emit_all H (errors @ [Ev_Lifecycle Lc_Stopped]) c)))))"

section \<open>The handle\<close>

record handle_snapshot =
  hs_lifecycle :: lifecycle
  hs_sessions :: u64
  hs_flows :: u64
  hs_lost_events :: u64

definition snapshot_of :: "('s, 'c) engine_core \<Rightarrow> handle_snapshot" where
  "snapshot_of c =
     (let s = ec_snapshot c in
      \<lparr>hs_lifecycle = lifecycle_from_u8 (sn_lifecycle s), hs_sessions = sn_sessions s, hs_flows = sn_flows s, hs_lost_events = sn_lost_events s\<rparr>)"

text \<open>What the operations of the handle send; \<open>try_send\<close> is the channel for commands.\<close>

definition handle_send :: "('q \<Rightarrow> command \<Rightarrow> 'q option) \<Rightarrow> command \<Rightarrow> 'q \<Rightarrow> engine_error + 'q" where
  "handle_send try_send command q = ok_or CommandQueue (try_send q command)"

definition handle_control :: "('q \<Rightarrow> command \<Rightarrow> 'q option) \<Rightarrow> bytes \<Rightarrow> bytes \<Rightarrow> channel \<Rightarrow> 'q \<Rightarrow> engine_error + 'q" where
  "handle_control try_send name request response = handle_send try_send (Cmd_Control name request response)"

text \<open>The answer a caller is given when its channel has one, or when the engine is gone.\<close>

definition handle_answer :: "engine_error receipt \<Rightarrow> (engine_error + bytes) option" where
  "handle_answer r = (case r of Received answer \<Rightarrow> Some answer | Nothing_Yet \<Rightarrow> None | Canceled \<Rightarrow> Some (Inl Engine_Stopped))"

definition handle_shutdown :: "('q \<Rightarrow> command \<Rightarrow> 'q option) \<Rightarrow> channel option \<Rightarrow> 'q \<Rightarrow> engine_error + 'q" where
  "handle_shutdown try_send response = handle_send try_send (Cmd_Shutdown response)"

definition handle_platform_event :: "('q \<Rightarrow> command \<Rightarrow> 'q option) \<Rightarrow> platform_event \<Rightarrow> channel option \<Rightarrow> 'q \<Rightarrow> engine_error + 'q" where
  "handle_platform_event try_send event response = handle_send try_send (Cmd_Platform event response)"

text \<open>The receiver of the events is given away once.\<close>

definition handle_subscribe :: "'e option \<Rightarrow> 'e option \<times> (engine_error + 'e)" where
  "handle_subscribe slot = (None, ok_or EventReceiver slot)"

section \<open>Events are accounted for\<close>

definition last_lifecycle :: "event list \<Rightarrow> lifecycle \<Rightarrow> lifecycle" where
  "last_lifecycle events l = fold (\<lambda>e l. case e of Ev_Lifecycle l' \<Rightarrow> l' | _ \<Rightarrow> l) events l"

definition events_ok :: "('s, 'c) engine_core \<Rightarrow> bool" where
  "events_ok c \<longleftrightarrow> subseq (ec_taken c) (ec_told c)
     \<and> sn_lost_events (ec_snapshot c) = of_nat (length (ec_told c) - length (ec_taken c))
     \<and> sn_lifecycle (ec_snapshot c) = lifecycle_code (last_lifecycle (ec_told c) Lc_Configured)"

text \<open>The rest of the engine does not touch what this is about.\<close>

definition same_events :: "('s, 'c) engine_core \<Rightarrow> ('s, 'c) engine_core \<Rightarrow> bool" where
  "same_events c c' \<longleftrightarrow> ec_taken c' = ec_taken c \<and> ec_told c' = ec_told c \<and> sn_lost_events (ec_snapshot c') = sn_lost_events (ec_snapshot c)
     \<and> sn_lifecycle (ec_snapshot c') = sn_lifecycle (ec_snapshot c)"

lemma same_events_ok: "same_events c c' \<Longrightarrow> events_ok c \<Longrightarrow> events_ok c'"
  by (simp add: same_events_def events_ok_def)

lemma last_lifecycle_snoc: "last_lifecycle (es @ [e]) l = (case e of Ev_Lifecycle l' \<Rightarrow> l' | _ \<Rightarrow> last_lifecycle es l)"
  by (cases e) (simp_all add: last_lifecycle_def)

lemma emit_unlogged_events:
  assumes "subseq (ec_taken c) (ec_told c)" and "sn_lost_events (ec_snapshot c) = of_nat (length (ec_told c) - length (ec_taken c))"
    and "sn_lifecycle (ec_snapshot c) = lifecycle_code (last_lifecycle (ec_told c @ [e]) Lc_Configured)"
  shows "events_ok (emit_unlogged H e c)" "ec_told (emit_unlogged H e c) = ec_told c @ [e]"
proof -
  have l: "length (ec_taken c) \<le> length (ec_told c)" using list_emb_length [OF assms(1)] .
  obtain ch b where t: "he_try_send H (ec_events c) e = (ch, b)" by fastforce
  show "events_ok (emit_unlogged H e c)" using assms l t
    by (cases b) (simp_all add: emit_unlogged_def Let_def events_ok_def Suc_diff_le list_emb_append_mono list_emb_prefix)
  show "ec_told (emit_unlogged H e c) = ec_told c @ [e]" using t by (cases b) (simp_all add: emit_unlogged_def Let_def)
qed

lemma log_event_same: "log_event H e c = Some c' \<Longrightarrow> same_events c c' \<and> ec_snapshot c' = ec_snapshot c \<and> ec_config c' = ec_config c"
  by (auto simp: log_event_def same_events_def split: option.splits if_splits)

lemma emit_events:
  assumes "events_ok c" and "emit H e c = Some c'"
  shows "events_ok c'" "ec_told c' = ec_told c @ [e]" "sn_sessions (ec_snapshot c') = sn_sessions (ec_snapshot c)"
    "sn_flows (ec_snapshot c') = sn_flows (ec_snapshot c)" "ec_config c' = ec_config c"
proof -
  define c0 where "c0 = (case e of Ev_Lifecycle l \<Rightarrow> c\<lparr>ec_snapshot := (ec_snapshot c)\<lparr>sn_lifecycle := lifecycle_code l\<rparr>\<rparr> | _ \<Rightarrow> c)"
  obtain c1 where l: "log_event H e c0 = Some c1" "c' = emit_unlogged H e c1"
    using assms(2) by (auto simp: emit_def Let_def c0_def)
  note s = log_event_same [OF l(1)]
  have t: "ec_told c1 = ec_told c" "ec_taken c1 = ec_taken c" "ec_config c1 = ec_config c"
    using s by (auto simp: same_events_def c0_def split: event.splits)
  have n: "sn_lost_events (ec_snapshot c1) = sn_lost_events (ec_snapshot c)" "sn_sessions (ec_snapshot c1) = sn_sessions (ec_snapshot c)"
      "sn_flows (ec_snapshot c1) = sn_flows (ec_snapshot c)"
      "sn_lifecycle (ec_snapshot c1) = lifecycle_code (last_lifecycle (ec_told c1 @ [e]) Lc_Configured)"
    using s assms(1) t(1) by (auto simp: c0_def events_ok_def last_lifecycle_snoc split: event.splits)
  have "subseq (ec_taken c1) (ec_told c1)" "sn_lost_events (ec_snapshot c1) = of_nat (length (ec_told c1) - length (ec_taken c1))"
    using assms(1) t n(1) by (simp_all add: events_ok_def)
  from emit_unlogged_events [OF this n(4)] show "events_ok c'" "ec_told c' = ec_told c @ [e]" unfolding l(2) t(1) .
  obtain ch b where "he_try_send H (ec_events c1) e = (ch, b)" by fastforce
  then show "sn_sessions (ec_snapshot c') = sn_sessions (ec_snapshot c)" "sn_flows (ec_snapshot c') = sn_flows (ec_snapshot c)"
      "ec_config c' = ec_config c"
    unfolding l(2) using n t(3) by (cases b; simp add: emit_unlogged_def Let_def)+
qed

lemma emit_all_events:
  "events_ok c \<Longrightarrow> emit_all H es c = Some c'
    \<Longrightarrow> events_ok c' \<and> ec_told c' = ec_told c @ es \<and> sn_sessions (ec_snapshot c') = sn_sessions (ec_snapshot c)
      \<and> sn_flows (ec_snapshot c') = sn_flows (ec_snapshot c) \<and> ec_config c' = ec_config c"
proof (induction es arbitrary: c)
  case (Cons e es)
  obtain c1 where e: "emit H e c = Some c1" "emit_all H es c1 = Some c'" using Cons.prems(2) by (auto simp: bind_eq_Some_conv)
  show ?case using Cons.IH [OF emit_events(1) [OF Cons.prems(1) e(1)] e(2)] emit_events [OF Cons.prems(1) e(1)] by simp
qed simp

text \<open>Requests leave the events and the snapshot alone.\<close>

definition same_report :: "('s, 'c) engine_core \<Rightarrow> ('s, 'c) engine_core \<Rightarrow> bool" where
  "same_report c c' \<longleftrightarrow> ec_taken c' = ec_taken c \<and> ec_told c' = ec_told c \<and> ec_snapshot c' = ec_snapshot c \<and> ec_config c' = ec_config c"

lemma same_report_refl [simp]: "same_report c c"
  by (simp add: same_report_def)

lemma same_report_trans: "same_report a b \<Longrightarrow> same_report b c \<Longrightarrow> same_report a c"
  by (simp add: same_report_def)

lemma same_report_ok: "same_report c c' \<Longrightarrow> events_ok c \<Longrightarrow> events_ok c'"
  by (simp add: same_report_def events_ok_def)

lemma same_report_sets [simp]:
  "same_report c (c\<lparr>ec_pending := p\<rparr>)" "same_report c (c\<lparr>ec_server := sv\<rparr>)" "same_report c (c\<lparr>ec_next_channel := n\<rparr>)" "same_report c (c\<lparr>ec_bridge := b\<rparr>)"
  "same_report c (c\<lparr>ec_log_errors := es\<rparr>)" "same_report c (send_answer ch answer c)" "same_report c (acknowledge response c)"
  by (simp_all add: same_report_def send_answer_def acknowledge_def split: option.split)

lemma start_control_same: "start_control name request ch modules c = (c', r) \<Longrightarrow> same_report c c'"
  by (auto simp: start_control_def Let_def split: option.splits)

lemma poll_control_times_same: "poll_control_times n modules c = Some (modules', c') \<Longrightarrow> same_report c c'"
proof (induction n modules c rule: poll_control_times.induct)
  case (2 n modules c)
  show ?case
  proof (cases "ec_pending c")
    case Nil
    then show ?thesis using "2.prems" by simp
  next
    case (Cons k rest)
    obtain l r where p: "lm_poll_control (modules ! pk_module k) (pk_request k) (pk_max_response k) = (l, r)" by fastforce
    have len: "\<not> length modules \<le> pk_module k" using "2.prems" Cons by (auto split: if_splits)
    show ?thesis
    proof (cases r)
      case (Ready x)
      have "same_report (send_answer (pk_response k) (map_err Engine_Module x) (c\<lparr>ec_pending := rest\<rparr>)) c'"
        using "2.IH"(2) [OF Cons len p [symmetric] refl Ready] "2.prems" Cons len p Ready by (simp add: Let_def)
      then show ?thesis using same_report_trans same_report_sets(1,6) by metis
    next
      case Pending
      have "same_report (c\<lparr>ec_pending := rest @ [k]\<rparr>) c'"
        using "2.IH"(1) [OF Cons len p [symmetric] refl Pending] "2.prems" Cons len p Pending by (simp add: Let_def)
      then show ?thesis using same_report_trans same_report_sets(1) by metis
    next
      case Panicked
      then show ?thesis using "2.prems" Cons len p by (simp add: Let_def)
    qed
  qed
qed simp

lemma serve_requests_same: "same_report c (serve_requests H modules requests c)"
proof (induction H modules requests c rule: serve_requests.induct)
  case (2 H modules request requests c)
  define ch where "ch = Ch_Local (ec_next_channel c)"
  define c0 where "c0 = c\<lparr>ec_next_channel := ec_next_channel c + 1\<rparr>"
  obtain c1 r where s: "start_control (lr_instance request) (lr_request request) ch modules c0 = (c1, r)" by fastforce
  have q: "same_report c c1" using same_report_trans [OF _ start_control_same [OF s]] by (simp add: c0_def)
  show ?case
  proof (cases r)
    case (Inl e)
    have "same_report (c1\<lparr>ec_server := map_option (reject (he_error_text H) (lr_connection request) e) (ec_server c1)\<rparr>)
        (serve_requests H modules (request # requests) c)"
      using "2.IH"(1) [OF refl refl s [unfolded ch_def c0_def, symmetric] Inl] s Inl by (simp add: Let_def ch_def c0_def)
    then show ?thesis using same_report_trans [OF q] same_report_trans same_report_sets(2) by metis
  next
    case (Inr u)
    have "same_report (c1\<lparr>ec_server := map_option (wait_for (lr_connection request) ch) (ec_server c1)\<rparr>)
        (serve_requests H modules (request # requests) c)"
      using "2.IH"(2) [OF refl refl s [unfolded ch_def c0_def, symmetric] Inr] s Inr by (simp add: Let_def ch_def c0_def)
    then show ?thesis using same_report_trans [OF q] same_report_trans same_report_sets(2) by metis
  qed
qed simp

lemma poll_local_control_same:
  assumes "poll_local_control H backlog modules c = Some (modules', c')"
  shows "same_report c c'"
proof -
  define x where "x = (case ec_server c of None \<Rightarrow> (c, [])
    | Some server \<Rightarrow> (case server_poll (he_sockets H) (try_recv c) (he_error_text H) backlog server of (backlog, server, requests) \<Rightarrow>
        (c\<lparr>ec_server := Some server\<rparr>, requests)))"
  have "same_report c (fst x)" by (simp add: x_def split: option.split prod.split)
  moreover have "poll_controls modules (serve_requests H modules (snd x) (fst x)) = Some (modules', c')"
    using assms by (simp add: poll_local_control_def x_def case_prod_beta)
  then have "same_report (serve_requests H modules (snd x) (fst x)) c'" unfolding poll_controls_def by (rule poll_control_times_same)
  ultimately show ?thesis using same_report_trans serve_requests_same by metis
qed

section \<open>Sessions are counted\<close>

definition is_established :: "'m tunnel_runtime \<Rightarrow> bool" where
  "is_established t \<longleftrightarrow> stage_of (tr_state t) = Stage_Established"

definition count_sessions :: "'m tunnel_runtime list \<Rightarrow> nat" where
  "count_sessions ts = length (filter is_established ts)"

lemma count_sessions_map: "count_sessions ts = length (filter (\<lambda>b. b) (map is_established ts))"
  by (induction ts) (simp_all add: count_sessions_def)

definition tunnels_inv :: "'m tunnel_runtime list \<Rightarrow> bool" where
  "tunnels_inv ts = list_all (\<lambda>t. tunnel_inv (tr_binding t) t) ts"

lemma poll_each_tunnel_counts:
  "tunnels_inv ts \<Longrightarrow> poll_each_tunnel E clock ts w = Some (ts', w', rs) \<Longrightarrow> tunnels_inv ts'
    \<and> count_sessions ts' + length (filter (\<lambda>(name, r). case r of Inl (m, was_established) \<Rightarrow> was_established | Inr _ \<Rightarrow> False) rs)
      = count_sessions ts + length (filter (\<lambda>(name, r). r = Inr Update_Established) rs)"
proof (induction ts arbitrary: clock w ts' w' rs)
  case (Cons t ts)
  obtain t1 w1 r where p: "tunnel_poll E (clock 0) t w = Some (t1, w1, r)"
    using Cons.prems(2) by (cases "tunnel_poll E (clock 0) t w") auto
  obtain ts2 w2 rs2 where q: "poll_each_tunnel E (\<lambda>i. clock (Suc i)) ts w1 = Some (ts2, w2, rs2)"
    using Cons.prems(2) p by (cases "poll_each_tunnel E (\<lambda>i. clock (Suc i)) ts w1") auto
  have i: "tunnel_inv (tr_binding t) t" "tunnels_inv ts" using Cons.prems(1) by (simp_all add: tunnels_inv_def)
  have "tunnel_inv (tr_binding t) t1" and st: "stepped (clock 0) t t1 r" using tunnel_poll_ok [OF i(1) p] by (simp_all add: tunnel_step_ok_def)
  then have i1: "tunnel_inv (tr_binding t1) t1" by (simp add: tunnel_inv_def)
  have "(if is_established t1 then 1 else 0) + (case r of Inl (m, e) \<Rightarrow> if e then 1 else 0 | Inr _ \<Rightarrow> 0)
      = (if is_established t then 1 else 0) + (if r = Inr Update_Established then 1 else (0 :: nat))"
  proof (cases r)
    case (Inl x)
    then show ?thesis using st by (cases x) (simp add: stepped_def is_established_def)
  next
    case (Inr u)
    then show ?thesis using st by (cases u) (simp_all add: stepped_def is_established_def)
  qed
  moreover have "ts' = t1 # ts2" "rs = (tb_name (tr_binding t1), r) # rs2" using Cons.prems(2) p q by simp_all
  ultimately show ?case using Cons.IH [OF i(2) q] i1
    by (cases r) (auto simp: tunnels_inv_def count_sessions_def split: prod.splits if_splits)
qed (simp add: tunnels_inv_def count_sessions_def)

lemma reset_tunnels_none:
  "tunnels_inv ts \<Longrightarrow> reset_tunnels E clock ts w = Some (ts', w') \<Longrightarrow> tunnels_inv ts' \<and> count_sessions ts' = 0"
proof (induction ts arbitrary: clock w ts' w')
  case (Cons t ts)
  obtain t1 w1 u where p: "tunnel_reset E (clock 0) t w = Some (t1, w1, u)"
    using Cons.prems(2) by (cases "tunnel_reset E (clock 0) t w") auto
  obtain ts2 w2 where q: "reset_tunnels E (\<lambda>i. clock (Suc i)) ts w1 = Some (ts2, w2)" "ts' = t1 # ts2"
    using Cons.prems(2) p by auto
  have r: "restarted (tr_binding t) t1" by (rule tunnel_reset_restarts [OF refl p])
  then have "tunnel_inv (tr_binding t1) t1" "\<not> is_established t1"
    using restarted_inv [OF r] by (simp_all add: restarted_def is_established_def)
  then show ?case using Cons.IH [OF _ q(1)] Cons.prems(1) by (simp add: q(2) tunnels_inv_def count_sessions_def)
qed (simp add: tunnels_inv_def count_sessions_def)

definition engine_inv :: "('m, 'n, 's, 'c) running \<Rightarrow> bool" where
  "engine_inv st \<longleftrightarrow> (case st of (ts, w, c) \<Rightarrow>
     events_ok c \<and> tunnels_inv ts \<and> sn_sessions (ec_snapshot c) = of_nat (count_sessions ts))"

lemma poll_tunnels_inv:
  assumes "tunnels_inv ts" and "events_ok c" and "sn_sessions (ec_snapshot c) = of_nat (count_sessions ts)"
    and "poll_tunnels H E clock ts w c = Some (ts', w', c')"
  shows "engine_inv (ts', w', c') \<and> sn_flows (ec_snapshot c') = of_nat (count_flows ts')"
proof -
  obtain ts1 w1 rs where p1: "poll_each_tunnel E clock ts w = Some (ts1, w1, rs)"
    using assms(4) by (cases "poll_each_tunnel E clock ts w") (auto simp: poll_tunnels_def)
  then have e: "ts1 = ts'" "w1 = w'" using assms(4) by (auto simp: poll_tunnels_def Let_def)
  note p = p1 [unfolded e]
  let ?e = "length (filter (\<lambda>(name, r). r = Inr Update_Established) rs)"
  let ?d = "length (filter (\<lambda>(name, r). case r of Inl (m, was_established) \<Rightarrow> was_established | Inr _ \<Rightarrow> False) rs)"
  let ?c = "c\<lparr>ec_snapshot := (ec_snapshot c)\<lparr>sn_flows := of_nat (count_flows ts'),
      sn_sessions := sn_sessions (ec_snapshot c) + of_nat ?e - of_nat ?d\<rparr>\<rparr>"
  have em: "emit_all H (transitions rs @ failures rs) ?c = Some c'"
    using assms(4) by (simp add: poll_tunnels_def p Let_def)
  have n: "tunnels_inv ts'" "count_sessions ts' + ?d = count_sessions ts + ?e" using poll_each_tunnel_counts [OF assms(1) p] by simp_all
  have "events_ok ?c" using assms(2) by (simp add: events_ok_def)
  note k = emit_all_events [OF this em]
  have "(of_nat (count_sessions ts') :: u64) + of_nat ?d = of_nat (count_sessions ts) + of_nat ?e"
    using arg_cong [OF n(2), of "of_nat :: nat \<Rightarrow> u64"] by (simp only: of_nat_add)
  then have "(of_nat (count_sessions ts') :: u64) = of_nat (count_sessions ts) + of_nat ?e - of_nat ?d" by (simp add: eq_diff_eq)
  then show ?thesis using k n(1) assms(3) by (simp add: engine_inv_def)
qed

lemma poll_modules_tells:
  assumes "events_ok c" and "poll_modules H modules c = Some (modules', c')"
  shows "events_ok c' \<and> sn_sessions (ec_snapshot c') = sn_sessions (ec_snapshot c)"
proof -
  obtain ms es where "poll_each_module modules = (ms, es)" by fastforce
  then have "emit_all H es c = Some c'" using assms(2) by (auto simp: poll_modules_def)
  from emit_all_events [OF assms(1) this] show ?thesis by simp
qed

lemma drain_module_events_tells:
  assumes "events_ok c" and "drain_module_events H c = Some c'"
  shows "events_ok c' \<and> sn_sessions (ec_snapshot c') = sn_sessions (ec_snapshot c) \<and> sn_flows (ec_snapshot c') = sn_flows (ec_snapshot c)"
proof -
  obtain b ps where "drain_events (ec_bridge c) = (b, ps)" by fastforce
  then have e: "emit_all H (map (Ev_Module []) ps) (c\<lparr>ec_bridge := b\<rparr>) = Some c'" using assms(2) by (simp add: drain_module_events_def)
  have "events_ok (c\<lparr>ec_bridge := b\<rparr>)" using same_report_ok [OF same_report_sets(4) assms(1)] .
  from emit_all_events [OF this e] show ?thesis by simp
qed

lemma unlogged_error_ok:
  assumes "events_ok c"
  shows "events_ok (emit_unlogged H (Ev_ModuleError name m) c)
    \<and> sn_sessions (ec_snapshot (emit_unlogged H (Ev_ModuleError name m) c)) = sn_sessions (ec_snapshot c)
    \<and> sn_flows (ec_snapshot (emit_unlogged H (Ev_ModuleError name m) c)) = sn_flows (ec_snapshot c)"
proof -
  obtain ch b where "he_try_send H (ec_events c) (Ev_ModuleError name m) = (ch, b)" by fastforce
  then show ?thesis using assms emit_unlogged_events(1) [of c "Ev_ModuleError name m" H]
    by (cases b) (simp_all add: events_ok_def last_lifecycle_snoc, simp_all add: emit_unlogged_def Let_def)
qed

lemma drain_log_errors_tells:
  assumes "events_ok c"
  shows "events_ok (drain_log_errors H c) \<and> sn_sessions (ec_snapshot (drain_log_errors H c)) = sn_sessions (ec_snapshot c)
    \<and> sn_flows (ec_snapshot (drain_log_errors H c)) = sn_flows (ec_snapshot c)"
proof -
  have "events_ok c \<Longrightarrow> events_ok (fold (\<lambda>m. emit_unlogged H (Ev_ModuleError n (Msg_Log m))) es c)
     \<and> sn_sessions (ec_snapshot (fold (\<lambda>m. emit_unlogged H (Ev_ModuleError n (Msg_Log m))) es c)) = sn_sessions (ec_snapshot c)
     \<and> sn_flows (ec_snapshot (fold (\<lambda>m. emit_unlogged H (Ev_ModuleError n (Msg_Log m))) es c)) = sn_flows (ec_snapshot c)" for n es c
  proof (induction es arbitrary: c)
    case (Cons m es)
    show ?case using Cons.IH [of "emit_unlogged H (Ev_ModuleError n (Msg_Log m)) c"] unlogged_error_ok [OF Cons.prems, of H n "Msg_Log m"] by simp
  qed simp
  from this [OF same_report_ok [OF same_report_sets(5) assms, of "[]"]] show ?thesis by (simp add: drain_log_errors_def)
qed

lemma run_polls_inv:
  assumes "engine_inv st" and "run_polls H E i st = Some (ts', w', c')"
  shows "engine_inv (ts', w', c') \<and> sn_flows (ec_snapshot c') = of_nat (count_flows ts')"
proof -
  obtain ts w c where st: "st = (ts, w, c)" by (metis prod_cases3)
  obtain w0 m1 c1 m2 c2 ts3 w3 c3 c4 where p: "poll_modules H (ew_modules w0) c = Some (m1, c1)"
      "poll_local_control H (ti_backlog i) m1 c1 = Some (m2, c2)"
      "poll_tunnels H E (ti_clock i) ts (w0\<lparr>ew_modules := m2\<rparr>) c2 = Some (ts3, w3, c3)"
      "drain_module_events H (c3\<lparr>ec_bridge := fold host_step (ti_host_calls i) (ec_bridge c3)\<rparr>) = Some c4"
      "ts' = ts3" "w' = w3" "c' = drain_log_errors H (c4\<lparr>ec_log_errors := ec_log_errors c4 @ ti_log_errors i\<rparr>)"
    using assms(2) by (auto simp: run_polls_def st bind_eq_Some_conv split: prod.splits)
  have i0: "events_ok c" "tunnels_inv ts" "sn_sessions (ec_snapshot c) = of_nat (count_sessions ts)" using assms(1) by (simp_all add: engine_inv_def st)
  note i1 = poll_modules_tells [OF i0(1) p(1)]
  note q = poll_local_control_same [OF p(2)]
  have i2: "events_ok c2" "sn_sessions (ec_snapshot c2) = of_nat (count_sessions ts)"
    using same_report_ok [OF q] i1 i0(3) q by (simp_all add: same_report_def)
  have i3: "events_ok c3" "tunnels_inv ts3" "sn_sessions (ec_snapshot c3) = of_nat (count_sessions ts3)" "sn_flows (ec_snapshot c3) = of_nat (count_flows ts3)"
    using poll_tunnels_inv [OF i0(2) i2 p(3)] by (simp_all add: engine_inv_def)
  note i4 = drain_module_events_tells [OF same_report_ok [OF same_report_sets(4) i3(1)] p(4)]
  have "events_ok (c4\<lparr>ec_log_errors := ec_log_errors c4 @ ti_log_errors i\<rparr>)" using same_report_ok [OF same_report_sets(5)] i4 by blast
  from drain_log_errors_tells [OF this, of H] show ?thesis using i3 i4 by (simp add: engine_inv_def p)
qed

lemma run_command_inv:
  assumes "engine_inv st" and "run_command H E clock got st = Some (st', go)"
  shows "engine_inv st'"
proof -
  obtain ts w c where st: "st = (ts, w, c)" by (metis prod_cases3)
  have i: "events_ok c" "tunnels_inv ts" "sn_sessions (ec_snapshot c) = of_nat (count_sessions ts)" using assms(1) by (simp_all add: engine_inv_def st)
  have keeps: "engine_inv (ts, w', c2)" if "events_ok c1" "sn_sessions (ec_snapshot c1) = sn_sessions (ec_snapshot c)" "same_report c1 c2" for w' c1 c2
    using that i same_report_ok [OF that(3)] by (simp add: engine_inv_def same_report_def)
  have stops: "engine_inv (ts, w', acknowledge response c2)" if "emit H (Ev_Lifecycle Lc_Stopping) c1 = Some c2" "events_ok c1"
      "sn_sessions (ec_snapshot c1) = sn_sessions (ec_snapshot c)" for w' c1 c2 response
    by (rule keeps [OF emit_events(1) [OF that(2,1)]]) (use emit_events(3) [OF that(2,1)] that(3) in simp_all)
  show ?thesis
  proof (cases got)
    case Commands_Closed
    then obtain c1 where "emit H (Ev_Lifecycle Lc_Stopping) c = Some c1" "st' = (ts, w, acknowledge None c1)"
      using assms(2) by (auto simp: run_command_def st acknowledge_def)
    then show ?thesis using stops i(1) by blast
  next
    case Commands_Empty
    then show ?thesis using assms by (simp add: run_command_def st)
  next
    case (Got command)
    show ?thesis
    proof (cases command)
      case (Cmd_Control name request response)
      obtain c1 r where s: "start_control name request response (ew_modules w) c = (c1, r)" by fastforce
      have q: "same_report c c1" by (rule start_control_same [OF s])
      show ?thesis
      proof (cases r)
        case (Inl e)
        then have "st' = (ts, w, send_answer response (Inl e) c1)" using assms(2) by (simp add: run_command_def st Got Cmd_Control s)
        then show ?thesis using keeps [OF i(1) refl same_report_trans [OF q same_report_sets(6)]] by simp
      next
        case (Inr u)
        then obtain m c2 where "poll_controls (ew_modules w) c1 = Some (m, c2)" "st' = (ts, w\<lparr>ew_modules := m\<rparr>, c2)"
          using assms(2) by (auto simp: run_command_def st Got Cmd_Control s)
        then show ?thesis using keeps [OF i(1) refl same_report_trans [OF q]] poll_control_times_same unfolding poll_controls_def by blast
      qed
    next
      case (Cmd_Shutdown response)
      then obtain c1 where "emit H (Ev_Lifecycle Lc_Stopping) c = Some c1" "st' = (ts, w, acknowledge response c1)"
        using assms(2) by (auto simp: run_command_def st Got)
      then show ?thesis using stops i(1) by blast
    next
      case (Cmd_Platform event response)
      obtain c1 where e: "emit H (Ev_Platform event) c = Some c1"
        using assms(2) by (auto simp: run_command_def st Got Cmd_Platform bind_eq_Some_conv)
      note k = emit_events [OF i(1) e]
      show ?thesis
      proof (cases event)
        case NetworkChanged
        let ?c = "c1\<lparr>ec_snapshot := (ec_snapshot c1)\<lparr>sn_sessions := 0, sn_flows := 0\<rparr>\<rparr>"
        obtain ts1 w1 where r: "reset_tunnels E clock ts w = Some (ts1, w1)" "st' = (ts1, w1, acknowledge response ?c)"
          using assms(2) e by (auto simp: run_command_def st Got Cmd_Platform NetworkChanged)
        have "events_ok ?c" using k(1) by (simp add: events_ok_def)
        then have "events_ok (acknowledge response ?c)" "sn_sessions (ec_snapshot (acknowledge response ?c)) = 0"
          using same_report_ok [OF same_report_sets(7)] same_report_sets(7) [of ?c response] by (simp_all add: same_report_def)
        then show ?thesis using reset_tunnels_none [OF i(2) r(1)] by (simp add: engine_inv_def r(2))
      next
        case VpnPermissionRevoked
        then obtain c2 where "emit H (Ev_Lifecycle Lc_Stopping) c1 = Some c2" "st' = (ts, w, acknowledge response c2)"
          using assms(2) e by (auto simp: run_command_def st Got Cmd_Platform)
        then show ?thesis using stops k by blast
      qed
    qed
  qed
qed

lemma engine_turn_inv:
  assumes "engine_inv st" and "engine_turn H E i st = Some (st', go)"
  shows "engine_inv st'"
proof -
  obtain st1 g where c: "run_command H E (ti_reset_clock i) (ti_command i) st = Some (st1, g)"
    using assms(2) by (cases "run_command H E (ti_reset_clock i) (ti_command i) st") (auto simp: engine_turn_def)
  note i = run_command_inv [OF assms(1) c]
  show ?thesis
  proof (cases g)
    case True
    then obtain ts w d where "run_polls H E i st1 = Some (ts, w, d)" "st' = (ts, w, d)"
      using assms(2) by (auto simp: engine_turn_def c)
    then show ?thesis using run_polls_inv [OF i] by blast
  qed (use assms(2) i in \<open>simp add: engine_turn_def c\<close>)
qed

text \<open>
  Runs of an engine: built, started, then turn after turn with any input; between turns the sessions
  change through the streams that modules hold.
\<close>

inductive engine_run :: "('s, 'c) host_env \<Rightarrow> ('m, 'n, 's, 'c) running \<Rightarrow> bool" for H where
  started: "engine_build env start bind channel config = Inr c \<Longrightarrow> engine_start H E clock adapters statics v c = Some (c', Inr (ts, w))
    \<Longrightarrow> distinct adapters \<Longrightarrow> set adapters = (\<Union>b \<in> set (vc_tunnels v). set (tb_adapters b)) \<Longrightarrow> engine_run H (ts, w, c')"
| turned: "engine_run H st \<Longrightarrow> engine_turn H E i st = Some (st', go) \<Longrightarrow> engine_run H st'"
| streams: "engine_run H (ts, w, c) \<Longrightarrow> k < length ts \<Longrightarrow> tr_state (ts ! k) = Established s
    \<Longrightarrow> engine_run H (ts[k := (ts ! k)\<lparr>tr_state := Established s'\<rparr>], w', c)"

lemma engine_start_inv:
  fixes ts :: "'m tunnel_runtime list"
  assumes "engine_build env start bind channel config = Inr c" and "engine_start H E clock adapters statics v c = Some (c', Inr (ts, w))"
  shows "engine_inv (ts, w, c')"
proof -
  have c: "events_ok c" "sn_sessions (ec_snapshot c) = 0"
    using assms(1) by (auto simp: engine_build_def result_simps events_ok_def last_lifecycle_def)
  obtain c1 where e1: "emit H (Ev_Lifecycle Lc_Starting) c = Some c1" using assms(2) by (auto simp: engine_start_def bind_eq_Some_conv)
  obtain c2 where e2: "emit H (Ev_Lifecycle Lc_Running) c1 = Some c2" "c' = c2"
      "ts = map (\<lambda>(b, now). tunnel_new b now) (zip (vc_tunnels v) (map clock [0..<length (vc_tunnels v)]))"
    using assms(2) e1 by (auto simp: engine_start_def split: prod.splits sum.splits option.splits)
  note k1 = emit_events [OF c(1) e1]
  note k2 = emit_events [OF k1(1) e2(1)]
  have "tunnel_inv b (tunnel_new b now :: 'm tunnel_runtime)" for b :: tunnel_binding and now by (rule restarted_inv) (simp add: restarted_def tunnel_new_def)
  moreover have "\<not> is_established (tunnel_new b now :: 'm tunnel_runtime)" "tr_binding (tunnel_new b now :: 'm tunnel_runtime) = b" for b :: tunnel_binding and now
    by (simp_all add: tunnel_new_def is_established_def)
  ultimately have "tunnels_inv ts" "count_sessions ts = 0"
    unfolding e2(3) by (auto simp: tunnels_inv_def list_all_iff count_sessions_def filter_empty_conv)
  then show ?thesis using k1 k2 c by (simp add: engine_inv_def e2(2))
qed

lemma engine_run_inv: "engine_run H st \<Longrightarrow> engine_inv st"
proof (induction rule: engine_run.induct)
  case (started env start bind channel config c E clock adapters statics v c' ts w)
  from engine_start_inv [OF started(1,2)] show ?case .
next
  case (turned st E i st' go)
  from engine_turn_inv [OF turned.IH turned.hyps(2)] show ?case .
next
  case (streams ts w c k s s' w')
  let ?t = "(ts ! k)\<lparr>tr_state := Established s'\<rparr>"
  have "ts ! k \<in> set ts" using streams.hyps(2) by simp
  then have "tunnel_inv (tr_binding ?t) ?t" using streams.IH streams.hyps(3) by (auto simp: engine_inv_def tunnels_inv_def list_all_iff tunnel_inv_def)
  moreover have "is_established ?t = is_established (ts ! k)" using streams.hyps(3) by (simp add: is_established_def)
  moreover have "map is_established (ts[k := ?t]) = map is_established ts"
    using \<open>is_established ?t = is_established (ts ! k)\<close> streams.hyps(2) by (simp add: map_update list_update_same_conv)
  then have "count_sessions (ts[k := ?t]) = count_sessions ts"
    by (simp only: count_sessions_map)
  ultimately show ?case using streams.IH streams.hyps(2)
    by (auto simp: engine_inv_def tunnels_inv_def list_all_iff dest: set_update_subset_insert [THEN subsetD])
qed

text \<open>
  C4: the snapshot is exact. After every turn of the loop, whatever the tunnels, the modules, the
  commands and the network did before and in this turn, the number of sessions that the handle shows is
  the number of tunnels that are established, and the number of flows is that of the flows they carry.
\<close>

theorem snapshot_exact:
  assumes "engine_run H st" and "engine_turn H E i st = Some ((ts, w, c), True)"
  shows "hs_sessions (snapshot_of c) = of_nat (length (filter is_established ts))
    \<and> hs_flows (snapshot_of c) = of_nat (sum_list (map flow_count ts))"
proof -
  obtain st1 g where r: "run_command H E (ti_reset_clock i) (ti_command i) st = Some (st1, g)"
    using assms(2) by (cases "run_command H E (ti_reset_clock i) (ti_command i) st") (auto simp: engine_turn_def)
  then have p: "run_polls H E i st1 = Some (ts, w, c)" using assms(2) by (cases g) (auto simp: engine_turn_def)
  from run_polls_inv [OF run_command_inv [OF engine_run_inv [OF assms(1)] r] p] show ?thesis
    by (simp add: engine_inv_def snapshot_of_def Let_def count_sessions_def count_flows_def)
qed

text \<open>
  C12: the host is told everything and every event is accounted for. In a run and after the shutdown, what
  the channel took is a subsequence of what the host was told, in the same order; the events it did not
  take are exactly as many as the handle shows as lost; and the state that the handle shows is the
  last one the host was told.
\<close>

theorem events_accounted:
  assumes "engine_run H (ts, w, c)" and "c' = c \<or> engine_shutdown H E clock (ts, w, c) = Some (w', c')"
  shows "subseq (ec_taken c') (ec_told c')
    \<and> hs_lost_events (snapshot_of c') = of_nat (length (ec_told c') - length (ec_taken c'))
    \<and> hs_lifecycle (snapshot_of c') = last_lifecycle (ec_told c') Lc_Configured"
proof -
  have c: "events_ok c" using engine_run_inv [OF assms(1)] by (simp add: engine_inv_def)
  have code: "lifecycle_from_u8 (lifecycle_code l) = l" for l by (cases l) (simp_all add: lifecycle_from_u8_def)
  have "events_ok c'"
  proof (cases "c' = c")
    case False
    then obtain es where "emit_all H es (c\<lparr>ec_snapshot := (ec_snapshot c)\<lparr>sn_sessions := 0\<rparr>\<rparr>) = Some c'"
      using assms(2) by (auto simp: engine_shutdown_def Let_def bind_eq_Some_conv)
    moreover have "events_ok (c\<lparr>ec_snapshot := (ec_snapshot c)\<lparr>sn_sessions := 0\<rparr>\<rparr>)" using c by (simp add: events_ok_def)
    ultimately show ?thesis using emit_all_events by blast
  qed (use c in simp)
  then show ?thesis by (simp add: events_ok_def snapshot_of_def Let_def code)
qed

section \<open>The shutdown ends\<close>

lemma stop_module_lengths:
  assumes "stop_module k st = (modules', stopped', errors')" and "length (fst (snd st)) = length (fst st)"
  shows "length modules' = length (fst st) \<and> length stopped' = length (fst st)"
  using assms by (auto simp: stop_module_def split: prod.splits if_splits poll.splits sum.splits)

lemma shutdown_round_lengths:
  assumes "length (fst (snd st)) = length (fst st)"
  shows "length (fst (shutdown_round st)) = length (fst st) \<and> length (fst (snd (shutdown_round st))) = length (fst st)"
proof -
  have "length (fst (snd st)) = length (fst st) \<Longrightarrow> length (fst (fold stop_module ks st)) = length (fst st)
      \<and> length (fst (snd (fold stop_module ks st))) = length (fst st)" for ks
  proof (induction ks arbitrary: st)
    case (Cons k ks)
    obtain m s e where x: "stop_module k st = (m, s, e)" by (metis prod_cases3)
    show ?case using Cons.IH [of "(m, s, e)"] stop_module_lengths [OF x Cons.prems] x by simp
  qed simp
  then show ?thesis using assms by (simp add: shutdown_round_def)
qed

lemma timed_out_reports:
  assumes "length s = length m" and "k < length m" and "\<not> s ! k"
  shows "Ev_ModuleError (lm_instance_name (m ! k)) Msg_Shutdown_Timeout \<in> set (timed_out m s)"
proof -
  have "(m ! k, s ! k) \<in> set (zip m s)" using assms(1,2) by (metis in_set_zip fst_conv snd_conv)
  then show ?thesis using assms(3) by (force simp: timed_out_def)
qed

text \<open>
  C18: shutting down ends. Whatever the modules do, the loop returns once the clock has reached the
  deadline after some round, with one entry for each module; a module that has not stopped by then is
  reported, with its name.
\<close>

theorem shutdown_ends:
  assumes "length stopped = length modules" and "deadline \<le> clock n"
  shows "\<exists>modules' stopped' errors'. shutdown_loop clock deadline (modules, stopped, errors) = Some (modules', stopped', errors')
    \<and> length modules' = length modules \<and> length stopped' = length modules
    \<and> (\<forall>k < length modules. stopped' ! k \<or> Ev_ModuleError (lm_instance_name (modules' ! k)) Msg_Shutdown_Timeout \<in> set errors')"
  using assms
proof (induction n arbitrary: clock modules stopped errors)
  case 0
  obtain m s e where r: "shutdown_round (modules, stopped, errors) = (m, s, e)" by (metis prod_cases3)
  have l: "length m = length modules" "length s = length modules" using shutdown_round_lengths [of "(modules, stopped, errors)"] "0.prems"(1) r by simp_all
  note reports = timed_out_reports [of s m]
  show ?case using "0.prems"(2) r l reports by (subst shutdown_loop.simps) (auto simp: list_all_length)
next
  case (Suc n)
  obtain m s e where r: "shutdown_round (modules, stopped, errors) = (m, s, e)" by (metis prod_cases3)
  have l: "length m = length modules" "length s = length modules" using shutdown_round_lengths [of "(modules, stopped, errors)"] Suc.prems(1) r by simp_all
  note reports = timed_out_reports [of s m]
  show ?case using Suc.IH [of s m "\<lambda>i. clock (Suc i)" e] Suc.prems(2) r l reports
    by (subst shutdown_loop.simps) (auto simp: list_all_length)
qed

text \<open>A client with one tunnel, whose modules create themselves; the channel for events takes two.\<close>

definition born :: "bytes loaded_module \<Rightarrow> bytes loaded_module" where
  "born l = l\<lparr>lm_instance := None, lm_descriptor := (lm_descriptor l)\<lparr>de_create := Some (\<lambda>m config base. (m, 1, STATUS_OK)),
     de_poll := Some (\<lambda>m h. (m, STATUS_OK)), de_shutdown := Some (\<lambda>m h. (m, STATUS_PENDING)), de_adapter := Some calling_adapter\<rparr>\<rparr>"

definition small_host :: "(script, nat) host_env" where
  "small_host = \<lparr>he_try_send = (\<lambda>n e. if n < 2 then (n + 1, True) else (n, False)), he_debug = (\<lambda>e. []), he_error_text = (\<lambda>e. []),
     he_sockets = script_ops\<rparr>"

definition small_validated :: "bytes validated_config" where
  "small_validated = \<lparr>vc_config = low_memory_template\<lparr>logging_of := LoggingOff, control_of := ControlOff\<rparr>,
     vc_modules = [born quiet_carrier, born (bare_module None (Some open_policy_table))], vc_tunnels = [client_binding]\<rparr>"

definition quiet_turn :: "script turn_input" where
  "quiet_turn = \<lparr>ti_command = Commands_Empty, ti_stack_work = False, ti_backlog = [], ti_host_calls = [], ti_log_errors = [],
     ti_reset_clock = (\<lambda>i. 6), ti_clock = (\<lambda>t i. 6)\<rparr>"

definition small_core :: "(script, nat) engine_core" where
  "small_core = \<lparr>ec_config = vc_config small_validated, ec_bridge = host_bridge_new, ec_events = 0, ec_told = [], ec_taken = [],
     ec_snapshot = \<lparr>sn_lifecycle = 0, sn_sessions = 0, sn_flows = 0, sn_lost_events = 0\<rparr>, ec_logger = None, ec_log_errors = [],
     ec_pending = [], ec_server = None, ec_answers = [], ec_next_channel = 0, ec_idle_wait = False\<rparr>"

definition small_running :: "(script, nat) engine_core" where
  "small_running = small_core\<lparr>ec_events := 2, ec_told := [Ev_Lifecycle Lc_Starting, Ev_Lifecycle Lc_Running],
     ec_taken := [Ev_Lifecycle Lc_Starting, Ev_Lifecycle Lc_Running],
     ec_snapshot := \<lparr>sn_lifecycle = 2, sn_sessions = 0, sn_flows = 0, sn_lost_events = 0\<rparr>\<rparr>"

definition small_world :: "nat bridge \<Rightarrow> (bytes, nat) engine_world" where
  "small_world b =
     \<lparr>ew_modules = map (\<lambda>l. l\<lparr>lm_instance := Some 1\<rparr>) (vc_modules small_validated), ew_registry = core_registry_new\<lparr>cr_next := 2\<rparr>,
      ew_stack = b, ew_leases = [], ew_operation = 1\<rparr>"

lemma small_build: "engine_build (\<lambda>name. None) (\<lambda>a b c d e. Inl []) (\<lambda>p r n. Inl []) (\<lambda>n. 0) (vc_config small_validated) = Inr small_core"
  by (simp add: engine_build_def small_validated_def configure_logging_def small_core_def)

lemma small_emits:
  "emit small_host (Ev_Lifecycle Lc_Starting) small_core = Some (small_core\<lparr>ec_events := 1, ec_told := [Ev_Lifecycle Lc_Starting],
     ec_taken := [Ev_Lifecycle Lc_Starting], ec_snapshot := \<lparr>sn_lifecycle = 1, sn_sessions = 0, sn_flows = 0, sn_lost_events = 0\<rparr>\<rparr>)"
  "emit small_host (Ev_Lifecycle Lc_Running) (small_core\<lparr>ec_events := 1, ec_told := [Ev_Lifecycle Lc_Starting],
     ec_taken := [Ev_Lifecycle Lc_Starting], ec_snapshot := \<lparr>sn_lifecycle = 1, sn_sessions = 0, sn_flows = 0, sn_lost_events = 0\<rparr>\<rparr>) = Some small_running"
  by (simp_all add: emit_def emit_unlogged_def log_event_def small_host_def small_core_def small_running_def Let_def)

lemma small_creates: "create_modules (vc_modules small_validated) = (ew_modules (small_world b), Inr ())"
  by (simp add: small_validated_def small_world_def lm_create_def born_def quiet_carrier_def bare_module_def STATUS_OK_def)

lemma small_ports:
  "attach_packet_ports client_env 9 [0] ((small_world b)\<lparr>ew_registry := core_registry_new\<rparr>) = Some (small_world b, Inr ())"
  by (simp add: small_world_def small_validated_def born_def quiet_carrier_def bare_module_def client_env_def register_datagram_def
      core_registry_new_def stream_count_def datagram_count_def saturating_add_def Let_def usize_max_def adapter_attach_packet_port_def
      with_call_def calling_adapter_def registered_datagram_drop_def AList.delete_eq)

lemma small_turn:
  "case engine_turn small_host client_env quiet_turn ([fresh_tunnel], small_world b, small_running) of
     Some ((ts, w, c), go) \<Rightarrow> go \<and> map (\<lambda>t. stage_of (tr_state t)) ts = [Stage_Protection]
       \<and> ec_told c = [Ev_Lifecycle Lc_Starting, Ev_Lifecycle Lc_Running, Ev_Tunnel (b_str ''client'') ''carrier-ready'']
       \<and> ec_taken c = [Ev_Lifecycle Lc_Starting, Ev_Lifecycle Lc_Running] 
   | None \<Rightarrow> False"
  by code_simp

lemma small_started:
  assumes "bridge_new still_net (stack_of low_memory_template) 32 33554432 32 = Inr b"
  shows "engine_start small_host client_env (\<lambda>i. 5) [0] (core_registry_new, 1) small_validated small_core
    = Some (small_running, Inr ([fresh_tunnel], small_world b))"
proof -
  have v: "vc_tunnels small_validated = [client_binding]" "stack_of (vc_config small_validated) = stack_of low_memory_template"
      "max_flows (engine_of (vc_config small_validated)) = 32" "max_managed_bytes (engine_of (vc_config small_validated)) = 33554432"
      "max_ingress_packets_per_tick (engine_of (vc_config small_validated)) = 32" "ee_smoltcp client_env = still_net"
    by (simp_all add: small_validated_def low_memory_template_def client_env_def)
  have l: "packet_io_limit [client_binding] [0] = Some 9" by code_simp
  have w: "(small_world b)\<lparr>ew_registry := core_registry_new\<rparr> = \<lparr>ew_modules = ew_modules (small_world b), ew_registry = core_registry_new,
      ew_stack = b, ew_leases = [], ew_operation = 1\<rparr>"
    by (simp add: small_world_def)
  show ?thesis
    unfolding engine_start_def small_emits(1) Option.bind.simps small_creates [of b] v
    by (simp add: assms l small_ports [of b, unfolded w] small_emits(2) [simplified] fresh_tunnel_def del: attach_packet_ports.simps)
qed

lemma small_run: "\<exists>b. engine_run small_host ([fresh_tunnel], small_world b, small_running)"
proof -
  obtain b where b: "bridge_new still_net (stack_of low_memory_template) 32 33554432 32 = Inr b" using still_bridge by blast
  have "set [0] = (\<Union>b \<in> set (vc_tunnels small_validated). set (tb_adapters b))" by (simp add: small_validated_def client_binding_def)
  from engine_run.started [OF small_build small_started [OF b] _ this] show ?thesis by auto
qed

theorem snapshot_exact_witness:
  "\<exists>st (ts :: bytes tunnel_runtime list) w c. engine_run small_host st \<and> engine_turn small_host client_env quiet_turn st = Some ((ts, w, c), True)
     \<and> map (\<lambda>t. stage_of (tr_state t)) ts = [Stage_Protection] \<and> hs_sessions (snapshot_of c) = of_nat (length (filter is_established ts))"
proof -
  obtain b where r: "engine_run small_host ([fresh_tunnel], small_world b, small_running)" using small_run by blast
  obtain ts w c where t: "engine_turn small_host client_env quiet_turn ([fresh_tunnel], small_world b, small_running) = Some ((ts, w, c), True)"
      "map (\<lambda>t. stage_of (tr_state t)) ts = [Stage_Protection]"
    using small_turn [of b] by (auto split: option.splits)
  show ?thesis by (intro exI conjI) (rule r, rule t(1), rule t(2), use snapshot_exact [OF r t(1)] in simp)
qed

theorem events_accounted_witness:
  "\<exists>(ts :: bytes tunnel_runtime list) (w :: (bytes, nat) engine_world) c. engine_run small_host (ts, w, c) \<and> length (ec_told c) = 3 \<and> length (ec_taken c) = 2 \<and> hs_lost_events (snapshot_of c) = 1
     \<and> hs_lifecycle (snapshot_of c) = Lc_Running"
proof -
  obtain b where r: "engine_run small_host ([fresh_tunnel], small_world b, small_running)" using small_run by blast
  obtain ts w c where t: "engine_turn small_host client_env quiet_turn ([fresh_tunnel], small_world b, small_running) = Some ((ts, w, c), True)"
      "ec_told c = [Ev_Lifecycle Lc_Starting, Ev_Lifecycle Lc_Running, Ev_Tunnel (b_str ''client'') ''carrier-ready'']"
      "ec_taken c = [Ev_Lifecycle Lc_Starting, Ev_Lifecycle Lc_Running]"
    using small_turn [of b] by (auto split: option.splits)
  have r': "engine_run small_host (ts, w, c)" by (rule engine_run.turned [OF r t(1)])
  from events_accounted [OF r', of c client_env "\<lambda>i. 0" w] t(2,3) have
      "length (ec_told c) = 3 \<and> length (ec_taken c) = 2 \<and> hs_lost_events (snapshot_of c) = 1 \<and> hs_lifecycle (snapshot_of c) = Lc_Running"
    by (simp add: last_lifecycle_def)
  then show ?thesis by (intro exI conjI) (rule r', simp_all)
qed

theorem shutdown_ends_witness:
  "\<exists>modules stopped errors. shutdown_loop (\<lambda>i. i) 3 ([born quiet_carrier\<lparr>lm_instance := Some 1\<rparr>], [False], []) = Some (modules, stopped, errors)
     \<and> length modules = 1 \<and> length stopped = 1"
  using shutdown_ends [of "[False]" "[born quiet_carrier\<lparr>lm_instance := Some 1\<rparr>]" 3 "\<lambda>i. i" 3 "[]"] by auto

text \<open>What the engine leaves in the snapshot when it stops: the sessions are none, the flows those of the last turn.\<close>

lemma shutdown_leaves_flows:
  assumes "engine_shutdown H E clock (ts, w, c) = Some (w', c')" and "events_ok c"
  shows "sn_sessions (ec_snapshot c') = 0 \<and> sn_flows (ec_snapshot c') = sn_flows (ec_snapshot c)"
proof -
  obtain es where e: "emit_all H es (c\<lparr>ec_snapshot := (ec_snapshot c)\<lparr>sn_sessions := 0\<rparr>\<rparr>) = Some c'"
    using assms(1) by (auto simp: engine_shutdown_def Let_def bind_eq_Some_conv)
  have "events_ok (c\<lparr>ec_snapshot := (ec_snapshot c)\<lparr>sn_sessions := 0\<rparr>\<rparr>)" using assms(2) by (simp add: events_ok_def)
  from emit_all_events [OF this e] show ?thesis by simp
qed

text \<open>A failure to start that is not a module's leaves the state at \<open>Starting\<close>.\<close>

lemma failed_start_not_shown:
  assumes "events_ok c" and "create_modules (vc_modules v) = (modules, Inr ())"
    and "engine_start H E clock adapters statics v c = Some (c', Inl error)"
  shows "hs_lifecycle (snapshot_of c') = Lc_Starting"
proof -
  obtain c1 where e: "emit H (Ev_Lifecycle Lc_Starting) c = Some c1" using assms(3) by (auto simp: engine_start_def bind_eq_Some_conv)
  have "c' = c1" using assms(2,3) by (auto simp: engine_start_def e split: prod.splits sum.splits option.splits)
  then have "sn_lifecycle (ec_snapshot c') = 1"
    using emit_events(1,2) [OF assms(1) e] by (simp add: events_ok_def last_lifecycle_snoc)
  then show ?thesis by (simp add: snapshot_of_def Let_def lifecycle_from_u8_def)
qed

end
