(* ===== verification/Cli.thy ===== *)
theory Cli
  imports Deployment Engine
begin

text \<open>
  The commands of the program (\<open>snolc-cli/src/main.rs\<close>): what its arguments select, and how an engine is
  built from a configuration file. Messages are kept as the errors they are the text of. Files, the
  control socket, standard output, the log writer and the TOML readers are the fields of \<open>cli_env\<close>.
\<close>

section \<open>Building an engine\<close>

datatype cli_error =
  Cli_Deployment deployment_error | Cli_Engine engine_error | Cli_Control control_error | Cli_Io | Cli_Request_Size
| Cli_Usage | Cli_Spawn | Cli_Receive | Cli_Handler | Cli_Panicked

record ('o, 'l, 'm, 's, 'c) cli_env =
  ce_deploy :: "('o, 'l, 'm) deploy_env"
  ce_toml :: "bytes \<Rightarrow> (string \<Rightarrow> bool option) option"
  ce_var :: "bytes \<Rightarrow> bytes option"
  ce_log_start :: "bytes \<Rightarrow> nat \<Rightarrow> nat \<Rightarrow> nat \<Rightarrow> nat \<Rightarrow> string + file_logger"
  ce_bind :: "path \<Rightarrow> nat \<Rightarrow> nat \<Rightarrow> string + ('s, channel) control_server"
  ce_events :: "nat \<Rightarrow> 'c"
  ce_read :: "path \<Rightarrow> bytes option"
  ce_client :: "'s client_ops"
  ce_print :: "bytes \<Rightarrow> bool"
  ce_handler :: bool
  ce_run :: "'m validated_config \<Rightarrow> ('s, 'c) engine_core \<Rightarrow> engine_error + unit"
  ce_version :: bytes

definition cli_load :: "('o, 'l, 'm, 's, 'c) cli_env \<Rightarrow> path \<Rightarrow> cli_error + config \<times> 'm loaded_module list" where
  "cli_load E path = map_err Cli_Deployment (deployment_load (ce_deploy E) path)"

definition build_engine ::
    "('o, 'l, 'm, 's, 'c) cli_env \<Rightarrow> path \<Rightarrow> cli_error + 'm validated_config \<times> ('s, 'c) engine_core" where
  "build_engine E path =
     rbind (cli_load E path) (\<lambda>(config, modules).
     rbind (map_err Cli_Engine (engine_validate (ce_toml E) config modules)) (\<lambda>validated.
     rbind (map_err Cli_Engine (engine_build (ce_var E) (ce_log_start E) (ce_bind E) (ce_events E) (vc_config validated))) (\<lambda>engine.
     Inr (validated, engine))))"

definition run_single_engine :: "('o, 'l, 'm, 's, 'c) cli_env \<Rightarrow> path \<Rightarrow> cli_error + unit" where
  "run_single_engine E path =
     rbind (build_engine E path) (\<lambda>(validated, engine).
     if ce_handler E then map_err Cli_Engine (ce_run E validated engine) else Inl Cli_Handler)"

section \<open>The commands\<close>

text \<open>\<open>supervise\<close> is the rest of \<open>run_engine\<close> for a number of workers other than one.\<close>

definition run_engine :: "('o, 'l, 'm, 's, 'c) cli_env \<Rightarrow> (nat \<Rightarrow> path \<Rightarrow> cli_error + unit) \<Rightarrow> path \<Rightarrow> cli_error + unit" where
  "run_engine E supervise path =
     rbind (cli_load E path) (\<lambda>(config, modules).
     (let workers = worker_threads (engine_of config) in
      if workers = 1 then run_single_engine E path else supervise workers path))"

datatype cli_output = Out_Version bytes u32 | Out_Valid | Out_Ran | Out_Response bytes

definition MAX_CLI_BYTES :: nat where "MAX_CLI_BYTES = 65536"

definition cli_control :: "('o, 'l, 'm, 's, 'c) cli_env \<Rightarrow> bytes \<Rightarrow> bytes \<Rightarrow> bytes \<Rightarrow> cli_error + cli_output" where
  "cli_control E socket name file =
     rbind (ok_or Cli_Io (ce_read E (path_of_string file))) (\<lambda>request.
     if length request > MAX_CLI_BYTES then Inl Cli_Request_Size
     else
       rbind (map_err Cli_Control (control_request (ce_client E) (path_of_string socket) name request MAX_CLI_BYTES)) (\<lambda>response.
       if ce_print E response then Inr (Out_Response response) else Inl Cli_Io))"

definition cli_run :: "('o, 'l, 'm, 's, 'c) cli_env \<Rightarrow> (nat \<Rightarrow> path \<Rightarrow> cli_error + unit) \<Rightarrow> bytes list \<Rightarrow> cli_error + cli_output" where
  "cli_run E supervise arguments =
     (case arguments of
        [command] \<Rightarrow>
          if command = b_str ''version'' \<or> command = b_str ''--version'' then Inr (Out_Version (ce_version E) WIRE_VERSION)
          else Inl Cli_Usage
      | [command, path] \<Rightarrow>
          if command = b_str ''validate'' then
            rbind (cli_load E (path_of_string path)) (\<lambda>(config, modules).
            rbind (map_err Cli_Engine (engine_validate (ce_toml E) config modules)) (\<lambda>_. Inr Out_Valid))
          else if command = b_str ''run'' then rbind (run_engine E supervise (path_of_string path)) (\<lambda>_. Inr Out_Ran)
          else Inl Cli_Usage
      | [command, socket, name, request] \<Rightarrow>
          if command = b_str ''control'' then cli_control E socket name request else Inl Cli_Usage
      | _ \<Rightarrow> Inl Cli_Usage)"

text \<open>The exit status of the process.\<close>

definition cli_main :: "('o, 'l, 'm, 's, 'c) cli_env \<Rightarrow> (nat \<Rightarrow> path \<Rightarrow> cli_error + unit) \<Rightarrow> bytes list \<Rightarrow> nat" where
  "cli_main E supervise arguments = (case cli_run E supervise (drop 1 arguments) of Inl _ \<Rightarrow> 1 | Inr _ \<Rightarrow> 0)"

section \<open>What the commands agree on\<close>

text \<open>\<open>validate\<close> accepts every file that an engine can be built from.\<close>

lemma built_is_valid:
  assumes "build_engine E (path_of_string path) = Inr b"
  shows "cli_run E supervise [b_str ''validate'', path] = Inr Out_Valid"
  using assms by (auto simp: build_engine_def cli_run_def rbind_def b_str_def split: sum.splits prod.splits)

text \<open>The configuration with which an engine runs is one that the validation accepts.\<close>

lemma built_config_valid:
  assumes "build_engine E path = Inr (v, c)"
  shows "validate (ec_config c) = Inr () \<and> ec_config c = vc_config v"
  using assms
  by (auto simp: build_engine_def engine_validate_def engine_build_def rbind_def map_err_def Let_def split: sum.splits prod.splits if_splits)

text \<open>Several engines share no control socket.\<close>

lemma many_workers_have_no_control:
  assumes "build_engine E path = Inr (v, c)" "worker_threads (engine_of (ec_config c)) > 1"
  shows "control_of (ec_config c) = ControlOff \<and> ec_server c = None"
proof -
  have ok: "validate (ec_config c) = Inr ()" by (rule built_config_valid[OF assms(1), THEN conjunct1])
  have off: "control_of (ec_config c) = ControlOff"
    using ok assms(2) by (simp add: validate_def Let_def rbind_Inr_iff)
  have "ec_server c = None"
    using assms(1) off built_config_valid[OF assms(1)]
    by (auto simp: build_engine_def engine_build_def rbind_def map_err_def split: sum.splits prod.splits)
  then show ?thesis using off by simp
qed

end
