(* ===== verification/Supervisor.thy ===== *)
theory Supervisor
  imports Cli
begin

text \<open>
  The supervisor of several engines (\<open>run_engine\<close> of \<open>snolc-cli/src/main.rs\<close>): a thread for every
  worker, the thread that started them, and the thread of the signal handler, interleaved as a step
  relation.

  Every call of \<open>EngineHandle::shutdown\<close> puts a command with a one-shot channel into the queue of the
  engine and waits until the engine answers or is dropped; \<open>su_queues\<close> holds, for every engine, who
  waits there. A thread of a worker ends right after its last message. \<open>build i\<close> is what \<open>build_engine\<close>
  gives to worker \<open>i\<close>; the result of an engine is any.
\<close>

section \<open>State\<close>

datatype caller = By_Main | By_Signal | By_Worker

text \<open>The flag of \<open>Crashed\<close> is whether the worker had sent its handle.\<close>

datatype worker =
  Building | Refused cli_error | Announced | Self_Stopping | Serving | Closing caller
| Leaving "engine_error + unit" | Ended | Failed | Crashed bool

text \<open>The loop that calls \<open>shutdown\<close> on every handle: between two calls, or inside one.\<close>

datatype stopper = Calling "nat list" | Awaiting nat "nat list"

datatype supervisor =
  Spawning | Draining cli_error nat | Collecting nat "cli_error option" | Installing | Watching
| Stopping stopper "cli_error + unit" | Joining nat "cli_error + unit" | Returned "cli_error + unit"

record supervision =
  su_main :: supervisor
  su_workers :: "worker list"
  su_queues :: "nat \<Rightarrow> caller list"
  su_ready :: "(cli_error + nat) list"
  su_done :: "(engine_error + unit) list"
  su_cancelled :: bool
  su_handles :: "nat list"
  su_armed :: bool
  su_signal :: "stopper option"

definition supervision_start :: supervision where
  "supervision_start =
     \<lparr>su_main = Spawning, su_workers = [], su_queues = (\<lambda>_. []), su_ready = [], su_done = [], su_cancelled = False,
      su_handles = [], su_armed = False, su_signal = None\<rparr>"

text \<open>The thread of a worker has ended; the engine of a worker is gone.\<close>

fun thread_over :: "worker \<Rightarrow> bool" where
  "thread_over Ended = True"
| "thread_over Failed = True"
| "thread_over (Crashed _) = True"
| "thread_over _ = False"

fun engine_gone :: "worker \<Rightarrow> bool" where
  "engine_gone (Leaving _) = True"
| "engine_gone Ended = True"
| "engine_gone (Crashed _) = True"
| "engine_gone _ = False"

definition panicked :: "worker \<Rightarrow> bool" where
  "panicked w \<longleftrightarrow> w \<in> {Crashed True, Crashed False}"

section \<open>Steps\<close>

text \<open>One call of \<open>shutdown\<close>: the channel of an engine that is gone refuses the command, and the answer
  comes when the engine takes the command or is dropped.\<close>

fun stopper_step :: "caller \<Rightarrow> stopper \<Rightarrow> supervision \<Rightarrow> (stopper \<times> supervision) option" where
  "stopper_step c (Calling []) s = None"
| "stopper_step c (Calling (h # hs)) s =
     (if engine_gone (su_workers s ! h) then Some (Calling hs, s)
      else Some (Awaiting h hs, s\<lparr>su_queues := (su_queues s)(h := su_queues s h @ [c])\<rparr>))"
| "stopper_step c (Awaiting h hs) s =
     (if engine_gone (su_workers s ! h) \<or> su_workers s ! h = Closing c then Some (Calling hs, s) else None)"

text \<open>What the thread of worker \<open>i\<close> does next; \<open>r\<close> is the result of its engine.\<close>

definition set_worker :: "nat \<Rightarrow> worker \<Rightarrow> supervision \<Rightarrow> supervision" where
  "set_worker i w s = s\<lparr>su_workers := (su_workers s)[i := w]\<rparr>"

fun worker_step :: "(nat \<Rightarrow> cli_error + unit) \<Rightarrow> engine_error + unit \<Rightarrow> nat \<Rightarrow> worker \<Rightarrow> supervision \<Rightarrow> supervision option" where
  "worker_step build r i Building s =
     (case build i of
        Inr _ \<Rightarrow> Some ((set_worker i Announced s)\<lparr>su_ready := su_ready s @ [Inr i]\<rparr>)
      | Inl e \<Rightarrow> Some ((set_worker i (Refused e) s)\<lparr>su_cancelled := True\<rparr>))"
| "worker_step build r i (Refused e) s = Some ((set_worker i Failed s)\<lparr>su_ready := su_ready s @ [Inl e]\<rparr>)"
| "worker_step build r i Announced s =
     (if su_cancelled s then
        Some ((set_worker i Self_Stopping s)\<lparr>su_queues := (su_queues s)(i := su_queues s i @ [By_Worker])\<rparr>)
      else Some (set_worker i Serving s))"
| "worker_step build r i Self_Stopping s = None"
| "worker_step build r i Serving s =
     (case su_queues s i of
        [] \<Rightarrow> None
      | c # q \<Rightarrow> Some ((set_worker i (Closing c) s)\<lparr>su_queues := (su_queues s)(i := q)\<rparr>))"
| "worker_step build r i (Closing c) s = Some (set_worker i (Leaving r) s)"
| "worker_step build r i (Leaving r') s = Some ((set_worker i Ended s)\<lparr>su_done := su_done s @ [r']\<rparr>)"
| "worker_step build r i w s = None"

text \<open>What the thread of \<open>run_engine\<close> does next, with \<open>W\<close> workers; \<open>installed\<close> is the answer of the
  signal handler. The thread keeps a sender of the first channel until all workers are spawned.\<close>

definition took :: "cli_error + nat \<Rightarrow> nat list \<Rightarrow> nat list" where
  "took m hs = (case m of Inl _ \<Rightarrow> hs | Inr h \<Rightarrow> hs @ [h])"

definition all_over :: "supervision \<Rightarrow> bool" where
  "all_over s = list_all thread_over (su_workers s)"

definition joined :: "worker \<Rightarrow> cli_error + unit \<Rightarrow> cli_error + unit" where
  "joined w r = (if panicked w \<and> r = Inr () then Inl Cli_Panicked else r)"

fun main_step :: "nat \<Rightarrow> bool \<Rightarrow> supervisor \<Rightarrow> supervision \<Rightarrow> supervision option" where
  "main_step W installed Spawning s =
     (if length (su_workers s) < W then Some (s\<lparr>su_workers := su_workers s @ [Building]\<rparr>)
      else Some (s\<lparr>su_main := Collecting W None\<rparr>))"
| "main_step W installed (Draining e k) s =
     (if k = 0 then Some (s\<lparr>su_main := Stopping (Calling (su_handles s)) (Inl e)\<rparr>)
      else case su_ready s of
        [] \<Rightarrow> None
      | m # q \<Rightarrow> Some (s\<lparr>su_main := Draining e (k - 1), su_ready := q, su_handles := took m (su_handles s)\<rparr>))"
| "main_step W installed (Collecting k failure) s =
     (if k = 0 then
        Some (s\<lparr>su_main := (case failure of None \<Rightarrow> Installing | Some e \<Rightarrow> Stopping (Calling (su_handles s)) (Inl e))\<rparr>)
      else case su_ready s of
        [] \<Rightarrow> if all_over s then Some (s\<lparr>su_main := Returned (Inl Cli_Receive)\<rparr>) else None
      | Inr h # q \<Rightarrow> Some (s\<lparr>su_main := Collecting (k - 1) failure, su_ready := q, su_handles := su_handles s @ [h]\<rparr>)
      | Inl e # q \<Rightarrow>
          Some (s\<lparr>su_main := Collecting (k - 1) (case failure of None \<Rightarrow> Some e | Some f \<Rightarrow> Some f), su_ready := q, su_cancelled := True\<rparr>))"
| "main_step W installed Installing s =
     (if installed then Some (s\<lparr>su_main := Watching, su_armed := True\<rparr>) else Some (s\<lparr>su_main := Returned (Inl Cli_Handler)\<rparr>))"
| "main_step W installed Watching s =
     (case su_done s of
        [] \<Rightarrow> if all_over s then Some (s\<lparr>su_main := Returned (Inl Cli_Receive)\<rparr>) else None
      | r # q \<Rightarrow> Some (s\<lparr>su_main := Stopping (Calling (su_handles s)) (map_err Cli_Engine r), su_done := q\<rparr>))"
| "main_step W installed (Stopping st r) s =
     (if st = Calling [] then Some (s\<lparr>su_main := Joining 0 r\<rparr>)
      else map_option (\<lambda>(st, s). s\<lparr>su_main := Stopping st r\<rparr>) (stopper_step By_Main st s))"
| "main_step W installed (Joining j r) s =
     (if j < length (su_workers s) then
        (if thread_over (su_workers s ! j) then Some (s\<lparr>su_main := Joining (Suc j) (joined (su_workers s ! j) r)\<rparr>) else None)
      else Some (s\<lparr>su_main := Returned r\<rparr>))"
| "main_step W installed (Returned r) s = None"

definition spawn_fails :: "nat \<Rightarrow> supervision \<Rightarrow> supervision option" where
  "spawn_fails W s =
     (if su_main s = Spawning \<and> length (su_workers s) < W
      then Some (s\<lparr>su_main := Draining Cli_Spawn (length (su_workers s)), su_cancelled := True\<rparr>) else None)"

text \<open>The handler of the signal.\<close>

definition signal_step :: "supervision \<Rightarrow> supervision option" where
  "signal_step s =
     (case su_signal s of
        None \<Rightarrow> if su_armed s then Some (s\<lparr>su_signal := Some (Calling (su_handles s))\<rparr>) else None
      | Some st \<Rightarrow>
          if st = Calling [] then Some (s\<lparr>su_signal := None\<rparr>)
          else map_option (\<lambda>(st, s). s\<lparr>su_signal := Some st\<rparr>) (stopper_step By_Signal st s))"

text \<open>Who moves. An engine that nobody asked may end by itself, and its thread or its construction may
  panic.\<close>

datatype move = Main_Moves | Worker_Moves nat | Engine_Ends nat | Signal_Moves | Spawn_Fails | Worker_Panics nat

inductive supervision_step :: "(nat \<Rightarrow> cli_error + unit) \<Rightarrow> nat \<Rightarrow> move \<Rightarrow> supervision \<Rightarrow> supervision \<Rightarrow> bool"
  for build :: "nat \<Rightarrow> cli_error + unit" and W :: nat where
  by_main: "main_step W installed (su_main s) s = Some s' \<Longrightarrow> supervision_step build W Main_Moves s s'"
| by_worker: "i < length (su_workers s) \<Longrightarrow> worker_step build r i (su_workers s ! i) s = Some s'
    \<Longrightarrow> supervision_step build W (Worker_Moves i) s s'"
| engine_ends: "i < length (su_workers s) \<Longrightarrow> su_workers s ! i = Serving
    \<Longrightarrow> supervision_step build W (Engine_Ends i) s (set_worker i (Leaving r) s)"
| by_signal: "signal_step s = Some s' \<Longrightarrow> supervision_step build W Signal_Moves s s'"
| spawning_fails: "spawn_fails W s = Some s' \<Longrightarrow> supervision_step build W Spawn_Fails s s'"
| build_panics: "i < length (su_workers s) \<Longrightarrow> su_workers s ! i = Building
    \<Longrightarrow> supervision_step build W (Worker_Panics i) s (set_worker i (Crashed False) s)"
| engine_panics: "i < length (su_workers s) \<Longrightarrow> su_workers s ! i = Serving \<or> (\<exists>c. su_workers s ! i = Closing c)
    \<Longrightarrow> supervision_step build W (Worker_Panics i) s (set_worker i (Crashed True) s)"

inductive_cases main_movesE: "supervision_step build W Main_Moves s s'"
inductive_cases worker_movesE: "supervision_step build W (Worker_Moves i) s s'"

text \<open>The states that are reached; without faults no thread panics and every thread can be spawned.\<close>

definition fault :: "move \<Rightarrow> bool" where
  "fault m \<longleftrightarrow> (case m of Spawn_Fails \<Rightarrow> True | Worker_Panics _ \<Rightarrow> True | _ \<Rightarrow> False)"

inductive supervised :: "(nat \<Rightarrow> cli_error + unit) \<Rightarrow> nat \<Rightarrow> bool \<Rightarrow> supervision \<Rightarrow> bool"
  for build :: "nat \<Rightarrow> cli_error + unit" and W :: nat and faults :: bool where
  supervised_start: "supervised build W faults supervision_start"
| supervised_step: "supervised build W faults s \<Longrightarrow> supervision_step build W m s s' \<Longrightarrow> fault m \<longrightarrow> faults
    \<Longrightarrow> supervised build W faults s'"

section \<open>What is kept\<close>

text \<open>A worker has sent its message; its message was a handle.\<close>

fun sent :: "worker \<Rightarrow> bool" where
  "sent Building = False"
| "sent (Refused _) = False"
| "sent (Crashed b) = b"
| "sent _ = True"

definition has_handle :: "worker \<Rightarrow> bool" where
  "has_handle w \<longleftrightarrow> sent w \<and> w \<noteq> Failed"

definition is_closing :: "worker \<Rightarrow> bool" where
  "is_closing w \<longleftrightarrow> (\<exists>c. w = Closing c)"

definition told :: "supervision \<Rightarrow> nat \<Rightarrow> bool" where
  "told s h \<longleftrightarrow> engine_gone (su_workers s ! h) \<or> is_closing (su_workers s ! h) \<or> su_queues s h \<noteq> []"

definition sent_count :: "worker list \<Rightarrow> nat" where
  "sent_count ws = length (filter sent ws)"

text \<open>Every message is in the channel or was received.\<close>

definition messages_counted :: "nat \<Rightarrow> supervision \<Rightarrow> bool" where
  "messages_counted W s \<longleftrightarrow>
     length (su_workers s) \<le> W \<and> length (su_handles s) + length (su_ready s) \<le> sent_count (su_workers s)
     \<and> (case su_main s of
          Spawning \<Rightarrow> length (su_ready s) = sent_count (su_workers s)
        | Draining e k \<Rightarrow> k \<le> length (su_workers s) \<and> length (su_workers s) + length (su_ready s) = sent_count (su_workers s) + k
        | Collecting k f \<Rightarrow> length (su_workers s) = W \<and> k \<le> W \<and> W + length (su_ready s) = sent_count (su_workers s) + k
        | Returned r \<Rightarrow> True
        | _ \<Rightarrow> su_ready s = [] \<and> sent_count (su_workers s) = length (su_workers s))"

definition handles_known :: "supervision \<Rightarrow> bool" where
  "handles_known s \<longleftrightarrow>
     (\<forall>i < length (su_workers s). has_handle (su_workers s ! i) \<longrightarrow> i \<in> set (su_handles s) \<or> Inr i \<in> set (su_ready s))
     \<and> (\<forall>h. h \<in> set (su_handles s) \<or> Inr h \<in> set (su_ready s) \<longrightarrow> h < length (su_workers s) \<and> has_handle (su_workers s ! h))"

fun still_to_call :: "stopper \<Rightarrow> nat list" where
  "still_to_call (Calling hs) = hs"
| "still_to_call (Awaiting h hs) = hs"

fun awaited :: "stopper \<Rightarrow> nat list" where
  "awaited (Calling hs) = []"
| "awaited (Awaiting h hs) = [h]"

definition stopping_reaches :: "supervision \<Rightarrow> bool" where
  "stopping_reaches s \<longleftrightarrow>
     (case su_main s of
        Stopping st r \<Rightarrow>
          (\<forall>h \<in> set (su_handles s). told s h \<or> h \<in> set (still_to_call st))
          \<and> set (still_to_call st) \<subseteq> set (su_handles s) \<and> length (still_to_call st) \<le> length (su_handles s)
          \<and> (\<forall>h \<in> set (awaited st). h \<in> set (su_handles s) \<and> told s h)
      | Joining j r \<Rightarrow>
          (\<forall>h \<in> set (su_handles s). told s h) \<and> j \<le> length (su_workers s) \<and> (\<forall>i < j. thread_over (su_workers s ! i))
      | Returned r \<Rightarrow> r \<in> {Inl Cli_Receive, Inl Cli_Handler} \<or> list_all thread_over (su_workers s)
      | _ \<Rightarrow> True)"

definition supervision_inv :: "nat \<Rightarrow> supervision \<Rightarrow> bool" where
  "supervision_inv W s \<longleftrightarrow> messages_counted W s \<and> handles_known s \<and> stopping_reaches s"

lemmas supervision_defs = supervision_inv_def messages_counted_def handles_known_def stopping_reaches_def

lemma sent_count_simps [simp]:
  "sent_count [] = 0" "sent_count (w # ws) = of_bool (sent w) + sent_count ws" "sent_count (us @ vs) = sent_count us + sent_count vs"
  by (simp_all add: sent_count_def)

lemma sent_count_update:
  assumes "i < length ws"
  shows "sent_count (ws[i := w]) + of_bool (sent (ws ! i)) = sent_count ws + of_bool (sent w)"
proof -
  have "sent_count ws = sent_count (take i ws @ ws ! i # drop (Suc i) ws)" using id_take_nth_drop[OF assms] by simp
  then show ?thesis using assms by (simp add: upd_conv_take_nth_drop)
qed

lemma sent_count_le [simp]: "sent_count ws \<le> length ws"
  by (simp add: sent_count_def)

lemma sent_count_all: "sent_count ws = length ws \<Longrightarrow> i < length ws \<Longrightarrow> sent (ws ! i)"
  by (metis filter_id_conv length_filter_less nth_mem order_less_irrefl sent_count_def)

lemma sent_count_not_all: "sent_count ws < length ws \<Longrightarrow> \<exists>i < length ws. \<not> sent (ws ! i)"
  by (metis filter_True in_set_conv_nth order_less_irrefl sent_count_def)

text \<open>A worker moves: it sends its message, or it had and goes on.\<close>

definition worker_moved :: "nat \<Rightarrow> supervision \<Rightarrow> supervision \<Rightarrow> bool" where
  "worker_moved i s s' \<longleftrightarrow>
     i < length (su_workers s) \<and> su_main s' = su_main s \<and> su_handles s' = su_handles s \<and> \<not> thread_over (su_workers s ! i)
     \<and> (\<exists>w. su_workers s' = (su_workers s)[i := w]
          \<and> (if sent w = sent (su_workers s ! i) then su_ready s' = su_ready s \<and> has_handle w = has_handle (su_workers s ! i)
             else \<not> sent (su_workers s ! i)
                  \<and> (if has_handle w then su_ready s' = su_ready s @ [Inr i] else \<exists>e. su_ready s' = su_ready s @ [Inl e])))
     \<and> (\<forall>h. told s h \<longrightarrow> told s' h)"

lemma worker_moved_counts:
  assumes "messages_counted W s" "worker_moved i s s'"
  shows "messages_counted W s'"
proof -
  obtain w where i: "i < length (su_workers s)" and m: "su_main s' = su_main s" "su_handles s' = su_handles s"
    and w: "su_workers s' = (su_workers s)[i := w]"
    and c: "if sent w = sent (su_workers s ! i) then su_ready s' = su_ready s \<and> has_handle w = has_handle (su_workers s ! i)
             else \<not> sent (su_workers s ! i)
                  \<and> (if has_handle w then su_ready s' = su_ready s @ [Inr i] else \<exists>e. su_ready s' = su_ready s @ [Inl e])"
    using assms(2) unfolding worker_moved_def by blast
  have n: "sent_count (su_workers s') + of_bool (sent (su_workers s ! i)) = sent_count (su_workers s) + of_bool (sent w)"
    unfolding w using i by (rule sent_count_update)
  have l: "length (su_workers s') = length (su_workers s)" using w by simp
  show ?thesis
  proof (cases "sent w = sent (su_workers s ! i)")
    case same: True
    then have "sent_count (su_workers s') = sent_count (su_workers s)" "su_ready s' = su_ready s" using n c by auto
    then show ?thesis using assms(1) m l unfolding messages_counted_def by (simp split: supervisor.splits)
  next
    case new: False
    then have no: "\<not> sent (su_workers s ! i)" "sent w" using c by auto
    then have one: "sent_count (su_workers s') = Suc (sent_count (su_workers s))" using n by simp
    have r: "length (su_ready s') = Suc (length (su_ready s))" using c new by (auto split: if_splits)
    have some: "sent_count (su_workers s) < length (su_workers s)"
      using sent_count_all[OF _ i] no(1) sent_count_le[of "su_workers s"] by (meson le_neq_implies_less)
    show ?thesis using assms(1) m l one r some unfolding messages_counted_def by (auto split: supervisor.splits)
  qed
qed

lemma worker_moved_handles:
  assumes "handles_known s" "worker_moved i s s'"
  shows "handles_known s'"
proof -
  obtain w where i: "i < length (su_workers s)" and m: "su_handles s' = su_handles s"
    and w: "su_workers s' = (su_workers s)[i := w]"
    and c: "if sent w = sent (su_workers s ! i) then su_ready s' = su_ready s \<and> has_handle w = has_handle (su_workers s ! i)
             else \<not> sent (su_workers s ! i)
                  \<and> (if has_handle w then su_ready s' = su_ready s @ [Inr i] else \<exists>e. su_ready s' = su_ready s @ [Inl e])"
    using assms(2) unfolding worker_moved_def by blast
  have other: "has_handle (su_workers s' ! j) = has_handle (su_workers s ! j)" if "j \<noteq> i" for j using w that by simp
  have own: "has_handle (su_workers s' ! i) = has_handle w" using w i by simp
  have l: "length (su_workers s') = length (su_workers s)" using w by simp
  show ?thesis
  proof (cases "sent w = sent (su_workers s ! i)")
    case same: True
    then have "has_handle (su_workers s' ! j) = has_handle (su_workers s ! j)" for j using c own other[of j] by (cases "j = i") auto
    then show ?thesis using assms(1) m l c same unfolding handles_known_def by simp
  next
    case new: False
    then have no: "\<not> has_handle (su_workers s ! i)" using c by (auto simp: has_handle_def)
    have "set (su_ready s') = set (su_ready s) \<union> (if has_handle w then {Inr i} else {x. x \<in> set (su_ready s') \<and> (\<forall>h. x \<noteq> Inr h)})"
      using c new by (auto split: if_splits)
    then have r: "Inr h \<in> set (su_ready s') \<longleftrightarrow> Inr h \<in> set (su_ready s) \<or> h = i \<and> has_handle w" for h
      by (auto split: if_splits)
    show ?thesis
      unfolding handles_known_def l m r
      using assms(1) other own no i unfolding handles_known_def by metis
  qed
qed

lemma worker_moved_reaches:
  assumes "stopping_reaches s" "worker_moved i s s'"
  shows "stopping_reaches s'"
proof -
  obtain w where m: "su_main s' = su_main s" "su_handles s' = su_handles s" "\<not> thread_over (su_workers s ! i)" "i < length (su_workers s)"
    and w: "su_workers s' = (su_workers s)[i := w]" and t: "\<And>h. told s h \<Longrightarrow> told s' h"
    using assms(2) unfolding worker_moved_def by blast
  have o: "thread_over (su_workers s' ! j)" if "thread_over (su_workers s ! j)" for j
    using that m(3) w by (cases "j = i") auto
  have a: "\<not> list_all thread_over (su_workers s)" using m(3,4) by (auto simp: list_all_length)
  show ?thesis
  proof (cases "su_main s")
    case (Stopping st r)
    then show ?thesis using assms(1) t m(1,2) by (auto simp: stopping_reaches_def)
  next
    case (Joining j r)
    then show ?thesis using assms(1) t o m(1,2) w by (auto simp: stopping_reaches_def)
  next
    case (Returned r)
    then show ?thesis using assms(1) a m(1) by (auto simp: stopping_reaches_def)
  qed (use m(1) in \<open>simp_all add: stopping_reaches_def\<close>)
qed

lemma worker_moved_inv: "supervision_inv W s \<Longrightarrow> worker_moved i s s' \<Longrightarrow> supervision_inv W s'"
  unfolding supervision_inv_def using worker_moved_counts worker_moved_handles worker_moved_reaches by blast

lemma set_worker_fields [simp]:
  "su_main (set_worker i w s) = su_main s" "su_workers (set_worker i w s) = (su_workers s)[i := w]"
  "su_queues (set_worker i w s) = su_queues s" "su_ready (set_worker i w s) = su_ready s"
  "su_done (set_worker i w s) = su_done s" "su_cancelled (set_worker i w s) = su_cancelled s"
  "su_handles (set_worker i w s) = su_handles s" "su_armed (set_worker i w s) = su_armed s"
  "su_signal (set_worker i w s) = su_signal s"
  by (simp_all add: set_worker_def)

text \<open>Who was told to stop stays told when a worker goes on.\<close>

lemma told_kept:
  assumes "told s h" "su_workers s' = (su_workers s)[i := w]" "i < length (su_workers s)"
    and "engine_gone (su_workers s ! i) \<or> is_closing (su_workers s ! i) \<Longrightarrow> engine_gone w \<or> is_closing w"
    and "su_queues s i \<noteq> [] \<Longrightarrow> engine_gone w \<or> is_closing w \<or> su_queues s' i \<noteq> []"
    and "\<And>j. j \<noteq> i \<Longrightarrow> su_queues s' j = su_queues s j"
  shows "told s' h"
  using assms by (cases "h = i") (auto simp: told_def)

lemma worker_movedI:
  assumes "i < length (su_workers s)" "\<not> thread_over (su_workers s ! i)" "su_workers s' = (su_workers s)[i := w]"
    "su_main s' = su_main s" "su_handles s' = su_handles s"
    and "sent w = sent (su_workers s ! i) \<and> su_ready s' = su_ready s \<and> has_handle w = has_handle (su_workers s ! i)
         \<or> \<not> sent (su_workers s ! i) \<and> sent w \<and> (\<exists>m. su_ready s' = su_ready s @ [m] \<and> (if has_handle w then m = Inr i else \<exists>e. m = Inl e))"
    and "engine_gone (su_workers s ! i) \<or> is_closing (su_workers s ! i) \<Longrightarrow> engine_gone w \<or> is_closing w"
    and "su_queues s i \<noteq> [] \<Longrightarrow> engine_gone w \<or> is_closing w \<or> su_queues s' i \<noteq> []"
    and "\<And>j. j \<noteq> i \<Longrightarrow> su_queues s' j = su_queues s j"
  shows "worker_moved i s s'"
proof -
  have t: "told s' h" if "told s h" for h using that assms(3,1,7,8,9) by (rule told_kept)
  have r: "if sent w = sent (su_workers s ! i) then su_ready s' = su_ready s \<and> has_handle w = has_handle (su_workers s ! i)
             else \<not> sent (su_workers s ! i)
                  \<and> (if has_handle w then su_ready s' = su_ready s @ [Inr i] else \<exists>e. su_ready s' = su_ready s @ [Inl e])"
    using assms(6) by (auto split: if_splits)
  show ?thesis unfolding worker_moved_def using assms(1-5) t r by blast
qed

lemma worker_step_moved:
  assumes step: "worker_step build r i (su_workers s ! i) s = Some s'" and i: "i < length (su_workers s)"
  shows "worker_moved i s s'"
proof (cases "su_workers s ! i")
  case Building
  show ?thesis
  proof (cases "build i")
    case (Inl e)
    show ?thesis using step i Building Inl by (intro worker_movedI[of i s s' "Refused e"]) (auto simp: has_handle_def is_closing_def)
  next
    case (Inr u)
    show ?thesis using step i Building Inr by (intro worker_movedI[of i s s' Announced]) (auto simp: has_handle_def is_closing_def)
  qed
next
  case (Refused e)
  then show ?thesis using step i by (intro worker_movedI[of i s s' Failed]) (auto simp: has_handle_def is_closing_def)
next
  case Announced
  then show ?thesis using step i
    by (intro worker_movedI[of i s s' "if su_cancelled s then Self_Stopping else Serving"])
       (auto simp: has_handle_def is_closing_def split: if_splits)
next
  case Serving
  then obtain c q where q: "su_queues s i = c # q" using step by (auto split: list.splits)
  then show ?thesis using step i Serving by (intro worker_movedI[of i s s' "Closing c"]) (auto simp: has_handle_def is_closing_def)
next
  case (Closing c)
  then show ?thesis using step i by (intro worker_movedI[of i s s' "Leaving r"]) (auto simp: has_handle_def is_closing_def)
next
  case (Leaving r')
  then show ?thesis using step i by (intro worker_movedI[of i s s' Ended]) (auto simp: has_handle_def is_closing_def)
qed (use step in auto)

lemma engine_ends_moved:
  assumes "i < length (su_workers s)" "su_workers s ! i = Serving \<or> (\<exists>c. su_workers s ! i = Closing c)" "w = Leaving r \<or> w = Crashed True"
  shows "worker_moved i s (set_worker i w s)"
  using assms by (intro worker_movedI[of i s _ w]) (auto simp: has_handle_def is_closing_def)

lemma build_panics_moved:
  assumes "i < length (su_workers s)" "su_workers s ! i = Building"
  shows "worker_moved i s (set_worker i (Crashed False) s)"
  using assms by (intro worker_movedI[of i s _ "Crashed False"]) (auto simp: has_handle_def is_closing_def)

text \<open>A call of \<open>shutdown\<close> changes the queues only, and whoever was told stays told.\<close>

lemma stopper_step_frame:
  assumes "stopper_step c st s = Some (st', s')"
  shows "s' = s\<lparr>su_queues := su_queues s'\<rparr>" and "told s h \<Longrightarrow> told s' h"
    and "h \<in> set (still_to_call st) \<Longrightarrow> told s' h \<or> h \<in> set (still_to_call st')"
    and "set (still_to_call st') \<union> set (awaited st') \<subseteq> set (still_to_call st) \<union> set (awaited st)"
    and "length (still_to_call st') \<le> length (still_to_call st)"
    and "h \<in> set (awaited st') \<Longrightarrow> told s' h"
    and "2 * length (still_to_call st') + length (awaited st') < 2 * length (still_to_call st) + length (awaited st)"
  using assms by (cases "(c, st, s)" rule: stopper_step.cases; auto simp: told_def split: if_splits)+

lemma told_updates [simp]:
  "told (s\<lparr>su_main := m\<rparr>) h = told s h" "told (s\<lparr>su_ready := q\<rparr>) h = told s h" "told (s\<lparr>su_done := d\<rparr>) h = told s h"
  "told (s\<lparr>su_cancelled := b\<rparr>) h = told s h" "told (s\<lparr>su_handles := hs\<rparr>) h = told s h" "told (s\<lparr>su_armed := b\<rparr>) h = told s h"
  "told (s\<lparr>su_signal := g\<rparr>) h = told s h"
  by (simp_all add: told_def)

lemma handles_known_cong:
  assumes "su_workers s' = su_workers s" "su_ready s' = su_ready s" "su_handles s' = su_handles s"
  shows "handles_known s' = handles_known s"
  using assms by (simp add: handles_known_def)

lemma frame_inv:
  assumes "supervision_inv W s" "su_workers s' = su_workers s" "su_ready s' = su_ready s" "su_handles s' = su_handles s"
    and "messages_counted W s \<Longrightarrow> messages_counted W s'" "stopping_reaches s'"
  shows "supervision_inv W s'"
  using assms handles_known_cong[OF assms(2-4)] by (simp add: supervision_inv_def)

lemma all_received:
  assumes "supervision_inv W s" "su_main s = Draining e 0 \<or> su_main s = Collecting 0 f"
  shows "su_ready s = [] \<and> sent_count (su_workers s) = length (su_workers s)"
proof -
  have all: "length (su_workers s) + length (su_ready s) = sent_count (su_workers s)"
    using assms by (auto simp: supervision_inv_def messages_counted_def)
  have "length (su_ready s) = 0" using all sent_count_le[of "su_workers s"] by linarith
  then show ?thesis using all by simp
qed

lemma spawning_inv:
  assumes "supervision_inv W s" "su_main s = Spawning" "main_step W installed Spawning s = Some s'"
  shows "supervision_inv W s'"
proof (cases "length (su_workers s) < W")
  case more: True
  then have s': "s' = s\<lparr>su_workers := su_workers s @ [Building]\<rparr>" using assms(3) by simp
  have known: "handles_known s" and counted: "messages_counted W s" using assms(1) by (simp_all add: supervision_inv_def)
  have "handles_known s'"
    using known unfolding s' handles_known_def by (auto simp: nth_append less_Suc_eq has_handle_def)
  moreover have "messages_counted W s'" using counted assms(2) more unfolding s' messages_counted_def by auto
  ultimately show ?thesis using assms(2) unfolding s' by (simp add: supervision_inv_def stopping_reaches_def)
next
  case enough: False
  then have s': "s' = s\<lparr>su_main := Collecting W None\<rparr>" using assms(3) by simp
  show ?thesis unfolding s'
    by (rule frame_inv[OF assms(1)]) (use assms(2) enough in \<open>auto simp: messages_counted_def stopping_reaches_def\<close>)
qed

text \<open>A message is received.\<close>

lemma received_inv:
  assumes "handles_known s" "su_ready s = m # q" "su_ready s' = q" "su_handles s' = took m (su_handles s)" "su_workers s' = su_workers s"
  shows "handles_known s'"
proof (cases m)
  case (Inl e)
  then have "su_handles s' = su_handles s" "\<And>h. Inr h \<in> set (su_ready s') \<longleftrightarrow> Inr h \<in> set (su_ready s)"
    using assms(2-4) by (auto simp: took_def)
  then show ?thesis using assms(1,5) by (simp add: handles_known_def)
next
  case (Inr h)
  then have "\<And>i. i \<in> set (su_handles s') \<or> Inr i \<in> set (su_ready s') \<longleftrightarrow> i \<in> set (su_handles s) \<or> Inr i \<in> set (su_ready s)"
    using assms(2-4) by (auto simp: took_def)
  then show ?thesis using assms(1,5) by (simp add: handles_known_def)
qed

lemma length_took: "length (took m hs) \<le> Suc (length hs)"
  by (simp add: took_def split: sum.splits)

lemma counting_inv:
  assumes "supervision_inv W s" "su_ready s = m # q" "su_ready s' = q" "su_handles s' = took m (su_handles s)" "su_workers s' = su_workers s"
    and "(\<exists>e k. su_main s = Draining e (Suc k) \<and> su_main s' = Draining e k) \<or> (\<exists>f k f'. su_main s = Collecting (Suc k) f \<and> su_main s' = Collecting k f')"
  shows "supervision_inv W s'"
proof -
  have h: "handles_known s'" using assms(1) unfolding supervision_inv_def by (intro received_inv[OF _ assms(2-5)]) simp
  have "stopping_reaches s'" using assms(6) by (auto simp: stopping_reaches_def)
  moreover have "messages_counted W s'"
    using assms length_took[of m "su_handles s"] unfolding supervision_inv_def messages_counted_def by auto
  ultimately show ?thesis using h by (simp add: supervision_inv_def)
qed

text \<open>All messages are received, and the handles are called.\<close>

lemma calling_inv:
  assumes "supervision_inv W s" "su_ready s = []" "sent_count (su_workers s) = length (su_workers s)"
    and "su_main s' = Stopping (Calling (su_handles s)) r" "su_handles s' = su_handles s" "su_workers s' = su_workers s" "su_ready s' = []"
  shows "supervision_inv W s'"
  using assms unfolding supervision_defs by (auto simp: split: supervisor.splits)

lemma stopping_inv:
  assumes inv: "supervision_inv W s" and m: "su_main s = Stopping st r" and step: "stopper_step By_Main st s = Some (st', s1)"
  shows "supervision_inv W (s1\<lparr>su_main := Stopping st' r\<rparr>)"
proof -
  note f = stopper_step_frame[OF step]
  have same: "su_main s1 = su_main s" "su_workers s1 = su_workers s" "su_ready s1 = su_ready s" "su_handles s1 = su_handles s"
    by (subst f(1), simp)+
  have old: "\<forall>h \<in> set (su_handles s). told s h \<or> h \<in> set (still_to_call st)"
    "set (still_to_call st) \<subseteq> set (su_handles s)" "length (still_to_call st) \<le> length (su_handles s)"
    "\<forall>h \<in> set (awaited st). h \<in> set (su_handles s) \<and> told s h"
    using inv m unfolding supervision_inv_def stopping_reaches_def by simp_all
  have "\<forall>h \<in> set (su_handles s). told s1 h \<or> h \<in> set (still_to_call st')" using old(1) f(2,3) by blast
  moreover have "set (still_to_call st') \<union> set (awaited st') \<subseteq> set (su_handles s)" using old(2,4) f(4) by blast
  moreover have "length (still_to_call st') \<le> length (su_handles s)" using old(3) f(5) by simp
  moreover have "\<forall>h \<in> set (awaited st'). told s1 h" using f(6) by blast
  ultimately have "stopping_reaches (s1\<lparr>su_main := Stopping st' r\<rparr>)" using same by (auto simp: stopping_reaches_def)
  moreover have "handles_known (s1\<lparr>su_main := Stopping st' r\<rparr>)"
    using inv same handles_known_cong[of "s1\<lparr>su_main := Stopping st' r\<rparr>" s] by (simp add: supervision_inv_def)
  moreover have "messages_counted W (s1\<lparr>su_main := Stopping st' r\<rparr>)"
    using inv m same by (simp add: supervision_inv_def messages_counted_def)
  ultimately show ?thesis by (simp add: supervision_inv_def)
qed

lemma joining_inv:
  assumes "supervision_inv W s" "su_main s = Joining j r" "main_step W installed (Joining j r) s = Some s'"
  shows "supervision_inv W s'"
proof (cases "j < length (su_workers s)")
  case next_one: True
  then have s': "s' = s\<lparr>su_main := Joining (Suc j) (joined (su_workers s ! j) r)\<rparr>" and o: "thread_over (su_workers s ! j)"
    using assms(3) by (auto split: if_splits)
  show ?thesis using assms(1,2) next_one o unfolding s' supervision_defs by (auto simp: less_Suc_eq)
next
  case over: False
  then have s': "s' = s\<lparr>su_main := Returned r\<rparr>" using assms(3) by simp
  show ?thesis using assms(1,2) over unfolding s' supervision_defs by (auto simp: list_all_length)
qed

lemma main_step_inv:
  assumes inv: "supervision_inv W s" and step: "main_step W installed (su_main s) s = Some s'"
  shows "supervision_inv W s'"
proof (cases "su_main s")
  case Spawning
  then show ?thesis using inv step spawning_inv by metis
next
  case (Draining e k)
  show ?thesis
  proof (cases k)
    case 0
    then have s': "s' = s\<lparr>su_main := Stopping (Calling (su_handles s)) (Inl e)\<rparr>" using step Draining by simp
    have "su_ready s = [] \<and> sent_count (su_workers s) = length (su_workers s)"
      using all_received[OF inv, of e None] Draining 0 by simp
    then show ?thesis using calling_inv[OF inv, of s' "Inl e"] s' by simp
  next
    case (Suc j)
    then obtain m q where q: "su_ready s = m # q" using step Draining by (auto split: list.splits)
    then show ?thesis using step Draining Suc by (intro counting_inv[OF inv q]) auto
  qed
next
  case (Collecting k f)
  show ?thesis
  proof (cases k)
    case 0
    then have all: "su_ready s = [] \<and> sent_count (su_workers s) = length (su_workers s)"
      using all_received[OF inv, of undefined f] Collecting by simp
    show ?thesis
    proof (cases f)
      case None
      then have s': "s' = s\<lparr>su_main := Installing\<rparr>" using step Collecting 0 by simp
      show ?thesis unfolding s'
        by (rule frame_inv[OF inv]) (use all in \<open>auto simp: messages_counted_def stopping_reaches_def\<close>)
    next
      case (Some e)
      then have "s' = s\<lparr>su_main := Stopping (Calling (su_handles s)) (Inl e)\<rparr>" using step Collecting 0 by simp
      then show ?thesis using calling_inv[OF inv, of s' "Inl e"] all by simp
    qed
  next
    case (Suc j)
    show ?thesis
    proof (cases "su_ready s")
      case Nil
      then have s': "s' = s\<lparr>su_main := Returned (Inl Cli_Receive)\<rparr>" using step Collecting Suc by (auto split: if_splits)
      show ?thesis unfolding s' by (rule frame_inv[OF inv]) (simp_all add: messages_counted_def stopping_reaches_def)
    next
      case (Cons m q)
      then show ?thesis using step Collecting Suc
        by (intro counting_inv[OF inv Cons]) (auto simp: took_def split: sum.splits)
    qed
  qed
next
  case Installing
  then have s': "s' = s\<lparr>su_main := Watching, su_armed := True\<rparr> \<or> s' = s\<lparr>su_main := Returned (Inl Cli_Handler)\<rparr>"
    using step by (simp split: if_splits)
  then show ?thesis
    by (intro frame_inv[OF inv]) (use Installing in \<open>auto simp: messages_counted_def stopping_reaches_def\<close>)
next
  case Watching
  then have all: "su_ready s = [] \<and> sent_count (su_workers s) = length (su_workers s)"
    using inv unfolding supervision_inv_def messages_counted_def by simp
  show ?thesis
  proof (cases "su_done s")
    case Nil
    then have s': "s' = s\<lparr>su_main := Returned (Inl Cli_Receive)\<rparr>" using step Watching by (auto split: if_splits)
    show ?thesis unfolding s' by (rule frame_inv[OF inv]) (simp_all add: messages_counted_def stopping_reaches_def)
  next
    case (Cons r q)
    then have "s' = s\<lparr>su_main := Stopping (Calling (su_handles s)) (map_err Cli_Engine r), su_done := q\<rparr>" using step Watching by simp
    then show ?thesis using calling_inv[OF inv, of s' "map_err Cli_Engine r"] all by simp
  qed
next
  case (Stopping st r)
  show ?thesis
  proof (cases "st = Calling []")
    case called: True
    then have s': "s' = s\<lparr>su_main := Joining 0 r\<rparr>" using step Stopping by simp
    have "\<forall>h \<in> set (su_handles s). told s h"
      using inv Stopping called by (simp add: supervision_inv_def stopping_reaches_def)
    then show ?thesis unfolding s'
      by (intro frame_inv[OF inv]) (use Stopping in \<open>simp_all add: messages_counted_def stopping_reaches_def\<close>)
  next
    case call: False
    then obtain st' s1 where "stopper_step By_Main st s = Some (st', s1)" "s' = s1\<lparr>su_main := Stopping st' r\<rparr>"
      using step Stopping by auto
    then show ?thesis using stopping_inv[OF inv Stopping] by simp
  qed
next
  case (Joining j r)
  then show ?thesis using inv step joining_inv by metis
qed (use step in simp)

lemma signal_step_inv:
  assumes inv: "supervision_inv W s" and step: "signal_step s = Some s'"
  shows "supervision_inv W s'"
proof -
  have same: "su_main s' = su_main s \<and> su_workers s' = su_workers s \<and> su_ready s' = su_ready s \<and> su_handles s' = su_handles s
    \<and> (\<forall>h. told s h \<longrightarrow> told s' h)"
  proof (cases "su_signal s")
    case None
    then show ?thesis using step by (auto simp: signal_step_def split: if_splits)
  next
    case (Some st)
    show ?thesis
    proof (cases "st = Calling []")
      case idle: True
      then show ?thesis using step Some by (auto simp: signal_step_def)
    next
      case busy: False
      then obtain st' s1 where f: "stopper_step By_Signal st s = Some (st', s1)" and s': "s' = s1\<lparr>su_signal := Some st'\<rparr>"
        using step Some by (auto simp: signal_step_def)
      have "su_main s1 = su_main s \<and> su_workers s1 = su_workers s \<and> su_ready s1 = su_ready s \<and> su_handles s1 = su_handles s"
        by (subst (1 2 3 4) stopper_step_frame(1)[OF f], simp)
      then show ?thesis using stopper_step_frame(2)[OF f] s' by simp
    qed
  qed
  then have "stopping_reaches s'" using inv unfolding supervision_inv_def stopping_reaches_def by (auto split: supervisor.splits)
  moreover have "handles_known s'" using inv same handles_known_cong[of s' s] by (simp add: supervision_inv_def)
  moreover have "messages_counted W s'" using inv same by (simp add: supervision_inv_def messages_counted_def split: supervisor.splits)
  ultimately show ?thesis by (simp add: supervision_inv_def)
qed

lemma spawn_fails_inv:
  assumes "supervision_inv W s" "spawn_fails W s = Some s'"
  shows "supervision_inv W s'"
  using assms unfolding spawn_fails_def supervision_defs by (auto split: if_splits)

lemma supervision_step_inv:
  assumes "supervision_step build W m s s'" "supervision_inv W s"
  shows "supervision_inv W s'"
  using assms(1)
proof cases
  case (by_main installed)
  then show ?thesis using assms(2) main_step_inv by blast
next
  case (by_worker i r)
  then show ?thesis using assms(2) worker_step_moved worker_moved_inv by blast
next
  case (engine_ends i r)
  then show ?thesis using assms(2) engine_ends_moved worker_moved_inv by blast
next
  case by_signal
  then show ?thesis using assms(2) signal_step_inv by blast
next
  case spawning_fails
  then show ?thesis using assms(2) spawn_fails_inv by blast
next
  case (build_panics i)
  then show ?thesis using assms(2) build_panics_moved worker_moved_inv by blast
next
  case (engine_panics i)
  then show ?thesis using assms(2) engine_ends_moved worker_moved_inv by blast
qed

lemma supervised_inv: "supervised build W faults s \<Longrightarrow> supervision_inv W s"
proof (induction rule: supervised.induct)
  case supervised_start
  show ?case by (simp add: supervision_start_def supervision_defs)
next
  case (supervised_step s m s')
  then show ?case using supervision_step_inv by blast
qed

section \<open>Every move makes the rest shorter\<close>

fun worker_weight :: "worker \<Rightarrow> nat" where
  "worker_weight Building = 6"
| "worker_weight (Refused _) = 1"
| "worker_weight Announced = 5"
| "worker_weight Self_Stopping = 4"
| "worker_weight Serving = 3"
| "worker_weight (Closing _) = 2"
| "worker_weight (Leaving _) = 1"
| "worker_weight _ = 0"

fun main_weight :: "nat \<Rightarrow> nat \<Rightarrow> supervisor \<Rightarrow> nat" where
  "main_weight W n Spawning = 7 * (W - n) + 4 * W + 6"
| "main_weight W n (Draining e k) = k + 3 * W + 4"
| "main_weight W n (Collecting k f) = k + 3 * W + 5"
| "main_weight W n Installing = 3 * W + 4"
| "main_weight W n Watching = 3 * W + 3"
| "main_weight W n (Stopping st r) = 2 * length (still_to_call st) + length (awaited st) + W + 2"
| "main_weight W n (Joining j r) = W - j + 1"
| "main_weight W n (Returned r) = 0"

definition supervision_weight :: "nat \<Rightarrow> supervision \<Rightarrow> nat" where
  "supervision_weight W s =
     main_weight W (length (su_workers s)) (su_main s) + sum_list (map worker_weight (su_workers s))"

lemma weight_update:
  assumes "i < length ws"
  shows "sum_list (map worker_weight (ws[i := w])) + worker_weight (ws ! i) = sum_list (map worker_weight ws) + worker_weight w"
proof -
  have "sum_list (map worker_weight ws) = sum_list (map worker_weight (take i ws @ ws ! i # drop (Suc i) ws))"
    using id_take_nth_drop[OF assms] by simp
  then show ?thesis using assms by (simp add: upd_conv_take_nth_drop)
qed

lemma worker_step_lighter:
  assumes "worker_step build r i (su_workers s ! i) s = Some s'" "i < length (su_workers s)"
  shows "supervision_weight W s' < supervision_weight W s"
proof -
  have "\<exists>w. su_workers s' = (su_workers s)[i := w] \<and> worker_weight w < worker_weight (su_workers s ! i) \<and> su_main s' = su_main s"
    using assms by (cases "su_workers s ! i") (auto split: sum.splits if_splits list.splits)
  then obtain w where w: "su_workers s' = (su_workers s)[i := w]" "worker_weight w < worker_weight (su_workers s ! i)" "su_main s' = su_main s"
    by blast
  then show ?thesis using weight_update[OF assms(2), of w] by (simp add: supervision_weight_def)
qed

lemma main_step_lighter:
  assumes inv: "supervision_inv W s" and step: "main_step W installed (su_main s) s = Some s'"
  shows "supervision_weight W s' < supervision_weight W s"
proof -
  have n: "length (su_workers s) \<le> W" and h: "length (su_handles s) \<le> W"
    using inv sent_count_le[of "su_workers s"] unfolding supervision_inv_def messages_counted_def by linarith+
  show ?thesis
  proof (cases "su_main s")
    case (Draining e k)
    then show ?thesis using step h by (auto simp: supervision_weight_def split: if_splits list.splits)
  next
    case (Collecting k f)
    then show ?thesis using step h
      by (auto simp: supervision_weight_def split: if_splits list.splits sum.splits option.splits)
  next
    case (Stopping st r)
    show ?thesis
    proof (cases "st = Calling []")
      case called: True
      then show ?thesis using step Stopping by (auto simp: supervision_weight_def)
    next
      case call: False
      then obtain st' s1 where f: "stopper_step By_Main st s = Some (st', s1)" and s': "s' = s1\<lparr>su_main := Stopping st' r\<rparr>"
        using step Stopping by auto
      have "su_workers s1 = su_workers s" by (subst stopper_step_frame(1)[OF f], simp)
      then show ?thesis using stopper_step_frame(7)[OF f] s' Stopping by (simp add: supervision_weight_def)
    qed
  next
    case (Joining j r)
    then show ?thesis using step n by (auto simp: supervision_weight_def split: if_splits)
  qed (use step n h in \<open>auto simp: supervision_weight_def split: if_splits list.splits\<close>)
qed

section \<open>Runs without a fault\<close>

fun orderly :: "worker \<Rightarrow> bool" where
  "orderly (Refused _) = False"
| "orderly Self_Stopping = False"
| "orderly Failed = False"
| "orderly (Crashed _) = False"
| "orderly _ = True"

text \<open>Nothing is cancelled, and the first result waits for the supervisor.\<close>

definition clean :: "nat \<Rightarrow> supervision \<Rightarrow> bool" where
  "clean W s \<longleftrightarrow>
     \<not> su_cancelled s \<and> list_all orderly (su_workers s) \<and> (\<forall>e. Inl e \<notin> set (su_ready s))
     \<and> (su_main s = Spawning \<or> length (su_workers s) = W)
     \<and> (case su_main s of
          Draining e k \<Rightarrow> False
        | Collecting k f \<Rightarrow> f = None \<and> (Ended \<in> set (su_workers s) \<longrightarrow> su_done s \<noteq> [])
        | Stopping st r \<Rightarrow> True | Joining j r \<Rightarrow> True | Returned r \<Rightarrow> True
        | _ \<Rightarrow> Ended \<in> set (su_workers s) \<longrightarrow> su_done s \<noteq> [])"

text \<open>A worker of a clean run keeps it clean.\<close>

lemma clean_worker:
  assumes "clean W s" "su_workers s' = (su_workers s)[i := w]" "su_main s' = su_main s" "su_cancelled s' = su_cancelled s" "orderly w"
    and "set (su_ready s') \<subseteq> set (su_ready s) \<union> range Inr" "w = Ended \<longrightarrow> su_done s' \<noteq> []" "su_done s \<noteq> [] \<longrightarrow> su_done s' \<noteq> []"
  shows "clean W s'"
proof -
  have o: "list_all orderly (su_workers s')"
    using assms(1,2,5) set_update_subset_insert[of "su_workers s" i w] by (auto simp: clean_def list_all_iff)
  have e: "Ended \<in> set (su_workers s') \<longrightarrow> su_done s' \<noteq> []" if "Ended \<in> set (su_workers s) \<longrightarrow> su_done s \<noteq> []"
    using assms(2,7,8) that set_update_subset_insert[of "su_workers s" i w] by auto
  have l: "length (su_workers s') = length (su_workers s)" using assms(2) by simp
  have r: "\<forall>x. Inl x \<notin> set (su_ready s')" using assms(1,6) unfolding clean_def by blast
  show ?thesis using assms(1) o e l r assms(3,4) unfolding clean_def by (cases "su_main s") auto
qed

lemma clean_worker_step:
  assumes "clean W s" "\<And>i. build i = Inr ()" "i < length (su_workers s)" "worker_step build r i (su_workers s ! i) s = Some s'"
  shows "clean W s'"
proof -
  have c: "\<not> su_cancelled s" and o: "orderly (su_workers s ! i)" using assms(1,3) by (auto simp: clean_def list_all_length)
  show ?thesis
  proof (cases "su_workers s ! i")
    case Building
    then show ?thesis using assms(2,4) by (intro clean_worker[OF assms(1), of s' i Announced]) auto
  next
    case Announced
    then show ?thesis using assms(4) c by (intro clean_worker[OF assms(1), of s' i Serving]) auto
  next
    case Serving
    then obtain x q where "su_queues s i = x # q" using assms(4) by (auto split: list.splits)
    then show ?thesis using assms(4) Serving by (intro clean_worker[OF assms(1), of s' i "Closing x"]) auto
  next
    case (Closing x)
    then show ?thesis using assms(4) by (intro clean_worker[OF assms(1), of s' i "Leaving r"]) auto
  next
    case (Leaving r')
    then show ?thesis using assms(4) by (intro clean_worker[OF assms(1), of s' i Ended]) auto
  qed (use o assms(4) in auto)
qed

lemma stopper_keeps:
  assumes "stopper_step c st s = Some (st', s')"
  shows "su_workers s' = su_workers s \<and> su_main s' = su_main s \<and> su_cancelled s' = su_cancelled s \<and> su_ready s' = su_ready s
    \<and> su_done s' = su_done s \<and> su_handles s' = su_handles s"
  by (subst (1 2 3 4 5 6) stopper_step_frame(1)[OF assms], simp)

lemma clean_main_step:
  assumes "clean W s" "messages_counted W s" "main_step W installed (su_main s) s = Some s'"
  shows "clean W s'"
proof (cases "su_main s")
  case Spawning
  then show ?thesis using assms by (auto simp: clean_def messages_counted_def split: if_splits)
next
  case (Draining e k)
  then show ?thesis using assms(1) by (simp add: clean_def)
next
  case (Collecting k f)
  then have f: "f = None" and l: "length (su_workers s) = W" using assms(1) by (auto simp: clean_def)
  show ?thesis
  proof (cases "k = 0")
    case all: True
    then show ?thesis using assms(1,3) Collecting f by (auto simp: clean_def)
  next
    case some: False
    then show ?thesis using assms(1,3) Collecting f by (auto simp: clean_def split: list.splits sum.splits if_splits)
  qed
next
  case Installing
  then show ?thesis using assms(1,3) by (auto simp: clean_def split: if_splits)
next
  case Watching
  then show ?thesis using assms(1,3) by (auto simp: clean_def split: if_splits list.splits)
next
  case (Stopping st r)
  show ?thesis
  proof (cases "st = Calling []")
    case called: True
    then show ?thesis using assms(1,3) Stopping by (auto simp: clean_def)
  next
    case call: False
    then obtain st' s1 where f: "stopper_step By_Main st s = Some (st', s1)" and s': "s' = s1\<lparr>su_main := Stopping st' r\<rparr>"
      using assms(3) Stopping by auto
    then show ?thesis using assms(1) Stopping stopper_keeps[OF f] by (simp add: clean_def)
  qed
next
  case (Joining j r)
  then show ?thesis using assms(1,3) by (auto simp: clean_def split: if_splits)
qed (use assms(3) in simp)

lemma signal_keeps:
  assumes "signal_step s = Some s'"
  shows "su_workers s' = su_workers s \<and> su_main s' = su_main s \<and> su_cancelled s' = su_cancelled s \<and> su_ready s' = su_ready s
    \<and> su_done s' = su_done s"
proof (cases "su_signal s")
  case None
  then show ?thesis using assms by (auto simp: signal_step_def split: if_splits)
next
  case (Some st)
  show ?thesis
  proof (cases "st = Calling []")
    case idle: True
    then show ?thesis using assms Some by (auto simp: signal_step_def)
  next
    case busy: False
    then obtain st' s1 where f: "stopper_step By_Signal st s = Some (st', s1)" and s': "s' = s1\<lparr>su_signal := Some st'\<rparr>"
      using assms Some by (auto simp: signal_step_def)
    then show ?thesis using stopper_keeps[OF f] by simp
  qed
qed

lemma clean_step:
  assumes "supervision_step build W m s s'" "\<not> fault m" "\<And>i. build i = Inr ()" "clean W s" "supervision_inv W s"
  shows "clean W s'"
  using assms(1)
proof cases
  case (by_main installed)
  then show ?thesis using assms(4,5) clean_main_step by (simp add: supervision_inv_def)
next
  case (by_worker i r)
  then show ?thesis using assms(3,4) clean_worker_step by blast
next
  case (engine_ends i r)
  then show ?thesis by (intro clean_worker[OF assms(4), of s' i "Leaving r"]) auto
next
  case by_signal
  then show ?thesis using assms(4) signal_keeps[of s s'] by (cases "su_main s") (simp_all add: clean_def)
qed (use assms(2) in \<open>simp_all add: fault_def\<close>)

lemma supervised_clean:
  assumes "supervised build W False s" "\<And>i. build i = Inr ()"
  shows "clean W s"
  using assms(1)
proof (induction rule: supervised.induct)
  case supervised_start
  show ?case by (simp add: supervision_start_def clean_def)
next
  case (supervised_step s m s')
  then show ?case using clean_step[OF supervised_step(2) _ assms(2)] supervised_inv by blast
qed

text \<open>In a clean run a worker that was told to stop, or has not announced itself, can go on.\<close>

lemma orderly_worker_goes_on:
  assumes "clean W s" "i < length (su_workers s)" "\<not> thread_over (su_workers s ! i)" "su_workers s ! i \<noteq> Serving \<or> su_queues s i \<noteq> []"
  shows "\<exists>s'. worker_step build r i (su_workers s ! i) s = Some s'"
proof -
  have "orderly (su_workers s ! i)" using assms(1,2) by (auto simp: clean_def list_all_length)
  then show ?thesis using assms(3,4)
    by (cases "su_workers s ! i"; cases "build i"; cases "su_queues s i") auto
qed

lemma told_worker_goes_on:
  assumes "clean W s" "i < length (su_workers s)" "\<not> thread_over (su_workers s ! i)" "told s i"
  shows "\<exists>s'. worker_step build r i (su_workers s ! i) s = Some s'"
  by (rule orderly_worker_goes_on[OF assms(1-3)]) (use assms(4) in \<open>auto simp: told_def is_closing_def\<close>)

definition someone_moves :: "(nat \<Rightarrow> cli_error + unit) \<Rightarrow> nat \<Rightarrow> supervision \<Rightarrow> bool" where
  "someone_moves build W s \<longleftrightarrow>
     (\<exists>s'. main_step W True (su_main s) s = Some s')
     \<or> (\<exists>i s'. i < length (su_workers s) \<and> worker_step build (Inr ()) i (su_workers s ! i) s = Some s')"

definition at_rest :: "supervision \<Rightarrow> bool" where
  "at_rest s \<longleftrightarrow> su_main s = Watching \<and> (\<forall>i < length (su_workers s). su_workers s ! i = Serving \<and> su_queues s i = [])"

lemma collecting_moves:
  assumes "clean W s" "supervision_inv W s" "su_main s = Collecting k f"
  shows "someone_moves build W s"
proof (cases "k = 0 \<or> su_ready s \<noteq> []")
  case received: True
  then have "\<exists>s'. main_step W True (Collecting k f) s = Some s'"
    by (cases "su_ready s"; cases "hd (su_ready s)") auto
  then show ?thesis using assms(3) by (simp add: someone_moves_def)
next
  case waiting: False
  then have "sent_count (su_workers s) < length (su_workers s)"
    using assms(2,3) by (auto simp: supervision_inv_def messages_counted_def)
  then obtain i where i: "i < length (su_workers s)" "\<not> sent (su_workers s ! i)" using sent_count_not_all by blast
  have "\<not> thread_over (su_workers s ! i)" "su_workers s ! i \<noteq> Serving"
    using i assms(1) by (cases "su_workers s ! i"; force simp: clean_def list_all_length)+
  then show ?thesis using orderly_worker_goes_on[OF assms(1) i(1)] i(1) unfolding someone_moves_def by blast
qed

lemma watching_moves:
  assumes "clean W s" "su_main s = Watching" "\<not> at_rest s"
  shows "someone_moves build W s"
proof (cases "su_done s")
  case (Cons r q)
  then show ?thesis using assms(2) by (simp add: someone_moves_def)
next
  case Nil
  obtain i where i: "i < length (su_workers s)" "su_workers s ! i \<noteq> Serving \<or> su_queues s i \<noteq> []"
    using assms(2,3) by (auto simp: at_rest_def)
  have "Ended \<notin> set (su_workers s)" using assms(1,2) Nil by (simp add: clean_def)
  then have "su_workers s ! i \<noteq> Ended" using nth_mem[OF i(1)] by metis
  moreover have "orderly (su_workers s ! i)" using assms(1) i(1) by (auto simp: clean_def list_all_length)
  ultimately have "\<not> thread_over (su_workers s ! i)" by (cases "su_workers s ! i") auto
  then show ?thesis using orderly_worker_goes_on[OF assms(1) i(1) _ i(2)] i(1) unfolding someone_moves_def by blast
qed

lemma stopping_moves:
  assumes "clean W s" "supervision_inv W s" "su_main s = Stopping st r"
  shows "someone_moves build W s"
proof (cases "\<exists>s'. main_step W True (su_main s) s = Some s'")
  case blocked: False
  then obtain h hs where st: "st = Awaiting h hs" "\<not> engine_gone (su_workers s ! h)"
    using assms(3) by (cases "(By_Main, st, s)" rule: stopper_step.cases) (auto split: if_splits)
  then have h: "h \<in> set (su_handles s)" "told s h" using assms(2,3) by (auto simp: supervision_inv_def stopping_reaches_def)
  have k: "h < length (su_workers s)" "has_handle (su_workers s ! h)" using h(1) assms(2) by (auto simp: supervision_inv_def handles_known_def)
  have "\<not> thread_over (su_workers s ! h)" using st(2) k(2) by (cases "su_workers s ! h") (auto simp: has_handle_def)
  then show ?thesis using told_worker_goes_on[OF assms(1) k(1) _ h(2)] k(1) unfolding someone_moves_def by blast
qed (simp add: someone_moves_def)

lemma joining_moves:
  assumes "clean W s" "supervision_inv W s" "su_main s = Joining j r"
  shows "someone_moves build W s"
proof (cases "j < length (su_workers s) \<and> \<not> thread_over (su_workers s ! j)")
  case blocked: True
  then have j: "j < length (su_workers s)" "\<not> thread_over (su_workers s ! j)" by auto
  have all: "su_ready s = []" "sent_count (su_workers s) = length (su_workers s)"
    using assms(2,3) by (simp_all add: supervision_inv_def messages_counted_def)
  have "has_handle (su_workers s ! j)" using sent_count_all[OF all(2) j(1)] j(2) by (auto simp: has_handle_def)
  then have "j \<in> set (su_handles s)" using assms(2) j(1) all(1) by (auto simp: supervision_inv_def handles_known_def)
  then have "told s j" using assms(2,3) by (simp add: supervision_inv_def stopping_reaches_def)
  then show ?thesis using told_worker_goes_on[OF assms(1) j] j(1) unfolding someone_moves_def by blast
next
  case free: False
  then have "\<exists>s'. main_step W True (Joining j r) s = Some s'" by auto
  then show ?thesis using assms(3) by (simp add: someone_moves_def)
qed

lemma clean_progress:
  assumes "clean W s" "supervision_inv W s"
  shows "(\<exists>r. su_main s = Returned r) \<or> at_rest s \<or> someone_moves build W s"
proof (cases "su_main s")
  case (Draining e k)
  then show ?thesis using assms(1) by (simp add: clean_def)
next
  case (Collecting k f)
  then show ?thesis using collecting_moves[OF assms] by blast
next
  case Watching
  then show ?thesis using watching_moves[OF assms(1)] by blast
next
  case (Stopping st r)
  then show ?thesis using stopping_moves[OF assms] by blast
next
  case (Joining j r)
  then show ?thesis using joining_moves[OF assms] by blast
qed (simp_all add: someone_moves_def)

section \<open>The result is honest\<close>

text \<open>A worker that could not build its engine is known to the supervisor, or its message waits.\<close>

definition failure_known :: "supervision \<Rightarrow> bool" where
  "failure_known s \<longleftrightarrow> (Failed \<in> set (su_workers s) \<longrightarrow> (\<exists>e. Inl e \<in> set (su_ready s)))"

definition result_honest :: "supervision \<Rightarrow> bool" where
  "result_honest s \<longleftrightarrow>
     (case su_main s of
        Spawning \<Rightarrow> failure_known s
      | Draining e k \<Rightarrow> True
      | Collecting k f \<Rightarrow> f = None \<longrightarrow> failure_known s
      | Stopping st r \<Rightarrow> r = Inr () \<longrightarrow> failure_known s
      | Joining j r \<Rightarrow> r = Inr () \<longrightarrow> failure_known s \<and> list_all (\<lambda>w. w = Ended) (take j (su_workers s))
      | Returned r \<Rightarrow> r = Inr () \<longrightarrow> list_all (\<lambda>w. w = Ended) (su_workers s)
      | _ \<Rightarrow> failure_known s)"

lemma honest_worker:
  assumes h: "result_honest s" and w: "su_workers s' = (su_workers s)[i := w]" and m: "su_main s' = su_main s"
    and i: "i < length (su_workers s)" "\<not> thread_over (su_workers s ! i)"
    and r: "set (su_ready s) \<subseteq> set (su_ready s')" "w = Failed \<longrightarrow> (\<exists>e. Inl e \<in> set (su_ready s'))"
  shows "result_honest s'"
proof -
  have k: "failure_known s'" if "failure_known s"
    using that r set_update_subset_insert[of "su_workers s" i w] unfolding failure_known_def w by blast
  have t: "list_all (\<lambda>w. w = Ended) (take j (su_workers s'))" if "list_all (\<lambda>w. w = Ended) (take j (su_workers s))" for j
  proof -
    have "j \<le> i"
    proof (rule ccontr)
      assume "\<not> j \<le> i"
      then have "su_workers s ! i = Ended" using that i(1) by (auto simp: list_all_length)
      then show False using i(2) by simp
    qed
    then show ?thesis using that w by simp
  qed
  have a: "\<not> list_all (\<lambda>w. w = Ended) (su_workers s)" using i by (auto simp: list_all_length)
  show ?thesis using h k t a m unfolding result_honest_def by (cases "su_main s") auto
qed

lemma honest_main_step:
  assumes h: "result_honest s" and inv: "supervision_inv W s" and step: "main_step W installed (su_main s) s = Some s'"
  shows "result_honest s'"
proof (cases "su_main s")
  case (Joining j r)
  show ?thesis
  proof (cases "j < length (su_workers s)")
    case more: True
    then have o: "thread_over (su_workers s ! j)" and s': "s' = s\<lparr>su_main := Joining (Suc j) (joined (su_workers s ! j) r)\<rparr>"
      using step Joining by (auto split: if_splits)
    have none: "su_ready s = []" using inv Joining by (simp add: supervision_inv_def messages_counted_def)
    show ?thesis
    proof (cases "joined (su_workers s ! j) r = Inr ()")
      case fine: True
      then have r: "r = Inr ()" "\<not> panicked (su_workers s ! j)" by (auto simp: joined_def split: if_splits)
      have old: "failure_known s" "list_all (\<lambda>w. w = Ended) (take j (su_workers s))" using h Joining r(1) by (simp_all add: result_honest_def)
      have "su_workers s ! j \<noteq> Failed" using old(1) none nth_mem[OF more] by (force simp: failure_known_def)
      then have "su_workers s ! j = Ended" using o r(2) by (cases "su_workers s ! j") (auto simp: panicked_def)
      then show ?thesis using old more s' by (simp add: result_honest_def failure_known_def take_Suc_conv_app_nth)
    next
      case bad: False
      then show ?thesis using s' by (simp add: result_honest_def)
    qed
  next
    case over: False
    then show ?thesis using step Joining h by (auto simp: result_honest_def)
  qed
next
  case (Collecting k f)
  then show ?thesis using step h
    by (auto simp: result_honest_def failure_known_def split: if_splits list.splits sum.splits option.splits)
next
  case (Stopping st r)
  show ?thesis
  proof (cases "st = Calling []")
    case called: True
    then show ?thesis using step Stopping h by (auto simp: result_honest_def failure_known_def)
  next
    case call: False
    then obtain st' s1 where f: "stopper_step By_Main st s = Some (st', s1)" and s': "s' = s1\<lparr>su_main := Stopping st' r\<rparr>"
      using step Stopping by auto
    then show ?thesis using h Stopping stopper_keeps[OF f] by (simp add: result_honest_def failure_known_def)
  qed
qed (use step h in \<open>auto simp: result_honest_def failure_known_def split: if_splits list.splits\<close>)

lemma honest_worker_step:
  assumes "result_honest s" "i < length (su_workers s)" "worker_step build r i (su_workers s ! i) s = Some s'"
  shows "result_honest s'"
proof -
  obtain w where "su_workers s' = (su_workers s)[i := w]" "su_main s' = su_main s" "\<not> thread_over (su_workers s ! i)"
    "set (su_ready s) \<subseteq> set (su_ready s')" "w = Failed \<longrightarrow> (\<exists>e. Inl e \<in> set (su_ready s'))"
    using assms(3) by (cases "su_workers s ! i") (force split: sum.splits if_splits list.splits)+
  then show ?thesis using honest_worker[OF assms(1) _ _ assms(2)] by blast
qed

lemma supervised_honest: "supervised build W faults s \<Longrightarrow> result_honest s"
proof (induction rule: supervised.induct)
  case supervised_start
  show ?case by (simp add: supervision_start_def result_honest_def failure_known_def)
next
  case (supervised_step s m s')
  have h: "result_honest s" and inv: "supervision_inv W s" using supervised_step supervised_inv by blast+
  from supervised_step(2) show ?case
  proof cases
    case (by_main installed)
    then show ?thesis using honest_main_step[OF h inv] by blast
  next
    case (by_worker i r)
    then show ?thesis using honest_worker_step[OF h] by blast
  next
    case (engine_ends i r)
    then show ?thesis by (intro honest_worker[OF h, of s' i "Leaving r"]) auto
  next
    case by_signal
    then show ?thesis using h signal_keeps[of s s'] by (cases "su_main s") (simp_all add: result_honest_def failure_known_def)
  next
    case spawning_fails
    then show ?thesis by (auto simp: spawn_fails_def result_honest_def split: if_splits)
  next
    case (build_panics i)
    then show ?thesis by (intro honest_worker[OF h, of s' i "Crashed False"]) auto
  next
    case (engine_panics i)
    then show ?thesis by (intro honest_worker[OF h, of s' i "Crashed True"]) auto
  qed
qed

section \<open>Schedules\<close>

text \<open>The states that a list of moves leads to, with a signal handler that is installed and engines that
  end well.\<close>

fun play :: "(nat \<Rightarrow> cli_error + unit) \<Rightarrow> nat \<Rightarrow> move list \<Rightarrow> supervision \<Rightarrow> supervision option" where
  "play build W [] s = Some s"
| "play build W (Main_Moves # ms) s = Option.bind (main_step W True (su_main s) s) (play build W ms)"
| "play build W (Worker_Moves i # ms) s =
     (if i < length (su_workers s) then Option.bind (worker_step build (Inr ()) i (su_workers s ! i) s) (play build W ms) else None)"
| "play build W (Signal_Moves # ms) s = Option.bind (signal_step s) (play build W ms)"
| "play build W (m # ms) s = None"

lemma play_supervised:
  "play build W ms s = Some s' \<Longrightarrow> supervised build W faults s \<Longrightarrow> supervised build W faults s'"
proof (induction build W ms s rule: play.induct)
  case (2 build W ms s)
  then obtain t where "main_step W True (su_main s) s = Some t" "play build W ms t = Some s'" by (auto simp: Option.bind_eq_Some_conv)
  then show ?case using 2 by_main supervised_step[of build W faults s Main_Moves t] by (simp add: fault_def)
next
  case (3 build W i ms s)
  then obtain t where "i < length (su_workers s)" "worker_step build (Inr ()) i (su_workers s ! i) s = Some t" "play build W ms t = Some s'"
    by (auto simp: Option.bind_eq_Some_conv split: if_splits)
  then show ?case using 3 by_worker supervised_step[of build W faults s "Worker_Moves i" t] by (simp add: fault_def)
next
  case (4 build W ms s)
  then obtain t where "signal_step s = Some t" "play build W ms t = Some s'" by (auto simp: Option.bind_eq_Some_conv)
  then show ?case using 4 by_signal supervised_step[of build W faults s Signal_Moves t] by (simp add: fault_def)
qed simp_all

lemma play_from_start: "play build W ms supervision_start = Some s \<Longrightarrow> supervised build W faults s"
  using play_supervised supervised_start by blast

text \<open>Two engines start, the signal comes, and both shut down.\<close>

definition start_two :: "move list" where
  "start_two =
     [Main_Moves, Main_Moves, Main_Moves, Worker_Moves 0, Worker_Moves 1, Worker_Moves 0, Worker_Moves 1,
      Main_Moves, Main_Moves, Main_Moves, Main_Moves]"

definition stop_two :: "move list" where
  "stop_two =
     [Signal_Moves, Signal_Moves, Worker_Moves 0, Signal_Moves, Signal_Moves, Worker_Moves 1, Signal_Moves, Signal_Moves,
      Worker_Moves 0, Worker_Moves 0, Worker_Moves 1, Worker_Moves 1,
      Main_Moves, Main_Moves, Main_Moves, Main_Moves, Main_Moves, Main_Moves, Main_Moves]"

definition after :: "move list \<Rightarrow> supervision" where
  "after ms = the (play (\<lambda>_. Inr ()) 2 ms supervision_start)"

text \<open>The engine of the first worker cannot be built, and the second worker finds that out.\<close>

definition one_fails :: "nat \<Rightarrow> cli_error + unit" where
  "one_fails i = (if i = 0 then Inl Cli_Io else Inr ())"

definition start_one_fails :: "move list" where
  "start_one_fails =
     [Main_Moves, Main_Moves, Main_Moves, Worker_Moves 0, Worker_Moves 0, Worker_Moves 1, Worker_Moves 1,
      Main_Moves, Main_Moves, Main_Moves, Main_Moves]"

lemma after_signal_two: "play (\<lambda>_. Inr ()) 2 (start_two @ take 2 stop_two) supervision_start = Some (after (start_two @ take 2 stop_two))"
  unfolding after_def start_two_def stop_two_def supervision_start_def by (simp add: set_worker_def signal_step_def)

lemma after_stop_two: "play (\<lambda>_. Inr ()) 2 (start_two @ stop_two) supervision_start = Some (after (start_two @ stop_two))"
  unfolding after_def start_two_def stop_two_def supervision_start_def
  by (simp add: set_worker_def signal_step_def map_err_def joined_def panicked_def)

section \<open>Properties\<close>





text \<open>
  A worker that finds the start cancelled calls \<open>shutdown\<close> on its own engine before running it, and waits
  for an answer that only the running engine gives. When one engine cannot be built and another is built
  after that, neither thread moves again, and the error is never reported.
\<close>

theorem cancelled_start_hangs:
  "\<exists>s. supervised one_fails 2 False s \<and> su_main s = Stopping (Awaiting 1 []) (Inl Cli_Io) \<and> (\<forall>m s'. \<not> supervision_step one_fails 2 m s s')"
proof -
  define s where "s = \<lparr>su_main = Stopping (Awaiting 1 []) (Inl Cli_Io), su_workers = [Failed, Self_Stopping],
    su_queues = (\<lambda>_. [])(Suc 0 := [By_Worker, By_Main]), su_ready = [], su_done = [], su_cancelled = True,
    su_handles = [Suc 0], su_armed = False, su_signal = None\<rparr>"
  have "play one_fails 2 start_one_fails supervision_start = Some s"
    unfolding start_one_fails_def supervision_start_def s_def by (simp add: set_worker_def one_fails_def)
  then have "supervised one_fails 2 False s" by (rule play_from_start)
  moreover have "\<not> supervision_step one_fails 2 m s s'" for m s'
  proof
    assume "supervision_step one_fails 2 m s s'"
    then show False
      by cases (auto simp: s_def signal_step_def spawn_fails_def less_Suc_eq)
  qed
  ultimately show ?thesis by (auto simp: s_def)
qed

end
