(* ===== verification/Wakes.thy ===== *)
theory Wakes
  imports Module_Io "HOL-Library.Multiset"
begin

text \<open>
  Who is woken, and for how long a waker lives (\<open>stack.rs\<close>: \<open>SharedStackBridge\<close>, \<open>PortWake\<close>;
  \<open>loader.rs\<close>: \<open>WakeCall\<close>; \<open>engine.rs\<close>: \<open>wake_handle\<close>).

  The bridge keeps weak references to the wakers of its ports, here addresses; \<open>pw_ports\<close> holds the
  wakers of the ports that are alive. The wake handles that modules are given count their references;
  \<open>None\<close> stands for an access to memory that was freed.
\<close>

section \<open>The wakers of the ports\<close>

record 'w port_wakes =
  pw_wakes :: "nat list"
  pw_ports :: "nat \<Rightarrow> 'w option option"
  pw_next :: nat

definition port_wakes_new :: "'w port_wakes" where
  "port_wakes_new = \<lparr>pw_wakes = [], pw_ports = Map.empty, pw_next = 0\<rparr>"

text \<open>A port is created with a waker of its own, a flow with two.\<close>

definition add_wake :: "'w port_wakes \<Rightarrow> 'w port_wakes" where
  "add_wake s = s\<lparr>pw_wakes := pw_wakes s @ [pw_next s], pw_ports := (pw_ports s)(pw_next s \<mapsto> None), pw_next := Suc (pw_next s)\<rparr>"

definition add_wake_pair :: "'w port_wakes \<Rightarrow> 'w port_wakes" where
  "add_wake_pair s = add_wake (add_wake s)"

text \<open>A port answers that it has to wait, and a port is dropped.\<close>

definition port_pending :: "nat \<Rightarrow> 'w \<Rightarrow> 'w port_wakes \<Rightarrow> 'w port_wakes" where
  "port_pending p w s = (if pw_ports s p = None then s else s\<lparr>pw_ports := (pw_ports s)(p \<mapsto> Some w)\<rparr>)"

definition port_drop :: "nat \<Rightarrow> 'w port_wakes \<Rightarrow> 'w port_wakes" where
  "port_drop p s = s\<lparr>pw_ports := (pw_ports s)(p := None)\<rparr>"

text \<open>\<open>retain\<close> over the references: what is kept, the ports, and who was woken, in order.\<close>

fun retain_wakes :: "nat list \<Rightarrow> (nat \<Rightarrow> 'w option option) \<Rightarrow> nat list \<times> (nat \<Rightarrow> 'w option option) \<times> 'w list" where
  "retain_wakes [] ports = ([], ports, [])"
| "retain_wakes (p # ps) ports =
     (case ports p of
        None \<Rightarrow> retain_wakes ps ports
      | Some None \<Rightarrow> (case retain_wakes ps ports of (kept, ports, woken) \<Rightarrow> (p # kept, ports, woken))
      | Some (Some w) \<Rightarrow>
          (case retain_wakes ps (ports(p \<mapsto> None)) of (kept, ports, woken) \<Rightarrow> (p # kept, ports, w # woken)))"

definition poll_wakes :: "'w port_wakes \<Rightarrow> 'w port_wakes \<times> 'w list" where
  "poll_wakes s =
     (case retain_wakes (pw_wakes s) (pw_ports s) of (kept, ports, woken) \<Rightarrow> (s\<lparr>pw_wakes := kept, pw_ports := ports\<rparr>, woken))"

definition has_work :: "'w port_wakes \<Rightarrow> bool" where
  "has_work s = list_ex (\<lambda>p. pw_ports s p \<noteq> None) (pw_wakes s)"

datatype 'w wake_op = Port_Created | Flow_Opened | Port_Waits nat 'w | Port_Dropped nat | Stack_Polled

fun wake_step :: "'w wake_op \<Rightarrow> 'w port_wakes \<Rightarrow> 'w port_wakes" where
  "wake_step Port_Created s = add_wake s"
| "wake_step Flow_Opened s = add_wake_pair s"
| "wake_step (Port_Waits p w) s = port_pending p w s"
| "wake_step (Port_Dropped p) s = port_drop p s"
| "wake_step Stack_Polled s = fst (poll_wakes s)"

section \<open>Every waiting port is woken\<close>

definition waiting :: "(nat \<Rightarrow> 'w option option) \<Rightarrow> nat \<Rightarrow> bool" where
  "waiting ports p \<longleftrightarrow> (\<exists>w. ports p = Some (Some w))"

definition stored_waker :: "(nat \<Rightarrow> 'w option option) \<Rightarrow> nat \<Rightarrow> 'w" where
  "stored_waker ports p = the (the (ports p))"

lemma retain_wakes_spec:
  assumes "distinct ps"
  shows "retain_wakes ps ports =
    (filter (\<lambda>p. ports p \<noteq> None) ps, (\<lambda>p. if p \<in> set ps then map_option (\<lambda>_. None) (ports p) else ports p),
     map (stored_waker ports) (filter (waiting ports) ps))"
  using assms
proof (induction ps arbitrary: ports)
  case Nil
  then show ?case by simp
next
  case (Cons p ps)
  then have d: "distinct ps" "p \<notin> set ps" by auto
  show ?case
  proof (cases "ports p")
    case None
    have "(\<lambda>q. if q \<in> set ps then map_option (\<lambda>_. None) (ports q) else ports q)
        = (\<lambda>q. if q \<in> set (p # ps) then map_option (\<lambda>_. None) (ports q) else ports q)" using None by auto
    then show ?thesis using None Cons.IH[OF d(1)] by (simp add: waiting_def)
  next
    case (Some x)
    show ?thesis
    proof (cases x)
      case none: None
      have "(\<lambda>q. if q \<in> set ps then map_option (\<lambda>_. None) (ports q) else ports q)
          = (\<lambda>q. if q \<in> set (p # ps) then map_option (\<lambda>_. None) (ports q) else ports q)" using Some none by auto
      then show ?thesis using Some none Cons.IH[OF d(1)] by (simp add: waiting_def)
    next
      case w: (Some w)
      let ?ports = "ports(p \<mapsto> None)"
      have f: "filter (\<lambda>q. ?ports q \<noteq> None) ps = filter (\<lambda>q. ports q \<noteq> None) ps"
        "filter (waiting ?ports) ps = filter (waiting ports) ps"
        by (rule filter_cong, simp, use d(2) in \<open>auto simp: waiting_def\<close>)+
      have m: "map (stored_waker ?ports) (filter (waiting ports) ps) = map (stored_waker ports) (filter (waiting ports) ps)"
        using d(2) by (auto simp: stored_waker_def)
      have g: "(\<lambda>q. if q \<in> set ps then map_option (\<lambda>_. None) (?ports q) else ?ports q)
          = (\<lambda>q. if q \<in> set (p # ps) then map_option (\<lambda>_. None) (ports q) else ports q)" using Some w d(2) by auto
      note r = Cons.IH[OF d(1), of ?ports, unfolded f m g]
      have "waiting ports p" "stored_waker ports p = w" using Some w by (simp_all add: waiting_def stored_waker_def)
      then show ?thesis unfolding retain_wakes.simps r using Some w by simp
    qed
  qed
qed

definition wakes_inv :: "'w port_wakes \<Rightarrow> bool" where
  "wakes_inv s \<longleftrightarrow> distinct (pw_wakes s) \<and> (\<forall>p \<in> set (pw_wakes s). p < pw_next s) \<and> dom (pw_ports s) \<subseteq> set (pw_wakes s)"

lemma poll_wakes_spec:
  assumes "wakes_inv s"
  shows "poll_wakes s =
    (s\<lparr>pw_wakes := filter (\<lambda>p. pw_ports s p \<noteq> None) (pw_wakes s), pw_ports := (\<lambda>p. map_option (\<lambda>_. None) (pw_ports s p))\<rparr>,
     map (stored_waker (pw_ports s)) (filter (waiting (pw_ports s)) (pw_wakes s)))"
proof -
  have "(\<lambda>p. if p \<in> set (pw_wakes s) then map_option (\<lambda>_. None) (pw_ports s p) else pw_ports s p) = (\<lambda>p. map_option (\<lambda>_. None) (pw_ports s p))"
  proof
    fix p
    have "pw_ports s p = None" if "p \<notin> set (pw_wakes s)" using assms that by (auto simp: wakes_inv_def)
    then show "(if p \<in> set (pw_wakes s) then map_option (\<lambda>_. None) (pw_ports s p) else pw_ports s p) = map_option (\<lambda>_. None) (pw_ports s p)"
      by auto
  qed
  then show ?thesis using assms by (simp add: poll_wakes_def retain_wakes_spec wakes_inv_def)
qed

lemma add_wake_inv: "wakes_inv s \<Longrightarrow> wakes_inv (add_wake s)"
  by (auto simp: wakes_inv_def add_wake_def less_Suc_eq split: if_splits)

lemma wake_step_inv:
  assumes "wakes_inv s"
  shows "wakes_inv (wake_step op s)"
proof (cases op)
  case (Port_Waits p w)
  then show ?thesis using assms by (auto simp: wakes_inv_def port_pending_def split: if_splits)
next
  case (Port_Dropped p)
  then show ?thesis using assms by (auto simp: wakes_inv_def port_drop_def split: if_splits)
next
  case Stack_Polled
  then show ?thesis using assms by (auto simp: poll_wakes_spec wakes_inv_def)
qed (use assms add_wake_inv in \<open>auto simp: add_wake_pair_def\<close>)

lemma wakes_run_inv: "wakes_inv (fold wake_step ops port_wakes_new)"
proof -
  have "wakes_inv (fold wake_step ops s)" if "wakes_inv s" for s :: "'a port_wakes"
    using that by (induction ops arbitrary: s) (simp_all add: wake_step_inv)
  then show ?thesis by (simp add: wakes_inv_def port_wakes_new_def)
qed

section \<open>The references of a wake handle\<close>

text \<open>The strong counts of the wakers that are allocated, and who was woken.\<close>

record wake_heap =
  wh_counts :: "nat \<rightharpoonup> nat"
  wh_woken :: "nat list"

definition wake_call_new :: "nat \<Rightarrow> wake_heap \<Rightarrow> wake_heap option" where
  "wake_call_new a h = (if wh_counts h a = None then Some (h\<lparr>wh_counts := (wh_counts h)(a \<mapsto> 1)\<rparr>) else None)"

definition arc_increment :: "nat \<Rightarrow> wake_heap \<Rightarrow> wake_heap option" where
  "arc_increment a h = map_option (\<lambda>n. h\<lparr>wh_counts := (wh_counts h)(a \<mapsto> Suc n)\<rparr>) (wh_counts h a)"

definition arc_decrement :: "nat \<Rightarrow> wake_heap \<Rightarrow> wake_heap option" where
  "arc_decrement a h =
     map_option (\<lambda>n. h\<lparr>wh_counts := (wh_counts h)(a := (if n \<le> 1 then None else Some (n - 1)))\<rparr>) (wh_counts h a)"

definition wake_call_drop :: "nat \<Rightarrow> wake_heap \<Rightarrow> wake_heap option" where
  "wake_call_drop a h = arc_decrement a h"

text \<open>The functions of the handle; the context may be null.\<close>

definition ffi_wake :: "nat option \<Rightarrow> wake_heap \<Rightarrow> wake_heap option" where
  "ffi_wake context h =
     (case context of
        None \<Rightarrow> Some h
      | Some a \<Rightarrow> if wh_counts h a = None then None else Some (h\<lparr>wh_woken := wh_woken h @ [a]\<rparr>))"

definition ffi_wake_retain :: "nat option \<Rightarrow> wake_heap \<Rightarrow> (wake_heap \<times> u32) option" where
  "ffi_wake_retain context h =
     (case context of
        None \<Rightarrow> Some (h, STATUS_INVALID)
      | Some a \<Rightarrow> map_option (\<lambda>h. (h, STATUS_OK)) (arc_increment a h))"

definition ffi_wake_release :: "nat option \<Rightarrow> wake_heap \<Rightarrow> wake_heap option" where
  "ffi_wake_release context h = (case context of None \<Rightarrow> Some h | Some a \<Rightarrow> arc_decrement a h)"

datatype wake_use = Call_Begins nat | Call_Ends nat | Use_Wake "nat option" | Use_Retain "nat option" | Use_Release "nat option"

fun use_step :: "wake_use \<Rightarrow> wake_heap \<Rightarrow> wake_heap option" where
  "use_step (Call_Begins a) h = wake_call_new a h"
| "use_step (Call_Ends a) h = wake_call_drop a h"
| "use_step (Use_Wake c) h = ffi_wake c h"
| "use_step (Use_Retain c) h = map_option fst (ffi_wake_retain c h)"
| "use_step (Use_Release c) h = ffi_wake_release c h"

fun use_steps :: "wake_use list \<Rightarrow> wake_heap \<Rightarrow> wake_heap option" where
  "use_steps [] h = Some h"
| "use_steps (u # us) h = Option.bind (use_step u h) (use_steps us)"

text \<open>What the rules for wake handles allow: a handle is used inside the call that passed it, or with a
  reference that was retained, and every reference is released once. The calls that run, and what
  modules hold.\<close>

type_synonym wake_rules = "nat set \<times> (nat \<Rightarrow> nat)"

definition may_use :: "wake_rules \<Rightarrow> nat \<Rightarrow> bool" where
  "may_use st a \<longleftrightarrow> a \<in> fst st \<or> 0 < snd st a"

fun rule_step :: "wake_use \<Rightarrow> wake_rules \<Rightarrow> wake_rules option" where
  "rule_step (Call_Begins a) st = (if may_use st a then None else Some (insert a (fst st), snd st))"
| "rule_step (Call_Ends a) st = (if a \<in> fst st then Some (fst st - {a}, snd st) else None)"
| "rule_step (Use_Wake (Some a)) st = (if may_use st a then Some st else None)"
| "rule_step (Use_Retain (Some a)) st = (if may_use st a then Some (fst st, (snd st)(a := Suc (snd st a))) else None)"
| "rule_step (Use_Release (Some a)) st = (if 0 < snd st a then Some (fst st, (snd st)(a := snd st a - 1)) else None)"
| "rule_step _ st = Some st"

fun rule_steps :: "wake_use list \<Rightarrow> wake_rules \<Rightarrow> wake_rules option" where
  "rule_steps [] st = Some st"
| "rule_steps (u # us) st = Option.bind (rule_step u st) (rule_steps us)"

definition strong_count :: "wake_rules \<Rightarrow> nat \<Rightarrow> nat option" where
  "strong_count st a = (let n = of_bool (a \<in> fst st) + snd st a in if n = 0 then None else Some n)"

definition wakes_of :: "wake_use list \<Rightarrow> nat list" where
  "wakes_of us = concat (map (\<lambda>u. case u of Use_Wake (Some a) \<Rightarrow> [a] | _ \<Rightarrow> []) us)"

lemma strong_count_None [simp]: "strong_count st a = None \<longleftrightarrow> \<not> may_use st a"
  by (auto simp: strong_count_def may_use_def Let_def)

lemma use_step_counted:
  assumes "rule_step u st = Some st'" "wh_counts h = strong_count st"
  shows "\<exists>h'. use_step u h = Some h' \<and> wh_counts h' = strong_count st' \<and> wh_woken h' = wh_woken h @ wakes_of [u]"
proof (cases "(u, st)" rule: rule_step.cases)
  case (1 a t)
  then have "\<not> may_use st a" "st' = (insert a (fst st), snd st)" using assms(1) by (auto split: if_splits)
  then show ?thesis using assms(2) 1
    by (auto simp: wake_call_new_def strong_count_def may_use_def Let_def wakes_of_def)
next
  case (2 a t)
  then have "a \<in> fst st" "st' = (fst st - {a}, snd st)" using assms(1) by (auto split: if_splits)
  then show ?thesis using assms(2) 2
    by (auto simp: wake_call_drop_def arc_decrement_def strong_count_def Let_def wakes_of_def)
next
  case (3 a t)
  then have m: "may_use st a" and st': "st' = st" using assms(1) by (auto split: if_splits)
  then have "wh_counts h a \<noteq> None" using assms(2) by simp
  then show ?thesis using assms(2) 3 st' by (auto simp: ffi_wake_def wakes_of_def)
next
  case (4 a t)
  then have m: "may_use st a" and st': "st' = (fst st, (snd st)(a := Suc (snd st a)))" using assms(1) by (auto split: if_splits)
  then show ?thesis using assms(2) 4
    by (auto simp: ffi_wake_retain_def arc_increment_def strong_count_def may_use_def Let_def wakes_of_def)
next
  case (5 a t)
  then have "0 < snd st a" "st' = (fst st, (snd st)(a := snd st a - 1))" using assms(1) by (auto split: if_splits)
  then show ?thesis using assms(2) 5
    by (auto simp: ffi_wake_release_def arc_decrement_def strong_count_def Let_def wakes_of_def)
qed (use assms in \<open>auto simp: ffi_wake_def ffi_wake_retain_def ffi_wake_release_def wakes_of_def\<close>)

lemma use_steps_counted:
  assumes "rule_steps us st = Some st'" "wh_counts h = strong_count st"
  shows "\<exists>h'. use_steps us h = Some h' \<and> wh_counts h' = strong_count st' \<and> wh_woken h' = wh_woken h @ wakes_of us"
  using assms
proof (induction us arbitrary: st h)
  case Nil
  then show ?case by (simp add: wakes_of_def)
next
  case (Cons u us)
  then obtain st1 where u: "rule_step u st = Some st1" "rule_steps us st1 = Some st'" by (auto simp: Option.bind_eq_Some_conv)
  obtain h1 where h1: "use_step u h = Some h1" "wh_counts h1 = strong_count st1" "wh_woken h1 = wh_woken h @ wakes_of [u]"
    using use_step_counted[OF u(1) Cons.prems(2)] by blast
  obtain h' where "use_steps us h1 = Some h'" "wh_counts h' = strong_count st'" "wh_woken h' = wh_woken h1 @ wakes_of us"
    using Cons.IH[OF u(2) h1(2)] by blast
  moreover have "wakes_of (u # us) = wakes_of [u] @ wakes_of us" by (simp add: wakes_of_def)
  ultimately show ?case using h1 by simp
qed

section \<open>Properties\<close>

text \<open>
  C26: no port of the stack waits in vain: after any sequence of operations, as long as a port is alive
  the bridge says that it has work, so that the engine polls it; the poll wakes exactly the ports that
  had answered that they wait, each once and with its last waker, leaves none waiting, and forgets the
  ports that were dropped.
\<close>

theorem waiting_ports_are_woken:
  assumes "poll_wakes (fold wake_step ops port_wakes_new) = (s', woken)"
  shows "let s = fold wake_step ops port_wakes_new in
     (has_work s \<longleftrightarrow> (\<exists>p. pw_ports s p \<noteq> None))
     \<and> mset woken = image_mset (stored_waker (pw_ports s)) (mset_set {p. waiting (pw_ports s) p})
     \<and> pw_ports s' = (\<lambda>p. map_option (\<lambda>_. None) (pw_ports s p))
     \<and> distinct (pw_wakes s') \<and> set (pw_wakes s') = dom (pw_ports s)"
proof -
  define s where "s = fold wake_step ops port_wakes_new"
  have inv: "wakes_inv s" unfolding s_def by (rule wakes_run_inv)
  have eqs: "s' = s\<lparr>pw_wakes := filter (\<lambda>p. pw_ports s p \<noteq> None) (pw_wakes s), pw_ports := (\<lambda>p. map_option (\<lambda>_. None) (pw_ports s p))\<rparr>"
    "woken = map (stored_waker (pw_ports s)) (filter (waiting (pw_ports s)) (pw_wakes s))"
    using assms poll_wakes_spec[OF inv] unfolding s_def by simp_all
  have dom: "p \<in> set (pw_wakes s)" if "pw_ports s p \<noteq> None" for p using inv that by (auto simp: wakes_inv_def)
  have d: "distinct (pw_wakes s)" using inv by (simp add: wakes_inv_def)
  have work: "has_work s \<longleftrightarrow> (\<exists>p. pw_ports s p \<noteq> None)" using dom by (auto simp: has_work_def list_ex_iff)
  have "{p. waiting (pw_ports s) p} = set (filter (waiting (pw_ports s)) (pw_wakes s))" using dom by (auto simp: waiting_def)
  then have "mset_set {p. waiting (pw_ports s) p} = mset (filter (waiting (pw_ports s)) (pw_wakes s))"
    using mset_set_set[OF distinct_filter[OF d, of "waiting (pw_ports s)"]] by simp
  then have "mset woken = image_mset (stored_waker (pw_ports s)) (mset_set {p. waiting (pw_ports s) p})"
    using eqs(2) by simp
  moreover have "set (pw_wakes s') = dom (pw_ports s)" "distinct (pw_wakes s')" using dom d eqs(1) by auto
  moreover have "pw_ports s' = (\<lambda>p. map_option (\<lambda>_. None) (pw_ports s p))" using eqs(1) by simp
  ultimately show ?thesis using work unfolding s_def Let_def by blast
qed

definition two_waiting :: "nat wake_op list" where
  "two_waiting = [Flow_Opened, Port_Created, Port_Waits 0 7, Port_Waits 2 8, Port_Waits 0 9, Port_Dropped 1]"

theorem waiting_ports_are_woken_witness:
  "mset [9, 8] = image_mset (stored_waker (pw_ports (fold wake_step two_waiting port_wakes_new)))
     (mset_set {p. waiting (pw_ports (fold wake_step two_waiting port_wakes_new)) p})"
proof -
  have "snd (poll_wakes (fold wake_step two_waiting port_wakes_new)) = [9, 8]" by code_simp
  then show ?thesis
    using waiting_ports_are_woken[OF prod.collapse[symmetric], of two_waiting] by (simp add: Let_def)
qed

text \<open>
  The memory of a wake handle: as long as modules follow its rules, no call of \<open>wake\<close>, \<open>retain\<close> or
  \<open>release\<close> touches a waker that was freed, every call of \<open>wake\<close> reaches its waker, in order, and a waker
  is freed exactly when its call is over and every reference to it was released.
\<close>

theorem wake_handles_counted:
  assumes "rule_steps us ({}, \<lambda>_. 0) = Some st"
  shows "\<exists>h. use_steps us \<lparr>wh_counts = Map.empty, wh_woken = []\<rparr> = Some h \<and> wh_woken h = wakes_of us
    \<and> (\<forall>a. wh_counts h a = (if a \<notin> fst st \<and> snd st a = 0 then None else Some (of_bool (a \<in> fst st) + snd st a)))"
proof -
  have "wh_counts \<lparr>wh_counts = Map.empty, wh_woken = []\<rparr> = strong_count ({}, \<lambda>_. 0)"
    by (auto simp: strong_count_def)
  from use_steps_counted[OF assms this] obtain h where
    "use_steps us \<lparr>wh_counts = Map.empty, wh_woken = []\<rparr> = Some h" "wh_counts h = strong_count st" "wh_woken h = wakes_of us"
    by auto
  then show ?thesis by (auto simp: strong_count_def Let_def)
qed

definition retained_past_call :: "wake_use list" where
  "retained_past_call = [Call_Begins 4, Use_Retain (Some 4), Call_Ends 4, Use_Wake (Some 4), Use_Release (Some 4)]"

theorem wake_handles_counted_witness:
  "\<exists>h. use_steps retained_past_call \<lparr>wh_counts = Map.empty, wh_woken = []\<rparr> = Some h \<and> wh_woken h = [4] \<and> wh_counts h 4 = None"
proof -
  have "rule_steps retained_past_call ({}, \<lambda>_. 0) = Some ({}, (\<lambda>_. 0)(4 := 1, 4 := 0))"
    by (simp add: retained_past_call_def may_use_def)
  from wake_handles_counted[OF this] show ?thesis by (auto simp: retained_past_call_def wakes_of_def)
qed

end
