(* ===== verification/Spec2Isabelle.thy ===== *)
theory Spec2Isabelle
  imports Wire Handles Pump Config Stack_Ports Mux_Order Mux_Session Core_Registry Mux_Datagram Loader Host_Bridge Flow_Policy
    Deployment Engine Supervisor Wakes
begin

text \<open>
  A verification library for snolc, a tunnel engine in Rust that runs loadable modules: carriers give it
  byte streams to a peer, protections wrap them, policies decide about flows, adapters are the two ends
  of the flows. The sources are under \<open>src/crates\<close>.

  \<^bold>\<open>The program and its parts.\<close> \<open>Deployment::load\<close> reads the configuration, the module files and the package
  locks and loads the libraries; \<open>Engine::validate\<close> binds each tunnel to its modules. \<open>Engine::run\<close> creates
  the modules and loops: it takes a command, polls the virtual stack, the modules, the control socket and
  the tunnels, and tells the host what happened. A tunnel is established stage by stage (carrier,
  protection, policy handshake over the multiplexer, policy attachment); an established session accepts
  flows, asks the policy, resolves and opens them at adapters, and hands streams and datagrams of the
  multiplexer and of the virtual stack to modules as handles. Modules use them through the tables of the
  core and the SDK. The program \<open>snolc\<close> runs one engine, or several in threads that it supervises.

  \<^bold>\<open>Theories and sources.\<close> Every theory opens with what it models and with its parameters.
  \<^item> \<open>Snolc_Prelude\<close>: machine types, \<open>Result\<close> as a sum with the error left, \<open>Poll\<close>, checked arithmetic,
    big-endian integers, UTF-8. \<open>Codec_Spec\<close>, \<open>Io_Spec\<close>, \<open>Duplex\<close>, \<open>Accounting\<close>, \<open>Text_Limits\<close>: shared contracts
    and lemmas. \<open>Io_Spec\<close> has the traits of \<open>snolc-sdk/src/io.rs\<close>, \<open>Text_Limits\<close> the cut of text at a limit.
  \<^item> \<open>Wire\<close> (\<open>snolc/src/wire.rs\<close>) and \<open>Resolved\<close> (\<open>snolc-sdk/src/resolved.rs\<close>): the encodings.
  \<^item> \<open>Handles\<close> (\<open>handles.rs\<close>), \<open>Module_Io\<close> (\<open>snolc-abi\<close>, \<open>module_io.rs\<close>), \<open>Pump\<close> (\<open>pump.rs\<close>), \<open>Module_Sdk\<close> (\<open>module.rs\<close>,
    \<open>lib.rs\<close>): the SDK.
  \<^item> \<open>Config\<close> (\<open>config.rs\<close>), \<open>Module_Config\<close> (\<open>module_config.rs\<close>), \<open>Deployment\<close> (\<open>deployment.rs\<close>), \<open>Engine_Config\<close>
    (\<open>engine.rs\<close>: validation, logging setup): what is configured and loaded.
  \<^item> \<open>Loader\<close> and \<open>Module_Transport\<close> (\<open>loader.rs\<close>): descriptors, the life of an instance, the calls of the four
    class tables, the byte stream of a module.
  \<^item> \<open>Reassembly\<close>, \<open>Port_Pool\<close>, \<open>Device\<close>, \<open>Stack_Bridge\<close>, \<open>Stack_Ports\<close> (\<open>stack.rs\<close>): the virtual stack.
  \<^item> \<open>Mux\<close>, \<open>Mux_Order\<close>, \<open>Mux_Session\<close> (\<open>mux.rs\<close>): the multiplexer, the order of its bytes, its asynchronous
    operations. \<open>Core_Registry\<close>, \<open>Mux_Datagram\<close> (\<open>core_io.rs\<close>): the objects modules use, datagrams over a stream.
  \<^item> \<open>Flow_Support\<close>, \<open>Flow_Session\<close>, \<open>Flow_Policy\<close>, \<open>Tunnel\<close>, \<open>Host_Bridge\<close>, \<open>Engine\<close> (\<open>engine.rs\<close>, \<open>events.rs\<close>): flows of
    a session, the tunnels, the services for modules, the loop, its events and the handle.
  \<^item> \<open>Control\<close> (\<open>control.rs\<close>) and \<open>Logging\<close> (\<open>logging.rs\<close>): the control socket with its client, the log file.
  \<^item> \<open>Cli\<close> and \<open>Supervisor\<close> (\<open>snolc-cli/src/main.rs\<close>): the commands; the threads of \<open>run_engine\<close>.
  \<^item> \<open>Wakes\<close> (\<open>stack.rs\<close>, \<open>loader.rs\<close>): the wakers of the ports of the stack, the references of wake handles.

  A struct is a record and an enum a datatype with the source's fields and variants; an operation is one
  definition that takes and returns the state, with a branch for every early return. Integers are words
  where they wrap and natural numbers with checked operations where the code checks them. A panic or a
  loop that does not return is \<open>None\<close> or \<open>Panicked\<close>, so that a theorem which says that an operation
  returns is one. Hash maps are association lists, ordered maps lists sorted by their keys.

  \<^bold>\<open>Interfaces.\<close> \<open>codec\<close> and \<open>prefix_codec\<close> (interpreted by the four frames of the wire format and the
  resolved addresses), \<open>byte_io_contract\<close> and \<open>datagram_io_contract\<close> with their traced versions (by every
  module table), \<open>pump_ends\<close> and \<open>datagram_ends\<close> (by the pumps between module objects), \<open>handle_store\<close> (by the
  handle table), \<open>port_allocator\<close> (by the port pool), \<open>duplex_contract\<close> and \<open>duplex\<close> (by the stream of a
  module), \<open>framed_message\<close> (by the three frames of a session), \<open>socket_contract\<close> (by a socket that follows a
  script of arrivals and room).

  \<^bold>\<open>What is shown.\<close>
  \<^item> Flows: the policy decides before anything of a flow leaves the session, on every branch and however
    sessions and modules interleave (\<open>Flow_Policy\<close>); the metadata and the reasons that modules see are
    those of the wire (\<open>Flow_Support\<close>).
  \<^item> Tunnels: the stages are gone through one by one, within their time limits, and the errors for
    missing streams cannot occur (\<open>Tunnel\<close>).
  \<^item> The engine: the snapshot is exact after every turn, events are accounted for, the shutdown ends
    (\<open>Engine\<close>); control requests cross the socket whole and cannot exhaust it (\<open>Control\<close>), and the command
    line prints their answers (below); the log holds whole records whatever fails (\<open>Logging\<close>).
  \<^item> Threads: the supervisor of several engines leaves no thread behind, reports success only when all
    ended well, and is never stuck when all engines can be built (\<open>Supervisor\<close>); when one cannot, it may
    hang (\<open>cancelled_start_hangs\<close>). No port of the stack waits in vain, and the memory of a wake handle is
    freed exactly when nobody refers to it (\<open>Wakes\<close>).
  \<^item> Deployments: what loads can be bound, and comes from checked libraries (\<open>Deployment\<close>); \<open>validate\<close> is
    equivalent to the requirements over unbounded numbers (\<open>Config\<close>).
  \<^item> The multiplexer: per stream, bytes arrive in order and unchanged, the receive window is respected,
    nothing panics; stream counts of a session are exact; datagrams keep their boundaries.
  \<^item> The virtual stack: the account of bytes and ports is exact in every reachable state, no operation
    panics or loops, fragments in any order give the packet back.
  \<^item> The module boundary: answers of foreign code are checked, handles are never reused while live,
    registered objects answer as the object itself, pumps conserve bytes and datagrams.
  \<^item> The wire format: parsing inverts encoding, frames are canonical and self-delimiting.

  \<^bold>\<open>Loops.\<close> There is no fuel. \<open>pump_loop\<close>, \<open>drain_loop\<close>, \<open>enqueue\<close> and \<open>shutdown_loop\<close> are partial functions into
  options, and theorems show that they return: the pump by its budget, the drain by the finite queue, the
  log queue since its capacity is positive, the shutdown once the clock reaches its deadline. \<open>fill\<close>,
  \<open>flush_bytes\<close>, \<open>write_frame\<close>, \<open>fragment_loop\<close> and \<open>read_available\<close> are functions with a termination proof. The
  main loop of the engine is a step, \<open>engine_turn\<close>, and its runs an inductive relation, as are those of
  tunnels, sessions, connections, stacks, registries, the control server and the supervisor.

  \<^bold>\<open>Parameters.\<close> smoltcp is a record of functions with the laws \<open>smoltcp_ok\<close>; a module is a descriptor of
  arbitrary functions, of which only memory safety is assumed; the TOML reader, SHA-256, files, sockets,
  the clock, the dynamic loader, channels and the host are arguments. Each theorem that has a hypothesis
  about them has a witness with concrete functions.

  \<^bold>\<open>Not modelled.\<close> The wakers of the multiplexer and the flag that modules set when they wake the engine:
  the engine polls every session and every module in every turn, whoever was woken. The asynchronous
  executor: the engine's state belongs to one thread, a worker of the log takes atomic steps; only the
  threads of the command line are interleaved. Registered objects that call back into the registry
  while they are borrowed. Futures that are dropped while suspended, other than with the session that
  holds them. \<open>MuxStream\<close> as a transport of its own: it does not keep \<open>duplex_contract\<close>, since a retried
  write may report more than its slice (\<open>Mux_Order.write_count_exceeds_slice\<close>). The text of error messages,
  which are kept as the errors they describe. The types of the function pointers in \<open>snolc-abi\<close>, which are
  the types of the fields of the tables. Benchmarks, examples and fuzz targets.
\<close>

section \<open>From the command to the module and back\<close>


definition demo_answer :: "bytes \<Rightarrow> bytes \<Rightarrow> bytes + bytes" where
  "demo_answer name request = Inr (b_str ''ok'')"

definition demo_cli :: "(unit, unit, nat module_state, bytes \<times> nat, nat) cli_env" where
  "demo_cli =
     \<lparr>ce_deploy = etc_env, ce_toml = (\<lambda>_. None), ce_var = (\<lambda>_. None), ce_log_start = (\<lambda>_ _ _ _ _. Inl []), ce_bind = (\<lambda>_ _ _. Inl []),
      ce_events = (\<lambda>n. n), ce_read = (\<lambda>_. Some (b_str ''status'')), ce_client = served_client (serve (map (\<lambda>b. [[b]])) (replicate 21 1) demo_answer 16),
      ce_print = (\<lambda>_. True), ce_handler = True, ce_run = (\<lambda>_ _. Inr ()), ce_version = []\<rparr>"


end
